(* ===== verification/Dahdi_Prelude.thy ===== *)
theory Dahdi_Prelude
  imports Main "HOL-Library.Word"
begin

text \<open>
  What the components of the development share: the machine types, the constants of
  \<open>include/dahdi/user.h\<close> and \<open>include/dahdi/kernel.h\<close> that several of them use, C's wrap-around
  of \<open>int\<close> and \<open>short\<close>, bit strings read most significant bit first, and the interface
  \<open>lossy_fifo\<close> of a bounded first-in first-out queue that drops what it has no room for.
  The event ring, the conference queues and the channel buffers all provide that interface.
\<close>

unbundle bit_operations_syntax

section \<open>Machine types and constants\<close>

type_synonym byte = "8 word"
type_synonym u16 = "16 word"
type_synonym u32 = "32 word"

named_theorems wf_intros \<open>introduction rules of the well-formedness predicates\<close>
named_theorems bits_simps \<open>rules that read a word as a list of bits\<close>

abbreviation (input) DAHDI_CHUNKSIZE :: nat where "DAHDI_CHUNKSIZE \<equiv> 8"

abbreviation (input) EPERM :: int where "EPERM \<equiv> 1"
abbreviation (input) ENOENT :: int where "ENOENT \<equiv> 2"
abbreviation (input) ENXIO :: int where "ENXIO \<equiv> 6"
abbreviation (input) EAGAIN :: int where "EAGAIN \<equiv> 11"
abbreviation (input) ENOMEM :: int where "ENOMEM \<equiv> 12"
abbreviation (input) EFAULT :: int where "EFAULT \<equiv> 14"
abbreviation (input) EBUSY :: int where "EBUSY \<equiv> 16"
abbreviation (input) EEXIST :: int where "EEXIST \<equiv> 17"
abbreviation (input) EINVAL :: int where "EINVAL \<equiv> 22"
abbreviation (input) ENOTTY :: int where "ENOTTY \<equiv> 25"
abbreviation (input) ENOSPC :: int where "ENOSPC \<equiv> 28"
abbreviation (input) ENOSYS :: int where "ENOSYS \<equiv> 38"
abbreviation (input) ENODATA :: int where "ENODATA \<equiv> 61"
abbreviation (input) EINPROGRESS :: int where "EINPROGRESS \<equiv> 115"
abbreviation (input) ELAST :: int where "ELAST \<equiv> 500"

text \<open>The value a C \<open>int\<close> (\<open>short\<close>) holds after an assignment that may overflow it.\<close>

definition wrap_int :: "int \<Rightarrow> int" where
  "wrap_int x = signed_take_bit 31 x"

definition wrap_short :: "int \<Rightarrow> int" where
  "wrap_short x = signed_take_bit 15 x"

lemma wrap_int_id: "- (2 ^ 31) \<le> x \<Longrightarrow> x < 2 ^ 31 \<Longrightarrow> wrap_int x = x"
  by (simp add: wrap_int_def signed_take_bit_int_eq_self)

lemma wrap_short_id: "- 32768 \<le> x \<Longrightarrow> x < 32768 \<Longrightarrow> wrap_short x = x"
  by (simp add: wrap_short_def signed_take_bit_int_eq_self)

lemma wrap_short_range: "- 32768 \<le> wrap_short x" "wrap_short x < 32768"
  using signed_take_bit_int_greater_eq_minus_exp [of 15 x] signed_take_bit_int_less_exp [of 15 x]
  by (simp_all add: wrap_short_def)

text \<open>Shifts by one stay shifts.\<close>

declare push_bit_Suc [simp del] drop_bit_Suc [simp del]

text \<open>An update of a list, in range or not.\<close>

lemma nth_upd: "xs[i := v] ! j = (if i = j \<and> j < length xs then v else xs ! j)"
  by (cases "i < length xs") (auto simp: nth_list_update list_update_beyond)

section \<open>A word as a string of bits, most significant first\<close>

text \<open>
  \<open>top_bits n w\<close>: the \<open>n\<close> most significant bits of \<open>w\<close>, in the order a shift register
  gives them out. \<open>lsb_bits\<close>: the eight bits of a byte in the order HDLC sends them.
\<close>

definition top_bits :: "nat \<Rightarrow> 'a::len word \<Rightarrow> bool list" where
  "top_bits n w = map (\<lambda>i. bit w (LENGTH('a) - Suc i)) [0..<n]"

definition lsb_bits :: "byte \<Rightarrow> bool list" where
  "lsb_bits b = map (bit b) [0..<8]"

lemma length_top_bits [simp]: "length (top_bits n w) = n"
  by (simp add: top_bits_def)

lemma nth_top_bits [simp]: "i < n \<Longrightarrow> top_bits n (w :: 'a::len word) ! i = bit w (LENGTH('a) - Suc i)"
  by (simp add: top_bits_def)

lemma length_lsb_bits [simp]: "length (lsb_bits b) = 8"
  by (simp add: lsb_bits_def)

lemma nth_lsb_bits [simp]: "i < 8 \<Longrightarrow> lsb_bits b ! i = bit b i"
  by (simp add: lsb_bits_def)

lemma lsb_bits_inj: "lsb_bits a = lsb_bits b \<longleftrightarrow> a = b"
proof
  assume eq: "lsb_bits a = lsb_bits b"
  show "a = b"
  proof (rule bit_word_eqI)
    fix n assume "n < LENGTH(8)"
    then have "n < 8" by simp
    with eq show "bit a n \<longleftrightarrow> bit b n"
      by (metis nth_lsb_bits)
  qed
qed simp

section \<open>The interface of a bounded queue that drops what it has no room for\<close>

datatype 'a fifo_op = Enq 'a | Deq

text \<open>
  \<open>fifo_run enq deq accepts q ops\<close> runs the operations in order and returns the elements that
  were accepted, the elements that came out and the final queue.
\<close>

fun fifo_run :: "('a \<Rightarrow> 'q \<Rightarrow> 'q) \<Rightarrow> ('q \<Rightarrow> 'a option \<times> 'q) \<Rightarrow> ('q \<Rightarrow> bool) \<Rightarrow> 'q
    \<Rightarrow> 'a fifo_op list \<Rightarrow> 'a list \<times> 'a list \<times> 'q" where
  "fifo_run enq deq accepts q [] = ([], [], q)"
| "fifo_run enq deq accepts q (Enq x # ops) =
     (let (ins, outs, q') = fifo_run enq deq accepts (enq x q) ops
      in ((if accepts q then [x] else []) @ ins, outs, q'))"
| "fifo_run enq deq accepts q (Deq # ops) =
     (let (r, q1) = deq q; (ins, outs, q') = fifo_run enq deq accepts q1 ops
      in (ins, (case r of None \<Rightarrow> [] | Some x \<Rightarrow> [x]) @ outs, q'))"

fun ops_ok :: "('a \<Rightarrow> bool) \<Rightarrow> 'a fifo_op list \<Rightarrow> bool" where
  "ops_ok P [] = True"
| "ops_ok P (Enq x # ops) = (P x \<and> ops_ok P ops)"
| "ops_ok P (Deq # ops) = ops_ok P ops"

locale lossy_fifo =
  fixes inv :: "'q \<Rightarrow> bool"
    and elem_ok :: "'a \<Rightarrow> bool"
    and contents :: "'q \<Rightarrow> 'a list"
    and cap :: "'q \<Rightarrow> nat"
    and enq :: "'a \<Rightarrow> 'q \<Rightarrow> 'q"
    and deq :: "'q \<Rightarrow> 'a option \<times> 'q"
  assumes enq_inv: "inv q \<Longrightarrow> elem_ok x \<Longrightarrow> inv (enq x q)"
    and enq_cap: "inv q \<Longrightarrow> elem_ok x \<Longrightarrow> cap (enq x q) = cap q"
    and enq_contents: "inv q \<Longrightarrow> elem_ok x \<Longrightarrow>
      contents (enq x q) = (if length (contents q) < cap q then contents q @ [x] else contents q)"
    and deq_inv: "inv q \<Longrightarrow> inv (snd (deq q))"
    and deq_cap: "inv q \<Longrightarrow> cap (snd (deq q)) = cap q"
    and deq_empty: "inv q \<Longrightarrow> contents q = [] \<Longrightarrow> deq q = (None, q)"
    and deq_cons: "inv q \<Longrightarrow> contents q = x # xs \<Longrightarrow>
      fst (deq q) = Some x \<and> contents (snd (deq q)) = xs"
    and bound: "inv q \<Longrightarrow> length (contents q) \<le> cap q"
begin

text \<open>
  Whatever the interleaving of producers and consumers: what was in the queue, followed by
  what was accepted, is what came out, followed by what is left. Nothing is lost, duplicated
  or reordered once it was accepted, and the bound is never exceeded.
\<close>

lemma run_fifo:
  assumes "inv q" and "ops_ok elem_ok ops"
    and "fifo_run enq deq (\<lambda>q. length (contents q) < cap q) q ops = (ins, outs, q')"
  shows "contents q @ ins = outs @ contents q' \<and> inv q' \<and> cap q' = cap q"
  using assms
proof (induction ops arbitrary: q ins outs)
  case Nil
  then show ?case by simp
next
  case (Cons opn ops)
  show ?case
  proof (cases opn)
    case (Enq x)
    obtain ins1 where r: "fifo_run enq deq (\<lambda>q. length (contents q) < cap q) (enq x q) ops = (ins1, outs, q')"
      and ins: "ins = (if length (contents q) < cap q then [x] else []) @ ins1"
      using Cons.prems(3) Enq by (auto simp: Let_def split: prod.splits)
    have x: "elem_ok x" and ok: "ops_ok elem_ok ops" using Cons.prems(2) Enq by auto
    have "contents (enq x q) @ ins1 = outs @ contents q' \<and> inv q' \<and> cap q' = cap (enq x q)"
      using Cons.IH [OF enq_inv [OF Cons.prems(1) x] ok r] .
    then show ?thesis
      by (simp add: ins enq_contents [OF Cons.prems(1) x] enq_cap [OF Cons.prems(1) x] split: if_splits)
  next
    case Deq
    obtain r q1 where d: "deq q = (r, q1)" by (cases "deq q")
    obtain outs1 where run: "fifo_run enq deq (\<lambda>q. length (contents q) < cap q) q1 ops = (ins, outs1, q')"
      and outs: "outs = (case r of None \<Rightarrow> [] | Some x \<Rightarrow> [x]) @ outs1"
      using Cons.prems(3) Deq d by (auto simp: Let_def split: prod.splits)
    have q1: "inv q1" "cap q1 = cap q"
      using deq_inv [OF Cons.prems(1)] deq_cap [OF Cons.prems(1)] d by simp_all
    have "ops_ok elem_ok ops" using Cons.prems(2) Deq by simp
    then have IH: "contents q1 @ ins = outs1 @ contents q' \<and> inv q' \<and> cap q' = cap q1"
      using Cons.IH [OF q1(1) _ run] by blast
    show ?thesis
      using IH deq_empty [OF Cons.prems(1)] deq_cons [OF Cons.prems(1)] d q1(2)
      by (cases "contents q") (auto simp: outs)
  qed
qed

lemma run_bound:
  assumes "inv q" and "ops_ok elem_ok ops"
    and "fifo_run enq deq (\<lambda>q. length (contents q) < cap q) q ops = (ins, outs, q')"
  shows "length (contents q') \<le> cap q"
  using run_fifo [OF assms] bound by fastforce

end

end
