(* ===== verification/Ring.thy ===== *)
theory Ring
  imports Dahdi_Prelude
begin

text \<open>
  The index protocol shared by the conference queues (\<open>struct confq\<close>) and by the read and write
  buffers of a channel: an array of \<open>n\<close> slots, the index \<open>i\<close> the next element goes to, the index
  \<open>o\<close> the next element comes from, \<open>i = -1\<close> when there is no room and \<open>o = -1\<close> when there is
  nothing to take. The functions here are the index arithmetic of \<open>__buf_push\<close>, \<open>__buf_pull\<close>,
  \<open>dahdi_chan_write\<close>, \<open>dahdi_chan_read\<close>, \<open>dahdi_hdlc_finish\<close> and their kin; the lemmas say that
  the slots in use form a queue. They need at least two slots: with one, a push onto the empty
  ring leaves \<open>i = o\<close>, which the protocol cannot tell from the empty ring.
\<close>

definition ring_push :: "int \<Rightarrow> int \<Rightarrow> int \<Rightarrow> int \<times> int" where
  "ring_push n i out =
     (let i' = (i + 1) mod n;
          i'' = (if i' = out then -1 else i');
          out' = (if out < 0 then i else out)
      in (i'', out'))"

definition ring_pull :: "int \<Rightarrow> int \<Rightarrow> int \<Rightarrow> int \<times> int" where
  "ring_pull n i out =
     (let out' = (out + 1) mod n;
          out'' = (if out' = i then -1 else out');
          i' = (if i < 0 then out else i)
      in (i', out''))"

definition ring_ok :: "int \<Rightarrow> int \<Rightarrow> int \<Rightarrow> bool" where
  "ring_ok n i out \<longleftrightarrow> 2 \<le> n \<and> -1 \<le> i \<and> i < n \<and> -1 \<le> out \<and> out < n \<and> i \<noteq> out"

definition ring_count :: "int \<Rightarrow> int \<Rightarrow> int \<Rightarrow> nat" where
  "ring_count n i out =
     (if i < 0 then nat n else if out < 0 then 0
      else if out \<le> i then nat (i - out) else nat (n - out + i))"

text \<open>The slots in use, oldest first.\<close>

definition ring_slots :: "int \<Rightarrow> int \<Rightarrow> int \<Rightarrow> nat list" where
  "ring_slots n i out = map (\<lambda>k. nat ((out + int k) mod n)) [0..<ring_count n i out]"

lemma ring_okI [wf_intros]:
  "2 \<le> n \<Longrightarrow> -1 \<le> i \<Longrightarrow> i < n \<Longrightarrow> -1 \<le> out \<Longrightarrow> out < n \<Longrightarrow> i \<noteq> out \<Longrightarrow> ring_ok n i out"
  by (simp add: ring_ok_def)

lemma ring_ok_init [simp]: "ring_ok n 0 (-1) \<longleftrightarrow> 2 \<le> n"
  by (auto simp: ring_ok_def)

lemma length_ring_slots [simp]: "length (ring_slots n i out) = ring_count n i out"
  by (simp add: ring_slots_def)

lemma ring_count_empty: "ring_ok n i out \<Longrightarrow> ring_count n i out = 0 \<longleftrightarrow> out = -1"
  by (auto simp: ring_ok_def ring_count_def)

lemma ring_count_full: "ring_ok n i out \<Longrightarrow> ring_count n i out = nat n \<longleftrightarrow> i = -1"
  by (auto simp: ring_ok_def ring_count_def)

lemma ring_count_le: "ring_ok n i out \<Longrightarrow> ring_count n i out \<le> nat n"
  by (auto simp: ring_ok_def ring_count_def)

lemma ring_slots_empty [simp]: "ring_slots n 0 (-1) = []"
  by (simp add: ring_slots_def ring_count_def)

lemma ring_slots_Nil_iff: "ring_ok n i out \<Longrightarrow> ring_slots n i out = [] \<longleftrightarrow> out = -1"
  using ring_count_empty [of n i out] by (simp add: ring_slots_def)

lemma mod_succ_ring: "0 \<le> (i::int) \<Longrightarrow> i < n \<Longrightarrow> (i + 1) mod n = (if i + 1 = n then 0 else i + 1)"
  by (auto simp: mod_pos_pos_trivial)

lemma ring_slot_mod:
  assumes "0 \<le> (p::int)" "p < n" "0 \<le> q" "q < n"
  shows "(p + q) mod n = (if p + q < n then p + q else p + q - n)"
proof (cases "p + q < n")
  case True
  then show ?thesis using assms by (simp add: mod_pos_pos_trivial)
next
  case False
  then have "(p + q - n) mod n = p + q - n" using assms by (intro mod_pos_pos_trivial) auto
  then show ?thesis using False by simp
qed

lemma ring_slots_nth:
  assumes "ring_ok n i out" "k < ring_count n i out"
  shows "ring_slots n i out ! k = nat (if out + int k < n then out + int k else out + int k - n)"
proof -
  have "0 \<le> out" "out < n" "int k < n"
    using assms by (auto simp: ring_ok_def ring_count_def split: if_splits)
  then show ?thesis
    using assms(2) by (simp add: ring_slots_def ring_slot_mod)
qed

lemma ring_slots_lt: "ring_ok n i out \<Longrightarrow> s \<in> set (ring_slots n i out) \<Longrightarrow> s < nat n"
  by (auto simp: ring_slots_def ring_ok_def nat_less_iff)

lemma ring_slots_distinct:
  assumes "ring_ok n i out"
  shows "distinct (ring_slots n i out)"
proof -
  have "\<And>j k. j < ring_count n i out \<Longrightarrow> k < ring_count n i out \<Longrightarrow>
      ring_slots n i out ! j = ring_slots n i out ! k \<Longrightarrow> j = k"
    using assms by (auto simp: ring_slots_nth ring_ok_def ring_count_def split: if_splits)
  then show ?thesis
    by (auto simp: distinct_conv_nth)
qed

lemma ring_push_ok:
  assumes "ring_ok n i out" "i \<noteq> -1"
  shows "ring_ok n (fst (ring_push n i out)) (snd (ring_push n i out))"
  using assms by (auto simp: ring_ok_def ring_push_def Let_def mod_succ_ring)

lemma ring_pull_ok:
  assumes "ring_ok n i out" "out \<noteq> -1"
  shows "ring_ok n (fst (ring_pull n i out)) (snd (ring_pull n i out))"
  using assms by (auto simp: ring_ok_def ring_pull_def Let_def mod_succ_ring)

lemma ring_push_count:
  assumes "ring_ok n i out" "i \<noteq> -1" "ring_push n i out = (i', out')"
  shows "ring_count n i' out' = Suc (ring_count n i out)"
  using assms
  by (auto simp: ring_ok_def ring_push_def ring_count_def Let_def mod_succ_ring split: if_splits)

lemma ring_pull_count:
  assumes "ring_ok n i out" "out \<noteq> -1" "ring_pull n i out = (i', out')"
  shows "Suc (ring_count n i' out') = ring_count n i out"
  using assms
  by (auto simp: ring_ok_def ring_pull_def ring_count_def Let_def mod_succ_ring split: if_splits)

text \<open>A push appends the slot \<open>i\<close>, which was not in use; a pull removes the slot \<open>o\<close>.\<close>

lemma ring_push_slots:
  assumes ok: "ring_ok n i out" "i \<noteq> -1" and push: "ring_push n i out = (i', out')"
  shows "ring_slots n i' out' = ring_slots n i out @ [nat i]"
proof (rule nth_equalityI)
  have ok': "ring_ok n i' out'" using ring_push_ok [OF ok] push by simp
  have cnt: "ring_count n i' out' = Suc (ring_count n i out)"
    using ring_push_count [OF ok push] .
  show "length (ring_slots n i' out') = length (ring_slots n i out @ [nat i])"
    using cnt by simp
  fix k assume "k < length (ring_slots n i' out')"
  then have k: "k < Suc (ring_count n i out)" using cnt by simp
  show "ring_slots n i' out' ! k = (ring_slots n i out @ [nat i]) ! k"
  proof (cases "k < ring_count n i out")
    case True
    then have "out \<noteq> -1" using ok ring_count_empty by fastforce
    then have "out' = out" using push ok by (auto simp: ring_push_def ring_ok_def Let_def)
    then show ?thesis using True k cnt ok ok' by (simp add: ring_slots_nth nth_append)
  next
    case False
    then have "k = ring_count n i out" using k by simp
    then show ?thesis
      using cnt ok ok' push
      by (auto simp: ring_slots_nth nth_append ring_push_def ring_ok_def ring_count_def Let_def
          split: if_splits)
  qed
qed

lemma ring_push_fresh:
  assumes "ring_ok n i out" "i \<noteq> -1"
  shows "nat i \<notin> set (ring_slots n i out)"
proof -
  obtain i' out' where p: "ring_push n i out = (i', out')" by (cases "ring_push n i out")
  have "distinct (ring_slots n i' out')"
    using ring_slots_distinct ring_push_ok [OF assms] p by simp
  then show ?thesis using ring_push_slots [OF assms p] by simp
qed

lemma ring_pull_slots:
  assumes ok: "ring_ok n i out" "out \<noteq> -1" and pull: "ring_pull n i out = (i', out')"
  shows "ring_slots n i out = nat out # ring_slots n i' out'"
proof (rule nth_equalityI)
  have ok': "ring_ok n i' out'" using ring_pull_ok [OF ok] pull by simp
  have cnt: "Suc (ring_count n i' out') = ring_count n i out"
    using ring_pull_count [OF ok pull] .
  show "length (ring_slots n i out) = length (nat out # ring_slots n i' out')"
    using cnt by simp
  fix k assume "k < length (ring_slots n i out)"
  then have k: "k < Suc (ring_count n i' out')" using cnt by simp
  show "ring_slots n i out ! k = (nat out # ring_slots n i' out') ! k"
  proof (cases k)
    case 0
    then show ?thesis using k cnt ok by (simp add: ring_slots_nth ring_ok_def)
  next
    case (Suc j)
    then have j: "j < ring_count n i' out'" using k by simp
    then have "out' \<noteq> -1" using ok' ring_count_empty by fastforce
    then have "out' = (out + 1) mod n" using pull by (auto simp: ring_pull_def Let_def split: if_splits)
    moreover have "0 \<le> out" "out < n" using ok by (auto simp: ring_ok_def)
    ultimately have out': "out' = (if out + 1 = n then 0 else out + 1)" by (simp add: mod_succ_ring)
    have "int j < n - 1" using j cnt ring_count_le [OF ok(1)] by linarith
    then show ?thesis
      using Suc j cnt ok ok' out' by (auto simp: ring_slots_nth split: if_splits)
  qed
qed

lemma ring_slots_hd: "ring_ok n i out \<Longrightarrow> out \<noteq> -1 \<Longrightarrow> hd (ring_slots n i out) = nat out"
  by (metis list.sel(1) ring_pull_slots surj_pair)

end
