(* ===== verification/Conf_Queue.thy ===== *)
theory Conf_Queue
  imports Ring
begin

text \<open>
  The conference queues (\<open>struct confq\<close>, \<open>include/dahdi/kernel.h\<close>): two chunks of eight bytes
  through which a channel in a conference exchanges audio with the master span
  (\<open>__buf_push\<close>, \<open>__buf_pull\<close>, \<open>__buf_peek\<close>, \<open>__buf_pushpeek\<close>, \<open>reset_conf\<close> of
  \<open>dahdi-base.c\<close>). \<open>buf\<close> is the list of the chunks that the pointers \<open>buf[0]\<close> and \<open>buf[1]\<close>
  designate: disjoint halves of \<open>buffer\<close>. The queue refines a FIFO of at most two chunks.
\<close>

abbreviation (input) DAHDI_CB_SIZE :: int where "DAHDI_CB_SIZE \<equiv> 2"

record confq =
  cq_buf :: "byte list list"
  inbuf :: int
  outbuf :: int

text \<open>\<open>__buf_pull\<close>: the return code, the bytes copied to \<open>data\<close>, the queue. \<open>want\<close> is whether
  \<open>data\<close> is not NULL, \<open>silence\<close> is \<open>DAHDI_LIN2X(0, c)\<close>.\<close>

definition buf_pull :: "bool \<Rightarrow> byte \<Rightarrow> confq \<Rightarrow> int \<times> byte list option \<times> confq" where
  "buf_pull want silence q =
     (let oldoutbuf = outbuf q in
      if outbuf q < 0 then
        (-1, (if want then Some (replicate DAHDI_CHUNKSIZE silence) else None), q)
      else
        let d = (if want then Some (cq_buf q ! nat (outbuf q)) else None);
            q1 = q\<lparr>outbuf := (outbuf q + 1) mod DAHDI_CB_SIZE\<rparr>;
            q2 = (if outbuf q1 = inbuf q1 then q1\<lparr>outbuf := -1\<rparr> else q1);
            q3 = (if inbuf q2 < 0 then q2\<lparr>inbuf := oldoutbuf\<rparr> else q2)
        in (0, d, q3))"

text \<open>\<open>__buf_pushpeek\<close> and \<open>__buf_peek\<close> return a pointer to a chunk, here its slot, or NULL.\<close>

definition buf_pushpeek :: "confq \<Rightarrow> nat option" where
  "buf_pushpeek q = (if inbuf q < 0 then None else Some (nat (inbuf q)))"

definition buf_peek :: "confq \<Rightarrow> nat option" where
  "buf_peek q = (if outbuf q < 0 then None else Some (nat (outbuf q)))"

text \<open>\<open>__buf_push\<close>: \<open>data\<close> is NULL (\<open>None\<close>) when the chunk was written in place.\<close>

definition buf_push :: "byte list option \<Rightarrow> confq \<Rightarrow> int \<times> confq" where
  "buf_push data q =
     (let oldinbuf = inbuf q in
      if inbuf q < 0 then (-1, q)
      else
        let q0 = (case data of None \<Rightarrow> q
                  | Some d \<Rightarrow> q\<lparr>cq_buf := (cq_buf q)[nat (inbuf q) := d]\<rparr>);
            q1 = q0\<lparr>inbuf := (inbuf q0 + 1) mod DAHDI_CB_SIZE\<rparr>;
            q2 = (if inbuf q1 = outbuf q1 then q1\<lparr>inbuf := -1\<rparr> else q1);
            q3 = (if outbuf q2 < 0 then q2\<lparr>outbuf := oldinbuf\<rparr> else q2)
        in (0, q3))"

text \<open>\<open>reset_conf\<close> empties both queues of a channel; it leaves the bytes of the buffers.\<close>

definition reset_confq :: "confq \<Rightarrow> confq" where
  "reset_confq q = q\<lparr>inbuf := 0, outbuf := -1\<rparr>"

definition confq_init :: confq where
  "confq_init = \<lparr>cq_buf = [replicate 8 0, replicate 8 0], inbuf = 0, outbuf = -1\<rparr>"

section \<open>The queue as a list of chunks\<close>

definition confq_ok :: "confq \<Rightarrow> bool" where
  "confq_ok q \<longleftrightarrow> length (cq_buf q) = 2 \<and> (\<forall>b \<in> set (cq_buf q). length b = DAHDI_CHUNKSIZE)
     \<and> ring_ok DAHDI_CB_SIZE (inbuf q) (outbuf q)"

definition confq_list :: "confq \<Rightarrow> byte list list" where
  "confq_list q = map (\<lambda>s. cq_buf q ! s) (ring_slots DAHDI_CB_SIZE (inbuf q) (outbuf q))"

lemma confq_ok_init [wf_intros]: "confq_ok confq_init"
  by (simp add: confq_ok_def confq_init_def)

lemma reset_confq_ok: "confq_ok q \<Longrightarrow> confq_ok (reset_confq q) \<and> confq_list (reset_confq q) = []"
  by (simp add: confq_ok_def reset_confq_def confq_list_def)

lemma buf_push_ring:
  "inbuf q \<noteq> -1 \<Longrightarrow> confq_ok q \<Longrightarrow>
     buf_push data q = (0, q\<lparr>cq_buf := (case data of None \<Rightarrow> cq_buf q
                                         | Some d \<Rightarrow> (cq_buf q)[nat (inbuf q) := d]),
                            inbuf := fst (ring_push DAHDI_CB_SIZE (inbuf q) (outbuf q)),
                            outbuf := snd (ring_push DAHDI_CB_SIZE (inbuf q) (outbuf q))\<rparr>)"
  by (auto simp: buf_push_def ring_push_def confq_ok_def ring_ok_def Let_def split: option.splits)

lemma buf_pull_ring:
  "outbuf q \<noteq> -1 \<Longrightarrow> confq_ok q \<Longrightarrow>
     buf_pull want silence q =
       (0, (if want then Some (cq_buf q ! nat (outbuf q)) else None),
        q\<lparr>inbuf := fst (ring_pull DAHDI_CB_SIZE (inbuf q) (outbuf q)),
          outbuf := snd (ring_pull DAHDI_CB_SIZE (inbuf q) (outbuf q))\<rparr>)"
  by (auto simp: buf_pull_def ring_pull_def confq_ok_def ring_ok_def Let_def)

lemma confq_list_full: "confq_ok q \<Longrightarrow> inbuf q = -1 \<longleftrightarrow> length (confq_list q) = 2"
  using ring_count_full [of 2 "inbuf q" "outbuf q"] by (auto simp: confq_ok_def confq_list_def)

lemma confq_list_empty: "confq_ok q \<Longrightarrow> outbuf q = -1 \<longleftrightarrow> confq_list q = []"
  using ring_slots_Nil_iff [of 2 "inbuf q" "outbuf q"] by (auto simp: confq_ok_def confq_list_def)

lemma confq_list_le: "confq_ok q \<Longrightarrow> length (confq_list q) \<le> 2"
  using ring_count_le [of 2 "inbuf q" "outbuf q"] by (simp add: confq_ok_def confq_list_def)

lemma buf_push_some:
  assumes "confq_ok q" "length d = DAHDI_CHUNKSIZE" "inbuf q \<noteq> -1"
  shows "confq_ok (snd (buf_push (Some d) q)) \<and> confq_list (snd (buf_push (Some d) q)) = confq_list q @ [d]
    \<and> fst (buf_push (Some d) q) = 0"
proof -
  obtain i' o' where p: "ring_push 2 (inbuf q) (outbuf q) = (i', o')"
    by (cases "ring_push 2 (inbuf q) (outbuf q)")
  have r: "ring_ok 2 (inbuf q) (outbuf q)" using assms by (simp add: confq_ok_def)
  have i: "nat (inbuf q) < length (cq_buf q)" using assms by (auto simp: confq_ok_def ring_ok_def)
  have "set ((cq_buf q)[nat (inbuf q) := d]) \<subseteq> insert d (set (cq_buf q))"
    by (rule set_update_subset_insert)
  then have "confq_ok (snd (buf_push (Some d) q))"
    using assms ring_push_ok [OF r assms(3)] p by (auto simp: buf_push_ring confq_ok_def)
  moreover have "confq_list (snd (buf_push (Some d) q)) = confq_list q @ [d]"
    using assms i ring_push_slots [OF r assms(3) p] ring_push_fresh [OF r assms(3)]
    by (auto simp: buf_push_ring p confq_list_def nth_list_update)
  ultimately show ?thesis using assms by (simp add: buf_push_ring)
qed

lemma buf_pull_some:
  assumes "confq_ok q" "outbuf q \<noteq> -1"
  shows "confq_ok (snd (snd (buf_pull True z q)))
    \<and> confq_list q = the (fst (snd (buf_pull True z q))) # confq_list (snd (snd (buf_pull True z q)))
    \<and> fst (buf_pull True z q) = 0"
proof -
  obtain i' o' where p: "ring_pull 2 (inbuf q) (outbuf q) = (i', o')"
    by (cases "ring_pull 2 (inbuf q) (outbuf q)")
  have r: "ring_ok 2 (inbuf q) (outbuf q)" using assms by (simp add: confq_ok_def)
  show ?thesis
    using assms ring_pull_ok [OF r assms(2)] ring_pull_slots [OF r assms(2) p]
    by (simp add: buf_pull_ring p confq_ok_def confq_list_def)
qed

section \<open>The conference queue provides a bounded FIFO\<close>

definition confq_enq :: "byte list \<Rightarrow> confq \<Rightarrow> confq" where
  "confq_enq d q = snd (buf_push (Some d) q)"

definition confq_deq :: "confq \<Rightarrow> byte list option \<times> confq" where
  "confq_deq q = (case buf_pull True 0 q of (rc, d, q') \<Rightarrow> (if rc < 0 then None else d, q'))"

lemma confq_enq_full: "confq_ok q \<Longrightarrow> inbuf q = -1 \<Longrightarrow> confq_enq d q = q"
  by (simp add: confq_enq_def buf_push_def)

lemma confq_deq_empty: "confq_ok q \<Longrightarrow> outbuf q = -1 \<Longrightarrow> confq_deq q = (None, q)"
  by (simp add: confq_deq_def buf_pull_def)

lemma confq_deq_cons:
  assumes "confq_ok q" "outbuf q \<noteq> -1"
  shows "confq_deq q = (Some (hd (confq_list q)), snd (confq_deq q))
    \<and> confq_list (snd (confq_deq q)) = tl (confq_list q) \<and> confq_ok (snd (confq_deq q))"
  using buf_pull_some [OF assms, of 0] assms by (simp add: confq_deq_def buf_pull_ring)

interpretation cq: lossy_fifo confq_ok "\<lambda>d. length d = DAHDI_CHUNKSIZE" confq_list "\<lambda>q. 2" confq_enq confq_deq
proof unfold_locales
  fix q and x :: "byte list" assume q: "confq_ok q" and x: "length x = DAHDI_CHUNKSIZE"
  show "confq_ok (confq_enq x q)"
    using q x buf_push_some [OF q x] confq_enq_full [OF q, of x] by (cases "inbuf q = -1") (auto simp: confq_enq_def)
  show "confq_list (confq_enq x q) =
      (if length (confq_list q) < 2 then confq_list q @ [x] else confq_list q)"
    using q x buf_push_some [OF q x] confq_list_full [OF q] confq_list_le [OF q] confq_enq_full [OF q, of x]
    by (cases "inbuf q = -1") (auto simp: confq_enq_def)
next
  fix q :: confq assume q: "confq_ok q"
  show "confq_ok (snd (confq_deq q))"
    using q confq_deq_cons [OF q] confq_deq_empty [OF q] by (cases "outbuf q = -1") auto
  show "length (confq_list q) \<le> 2" using confq_list_le [OF q] .
  show "confq_list q = [] \<Longrightarrow> confq_deq q = (None, q)"
    using confq_list_empty [OF q] confq_deq_empty [OF q] by simp
  show "\<And>x xs. confq_list q = x # xs \<Longrightarrow> fst (confq_deq q) = Some x \<and> confq_list (snd (confq_deq q)) = xs"
    using confq_list_empty [OF q] confq_deq_cons [OF q] by (metis fst_conv list.distinct(1) list.sel(1) list.sel(3))
qed simp_all

text \<open>
  In place: \<open>process_masterspan\<close> fills the chunk \<open>__buf_pushpeek\<close> gave it and then pushes NULL;
  it processes the chunk \<open>__buf_peek\<close> gave it and then pulls into NULL.
\<close>

definition confq_fill :: "byte list \<Rightarrow> confq \<Rightarrow> confq" where
  "confq_fill d q = (case buf_pushpeek q of None \<Rightarrow> q
     | Some s \<Rightarrow> snd (buf_push None (q\<lparr>cq_buf := (cq_buf q)[s := d]\<rparr>)))"

lemma confq_fill_eq_enq: "confq_fill d q = confq_enq d q"
  by (simp add: confq_fill_def buf_pushpeek_def confq_enq_def buf_push_def Let_def)

lemma buf_peek_hd: "confq_ok q \<Longrightarrow>
    map_option (\<lambda>s. cq_buf q ! s) (buf_peek q) = (case confq_list q of [] \<Rightarrow> None | d # _ \<Rightarrow> Some d)"
  using confq_list_empty [of q] ring_slots_hd [of 2 "inbuf q" "outbuf q"]
  by (cases "outbuf q = -1")
    (auto simp: buf_peek_def confq_list_def confq_ok_def ring_ok_def hd_map split: list.splits)

lemma buf_pull_null: "snd (snd (buf_pull False z q)) = snd (confq_deq q)"
  by (simp add: buf_pull_def confq_deq_def Let_def)

text \<open>C32. A conference queue as a FIFO: any sequence of pushes of chunks and pulls from the empty
  queue; what was accepted is what was pulled followed by what is queued, at most two chunks.\<close>

theorem conf_queue_fifo:
  assumes "ops_ok (\<lambda>d. length d = DAHDI_CHUNKSIZE) ops"
  shows "case fifo_run confq_enq confq_deq (\<lambda>q. length (confq_list q) < 2) confq_init ops of
     (accepted, pulled, q') \<Rightarrow> accepted = pulled @ confq_list q' \<and> length (confq_list q') \<le> 2 \<and> confq_ok q'"
  using cq.run_fifo [OF confq_ok_init assms] cq.run_bound [OF confq_ok_init assms]
  by (auto simp: confq_init_def confq_list_def split: prod.splits)

theorem conf_queue_fifo_witness:
  "case fifo_run confq_enq confq_deq (\<lambda>q. length (confq_list q) < 2) confq_init
       [Enq (replicate 8 1), Enq (replicate 8 2), Enq (replicate 8 3), Deq] of
     (accepted, pulled, q') \<Rightarrow> accepted = pulled @ confq_list q' \<and> length (confq_list q') \<le> 2 \<and> confq_ok q'"
  by (rule conf_queue_fifo) simp

end
