(* ===== verification/Event_Queue.thy ===== *)
theory Event_Queue
  imports Dahdi_Prelude
begin

text \<open>
  The event ring of a channel: 64 slots, \<open>eventinidx\<close> the slot the next event goes to,
  \<open>eventoutidx\<close> the slot of the oldest event, the two equal when there is none. \<open>__qevent\<close>
  (\<open>dahdi-base.c\<close>) drops an event when 63 are queued; \<open>DAHDI_GETEVENT\<close> takes the oldest one and
  \<open>DAHDI_FLUSH_EVENT\<close> forgets them all. The ring refines a FIFO of at most 63 events.
\<close>

abbreviation (input) DAHDI_MAX_EVENTSIZE :: int where "DAHDI_MAX_EVENTSIZE \<equiv> 64"
abbreviation (input) DAHDI_EVENT_NONE :: int where "DAHDI_EVENT_NONE \<equiv> 0"

record evq =
  eventinidx :: int
  eventoutidx :: int
  eventbuf :: "int list"

definition evq_full :: "evq \<Rightarrow> bool" where
  "evq_full q \<longleftrightarrow>
     (eventoutidx q = 0 \<and> eventinidx q = DAHDI_MAX_EVENTSIZE - 1) \<or> eventinidx q = eventoutidx q - 1"

definition qevent_q :: "int \<Rightarrow> evq \<Rightarrow> evq" where
  "qevent_q event q =
     (if eventoutidx q = 0 \<and> eventinidx q = DAHDI_MAX_EVENTSIZE - 1 then q
      else if eventinidx q = eventoutidx q - 1 then q
      else
        let q1 = q\<lparr>eventbuf := (eventbuf q)[nat (eventinidx q) := event], eventinidx := eventinidx q + 1\<rparr>
        in if eventinidx q1 \<ge> DAHDI_MAX_EVENTSIZE then q1\<lparr>eventinidx := 0\<rparr> else q1)"

text \<open>The case \<open>DAHDI_GETEVENT\<close> of \<open>dahdi_chanandpseudo_ioctl\<close>.\<close>

definition getevent_q :: "evq \<Rightarrow> int \<times> evq" where
  "getevent_q q =
     (if eventinidx q \<noteq> eventoutidx q then
        let j = eventbuf q ! nat (eventoutidx q);
            q1 = q\<lparr>eventoutidx := eventoutidx q + 1\<rparr>
        in (j, if eventoutidx q1 \<ge> DAHDI_MAX_EVENTSIZE then q1\<lparr>eventoutidx := 0\<rparr> else q1)
      else (DAHDI_EVENT_NONE, q))"

definition flush_q :: "evq \<Rightarrow> evq" where
  "flush_q q = q\<lparr>eventinidx := 0, eventoutidx := 0\<rparr>"

definition evq_init :: evq where
  "evq_init = \<lparr>eventinidx = 0, eventoutidx = 0, eventbuf = replicate 64 0\<rparr>"

section \<open>The ring as a list of events\<close>

definition evq_ok :: "evq \<Rightarrow> bool" where
  "evq_ok q \<longleftrightarrow> length (eventbuf q) = 64 \<and> 0 \<le> eventinidx q \<and> eventinidx q < 64
     \<and> 0 \<le> eventoutidx q \<and> eventoutidx q < 64"

definition evq_count :: "evq \<Rightarrow> nat" where
  "evq_count q = (if eventoutidx q \<le> eventinidx q then nat (eventinidx q - eventoutidx q)
                  else nat (64 - eventoutidx q + eventinidx q))"

definition evq_slot :: "evq \<Rightarrow> nat \<Rightarrow> nat" where
  "evq_slot q k = (if nat (eventoutidx q) + k < 64 then nat (eventoutidx q) + k
                   else nat (eventoutidx q) + k - 64)"

definition evq_list :: "evq \<Rightarrow> int list" where
  "evq_list q = map (\<lambda>k. eventbuf q ! evq_slot q k) [0..<evq_count q]"

lemma length_evq_list [simp]: "length (evq_list q) = evq_count q"
  by (simp add: evq_list_def)

lemma nth_evq_list: "k < evq_count q \<Longrightarrow> evq_list q ! k = eventbuf q ! evq_slot q k"
  by (simp add: evq_list_def)

lemma evq_ok_init [wf_intros]: "evq_ok evq_init"
  by (simp add: evq_ok_def evq_init_def)

lemma evq_list_init [simp]: "evq_list evq_init = []"
  by (simp add: evq_list_def evq_count_def evq_init_def)

lemma evq_count_le: "evq_ok q \<Longrightarrow> evq_count q \<le> 63"
  by (auto simp: evq_ok_def evq_count_def)

lemma evq_full_iff: "evq_ok q \<Longrightarrow> evq_full q \<longleftrightarrow> evq_count q = 63"
  by (auto simp: evq_ok_def evq_count_def evq_full_def)

lemma evq_empty_iff: "evq_ok q \<Longrightarrow> evq_list q = [] \<longleftrightarrow> eventinidx q = eventoutidx q"
  by (auto simp: evq_ok_def evq_count_def evq_list_def)

lemma flush_q_ok: "evq_ok q \<Longrightarrow> evq_ok (flush_q q) \<and> evq_list (flush_q q) = []"
  by (simp add: evq_ok_def flush_q_def evq_list_def evq_count_def)

lemma qevent_q_ok [wf_intros]: "evq_ok q \<Longrightarrow> evq_ok (qevent_q e q)"
  by (auto simp: evq_ok_def qevent_q_def Let_def)

lemma getevent_q_ok [wf_intros]: "evq_ok q \<Longrightarrow> evq_ok (snd (getevent_q q))"
  by (auto simp: evq_ok_def getevent_q_def Let_def)

lemma qevent_q_full: "evq_full q \<Longrightarrow> qevent_q e q = q"
  by (auto simp: evq_full_def qevent_q_def)

lemma qevent_q_list:
  assumes q: "evq_ok q" and room: "\<not> evq_full q"
  shows "evq_list (qevent_q e q) = evq_list q @ [e]"
proof (rule nth_equalityI)
  have cnt: "evq_count (qevent_q e q) = Suc (evq_count q)"
    using q room by (auto simp: evq_ok_def qevent_q_def evq_full_def evq_count_def Let_def)
  then show "length (evq_list (qevent_q e q)) = length (evq_list q @ [e])" by simp
  fix k assume "k < length (evq_list (qevent_q e q))"
  then have k: "k < Suc (evq_count q)" by (simp add: cnt)
  have slot: "\<And>k. evq_slot (qevent_q e q) k = evq_slot q k"
    by (auto simp: evq_slot_def qevent_q_def Let_def)
  have buf: "eventbuf (qevent_q e q) = (eventbuf q)[nat (eventinidx q) := e]"
    using room by (auto simp: qevent_q_def evq_full_def Let_def)
  have "evq_slot q (evq_count q) = nat (eventinidx q)"
    using q by (auto simp: evq_ok_def evq_slot_def evq_count_def)
  moreover have "k < evq_count q \<Longrightarrow> evq_slot q k \<noteq> nat (eventinidx q)"
    using q by (auto simp: evq_ok_def evq_slot_def evq_count_def split: if_splits)
  ultimately show "evq_list (qevent_q e q) ! k = (evq_list q @ [e]) ! k"
    using q k by (auto simp: nth_evq_list cnt slot buf nth_append evq_ok_def less_Suc_eq)
qed

lemma getevent_q_empty: "evq_ok q \<Longrightarrow> evq_list q = [] \<Longrightarrow> getevent_q q = (DAHDI_EVENT_NONE, q)"
  by (simp add: evq_empty_iff getevent_q_def)

lemma getevent_q_cons:
  assumes q: "evq_ok q" and ne: "evq_list q \<noteq> []"
  shows "evq_list q = fst (getevent_q q) # evq_list (snd (getevent_q q))"
proof (rule nth_equalityI)
  have ne': "eventinidx q \<noteq> eventoutidx q" using evq_empty_iff [OF q] ne by simp
  have cnt: "evq_count q = Suc (evq_count (snd (getevent_q q)))"
    using q ne' by (auto simp: evq_ok_def getevent_q_def evq_count_def Let_def)
  then show "length (evq_list q) = length (fst (getevent_q q) # evq_list (snd (getevent_q q)))" by simp
  fix k assume "k < length (evq_list q)"
  then have k: "k < evq_count q" by simp
  show "evq_list q ! k = (fst (getevent_q q) # evq_list (snd (getevent_q q))) ! k"
  proof (cases k)
    case 0
    then show ?thesis using q ne' k by (auto simp: evq_list_def evq_slot_def evq_ok_def getevent_q_def Let_def)
  next
    case (Suc j)
    have "eventbuf (snd (getevent_q q)) = eventbuf q" by (simp add: getevent_q_def Let_def)
    moreover have "evq_slot q (Suc j) = evq_slot (snd (getevent_q q)) j"
      using q ne' k Suc by (auto simp: evq_slot_def evq_ok_def getevent_q_def evq_count_def Let_def split: if_splits)
    ultimately show ?thesis using Suc k cnt by (simp add: nth_evq_list)
  qed
qed

section \<open>The event ring provides a bounded FIFO\<close>

definition evq_deq :: "evq \<Rightarrow> int option \<times> evq" where
  "evq_deq q = (case getevent_q q of (j, q') \<Rightarrow> (if eventinidx q \<noteq> eventoutidx q then Some j else None, q'))"

interpretation eq: lossy_fifo evq_ok "\<lambda>e. True" evq_list "\<lambda>q. 63" qevent_q evq_deq
proof unfold_locales
  fix q :: evq and x :: int assume q: "evq_ok q"
  show "evq_list (qevent_q x q) = (if length (evq_list q) < 63 then evq_list q @ [x] else evq_list q)"
    using q qevent_q_list [OF q, of x] qevent_q_full [of q x] evq_full_iff [OF q] evq_count_le [OF q]
    by (cases "evq_full q") auto
next
  fix q :: evq and x xs assume q: "evq_ok q" and l: "evq_list q = x # xs"
  then have "eventinidx q \<noteq> eventoutidx q" using evq_empty_iff [OF q] by auto
  then show "fst (evq_deq q) = Some x \<and> evq_list (snd (evq_deq q)) = xs"
    using getevent_q_cons [OF q] l by (auto simp: evq_deq_def split: prod.splits)
qed (auto simp: evq_deq_def qevent_q_ok evq_empty_iff getevent_q_def evq_count_le
      intro: wf_intros dest: getevent_q_ok split: prod.splits)

text \<open>C14. The event ring as a FIFO: run any sequence of \<open>__qevent\<close> and \<open>DAHDI_GETEVENT\<close> from the
  empty ring. The events accepted (those that found fewer than 63 queued) are the events read,
  in order, followed by those still queued; never more than 63 are.\<close>

theorem event_ring_fifo:
  "case fifo_run qevent_q evq_deq (\<lambda>q. length (evq_list q) < 63) evq_init ops of
     (accepted, read, q') \<Rightarrow> accepted = read @ evq_list q' \<and> length (evq_list q') \<le> 63 \<and> evq_ok q'"
proof -
  have "ops_ok (\<lambda>e. True) ops" by (induction ops rule: ops_ok.induct [where P = "\<lambda>_. ops_ok (\<lambda>e. True)"]) auto
  then show ?thesis
    using eq.run_fifo [OF evq_ok_init] eq.run_bound [OF evq_ok_init] by (auto split: prod.splits)
qed

end
