(* ===== verification/Fasthdlc.thy ===== *)
theory Fasthdlc
  imports Dahdi_Prelude
begin

text \<open>
  \<open>include/dahdi/fasthdlc.h\<close>: the table-driven HDLC bit stuffer and destuffer. The tables
  \<open>hdlc_search\<close>, \<open>hdlc_frame\<close> and \<open>hdlc_encode\<close> are filled once by \<open>fasthdlc_precalc\<close> with
  the values of \<open>hdlc_search_precalc\<close>, \<open>hdlc_frame_precalc\<close> and \<open>hdlc_encode_precalc\<close>; a
  table lookup is therefore the value of the function that filled the table. The number of ones
  is below 6 in every state the program reaches (\<open>Hdlc_Stream\<close>), so that the lookups are within
  the tables. \<open>data\<close> is a 32-bit shift register read from the top.
\<close>

datatype fasthdlc_mode = FASTHDLC_MODE_64 | FASTHDLC_MODE_56

record fasthdlc_state =
  hstate :: nat
  hdata :: u32
  hbits :: int
  hones :: nat
  hmode :: fasthdlc_mode

abbreviation (input) RETURN_COMPLETE_FLAG :: u16 where "RETURN_COMPLETE_FLAG \<equiv> 0x1000"
abbreviation (input) RETURN_DISCARD_FLAG :: u16 where "RETURN_DISCARD_FLAG \<equiv> 0x2000"
abbreviation (input) RETURN_EMPTY_FLAG :: u16 where "RETURN_EMPTY_FLAG \<equiv> 0x4000"
abbreviation (input) FRAME_SEARCH :: nat where "FRAME_SEARCH \<equiv> 0"
abbreviation (input) PROCESS_FRAME :: nat where "PROCESS_FRAME \<equiv> 1"
abbreviation (input) CONTROL_COMPLETE :: u16 where "CONTROL_COMPLETE \<equiv> 1"
abbreviation (input) CONTROL_ABORT :: u16 where "CONTROL_ABORT \<equiv> 2"
abbreviation (input) STATUS_VALID :: u16 where "STATUS_VALID \<equiv> 0x8000"
abbreviation (input) STATUS_CONTROL :: u16 where "STATUS_CONTROL \<equiv> 0"

section \<open>The tables\<close>

text \<open>The loop \<open>while (p \<and> (c \<and> x))\<close> of \<open>hdlc_search_precalc\<close>, with \<open>x = 1 << e\<close>.\<close>

fun hdlc_search_loop :: "nat \<Rightarrow> byte \<Rightarrow> nat \<Rightarrow> nat" where
  "hdlc_search_loop 0 c e = 0"
| "hdlc_search_loop (Suc p) c e = (if bit c e then hdlc_search_loop p c (Suc e) else Suc p)"

definition hdlc_search_precalc :: "byte \<Rightarrow> byte" where
  "hdlc_search_precalc c =
     (if c = 0x7e then 0x10 OR 8
      else if c = 0x7f then 8
      else if c = 0xff then 8
      else of_nat (hdlc_search_loop 7 c 0))"

definition HFP :: "u16 \<Rightarrow> nat \<Rightarrow> nat \<Rightarrow> u16 \<Rightarrow> u16" where
  "HFP status ones bits dat = status OR push_bit 12 (of_nat ones) OR push_bit 8 (of_nat bits) OR dat"

text \<open>The loop \<open>while (bits < 8)\<close> of \<open>hdlc_frame_precalc\<close> and what follows it.\<close>

function hdlc_frame_loop :: "nat \<Rightarrow> byte \<Rightarrow> nat \<Rightarrow> nat \<Rightarrow> u16 \<Rightarrow> u16" where
  "hdlc_frame_loop ones dat bits consumed c =
     (if bits < 8 then
        let dat' = drop_bit 1 dat; consumed' = consumed + 1 in
        if ones = 5 then
          if bit c 9 then
            if \<not> bit c 8 \<and> bits = 6 then HFP 0 0 8 CONTROL_COMPLETE
            else HFP 0 0 (consumed' + 1) CONTROL_ABORT
          else hdlc_frame_loop 0 (push_bit 1 dat') bits consumed' (push_bit 1 c)
        else if bit c 9 then hdlc_frame_loop (ones + 1) (dat' OR 0x80) (bits + 1) consumed' (push_bit 1 c)
        else hdlc_frame_loop 0 dat' (bits + 1) consumed' (push_bit 1 c)
      else if ones = 5 then HFP STATUS_VALID 0 (consumed + 1) (ucast dat)
      else HFP STATUS_VALID ones consumed (ucast dat))"
  by pat_completeness auto
termination
  by (relation "measure (\<lambda>(ones, dat, bits, consumed, c). 2 * (8 - bits) + (if ones = 5 then 1 else 0))") auto

declare hdlc_frame_loop.simps [simp del]

definition hdlc_frame_precalc :: "nat \<Rightarrow> u16 \<Rightarrow> u16" where
  "hdlc_frame_precalc x c = hdlc_frame_loop x 0 0 0 c"

text \<open>The loop over the bits of the byte of \<open>hdlc_encode_precalc\<close>: \<open>z\<close> counts the bits left.\<close>

fun hdlc_encode_loop :: "nat \<Rightarrow> byte \<Rightarrow> nat \<Rightarrow> u16 \<Rightarrow> nat \<Rightarrow> u16 \<times> nat \<times> nat" where
  "hdlc_encode_loop 0 y ones dat bits = (dat, ones, bits)"
| "hdlc_encode_loop (Suc z) y ones dat bits =
     (let (dat, ones, bits) = (if ones = 5 then (push_bit 1 dat, 0, bits + 1) else (dat, ones, bits));
          (dat, ones, bits) = (if bit y 0 then (push_bit 1 dat OR 1, ones + 1, bits + 1)
                               else (push_bit 1 dat, 0, bits + 1))
      in hdlc_encode_loop z (drop_bit 1 y) ones dat bits)"

definition hdlc_encode_precalc :: "nat \<Rightarrow> byte \<Rightarrow> u32" where
  "hdlc_encode_precalc x y =
     (let (dat, ones, bits) = hdlc_encode_loop 8 y x 0 0;
          (dat, ones, bits) = (if ones = 5 then (push_bit 1 dat, 0, bits + 1) else (dat, ones, bits));
          dat = push_bit (10 - bits) dat
      in push_bit 22 (ucast dat) OR push_bit 8 (of_nat ones) OR of_nat bits)"

section \<open>The operations\<close>

definition fasthdlc_init :: "fasthdlc_mode \<Rightarrow> fasthdlc_state" where
  "fasthdlc_init mode = \<lparr>hstate = 0, hdata = 0, hbits = 0, hones = 0, hmode = mode\<rparr>"

definition fasthdlc_tx_load_nocheck :: "byte \<Rightarrow> fasthdlc_state \<Rightarrow> fasthdlc_state" where
  "fasthdlc_tx_load_nocheck c h =
     (let res = hdlc_encode_precalc (hones h) c
      in h\<lparr>hones := unat (drop_bit 8 (res AND 0xf00)),
           hdata := hdata h OR drop_bit (nat (hbits h)) (res AND 0xffc00000),
           hbits := hbits h + uint (res AND 0xf)\<rparr>)"

definition fasthdlc_tx_load :: "byte \<Rightarrow> fasthdlc_state \<Rightarrow> int \<times> fasthdlc_state" where
  "fasthdlc_tx_load c h = (if hbits h > 22 then (-1, h) else (0, fasthdlc_tx_load_nocheck c h))"

definition fasthdlc_tx_frame_nocheck :: "fasthdlc_state \<Rightarrow> fasthdlc_state" where
  "fasthdlc_tx_frame_nocheck h =
     h\<lparr>hones := 0, hdata := hdata h OR drop_bit (nat (hbits h)) 0x7e000000, hbits := hbits h + 8\<rparr>"

definition fasthdlc_tx_frame :: "fasthdlc_state \<Rightarrow> int \<times> fasthdlc_state" where
  "fasthdlc_tx_frame h = (if hbits h > 24 then (-1, h) else (0, fasthdlc_tx_frame_nocheck h))"

definition fasthdlc_tx_need_data :: "fasthdlc_state \<Rightarrow> bool" where
  "fasthdlc_tx_need_data h =
     (case hmode h of FASTHDLC_MODE_56 \<Rightarrow> hbits h < 7 | FASTHDLC_MODE_64 \<Rightarrow> hbits h < 8)"

definition fasthdlc_tx_run_nocheck :: "fasthdlc_state \<Rightarrow> byte \<times> fasthdlc_state" where
  "fasthdlc_tx_run_nocheck h =
     (case hmode h of
        FASTHDLC_MODE_56 \<Rightarrow>
          (let b = (ucast (drop_bit 25 (hdata h)) :: byte)
           in (push_bit 1 (b AND 0x7f) OR 1,
               h\<lparr>hbits := hbits h - 7, hdata := push_bit 7 (hdata h)\<rparr>))
      | FASTHDLC_MODE_64 \<Rightarrow>
          (let b = (ucast (drop_bit 24 (hdata h)) :: byte)
           in (b, h\<lparr>hbits := hbits h - 8, hdata := push_bit 8 (hdata h)\<rparr>)))"

definition fasthdlc_tx_run :: "fasthdlc_state \<Rightarrow> (int + byte) \<times> fasthdlc_state" where
  "fasthdlc_tx_run h =
     (if hbits h < 8 then (Inl (-1), h)
      else case fasthdlc_tx_run_nocheck h of (b, h') \<Rightarrow> (Inr b, h'))"

definition fasthdlc_rx_load_nocheck :: "byte \<Rightarrow> fasthdlc_state \<Rightarrow> fasthdlc_state" where
  "fasthdlc_rx_load_nocheck b h =
     (case hmode h of
        FASTHDLC_MODE_56 \<Rightarrow>
          h\<lparr>hdata := hdata h OR push_bit (nat (25 - hbits h)) (ucast (drop_bit 1 b)), hbits := hbits h + 7\<rparr>
      | FASTHDLC_MODE_64 \<Rightarrow>
          h\<lparr>hdata := hdata h OR push_bit (nat (24 - hbits h)) (ucast b), hbits := hbits h + 8\<rparr>)"

definition fasthdlc_rx_load :: "byte \<Rightarrow> fasthdlc_state \<Rightarrow> int \<times> fasthdlc_state" where
  "fasthdlc_rx_load b h = (if hbits h > 24 then (-1, h) else (0, fasthdlc_rx_load_nocheck b h))"

definition minbits :: "nat \<Rightarrow> int" where
  "minbits st = (if st = FRAME_SEARCH then 8 else 10)"

text \<open>The two cases of the switch of \<open>fasthdlc_rx_run\<close>.\<close>

definition rx_search_step :: "fasthdlc_state \<Rightarrow> fasthdlc_state" where
  "rx_search_step h =
     (let next = hdlc_search_precalc (ucast (drop_bit 24 (hdata h)));
          n = unat (next AND 0x0f)
      in h\<lparr>hbits := hbits h - int n, hdata := push_bit n (hdata h),
           hstate := unat (drop_bit 4 next), hones := 0\<rparr>)"

definition rx_process_step :: "fasthdlc_state \<Rightarrow> u16 \<times> fasthdlc_state" where
  "rx_process_step h =
     (let next = hdlc_frame_precalc (hones h) (ucast (drop_bit 22 (hdata h)));
          n = unat (drop_bit 8 (next AND 0x0f00));
          h1 = h\<lparr>hbits := hbits h - int n, hdata := push_bit n (hdata h),
                 hstate := unat (drop_bit 15 (next AND 0x8000)),
                 hones := unat (drop_bit 12 (next AND 0x7000))\<rparr>
      in if next AND 0x8000 = STATUS_CONTROL then
           (if next AND CONTROL_COMPLETE \<noteq> 0 then (RETURN_COMPLETE_FLAG, h1\<lparr>hstate := 1\<rparr>)
            else (RETURN_DISCARD_FLAG, h1))
         else (next AND 0xff, h1))"

section \<open>Fields of the packed table entries\<close>

lemma word_masks:
  "(0x0f00 :: u16) = push_bit 8 (mask 4)" "(0x7000 :: u16) = push_bit 12 (mask 3)"
  "(0x8000 :: u16) = push_bit 15 (mask 1)" "(0xff :: u16) = mask 8"
  "(0xf00 :: u32) = push_bit 8 (mask 4)" "(0xf :: u32) = mask 4"
  "(0xffc00000 :: u32) = push_bit 22 (mask 10)" "(0x0f :: byte) = mask 4"
  by (simp_all add: mask_eq_exp_minus_1 push_bit_eq_mult)

lemma bit_nat_less: "bit (m::nat) n \<Longrightarrow> m < 2 ^ k \<Longrightarrow> n < k"
  by (metis bit_take_bit_iff take_bit_nat_eq_self)

lemma bit_HFP:
  "bit (HFP status ones bits dat) j \<longleftrightarrow> j < 16 \<and>
     (bit status j \<or> 12 \<le> j \<and> bit ones (j - 12) \<or> 8 \<le> j \<and> bit bits (j - 8) \<or> bit dat j)"
  by (auto simp: HFP_def bit_simps dest: bit_imp_le_length)

definition hfp_wf :: "u16 \<Rightarrow> nat \<Rightarrow> nat \<Rightarrow> u16 \<Rightarrow> bool" where
  "hfp_wf status ones bits dat \<longleftrightarrow> (\<forall>j. bit status j \<longrightarrow> j = 15) \<and> ones < 8 \<and> bits < 16
     \<and> (\<forall>j. bit dat j \<longrightarrow> j < 8)"

lemma HFP_consumed:
  assumes "hfp_wf status ones bits dat"
  shows "unat (drop_bit 8 (HFP status ones bits dat AND 0x0f00)) = bits"
proof -
  have "drop_bit 8 (HFP status ones bits dat AND 0x0f00) = (of_nat bits :: u16)"
    using assms
    by (intro bit_word_eqI)
      (auto simp: word_masks bit_simps bit_HFP hfp_wf_def dest: bit_nat_less [where k = 3] bit_nat_less [where k = 4])
  then show ?thesis using assms by (simp add: unat_of_nat hfp_wf_def)
qed

lemma HFP_ones:
  assumes "hfp_wf status ones bits dat"
  shows "unat (drop_bit 12 (HFP status ones bits dat AND 0x7000)) = ones"
proof -
  have "drop_bit 12 (HFP status ones bits dat AND 0x7000) = (of_nat ones :: u16)"
    using assms
    by (intro bit_word_eqI)
      (auto simp: word_masks bit_simps bit_HFP hfp_wf_def dest: bit_nat_less [where k = 3] bit_nat_less [where k = 4])
  then show ?thesis using assms by (simp add: unat_of_nat hfp_wf_def)
qed

lemma HFP_data:
  assumes "hfp_wf status ones bits dat"
  shows "HFP status ones bits dat AND 0xff = dat"
    using assms
    by (intro bit_word_eqI)
      (auto simp: word_masks bit_simps bit_HFP hfp_wf_def dest: bit_nat_less [where k = 3] bit_nat_less [where k = 4])

lemma HFP_status:
  assumes "hfp_wf status ones bits dat"
  shows "HFP status ones bits dat AND 0x8000 = status"
proof (rule bit_word_eqI)
  fix j assume "j < LENGTH(16)"
  then have j: "j < 16" by simp
  have o3: "\<And>n. bit ones n \<Longrightarrow> n < 3" and b4: "\<And>n. bit bits n \<Longrightarrow> n < 4"
    using assms by (auto simp: hfp_wf_def intro: bit_nat_less [of _ _ 3] bit_nat_less [of _ _ 4])
  have m: "bit (0x8000 :: u16) j \<longleftrightarrow> j = 15"
    using bit_exp_iff [where 'a = "16 word", of 15 j] j by auto
  show "bit (HFP status ones bits dat AND 0x8000) j = bit status j"
    unfolding bit_and_iff m
  proof (cases "j = 15")
    case True
    then show "(bit (HFP status ones bits dat) j \<and> j = 15) = bit status j"
      using assms o3 [of 3] b4 [of 7] by (auto simp: bit_HFP hfp_wf_def)
  next
    case False
    then show "(bit (HFP status ones bits dat) j \<and> j = 15) = bit status j"
      using assms by (auto simp: hfp_wf_def)
  qed
qed

lemma HFP_control:
  assumes "hfp_wf status ones bits dat"
  shows "(HFP status ones bits dat AND CONTROL_COMPLETE = 0) = (\<not> bit dat 0)"
proof -
  have "bit (HFP status ones bits dat) 0 \<longleftrightarrow> bit dat 0"
    using assms by (auto simp: bit_HFP hfp_wf_def)
  then show ?thesis by (simp add: and_one_eq bit_0 mod2_eq_if)
qed

section \<open>The receiver's loop\<close>

lemma hdlc_search_loop_pos: "hdlc_search_loop p c e = 0 \<Longrightarrow> k < p \<Longrightarrow> bit c (e + k)"
proof (induction p c e arbitrary: k rule: hdlc_search_loop.induct)
  case (2 p c e)
  then show ?case by (cases k) (auto split: if_splits)
qed simp

lemma hdlc_search_loop_le: "hdlc_search_loop p c e \<le> p"
  by (induction p c e rule: hdlc_search_loop.induct) auto

lemma hdlc_search_loop_7:
  assumes "c \<noteq> 0x7f" "c \<noteq> 0xff"
  shows "hdlc_search_loop 7 c 0 \<noteq> 0"
proof
  assume z: "hdlc_search_loop 7 c 0 = 0"
  have b: "bit c k" if "k < 7" for k using hdlc_search_loop_pos [OF z that] by simp
  have m: "bit (0x7f :: byte) k \<longleftrightarrow> k < 7" "bit (0xff :: byte) k \<longleftrightarrow> k < 8" for k
    using bit_mask_iff [where 'a = "8 word", of 7 k] bit_mask_iff [where 'a = "8 word", of 8 k]
    by (auto simp: mask_eq_exp_minus_1)
  have "c = 0x7f \<or> c = 0xff"
  proof (cases "bit c 7")
    case True
    have "c = 0xff"
    proof (rule bit_word_eqI)
      fix k assume "k < LENGTH(8)"
      then have "k < 7 \<or> k = 7" by auto
      with b True show "bit c k = bit (0xff :: byte) k" unfolding m by auto
    qed
    then show ?thesis ..
  next
    case False
    have "c = 0x7f"
    proof (rule bit_word_eqI)
      fix k assume "k < LENGTH(8)"
      then have "k < 7 \<or> k = 7" by auto
      with b False show "bit c k = bit (0x7f :: byte) k" unfolding m by auto
    qed
    then show ?thesis ..
  qed
  with assms show False by blast
qed

text \<open>The search consumes between one and eight bits and enters a frame only on a flag.\<close>

lemma hdlc_search_precalc_fields:
  "unat (hdlc_search_precalc c AND 0x0f) = (if c = 0x7e \<or> c = 0x7f \<or> c = 0xff then 8 else hdlc_search_loop 7 c 0)"
  "unat (drop_bit 4 (hdlc_search_precalc c)) = (if c = 0x7e then 1 else 0)"
proof -
  have le: "hdlc_search_loop 7 c 0 \<le> 7" by (rule hdlc_search_loop_le)
  have small: "unat (of_nat n AND (0x0f :: byte)) = n" "unat (drop_bit 4 (of_nat n :: byte)) = 0" if "n \<le> 8" for n
  proof -
    have u: "unat (of_nat n :: byte) = n" using that by (simp add: unat_of_nat)
    show "unat (of_nat n AND (0x0f :: byte)) = n"
      using that u by (simp add: word_masks(8) take_bit_eq_mask [symmetric] unsigned_take_bit_eq take_bit_nat_eq_self)
    show "unat (drop_bit 4 (of_nat n :: byte)) = 0"
      using that u by (simp add: unat_drop_bit_eq drop_bit_nat_def)
  qed
  show "unat (hdlc_search_precalc c AND 0x0f)
      = (if c = 0x7e \<or> c = 0x7f \<or> c = 0xff then 8 else hdlc_search_loop 7 c 0)"
    using small(1) [of "hdlc_search_loop 7 c 0"] le by (auto simp: hdlc_search_precalc_def)
  show "unat (drop_bit 4 (hdlc_search_precalc c)) = (if c = 0x7e then 1 else 0)"
    using small(2) [of "hdlc_search_loop 7 c 0"] small(2) [of 8] le by (auto simp: hdlc_search_precalc_def)
qed

lemma rx_search_step_bits:
  obtains n where "0 < n" "n \<le> 8" "hbits (rx_search_step h) = hbits h - int n"
    "hdata (rx_search_step h) = push_bit n (hdata h)"
proof -
  let ?c = "ucast (drop_bit 24 (hdata h)) :: byte"
  let ?n = "unat (hdlc_search_precalc ?c AND 0x0f)"
  have "0 < ?n \<and> ?n \<le> 8"
    using hdlc_search_loop_7 [of ?c] hdlc_search_loop_le [of 7 ?c 0]
    unfolding hdlc_search_precalc_fields by auto
  then show ?thesis using that [of ?n] unfolding rx_search_step_def Let_def by simp
qed

lemma rx_process_step_ret: "fst (rx_process_step h) \<noteq> RETURN_EMPTY_FLAG"
proof -
  have "w AND 0xff \<noteq> RETURN_EMPTY_FLAG" for w :: u16
  proof
    assume "w AND 0xff = RETURN_EMPTY_FLAG"
    then have "bit (w AND 0xff) 14 = bit RETURN_EMPTY_FLAG 14" by simp
    then show False
      using bit_exp_iff [where 'a = "16 word", of 14 14] by (simp add: word_masks(4) bit_and_iff bit_mask_iff)
  qed
  then show ?thesis unfolding rx_process_step_def Let_def by simp
qed

text \<open>
  \<open>fasthdlc_rx_run\<close>: \<open>retval\<close> starts as \<open>RETURN_EMPTY_FLAG\<close>. The loop ends: each search
  step consumes a bit, and a frame step gives a result that ends it.
\<close>

function fasthdlc_rx_loop :: "fasthdlc_state \<Rightarrow> u16 \<Rightarrow> u16 \<times> fasthdlc_state" where
  "fasthdlc_rx_loop h retval =
     (if minbits (hstate h) \<le> hbits h \<and> retval = RETURN_EMPTY_FLAG then
        if hstate h = FRAME_SEARCH then fasthdlc_rx_loop (rx_search_step h) retval
        else case rx_process_step h of (r, h') \<Rightarrow> fasthdlc_rx_loop h' r
      else (retval, h))"
  by pat_completeness auto
termination
proof (relation "measure (\<lambda>(h, retval). if retval = RETURN_EMPTY_FLAG then Suc (nat (hbits h)) else 0)")
  fix h :: fasthdlc_state and retval :: u16
  assume a: "minbits (hstate h) \<le> hbits h \<and> retval = RETURN_EMPTY_FLAG" "hstate h = FRAME_SEARCH"
  obtain n where "0 < n" "hbits (rx_search_step h) = hbits h - int n"
    using rx_search_step_bits [of h] by metis
  with a show "((rx_search_step h, retval), h, retval)
      \<in> measure (\<lambda>(h, retval). if retval = RETURN_EMPTY_FLAG then Suc (nat (hbits h)) else 0)"
    by (simp add: minbits_def)
next
  fix h h' :: fasthdlc_state and retval r :: u16
  assume "minbits (hstate h) \<le> hbits h \<and> retval = RETURN_EMPTY_FLAG" "(r, h') = rx_process_step h"
  then show "((h', r), h, retval)
      \<in> measure (\<lambda>(h, retval). if retval = RETURN_EMPTY_FLAG then Suc (nat (hbits h)) else 0)"
    using rx_process_step_ret [of h] by (cases "rx_process_step h") auto
qed simp

declare fasthdlc_rx_loop.simps [simp del]

definition fasthdlc_rx_run :: "fasthdlc_state \<Rightarrow> u16 \<times> fasthdlc_state" where
  "fasthdlc_rx_run h = fasthdlc_rx_loop h RETURN_EMPTY_FLAG"

end
