(* ===== verification/Hdlc_Stream.thy ===== *)
theory Hdlc_Stream
  imports Fasthdlc
begin

text \<open>
  What the tables of \<open>fasthdlc.h\<close> are for: zero-bit insertion after five ones (\<open>stuff\<close>), flags
  between frames, and their removal. \<open>hdlc_encode\<close> is shown to hold the stuffed bits of a byte,
  \<open>hdlc_frame\<close> to take them out again; \<open>hreg\<close> reads the 32-bit shift register as the list of the bits it
  holds, so that loading appends and running drops. The last sections compose transmitter and
  receiver over a stream of channel bytes, and bound the receiver on arbitrary input.
\<close>

section \<open>Bit stuffing\<close>

fun stuff :: "nat \<Rightarrow> bool list \<Rightarrow> bool list" where
  "stuff k [] = []"
| "stuff k (b # bs) =
     (if b then (if k = 4 then True # False # stuff 0 bs else True # stuff (Suc k) bs)
      else False # stuff 0 bs)"

fun stuff_ones :: "nat \<Rightarrow> bool list \<Rightarrow> nat" where
  "stuff_ones k [] = k"
| "stuff_ones k (b # bs) = stuff_ones (if b then (if k = 4 then 0 else Suc k) else 0) bs"

lemma stuff_append: "stuff k (xs @ ys) = stuff k xs @ stuff (stuff_ones k xs) ys"
  by (induction k xs rule: stuff.induct) auto

lemma stuff_ones_append: "stuff_ones k (xs @ ys) = stuff_ones (stuff_ones k xs) ys"
  by (induction k xs rule: stuff.induct) auto

lemma stuff_ones_less: "k < 5 \<Longrightarrow> stuff_ones k bs < 5"
  by (induction k bs rule: stuff_ones.induct) auto

text \<open>The code stuffs a zero before the next bit, or at the end of the byte: the same bits.\<close>

fun henc :: "nat \<Rightarrow> bool list \<Rightarrow> bool list" where
  "henc k [] = (if k = 5 then [False] else [])"
| "henc k (b # bs) =
     (if k = 5 then False # b # henc (if b then 1 else 0) bs
      else b # henc (if b then Suc k else 0) bs)"

fun hones_after :: "nat \<Rightarrow> bool list \<Rightarrow> nat" where
  "hones_after k [] = (if k = 5 then 0 else k)"
| "hones_after k (b # bs) =
     hones_after (if b then (if k = 5 then 1 else Suc k) else 0) bs"

lemma henc_stuff: "k < 5 \<Longrightarrow> henc k bs = stuff k bs"
  and henc_stuff5: "henc 5 bs = False # stuff 0 bs"
proof -
  have "(k < 5 \<longrightarrow> henc k bs = stuff k bs) \<and> henc 5 bs = False # stuff 0 bs"
    by (induction bs arbitrary: k) auto
  then show "k < 5 \<Longrightarrow> henc k bs = stuff k bs" and "henc 5 bs = False # stuff 0 bs" by auto
qed

lemma hones_after_stuff: "k < 5 \<Longrightarrow> hones_after k bs = stuff_ones k bs"
proof -
  have "(k < 5 \<longrightarrow> hones_after k bs = stuff_ones k bs) \<and> hones_after 5 bs = stuff_ones 0 bs"
    by (induction bs arbitrary: k) auto
  then show "k < 5 \<Longrightarrow> hones_after k bs = stuff_ones k bs" by auto
qed

lemma henc_length: "k \<le> 5 \<Longrightarrow> length bs \<le> length (henc k bs) \<and>
    5 * length (henc k bs) + hones_after k bs \<le> k + 6 * length bs \<and> hones_after k bs \<le> 4"
  by (induction k bs rule: henc.induct) auto

section \<open>The encoder table\<close>

definition emits :: "u16 \<Rightarrow> bool list \<Rightarrow> bool" where
  "emits d em \<longleftrightarrow> (\<forall>i < 16. bit d i \<longleftrightarrow> i < length em \<and> em ! (length em - Suc i))"

lemma emits_Nil [simp]: "emits 0 []"
  by (simp add: emits_def)

lemma emits_push0: "emits d em \<Longrightarrow> emits (push_bit 1 d) (em @ [False])"
  unfolding emits_def
proof (intro allI impI)
  fix i :: nat assume d: "\<forall>i<16. bit d i = (i < length em \<and> em ! (length em - Suc i))" and i: "i < 16"
  show "bit (push_bit 1 d) i = (i < length (em @ [False]) \<and> (em @ [False]) ! (length (em @ [False]) - Suc i))"
    using d i by (cases i) (auto simp: bit_simps nth_append)
qed

lemma emits_push1: "emits d em \<Longrightarrow> emits (push_bit 1 d OR 1) (em @ [True])"
  unfolding emits_def
proof (intro allI impI)
  fix i :: nat assume d: "\<forall>i<16. bit d i = (i < length em \<and> em ! (length em - Suc i))" and i: "i < 16"
  show "bit (push_bit 1 d OR 1) i = (i < length (em @ [True]) \<and> (em @ [True]) ! (length (em @ [True]) - Suc i))"
    using d i by (cases i) (auto simp: bit_simps nth_append)
qed

definition byte_tail :: "nat \<Rightarrow> byte \<Rightarrow> bool list" where
  "byte_tail z y = map (bit y) [0..<z]"

lemma byte_tail_Suc: "byte_tail (Suc z) y = bit y 0 # byte_tail z (drop_bit 1 y)"
  by (simp add: byte_tail_def map_upt_Suc bit_drop_bit_eq comp_def del: upt_Suc)

lemma byte_tail_8: "byte_tail 8 y = lsb_bits y"
  by (simp add: byte_tail_def lsb_bits_def)

lemma encode_loop_spec:
  assumes "emits dat em" "length em = bits" "hdlc_encode_loop z y ones dat bits = (dat', ones', bits')"
  shows "\<exists>em'. emits dat' em' \<and> length em' = bits' \<and>
    em @ henc ones (byte_tail z y) = (if ones' = 5 then em' @ [False] else em') \<and>
    hones_after ones (byte_tail z y) = (if ones' = 5 then 0 else ones')"
  using assms
proof (induction z arbitrary: y ones dat bits em)
  case 0
  then show ?case by (auto simp: byte_tail_def)
next
  case (Suc z)
  define d1 o1 b1 e1 where defs: "d1 = (if ones = 5 then push_bit 1 dat else dat)"
    "o1 = (if ones = 5 then 0 else ones)" "b1 = (if ones = 5 then bits + 1 else bits)"
    "e1 = (if ones = 5 then em @ [False] else em)"
  have e1: "emits d1 e1" "length e1 = b1"
    using emits_push0 [OF Suc.prems(1)] Suc.prems(1,2) by (auto simp: defs)
  show ?case
  proof (cases "bit y 0")
    case True
    have "hdlc_encode_loop z (drop_bit 1 y) (o1 + 1) (push_bit 1 d1 OR 1) (b1 + 1) = (dat', ones', bits')"
      using Suc.prems(3) True by (auto simp: defs split: if_splits)
    from Suc.IH [OF emits_push1 [OF e1(1)] _ this] show ?thesis
      using e1(2) True by (auto simp: defs byte_tail_Suc split: if_splits)
  next
    case False
    have "hdlc_encode_loop z (drop_bit 1 y) 0 (push_bit 1 d1) (b1 + 1) = (dat', ones', bits')"
      using Suc.prems(3) False by (auto simp: defs split: if_splits)
    from Suc.IH [OF emits_push0 [OF e1(1)] _ this] show ?thesis
      using e1(2) False by (auto simp: defs byte_tail_Suc split: if_splits)
  qed
qed


lemma bit_masks:
  "bit (0xffc00000 :: u32) j \<longleftrightarrow> 22 \<le> j \<and> j < 32"
  "bit (0xf00 :: u32) j \<longleftrightarrow> 8 \<le> j \<and> j < 12"
  "bit (0xf :: u32) j \<longleftrightarrow> j < 4"
  by (simp_all only: word_masks bit_push_bit_iff bit_mask_iff) auto

lemma encode_precalc_packed:
  fixes x :: nat and y :: byte
  assumes x: "x < 5"
  shows "\<exists>d. emits d (henc x (lsb_bits y)) \<and> hdlc_encode_precalc x y =
     push_bit 22 (ucast (push_bit (10 - length (henc x (lsb_bits y))) d))
     OR push_bit 8 (of_nat (hones_after x (lsb_bits y))) OR of_nat (length (henc x (lsb_bits y)))"
proof -
  obtain d0 o0 n0 where lp: "hdlc_encode_loop 8 y x 0 0 = (d0, o0, n0)" by (metis prod_cases3)
  obtain em0 where em0: "emits d0 em0" "length em0 = n0"
    "henc x (lsb_bits y) = (if o0 = 5 then em0 @ [False] else em0)"
    "hones_after x (lsb_bits y) = (if o0 = 5 then 0 else o0)"
    using encode_loop_spec [OF emits_Nil _ lp] by (auto simp: byte_tail_8)
  show ?thesis
    using em0 emits_push0 [OF em0(1)]
    by (intro exI [where x = "if o0 = 5 then push_bit 1 d0 else d0"])
      (auto simp: hdlc_encode_precalc_def lp)
qed

lemma emits_bit: "emits d em \<Longrightarrow> bit d j \<longleftrightarrow> j < 16 \<and> j < length em \<and> em ! (length em - Suc j)"
  using bit_imp_le_length [of d j] by (auto simp: emits_def)

lemma encode_precalc_bit:
  fixes x :: nat and y :: byte
  assumes x: "x < 5" and j: "j < 32" and em: "em = henc x (lsb_bits y)"
  shows "bit (hdlc_encode_precalc x y) j \<longleftrightarrow>
      22 \<le> j \<and> 31 - j < length em \<and> em ! (31 - j)
      \<or> 8 \<le> j \<and> bit (hones_after x (lsb_bits y)) (j - 8) \<or> bit (length em) j"
proof -
  obtain d where d: "emits d em" and r: "hdlc_encode_precalc x y =
     push_bit 22 (ucast (push_bit (10 - length em) d))
     OR push_bit 8 (of_nat (hones_after x (lsb_bits y))) OR of_nat (length em)"
    using encode_precalc_packed [OF x, of y] em by blast
  have len: "length em \<le> 10" using henc_length [of x "lsb_bits y"] x em by auto
  have "22 \<le> j \<Longrightarrow> bit (push_bit (10 - length em) d) (j - 22) \<longleftrightarrow> 31 - j < length em \<and> em ! (31 - j)"
  proof -
    assume "22 \<le> j"
    then have "length em - Suc (j - 22 - (10 - length em)) = 31 - j" if "10 - length em \<le> j - 22"
      using that j len by linarith
    then show ?thesis
      using \<open>22 \<le> j\<close> j len by (auto simp: bit_push_bit_iff emits_bit [OF d])
  qed
  then show ?thesis
    using j by (auto simp: r bit_or_iff bit_push_bit_iff bit_unsigned_iff bit_of_nat_iff
        dest: bit_imp_le_length)
qed

lemma encode_small_fields:
  fixes x :: nat and y :: byte
  assumes x: "x < 5"
  shows "length (henc x (lsb_bits y)) \<le> 10" "bit (length (henc x (lsb_bits y))) j \<Longrightarrow> j < 4"
    "bit (hones_after x (lsb_bits y)) j \<Longrightarrow> j < 3"
proof -
  show len: "length (henc x (lsb_bits y)) \<le> 10"
    using henc_length [of x "lsb_bits y"] x by auto
  have k: "hones_after x (lsb_bits y) \<le> 4"
    using henc_length [of x "lsb_bits y"] x by auto
  show "bit (length (henc x (lsb_bits y))) j \<Longrightarrow> j < 4"
    using len by (auto intro: bit_nat_less [of _ _ 4])
  show "bit (hones_after x (lsb_bits y)) j \<Longrightarrow> j < 3"
    using k by (auto intro: bit_nat_less [of _ _ 3])
qed

lemma bit_and_masks:
  "bit (w AND (0xffc00000 :: u32)) j \<longleftrightarrow> bit w j \<and> 22 \<le> j"
  "bit (w AND (0xf00 :: u32)) j \<longleftrightarrow> bit w j \<and> 8 \<le> j \<and> j < 12"
  "bit (w AND (0xf :: u32)) j \<longleftrightarrow> bit w j \<and> j < 4"
  unfolding bit_and_iff bit_masks by (auto dest: bit_imp_le_length)

lemma bit_drop8_and:
  "bit (drop_bit 8 (w AND (0xf00 :: u32))) j \<longleftrightarrow> bit w (8 + j) \<and> j < 4"
  unfolding bit_drop_bit_eq comp_def bit_and_masks by auto

lemma encode_precalc_len:
  assumes x: "x < 5"
  shows "uint (hdlc_encode_precalc x y AND 0xf) = int (length (henc x (lsb_bits y)))"
proof -
  have "hdlc_encode_precalc x y AND 0xf = of_nat (length (henc x (lsb_bits y)))"
  proof (rule bit_word_eqI)
    fix j assume "j < LENGTH(32)"
    then show "bit (hdlc_encode_precalc x y AND 0xf) j = bit (of_nat (length (henc x (lsb_bits y))) :: u32) j"
      using encode_small_fields(2) [OF x, of y j] unfolding bit_and_masks
      by (auto simp: encode_precalc_bit [OF x _ refl] bit_of_nat_iff)
  qed
  then show ?thesis using encode_small_fields(1) [OF x, of y] by (simp add: uint_nat unat_of_nat)
qed

lemma encode_precalc_ones:
  assumes x: "x < 5"
  shows "unat (drop_bit 8 (hdlc_encode_precalc x y AND 0xf00)) = hones_after x (lsb_bits y)"
proof -
  have "drop_bit 8 (hdlc_encode_precalc x y AND 0xf00) = of_nat (hones_after x (lsb_bits y))"
  proof (rule bit_word_eqI)
    fix j assume "j < LENGTH(32)"
    then show "bit (drop_bit 8 (hdlc_encode_precalc x y AND 0xf00)) j
        = bit (of_nat (hones_after x (lsb_bits y)) :: u32) j"
      using encode_small_fields(2) [OF x, of y "8 + j"] encode_small_fields(3) [OF x, of y j]
      unfolding bit_drop8_and
      by (auto simp: encode_precalc_bit [OF x _ refl] bit_of_nat_iff)
  qed
  then show ?thesis using henc_length [of x "lsb_bits y"] x by (simp add: unat_of_nat)
qed

lemma encode_precalc_data:
  assumes x: "x < 5" and j: "j < 32"
  shows "bit (hdlc_encode_precalc x y AND 0xffc00000) j \<longleftrightarrow>
    31 - j < length (henc x (lsb_bits y)) \<and> henc x (lsb_bits y) ! (31 - j)"
  using j encode_small_fields(1) [OF x, of y] encode_small_fields(2) [OF x, of y j]
    encode_small_fields(3) [OF x, of y "j - 8"]
  unfolding bit_and_masks encode_precalc_bit [OF x j refl]
  by auto

section \<open>The decoder table\<close>

text \<open>\<open>win c ws\<close>: the next bits of the window are \<open>ws\<close>; \<open>octet_acc d bs\<close>: \<open>d\<close> has received \<open>bs\<close>.\<close>

definition win :: "u16 \<Rightarrow> bool list \<Rightarrow> bool" where
  "win c ws \<longleftrightarrow> length ws \<le> 10 \<and> (\<forall>i < length ws. bit c (9 - i) = ws ! i)"

definition octet_acc :: "byte \<Rightarrow> bool list \<Rightarrow> bool" where
  "octet_acc d bs \<longleftrightarrow> (\<forall>i < 8. bit d i \<longleftrightarrow> 8 - length bs \<le> i \<and> bs ! (i - (8 - length bs)))"

lemma win_Cons: "win c (w # ws) \<Longrightarrow> bit c 9 = w \<and> win (push_bit 1 c) ws"
proof -
  assume w: "win c (w # ws)"
  have "bit (push_bit 1 c) (9 - i) = ws ! i" if "i < length ws" for i
  proof -
    have "bit c (9 - Suc i) = (w # ws) ! Suc i" using w that by (auto simp: win_def)
    moreover have "9 - i = Suc (9 - Suc i)" "9 - i < 16" using w that by (auto simp: win_def)
    ultimately show ?thesis by (simp add: bit_push_bit_iff)
  qed
  then show ?thesis using w by (auto simp: win_def)
qed

lemma win_append: "win c (xs @ ys) \<Longrightarrow> win c xs"
  by (auto simp: win_def nth_append)

lemma octet_acc_Nil [simp]: "octet_acc 0 []"
  by (simp add: octet_acc_def)

lemma octet_acc_snoc:
  assumes a: "octet_acc d bs" and l: "length bs < 8"
  shows "octet_acc (if b then drop_bit 1 d OR 0x80 else drop_bit 1 d) (bs @ [b])"
  unfolding octet_acc_def
proof (intro allI impI)
  fix i :: nat assume i: "i < 8"
  have m: "bit (0x80 :: byte) i \<longleftrightarrow> i = 7"
    using bit_exp_iff [where 'a = "8 word", of 7 i] i by auto
  show "bit (if b then drop_bit 1 d OR 0x80 else drop_bit 1 d) i
      \<longleftrightarrow> 8 - length (bs @ [b]) \<le> i \<and> (bs @ [b]) ! (i - (8 - length (bs @ [b])))"
  proof (cases "i = 7")
    case True
    then show ?thesis using l m
      by (auto simp: bit_or_iff bit_drop_bit_eq nth_append dest: bit_imp_le_length)
  next
    case False
    with i have i7: "i < 7" by simp
    have "bit (if b then drop_bit 1 d OR 0x80 else drop_bit 1 d) i = bit d (Suc i)"
      using m False by (auto simp: bit_or_iff bit_drop_bit_eq)
    also have "\<dots> \<longleftrightarrow> 8 - length bs \<le> Suc i \<and> bs ! (Suc i - (8 - length bs))"
      using a i7 by (auto simp: octet_acc_def)
    also have "\<dots> \<longleftrightarrow> 8 - length (bs @ [b]) \<le> i \<and> (bs @ [b]) ! (i - (8 - length (bs @ [b])))"
    proof -
      have "Suc i - (8 - length bs) = i - (8 - length (bs @ [b]))" if "8 - length bs \<le> Suc i"
        using that l by simp
      moreover have "i - (8 - length (bs @ [b])) < length bs" if "8 - length bs \<le> Suc i"
        using that i7 l by (simp; linarith)
      moreover have "8 - length bs \<le> Suc i \<longleftrightarrow> 8 - length (bs @ [b]) \<le> i" using l by (simp; linarith)
      ultimately show ?thesis by (auto simp: nth_append)
    qed
    finally show ?thesis .
  qed
qed

lemma octet_acc_8: "octet_acc d bs \<Longrightarrow> length bs = 8 \<Longrightarrow> lsb_bits d = bs"
  by (intro nth_equalityI) (auto simp: octet_acc_def)

lemma bytes_shift_id:
  assumes "octet_acc d bs" "length bs < 8"
  shows "push_bit 1 (drop_bit 1 d) = d"
proof (rule bit_word_eqI)
  fix n assume "n < LENGTH(8)"
  moreover have "\<not> bit d 0" using assms by (auto simp: octet_acc_def)
  ultimately show "bit (push_bit 1 (drop_bit 1 d)) n = bit d n"
    by (cases n) (auto simp: bit_push_bit_iff bit_drop_bit_eq)
qed

lemma frame_loop_done: "hdlc_frame_loop ones d 8 n c
    = HFP STATUS_VALID (if ones = 5 then 0 else ones) (if ones = 5 then n + 1 else n) (ucast d)"
  by (subst hdlc_frame_loop.simps) simp

lemma frame_loop_bit:
  assumes "k < 8" "ones \<noteq> 5"
  shows "hdlc_frame_loop ones d k n c = hdlc_frame_loop (if bit c 9 then Suc ones else 0)
     (if bit c 9 then drop_bit 1 d OR 0x80 else drop_bit 1 d) (Suc k) (Suc n) (push_bit 1 c)"
  using assms by (subst hdlc_frame_loop.simps) simp

lemma frame_loop_unstuff:
  assumes "k < 8" "\<not> bit c 9"
  shows "hdlc_frame_loop 5 d k n c = hdlc_frame_loop 0 (push_bit 1 (drop_bit 1 d)) k (Suc n) (push_bit 1 c)"
  using assms by (subst hdlc_frame_loop.simps) simp

lemma frame_loop_byte:
  assumes "octet_acc d bs0" "length bs0 + length bs = 8" "win c (henc ones bs)" "ones \<le> 5"
  shows "\<exists>d'. octet_acc d' (bs0 @ bs) \<and> hdlc_frame_loop ones d (length bs0) n c
      = HFP STATUS_VALID (hones_after ones bs) (n + length (henc ones bs)) (ucast d')"
  using assms
proof (induction bs arbitrary: d bs0 c ones n)
  case Nil
  then show ?case by (auto simp: frame_loop_done intro!: exI [of _ d])
next
  case (Cons b bs)
  have step: "\<exists>d'. octet_acc d' (bs0 @ b # bs) \<and> hdlc_frame_loop o1 d (length bs0) n1 c1
      = HFP STATUS_VALID (hones_after (if b then Suc o1 else 0) bs)
          (n1 + Suc (length (henc (if b then Suc o1 else 0) bs))) (ucast d')"
    if o1: "o1 < 5" and w: "win c1 (b # henc (if b then Suc o1 else 0) bs)" for o1 n1 c1
  proof -
    have b: "bit c1 9 = b" and w': "win (push_bit 1 c1) (henc (if b then Suc o1 else 0) bs)"
      using win_Cons [OF w] by auto
    have l: "length bs0 < 8" using Cons.prems by simp
    have "\<exists>d'. octet_acc d' ((bs0 @ [b]) @ bs) \<and>
        hdlc_frame_loop (if b then Suc o1 else 0) (if b then drop_bit 1 d OR 0x80 else drop_bit 1 d)
          (length (bs0 @ [b])) (Suc n1) (push_bit 1 c1)
        = HFP STATUS_VALID (hones_after (if b then Suc o1 else 0) bs)
          (Suc n1 + length (henc (if b then Suc o1 else 0) bs)) (ucast d')"
      using Cons.prems o1 w' by (intro Cons.IH octet_acc_snoc) auto
    then show ?thesis using o1 l b by (simp add: frame_loop_bit)
  qed
  show ?case
  proof (cases "ones = 5")
    case True
    have l: "length bs0 < 8" using Cons.prems by simp
    from True Cons.prems(3) have w: "win c (False # b # henc (if b then Suc 0 else 0) bs)" by auto
    have nb: "\<not> bit c 9" and w': "win (push_bit 1 c) (b # henc (if b then Suc 0 else 0) bs)"
      using win_Cons [OF w] by auto
    have id: "push_bit (Suc 0) (drop_bit (Suc 0) d) = d" using bytes_shift_id [OF Cons.prems(1) l] by simp
    from step [of 0 "push_bit 1 c" "Suc n", OF _ w'] True l nb show ?thesis
      by (simp add: frame_loop_unstuff id split: if_splits)
  next
    case False
    with Cons.prems have "ones < 5" "win c (b # henc (if b then Suc ones else 0) bs)" by auto
    from step [OF this, of n] False show ?thesis by (auto split: if_splits)
  qed
qed

definition flag_bits :: "bool list" where
  "flag_bits = [False, True, True, True, True, True, True, False]"

lemma length_flag_bits [simp]: "length flag_bits = 8"
  by (simp add: flag_bits_def)

lemma frame_loop_ones:
  assumes "win c (replicate k True @ ws)" "ones + k \<le> 5" "m + k \<le> 7"
  shows "\<exists>d'. hdlc_frame_loop ones d m n c
      = hdlc_frame_loop (ones + k) d' (m + k) (n + k) (push_bit k c) \<and> win (push_bit k c) ws"
  using assms
proof (induction k arbitrary: ones d m n c)
  case (Suc k)
  have b: "bit c 9" and w: "win (push_bit 1 c) (replicate k True @ ws)"
    using win_Cons [of c True "replicate k True @ ws"] Suc.prems by auto
  have "\<exists>d'. hdlc_frame_loop (Suc ones) (drop_bit 1 d OR 0x80) (Suc m) (Suc n) (push_bit 1 c)
      = hdlc_frame_loop (Suc ones + k) d' (Suc m + k) (Suc n + k) (push_bit k (push_bit 1 c))
        \<and> win (push_bit k (push_bit 1 c)) ws"
    using Suc.prems w by (intro Suc.IH) auto
  then show ?case using Suc.prems b by (simp add: frame_loop_bit push_bit_push_bit)
qed auto

lemma frame_loop_flag:
  assumes w: "win c flag_bits" and k: "ones < 5"
  shows "hdlc_frame_loop ones 0 0 0 c = HFP 0 0 8 CONTROL_COMPLETE"
proof -
  have b: "\<not> bit c 9" and w1: "win (push_bit 1 c) (replicate 5 True @ [True, False])"
    using win_Cons [of c False "[True, True, True, True, True, True, False]"] w
    by (auto simp: flag_bits_def numeral_eq_Suc)
  have l1: "hdlc_frame_loop ones 0 0 0 c = hdlc_frame_loop 0 0 1 1 (push_bit 1 c)"
    using k b by (simp add: frame_loop_bit)
  obtain d' where l2: "hdlc_frame_loop 0 0 1 1 (push_bit 1 c) = hdlc_frame_loop 5 d' 6 6 (push_bit 5 (push_bit 1 c))"
    and w2: "win (push_bit 5 (push_bit 1 c)) [True, False]"
    using frame_loop_ones [OF w1, of 0 1 0 1] by auto
  have "bit (push_bit 5 (push_bit 1 c)) 9" "\<not> bit (push_bit 5 (push_bit 1 c)) 8"
    using w2 unfolding win_def by (auto simp: less_Suc_eq)
  then show ?thesis unfolding l1 l2 by (subst hdlc_frame_loop.simps) simp
qed

section \<open>The shift register\<close>

definition hreg :: "u32 \<Rightarrow> bool list \<Rightarrow> bool" where
  "hreg d w \<longleftrightarrow> length w \<le> 32 \<and> (\<forall>j < 32. bit d j \<longleftrightarrow> 31 - j < length w \<and> w ! (31 - j))"

lemma hreg_Nil [simp]: "hreg 0 []"
  by (simp add: hreg_def)

lemma hreg_bit: "hreg d w \<Longrightarrow> i < length w \<Longrightarrow> bit d (31 - i) = w ! i"
  by (auto simp: hreg_def)

lemma hreg_append:
  assumes "hreg d w" "hreg e v" "length w + length v \<le> 32"
  shows "hreg (d OR drop_bit (length w) e) (w @ v)"
  unfolding hreg_def
proof (intro conjI allI impI)
  fix j :: nat assume j: "j < 32"
  have e: "bit (drop_bit (length w) e) j \<longleftrightarrow> length w \<le> 31 - j \<and> 31 - j - length w < length v \<and> v ! (31 - j - length w)"
  proof (cases "length w + j < 32")
    case True
    then have "31 - (length w + j) = 31 - j - length w" "length w \<le> 31 - j" by auto
    then show ?thesis using assms(2) True by (simp add: bit_drop_bit_eq hreg_def)
  next
    case False
    then have "\<not> bit e (length w + j)" by (auto dest: bit_imp_le_length)
    moreover have "\<not> length w \<le> 31 - j" using False j by linarith
    ultimately show ?thesis by (simp add: bit_drop_bit_eq)
  qed
  have "bit (d OR drop_bit (length w) e) j \<longleftrightarrow> (31 - j < length w \<and> w ! (31 - j)) \<or> bit (drop_bit (length w) e) j"
    using assms(1) j by (simp add: bit_or_iff hreg_def)
  then show "bit (d OR drop_bit (length w) e) j = (31 - j < length (w @ v) \<and> (w @ v) ! (31 - j))"
    unfolding e by (auto simp: nth_append)
qed (use assms(3) in simp)

lemma hreg_drop:
  assumes "hreg d w" "n \<le> length w"
  shows "hreg (push_bit n d) (drop n w)"
  unfolding hreg_def
proof (intro conjI allI impI)
  fix j :: nat assume j: "j < 32"
  have l: "length w \<le> 32" using assms(1) by (simp add: hreg_def)
  show "bit (push_bit n d) j = (31 - j < length (drop n w) \<and> drop n w ! (31 - j))"
  proof (cases "n \<le> j")
    case True
    then have "31 - (j - n) = n + (31 - j)" using j by simp
    moreover have "bit d (j - n) \<longleftrightarrow> 31 - (j - n) < length w \<and> w ! (31 - (j - n))"
      using assms(1) j by (simp add: hreg_def)
    ultimately show ?thesis using True j assms(2) by (auto simp: bit_push_bit_iff)
  next
    case False
    then show ?thesis using j l by (auto simp: bit_push_bit_iff)
  qed
qed (use assms in \<open>simp add: hreg_def; linarith\<close>)

lemma hreg_win: "hreg d w \<Longrightarrow> length v \<le> 10 \<Longrightarrow> w = v @ u \<Longrightarrow> win (ucast (drop_bit 22 d)) v"
proof -
  assume a: "hreg d w" "length v \<le> 10" "w = v @ u"
  have "bit (ucast (drop_bit 22 d) :: u16) (9 - i) = v ! i" if i: "i < length v" for i
  proof -
    have "22 + (9 - i) = 31 - i" "9 - i < 16" using i a(2) by auto
    then show ?thesis
      using hreg_bit [OF a(1), of i] a i by (simp add: bit_unsigned_iff bit_drop_bit_eq nth_append)
  qed
  then show ?thesis using a(2) by (simp add: win_def)
qed

definition chunk_bits :: "fasthdlc_mode \<Rightarrow> byte \<Rightarrow> bool list" where
  "chunk_bits m b = top_bits (case m of FASTHDLC_MODE_64 \<Rightarrow> 8 | FASTHDLC_MODE_56 \<Rightarrow> 7) b"

definition chunk_len :: "fasthdlc_mode \<Rightarrow> nat" where
  "chunk_len m = (case m of FASTHDLC_MODE_64 \<Rightarrow> 8 | FASTHDLC_MODE_56 \<Rightarrow> 7)"

lemma length_chunk_bits [simp]: "length (chunk_bits m b) = chunk_len m"
  by (cases m) (simp_all add: chunk_bits_def chunk_len_def)

lemma chunk_len_bounds: "7 \<le> chunk_len m" "chunk_len m \<le> 8"
  by (cases m; simp add: chunk_len_def)+

section \<open>The transmitter\<close>

datatype hdlc_item = HByte byte | HFlag

fun item_enc :: "nat \<Rightarrow> hdlc_item \<Rightarrow> bool list" where
  "item_enc k (HByte b) = henc k (lsb_bits b)"
| "item_enc k HFlag = flag_bits"

fun item_ones :: "nat \<Rightarrow> hdlc_item \<Rightarrow> nat" where
  "item_ones k (HByte b) = hones_after k (lsb_bits b)"
| "item_ones k HFlag = 0"

fun items_enc :: "nat \<Rightarrow> hdlc_item list \<Rightarrow> bool list" where
  "items_enc k [] = []"
| "items_enc k (i # is) = item_enc k i @ items_enc (item_ones k i) is"

fun tx_put :: "hdlc_item \<Rightarrow> fasthdlc_state \<Rightarrow> fasthdlc_state" where
  "tx_put (HByte b) h = fasthdlc_tx_load_nocheck b h"
| "tx_put HFlag h = fasthdlc_tx_frame_nocheck h"

lemma item_enc_length: "k < 5 \<Longrightarrow> 8 \<le> length (item_enc k i) \<and> length (item_enc k i) \<le> 10 \<and> item_ones k i < 5"
proof (cases i)
  case (HByte b)
  then show "k < 5 \<Longrightarrow> ?thesis" using henc_length [of k "lsb_bits b"] by auto
qed simp

definition tx_ok :: "fasthdlc_state \<Rightarrow> bool list \<Rightarrow> bool" where
  "tx_ok h w \<longleftrightarrow> hreg (hdata h) w \<and> hbits h = int (length w) \<and> hones h < 5"

lemma hreg_flag: "hreg 0x7e000000 flag_bits"
proof -
  have m: "bit (0x7e000000 :: u32) j \<longleftrightarrow> 25 \<le> j \<and> j < 31" if "j < 32" for j
  proof -
    have "(0x7e000000 :: u32) = push_bit 25 (mask 6)" by (simp add: mask_eq_exp_minus_1 push_bit_eq_mult)
    with that show ?thesis by (simp only: bit_push_bit_iff bit_mask_iff) auto
  qed
  have "flag_bits ! i \<longleftrightarrow> 1 \<le> i \<and> i < 7" if "i < 8" for i
  proof -
    have "i \<in> {0, 1, 2, 3, 4, 5, 6, 7}" using that by auto
    then show ?thesis by (auto simp: flag_bits_def)
  qed
  then have "bit (0x7e000000 :: u32) j \<longleftrightarrow> 31 - j < 8 \<and> flag_bits ! (31 - j)" if "j < 32" for j
    using m [OF that] that by auto
  then show ?thesis unfolding hreg_def length_flag_bits by auto
qed

lemma hreg_encode: "x < 5 \<Longrightarrow> hreg (hdlc_encode_precalc x y AND 0xffc00000) (henc x (lsb_bits y))"
  using encode_small_fields(1) [of x y] unfolding hreg_def by (auto simp: encode_precalc_data)

lemma tx_load_eq:
  assumes "hones h < 5"
  shows "fasthdlc_tx_load_nocheck b h =
     h\<lparr>hones := hones_after (hones h) (lsb_bits b),
       hdata := hdata h OR drop_bit (nat (hbits h)) (hdlc_encode_precalc (hones h) b AND 0xffc00000),
       hbits := hbits h + int (length (henc (hones h) (lsb_bits b)))\<rparr>"
  unfolding fasthdlc_tx_load_nocheck_def Let_def encode_precalc_len [OF assms] encode_precalc_ones [OF assms]
  by (rule refl)

lemma tx_put_ok:
  assumes "tx_ok h w" "length w \<le> 22"
  shows "tx_ok (tx_put i h) (w @ item_enc (hones h) i) \<and> hones (tx_put i h) = item_ones (hones h) i
     \<and> hmode (tx_put i h) = hmode h"
proof (cases i)
  case (HByte b)
  have k: "hones h < 5" using assms(1) by (simp add: tx_ok_def)
  show ?thesis
    using assms HByte k item_enc_length [OF k, of i] hreg_append [OF _ hreg_encode [OF k, of b]]
    by (simp add: tx_ok_def tx_load_eq)
next
  case HFlag
  then show ?thesis
    using assms hreg_append [OF _ hreg_flag]
    by (simp add: tx_ok_def fasthdlc_tx_frame_nocheck_def)
qed

lemma tx_need_data_iff: "tx_ok h w \<Longrightarrow> fasthdlc_tx_need_data h \<longleftrightarrow> length w < chunk_len (hmode h)"
  by (cases "hmode h") (auto simp: fasthdlc_tx_need_data_def tx_ok_def chunk_len_def)

lemma tx_run_ok:
  assumes "tx_ok h w" "chunk_len (hmode h) \<le> length w"
  shows "chunk_bits (hmode h) (fst (fasthdlc_tx_run_nocheck h)) = take (chunk_len (hmode h)) w
     \<and> tx_ok (snd (fasthdlc_tx_run_nocheck h)) (drop (chunk_len (hmode h)) w)
     \<and> hones (snd (fasthdlc_tx_run_nocheck h)) = hones h \<and> hmode (snd (fasthdlc_tx_run_nocheck h)) = hmode h"
proof (cases "hmode h")
  case FASTHDLC_MODE_64
  have b: "bit (ucast (drop_bit 24 (hdata h)) :: byte) (7 - i) = w ! i" if i: "i < 8" for i
  proof -
    have "24 + (7 - i) = 31 - i" "7 - i < 8" using i by auto
    then show ?thesis using hreg_bit [of "hdata h" w i] assms FASTHDLC_MODE_64 i
      by (simp add: tx_ok_def chunk_len_def bit_unsigned_iff bit_drop_bit_eq)
  qed
  have "top_bits 8 (ucast (drop_bit 24 (hdata h)) :: byte) = take 8 w"
    using assms FASTHDLC_MODE_64 b by (intro nth_equalityI) (auto simp: chunk_len_def)
  then show ?thesis
    using assms FASTHDLC_MODE_64 hreg_drop [of "hdata h" w 8]
    by (simp add: fasthdlc_tx_run_nocheck_def chunk_bits_def chunk_len_def tx_ok_def Let_def)
next
  case FASTHDLC_MODE_56
  let ?b = "ucast (drop_bit 25 (hdata h)) :: byte"
  have b: "bit (push_bit 1 (?b AND 0x7f) OR 1) (7 - i) = w ! i" if i: "i < 7" for i
  proof -
    have e: "25 + (6 - i) = 31 - i" "6 - i < 7" "7 - i = Suc (6 - i)" using i by auto
    have m: "bit (0x7f :: byte) (6 - i)"
      using bit_mask_iff [where 'a = "8 word", of 7 "6 - i"] e(2) by (simp add: mask_eq_exp_minus_1)
    have "bit (push_bit 1 (?b AND 0x7f) OR 1) (7 - i) = bit ?b (6 - i)"
      unfolding e(3) using m e(2) by (simp add: bit_or_iff bit_push_bit_iff bit_and_iff bit_1_iff)
    then show ?thesis using hreg_bit [of "hdata h" w i] assms FASTHDLC_MODE_56 i e
      by (simp add: tx_ok_def chunk_len_def bit_unsigned_iff bit_drop_bit_eq)
  qed
  have "top_bits 7 (push_bit 1 (?b AND 0x7f) OR 1) = take 7 w"
  proof (rule nth_equalityI)
    fix i assume "i < length (top_bits 7 (push_bit 1 (?b AND 0x7f) OR 1))"
    then have "i < 7" by simp
    with b [OF this] show "top_bits 7 (push_bit 1 (?b AND 0x7f) OR 1) ! i = take 7 w ! i"
      by (subst nth_top_bits) auto
  qed (use assms FASTHDLC_MODE_56 in \<open>simp add: chunk_len_def\<close>)
  then show ?thesis
    using assms FASTHDLC_MODE_56 hreg_drop [of "hdata h" w 7]
    by (simp add: fasthdlc_tx_run_nocheck_def chunk_bits_def chunk_len_def tx_ok_def Let_def)
qed

text \<open>
  What \<open>__dahdi_getbuf_chunk\<close> does for each byte of the chunk: load the next item when
  the shift register has less than a byte, then run.
\<close>

function tx_stream :: "fasthdlc_state \<Rightarrow> hdlc_item list \<Rightarrow> byte list \<times> fasthdlc_state" where
  "tx_stream h its =
     (if fasthdlc_tx_need_data h then
        (case its of [] \<Rightarrow> ([], h)
         | i # is \<Rightarrow>
             (let (b, h1) = fasthdlc_tx_run_nocheck (tx_put i h); (bs, h2) = tx_stream h1 is
              in (b # bs, h2)))
      else
        (let (b, h1) = fasthdlc_tx_run_nocheck h; (bs, h2) = tx_stream h1 its in (b # bs, h2)))"
  by pat_completeness auto
termination
proof (relation "measure (\<lambda>(h, its). nat (hbits h) + 16 * length its)")
  fix h h1 :: fasthdlc_state and its "is" i x b
  assume "its = i # is" "x = fasthdlc_tx_run_nocheck (tx_put i h)" "(b, h1) = x"
  then have h1: "hbits h1 < hbits (tx_put i h)"
    by (auto simp: fasthdlc_tx_run_nocheck_def Let_def split: fasthdlc_mode.splits)
  have n: "uint (w AND (0xf :: u32)) \<le> 15" for w
  proof -
    have "w AND 0xf = take_bit 4 w" by (simp only: word_masks(6) take_bit_eq_mask)
    then show ?thesis
      using take_bit_int_less_exp [of 4 "uint w"] by (simp add: unsigned_take_bit_eq)
  qed
  have "hbits (tx_put i h) \<le> hbits h + 15"
    using n by (cases i) (auto simp: fasthdlc_tx_load_nocheck_def fasthdlc_tx_frame_nocheck_def Let_def)
  with h1 \<open>its = i # is\<close> show "((h1, is), h, its) \<in> measure (\<lambda>(h, its). nat (hbits h) + 16 * length its)"
    by auto
next
  fix h h1 :: fasthdlc_state and its x b
  assume "\<not> fasthdlc_tx_need_data h" "x = fasthdlc_tx_run_nocheck h" "(b, h1) = x"
  then show "((h1, its), h, its) \<in> measure (\<lambda>(h, its). nat (hbits h) + 16 * length its)"
    by (auto simp: fasthdlc_tx_run_nocheck_def fasthdlc_tx_need_data_def Let_def split: fasthdlc_mode.splits)
qed simp


declare tx_stream.simps [simp del]

definition stream_bits :: "fasthdlc_mode \<Rightarrow> byte list \<Rightarrow> bool list" where
  "stream_bits m bs = concat (map (chunk_bits m) bs)"

lemma stream_bits_simps [simp]:
  "stream_bits m [] = []" "stream_bits m (b # bs) = chunk_bits m b @ stream_bits m bs"
  by (simp_all add: stream_bits_def)

lemma tx_stream_bits:
  assumes "tx_ok h w" "length w \<le> 17"
  shows "\<exists>w'. w @ items_enc (hones h) its = stream_bits (hmode h) (fst (tx_stream h its)) @ w'
     \<and> length w' < chunk_len (hmode h)"
  using assms
proof (induction h its arbitrary: w rule: tx_stream.induct)
  case (1 h its)
  let ?n = "chunk_len (hmode h)"
  show ?case
  proof (cases "fasthdlc_tx_need_data h")
    case need: True
    then have lw: "length w < ?n" using tx_need_data_iff [OF 1(3)] by simp
    show ?thesis
    proof (cases its)
      case Nil
      then show ?thesis using need lw by (subst tx_stream.simps) simp
    next
      case (Cons i "is")
      let ?w1 = "w @ item_enc (hones h) i"
      have k: "hones h < 5" using 1(3) by (simp add: tx_ok_def)
      have p: "tx_ok (tx_put i h) ?w1" "hones (tx_put i h) = item_ones (hones h) i" "hmode (tx_put i h) = hmode h"
        using tx_put_ok [OF 1(3), of i] lw chunk_len_bounds(2) [of "hmode h"] by auto
      have l: "?n \<le> length ?w1" "length ?w1 \<le> 17"
        using item_enc_length [OF k, of i] lw chunk_len_bounds(2) [of "hmode h"] by auto
      obtain b h1 where r: "fasthdlc_tx_run_nocheck (tx_put i h) = (b, h1)" by (cases "fasthdlc_tx_run_nocheck (tx_put i h)")
      have r': "chunk_bits (hmode h) b = take ?n ?w1" "tx_ok h1 (drop ?n ?w1)" "hones h1 = item_ones (hones h) i" "hmode h1 = hmode h"
        using tx_run_ok [OF p(1)] l p r by auto
      have "length (drop ?n ?w1) \<le> 17" using l(2) by (simp only: length_drop)
      then obtain w' where "drop ?n ?w1 @ items_enc (hones h1) is = stream_bits (hmode h1) (fst (tx_stream h1 is)) @ w'"
        "length w' < chunk_len (hmode h1)"
        using 1(1) [OF need Cons r [symmetric] refl r'(2)] by blast
      moreover have "fst (tx_stream h its) = b # fst (tx_stream h1 is)"
        using need Cons r by (subst tx_stream.simps) (simp split: prod.splits)
      ultimately show ?thesis using Cons r' l
        by (metis append.assoc append_take_drop_id items_enc.simps(2) stream_bits_simps(2))
    qed
  next
    case need: False
    then have lw: "?n \<le> length w" using tx_need_data_iff [OF 1(3)] by simp
    obtain b h1 where r: "fasthdlc_tx_run_nocheck h = (b, h1)" by (cases "fasthdlc_tx_run_nocheck h")
    have r': "chunk_bits (hmode h) b = take ?n w" "tx_ok h1 (drop ?n w)" "hones h1 = hones h" "hmode h1 = hmode h"
      using tx_run_ok [OF 1(3)] lw r by auto
    have "length (drop ?n w) \<le> 17" using 1(4) by simp
    then obtain w' where "drop ?n w @ items_enc (hones h1) its = stream_bits (hmode h1) (fst (tx_stream h1 its)) @ w'"
      "length w' < chunk_len (hmode h1)"
      using 1(2) [OF need r [symmetric] refl r'(2)] by blast
    moreover have "fst (tx_stream h its) = b # fst (tx_stream h1 its)"
      using need r by (subst tx_stream.simps) (simp split: prod.splits)
    ultimately show ?thesis using r'
      by (metis append.assoc append_take_drop_id stream_bits_simps(2))
  qed
qed

section \<open>The receiver\<close>

text \<open>
  What \<open>__dahdi_putbuf_chunk\<close> does for each byte: load it, run once. The result is read the way
  its chain of tests reads it.
\<close>

datatype rx_event = RNone | RFlag | RAbort | RByte byte

definition rx_event :: "u16 \<Rightarrow> rx_event" where
  "rx_event r = (if r AND RETURN_EMPTY_FLAG \<noteq> 0 then RNone
     else if r AND RETURN_COMPLETE_FLAG \<noteq> 0 then RFlag
     else if r AND RETURN_DISCARD_FLAG \<noteq> 0 then RAbort else RByte (ucast r))"

fun rx_stream :: "fasthdlc_state \<Rightarrow> byte list \<Rightarrow> rx_event list \<times> fasthdlc_state" where
  "rx_stream h [] = ([], h)"
| "rx_stream h (b # bs) =
     (let (r, h1) = fasthdlc_rx_run (fasthdlc_rx_load_nocheck b h); (rs, h2) = rx_stream h1 bs
      in ((if rx_event r = RNone then rs else rx_event r # rs), h2))"

fun item_event :: "hdlc_item \<Rightarrow> rx_event" where
  "item_event (HByte b) = RByte b"
| "item_event HFlag = RFlag"

definition rx_ok :: "fasthdlc_state \<Rightarrow> bool list \<Rightarrow> bool" where
  "rx_ok h w \<longleftrightarrow> hreg (hdata h) w \<and> hbits h = int (length w)"

lemma hreg_chunk: "hreg (push_bit (case m of FASTHDLC_MODE_64 \<Rightarrow> 24 | FASTHDLC_MODE_56 \<Rightarrow> 25)
    (ucast (case m of FASTHDLC_MODE_64 \<Rightarrow> b | FASTHDLC_MODE_56 \<Rightarrow> drop_bit 1 b) :: u32)) (chunk_bits m b)"
proof (cases m)
  case FASTHDLC_MODE_64
  have "bit (push_bit 24 (ucast b) :: u32) j \<longleftrightarrow> 31 - j < 8 \<and> bit b (7 - (31 - j))" if "j < 32" for j
  proof (cases "24 \<le> j")
    case True
    then have "7 - (31 - j) = j - 24" using that by simp
    then show ?thesis using True that by (auto simp: bit_push_bit_iff bit_unsigned_iff)
  qed (use that in \<open>auto simp: bit_push_bit_iff\<close>)
  then show ?thesis using FASTHDLC_MODE_64 by (auto simp: hreg_def chunk_bits_def chunk_len_def)
next
  case FASTHDLC_MODE_56
  have "bit (push_bit 25 (ucast (drop_bit 1 b)) :: u32) j \<longleftrightarrow> 31 - j < 7 \<and> bit b (7 - (31 - j))" if "j < 32" for j
  proof (cases "25 \<le> j")
    case True
    then have "7 - (31 - j) = Suc (j - 25)" using that by simp
    then show ?thesis using True that by (auto simp: bit_push_bit_iff bit_unsigned_iff bit_drop_bit_eq)
  qed (use that in \<open>auto simp: bit_push_bit_iff\<close>)
  then show ?thesis using FASTHDLC_MODE_56 by (auto simp: hreg_def chunk_bits_def chunk_len_def)
qed

lemma drop_push_ucast:
  fixes b :: byte
  assumes "n \<le> k" "k \<le> 24 \<or> k \<le> 25 \<and> (\<forall>j. bit b j \<longrightarrow> j < 7)"
  shows "drop_bit n (push_bit k (ucast b :: u32)) = push_bit (k - n) (ucast b)"
proof (rule bit_word_eqI)
  fix j assume "j < LENGTH(32)"
  then have j: "j < 32" by simp
  have b: "n + j < 32" if "bit b (n + j - k)" "k \<le> n + j"
    using assms(2) that bit_imp_le_length [of b "n + j - k"] by fastforce
  have e: "k \<le> n + j \<longleftrightarrow> k - n \<le> j" "n + j - k = j - (k - n)" using assms(1) by auto
  show "bit (drop_bit n (push_bit k (ucast b :: u32))) j = bit (push_bit (k - n) (ucast b :: u32)) j"
    using b j bit_imp_le_length [of b "j - (k - n)"]
    by (auto simp: bit_drop_bit_eq bit_push_bit_iff bit_unsigned_iff e)
qed

lemma rx_load_ok:
  assumes "rx_ok h w" "length w \<le> 24"
  shows "rx_ok (fasthdlc_rx_load_nocheck b h) (w @ chunk_bits (hmode h) b)"
    and "hmode (fasthdlc_rx_load_nocheck b h) = hmode h" "hones (fasthdlc_rx_load_nocheck b h) = hones h"
    "hstate (fasthdlc_rx_load_nocheck b h) = hstate h"
proof -
  have "\<forall>j. bit (drop_bit 1 b) j \<longrightarrow> j < 7" by (auto simp: bit_drop_bit_eq dest: bit_imp_le_length)
  then show "rx_ok (fasthdlc_rx_load_nocheck b h) (w @ chunk_bits (hmode h) b)"
    using assms hreg_append [of "hdata h" w _ "chunk_bits (hmode h) b", OF _ hreg_chunk]
      drop_push_ucast [of "length w" 24 b] drop_push_ucast [of "length w" 25 "drop_bit 1 b"]
    by (cases "hmode h") (auto simp: rx_ok_def fasthdlc_rx_load_nocheck_def chunk_len_def nat_diff_distrib)
qed (cases "hmode h"; simp add: fasthdlc_rx_load_nocheck_def)+

lemma and_top_bit: "(r AND (0x8000 :: u16) = 0) \<longleftrightarrow> \<not> bit r 15"
  using and_exp_eq_0_iff_not_bit [of r 15] by simp

lemma flag_masks:
  "bit RETURN_COMPLETE_FLAG j \<longleftrightarrow> j = 12" "bit RETURN_DISCARD_FLAG j \<longleftrightarrow> j = 13"
  "bit RETURN_EMPTY_FLAG j \<longleftrightarrow> j = 14" "bit STATUS_VALID j \<longleftrightarrow> j = 15"
proof -
  have "(0x1000 :: u16) = push_bit 12 1" "(0x2000 :: u16) = push_bit 13 1" "(0x4000 :: u16) = push_bit 14 1"
    "(0x8000 :: u16) = push_bit 15 1"
    by (simp_all add: push_bit_eq_mult)
  then show "bit RETURN_COMPLETE_FLAG j \<longleftrightarrow> j = 12" "bit RETURN_DISCARD_FLAG j \<longleftrightarrow> j = 13"
    "bit RETURN_EMPTY_FLAG j \<longleftrightarrow> j = 14" "bit STATUS_VALID j \<longleftrightarrow> j = 15"
    by (simp_all only: bit_push_bit_iff bit_1_iff) auto
qed

lemma hfp_valid:
  assumes "k < 5" "n \<le> 10"
  shows "hfp_wf STATUS_VALID k n (ucast (b :: byte))"
proof -
  have "bit (ucast b :: u16) j \<Longrightarrow> j < 8" for j
    using bit_imp_le_length [of b j] by (simp add: bit_unsigned_iff)
  then show ?thesis using assms unfolding hfp_wf_def flag_masks by auto
qed

lemma hfp_flag: "hfp_wf 0 0 8 CONTROL_COMPLETE"
  by (auto simp: hfp_wf_def bit_1_iff)

lemma process_byte:
  assumes h: "rx_ok h (henc (hones h) (lsb_bits b) @ u)" and k: "hones h < 5" "hstate h = 1"
  shows "\<exists>h'. rx_process_step h = (ucast b, h') \<and> rx_ok h' u \<and> hstate h' = 1
     \<and> hones h' = hones_after (hones h) (lsb_bits b) \<and> hmode h' = hmode h"
proof -
  let ?n = "length (henc (hones h) (lsb_bits b))" and ?o = "hones_after (hones h) (lsb_bits b)"
  have n: "?n \<le> 10" and o: "?o < 5" using item_enc_length [OF k(1), of "HByte b"] by auto
  have w: "win (ucast (drop_bit 22 (hdata h))) (henc (hones h) (lsb_bits b))"
    using h n by (intro hreg_win [OF _ n refl]) (auto simp: rx_ok_def)
  obtain d' where d': "octet_acc d' (lsb_bits b)"
    and l: "hdlc_frame_precalc (hones h) (ucast (drop_bit 22 (hdata h))) = HFP STATUS_VALID ?o ?n (ucast d')"
    using frame_loop_byte [OF octet_acc_Nil _ w, of 0] k by (auto simp: hdlc_frame_precalc_def)
  have "d' = b" using octet_acc_8 [OF d'] by (simp add: lsb_bits_inj)
  note l = l [unfolded this]
  note f = HFP_consumed [OF hfp_valid [OF o n]] HFP_ones [OF hfp_valid [OF o n]]
    HFP_data [OF hfp_valid [OF o n]] HFP_status [OF hfp_valid [OF o n]]
  have s: "unat (drop_bit 15 (0x8000 :: u16)) = 1" by (simp add: unat_drop_bit_eq drop_bit_nat_def)
  have "hreg (push_bit ?n (hdata h)) u" using h hreg_drop [of "hdata h" _ ?n] by (force simp: rx_ok_def)
  then show ?thesis
    using h unfolding rx_process_step_def Let_def l f s by (simp add: rx_ok_def)
qed

lemma process_flag:
  assumes h: "rx_ok h (flag_bits @ u)" and k: "hones h < 5" "hstate h = 1"
  shows "\<exists>h'. rx_process_step h = (RETURN_COMPLETE_FLAG, h') \<and> rx_ok h' u \<and> hstate h' = 1
     \<and> hones h' = 0 \<and> hmode h' = hmode h"
proof -
  have w: "win (ucast (drop_bit 22 (hdata h))) flag_bits"
    using h by (intro hreg_win [OF _ _ refl]) (auto simp: rx_ok_def)
  have l: "hdlc_frame_precalc (hones h) (ucast (drop_bit 22 (hdata h))) = HFP 0 0 8 CONTROL_COMPLETE"
    using frame_loop_flag [OF w k(1)] by (simp add: hdlc_frame_precalc_def)
  note f = HFP_consumed [OF hfp_flag] HFP_ones [OF hfp_flag] HFP_status [OF hfp_flag] HFP_control [OF hfp_flag]
  have "hreg (push_bit 8 (hdata h)) u" using h hreg_drop [of "hdata h" "flag_bits @ u" 8] by (simp add: rx_ok_def)
  then show ?thesis
    using h unfolding rx_process_step_def Let_def l f by (simp add: rx_ok_def)
qed

lemma rx_event_byte: "rx_event (ucast (b :: byte)) = RByte b"
proof -
  have z: "ucast b AND (w :: u16) = 0" if w: "\<And>j. j < 8 \<Longrightarrow> \<not> bit w j" for w
  proof (rule bit_word_eqI)
    fix j assume "j < LENGTH(16)"
    show "bit (ucast b AND w) j = bit (0 :: u16) j"
      using w [of j] bit_imp_le_length [of b j] by (auto simp: bit_and_iff bit_unsigned_iff)
  qed
  have "ucast b AND RETURN_EMPTY_FLAG = 0" "ucast b AND RETURN_COMPLETE_FLAG = 0"
    "ucast b AND RETURN_DISCARD_FLAG = 0"
    by (rule z, unfold flag_masks, simp)+
  moreover have "ucast (ucast b :: u16) = b"
    by (rule bit_word_eqI) (simp add: bit_unsigned_iff)
  ultimately show ?thesis by (simp add: rx_event_def)
qed

lemma rx_event_consts: "rx_event RETURN_EMPTY_FLAG = RNone" "rx_event RETURN_COMPLETE_FLAG = RFlag"
  by (simp_all add: rx_event_def)

lemma rx_run_wait: "hbits h < minbits (hstate h) \<Longrightarrow> fasthdlc_rx_run h = (RETURN_EMPTY_FLAG, h)"
  unfolding fasthdlc_rx_run_def by (subst fasthdlc_rx_loop.simps) simp

lemma rx_run_process:
  assumes "10 \<le> hbits h" "hstate h = 1"
  shows "fasthdlc_rx_run h = rx_process_step h"
proof -
  obtain r h' where r: "rx_process_step h = (r, h')" by (cases "rx_process_step h")
  have "r \<noteq> RETURN_EMPTY_FLAG" using rx_process_step_ret [of h] r by simp
  then have "fasthdlc_rx_loop h' r = (r, h')" by (subst fasthdlc_rx_loop.simps) simp
  then show ?thesis
    using assms r unfolding fasthdlc_rx_run_def by (subst fasthdlc_rx_loop.simps) (simp add: minbits_def)
qed

lemma rx_run_item:
  assumes h: "rx_ok h (item_enc (hones h) i @ u)" and k: "hones h < 5" "hstate h = 1" and "10 \<le> hbits h"
  shows "\<exists>r h'. fasthdlc_rx_run h = (r, h') \<and> rx_event r = item_event i \<and> rx_ok h' u \<and> hstate h' = 1
     \<and> hones h' = item_ones (hones h) i \<and> hmode h' = hmode h"
proof (cases i)
  case (HByte b)
  show ?thesis using process_byte [of h b u] assms HByte by (auto simp: rx_run_process rx_event_byte)
next
  case HFlag
  show ?thesis using process_flag [of h u] assms HFlag by (auto simp: rx_run_process rx_event_consts)
qed

lemma rx_stream_step:
  assumes "fasthdlc_rx_run (fasthdlc_rx_load_nocheck b h) = (r, h1)"
  shows "fst (rx_stream h (b # bs)) = (if rx_event r = RNone then [] else [rx_event r]) @ fst (rx_stream h1 bs)"
  using assms by (simp split: prod.splits)

lemma rx_stream_step_state:
  assumes "fasthdlc_rx_run (fasthdlc_rx_load_nocheck b h) = (r, h1)"
  shows "snd (rx_stream h (b # bs)) = snd (rx_stream h1 bs)"
  using assms by (simp split: prod.splits)

text \<open>A receiver in a frame, after \<open>k\<close> ones, that holds the bits \<open>w\<close>.\<close>

definition rx_at :: "fasthdlc_mode \<Rightarrow> nat \<Rightarrow> fasthdlc_state \<Rightarrow> bool list \<Rightarrow> bool" where
  "rx_at m k h w \<longleftrightarrow> rx_ok h w \<and> length w < 10 \<and> hstate h = 1 \<and> hones h = k \<and> hmode h = m"

lemma item_event_neq [simp]: "item_event i \<noteq> RNone"
  by (cases i) auto

text \<open>
  In a frame, the receiver delivers the items whose bits have arrived, in order, and keeps fewer
  than ten bits back.
\<close>

lemma rx_stream_items:
  assumes "rx_ok h w" "length w < 10" "hones h < 5" "hstate h = 1"
    and "w @ stream_bits (hmode h) bs @ z = items_enc (hones h) its"
  shows "\<exists>n w'. fst (rx_stream h bs) = map item_event (take n its) \<and>
     rx_at (hmode h) (foldl item_ones (hones h) (take n its)) (snd (rx_stream h bs)) w'
     \<and> w @ stream_bits (hmode h) bs = items_enc (hones h) (take n its) @ w' \<and> n \<le> length its"
  using assms
proof (induction bs arbitrary: h w its)
  case Nil
  then show ?case by (intro exI [of _ 0] exI [of _ w]) (auto simp: rx_at_def)
next
  case (Cons b bs)
  let ?h1 = "fasthdlc_rx_load_nocheck b h" and ?w1 = "w @ chunk_bits (hmode h) b"
  have w: "length w \<le> 24" using Cons.prems(2) by simp
  note ld = rx_load_ok [OF Cons.prems(1) w, of b]
  have e: "?w1 @ stream_bits (hmode h) bs @ z = items_enc (hones h) its" using Cons.prems(5) by simp
  show ?case
  proof (cases "length ?w1 < 10")
    case True
    then have r: "fasthdlc_rx_run ?h1 = (RETURN_EMPTY_FLAG, ?h1)"
      using ld Cons.prems(4) by (intro rx_run_wait) (simp add: rx_ok_def minbits_def)
    have "\<exists>n w'. fst (rx_stream ?h1 bs) = map item_event (take n its) \<and>
        rx_at (hmode ?h1) (foldl item_ones (hones ?h1) (take n its)) (snd (rx_stream ?h1 bs)) w'
      \<and> ?w1 @ stream_bits (hmode ?h1) bs = items_enc (hones ?h1) (take n its) @ w' \<and> n \<le> length its"
      using Cons.prems True ld e by (intro Cons.IH) auto
    then show ?thesis using ld by (simp add: rx_stream_step [OF r] rx_stream_step_state [OF r] rx_event_consts del: rx_stream.simps)
  next
    case False
    then obtain i "is" where its: "its = i # is" using e chunk_len_bounds(2) [of "hmode h"] by (cases its) auto
    have il: "8 \<le> length (item_enc (hones h) i)" "length (item_enc (hones h) i) \<le> 10" "item_ones (hones h) i < 5"
      using item_enc_length [OF Cons.prems(3), of i] by auto
    define u where "u = drop (length (item_enc (hones h) i)) ?w1"
    let ?n = "length (item_enc (hones h) i)"
    have "take ?n ?w1 = take ?n (?w1 @ stream_bits (hmode h) bs @ z)" using False il(2) by simp
    also have "\<dots> = item_enc (hones h) i" unfolding e by (simp add: its)
    finally have w1: "?w1 = item_enc (hones h) i @ u" unfolding u_def by (metis append_take_drop_id)
    have lu: "length u < 10"
      using Cons.prems(2) il chunk_len_bounds(2) [of "hmode h"] unfolding u_def by simp
    have "item_enc (hones h) i @ u @ stream_bits (hmode h) bs @ z = item_enc (hones h) i @ items_enc (item_ones (hones h) i) is"
      using e unfolding w1 its by simp
    then have u: "length u < 10" "u @ stream_bits (hmode h) bs @ z = items_enc (item_ones (hones h) i) is"
      using lu by auto
    have ok: "rx_ok ?h1 (item_enc (hones ?h1) i @ u)" using ld w1 by simp
    have "10 \<le> hbits ?h1" using ld False by (simp add: rx_ok_def)
    from rx_run_item [OF ok _ _ this] obtain r h2 where r: "fasthdlc_rx_run ?h1 = (r, h2)"
      "rx_event r = item_event i" "rx_ok h2 u" "hstate h2 = 1" "hones h2 = item_ones (hones h) i" "hmode h2 = hmode h"
      using ld Cons.prems by auto
    have "\<exists>n w'. fst (rx_stream h2 bs) = map item_event (take n is) \<and>
        rx_at (hmode h2) (foldl item_ones (hones h2) (take n is)) (snd (rx_stream h2 bs)) w'
      \<and> u @ stream_bits (hmode h2) bs = items_enc (hones h2) (take n is) @ w' \<and> n \<le> length is"
      using r u il by (intro Cons.IH) auto
    then obtain n w' where n: "fst (rx_stream h2 bs) = map item_event (take n is)"
      "rx_at (hmode h2) (foldl item_ones (hones h2) (take n is)) (snd (rx_stream h2 bs)) w'"
      "u @ stream_bits (hmode h2) bs = items_enc (hones h2) (take n is) @ w'" "n \<le> length is"
      by blast
    have "w @ stream_bits (hmode h) (b # bs) = items_enc (hones h) (take (Suc n) its) @ w'"
      using n(3) arg_cong [OF w1, of "\<lambda>v. v @ stream_bits (hmode h) bs"] r its by simp
    then show ?thesis
      using n its r by (intro exI [of _ "Suc n"] exI [of _ w'])
        (simp add: rx_stream_step [OF r(1)] rx_stream_step_state [OF r(1)] del: rx_stream.simps)
  qed
qed

lemma search_flag:
  assumes h: "rx_ok h (flag_bits @ u)" and s: "hstate h = 0" and u: "length u < 10"
  shows "\<exists>h'. fasthdlc_rx_run h = (RETURN_EMPTY_FLAG, h') \<and> rx_ok h' u \<and> hstate h' = 1
     \<and> hones h' = 0 \<and> hmode h' = hmode h"
proof -
  have "(ucast (drop_bit 24 (hdata h)) :: byte) = 0x7e"
  proof (rule bit_word_eqI)
    fix j assume "j < LENGTH(8)"
    then have j: "j < 8" by simp
    then have "24 + j = 31 - (7 - j)" by simp
    then have "bit (ucast (drop_bit 24 (hdata h)) :: byte) j = (flag_bits @ u) ! (7 - j)"
      using hreg_bit [of "hdata h" "flag_bits @ u" "7 - j"] h j
      by (simp add: rx_ok_def bit_unsigned_iff bit_drop_bit_eq)
    moreover have "bit (0x7e :: byte) j \<longleftrightarrow> 1 \<le> j \<and> j < 7"
    proof -
      have "(0x7e :: byte) = push_bit 1 (mask 6)" by (simp add: mask_eq_exp_minus_1 push_bit_eq_mult)
      then show ?thesis using j by (simp only: bit_push_bit_iff bit_mask_iff) auto
    qed
    moreover have "(flag_bits @ u) ! (7 - j) \<longleftrightarrow> 1 \<le> j \<and> j < 7"
    proof -
      have "j \<in> {0, 1, 2, 3, 4, 5, 6, 7}" using j by auto
      then show ?thesis by (auto simp: flag_bits_def)
    qed
    ultimately show "bit (ucast (drop_bit 24 (hdata h)) :: byte) j = bit (0x7e :: byte) j" by simp
  qed
  then have st: "rx_search_step h = h\<lparr>hbits := hbits h - 8, hdata := push_bit 8 (hdata h), hstate := 1, hones := 0\<rparr>"
    unfolding rx_search_step_def Let_def hdlc_search_precalc_fields by simp
  have ok: "rx_ok (rx_search_step h) u"
    using h hreg_drop [of "hdata h" "flag_bits @ u" 8] by (simp add: rx_ok_def st)
  have "fasthdlc_rx_run h = fasthdlc_rx_loop (rx_search_step h) RETURN_EMPTY_FLAG"
    using h s unfolding fasthdlc_rx_run_def by (subst fasthdlc_rx_loop.simps) (simp add: rx_ok_def minbits_def)
  also have "\<dots> = (RETURN_EMPTY_FLAG, rx_search_step h)"
    using ok u by (subst fasthdlc_rx_loop.simps) (simp add: rx_ok_def minbits_def st)
  finally show ?thesis using ok by (simp add: st)
qed

lemma rx_stream_search:
  assumes "rx_ok h w" "length w < 8" "hstate h = 0"
    and "w @ stream_bits (hmode h) bs @ z = flag_bits @ items_enc 0 its"
  shows "\<exists>n w'. fst (rx_stream h bs) = map item_event (take n its) \<and> n \<le> length its \<and>
     (length w + length (stream_bits (hmode h) bs) < 8 \<and> n = 0 \<or>
      rx_at (hmode h) (foldl item_ones 0 (take n its)) (snd (rx_stream h bs)) w' \<and> w @ stream_bits (hmode h) bs = flag_bits @ items_enc 0 (take n its) @ w')"
  using assms
proof (induction bs arbitrary: h w)
  case Nil
  then show ?case by (intro exI [of _ 0]) auto
next
  case (Cons b bs)
  let ?h1 = "fasthdlc_rx_load_nocheck b h" and ?w1 = "w @ chunk_bits (hmode h) b"
  have w: "length w \<le> 24" using Cons.prems(2) by simp
  note ld = rx_load_ok [OF Cons.prems(1) w, of b]
  have e: "?w1 @ stream_bits (hmode h) bs @ z = flag_bits @ items_enc 0 its" using Cons.prems(4) by simp
  show ?case
  proof (cases "length ?w1 < 8")
    case True
    then have r: "fasthdlc_rx_run ?h1 = (RETURN_EMPTY_FLAG, ?h1)"
      using ld Cons.prems(3) by (intro rx_run_wait) (simp add: rx_ok_def minbits_def)
    have "\<exists>n w'. fst (rx_stream ?h1 bs) = map item_event (take n its) \<and> n \<le> length its \<and>
     (length ?w1 + length (stream_bits (hmode ?h1) bs) < 8 \<and> n = 0 \<or>
      rx_at (hmode ?h1) (foldl item_ones 0 (take n its)) (snd (rx_stream ?h1 bs)) w' \<and> ?w1 @ stream_bits (hmode ?h1) bs = flag_bits @ items_enc 0 (take n its) @ w')"
      using Cons.prems True ld e by (intro Cons.IH) auto
    then show ?thesis using ld
      by (simp add: rx_stream_step [OF r] rx_stream_step_state [OF r] rx_event_consts add.assoc del: rx_stream.simps)
  next
    case False
    define u where "u = drop 8 ?w1"
    have "take 8 ?w1 = take 8 (?w1 @ stream_bits (hmode h) bs @ z)" using False by simp
    also have "\<dots> = flag_bits" unfolding e by simp
    finally have w1: "?w1 = flag_bits @ u" unfolding u_def by (metis append_take_drop_id)
    have lu: "length u < 10"
      using Cons.prems(2) chunk_len_bounds(2) [of "hmode h"] unfolding u_def by simp
    have "flag_bits @ u @ stream_bits (hmode h) bs @ z = flag_bits @ items_enc 0 its"
      using e unfolding w1 by simp
    then have u: "length u < 10" "u @ stream_bits (hmode h) bs @ z = items_enc 0 its"
      using lu by auto
    have ok: "rx_ok ?h1 (flag_bits @ u)" using ld w1 by simp
    obtain h2 where r: "fasthdlc_rx_run ?h1 = (RETURN_EMPTY_FLAG, h2)" "rx_ok h2 u" "hstate h2 = 1" "hones h2 = 0"
      "hmode h2 = hmode h"
      using search_flag [OF ok _ u(1)] ld Cons.prems(3) by auto
    obtain n w' where n: "fst (rx_stream h2 bs) = map item_event (take n its)"
      "rx_at (hmode h2) (foldl item_ones (hones h2) (take n its)) (snd (rx_stream h2 bs)) w'"
      "u @ stream_bits (hmode h2) bs = items_enc (hones h2) (take n its) @ w'" "n \<le> length its"
      using rx_stream_items [of h2 u bs z its] r u by auto
    have "w @ stream_bits (hmode h) (b # bs) = flag_bits @ items_enc 0 (take n its) @ w'"
      using n(3) arg_cong [OF w1, of "\<lambda>v. v @ stream_bits (hmode h) bs"] r by simp
    then show ?thesis using n r
      by (intro exI [of _ n] exI [of _ w']) (simp add: rx_stream_step [OF r(1)] rx_stream_step_state [OF r(1)] rx_event_consts del: rx_stream.simps)
  qed
qed

lemma items_enc_append:
  "items_enc k (xs @ ys) = items_enc k xs @ items_enc (foldl item_ones k xs) ys"
  by (induction xs arbitrary: k) auto

lemma foldl_item_ones: "k < 5 \<Longrightarrow> foldl item_ones k xs < 5"
  by (induction xs arbitrary: k) (auto simp: item_enc_length)

lemma items_enc_length: "k < 5 \<Longrightarrow> 8 * length its \<le> length (items_enc k its)"
proof (induction its arbitrary: k)
  case (Cons i its)
  have i: "8 \<le> length (item_enc k i)" "item_ones k i < 5" using item_enc_length [of k i] Cons.prems by auto
  show ?case using i Cons.IH [OF i(2)] by simp
qed simp

lemma hdlc_link:
  "\<exists>n. fst (rx_stream (fasthdlc_init m) (fst (tx_stream (fasthdlc_init m) (HFlag # its)))) =
       map item_event (take n its) \<and> n \<le> length its \<and> length its \<le> n + 2"
proof -
  let ?h = "fasthdlc_init m" and ?bs = "fst (tx_stream (fasthdlc_init m) (HFlag # its))"
  have tx: "tx_ok ?h []" "hones ?h = 0" "hmode ?h = m" "hstate ?h = 0" "rx_ok ?h []"
    by (auto simp: tx_ok_def rx_ok_def fasthdlc_init_def)
  obtain z where z: "flag_bits @ items_enc 0 its = stream_bits m ?bs @ z" "length z < chunk_len m"
    using tx_stream_bits [OF tx(1), of "HFlag # its"] tx by auto
  obtain n w' where n: "fst (rx_stream ?h ?bs) = map item_event (take n its)" "n \<le> length its"
    "length (stream_bits m ?bs) < 8 \<and> n = 0 \<or>
      rx_at m (foldl item_ones 0 (take n its)) (snd (rx_stream ?h ?bs)) w' \<and> stream_bits m ?bs = flag_bits @ items_enc 0 (take n its) @ w'"
    using rx_stream_search [OF tx(5), of ?bs z its] tx z by auto
  let ?k = "foldl item_ones 0 (take n its)"
  have split: "items_enc 0 its = items_enc 0 (take n its) @ items_enc ?k (drop n its)"
    by (metis append_take_drop_id items_enc_append)
  have lk: "8 * length (drop n its) \<le> length (items_enc ?k (drop n its))"
    by (intro items_enc_length foldl_item_ones) simp
  have "length its \<le> n + 2"
    using n(3)
  proof
    assume "length (stream_bits m ?bs) < 8 \<and> n = 0"
    then have "length (items_enc 0 its) < 8"
      using arg_cong [OF z(1), of length] z(2) chunk_len_bounds(2) [of m] by auto
    then show ?thesis using items_enc_length [of 0 its] by simp
  next
    assume w: "rx_at m (foldl item_ones 0 (take n its)) (snd (rx_stream ?h ?bs)) w' \<and> stream_bits m ?bs = flag_bits @ items_enc 0 (take n its) @ w'"
    then have "items_enc ?k (drop n its) = w' @ z" using z(1) split by simp
    then have "8 * (length its - n) \<le> length w' + length z" using lk by simp
    moreover have "length w' < 10" "length z < 8" using w z(2) chunk_len_bounds(2) [of m] by (auto simp: rx_at_def)
    ultimately show ?thesis by linarith
  qed
  then show ?thesis using n by auto
qed

section \<open>Transparency\<close>

text \<open>No six consecutive ones leave the encoder inside a frame: no payload looks like a flag.\<close>

fun max_run :: "nat \<Rightarrow> bool list \<Rightarrow> nat" where
  "max_run k [] = k"
| "max_run k (b # bs) = (if b then max_run (Suc k) bs else max k (max_run 0 bs))"

lemma max_run_ge: "k \<le> max_run k bs"
  by (induction k bs rule: max_run.induct) auto

lemma max_run_stuff: "k < 5 \<Longrightarrow> max_run k (stuff k bs) \<le> 5"
  by (induction k bs rule: stuff.induct) auto

lemma stuff_bytes: "k < 5 \<Longrightarrow> items_enc k (map HByte bs) = stuff k (concat (map lsb_bits bs))"
proof (induction bs arbitrary: k)
  case (Cons b bs)
  then show ?case
    by (simp add: henc_stuff hones_after_stuff stuff_append stuff_ones_less)
qed simp

lemma transparent: "max_run 0 (items_enc 0 (map HByte bs)) \<le> 5"
  by (simp add: stuff_bytes max_run_stuff)

section \<open>The receiver on arbitrary input\<close>

text \<open>The three kinds of entry of \<open>hdlc_frame\<close>, with how many bits each consumes.\<close>

definition frame_entry :: "u16 \<Rightarrow> bool" where
  "frame_entry r \<longleftrightarrow>
     (\<exists>o' n (d :: byte). r = HFP STATUS_VALID o' n (ucast d) \<and> o' < 5 \<and> 8 \<le> n \<and> n \<le> 10) \<or>
     r = HFP 0 0 8 CONTROL_COMPLETE \<or> (\<exists>n. r = HFP 0 0 n CONTROL_ABORT \<and> 2 \<le> n \<and> n \<le> 10)"

lemma frame_loop_entry:
  assumes "ones \<le> 5" "k \<le> 8" "k \<le> n" "5 * (n - k) + ones \<le> 4 + k"
  shows "frame_entry (hdlc_frame_loop ones d k n c)"
  using assms
proof (induction ones d k n c rule: hdlc_frame_loop.induct)
  case (1 ones d k n c)
  consider (stop) "k = 8" | (abort) "k < 8" "ones = 5" "bit c 9" | (unstuff) "k < 8" "ones = 5" "\<not> bit c 9"
    | (one) "k < 8" "ones < 5" "bit c 9" | (zero) "k < 8" "ones < 5" "\<not> bit c 9"
    using "1.prems" by fastforce
  then show ?case
  proof cases
    case stop
    then have "n \<le> 10" "ones = 5 \<Longrightarrow> n + 1 \<le> 10" "8 \<le> n" "ones \<noteq> 5 \<Longrightarrow> ones < 5"
      using "1.prems" by auto
    then have "frame_entry (HFP STATUS_VALID (if ones = 5 then 0 else ones) (if ones = 5 then n + 1 else n) (ucast d))"
      unfolding frame_entry_def
      by (intro disjI1 exI [of _ "if ones = 5 then 0 else ones"] exI [of _ "if ones = 5 then n + 1 else n"] exI [of _ d])
        auto
    then show ?thesis unfolding stop frame_loop_done .
  next
    case abort
    have "n + 2 \<le> 10" using "1.prems" abort by auto
    then show ?thesis using abort
      by (subst hdlc_frame_loop.simps) (auto simp: frame_entry_def)
  next
    case unstuff
    then have "frame_entry (hdlc_frame_loop 0 (push_bit 1 (drop_bit 1 d)) k (n + 1) (push_bit 1 c))"
      using "1.prems" by (intro "1.IH"(1)) auto
    then show ?thesis using unstuff by (subst hdlc_frame_loop.simps) simp
  next
    case one
    then have "frame_entry (hdlc_frame_loop (ones + 1) (drop_bit 1 d OR 0x80) (k + 1) (n + 1) (push_bit 1 c))"
      using "1.prems" by (intro "1.IH"(2)) auto
    then show ?thesis using one by (subst hdlc_frame_loop.simps) simp
  next
    case zero
    then have "frame_entry (hdlc_frame_loop 0 (drop_bit 1 d) (k + 1) (n + 1) (push_bit 1 c))"
      using "1.prems" by (intro "1.IH"(3)) auto
    then show ?thesis using zero by (subst hdlc_frame_loop.simps) simp
  qed
qed

lemma hfp_abort: "n \<le> 10 \<Longrightarrow> hfp_wf 0 0 n CONTROL_ABORT"
proof -
  have "(2 :: u16) = push_bit 1 1" by (simp add: push_bit_eq_mult)
  then have "bit (2 :: u16) j \<Longrightarrow> j < 8" for j by (simp only: bit_push_bit_iff bit_1_iff) auto
  then show "n \<le> 10 \<Longrightarrow> ?thesis" by (simp add: hfp_wf_def)
qed

text \<open>
  From any state and any data: fewer than five ones are carried, the state is one of the two,
  a byte or flag consumes at least eight bits and an abort at least two, never more than ten.
\<close>

lemma process_any:
  assumes k: "hones h < 5" and h': "h' = snd (rx_process_step h)"
  shows "hones h' < 5 \<and> hmode h' = hmode h \<and> hbits h - 10 \<le> hbits h' \<and>
    (hstate h' = 1 \<and> hbits h' \<le> hbits h - 8 \<or> hstate h' = 0 \<and> hbits h' \<le> hbits h - 2)"
proof -
  let ?r = "hdlc_frame_precalc (hones h) (ucast (drop_bit 22 (hdata h)))"
  have s: "unat (drop_bit 15 (0x8000 :: u16)) = 1" by (simp add: unat_drop_bit_eq drop_bit_nat_def)
  have "frame_entry ?r" using k by (auto simp: hdlc_frame_precalc_def intro: frame_loop_entry)
  then consider (valid) o' n d where "?r = HFP STATUS_VALID o' n (ucast (d :: byte))" "o' < 5" "8 \<le> n" "n \<le> 10"
    | (flag) "?r = HFP 0 0 8 CONTROL_COMPLETE" | (abort) n where "?r = HFP 0 0 n CONTROL_ABORT" "2 \<le> n" "n \<le> 10"
    by (auto simp: frame_entry_def)
  then show ?thesis
  proof cases
    case valid
    note wf = hfp_valid [OF valid(2,4), of d]
    note f = HFP_consumed [OF wf] HFP_ones [OF wf] HFP_data [OF wf] HFP_status [OF wf]
    show ?thesis using valid unfolding h' rx_process_step_def Let_def valid(1) f s by simp
  next
    case flag
    note f = HFP_consumed [OF hfp_flag] HFP_ones [OF hfp_flag] HFP_status [OF hfp_flag] HFP_control [OF hfp_flag]
    show ?thesis unfolding h' rx_process_step_def Let_def flag f by simp
  next
    case abort
    note wf = hfp_abort [OF abort(3)]
    note f = HFP_consumed [OF wf] HFP_ones [OF wf] HFP_status [OF wf] HFP_control [OF wf]
    show ?thesis using abort unfolding h' rx_process_step_def Let_def abort(1) f by (simp add: bit_0)
  qed
qed

definition rx_inv :: "fasthdlc_state \<Rightarrow> bool" where
  "rx_inv h \<longleftrightarrow> hones h < 5 \<and> 0 \<le> hbits h \<and>
     (hstate h = FRAME_SEARCH \<and> hbits h \<le> 15 \<or> hstate h = PROCESS_FRAME \<and> hbits h \<le> 9)"

lemma rx_loop_inv:
  assumes "hones h < 5" "0 \<le> hbits h"
    "hstate h = FRAME_SEARCH \<and> hbits h \<le> 23 \<or> hstate h = PROCESS_FRAME \<and> hbits h \<le> 17"
    "retval = RETURN_EMPTY_FLAG \<or> rx_inv h"
  shows "rx_inv (snd (fasthdlc_rx_loop h retval))"
  using assms
proof (induction h retval rule: fasthdlc_rx_loop.induct)
  case (1 h retval)
  show ?case
  proof (cases "minbits (hstate h) \<le> hbits h \<and> retval = RETURN_EMPTY_FLAG")
    case False
    then have "rx_inv h" using "1.prems" by (auto simp: rx_inv_def minbits_def split: if_splits)
    then show ?thesis using False by (subst fasthdlc_rx_loop.simps) auto
  next
    case go: True
    show ?thesis
    proof (cases "hstate h = FRAME_SEARCH")
      case True
      obtain n where n: "0 < n" "n \<le> 8" "hbits (rx_search_step h) = hbits h - int n"
        using rx_search_step_bits [of h] by metis
      have st: "hones (rx_search_step h) = 0"
        "hstate (rx_search_step h) = 0 \<or> hstate (rx_search_step h) = 1 \<and> hbits (rx_search_step h) = hbits h - 8"
        unfolding rx_search_step_def Let_def hdlc_search_precalc_fields by simp_all
      have "rx_inv (snd (fasthdlc_rx_loop (rx_search_step h) retval))"
        using n st "1.prems" go True by (intro "1.IH"(1)) (auto simp: minbits_def)
      then show ?thesis using go True by (subst fasthdlc_rx_loop.simps) simp
    next
      case False
      obtain r h' where r: "rx_process_step h = (r, h')" by (cases "rx_process_step h")
      have "rx_inv (snd (fasthdlc_rx_loop h' r))"
        using process_any [OF "1.prems"(1), of h'] r "1.prems" go False
        by (intro "1.IH"(2)) (auto simp: minbits_def rx_inv_def)
      then show ?thesis using go False r by (subst fasthdlc_rx_loop.simps) simp
    qed
  qed
qed

lemma rx_run_inv:
  assumes "rx_inv h"
  shows "rx_inv (snd (fasthdlc_rx_run (fasthdlc_rx_load_nocheck b h)))"
    and "hbits (fasthdlc_rx_load_nocheck b h) \<le> 23"
proof -
  have l: "hones (fasthdlc_rx_load_nocheck b h) = hones h" "hstate (fasthdlc_rx_load_nocheck b h) = hstate h"
    "hbits h \<le> hbits (fasthdlc_rx_load_nocheck b h)" "hbits (fasthdlc_rx_load_nocheck b h) \<le> hbits h + 8"
    by (auto simp: fasthdlc_rx_load_nocheck_def split: fasthdlc_mode.splits)
  then show "hbits (fasthdlc_rx_load_nocheck b h) \<le> 23" using assms by (auto simp: rx_inv_def)
  show "rx_inv (snd (fasthdlc_rx_run (fasthdlc_rx_load_nocheck b h)))"
    unfolding fasthdlc_rx_run_def
    by (rule rx_loop_inv) (use l assms in \<open>auto simp: rx_inv_def\<close>)
qed

lemma rx_stream_inv: "rx_inv h \<Longrightarrow> rx_inv (snd (rx_stream h bs))"
proof (induction bs arbitrary: h)
  case (Cons b bs)
  show ?case using Cons.IH [OF rx_run_inv(1) [OF Cons.prems, of b]]
    by (cases "fasthdlc_rx_run (fasthdlc_rx_load_nocheck b h)"; auto split: prod.splits)
qed simp

lemma rx_inv_init: "rx_inv (fasthdlc_init m)"
  by (simp add: rx_inv_def fasthdlc_init_def)

section \<open>Properties\<close>

text \<open>C19. A link: the transmitter sends an opening flag and then any sequence of bytes and
  flags, loading an item whenever its shift register runs short (as \<open>__dahdi_getbuf_chunk\<close> does); a
  fresh receiver at the other end loads and runs once per channel byte (as \<open>__dahdi_putbuf_chunk\<close>
  does). It reports exactly the items sent, in order, with no abort; at most two are still on
  their way when the transmitter stops. Both in 64k and in 56k mode.\<close>

theorem hdlc_roundtrip:
  "\<exists>n. fst (rx_stream (fasthdlc_init m) (fst (tx_stream (fasthdlc_init m) (HFlag # its)))) =
       map item_event (take n its) \<and> n \<le> length its \<and> length its \<le> n + 2"
  by (rule hdlc_link)

text \<open>C30. The receiver on arbitrary bytes, line noise included: the state is one of the two
  the code knows, fewer than five ones are carried (the first index of \<open>hdlc_frame\<close> is in range), the
  register holds 0 to 15 bits, and the next load makes it at most 23, so that every shift count
  is between 0 and 31.\<close>

theorem hdlc_receiver_safe:
  "let h = snd (rx_stream (fasthdlc_init m) bs) in
     (hstate h = FRAME_SEARCH \<or> hstate h = PROCESS_FRAME) \<and> hones h < 5 \<and>
     0 \<le> hbits h \<and> hbits h \<le> 15 \<and> hbits (fasthdlc_rx_load_nocheck b h) \<le> 23"
  using rx_stream_inv [OF rx_inv_init, of m bs] rx_run_inv(2) [OF rx_stream_inv [OF rx_inv_init], of b m bs]
  by (auto simp: rx_inv_def Let_def)

text \<open>C31. Transparency: the bits on the line for a frame of any bytes are the opening flag and a
  body without six consecutive ones, all but fewer than eight of its bits being sent.\<close>

theorem hdlc_transparency:
  "\<exists>body rest. stream_bits m (fst (tx_stream (fasthdlc_init m) (HFlag # map HByte bs))) @ rest = flag_bits @ body
     \<and> max_run 0 body \<le> 5 \<and> length rest < 8 \<and> 8 * length bs \<le> length body"
proof -
  have tx: "tx_ok (fasthdlc_init m) []" "hones (fasthdlc_init m) = 0" "hmode (fasthdlc_init m) = m"
    by (auto simp: tx_ok_def fasthdlc_init_def)
  obtain w' where "items_enc 0 (HFlag # map HByte bs) =
      stream_bits m (fst (tx_stream (fasthdlc_init m) (HFlag # map HByte bs))) @ w'" "length w' < chunk_len m"
    using tx_stream_bits [OF tx(1), of "HFlag # map HByte bs"] tx by auto
  then show ?thesis
    using transparent [of bs] items_enc_length [of 0 "map HByte bs"] chunk_len_bounds(2) [of m]
    by (intro exI [of _ "items_enc 0 (map HByte bs)"] exI [of _ w']) auto
qed

text \<open>The encoder table: with \<open>x < 5\<close> ones sent before it, the entry of byte \<open>y\<close> holds in its top
  bits the bits of \<open>y\<close>, least significant first, with a zero after each fifth one in a row, then
  their number and the number of ones at the end.\<close>

theorem hdlc_encode_table:
  assumes "x < 5"
  shows "let e = hdlc_encode_precalc x y; s = stuff x (lsb_bits y) in
    top_bits (length s) e = s \<and> unat (e AND 0xf) = length s \<and> length s \<le> 10 \<and>
    unat (drop_bit 8 (e AND 0xf00)) = stuff_ones x (lsb_bits y)"
proof -
  have s: "henc x (lsb_bits y) = stuff x (lsb_bits y)" "hones_after x (lsb_bits y) = stuff_ones x (lsb_bits y)"
    using assms by (simp_all add: henc_stuff hones_after_stuff)
  have l: "length (stuff x (lsb_bits y)) \<le> 10" using encode_small_fields(1) [OF assms, of y] s by simp
  have "top_bits (length (stuff x (lsb_bits y))) (hdlc_encode_precalc x y) = stuff x (lsb_bits y)"
  proof (rule nth_equalityI)
    fix i assume "i < length (top_bits (length (stuff x (lsb_bits y))) (hdlc_encode_precalc x y))"
    then have i: "i < length (stuff x (lsb_bits y))" by simp
    have "bit (hdlc_encode_precalc x y AND 0xffc00000) (31 - i) = stuff x (lsb_bits y) ! i"
      using encode_precalc_data [OF assms, of "31 - i" y] i l s by simp
    then have "bit (hdlc_encode_precalc x y) (31 - i) = stuff x (lsb_bits y) ! i"
      unfolding bit_and_masks using i l by auto
    then show "top_bits (length (stuff x (lsb_bits y))) (hdlc_encode_precalc x y) ! i = stuff x (lsb_bits y) ! i"
      using i by simp
  qed simp
  moreover have "unat (hdlc_encode_precalc x y AND 0xf) = length (stuff x (lsb_bits y))"
    using encode_precalc_len [OF assms, of y] s unfolding unat_eq_nat_uint by simp
  ultimately show ?thesis
    using encode_precalc_ones [OF assms, of y, unfolded s] l unfolding Let_def by blast
qed

theorem hdlc_encode_table_witness:
  "unat (hdlc_encode_precalc 3 0xff AND 0xf) = length (stuff 3 (lsb_bits 0xff)) \<and>
   stuff 3 (lsb_bits 0xff) = [True, True, False, True, True, True, True, True, False, True]"
proof -
  have "lsb_bits 0xff = replicate 8 True" by code_simp
  then have "stuff 3 (lsb_bits 0xff) = [True, True, False, True, True, True, True, True, False, True]"
    by (simp add: numeral_eq_Suc)
  then show ?thesis using hdlc_encode_table [of 3 "0xff"] by (simp add: Let_def)
qed

end
