(* ===== verification/Chan.thy ===== *)
theory Chan
  imports Conf_Queue Event_Queue Fasthdlc
begin

text \<open>
  \<open>struct dahdi_chan\<close> and \<open>struct dahdi_span\<close> of \<open>include/dahdi/kernel.h\<close>, as a chain of records that
  follows the sections of the C struct, the flag and signalling constants, and \<open>__qevent\<close>. An
  \<open>int\<close> is an \<open>int\<close>, a flag word a 32-bit word, NULL is \<open>None\<close>. What a function does outside the
  channel (waking a wait queue, calling the span driver) is appended to \<open>eff\<close> in order; whether a span
  provides a callback is a field of the span. Wait queues, locks, the name, \<open>pvt\<close> and \<open>file\<close> are
  not modelled. The law and gain tables are functions.
\<close>

section \<open>Constants\<close>

abbreviation (input) FLAGBIT_REGISTERED :: nat where "FLAGBIT_REGISTERED \<equiv> 0"
abbreviation (input) FLAGBIT_RUNNING :: nat where "FLAGBIT_RUNNING \<equiv> 1"
abbreviation (input) FLAGBIT_HDLC :: nat where "FLAGBIT_HDLC \<equiv> 5"
abbreviation (input) FLAGBIT_NETDEV :: nat where "FLAGBIT_NETDEV \<equiv> 6"
abbreviation (input) FLAGBIT_PSEUDO :: nat where "FLAGBIT_PSEUDO \<equiv> 7"
abbreviation (input) FLAGBIT_CLEAR :: nat where "FLAGBIT_CLEAR \<equiv> 8"
abbreviation (input) FLAGBIT_AUDIO :: nat where "FLAGBIT_AUDIO \<equiv> 9"
abbreviation (input) FLAGBIT_OPEN :: nat where "FLAGBIT_OPEN \<equiv> 10"
abbreviation (input) FLAGBIT_FCS :: nat where "FLAGBIT_FCS \<equiv> 11"
abbreviation (input) FLAGBIT_RBS :: nat where "FLAGBIT_RBS \<equiv> 12"
abbreviation (input) FLAGBIT_LINEAR :: nat where "FLAGBIT_LINEAR \<equiv> 13"
abbreviation (input) FLAGBIT_PPP :: nat where "FLAGBIT_PPP \<equiv> 14"
abbreviation (input) FLAGBIT_SIGFREEZE :: nat where "FLAGBIT_SIGFREEZE \<equiv> 16"
abbreviation (input) FLAGBIT_NOSTDTXRX :: nat where "FLAGBIT_NOSTDTXRX \<equiv> 17"
abbreviation (input) FLAGBIT_LOOPED :: nat where "FLAGBIT_LOOPED \<equiv> 18"
abbreviation (input) FLAGBIT_MTP2 :: nat where "FLAGBIT_MTP2 \<equiv> 19"
abbreviation (input) FLAGBIT_HDLC56 :: nat where "FLAGBIT_HDLC56 \<equiv> 20"

abbreviation (input) IOMUX_READ :: nat where "IOMUX_READ \<equiv> 0"
abbreviation (input) IOMUX_WRITE :: nat where "IOMUX_WRITE \<equiv> 1"
abbreviation (input) IOMUX_WRITEEMPTY :: nat where "IOMUX_WRITEEMPTY \<equiv> 2"
abbreviation (input) IOMUX_SIGEVENT :: nat where "IOMUX_SIGEVENT \<equiv> 3"

abbreviation (input) SIG_NONE :: u32 where "SIG_NONE \<equiv> 0"
abbreviation (input) SIG_FXSLS :: u32 where "SIG_FXSLS \<equiv> 0x2001"
abbreviation (input) SIG_FXSGS :: u32 where "SIG_FXSGS \<equiv> 0x2002"
abbreviation (input) SIG_FXSKS :: u32 where "SIG_FXSKS \<equiv> 0x2004"
abbreviation (input) SIG_FXOLS :: u32 where "SIG_FXOLS \<equiv> 0x1008"
abbreviation (input) SIG_FXOGS :: u32 where "SIG_FXOGS \<equiv> 0x1010"
abbreviation (input) SIG_FXOKS :: u32 where "SIG_FXOKS \<equiv> 0x1020"
abbreviation (input) SIG_EM :: u32 where "SIG_EM \<equiv> 0x40"
abbreviation (input) SIG_CLEAR :: u32 where "SIG_CLEAR \<equiv> 0x80"
abbreviation (input) SIG_HDLCRAW :: u32 where "SIG_HDLCRAW \<equiv> 0x180"
abbreviation (input) SIG_HDLCFCS :: u32 where "SIG_HDLCFCS \<equiv> 0x380"
abbreviation (input) SIG_HDLCNET :: u32 where "SIG_HDLCNET \<equiv> 0x780"
abbreviation (input) SIG_SLAVE :: u32 where "SIG_SLAVE \<equiv> 0x800"
abbreviation (input) SIG_SF :: u32 where "SIG_SF \<equiv> 0x4000"
abbreviation (input) SIG_CAS :: u32 where "SIG_CAS \<equiv> 0x8000"
abbreviation (input) SIG_DACS :: u32 where "SIG_DACS \<equiv> 0x10080"
abbreviation (input) SIG_EM_E1 :: u32 where "SIG_EM_E1 \<equiv> 0x20000"
abbreviation (input) SIG_DACS_RBS :: u32 where "SIG_DACS_RBS \<equiv> 0x50000"
abbreviation (input) SIG_HARDHDLC :: u32 where "SIG_HARDHDLC \<equiv> 0x80080"
abbreviation (input) SIG_MTP2 :: u32 where "SIG_MTP2 \<equiv> 0x100380"
abbreviation (input) SIG_MASK_FXO :: u32 where "SIG_MASK_FXO \<equiv> 0x1000"
abbreviation (input) SIG_MASK_FXS :: u32 where "SIG_MASK_FXS \<equiv> 0x2000"
abbreviation (input) SIG_MASK_DACS :: u32 where "SIG_MASK_DACS \<equiv> 0x10000"

abbreviation (input) POLICY_IMMEDIATE :: int where "POLICY_IMMEDIATE \<equiv> 0"
abbreviation (input) POLICY_WHEN_FULL :: int where "POLICY_WHEN_FULL \<equiv> 1"
abbreviation (input) POLICY_HALF_FULL :: int where "POLICY_HALF_FULL \<equiv> 2"

abbreviation (input) EVENT_ONHOOK :: int where "EVENT_ONHOOK \<equiv> 1"
abbreviation (input) EVENT_RINGOFFHOOK :: int where "EVENT_RINGOFFHOOK \<equiv> 2"
abbreviation (input) EVENT_WINKFLASH :: int where "EVENT_WINKFLASH \<equiv> 3"
abbreviation (input) EVENT_ALARM :: int where "EVENT_ALARM \<equiv> 4"
abbreviation (input) EVENT_NOALARM :: int where "EVENT_NOALARM \<equiv> 5"
abbreviation (input) EVENT_ABORT :: int where "EVENT_ABORT \<equiv> 6"
abbreviation (input) EVENT_OVERRUN :: int where "EVENT_OVERRUN \<equiv> 7"
abbreviation (input) EVENT_BADFCS :: int where "EVENT_BADFCS \<equiv> 8"
abbreviation (input) EVENT_DIALCOMPLETE :: int where "EVENT_DIALCOMPLETE \<equiv> 9"
abbreviation (input) EVENT_RINGERON :: int where "EVENT_RINGERON \<equiv> 10"
abbreviation (input) EVENT_RINGEROFF :: int where "EVENT_RINGEROFF \<equiv> 11"
abbreviation (input) EVENT_HOOKCOMPLETE :: int where "EVENT_HOOKCOMPLETE \<equiv> 12"
abbreviation (input) EVENT_BITSCHANGED :: int where "EVENT_BITSCHANGED \<equiv> 13"
abbreviation (input) EVENT_PULSE_START :: int where "EVENT_PULSE_START \<equiv> 14"
abbreviation (input) EVENT_RINGBEGIN :: int where "EVENT_RINGBEGIN \<equiv> 18"
abbreviation (input) EVENT_EC_DISABLED :: int where "EVENT_EC_DISABLED \<equiv> 19"
abbreviation (input) EVENT_REMOVED :: int where "EVENT_REMOVED \<equiv> 20"
abbreviation (input) EVENT_TX_CED_DETECTED :: int where "EVENT_TX_CED_DETECTED \<equiv> 23"
abbreviation (input) EVENT_RX_CED_DETECTED :: int where "EVENT_RX_CED_DETECTED \<equiv> 24"
abbreviation (input) EVENT_TX_CNG_DETECTED :: int where "EVENT_TX_CNG_DETECTED \<equiv> 25"
abbreviation (input) EVENT_RX_CNG_DETECTED :: int where "EVENT_RX_CNG_DETECTED \<equiv> 26"
abbreviation (input) EVENT_EC_NLP_DISABLED :: int where "EVENT_EC_NLP_DISABLED \<equiv> 27"
abbreviation (input) EVENT_EC_NLP_ENABLED :: int where "EVENT_EC_NLP_ENABLED \<equiv> 28"
abbreviation (input) EVENT_PULSEDIGIT :: int where "EVENT_PULSEDIGIT \<equiv> 65536"

section \<open>The enumerations of the signalling\<close>

text \<open>
  \<open>enum dahdi_txsig\<close> as the integers the functions pass around (\<open>txhooksig\<close> also holds what the user
  gives), \<open>enum dahdi_rxsig\<close> as a datatype.
\<close>

abbreviation (input) TXSIG_ONHOOK :: int where "TXSIG_ONHOOK \<equiv> 0"
abbreviation (input) TXSIG_OFFHOOK :: int where "TXSIG_OFFHOOK \<equiv> 1"
abbreviation (input) TXSIG_START :: int where "TXSIG_START \<equiv> 2"
abbreviation (input) TXSIG_KEWL :: int where "TXSIG_KEWL \<equiv> 3"

datatype rxsig = RXSIG_ONHOOK | RXSIG_OFFHOOK | RXSIG_START | RXSIG_RING | RXSIG_INITIAL

datatype waitq = ReadbufQ | WritebufQ | EventbufQ | TxstateQ | Sel

datatype effect =
    Wake waitq
  | SpanRbsbits int
  | SpanHooksig int
  | SpanSethook int
  | SpanHdlcHardXmit
  | SpanDacs "int option"

section \<open>The channel\<close>

record chan_id =
  channo :: int
  chanpos :: int
  cflags :: u32
  master :: int
  nextslave :: int
  chan_span :: "int option"
  sig :: u32
  sigcap :: u32
  chan_alarms :: int
  evring :: evq
  iomask :: u32
  xlaw :: "byte \<Rightarrow> int"
  lin2x :: "int \<Rightarrow> byte"
  rxgain :: "byte \<Rightarrow> byte"
  txgain :: "byte \<Rightarrow> byte"
  eff :: "effect list"

record chan_bufs = chan_id +
  readbuf :: "byte list list"
  inreadbuf :: int
  outreadbuf :: int
  writebuf :: "byte list list"
  inwritebuf :: int
  outwritebuf :: int
  blocksize :: int
  readn :: "int list"
  readidx :: "int list"
  writen :: "int list"
  writeidx :: "int list"
  numbufs :: int
  txbufpolicy :: int
  rxbufpolicy :: int
  txdisable :: bool
  rxdisable :: bool

record tone_state =
  ts_v1_1 :: int
  ts_v2_1 :: int
  ts_v3_1 :: int
  ts_v1_2 :: int
  ts_v2_2 :: int
  ts_v3_2 :: int
  ts_modulate :: int

text \<open>
  \<open>curzone\<close> is the address of a zone (\<open>Tones\<close>). A pointer to a tone is to one of the four static tones
  of \<open>digits.h\<close>, or into the zone at an address: to a tone of its slab or of one of its arrays.
\<close>

datatype tone_array = SlabTones | Dtmf | DtmfContinuous | Mfr1 | Mfr2Fwd | Mfr2Rev | Mfr2FwdContinuous | Mfr2RevContinuous

datatype tone_ptr = DtmfSilence | Mfr1Silence | Mfr2Silence | TonePause | InZone nat tone_array nat

record chan_tones = chan_bufs +
  curzone :: "nat option"
  tonezone :: int
  curtone :: "tone_ptr option"
  tonep :: int
  ts :: tone_state
  pdialcount :: int
  digitmode :: int
  txdialbuf :: string
  dialing :: int
  afterdialingtimer :: int

record chan_hdlc = chan_tones +
  txhdlc :: fasthdlc_state
  rxhdlc :: fasthdlc_state
  infcs :: u16

record chan_conf = chan_hdlc +
  confna :: int
  confn :: int
  confmode :: int
  confmute :: int
  confin :: confq
  confout :: confq
  getlin :: "int list"
  getraw :: "byte list"
  getlin_lastchunk :: "int list"
  putlin :: "int list"
  putraw :: "byte list"
  conflast :: "int list"
  conflast1 :: "int list"
  conflast2 :: "int list"
  writechunk :: "byte list"
  readchunk :: "byte list"

record sf_detect_state =
  sf_x1 :: int
  sf_x2 :: int
  sf_y1 :: int
  sf_y2 :: int
  sf_e1 :: int
  sf_e2 :: int
  sf_samps :: int
  sf_lastdetect :: int

record chan_sf = chan_conf +
  rxp1 :: int
  rxp2 :: int
  rxp3 :: int
  txtone :: int
  tx_v2 :: int
  tx_v3 :: int
  v1_1 :: int
  v2_1 :: int
  v3_1 :: int
  toneflags :: int
  rd :: sf_detect_state

text \<open>
  The echo canceller: the biquad filter and the detector of the CED tone (\<open>biquad.h\<close>, \<open>ecdis.h\<close>), the mode
  and counters of \<open>struct dahdi_echocan_state\<close>. The state its driver keeps is \<open>ec_pvt\<close>.
\<close>

record biquad2_state =
  bq_gain :: int
  bq_a1 :: int
  bq_a2 :: int
  bq_b1 :: int
  bq_b2 :: int
  bq_z1 :: int
  bq_z2 :: int

record echo_can_disable_detector_state =
  notch :: biquad2_state
  notch_level :: int
  channel_level :: int
  tone_present :: bool
  tone_cycle_duration :: int
  good_cycles :: int
  hit :: bool

datatype echocan_mode = ECHO_MODE_IDLE | ECHO_MODE_PRETRAINING | ECHO_MODE_STARTTRAINING
  | ECHO_MODE_AWAITINGECHO | ECHO_MODE_TRAINING | ECHO_MODE_ACTIVE | ECHO_MODE_FAX

record echocan_features =
  CED_tx_detect :: bool
  CED_rx_detect :: bool
  CNG_tx_detect :: bool
  CNG_rx_detect :: bool
  NLP_toggle :: bool
  NLP_automatic :: bool

record echocan_events =
  CED_tx_detected :: bool
  CED_rx_detected :: bool
  CNG_tx_detected :: bool
  CNG_rx_detected :: bool
  NLP_auto_disabled :: bool
  NLP_auto_enabled :: bool

record echocan_state =
  ec_features :: echocan_features
  ec_events :: echocan_events
  ec_txecdis :: echo_can_disable_detector_state
  ec_rxecdis :: echo_can_disable_detector_state
  ec_mode :: echocan_mode
  ec_last_train_tap :: u32
  ec_pretrain_timer :: u32
  ec_pvt :: "int list"

record chan_rbscfg = chan_sf +
  ringcadence :: "int list"
  firstcadencepos :: int
  cadencepos :: int
  prewinktime :: int
  preflashtime :: int
  winktime :: int
  flashtime :: int
  starttime :: int
  rxwinktime :: int
  rxflashtime :: int
  debouncetime :: int
  pulsebreaktime :: int
  pulsemaketime :: int
  pulseaftertime :: int

text \<open>\<open>DAHDI_TXSTATE_*\<close> of \<open>dahdi-base.c\<close>.\<close>

datatype txstate = TXSTATE_ONHOOK | TXSTATE_OFFHOOK | TXSTATE_START | TXSTATE_PREWINK | TXSTATE_WINK
  | TXSTATE_PREFLASH | TXSTATE_FLASH | TXSTATE_DEBOUNCE | TXSTATE_AFTERSTART | TXSTATE_RINGON
  | TXSTATE_RINGOFF | TXSTATE_KEWL | TXSTATE_AFTERKEWL | TXSTATE_PULSEBREAK | TXSTATE_PULSEMAKE
  | TXSTATE_PULSEAFTER

text \<open>
  \<open>rxsig\<close> and \<open>txsig\<close> hold signalling bits. \<open>chan_file\<close> is \<open>file\<close>: whether there is one, and whether it was
  opened with \<open>O_NONBLOCK\<close>.
\<close>

record dahdi_chan = chan_rbscfg +
  ringdebtimer :: int
  ringtrailer :: int
  pulsecount :: int
  pulsetimer :: int
  itimerset :: int
  itimer :: int
  otimer :: int
  gotgs :: bool
  txstate :: txstate
  rxsig :: int
  txsig :: int
  rxsigstate :: int
  rxhooksig :: rxsig
  txhooksig :: int
  kewlonhook :: bool
  idlebits :: int
  deflaw :: int
  chan_file :: "bool option"
  gainalloc :: bool
  readchunkpreec :: "int list option"
  ec_state :: "echocan_state option"

section \<open>The span\<close>

text \<open>The fields of \<open>struct dahdi_span\<close> the core uses; which callbacks the driver has set.\<close>

record dahdi_span =
  spanno :: int
  sp_flags :: u32
  sp_alarms :: int
  sp_lastalarms :: int
  sp_chans :: "int list"
  sp_deflaw :: int
  has_rbsbits :: bool
  has_hooksig :: bool
  has_sethook :: bool
  has_hdlc_hard_xmit :: bool
  has_dacs :: bool
  has_chanconfig :: bool

section \<open>Flags, effects, events\<close>

abbreviation flagged :: "dahdi_chan \<Rightarrow> nat \<Rightarrow> bool" where
  "flagged c F \<equiv> bit (cflags c) F"

definition set_flag :: "nat \<Rightarrow> dahdi_chan \<Rightarrow> dahdi_chan" where
  "set_flag F c = c\<lparr>cflags := cflags c OR push_bit F 1\<rparr>"

definition clear_flag :: "nat \<Rightarrow> dahdi_chan \<Rightarrow> dahdi_chan" where
  "clear_flag F c = c\<lparr>cflags := cflags c AND NOT (push_bit F 1)\<rparr>"

definition wake :: "waitq \<Rightarrow> dahdi_chan \<Rightarrow> dahdi_chan" where
  "wake w c = c\<lparr>eff := eff c @ [Wake w]\<rparr>"

definition emit :: "effect \<Rightarrow> dahdi_chan \<Rightarrow> dahdi_chan" where
  "emit e c = c\<lparr>eff := eff c @ [e]\<rparr>"

definition qevent :: "int \<Rightarrow> dahdi_chan \<Rightarrow> dahdi_chan" where
  "qevent event chan =
     (if evq_full (evring chan) then chan
      else
        let c1 = chan\<lparr>evring := qevent_q event (evring chan)\<rparr>;
            c2 = (if bit (iomask c1) IOMUX_SIGEVENT then wake EventbufQ c1 else c1)
        in wake Sel (wake WritebufQ (wake ReadbufQ c2)))"

text \<open>A channel as \<open>kzalloc\<close> leaves it, with empty rings, before it is registered.\<close>

definition chan0 :: dahdi_chan where
  "chan0 = \<lparr>channo = 0, chanpos = 0, cflags = 0, master = 0, nextslave = 0, chan_span = None, sig = 0, sigcap = 0,
     chan_alarms = 0, evring = evq_init, iomask = 0, xlaw = (\<lambda>_. 0), lin2x = (\<lambda>_. 0), rxgain = id, txgain = id, eff = [],
     readbuf = replicate 32 [], inreadbuf = -1, outreadbuf = -1, writebuf = replicate 32 [], inwritebuf = -1,
     outwritebuf = -1, blocksize = 0, readn = replicate 32 0, readidx = replicate 32 0, writen = replicate 32 0,
     writeidx = replicate 32 0, numbufs = 0, txbufpolicy = 0, rxbufpolicy = 0, txdisable = False, rxdisable = False,
     curzone = None, tonezone = 0, curtone = None, tonep = 0,
     ts = \<lparr>ts_v1_1 = 0, ts_v2_1 = 0, ts_v3_1 = 0, ts_v1_2 = 0, ts_v2_2 = 0, ts_v3_2 = 0, ts_modulate = 0\<rparr>,
     pdialcount = 0, digitmode = 0, txdialbuf = [], dialing = 0, afterdialingtimer = 0,
     txhdlc = fasthdlc_init FASTHDLC_MODE_64, rxhdlc = fasthdlc_init FASTHDLC_MODE_64, infcs = 0,
     confna = 0, confn = 0, confmode = 0, confmute = 0, confin = confq_init, confout = confq_init,
     getlin = replicate 8 0, getraw = replicate 8 0, getlin_lastchunk = replicate 8 0, putlin = replicate 8 0,
     putraw = replicate 8 0, conflast = replicate 8 0, conflast1 = replicate 8 0, conflast2 = replicate 8 0,
     writechunk = replicate 8 0, readchunk = replicate 8 0,
     rxp1 = 0, rxp2 = 0, rxp3 = 0, txtone = 0, tx_v2 = 0, tx_v3 = 0, v1_1 = 0, v2_1 = 0, v3_1 = 0, toneflags = 0,
     rd = \<lparr>sf_x1 = 0, sf_x2 = 0, sf_y1 = 0, sf_y2 = 0, sf_e1 = 0, sf_e2 = 0, sf_samps = 0, sf_lastdetect = 0\<rparr>,
     ringcadence = replicate 16 0, firstcadencepos = 0, cadencepos = 0, prewinktime = 0, preflashtime = 0, winktime = 0,
     flashtime = 0, starttime = 0, rxwinktime = 0, rxflashtime = 0, debouncetime = 0, pulsebreaktime = 0,
     pulsemaketime = 0, pulseaftertime = 0,
     ringdebtimer = 0, ringtrailer = 0, pulsecount = 0, pulsetimer = 0, itimerset = 0, itimer = 0, otimer = 0,
     gotgs = False, txstate = TXSTATE_ONHOOK, rxsig = 0, txsig = 0, rxsigstate = 0, rxhooksig = RXSIG_ONHOOK,
     txhooksig = 0, kewlonhook = False, idlebits = 0, deflaw = 0, chan_file = None, gainalloc = False,
     readchunkpreec = None, ec_state = None\<rparr>"

definition span0 :: dahdi_span where
  "span0 = \<lparr>spanno = 1, sp_flags = 0, sp_alarms = 0, sp_lastalarms = 0, sp_chans = [], sp_deflaw = 0, has_rbsbits = False,
     has_hooksig = False, has_sethook = False, has_hdlc_hard_xmit = False, has_dacs = False, has_chanconfig = False\<rparr>"

lemma flagged_set_flag: "flagged (set_flag F c) G \<longleftrightarrow> G = F \<and> F < 32 \<or> flagged c G"
  by (auto simp: set_flag_def bit_or_iff bit_exp_iff)

lemma flagged_clear_flag: "flagged (clear_flag F c) G \<longleftrightarrow> flagged c G \<and> G \<noteq> F"
  using bit_imp_le_length [of "cflags c" G]
  by (auto simp: clear_flag_def bit_and_iff bit_not_iff bit_exp_iff)

lemma qevent_evring: "evring (qevent e c) = qevent_q e (evring c)"
  by (auto simp: qevent_def wake_def Let_def qevent_q_full)

lemma qevent_cases: "\<exists>ws. qevent e c = c\<lparr>evring := qevent_q e (evring c), eff := eff c @ ws\<rparr>"
proof (cases "evq_full (evring c)")
  case True
  then show ?thesis by (intro exI [of _ "[]"]) (simp add: qevent_def qevent_q_full)
next
  case False
  then show ?thesis
    by (intro exI [of _ "(if bit (iomask c) IOMUX_SIGEVENT then [Wake EventbufQ] else []) @
          [Wake ReadbufQ, Wake WritebufQ, Wake Sel]"])
      (simp add: qevent_def wake_def Let_def)
qed

end
