(* ===== verification/Chan_Buffers.thy ===== *)
theory Chan_Buffers
  imports Chan Hdlc_Stream
begin

text \<open>
  The buffers between the user of a channel and the interrupt side: \<open>dahdi_reallocbufs\<close>,
  \<open>dahdi_chan_read\<close>, \<open>dahdi_chan_write\<close>, \<open>num_filled_bufs\<close>, \<open>calc_fcs\<close>, and the interface for cards
  with an HDLC controller of their own: \<open>dahdi_hdlc_abort\<close>, \<open>_putbuf\<close>, \<open>_finish\<close>, \<open>_getbuf\<close>.
  Each direction is a ring of \<open>numbufs\<close> buffers (\<open>Ring\<close>): the writer fills slot \<open>in\<close>, the reader
  empties slot \<open>out\<close>. A blocking call that would sleep returns \<open>Blocked\<close>: the code calls it again
  when it is woken. Copies to and from user space that fault are arguments.

  \<open>PPP_FCS\<close>, the table-driven step of the frame check sequence, is the kernel's: the argument
  \<open>ppp_fcs\<close>; \<open>PPP_INITFCS\<close> is 0xffff and \<open>PPP_GOODFCS\<close> 0xf0b8 (RFC 1662).
\<close>

abbreviation (input) MAX_NUM_BUFS :: nat where "MAX_NUM_BUFS \<equiv> 32"
abbreviation (input) PPP_INITFCS :: u16 where "PPP_INITFCS \<equiv> 0xffff"
abbreviation (input) PPP_GOODFCS :: u16 where "PPP_GOODFCS \<equiv> 0xf0b8"

type_synonym fcs_step = "u16 \<Rightarrow> byte \<Rightarrow> u16"

section \<open>The frame check sequence\<close>

definition calc_fcs :: "fcs_step \<Rightarrow> nat \<Rightarrow> dahdi_chan \<Rightarrow> dahdi_chan" where
  "calc_fcs ppp_fcs k ss =
     (let data = writebuf ss ! k; len = writen ss ! k in
      if len < 2 then ss
      else
        let fcs = foldl ppp_fcs PPP_INITFCS (take (nat (len - 2)) data) XOR 0xffff;
            data' = data[nat (len - 2) := ucast (fcs AND 0xff),
                         nat (len - 1) := ucast (drop_bit 8 fcs AND 0xff)]
        in ss\<lparr>writebuf := (writebuf ss)[k := data']\<rparr>)"

section \<open>Allocation\<close>

text \<open>\<open>kzalloc1\<close>, \<open>kzalloc2\<close>: whether the two allocations succeed.\<close>

definition dahdi_reallocbufs :: "bool \<Rightarrow> bool \<Rightarrow> int \<Rightarrow> int \<Rightarrow> dahdi_chan \<Rightarrow> int \<times> dahdi_chan" where
  "dahdi_reallocbufs kzalloc1 kzalloc2 blksize nbufs ss =
     (let nbufs = (if nbufs < 2 then 2 else nbufs);
          nbufs = (if nbufs > int MAX_NUM_BUFS then int MAX_NUM_BUFS else nbufs);
          n = nat nbufs in
      if blksize \<noteq> 0 \<and> \<not> kzalloc1 then (- ENOMEM, ss)
      else if blksize \<noteq> 0 \<and> \<not> kzalloc2 then (- ENOMEM, ss)
      else
        let newbuf = (if blksize \<noteq> 0 then replicate (nat blksize) 0 else []);
            ss = ss\<lparr>blocksize := blksize,
                    readbuf := replicate n newbuf @ drop n (readbuf ss),
                    writebuf := replicate n newbuf @ drop n (writebuf ss),
                    writen := replicate n 0 @ drop n (writen ss),
                    writeidx := replicate n 0 @ drop n (writeidx ss),
                    readn := replicate n 0 @ drop n (readn ss),
                    readidx := replicate n 0 @ drop n (readidx ss)\<rparr>;
            ss = (if blksize \<noteq> 0 then ss\<lparr>inreadbuf := 0, inwritebuf := 0\<rparr>
                  else ss\<lparr>inreadbuf := -1, inwritebuf := -1\<rparr>);
            ss = ss\<lparr>outreadbuf := -1, outwritebuf := -1, numbufs := nbufs,
                    txdisable := (txbufpolicy ss = POLICY_WHEN_FULL \<or> txbufpolicy ss = POLICY_HALF_FULL),
                    rxdisable := (rxbufpolicy ss = POLICY_WHEN_FULL)\<rparr>
        in (0, ss))"

section \<open>Reading\<close>

text \<open>What a read delivers: bytes, or in linear mode the samples of \<open>amnt div 2\<close> bytes.\<close>

datatype userdata = UBytes "byte list" | USamples "int list"

datatype rw_result = Blocked | Failed int | Done int userdata

text \<open>
  The copy loop of the linear mode, 128 samples at a time; \<open>fault k\<close> is whether the \<open>k\<close>-th copy
  faults.
\<close>

function lin_read_loop :: "(nat \<Rightarrow> bool) \<Rightarrow> nat \<Rightarrow> (byte \<Rightarrow> int) \<Rightarrow> byte list \<Rightarrow> nat \<Rightarrow> nat \<Rightarrow> int list \<Rightarrow> int list option"
where
  "lin_read_loop fault k law buf left pos acc =
     (if left = 0 then Some acc
      else
        let pass = (if left > 128 then 128 else left);
            lindata = map (\<lambda>x. law (buf ! (x + pos))) [0..<pass]
        in if fault k then None
           else lin_read_loop fault (k + 1) law buf (left - pass) (pos + pass) (acc @ lindata))"
  by pat_completeness auto
termination by (relation "measure (\<lambda>(fault, k, law, buf, left, pos, acc). left)") auto

declare lin_read_loop.simps [simp del]

definition has_event :: "dahdi_chan \<Rightarrow> bool" where
  "has_event c \<longleftrightarrow> eventinidx (evring c) \<noteq> eventoutidx (evring c)"

text \<open>What follows the copy in \<open>dahdi_chan_read\<close>: give the buffer back.\<close>

definition read_advance :: "int \<Rightarrow> dahdi_chan \<Rightarrow> dahdi_chan" where
  "read_advance res chan =
     (let c = chan\<lparr>readidx := (readidx chan)[nat res := 0], readn := (readn chan)[nat res := 0]\<rparr>;
          c = c\<lparr>outreadbuf := (res + 1) mod numbufs c\<rparr>;
          c = (if outreadbuf c = inreadbuf c then
                 c\<lparr>outreadbuf := -1,
                   rxdisable := (if rxbufpolicy c = POLICY_WHEN_FULL then True else rxdisable c)\<rparr>
               else c)
      in if inreadbuf c < 0 then c\<lparr>inreadbuf := res\<rparr> else c)"

definition dahdi_chan_read :: "bool \<Rightarrow> (nat \<Rightarrow> bool) \<Rightarrow> int \<Rightarrow> dahdi_chan \<Rightarrow> rw_result \<times> dahdi_chan" where
  "dahdi_chan_read nonblock fault count chan =
     (let count = count mod 65536 in
      if count < 1 then (Failed (- EINVAL), chan)
      else if has_event chan then (Failed (- ELAST), chan)
      else
        let res = (if rxdisable chan then -1 else outreadbuf chan) in
        if res < 0 then ((if nonblock then Failed (- EAGAIN) else Blocked), chan)
        else if flagged chan FLAGBIT_LINEAR then
          let amnt = (if count > 2 * (readn chan ! nat res) then 2 * (readn chan ! nat res) else count) in
          (case lin_read_loop fault 0 (xlaw chan) (readbuf chan ! nat res) (nat (amnt div 2)) 0 [] of
             None \<Rightarrow> (Failed (- EFAULT), chan)
           | Some samples \<Rightarrow> (Done amnt (USamples samples), read_advance res chan))
        else
          let amnt = (if count > readn chan ! nat res then readn chan ! nat res else count) in
          if amnt \<noteq> 0 \<and> fault 0 then (Failed (- EFAULT), chan)
          else (Done amnt (UBytes (take (nat amnt) (readbuf chan ! nat res))), read_advance res chan))"

section \<open>Writing\<close>

definition num_filled_bufs :: "dahdi_chan \<Rightarrow> int" where
  "num_filled_bufs chan =
     (if inwritebuf chan < 0 then numbufs chan
      else if outwritebuf chan < 0 then 0
      else if outwritebuf chan \<le> inwritebuf chan then inwritebuf chan - outwritebuf chan
      else (numbufs chan - outwritebuf chan) + inwritebuf chan)"

text \<open>A write first stops what the channel is playing or dialing.\<close>

definition write_stop_tone :: "dahdi_chan \<Rightarrow> dahdi_chan" where
  "write_stop_tone chan =
     (if (curtone chan \<noteq> None \<or> pdialcount chan \<noteq> 0) \<and> \<not> flagged chan FLAGBIT_PSEUDO then
        chan\<lparr>curtone := None, tonep := 0, dialing := 0, txdialbuf := [], pdialcount := 0\<rparr>
      else chan)"

function lin_write_loop :: "(nat \<Rightarrow> bool) \<Rightarrow> nat \<Rightarrow> (int \<Rightarrow> byte) \<Rightarrow> int list \<Rightarrow> nat \<Rightarrow> nat \<Rightarrow> byte list \<Rightarrow> bool \<times> byte list"
where
  "lin_write_loop fault k law usr left pos buf =
     (if left = 0 then (True, buf)
      else
        let pass = (if left > 128 then 128 else left) in
        if fault k then (False, buf)
        else
          let buf' = fold (\<lambda>x b. b[x + pos := law (usr ! (x + pos))]) [0..<pass] buf
          in lin_write_loop fault (k + 1) law usr (left - pass) (pos + pass) buf')"
  by pat_completeness auto
termination by (relation "measure (\<lambda>(fault, k, law, usr, left, pos, buf). left)") auto

declare lin_write_loop.simps [simp del]

definition write_advance :: "int \<Rightarrow> dahdi_chan \<Rightarrow> dahdi_chan" where
  "write_advance res chan =
     (let c = chan\<lparr>inwritebuf := (res + 1) mod numbufs chan\<rparr>;
          c = (if inwritebuf c = outwritebuf c then c\<lparr>inwritebuf := -1, txdisable := False\<rparr> else c);
          c = (if outwritebuf c < 0 then c\<lparr>outwritebuf := res\<rparr> else c)
      in if txbufpolicy c = POLICY_HALF_FULL \<and> txdisable c \<and> num_filled_bufs c \<ge> numbufs c div 2
         then c\<lparr>txdisable := False\<rparr> else c)"

text \<open>
  The user's buffer: in linear mode the copy reads it as little-endian samples, otherwise as bytes.
\<close>

fun le_samples :: "byte list \<Rightarrow> int list" where
  "le_samples (a # b # rest) = sint (word_cat b a :: 16 word) # le_samples rest"
| "le_samples _ = []"

fun usr_samples :: "userdata \<Rightarrow> int list" where
  "usr_samples (USamples s) = s"
| "usr_samples (UBytes d) = le_samples d"

fun usr_bytes :: "userdata \<Rightarrow> byte list" where
  "usr_bytes (UBytes d) = d"
| "usr_bytes (USamples s) = concat (map (\<lambda>v. [word_of_int v, word_of_int (v div 256)]) s)"

definition write_fill :: "(nat \<Rightarrow> bool) \<Rightarrow> int \<Rightarrow> int \<Rightarrow> userdata \<Rightarrow> dahdi_chan \<Rightarrow> bool \<times> dahdi_chan" where
  "write_fill fault res amnt usr chan =
     (if flagged chan FLAGBIT_LINEAR then
        let (ok, b) = lin_write_loop fault 0 (lin2x chan) (usr_samples usr) (nat (amnt div 2)) 0 (writebuf chan ! nat res);
            c = chan\<lparr>writebuf := (writebuf chan)[nat res := b]\<rparr>
        in if ok then (True, c\<lparr>writen := (writen c)[nat res := amnt div 2]\<rparr>) else (False, c)
      else if fault 0 then (False, chan)
      else (True, chan\<lparr>writebuf := (writebuf chan)[nat res := take (nat amnt) (usr_bytes usr) @
                           drop (nat amnt) (writebuf chan ! nat res)],
                       writen := (writen chan)[nat res := amnt]\<rparr>))"

definition dahdi_chan_write ::
  "fcs_step \<Rightarrow> dahdi_span \<Rightarrow> bool \<Rightarrow> (nat \<Rightarrow> bool) \<Rightarrow> int \<Rightarrow> userdata \<Rightarrow> dahdi_chan \<Rightarrow> rw_result \<times> dahdi_chan"
where
  "dahdi_chan_write ppp_fcs span nonblock fault count usr chan =
     (let count = count mod 65536 in
      if count < 1 then (Failed (- EINVAL), chan)
      else
        let chan = write_stop_tone chan in
        if has_event chan then (Failed (- ELAST), chan)
        else
          let res = inwritebuf chan in
          if res < 0 then ((if nonblock then Failed (- EAGAIN) else Blocked), chan)
          else
            let lim = (if flagged chan FLAGBIT_LINEAR then 2 * blocksize chan else blocksize chan);
                amnt = (if count > lim then lim else count) in
            if amnt \<noteq> 0 then
              (case write_fill fault res amnt usr chan of
                 (False, c) \<Rightarrow> (Failed (- EFAULT), c)
               | (True, c) \<Rightarrow>
                   let c = c\<lparr>writeidx := (writeidx c)[nat res := 0]\<rparr>;
                       c = (if flagged c FLAGBIT_FCS then calc_fcs ppp_fcs (nat res) c else c);
                       c = write_advance res c;
                       c = (if flagged c FLAGBIT_NOSTDTXRX \<and> has_hdlc_hard_xmit span then emit SpanHdlcHardXmit c else c)
                   in (Done amnt usr, c))
            else (Done amnt usr, chan))"

section \<open>The ioctls on buffers\<close>

text \<open>\<open>DAHDI_SET_BUFINFO\<close>: \<open>bufsize * numbufs\<close> is computed in \<open>int\<close>.\<close>

definition ioctl_set_bufinfo :: "bool \<Rightarrow> bool \<Rightarrow> int \<Rightarrow> int \<Rightarrow> int \<Rightarrow> dahdi_chan \<Rightarrow> int \<times> dahdi_chan" where
  "ioctl_set_bufinfo kzalloc1 kzalloc2 bufsize nbufs policy chan =
     (if bufsize > 8192 then (- EINVAL, chan)
      else if bufsize < 16 then (- EINVAL, chan)
      else if wrap_int (bufsize * nbufs) > 32768 then (- EINVAL, chan)
      else dahdi_reallocbufs kzalloc1 kzalloc2 bufsize nbufs (chan\<lparr>txbufpolicy := policy AND 3\<rparr>))"

definition ioctl_set_blocksize :: "bool \<Rightarrow> bool \<Rightarrow> int \<Rightarrow> dahdi_chan \<Rightarrow> int \<times> dahdi_chan" where
  "ioctl_set_blocksize kzalloc1 kzalloc2 j chan =
     (if j > 8192 then (- EINVAL, chan)
      else if j < 16 then (- EINVAL, chan)
      else dahdi_reallocbufs kzalloc1 kzalloc2 j (numbufs chan) chan)"

text \<open>\<open>DAHDI_FLUSH\<close>: bits 0, 1 and 2 of \<open>i\<close> flush the read side, the write side and the events.\<close>

definition flush_read :: "dahdi_chan \<Rightarrow> dahdi_chan" where
  "flush_read chan =
     (let n = nat (numbufs chan);
          c = chan\<lparr>inreadbuf := 0, outreadbuf := -1,
                   readn := replicate n 0 @ drop n (readn chan),
                   readidx := replicate n 0 @ drop n (readidx chan)\<rparr>
      in wake Sel (wake ReadbufQ c))"

definition flush_write :: "dahdi_chan \<Rightarrow> dahdi_chan" where
  "flush_write chan =
     (let n = nat (numbufs chan);
          c = chan\<lparr>outwritebuf := -1, inwritebuf := 0,
                   writen := replicate n 0 @ drop n (writen chan),
                   writeidx := replicate n 0 @ drop n (writeidx chan)\<rparr>;
          c = wake Sel (wake WritebufQ c)
      in if bit (iomask c) IOMUX_WRITEEMPTY then wake EventbufQ c else c)"

definition ioctl_flush :: "int \<Rightarrow> dahdi_chan \<Rightarrow> dahdi_chan" where
  "ioctl_flush i chan =
     (let c = (if bit i 0 then flush_read chan else chan);
          c = (if bit i 1 then flush_write c else c)
      in if bit i 2 then c\<lparr>evring := flush_q (evring c)\<rparr> else c)"

text \<open>One turn of the loop of \<open>DAHDI_IOMUX\<close>: \<open>None\<close> when it would sleep.\<close>

definition ioctl_iomux :: "u32 \<Rightarrow> dahdi_chan \<Rightarrow> (int + u32) option \<times> dahdi_chan" where
  "ioctl_iomux msk chan =
     (let c = chan\<lparr>iomask := msk\<rparr> in
      if msk = 0 then (Some (Inl (- EINVAL)), c)
      else
        let ret = (if bit msk IOMUX_READ \<and> outreadbuf c > -1 \<and> \<not> rxdisable c then 1 else 0 :: u32);
            ret = (if bit msk IOMUX_WRITE \<and> inwritebuf c > -1 then ret OR 2 else ret);
            we = bit msk IOMUX_WRITEEMPTY;
            c = (if we then c\<lparr>txdisable := False\<rparr> else c);
            ret = (if we \<and> outwritebuf c < 0 then ret OR 4 else ret);
            ret = (if bit msk IOMUX_SIGEVENT \<and> has_event c then ret OR 8 else ret)
        in if ret \<noteq> 0 \<or> bit msk 8 then (Some (Inr ret), c\<lparr>iomask := 0\<rparr>) else (None, c))"

section \<open>Cards with their own HDLC controller\<close>

text \<open>\<open>__dahdi_hdlc_abort\<close>; the event is for the master of \<open>ss\<close>, which is returned.\<close>

definition hdlc_abort :: "dahdi_span \<Rightarrow> int \<Rightarrow> dahdi_chan \<Rightarrow> dahdi_chan \<times> int option" where
  "hdlc_abort span event ss =
     (let c = (if inreadbuf ss \<ge> 0 then ss\<lparr>readidx := (readidx ss)[nat (inreadbuf ss) := 0]\<rparr> else ss)
      in (c, if flagged c FLAGBIT_OPEN \<and> sp_alarms span = 0 then Some event else None))"

text \<open>\<open>memcpy (dst + pos, src, n)\<close> within the destination.\<close>

definition blit :: "byte list \<Rightarrow> nat \<Rightarrow> byte list \<Rightarrow> byte list" where
  "blit dst pos src = take pos dst @ src @ drop (pos + length src) dst"

definition dahdi_hdlc_putbuf :: "dahdi_span \<Rightarrow> byte list \<Rightarrow> dahdi_chan \<Rightarrow> dahdi_chan \<times> int option" where
  "dahdi_hdlc_putbuf span rxb ss =
     (if inreadbuf ss < 0 then (ss, None)
      else
        let k = nat (inreadbuf ss); bytes = int (length rxb);
            left = blocksize ss - readidx ss ! k;
            left = (if left > bytes then bytes else left);
            (c, bytes) = (if left > 0 then
                 (ss\<lparr>readbuf := (readbuf ss)[k := blit (readbuf ss ! k) (nat (readidx ss ! k)) (take (nat left) rxb)],
                    readidx := (readidx ss)[k := readidx ss ! k + left]\<rparr>, bytes - left)
               else (ss, bytes))
        in if bytes \<noteq> 0 then hdlc_abort span EVENT_OVERRUN c else (c, None))"

definition dahdi_hdlc_finish :: "dahdi_chan \<Rightarrow> dahdi_chan" where
  "dahdi_hdlc_finish ss =
     (let old = inreadbuf ss in
      if old < 0 then ss
      else if readidx ss ! nat old = 0 then ss
      else
        let c = ss\<lparr>readn := (readn ss)[nat old := readidx ss ! nat old]\<rparr>;
            c = c\<lparr>inreadbuf := (old + 1) mod numbufs c\<rparr>;
            c = (if inreadbuf c = outreadbuf c then c\<lparr>inreadbuf := -1, rxdisable := False\<rparr> else c);
            c = (if outreadbuf c < 0 then c\<lparr>outreadbuf := old\<rparr> else c)
        in if \<not> rxdisable c then
             let c = wake Sel (wake ReadbufQ c)
             in if bit (iomask c) IOMUX_READ then wake EventbufQ c else c
           else c)"

text \<open>
  \<open>dahdi_hdlc_getbuf\<close>: \<open>size\<close> is unsigned, so \<open>left <= *size\<close> compares \<open>left\<close> modulo \<open>2 ^ 32\<close>. The result
  is the return code, the bytes copied and the new \<open>*size\<close>.
\<close>

definition getbuf_policy :: "dahdi_chan \<Rightarrow> dahdi_chan" where
  "getbuf_policy c =
     (if txbufpolicy c = POLICY_WHEN_FULL \<or> txbufpolicy c = POLICY_HALF_FULL then c\<lparr>txdisable := True\<rparr> else c)"

definition wake_iomux_write :: "dahdi_chan \<Rightarrow> dahdi_chan" where
  "wake_iomux_write c =
     (if bit (iomask c) IOMUX_WRITE \<or> bit (iomask c) IOMUX_WRITEEMPTY then wake EventbufQ c else c)"

definition getbuf_rotate :: "dahdi_chan \<Rightarrow> int \<times> dahdi_chan" where
  "getbuf_rotate c =
     (let old = outwritebuf c; k = nat old;
          c = c\<lparr>writeidx := (writeidx c)[k := 0], writen := (writen c)[k := 0],
                outwritebuf := (old + 1) mod numbufs c\<rparr>;
          empty = (outwritebuf c = inwritebuf c);
          res = (if empty then -1 else 1);
          c = (if empty then getbuf_policy (wake_iomux_write (c\<lparr>outwritebuf := -1\<rparr>)) else c);
          c = (if inwritebuf c < 0 then c\<lparr>inwritebuf := old\<rparr> else c);
          c = (if \<not> (flagged c FLAGBIT_NETDEV \<or> flagged c FLAGBIT_PPP) then
                 let c = wake Sel (wake WritebufQ c)
                 in if bit (iomask c) IOMUX_WRITE \<and> res \<ge> 0 then wake EventbufQ c else c
               else c)
      in (res, c))"

definition dahdi_hdlc_getbuf :: "int \<Rightarrow> dahdi_chan \<Rightarrow> int \<times> byte list \<times> int \<times> dahdi_chan" where
  "dahdi_hdlc_getbuf sz ss =
     (if outwritebuf ss > -1 then
        let k = nat (outwritebuf ss);
            buf = writebuf ss ! k;
            left = writen ss ! k - writeidx ss ! k - 2;
            fin = (left mod 2 ^ 32 \<le> sz);
            sz = (if fin then left else sz);
            dat = take (nat sz) (drop (nat (writeidx ss ! k)) buf);
            c = ss\<lparr>writeidx := (writeidx ss)[k := writeidx ss ! k + sz]\<rparr>
        in if \<not> fin then (0, dat, sz, c)
           else case getbuf_rotate c of (res, c) \<Rightarrow> (res, dat, sz, c)
      else (-1, [], 0, ss))"

section \<open>The interrupt side of reception\<close>

text \<open>
  \<open>__putbuf_chunk\<close>. \<open>putbuf_hdlc\<close> is the loop over the \<open>left\<close> bytes of an HDLC channel: the channel, whether
  a frame ended, the event of an abort (0 for none), the bytes consumed.
\<close>

fun putbuf_hdlc :: "fcs_step \<Rightarrow> byte list \<Rightarrow> nat \<Rightarrow> dahdi_chan \<Rightarrow> dahdi_chan \<times> bool \<times> int \<times> nat" where
  "putbuf_hdlc ppp_fcs [] used ms = (ms, False, 0, used)"
| "putbuf_hdlc ppp_fcs (b # rxb) used ms =
     (let (res, h) = fasthdlc_rx_run (fasthdlc_rx_load_nocheck b (rxhdlc ms));
          ms = ms\<lparr>rxhdlc := h\<rparr>; k = nat (inreadbuf ms); used = used + 1 in
      if res AND RETURN_EMPTY_FLAG \<noteq> 0 then putbuf_hdlc ppp_fcs rxb used ms
      else if res AND RETURN_COMPLETE_FLAG \<noteq> 0 then
        (if readidx ms ! k \<noteq> 0 then
           (if flagged ms FLAGBIT_FCS \<and> infcs ms \<noteq> PPP_GOODFCS then (ms, False, EVENT_BADFCS, used)
            else (ms, True, 0, used))
         else putbuf_hdlc ppp_fcs rxb used ms)
      else if res AND RETURN_DISCARD_FLAG \<noteq> 0 then
        (if readidx ms ! k = 0 then putbuf_hdlc ppp_fcs rxb used ms else (ms, False, EVENT_ABORT, used))
      else
        let rxc = ucast res :: byte;
            ms = ms\<lparr>infcs := ppp_fcs (infcs ms) rxc,
                    readbuf := (readbuf ms)[k := (readbuf ms ! k)[nat (readidx ms ! k) := rxc]],
                    readidx := (readidx ms)[k := readidx ms ! k + 1]\<rparr>
        in if readidx ms ! k \<ge> blocksize ms then
             (ms\<lparr>rxhdlc := (rxhdlc ms)\<lparr>hstate := 0, hbits := 0\<rparr>, readidx := (readidx ms)[k := 0]\<rparr>,
              False, EVENT_OVERRUN, used)
           else putbuf_hdlc ppp_fcs rxb used ms)"

text \<open>
  A received frame ends. On an MTP2 channel a repetition of the previous buffer is dropped: \<open>memcmp\<close>
  of the previous slot with the \<open>readn\<close> bytes received.
\<close>

definition putbuf_next :: "dahdi_chan \<Rightarrow> dahdi_chan" where
  "putbuf_next ms =
     (let old = inreadbuf ms;
          ms = ms\<lparr>inreadbuf := (inreadbuf ms + 1) mod numbufs ms\<rparr>;
          ms = (if inreadbuf ms = outreadbuf ms then ms\<lparr>inreadbuf := -1, rxdisable := False\<rparr> else ms)
      in if outreadbuf ms < 0 then
           let ms = ms\<lparr>outreadbuf := old\<rparr> in if \<not> rxdisable ms then wake Sel ms else ms
         else ms)"

definition putbuf_notify :: "dahdi_chan \<Rightarrow> dahdi_chan" where
  "putbuf_notify ms =
     (if \<not> rxdisable ms then
        let ms = wake ReadbufQ ms in if bit (iomask ms) IOMUX_READ then wake EventbufQ ms else ms
      else ms)"

definition putbuf_eof :: "dahdi_chan \<Rightarrow> dahdi_chan" where
  "putbuf_eof ms =
     (let k = nat (inreadbuf ms);
          ms = ms\<lparr>infcs := PPP_INITFCS, readn := (readn ms)[k := readidx ms ! k]\<rparr>;
          prev = nat ((inreadbuf ms - 1) AND (numbufs ms - 1));
          n = nat (readn ms ! k);
          same = (take n (readbuf ms ! prev) = take n (readbuf ms ! k))
      in if flagged ms FLAGBIT_MTP2 \<and> same then
           ms\<lparr>readn := (readn ms)[k := 0], readidx := (readidx ms)[k := 0]\<rparr>
         else putbuf_notify (putbuf_next ms))"

definition putbuf_abort :: "dahdi_span \<Rightarrow> int \<Rightarrow> dahdi_chan \<Rightarrow> dahdi_chan" where
  "putbuf_abort span ev ms =
     (let ms = ms\<lparr>readidx := (readidx ms)[nat (inreadbuf ms) := 0], infcs := PPP_INITFCS\<rparr>
      in if flagged ms FLAGBIT_OPEN \<and> sp_alarms span = 0 then qevent ev ms else ms)"

text \<open>
  One turn of \<open>while (bytes)\<close>, for a channel \<open>ss\<close> with master \<open>ms\<close>: \<open>nostd\<close> is the \<open>NOSTDTXRX\<close> flag of \<open>ss\<close>.
\<close>

definition putbuf_turn :: "fcs_step \<Rightarrow> dahdi_span \<Rightarrow> bool \<Rightarrow> byte list \<Rightarrow> dahdi_chan \<Rightarrow> nat \<times> dahdi_chan" where
  "putbuf_turn ppp_fcs span nostd rxb ms =
     (let k = nat (inreadbuf ms); bytes = int (length rxb);
          left = blocksize ms - readidx ms ! k;
          left = (if left > bytes then bytes else left);
          (ms, eof, abort, used) =
            (if flagged ms FLAGBIT_HDLC then putbuf_hdlc ppp_fcs (take (nat left) rxb) 0 ms
             else
               let ms = ms\<lparr>readbuf := (readbuf ms)[k := blit (readbuf ms ! k) (nat (readidx ms ! k)) (take (nat left) rxb)],
                           readidx := (readidx ms)[k := readidx ms ! k + left]\<rparr>;
                   eof = (readidx ms ! k \<ge> blocksize ms)
               in (ms, eof \<and> \<not> nostd, if eof \<and> nostd then EVENT_OVERRUN else 0, nat left));
          ms = (if eof then putbuf_eof ms else ms);
          ms = (if abort \<noteq> 0 then putbuf_abort span abort ms else ms)
      in (used, ms))"

fun putbuf_loop :: "nat \<Rightarrow> fcs_step \<Rightarrow> dahdi_span \<Rightarrow> bool \<Rightarrow> byte list \<Rightarrow> dahdi_chan \<Rightarrow> dahdi_chan option" where
  "putbuf_loop fuel ppp_fcs span nostd [] ms = Some ms"
| "putbuf_loop 0 ppp_fcs span nostd (b # rxb) ms = None"
| "putbuf_loop (Suc fuel) ppp_fcs span nostd (b # rxb) ms =
     (if inreadbuf ms > -1 then
        let (used, ms) = putbuf_turn ppp_fcs span nostd (b # rxb) ms
        in putbuf_loop fuel ppp_fcs span nostd (drop used (b # rxb)) ms
      else Some ms)"

text \<open>\<open>__dahdi_putbuf_chunk\<close>: a fuel of one turn per byte is enough (\<open>putbuf_chunk_total\<close>).\<close>

definition putbuf_chunk :: "fcs_step \<Rightarrow> dahdi_span \<Rightarrow> bool \<Rightarrow> byte list \<Rightarrow> dahdi_chan \<Rightarrow> dahdi_chan option" where
  "putbuf_chunk ppp_fcs span nostd rxb ms = putbuf_loop (length rxb) ppp_fcs span nostd rxb ms"

section \<open>The buffer invariant\<close>

definition slots_ok :: "dahdi_chan \<Rightarrow> bool" where
  "slots_ok c \<longleftrightarrow> (\<forall>x < nat (numbufs c).
     length (readbuf c ! x) = nat (blocksize c) \<and> length (writebuf c ! x) = nat (blocksize c) \<and>
     0 \<le> readn c ! x \<and> readn c ! x \<le> blocksize c \<and> 0 \<le> readidx c ! x \<and> readidx c ! x \<le> blocksize c \<and>
     0 \<le> writen c ! x \<and> writen c ! x \<le> blocksize c \<and> 0 \<le> writeidx c ! x \<and> writeidx c ! x \<le> blocksize c)"

definition bufs_ok :: "dahdi_chan \<Rightarrow> bool" where
  "bufs_ok c \<longleftrightarrow> 0 < blocksize c \<and> numbufs c \<le> int MAX_NUM_BUFS \<and>
     ring_ok (numbufs c) (inreadbuf c) (outreadbuf c) \<and> ring_ok (numbufs c) (inwritebuf c) (outwritebuf c) \<and>
     length (readbuf c) = MAX_NUM_BUFS \<and> length (writebuf c) = MAX_NUM_BUFS \<and>
     length (readn c) = MAX_NUM_BUFS \<and> length (readidx c) = MAX_NUM_BUFS \<and>
     length (writen c) = MAX_NUM_BUFS \<and> length (writeidx c) = MAX_NUM_BUFS \<and> slots_ok c"

definition tx_slots :: "dahdi_chan \<Rightarrow> nat list" where
  "tx_slots c = ring_slots (numbufs c) (inwritebuf c) (outwritebuf c)"

definition rx_slots :: "dahdi_chan \<Rightarrow> nat list" where
  "rx_slots c = ring_slots (numbufs c) (inreadbuf c) (outreadbuf c)"

text \<open>The frames queued for transmission, and those received and not yet read, oldest first.\<close>

definition tx_frames :: "dahdi_chan \<Rightarrow> byte list list" where
  "tx_frames c = map (\<lambda>s. take (nat (writen c ! s)) (writebuf c ! s)) (tx_slots c)"

definition rx_frames :: "dahdi_chan \<Rightarrow> byte list list" where
  "rx_frames c = map (\<lambda>s. take (nat (readn c ! s)) (readbuf c ! s)) (rx_slots c)"

lemma bufs_ok_numbufs: "bufs_ok c \<Longrightarrow> 2 \<le> numbufs c \<and> numbufs c \<le> 32"
  by (simp add: bufs_ok_def ring_ok_def)

lemma reallocbufs_ok:
  assumes "0 < blksize" "length (readbuf c) = 32" "length (writebuf c) = 32" "length (readn c) = 32"
    "length (readidx c) = 32" "length (writen c) = 32" "length (writeidx c) = 32"
  shows "bufs_ok (snd (dahdi_reallocbufs True True blksize nbufs c)) \<and>
    tx_frames (snd (dahdi_reallocbufs True True blksize nbufs c)) = [] \<and>
    rx_frames (snd (dahdi_reallocbufs True True blksize nbufs c)) = [] \<and>
    fst (dahdi_reallocbufs True True blksize nbufs c) = 0"
proof -
  define n where "n = (if (if nbufs < 2 then 2 else nbufs) > 32 then 32 else if nbufs < 2 then 2 else nbufs)"
  have n: "2 \<le> n" "n \<le> 32" by (auto simp: n_def)
  have "n = (if (if nbufs < 2 then 2 else nbufs) > 32 then 32 else (if nbufs < 2 then 2 else nbufs))"
    by (simp add: n_def)
  then show ?thesis
    using assms n unfolding dahdi_reallocbufs_def Let_def
    by (simp add: bufs_ok_def slots_ok_def ring_ok_def nth_append tx_frames_def rx_frames_def tx_slots_def rx_slots_def)
qed

text \<open>The index arithmetic of the four advances is that of \<open>Ring\<close>.\<close>

lemma write_advance_fields [simp]:
  "numbufs (write_advance r c) = numbufs c" "blocksize (write_advance r c) = blocksize c"
  "readbuf (write_advance r c) = readbuf c" "writebuf (write_advance r c) = writebuf c"
  "readn (write_advance r c) = readn c" "readidx (write_advance r c) = readidx c"
  "writen (write_advance r c) = writen c" "writeidx (write_advance r c) = writeidx c"
  "inreadbuf (write_advance r c) = inreadbuf c" "outreadbuf (write_advance r c) = outreadbuf c"
  "cflags (write_advance r c) = cflags c" "evring (write_advance r c) = evring c" "eff (write_advance r c) = eff c"
  by (simp_all add: write_advance_def Let_def)

lemma write_advance_ring:
  assumes "ring_ok (numbufs c) (inwritebuf c) (outwritebuf c)" "inwritebuf c \<noteq> -1" "r = inwritebuf c"
  shows "inwritebuf (write_advance r c) = fst (ring_push (numbufs c) (inwritebuf c) (outwritebuf c))"
    and "outwritebuf (write_advance r c) = snd (ring_push (numbufs c) (inwritebuf c) (outwritebuf c))"
  using assms by (simp_all add: write_advance_def ring_push_def ring_ok_def Let_def)

lemma read_advance_fields [simp]:
  "numbufs (read_advance r c) = numbufs c" "blocksize (read_advance r c) = blocksize c"
  "readbuf (read_advance r c) = readbuf c" "writebuf (read_advance r c) = writebuf c"
  "readn (read_advance r c) = (readn c)[nat r := 0]" "readidx (read_advance r c) = (readidx c)[nat r := 0]"
  "writen (read_advance r c) = writen c" "writeidx (read_advance r c) = writeidx c"
  "inwritebuf (read_advance r c) = inwritebuf c" "outwritebuf (read_advance r c) = outwritebuf c"
  "cflags (read_advance r c) = cflags c" "evring (read_advance r c) = evring c" "eff (read_advance r c) = eff c"
  by (simp_all add: read_advance_def Let_def)

lemma read_advance_ring:
  assumes "ring_ok (numbufs c) (inreadbuf c) (outreadbuf c)" "outreadbuf c \<noteq> -1" "r = outreadbuf c"
  shows "inreadbuf (read_advance r c) = fst (ring_pull (numbufs c) (inreadbuf c) (outreadbuf c))"
    and "outreadbuf (read_advance r c) = snd (ring_pull (numbufs c) (inreadbuf c) (outreadbuf c))"
  using assms by (simp_all add: read_advance_def ring_pull_def ring_ok_def Let_def)

lemma bufs_ok_slot:
  assumes "bufs_ok c" "x < nat (numbufs c)"
  shows "length (readbuf c ! x) = nat (blocksize c)" "length (writebuf c ! x) = nat (blocksize c)"
    "0 \<le> readn c ! x" "readn c ! x \<le> blocksize c" "0 \<le> readidx c ! x" "readidx c ! x \<le> blocksize c"
    "0 \<le> writen c ! x" "writen c ! x \<le> blocksize c" "0 \<le> writeidx c ! x" "writeidx c ! x \<le> blocksize c"
  using assms by (auto simp: bufs_ok_def slots_ok_def)

lemma read_advance_bufs_ok:
  assumes ok: "bufs_ok c" and out: "outreadbuf c \<noteq> -1"
  shows "bufs_ok (read_advance (outreadbuf c) c)"
    and "rx_frames c = take (nat (readn c ! nat (outreadbuf c))) (readbuf c ! nat (outreadbuf c))
           # rx_frames (read_advance (outreadbuf c) c)"
    and "tx_frames (read_advance (outreadbuf c) c) = tx_frames c"
proof -
  let ?c = "read_advance (outreadbuf c) c"
  obtain i' o' where p: "ring_pull (numbufs c) (inreadbuf c) (outreadbuf c) = (i', o')"
    by (cases "ring_pull (numbufs c) (inreadbuf c) (outreadbuf c)")
  have r: "ring_ok (numbufs c) (inreadbuf c) (outreadbuf c)" using ok by (simp add: bufs_ok_def)
  note f = read_advance_ring [OF r out refl, unfolded p, simplified]
  have sl: "slots_ok ?c"
    using ok by (auto simp: bufs_ok_def slots_ok_def nth_upd)
  show "bufs_ok ?c"
    using ok sl ring_pull_ok [OF r out] p f unfolding bufs_ok_def by simp
  have s: "rx_slots c = nat (outreadbuf c) # rx_slots ?c"
    using ring_pull_slots [OF r out p] f by (simp add: rx_slots_def)
  then have "nat (outreadbuf c) \<notin> set (rx_slots ?c)"
    using ring_slots_distinct [OF r] by (simp add: rx_slots_def)
  then show "rx_frames c = take (nat (readn c ! nat (outreadbuf c))) (readbuf c ! nat (outreadbuf c)) # rx_frames ?c"
    unfolding rx_frames_def s by (auto simp: nth_upd intro!: map_cong)
  show "tx_frames ?c = tx_frames c" by (simp add: tx_frames_def tx_slots_def)
qed

lemma write_advance_bufs_ok:
  assumes ok: "bufs_ok c" and i: "inwritebuf c \<noteq> -1"
  shows "bufs_ok (write_advance (inwritebuf c) c)"
    and "tx_frames (write_advance (inwritebuf c) c) = tx_frames c @
           [take (nat (writen c ! nat (inwritebuf c))) (writebuf c ! nat (inwritebuf c))]"
    and "rx_frames (write_advance (inwritebuf c) c) = rx_frames c"
proof -
  let ?c = "write_advance (inwritebuf c) c"
  obtain i' o' where p: "ring_push (numbufs c) (inwritebuf c) (outwritebuf c) = (i', o')"
    by (cases "ring_push (numbufs c) (inwritebuf c) (outwritebuf c)")
  have r: "ring_ok (numbufs c) (inwritebuf c) (outwritebuf c)" using ok by (simp add: bufs_ok_def)
  note f = write_advance_ring [OF r i refl, unfolded p, simplified]
  have "slots_ok ?c" using ok by (simp add: bufs_ok_def slots_ok_def)
  then show "bufs_ok ?c"
    using ok ring_push_ok [OF r i] p f unfolding bufs_ok_def by simp
  show "tx_frames ?c = tx_frames c @ [take (nat (writen c ! nat (inwritebuf c))) (writebuf c ! nat (inwritebuf c))]"
    using ring_push_slots [OF r i p] f by (simp add: tx_frames_def tx_slots_def)
  show "rx_frames ?c = rx_frames c" by (simp add: rx_frames_def rx_slots_def)
qed

text \<open>Changing the slot that is being filled changes no frame of the queue.\<close>

lemma tx_frames_cong:
  assumes "bufs_ok c" "inwritebuf c \<noteq> -1" "numbufs c' = numbufs c" "inwritebuf c' = inwritebuf c"
    "outwritebuf c' = outwritebuf c"
    "\<And>x. x < nat (numbufs c) \<Longrightarrow> x \<noteq> nat (inwritebuf c) \<Longrightarrow> writen c' ! x = writen c ! x \<and> writebuf c' ! x = writebuf c ! x"
  shows "tx_frames c' = tx_frames c"
proof -
  have r: "ring_ok (numbufs c) (inwritebuf c) (outwritebuf c)" using assms(1) by (simp add: bufs_ok_def)
  have "x \<in> set (tx_slots c) \<Longrightarrow> x < nat (numbufs c) \<and> x \<noteq> nat (inwritebuf c)" for x
    using ring_slots_lt [OF r] ring_push_fresh [OF r assms(2)] by (auto simp: tx_slots_def)
  then show ?thesis using assms by (auto simp: tx_frames_def tx_slots_def)
qed

lemma rx_frames_cong:
  assumes "bufs_ok c" "inreadbuf c \<noteq> -1" "numbufs c' = numbufs c" "inreadbuf c' = inreadbuf c"
    "outreadbuf c' = outreadbuf c"
    "\<And>x. x < nat (numbufs c) \<Longrightarrow> x \<noteq> nat (inreadbuf c) \<Longrightarrow> readn c' ! x = readn c ! x \<and> readbuf c' ! x = readbuf c ! x"
  shows "rx_frames c' = rx_frames c"
proof -
  have r: "ring_ok (numbufs c) (inreadbuf c) (outreadbuf c)" using assms(1) by (simp add: bufs_ok_def)
  have "x \<in> set (rx_slots c) \<Longrightarrow> x < nat (numbufs c) \<and> x \<noteq> nat (inreadbuf c)" for x
    using ring_slots_lt [OF r] ring_push_fresh [OF r assms(2)] by (auto simp: rx_slots_def)
  then show ?thesis using assms by (auto simp: rx_frames_def rx_slots_def)
qed

text \<open>\<open>num_filled_bufs\<close> counts the frames queued.\<close>

lemma num_filled_bufs_frames: "bufs_ok c \<Longrightarrow> num_filled_bufs c = int (length (tx_frames c))"
  by (auto simp: num_filled_bufs_def tx_frames_def tx_slots_def bufs_ok_def ring_ok_def ring_count_def)

section \<open>What a write and a read do\<close>

lemma lin_read_loop_ok:
  "lin_read_loop (\<lambda>k. False) k law buf left pos acc = Some (acc @ map (\<lambda>x. law (buf ! x)) [pos..<pos + left])"
proof (induction left arbitrary: k pos acc rule: less_induct)
  case (less left)
  show ?case
  proof (cases "left = 0")
    case True
    then show ?thesis by (subst lin_read_loop.simps) simp
  next
    case False
    define p where "p = (if left > 128 then 128 else left)"
    have p: "0 < p" "p \<le> left" using False by (auto simp: p_def)
    have "[pos..<pos + left] = [pos..<pos + p] @ [pos + p..<pos + left]"
      using upt_add_eq_append [of pos "pos + p" "left - p"] p by simp
    moreover have "map (\<lambda>x. law (buf ! (x + pos))) [0..<p] = map (\<lambda>x. law (buf ! x)) [pos..<pos + p]"
      by (intro nth_equalityI) (auto simp: add.commute)
    moreover have "lin_read_loop (\<lambda>k. False) k law buf left pos acc
        = lin_read_loop (\<lambda>k. False) (k + 1) law buf (left - p) (pos + p) (acc @ map (\<lambda>x. law (buf ! (x + pos))) [0..<p])"
      using False by (subst lin_read_loop.simps) (simp add: Let_def p_def)
    ultimately show ?thesis using less [of "left - p"] p by simp
  qed
qed

lemma fold_upd:
  "fold (\<lambda>x b. b[x + pos := f x]) [0..<n] buf ! j =
     (if pos \<le> j \<and> j < pos + n \<and> j < length buf then f (j - pos) else buf ! j)"
  "length (fold (\<lambda>x b. b[x + pos := f x]) [0..<n] buf) = length buf"
  by (induction n) (auto simp: nth_upd)

lemma lin_write_loop_length: "length (snd (lin_write_loop fault k law usr left pos buf)) = length buf"
proof (induction left arbitrary: k pos buf rule: less_induct)
  case (less left)
  show ?case by (subst lin_write_loop.simps) (use less fold_upd(2) in \<open>auto simp: Let_def\<close>)
qed

lemma lin_write_loop_ok:
  assumes "pos + left \<le> length buf"
  shows "fst (lin_write_loop (\<lambda>k. False) k law usr left pos buf) \<and>
    (\<forall>j < length buf. snd (lin_write_loop (\<lambda>k. False) k law usr left pos buf) ! j =
      (if pos \<le> j \<and> j < pos + left then law (usr ! j) else buf ! j))"
  using assms
proof (induction left arbitrary: k pos buf rule: less_induct)
  case (less left)
  show ?case
  proof (cases "left = 0")
    case True
    then show ?thesis by (subst (1 2) lin_write_loop.simps) auto
  next
    case False
    define p where "p = (if left > 128 then 128 else left)"
    have p: "0 < p" "p \<le> left" using False by (auto simp: p_def)
    let ?b = "fold (\<lambda>x b. b[x + pos := law (usr ! (x + pos))]) [0..<p] buf"
    have "lin_write_loop (\<lambda>k. False) k law usr left pos buf
        = lin_write_loop (\<lambda>k. False) (k + 1) law usr (left - p) (pos + p) ?b"
      using False by (subst lin_write_loop.simps) (simp add: Let_def p_def)
    moreover have "fst (lin_write_loop (\<lambda>k. False) (k + 1) law usr (left - p) (pos + p) ?b) \<and>
      (\<forall>j < length ?b. snd (lin_write_loop (\<lambda>k. False) (k + 1) law usr (left - p) (pos + p) ?b) ! j =
        (if pos + p \<le> j \<and> j < pos + p + (left - p) then law (usr ! j) else ?b ! j))"
      using less.prems p False by (intro less.IH) (auto simp: fold_upd)
    ultimately show ?thesis using p less.prems by (auto simp: fold_upd)
  qed
qed

lemma write_stop_tone_fields [simp]:
  "numbufs (write_stop_tone c) = numbufs c" "blocksize (write_stop_tone c) = blocksize c"
  "readbuf (write_stop_tone c) = readbuf c" "writebuf (write_stop_tone c) = writebuf c"
  "readn (write_stop_tone c) = readn c" "readidx (write_stop_tone c) = readidx c"
  "writen (write_stop_tone c) = writen c" "writeidx (write_stop_tone c) = writeidx c"
  "inreadbuf (write_stop_tone c) = inreadbuf c" "outreadbuf (write_stop_tone c) = outreadbuf c"
  "inwritebuf (write_stop_tone c) = inwritebuf c" "outwritebuf (write_stop_tone c) = outwritebuf c"
  "cflags (write_stop_tone c) = cflags c" "evring (write_stop_tone c) = evring c"
  "has_event (write_stop_tone c) = has_event c" "lin2x (write_stop_tone c) = lin2x c"
  "tx_frames (write_stop_tone c) = tx_frames c" "rx_frames (write_stop_tone c) = rx_frames c"
  "bufs_ok (write_stop_tone c) = bufs_ok c"
  by (simp_all add: write_stop_tone_def has_event_def tx_frames_def rx_frames_def tx_slots_def rx_slots_def
      bufs_ok_def slots_ok_def)

lemma emit_frames [simp]:
  "tx_frames (emit e c) = tx_frames c" "rx_frames (emit e c) = rx_frames c" "bufs_ok (emit e c) = bufs_ok c"
  by (simp_all add: emit_def tx_frames_def rx_frames_def tx_slots_def rx_slots_def bufs_ok_def slots_ok_def)

text \<open>The trailer \<open>calc_fcs\<close> writes over the last two bytes of a frame.\<close>

definition with_fcs :: "fcs_step \<Rightarrow> byte list \<Rightarrow> byte list" where
  "with_fcs ppp_fcs d =
     (if length d < 2 then d
      else
        let body = take (length d - 2) d; fcs = foldl ppp_fcs PPP_INITFCS body XOR 0xffff
        in body @ [ucast (fcs AND 0xff), ucast (drop_bit 8 fcs AND 0xff)])"

lemma length_with_fcs [simp]: "length (with_fcs f d) = length d"
  by (auto simp: with_fcs_def Let_def)

text \<open>Storing the frame: the slot being filled gets \<open>d\<close>, and then its trailer.\<close>

definition put_frame :: "nat \<Rightarrow> byte list \<Rightarrow> dahdi_chan \<Rightarrow> dahdi_chan" where
  "put_frame k d c = c\<lparr>writebuf := (writebuf c)[k := d @ drop (length d) (writebuf c ! k)],
     writen := (writen c)[k := int (length d)], writeidx := (writeidx c)[k := 0]\<rparr>"

lemma calc_fcs_put_frame:
  assumes "k < length (writebuf c)" "k < length (writen c)"
  shows "calc_fcs f k (put_frame k d c) = put_frame k (with_fcs f d) c"
proof (cases "length d < 2")
  case True
  then show ?thesis using assms by (simp add: calc_fcs_def put_frame_def with_fcs_def)
next
  case False
  then obtain m where m: "length d = m + 2" by (metis add.commute le_Suc_ex not_less)
  have e: "(d @ r)[m := x, Suc m := y] = take m d @ [x, y] @ r" for x y and r :: "byte list"
  proof -
    have "length (drop m d) = Suc (Suc 0)" using m by simp
    then obtain p t where pt: "drop m d = p # t" "length t = Suc 0" unfolding length_Suc_conv by blast
    then obtain q where "drop m d = [p, q]" by (auto simp: length_Suc_conv)
    then have "d = take m d @ [p, q]" using append_take_drop_id [of m d] by simp
    then have "d @ r = take m d @ [p, q] @ r" by (metis append_assoc)
    moreover have "(take m d @ [p, q] @ r)[m := x, Suc m := y] = take m d @ [x, y] @ r"
      using m by (simp add: list_update_append)
    ultimately show ?thesis by (simp only:)
  qed
  have n: "nat (int (length d) - 2) = m" "nat (int (length d) - 1) = Suc m" using m by auto
  have wb: "writebuf (put_frame k d c) ! k = d @ drop (length d) (writebuf c ! k)"
    and wn: "writen (put_frame k d c) ! k = int (length d)"
    using assms by (simp_all add: put_frame_def)
  have t: "take m (d @ drop (length d) (writebuf c ! k)) = take m d" "length d - 2 = m"
    and nf: "\<not> int (length d) < 2" using m by auto
  have len: "length (take m d @ [x, y]) = length d" for x y using m by simp
  show ?thesis
    unfolding calc_fcs_def with_fcs_def Let_def wb wn n t e if_not_P [OF nf] if_not_P [OF False]
    unfolding put_frame_def len by simp
qed

lemma write_fill_bytes:
  assumes "\<not> flagged c FLAGBIT_LINEAR" "\<not> fault 0" "0 \<le> amnt" "amnt \<le> int (length d)"
  shows "write_fill fault res amnt (UBytes d) c = (True, (put_frame (nat res) (take (nat amnt) d) c)
      \<lparr>writeidx := writeidx c\<rparr>)"
  using assms by (simp add: write_fill_def put_frame_def)

lemma put_frame_ok:
  assumes ok: "bufs_ok c" and i: "inwritebuf c \<noteq> -1" and d: "int (length d) \<le> blocksize c"
  shows "bufs_ok (put_frame (nat (inwritebuf c)) d c)"
    and "tx_frames (put_frame (nat (inwritebuf c)) d c) = tx_frames c"
    and "rx_frames (put_frame (nat (inwritebuf c)) d c) = rx_frames c"
    and "take (nat (writen (put_frame (nat (inwritebuf c)) d c) ! nat (inwritebuf c)))
           (writebuf (put_frame (nat (inwritebuf c)) d c) ! nat (inwritebuf c)) = d"
proof -
  have k: "nat (inwritebuf c) < 32" "nat (inwritebuf c) < nat (numbufs c)"
    using ok i by (auto simp: bufs_ok_def ring_ok_def)
  have l: "length (writebuf c ! nat (inwritebuf c)) = nat (blocksize c)" using bufs_ok_slot [OF ok k(2)] by simp
  have "slots_ok (put_frame (nat (inwritebuf c)) d c)"
    using ok d l by (auto simp: bufs_ok_def slots_ok_def put_frame_def nth_upd)
  then show "bufs_ok (put_frame (nat (inwritebuf c)) d c)"
    using ok by (simp add: bufs_ok_def put_frame_def)
  show "tx_frames (put_frame (nat (inwritebuf c)) d c) = tx_frames c"
    by (rule tx_frames_cong [OF ok i]) (auto simp: put_frame_def nth_upd)
  show "rx_frames (put_frame (nat (inwritebuf c)) d c) = rx_frames c"
    by (simp add: rx_frames_def rx_slots_def put_frame_def)
  show "take (nat (writen (put_frame (nat (inwritebuf c)) d c) ! nat (inwritebuf c)))
      (writebuf (put_frame (nat (inwritebuf c)) d c) ! nat (inwritebuf c)) = d"
    using k ok by (simp add: put_frame_def nth_upd bufs_ok_def)
qed

text \<open>A write of bytes appends one frame; a full queue refuses it.\<close>

lemma chan_write_frame:
  assumes ok: "bufs_ok c" and i: "inwritebuf c \<noteq> -1" and ev: "\<not> has_event c" and lin: "\<not> flagged c FLAGBIT_LINEAR"
    and count: "0 < count" "count < 65536" "count \<le> int (length d)" and nf: "\<not> fault 0"
    and amnt: "amnt = min count (blocksize c)"
    and r_def: "r = dahdi_chan_write ppp_fcs span nonblock fault count (UBytes d) c"
  shows "fst r = Done amnt (UBytes d)"
    and "bufs_ok (snd r)" and "rx_frames (snd r) = rx_frames c"
    and "tx_frames (snd r) = tx_frames c @
      [if flagged c FLAGBIT_FCS then with_fcs ppp_fcs (take (nat amnt) d) else take (nat amnt) d]"
proof -
  let ?c = "write_stop_tone c" and ?k = "nat (inwritebuf c)"
  let ?d = "if flagged c FLAGBIT_FCS then with_fcs ppp_fcs (take (nat amnt) d) else take (nat amnt) d"
  have bs: "0 < blocksize c" using ok by (simp add: bufs_ok_def)
  have a: "0 < amnt" "amnt \<le> blocksize c" "amnt \<le> int (length d)" using bs count amnt by auto
  have inw: "0 \<le> inwritebuf c" using ok i by (auto simp: bufs_ok_def ring_ok_def)
  have k: "?k < length (writebuf ?c)" "?k < length (writen ?c)" using ok i by (auto simp: bufs_ok_def ring_ok_def)
  have len: "int (length ?d) \<le> blocksize ?c" using a by auto
  have fl: "cflags (put_frame m x y) = cflags y" for m x y by (simp add: put_frame_def)
  have st: "(put_frame ?k x ?c)\<lparr>writeidx := (writeidx c)[?k := 0]\<rparr> = put_frame ?k x ?c" for x
    by (simp add: put_frame_def)
  have fcs: "(if flagged c FLAGBIT_FCS then calc_fcs ppp_fcs ?k (put_frame ?k (take (nat amnt) d) ?c)
      else put_frame ?k (take (nat amnt) d) ?c) = put_frame ?k ?d ?c"
    using calc_fcs_put_frame [OF k] by simp
  let ?w = "write_advance (inwritebuf c) (put_frame ?k ?d ?c)"
  have cnt: "count mod 65536 = count" using count by simp
  have r: "r = (Done amnt (UBytes d), if flagged c FLAGBIT_NOSTDTXRX \<and> has_hdlc_hard_xmit span
      then emit SpanHdlcHardXmit ?w else ?w)"
    using ev lin inw a amnt count nf fcs
    unfolding r_def dahdi_chan_write_def Let_def cnt
    by (simp add: write_fill_bytes min_def fl st split: if_splits)
  have inp: "inwritebuf (put_frame ?k ?d ?c) = inwritebuf c" by (simp add: put_frame_def)
  note p = put_frame_ok [of ?c ?d, simplified, OF ok i len [simplified]]
  note w = write_advance_bufs_ok [of "put_frame ?k ?d ?c", unfolded inp, OF p(1) i]
  show "fst r = Done amnt (UBytes d)" by (simp add: r)
  show "bufs_ok (snd r)" using w(1) by (simp add: r)
  show "rx_frames (snd r) = rx_frames c" using w(3) p(3) by (simp add: r)
  show "tx_frames (snd r) = tx_frames c @ [?d]" using w(2) p(2,4) by (simp add: r)
qed

text \<open>A read takes the oldest frame.\<close>

lemma chan_read_frame:
  assumes ok: "bufs_ok c" and ev: "\<not> has_event c" and lin: "\<not> flagged c FLAGBIT_LINEAR"
    and en: "\<not> rxdisable c" and count: "0 < count" "count < 65536" and nf: "\<not> fault 0"
    and q: "rx_frames c = f # rest"
    and r_def: "r = dahdi_chan_read nonblock fault count c"
  shows "fst r = Done (min count (int (length f))) (UBytes (take (nat count) f))"
    and "bufs_ok (snd r)" and "rx_frames (snd r) = rest" and "tx_frames (snd r) = tx_frames c"
proof -
  have ro: "ring_ok (numbufs c) (inreadbuf c) (outreadbuf c)" using ok by (simp add: bufs_ok_def)
  have out: "outreadbuf c \<noteq> -1" using q ring_slots_Nil_iff [OF ro] by (auto simp: rx_frames_def rx_slots_def)
  have o0: "0 \<le> outreadbuf c" using ro out by (auto simp: ring_ok_def)
  let ?k = "nat (outreadbuf c)"
  note ra = read_advance_bufs_ok [OF ok out]
  have k: "?k < nat (numbufs c)" using ro o0 by (auto simp: ring_ok_def)
  have f: "f = take (nat (readn c ! ?k)) (readbuf c ! ?k)" and rest: "rest = rx_frames (read_advance (outreadbuf c) c)"
    using ra(2) q by auto
  have lf: "int (length f) = readn c ! ?k" using bufs_ok_slot [OF ok k] by (simp add: f min_def nat_le_eq_zle)
  have cnt: "count mod 65536 = count" using count by simp
  have "r = (Done (min count (readn c ! ?k)) (UBytes (take (nat (min count (readn c ! ?k))) (readbuf c ! ?k))),
      read_advance (outreadbuf c) c)"
    using ev lin en count nf o0 unfolding r_def dahdi_chan_read_def Let_def cnt
    by (simp add: min_def)
  moreover have "take (nat (min count (readn c ! ?k))) (readbuf c ! ?k) = take (nat count) f"
    using count by (simp add: f min_def nat_mono min_absorb1 split: if_splits)
  ultimately show "fst r = Done (min count (int (length f))) (UBytes (take (nat count) f))"
    and "bufs_ok (snd r)" and "rx_frames (snd r) = rest" and "tx_frames (snd r) = tx_frames c"
    using ra lf rest by simp_all
qed

section \<open>Reception keeps the invariant and ends\<close>

text \<open>A slot that is free, or being filled, has room.\<close>

definition rx_room :: "dahdi_chan \<Rightarrow> bool" where
  "rx_room c \<longleftrightarrow> (\<forall>x < nat (numbufs c). x \<notin> set (rx_slots c) \<longrightarrow> readidx c ! x < blocksize c)"

definition rx_slot :: "dahdi_chan \<Rightarrow> nat" where
  "rx_slot c = nat (inreadbuf c)"

definition rx_room1 :: "dahdi_chan \<Rightarrow> bool" where
  "rx_room1 c \<longleftrightarrow> (\<forall>x < nat (numbufs c). x \<notin> set (rx_slots c) \<longrightarrow> x \<noteq> rx_slot c \<longrightarrow> readidx c ! x < blocksize c)"

lemma rx_room_room1: "rx_room c \<Longrightarrow> rx_room1 c"
  by (simp add: rx_room_def rx_room1_def)

text \<open>What a turn of the receiver changes before the frame ends: the slot being filled.\<close>

definition rcv_upd :: "fasthdlc_state \<Rightarrow> u16 \<Rightarrow> byte list \<Rightarrow> int \<Rightarrow> dahdi_chan \<Rightarrow> dahdi_chan" where
  "rcv_upd h f b i c = c\<lparr>rxhdlc := h, infcs := f, readbuf := (readbuf c)[rx_slot c := b],
     readidx := (readidx c)[rx_slot c := i]\<rparr>"

lemma rcv_upd_fields [simp]:
  "numbufs (rcv_upd h f b i c) = numbufs c" "blocksize (rcv_upd h f b i c) = blocksize c"
  "writebuf (rcv_upd h f b i c) = writebuf c" "readn (rcv_upd h f b i c) = readn c"
  "writen (rcv_upd h f b i c) = writen c" "writeidx (rcv_upd h f b i c) = writeidx c"
  "inreadbuf (rcv_upd h f b i c) = inreadbuf c" "outreadbuf (rcv_upd h f b i c) = outreadbuf c"
  "inwritebuf (rcv_upd h f b i c) = inwritebuf c" "outwritebuf (rcv_upd h f b i c) = outwritebuf c"
  "cflags (rcv_upd h f b i c) = cflags c" "evring (rcv_upd h f b i c) = evring c"
  "rxhdlc (rcv_upd h f b i c) = h" "infcs (rcv_upd h f b i c) = f"
  "rx_slot (rcv_upd h f b i c) = rx_slot c" "rx_slots (rcv_upd h f b i c) = rx_slots c"
  "tx_slots (rcv_upd h f b i c) = tx_slots c" "rxdisable (rcv_upd h f b i c) = rxdisable c"
  "readbuf (rcv_upd h f b i c) = (readbuf c)[rx_slot c := b]"
  "readidx (rcv_upd h f b i c) = (readidx c)[rx_slot c := i]"
  "txdisable (rcv_upd h f b i c) = txdisable c"
  by (simp_all add: rcv_upd_def rx_slot_def rx_slots_def tx_slots_def)

lemma rcv_upd_rcv_upd [simp]: "rcv_upd h f b i (rcv_upd h' f' b' i' c) = rcv_upd h f b i c"
  by (simp add: rcv_upd_def rx_slot_def)

lemma rcv_upd_id: "rcv_upd (rxhdlc c) (infcs c) (readbuf c ! rx_slot c) (readidx c ! rx_slot c) c = c"
  by (simp add: rcv_upd_def)

definition filling :: "dahdi_chan \<Rightarrow> bool" where
  "filling c \<longleftrightarrow> bufs_ok c \<and> 0 \<le> inreadbuf c"

lemma filling_slot: "filling c \<Longrightarrow> rx_slot c < nat (numbufs c) \<and> rx_slot c < 32 \<and> rx_slot c \<notin> set (rx_slots c)"
  using ring_push_fresh [of "numbufs c" "inreadbuf c" "outreadbuf c"]
  by (auto simp: filling_def bufs_ok_def ring_ok_def rx_slot_def rx_slots_def)

lemma filling_rcv_upd:
  assumes c: "filling c" and b: "length b = nat (blocksize c)" and i: "0 \<le> i" "i \<le> blocksize c"
  shows "filling (rcv_upd h f b i c)" "rx_frames (rcv_upd h f b i c) = rx_frames c"
    "tx_frames (rcv_upd h f b i c) = tx_frames c"
    "rx_room1 c \<Longrightarrow> i < blocksize c \<Longrightarrow> rx_room (rcv_upd h f b i c)"
    "rx_room1 c \<Longrightarrow> rx_room1 (rcv_upd h f b i c)"
    "readidx (rcv_upd h f b i c) ! rx_slot c = i" "readbuf (rcv_upd h f b i c) ! rx_slot c = b"
proof -
  note k = filling_slot [OF c]
  have l: "length (readidx c) = 32" "length (readbuf c) = 32" using c by (auto simp: filling_def bufs_ok_def)
  have "slots_ok (rcv_upd h f b i c)"
    using c b i by (auto simp: filling_def bufs_ok_def slots_ok_def nth_upd)
  then show "filling (rcv_upd h f b i c)"
    using c by (simp add: filling_def bufs_ok_def)
  show "rx_frames (rcv_upd h f b i c) = rx_frames c"
    using k by (auto simp: rx_frames_def nth_upd intro!: map_cong)
  show "tx_frames (rcv_upd h f b i c) = tx_frames c" by (simp add: tx_frames_def)
  show "rx_room1 c \<Longrightarrow> i < blocksize c \<Longrightarrow> rx_room (rcv_upd h f b i c)"
    using l k by (auto simp: rx_room_def rx_room1_def nth_upd)
  show "rx_room1 c \<Longrightarrow> rx_room1 (rcv_upd h f b i c)"
    by (auto simp: rx_room1_def nth_upd)
  show "readidx (rcv_upd h f b i c) ! rx_slot c = i" "readbuf (rcv_upd h f b i c) ! rx_slot c = b"
    using k l by auto
qed

text \<open>One byte of an HDLC channel, by the four kinds of result.\<close>

lemma putbuf_hdlc_step:
  fixes ms :: dahdi_chan
  assumes "fasthdlc_rx_run (fasthdlc_rx_load_nocheck b (rxhdlc ms)) = (res, h)"
    and k: "k = rx_slot ms" and len: "k < length (readidx ms)" "k < length (readbuf ms)"
  shows "putbuf_hdlc f (b # rxb) used ms =
    (let m = rcv_upd h (infcs ms) (readbuf ms ! k) (readidx ms ! k) ms;
         c = f (infcs ms) (ucast res);
         buf = (readbuf ms ! k)[nat (readidx ms ! k) := ucast res] in
     case rx_event res of
       RNone \<Rightarrow> putbuf_hdlc f rxb (used + 1) m
     | RFlag \<Rightarrow> (if readidx ms ! k \<noteq> 0 then
           (if flagged ms FLAGBIT_FCS \<and> infcs ms \<noteq> PPP_GOODFCS then (m, False, EVENT_BADFCS, used + 1)
            else (m, True, 0, used + 1))
         else putbuf_hdlc f rxb (used + 1) m)
     | RAbort \<Rightarrow> (if readidx ms ! k = 0 then putbuf_hdlc f rxb (used + 1) m else (m, False, EVENT_ABORT, used + 1))
     | RByte _ \<Rightarrow>
         (if readidx ms ! k + 1 \<ge> blocksize ms then
            (rcv_upd (h\<lparr>hstate := 0, hbits := 0\<rparr>) c buf 0 ms, False, EVENT_OVERRUN, used + 1)
          else putbuf_hdlc f rxb (used + 1) (rcv_upd h c buf (readidx ms ! k + 1) ms)))"
proof -
  define m0 where "m0 = ms\<lparr>rxhdlc := h\<rparr>"
  have m: "rcv_upd h (infcs ms) (readbuf ms ! k) (readidx ms ! k) ms = m0"
    by (simp add: rcv_upd_def k m0_def)
  have b: "m0\<lparr>infcs := c, readbuf := (readbuf ms)[k := b'], readidx := (readidx ms)[k := i]\<rparr> = rcv_upd h c b' i ms"
    "(rcv_upd h'' c b' j ms)\<lparr>rxhdlc := h', readidx := (readidx ms)[k := i]\<rparr> = rcv_upd h' c b' i ms"
    for h' h'' c b' i j
    by (simp_all add: rcv_upd_def k m0_def)
  have f: "nat (inreadbuf m0) = k" "readidx m0 = readidx ms" "cflags m0 = cflags ms" "infcs m0 = infcs ms"
    "readbuf m0 = readbuf ms" "blocksize m0 = blocksize ms" "rxhdlc m0 = h"
    "nat (inreadbuf ms) = k"
    by (simp_all add: m0_def k rx_slot_def)
  show ?thesis
    unfolding putbuf_hdlc.simps(2) assms(1) Let_def prod.case rx_event_def m m0_def [symmetric]
    using len by (simp add: f b k [symmetric])
qed

lemma putbuf_hdlc_inv:
  assumes "filling ms" "readidx ms ! rx_slot ms < blocksize ms"
    and "putbuf_hdlc f rxb used ms = (ms', eof, ab, used')"
  shows "\<exists>h c b i. ms' = rcv_upd h c b i ms \<and> length b = nat (blocksize ms) \<and> 0 \<le> i \<and> i < blocksize ms
     \<and> used \<le> used' \<and> used' \<le> used + length rxb \<and> (rxb \<noteq> [] \<longrightarrow> used < used') \<and> (eof \<longrightarrow> 0 < i \<and> ab = 0)"
  using assms
proof (induction rxb arbitrary: used ms)
  case Nil
  have "length (readbuf ms ! rx_slot ms) = nat (blocksize ms)" "0 \<le> readidx ms ! rx_slot ms"
    using bufs_ok_slot [of ms "rx_slot ms"] filling_slot [OF Nil(1)] Nil(1) by (auto simp: filling_def)
  then show ?case
    using Nil rcv_upd_id [of ms]
    by (intro exI [of _ "rxhdlc ms"] exI [of _ "infcs ms"] exI [of _ "readbuf ms ! rx_slot ms"]
        exI [of _ "readidx ms ! rx_slot ms"]) auto
next
  case (Cons b rxb)
  let ?k = "rx_slot ms" and ?B = "blocksize ms"
  note k = filling_slot [OF Cons.prems(1)]
  have len: "?k < length (readidx ms)" "?k < length (readbuf ms)"
    using k Cons.prems(1) by (auto simp: filling_def bufs_ok_def)
  have sl: "length (readbuf ms ! ?k) = nat ?B" "0 \<le> readidx ms ! ?k"
    using bufs_ok_slot [of ms ?k] k Cons.prems(1) by (auto simp: filling_def)
  have lt: "readidx ms ! ?k < ?B" using Cons.prems(2) .
  obtain res h where r: "fasthdlc_rx_run (fasthdlc_rx_load_nocheck b (rxhdlc ms)) = (res, h)"
    by (cases "fasthdlc_rx_run (fasthdlc_rx_load_nocheck b (rxhdlc ms))")
  have go: ?case if e: "putbuf_hdlc f (b # rxb) used ms = putbuf_hdlc f rxb (used + 1) (rcv_upd h' c' b' i' ms)"
    and u: "length b' = nat ?B" "0 \<le> i'" "i' < ?B" for h' c' b' i'
  proof -
    have f: "filling (rcv_upd h' c' b' i' ms)"
      "readidx (rcv_upd h' c' b' i' ms) ! rx_slot ms = i'"
      using filling_rcv_upd [OF Cons.prems(1) u(1,2)] u(3) by auto
    have "\<exists>h c b i. ms' = rcv_upd h c b i (rcv_upd h' c' b' i' ms) \<and> length b = nat ?B \<and> 0 \<le> i \<and> i < ?B
       \<and> used + 1 \<le> used' \<and> used' \<le> used + 1 + length rxb \<and> (rxb \<noteq> [] \<longrightarrow> used + 1 < used') \<and> (eof \<longrightarrow> 0 < i \<and> ab = 0)"
      using Cons.IH [of "rcv_upd h' c' b' i' ms" "used + 1"] f u Cons.prems(3) e by simp
    then obtain h c b i where x: "ms' = rcv_upd h c b i ms" "length b = nat ?B" "0 \<le> i" "i < ?B"
      "used + 1 \<le> used'" "used' \<le> used + 1 + length rxb" "eof \<longrightarrow> 0 < i \<and> ab = 0"
      by auto
    show ?thesis by (rule exI [of _ h], rule exI [of _ c], rule exI [of _ b], rule exI [of _ i]) (use x in auto)
  qed
  have fin: ?case if e: "putbuf_hdlc f (b # rxb) used ms = (rcv_upd h' c' b' i' ms, e', a', used + 1)"
    and u: "length b' = nat ?B" "0 \<le> i'" "i' < ?B" "e' \<longrightarrow> 0 < i' \<and> a' = 0" for h' c' b' i' e' a'
    by (rule exI [of _ h'], rule exI [of _ c'], rule exI [of _ b'], rule exI [of _ i'])
      (use e u Cons.prems(3) in auto)
  note st = putbuf_hdlc_step [OF r refl len, of f rxb used, unfolded Let_def]
  show ?case
  proof (cases "rx_event res")
    case RNone
    then show ?thesis using go [of h "infcs ms" "readbuf ms ! ?k" "readidx ms ! ?k"] st sl lt by simp
  next
    case RFlag
    then show ?thesis
      using go [of h "infcs ms" "readbuf ms ! ?k" "readidx ms ! ?k"]
        fin [of h "infcs ms" "readbuf ms ! ?k" "readidx ms ! ?k"] st sl lt
      by (auto split: if_splits)
  next
    case RAbort
    then show ?thesis
      using go [of h "infcs ms" "readbuf ms ! ?k" "readidx ms ! ?k"]
        fin [of h "infcs ms" "readbuf ms ! ?k" "readidx ms ! ?k" False EVENT_ABORT] st sl lt
      by (auto split: if_splits)
  next
    case (RByte x)
    then show ?thesis
      using go [of h _ "(readbuf ms ! ?k)[nat (readidx ms ! ?k) := ucast res]" "readidx ms ! ?k + 1"]
        fin [of _ _ "(readbuf ms ! ?k)[nat (readidx ms ! ?k) := ucast res]" 0 False EVENT_OVERRUN] st sl lt
      by (auto split: if_splits)
  qed
qed

lemma wake_frames [simp]:
  "tx_frames (wake e c) = tx_frames c" "rx_frames (wake e c) = rx_frames c" "bufs_ok (wake e c) = bufs_ok c"
  "rx_room (wake e c) = rx_room c" "rxdisable (wake e c) = rxdisable c" "iomask (wake e c) = iomask c"
  "inreadbuf (wake e c) = inreadbuf c" "cflags (wake e c) = cflags c" "numbufs (wake e c) = numbufs c"
  by (simp_all add: wake_def tx_frames_def rx_frames_def tx_slots_def rx_slots_def bufs_ok_def slots_ok_def rx_room_def)

lemma qevent_frames [simp]:
  "tx_frames (qevent e c) = tx_frames c" "rx_frames (qevent e c) = rx_frames c" "bufs_ok (qevent e c) = bufs_ok c"
  "rx_room (qevent e c) = rx_room c" "inreadbuf (qevent e c) = inreadbuf c" "cflags (qevent e c) = cflags c"
  "rxdisable (qevent e c) = rxdisable c" "numbufs (qevent e c) = numbufs c"
proof -
  obtain ws where "qevent e c = c\<lparr>evring := qevent_q e (evring c), eff := eff c @ ws\<rparr>"
    using qevent_cases by blast
  then show "tx_frames (qevent e c) = tx_frames c" "rx_frames (qevent e c) = rx_frames c"
    "bufs_ok (qevent e c) = bufs_ok c" "rx_room (qevent e c) = rx_room c" "inreadbuf (qevent e c) = inreadbuf c"
    "cflags (qevent e c) = cflags c" "rxdisable (qevent e c) = rxdisable c" "numbufs (qevent e c) = numbufs c"
    by (simp_all add: tx_frames_def rx_frames_def tx_slots_def rx_slots_def bufs_ok_def slots_ok_def rx_room_def)
qed

text \<open>The end of a frame, in terms of the ring.\<close>

definition frame_done :: "dahdi_chan \<Rightarrow> dahdi_chan" where
  "frame_done c = c\<lparr>infcs := PPP_INITFCS, readn := (readn c)[rx_slot c := readidx c ! rx_slot c]\<rparr>"

lemma ring_room:
  assumes "ring_ok n i out" "i \<noteq> -1" "ring_push n i out = (i', out')" "i' \<noteq> -1"
  shows "nat i' \<notin> set (ring_slots n i out)" "nat i' < nat n"
proof -
  have ok': "ring_ok n i' out'" using ring_push_ok [OF assms(1,2)] assms(3) by simp
  show "nat i' \<notin> set (ring_slots n i out)"
    using ring_push_fresh [OF ok' assms(4)] ring_push_slots [OF assms(1-3)] by auto
  show "nat i' < nat n" using ok' by (auto simp: ring_ok_def)
qed

lemma frame_done_inv:
  assumes c: "filling c" and room: "rx_room1 c"
    and r: "ring_push (numbufs c) (inreadbuf c) (outreadbuf c) = (i', o')"
    and c': "c' = (frame_done c)\<lparr>inreadbuf := i', outreadbuf := o', rxdisable := d\<rparr>"
  shows "bufs_ok c'" "rx_room c'" "tx_frames c' = tx_frames c"
    "rx_frames c' = rx_frames c @ [take (nat (readidx c ! rx_slot c)) (readbuf c ! rx_slot c)]"
proof -
  note k = filling_slot [OF c]
  have ok: "bufs_ok c" and i: "inreadbuf c \<noteq> -1" "0 \<le> inreadbuf c" using c by (auto simp: filling_def)
  have ro: "ring_ok (numbufs c) (inreadbuf c) (outreadbuf c)" using ok by (simp add: bufs_ok_def)
  have ok': "ring_ok (numbufs c) i' o'" using ring_push_ok [OF ro i(1)] r by simp
  have "slots_ok c'"
    using ok bufs_ok_slot [OF ok, of "rx_slot c"] k
    by (auto simp: bufs_ok_def slots_ok_def c' frame_done_def nth_upd)
  then show "bufs_ok c'" using ok ok' by (simp add: bufs_ok_def c' frame_done_def)
  show "tx_frames c' = tx_frames c" by (simp add: c' frame_done_def tx_frames_def tx_slots_def)
  have s: "rx_slots c' = rx_slots c @ [rx_slot c]"
    using ring_push_slots [OF ro i(1) r] by (simp add: rx_slots_def rx_slot_def c' frame_done_def)
  have "(readn c)[rx_slot c := readidx c ! rx_slot c] ! rx_slot c = readidx c ! rx_slot c"
    using k ok by (simp add: bufs_ok_def)
  then show "rx_frames c' = rx_frames c @ [take (nat (readidx c ! rx_slot c)) (readbuf c ! rx_slot c)]"
    using k unfolding rx_frames_def s by (auto simp: c' frame_done_def nth_upd)
  show "rx_room c'"
    using room s by (auto simp: rx_room_def rx_room1_def c' frame_done_def)
qed

lemma putbuf_eof_inv:
  assumes c: "filling c" "rx_room1 c"
  shows "bufs_ok (putbuf_eof c) \<and> rx_room (putbuf_eof c) \<and> tx_frames (putbuf_eof c) = tx_frames c \<and>
    (rx_frames (putbuf_eof c) = rx_frames c \<and> flagged c FLAGBIT_MTP2 \<or>
     rx_frames (putbuf_eof c) = rx_frames c @ [take (nat (readidx c ! rx_slot c)) (readbuf c ! rx_slot c)])"
proof -
  let ?k = "rx_slot c"
  note k = filling_slot [OF c(1)]
  have ok: "bufs_ok c" and i: "inreadbuf c \<noteq> -1" "0 \<le> inreadbuf c" using c by (auto simp: filling_def)
  have ro: "ring_ok (numbufs c) (inreadbuf c) (outreadbuf c)" using ok by (simp add: bufs_ok_def)
  obtain i' o' where r: "ring_push (numbufs c) (inreadbuf c) (outreadbuf c) = (i', o')"
    by (cases "ring_push (numbufs c) (inreadbuf c) (outreadbuf c)")
  define d where "d = (if i' = -1 then False else rxdisable c)"
  define c' where "c' = (frame_done c)\<lparr>inreadbuf := i', outreadbuf := o', rxdisable := d\<rparr>"
  define c0 where "c0 = c\<lparr>infcs := PPP_INITFCS, readn := (readn c)[?k := 0], readidx := (readidx c)[?k := 0]\<rparr>"
  have len: "?k < length (readidx c)" "?k < length (readn c)" using k ok by (auto simp: bufs_ok_def)
  have "bufs_ok c0"
    using ok by (auto simp: bufs_ok_def slots_ok_def c0_def nth_upd)
  moreover have "rx_frames c0 = rx_frames c" "tx_frames c0 = tx_frames c"
    using k by (auto simp: c0_def rx_frames_def rx_slots_def tx_frames_def tx_slots_def nth_upd)
  moreover have "rx_room c0" using c ok k by (auto simp: rx_room_def rx_room1_def c0_def rx_slots_def nth_upd bufs_ok_def)
  moreover have "putbuf_eof c = c0 \<and> flagged c FLAGBIT_MTP2 \<or> putbuf_eof c = putbuf_notify (putbuf_next (frame_done c))"
    using len by (auto simp: putbuf_eof_def Let_def c0_def frame_done_def rx_slot_def)
  moreover have "putbuf_next (frame_done c) = (if outreadbuf c < 0 \<and> \<not> d then wake Sel c' else c')"
  proof -
    have i': "i' = (if (inreadbuf c + 1) mod numbufs c = outreadbuf c then -1 else (inreadbuf c + 1) mod numbufs c)"
      and o': "o' = (if outreadbuf c < 0 then inreadbuf c else outreadbuf c)"
      using r by (auto simp: ring_push_def Let_def)
    have "0 < numbufs c" using ro by (simp add: ring_ok_def)
    then have "0 \<le> (inreadbuf c + 1) mod numbufs c" by (rule pos_mod_sign)
    then have pos: "(inreadbuf c + 1) mod numbufs c \<noteq> -1" by linarith
    show ?thesis
      using pos unfolding putbuf_next_def Let_def c'_def frame_done_def d_def i' o'
      by (cases "(inreadbuf c + 1) mod numbufs c = outreadbuf c"; cases "outreadbuf c < 0"; cases "rxdisable c"; simp add: wake_def)
  qed
  moreover have "bufs_ok (putbuf_notify m) = bufs_ok m" "rx_room (putbuf_notify m) = rx_room m"
    "tx_frames (putbuf_notify m) = tx_frames m" "rx_frames (putbuf_notify m) = rx_frames m" for m
    by (simp_all add: putbuf_notify_def Let_def)
  ultimately show ?thesis
    using frame_done_inv [OF c r c'_def] by (cases "outreadbuf c < 0 \<and> \<not> d") auto
qed

lemma putbuf_abort_inv:
  assumes "filling c" "rx_room1 c"
  shows "filling (putbuf_abort sp e c) \<and> rx_room (putbuf_abort sp e c) \<and>
    tx_frames (putbuf_abort sp e c) = tx_frames c \<and> rx_frames (putbuf_abort sp e c) = rx_frames c"
proof -
  have k: "rx_slot c < nat (numbufs c)" "rx_slot c < 32" "rx_slot c \<notin> set (rx_slots c)"
    using filling_slot [OF assms(1)] by auto
  have l: "length (readbuf c ! rx_slot c) = nat (blocksize c)"
    using bufs_ok_slot [of c "rx_slot c"] assms k by (auto simp: filling_def)
  have bs: "0 < blocksize c" using assms by (simp add: filling_def bufs_ok_def)
  have e: "c\<lparr>readidx := (readidx c)[nat (inreadbuf c) := 0], infcs := PPP_INITFCS\<rparr>
      = rcv_upd (rxhdlc c) PPP_INITFCS (readbuf c ! rx_slot c) 0 c"
    by (simp add: rcv_upd_def rx_slot_def)
  show ?thesis
    using filling_rcv_upd [OF assms(1) l, of 0 "rxhdlc c" PPP_INITFCS] bs assms(2)
    unfolding putbuf_abort_def Let_def e by (simp add: filling_def)
qed

lemma length_blit: "pos + length src \<le> length dst \<Longrightarrow> length (blit dst pos src) = length dst"
  by (simp add: blit_def)

text \<open>A turn consumes a byte, keeps the invariant and the frames queued; it may add one.\<close>

lemma putbuf_turn_inv:
  assumes c: "filling c" "rx_room c" and ne: "rxb \<noteq> []"
    and t: "putbuf_turn f sp nostd rxb c = (used, c')"
  shows "0 < used \<and> bufs_ok c' \<and> rx_room c' \<and> tx_frames c' = tx_frames c \<and>
    (\<exists>new. rx_frames c' = rx_frames c @ new \<and> length new \<le> 1)"
proof -
  let ?k = "rx_slot c"
  note k = filling_slot [OF c(1)]
  have ok: "bufs_ok c" and in0: "0 \<le> inreadbuf c" using c by (auto simp: filling_def)
  have lt: "readidx c ! ?k < blocksize c" using c(2) k by (auto simp: rx_room_def)
  have sl: "length (readbuf c ! ?k) = nat (blocksize c)" "0 \<le> readidx c ! ?k"
    using bufs_ok_slot [OF ok, of ?k] k by auto
  define left where "left = (if blocksize c - readidx c ! ?k > int (length rxb) then int (length rxb)
      else blocksize c - readidx c ! ?k)"
  have left: "0 < left" "left \<le> int (length rxb)" "left \<le> blocksize c - readidx c ! ?k"
    using lt ne by (auto simp: left_def)
  have k': "nat (inreadbuf c) = ?k" by (simp add: rx_slot_def)
  have after: "0 < used \<and> bufs_ok c' \<and> rx_room c' \<and> tx_frames c' = tx_frames c \<and>
      (\<exists>new. rx_frames c' = rx_frames c @ new \<and> length new \<le> 1)"
    if m: "filling m" "rx_room1 m" "rx_frames m = rx_frames c" "tx_frames m = tx_frames c"
      and room: "eof \<or> ab \<noteq> 0 \<or> rx_room m" and ea: "eof \<longrightarrow> ab = 0" and u: "0 < used"
      and c': "c' = (let m1 = if eof then putbuf_eof m else m in if ab \<noteq> 0 then putbuf_abort sp ab m1 else m1)"
    for m eof and ab :: int
  proof (cases eof)
    case True
    then show ?thesis using putbuf_eof_inv [OF m(1,2)] m ea u c' by auto
  next
    case False
    then show ?thesis
      using putbuf_abort_inv [OF m(1,2), of sp ab] room m u c' by (cases "ab = 0") (auto simp: filling_def)
  qed
  show ?thesis
  proof (cases "flagged c FLAGBIT_HDLC")
    case True
    obtain m eof ab u where p: "putbuf_hdlc f (take (nat left) rxb) 0 c = (m, eof, ab, u)" by (metis prod_cases4)
    obtain h x b i where m: "m = rcv_upd h x b i c" "length b = nat (blocksize c)" "0 \<le> i" "i < blocksize c"
      "take (nat left) rxb \<noteq> [] \<longrightarrow> 0 < u" "eof \<longrightarrow> 0 < i \<and> ab = 0"
      using putbuf_hdlc_inv [OF c(1) lt p] by blast
    have used: "used = u" and c': "c' = (let m1 = if eof then putbuf_eof m else m in if ab \<noteq> 0 then putbuf_abort sp ab m1 else m1)"
      using t True p unfolding putbuf_turn_def Let_def k' left_def [symmetric] by auto
    note u = filling_rcv_upd [OF c(1) m(2,3), of h x]
    have "take (nat left) rxb \<noteq> []" using left ne by simp
    then show ?thesis
      using m u rx_room_room1 [OF c(2)] left ne used
      by (intro after [of m eof ab]) (auto simp: c')
  next
    case False
    define b where "b = blit (readbuf c ! ?k) (nat (readidx c ! ?k)) (take (nat left) rxb)"
    define i where "i = readidx c ! ?k + left"
    define m where "m = rcv_upd (rxhdlc c) (infcs c) b i c"
    have lb: "length b = nat (blocksize c)"
      unfolding b_def using sl left lt by (subst length_blit) auto
    have me: "c\<lparr>readbuf := (readbuf c)[?k := b], readidx := (readidx c)[?k := i]\<rparr> = m"
      by (simp add: m_def rcv_upd_def)
    have i: "0 \<le> i" "i \<le> blocksize c" using sl left by (auto simp: i_def)
    note u = filling_rcv_upd [OF c(1) lb i, of "rxhdlc c" "infcs c", folded m_def]
    have mi: "readidx m ! ?k = i" "blocksize m = blocksize c" using u by (auto simp: m_def)
    let ?eof = "i \<ge> blocksize c \<and> \<not> nostd" and ?ab = "if i \<ge> blocksize c \<and> nostd then EVENT_OVERRUN else 0 :: int"
    have used: "used = nat left"
      and c': "c' = (let m1 = if ?eof then putbuf_eof m else m in if ?ab \<noteq> 0 then putbuf_abort sp ?ab m1 else m1)"
      using t False unfolding putbuf_turn_def Let_def k' left_def [symmetric] b_def [symmetric] i_def [symmetric] me
      by (auto simp: mi)
    have room: "?eof \<or> ?ab \<noteq> 0 \<or> rx_room m"
    proof (cases "i < blocksize c")
      case True
      then have "rx_room m" using u(4) [OF rx_room_room1 [OF c(2)]] by simp
      then show ?thesis by blast
    qed auto
    show ?thesis
      by (rule after [OF u(1) u(5) [OF rx_room_room1 [OF c(2)]] u(2,3) room _ _ c'])
        (use left in \<open>auto simp: used\<close>)
  qed
qed

lemma putbuf_loop_inv:
  assumes "bufs_ok c" "rx_room c" "length rxb \<le> fuel"
  shows "\<exists>c'. putbuf_loop fuel f sp nostd rxb c = Some c' \<and> bufs_ok c' \<and> rx_room c' \<and>
    tx_frames c' = tx_frames c \<and> (\<exists>new. rx_frames c' = rx_frames c @ new)"
  using assms
proof (induction fuel f sp nostd rxb c rule: putbuf_loop.induct)
  case (3 fuel f sp nostd b rxb ms)
  show ?case
  proof (cases "inreadbuf ms > -1")
    case True
    obtain used c1 where t: "putbuf_turn f sp nostd (b # rxb) ms = (used, c1)"
      by (cases "putbuf_turn f sp nostd (b # rxb) ms")
    have fl: "filling ms" using 3 True by (simp add: filling_def)
    note i = putbuf_turn_inv [OF fl 3(3) _ t, simplified]
    have "0 < used" using i by blast
    then have "length (drop used (b # rxb)) \<le> fuel" using 3(4) by (simp; linarith)
    then have "\<exists>c'. putbuf_loop fuel f sp nostd (drop used (b # rxb)) c1 = Some c' \<and> bufs_ok c' \<and> rx_room c' \<and>
        tx_frames c' = tx_frames c1 \<and> (\<exists>new. rx_frames c' = rx_frames c1 @ new)"
      using i by (intro 3(1) [OF True t [symmetric] refl]) auto
    then show ?thesis using True t i by auto
  next
    case False
    with 3 show ?thesis by auto
  qed
qed auto

section \<open>A card's received frames as a FIFO\<close>

definition rx_clean :: "dahdi_chan \<Rightarrow> bool" where
  "rx_clean c \<longleftrightarrow> (\<forall>x < nat (numbufs c). x \<notin> set (rx_slots c) \<longrightarrow> readidx c ! x = 0)"

definition rxq_inv :: "int \<Rightarrow> dahdi_chan \<Rightarrow> bool" where
  "rxq_inv B c \<longleftrightarrow> bufs_ok c \<and> blocksize c = B \<and> rx_clean c \<and> \<not> has_event c \<and> \<not> flagged c FLAGBIT_LINEAR
     \<and> \<not> rxdisable c \<and> rxbufpolicy c \<noteq> POLICY_WHEN_FULL"

text \<open>A card receives a whole frame: \<open>dahdi_hdlc_putbuf\<close>, then \<open>dahdi_hdlc_finish\<close>.\<close>

definition rxq_enq :: "dahdi_span \<Rightarrow> byte list \<Rightarrow> dahdi_chan \<Rightarrow> dahdi_chan" where
  "rxq_enq sp d c = dahdi_hdlc_finish (fst (dahdi_hdlc_putbuf sp d c))"

definition rxq_deq :: "dahdi_chan \<Rightarrow> byte list option \<times> dahdi_chan" where
  "rxq_deq c = (case dahdi_chan_read True (\<lambda>k. False) 65535 c of
      (Done n (UBytes d), c') \<Rightarrow> (Some d, c') | (_, c') \<Rightarrow> (None, c'))"

lemma finish_fields [simp]:
  "blocksize (dahdi_hdlc_finish c) = blocksize c" "numbufs (dahdi_hdlc_finish c) = numbufs c"
  "cflags (dahdi_hdlc_finish c) = cflags c" "evring (dahdi_hdlc_finish c) = evring c"
  "rxbufpolicy (dahdi_hdlc_finish c) = rxbufpolicy c" "readbuf (dahdi_hdlc_finish c) = readbuf c"
  "readidx (dahdi_hdlc_finish c) = readidx c" "writebuf (dahdi_hdlc_finish c) = writebuf c"
  "writen (dahdi_hdlc_finish c) = writen c" "writeidx (dahdi_hdlc_finish c) = writeidx c"
  "inwritebuf (dahdi_hdlc_finish c) = inwritebuf c" "outwritebuf (dahdi_hdlc_finish c) = outwritebuf c"
  "\<not> rxdisable c \<Longrightarrow> \<not> rxdisable (dahdi_hdlc_finish c)"
  by (simp_all add: dahdi_hdlc_finish_def Let_def wake_def)

lemma finish_ring:
  assumes "0 \<le> inreadbuf c" "readidx c ! rx_slot c \<noteq> 0"
    and "ring_push (numbufs c) (inreadbuf c) (outreadbuf c) = (i', o')"
  shows "inreadbuf (dahdi_hdlc_finish c) = i'" "outreadbuf (dahdi_hdlc_finish c) = o'"
    "readn (dahdi_hdlc_finish c) = (readn c)[rx_slot c := readidx c ! rx_slot c]"
  using assms by (auto simp: dahdi_hdlc_finish_def Let_def wake_def ring_push_def rx_slot_def)

lemma finish_frame:
  assumes c: "filling c" and n: "readidx c ! rx_slot c \<noteq> 0"
  shows "bufs_ok (dahdi_hdlc_finish c)" "tx_frames (dahdi_hdlc_finish c) = tx_frames c"
    "rx_slots (dahdi_hdlc_finish c) = rx_slots c @ [rx_slot c]"
    "rx_frames (dahdi_hdlc_finish c) = rx_frames c @ [take (nat (readidx c ! rx_slot c)) (readbuf c ! rx_slot c)]"
proof -
  let ?c = "dahdi_hdlc_finish c"
  note k = filling_slot [OF c]
  have ok: "bufs_ok c" and i: "inreadbuf c \<noteq> -1" "0 \<le> inreadbuf c" using c by (auto simp: filling_def)
  have ro: "ring_ok (numbufs c) (inreadbuf c) (outreadbuf c)" using ok by (simp add: bufs_ok_def)
  obtain i' o' where r: "ring_push (numbufs c) (inreadbuf c) (outreadbuf c) = (i', o')"
    by (cases "ring_push (numbufs c) (inreadbuf c) (outreadbuf c)")
  note f = finish_ring [OF i(2) n r]
  have ok': "ring_ok (numbufs c) i' o'" using ring_push_ok [OF ro i(1)] r by simp
  have "slots_ok ?c"
    using ok bufs_ok_slot [OF ok, of "rx_slot c"] k
    by (auto simp: bufs_ok_def slots_ok_def f nth_upd)
  then show "bufs_ok ?c" using ok ok' by (simp add: bufs_ok_def f)
  show "tx_frames ?c = tx_frames c" by (simp add: tx_frames_def tx_slots_def)
  show s: "rx_slots ?c = rx_slots c @ [rx_slot c]"
    using ring_push_slots [OF ro i(1) r] by (simp add: rx_slots_def rx_slot_def f)
  have "(readn c)[rx_slot c := readidx c ! rx_slot c] ! rx_slot c = readidx c ! rx_slot c"
    using k ok by (simp add: bufs_ok_def)
  then show "rx_frames ?c = rx_frames c @ [take (nat (readidx c ! rx_slot c)) (readbuf c ! rx_slot c)]"
    using k unfolding rx_frames_def s by (auto simp: f nth_upd)
qed

lemma card_frame:
  assumes c: "filling c" "readidx c ! rx_slot c = 0" and d: "d \<noteq> []" "int (length d) \<le> blocksize c"
  shows "bufs_ok (rxq_enq sp d c)" "rx_frames (rxq_enq sp d c) = rx_frames c @ [d]"
    "tx_frames (rxq_enq sp d c) = tx_frames c"
    "rx_slots (rxq_enq sp d c) = rx_slots c @ [rx_slot c]"
    "readidx (rxq_enq sp d c) = (readidx c)[rx_slot c := int (length d)]"
    "cflags (rxq_enq sp d c) = cflags c" "evring (rxq_enq sp d c) = evring c"
    "blocksize (rxq_enq sp d c) = blocksize c" "numbufs (rxq_enq sp d c) = numbufs c"
    "rxbufpolicy (rxq_enq sp d c) = rxbufpolicy c"
    "\<not> rxdisable c \<Longrightarrow> \<not> rxdisable (rxq_enq sp d c)"
proof -
  let ?k = "rx_slot c" and ?b = "blit (readbuf c ! rx_slot c) 0 d"
  note k = filling_slot [OF c(1)]
  have ok: "bufs_ok c" using c by (simp add: filling_def)
  have l: "length ?b = nat (blocksize c)"
    using bufs_ok_slot [OF ok, of ?k] k d by (simp add: length_blit)
  have p: "fst (dahdi_hdlc_putbuf sp d c) = rcv_upd (rxhdlc c) (infcs c) ?b (int (length d)) c"
  proof -
    have z: "readidx c ! nat (inreadbuf c) = 0" "\<not> inreadbuf c < 0" "0 < int (length d)"
      using c d by (auto simp: filling_def rx_slot_def)
    have e: "rcv_upd (rxhdlc c) (infcs c) ?b (int (length d)) c
        = c\<lparr>readbuf := (readbuf c)[?k := ?b], readidx := (readidx c)[?k := int (length d)]\<rparr>"
      by (simp add: rcv_upd_def)
    have m: "(if blocksize c - 0 > int (length d) then int (length d) else blocksize c - 0) = int (length d)"
      using d by simp
    show ?thesis
      unfolding dahdi_hdlc_putbuf_def Let_def z m using z(2,3) by (simp add: e [unfolded rx_slot_def] rx_slot_def)
  qed
  have i0: "0 \<le> int (length d)" by simp
  note u = filling_rcv_upd [OF c(1) l i0 d(2), of "rxhdlc c" "infcs c"]
  have t: "take (length d) ?b = d" by (simp add: blit_def)
  have ne: "readidx (rcv_upd (rxhdlc c) (infcs c) ?b (int (length d)) c) !
      rx_slot (rcv_upd (rxhdlc c) (infcs c) ?b (int (length d)) c) \<noteq> 0"
    using u d by simp
  note f = finish_frame [OF u(1) ne]
  show "bufs_ok (rxq_enq sp d c)" "rx_frames (rxq_enq sp d c) = rx_frames c @ [d]"
    "tx_frames (rxq_enq sp d c) = tx_frames c"
    "rx_slots (rxq_enq sp d c) = rx_slots c @ [rx_slot c]"
    using f u t by (auto simp: rxq_enq_def p simp del: rcv_upd_fields(18))
  show "readidx (rxq_enq sp d c) = (readidx c)[rx_slot c := int (length d)]"
    "cflags (rxq_enq sp d c) = cflags c" "evring (rxq_enq sp d c) = evring c"
    "blocksize (rxq_enq sp d c) = blocksize c" "numbufs (rxq_enq sp d c) = numbufs c"
    "rxbufpolicy (rxq_enq sp d c) = rxbufpolicy c"
    "\<not> rxdisable c \<Longrightarrow> \<not> rxdisable (rxq_enq sp d c)"
    by (simp_all add: rxq_enq_def p) (simp_all add: rcv_upd_def)
qed

lemma rxq_enq_full: "inreadbuf c < 0 \<Longrightarrow> rxq_enq sp d c = c"
  by (simp add: rxq_enq_def dahdi_hdlc_putbuf_def dahdi_hdlc_finish_def Let_def)

lemma rx_full: "bufs_ok c \<Longrightarrow> length (rx_frames c) < nat (numbufs c) \<longleftrightarrow> 0 \<le> inreadbuf c"
  using ring_count_full [of "numbufs c" "inreadbuf c" "outreadbuf c"]
    ring_count_le [of "numbufs c" "inreadbuf c" "outreadbuf c"]
  by (auto simp: rx_frames_def rx_slots_def bufs_ok_def ring_ok_def)

lemma read_advance_rx_clean:
  assumes "bufs_ok c" "rx_clean c" "outreadbuf c \<noteq> -1"
  shows "rx_clean (read_advance (outreadbuf c) c)"
proof -
  obtain i' o' where p: "ring_pull (numbufs c) (inreadbuf c) (outreadbuf c) = (i', o')"
    by (cases "ring_pull (numbufs c) (inreadbuf c) (outreadbuf c)")
  have r: "ring_ok (numbufs c) (inreadbuf c) (outreadbuf c)" using assms by (simp add: bufs_ok_def)
  note f = read_advance_ring [OF r assms(3) refl, unfolded p, simplified]
  have "rx_slots c = nat (outreadbuf c) # rx_slots (read_advance (outreadbuf c) c)"
    using ring_pull_slots [OF r assms(3) p] f by (simp add: rx_slots_def)
  then show ?thesis using assms by (auto simp: rx_clean_def nth_upd bufs_ok_def)
qed

lemma rxq_deq_empty: "rxq_inv B c \<Longrightarrow> rx_frames c = [] \<Longrightarrow> rxq_deq c = (None, c)"
  using ring_slots_Nil_iff [of "numbufs c" "inreadbuf c" "outreadbuf c"]
  by (auto simp: rxq_inv_def rxq_deq_def dahdi_chan_read_def rx_frames_def rx_slots_def bufs_ok_def)

lemma rxq_deq_cons:
  assumes c: "rxq_inv B c" "B \<le> 65535" and q: "rx_frames c = f # rest"
  shows "fst (rxq_deq c) = Some f" "rx_frames (snd (rxq_deq c)) = rest" "rxq_inv B (snd (rxq_deq c))"
    "numbufs (snd (rxq_deq c)) = numbufs c"
proof -
  have ok: "bufs_ok c" and h: "\<not> has_event c" "\<not> flagged c FLAGBIT_LINEAR" "\<not> rxdisable c" "rx_clean c"
    using c by (auto simp: rxq_inv_def)
  have ro: "ring_ok (numbufs c) (inreadbuf c) (outreadbuf c)" using ok by (simp add: bufs_ok_def)
  have out: "outreadbuf c \<noteq> -1" "0 \<le> outreadbuf c"
    using q ring_slots_Nil_iff [OF ro] ro by (auto simp: rx_frames_def rx_slots_def ring_ok_def)
  note r = chan_read_frame [OF ok h(1,2,3) _ _ _ q refl, of 65535 "\<lambda>k. False" True, simplified]
  have k: "nat (outreadbuf c) < nat (numbufs c)" using ro out by (auto simp: ring_ok_def)
  have "f = take (nat (readn c ! nat (outreadbuf c))) (readbuf c ! nat (outreadbuf c))"
    using read_advance_bufs_ok(2) [OF ok out(1)] q by simp
  then have "length f \<le> length (readbuf c ! nat (outreadbuf c))" by (metis length_take min.cobounded1)
  then have "length f \<le> 65535" using bufs_ok_slot(1) [OF ok k] c by (simp add: rxq_inv_def)
  then have f: "fst (dahdi_chan_read True (\<lambda>k. False) 65535 c) = Done (int (length f)) (UBytes f)"
    using r(1) by simp
  then have e: "rxq_deq c = (Some f, snd (dahdi_chan_read True (\<lambda>k. False) 65535 c))"
    by (cases "dahdi_chan_read True (\<lambda>k. False) 65535 c") (simp add: rxq_deq_def)
  have s: "snd (dahdi_chan_read True (\<lambda>k. False) 65535 c) = read_advance (outreadbuf c) c"
    using h out by (simp add: dahdi_chan_read_def Let_def)
  show "fst (rxq_deq c) = Some f" "rx_frames (snd (rxq_deq c)) = rest" using e r by simp_all
  have "rxbufpolicy (read_advance x c) = rxbufpolicy c" "has_event (read_advance x c) = has_event c" for x
    by (simp_all add: read_advance_def Let_def has_event_def)
  moreover have "rxbufpolicy c \<noteq> POLICY_WHEN_FULL" using c by (simp add: rxq_inv_def)
  then have "\<not> rxdisable (read_advance x c)" for x using h by (simp add: read_advance_def Let_def)
  ultimately show "rxq_inv B (snd (rxq_deq c))"
    using r e s c read_advance_rx_clean [OF ok h(4) out(1)] by (simp add: rxq_inv_def)
  show "numbufs (snd (rxq_deq c)) = numbufs c" using e s by simp
qed

interpretation rxq: lossy_fifo "\<lambda>c. rxq_inv B c \<and> B \<le> 65535" "\<lambda>d. d \<noteq> [] \<and> int (length d) \<le> B" rx_frames
  "\<lambda>c. nat (numbufs c)" "rxq_enq sp" rxq_deq for B sp
proof unfold_locales
  fix c and d :: "byte list" assume c: "rxq_inv B c \<and> B \<le> 65535" and d: "d \<noteq> [] \<and> int (length d) \<le> B"
  have ok: "bufs_ok c" "rx_clean c" "blocksize c = B" using c by (auto simp: rxq_inv_def)
  show "rxq_inv B (rxq_enq sp d c) \<and> B \<le> 65535"
    and "nat (numbufs (rxq_enq sp d c)) = nat (numbufs c)"
    and "rx_frames (rxq_enq sp d c) =
      (if length (rx_frames c) < nat (numbufs c) then rx_frames c @ [d] else rx_frames c)"
  proof (atomize (full), cases "0 \<le> inreadbuf c")
    case True
    then have f: "filling c" using ok by (simp add: filling_def)
    then have z: "readidx c ! rx_slot c = 0" using filling_slot [OF f] ok by (auto simp: rx_clean_def)
    note e = card_frame [OF f z, of d sp] 
    have "rx_clean (rxq_enq sp d c)"
      using e d ok by (auto simp: rx_clean_def nth_upd)
    then show "(rxq_inv B (rxq_enq sp d c) \<and> B \<le> 65535) \<and> nat (numbufs (rxq_enq sp d c)) = nat (numbufs c) \<and>
      rx_frames (rxq_enq sp d c) = (if length (rx_frames c) < nat (numbufs c) then rx_frames c @ [d] else rx_frames c)"
      using e d c ok True rx_full [OF ok(1)] by (auto simp: rxq_inv_def has_event_def)
  next
    case False
    then show "(rxq_inv B (rxq_enq sp d c) \<and> B \<le> 65535) \<and> nat (numbufs (rxq_enq sp d c)) = nat (numbufs c) \<and>
      rx_frames (rxq_enq sp d c) = (if length (rx_frames c) < nat (numbufs c) then rx_frames c @ [d] else rx_frames c)"
      using c rx_full [OF ok(1)] by (simp add: rxq_enq_full)
  qed
next
  fix c assume c: "rxq_inv B c \<and> B \<le> 65535"
  have ok: "bufs_ok c" using c by (simp add: rxq_inv_def)
  show "rxq_inv B (snd (rxq_deq c)) \<and> B \<le> 65535" "nat (numbufs (snd (rxq_deq c))) = nat (numbufs c)"
    using c rxq_deq_empty [of B c] rxq_deq_cons [of B c] by (cases "rx_frames c"; auto)+
  show "rx_frames c = [] \<Longrightarrow> rxq_deq c = (None, c)" using c rxq_deq_empty by blast
  show "\<And>x xs. rx_frames c = x # xs \<Longrightarrow> fst (rxq_deq c) = Some x \<and> rx_frames (snd (rxq_deq c)) = xs"
    using c rxq_deq_cons by blast
  show "length (rx_frames c) \<le> nat (numbufs c)"
    using ok ring_count_le [of "numbufs c" "inreadbuf c" "outreadbuf c"] by (simp add: rx_frames_def rx_slots_def bufs_ok_def)
qed

section \<open>Taking a frame to transmit\<close>

text \<open>Two channels that agree on the buffers; most operations leave them alone.\<close>

definition same_bufs :: "dahdi_chan \<Rightarrow> dahdi_chan \<Rightarrow> bool" where
  "same_bufs c c' \<longleftrightarrow> readbuf c' = readbuf c \<and> writebuf c' = writebuf c \<and> readn c' = readn c \<and> readidx c' = readidx c
     \<and> writen c' = writen c \<and> writeidx c' = writeidx c \<and> inreadbuf c' = inreadbuf c \<and> outreadbuf c' = outreadbuf c
     \<and> inwritebuf c' = inwritebuf c \<and> outwritebuf c' = outwritebuf c \<and> numbufs c' = numbufs c \<and> blocksize c' = blocksize c"

lemma same_bufsD:
  assumes "same_bufs c c'"
  shows "bufs_ok c' = bufs_ok c" "tx_frames c' = tx_frames c" "rx_frames c' = rx_frames c" "rx_room c' = rx_room c"
    "tx_slots c' = tx_slots c"
  using assms
  by (simp_all add: same_bufs_def bufs_ok_def slots_ok_def tx_frames_def rx_frames_def tx_slots_def rx_slots_def rx_room_def)

definition tx_slot :: "dahdi_chan \<Rightarrow> nat" where
  "tx_slot c = nat (outwritebuf c)"

definition tx_pop :: "dahdi_chan \<Rightarrow> dahdi_chan" where
  "tx_pop c = c\<lparr>writeidx := (writeidx c)[tx_slot c := 0], writen := (writen c)[tx_slot c := 0],
     inwritebuf := fst (ring_pull (numbufs c) (inwritebuf c) (outwritebuf c)),
     outwritebuf := snd (ring_pull (numbufs c) (inwritebuf c) (outwritebuf c))\<rparr>"

lemma tx_pop_inv:
  assumes ok: "bufs_ok c" and out: "outwritebuf c \<noteq> -1"
  shows "bufs_ok (tx_pop c)" "rx_frames (tx_pop c) = rx_frames c" "rx_room (tx_pop c) = rx_room c"
    "tx_slots c = tx_slot c # tx_slots (tx_pop c)"
    "tx_frames c = take (nat (writen c ! tx_slot c)) (writebuf c ! tx_slot c) # tx_frames (tx_pop c)"
proof -
  obtain i' o' where p: "ring_pull (numbufs c) (inwritebuf c) (outwritebuf c) = (i', o')"
    by (cases "ring_pull (numbufs c) (inwritebuf c) (outwritebuf c)")
  have r: "ring_ok (numbufs c) (inwritebuf c) (outwritebuf c)" using ok by (simp add: bufs_ok_def)
  have sl: "slots_ok (tx_pop c)"
    using ok by (auto simp: bufs_ok_def slots_ok_def nth_upd tx_pop_def)
  show "bufs_ok (tx_pop c)"
    using ok sl ring_pull_ok [OF r out] p unfolding bufs_ok_def by (simp add: tx_pop_def)
  show s: "tx_slots c = tx_slot c # tx_slots (tx_pop c)"
    using ring_pull_slots [OF r out p] p by (simp add: tx_slots_def tx_pop_def tx_slot_def)
  then have "tx_slot c \<notin> set (tx_slots (tx_pop c))"
    using ring_slots_distinct [OF r] by (simp add: tx_slots_def)
  then show "tx_frames c = take (nat (writen c ! tx_slot c)) (writebuf c ! tx_slot c) # tx_frames (tx_pop c)"
    unfolding tx_frames_def s by (auto simp: nth_upd tx_pop_def intro!: map_cong)
  show "rx_frames (tx_pop c) = rx_frames c" "rx_room (tx_pop c) = rx_room c"
    by (simp_all add: rx_frames_def rx_slots_def tx_pop_def rx_room_def)
qed

lemma same_bufs_trans: "same_bufs a b \<Longrightarrow> same_bufs b c \<Longrightarrow> same_bufs a c"
  by (simp add: same_bufs_def)

lemma same_bufs_refl [simp]: "same_bufs c c" by (simp add: same_bufs_def)
lemma same_bufs_wake [simp]: "same_bufs c (wake w d) = same_bufs c d" by (simp add: same_bufs_def wake_def)
lemma same_bufs_policy [simp]: "same_bufs c (getbuf_policy d) = same_bufs c d"
  by (simp add: same_bufs_def getbuf_policy_def)
lemma same_bufs_iomux [simp]: "same_bufs c (wake_iomux_write d) = same_bufs c d"
  by (simp add: wake_iomux_write_def)

lemma rotate_pop:
  assumes ok: "bufs_ok c" and out: "outwritebuf c \<noteq> -1"
  shows "same_bufs (tx_pop c) (snd (getbuf_rotate c))"
    and "fst (getbuf_rotate c) = (if (outwritebuf c + 1) mod numbufs c = inwritebuf c then -1 else 1)"
proof -
  define c1 where "c1 = c\<lparr>writeidx := (writeidx c)[tx_slot c := 0], writen := (writen c)[tx_slot c := 0],
        outwritebuf := (outwritebuf c + 1) mod numbufs c\<rparr>"
  define c2 where "c2 = (if outwritebuf c1 = inwritebuf c1 then getbuf_policy (wake_iomux_write (c1\<lparr>outwritebuf := -1\<rparr>)) else c1)"
  define c3 where "c3 = (if inwritebuf c2 < 0 then c2\<lparr>inwritebuf := outwritebuf c\<rparr> else c2)"
  have r: "ring_ok (numbufs c) (inwritebuf c) (outwritebuf c)" using ok by (simp add: bufs_ok_def)
  have "same_bufs (c1\<lparr>outwritebuf := -1\<rparr>) (getbuf_policy (wake_iomux_write (c1\<lparr>outwritebuf := -1\<rparr>)))" by simp
  then have f: "outwritebuf c1 = inwritebuf c1 \<Longrightarrow> same_bufs (c1\<lparr>outwritebuf := -1\<rparr>) c2"
    "outwritebuf c1 \<noteq> inwritebuf c1 \<Longrightarrow> c2 = c1" by (simp_all add: c2_def)
  have "0 < numbufs c" using r by (simp add: ring_ok_def)
  then have "0 \<le> (outwritebuf c + 1) mod numbufs c" by (rule pos_mod_sign)
  then have p: "same_bufs (tx_pop c) c3"
    using f r unfolding c3_def same_bufs_def tx_pop_def ring_pull_def Let_def ring_ok_def
    by (cases "outwritebuf c1 = inwritebuf c1") (auto simp: c1_def)
  have "same_bufs c3 (snd (getbuf_rotate c))"
    unfolding getbuf_rotate_def Let_def tx_slot_def [symmetric] c1_def [symmetric] c2_def [symmetric] c3_def [symmetric]
    by simp
  with p show "same_bufs (tx_pop c) (snd (getbuf_rotate c))" by (rule same_bufs_trans)
  show "fst (getbuf_rotate c) = (if (outwritebuf c + 1) mod numbufs c = inwritebuf c then -1 else 1)"
    by (simp add: getbuf_rotate_def Let_def)
qed

lemma hdlc_getbuf_frame:
  assumes ok: "bufs_ok c" and q: "tx_frames c = f # rest" and start: "writeidx c ! tx_slot c = 0"
    and len: "2 \<le> length f" "int (length f) - 2 \<le> sz"
    and r: "dahdi_hdlc_getbuf sz c = (res, dat, sz', c')"
  shows "dat = take (length f - 2) f \<and> sz' = int (length f) - 2 \<and> tx_frames c' = rest \<and> bufs_ok c'
    \<and> rx_frames c' = rx_frames c \<and> res = (if rest = [] then -1 else 1)"
proof -
  have ro: "ring_ok (numbufs c) (inwritebuf c) (outwritebuf c)" using ok by (simp add: bufs_ok_def)
  have out: "outwritebuf c \<noteq> -1" "outwritebuf c > -1"
    using q ring_slots_Nil_iff [OF ro] ro by (auto simp: tx_frames_def tx_slots_def ring_ok_def)
  note p = tx_pop_inv [OF ok out(1)]
  have k: "tx_slot c < nat (numbufs c)" using ro out by (auto simp: ring_ok_def tx_slot_def)
  have f: "f = take (nat (writen c ! tx_slot c)) (writebuf c ! tx_slot c)" "rest = tx_frames (tx_pop c)"
    using p(5) q by auto
  have n: "writen c ! tx_slot c = int (length f)"
    using bufs_ok_slot [OF ok k] by (auto simp: f min_def)
  have small: "length f \<le> nat (blocksize c)" using bufs_ok_slot [OF ok k] n by simp
  let ?c0 = "c\<lparr>writeidx := (writeidx c)[tx_slot c := int (length f) - 2]\<rparr>"
  have "(int (length f) - 2) mod 2 ^ 32 \<le> sz"
  proof -
    have "(int (length f) - 2) mod 2 ^ 32 \<le> int (length f) - 2" using len(1) by (intro zmod_le_nonneg_dividend) simp
    with len(2) show ?thesis by simp
  qed
  moreover have "writen c ! nat (outwritebuf c) - 2 = int (length f) - 2" "writeidx c ! nat (outwritebuf c) = 0"
    using n start by (simp_all add: tx_slot_def)
  moreover have "take (nat (int (length f) - 2)) (writebuf c ! nat (outwritebuf c)) = take (length f - 2) f"
  proof -
    have nn: "nat (int (length f) - 2) = length f - 2" by simp
    have "take (length f - 2) f = take (length f - 2) (take (length f) (writebuf c ! tx_slot c))"
      by (rule arg_cong [OF f(1) [unfolded n nat_int]])
    then show ?thesis unfolding nn tx_slot_def by (simp add: min_def)
  qed
  ultimately have "dahdi_hdlc_getbuf sz c =
      (case getbuf_rotate ?c0 of (res, c) \<Rightarrow> (res, take (length f - 2) f, int (length f) - 2, c))"
    using out unfolding dahdi_hdlc_getbuf_def Let_def tx_slot_def by simp
  with r have e: "dat = take (length f - 2) f" "sz' = int (length f) - 2" "c' = snd (getbuf_rotate ?c0)"
    "res = fst (getbuf_rotate ?c0)"
    by (auto split: prod.splits)
  have ok0: "bufs_ok ?c0" using ok len small by (auto simp: bufs_ok_def slots_ok_def nth_upd)
  have out0: "outwritebuf ?c0 \<noteq> -1" using out by simp
  have "same_bufs (tx_pop c) (tx_pop ?c0)"
    by (simp add: same_bufs_def tx_pop_def tx_slot_def)
  then have sb: "same_bufs (tx_pop c) c'" using same_bufs_trans rotate_pop(1) [OF ok0 out0] e(3) by blast
  have rs: "res = (if (outwritebuf c + 1) mod numbufs c = inwritebuf c then -1 else 1)"
    using rotate_pop(2) [OF ok0 out0] by (simp add: e(4))
  have "rest = [] \<longleftrightarrow> (outwritebuf c + 1) mod numbufs c = inwritebuf c"
  proof -
    have "0 < numbufs c" using ro by (simp add: ring_ok_def)
    then have "0 \<le> (outwritebuf c + 1) mod numbufs c" by (rule pos_mod_sign)
    moreover have "ring_ok (numbufs (tx_pop c)) (inwritebuf (tx_pop c)) (outwritebuf (tx_pop c))"
      using p(1) by (simp add: bufs_ok_def)
    ultimately show ?thesis
      using ring_slots_Nil_iff [of "numbufs (tx_pop c)" "inwritebuf (tx_pop c)" "outwritebuf (tx_pop c)"]
      unfolding f(2) tx_frames_def tx_slots_def by (auto simp: tx_pop_def ring_pull_def Let_def)
  qed
  then show ?thesis using e rs same_bufsD(1-3) [OF sb] p(1,2) f(2) by simp
qed

section \<open>Properties\<close>

text \<open>An open channel with two buffers of 16 bytes, for the instances.\<close>

definition chan_ex :: dahdi_chan where
  "chan_ex = snd (dahdi_reallocbufs True True 16 2 chan0)"

lemma chan_ex_ok: "bufs_ok chan_ex" "tx_frames chan_ex = []" "rx_frames chan_ex = []"
  using reallocbufs_ok [of 16 chan0 2] by (simp_all add: chan_ex_def chan0_def)

lemma chan_ex_fields:
  "inwritebuf chan_ex = 0" "outwritebuf chan_ex = -1" "inreadbuf chan_ex = 0" "outreadbuf chan_ex = -1"
  "numbufs chan_ex = 2" "blocksize chan_ex = 16" "cflags chan_ex = 0" "evring chan_ex = evq_init"
  "rxdisable chan_ex = False" "rxbufpolicy chan_ex = 0" "readidx chan_ex = replicate 32 0"
  "writeidx chan_ex = replicate 32 0"
  by (simp_all add: chan_ex_def chan0_def dahdi_reallocbufs_def Let_def evq_init_def flip: replicate_add)

lemma chan_ex_quiet: "\<not> has_event chan_ex" "\<not> flagged chan_ex F"
  by (simp_all add: has_event_def chan_ex_fields evq_init_def)

lemma chan_ex_rxq: "rxq_inv 16 chan_ex" "rx_room chan_ex"
  by (simp_all add: rxq_inv_def chan_ex_ok chan_ex_quiet chan_ex_fields rx_clean_def rx_room_def)

text \<open>C33. A write of \<open>count\<close> bytes to a channel with room and no event pending queues exactly one frame,
  the first \<open>min count blocksize\<close> bytes, with the frame check sequence over its last two bytes when the channel
  calculates it; nothing queued before is changed, lost or reordered.\<close>

theorem channel_write_queues_frame:
  assumes "bufs_ok c" "inwritebuf c \<noteq> -1" "\<not> has_event c" "\<not> flagged c FLAGBIT_LINEAR"
    and "0 < count" "count < 65536" "count \<le> int (length d)" "\<not> fault 0"
  shows "let (r, c') = dahdi_chan_write ppp_fcs span nonblock fault count (UBytes d) c;
             n = min count (blocksize c); f = take (nat n) d in
    r = Done n (UBytes d) \<and> bufs_ok c' \<and> rx_frames c' = rx_frames c \<and>
    tx_frames c' = tx_frames c @ [if flagged c FLAGBIT_FCS then with_fcs ppp_fcs f else f]"
  using chan_write_frame [where r = "dahdi_chan_write ppp_fcs span nonblock fault count (UBytes d) c"
      and amnt = "min count (blocksize c)", OF assms refl refl]
  unfolding Let_def by (cases "dahdi_chan_write ppp_fcs span nonblock fault count (UBytes d) c") simp

theorem channel_write_queues_frame_witness:
  "let (r, c') = dahdi_chan_write (\<lambda>s b. s) span0 True (\<lambda>k. False) 3 (UBytes [1, 2, 3]) chan_ex in
    r = Done 3 (UBytes [1, 2, 3]) \<and> tx_frames c' = [[1, 2, 3]]"
  using channel_write_queues_frame [of chan_ex 3 "[1, 2, 3]" "\<lambda>k. False" "\<lambda>s b. s" span0 True]
  by (simp add: chan_ex_ok chan_ex_quiet chan_ex_fields min_def Let_def split: prod.splits)

text \<open>A read of a channel with a frame waiting, the receiver enabled and no event pending returns the
  oldest frame (its first \<open>count\<close> bytes) and removes exactly it.\<close>

theorem channel_read_takes_frame:
  assumes "bufs_ok c" "\<not> has_event c" "\<not> flagged c FLAGBIT_LINEAR" "\<not> rxdisable c"
    and "0 < count" "count < 65536" "\<not> fault 0" "rx_frames c = f # rest"
  shows "let (r, c') = dahdi_chan_read nonblock fault count c in
    r = Done (min count (int (length f))) (UBytes (take (nat count) f)) \<and> bufs_ok c' \<and>
    rx_frames c' = rest \<and> tx_frames c' = tx_frames c"
  using chan_read_frame [where r = "dahdi_chan_read nonblock fault count c", OF assms refl]
  unfolding Let_def by (cases "dahdi_chan_read nonblock fault count c") simp

text \<open>The channel after a card has received a frame of three bytes.\<close>

definition chan_ex1 :: dahdi_chan where
  "chan_ex1 = rxq_enq span0 [7, 8, 9] chan_ex"

lemma chan_ex1_ok: "bufs_ok chan_ex1" "rx_frames chan_ex1 = [[7, 8, 9]]" "\<not> has_event chan_ex1"
  "\<not> flagged chan_ex1 F" "\<not> rxdisable chan_ex1"
proof -
  have f: "filling chan_ex" "readidx chan_ex ! rx_slot chan_ex = 0"
    by (simp_all add: filling_def chan_ex_ok chan_ex_fields rx_slot_def)
  note e = card_frame [OF f, of "[7, 8, 9]" span0, folded chan_ex1_def]
  show "bufs_ok chan_ex1" "rx_frames chan_ex1 = [[7, 8, 9]]" "\<not> has_event chan_ex1"
    "\<not> flagged chan_ex1 F" "\<not> rxdisable chan_ex1"
    using e by (simp_all add: chan_ex_ok chan_ex_fields has_event_def evq_init_def)
qed

theorem channel_read_takes_frame_witness:
  "let (r, c') = dahdi_chan_read True (\<lambda>k. False) 2 chan_ex1 in r = Done 2 (UBytes [7, 8]) \<and> rx_frames c' = []"
  using channel_read_takes_frame [of chan_ex1 2 "\<lambda>k. False" "[7, 8, 9]" "[]" True]
  by (simp add: chan_ex1_ok numeral_eq_Suc Let_def split: prod.splits)

text \<open>C13. Frames a card receives and frames the user reads, interleaved in any way, form a FIFO of at most
  \<open>numbufs\<close> frames: what the card could store is what was read, in order, followed by what is queued.\<close>

theorem card_reception_fifo:
  assumes "rxq_inv B c" "B \<le> 65535" "ops_ok (\<lambda>d. d \<noteq> [] \<and> int (length d) \<le> B) ops"
  shows "case fifo_run (rxq_enq sp) rxq_deq (\<lambda>c. length (rx_frames c) < nat (numbufs c)) c ops of
    (stored, got, c') \<Rightarrow> rx_frames c @ stored = got @ rx_frames c' \<and> bufs_ok c' \<and>
      length (rx_frames c') \<le> nat (numbufs c)"
proof -
  obtain stored got c' where run: "fifo_run (rxq_enq sp) rxq_deq (\<lambda>c. length (rx_frames c) < nat (numbufs c)) c ops
      = (stored, got, c')" by (rule prod_cases3)
  show ?thesis
    using rxq.run_fifo [OF conjI [OF assms(1,2)] assms(3) run] rxq.run_bound [OF conjI [OF assms(1,2)] assms(3) run]
    unfolding run by (simp add: rxq_inv_def)
qed

theorem card_reception_fifo_witness:
  "case fifo_run (rxq_enq span0) rxq_deq (\<lambda>c. length (rx_frames c) < nat (numbufs c)) chan_ex
      [Enq [1], Enq [2, 2], Enq [3], Deq] of
    (stored, got, c') \<Rightarrow> stored = got @ rx_frames c' \<and> length (rx_frames c') \<le> 2"
  using card_reception_fifo [of 16 chan_ex "[Enq [1], Enq [2, 2], Enq [3], Deq]" span0]
  by (simp add: chan_ex_rxq chan_ex_ok chan_ex_fields del: fifo_run.simps split: prod.splits)

text \<open>C25. The interrupt side of reception ends and is safe on any bytes, HDLC or not: with one turn of its
  loop per byte it returns, the buffer invariant holds (so every index is in range), what is queued for the
  transmitter is untouched and the frames already received stay first in the queue, in order.\<close>

theorem reception_total:
  assumes "bufs_ok c" "rx_room c"
  shows "\<exists>c'. putbuf_chunk ppp_fcs span nostd rxb c = Some c' \<and> bufs_ok c' \<and> rx_room c' \<and>
    tx_frames c' = tx_frames c \<and> (\<exists>new. rx_frames c' = rx_frames c @ new)"
  using putbuf_loop_inv [OF assms order_refl] by (simp add: putbuf_chunk_def)

theorem reception_total_witness:
  "\<exists>c'. putbuf_chunk (\<lambda>s b. s) span0 False [1, 2, 3, 4, 5, 6, 7, 8] chan_ex = Some c' \<and> bufs_ok c'"
  using reception_total [OF chan_ex_ok(1) chan_ex_rxq(2)] by blast

text \<open>A card that fetches a frame of at least two bytes with enough room gets it without the two bytes
  reserved for the frame check sequence, and exactly that frame leaves the queue.\<close>

theorem card_transmission_takes_frame:
  assumes "bufs_ok c" "tx_frames c = f # rest" "writeidx c ! tx_slot c = 0" "2 \<le> length f" "int (length f) - 2 \<le> sz"
  shows "let (res, dat, sz', c') = dahdi_hdlc_getbuf sz c in
    dat = take (length f - 2) f \<and> sz' = int (length f) - 2 \<and> tx_frames c' = rest \<and> bufs_ok c' \<and>
    rx_frames c' = rx_frames c \<and> res = (if rest = [] then -1 else 1)"
  using hdlc_getbuf_frame [OF assms] by (auto simp: Let_def split: prod.splits)

definition chan_ex2 :: dahdi_chan where
  "chan_ex2 = write_advance 0 (put_frame 0 [5, 6, 0, 0] chan_ex)"

lemma chan_ex2_ok: "bufs_ok chan_ex2" "tx_frames chan_ex2 = [[5, 6, 0, 0]]" "writeidx chan_ex2 ! tx_slot chan_ex2 = 0"
proof -
  have i: "inwritebuf chan_ex = 0" "inwritebuf chan_ex \<noteq> -1" by (simp_all add: chan_ex_fields)
  note p = put_frame_ok [OF chan_ex_ok(1) i(2), of "[5, 6, 0, 0]", unfolded i(1), simplified]
  have q: "inwritebuf (put_frame 0 d chan_ex) = 0" for d by (simp add: put_frame_def chan_ex_fields)
  note w = write_advance_bufs_ok [of "put_frame 0 [5, 6, 0, 0] chan_ex", unfolded q, simplified, folded chan_ex2_def]
  show "bufs_ok chan_ex2" "tx_frames chan_ex2 = [[5, 6, 0, 0]]"
    using w p by (simp_all add: chan_ex_fields chan_ex_ok)
  show "writeidx chan_ex2 ! tx_slot chan_ex2 = 0"
    by (simp add: chan_ex2_def put_frame_def chan_ex_fields tx_slot_def write_advance_def Let_def)
qed

theorem card_transmission_takes_frame_witness:
  "let (res, dat, sz', c') = dahdi_hdlc_getbuf 100 chan_ex2 in dat = [5, 6] \<and> sz' = 2 \<and> tx_frames c' = [] \<and> res = -1"
  using card_transmission_takes_frame [of chan_ex2 "[5, 6, 0, 0]" "[]" 100]
  by (simp add: chan_ex2_ok Let_def split: prod.splits)

text \<open>\<open>num_filled_bufs\<close> is the number of frames queued for transmission.\<close>

theorem filled_bufs_counts_frames:
  assumes "bufs_ok c"
  shows "num_filled_bufs c = int (length (tx_frames c)) \<and> num_filled_bufs c \<le> numbufs c"
proof -
  have r: "ring_ok (numbufs c) (inwritebuf c) (outwritebuf c)" and n: "2 \<le> numbufs c"
    using assms by (simp_all add: bufs_ok_def ring_ok_def)
  have "length (tx_frames c) \<le> nat (numbufs c)"
    using ring_count_le [OF r] by (simp add: tx_frames_def tx_slots_def)
  then have "int (length (tx_frames c)) \<le> numbufs c" using n by simp
  then show ?thesis using num_filled_bufs_frames [OF assms] by simp
qed

theorem filled_bufs_counts_frames_witness: "num_filled_bufs chan_ex2 = 1"
  using filled_bufs_counts_frames [OF chan_ex2_ok(1)] by (simp add: chan_ex2_ok)

end
