(* ===== verification/Tones.thy ===== *)
theory Tones
  imports Chan "HOL-Library.Signed_Division"
begin

text \<open>
  Tone zones and the playing of tones: \<open>struct dahdi_tone\<close>, \<open>struct dahdi_zone\<close>, loading
  (\<open>ioctl_load_zone\<close>), registering and freeing a zone, the default zone, \<open>DAHDI_SET_DIALPARAMS\<close>, the zone
  of a channel (\<open>set_tone_zone\<close>), \<open>start_tone\<close>, \<open>dahdi_mf_tone\<close> and the oscillator \<open>dahdi_tone_nextsample\<close>.
  A zone lives at an address of \<open>zheap\<close> and is \<open>None\<close> once it is freed: a pointer that dangles is one that
  \<open>deref\<close> does not resolve.
\<close>

abbreviation (input) E2BIG :: int where "E2BIG \<equiv> 7"
abbreviation (input) DAHDI_TONE_MAX :: nat where "DAHDI_TONE_MAX \<equiv> 16"
abbreviation (input) TONE_ZONE_MAX :: nat where "TONE_ZONE_MAX \<equiv> 128"
abbreviation (input) TONE_DTMF_BASE :: int where "TONE_DTMF_BASE \<equiv> 64"
abbreviation (input) TONE_DTMF_MAX :: int where "TONE_DTMF_MAX \<equiv> 79"
abbreviation (input) TONE_MFR1_BASE :: int where "TONE_MFR1_BASE \<equiv> 80"
abbreviation (input) TONE_MFR1_MAX :: int where "TONE_MFR1_MAX \<equiv> 94"
abbreviation (input) TONE_MFR2_FWD_BASE :: int where "TONE_MFR2_FWD_BASE \<equiv> 96"
abbreviation (input) TONE_MFR2_FWD_MAX :: int where "TONE_MFR2_FWD_MAX \<equiv> 110"
abbreviation (input) TONE_MFR2_REV_BASE :: int where "TONE_MFR2_REV_BASE \<equiv> 112"
abbreviation (input) TONE_MFR2_REV_MAX :: int where "TONE_MFR2_REV_MAX \<equiv> 126"
abbreviation (input) DIGIT_MODE_DTMF :: int where "DIGIT_MODE_DTMF \<equiv> 0"
abbreviation (input) DIGIT_MODE_MFR1 :: int where "DIGIT_MODE_MFR1 \<equiv> 1"
abbreviation (input) DIGIT_MODE_PULSE :: int where "DIGIT_MODE_PULSE \<equiv> 2"
abbreviation (input) DIGIT_MODE_MFR2_FWD :: int where "DIGIT_MODE_MFR2_FWD \<equiv> 3"
abbreviation (input) DIGIT_MODE_MFR2_REV :: int where "DIGIT_MODE_MFR2_REV \<equiv> 4"

section \<open>Tones and zones\<close>

record dahdi_tone =
  fac1 :: int
  init_v2_1 :: int
  init_v3_1 :: int
  fac2 :: int
  init_v2_2 :: int
  init_v3_2 :: int
  tonesamples :: int
  next_tone :: "tone_ptr option"
  modulate :: int

text \<open>The tones that follow the zone in its allocation are \<open>slab\<close>.\<close>

record dahdi_zone =
  refcount :: int
  zone_name :: string
  zone_cadence :: "int list"
  tones :: "tone_ptr option list"
  slab :: "dahdi_tone list"
  dtmf :: "dahdi_tone list"
  dtmf_continuous :: "dahdi_tone list"
  mfr1 :: "dahdi_tone list"
  mfr2_fwd :: "dahdi_tone list"
  mfr2_rev :: "dahdi_tone list"
  mfr2_fwd_continuous :: "dahdi_tone list"
  mfr2_rev_continuous :: "dahdi_tone list"

record dialparams =
  mfv1_tonelen :: int
  dtmf_tonelen :: int
  mfr2_tonelen :: int

record tone_globals =
  zheap :: "dahdi_zone option list"
  tone_zones :: "nat option list"
  default_zone :: int
  global_dialparams :: dialparams
  dtmf_silence :: dahdi_tone
  mfr1_silence :: dahdi_tone
  mfr2_silence :: dahdi_tone
  tone_pause :: dahdi_tone

definition tone0 :: dahdi_tone where
  "tone0 = \<lparr>fac1 = 0, init_v2_1 = 0, init_v3_1 = 0, fac2 = 0, init_v2_2 = 0, init_v3_2 = 0, tonesamples = 0,
     next_tone = None, modulate = 0\<rparr>"

text \<open>The static tones of \<open>digits.h\<close> and the state of the module before any zone is loaded.\<close>

definition tone_globals0 :: tone_globals where
  "tone_globals0 = \<lparr>zheap = [], tone_zones = replicate TONE_ZONE_MAX None, default_zone = -1,
     global_dialparams = \<lparr>mfv1_tonelen = 68 * 8, dtmf_tonelen = 100 * 8, mfr2_tonelen = 100 * 8\<rparr>,
     dtmf_silence = tone0\<lparr>tonesamples := 100 * 8\<rparr>, mfr1_silence = tone0\<lparr>tonesamples := 68 * 8\<rparr>,
     mfr2_silence = tone0\<lparr>tonesamples := 100 * 8\<rparr>, tone_pause = tone0\<lparr>tonesamples := 500 * 8\<rparr>\<rparr>"

definition zone_at :: "tone_globals \<Rightarrow> nat \<Rightarrow> dahdi_zone option" where
  "zone_at G a = (if a < length (zheap G) then zheap G ! a else None)"

definition zone_upd :: "nat \<Rightarrow> (dahdi_zone \<Rightarrow> dahdi_zone) \<Rightarrow> tone_globals \<Rightarrow> tone_globals" where
  "zone_upd a f G = G\<lparr>zheap := (zheap G)[a := map_option f (zheap G ! a)]\<rparr>"

definition atomic_inc :: "nat \<Rightarrow> tone_globals \<Rightarrow> tone_globals" where
  "atomic_inc a = zone_upd a (\<lambda>z. z\<lparr>refcount := refcount z + 1\<rparr>)"

definition atomic_dec :: "nat \<Rightarrow> tone_globals \<Rightarrow> tone_globals" where
  "atomic_dec a = zone_upd a (\<lambda>z. z\<lparr>refcount := refcount z - 1\<rparr>)"

fun zone_array :: "tone_array \<Rightarrow> dahdi_zone \<Rightarrow> dahdi_tone list" where
  "zone_array SlabTones z = slab z"
| "zone_array Dtmf z = dtmf z"
| "zone_array DtmfContinuous z = dtmf_continuous z"
| "zone_array Mfr1 z = mfr1 z"
| "zone_array Mfr2Fwd z = mfr2_fwd z"
| "zone_array Mfr2Rev z = mfr2_rev z"
| "zone_array Mfr2FwdContinuous z = mfr2_fwd_continuous z"
| "zone_array Mfr2RevContinuous z = mfr2_rev_continuous z"

text \<open>\<open>*p\<close>; \<open>None\<close> when \<open>p\<close> does not point to a live tone.\<close>

fun deref :: "tone_globals \<Rightarrow> tone_ptr \<Rightarrow> dahdi_tone option" where
  "deref G DtmfSilence = Some (dtmf_silence G)"
| "deref G Mfr1Silence = Some (mfr1_silence G)"
| "deref G Mfr2Silence = Some (mfr2_silence G)"
| "deref G TonePause = Some (tone_pause G)"
| "deref G (InZone a arr i) =
     (case zone_at G a of None \<Rightarrow> None
      | Some z \<Rightarrow> if i < length (zone_array arr z) then Some (zone_array arr z ! i) else None)"

section \<open>The oscillator\<close>

definition dahdi_init_tone_state :: "dahdi_tone \<Rightarrow> tone_state" where
  "dahdi_init_tone_state zt = \<lparr>ts_v1_1 = 0, ts_v2_1 = init_v2_1 zt, ts_v3_1 = init_v3_1 zt,
     ts_v1_2 = 0, ts_v2_2 = init_v2_2 zt, ts_v3_2 = init_v3_2 zt, ts_modulate = modulate zt\<rparr>"

text \<open>Products and sums are of 32-bit \<open>int\<close>s, \<open>>> 15\<close> is arithmetic, the result is a \<open>short\<close>.\<close>

definition osc_step :: "int \<Rightarrow> int \<Rightarrow> int \<Rightarrow> int" where
  "osc_step fac v2 v1 = wrap_int (wrap_int (fac * v2) div 2 ^ 15 - v1)"

definition dahdi_tone_nextsample :: "tone_state \<Rightarrow> dahdi_tone \<Rightarrow> int \<times> tone_state" where
  "dahdi_tone_nextsample st zt =
     (let v1_1 = ts_v2_1 st; v2_1 = ts_v3_1 st; v3_1 = osc_step (fac1 zt) v2_1 v1_1;
          v1_2 = ts_v2_2 st; v2_2 = ts_v3_2 st; v3_2 = osc_step (fac2 zt) v2_2 v1_2;
          st' = st\<lparr>ts_v1_1 := v1_1, ts_v2_1 := v2_1, ts_v3_1 := v3_1,
                   ts_v1_2 := v1_2, ts_v2_2 := v2_2, ts_v3_2 := v3_2\<rparr>
      in if ts_modulate st = 0 then (wrap_short (wrap_int (v3_1 + v3_2)), st')
         else
           let p = wrap_int (v3_2 - 32768);
               p = (if p < 0 then wrap_int (- p) else p);
               p = wrap_int (wrap_int (p * 9) sdiv 10 + 1)
           in (wrap_short (wrap_int (v3_1 * p) div 2 ^ 15), st'))"

definition dahdi_txtone_nextsample :: "dahdi_chan \<Rightarrow> int \<times> dahdi_chan" where
  "dahdi_txtone_nextsample ss =
     (let a = v2_1 ss; b = v3_1 ss; c = osc_step (txtone ss) b a
      in (wrap_short c, ss\<lparr>v1_1 := a, v2_1 := b, v3_1 := c\<rparr>))"

section \<open>Zones: registering, freeing, the default\<close>

text \<open>Each returns C's result and the state.\<close>

definition free_tone_zone :: "int \<Rightarrow> tone_globals \<Rightarrow> int \<times> tone_globals" where
  "free_tone_zone num G =
     (if num \<ge> int TONE_ZONE_MAX \<or> num < 0 then (- EINVAL, G)
      else case tone_zones G ! nat num of
        None \<Rightarrow> (0, G)
      | Some a \<Rightarrow>
          (case zone_at G a of
             Some z \<Rightarrow> if refcount z = 0
                then (0, G\<lparr>tone_zones := (tone_zones G)[nat num := None], zheap := (zheap G)[a := None]\<rparr>)
                else (- EBUSY, G)
           | None \<Rightarrow> (- EBUSY, G)))"

definition dahdi_register_tone_zone :: "int \<Rightarrow> nat \<Rightarrow> tone_globals \<Rightarrow> int \<times> tone_globals" where
  "dahdi_register_tone_zone num zone G =
     (if num \<ge> int TONE_ZONE_MAX \<or> num < 0 then (- EINVAL, G)
      else if tone_zones G ! nat num \<noteq> None then (- EINVAL, G)
      else (0, G\<lparr>tone_zones := (tone_zones G)[nat num := Some zone]\<rparr>))"

definition dahdi_set_default_zone :: "int \<Rightarrow> tone_globals \<Rightarrow> int \<times> tone_globals" where
  "dahdi_set_default_zone defzone G =
     (if defzone < 0 \<or> defzone \<ge> int TONE_ZONE_MAX then (- EINVAL, G)
      else case tone_zones G ! nat defzone of
        None \<Rightarrow> (- EINVAL, G)
      | Some a \<Rightarrow>
          let G1 = (if default_zone G \<noteq> -1 then
                      (case tone_zones G ! nat (default_zone G) of Some d \<Rightarrow> atomic_dec d G | None \<Rightarrow> G)
                    else G)
          in (0, (atomic_inc a G1)\<lparr>default_zone := defzone\<rparr>))"

definition set_tone_zone :: "int \<Rightarrow> tone_globals \<Rightarrow> dahdi_chan \<Rightarrow> int \<times> tone_globals \<times> dahdi_chan" where
  "set_tone_zone zone G chan =
     (let zone = (if zone = -1 then default_zone G else zone) in
      if zone \<ge> int TONE_ZONE_MAX \<or> zone < 0 then (- EINVAL, G, chan)
      else case tone_zones G ! nat zone of
        None \<Rightarrow> (- ENODATA, G, chan)
      | Some z \<Rightarrow>
          let G1 = (case curzone chan of Some a \<Rightarrow> atomic_dec a G | None \<Rightarrow> G);
              G2 = atomic_inc z G1
          in (0, G2, chan\<lparr>curzone := Some z, tonezone := zone,
                          ringcadence := (case zone_at G2 z of Some zn \<Rightarrow> zone_cadence zn | None \<Rightarrow> ringcadence chan)\<rparr>))"

text \<open>What \<open>close_channel\<close> does about tones.\<close>

definition release_tone_zone :: "tone_globals \<Rightarrow> dahdi_chan \<Rightarrow> tone_globals \<times> dahdi_chan" where
  "release_tone_zone G chan =
     ((case curzone chan of Some a \<Rightarrow> atomic_dec a G | None \<Rightarrow> G), chan\<lparr>curtone := None, curzone := None\<rparr>)"

section \<open>Dialing parameters\<close>

definition set_lens :: "nat \<Rightarrow> int \<Rightarrow> dahdi_tone list \<Rightarrow> dahdi_tone list" where
  "set_lens n len xs = map (\<lambda>t. t\<lparr>tonesamples := len\<rparr>) (take n xs) @ drop n xs"

text \<open>\<open>DAHDI_SET_DIALPARAMS\<close>: milliseconds, of 8 samples each; the lengths of the zones are updated.\<close>

definition ioctl_set_dialparams :: "dialparams \<Rightarrow> tone_globals \<Rightarrow> tone_globals" where
  "ioctl_set_dialparams tdp G =
     (let in_range = (\<lambda>v. v \<ge> 10 \<and> v \<le> 4000);
          gd = global_dialparams G;
          gd = (if in_range (dtmf_tonelen tdp) then gd\<lparr>dtmf_tonelen := dtmf_tonelen tdp\<rparr> else gd);
          gd = (if in_range (mfv1_tonelen tdp) then gd\<lparr>mfv1_tonelen := mfv1_tonelen tdp\<rparr> else gd);
          gd = (if in_range (mfr2_tonelen tdp) then gd\<lparr>mfr2_tonelen := mfr2_tonelen tdp\<rparr> else gd);
          d = dtmf_tonelen gd * 8; m1 = mfv1_tonelen gd * 8; m2 = mfr2_tonelen gd * 8;
          upd = (\<lambda>z. z\<lparr>dtmf := set_lens 16 d (dtmf z), mfr1 := set_lens 10 m1 (mfr1 z),
                       mfr2_fwd := set_lens 15 m2 (mfr2_fwd z), mfr2_rev := set_lens 15 m2 (mfr2_rev z)\<rparr>);
          G1 = fold (\<lambda>j G. case tone_zones G ! j of Some a \<Rightarrow> zone_upd a upd G | None \<Rightarrow> G)
                 [0..<TONE_ZONE_MAX] (G\<lparr>global_dialparams := gd\<rparr>)
      in G1\<lparr>dtmf_silence := (dtmf_silence G1)\<lparr>tonesamples := d\<rparr>,
            mfr1_silence := (mfr1_silence G1)\<lparr>tonesamples := m1\<rparr>,
            mfr2_silence := (mfr2_silence G1)\<lparr>tonesamples := m2\<rparr>\<rparr>)"


section \<open>Starting a tone\<close>

definition start_tone_digit :: "tone_globals \<Rightarrow> int \<Rightarrow> dahdi_chan \<Rightarrow> int \<times> dahdi_chan" where
  "start_tone_digit G tone chan =
     (case curzone chan of
        None \<Rightarrow> (- ENODATA, chan)
      | Some a \<Rightarrow>
          let m = digitmode chan in
          if m = DIGIT_MODE_DTMF \<or> m = DIGIT_MODE_MFR2_FWD \<or> m = DIGIT_MODE_MFR2_REV then
            let c = (if m = DIGIT_MODE_DTMF then chan\<lparr>dialing := 1\<rparr> else chan);
                (bas, mx, arr) =
                  (if m = DIGIT_MODE_DTMF then (TONE_DTMF_BASE, TONE_DTMF_MAX, DtmfContinuous)
                   else if m = DIGIT_MODE_MFR2_FWD then (TONE_MFR2_FWD_BASE, TONE_MFR2_FWD_MAX, Mfr2FwdContinuous)
                   else (TONE_MFR2_REV_BASE, TONE_MFR2_REV_MAX, Mfr2RevContinuous))
            in if tone < bas \<or> tone > mx then (- EINVAL, c)
               else
                 let p = InZone a arr (nat (tone - bas)) in
                 (case deref G p of
                    Some t \<Rightarrow> if tonesamples t = 0 then (- ENOSYS, c) else (0, c\<lparr>curtone := Some p\<rparr>)
                  | None \<Rightarrow> (- ENOSYS, c))
          else (- EINVAL, chan))"

text \<open>
  \<open>start_tone\<close> tests \<open>tone <= DAHDI_TONE_MAX\<close>, one past the last index of \<open>tones\<close>: there it reads what
  follows the array as a pointer, which is the result \<open>None\<close>.
\<close>

definition start_tone :: "tone_globals \<Rightarrow> int \<Rightarrow> dahdi_chan \<Rightarrow> (int \<times> dahdi_chan) option" where
  "start_tone G tone chan =
     (let c = chan\<lparr>tonep := 0, curtone := None, pdialcount := 0, txdialbuf := [], dialing := 0\<rparr>;
          finish = (\<lambda>(res, c). (res,
             (case curtone c of
                Some p \<Rightarrow> (case deref G p of Some t \<Rightarrow> c\<lparr>ts := dahdi_init_tone_state t\<rparr> | None \<Rightarrow> c)
              | None \<Rightarrow> c)))
      in if tone = -1 then Some (finish (0, c))
         else case curzone c of
           None \<Rightarrow> Some (finish (- ENODATA, c))
         | Some a \<Rightarrow>
             if 0 \<le> tone \<and> tone \<le> int DAHDI_TONE_MAX then
               (case zone_at G a of
                  None \<Rightarrow> None
                | Some z \<Rightarrow>
                    if nat tone < length (tones z) then
                      (case tones z ! nat tone of
                         Some p \<Rightarrow> Some (finish (0, c\<lparr>curtone := Some p\<rparr>))
                       | None \<Rightarrow> Some (finish (- ENOSYS, c)))
                    else None)
             else if digitmode c = DIGIT_MODE_DTMF \<or> digitmode c = DIGIT_MODE_MFR2_FWD \<or> digitmode c = DIGIT_MODE_MFR2_REV
             then Some (finish (start_tone_digit G tone c))
             else Some (finish (- EINVAL, c\<lparr>dialing := 0\<rparr>)))"

section \<open>The tone of a digit\<close>

definition char_in :: "char \<Rightarrow> char \<Rightarrow> char \<Rightarrow> bool" where
  "char_in lo hi c \<longleftrightarrow> (of_char lo :: nat) \<le> of_char c \<and> (of_char c :: nat) \<le> of_char hi"

definition char_sub :: "char \<Rightarrow> char \<Rightarrow> nat" where
  "char_sub c b = (of_char c :: nat) - of_char b"

text \<open>
  Within its mode a digit selects an element of the array of the mode. In the DTMF mode the \<open>case\<close> of the
  digits A to D has no \<open>break\<close> and runs into the pause.
\<close>

definition dahdi_mf_tone :: "dahdi_chan \<Rightarrow> char \<Rightarrow> int \<Rightarrow> tone_ptr option" where
  "dahdi_mf_tone chan digit mode =
     (case curzone chan of
        None \<Rightarrow> None
      | Some a \<Rightarrow>
          if mode = DIGIT_MODE_PULSE then (if digit = CHR ''W'' then Some TonePause else None)
          else if mode = DIGIT_MODE_DTMF then
            (if char_in CHR ''0'' CHR ''9'' digit then Some (InZone a Dtmf (char_sub digit CHR ''0''))
             else if digit = CHR ''*'' then Some (InZone a Dtmf 10)
             else if digit = CHR ''#'' then Some (InZone a Dtmf 11)
             else if char_in CHR ''A'' CHR ''D'' digit then Some TonePause
             else if digit = CHR ''W'' then Some TonePause
             else None)
          else if mode = DIGIT_MODE_MFR1 then
            (if char_in CHR ''0'' CHR ''9'' digit then Some (InZone a Mfr1 (char_sub digit CHR ''0''))
             else if digit = CHR ''*'' then Some (InZone a Mfr1 10)
             else if digit = CHR ''#'' then Some (InZone a Mfr1 11)
             else if digit = CHR ''A'' then Some (InZone a Mfr1 12)
             else if digit = CHR ''B'' then Some (InZone a Mfr1 13)
             else if digit = CHR ''C'' then Some (InZone a Mfr1 14)
             else if digit = CHR ''W'' then Some TonePause
             else None)
          else if mode = DIGIT_MODE_MFR2_FWD then
            (if char_in CHR ''1'' CHR ''9'' digit then Some (InZone a Mfr2Fwd (char_sub digit CHR ''1''))
             else if char_in CHR ''A'' CHR ''F'' digit then Some (InZone a Mfr2Fwd (9 + char_sub digit CHR ''A''))
             else if digit = CHR ''W'' then Some TonePause
             else None)
          else if mode = DIGIT_MODE_MFR2_REV then
            (if char_in CHR ''1'' CHR ''9'' digit then Some (InZone a Mfr2Rev (char_sub digit CHR ''1''))
             else if char_in CHR ''A'' CHR ''F'' digit then Some (InZone a Mfr2Rev (9 + char_sub digit CHR ''A''))
             else if digit = CHR ''W'' then Some TonePause
             else None)
          else None)"

section \<open>Loading a zone\<close>

text \<open>What the user gives: a header, and definitions that are read one by one (\<open>None\<close>: the copy faults).\<close>

record tone_def =
  td_tone :: int
  td_next :: int
  td_samples :: int
  td_fac1 :: int
  td_init_v2_1 :: int
  td_init_v3_1 :: int
  td_fac2 :: int
  td_init_v2_2 :: int
  td_init_v3_2 :: int
  td_modulate :: int

record tone_def_header =
  th_count :: int
  th_zone :: int
  th_cadence :: "int list"
  th_name :: string

text \<open>Sizes on a 64-bit machine.\<close>

abbreviation (input) SIZEOF_ZONE :: int where "SIZEOF_ZONE \<equiv> 5472"
abbreviation (input) SIZEOF_TONE :: int where "SIZEOF_TONE \<equiv> 48"

definition zone0 :: "tone_def_header \<Rightarrow> dahdi_zone" where
  "zone0 th = \<lparr>refcount = 0, zone_name = take 39 (takeWhile (\<lambda>c. c \<noteq> CHR 0x00) (th_name th)),
     zone_cadence = th_cadence th, tones = replicate DAHDI_TONE_MAX None, slab = [],
     dtmf = replicate 16 tone0, dtmf_continuous = replicate 16 tone0, mfr1 = replicate 15 tone0,
     mfr2_fwd = replicate 15 tone0, mfr2_rev = replicate 15 tone0,
     mfr2_fwd_continuous = replicate 16 tone0, mfr2_rev_continuous = replicate 16 tone0\<rparr>"

definition tone_of_def :: "tone_def \<Rightarrow> dahdi_tone" where
  "tone_of_def td = tone0\<lparr>fac1 := td_fac1 td, init_v2_1 := td_init_v2_1 td, init_v3_1 := td_init_v3_1 td,
     fac2 := td_fac2 td, init_v2_2 := td_init_v2_2 td, init_v3_2 := td_init_v3_2 td, modulate := td_modulate td\<rparr>"

text \<open>
  One definition, for the zone at address \<open>a\<close>. \<open>work\<close> is what the loop notes of it for the linking: the index in
  the slab of a regular tone, and its \<open>next\<close>, a \<open>short\<close>.
\<close>

definition load_tone :: "dialparams \<Rightarrow> nat \<Rightarrow> int \<Rightarrow> tone_def \<Rightarrow> dahdi_zone \<Rightarrow> int + dahdi_zone \<times> (nat option \<times> int)" where
  "load_tone gd a count td z =
     (let t = tone_of_def td; n = td_tone td; cont = (\<lambda>arr i t. t\<lparr>next_tone := Some (InZone a arr i)\<rparr>) in
      if n \<ge> 0 \<and> n < int DAHDI_TONE_MAX then
        let nxt = wrap_short (td_next td); i = length (slab z) in
        if nxt \<ge> count \<or> nxt < 0 then Inl (- EINVAL)
        else Inr (z\<lparr>slab := slab z @ [t\<lparr>tonesamples := td_samples td\<rparr>],
                    tones := (if tones z ! nat n = None then (tones z)[nat n := Some (InZone a SlabTones i)] else tones z)\<rparr>,
                  (Some i, nxt))
      else if n \<ge> TONE_DTMF_BASE \<and> n \<le> TONE_DTMF_MAX then
        let i = nat (n - TONE_DTMF_BASE); t = t\<lparr>tonesamples := dtmf_tonelen gd, next_tone := Some DtmfSilence\<rparr>
        in Inr (z\<lparr>dtmf := (dtmf z)[i := t], dtmf_continuous := (dtmf_continuous z)[i := cont DtmfContinuous i t]\<rparr>, (None, 0))
      else if n \<ge> TONE_MFR1_BASE \<and> n \<le> TONE_MFR1_MAX then
        let i = nat (n - TONE_MFR1_BASE);
            t = t\<lparr>tonesamples := (if i \<ge> 10 then 100 * 8 else mfv1_tonelen gd), next_tone := Some Mfr1Silence\<rparr>
        in Inr (z\<lparr>mfr1 := (mfr1 z)[i := t]\<rparr>, (None, 0))
      else if n \<ge> TONE_MFR2_FWD_BASE \<and> n \<le> TONE_MFR2_FWD_MAX then
        let i = nat (n - TONE_MFR2_FWD_BASE); t = t\<lparr>tonesamples := mfr2_tonelen gd, next_tone := Some DtmfSilence\<rparr>
        in Inr (z\<lparr>mfr2_fwd := (mfr2_fwd z)[i := t],
                  mfr2_fwd_continuous := (mfr2_fwd_continuous z)[i := cont Mfr2FwdContinuous i t]\<rparr>, (None, 0))
      else if n \<ge> TONE_MFR2_REV_BASE \<and> n \<le> TONE_MFR2_REV_MAX then
        let i = nat (n - TONE_MFR2_REV_BASE); t = t\<lparr>tonesamples := mfr2_tonelen gd, next_tone := Some DtmfSilence\<rparr>
        in Inr (z\<lparr>mfr2_rev := (mfr2_rev z)[i := t],
                  mfr2_rev_continuous := (mfr2_rev_continuous z)[i := cont Mfr2RevContinuous i t]\<rparr>, (None, 0))
      else Inl (- EINVAL))"

text \<open>The loop over the definitions \<open>x\<close>, \<open>x + 1\<close>, ...: \<open>n\<close> are left.\<close>

fun load_tones :: "dialparams \<Rightarrow> nat \<Rightarrow> int \<Rightarrow> (nat \<Rightarrow> tone_def option) \<Rightarrow> nat \<Rightarrow> nat \<Rightarrow> int \<Rightarrow> dahdi_zone
    \<Rightarrow> (nat option \<times> int) list \<Rightarrow> int + dahdi_zone \<times> (nat option \<times> int) list" where
  "load_tones gd a count usr x 0 space z work = Inr (z, work)"
| "load_tones gd a count usr x (Suc n) space z work =
     (if space < SIZEOF_TONE then Inl (- EINVAL)
      else case usr x of
        None \<Rightarrow> Inl (- EFAULT)
      | Some td \<Rightarrow>
          (case load_tone gd a count td z of
             Inl e \<Rightarrow> Inl e
           | Inr (z', w) \<Rightarrow>
               load_tones gd a count usr (x + 1) n (if fst w \<noteq> None then space - SIZEOF_TONE else space) z' (work @ [w])))"

fun link_tone :: "nat \<Rightarrow> (nat option \<times> int) list \<Rightarrow> nat option \<times> int \<Rightarrow> dahdi_tone list \<Rightarrow> dahdi_tone list" where
  "link_tone a work (None, nxt) sl = sl"
| "link_tone a work (Some i, nxt) sl =
     sl[i := (sl ! i)\<lparr>next_tone := map_option (InZone a SlabTones) (fst (work ! nat nxt))\<rparr>]"

definition link_tones :: "nat \<Rightarrow> (nat option \<times> int) list \<Rightarrow> dahdi_tone list \<Rightarrow> dahdi_tone list" where
  "link_tones a work sl = fold (link_tone a work) work sl"

definition ioctl_load_zone ::
  "bool \<Rightarrow> bool \<Rightarrow> tone_def_header option \<Rightarrow> (nat \<Rightarrow> tone_def option) \<Rightarrow> tone_globals \<Rightarrow> int \<times> tone_globals"
where
  "ioctl_load_zone kzalloc1 kzalloc2 hdr usr G =
     (if \<not> kzalloc1 then (- ENOMEM, G)
      else case hdr of
        None \<Rightarrow> (- EFAULT, G)
      | Some th \<Rightarrow>
          if th_count th < 0 \<or> th_count th > 128 then (- EINVAL, G)
          else if SIZEOF_ZONE + th_count th * SIZEOF_TONE > 32768 then (- E2BIG, G)
          else if \<not> kzalloc2 then (- ENOMEM, G)
          else
            let a = length (zheap G) in
            (case load_tones (global_dialparams G) a (th_count th) usr 0 (nat (th_count th)) (th_count th * SIZEOF_TONE)
                    (zone0 th) [] of
               Inl e \<Rightarrow> (e, G)
             | Inr (z, work) \<Rightarrow>
                 let z = z\<lparr>slab := link_tones a work (slab z)\<rparr>;
                     (res, G') = dahdi_register_tone_zone (th_zone th) a (G\<lparr>zheap := zheap G @ [Some z]\<rparr>)
                 in if res \<noteq> 0 then (res, G)
                    else if default_zone G' = -1 then (0, snd (dahdi_set_default_zone (th_zone th) G'))
                    else (0, G')))"


section \<open>Zones stay alive while they are in use\<close>

lemma zone_upd_sel [simp]:
  "tone_zones (zone_upd a f G) = tone_zones G" "default_zone (zone_upd a f G) = default_zone G"
  "global_dialparams (zone_upd a f G) = global_dialparams G" "length (zheap (zone_upd a f G)) = length (zheap G)"
  by (simp_all add: zone_upd_def)

lemma zone_at_upd: "zone_at (zone_upd a f G) b = (if a = b then map_option f (zone_at G b) else zone_at G b)"
  by (auto simp: zone_at_def zone_upd_def nth_list_update)

lemma zone_at_sel [simp]:
  "zone_at (G\<lparr>tone_zones := t\<rparr>) b = zone_at G b" "zone_at (G\<lparr>default_zone := d\<rparr>) b = zone_at G b"
  "zone_at (G\<lparr>global_dialparams := p\<rparr>) b = zone_at G b"
  by (simp_all add: zone_at_def)

definition users :: "dahdi_chan list \<Rightarrow> nat \<Rightarrow> int" where
  "users cs a = int (length (filter (\<lambda>c. curzone c = Some a) cs))"

definition registered :: "tone_globals \<Rightarrow> nat \<Rightarrow> nat \<Rightarrow> bool" where
  "registered G n a \<longleftrightarrow> n < TONE_ZONE_MAX \<and> tone_zones G ! n = Some a"

definition refs :: "tone_globals \<Rightarrow> dahdi_chan list \<Rightarrow> nat \<Rightarrow> nat \<Rightarrow> int" where
  "refs G cs n a = users cs a + (if default_zone G = int n then 1 else 0)"

text \<open>The reference count of a registered zone is the number of channels that use it, and one for the default.\<close>

definition zones_ok :: "tone_globals \<times> dahdi_chan list \<Rightarrow> bool" where
  "zones_ok = (\<lambda>(G, cs). length (tone_zones G) = TONE_ZONE_MAX \<and>
     (\<forall>n a. registered G n a \<longrightarrow> (\<exists>z. zone_at G a = Some z \<and> refcount z = refs G cs n a)) \<and>
     (\<forall>n m a. registered G n a \<longrightarrow> registered G m a \<longrightarrow> n = m) \<and>
     (default_zone G = -1 \<or> (\<exists>n a. default_zone G = int n \<and> registered G n a)) \<and>
     (\<forall>c \<in> set cs. \<forall>a. curzone c = Some a \<longrightarrow> (\<exists>n. registered G n a)))"

text \<open>What the users of the module do to zones: the ioctls, and closing a channel.\<close>

inductive zone_step :: "tone_globals \<times> dahdi_chan list \<Rightarrow> tone_globals \<times> dahdi_chan list \<Rightarrow> bool" where
  load: "zone_step (G, cs) (snd (ioctl_load_zone k1 k2 hdr usr G), cs)"
| free: "zone_step (G, cs) (snd (free_tone_zone num G), cs)"
| default_z: "zone_step (G, cs) (snd (dahdi_set_default_zone num G), cs)"
| dialparams: "zone_step (G, cs) (ioctl_set_dialparams tdp G, cs)"
| set_zone: "i < length cs \<Longrightarrow> set_tone_zone zone G (cs ! i) = (r, G', c) \<Longrightarrow> zone_step (G, cs) (G', cs[i := c])"
| close_chan: "i < length cs \<Longrightarrow> release_tone_zone G (cs ! i) = (G', c) \<Longrightarrow> zone_step (G, cs) (G', cs[i := c])"
| play: "i < length cs \<Longrightarrow> start_tone G tone (cs ! i) = Some (r, c) \<Longrightarrow> zone_step (G, cs) (G, cs[i := c])"

lemma users_upd:
  assumes "i < length cs"
  shows "users (cs[i := c]) a = users cs a - (if curzone (cs ! i) = Some a then 1 else 0) + (if curzone c = Some a then 1 else 0)"
proof -
  have cs: "cs = take i cs @ cs ! i # drop (Suc i) cs" using assms by (rule id_take_nth_drop)
  have u: "cs[i := c] = take i cs @ c # drop (Suc i) cs" using assms by (rule upd_conv_take_nth_drop)
  show ?thesis unfolding u by (subst (3) cs) (simp add: users_def)
qed

lemma set_upd_cases: "x \<in> set (cs[i := c]) \<Longrightarrow> x = c \<or> x \<in> set cs"
  using set_update_subset_insert [of cs i c] by auto

lemma zones_okD:
  assumes "zones_ok (G, cs)"
  shows "length (tone_zones G) = TONE_ZONE_MAX"
    and "registered G n a \<Longrightarrow> \<exists>z. zone_at G a = Some z \<and> refcount z = refs G cs n a"
    and "registered G n a \<Longrightarrow> registered G m a \<Longrightarrow> n = m"
    and "default_zone G \<noteq> -1 \<Longrightarrow> \<exists>n a. default_zone G = int n \<and> registered G n a"
    and "c \<in> set cs \<Longrightarrow> curzone c = Some a \<Longrightarrow> \<exists>n. registered G n a"
  using assms unfolding zones_ok_def by blast+

lemma zones_okI:
  assumes "length (tone_zones G) = TONE_ZONE_MAX"
    and "\<And>n a. registered G n a \<Longrightarrow> \<exists>z. zone_at G a = Some z \<and> refcount z = refs G cs n a"
    and "\<And>n m a. registered G n a \<Longrightarrow> registered G m a \<Longrightarrow> n = m"
    and "default_zone G \<noteq> -1 \<Longrightarrow> \<exists>n a. default_zone G = int n \<and> registered G n a"
    and "\<And>c a. c \<in> set cs \<Longrightarrow> curzone c = Some a \<Longrightarrow> \<exists>n. registered G n a"
  shows "zones_ok (G, cs)"
  using assms unfolding zones_ok_def by blast

text \<open>Changing a channel without its zone, or a zone without its count, changes nothing.\<close>

lemma zones_ok_chan:
  assumes "zones_ok (G, cs)" "i < length cs" "curzone c = curzone (cs ! i)"
  shows "zones_ok (G, cs[i := c])"
proof (rule zones_okI)
  note D = zones_okD [OF assms(1)]
  show "length (tone_zones G) = TONE_ZONE_MAX" by (rule D)
  show "\<exists>z. zone_at G a = Some z \<and> refcount z = refs G (cs[i := c]) n a" if "registered G n a" for n a
    using D(2) [OF that] users_upd [OF assms(2), of c a] assms(3) by (auto simp: refs_def)
  show "n = m" if "registered G n a" "registered G m a" for n m a using D(3) that .
  show "default_zone G \<noteq> -1 \<Longrightarrow> \<exists>n a. default_zone G = int n \<and> registered G n a" by (rule D(4))
  show "\<exists>n. registered G n a" if "x \<in> set (cs[i := c])" "curzone x = Some a" for x a
    using set_upd_cases [OF that(1)] that(2) D(5) assms(2,3) by (metis nth_mem)
qed

lemma zones_ok_upd:
  assumes "zones_ok (G, cs)" "\<And>z. refcount (f z) = refcount z"
  shows "zones_ok (zone_upd a f G, cs)"
proof (rule zones_okI)
  note D = zones_okD [OF assms(1)]
  have r: "registered (zone_upd a f G) n b = registered G n b" for n b by (simp add: registered_def)
  show "length (tone_zones (zone_upd a f G)) = TONE_ZONE_MAX" using D(1) by simp
  show "\<exists>z. zone_at (zone_upd a f G) b = Some z \<and> refcount z = refs (zone_upd a f G) cs n b"
    if "registered (zone_upd a f G) n b" for n b
    using D(2) [of n b] that assms(2) by (auto simp: r zone_at_upd refs_def)
  show "n = m" if "registered (zone_upd a f G) n b" "registered (zone_upd a f G) m b" for n m b
    using D(3) that by (simp add: r)
  show "default_zone (zone_upd a f G) \<noteq> -1 \<Longrightarrow> \<exists>n b. default_zone (zone_upd a f G) = int n \<and> registered (zone_upd a f G) n b"
    using D(4) by (simp add: r)
  show "\<exists>n. registered (zone_upd a f G) n b" if "x \<in> set cs" "curzone x = Some b" for x b
    using D(5) that by (simp add: r)
qed


lemma registered_sel:
  "registered (atomic_inc a G) = registered G" "registered (atomic_dec a G) = registered G"
  "registered (G\<lparr>default_zone := d\<rparr>) = registered G" "registered (G\<lparr>zheap := h\<rparr>) = registered G"
  "registered (zone_upd a f G) = registered G"
  by (simp_all add: registered_def atomic_inc_def atomic_dec_def fun_eq_iff)

lemma zone_at_atomic:
  "zone_at (atomic_inc a G) b = (if a = b then map_option (\<lambda>z. z\<lparr>refcount := refcount z + 1\<rparr>) (zone_at G b) else zone_at G b)"
  "zone_at (atomic_dec a G) b = (if a = b then map_option (\<lambda>z. z\<lparr>refcount := refcount z - 1\<rparr>) (zone_at G b) else zone_at G b)"
  by (simp_all add: atomic_inc_def atomic_dec_def zone_at_upd)

lemma atomic_sel [simp]:
  "tone_zones (atomic_inc a G) = tone_zones G" "tone_zones (atomic_dec a G) = tone_zones G"
  "default_zone (atomic_inc a G) = default_zone G" "default_zone (atomic_dec a G) = default_zone G"
  by (simp_all add: atomic_inc_def atomic_dec_def)

lemma users_nonneg: "0 \<le> users cs a"
  by (simp add: users_def)

lemma users_zero: "users cs a = 0 \<Longrightarrow> c \<in> set cs \<Longrightarrow> curzone c \<noteq> Some a"
  by (auto simp: users_def filter_empty_conv)

lemma free_zones_ok:
  assumes "zones_ok (G, cs)"
  shows "zones_ok (snd (free_tone_zone num G), cs)"
proof (cases "fst (free_tone_zone num G) = 0 \<and> 0 \<le> num \<and> num < 128 \<and> tone_zones G ! nat num \<noteq> None")
  case False
  then have "snd (free_tone_zone num G) = G"
    by (auto simp: free_tone_zone_def split: option.splits)
  then show ?thesis using assms by simp
next
  case True
  note D = zones_okD [OF assms]
  from True obtain a where a: "tone_zones G ! nat num = Some a" by auto
  then have ra: "registered G (nat num) a" using True by (simp add: registered_def nat_less_iff)
  from D(2) [OF ra] obtain z where z: "zone_at G a = Some z" "refcount z = refs G cs (nat num) a" by auto
  have z0: "refcount z = 0" using True a z(1) by (auto simp: free_tone_zone_def split: if_splits)
  then have u0: "users cs a = 0" and nd: "default_zone G \<noteq> num"
    using z(2) users_nonneg [of cs a] True by (auto simp: refs_def split: if_splits)
  let ?G = "G\<lparr>tone_zones := (tone_zones G)[nat num := None], zheap := (zheap G)[a := None]\<rparr>"
  have G': "snd (free_tone_zone num G) = ?G"
    using True a z(1) z0 by (auto simp: free_tone_zone_def)
  have r: "registered ?G n b \<longleftrightarrow> registered G n b \<and> n \<noteq> nat num" for n b
    using D(1) True by (auto simp: registered_def nth_list_update split: if_splits)
  have ne: "registered G n b \<Longrightarrow> n \<noteq> nat num \<Longrightarrow> b \<noteq> a" for n b using D(3) ra by blast
  have za: "b \<noteq> a \<Longrightarrow> zone_at ?G b = zone_at G b" for b by (simp add: zone_at_def)
  show ?thesis unfolding G'
  proof (rule zones_okI)
    show "length (tone_zones ?G) = TONE_ZONE_MAX" using D(1) by simp
    show "\<exists>z. zone_at ?G b = Some z \<and> refcount z = refs ?G cs n b" if "registered ?G n b" for n b
      using that D(2) [of n b] ne [of n b] za [of b] unfolding r by (auto simp: refs_def)
    show "n = m" if "registered ?G n b" "registered ?G m b" for n m b using that D(3) unfolding r by blast
    show "default_zone ?G \<noteq> -1 \<Longrightarrow> \<exists>n b. default_zone ?G = int n \<and> registered ?G n b"
    proof -
      assume "default_zone ?G \<noteq> -1"
      then obtain n b where "default_zone G = int n" "registered G n b" using D(4) by auto
      then show ?thesis using nd True r by (intro exI [of _ n] exI [of _ b]) auto
    qed
    show "\<exists>n. registered ?G n b" if "x \<in> set cs" "curzone x = Some b" for x b
    proof -
      from D(5) [OF that] obtain n where n: "registered G n b" by auto
      have "b \<noteq> a" using users_zero [OF u0 that(1)] that(2) by auto
      then have "n \<noteq> nat num" using n a by (auto simp: registered_def)
      then show ?thesis using n r by blast
    qed
  qed
qed

lemma set_default_zones_ok:
  assumes "zones_ok (G, cs)"
  shows "zones_ok (snd (dahdi_set_default_zone num G), cs)"
proof (cases "0 \<le> num \<and> num < 128 \<and> tone_zones G ! nat num \<noteq> None")
  case False
  then have "snd (dahdi_set_default_zone num G) = G"
    by (auto simp: dahdi_set_default_zone_def split: option.splits)
  then show ?thesis using assms by simp
next
  case True
  note D = zones_okD [OF assms]
  from True obtain a where a: "tone_zones G ! nat num = Some a" by auto
  then have ra: "registered G (nat num) a" using True by (simp add: registered_def nat_less_iff)
  define G1 where "G1 = (if default_zone G \<noteq> -1 then
      (case tone_zones G ! nat (default_zone G) of Some d \<Rightarrow> atomic_dec d G | None \<Rightarrow> G) else G)"
  let ?G = "(atomic_inc a G1)\<lparr>default_zone := num\<rparr>"
  have G': "snd (dahdi_set_default_zone num G) = ?G"
    using True a by (simp add: dahdi_set_default_zone_def G1_def Let_def)
  have g1: "registered G1 = registered G" "default_zone G1 = default_zone G" "tone_zones G1 = tone_zones G"
    by (auto simp: G1_def registered_sel split: option.splits)
  have z1: "\<exists>z. zone_at G1 b = Some z \<and> refcount z = users cs b" if "registered G n b" for n b
  proof (cases "default_zone G = -1")
    case True
    then show ?thesis using D(2) [OF that] by (auto simp: G1_def refs_def)
  next
    case False
    from D(4) [OF this] obtain m d where m: "default_zone G = int m" "registered G m d" by auto
    then have G1: "G1 = atomic_dec d G" by (simp add: G1_def registered_def)
    have "b = d \<longleftrightarrow> n = m" using m(2) that D(3) by (auto simp: registered_def)
    then show ?thesis using D(2) [OF that] m(1) by (auto simp: G1 zone_at_atomic refs_def)
  qed
  have r: "registered ?G = registered G" using g1 by (simp add: registered_sel)
  show ?thesis unfolding G'
  proof (rule zones_okI)
    show "length (tone_zones ?G) = TONE_ZONE_MAX" using D(1) g1 by simp
    show "\<exists>z. zone_at ?G b = Some z \<and> refcount z = refs ?G cs n b" if "registered ?G n b" for n b
    proof -
      have rb: "registered G n b" using that r by simp
      have "b = a \<longleftrightarrow> n = nat num" using ra rb D(3) by (auto simp: registered_def)
      then show ?thesis using z1 [OF rb] True by (auto simp: zone_at_atomic refs_def)
    qed
    show "n = m" if "registered ?G n b" "registered ?G m b" for n m b using that D(3) unfolding r by blast
    have "default_zone ?G = int (nat num) \<and> registered ?G (nat num) a" using True ra r by simp
    then show "default_zone ?G \<noteq> -1 \<Longrightarrow> \<exists>n b. default_zone ?G = int n \<and> registered ?G n b" by blast
    show "\<exists>n. registered ?G n b" if "x \<in> set cs" "curzone x = Some b" for x b using D(5) [OF that] r by simp
  qed
qed


lemma set_tone_zones_ok:
  assumes ok: "zones_ok (G, cs)" and i: "i < length cs" and st: "set_tone_zone zone G (cs ! i) = (r, G', c)"
  shows "zones_ok (G', cs[i := c])"
proof -
  define num where "num = (if zone = -1 then default_zone G else zone)"
  note D = zones_okD [OF ok]
  show ?thesis
  proof (cases "0 \<le> num \<and> num < 128 \<and> tone_zones G ! nat num \<noteq> None")
    case False
    then have "G' = G" "c = cs ! i"
      using st by (auto simp: set_tone_zone_def Let_def num_def split: option.splits if_splits)
    then show ?thesis using ok by simp
  next
    case True
    then obtain a where a: "tone_zones G ! nat num = Some a" by auto
    then have ra: "registered G (nat num) a" using True by (simp add: registered_def nat_less_iff)
    define G1 where "G1 = (case curzone (cs ! i) of Some a \<Rightarrow> atomic_dec a G | None \<Rightarrow> G)"
    have G': "G' = atomic_inc a G1" and c: "curzone c = Some a"
      using st True a by (auto simp: set_tone_zone_def Let_def num_def G1_def split: if_splits)
    have g1: "registered G' = registered G" "default_zone G' = default_zone G" "tone_zones G' = tone_zones G"
      by (auto simp: G1_def G' registered_sel split: option.splits)
    have z1: "zone_at G1 b = map_option (\<lambda>z. z\<lparr>refcount := refcount z - (if curzone (cs ! i) = Some b then 1 else 0)\<rparr>) (zone_at G b)" for b
      by (cases "zone_at G b") (auto simp: G1_def zone_at_atomic split: option.splits)
    show ?thesis
    proof (rule zones_okI)
      show "length (tone_zones G') = TONE_ZONE_MAX" using D(1) g1 by simp
      show "\<exists>z. zone_at G' b = Some z \<and> refcount z = refs G' (cs[i := c]) n b" if "registered G' n b" for n b
      proof -
        from D(2) [of n b] that g1 obtain z where z: "zone_at G b = Some z" "refcount z = refs G cs n b" by auto
        show ?thesis using z
          by (cases "a = b") (simp_all add: G' zone_at_atomic z1 refs_def users_upd [OF i] c, simp_all add: G1_def split: option.splits)
      qed
      show "n = m" if "registered G' n b" "registered G' m b" for n m b using that D(3) unfolding g1 by blast
      show "default_zone G' \<noteq> -1 \<Longrightarrow> \<exists>n b. default_zone G' = int n \<and> registered G' n b" unfolding g1 by (rule D(4))
      show "\<exists>n. registered G' n b" if "x \<in> set (cs[i := c])" "curzone x = Some b" for x b
        using set_upd_cases [OF that(1)] that(2) c ra D(5) [of x b] unfolding g1 by auto
    qed
  qed
qed

lemma release_zones_ok:
  assumes ok: "zones_ok (G, cs)" and i: "i < length cs" and st: "release_tone_zone G (cs ! i) = (G', c)"
  shows "zones_ok (G', cs[i := c])"
proof -
  note D = zones_okD [OF ok]
  have G': "G' = (case curzone (cs ! i) of Some a \<Rightarrow> atomic_dec a G | None \<Rightarrow> G)" and c: "curzone c = None"
    using st by (auto simp: release_tone_zone_def)
  have g1: "registered G' = registered G" "default_zone G' = default_zone G" "tone_zones G' = tone_zones G"
    by (auto simp: G' registered_sel split: option.splits)
  have z1: "zone_at G' b = map_option (\<lambda>z. z\<lparr>refcount := refcount z - (if curzone (cs ! i) = Some b then 1 else 0)\<rparr>) (zone_at G b)" for b
    by (cases "zone_at G b") (auto simp: G' zone_at_atomic split: option.splits)
  show ?thesis
  proof (rule zones_okI)
    show "length (tone_zones G') = TONE_ZONE_MAX" using D(1) g1 by simp
    show "\<exists>z. zone_at G' b = Some z \<and> refcount z = refs G' (cs[i := c]) n b" if "registered G' n b" for n b
      using D(2) [of n b] that unfolding g1 by (auto simp: z1 refs_def users_upd [OF i] c g1)
    show "n = m" if "registered G' n b" "registered G' m b" for n m b using that D(3) unfolding g1 by blast
    show "default_zone G' \<noteq> -1 \<Longrightarrow> \<exists>n b. default_zone G' = int n \<and> registered G' n b" unfolding g1 by (rule D(4))
    show "\<exists>n. registered G' n b" if "x \<in> set (cs[i := c])" "curzone x = Some b" for x b
      using set_upd_cases [OF that(1)] that(2) c D(5) [of x b] unfolding g1 by auto
  qed
qed

lemma start_tone_curzone: "start_tone G tone chan = Some (r, c) \<Longrightarrow> curzone c = curzone chan"
  by (auto simp: start_tone_def start_tone_digit_def Let_def split: if_splits option.splits prod.splits)

lemma zones_ok_cong:
  assumes "tone_zones H = tone_zones G" "zheap H = zheap G" "default_zone H = default_zone G"
  shows "zones_ok (H, cs) = zones_ok (G, cs)"
proof -
  have "registered H = registered G" "zone_at H = zone_at G" "refs H cs = refs G cs"
    using assms by (simp_all add: registered_def zone_at_def refs_def fun_eq_iff)
  then show ?thesis using assms by (simp add: zones_ok_def)
qed

lemma set_dialparams_zones_ok:
  assumes "zones_ok (G, cs)"
  shows "zones_ok (ioctl_set_dialparams tdp G, cs)"
proof -
  have f: "zones_ok (fold (\<lambda>j G. case tone_zones G ! j of Some a \<Rightarrow> zone_upd a f G | None \<Rightarrow> G) js H, cs)"
    if "zones_ok (H, cs)" "\<And>z. refcount (f z) = refcount z" for f js H
    using that(1)
  proof (induction js arbitrary: H)
    case (Cons j js)
    then show ?case by (auto split: option.splits intro: zones_ok_upd that(2))
  qed simp
  have s: "zones_ok (H\<lparr>dtmf_silence := x, mfr1_silence := y, mfr2_silence := z\<rparr>, cs)"
    "zones_ok (H\<lparr>global_dialparams := p\<rparr>, cs)" if "zones_ok (H, cs)" for H x y z p
    using that by (auto intro: zones_ok_cong [THEN iffD2])
  show ?thesis
    unfolding ioctl_set_dialparams_def Let_def by (rule s(1), rule f, rule s(2), rule assms) simp
qed


section \<open>A loaded zone is well-formed\<close>

definition zone_lens :: "dahdi_zone \<Rightarrow> bool" where
  "zone_lens z \<longleftrightarrow> length (tones z) = DAHDI_TONE_MAX \<and> length (dtmf z) = 16 \<and> length (dtmf_continuous z) = 16 \<and>
     length (mfr1 z) = 15 \<and> length (mfr2_fwd z) = 15 \<and> length (mfr2_rev z) = 15 \<and>
     length (mfr2_fwd_continuous z) = 16 \<and> length (mfr2_rev_continuous z) = 16"

fun ptr_ok :: "nat \<Rightarrow> dahdi_zone \<Rightarrow> tone_ptr \<Rightarrow> bool" where
  "ptr_ok a z (InZone b arr i) = (b = a \<and> i < length (zone_array arr z))"
| "ptr_ok a z p = True"

definition tone_wf :: "nat \<Rightarrow> dahdi_zone \<Rightarrow> dahdi_tone \<Rightarrow> bool" where
  "tone_wf a z t \<longleftrightarrow> (\<forall>p. next_tone t = Some p \<longrightarrow> ptr_ok a z p)"

definition zone_wf :: "nat \<Rightarrow> dahdi_zone \<Rightarrow> bool" where
  "zone_wf a z \<longleftrightarrow> zone_lens z \<and> (\<forall>p. Some p \<in> set (tones z) \<longrightarrow> ptr_ok a z p) \<and>
     (\<forall>arr. \<forall>t \<in> set (zone_array arr z). tone_wf a z t)"

lemma ptr_ok_mono:
  "ptr_ok a z p \<Longrightarrow> (\<And>arr. length (zone_array arr z) \<le> length (zone_array arr z')) \<Longrightarrow> ptr_ok a z' p"
  by (cases p) (auto intro: less_le_trans)

lemma zone_wf_upd:
  assumes "zone_wf a z" "zone_lens z'" and le: "\<And>arr. length (zone_array arr z) \<le> length (zone_array arr z')"
    and "\<And>p. Some p \<in> set (tones z') \<Longrightarrow> Some p \<in> set (tones z) \<or> ptr_ok a z' p"
    and "\<And>arr t. t \<in> set (zone_array arr z') \<Longrightarrow> t \<in> set (zone_array arr z) \<or> tone_wf a z' t"
  shows "zone_wf a z'"
proof -
  have m: "ptr_ok a z p \<Longrightarrow> ptr_ok a z' p" for p by (erule ptr_ok_mono) (rule le)
  then have "tone_wf a z t \<Longrightarrow> tone_wf a z' t" for t by (simp add: tone_wf_def)
  then show ?thesis using assms m unfolding zone_wf_def by blast
qed

lemma zone_wf_cong:
  "zone_wf a (z\<lparr>refcount := m\<rparr>) = zone_wf a z" (is "zone_wf a ?z = _")
proof -
  have arr: "zone_array arr ?z = zone_array arr z" for arr by (cases arr) simp_all
  have "ptr_ok a ?z p = ptr_ok a z p" for p by (cases p) (simp_all add: arr)
  then show ?thesis by (simp add: zone_wf_def zone_lens_def tone_wf_def arr)
qed

lemma set_updE: "t \<in> set (xs[i := x]) \<Longrightarrow> t = x \<or> t \<in> set xs"
  using set_update_subset_insert [of xs i x] by auto

definition work_ok :: "dahdi_zone \<Rightarrow> nat option \<times> int \<Rightarrow> bool" where
  "work_ok z w \<longleftrightarrow> (\<forall>i. fst w = Some i \<longrightarrow> i < length (slab z))"

lemma load_tone_wf:
  assumes wf: "zone_wf a z" and l: "load_tone gd a count td z = Inr (z', w)"
  shows "zone_wf a z'" "refcount z' = refcount z" "work_ok z' w" "length (slab z) \<le> length (slab z')"
proof -
  have lens: "zone_lens z" using wf by (simp add: zone_wf_def)
  show "refcount z' = refcount z" "work_ok z' w" "length (slab z) \<le> length (slab z')"
    using l by (auto simp: load_tone_def Let_def work_ok_def split: if_splits)
  have lz: "zone_lens z'" using l lens by (auto simp: load_tone_def Let_def zone_lens_def split: if_splits)
  show "zone_wf a z'"
  proof (rule zone_wf_upd [OF wf lz])
    show "length (zone_array arr z) \<le> length (zone_array arr z')" for arr
      using l by (cases arr) (auto simp: load_tone_def Let_def split: if_splits)
    show "Some p \<in> set (tones z) \<or> ptr_ok a z' p" if "Some p \<in> set (tones z')" for p
      using l that by (auto simp: load_tone_def Let_def split: if_splits dest!: set_updE)
    show "t \<in> set (zone_array arr z) \<or> tone_wf a z' t" if "t \<in> set (zone_array arr z')" for arr t
      using l that lens
      by (cases arr) (auto simp: load_tone_def Let_def tone_wf_def tone_of_def_def tone0_def zone_lens_def
            nat_less_iff split: if_splits dest!: set_updE)
  qed
qed

lemma load_tones_wf:
  assumes "zone_wf a z" "\<forall>w \<in> set work. work_ok z w"
    and "load_tones gd a count usr x n space z work = Inr (z', work')"
  shows "zone_wf a z' \<and> refcount z' = refcount z \<and> (\<forall>w \<in> set work'. work_ok z' w)"
  using assms
proof (induction n arbitrary: x space z work)
  case (Suc n)
  from Suc.prems(3) obtain td z1 w where l: "load_tone gd a count td z = Inr (z1, w)"
    and r: "load_tones gd a count usr (x + 1) n (if fst w \<noteq> None then space - SIZEOF_TONE else space) z1 (work @ [w])
        = Inr (z', work')"
    by (auto split: if_splits option.splits sum.splits prod.splits)
  note t = load_tone_wf [OF Suc.prems(1) l]
  have "\<forall>v \<in> set (work @ [w]). work_ok z1 v"
    using Suc.prems(2) t(3,4) by (fastforce simp: work_ok_def)
  from Suc.IH [OF t(1) this r] t(2) show ?case by simp
qed simp

lemma zone0_wf: "zone_wf a (zone0 th)"
proof -
  have "t = tone0" if "t \<in> set (zone_array arr (zone0 th))" for arr t
    using that by (cases arr) (auto simp: zone0_def)
  moreover have "tone_wf a z tone0" for z by (simp add: tone_wf_def tone0_def)
  ultimately have "\<forall>arr. \<forall>t \<in> set (zone_array arr (zone0 th)). tone_wf a (zone0 th) t" by blast
  moreover have "zone_lens (zone0 th)" "\<forall>p. Some p \<notin> set (tones (zone0 th))"
    by (simp_all add: zone_lens_def zone0_def)
  ultimately show ?thesis unfolding zone_wf_def by blast
qed

lemma link_tones_wf:
  assumes wf: "zone_wf a z" and work: "\<forall>w \<in> set work. work_ok z w" "\<forall>w \<in> set work. 0 \<le> snd w \<and> snd w < int (length work)"
  shows "zone_wf a (z\<lparr>slab := link_tones a work (slab z)\<rparr>)"
proof -
  have l1: "length (link_tone a work w sl) = length sl" for w and sl :: "dahdi_tone list"
    by (cases "(a, work, w, sl)" rule: link_tone.cases) simp_all
  have "length (fold (link_tone a work) ws sl) = length sl" for ws and sl :: "dahdi_tone list"
    by (induction ws arbitrary: sl) (simp_all add: l1)
  then have len: "length (link_tones a work sl) = length sl" for sl :: "dahdi_tone list" by (simp add: link_tones_def)
  define P where "P = (\<lambda>t :: dahdi_tone. \<forall>p. next_tone t = Some p \<longrightarrow> ptr_ok a z p)"
  have nxt: "work_ok z (work ! nat n)" if "0 \<le> n" "n < int (length work)" for n
    using work(1) that by (simp add: nat_less_iff)
  have step: "\<forall>t \<in> set (link_tone a work w sl). P t"
    if "0 \<le> snd w \<and> snd w < int (length work)" "\<forall>t \<in> set sl. P t" for w sl
    using that nxt [of "snd w"]
    by (cases "(a, work, w, sl)" rule: link_tone.cases) (auto simp: P_def work_ok_def dest!: set_updE)
  have "\<forall>t \<in> set (fold (link_tone a work) ws sl). P t"
    if "\<forall>w \<in> set ws. 0 \<le> snd w \<and> snd w < int (length work)" "\<forall>t \<in> set sl. P t" for ws sl
    using that
  proof (induction ws arbitrary: sl)
    case (Cons w ws)
    have w: "0 \<le> snd w \<and> snd w < int (length work)" using Cons.prems(1) by simp
    show ?case using Cons.IH [OF _ step [OF w Cons.prems(2)]] Cons.prems(1) by simp
  qed simp
  moreover have "\<forall>t \<in> set (slab z). P t"
    using wf zone_array.simps(1) [of z] unfolding P_def zone_wf_def tone_wf_def by metis
  ultimately have P: "\<forall>t \<in> set (link_tones a work (slab z)). P t"
    using work(2) by (simp add: link_tones_def)
  show ?thesis
  proof (rule zone_wf_upd [OF wf])
    show "zone_lens (z\<lparr>slab := link_tones a work (slab z)\<rparr>)" using wf by (simp add: zone_wf_def zone_lens_def)
    show le: "length (zone_array arr z) \<le> length (zone_array arr (z\<lparr>slab := link_tones a work (slab z)\<rparr>))" for arr
      by (cases arr) (simp_all add: len)
    show "Some p \<in> set (tones z) \<or> ptr_ok a (z\<lparr>slab := link_tones a work (slab z)\<rparr>) p"
      if "Some p \<in> set (tones (z\<lparr>slab := link_tones a work (slab z)\<rparr>))" for p
      using that by simp
    show "t \<in> set (zone_array arr z) \<or> tone_wf a (z\<lparr>slab := link_tones a work (slab z)\<rparr>) t"
      if "t \<in> set (zone_array arr (z\<lparr>slab := link_tones a work (slab z)\<rparr>))" for arr t
    proof (cases "arr = SlabTones")
      case True
      have "\<And>p. ptr_ok a z p \<Longrightarrow> ptr_ok a (z\<lparr>slab := link_tones a work (slab z)\<rparr>) p"
        by (erule ptr_ok_mono) (rule le)
      then show ?thesis using P that True by (auto simp: P_def tone_wf_def len)
    next
      case False
      then show ?thesis using that by (cases arr) simp_all
    qed
  qed
qed

lemma load_tones_next:
  assumes "\<forall>w \<in> set work. 0 \<le> snd w \<and> snd w < count" "int n + int (length work) = count"
    and "load_tones gd a count usr x n space z work = Inr (z', work')"
  shows "(\<forall>w \<in> set work'. 0 \<le> snd w \<and> snd w < int (length work')) \<and> int (length work') = count"
  using assms
proof (induction n arbitrary: x space z work)
  case (Suc n)
  from Suc.prems(3) obtain td z1 w where l: "load_tone gd a count td z = Inr (z1, w)"
    and r: "load_tones gd a count usr (x + 1) n (if fst w \<noteq> None then space - SIZEOF_TONE else space) z1 (work @ [w])
        = Inr (z', work')"
    by (auto split: if_splits option.splits sum.splits prod.splits)
  have "0 \<le> snd w \<and> snd w < count"
    using l Suc.prems(2) by (auto simp: load_tone_def Let_def split: if_splits)
  then have 1: "\<forall>w \<in> set (work @ [w]). 0 \<le> snd w \<and> snd w < count" using Suc.prems(1) by simp
  have 2: "int n + int (length (work @ [w])) = count" using Suc.prems(2) by simp
  show ?case by (rule Suc.IH [OF 1 2 r])
qed simp

lemma load_tone_error: "load_tone gd a count td z = Inl e \<Longrightarrow> e < 0"
  by (auto simp: load_tone_def Let_def split: if_splits)

lemma load_tones_error: "load_tones gd a count usr x n space z work = Inl e \<Longrightarrow> e < 0"
  by (induction n arbitrary: x space z work)
    (auto split: if_splits option.splits sum.splits prod.splits dest: load_tone_error)

section \<open>The lengths of tones\<close>

text \<open>
  A cell of a zone that no definition has filled has no samples and no successor: a zone has such cells always, for
  \<open>mfr2_fwd_continuous\<close> and \<open>mfr2_rev_continuous\<close> have one element more than there are digits. A tone that has been
  defined has samples, if the definition gives it some.
\<close>

definition tone_len_ok :: "dahdi_tone \<Rightarrow> bool" where
  "tone_len_ok t \<longleftrightarrow> 0 < tonesamples t \<or> tonesamples t = 0 \<and> next_tone t = None"

definition dial_good :: "dialparams \<Rightarrow> bool" where
  "dial_good p \<longleftrightarrow> 0 < mfv1_tonelen p \<and> 0 < dtmf_tonelen p \<and> 0 < mfr2_tonelen p"

text \<open>While a zone is loaded, the tones of its slab have samples; linking them keeps that.\<close>

definition lens_good :: "dahdi_zone \<Rightarrow> bool" where
  "lens_good z \<longleftrightarrow> (\<forall>arr. \<forall>t \<in> set (zone_array arr z). tone_len_ok t \<and> (arr = SlabTones \<longrightarrow> 0 < tonesamples t))"

lemma lens_goodI:
  assumes "lens_good z"
    and "\<And>arr t. t \<in> set (zone_array arr z') \<Longrightarrow> t \<in> set (zone_array arr z) \<or> 0 < tonesamples t"
  shows "lens_good z'"
  using assms unfolding lens_good_def tone_len_ok_def by blast

lemma load_tone_lens:
  assumes l: "load_tone gd a count td z = Inr (z', w)" and z: "lens_good z" and gd: "dial_good gd" "0 < td_samples td"
  shows "lens_good z'"
proof (rule lens_goodI [OF z])
  show "t \<in> set (zone_array arr z) \<or> 0 < tonesamples t" if "t \<in> set (zone_array arr z')" for arr t
    using l that gd by (cases arr) (auto simp: load_tone_def Let_def dial_good_def split: if_splits dest!: set_updE)
qed

lemma load_tones_lens:
  assumes "load_tones gd a count usr x n space z work = Inr (z', work')" "lens_good z"
    and "dial_good gd" "\<forall>n td. usr n = Some td \<longrightarrow> 0 < td_samples td"
  shows "lens_good z'"
  using assms
proof (induction n arbitrary: x space z work)
  case (Suc n)
  from Suc.prems(1) obtain td z1 w where u: "usr x = Some td" and l: "load_tone gd a count td z = Inr (z1, w)"
    and r: "load_tones gd a count usr (x + 1) n (if fst w \<noteq> None then space - SIZEOF_TONE else space) z1 (work @ [w])
        = Inr (z', work')"
    by (auto split: if_splits option.splits sum.splits prod.splits)
  have "0 < td_samples td" using Suc.prems(4) u by blast
  then show ?case using Suc.IH [OF r] load_tone_lens [OF l Suc.prems(2,3)] Suc.prems(3,4) by blast
qed simp

lemma zone0_lens: "lens_good (zone0 th)"
proof -
  have "t = tone0 \<and> arr \<noteq> SlabTones" if "t \<in> set (zone_array arr (zone0 th))" for arr t
    using that by (cases arr) (auto simp: zone0_def)
  moreover have "tone_len_ok tone0" by (simp add: tone_len_ok_def tone0_def)
  ultimately show ?thesis unfolding lens_good_def by blast
qed

lemma link_tones_lens:
  assumes "\<forall>t \<in> set sl. 0 < tonesamples t"
  shows "\<forall>t \<in> set (link_tones a work sl). 0 < tonesamples t"
proof -
  have step: "\<forall>t \<in> set (link_tone a work w sl). 0 < tonesamples t" if "\<forall>t \<in> set sl. 0 < tonesamples t" for w sl
  proof (cases "(a, work, w, sl)" rule: link_tone.cases)
    case (2 _ _ i nxt _)
    show ?thesis
    proof (cases "i < length sl")
      case True
      then show ?thesis using that 2 nth_mem [OF True] by (auto dest!: set_updE)
    qed (use that 2 in \<open>simp add: list_update_beyond\<close>)
  qed (use that in simp)
  define Q where "Q = (\<lambda>sl :: dahdi_tone list. \<forall>t \<in> set sl. 0 < tonesamples t)"
  have "Q (link_tone a work w sl)" if "Q sl" for w sl using step that by (simp add: Q_def)
  then have "Q (fold (link_tone a work) ws sl)" if "Q sl" for ws sl
    using that by (induction ws arbitrary: sl) simp_all
  then show ?thesis using assms by (simp add: link_tones_def Q_def)
qed

lemma link_lens:
  assumes "lens_good z"
  shows "lens_good (z\<lparr>slab := link_tones a work (slab z)\<rparr>)"
proof (rule lens_goodI [OF assms])
  have sl: "\<forall>t \<in> set (link_tones a work (slab z)). 0 < tonesamples t"
    by (rule link_tones_lens) (use assms zone_array.simps(1) [of z] in \<open>metis lens_good_def\<close>)
  show "t \<in> set (zone_array arr z) \<or> 0 < tonesamples t"
    if "t \<in> set (zone_array arr (z\<lparr>slab := link_tones a work (slab z)\<rparr>))" for arr t
    using that sl by (cases arr) auto
qed

section \<open>The result of a load\<close>

text \<open>A successful load registers, at a fresh address, a zone all of whose pointers are valid.\<close>

lemma load_zone_result:
  assumes "ioctl_load_zone k1 k2 hdr usr G = (0, G')"
  obtains th z G1 where "hdr = Some th" "zone_wf (length (zheap G)) z" "refcount z = 0"
    "dial_good (global_dialparams G) \<and> (\<forall>n td. usr n = Some td \<longrightarrow> 0 < td_samples td) \<longrightarrow> lens_good z"
    "0 \<le> th_zone th" "th_zone th < 128" "tone_zones G ! nat (th_zone th) = None"
    "G1 = G\<lparr>zheap := zheap G @ [Some z], tone_zones := (tone_zones G)[nat (th_zone th) := Some (length (zheap G))]\<rparr>"
    "G' = (if default_zone G = -1 then snd (dahdi_set_default_zone (th_zone th) G1) else G1)"
proof -
  from assms obtain th z work where h: "hdr = Some th"
    and l: "load_tones (global_dialparams G) (length (zheap G)) (th_count th) usr 0 (nat (th_count th))
        (th_count th * SIZEOF_TONE) (zone0 th) [] = Inr (z, work)"
    and c: "0 \<le> th_count th"
    by (auto simp: ioctl_load_zone_def Let_def split: if_splits option.splits sum.splits prod.splits dest: load_tones_error)
  let ?z = "z\<lparr>slab := link_tones (length (zheap G)) work (slab z)\<rparr>"
  have w: "zone_wf (length (zheap G)) z \<and> refcount z = refcount (zone0 th) \<and> (\<forall>w \<in> set work. work_ok z w)"
    by (rule load_tones_wf [OF zone0_wf _ l]) simp
  have 1: "zone_wf (length (zheap G)) ?z"
    by (rule link_tones_wf) (use w load_tones_next [OF _ _ l] c in auto)
  have 2: "refcount ?z = 0" using w by (simp add: zone0_def)
  have 3: "dial_good (global_dialparams G) \<and> (\<forall>n td. usr n = Some td \<longrightarrow> 0 < td_samples td) \<longrightarrow> lens_good ?z"
    using link_lens [OF load_tones_lens [OF l zone0_lens]] by blast
  show ?thesis
    using assms h l c
    by (intro that [OF h 1 2 3, of "snd (dahdi_register_tone_zone (th_zone th) (length (zheap G)) (G\<lparr>zheap := zheap G @ [Some ?z]\<rparr>))"])
      (auto simp: ioctl_load_zone_def dahdi_register_tone_zone_def Let_def split: if_splits prod.splits)
qed

lemma load_zone_error: "ioctl_load_zone k1 k2 hdr usr G = (r, G') \<Longrightarrow> r \<noteq> 0 \<Longrightarrow> G' = G"
  by (auto simp: ioctl_load_zone_def Let_def split: if_splits option.splits sum.splits prod.splits)

lemma register_zones_ok:
  assumes ok: "zones_ok (G, cs)" and z: "refcount z = 0" and n: "n < 128" "tone_zones G ! n = None"
  shows "zones_ok (G\<lparr>zheap := zheap G @ [Some z], tone_zones := (tone_zones G)[n := Some (length (zheap G))]\<rparr>, cs)"
    (is "zones_ok (?G, cs)")
proof -
  note D = zones_okD [OF ok]
  let ?a = "length (zheap G)"
  have r: "registered ?G m b \<longleftrightarrow> (if m = n then b = ?a else registered G m b)" for m b
    using D(1) n by (auto simp: registered_def nth_list_update)
  have lt: "b < ?a" if "registered G m b" for m b
    using D(2) [OF that] by (auto simp: zone_at_def split: if_splits)
  have za: "b < ?a \<Longrightarrow> zone_at ?G b = zone_at G b" "zone_at ?G ?a = Some z" for b
    by (auto simp: zone_at_def nth_append)
  have u: "users cs ?a = 0"
  proof -
    have "curzone c \<noteq> Some ?a" if "c \<in> set cs" for c using D(5) [OF that] lt by blast
    then show ?thesis by (simp add: users_def filter_empty_conv)
  qed
  have d: "default_zone G \<noteq> int n" using D(4) n by (force simp: registered_def)
  show ?thesis
  proof (rule zones_okI)
    show "length (tone_zones ?G) = TONE_ZONE_MAX" using D(1) by simp
    show "\<exists>z. zone_at ?G b = Some z \<and> refcount z = refs ?G cs m b" if "registered ?G m b" for m b
      using that D(2) [of m b] lt [of m b] za z u d unfolding r by (auto simp: refs_def split: if_splits)
    show "m = k" if "registered ?G m b" "registered ?G k b" for m k b
      using that D(3) [of m b k] lt [of _ b] unfolding r by (auto split: if_splits)
    show "default_zone ?G \<noteq> -1 \<Longrightarrow> \<exists>m b. default_zone ?G = int m \<and> registered ?G m b"
      unfolding r using D(4) by auto
    show "\<exists>m. registered ?G m b" if "x \<in> set cs" "curzone x = Some b" for x b
    proof -
      from D(5) [OF that] obtain m where "registered G m b" by auto
      moreover from this have "m \<noteq> n" using n by (auto simp: registered_def)
      ultimately show ?thesis using r by auto
    qed
  qed
qed

lemma load_zones_ok:
  assumes "zones_ok (G, cs)"
  shows "zones_ok (snd (ioctl_load_zone k1 k2 hdr usr G), cs)"
proof (cases "fst (ioctl_load_zone k1 k2 hdr usr G) = 0")
  case False
  then show ?thesis using load_zone_error assms by (metis prod.collapse)
next
  case True
  then have "ioctl_load_zone k1 k2 hdr usr G = (0, snd (ioctl_load_zone k1 k2 hdr usr G))"
    by (metis prod.collapse)
  then show ?thesis
  proof (rule load_zone_result)
    fix th z G1
    assume z: "refcount z = 0" and t: "0 \<le> th_zone th" "th_zone th < 128" "tone_zones G ! nat (th_zone th) = None"
      and G1: "G1 = G\<lparr>zheap := zheap G @ [Some z], tone_zones := (tone_zones G)[nat (th_zone th) := Some (length (zheap G))]\<rparr>"
      and G': "snd (ioctl_load_zone k1 k2 hdr usr G) = (if default_zone G = -1 then snd (dahdi_set_default_zone (th_zone th) G1) else G1)"
    have "zones_ok (G1, cs)" unfolding G1 by (rule register_zones_ok [OF assms z]) (use t in auto)
    then show ?thesis unfolding G' using set_default_zones_ok by auto
  qed
qed

lemma zone_step_ok: "zone_step s s' \<Longrightarrow> zones_ok s \<Longrightarrow> zones_ok s'"
proof (induction rule: zone_step.induct)
  case (play i cs G tone r c)
  then show ?case using zones_ok_chan start_tone_curzone by blast
qed (auto intro: load_zones_ok free_zones_ok set_default_zones_ok set_dialparams_zones_ok set_tone_zones_ok release_zones_ok)

lemma zone_steps_ok: "zone_step\<^sup>*\<^sup>* s s' \<Longrightarrow> zones_ok s \<Longrightarrow> zones_ok s'"
  by (induction rule: rtranclp_induct) (auto intro: zone_step_ok)

lemma zones_ok_init: "\<forall>c \<in> set cs. curzone c = None \<Longrightarrow> zones_ok (tone_globals0, cs)"
  by (auto simp: zones_ok_def registered_def tone_globals0_def)

section \<open>Which calls are safe\<close>

lemma start_tone_none:
  assumes "curzone chan = Some a" "zone_at G a = Some z" "length (tones z) = DAHDI_TONE_MAX"
  shows "start_tone G tone chan = None \<longleftrightarrow> tone = int DAHDI_TONE_MAX"
  using assms by (auto simp: start_tone_def Let_def nat_less_iff split: option.splits)

lemma mf_tone_zone:
  assumes "dahdi_mf_tone chan d mode = Some p"
  shows "p = TonePause \<or> (\<exists>a arr i. curzone chan = Some a \<and> p = InZone a arr i \<and>
    (arr = Dtmf \<and> i < 12 \<or> arr \<in> {Mfr1, Mfr2Fwd, Mfr2Rev} \<and> i < 15))"
  using assms
  by (auto simp: dahdi_mf_tone_def char_in_def char_sub_def split: option.splits if_splits)

lemma ptr_ok_deref: "zone_at G a = Some z \<Longrightarrow> ptr_ok a z p \<Longrightarrow> deref G p \<noteq> None"
  by (cases p) auto

section \<open>Runs of the module with good tones\<close>

definition zone_good :: "nat \<Rightarrow> dahdi_zone \<Rightarrow> bool" where
  "zone_good a z \<longleftrightarrow> zone_wf a z \<and> (\<forall>arr. \<forall>t \<in> set (zone_array arr z). tone_len_ok t)"

definition static_good :: "dahdi_tone \<Rightarrow> bool" where
  "static_good t \<longleftrightarrow> 0 < tonesamples t \<and> next_tone t = None"

definition tones_good :: "tone_globals \<Rightarrow> bool" where
  "tones_good G \<longleftrightarrow> dial_good (global_dialparams G) \<and> static_good (dtmf_silence G) \<and> static_good (mfr1_silence G) \<and>
     static_good (mfr2_silence G) \<and> static_good (tone_pause G) \<and> (\<forall>a z. zone_at G a = Some z \<longrightarrow> zone_good a z)"

lemma zone_array_ref [simp]: "zone_array arr (z\<lparr>refcount := m\<rparr>) = zone_array arr z"
  by (cases arr) simp_all

lemma zone_good_ref [simp]: "zone_good a (z\<lparr>refcount := m\<rparr>) = zone_good a z"
  by (simp add: zone_good_def zone_wf_cong)

lemma tones_good_init: "tones_good tone_globals0"
  by (simp add: tones_good_def tone_globals0_def dial_good_def static_good_def tone0_def zone_at_def)

lemma tones_good_zone: "tones_good G \<Longrightarrow> zone_at G a = Some z \<Longrightarrow> zone_good a z"
  by (simp add: tones_good_def)

text \<open>A tone that exists, of a module with good tones: its length, and its successor.\<close>

lemma tones_good_deref:
  assumes G: "tones_good G" and p: "deref G p = Some t"
  shows "tone_len_ok t" and "next_tone t = Some q \<Longrightarrow> deref G q \<noteq> None"
proof -
  have s: "tone_len_ok t \<and> next_tone t = None" if "static_good t" using that by (simp add: static_good_def tone_len_ok_def)
  have "tone_len_ok t \<and> (\<forall>q. next_tone t = Some q \<longrightarrow> deref G q \<noteq> None)"
  proof (cases p)
    case (InZone a arr i)
    then obtain z where z: "zone_at G a = Some z" "t \<in> set (zone_array arr z)"
      using p by (auto split: option.splits if_splits)
    then have "zone_good a z" using tones_good_zone [OF G] by simp
    then show ?thesis using z ptr_ok_deref [OF z(1)] unfolding zone_good_def zone_wf_def tone_wf_def by blast
  qed (use G p s in \<open>auto simp: tones_good_def\<close>)
  then show "tone_len_ok t" and "next_tone t = Some q \<Longrightarrow> deref G q \<noteq> None" by simp_all
qed


text \<open>
  What a module goes through when every tone that is loaded has samples: the steps of \<open>zone_step\<close>, of which a load is
  the one that allocates a zone, and any change of a channel that leaves its zone alone, such as dialing and playing.
\<close>

inductive tone_run :: "tone_globals \<times> dahdi_chan list \<Rightarrow> bool" where
  start: "\<forall>c \<in> set cs. curzone c = None \<Longrightarrow> tone_run (tone_globals0, cs)"
| load: "tone_run (G, cs) \<Longrightarrow> \<forall>n td. usr n = Some td \<longrightarrow> 0 < td_samples td \<Longrightarrow>
    tone_run (snd (ioctl_load_zone k1 k2 hdr usr G), cs)"
| other: "tone_run (G, cs) \<Longrightarrow> zone_step (G, cs) (H, ds) \<Longrightarrow> length (zheap H) = length (zheap G) \<Longrightarrow> tone_run (H, ds)"
| channel: "tone_run (G, cs) \<Longrightarrow> i < length cs \<Longrightarrow> curzone c = curzone (cs ! i) \<Longrightarrow> tone_run (G, cs[i := c])"

lemma zone_lens_good: "zone_wf a z \<Longrightarrow> lens_good z \<Longrightarrow> zone_good a z"
  by (simp add: zone_good_def lens_good_def)

lemma tones_good_refs:
  assumes "tones_good G" "\<forall>a z. zone_at H a = Some z \<longrightarrow> (\<exists>y m. zone_at G a = Some y \<and> z = y\<lparr>refcount := m\<rparr>)"
    and "global_dialparams H = global_dialparams G" "dtmf_silence H = dtmf_silence G" "mfr1_silence H = mfr1_silence G"
      "mfr2_silence H = mfr2_silence G" "tone_pause H = tone_pause G"
  shows "tones_good H"
  using assms unfolding tones_good_def by (metis zone_good_ref)

lemma atomic_static [simp]:
  "dtmf_silence (zone_upd a f G) = dtmf_silence G" "mfr1_silence (zone_upd a f G) = mfr1_silence G"
  "mfr2_silence (zone_upd a f G) = mfr2_silence G" "tone_pause (zone_upd a f G) = tone_pause G"
  by (simp_all add: zone_upd_def)

lemma tones_good_upd:
  assumes G: "tones_good G" and f: "\<And>z. zone_good a z \<Longrightarrow> zone_good a (f z)"
  shows "tones_good (zone_upd a f G)"
  using assms by (auto simp: tones_good_def zone_at_upd split: if_splits)

lemma tones_good_atomic:
  assumes "tones_good G"
  shows "tones_good (atomic_inc a G)" "tones_good (atomic_dec a G)"
  using assms unfolding atomic_inc_def atomic_dec_def by (auto intro: tones_good_upd)

lemma tones_good_default_z: "tones_good G \<Longrightarrow> tones_good (snd (dahdi_set_default_zone n G))"
proof -
  assume G: "tones_good G"
  have d: "tones_good (H\<lparr>default_zone := m\<rparr>) = tones_good H" for H m by (simp add: tones_good_def)
  show ?thesis
    using G by (auto simp: dahdi_set_default_zone_def Let_def d intro: tones_good_atomic split: option.splits)
qed

lemma tones_good_free: "tones_good G \<Longrightarrow> tones_good (snd (free_tone_zone n G))"
proof -
  assume G: "tones_good G"
  have "tones_good (G\<lparr>tone_zones := t, zheap := (zheap G)[a := None]\<rparr>)" for t a
    using G by (auto simp: tones_good_def zone_at_def nth_upd split: if_splits)
  then show ?thesis using G by (auto simp: free_tone_zone_def split: option.splits)
qed

lemma tones_good_set_zone: "tones_good G \<Longrightarrow> set_tone_zone n G c = (r, H, d) \<Longrightarrow> tones_good H"
  by (auto simp: set_tone_zone_def Let_def intro: tones_good_atomic split: if_splits option.splits)

lemma tones_good_release: "tones_good G \<Longrightarrow> release_tone_zone G c = (H, d) \<Longrightarrow> tones_good H"
  by (auto simp: release_tone_zone_def intro: tones_good_atomic split: option.splits)

text \<open>New lengths of the digits of a zone.\<close>

lemma set_lens_mem:
  "t \<in> set (set_lens n len xs) \<Longrightarrow> (\<exists>u \<in> set xs. t = u\<lparr>tonesamples := len\<rparr>) \<or> t \<in> set xs"
  by (auto simp: set_lens_def dest: in_set_takeD in_set_dropD)

lemma set_lens_length [simp]: "length (set_lens n len xs) = length xs"
  by (simp add: set_lens_def min_def)

lemma set_lens_good:
  assumes z: "zone_good a z" and d: "0 < d" "0 < m1" "0 < m2"
  shows "zone_good a (z\<lparr>dtmf := set_lens 16 d (dtmf z), mfr1 := set_lens 10 m1 (mfr1 z),
    mfr2_fwd := set_lens 15 m2 (mfr2_fwd z), mfr2_rev := set_lens 15 m2 (mfr2_rev z)\<rparr>)" (is "zone_good a ?z")
proof -
  have len: "length (zone_array arr ?z) = length (zone_array arr z)" for arr by (cases arr) simp_all
  have mem: "(\<exists>u \<in> set (zone_array arr z). \<exists>len > 0. t = u\<lparr>tonesamples := len\<rparr>) \<or> t \<in> set (zone_array arr z)"
    if "t \<in> set (zone_array arr ?z)" for arr t
    using that d by (cases arr) (auto dest!: set_lens_mem)
  have p: "ptr_ok a z p \<Longrightarrow> ptr_ok a ?z p" for p by (erule ptr_ok_mono) (simp add: len)
  have wf: "zone_wf a z" using z by (simp add: zone_good_def)
  have "zone_wf a ?z"
  proof (rule zone_wf_upd [OF wf])
    show "zone_lens ?z" using wf by (simp add: zone_wf_def zone_lens_def)
    show "t \<in> set (zone_array arr z) \<or> tone_wf a ?z t" if "t \<in> set (zone_array arr ?z)" for arr t
    proof -
      have "tone_wf a ?z (u\<lparr>tonesamples := len\<rparr>)" if "u \<in> set (zone_array arr z)" for u len
        using wf that p unfolding zone_wf_def tone_wf_def by simp
      then show ?thesis using mem [OF that] by blast
    qed
  qed (use len in simp_all)
  moreover have "tone_len_ok t" if "t \<in> set (zone_array arr ?z)" for arr t
    using mem [OF that] z unfolding zone_good_def tone_len_ok_def by auto
  ultimately show ?thesis unfolding zone_good_def by blast
qed

lemma tones_good_dialparams:
  assumes "tones_good G"
  shows "tones_good (ioctl_set_dialparams tdp G)"
proof -
  have f: "tones_good (fold (\<lambda>j G. case tone_zones G ! j of Some a \<Rightarrow> zone_upd a f G | None \<Rightarrow> G) js H) \<and>
      global_dialparams (fold (\<lambda>j G. case tone_zones G ! j of Some a \<Rightarrow> zone_upd a f G | None \<Rightarrow> G) js H) = global_dialparams H"
    if "tones_good H" "\<And>a z. zone_good a z \<Longrightarrow> zone_good a (f z)" for f js H
    using that(1)
  proof (induction js arbitrary: H)
    case (Cons j js)
    then show ?case using tones_good_upd [OF Cons.prems that(2)] by (cases "tone_zones H ! j") simp_all
  qed simp
  define gd where "gd =
     (let in_range = (\<lambda>v. v \<ge> 10 \<and> v \<le> 4000);
          gd = global_dialparams G;
          gd = (if in_range (dtmf_tonelen tdp) then gd\<lparr>dtmf_tonelen := dtmf_tonelen tdp\<rparr> else gd);
          gd = (if in_range (mfv1_tonelen tdp) then gd\<lparr>mfv1_tonelen := mfv1_tonelen tdp\<rparr> else gd)
      in if in_range (mfr2_tonelen tdp) then gd\<lparr>mfr2_tonelen := mfr2_tonelen tdp\<rparr> else gd)"
  have g: "dial_good gd" using assms by (simp add: gd_def Let_def tones_good_def dial_good_def)
  then have p: "0 < dtmf_tonelen gd * 8" "0 < mfv1_tonelen gd * 8" "0 < mfr2_tonelen gd * 8" by (simp_all add: dial_good_def)
  define H where "H = fold (\<lambda>j G. case tone_zones G ! j of Some a \<Rightarrow> zone_upd a (\<lambda>z. z\<lparr>
      dtmf := set_lens 16 (dtmf_tonelen gd * 8) (dtmf z), mfr1 := set_lens 10 (mfv1_tonelen gd * 8) (mfr1 z),
      mfr2_fwd := set_lens 15 (mfr2_tonelen gd * 8) (mfr2_fwd z), mfr2_rev := set_lens 15 (mfr2_tonelen gd * 8) (mfr2_rev z)\<rparr>) G
    | None \<Rightarrow> G) [0..<TONE_ZONE_MAX] (G\<lparr>global_dialparams := gd\<rparr>)"
  have "tones_good (G\<lparr>global_dialparams := gd\<rparr>)" using assms g by (simp add: tones_good_def)
  then have H: "tones_good H" unfolding H_def by (rule f [THEN conjunct1]) (rule set_lens_good [OF _ p])
  have "ioctl_set_dialparams tdp G = H\<lparr>dtmf_silence := (dtmf_silence H)\<lparr>tonesamples := dtmf_tonelen gd * 8\<rparr>,
      mfr1_silence := (mfr1_silence H)\<lparr>tonesamples := mfv1_tonelen gd * 8\<rparr>,
      mfr2_silence := (mfr2_silence H)\<lparr>tonesamples := mfr2_tonelen gd * 8\<rparr>\<rparr>"
    unfolding ioctl_set_dialparams_def H_def gd_def Let_def by (rule refl)
  then show ?thesis using H p by (simp add: tones_good_def static_good_def zone_at_def)
qed

lemma tones_good_load:
  assumes G: "tones_good G" and u: "\<forall>n td. usr n = Some td \<longrightarrow> 0 < td_samples td"
  shows "tones_good (snd (ioctl_load_zone k1 k2 hdr usr G))"
proof (cases "fst (ioctl_load_zone k1 k2 hdr usr G) = 0")
  case False
  then have "snd (ioctl_load_zone k1 k2 hdr usr G) = G" using load_zone_error by (metis prod.collapse)
  then show ?thesis using G by simp
next
  case True
  then have "ioctl_load_zone k1 k2 hdr usr G = (0, snd (ioctl_load_zone k1 k2 hdr usr G))" by (metis prod.collapse)
  then show ?thesis
  proof (rule load_zone_result)
    fix th z G1
    assume z: "zone_wf (length (zheap G)) z"
        "dial_good (global_dialparams G) \<and> (\<forall>n td. usr n = Some td \<longrightarrow> 0 < td_samples td) \<longrightarrow> lens_good z"
      and G1: "G1 = G\<lparr>zheap := zheap G @ [Some z], tone_zones := (tone_zones G)[nat (th_zone th) := Some (length (zheap G))]\<rparr>"
      and G': "snd (ioctl_load_zone k1 k2 hdr usr G) = (if default_zone G = -1 then snd (dahdi_set_default_zone (th_zone th) G1) else G1)"
    have "zone_good (length (zheap G)) z" using z u G by (simp add: zone_lens_good tones_good_def)
    then have g: "tones_good G1"
      using G by (auto simp: G1 tones_good_def zone_at_def nth_append less_Suc_eq split: if_splits)
    show ?thesis using g tones_good_default_z [OF g] unfolding G' by simp
  qed
qed

lemma tones_good_step:
  assumes "zone_step (G, cs) (H, ds)" "tones_good G" "length (zheap H) = length (zheap G)"
  shows "tones_good H"
  using assms(1)
proof (cases rule: zone_step.cases)
  case (load k1 k2 hdr usr)
  show ?thesis
  proof (cases "fst (ioctl_load_zone k1 k2 hdr usr G) = 0")
    case False
    then have "H = G" using load load_zone_error by (metis prod.collapse)
    then show ?thesis using assms(2) by simp
  next
    case True
    then have "ioctl_load_zone k1 k2 hdr usr G = (0, H)" using load by (metis prod.collapse)
    then show ?thesis
    proof (rule load_zone_result)
      fix th z G1
      assume G1: "G1 = G\<lparr>zheap := zheap G @ [Some z], tone_zones := (tone_zones G)[nat (th_zone th) := Some (length (zheap G))]\<rparr>"
        and H: "H = (if default_zone G = -1 then snd (dahdi_set_default_zone (th_zone th) G1) else G1)"
      have "length (zheap (snd (dahdi_set_default_zone n G))) = length (zheap G)" for n G
        by (simp add: dahdi_set_default_zone_def Let_def atomic_inc_def atomic_dec_def split: option.split)
      then show ?thesis using assms(3) by (simp add: H G1 split: if_splits)
    qed
  qed
next
  case (free num)
  then show ?thesis using tones_good_free [OF assms(2)] by simp
next
  case (default_z num)
  then show ?thesis using tones_good_default_z [OF assms(2)] by simp
next
  case (dialparams tdp)
  then show ?thesis using tones_good_dialparams [OF assms(2)] by simp
next
  case (set_zone i zone r c)
  then show ?thesis using tones_good_set_zone [OF assms(2)] by blast
next
  case (close_chan i c)
  then show ?thesis using tones_good_release [OF assms(2)] by blast
next
  case (play i tone r c)
  then show ?thesis using assms(2) by simp
qed

text \<open>The invariant of such a run: good tones, and every zone in use is live.\<close>

lemma tone_run_good: "tone_run (G, cs) \<Longrightarrow> tones_good G \<and> zones_ok (G, cs)"
proof (induction "(G, cs)" arbitrary: G cs rule: tone_run.induct)
  case (start cs)
  then show ?case using tones_good_init zones_ok_init by blast
next
  case (load G cs usr k1 k2 hdr)
  then show ?case using tones_good_load load_zones_ok by blast
next
  case (other G cs H ds)
  then show ?case using tones_good_step zone_step_ok by blast
next
  case (channel G cs i c)
  then show ?case using zones_ok_chan by blast
qed

lemma tone_run_zone: "tone_run (G, cs) \<Longrightarrow> c \<in> set cs \<Longrightarrow> curzone c = Some a \<Longrightarrow> \<exists>z. zone_at G a = Some z"
  using tone_run_good [of G cs] zones_okD(2,5) [of G cs] by blast

section \<open>Properties\<close>

text \<open>C9. From the state of a fresh module, whatever the ioctls do and however channels are closed, the zone of
  every channel is allocated, and the reference count of a registered zone is the number of channels that use
  it, plus one when it is the default: no zone in use is ever freed.\<close>

theorem zones_in_use_live:
  assumes "zone_step\<^sup>*\<^sup>* (tone_globals0, cs0) (G, cs)" "\<forall>c \<in> set cs0. curzone c = None"
    and "c \<in> set cs" "curzone c = Some a"
  shows "\<exists>n z. registered G n a \<and> zone_at G a = Some z \<and> refcount z = refs G cs n a \<and> 0 < refcount z"
proof -
  have ok: "zones_ok (G, cs)" using zone_steps_ok [OF assms(1)] zones_ok_init [OF assms(2)] by simp
  from zones_okD(5) [OF ok assms(3,4)] obtain n where n: "registered G n a" by auto
  have "0 < users cs a"
    using users_zero [of cs a, OF _ assms(3)] assms(4) users_nonneg [of cs a] by (cases "users cs a = 0") auto
  then show ?thesis using zones_okD(2) [OF ok n] n by (auto simp: refs_def)
qed

text \<open>A module with two zones of one tone each, and a channel.\<close>

definition td_ex :: tone_def where
  "td_ex = \<lparr>td_tone = 0, td_next = 0, td_samples = 8, td_fac1 = 1, td_init_v2_1 = 2, td_init_v3_1 = 3, td_fac2 = 4,
     td_init_v2_2 = 5, td_init_v3_2 = 6, td_modulate = 0\<rparr>"

definition load_ex :: "int \<Rightarrow> tone_globals \<Rightarrow> int \<times> tone_globals" where
  "load_ex n = ioctl_load_zone True True (Some \<lparr>th_count = 1, th_zone = n, th_cadence = replicate 16 0, th_name = ''us''\<rparr>)
     (\<lambda>_. Some td_ex)"

definition zone_ex :: "nat \<Rightarrow> dahdi_zone" where
  "zone_ex a = (zone0 \<lparr>th_count = 1, th_zone = 0, th_cadence = replicate 16 0, th_name = ''us''\<rparr>)
     \<lparr>tones := Some (InZone a SlabTones 0) # replicate 15 None,
      slab := [(tone_of_def td_ex)\<lparr>tonesamples := 8, next_tone := Some (InZone a SlabTones 0)\<rparr>]\<rparr>"

lemma load_ex0: "load_ex 0 tone_globals0 = (0, tone_globals0\<lparr>zheap := [Some ((zone_ex 0)\<lparr>refcount := 1\<rparr>)],
    tone_zones := Some 0 # replicate 127 None, default_zone := 0\<rparr>)"
  by code_simp

text \<open>The state after the zone is loaded and a channel has been given it.\<close>

definition globals_ex :: tone_globals where
  "globals_ex = tone_globals0\<lparr>zheap := [Some ((zone_ex 0)\<lparr>refcount := 2\<rparr>)],
     tone_zones := Some 0 # replicate 127 None, default_zone := 0\<rparr>"

definition tchan_ex :: dahdi_chan where
  "tchan_ex = chan0\<lparr>curzone := Some 0\<rparr>"

lemma tchan_ex_zone: "curzone tchan_ex = Some 0"
  by (simp add: tchan_ex_def)

lemma set_tone_zone_ex: "set_tone_zone 0 (snd (load_ex 0 tone_globals0)) chan0 = (0, globals_ex, tchan_ex)"
  unfolding load_ex0
  by (simp add: set_tone_zone_def globals_ex_def tchan_ex_def Let_def atomic_inc_def zone_upd_def zone_at_def zone_ex_def
      zone0_def chan0_def)

lemma zone_ex_at: "zone_at globals_ex 0 = Some ((zone_ex 0)\<lparr>refcount := 2\<rparr>)"
  by (simp add: zone_at_def globals_ex_def)

lemma zone_ex_wf: "zone_wf a ((zone_ex a)\<lparr>refcount := n\<rparr>)"
proof -
  have "tone_wf a ((zone_ex a)\<lparr>refcount := n\<rparr>) t" if "t \<in> set (zone_array arr ((zone_ex a)\<lparr>refcount := n\<rparr>))" for arr t
    using that by (cases arr) (auto simp: tone_wf_def zone_ex_def zone0_def tone0_def)
  moreover have "zone_lens ((zone_ex a)\<lparr>refcount := n\<rparr>)" by (simp add: zone_lens_def zone_ex_def zone0_def)
  moreover have "ptr_ok a ((zone_ex a)\<lparr>refcount := n\<rparr>) p" if "Some p \<in> set (tones ((zone_ex a)\<lparr>refcount := n\<rparr>))" for p
    using that by (auto simp: zone_ex_def)
  ultimately show ?thesis unfolding zone_wf_def by blast
qed

lemma tone_run_ex: "tone_run (globals_ex, [tchan_ex])"
proof -
  have "tone_run (tone_globals0, [chan0])" by (rule tone_run.start) (simp add: chan0_def)
  then have l: "tone_run (snd (load_ex 0 tone_globals0), [chan0])"
    unfolding load_ex_def by (rule tone_run.load) (simp add: td_ex_def)
  have "zone_step (snd (load_ex 0 tone_globals0), [chan0]) (globals_ex, [chan0][0 := tchan_ex])"
    by (rule zone_step.set_zone [where zone = 0 and r = 0]) (simp_all add: set_tone_zone_ex)
  then show ?thesis using tone_run.other [OF l, of globals_ex "[tchan_ex]"] by (simp add: load_ex0 globals_ex_def)
qed

theorem zones_in_use_live_witness:
  "\<exists>n z. registered globals_ex n 0 \<and> zone_at globals_ex 0 = Some z \<and> refcount z = refs globals_ex [tchan_ex] n 0 \<and> 0 < refcount z"
proof -
  have "zone_step (tone_globals0, [chan0]) (snd (load_ex 0 tone_globals0), [chan0])"
    unfolding load_ex_def by (rule zone_step.load)
  moreover have "zone_step (snd (load_ex 0 tone_globals0), [chan0]) (globals_ex, [chan0][0 := tchan_ex])"
    by (rule zone_step.set_zone [where zone = 0 and r = 0]) (simp_all add: set_tone_zone_ex)
  ultimately have "zone_step\<^sup>*\<^sup>* (tone_globals0, [chan0]) (globals_ex, [tchan_ex])" by simp
  then show ?thesis
    by (rule zones_in_use_live [where c = tchan_ex]) (simp_all add: tchan_ex_zone chan0_def)
qed

text \<open>C34. Loading a zone either fails and changes nothing, or registers under its number a zone at a fresh address,
  all of whose tone pointers, the \<open>next\<close> pointers included, are NULL or point to a tone of the zone or to a static one.\<close>

theorem load_zone_wellformed:
  "let (r, G') = ioctl_load_zone kzalloc1 kzalloc2 hdr usr G; a = length (zheap G) in
   if r = 0 then (\<exists>th z. hdr = Some th \<and> zone_at G' a = Some z \<and> zone_wf a z \<and> (tone_zones G)[nat (th_zone th) := Some a] = tone_zones G')
   else r < 0 \<and> G' = G"
proof -
  obtain r G' where e: "ioctl_load_zone kzalloc1 kzalloc2 hdr usr G = (r, G')" by force
  have "r = 0 \<or> r < 0"
    using e by (auto simp: ioctl_load_zone_def Let_def dahdi_register_tone_zone_def
        split: if_splits option.splits sum.splits prod.splits dest: load_tones_error)
  moreover have "\<exists>th z. hdr = Some th \<and> zone_at G' (length (zheap G)) = Some z \<and> zone_wf (length (zheap G)) z \<and>
      (tone_zones G)[nat (th_zone th) := Some (length (zheap G))] = tone_zones G'" if "r = 0"
    using e unfolding that
  proof (rule load_zone_result)
    fix th z G1
    let ?a = "length (zheap G)"
    assume h: "hdr = Some th" and w: "zone_wf ?a z"
      and G1: "G1 = G\<lparr>zheap := zheap G @ [Some z], tone_zones := (tone_zones G)[nat (th_zone th) := Some ?a]\<rparr>"
      and G': "G' = (if default_zone G = -1 then snd (dahdi_set_default_zone (th_zone th) G1) else G1)"
    have "tone_zones G' = tone_zones G1"
      unfolding G' by (auto simp: dahdi_set_default_zone_def Let_def split: option.splits)
    moreover have "zone_at G1 ?a = Some z" by (simp add: G1 zone_at_def)
    moreover have "\<exists>m. zone_at (snd (dahdi_set_default_zone n G1)) ?a = Some (z\<lparr>refcount := m\<rparr>)" for n
      using \<open>zone_at G1 ?a = Some z\<close>
      by (auto simp: dahdi_set_default_zone_def Let_def zone_at_atomic split: option.splits)
        (metis dahdi_zone.surjective dahdi_zone.update_convs(1))+
    moreover have "zone_wf ?a (z\<lparr>refcount := m\<rparr>)" for m using w by (simp add: zone_wf_cong)
    ultimately show ?thesis using h w by (auto simp: G1 G')
  qed
  ultimately show ?thesis using load_zone_error [OF e] unfolding e by (auto simp: Let_def)
qed

text \<open>With a live, well-formed zone, starting a tone is safe for every tone number but one: it reads past the
  table exactly for \<open>DAHDI_TONE_MAX\<close>, and otherwise leaves the channel playing nothing or a tone that exists.\<close>

theorem start_tone_safe:
  assumes "curzone chan = Some a" "zone_at G a = Some z" "zone_wf a z"
  shows "case start_tone G tone chan of None \<Rightarrow> tone = int DAHDI_TONE_MAX
    | Some (r, c) \<Rightarrow> tone \<noteq> int DAHDI_TONE_MAX \<and> r \<in> {0, - ENOSYS, - EINVAL} \<and>
        (case curtone c of None \<Rightarrow> True | Some p \<Rightarrow> deref G p \<noteq> None)"
proof -
  have l: "length (tones z) = 16" using assms(3) by (simp add: zone_wf_def zone_lens_def)
  have p: "deref G p \<noteq> None" if "tones z ! nat tone = Some p" "nat tone < 16" for p
    using ptr_ok_deref [OF assms(2)] assms(3) that l unfolding zone_wf_def by (metis nth_mem)
  show ?thesis
  proof (cases "tone = 16")
    case True
    then show ?thesis using start_tone_none [OF assms(1,2) l, of tone] by simp
  next
    case False
    then obtain r c where s: "start_tone G tone chan = Some (r, c)"
      using start_tone_none [OF assms(1,2) l, of tone] by (cases "start_tone G tone chan") auto
    have "r \<in> {0, - ENOSYS, - EINVAL} \<and> (\<forall>p. curtone c = Some p \<longrightarrow> deref G p \<noteq> None)"
      using s assms(1,2) False l p
      by (auto simp: start_tone_def start_tone_digit_def Let_def nat_less_iff split: option.splits if_splits)
    then show ?thesis using s False by (auto split: option.splits)
  qed
qed

theorem start_tone_safe_witness:
  "case start_tone globals_ex 0 tchan_ex of None \<Rightarrow> False
   | Some (r, c) \<Rightarrow> r \<in> {0, - ENOSYS, - EINVAL} \<and> (case curtone c of None \<Rightarrow> True | Some p \<Rightarrow> deref globals_ex p \<noteq> None)"
  using start_tone_safe [OF tchan_ex_zone zone_ex_at zone_ex_wf, of 0] by (cases "start_tone globals_ex 0 tchan_ex") auto

text \<open>The tone of a digit exists: with a live, well-formed zone, whatever the digit and the mode of dialing, the
  answer is NULL or points to a tone; and the digits a telephone has get a tone of the zone, except that in the
  DTMF mode the digits A to D get the pause.\<close>

theorem mf_tone_exists:
  assumes "curzone chan = Some a" "zone_at G a = Some z" "zone_wf a z"
  shows "(case dahdi_mf_tone chan d m of None \<Rightarrow> True | Some p \<Rightarrow> deref G p \<noteq> None) \<and>
    map (\<lambda>d. dahdi_mf_tone chan d DIGIT_MODE_DTMF) ''0123456789*#ABCD'' =
      map (\<lambda>i. Some (InZone a Dtmf i)) [0..<12] @ replicate 4 (Some TonePause)"
proof -
  have "deref G p \<noteq> None" if "dahdi_mf_tone chan d m = Some p" for p
    using mf_tone_zone [OF that] assms by (auto simp: zone_wf_def zone_lens_def)
  moreover have "map (\<lambda>d. dahdi_mf_tone chan d DIGIT_MODE_DTMF) ''0123456789*#ABCD'' =
      map (\<lambda>i. Some (InZone a Dtmf i)) [0..<12] @ replicate 4 (Some TonePause)"
    using assms(1) by (simp add: dahdi_mf_tone_def char_in_def char_sub_def upt_rec numeral_eq_Suc)
  ultimately show ?thesis by (auto split: option.splits)
qed

theorem mf_tone_exists_witness:
  "map (\<lambda>d. dahdi_mf_tone tchan_ex d DIGIT_MODE_DTMF) ''0123456789*#ABCD'' =
     map (\<lambda>i. Some (InZone 0 Dtmf i)) [0..<12] @ replicate 4 (Some TonePause)"
  using mf_tone_exists [OF tchan_ex_zone zone_ex_at zone_ex_wf] by blast

text \<open>
  \<open>set_tone_zone\<close> gives up the old zone of the channel but leaves \<open>curtone\<close> alone: a channel that is playing
  a tone of the old zone goes on with it when the zone is freed.
\<close>

lemma tone_of_freed_zone:
  "let (r1, G1) = load_ex 0 tone_globals0; (r2, G2) = load_ex 1 G1; (r3, G3, c3) = set_tone_zone 0 G2 chan0;
       c4 = snd (the (start_tone G3 0 c3)); (r5, G5, c5) = set_tone_zone 1 G3 c4;
       (r6, G6) = dahdi_set_default_zone 1 G5; (r7, G7) = free_tone_zone 0 G6
   in (r1, r2, r3, r5, r6, r7) = (0, 0, 0, 0, 0, 0) \<and> curtone c5 = Some (InZone 0 SlabTones 0) \<and>
      deref G7 (InZone 0 SlabTones 0) = None"
  by code_simp

end
