(* ===== verification/Rbs.thy ===== *)
theory Rbs
  imports Chan_Buffers Tones
begin

text \<open>
  The signalling of a channel. Towards the line: \<open>dahdi_rbs_sethook\<close> sets a hook state for a time, \<open>otimer\<close>
  counts that time down and \<open>__rbs_otimer_expire\<close> moves the transmit state machine on (ringing, winks,
  flashes, pulse dialing, kewl start); \<open>__do_dtmf\<close> takes the next digit to dial. From the line: \<open>dahdi_rbsbits\<close>
  decodes signalling bits, \<open>__dahdi_hooksig_pvt\<close> turns hook states into events, \<open>rbs_itimer_expire\<close> and the timers
  of \<open>dahdi_receive\<close> time winks, flashes, rings and dial pulses. The configuration is the one of
  \<open>dahdi_config.h\<close>: \<open>RINGBEGIN\<close>, and neither \<open>EMFLASH\<close>, \<open>EMPULSE\<close> nor \<open>FXSFLASH\<close>. A result \<open>None\<close> is a NULL
  pointer the code would follow.
\<close>

abbreviation (input) ABIT :: int where "ABIT \<equiv> 8"
abbreviation (input) BBIT :: int where "BBIT \<equiv> 4"
abbreviation (input) CBIT :: int where "CBIT \<equiv> 2"
abbreviation (input) DBIT :: int where "DBIT \<equiv> 1"
abbreviation (input) MAX_CADENCE :: nat where "MAX_CADENCE \<equiv> 16"
abbreviation (input) RING_DEBOUNCE_TIME :: int where "RING_DEBOUNCE_TIME \<equiv> 2000"
abbreviation (input) AFTERSTART_TIME :: int where "AFTERSTART_TIME \<equiv> 500"
abbreviation (input) KEWLTIME :: int where "KEWLTIME \<equiv> 500"
abbreviation (input) AFTERKEWLTIME :: int where "AFTERKEWLTIME \<equiv> 300"
abbreviation (input) MINPULSETIME :: int where "MINPULSETIME \<equiv> 15 * 8"
abbreviation (input) MAXPULSETIME :: int where "MAXPULSETIME \<equiv> 200 * 8"
abbreviation (input) PULSETIMEOUT :: int where "PULSETIMEOUT \<equiv> 250"
abbreviation (input) RINGTRAILER :: int where "RINGTRAILER \<equiv> 400"

text \<open>A time in ms, in samples: \<open>t * DAHDI_CHUNKSIZE\<close> in \<open>int\<close>.\<close>

definition samples :: "int \<Rightarrow> int" where
  "samples t = wrap_int (t * 8)"

section \<open>Tables\<close>

text \<open>The quiescent states: the idle transmit bits, and in the second byte the bits received that are looked at.\<close>

definition in_sig :: "(u32 \<times> int) list" where
  "in_sig = [
    (SIG_NONE, 0),
    (SIG_EM, push_bit 8 ABIT),
    (SIG_FXSLS, BBIT OR push_bit 8 BBIT),
    (SIG_FXSGS, ABIT OR BBIT OR push_bit 8 (ABIT OR BBIT)),
    (SIG_FXSKS, BBIT OR BBIT OR push_bit 8 (ABIT OR BBIT)),
    (SIG_FXOLS, push_bit 8 ABIT),
    (SIG_FXOGS, BBIT OR push_bit 8 (ABIT OR BBIT)),
    (SIG_FXOKS, push_bit 8 ABIT),
    (SIG_SF, 0),
    (SIG_EM_E1, DBIT OR push_bit 8 (ABIT OR DBIT))]"

definition dahdi_q_sig :: "dahdi_span \<Rightarrow> dahdi_chan \<Rightarrow> int" where
  "dahdi_q_sig span chan =
     (if chan_span chan = None then -1
      else if \<not> bit (sp_flags span) FLAGBIT_RBS \<or> \<not> has_rbsbits span then -1
      else if sig chan = SIG_CAS then idlebits chan
      else case map_of in_sig (sig chan) of Some v \<Rightarrow> v | None \<Rightarrow> -1)"

definition sigstr :: "u32 \<Rightarrow> string" where
  "sigstr s =
     (if s = SIG_FXSLS then ''FXSLS'' else if s = SIG_FXSKS then ''FXSKS'' else if s = SIG_FXSGS then ''FXSGS''
      else if s = SIG_FXOLS then ''FXOLS'' else if s = SIG_FXOKS then ''FXOKS'' else if s = SIG_FXOGS then ''FXOGS''
      else if s = SIG_EM then ''E&M'' else if s = SIG_EM_E1 then ''E&M-E1'' else if s = SIG_CLEAR then ''Clear''
      else if s = SIG_HDLCRAW then ''HDLCRAW'' else if s = SIG_HDLCFCS then ''HDLCFCS''
      else if s = SIG_HDLCNET then ''HDLCNET'' else if s = SIG_HARDHDLC then ''Hardware-assisted HDLC''
      else if s = SIG_MTP2 then ''MTP2'' else if s = SIG_SLAVE then ''Slave'' else if s = SIG_CAS then ''CAS''
      else if s = SIG_DACS then ''DACS'' else if s = SIG_DACS_RBS then ''DACS+RBS''
      else if s = SIG_SF then ''SF (ToneOnly)'' else ''Unconfigured'')"

text \<open>The bits to send for ONHOOK, OFFHOOK, START and KEWL; what C leaves out of an initialiser is 0.\<close>

definition outs :: "(u32 \<times> int list) list" where
  "outs = [
    (SIG_NONE,  [ABIT OR CBIT OR DBIT, 0, 0, 0]),
    (SIG_EM,    [0, ABIT OR BBIT OR CBIT OR DBIT, ABIT OR BBIT OR CBIT OR DBIT, 0]),
    (SIG_FXSLS, [BBIT OR DBIT, ABIT OR BBIT OR CBIT OR DBIT, ABIT OR BBIT OR CBIT OR DBIT, 0]),
    (SIG_FXSGS, [BBIT OR DBIT, ABIT OR BBIT OR CBIT OR DBIT, ABIT OR CBIT, 0]),
    (SIG_FXSKS, [BBIT OR DBIT, ABIT OR BBIT OR CBIT OR DBIT, ABIT OR BBIT OR CBIT OR DBIT, 0]),
    (SIG_FXOLS, [BBIT OR DBIT, BBIT OR DBIT, 0, 0]),
    (SIG_FXOGS, [ABIT OR BBIT OR CBIT OR DBIT, BBIT OR DBIT, 0, 0]),
    (SIG_FXOKS, [BBIT OR DBIT, BBIT OR DBIT, 0, ABIT OR BBIT OR CBIT OR DBIT]),
    (SIG_SF,    [BBIT OR CBIT OR DBIT, ABIT OR BBIT OR CBIT OR DBIT, ABIT OR BBIT OR CBIT OR DBIT, BBIT OR CBIT OR DBIT]),
    (SIG_EM_E1, [DBIT, ABIT OR BBIT OR DBIT, ABIT OR BBIT OR DBIT, DBIT])]"

section \<open>Setting a hook state\<close>

definition set_txtone :: "int \<Rightarrow> int \<Rightarrow> int \<Rightarrow> dahdi_chan \<Rightarrow> dahdi_chan" where
  "set_txtone fac init_v2 init_v3 ss =
     (if fac = 0 then ss\<lparr>v2_1 := 0, v3_1 := 0\<rparr>
      else ss\<lparr>txtone := fac, v1_1 := 0, v2_1 := init_v2, v3_1 := init_v3\<rparr>)"

definition dahdi_rbs_sethook :: "dahdi_span \<Rightarrow> int \<Rightarrow> txstate \<Rightarrow> int \<Rightarrow> dahdi_chan \<Rightarrow> dahdi_chan" where
  "dahdi_rbs_sethook span tsig tstate timeout chan =
     (if chan_span chan = None then chan
      else if \<not> bit (sp_flags span) FLAGBIT_RBS then chan
      else if tsig > 3 \<or> tsig < 0 then chan
      else if \<not> has_rbsbits span \<and> \<not> has_hooksig span then chan
      else if sig chan = SIG_DACS_RBS then chan
      else
        let c = chan\<lparr>txstate := tstate\<rparr> in
        if sig c = SIG_SF then
          let c = c\<lparr>txhooksig := tsig\<rparr>;
              rev = bit (toneflags c) 1;
              c = (if txtone c \<noteq> 0 then
                     (if tsig \<noteq> 0 \<and> \<not> rev \<or> tsig = 0 \<and> rev then set_txtone (txtone c) (tx_v2 c) (tx_v3 c) c
                      else set_txtone 0 0 0 c)
                   else c)
          in c\<lparr>otimer := samples timeout\<rparr>
        else if has_hooksig span then
          let c = (if txhooksig c \<noteq> tsig then emit (SpanHooksig tsig) (c\<lparr>txhooksig := tsig\<rparr>) else c)
          in c\<lparr>otimer := samples timeout\<rparr>
        else case map_of outs (sig c) of
          Some bits \<Rightarrow>
            let c = c\<lparr>txhooksig := tsig, txsig := bits ! nat tsig\<rparr>
            in (emit (SpanRbsbits (txsig c)) c)\<lparr>otimer := samples timeout\<rparr>
        | None \<Rightarrow> c)"

definition dahdi_cas_setbits :: "dahdi_span \<Rightarrow> int \<Rightarrow> dahdi_chan \<Rightarrow> int \<times> dahdi_chan" where
  "dahdi_cas_setbits span bits chan =
     (if chan_span chan = None then (-1, chan)
      else if has_rbsbits span then (0, emit (SpanRbsbits bits) (chan\<lparr>txsig := bits\<rparr>))
      else (0, chan))"

text \<open>\<open>dahdi_hangup\<close>: the signalling, then the buffers, tones and dialing. \<open>drv\<close> is what the driver's \<open>sethook\<close> returns.\<close>

definition hangup_signal :: "dahdi_span \<Rightarrow> int \<Rightarrow> dahdi_chan \<Rightarrow> int \<times> dahdi_chan" where
  "hangup_signal span drv chan =
     (if bit (sp_flags span) FLAGBIT_RBS then
        (0, if sig chan = SIG_CAS then snd (dahdi_cas_setbits span (idlebits chan) chan)
            else if sig chan = SIG_FXOKS \<and> txstate chan \<noteq> TXSTATE_ONHOOK \<and> \<not> (rxhooksig chan = RXSIG_ONHOOK \<and> itimer chan \<le> 0)
            then dahdi_rbs_sethook span TXSIG_KEWL TXSTATE_KEWL KEWLTIME chan
            else dahdi_rbs_sethook span TXSIG_ONHOOK TXSTATE_ONHOOK 0 chan)
      else if has_sethook span then
        (if txhooksig chan \<noteq> 0 then (drv, emit (SpanSethook 0) (chan\<lparr>txhooksig := 0\<rparr>)) else (0, chan))
      else (0, chan))"

definition hangup_buffers :: "dahdi_chan \<Rightarrow> dahdi_chan" where
  "hangup_buffers chan =
     (let n = nat (numbufs chan);
          c = chan\<lparr>writen := replicate n 0 @ drop n (writen chan), writeidx := replicate n 0 @ drop n (writeidx chan),
                   readn := replicate n 0 @ drop n (readn chan), readidx := replicate n 0 @ drop n (readidx chan)\<rparr>;
          i = (if readbuf c ! 0 \<noteq> [] then 0 else -1);
          c = c\<lparr>inreadbuf := i, inwritebuf := i, outreadbuf := -1, outwritebuf := -1\<rparr>
      in c\<lparr>dialing := 0, afterdialingtimer := 0, curtone := None, pdialcount := 0, cadencepos := 0, txdialbuf := []\<rparr>)"

definition dahdi_hangup :: "dahdi_span \<Rightarrow> int \<Rightarrow> dahdi_chan \<Rightarrow> int \<times> dahdi_chan" where
  "dahdi_hangup span drv chan =
     (if chan_span chan = None then (0, chan)
      else if flagged chan FLAGBIT_CLEAR \<or> flagged chan FLAGBIT_NOSTDTXRX then (- EINVAL, chan)
      else
        let c = chan\<lparr>kewlonhook := False\<rparr>;
            c = (if sig c = SIG_FXSLS \<or> sig c = SIG_FXSKS \<or> sig c = SIG_FXSGS
                 then c\<lparr>ringdebtimer := RING_DEBOUNCE_TIME\<rparr> else c);
            (res, c) = hangup_signal span drv c
        in if \<not> flagged c FLAGBIT_REGISTERED then (res, c) else (res, hangup_buffers c))"

section \<open>Dialing\<close>

text \<open>\<open>__do_dtmf\<close>: the loop over \<open>txdialbuf\<close>.\<close>

fun do_dtmf_loop :: "dahdi_span \<Rightarrow> tone_globals \<Rightarrow> string \<Rightarrow> dahdi_chan \<Rightarrow> dahdi_chan" where
  "do_dtmf_loop span G [] chan = qevent EVENT_DIALCOMPLETE (chan\<lparr>txdialbuf := [], dialing := 0\<rparr>)"
| "do_dtmf_loop span G (c # rest) chan =
     (let ch = chan\<lparr>txdialbuf := rest\<rparr> in
      if c = CHR ''T'' then do_dtmf_loop span G rest (ch\<lparr>digitmode := DIGIT_MODE_DTMF, tonep := 0\<rparr>)
      else if c = CHR ''M'' then do_dtmf_loop span G rest (ch\<lparr>digitmode := DIGIT_MODE_MFR1, tonep := 0\<rparr>)
      else if c = CHR ''O'' then do_dtmf_loop span G rest (ch\<lparr>digitmode := DIGIT_MODE_MFR2_FWD, tonep := 0\<rparr>)
      else if c = CHR ''R'' then do_dtmf_loop span G rest (ch\<lparr>digitmode := DIGIT_MODE_MFR2_REV, tonep := 0\<rparr>)
      else if c = CHR ''P'' then do_dtmf_loop span G rest (ch\<lparr>digitmode := DIGIT_MODE_PULSE, tonep := 0\<rparr>)
      else if c \<noteq> CHR ''W'' \<and> digitmode ch = DIGIT_MODE_PULSE then
        (if char_in CHR ''0'' CHR ''9'' c \<and> txhooksig ch = TXSIG_OFFHOOK then
           dahdi_rbs_sethook span TXSIG_ONHOOK TXSTATE_PULSEBREAK (pulsebreaktime ch)
             (ch\<lparr>pdialcount := (if c = CHR ''0'' then 10 else int (char_sub c CHR ''0''))\<rparr>)
         else do_dtmf_loop span G rest ch)
      else
        let ch = ch\<lparr>curtone := dahdi_mf_tone ch c (digitmode ch), tonep := 0\<rparr> in
        (case curtone ch of
           Some p \<Rightarrow> (case deref G p of Some t \<Rightarrow> ch\<lparr>ts := dahdi_init_tone_state t\<rparr> | None \<Rightarrow> ch)
         | None \<Rightarrow> do_dtmf_loop span G rest ch))"

definition do_dtmf :: "dahdi_span \<Rightarrow> tone_globals \<Rightarrow> dahdi_chan \<Rightarrow> dahdi_chan" where
  "do_dtmf span G chan = do_dtmf_loop span G (txdialbuf chan) chan"

text \<open>
  \<open>ioctl_dahdi_dial\<close>; \<open>toupper\<close> is the kernel's, \<open>tdo\<close> the operation and the string the user gives (\<open>None\<close>: the copy
  faults).
\<close>

definition ioctl_dahdi_dial ::
  "(char \<Rightarrow> char) \<Rightarrow> bool \<Rightarrow> (int \<times> string) option \<Rightarrow> dahdi_span \<Rightarrow> tone_globals \<Rightarrow> dahdi_chan \<Rightarrow> int \<times> dahdi_chan"
where
  "ioctl_dahdi_dial toupper kmalloc tdo span G chan =
     (if \<not> kmalloc then (- ENOMEM, chan)
      else case tdo of
        None \<Rightarrow> (- EFAULT, chan)
      | Some (op, d) \<Rightarrow>
          let s = map toupper (take 255 (takeWhile (\<lambda>c. c \<noteq> CHR 0x00) d)) in
          if curzone chan = None then (- ENODATA, chan)
          else if op = 3 then (0, chan\<lparr>curtone := None, dialing := 0, txdialbuf := [], tonep := 0, pdialcount := 0\<rparr>)
          else if op = 2 then (0, do_dtmf span G (chan\<lparr>txdialbuf := s, dialing := 1\<rparr>))
          else if op = 1 then
            (if length s + length (txdialbuf chan) \<ge> 255 then (- EBUSY, chan)
             else
               let c = chan\<lparr>txdialbuf := txdialbuf chan @ s\<rparr>
               in (0, if dialing c = 0 then do_dtmf span G (c\<lparr>dialing := 1\<rparr>) else c))
          else (- EINVAL, chan))"

section \<open>The timers\<close>

definition rbs_itimer_expire :: "dahdi_chan \<Rightarrow> dahdi_chan" where
  "rbs_itimer_expire chan =
     (if sig chan = SIG_FXOLS \<or> sig chan = SIG_FXOGS \<or> sig chan = SIG_FXOKS
      then (qevent EVENT_ONHOOK chan)\<lparr>gotgs := False\<rparr>
      else qevent EVENT_RINGOFFHOOK chan)"

text \<open>An event for a program that opened the channel with \<open>O_NONBLOCK\<close>.\<close>

definition hook_complete :: "dahdi_chan \<Rightarrow> dahdi_chan" where
  "hook_complete chan = (if chan_file chan = Some True then qevent EVENT_HOOKCOMPLETE chan else chan)"

definition rbs_otimer_expire :: "dahdi_span \<Rightarrow> tone_globals \<Rightarrow> dahdi_chan \<Rightarrow> dahdi_chan option" where
  "rbs_otimer_expire span G chan =
     (let sethook = dahdi_rbs_sethook span; c = chan\<lparr>otimer := 0\<rparr> in
      case txstate c of
        TXSTATE_RINGOFF \<Rightarrow>
          let pos = cadencepos c + 1;
              pos = (if pos \<ge> int MAX_CADENCE then firstcadencepos c else pos);
              len = ringcadence c ! nat pos;
              (pos, len) = (if len = 0 then (firstcadencepos c, ringcadence c ! nat (firstcadencepos c)) else (pos, len))
          in Some (qevent EVENT_RINGERON (sethook TXSIG_START TXSTATE_RINGON len (c\<lparr>cadencepos := pos\<rparr>)))
      | TXSTATE_RINGON \<Rightarrow>
          let pos = cadencepos c + 1;
              pos = (if pos \<ge> int MAX_CADENCE then 0 else pos);
              len = ringcadence c ! nat pos;
              off = (\<lambda>pos len. Some (qevent EVENT_RINGEROFF (sethook TXSIG_OFFHOOK TXSTATE_RINGOFF len (c\<lparr>cadencepos := pos\<rparr>))))
          in if len = 0 then
               (case curzone c of
                  None \<Rightarrow> None
                | Some a \<Rightarrow> (case zone_at G a of None \<Rightarrow> None | Some z \<Rightarrow> off 0 (zone_cadence z ! 0)))
             else off pos len
      | TXSTATE_START \<Rightarrow> Some (wake TxstateQ (sethook TXSIG_OFFHOOK TXSTATE_AFTERSTART AFTERSTART_TIME c))
      | TXSTATE_PREWINK \<Rightarrow> Some (sethook TXSIG_OFFHOOK TXSTATE_WINK (winktime c) c)
      | TXSTATE_WINK \<Rightarrow> Some (wake TxstateQ (hook_complete (sethook TXSIG_ONHOOK TXSTATE_ONHOOK 0 c)))
      | TXSTATE_PREFLASH \<Rightarrow> Some (sethook TXSIG_ONHOOK TXSTATE_FLASH (flashtime c) c)
      | TXSTATE_FLASH \<Rightarrow> Some (wake TxstateQ (hook_complete (sethook TXSIG_OFFHOOK TXSTATE_OFFHOOK 0 c)))
      | TXSTATE_DEBOUNCE \<Rightarrow>
          let c = sethook TXSIG_OFFHOOK TXSTATE_OFFHOOK 0 c;
              c = (if rxhooksig c = RXSIG_ONHOOK \<and> rxflashtime c > 2
                   then c\<lparr>itimer := samples (rxflashtime c), itimerset := samples (rxflashtime c)\<rparr> else c)
          in Some (wake TxstateQ c)
      | TXSTATE_AFTERSTART \<Rightarrow> Some (wake TxstateQ (hook_complete (sethook TXSIG_OFFHOOK TXSTATE_OFFHOOK 0 c)))
      | TXSTATE_KEWL \<Rightarrow> Some (wake TxstateQ (hook_complete (sethook TXSIG_ONHOOK TXSTATE_AFTERKEWL AFTERKEWLTIME c)))
      | TXSTATE_AFTERKEWL \<Rightarrow>
          Some ((if kewlonhook c then qevent EVENT_ONHOOK c else c)\<lparr>txstate := TXSTATE_ONHOOK, gotgs := False\<rparr>)
      | TXSTATE_PULSEBREAK \<Rightarrow> Some (wake TxstateQ (sethook TXSIG_OFFHOOK TXSTATE_PULSEMAKE (pulsemaketime c) c))
      | TXSTATE_PULSEMAKE \<Rightarrow>
          let c = (if pdialcount c \<noteq> 0 then c\<lparr>pdialcount := pdialcount c - 1\<rparr> else c)
          in if pdialcount c \<noteq> 0 then Some (sethook TXSIG_ONHOOK TXSTATE_PULSEBREAK (pulsebreaktime c) c)
             else Some (wake TxstateQ (c\<lparr>txstate := TXSTATE_PULSEAFTER, otimer := samples (pulseaftertime c)\<rparr>))
      | TXSTATE_PULSEAFTER \<Rightarrow> Some (wake TxstateQ (do_dtmf span G (c\<lparr>txstate := TXSTATE_OFFHOOK\<rparr>)))
      | _ \<Rightarrow> Some c)"

text \<open>What \<open>dahdi_transmit\<close> does about \<open>otimer\<close>, every millisecond.\<close>

definition transmit_otimer :: "dahdi_span \<Rightarrow> tone_globals \<Rightarrow> dahdi_chan \<Rightarrow> dahdi_chan option" where
  "transmit_otimer span G chan =
     (if otimer chan \<noteq> 0 then
        let c = chan\<lparr>otimer := otimer chan - 8\<rparr>
        in if otimer c \<le> 0 then rbs_otimer_expire span G c else Some c
      else Some chan)"


section \<open>The receive state machine\<close>

definition set_itimer :: "int \<Rightarrow> dahdi_chan \<Rightarrow> dahdi_chan" where
  "set_itimer t chan = chan\<lparr>itimer := t, itimerset := t\<rparr>"

text \<open>\<open>__dahdi_hooksig_pvt\<close> by signalling: E&M, FXS (kewlstart and groundstart), FXO.\<close>

definition hooksig_em :: "rxsig \<Rightarrow> dahdi_chan \<Rightarrow> dahdi_chan" where
  "hooksig_em r chan =
     (case r of
        RXSIG_OFFHOOK \<Rightarrow> set_itimer (samples (rxwinktime chan)) chan
      | RXSIG_ONHOOK \<Rightarrow>
          set_itimer 0 (if itimer chan \<noteq> 0 then qevent EVENT_WINKFLASH chan
                        else (qevent EVENT_ONHOOK chan)\<lparr>gotgs := False\<rparr>)
      | _ \<Rightarrow> chan)"

definition hooksig_fxs :: "rxsig \<Rightarrow> dahdi_chan \<Rightarrow> dahdi_chan" where
  "hooksig_fxs r chan =
     (if sig chan = SIG_FXSKS \<and> txstate chan \<noteq> TXSTATE_OFFHOOK then chan
      else if r = RXSIG_ONHOOK then
        let c = chan\<lparr>ringdebtimer := RING_DEBOUNCE_TIME, ringtrailer := 0\<rparr>
        in if txstate c \<noteq> TXSTATE_DEBOUNCE then qevent EVENT_ONHOOK (c\<lparr>gotgs := False\<rparr>) else c
      else chan)"

definition hooksig_fxo_offhook :: "dahdi_span \<Rightarrow> dahdi_chan \<Rightarrow> dahdi_chan" where
  "hooksig_fxo_offhook span chan =
     (let c = (if txstate chan = TXSTATE_START
               then dahdi_rbs_sethook span TXSIG_OFFHOOK TXSTATE_AFTERSTART AFTERSTART_TIME chan else chan);
          c = c\<lparr>kewlonhook := False\<rparr>;
          c = (if itimer c \<noteq> 0 then
                 let plen = wrap_int (itimerset c - itimer c) in
                 if plen \<le> MAXPULSETIME then
                   (if plen \<ge> MINPULSETIME then
                      let c = c\<lparr>pulsecount := pulsecount c + 1, pulsetimer := PULSETIMEOUT, itimer := itimerset c\<rparr>
                      in if pulsecount c = 1 then qevent EVENT_PULSE_START c else c
                    else c)
                 else qevent EVENT_WINKFLASH c
               else if \<not> gotgs c then set_itimer 0 ((qevent EVENT_RINGOFFHOOK c)\<lparr>gotgs := True\<rparr>)
               else c)
      in set_itimer 0 c)"

definition hooksig_fxo :: "dahdi_span \<Rightarrow> rxsig \<Rightarrow> dahdi_chan \<Rightarrow> dahdi_chan" where
  "hooksig_fxo span r chan =
     (case r of
        RXSIG_OFFHOOK \<Rightarrow> hooksig_fxo_offhook span chan
      | RXSIG_ONHOOK \<Rightarrow>
          let c = (if txstate chan \<noteq> TXSTATE_DEBOUNCE \<and> txstate chan \<noteq> TXSTATE_KEWL \<and> txstate chan \<noteq> TXSTATE_AFTERKEWL
                   then set_itimer (samples (rxflashtime chan)) chan else chan)
          in if txstate c = TXSTATE_KEWL then c\<lparr>kewlonhook := True\<rparr> else c
      | _ \<Rightarrow> chan)"

definition hooksig_pvt :: "dahdi_span \<Rightarrow> rxsig \<Rightarrow> dahdi_chan \<Rightarrow> dahdi_chan" where
  "hooksig_pvt span r chan =
     (if rxhooksig chan = r then chan
      else if flagged chan FLAGBIT_SIGFREEZE then chan
      else
        let c = chan\<lparr>rxhooksig := r\<rparr>;
            c = (if sig c AND SIG_MASK_FXS \<noteq> 0 \<and> r = RXSIG_RING \<and> ringdebtimer c = 0 then qevent EVENT_RINGBEGIN c else c)
        in if sig c = SIG_EM \<or> sig c = SIG_EM_E1 then hooksig_em r c
           else if sig c = SIG_FXSKS \<or> sig c = SIG_FXSGS then hooksig_fxs r c
           else if sig c = SIG_FXOGS then
             hooksig_fxo span r (if r = RXSIG_START \<and> \<not> gotgs c then (qevent EVENT_RINGOFFHOOK c)\<lparr>gotgs := True\<rparr> else c)
           else if sig c = SIG_FXOLS \<or> sig c = SIG_FXOKS then hooksig_fxo span r c
           else c)"

definition dahdi_rbsbits :: "dahdi_span \<Rightarrow> int \<Rightarrow> dahdi_chan \<Rightarrow> dahdi_chan" where
  "dahdi_rbsbits span cursig chan =
     (if cursig = rxsig chan then chan
      else if flagged chan FLAGBIT_SIGFREEZE then chan
      else
        let a = bit cursig 3; b = bit cursig 2; s = sig chan;
            c = (if s = SIG_FXOGS \<and> \<not> b then hooksig_pvt span RXSIG_START chan
                 else if s = SIG_FXOGS \<or> s = SIG_EM \<or> s = SIG_EM_E1 \<or> s = SIG_FXOLS \<or> s = SIG_FXOKS then
                   hooksig_pvt span (if a then RXSIG_OFFHOOK else RXSIG_ONHOOK) chan
                 else if s = SIG_FXSKS \<or> s = SIG_FXSGS \<or> s = SIG_FXSLS then
                   (if \<not> b then hooksig_pvt span RXSIG_RING chan
                    else if s \<noteq> SIG_FXSLS \<and> a then hooksig_pvt span RXSIG_ONHOOK chan
                    else hooksig_pvt span RXSIG_OFFHOOK chan)
                 else if s = SIG_CAS then qevent EVENT_BITSCHANGED chan
                 else chan)
        in c\<lparr>rxsig := cursig\<rparr>)"

section \<open>The timers of \<open>dahdi_receive\<close>, every millisecond\<close>

definition receive_itimer :: "dahdi_chan \<Rightarrow> dahdi_chan" where
  "receive_itimer chan =
     (if itimer chan \<noteq> 0 then
        let c = chan\<lparr>itimer := itimer chan - 8\<rparr> in if itimer c \<le> 0 then rbs_itimer_expire c else c
      else chan)"

definition receive_ring :: "dahdi_chan \<Rightarrow> dahdi_chan" where
  "receive_ring chan =
     (let c = (if ringdebtimer chan \<noteq> 0 then chan\<lparr>ringdebtimer := ringdebtimer chan - 1\<rparr> else chan) in
      if sig c AND SIG_MASK_FXS \<noteq> 0 then
        (if rxhooksig c = RXSIG_RING then c\<lparr>ringtrailer := RINGTRAILER\<rparr>
         else if ringtrailer c \<noteq> 0 then
           let c = c\<lparr>ringtrailer := ringtrailer c - 8\<rparr>
           in if ringtrailer c = 0 \<and> ringdebtimer c = 0 then qevent EVENT_RINGOFFHOOK c else c
         else c)
      else c)"

text \<open>The digit of a count of pulses: 1 to 9 stand for themselves, 10 for 0, 11 for *, 12 for #.\<close>

definition receive_pulse :: "dahdi_chan \<Rightarrow> dahdi_chan" where
  "receive_pulse chan =
     (if pulsetimer chan \<noteq> 0 then
        let c = chan\<lparr>pulsetimer := pulsetimer chan - 1\<rparr> in
        if pulsetimer c \<le> 0 \<and> pulsecount c \<noteq> 0 then
          (if pulsecount c > 12 then c
           else if pulsecount c > 11 then qevent (EVENT_PULSEDIGIT OR of_char CHR ''#'') c
           else if pulsecount c > 10 then qevent (EVENT_PULSEDIGIT OR of_char CHR ''*'') c
           else if pulsecount c > 9 then qevent (EVENT_PULSEDIGIT OR of_char CHR ''0'') c
           else qevent (EVENT_PULSEDIGIT OR (of_char CHR ''0'' + pulsecount c)) c)\<lparr>pulsecount := 0\<rparr>
        else c
      else chan)"

definition receive_timers :: "dahdi_chan \<Rightarrow> dahdi_chan" where
  "receive_timers chan = receive_pulse (receive_ring (receive_itimer chan))"

section \<open>\<open>DAHDI_HOOK\<close>\<close>

text \<open>A result \<open>None\<close> is a call that sleeps on \<open>txstateq\<close> and returns 0 when it is woken.\<close>

definition ioctl_hook :: "bool \<Rightarrow> dahdi_span \<Rightarrow> int \<Rightarrow> dahdi_chan \<Rightarrow> int option \<times> dahdi_chan" where
  "ioctl_hook nonblock span j chan =
     (if flagged chan FLAGBIT_CLEAR then (Some (- EINVAL), chan)
      else if sig chan = SIG_CAS then (Some (- EINVAL), chan)
      else if chan_span chan = None then (Some 0, chan)
      else
        let c = chan\<lparr>curtone := None, dialing := 0, txdialbuf := [], tonep := 0, pdialcount := 0\<rparr>;
            busy = (Some (- EBUSY), c) in
        if bit (sp_flags span) FLAGBIT_RBS then
          (if j = 0 then (Some 0, snd (dahdi_hangup span 0 c))
           else if j = 1 then
             (if txstate c = TXSTATE_KEWL \<or> txstate c = TXSTATE_AFTERKEWL then busy
              else (Some 0, dahdi_rbs_sethook span TXSIG_OFFHOOK TXSTATE_DEBOUNCE (debouncetime c) c))
           else if j = 5 \<or> j = 4 then
             (if curzone c = None then (Some (- ENODATA), c)
              else if txstate c \<noteq> TXSTATE_ONHOOK then busy
              else
                ((if nonblock then Some (- EINPROGRESS) else Some 0),
                 if sig c AND SIG_MASK_FXO \<noteq> 0 then
                   dahdi_rbs_sethook span TXSIG_START TXSTATE_RINGON (ringcadence c ! 0) (c\<lparr>cadencepos := 0\<rparr>)
                 else dahdi_rbs_sethook span TXSIG_START TXSTATE_START (starttime c) c))
           else if j = 2 then
             (if txstate c \<noteq> TXSTATE_ONHOOK then busy
              else ((if nonblock then Some (- EINPROGRESS) else None),
                    dahdi_rbs_sethook span TXSIG_ONHOOK TXSTATE_PREWINK (prewinktime c) c))
           else if j = 3 then
             (if txstate c \<noteq> TXSTATE_OFFHOOK then busy
              else ((if nonblock then Some (- EINPROGRESS) else None),
                    dahdi_rbs_sethook span TXSIG_OFFHOOK TXSTATE_PREFLASH (preflashtime c) c))
           else if j = 6 then (Some 0, dahdi_rbs_sethook span TXSIG_ONHOOK TXSTATE_ONHOOK 0 c)
           else (Some (- EINVAL), c))
        else if has_sethook span then
          (Some 0, if txhooksig c \<noteq> j then emit (SpanSethook j) (c\<lparr>txhooksig := j\<rparr>) else c)
        else (Some (- ENOSYS), c))"

text \<open>
  \<open>DAHDI_SETCADENCE\<close>. A negative time at an even place says where the cadence starts over. The argument is the
  user's cadence, or \<open>None\<close> for the default.
\<close>

fun find_restart :: "nat list \<Rightarrow> int list \<Rightarrow> int list \<times> int" where
  "find_restart [] cad = (cad, 0)"
| "find_restart (i # is) cad = (if cad ! i < 0 then (cad[i := - (cad ! i)], int i) else find_restart is cad)"

definition ioctl_setcadence :: "int list option \<Rightarrow> tone_globals \<Rightarrow> dahdi_chan \<Rightarrow> dahdi_chan" where
  "ioctl_setcadence usr G chan =
     (let even = [0, 2, 4, 6, 8, 10, 12, 14] in
      case usr of
        Some cad \<Rightarrow> let (cad, f) = find_restart even cad in chan\<lparr>ringcadence := cad, firstcadencepos := f\<rparr>
      | None \<Rightarrow>
          (case curzone chan of
             Some a \<Rightarrow>
               let (cad, f) = find_restart even (case zone_at G a of Some z \<Rightarrow> zone_cadence z | None \<Rightarrow> ringcadence chan)
               in chan\<lparr>ringcadence := cad, firstcadencepos := f\<rparr>
           | None \<Rightarrow> chan\<lparr>ringcadence := starttime chan # 4000 # replicate 14 0, firstcadencepos := 0\<rparr>))"


section \<open>What the operations leave alone\<close>

lemma qevent_sel [simp]:
  "txstate (qevent e c) = txstate c" "otimer (qevent e c) = otimer c" "curzone (qevent e c) = curzone c"
  "cadencepos (qevent e c) = cadencepos c" "firstcadencepos (qevent e c) = firstcadencepos c"
  "ringcadence (qevent e c) = ringcadence c" "rxhooksig (qevent e c) = rxhooksig c" "txhooksig (qevent e c) = txhooksig c"
  "itimer (qevent e c) = itimer c" "itimerset (qevent e c) = itimerset c" "pdialcount (qevent e c) = pdialcount c"
  "sig (qevent e c) = sig c" "chan_span (qevent e c) = chan_span c" "chan_file (qevent e c) = chan_file c"
  "winktime (qevent e c) = winktime c" "flashtime (qevent e c) = flashtime c" "pulsemaketime (qevent e c) = pulsemaketime c"
  "pulsebreaktime (qevent e c) = pulsebreaktime c" "pulseaftertime (qevent e c) = pulseaftertime c"
  "rxflashtime (qevent e c) = rxflashtime c" "rxwinktime (qevent e c) = rxwinktime c" "pulsecount (qevent e c) = pulsecount c"
  "pulsetimer (qevent e c) = pulsetimer c" "gotgs (qevent e c) = gotgs c" "rxsig (qevent e c) = rxsig c"
  "txsig (qevent e c) = txsig c" "kewlonhook (qevent e c) = kewlonhook c" "cflags (qevent e c) = cflags c"
  "ringdebtimer (qevent e c) = ringdebtimer c" "ringtrailer (qevent e c) = ringtrailer c" "digitmode (qevent e c) = digitmode c"
  "txdialbuf (qevent e c) = txdialbuf c" "dialing (qevent e c) = dialing c" "curtone (qevent e c) = curtone c"
  by (auto simp: qevent_def wake_def Let_def)

lemma wake_sel [simp]:
  "txstate (wake w c) = txstate c" "otimer (wake w c) = otimer c" "curzone (wake w c) = curzone c"
  "cadencepos (wake w c) = cadencepos c" "firstcadencepos (wake w c) = firstcadencepos c"
  "ringcadence (wake w c) = ringcadence c" "rxhooksig (wake w c) = rxhooksig c" "pdialcount (wake w c) = pdialcount c"
  "sig (wake w c) = sig c" "chan_span (wake w c) = chan_span c" "evring (wake w c) = evring c"
  "winktime (wake w c) = winktime c" "flashtime (wake w c) = flashtime c" "pulsemaketime (wake w c) = pulsemaketime c"
  "pulsebreaktime (wake w c) = pulsebreaktime c" "pulseaftertime (wake w c) = pulseaftertime c" "eff (wake w c) = eff c @ [Wake w]"
  by (simp_all add: wake_def)

text \<open>The channel can set hook states: its span does robbed-bit signalling, and the signalling is known.\<close>

definition rbs_capable :: "dahdi_span \<Rightarrow> dahdi_chan \<Rightarrow> bool" where
  "rbs_capable span c \<longleftrightarrow> chan_span c \<noteq> None \<and> bit (sp_flags span) FLAGBIT_RBS \<and> sig c \<noteq> SIG_DACS_RBS \<and>
     (has_hooksig span \<or> has_rbsbits span) \<and> (sig c = SIG_SF \<or> has_hooksig span \<or> map_of outs (sig c) \<noteq> None)"

lemma sethook_sel [simp]:
  "curzone (dahdi_rbs_sethook span s st t c) = curzone c" "cadencepos (dahdi_rbs_sethook span s st t c) = cadencepos c"
  "firstcadencepos (dahdi_rbs_sethook span s st t c) = firstcadencepos c"
  "ringcadence (dahdi_rbs_sethook span s st t c) = ringcadence c" "rxhooksig (dahdi_rbs_sethook span s st t c) = rxhooksig c"
  "itimer (dahdi_rbs_sethook span s st t c) = itimer c" "itimerset (dahdi_rbs_sethook span s st t c) = itimerset c"
  "pdialcount (dahdi_rbs_sethook span s st t c) = pdialcount c" "sig (dahdi_rbs_sethook span s st t c) = sig c"
  "chan_span (dahdi_rbs_sethook span s st t c) = chan_span c" "winktime (dahdi_rbs_sethook span s st t c) = winktime c"
  "flashtime (dahdi_rbs_sethook span s st t c) = flashtime c" "evring (dahdi_rbs_sethook span s st t c) = evring c"
  "pulsemaketime (dahdi_rbs_sethook span s st t c) = pulsemaketime c" "chan_file (dahdi_rbs_sethook span s st t c) = chan_file c"
  "pulsebreaktime (dahdi_rbs_sethook span s st t c) = pulsebreaktime c"
  "pulseaftertime (dahdi_rbs_sethook span s st t c) = pulseaftertime c" "cflags (dahdi_rbs_sethook span s st t c) = cflags c"
  "pulsecount (dahdi_rbs_sethook span s st t c) = pulsecount c" "pulsetimer (dahdi_rbs_sethook span s st t c) = pulsetimer c"
  "gotgs (dahdi_rbs_sethook span s st t c) = gotgs c"
  by (simp_all add: dahdi_rbs_sethook_def Let_def set_txtone_def emit_def split: option.splits)

lemma sethook_capable:
  assumes "rbs_capable span c" "0 \<le> s" "s \<le> 3"
  shows "txstate (dahdi_rbs_sethook span s st t c) = st" "otimer (dahdi_rbs_sethook span s st t c) = samples t"
    "txhooksig (dahdi_rbs_sethook span s st t c) = s"
  using assms
  by (auto simp: rbs_capable_def dahdi_rbs_sethook_def Let_def set_txtone_def emit_def split: option.splits)

lemma sethook_txstate: "txstate (dahdi_rbs_sethook span s st t c) \<in> {st, txstate c}"
  by (simp add: dahdi_rbs_sethook_def Let_def set_txtone_def emit_def split: option.splits)

lemma rbs_capable_cong [simp]:
  "rbs_capable span (dahdi_rbs_sethook span' s st t c) = rbs_capable span c"
  "rbs_capable span (qevent e c) = rbs_capable span c" "rbs_capable span (wake w c) = rbs_capable span c"
  "rbs_capable span (c\<lparr>otimer := x\<rparr>) = rbs_capable span c" "rbs_capable span (c\<lparr>txstate := y\<rparr>) = rbs_capable span c"
  "rbs_capable span (c\<lparr>itimer := x, itimerset := z\<rparr>) = rbs_capable span c"
  "rbs_capable span (c\<lparr>pdialcount := x\<rparr>) = rbs_capable span c"
  by (simp_all add: rbs_capable_def)

lemma hook_complete_sel [simp]:
  "txstate (hook_complete c) = txstate c" "otimer (hook_complete c) = otimer c"
  "rbs_capable span (hook_complete c) = rbs_capable span c" "winktime (hook_complete c) = winktime c"
  "flashtime (hook_complete c) = flashtime c" "curzone (hook_complete c) = curzone c"
  "cadencepos (hook_complete c) = cadencepos c" "firstcadencepos (hook_complete c) = firstcadencepos c"
  "ringcadence (hook_complete c) = ringcadence c"
  by (simp_all add: hook_complete_def)

lemma samples_id: "0 \<le> t \<Longrightarrow> t < 2 ^ 28 \<Longrightarrow> samples t = 8 * t"
  by (simp add: samples_def wrap_int_id)

section \<open>Running the transmit timer\<close>

fun ticks :: "nat \<Rightarrow> dahdi_span \<Rightarrow> tone_globals \<Rightarrow> dahdi_chan \<Rightarrow> dahdi_chan option" where
  "ticks 0 span G c = Some c"
| "ticks (Suc n) span G c = (case transmit_otimer span G c of None \<Rightarrow> None | Some c' \<Rightarrow> ticks n span G c')"

lemma ticks_add: "ticks (m + n) span G c = (case ticks m span G c of None \<Rightarrow> None | Some c' \<Rightarrow> ticks n span G c')"
  by (induction m arbitrary: c) (auto split: option.splits)

text \<open>A timer of \<open>u\<close> ms expires after \<open>u\<close> ticks.\<close>

lemma ticks_expire:
  assumes "otimer c = 8 * int u" "0 < u"
  shows "ticks u span G c = rbs_otimer_expire span G (c\<lparr>otimer := 0\<rparr>)"
  using assms
proof (induction u arbitrary: c)
  case (Suc u)
  show ?case
  proof (cases u)
    case 0
    then show ?thesis using Suc.prems
      by (simp add: transmit_otimer_def Let_def split: option.splits)
  next
    case (Suc v)
    then have "transmit_otimer span G c = Some (c\<lparr>otimer := 8 * int u\<rparr>)"
      using Suc.prems by (simp add: transmit_otimer_def Let_def)
    then show ?thesis using Suc.IH [of "c\<lparr>otimer := 8 * int u\<rparr>"] Suc by simp
  qed
qed simp

lemma expire_otimer: "rbs_otimer_expire span G (c\<lparr>otimer := x\<rparr>) = rbs_otimer_expire span G c"
  by (simp add: rbs_otimer_expire_def)


section \<open>Hook operations complete\<close>

lemma ticks_run:
  "otimer c = 8 * int u \<Longrightarrow> k < u \<Longrightarrow> ticks k span G c = Some (c\<lparr>otimer := 8 * (int u - int k)\<rparr>)"
proof (induction k arbitrary: c u)
  case (Suc k)
  have "transmit_otimer span G c = Some (c\<lparr>otimer := 8 * int (u - 1)\<rparr>)"
    using Suc.prems by (simp add: transmit_otimer_def Let_def of_nat_diff)
  then show ?case using Suc.IH [of "c\<lparr>otimer := 8 * int (u - 1)\<rparr>" "u - 1"] Suc.prems by (simp add: of_nat_diff)
qed simp

lemma ticks_off: "otimer c = 0 \<Longrightarrow> ticks k span G c = Some c"
  by (induction k) (simp_all add: transmit_otimer_def)

text \<open>
  The plan of a hook operation, by the state it is in: the ms still to spend after the current timer, the state and the
  hook signal of that time, and the state and the signal in which the operation ends. A wink is an off-hook between two
  on-hooks, a flash an on-hook between two off-hooks.
\<close>

definition settle :: "dahdi_chan \<Rightarrow> (int \<times> txstate \<times> int \<times> txstate \<times> int) option" where
  "settle c =
     (case txstate c of
        TXSTATE_PREWINK \<Rightarrow> Some (winktime c, TXSTATE_WINK, TXSIG_OFFHOOK, TXSTATE_ONHOOK, TXSIG_ONHOOK)
      | TXSTATE_WINK \<Rightarrow> Some (0, TXSTATE_ONHOOK, TXSIG_ONHOOK, TXSTATE_ONHOOK, TXSIG_ONHOOK)
      | TXSTATE_PREFLASH \<Rightarrow> Some (flashtime c, TXSTATE_FLASH, TXSIG_ONHOOK, TXSTATE_OFFHOOK, TXSIG_OFFHOOK)
      | TXSTATE_FLASH \<Rightarrow> Some (0, TXSTATE_OFFHOOK, TXSIG_OFFHOOK, TXSTATE_OFFHOOK, TXSIG_OFFHOOK)
      | TXSTATE_START \<Rightarrow> Some (500, TXSTATE_AFTERSTART, TXSIG_OFFHOOK, TXSTATE_OFFHOOK, TXSIG_OFFHOOK)
      | TXSTATE_AFTERSTART \<Rightarrow> Some (0, TXSTATE_OFFHOOK, TXSIG_OFFHOOK, TXSTATE_OFFHOOK, TXSIG_OFFHOOK)
      | TXSTATE_DEBOUNCE \<Rightarrow> Some (0, TXSTATE_OFFHOOK, TXSIG_OFFHOOK, TXSTATE_OFFHOOK, TXSIG_OFFHOOK)
      | TXSTATE_KEWL \<Rightarrow> Some (300, TXSTATE_AFTERKEWL, TXSIG_ONHOOK, TXSTATE_ONHOOK, TXSIG_ONHOOK)
      | TXSTATE_AFTERKEWL \<Rightarrow> Some (0, TXSTATE_ONHOOK, txhooksig c, TXSTATE_ONHOOK, txhooksig c)
      | _ \<Rightarrow> None)"

lemma hook_complete_sig [simp]: "txhooksig (hook_complete c) = txhooksig c" "txhooksig (wake w c) = txhooksig c"
  "txhooksig (qevent e c) = txhooksig c"
proof -
  have q: "txhooksig (qevent e c) = txhooksig c" for e c using qevent_cases [of e c] by auto
  show "txhooksig (hook_complete c) = txhooksig c" "txhooksig (wake w c) = txhooksig c" "txhooksig (qevent e c) = txhooksig c"
    by (simp_all add: hook_complete_def wake_def q)
qed

lemma settle_last:
  assumes "rbs_capable span c" "settle c = Some (t, mid, msig, fin, fsig)"
    "txstate c \<notin> {TXSTATE_PREWINK, TXSTATE_PREFLASH, TXSTATE_START, TXSTATE_KEWL}"
  obtains c' where "rbs_otimer_expire span G c = Some c'" "txstate c' = fin" "otimer c' = 0" "txhooksig c' = fsig" "t = 0"
proof -
  have "samples 0 = 0" by (simp add: samples_id)
  then have "\<exists>c'. rbs_otimer_expire span G c = Some c' \<and> txstate c' = fin \<and> otimer c' = 0 \<and> txhooksig c' = fsig \<and> t = 0"
    using assms
    by (cases "txstate c") (auto simp: settle_def rbs_otimer_expire_def Let_def sethook_capable)
  then show thesis using that by blast
qed

lemma settle_first:
  assumes "rbs_capable span c" "txstate c \<in> {TXSTATE_PREWINK, TXSTATE_PREFLASH, TXSTATE_START, TXSTATE_KEWL}"
    and "settle c = Some (t, mid, msig, fin, fsig)" "t < 2 ^ 28" "0 \<le> t"
  obtains c' where "rbs_otimer_expire span G c = Some c'" "rbs_capable span c'" "otimer c' = 8 * t" "txstate c' = mid"
    "txhooksig c' = msig" "settle c' = Some (0, fin, fsig, fin, fsig)"
    "txstate c' \<notin> {TXSTATE_PREWINK, TXSTATE_PREFLASH, TXSTATE_START, TXSTATE_KEWL}"
proof -
  have "samples t = 8 * t" using assms by (simp add: samples_id)
  then have "\<exists>c'. rbs_otimer_expire span G c = Some c' \<and> rbs_capable span c' \<and> otimer c' = 8 * t \<and> txstate c' = mid \<and>
      txhooksig c' = msig \<and> settle c' = Some (0, fin, fsig, fin, fsig) \<and>
      txstate c' \<notin> {TXSTATE_PREWINK, TXSTATE_PREFLASH, TXSTATE_START, TXSTATE_KEWL}"
    using assms by (auto simp: settle_def rbs_otimer_expire_def sethook_capable)
  then show thesis using that by blast
qed

text \<open>C21. The course of a hook operation, tick by tick: a capable channel in any state of a wink, a flash, a start, a
  debounce or a kewl pulse stays in it until its timer has run down, spends exactly the time of the plan in the state
  between (a wink goes off hook for the wink time, a flash on hook for the flash time), then reaches the state in which
  the operation ends, with that state's hook signal, and stays there with its timer off.\<close>

theorem hook_operation_completes:
  assumes "rbs_capable span c" "otimer c = 8 * int u" "0 < u" "settle c = Some (t, mid, msig, fin, fsig)"
    and "0 < winktime c" "winktime c < 2 ^ 28" "0 < flashtime c" "flashtime c < 2 ^ 28"
  shows "\<exists>c'. ticks k span G c = Some c' \<and> (txstate c', otimer c', txhooksig c') =
    (if k < u then (txstate c, 8 * (int u - int k), txhooksig c)
     else if k < u + nat t then (mid, 8 * (int u + t - int k), msig)
     else (fin, 0, fsig))"
proof (cases "k < u")
  case True
  then show ?thesis using ticks_run [OF assms(2) True] by simp
next
  case ku: False
  have e: "ticks k span G c = (case rbs_otimer_expire span G c of None \<Rightarrow> None | Some c' \<Rightarrow> ticks (k - u) span G c')"
    using ticks_add [of u "k - u" span G c] ticks_expire [OF assms(2,3)] ku by (simp add: expire_otimer)
  show ?thesis
  proof (cases "txstate c \<in> {TXSTATE_PREWINK, TXSTATE_PREFLASH, TXSTATE_START, TXSTATE_KEWL}")
    case True
    then have t: "0 < t" "t < 2 ^ 28" using assms(4-8) by (auto simp: settle_def)
    obtain c1 where c1: "rbs_otimer_expire span G c = Some c1" "rbs_capable span c1" "otimer c1 = 8 * int (nat t)"
      "txstate c1 = mid" "txhooksig c1 = msig" "settle c1 = Some (0, fin, fsig, fin, fsig)"
      "txstate c1 \<notin> {TXSTATE_PREWINK, TXSTATE_PREFLASH, TXSTATE_START, TXSTATE_KEWL}"
      using settle_first [OF assms(1) True assms(4)] t by auto
    show ?thesis
    proof (cases "k < u + nat t")
      case True
      then have "ticks (k - u) span G c1 = Some (c1\<lparr>otimer := 8 * (int (nat t) - int (k - u))\<rparr>)"
        using ku by (intro ticks_run [OF c1(3)]) simp
      then show ?thesis using True ku t c1(1,4,5) by (simp add: e of_nat_diff)
    next
      case False
      obtain c2 where c2: "rbs_otimer_expire span G c1 = Some c2" "txstate c2 = fin" "otimer c2 = 0" "txhooksig c2 = fsig"
        by (rule settle_last [OF c1(2,6,7)])
      have "ticks (k - u) span G c1 =
          (case rbs_otimer_expire span G c1 of None \<Rightarrow> None | Some c' \<Rightarrow> ticks (k - u - nat t) span G c')"
        using ticks_add [of "nat t" "k - u - nat t" span G c1] ticks_expire [OF c1(3)] False ku t by (simp add: expire_otimer)
      then show ?thesis using ku False c1(1) c2 ticks_off [OF c2(3)] by (simp add: e)
    qed
  next
    case False
    obtain c' where c': "rbs_otimer_expire span G c = Some c'" "txstate c' = fin" "otimer c' = 0" "txhooksig c' = fsig" "t = 0"
      by (rule settle_last [OF assms(1,4) False])
    then show ?thesis using ku ticks_off [OF c'(3)] by (simp add: e)
  qed
qed

text \<open>A channel of a span that signals by bits, in the middle of a wink.\<close>

definition span_ex :: dahdi_span where
  "span_ex = span0\<lparr>sp_flags := 0x1000, has_rbsbits := True\<rparr>"

definition fxs_ex :: dahdi_chan where
  "fxs_ex = chan0\<lparr>chan_span := Some 1, sig := SIG_FXSKS, winktime := 150, flashtime := 750, pulsebreaktime := 50,
     pulsemaketime := 50, pulseaftertime := 750\<rparr>"

lemma fxs_ex_capable: "rbs_capable span_ex fxs_ex"
  by (simp add: rbs_capable_def span_ex_def fxs_ex_def outs_def bit_numeral_rec)

theorem hook_operation_completes_witness:
  "\<exists>c'. ticks 60 span_ex tone_globals0 (fxs_ex\<lparr>txstate := TXSTATE_PREWINK, otimer := 400\<rparr>) = Some c' \<and>
     (txstate c', otimer c', txhooksig c') = (TXSTATE_WINK, 1120, TXSIG_OFFHOOK)"
  using hook_operation_completes [of span_ex "fxs_ex\<lparr>txstate := TXSTATE_PREWINK, otimer := 400\<rparr>" 50 150 TXSTATE_WINK
      TXSIG_OFFHOOK TXSTATE_ONHOOK TXSIG_ONHOOK 60 tone_globals0] fxs_ex_capable
  by (simp add: settle_def) (simp add: fxs_ex_def)


section \<open>Dialing with pulses\<close>

text \<open>The channel signals with bits, those of its row of \<open>outs\<close>.\<close>

definition bits_only :: "dahdi_span \<Rightarrow> dahdi_chan \<Rightarrow> int list \<Rightarrow> bool" where
  "bits_only span c bits \<longleftrightarrow> chan_span c \<noteq> None \<and> bit (sp_flags span) FLAGBIT_RBS \<and> has_rbsbits span \<and>
     \<not> has_hooksig span \<and> sig c \<noteq> SIG_SF \<and> map_of outs (sig c) = Some bits"

text \<open>The signalling bits handed to the driver, in order.\<close>

fun bits_of :: "effect \<Rightarrow> int list" where
  "bits_of (SpanRbsbits b) = [b]"
| "bits_of _ = []"

definition sent :: "dahdi_chan \<Rightarrow> int list" where
  "sent c = concat (map bits_of (eff c))"

lemma sethook_bits:
  assumes "bits_only span c bits" "0 \<le> s" "s \<le> 3"
  shows "dahdi_rbs_sethook span s st t c =
    c\<lparr>txstate := st, txhooksig := s, txsig := bits ! nat s, otimer := samples t, eff := eff c @ [SpanRbsbits (bits ! nat s)]\<rparr>"
proof -
  have "sig c \<noteq> SIG_DACS_RBS" using assms(1) by (auto simp: bits_only_def outs_def)
  moreover obtain y where "chan_span c = Some y" using assms(1) by (auto simp: bits_only_def)
  ultimately show ?thesis using assms by (simp add: bits_only_def dahdi_rbs_sethook_def Let_def emit_def)
qed

lemma bits_only_cong [simp]:
  "bits_only span (c\<lparr>txstate := st, txhooksig := s, txsig := x, otimer := t, eff := e\<rparr>) bits = bits_only span c bits"
  "bits_only span (c\<lparr>pdialcount := x\<rparr>) bits = bits_only span c bits" "bits_only span (c\<lparr>otimer := t\<rparr>) bits = bits_only span c bits"
  "bits_only span (wake w c) bits = bits_only span c bits"
  by (simp_all add: bits_only_def)

text \<open>One pulse: the break that is running, and the make.\<close>

definition pulse_times :: "dahdi_chan \<Rightarrow> nat \<Rightarrow> nat \<Rightarrow> nat \<Rightarrow> bool" where
  "pulse_times c b m a \<longleftrightarrow> pulsebreaktime c = int b \<and> pulsemaketime c = int m \<and> pulseaftertime c = int a \<and>
     0 < b \<and> 0 < m \<and> 0 < a \<and> b < 2 ^ 28 \<and> m < 2 ^ 28 \<and> a < 2 ^ 28"

definition dialing_pulse :: "dahdi_span \<Rightarrow> dahdi_chan \<Rightarrow> int list \<Rightarrow> nat \<Rightarrow> nat \<Rightarrow> nat \<Rightarrow> bool" where
  "dialing_pulse span c bits b m a \<longleftrightarrow> bits_only span c bits \<and> pulse_times c b m a \<and> txstate c = TXSTATE_PULSEBREAK \<and>
     otimer c = 8 * int b"

lemma pulse_round:
  assumes d: "dialing_pulse span c bits b m a" and n: "pdialcount c = int (Suc n)"
  obtains c' where "ticks (b + m) span G c = Some c'" "pdialcount c' = int n"
    "n = 0 \<Longrightarrow> txstate c' = TXSTATE_PULSEAFTER \<and> otimer c' = 8 * int a \<and> sent c' = sent c @ [bits ! 1]"
    "n > 0 \<Longrightarrow> dialing_pulse span c' bits b m a \<and> sent c' = sent c @ [bits ! 1, bits ! 0]"
    "txdialbuf c' = txdialbuf c" "digitmode c' = digitmode c" "bits_only span c' bits"
proof -
  have t: "samples (pulsemaketime c) = 8 * int m" "samples (pulsebreaktime c) = 8 * int b" "samples (pulseaftertime c) = 8 * int a"
    using d by (simp_all add: dialing_pulse_def pulse_times_def samples_id)
  have bo: "bits_only span c bits" and pt: "0 < b" "0 < m" using d by (auto simp: dialing_pulse_def pulse_times_def)
  define c1 where "c1 = wake TxstateQ (c\<lparr>otimer := 8 * int m, txstate := TXSTATE_PULSEMAKE, txhooksig := 1,
      txsig := bits ! 1, eff := eff c @ [SpanRbsbits (bits ! 1)]\<rparr>)"
  have s1: "ticks b span G c = Some c1"
  proof -
    have "ticks b span G c = rbs_otimer_expire span G c"
      using ticks_expire [of c b span G] d pt by (simp add: expire_otimer dialing_pulse_def)
    also have "\<dots> = Some c1"
      using d sethook_bits [of span "c\<lparr>otimer := 0\<rparr>" bits 1] bo t
      by (simp add: rbs_otimer_expire_def Let_def dialing_pulse_def c1_def wake_def)
    finally show ?thesis .
  qed
  have c1: "otimer c1 = 8 * int m" "txstate c1 = TXSTATE_PULSEMAKE" "pdialcount c1 = int (Suc n)" "bits_only span c1 bits"
    "sent c1 = sent c @ [bits ! 1]" "pulsebreaktime c1 = pulsebreaktime c" "pulsemaketime c1 = pulsemaketime c"
    "pulseaftertime c1 = pulseaftertime c" "txdialbuf c1 = txdialbuf c" "digitmode c1 = digitmode c"
    using bo n by (simp_all add: c1_def sent_def wake_def bits_only_def)
  have s2: "ticks m span G c1 = rbs_otimer_expire span G c1"
    using ticks_expire [of c1 m span G] c1(1) pt by (simp add: expire_otimer)
  show thesis
  proof (cases n)
    case 0
    define c2 where "c2 = wake TxstateQ (c1\<lparr>otimer := 8 * int a, pdialcount := 0, txstate := TXSTATE_PULSEAFTER\<rparr>)"
    have "rbs_otimer_expire span G c1 = Some c2"
      using c1 t 0 by (simp add: rbs_otimer_expire_def Let_def c2_def wake_def)
    then show thesis
      using s1 s2 c1 0 by (intro that [of c2]) (simp_all add: ticks_add c2_def sent_def bits_only_def wake_def)
  next
    case (Suc k)
    define c2 where "c2 = c1\<lparr>pdialcount := int n, txstate := TXSTATE_PULSEBREAK, txhooksig := 0, txsig := bits ! 0,
        otimer := 8 * int b, eff := eff c1 @ [SpanRbsbits (bits ! 0)]\<rparr>"
    have "rbs_otimer_expire span G c1 = Some c2"
      using c1 t Suc sethook_bits [of span "c1\<lparr>otimer := 0, pdialcount := int n\<rparr>" bits 0]
      by (simp add: rbs_otimer_expire_def Let_def c2_def bits_only_def)
    then show thesis
      using s1 s2 c1 d Suc
      by (intro that [of c2]) (simp_all add: ticks_add c2_def sent_def bits_only_def dialing_pulse_def pulse_times_def)
  qed
qed


lemma pulse_rounds:
  assumes "dialing_pulse span c bits b m a" "pdialcount c = int (Suc n)"
  shows "\<exists>c'. ticks (Suc n * (b + m)) span G c = Some c' \<and> txstate c' = TXSTATE_PULSEAFTER \<and> otimer c' = 8 * int a \<and>
    pdialcount c' = 0 \<and> sent c' = sent c @ [bits ! 1] @ concat (replicate n [bits ! 0, bits ! 1]) \<and> txdialbuf c' = txdialbuf c"
  using assms
proof (induction n arbitrary: c)
  case 0
  obtain c' where "ticks (b + m) span G c = Some c'" "pdialcount c' = int 0"
    "txstate c' = TXSTATE_PULSEAFTER \<and> otimer c' = 8 * int a \<and> sent c' = sent c @ [bits ! 1]" "txdialbuf c' = txdialbuf c"
    using pulse_round [OF 0(1,2), of G] by (metis gr0_conv_Suc)
  then show ?case by simp
next
  case (Suc n)
  obtain c1 where 1: "ticks (b + m) span G c = Some c1" "pdialcount c1 = int (Suc n)"
    "dialing_pulse span c1 bits b m a \<and> sent c1 = sent c @ [bits ! 1, bits ! 0]" "txdialbuf c1 = txdialbuf c"
    using pulse_round [OF Suc.prems, of G] by (metis zero_less_Suc)
  have "ticks (Suc (Suc n) * (b + m)) span G c = ticks (Suc n * (b + m)) span G c1"
    using ticks_add [of "b + m" "Suc n * (b + m)" span G c] 1(1) by simp
  then show ?case using Suc.IH [of c1] 1 by auto
qed

text \<open>The number of pulses of a digit.\<close>

definition digit_pulses :: "char \<Rightarrow> nat" where
  "digit_pulses d = (if d = CHR ''0'' then 10 else char_sub d CHR ''0'')"

lemma digit_pulses_pos: "char_in CHR ''0'' CHR ''9'' d \<Longrightarrow> \<exists>n. digit_pulses d = Suc n"
proof -
  assume d: "char_in CHR ''0'' CHR ''9'' d"
  show ?thesis
  proof (cases "d = CHR ''0''")
    case False
    then have "(of_char d :: nat) \<noteq> of_char CHR ''0''" by (metis of_char_eq_iff)
    then have "0 < digit_pulses d" using False d by (simp add: digit_pulses_def char_sub_def char_in_def)
    then show ?thesis using gr0_conv_Suc by blast
  qed (simp add: digit_pulses_def numeral_eq_Suc)
qed

text \<open>C35. Pulse dialing sends the digit: from a channel off hook with a digit next in its dial string, in the pulse
  mode, the line is given exactly as many breaks (on-hook bits, then off-hook bits) as the digit has pulses, in
  as many times the break and make times, after which the pause before the next digit begins.\<close>

theorem pulse_dialing_sends_digit:
  assumes "bits_only span c bits" "pulse_times c b m a" "txhooksig c = TXSIG_OFFHOOK" "digitmode c = DIGIT_MODE_PULSE"
    and "txdialbuf c = d # rest" "char_in CHR ''0'' CHR ''9'' d"
  shows "\<exists>c'. ticks (digit_pulses d * (b + m)) span G (do_dtmf span G c) = Some c' \<and> txstate c' = TXSTATE_PULSEAFTER \<and>
    otimer c' = 8 * int a \<and> txdialbuf c' = rest \<and>
    sent c' = sent c @ concat (replicate (digit_pulses d) [bits ! 0, bits ! 1])"
proof -
  have d: "d \<notin> {CHR ''T'', CHR ''M'', CHR ''O'', CHR ''R'', CHR ''P'', CHR ''W''}"
    using assms(6) by (auto simp: char_in_def)
  obtain n where n: "digit_pulses d = Suc n" using digit_pulses_pos [OF assms(6)] by blast
  let ?c = "c\<lparr>txdialbuf := rest, pdialcount := int (Suc n)\<rparr>"
  have bo: "bits_only span ?c bits" using assms(1) by (simp add: bits_only_def)
  have "pdialcount ?c = (if d = CHR ''0'' then 10 else int (char_sub d CHR ''0''))"
    using n by (auto simp: digit_pulses_def split: if_splits)
  then have c1: "do_dtmf span G c = dahdi_rbs_sethook span TXSIG_ONHOOK TXSTATE_PULSEBREAK (pulsebreaktime c) ?c"
    using assms d by (simp add: do_dtmf_def Let_def)
  have b: "samples (pulsebreaktime c) = 8 * int b" using assms(2) by (simp add: pulse_times_def samples_id)
  have dp: "dialing_pulse span (do_dtmf span G c) bits b m a" and s: "sent (do_dtmf span G c) = sent c @ [bits ! 0]"
    and pd: "pdialcount (do_dtmf span G c) = int (Suc n)" and tx: "txdialbuf (do_dtmf span G c) = rest"
    using sethook_bits [OF bo, of 0 TXSTATE_PULSEBREAK "pulsebreaktime c"] bo assms(2) b unfolding c1
    by (simp_all add: dialing_pulse_def pulse_times_def sent_def bits_only_def)
  have "[x, y] @ concat (replicate n [x, y]) = [x] @ [y] @ concat (replicate n [x, y])" for x y :: int by simp
  then show ?thesis using pulse_rounds [OF dp pd, of G] unfolding n s tx by auto
qed

theorem pulse_dialing_sends_digit_witness:
  "\<exists>c'. ticks 300 span_ex tone_globals0
      (do_dtmf span_ex tone_globals0 (fxs_ex\<lparr>txhooksig := 1, digitmode := 2, txdialbuf := ''34''\<rparr>)) = Some c' \<and>
    txstate c' = TXSTATE_PULSEAFTER \<and> txdialbuf c' = ''4'' \<and> sent c' = sent fxs_ex @ [5, 15, 5, 15, 5, 15]"
proof -
  have b: "bits_only span_ex (fxs_ex\<lparr>txhooksig := 1, digitmode := 2, txdialbuf := ''34''\<rparr>) [5, 15, 15, 0]"
    by (simp add: bits_only_def span_ex_def fxs_ex_def outs_def bit_numeral_rec) (simp add: span0_def)
  have n: "digit_pulses CHR ''3'' = 3" by (simp add: digit_pulses_def char_sub_def)
  have "\<exists>c'. ticks (digit_pulses CHR ''3'' * (50 + 50)) span_ex tone_globals0
      (do_dtmf span_ex tone_globals0 (fxs_ex\<lparr>txhooksig := 1, digitmode := 2, txdialbuf := ''34''\<rparr>)) = Some c' \<and>
    txstate c' = TXSTATE_PULSEAFTER \<and> otimer c' = 8 * int 750 \<and> txdialbuf c' = ''4'' \<and>
    sent c' = sent (fxs_ex\<lparr>txhooksig := 1, digitmode := 2, txdialbuf := ''34''\<rparr>) @
      concat (replicate (digit_pulses CHR ''3'') [[5, 15, 15, 0] ! 0, [5, 15, 15, 0] ! 1])"
    by (rule pulse_dialing_sends_digit [OF b]) (simp_all add: pulse_times_def fxs_ex_def char_in_def)
  moreover have "replicate 3 x = [x, x, x]" for x :: "int list" by (simp add: numeral_eq_Suc)
  ultimately show ?thesis unfolding n by (auto simp: sent_def)
qed


section \<open>Receiving pulses\<close>

text \<open>The line: signalling bits, and for how many ms they stay.\<close>

definition line :: "dahdi_span \<Rightarrow> (int \<times> nat) list \<Rightarrow> dahdi_chan \<Rightarrow> dahdi_chan" where
  "line span segs c = fold (\<lambda>(b, n) c. (receive_timers ^^ n) (dahdi_rbsbits span b c)) segs c"

lemma line_append: "line span (xs @ ys) c = line span ys (line span xs c)"
  by (simp add: line_def)

text \<open>An FXO channel whose line is off hook with the bits \<open>q\<close>, in no transition.\<close>

definition fxo_idle :: "dahdi_chan \<Rightarrow> int \<Rightarrow> int \<Rightarrow> bool" where
  "fxo_idle c q f \<longleftrightarrow> sig c \<in> {SIG_FXOKS, SIG_FXOLS} \<and> \<not> flagged c FLAGBIT_SIGFREEZE \<and>
     txstate c \<notin> {TXSTATE_DEBOUNCE, TXSTATE_KEWL, TXSTATE_AFTERKEWL, TXSTATE_START} \<and>
     rxhooksig c = RXSIG_OFFHOOK \<and> rxsig c = q \<and> itimer c = 0 \<and> ringdebtimer c = 0 \<and> rxflashtime c = f \<and> f < 2 ^ 28"

lemma fxo_mask: "sig c \<in> {SIG_FXOKS, SIG_FXOLS} \<Longrightarrow> sig c AND SIG_MASK_FXS = 0"
  by auto

lemma receive_idle:
  "itimer c = 0 \<Longrightarrow> receive_itimer c = c"
  "8 < itimer c \<Longrightarrow> receive_itimer c = c\<lparr>itimer := itimer c - 8\<rparr>"
  "sig c \<in> {SIG_FXOKS, SIG_FXOLS} \<Longrightarrow> ringdebtimer c = 0 \<Longrightarrow> receive_ring c = c"
  "pulsetimer c = 0 \<Longrightarrow> receive_pulse c = c"
  "1 < pulsetimer c \<Longrightarrow> receive_pulse c = c\<lparr>pulsetimer := pulsetimer c - 1\<rparr>"
  by (simp_all add: receive_itimer_def receive_ring_def receive_pulse_def Let_def fxo_mask del: insert_iff)

lemma timers_run:
  assumes "sig c \<in> {SIG_FXOKS, SIG_FXOLS}" "ringdebtimer c = 0" "itimer c = 0 \<or> 8 * int n < itimer c"
    and "pulsetimer c = 0 \<or> int n < pulsetimer c"
  shows "(receive_timers ^^ n) c = c\<lparr>itimer := (if itimer c = 0 then 0 else itimer c - 8 * int n),
    pulsetimer := (if pulsetimer c = 0 then 0 else pulsetimer c - int n)\<rparr>"
  using assms(3,4)
proof (induction n)
  case (Suc n)
  let ?d = "c\<lparr>itimer := (if itimer c = 0 then 0 else itimer c - 8 * int n),
    pulsetimer := (if pulsetimer c = 0 then 0 else pulsetimer c - int n)\<rparr>"
  have d: "(receive_timers ^^ n) c = ?d" using Suc by auto
  let ?e = "?d\<lparr>itimer := (if itimer c = 0 then 0 else itimer c - 8 * int (Suc n))\<rparr>"
  have "receive_itimer ?d = ?e"
    using Suc.prems by (cases "itimer c = 0") (simp_all add: receive_idle)
  moreover have "receive_ring ?e = ?e"
    by (rule receive_idle) (use assms(1,2) in simp_all)
  moreover have "receive_pulse ?e = ?e\<lparr>pulsetimer := (if pulsetimer c = 0 then 0 else pulsetimer c - int (Suc n))\<rparr>"
    using Suc.prems by (cases "pulsetimer c = 0") (simp_all add: receive_idle)
  ultimately have "receive_timers ?d = ?e\<lparr>pulsetimer := (if pulsetimer c = 0 then 0 else pulsetimer c - int (Suc n))\<rparr>"
    by (simp only: receive_timers_def)
  moreover have "(receive_timers ^^ Suc n) c = receive_timers ?d" by (simp only: funpow.simps comp_apply d)
  ultimately show ?case by simp
qed simp

lemma break_begins:
  assumes "fxo_idle c q f" "\<not> bit p 3" "p \<noteq> q" "0 \<le> f"
  shows "dahdi_rbsbits span p c = c\<lparr>rxhooksig := RXSIG_ONHOOK, itimer := 8 * f, itimerset := 8 * f, rxsig := p\<rparr>"
proof -
  have "samples f = 8 * f" using assms by (simp add: fxo_idle_def samples_id)
  moreover have "sig c = SIG_FXOKS \<or> sig c = SIG_FXOLS" using assms by (simp add: fxo_idle_def)
  moreover note assms(1) [unfolded fxo_idle_def, THEN conjunct2]
  ultimately show ?thesis
    using assms(2-4)
    by (elim disjE) (simp_all add: dahdi_rbsbits_def hooksig_pvt_def hooksig_fxo_def set_itimer_def Let_def)
qed

text \<open>The end of a break of \<open>b\<close> ms.\<close>

definition count_pulse :: "int \<Rightarrow> dahdi_chan \<Rightarrow> dahdi_chan" where
  "count_pulse q c = (let c = c\<lparr>kewlonhook := False, pulsecount := pulsecount c + 1, pulsetimer := PULSETIMEOUT\<rparr>;
     c = (if pulsecount c = 1 then qevent EVENT_PULSE_START c else c)
     in c\<lparr>itimer := 0, itimerset := 0, rxhooksig := RXSIG_OFFHOOK, rxsig := q\<rparr>)"

lemma break_ends:
  assumes "fxo_idle c q f" "bit q 3" "p \<noteq> q" "15 \<le> b" "b \<le> 200" "int b < f"
  shows "dahdi_rbsbits span q (c\<lparr>rxhooksig := RXSIG_ONHOOK, itimer := 8 * f - 8 * int b, itimerset := 8 * f, rxsig := p,
      pulsetimer := x\<rparr>) = count_pulse q (c\<lparr>pulsetimer := x\<rparr>)"
proof -
  have w: "wrap_int (8 * int b) = 8 * int b" using assms by (simp add: wrap_int_id)
  have sg: "sig c = SIG_FXOKS \<or> sig c = SIG_FXOLS" using assms(1) by (auto simp: fxo_idle_def)
  let ?c = "c\<lparr>itimer := 8 * f - 8 * int b, itimerset := 8 * f, rxsig := p, pulsetimer := x, rxhooksig := RXSIG_OFFHOOK\<rparr>"
  have "hooksig_fxo_offhook span ?c = (let c = ?c\<lparr>kewlonhook := False, pulsecount := pulsecount c + 1,
      pulsetimer := PULSETIMEOUT, itimer := 8 * f\<rparr>;
      c = (if pulsecount c = 1 then qevent EVENT_PULSE_START c else c) in set_itimer 0 c)"
    using assms by (auto simp: hooksig_fxo_offhook_def Let_def fxo_idle_def w)
  moreover have "dahdi_rbsbits span q (c\<lparr>rxhooksig := RXSIG_ONHOOK, itimer := 8 * f - 8 * int b, itimerset := 8 * f, rxsig := p,
      pulsetimer := x\<rparr>) = (hooksig_fxo_offhook span ?c)\<lparr>rxsig := q\<rparr>"
    using sg assms(1) [unfolded fxo_idle_def, THEN conjunct2] assms(2-)
    by (elim disjE) (simp_all add: dahdi_rbsbits_def hooksig_pvt_def hooksig_fxo_def Let_def)
  ultimately show ?thesis
    by (simp add: count_pulse_def Let_def set_itimer_def qevent_def wake_def)
qed

lemma count_pulse_sel:
  "fxo_idle (count_pulse q c) q f = fxo_idle (c\<lparr>rxhooksig := RXSIG_OFFHOOK, rxsig := q, itimer := 0\<rparr>) q f"
  "pulsecount (count_pulse q c) = pulsecount c + 1" "pulsetimer (count_pulse q c) = PULSETIMEOUT"
  "evring (count_pulse q c) = (if pulsecount c = 0 then qevent_q EVENT_PULSE_START (evring c) else evring c)"
  by (auto simp: count_pulse_def Let_def fxo_idle_def qevent_evring)


lemma pulse_received:
  assumes idle: "fxo_idle c q f" and q: "\<not> bit p 3" "bit q 3" "p \<noteq> q" and b: "15 \<le> b" "b \<le> 200" "int b < f"
    and m: "0 < m" "b + m < 250" and pt: "pulsetimer c = 0 \<or> int b < pulsetimer c"
  shows "\<exists>c'. line span [(p, b), (q, m)] c = c' \<and> fxo_idle c' q f \<and> pulsecount c' = pulsecount c + 1 \<and>
    pulsetimer c' = PULSETIMEOUT - int m \<and>
    evring c' = (if pulsecount c = 0 then qevent_q EVENT_PULSE_START (evring c) else evring c)"
proof -
  define x where "x = (if pulsetimer c = 0 then 0 else pulsetimer c - int b)"
  have sg: "sig c \<in> {SIG_FXOKS, SIG_FXOLS}" "ringdebtimer c = 0" and f: "0 \<le> f" using idle b by (auto simp: fxo_idle_def)
  have 1: "(receive_timers ^^ b) (dahdi_rbsbits span p c) =
      c\<lparr>rxhooksig := RXSIG_ONHOOK, itimer := 8 * f - 8 * int b, itimerset := 8 * f, rxsig := p, pulsetimer := x\<rparr>"
    unfolding break_begins [OF idle q(1,3) f] using sg pt b by (subst timers_run) (auto simp: x_def)
  define d where "d = count_pulse q (c\<lparr>pulsetimer := x\<rparr>)"
  have 2: "dahdi_rbsbits span q (c\<lparr>rxhooksig := RXSIG_ONHOOK, itimer := 8 * f - 8 * int b, itimerset := 8 * f, rxsig := p,
      pulsetimer := x\<rparr>) = d"
    unfolding d_def by (rule break_ends [OF idle q(2,3) b])
  have d: "fxo_idle d q f" "pulsecount d = pulsecount c + 1" "pulsetimer d = PULSETIMEOUT"
    "evring d = (if pulsecount c = 0 then qevent_q EVENT_PULSE_START (evring c) else evring c)"
    using idle unfolding d_def by (simp_all add: count_pulse_sel) (simp add: fxo_idle_def)
  have 3: "(receive_timers ^^ m) d = d\<lparr>itimer := 0, pulsetimer := PULSETIMEOUT - int m\<rparr>"
    using d m by (subst timers_run) (auto simp: fxo_idle_def)
  show ?thesis
    using d by (intro exI [of _ "d\<lparr>itimer := 0, pulsetimer := PULSETIMEOUT - int m\<rparr>"])
      (simp add: line_def 1 2 3 fxo_idle_def)
qed

lemma pulses_received:
  assumes "fxo_idle c q f" "\<not> bit p 3" "bit q 3" "p \<noteq> q" "15 \<le> b" "b \<le> 200" "int b < f" "0 < m" "b + m < 250"
    and "pulsetimer c = 0" "pulsecount c = 0"
  shows "fxo_idle (line span (concat (replicate (Suc n) [(p, b), (q, m)])) c) q f \<and>
    pulsecount (line span (concat (replicate (Suc n) [(p, b), (q, m)])) c) = int (Suc n) \<and>
    pulsetimer (line span (concat (replicate (Suc n) [(p, b), (q, m)])) c) = PULSETIMEOUT - int m \<and>
    evring (line span (concat (replicate (Suc n) [(p, b), (q, m)])) c) = qevent_q EVENT_PULSE_START (evring c)"
proof (induction n)
  case 0
  then show ?case using pulse_received [OF assms(1-9), of span] assms(10,11) by simp
next
  case (Suc n)
  let ?c = "line span (concat (replicate (Suc n) [(p, b), (q, m)])) c"
  have r: "concat (replicate (Suc (Suc n)) [(p, b), (q, m)]) = concat (replicate (Suc n) [(p, b), (q, m)]) @ [(p, b), (q, m)]"
    using replicate_append_same [of "Suc n" "[(p, b), (q, m)]"] by (metis concat.simps concat_append append_Nil2 replicate_Suc)
  have "pulsetimer ?c = 0 \<or> int b < pulsetimer ?c" using Suc assms(9) by simp
  from pulse_received [OF _ assms(2-9) this, of span] Suc
  show ?case unfolding r line_append by simp
qed

text \<open>After the last pulse the timer runs out and the digit is reported.\<close>

lemma pulse_timeout:
  assumes "fxo_idle c q f" "pulsetimer c = int (Suc n)" "1 \<le> pulsecount c" "pulsecount c \<le> 10"
  shows "evring ((receive_timers ^^ Suc n) c) =
    qevent_q (EVENT_PULSEDIGIT OR (of_char CHR ''0'' + (if pulsecount c = 10 then 0 else pulsecount c))) (evring c)"
    "pulsecount ((receive_timers ^^ Suc n) c) = 0"
proof -
  have sg: "sig c \<in> {SIG_FXOKS, SIG_FXOLS}" "ringdebtimer c = 0" "itimer c = 0" using assms(1) by (auto simp: fxo_idle_def)
  have 1: "(receive_timers ^^ n) c = c\<lparr>itimer := 0, pulsetimer := 1\<rparr>"
    using sg assms(2) by (subst timers_run) auto
  have "receive_ring (receive_itimer (c\<lparr>itimer := 0, pulsetimer := 1\<rparr>)) = c\<lparr>itimer := 0, pulsetimer := 1\<rparr>"
    using sg by (simp add: receive_idle)
  then have 2: "(receive_timers ^^ Suc n) c = receive_pulse (c\<lparr>itimer := 0, pulsetimer := 1\<rparr>)"
    by (simp only: funpow.simps comp_apply 1 receive_timers_def)
  show "evring ((receive_timers ^^ Suc n) c) =
    qevent_q (EVENT_PULSEDIGIT OR (of_char CHR ''0'' + (if pulsecount c = 10 then 0 else pulsecount c))) (evring c)"
    "pulsecount ((receive_timers ^^ Suc n) c) = 0"
    using assms(3,4) unfolding 2 by (auto simp: receive_pulse_def Let_def qevent_evring)
qed

text \<open>C11. What pulse dialing sends is received: an idle FXO line that sees the breaks of a digit, each of 15 to 200 ms
  and each pulse shorter than 250 ms, reports the start of the pulses and, 250 ms after the last break, that digit
  and no other event.\<close>

theorem pulse_digit_received:
  assumes "fxo_idle c q f" "pulsetimer c = 0" "pulsecount c = 0" "char_in CHR ''0'' CHR ''9'' d"
    and "\<not> bit p 3" "bit q 3" "p \<noteq> q" "15 \<le> b" "b \<le> 200" "int b < f" "0 < m" "b + m < 250"
  shows "evring ((receive_timers ^^ (250 - m)) (line span (concat (replicate (digit_pulses d) [(p, b), (q, m)])) c)) =
    qevent_q (EVENT_PULSEDIGIT OR of_char d) (qevent_q EVENT_PULSE_START (evring c))"
proof -
  obtain n where n: "digit_pulses d = Suc n" using digit_pulses_pos [OF assms(4)] by blast
  let ?c = "line span (concat (replicate (Suc n) [(p, b), (q, m)])) c"
  note r = pulses_received [OF assms(1,5-12,2,3), of span n]
  have le: "Suc n \<le> 10"
    using assms(4) unfolding n [symmetric] by (auto simp: digit_pulses_def char_in_def char_sub_def)
  have v: "of_char CHR ''0'' + (if int (Suc n) = 10 then 0 else int (Suc n)) = (of_char d :: int)"
  proof -
    have d: "(of_char d :: int) = int (of_char d)" by (simp add: of_nat_of_char)
    show ?thesis unfolding n [symmetric] using assms(4)
      by (auto simp: d digit_pulses_def char_in_def char_sub_def)
  qed
  have pt: "pulsetimer ?c = int (Suc (249 - m))" using r assms(12) by (simp add: of_nat_diff)
  have "Suc (249 - m) = 250 - m" using assms(12) by simp
  then show ?thesis
    using pulse_timeout(1) [OF _ pt, of q f] r le v unfolding n by (auto simp del: replicate_Suc)
qed

text \<open>An idle FXO channel.\<close>

definition fxo_ex :: dahdi_chan where
  "fxo_ex = chan0\<lparr>chan_span := Some 1, sig := SIG_FXOKS, rxhooksig := RXSIG_OFFHOOK, rxsig := 15, rxflashtime := 1250,
     txstate := TXSTATE_OFFHOOK, itimer := 0, ringdebtimer := 0, pulsetimer := 0, pulsecount := 0, cflags := 0, evring := evq_init\<rparr>"

theorem pulse_digit_received_witness:
  "evring ((receive_timers ^^ 200) (line span_ex (concat (replicate (digit_pulses CHR ''7'') [(5, 50), (15, 50)])) fxo_ex)) =
     qevent_q (EVENT_PULSEDIGIT OR of_char CHR ''7'') (qevent_q EVENT_PULSE_START evq_init)"
proof -
  have i: "fxo_idle fxo_ex 15 1250" by (simp add: fxo_idle_def fxo_ex_def)
  have "evring ((receive_timers ^^ (250 - 50)) (line span_ex (concat (replicate (digit_pulses CHR ''7'') [(5, 50), (15, 50)])) fxo_ex)) =
     qevent_q (EVENT_PULSEDIGIT OR of_char CHR ''7'') (qevent_q EVENT_PULSE_START (evring fxo_ex))"
    by (rule pulse_digit_received [OF i]) (simp_all add: char_in_def bit_numeral_rec, simp_all add: fxo_ex_def)
  then show ?thesis by (simp add: fxo_ex_def)
qed

end
