(* ===== verification/Sig_Safety.thy ===== *)
theory Sig_Safety
  imports Rbs
begin

text \<open>
  The signalling state machine of \<open>Rbs\<close> never leaves its tables: whatever the span, the timers and the
  client do to an open channel, the transmit timer finds a cadence to follow.
\<close>

section \<open>The signalling never leaves its tables\<close>

definition sig_wf :: "dahdi_chan \<Rightarrow> bool" where
  "sig_wf c \<longleftrightarrow> length (ringcadence c) = MAX_CADENCE \<and> 0 \<le> cadencepos c \<and> cadencepos c < int MAX_CADENCE \<and>
     0 \<le> firstcadencepos c \<and> firstcadencepos c < int MAX_CADENCE \<and>
     (txstate c = TXSTATE_RINGON \<or> txstate c = TXSTATE_RINGOFF \<longrightarrow> curzone c \<noteq> None)"

text \<open>What can happen to the signalling of an open channel.\<close>

inductive sig_step :: "dahdi_span \<Rightarrow> tone_globals \<Rightarrow> dahdi_chan \<Rightarrow> dahdi_chan \<Rightarrow> bool" for span G where
  tick: "transmit_otimer span G c = Some c' \<Longrightarrow> sig_step span G c c'"
| bits: "sig_step span G c (dahdi_rbsbits span b c)"
| hooksig: "sig_step span G c (hooksig_pvt span r c)"
| timers: "sig_step span G c (receive_timers c)"
| hook: "sig_step span G c (snd (ioctl_hook nonblock span j c))"
| hangup: "sig_step span G c (snd (dahdi_hangup span drv c))"
| dial: "sig_step span G c (snd (ioctl_dahdi_dial up k tdo span G c))"
| cadence: "length cad = MAX_CADENCE \<Longrightarrow> sig_step span G c (ioctl_setcadence (Some cad) G c)"

text \<open>Operations that move the transmit state only to states that do not ring, and nothing else of \<open>sig_wf\<close>.\<close>

definition quiet :: "dahdi_chan \<Rightarrow> dahdi_chan \<Rightarrow> bool" where
  "quiet c c' \<longleftrightarrow> ringcadence c' = ringcadence c \<and> cadencepos c' \<in> {0, cadencepos c} \<and> firstcadencepos c' = firstcadencepos c \<and>
     curzone c' = curzone c \<and> (txstate c' = txstate c \<or> txstate c' \<notin> {TXSTATE_RINGON, TXSTATE_RINGOFF})"

lemma quiet_wf: "quiet c c' \<Longrightarrow> sig_wf c \<Longrightarrow> sig_wf c'"
  by (auto simp: quiet_def sig_wf_def)

lemma quiet_trans: "quiet a b \<Longrightarrow> quiet b c \<Longrightarrow> quiet a c"
  by (auto simp: quiet_def)

lemma quiet_refl [simp]: "quiet c c"
  by (simp add: quiet_def)

lemma quiet_sethook: "st \<notin> {TXSTATE_RINGON, TXSTATE_RINGOFF} \<Longrightarrow> quiet c (dahdi_rbs_sethook span s st t c)"
  using sethook_txstate [of span s st t c] by (auto simp: quiet_def)

lemma quiet_qevent [simp]: "quiet a (qevent e c) = quiet a c"
  by (simp add: quiet_def)

lemma quiet_wake [simp]: "quiet a (wake w c) = quiet a c"
  by (simp add: quiet_def)

lemma quiet_hook_complete [simp]: "quiet a (hook_complete c) = quiet a c"
  by (simp add: hook_complete_def)

lemma quiet_upd [simp]:
  "quiet a (txdialbuf_update f1 c) = quiet a c" "quiet a (dialing_update f2 c) = quiet a c" "quiet a (digitmode_update f3 c) = quiet a c"
  "quiet a (tonep_update f4 c) = quiet a c" "quiet a (pdialcount_update f5 c) = quiet a c" "quiet a (curtone_update f6 c) = quiet a c"
  "quiet a (ts_update f7 c) = quiet a c" "quiet a (itimer_update f8 c) = quiet a c" "quiet a (itimerset_update f9 c) = quiet a c"
  "quiet a (gotgs_update f10 c) = quiet a c" "quiet a (ringdebtimer_update f11 c) = quiet a c" "quiet a (ringtrailer_update f12 c) = quiet a c"
  "quiet a (rxhooksig_update f13 c) = quiet a c" "quiet a (rxsig_update f14 c) = quiet a c" "quiet a (kewlonhook_update f15 c) = quiet a c"
  "quiet a (pulsecount_update f16 c) = quiet a c" "quiet a (pulsetimer_update f17 c) = quiet a c" "quiet a (otimer_update f18 c) = quiet a c"
  "quiet a (eff_update f19 c) = quiet a c" "quiet a (evring_update f20 c) = quiet a c" "quiet a (txhooksig_update f21 c) = quiet a c"
  "quiet a (txsig_update f22 c) = quiet a c" "quiet a (writen_update f23 c) = quiet a c" "quiet a (writeidx_update f24 c) = quiet a c"
  "quiet a (readn_update f25 c) = quiet a c" "quiet a (readidx_update f26 c) = quiet a c" "quiet a (inreadbuf_update f27 c) = quiet a c"
  "quiet a (outreadbuf_update f28 c) = quiet a c" "quiet a (inwritebuf_update f29 c) = quiet a c" "quiet a (outwritebuf_update f30 c) = quiet a c"
  "quiet a (afterdialingtimer_update f31 c) = quiet a c"
  by (simp_all add: quiet_def)

lemma quiet_cadencepos [simp]: "quiet a c \<Longrightarrow> quiet a (c\<lparr>cadencepos := 0\<rparr>)"
  by (simp add: quiet_def)

lemma quiet_txstate: "quiet a c \<Longrightarrow> st \<notin> {TXSTATE_RINGON, TXSTATE_RINGOFF} \<Longrightarrow> quiet a (c\<lparr>txstate := st\<rparr>)"
  by (simp add: quiet_def)

lemma quiet_sethook': "quiet a c \<Longrightarrow> st \<notin> {TXSTATE_RINGON, TXSTATE_RINGOFF} \<Longrightarrow> quiet a (dahdi_rbs_sethook span s st t c)"
  by (rule quiet_trans [OF _ quiet_sethook])

lemma quiet_dtmf_loop: "quiet a c \<Longrightarrow> quiet a (do_dtmf_loop span G s c)"
proof (induction s arbitrary: c)
  case (Cons d s)
  have IH: "quiet a (do_dtmf_loop span G s c')" if "quiet a c'" for c' using Cons.IH [OF that] .
  have opt: "quiet a (case x of None \<Rightarrow> u | Some p \<Rightarrow> v p)" if "quiet a u" "\<And>p. quiet a (v p)"
    for x :: "'x option" and u v using that by (cases x) auto
  have ite: "quiet a (if b then u else v)" if "quiet a u" "quiet a v" for b u v using that by simp
  show ?case unfolding do_dtmf_loop.simps Let_def
    by (intro ite opt IH quiet_sethook') (simp_all add: Cons.prems)
qed simp

lemma quiet_dtmf: "quiet a c \<Longrightarrow> quiet a (do_dtmf span G c)"
  by (simp add: do_dtmf_def quiet_dtmf_loop)

lemma quiet_set_itimer [simp]: "quiet a (set_itimer t c) = quiet a c"
  by (simp add: set_itimer_def)

lemma quiet_fxo_offhook: "quiet a c \<Longrightarrow> quiet a (hooksig_fxo_offhook span c)"
proof -
  assume a: "quiet a c"
  define d where "d = (if txstate c = TXSTATE_START
      then dahdi_rbs_sethook span TXSIG_OFFHOOK TXSTATE_AFTERSTART AFTERSTART_TIME c else c)"
  have "quiet a d" using a by (simp add: d_def quiet_sethook')
  then show ?thesis
    unfolding hooksig_fxo_offhook_def d_def [symmetric] Let_def by simp
qed

lemma quiet_fxo: "quiet a c \<Longrightarrow> quiet a (hooksig_fxo span r c)"
  by (cases r) (simp_all add: hooksig_fxo_def Let_def quiet_fxo_offhook)

lemma quiet_em: "quiet a c \<Longrightarrow> quiet a (hooksig_em r c)"
  by (cases r) (simp_all add: hooksig_em_def)

lemma quiet_fxs: "quiet a c \<Longrightarrow> quiet a (hooksig_fxs r c)"
  by (simp add: hooksig_fxs_def Let_def)

lemma quiet_hooksig: "quiet a c \<Longrightarrow> quiet a (hooksig_pvt span r c)"
  unfolding hooksig_pvt_def Let_def by (simp add: quiet_fxo quiet_em quiet_fxs)

lemma quiet_rbsbits: "quiet a c \<Longrightarrow> quiet a (dahdi_rbsbits span b c)"
  unfolding dahdi_rbsbits_def Let_def by (simp add: quiet_hooksig)

lemma quiet_timers: "quiet a c \<Longrightarrow> quiet a (receive_timers c)"
proof -
  have "quiet a (receive_itimer d) = quiet a d" for d by (simp add: receive_itimer_def rbs_itimer_expire_def Let_def)
  moreover have "quiet a (receive_ring d) = quiet a d" for d by (simp add: receive_ring_def Let_def)
  moreover have "quiet a (receive_pulse d) = quiet a d" for d by (simp add: receive_pulse_def Let_def)
  ultimately show "quiet a c \<Longrightarrow> quiet a (receive_timers c)" unfolding receive_timers_def by simp
qed

lemma quiet_hangup: "quiet a c \<Longrightarrow> quiet a (snd (dahdi_hangup span drv c))"
proof -
  assume a: "quiet a c"
  have 1: "quiet a (snd (hangup_signal span drv d))" if "quiet a d" for d
    using that by (simp add: hangup_signal_def dahdi_cas_setbits_def emit_def quiet_sethook')
  have 2: "quiet a (hangup_buffers d)" if "quiet a d" for d
    using that by (simp add: hangup_buffers_def Let_def)
  show ?thesis using a 1 2
    by (auto simp: dahdi_hangup_def Let_def split: prod.split) (metis (no_types, lifting) 1 quiet_upd snd_conv)+
qed

lemma quiet_dial: "quiet a c \<Longrightarrow> quiet a (snd (ioctl_dahdi_dial up k tdo span G c))"
  by (simp add: ioctl_dahdi_dial_def Let_def quiet_dtmf split: option.split prod.split)

section \<open>Ringing\<close>

lemma sig_wf_qevent [simp]: "sig_wf (qevent e c) = sig_wf c"
  by (simp add: sig_wf_def)

lemma sig_wf_wake [simp]: "sig_wf (wake w c) = sig_wf c"
  by (simp add: sig_wf_def)

lemma sig_wf_sethook: "sig_wf c \<Longrightarrow> curzone c \<noteq> None \<Longrightarrow> sig_wf (dahdi_rbs_sethook span s st t c)"
  using sethook_txstate [of span s st t c] by (auto simp: sig_wf_def)

lemma sig_wf_pos: "sig_wf c \<Longrightarrow> 0 \<le> p \<Longrightarrow> p < int MAX_CADENCE \<Longrightarrow> sig_wf (c\<lparr>cadencepos := p\<rparr>)"
  by (simp add: sig_wf_def)

lemma sig_wf_otimer [simp]: "sig_wf (c\<lparr>otimer := t\<rparr>) = sig_wf c"
  by (simp add: sig_wf_def)

lemma expire_ringoff:
  assumes "sig_wf c" "txstate c = TXSTATE_RINGOFF"
  shows "\<exists>c'. rbs_otimer_expire span G c = Some c' \<and> sig_wf c'"
proof -
  have z: "curzone c \<noteq> None" and p: "0 \<le> cadencepos c" "0 \<le> firstcadencepos c" "firstcadencepos c < 16"
    using assms by (auto simp: sig_wf_def)
  have "sig_wf (qevent EVENT_RINGERON (dahdi_rbs_sethook span TXSIG_START TXSTATE_RINGON len (c\<lparr>otimer := 0, cadencepos := p\<rparr>)))"
    if "0 \<le> p" "p < 16" for p len
    using that z assms(1) by (simp add: sig_wf_sethook sig_wf_pos)
  then show ?thesis using p assms(2) by (simp add: rbs_otimer_expire_def Let_def)
qed

lemma expire_ringon:
  assumes "sig_wf c" "txstate c = TXSTATE_RINGON" "\<And>a. curzone c = Some a \<Longrightarrow> zone_at G a \<noteq> None"
  shows "\<exists>c'. rbs_otimer_expire span G c = Some c' \<and> sig_wf c'"
proof -
  obtain a z where z: "curzone c = Some a" "zone_at G a = Some z"
    using assms by (auto simp: sig_wf_def)
  have p: "0 \<le> cadencepos c" using assms(1) by (auto simp: sig_wf_def)
  have "sig_wf (qevent EVENT_RINGEROFF (dahdi_rbs_sethook span TXSIG_OFFHOOK TXSTATE_RINGOFF len (c\<lparr>otimer := 0, cadencepos := p\<rparr>)))"
    if "0 \<le> p" "p < 16" for p len
    using that z assms(1) by (simp add: sig_wf_sethook sig_wf_pos)
  then show ?thesis using p z assms(2) by (simp add: rbs_otimer_expire_def Let_def)
qed

lemma expire_quiet:
  assumes "txstate c \<notin> {TXSTATE_RINGON, TXSTATE_RINGOFF}"
  shows "\<exists>c'. rbs_otimer_expire span G c = Some c' \<and> quiet c c'"
  using assms
  by (cases "txstate c")
    (simp_all add: rbs_otimer_expire_def Let_def quiet_sethook' quiet_txstate quiet_dtmf)

lemma tick_safe:
  assumes "sig_wf c" "\<And>a. curzone c = Some a \<Longrightarrow> zone_at G a \<noteq> None"
  shows "\<exists>c'. transmit_otimer span G c = Some c' \<and> sig_wf c'"
proof -
  define d where "d = c\<lparr>otimer := otimer c - 8\<rparr>"
  have d: "sig_wf d" "curzone d = curzone c" using assms(1) by (simp_all add: d_def)
  have "\<exists>c'. rbs_otimer_expire span G d = Some c' \<and> sig_wf c'"
  proof (cases "txstate d = TXSTATE_RINGON \<or> txstate d = TXSTATE_RINGOFF")
    case True
    then show ?thesis using expire_ringoff [OF d(1)] expire_ringon [OF d(1)] assms(2) d(2) by metis
  next
    case False
    then show ?thesis using expire_quiet [of d span G] quiet_wf d(1) by blast
  qed
  then show ?thesis using assms(1) d(1) by (simp add: transmit_otimer_def Let_def d_def [symmetric])
qed

lemma sig_wf_find_restart:
  "length cad = 16 \<Longrightarrow> set is \<subseteq> {..<16} \<Longrightarrow> find_restart is cad = (cad', f) \<Longrightarrow>
   length cad' = 16 \<and> 0 \<le> f \<and> f < 16"
  by (induction "is" cad rule: find_restart.induct) (auto split: if_splits)

lemma sig_wf_setcadence:
  assumes "length cad = MAX_CADENCE" "sig_wf c"
  shows "sig_wf (ioctl_setcadence (Some cad) G c)"
proof -
  obtain cad' f where r: "find_restart [0, 2, 4, 6, 8, 10, 12, 14] cad = (cad', f)" by fastforce
  have "length cad' = 16 \<and> 0 \<le> f \<and> f < 16" by (rule sig_wf_find_restart [OF assms(1) _ r]) simp
  then show ?thesis using assms(2)
    by (simp del: find_restart.simps add: ioctl_setcadence_def Let_def r sig_wf_def)
qed

lemma sig_wf_hook:
  assumes "sig_wf c"
  shows "sig_wf (snd (ioctl_hook nonblock span j c))"
proof -
  define d where "d = c\<lparr>curtone := None, dialing := 0, txdialbuf := [], tonep := 0, pdialcount := 0\<rparr>"
  have q: "quiet c d" by (simp add: d_def)
  have w: "sig_wf c'" if "quiet c c'" for c' using that quiet_wf assms by blast
  have r: "sig_wf (dahdi_rbs_sethook span s st t (d\<lparr>cadencepos := 0\<rparr>))" if "curzone d \<noteq> None" for s st t
    by (rule sig_wf_sethook) (use that w [OF q] in \<open>simp_all add: sig_wf_pos\<close>)
  show ?thesis
    unfolding ioctl_hook_def Let_def d_def [symmetric]
    by (simp add: q r w quiet_hangup quiet_sethook' emit_def)
qed

lemma curzone_quiet: "quiet c c' \<Longrightarrow> curzone c' = curzone c"
  by (simp add: quiet_def)

lemma tick_curzone:
  assumes "transmit_otimer span G c = Some c'"
  shows "curzone c' = curzone c"
proof -
  define d where "d = c\<lparr>otimer := otimer c - 8\<rparr>"
  have d: "curzone d = curzone c" by (simp add: d_def)
  have "curzone e = curzone d" if e: "rbs_otimer_expire span G d = Some e" for e
  proof (cases "txstate d \<in> {TXSTATE_RINGON, TXSTATE_RINGOFF}")
    case True
    then show ?thesis using e
      by (auto simp: rbs_otimer_expire_def Let_def split: if_splits option.splits)
  next
    case False
    then show ?thesis using expire_quiet [OF False, of span G] e curzone_quiet by fastforce
  qed
  then show ?thesis using assms d by (simp add: transmit_otimer_def Let_def d_def [symmetric] split: if_splits)
qed

lemma hook_curzone: "curzone (snd (ioctl_hook nonblock span j c)) = curzone c"
proof -
  define d where "d = c\<lparr>curtone := None, dialing := 0, txdialbuf := [], tonep := 0, pdialcount := 0\<rparr>"
  have "curzone d = curzone c" by (simp add: d_def)
  then show ?thesis
    unfolding ioctl_hook_def Let_def d_def [symmetric]
    by (simp add: curzone_quiet [OF quiet_hangup [OF quiet_refl]] emit_def)
qed

lemma sig_step_safe:
  assumes "sig_step span G c c'" "sig_wf c" "\<And>a. curzone c = Some a \<Longrightarrow> zone_at G a \<noteq> None"
  shows "sig_wf c' \<and> curzone c' = curzone c"
  using assms(1)
proof cases
  case tick
  then show ?thesis using tick_safe [OF assms(2,3), of span] tick_curzone [OF tick] by auto
next
  case (hook nonblock j)
  then show ?thesis using sig_wf_hook [OF assms(2)] hook_curzone by simp
next
  case (cadence cad)
  then show ?thesis using sig_wf_setcadence [OF cadence(2) assms(2)]
    by (simp add: ioctl_setcadence_def Let_def split: prod.split)
qed (use assms(2) quiet_wf curzone_quiet quiet_rbsbits quiet_hooksig quiet_timers quiet_hangup quiet_dial quiet_refl in metis)+

text \<open>C4. The signalling is safe: from a channel whose cadence table is whole and whose tone zone is loaded, after any
  sequence of timer ticks, bits and hook states from the line, hook operations, hangups, dialing and cadence changes,
  the cadence positions lie within the table, a ringing channel has a tone zone, and the transmit timer can run
  on: it follows no NULL zone.\<close>

theorem signalling_safe:
  assumes "(sig_step span G)\<^sup>*\<^sup>* c0 c" "sig_wf c0" "\<And>a. curzone c0 = Some a \<Longrightarrow> zone_at G a \<noteq> None"
  shows "sig_wf c \<and> transmit_otimer span G c \<noteq> None"
proof -
  have "sig_wf c \<and> curzone c = curzone c0"
    using assms(1)
  proof (induction rule: rtranclp_induct)
    case (step c c')
    then show ?case using sig_step_safe [OF step.hyps(2)] assms(3) by auto
  qed (simp add: assms(2))
  then show ?thesis using tick_safe [of c G span] assms(3) by auto
qed

definition ring_ex :: dahdi_chan where
  "ring_ex = chan0\<lparr>chan_span := Some 1, sig := SIG_FXOKS, curzone := Some 0, txstate := TXSTATE_ONHOOK, cflags := 0,
     ringcadence := 2000 # 4000 # replicate 14 0, cadencepos := 0, firstcadencepos := 0\<rparr>"

lemma signalling_safe_witness:
  "let c = snd (ioctl_hook True span_ex 4 ring_ex) in sig_wf c \<and> transmit_otimer span_ex globals_ex c \<noteq> None"
  unfolding Let_def
proof (rule signalling_safe)
  show "(sig_step span_ex globals_ex)\<^sup>*\<^sup>* ring_ex (snd (ioctl_hook True span_ex 4 ring_ex))"
    by (rule r_into_rtranclp) (rule sig_step.hook)
  show "sig_wf ring_ex" by (simp add: sig_wf_def ring_ex_def)
  show "zone_at globals_ex a \<noteq> None" if "curzone ring_ex = Some a" for a
    using that zone_ex_at by (simp add: ring_ex_def)
qed

end
