(* ===== verification/Chan_Transmit.thy ===== *)
theory Chan_Transmit
  imports Rbs
begin

text \<open>
  \<open>__dahdi_getbuf_chunk\<close>: what a channel sends every millisecond. The sources are tried in the order of the code:
  the queue of written buffers (through the HDLC engine on an HDLC channel), the current tone, the loopback of
  what was received, HDLC flags, idle bytes. A chunk is the list of bytes stored at \<open>txb\<close>; \<open>bytes\<close> counts those
  still to store. A result \<open>None\<close> is a chunk that is not completed: a NULL tone or a negative length followed, or
  more than the fuel of turns. The theorems show that the fuel is enough, that the queue goes out in order and,
  with the reception of \<open>Chan_Buffers\<close>, that a link of two HDLC channels delivers the frames written.
\<close>

section \<open>A chunk\<close>

text \<open>The end of a buffer ("Check buffer status"). An MTP2 channel repeats the last frame.\<close>

definition getbuf_empty :: "int \<Rightarrow> dahdi_chan \<Rightarrow> dahdi_chan" where
  "getbuf_empty out ms =
     (if outwritebuf ms = inwritebuf ms then getbuf_policy (wake_iomux_write (ms\<lparr>outwritebuf := out\<rparr>)) else ms)"

definition getbuf_advance :: "dahdi_chan \<Rightarrow> dahdi_chan" where
  "getbuf_advance ms =
     (let old = outwritebuf ms; k = nat old;
          ms = ms\<lparr>writeidx := (writeidx ms)[k := 0], outwritebuf := (old + 1) mod numbufs ms\<rparr>;
          ms = (if \<not> flagged ms FLAGBIT_MTP2 then getbuf_empty (-1) (ms\<lparr>writen := (writen ms)[k := 0]\<rparr>)
                else getbuf_empty old ms)
      in if inwritebuf ms < 0 then ms\<lparr>inwritebuf := old\<rparr> else ms)"

definition getbuf_notify :: "dahdi_chan \<Rightarrow> dahdi_chan" where
  "getbuf_notify ms =
     (if \<not> (flagged ms FLAGBIT_NETDEV \<or> flagged ms FLAGBIT_PPP) then
        let ms = wake Sel (wake WritebufQ ms)
        in if bit (iomask ms) IOMUX_WRITE then wake EventbufQ ms else ms
      else ms)"

definition getbuf_done :: "dahdi_chan \<Rightarrow> dahdi_chan" where
  "getbuf_done ms =
     (let ms = getbuf_notify (getbuf_advance ms)
      in if flagged ms FLAGBIT_HDLC then ms\<lparr>txhdlc := fasthdlc_tx_frame_nocheck (txhdlc ms)\<rparr> else ms)"

text \<open>The loop over \<open>left\<close> bytes of an HDLC channel: a byte of the buffer is loaded only when one is needed.\<close>

fun getbuf_hdlc :: "nat \<Rightarrow> dahdi_chan \<Rightarrow> byte list \<times> dahdi_chan" where
  "getbuf_hdlc 0 ms = ([], ms)"
| "getbuf_hdlc (Suc n) ms =
     (let k = nat (outwritebuf ms);
          ms = (if fasthdlc_tx_need_data (txhdlc ms) then
                  ms\<lparr>txhdlc := fasthdlc_tx_load_nocheck (writebuf ms ! k ! nat (writeidx ms ! k)) (txhdlc ms),
                     writeidx := (writeidx ms)[k := writeidx ms ! k + 1]\<rparr>
                else ms);
          (b, h) = fasthdlc_tx_run_nocheck (txhdlc ms);
          (bs, ms) = getbuf_hdlc n (ms\<lparr>txhdlc := h\<rparr>)
      in (b # bs, ms))"

fun getbuf_flags :: "nat \<Rightarrow> dahdi_chan \<Rightarrow> byte list \<times> dahdi_chan" where
  "getbuf_flags 0 ms = ([], ms)"
| "getbuf_flags (Suc n) ms =
     (let h = (if fasthdlc_tx_need_data (txhdlc ms) then fasthdlc_tx_frame_nocheck (txhdlc ms) else txhdlc ms);
          (b, h) = fasthdlc_tx_run_nocheck h;
          (bs, ms) = getbuf_flags n (ms\<lparr>txhdlc := h\<rparr>)
      in (b # bs, ms))"

fun getbuf_samples :: "nat \<Rightarrow> dahdi_tone \<Rightarrow> dahdi_chan \<Rightarrow> byte list \<times> dahdi_chan" where
  "getbuf_samples 0 t ms = ([], ms)"
| "getbuf_samples (Suc n) t ms =
     (let (getlin, st) = dahdi_tone_nextsample (ts ms) t;
          (bs, ms') = getbuf_samples n t (ms\<lparr>ts := st\<rparr>)
      in (lin2x ms getlin # bs, ms'))"

text \<open>The current tone is over: the next of its chain, or the next digit.\<close>

definition getbuf_next_tone :: "dahdi_span \<Rightarrow> tone_globals \<Rightarrow> tone_ptr \<Rightarrow> dahdi_tone \<Rightarrow> dahdi_chan \<Rightarrow> dahdi_chan option" where
  "getbuf_next_tone span G prev t ms =
     (let ms = ms\<lparr>tonep := 0, curtone := next_tone t\<rparr> in
      case curtone ms of
        None \<Rightarrow> Some (if dialing ms \<noteq> 0 then do_dtmf span G ms else ms)
      | Some p \<Rightarrow>
          if prev \<noteq> p then (case deref G p of Some t' \<Rightarrow> Some (ms\<lparr>ts := dahdi_init_tone_state t'\<rparr>) | None \<Rightarrow> None)
          else Some ms)"

definition getbuf_tone :: "dahdi_span \<Rightarrow> tone_globals \<Rightarrow> int \<Rightarrow> tone_ptr \<Rightarrow> dahdi_chan \<Rightarrow> (byte list \<times> int \<times> dahdi_chan) option" where
  "getbuf_tone span G bytes p ms =
     (case deref G p of
        None \<Rightarrow> None
      | Some t \<Rightarrow>
          let left = tonesamples t - tonep ms;
              left = (if left > bytes then bytes else left);
              (out, ms) = getbuf_samples (nat left) t ms;
              ms = ms\<lparr>tonep := tonep ms + left\<rparr>
          in if tonep ms \<ge> tonesamples t
             then map_option (\<lambda>ms. (out, bytes - left, ms)) (getbuf_next_tone span G p t ms)
             else Some (out, bytes - left, ms))"

definition getbuf_write :: "int \<Rightarrow> dahdi_chan \<Rightarrow> (byte list \<times> int \<times> dahdi_chan) option" where
  "getbuf_write bytes ms =
     (let k = nat (outwritebuf ms);
          left = writen ms ! k - writeidx ms ! k;
          left = (if left > bytes then bytes else left)
      in if \<not> flagged ms FLAGBIT_HDLC \<and> left < 0 then None
         else
           let (out, ms) =
                 (if flagged ms FLAGBIT_HDLC then getbuf_hdlc (nat left) ms
                  else (take (nat left) (drop (nat (writeidx ms ! k)) (writebuf ms ! k)),
                        ms\<lparr>writeidx := (writeidx ms)[k := writeidx ms ! k + left]\<rparr>));
               ms = (if writeidx ms ! k \<ge> writen ms ! k then getbuf_done ms else ms)
           in Some (out, bytes - left, ms))"

text \<open>A turn of \<open>while (bytes)\<close>: the bytes stored, those left, the channel.\<close>

definition getbuf_turn :: "dahdi_span \<Rightarrow> tone_globals \<Rightarrow> int \<Rightarrow> dahdi_chan \<Rightarrow> (byte list \<times> int \<times> dahdi_chan) option" where
  "getbuf_turn span G bytes ms =
     (if outwritebuf ms > -1 \<and> \<not> txdisable ms then getbuf_write bytes ms
      else case (if flagged ms FLAGBIT_PSEUDO then None else curtone ms) of
        Some p \<Rightarrow> getbuf_tone span G bytes p ms
      | None \<Rightarrow>
          if flagged ms FLAGBIT_LOOPED then Some (take (nat bytes) (readchunk ms), 0, ms)
          else if flagged ms FLAGBIT_HDLC then
            (case getbuf_flags (nat bytes) ms of (out, ms) \<Rightarrow> Some (out, 0, ms))
          else if flagged ms FLAGBIT_CLEAR \<and> \<not> flagged ms FLAGBIT_AUDIO then Some (replicate (nat bytes) 0xff, 0, ms)
          else Some (replicate (nat bytes) (lin2x ms 0), 0, ms))"

fun getbuf_loop :: "nat \<Rightarrow> dahdi_span \<Rightarrow> tone_globals \<Rightarrow> int \<Rightarrow> dahdi_chan \<Rightarrow> (byte list \<times> dahdi_chan) option" where
  "getbuf_loop fuel span G bytes ms =
     (if bytes = 0 then Some ([], ms)
      else case fuel of
        0 \<Rightarrow> None
      | Suc fuel' \<Rightarrow>
          (case getbuf_turn span G bytes ms of
             None \<Rightarrow> None
           | Some (out, bytes, ms) \<Rightarrow>
               map_option (\<lambda>(out', ms). (out @ out', ms)) (getbuf_loop fuel' span G bytes ms)))"

text \<open>
  A turn stores a byte, retires an empty buffer, of which there are at most 32, or passes over an undefined tone to the next
  of at most 255 digits: 300 turns are enough for 8 bytes (\<open>transmission_total\<close>).
\<close>

definition getbuf_chunk :: "dahdi_span \<Rightarrow> tone_globals \<Rightarrow> dahdi_chan \<Rightarrow> (byte list \<times> dahdi_chan) option" where
  "getbuf_chunk span G ms = getbuf_loop 300 span G 8 ms"

declare getbuf_loop.simps [simp del]

section \<open>What a turn leaves alone\<close>

lemma getbuf_policy_sel [simp]:
  "cflags (getbuf_policy c) = cflags c" "curtone (getbuf_policy c) = curtone c" "tonep (getbuf_policy c) = tonep c"
  "curzone (getbuf_policy c) = curzone c" "txdialbuf (getbuf_policy c) = txdialbuf c" "txhdlc (getbuf_policy c) = txhdlc c"
  "inwritebuf (getbuf_policy c) = inwritebuf c"
  by (simp_all add: getbuf_policy_def)

lemma wake_iomux_sel [simp]:
  "cflags (wake_iomux_write c) = cflags c" "curtone (wake_iomux_write c) = curtone c" "tonep (wake_iomux_write c) = tonep c"
  "curzone (wake_iomux_write c) = curzone c" "txdialbuf (wake_iomux_write c) = txdialbuf c"
  "txhdlc (wake_iomux_write c) = txhdlc c" "inwritebuf (wake_iomux_write c) = inwritebuf c"
  by (simp_all add: wake_iomux_write_def wake_def)

lemma getbuf_empty_sel [simp]:
  "cflags (getbuf_empty r c) = cflags c" "curtone (getbuf_empty r c) = curtone c" "tonep (getbuf_empty r c) = tonep c"
  "curzone (getbuf_empty r c) = curzone c" "txdialbuf (getbuf_empty r c) = txdialbuf c" "txhdlc (getbuf_empty r c) = txhdlc c"
  by (simp_all add: getbuf_empty_def)

lemma getbuf_advance_sel [simp]:
  "cflags (getbuf_advance c) = cflags c" "curtone (getbuf_advance c) = curtone c" "tonep (getbuf_advance c) = tonep c"
  "curzone (getbuf_advance c) = curzone c" "txdialbuf (getbuf_advance c) = txdialbuf c" "txhdlc (getbuf_advance c) = txhdlc c"
  by (simp_all add: getbuf_advance_def Let_def)

lemma getbuf_notify_sel [simp]:
  "cflags (getbuf_notify c) = cflags c" "curtone (getbuf_notify c) = curtone c" "tonep (getbuf_notify c) = tonep c"
  "curzone (getbuf_notify c) = curzone c" "txdialbuf (getbuf_notify c) = txdialbuf c" "txhdlc (getbuf_notify c) = txhdlc c"
  "txdisable (getbuf_notify c) = txdisable c" "same_bufs a (getbuf_notify c) = same_bufs a c"
  by (simp_all add: getbuf_notify_def Let_def same_bufs_def wake_def)

lemma getbuf_done_sel [simp]:
  "cflags (getbuf_done c) = cflags c" "curtone (getbuf_done c) = curtone c" "tonep (getbuf_done c) = tonep c"
  "curzone (getbuf_done c) = curzone c" "txdialbuf (getbuf_done c) = txdialbuf c"
  by (simp_all add: getbuf_done_def Let_def)

lemma getbuf_done_txhdlc:
  "txhdlc (getbuf_done c) = (if flagged c FLAGBIT_HDLC then fasthdlc_tx_frame_nocheck (txhdlc c) else txhdlc c)"
  by (simp add: getbuf_done_def Let_def)

lemma getbuf_done_txdisable:
  assumes "\<not> flagged c FLAGBIT_MTP2" "(outwritebuf c + 1) mod numbufs c \<noteq> inwritebuf c"
  shows "txdisable (getbuf_done c) = txdisable c"
  using assms by (simp add: getbuf_done_def getbuf_advance_def getbuf_empty_def Let_def)

lemma same_bufs_txhdlc [simp]: "same_bufs a (c\<lparr>txhdlc := h\<rparr>) = same_bufs a c"
  by (simp add: same_bufs_def)

text \<open>As for the buffers, the end of a buffer takes the frame from the queue.\<close>

lemma getbuf_done_pop:
  assumes ok: "bufs_ok c" and out: "outwritebuf c \<noteq> -1" and mtp: "\<not> flagged c FLAGBIT_MTP2"
  shows "same_bufs (tx_pop c) (getbuf_done c)"
proof -
  define c1 where "c1 = c\<lparr>writeidx := (writeidx c)[tx_slot c := 0], outwritebuf := (outwritebuf c + 1) mod numbufs c,
      writen := (writen c)[tx_slot c := 0]\<rparr>"
  define c2 where "c2 = getbuf_empty (-1) c1"
  define c3 where "c3 = (if inwritebuf c2 < 0 then c2\<lparr>inwritebuf := outwritebuf c\<rparr> else c2)"
  have r: "ring_ok (numbufs c) (inwritebuf c) (outwritebuf c)" using ok by (simp add: bufs_ok_def)
  have "same_bufs (c1\<lparr>outwritebuf := -1\<rparr>) (getbuf_policy (wake_iomux_write (c1\<lparr>outwritebuf := -1\<rparr>)))" by simp
  then have f: "outwritebuf c1 = inwritebuf c1 \<Longrightarrow> same_bufs (c1\<lparr>outwritebuf := -1\<rparr>) c2"
    "outwritebuf c1 \<noteq> inwritebuf c1 \<Longrightarrow> c2 = c1" by (simp_all add: c2_def getbuf_empty_def)
  have "0 < numbufs c" using r by (simp add: ring_ok_def)
  then have "0 \<le> (outwritebuf c + 1) mod numbufs c" by (rule pos_mod_sign)
  then have p: "same_bufs (tx_pop c) c3"
    using f r unfolding c3_def same_bufs_def tx_pop_def ring_pull_def Let_def ring_ok_def
    by (cases "outwritebuf c1 = inwritebuf c1") (auto simp: c1_def)
  have "getbuf_advance c = c3"
    using mtp unfolding getbuf_advance_def Let_def tx_slot_def [symmetric]
    by (simp add: c3_def c2_def c1_def)
  with p show ?thesis by (simp add: getbuf_done_def Let_def)
qed

lemma bufs_ok_writeidx:
  assumes "bufs_ok c" "0 \<le> i" "i \<le> blocksize c"
  shows "bufs_ok (c\<lparr>writeidx := (writeidx c)[k := i]\<rparr>)"
  using assms by (auto simp: bufs_ok_def slots_ok_def nth_upd)

text \<open>The bytes of a buffer taken by the HDLC engine.\<close>

lemma getbuf_hdlc_moves:
  assumes "getbuf_hdlc n c = (out, c')" "k = nat (outwritebuf c)" "k < length (writeidx c)"
  shows "\<exists>h m. m \<le> n \<and> c' = c\<lparr>txhdlc := h, writeidx := (writeidx c)[k := writeidx c ! k + int m]\<rparr> \<and> length out = n"
  using assms
proof (induction n arbitrary: c out c')
  case 0
  then show ?case by (intro exI [of _ "txhdlc c"] exI [of _ 0]) simp
next
  case (Suc n)
  define c1 where "c1 = (if fasthdlc_tx_need_data (txhdlc c) then
      c\<lparr>txhdlc := fasthdlc_tx_load_nocheck (writebuf c ! k ! nat (writeidx c ! k)) (txhdlc c),
        writeidx := (writeidx c)[k := writeidx c ! k + 1]\<rparr> else c)"
  obtain b h where r: "fasthdlc_tx_run_nocheck (txhdlc c1) = (b, h)" by (cases "fasthdlc_tx_run_nocheck (txhdlc c1)")
  obtain bs c2 where g: "getbuf_hdlc n (c1\<lparr>txhdlc := h\<rparr>) = (bs, c2)" by (cases "getbuf_hdlc n (c1\<lparr>txhdlc := h\<rparr>)")
  have e: "out = b # bs" "c' = c2"
    using Suc.prems(1) unfolding getbuf_hdlc.simps Let_def Suc.prems(2) [symmetric] c1_def [symmetric]
    by (simp_all add: r g)
  obtain m1 where m1: "m1 \<le> 1" "writeidx c1 = (writeidx c)[k := writeidx c ! k + int m1]"
    "\<And>h. c1\<lparr>txhdlc := h\<rparr> = c\<lparr>txhdlc := h, writeidx := (writeidx c)[k := writeidx c ! k + int m1]\<rparr>"
  proof (cases "fasthdlc_tx_need_data (txhdlc c)")
    case True
    then show ?thesis by (intro that [of 1]) (simp_all add: c1_def)
  next
    case False
    then show ?thesis by (intro that [of 0]) (simp_all add: c1_def)
  qed
  have kk: "k = nat (outwritebuf (c1\<lparr>txhdlc := h\<rparr>))" "k < length (writeidx (c1\<lparr>txhdlc := h\<rparr>))"
    using Suc.prems m1(2) unfolding m1(3) by simp_all
  obtain h' m where "m \<le> n" "c2 = (c1\<lparr>txhdlc := h\<rparr>)\<lparr>txhdlc := h', writeidx := (writeidx (c1\<lparr>txhdlc := h\<rparr>))[k :=
      writeidx (c1\<lparr>txhdlc := h\<rparr>) ! k + int m]\<rparr>" "length bs = n"
    using Suc.IH [OF g kk] by blast
  then show ?case
    using m1 e Suc.prems(3) unfolding m1(3)
    by (intro exI [of _ h'] exI [of _ "m1 + m"]) (simp add: add.assoc)
qed

lemma getbuf_flags_moves: "getbuf_flags n c = (out, c') \<Longrightarrow> \<exists>h. c' = c\<lparr>txhdlc := h\<rparr> \<and> length out = n"
proof (induction n arbitrary: c out c')
  case 0
  then show ?case by (intro exI [of _ "txhdlc c"]) simp
next
  case (Suc n)
  obtain b h where r: "fasthdlc_tx_run_nocheck (if fasthdlc_tx_need_data (txhdlc c) then fasthdlc_tx_frame_nocheck (txhdlc c)
      else txhdlc c) = (b, h)" by fastforce
  obtain bs c2 where g: "getbuf_flags n (c\<lparr>txhdlc := h\<rparr>) = (bs, c2)" by (cases "getbuf_flags n (c\<lparr>txhdlc := h\<rparr>)")
  have e: "out = b # bs" "c' = c2" using Suc.prems r g by auto
  then show ?case using Suc.IH [OF g] by auto
qed

lemma getbuf_samples_moves: "getbuf_samples n t c = (out, c') \<Longrightarrow> \<exists>st. c' = c\<lparr>ts := st\<rparr> \<and> length out = n"
proof (induction n arbitrary: c out c')
  case 0
  then show ?case by (intro exI [of _ "ts c"]) simp
next
  case (Suc n)
  obtain x st where s: "dahdi_tone_nextsample (ts c) t = (x, st)" by (cases "dahdi_tone_nextsample (ts c) t")
  obtain bs c2 where g: "getbuf_samples n t (c\<lparr>ts := st\<rparr>) = (bs, c2)" by (cases "getbuf_samples n t (c\<lparr>ts := st\<rparr>)")
  have e: "out = lin2x c x # bs" "c' = c2" using Suc.prems s g by auto
  then show ?case using Suc.IH [OF g] by auto
qed

section \<open>A chunk is completed\<close>

text \<open>
  Tones a channel can play: those of the module are good, the zone of the channel is live, and the position is within the
  current tone, which exists. The current tone may be an undefined one, of no samples.
\<close>

definition playing :: "tone_globals \<Rightarrow> dahdi_chan \<Rightarrow> bool" where
  "playing G c \<longleftrightarrow> (\<forall>p. curtone c = Some p \<longrightarrow>
     (\<exists>t. deref G p = Some t \<and> 0 \<le> tonep c \<and> (tonep c = 0 \<or> tonep c < tonesamples t)))"

definition tones_ok :: "tone_globals \<Rightarrow> dahdi_chan \<Rightarrow> bool" where
  "tones_ok G c \<longleftrightarrow> tones_good G \<and> (\<forall>a. curzone c = Some a \<longrightarrow> (\<exists>z. zone_at G a = Some z)) \<and> playing G c"

definition tx_room :: "dahdi_chan \<Rightarrow> bool" where
  "tx_room c \<longleftrightarrow> (\<forall>x \<in> set (tx_slots c). writeidx c ! x \<le> writen c ! x)"

text \<open>The channel's side: whole buffers, a tone that exists, and a dialing buffer of at most 255 digits.\<close>

definition tx_chan :: "tone_globals \<Rightarrow> dahdi_chan \<Rightarrow> bool" where
  "tx_chan G c \<longleftrightarrow> bufs_ok c \<and> tx_room c \<and> \<not> flagged c FLAGBIT_MTP2 \<and> playing G c \<and> length (readchunk c) = 8 \<and>
     length (txdialbuf c) \<le> 255"

definition tx_ready :: "tone_globals \<Rightarrow> dahdi_chan \<Rightarrow> bool" where
  "tx_ready G c \<longleftrightarrow> bufs_ok c \<and> tx_room c \<and> \<not> flagged c FLAGBIT_MTP2 \<and> tones_ok G c \<and> length (readchunk c) = 8 \<and>
     length (txdialbuf c) \<le> 255"

text \<open>What is left to play: the current tone and the digits to dial.\<close>

definition to_play :: "dahdi_chan \<Rightarrow> nat" where
  "to_play c = length (txdialbuf c) + (if curtone c = None then 0 else 1)"

text \<open>What dialing a digit leaves alone.\<close>

definition dial_keeps :: "dahdi_chan \<Rightarrow> dahdi_chan \<Rightarrow> bool" where
  "dial_keeps c d \<longleftrightarrow> same_bufs c d \<and> cflags d = cflags c \<and> curzone d = curzone c \<and> readchunk d = readchunk c"

lemma dial_keeps_refl [simp]: "dial_keeps c c"
  by (simp add: dial_keeps_def)

lemma dial_keeps_trans: "dial_keeps a b \<Longrightarrow> dial_keeps b c \<Longrightarrow> dial_keeps a c"
  using same_bufs_trans by (auto simp: dial_keeps_def)

lemma dial_keeps_upd [simp]:
  "dial_keeps a (txdialbuf_update f1 c) = dial_keeps a c" "dial_keeps a (dialing_update f2 c) = dial_keeps a c"
  "dial_keeps a (digitmode_update f3 c) = dial_keeps a c" "dial_keeps a (tonep_update f4 c) = dial_keeps a c"
  "dial_keeps a (curtone_update f5 c) = dial_keeps a c" "dial_keeps a (ts_update f6 c) = dial_keeps a c"
  "dial_keeps a (pdialcount_update f7 c) = dial_keeps a c" "dial_keeps a (eff_update f8 c) = dial_keeps a c"
  "dial_keeps a (evring_update f9 c) = dial_keeps a c"
  by (simp_all add: dial_keeps_def same_bufs_def)

lemma dial_keeps_qevent [simp]: "dial_keeps a (qevent e c) = dial_keeps a c"
proof -
  obtain ws where "qevent e c = c\<lparr>evring := qevent_q e (evring c), eff := eff c @ ws\<rparr>" using qevent_cases by blast
  then show ?thesis by simp
qed

lemma dial_keeps_sethook: "dial_keeps c (dahdi_rbs_sethook span s st t c)"
proof -
  have u: "dial_keeps c (txstate_update f c')" "dial_keeps c (otimer_update g c')" "dial_keeps c (txhooksig_update g c')"
    "dial_keeps c (txsig_update g c')" "dial_keeps c (v1_1_update g c')" "dial_keeps c (v2_1_update g c')"
    "dial_keeps c (v3_1_update g c')" "dial_keeps c (txtone_update g c')" if "dial_keeps c c'" for c' f g
    using that by (simp_all add: dial_keeps_def same_bufs_def)
  show ?thesis
    unfolding dahdi_rbs_sethook_def Let_def set_txtone_def emit_def
    by (simp add: u split: option.split)
qed

lemma sethook_curtone [simp]: "curtone (dahdi_rbs_sethook span s st t c) = curtone c"
  "txdialbuf (dahdi_rbs_sethook span s st t c) = txdialbuf c"
  by (simp_all add: dahdi_rbs_sethook_def Let_def set_txtone_def emit_def split: option.splits)

lemma qevent_dialbuf [simp]: "txdialbuf (qevent e c) = txdialbuf c" "curtone (qevent e c) = curtone c"
  using qevent_cases [of e c] by auto

text \<open>After dialing, the current tone is NULL or exists, and is played from its start; a digit that plays has been taken.\<close>

definition dialed :: "tone_globals \<Rightarrow> dahdi_chan \<Rightarrow> nat \<Rightarrow> dahdi_chan \<Rightarrow> bool" where
  "dialed G c n e \<longleftrightarrow> dial_keeps c e \<and> (\<forall>p. curtone e = Some p \<longrightarrow> deref G p \<noteq> None \<and> tonep e = 0) \<and>
     to_play e \<le> n"

lemma dialed_mono: "dialed G c n e \<Longrightarrow> n \<le> m \<Longrightarrow> dialed G c m e"
  by (simp add: dialed_def)

lemma do_dtmf_loop_tone:
  assumes "\<And>d m c'. dial_keeps c c' \<Longrightarrow> (case dahdi_mf_tone c' d m of None \<Rightarrow> True | Some p \<Rightarrow> deref G p \<noteq> None)"
    and "dial_keeps c c1" "curtone c1 = None"
  shows "dialed G c (length s) (do_dtmf_loop span G s c1)"
  using assms(2,3)
proof (induction s arbitrary: c1)
  case Nil
  then show ?case by (simp add: dialed_def to_play_def)
next
  case (Cons d s)
  let ?P = "dialed G c (length (d # s))"
  have IH: "?P (do_dtmf_loop span G s c')" if "dial_keeps c c'" "curtone c' = None" for c'
    using dialed_mono [OF Cons.IH [OF that]] by simp
  have sh: "?P (dahdi_rbs_sethook span x st t c')" if "dial_keeps c c'" "curtone c' = None" "txdialbuf c' = s" for x st t c'
    using dial_keeps_trans [OF that(1) dial_keeps_sethook] that(2,3) by (simp add: dialed_def to_play_def)
  have ite: "?P (if b then u else v)" if "?P u" "?P v" for b u v using that by simp
  have tone: "?P (case curtone e of None \<Rightarrow> do_dtmf_loop span G s e
      | Some p \<Rightarrow> (case deref G p of None \<Rightarrow> e | Some t \<Rightarrow> e\<lparr>ts := dahdi_init_tone_state t\<rparr>))"
    if "dial_keeps c e" "tonep e = 0" "\<And>p. curtone e = Some p \<Longrightarrow> deref G p \<noteq> None" "txdialbuf e = s" for e
    using that IH [of e] by (cases "curtone e") (auto simp: dialed_def to_play_def split: option.split)
  have mf: "deref G p \<noteq> None" if "dial_keeps c c'" "dahdi_mf_tone c' d m = Some p" for c' m p
    using assms(1) [OF that(1), of d m] that(2) by simp
  show ?case unfolding do_dtmf_loop.simps Let_def
    by (intro ite IH sh tone) (use Cons.prems mf [of "c1\<lparr>txdialbuf := s\<rparr>"] in simp_all)
qed

lemma do_dtmf_tones_ok:
  assumes "tones_ok G c" "curtone c = None"
  shows "tones_ok G (do_dtmf span G c) \<and> dial_keeps c (do_dtmf span G c) \<and> to_play (do_dtmf span G c) \<le> length (txdialbuf c)"
proof -
  have mf: "deref G p \<noteq> None" if c': "dial_keeps c c'" "dahdi_mf_tone c' d m = Some p" for c' d m p
  proof (cases p)
    case (InZone a arr i)
    then have a: "curzone c' = Some a" "(arr = Dtmf \<and> i < 12 \<or> arr \<in> {Mfr1, Mfr2Fwd, Mfr2Rev} \<and> i < 15)"
      using mf_tone_zone [OF c'(2)] by auto
    have "curzone c = Some a" using a(1) c'(1) by (simp add: dial_keeps_def)
    then obtain z where z: "zone_at G a = Some z" "zone_wf a z"
      using assms(1) tones_good_zone unfolding tones_ok_def zone_good_def by blast
    then show ?thesis using a(2) InZone by (auto simp: zone_wf_def zone_lens_def)
  qed simp_all
  have l: "dialed G c (length (txdialbuf c)) (do_dtmf span G c)"
    using do_dtmf_loop_tone [of c G c "txdialbuf c" span] mf assms(2)
    by (auto simp: do_dtmf_def split: option.split)
  then have "tones_ok G (do_dtmf span G c)"
    using assms(1) by (auto simp: tones_ok_def dialed_def dial_keeps_def playing_def)
  with l show ?thesis by (simp add: dialed_def)
qed

lemma tones_ok_cong: "curtone d = curtone c \<Longrightarrow> tonep d = tonep c \<Longrightarrow> curzone d = curzone c \<Longrightarrow> tones_ok G d = tones_ok G c"
  by (simp add: tones_ok_def playing_def)

lemma tones_okD:
  assumes "tones_ok G c" "curtone c = Some p"
  shows "\<exists>t. deref G p = Some t \<and> 0 \<le> tonep c \<and> (tonep c = 0 \<or> tonep c < tonesamples t)"
  using assms by (simp add: tones_ok_def playing_def)

lemma getbuf_next_tone_ok:
  assumes "tones_ok G c" "deref G p = Some t" "curtone c = Some p"
  shows "\<exists>c'. getbuf_next_tone span G p t c = Some c' \<and> tones_ok G c' \<and> dial_keeps c c' \<and> to_play c' \<le> to_play c \<and>
    (next_tone t = None \<longrightarrow> to_play c' < to_play c) \<and> length (txdialbuf c') \<le> length (txdialbuf c)"
proof -
  define d where "d = c\<lparr>tonep := 0, curtone := next_tone t\<rparr>"
  have k: "dial_keeps c d" by (simp add: d_def)
  have n: "deref G q \<noteq> None" if "next_tone t = Some q" for q
    using assms tones_good_deref(2) [OF _ assms(2) that] unfolding tones_ok_def by blast
  have d: "tones_ok G d"
    using assms(1) n unfolding tones_ok_def playing_def by (auto simp: d_def)
  show ?thesis
  proof (cases "next_tone t")
    case None
    then have dn: "curtone d = None" "to_play c = Suc (length (txdialbuf d))" "to_play d = length (txdialbuf d)"
      using assms(3) by (simp_all add: d_def to_play_def)
    have e: "getbuf_next_tone span G p t c = Some (if dialing d \<noteq> 0 then do_dtmf span G d else d)"
      using dn(1) unfolding getbuf_next_tone_def Let_def d_def [symmetric] by simp
    have l: "length (txdialbuf e) \<le> to_play e" for e by (simp add: to_play_def)
    show ?thesis
    proof (cases "dialing d \<noteq> 0")
      case True
      note D = do_dtmf_tones_ok [OF d dn(1), of span]
      have "length (txdialbuf (do_dtmf span G d)) \<le> length (txdialbuf d)" using D l le_trans by blast
      moreover have "txdialbuf d = txdialbuf c" by (simp add: d_def)
      ultimately show ?thesis using True e D dn(2) dial_keeps_trans [OF k] by simp
    next
      case False
      then show ?thesis using e d k dn by (simp add: d_def)
    qed
  next
    case (Some q)
    then have q: "curtone d = Some q" by (simp add: d_def)
    obtain t' where t': "deref G q = Some t'" using n [OF Some] by auto
    have u: "tones_ok G (d\<lparr>ts := st\<rparr>)" "to_play (d\<lparr>ts := st\<rparr>) = to_play c" "to_play d = to_play c" for st
      using d assms(3) Some by (simp_all add: tones_ok_def playing_def to_play_def d_def)
    have "getbuf_next_tone span G p t c = Some (if p \<noteq> q then d\<lparr>ts := dahdi_init_tone_state t'\<rparr> else d)"
      using q t' unfolding getbuf_next_tone_def Let_def d_def [symmetric] by simp
    then show ?thesis using d k u Some by (simp add: d_def)
  qed
qed

lemma getbuf_tone_ok:
  assumes c: "tones_ok G c" "curtone c = Some p" and b: "0 < bytes"
  shows "\<exists>out bytes' c'. getbuf_tone span G bytes p c = Some (out, bytes', c') \<and> tones_ok G c' \<and> dial_keeps c c' \<and>
    0 \<le> bytes' \<and> bytes' \<le> bytes \<and> nat bytes' + to_play c' < nat bytes + to_play c \<and>
    length (txdialbuf c') \<le> length (txdialbuf c) \<and> int (length out) = bytes - bytes'"
proof -
  obtain t where t: "deref G p = Some t" "0 \<le> tonep c" "tonep c = 0 \<or> tonep c < tonesamples t"
    using tones_okD [OF c] by auto
  have len: "0 < tonesamples t \<or> tonesamples t = 0 \<and> next_tone t = None"
    using c(1) tones_good_deref(1) [OF _ t(1)] by (simp add: tones_ok_def tone_len_ok_def)
  define left where "left = (if tonesamples t - tonep c > bytes then bytes else tonesamples t - tonep c)"
  have left: "0 \<le> left" "left \<le> bytes" "tonep c + left \<le> tonesamples t" "left = 0 \<Longrightarrow> next_tone t = None"
    using t len b by (auto simp: left_def split: if_splits)
  obtain out c1 where s: "getbuf_samples (nat left) t c = (out, c1)" by (cases "getbuf_samples (nat left) t c")
  obtain st where st: "c1 = c\<lparr>ts := st\<rparr>" "length out = nat left" using getbuf_samples_moves [OF s] by auto
  define d where "d = c1\<lparr>tonep := tonep c1 + left\<rparr>"
  have d: "tonep d = tonep c + left" "curtone d = Some p" "curzone d = curzone c" "dial_keeps c d" "to_play d = to_play c"
    "txdialbuf d = txdialbuf c"
    using c by (simp_all add: d_def st to_play_def)
  have e: "getbuf_tone span G bytes p c =
      (if tonep d \<ge> tonesamples t then map_option (\<lambda>ms. (out, bytes - left, ms)) (getbuf_next_tone span G p t d)
       else Some (out, bytes - left, d))"
    unfolding getbuf_tone_def t(1) option.case Let_def left_def [symmetric] s prod.case d_def by (rule refl)
  show ?thesis
  proof (cases "tonep d \<ge> tonesamples t")
    case True
    define d0 where "d0 = d\<lparr>tonep := 0\<rparr>"
    have d0: "tones_ok G d0" using c t d unfolding tones_ok_def playing_def by (auto simp: d0_def)
    have "getbuf_next_tone span G p t d0 = getbuf_next_tone span G p t d"
      by (simp add: getbuf_next_tone_def d0_def)
    moreover have k: "dial_keeps c d0" "to_play d0 = to_play c" "txdialbuf d0 = txdialbuf c" "curtone d0 = Some p"
      using d by (simp_all add: d0_def to_play_def)
    ultimately obtain c' where "getbuf_next_tone span G p t d = Some c'" "tones_ok G c'" "dial_keeps c c'"
      "to_play c' \<le> to_play c" "next_tone t = None \<longrightarrow> to_play c' < to_play c" "length (txdialbuf c') \<le> length (txdialbuf c)"
      using getbuf_next_tone_ok [OF d0 t(1) k(4), of span] dial_keeps_trans [OF k(1)] by auto
    then show ?thesis using True e left st(2) by (cases "left = 0") simp_all
  next
    case False
    have "tones_ok G d" using c t d False left unfolding tones_ok_def playing_def by auto
    moreover have "left \<noteq> 0" using False d(1) b unfolding left_def by (simp split: if_splits)
    ultimately show ?thesis using False e left st(2) d(4,5,6) by simp
  qed
qed

lemma tx_slot_facts:
  assumes "bufs_ok c" "outwritebuf c > -1"
  shows "tx_slot c < nat (numbufs c)" "tx_slot c < 32" "tx_slot c \<in> set (tx_slots c)" "outwritebuf c \<noteq> -1"
    "tx_slot c < length (writeidx c)"
proof -
  have r: "ring_ok (numbufs c) (inwritebuf c) (outwritebuf c)" "numbufs c \<le> 32" "length (writeidx c) = 32"
    using assms by (simp_all add: bufs_ok_def)
  show "outwritebuf c \<noteq> -1" using assms by simp
  then show "tx_slot c \<in> set (tx_slots c)" using tx_pop_inv(4) [OF assms(1)] by simp
  then show "tx_slot c < nat (numbufs c)" using ring_slots_lt [OF r(1)] by (simp add: tx_slots_def)
  then show "tx_slot c < 32" "tx_slot c < length (writeidx c)" using r by auto
qed

text \<open>A buffer, or a part of it, goes out: \<open>m\<close> bytes of it are consumed.\<close>

definition tx_moved :: "fasthdlc_state \<Rightarrow> nat \<Rightarrow> dahdi_chan \<Rightarrow> dahdi_chan" where
  "tx_moved h m c = c\<lparr>txhdlc := h, writeidx := (writeidx c)[tx_slot c := writeidx c ! tx_slot c + int m]\<rparr>"

lemma tx_moved_sel [simp]:
  "cflags (tx_moved h m c) = cflags c" "outwritebuf (tx_moved h m c) = outwritebuf c" "tx_slot (tx_moved h m c) = tx_slot c"
  "writen (tx_moved h m c) = writen c" "writebuf (tx_moved h m c) = writebuf c" "tx_slots (tx_moved h m c) = tx_slots c"
  "tx_frames (tx_moved h m c) = tx_frames c" "curtone (tx_moved h m c) = curtone c" "tonep (tx_moved h m c) = tonep c"
  "curzone (tx_moved h m c) = curzone c" "txdialbuf (tx_moved h m c) = txdialbuf c" "readchunk (tx_moved h m c) = readchunk c" "txhdlc (tx_moved h m c) = h"
  "txdisable (tx_moved h m c) = txdisable c" "numbufs (tx_moved h m c) = numbufs c" "inwritebuf (tx_moved h m c) = inwritebuf c"
  by (simp_all add: tx_moved_def tx_slot_def tx_slots_def tx_frames_def)

lemma tx_moved_idx:
  "tx_slot c < length (writeidx c) \<Longrightarrow> writeidx (tx_moved h m c) ! tx_slot c = writeidx c ! tx_slot c + int m"
  by (simp add: tx_moved_def)

lemma tx_moved_ok:
  assumes "bufs_ok c" "tx_room c" "outwritebuf c > -1" "writeidx c ! tx_slot c + int m \<le> writen c ! tx_slot c"
  shows "bufs_ok (tx_moved h m c)" "tx_room (tx_moved h m c)"
proof -
  note k = tx_slot_facts [OF assms(1,3)]
  have b: "0 \<le> writeidx c ! tx_slot c" "writen c ! tx_slot c \<le> blocksize c"
    using bufs_ok_slot [OF assms(1) k(1)] by auto
  have "bufs_ok (c\<lparr>writeidx := (writeidx c)[tx_slot c := writeidx c ! tx_slot c + int m]\<rparr>)"
    by (rule bufs_ok_writeidx [OF assms(1)]) (use b assms(4) in auto)
  then show "bufs_ok (tx_moved h m c)" by (simp add: tx_moved_def bufs_ok_def slots_ok_def)
  show "tx_room (tx_moved h m c)"
    using assms(2,4) k by (auto simp: tx_room_def tx_moved_def nth_upd tx_slots_def)
qed

lemma getbuf_write_moved:
  assumes ok: "bufs_ok c" "tx_room c" and out: "outwritebuf c > -1" and b: "0 < bytes"
    and left: "left = (if writen c ! tx_slot c - writeidx c ! tx_slot c > bytes then bytes
        else writen c ! tx_slot c - writeidx c ! tx_slot c)"
  shows "0 \<le> left \<and> (\<exists>out h m. int m \<le> left \<and> length out = nat left \<and>
    getbuf_write bytes c = Some (out, bytes - left,
      if writeidx c ! tx_slot c + int m \<ge> writen c ! tx_slot c then getbuf_done (tx_moved h m c) else tx_moved h m c) \<and>
    (if flagged c FLAGBIT_HDLC then getbuf_hdlc (nat left) c = (out, tx_moved h m c)
     else int m = left \<and> h = txhdlc c \<and> out = take (nat left) (drop (nat (writeidx c ! tx_slot c)) (writebuf c ! tx_slot c))))"
proof -
  note k = tx_slot_facts [OF ok(1) out]
  have k': "nat (outwritebuf c) = tx_slot c" by (simp add: tx_slot_def)
  have w: "writeidx c ! tx_slot c \<le> writen c ! tx_slot c" using ok(2) k(3) by (simp add: tx_room_def)
  have l0: "0 \<le> left" "left \<le> writen c ! tx_slot c - writeidx c ! tx_slot c" using w b left by auto
  show ?thesis
  proof (cases "flagged c FLAGBIT_HDLC")
    case True
    obtain out c1 where g: "getbuf_hdlc (nat left) c = (out, c1)" by (cases "getbuf_hdlc (nat left) c")
    obtain h m where m: "m \<le> nat left" "c1 = tx_moved h m c" "length out = nat left"
      using getbuf_hdlc_moves [OF g refl] k(5) unfolding k' tx_moved_def by blast
    have "getbuf_write bytes c = Some (out, bytes - left,
        if writeidx c1 ! tx_slot c \<ge> writen c1 ! tx_slot c then getbuf_done c1 else c1)"
      using True unfolding getbuf_write_def Let_def k' left [symmetric] by (simp add: g)
    then show ?thesis
      using g m l0 tx_moved_idx [OF k(5), of h m] True
      by (intro conjI exI [of _ out] exI [of _ h] exI [of _ m]) auto
  next
    case False
    define out where "out = take (nat left) (drop (nat (writeidx c ! tx_slot c)) (writebuf c ! tx_slot c))"
    define c1 where "c1 = tx_moved (txhdlc c) (nat left) c"
    have c1: "c1 = c\<lparr>writeidx := (writeidx c)[tx_slot c := writeidx c ! tx_slot c + left]\<rparr>"
      using l0 by (simp add: c1_def tx_moved_def)
    have "length (writebuf c ! tx_slot c) = nat (blocksize c)" "writen c ! tx_slot c \<le> blocksize c" "0 \<le> writeidx c ! tx_slot c"
      using bufs_ok_slot [OF ok(1) k(1)] by auto
    then have lo: "length out = nat left" using l0 by (auto simp: out_def)
    have "getbuf_write bytes c = Some (out, bytes - left,
        if writeidx c1 ! tx_slot c \<ge> writen c1 ! tx_slot c then getbuf_done c1 else c1)"
      using False l0 unfolding getbuf_write_def Let_def k' left [symmetric] by (simp add: out_def c1)
    then show ?thesis
      using lo l0 tx_moved_idx [OF k(5), of "txhdlc c" "nat left"] False
      by (intro conjI exI [of _ out] exI [of _ "txhdlc c"] exI [of _ "nat left"]) (auto simp: c1_def out_def)
  qed
qed

lemma getbuf_policy_readchunk [simp]: "readchunk (getbuf_policy c) = readchunk c" "readchunk (wake_iomux_write c) = readchunk c"
  by (simp_all add: getbuf_policy_def wake_iomux_write_def wake_def)

lemma getbuf_done_readchunk [simp]: "readchunk (getbuf_done c) = readchunk c"
  by (simp add: getbuf_done_def getbuf_notify_def getbuf_advance_def getbuf_empty_def wake_def Let_def)

lemma tx_room_pop:
  assumes "bufs_ok c" "outwritebuf c \<noteq> -1" "tx_room c"
  shows "tx_room (tx_pop c)"
proof -
  have "tx_slot c \<notin> set (tx_slots (tx_pop c))"
    using ring_slots_distinct [of "numbufs c" "inwritebuf c" "outwritebuf c"] tx_pop_inv(4) [OF assms(1,2)] assms(1)
    by (simp add: tx_slots_def bufs_ok_def)
  then show ?thesis
    using assms(3) tx_pop_inv(4) [OF assms(1,2)] by (auto simp: tx_room_def tx_pop_def nth_upd)
qed

lemma tx_room_same: "same_bufs c c' \<Longrightarrow> tx_room c' = tx_room c"
  by (simp add: tx_room_def tx_slots_def same_bufs_def)

text \<open>The end of a buffer takes its frame.\<close>

lemma getbuf_done_ok:
  assumes "bufs_ok c" "tx_room c" "outwritebuf c > -1" "\<not> flagged c FLAGBIT_MTP2"
  shows "bufs_ok (getbuf_done c)" "tx_room (getbuf_done c)" "rx_frames (getbuf_done c) = rx_frames c"
    "tx_frames c = take (nat (writen c ! tx_slot c)) (writebuf c ! tx_slot c) # tx_frames (getbuf_done c)"
proof -
  note out = tx_slot_facts(4) [OF assms(1,3)]
  note p = tx_pop_inv [OF assms(1) out] and s = getbuf_done_pop [OF assms(1) out assms(4)]
  show "bufs_ok (getbuf_done c)" "rx_frames (getbuf_done c) = rx_frames c"
    "tx_frames c = take (nat (writen c ! tx_slot c)) (writebuf c ! tx_slot c) # tx_frames (getbuf_done c)"
    using p same_bufsD [OF s] by simp_all
  show "tx_room (getbuf_done c)" using tx_room_pop [OF assms(1) out assms(2)] tx_room_same [OF s] by simp
qed

lemma getbuf_turn_ok:
  assumes c: "tx_ready G c" and b: "0 < bytes" "bytes \<le> 8"
  shows "\<exists>out bytes' c'. getbuf_turn span G bytes c = Some (out, bytes', c') \<and> tx_ready G c' \<and>
    0 \<le> bytes' \<and> int (length out) = bytes - bytes' \<and>
    nat bytes' + length (tx_frames c') + to_play c' < nat bytes + length (tx_frames c) + to_play c \<and> curzone c' = curzone c"
proof (cases "outwritebuf c > -1 \<and> \<not> txdisable c")
  case True
  have ok: "bufs_ok c" "tx_room c" "\<not> flagged c FLAGBIT_MTP2" "tones_ok G c" "length (readchunk c) = 8" "length (txdialbuf c) \<le> 255"
    using c by (auto simp: tx_ready_def)
  obtain out h m left where w: "int m \<le> left" "length out = nat left" "0 \<le> left"
    "left = (if writen c ! tx_slot c - writeidx c ! tx_slot c > bytes then bytes
        else writen c ! tx_slot c - writeidx c ! tx_slot c)"
    "getbuf_write bytes c = Some (out, bytes - left,
      if writeidx c ! tx_slot c + int m \<ge> writen c ! tx_slot c then getbuf_done (tx_moved h m c) else tx_moved h m c)"
    using getbuf_write_moved [OF ok(1,2) _ b(1) refl] True by blast
  have t: "getbuf_turn span G bytes c = getbuf_write bytes c" using True by (simp add: getbuf_turn_def)
  have "writeidx c ! tx_slot c + int m \<le> writen c ! tx_slot c" using w(1,4) by (simp split: if_splits)
  note mv = tx_moved_ok [OF ok(1,2) _ this, of h]
  have out: "outwritebuf c > -1" using True by simp
  have bl: "left \<le> bytes" using w(4) by simp
  have tok: "tones_ok G (tx_moved h m c)" using ok(4) tones_ok_cong [of "tx_moved h m c" c G] by simp
  show ?thesis
  proof (cases "writeidx c ! tx_slot c + int m \<ge> writen c ! tx_slot c")
    case True
    note d = getbuf_done_ok [OF mv(1) [OF out] mv(2) [OF out]]
    have "tones_ok G (getbuf_done (tx_moved h m c))" using tok tones_ok_cong [of "getbuf_done (tx_moved h m c)" "tx_moved h m c" G] by simp
    then have "tx_ready G (getbuf_done (tx_moved h m c))" using d(1,2) ok out by (simp add: tx_ready_def)
    moreover have "length (tx_frames c) = Suc (length (tx_frames (getbuf_done (tx_moved h m c))))"
      using d(4) ok out by simp
    moreover have "to_play (getbuf_done (tx_moved h m c)) = to_play c" by (simp add: to_play_def)
    ultimately show ?thesis using w True t bl by simp
  next
    case False
    have "tx_ready G (tx_moved h m c)" using mv ok out tok by (simp add: tx_ready_def)
    moreover have "0 < left" using False w(1,4) b(1) by (simp split: if_splits)
    moreover have "to_play (tx_moved h m c) = to_play c" by (simp add: to_play_def)
    ultimately show ?thesis using w False t bl by simp
  qed
next
  case False
  define p where "p = (if flagged c FLAGBIT_PSEUDO then None else curtone c)"
  have cases: "getbuf_turn span G bytes c = (case p of
        Some p \<Rightarrow> getbuf_tone span G bytes p c
      | None \<Rightarrow>
          if flagged c FLAGBIT_LOOPED then Some (take (nat bytes) (readchunk c), 0, c)
          else if flagged c FLAGBIT_HDLC then
            (case getbuf_flags (nat bytes) c of (out, ms) \<Rightarrow> Some (out, 0, ms))
          else if flagged c FLAGBIT_CLEAR \<and> \<not> flagged c FLAGBIT_AUDIO then Some (replicate (nat bytes) 0xff, 0, c)
          else Some (replicate (nat bytes) (lin2x c 0), 0, c))"
    unfolding getbuf_turn_def p_def if_not_P [OF False] by (rule refl)
  show ?thesis
  proof (cases p)
    case None
    obtain out c' where f: "getbuf_flags (nat bytes) c = (out, c')" by (cases "getbuf_flags (nat bytes) c")
    obtain h where h: "c' = c\<lparr>txhdlc := h\<rparr>" "length out = nat bytes" using getbuf_flags_moves [OF f] by auto
    have "tx_ready G c'"
      using c unfolding h(1)
      by (simp add: tx_ready_def bufs_ok_def slots_ok_def tx_room_def tx_slots_def tones_ok_def playing_def)
    moreover have "tx_frames c' = tx_frames c" "to_play c' = to_play c" "curzone c' = curzone c"
      by (simp_all add: h(1) tx_frames_def tx_slots_def to_play_def)
    moreover have "length (readchunk c) = 8" using c by (simp add: tx_ready_def)
    ultimately show ?thesis using cases None c b f h(2) by simp
  next
    case (Some q)
    then have q: "curtone c = Some q" by (simp add: p_def split: if_splits)
    have "tones_ok G c" using c by (simp add: tx_ready_def)
    then obtain out bytes' c' where t: "getbuf_tone span G bytes q c = Some (out, bytes', c')" "tones_ok G c'" "dial_keeps c c'"
      "0 \<le> bytes'" "bytes' \<le> bytes" "nat bytes' + to_play c' < nat bytes + to_play c"
      "length (txdialbuf c') \<le> length (txdialbuf c)" "int (length out) = bytes - bytes'"
      using getbuf_tone_ok [OF _ q b(1)] by blast
    have k: "same_bufs c c'" "cflags c' = cflags c" "readchunk c' = readchunk c" "curzone c' = curzone c"
      using t(3) by (simp_all add: dial_keeps_def)
    have "tx_ready G c'"
      using c t(2,7) k same_bufsD [OF k(1)] tx_room_same [OF k(1)] by (simp add: tx_ready_def)
    moreover have "tx_frames c' = tx_frames c" using same_bufsD [OF k(1)] by simp
    ultimately show ?thesis using cases Some t k(4) by auto
  qed
qed

lemma getbuf_loop_ok:
  assumes "tx_ready G c" "0 \<le> bytes" "bytes \<le> 8" "nat bytes + length (tx_frames c) + to_play c \<le> fuel"
  shows "\<exists>out c'. getbuf_loop fuel span G bytes c = Some (out, c') \<and> tx_ready G c' \<and> int (length out) = bytes \<and>
    curzone c' = curzone c"
  using assms
proof (induction fuel arbitrary: bytes c)
  case 0
  then show ?case by (subst getbuf_loop.simps) simp
next
  case (Suc fuel)
  show ?case
  proof (cases "bytes = 0")
    case True
    then show ?thesis using Suc.prems by (subst getbuf_loop.simps) simp
  next
    case False
    then have "0 < bytes" using Suc.prems by simp
    then obtain out bytes' c' where t: "getbuf_turn span G bytes c = Some (out, bytes', c')" "tx_ready G c'" "0 \<le> bytes'"
      "int (length out) = bytes - bytes'"
      "nat bytes' + length (tx_frames c') + to_play c' < nat bytes + length (tx_frames c) + to_play c" "curzone c' = curzone c"
      using getbuf_turn_ok [OF Suc.prems(1) _ Suc.prems(3)] by blast
    have "bytes' \<le> 8" using t(4) Suc.prems(3) by linarith
    then obtain out' c2 where "getbuf_loop fuel span G bytes' c' = Some (out', c2)" "tx_ready G c2" "int (length out') = bytes'"
      "curzone c2 = curzone c'"
      using Suc.IH [OF t(2,3)] t(5) Suc.prems(4) by fastforce
    then show ?thesis using t False by (subst getbuf_loop.simps) simp
  qed
qed

lemma tx_frames_le: "bufs_ok c \<Longrightarrow> length (tx_frames c) \<le> 32"
  using num_filled_bufs_frames [of c] by (auto simp: num_filled_bufs_def bufs_ok_def ring_ok_def split: if_splits)

lemma to_play_le: "length (txdialbuf c) \<le> 255 \<Longrightarrow> to_play c \<le> 256"
  by (simp add: to_play_def)

lemma tx_chunk_ok:
  assumes "tx_ready G c"
  shows "\<exists>out c'. getbuf_chunk span G c = Some (out, c') \<and> length out = 8 \<and> tx_ready G c' \<and> curzone c' = curzone c"
proof -
  have "length (tx_frames c) \<le> 32" "to_play c \<le> 256" using assms tx_frames_le to_play_le by (simp_all add: tx_ready_def)
  then obtain out c' where "getbuf_loop 300 span G 8 c = Some (out, c')" "tx_ready G c'" "int (length out) = 8" "curzone c' = curzone c"
    using getbuf_loop_ok [OF assms, of 8 300 span] by auto
  then show ?thesis by (auto simp: getbuf_chunk_def)
qed

lemma tone_run_ready:
  assumes "tone_run (G, cs)" "c \<in> set cs"
  shows "tx_ready G c = tx_chan G c"
  using tone_run_good [OF assms(1)] tone_run_zone [OF assms] by (auto simp: tx_ready_def tx_chan_def tones_ok_def)


text \<open>
  A voice channel with an empty queue, in a zone that is loaded: it plays the zone's tone, of which three samples have
  gone out, and has a digit to dial that the zone does not define.
\<close>

definition voice_ex :: dahdi_chan where
  "voice_ex = chan_ex\<lparr>curtone := Some (InZone 0 SlabTones 0), tonep := 3, curzone := Some 0, cflags := 0,
     readchunk := replicate 8 0, dialing := 1, txdialbuf := ''5''\<rparr>"

lemma voice_ex_run: "tone_run (globals_ex, [voice_ex])"
  using tone_run.channel [OF tone_run_ex, of 0 voice_ex] by (simp add: voice_ex_def tchan_ex_def)

lemma voice_ex_chan: "tx_chan globals_ex voice_ex"
proof -
  have "bufs_ok voice_ex" using chan_ex_ok(1) by (simp add: voice_ex_def bufs_ok_def slots_ok_def)
  moreover have "tx_slots voice_ex = []"
    using chan_ex_ok(2) by (simp add: voice_ex_def tx_slots_def tx_frames_def)
  moreover have "deref globals_ex (InZone 0 SlabTones 0) = Some (slab (zone_ex 0) ! 0)" "tonesamples (slab (zone_ex 0) ! 0) = 8"
    by (simp_all add: zone_ex_at) (simp_all add: zone_ex_def)
  then have "playing globals_ex voice_ex" by (simp only: playing_def) (simp add: voice_ex_def)
  moreover have "cflags voice_ex = 0" "length (readchunk voice_ex) = 8" "length (txdialbuf voice_ex) = 1"
    by (simp_all add: voice_ex_def)
  ultimately show ?thesis by (simp add: tx_chan_def tx_room_def)
qed

lemma voice_ex_ready: "tx_ready globals_ex voice_ex"
  using tone_run_ready [OF voice_ex_run, of voice_ex] voice_ex_chan by simp


end
