(* ===== verification/Hdlc_Link.thy ===== *)
theory Hdlc_Link
  imports Chan_Transmit
begin

text \<open>
  A link of two HDLC channels: the chunks \<open>__dahdi_getbuf_chunk\<close> takes from one are given, in order, to
  \<open>__dahdi_putbuf_chunk\<close> of the other. The bits on the line are followed item by item (a byte of a frame, or a flag):
  what the transmitter has loaded and the receiver has not yet decoded is in flight. The frames written to one end
  are read at the other, in order, with the bounds on the time.
\<close>

section \<open>Items on the line\<close>

definition tx_at :: "fasthdlc_mode \<Rightarrow> nat \<Rightarrow> fasthdlc_state \<Rightarrow> bool list \<Rightarrow> bool" where
  "tx_at m k h w \<longleftrightarrow> tx_ok h w \<and> hmode h = m \<and> hones h = k"

text \<open>From \<open>k\<close> ones and pending bits \<open>w\<close>, loading the items \<open>its\<close> sends the bytes \<open>out\<close>.\<close>

definition sent_items :: "fasthdlc_mode \<Rightarrow> nat \<Rightarrow> bool list \<Rightarrow> hdlc_item list \<Rightarrow> byte list \<Rightarrow> nat \<Rightarrow> bool list \<Rightarrow> bool" where
  "sent_items m k w its out k' w' \<longleftrightarrow> w @ items_enc k its = stream_bits m out @ w' \<and> k' = foldl item_ones k its"

lemma stream_bits_append: "stream_bits m (xs @ ys) = stream_bits m xs @ stream_bits m ys"
  by (simp add: stream_bits_def)

lemma sent_items_Nil: "sent_items m k w [] [] k w"
  by (simp add: sent_items_def)

lemma sent_items_trans:
  assumes "sent_items m k w its out k' w'" "sent_items m k' w' its' out' k'' w''"
  shows "sent_items m k w (its @ its') (out @ out') k'' w''"
  using assms unfolding sent_items_def items_enc_append stream_bits_append foldl_append by (metis append.assoc)

lemma tx_put_at:
  assumes "tx_at m k h w" "length w \<le> 22"
  shows "tx_at m (item_ones k i) (tx_put i h) (w @ item_enc k i)" "sent_items m k w [i] [] (item_ones k i) (w @ item_enc k i)"
  using tx_put_ok [of h w i] assms by (simp_all add: tx_at_def sent_items_def)

lemma tx_run_at:
  assumes "tx_at m k h w" "chunk_len m \<le> length w" "fasthdlc_tx_run_nocheck h = (b, h')"
  shows "tx_at m k h' (drop (chunk_len m) w)" "sent_items m k w [] [b] k (drop (chunk_len m) w)"
proof -
  have m: "hmode h = m" using assms(1) by (simp add: tx_at_def)
  have r: "chunk_bits m b = take (chunk_len m) w" "tx_ok h' (drop (chunk_len m) w)" "hones h' = hones h" "hmode h' = m"
    using tx_run_ok [of h w] assms by (simp_all add: tx_at_def m)
  then show "tx_at m k h' (drop (chunk_len m) w)" using assms(1) by (simp add: tx_at_def)
  show "sent_items m k w [] [b] k (drop (chunk_len m) w)"
    using append_take_drop_id [of "chunk_len m" w] by (simp add: sent_items_def r(1))
qed

lemma tx_at_ones: "tx_at m k h w \<Longrightarrow> k < 5"
  by (auto simp: tx_at_def tx_ok_def)

text \<open>A byte of the chunk: an item is loaded if one is needed, then a byte is sent.\<close>

lemma tx_byte:
  assumes h: "tx_at m k h w" "length w \<le> 18"
    and r: "fasthdlc_tx_run_nocheck (if fasthdlc_tx_need_data h then tx_put i h else h) = (b, h')"
  shows "\<exists>w'. tx_at m (foldl item_ones k (if fasthdlc_tx_need_data h then [i] else [])) h' w' \<and> length w' \<le> 11 \<and>
    (fasthdlc_tx_need_data h \<longrightarrow> length w' \<le> 10) \<and>
    sent_items m k w (if fasthdlc_tx_need_data h then [i] else []) [b]
      (foldl item_ones k (if fasthdlc_tx_need_data h then [i] else [])) w'"
proof (cases "fasthdlc_tx_need_data h")
  case True
  have lw: "length w < chunk_len m" using tx_need_data_iff [of h w] h True by (simp add: tx_at_def)
  note b = chunk_len_bounds [of m]
  have p: "tx_at m (item_ones k i) (tx_put i h) (w @ item_enc k i)" "sent_items m k w [i] [] (item_ones k i) (w @ item_enc k i)"
    using tx_put_at [OF h(1)] lw b by auto
  have l: "8 \<le> length (item_enc k i)" "length (item_enc k i) \<le> 10"
    using item_enc_length [OF tx_at_ones [OF h(1)], of i] by auto
  have c: "chunk_len m \<le> length (w @ item_enc k i)" using l b by simp
  have r': "fasthdlc_tx_run_nocheck (tx_put i h) = (b, h')" using r True by simp
  note q = tx_run_at [OF p(1) c r']
  have "sent_items m k w [i] [b] (item_ones k i) (drop (chunk_len m) (w @ item_enc k i))"
    using sent_items_trans [OF p(2) q(2)] by simp
  moreover have "length (drop (chunk_len m) (w @ item_enc k i)) \<le> 10" using l lw b by simp
  ultimately show ?thesis using q(1) True by (intro exI [of _ "drop (chunk_len m) (w @ item_enc k i)"]) simp
next
  case False
  have c: "chunk_len m \<le> length w" using tx_need_data_iff [of h w] h False by (simp add: tx_at_def)
  have r': "fasthdlc_tx_run_nocheck h = (b, h')" using r False by simp
  have "length (drop (chunk_len m) w) \<le> 11" using h(2) chunk_len_bounds(1) [of m] by (simp only: length_drop; linarith)
  then show ?thesis
    using tx_run_at [OF h(1) c r'] False by (intro exI [of _ "drop (chunk_len m) w"]) simp
qed

text \<open>Idle flags.\<close>

lemma getbuf_flags_sent:
  assumes "getbuf_flags n c = (out, c')" "tx_at m k (txhdlc c) w" "length w \<le> 18"
  shows "\<exists>h r k' w'. c' = c\<lparr>txhdlc := h\<rparr> \<and> length out = n \<and> tx_at m k' h w' \<and> length w' \<le> 18 \<and>
    sent_items m k w (replicate r HFlag) out k' w'"
  using assms
proof (induction n arbitrary: c out c' k w)
  case 0
  then show ?case
    by (intro exI [of _ "txhdlc c"] exI [of _ 0] exI [of _ k] exI [of _ w]) (simp add: sent_items_Nil)
next
  case (Suc n)
  let ?need = "fasthdlc_tx_need_data (txhdlc c)"
  obtain b h where r: "fasthdlc_tx_run_nocheck (if ?need then tx_put HFlag (txhdlc c) else txhdlc c) = (b, h)" by fastforce
  obtain bs c2 where g: "getbuf_flags n (c\<lparr>txhdlc := h\<rparr>) = (bs, c2)" by (cases "getbuf_flags n (c\<lparr>txhdlc := h\<rparr>)")
  have e: "out = b # bs" "c' = c2" using Suc.prems(1) r g by (simp_all split: if_splits)
  obtain w1 where w1: "tx_at m (foldl item_ones k (if ?need then [HFlag] else [])) h w1" "length w1 \<le> 11"
    "sent_items m k w (if ?need then [HFlag] else []) [b] (foldl item_ones k (if ?need then [HFlag] else [])) w1"
    using tx_byte [OF Suc.prems(2,3) r] by blast
  have "tx_at m (foldl item_ones k (if ?need then [HFlag] else [])) (txhdlc (c\<lparr>txhdlc := h\<rparr>)) w1" using w1(1) by simp
  moreover have "length w1 \<le> 18" using w1(2) by simp
  ultimately obtain h2 r2 k2 w2 where i: "c2 = c\<lparr>txhdlc := h2\<rparr>" "length bs = n" "tx_at m k2 h2 w2" "length w2 \<le> 18"
    "sent_items m (foldl item_ones k (if ?need then [HFlag] else [])) w1 (replicate r2 HFlag) bs k2 w2"
    using Suc.IH [OF g, of "foldl item_ones k (if ?need then [HFlag] else [])" w1] by auto
  have "(if ?need then [HFlag] else []) @ replicate r2 HFlag = replicate (if ?need then Suc r2 else r2) HFlag" by simp
  then have "sent_items m k w (replicate (if ?need then Suc r2 else r2) HFlag) (b # bs) k2 w2"
    using sent_items_trans [OF w1(3) i(5)] by simp
  then show ?case using i e by (intro exI [of _ h2] exI [of _ "if ?need then Suc r2 else r2"] exI [of _ k2] exI [of _ w2]) simp
qed

text \<open>The bytes of a buffer: when all those left go out, the last byte of the chunk loaded the last of them.\<close>

lemma getbuf_hdlc_sent:
  assumes "getbuf_hdlc n c = (out, c')" "tx_at m k (txhdlc c) w" "length w \<le> 18"
    and "s = tx_slot c" "s < length (writeidx c)" "i = nat (writeidx c ! s)" "0 \<le> writeidx c ! s"
    and "i + n \<le> length (writebuf c ! s)"
  shows "\<exists>h l k' w'. c' = tx_moved h l c \<and> l \<le> n \<and> length out = n \<and> tx_at m k' h w' \<and> length w' \<le> 18 \<and>
    (0 < n \<longrightarrow> length w' \<le> 11) \<and> (0 < n \<and> l = n \<longrightarrow> length w' \<le> 10) \<and>
    sent_items m k w (map HByte (take l (drop i (writebuf c ! s)))) out k' w'"
  using assms
proof (induction n arbitrary: c out c' k w i)
  case 0
  then show ?case
    by (intro exI [of _ "txhdlc c"] exI [of _ 0] exI [of _ k] exI [of _ w]) (simp add: sent_items_Nil tx_moved_def)
next
  case (Suc n)
  let ?need = "fasthdlc_tx_need_data (txhdlc c)"
  define x where "x = writebuf c ! s ! i"
  define l1 :: nat where "l1 = (if ?need then 1 else 0)"
  have s: "nat (outwritebuf c) = s" using Suc.prems(4) by (simp add: tx_slot_def)
  obtain b h where r: "fasthdlc_tx_run_nocheck (if ?need then tx_put (HByte x) (txhdlc c) else txhdlc c) = (b, h)" by fastforce
  have m: "tx_moved h l1 c = (if ?need then
      c\<lparr>txhdlc := fasthdlc_tx_load_nocheck x (txhdlc c), writeidx := (writeidx c)[s := writeidx c ! s + 1]\<rparr>
      else c)\<lparr>txhdlc := h\<rparr>"
    using Suc.prems(4) by (simp add: tx_moved_def l1_def)
  obtain bs c2 where g: "getbuf_hdlc n (tx_moved h l1 c) = (bs, c2)" by (cases "getbuf_hdlc n (tx_moved h l1 c)")
  have e: "out = b # bs" "c' = c2"
    using Suc.prems(1) r g unfolding getbuf_hdlc.simps Let_def s m Suc.prems(6) [symmetric] x_def [symmetric]
    by (simp_all split: if_splits)
  define its1 where "its1 = (if ?need then [HByte x] else [])"
  define k1 where "k1 = foldl item_ones k its1"
  obtain w1 where w1: "tx_at m k1 h w1" "length w1 \<le> 11" "?need \<longrightarrow> length w1 \<le> 10" "sent_items m k w its1 [b] k1 w1"
    using tx_byte [OF Suc.prems(2,3) r] unfolding k1_def its1_def by blast
  have idx: "writeidx (tx_moved h l1 c) ! s = writeidx c ! s + int l1"
    using tx_moved_idx [of c h l1] Suc.prems(4,5) by simp
  have pos: "nat (writeidx (tx_moved h l1 c) ! s) = i + l1" using idx Suc.prems(6,7) by simp
  have l1: "l1 \<le> 1" "its1 = map HByte (take l1 (drop i (writebuf c ! s)))"
    using Suc.prems(8) by (auto simp: l1_def its1_def x_def take_Suc_conv_app_nth)
  have "\<exists>h2 l2 k2 w2. c2 = tx_moved h2 l2 (tx_moved h l1 c) \<and> l2 \<le> n \<and> length bs = n \<and> tx_at m k2 h2 w2 \<and> length w2 \<le> 18 \<and>
    (0 < n \<longrightarrow> length w2 \<le> 11) \<and> (0 < n \<and> l2 = n \<longrightarrow> length w2 \<le> 10) \<and>
    sent_items m k1 w1 (map HByte (take l2 (drop (i + l1) (writebuf (tx_moved h l1 c) ! s)))) bs k2 w2"
  proof (rule Suc.IH [OF g])
    show "tx_at m k1 (txhdlc (tx_moved h l1 c)) w1" using w1 by simp
    show "length w1 \<le> 18" using w1 by simp
    show "s = tx_slot (tx_moved h l1 c)" using Suc.prems(4) by simp
    show "s < length (writeidx (tx_moved h l1 c))" using Suc.prems(5) by (simp add: tx_moved_def)
    show "i + l1 = nat (writeidx (tx_moved h l1 c) ! s)" using pos by simp
    show "0 \<le> writeidx (tx_moved h l1 c) ! s" using idx Suc.prems(7) by simp
    show "i + l1 + n \<le> length (writebuf (tx_moved h l1 c) ! s)" using Suc.prems(8) l1(1) by simp
  qed
  then obtain h2 l2 k2 w2 where i: "c2 = tx_moved h2 l2 (tx_moved h l1 c)" "l2 \<le> n" "length bs = n" "tx_at m k2 h2 w2"
    "length w2 \<le> 18" "0 < n \<longrightarrow> length w2 \<le> 11" "0 < n \<and> l2 = n \<longrightarrow> length w2 \<le> 10"
    "sent_items m k1 w1 (map HByte (take l2 (drop (i + l1) (writebuf c ! s)))) bs k2 w2"
    by auto
  have mm: "tx_moved h2 l2 (tx_moved h l1 c) = tx_moved h2 (l1 + l2) c"
    using Suc.prems(4,5) by (simp add: tx_moved_def tx_slot_def add.assoc)
  have tt: "take l1 (drop i (writebuf c ! s)) @ take l2 (drop (i + l1) (writebuf c ! s)) = take (l1 + l2) (drop i (writebuf c ! s))"
    by (simp add: take_add add.commute)
  have f1: "sent_items m k w (map HByte (take (l1 + l2) (drop i (writebuf c ! s)))) (b # bs) k2 w2"
    using sent_items_trans [OF w1(4) i(8)] unfolding l1(2) map_append [symmetric] tt by simp
  have f2: "length w2 \<le> 11"
  proof (cases n)
    case 0
    then have "c2 = tx_moved h l1 c" "bs = []" using g by simp_all
    then have "w2 = w1" using i(2,8) 0 by (simp add: sent_items_def)
    then show ?thesis using w1(2) by simp
  qed (use i in simp)
  have f3: "length w2 \<le> 10" if "l1 + l2 = Suc n"
  proof (cases n)
    case 0
    then have "bs = []" using g by simp
    then have "w2 = w1" using i(2,8) 0 by (simp add: sent_items_def)
    moreover have "l1 = 1" using that 0 i(2) l1(1) by linarith
    then have ?need unfolding l1_def by (rule contrapos_pp) simp
    ultimately show ?thesis using w1(3) by simp
  next
    case (Suc n')
    then have "l2 = n" using that l1(1) i(2) by linarith
    then show ?thesis using i(7) Suc by simp
  qed
  have f4: "c' = tx_moved h2 (l1 + l2) c" using i(1) e(2) mm by (simp only:)
  have f5: "l1 + l2 \<le> Suc n" "length out = Suc n" using l1(1) i(2,3) e(1) by simp_all
  show ?case
    by (rule exI [of _ h2], rule exI [of _ "l1 + l2"], rule exI [of _ k2], rule exI [of _ w2])
      (use f1 f2 f3 f4 f5 i(4,5) e(1) in simp)
qed

section \<open>The queue goes out\<close>

definition frame_items :: "byte list \<Rightarrow> hdlc_item list" where
  "frame_items f = map HByte f @ [HFlag]"

text \<open>The items still to load for the queue: the rest of the frame that is going out, and the others.\<close>

definition tx_items :: "dahdi_chan \<Rightarrow> hdlc_item list" where
  "tx_items c = (case tx_frames c of [] \<Rightarrow> []
     | f # fs \<Rightarrow> frame_items (drop (nat (writeidx c ! tx_slot c)) f) @ concat (map frame_items fs))"

text \<open>An HDLC channel that sends its queue: no empty frames, and only the first one begun.\<close>

definition hdlc_tx :: "dahdi_chan \<Rightarrow> bool" where
  "hdlc_tx c \<longleftrightarrow> bufs_ok c \<and> flagged c FLAGBIT_HDLC \<and> \<not> flagged c FLAGBIT_MTP2 \<and> \<not> flagged c FLAGBIT_LOOPED \<and>
     curtone c = None \<and> (outwritebuf c > -1 \<longrightarrow> \<not> txdisable c) \<and>
     (\<forall>x \<in> set (tx_slots c). writeidx c ! x < writen c ! x) \<and> (\<forall>x \<in> set (tl (tx_slots c)). writeidx c ! x = 0)"

lemma hdlc_tx_room: "hdlc_tx c \<Longrightarrow> tx_room c"
  by (auto simp: hdlc_tx_def tx_room_def)

lemma tx_empty_iff: "bufs_ok c \<Longrightarrow> tx_frames c = [] \<longleftrightarrow> \<not> outwritebuf c > -1"
  using ring_slots_Nil_iff [of "numbufs c" "inwritebuf c" "outwritebuf c"]
  by (auto simp: bufs_ok_def tx_frames_def tx_slots_def ring_ok_def)

lemma tx_items_empty: "bufs_ok c \<Longrightarrow> \<not> outwritebuf c > -1 \<Longrightarrow> tx_items c = []"
  using tx_empty_iff [of c] by (simp add: tx_items_def)

text \<open>Some bytes of the first frame go out.\<close>

lemma tx_first:
  assumes "bufs_ok c" "outwritebuf c > -1"
  shows "tx_frames c = take (nat (writen c ! tx_slot c)) (writebuf c ! tx_slot c) # tl (tx_frames c)"
    "tx_slots c = tx_slot c # tl (tx_slots c)" "tx_slot c \<notin> set (tl (tx_slots c))"
proof -
  note out = tx_slot_facts(4) [OF assms]
  note p = tx_pop_inv(4,5) [OF assms(1) out]
  show "tx_frames c = take (nat (writen c ! tx_slot c)) (writebuf c ! tx_slot c) # tl (tx_frames c)" using p(2) by simp
  show s: "tx_slots c = tx_slot c # tl (tx_slots c)" using p(1) by simp
  have "distinct (tx_slots c)"
    using ring_slots_distinct [of "numbufs c" "inwritebuf c" "outwritebuf c"] assms(1) by (simp add: tx_slots_def bufs_ok_def)
  then show "tx_slot c \<notin> set (tl (tx_slots c))" using s by (metis distinct.simps(2))
qed

lemma tx_items_moved:
  assumes c: "bufs_ok c" "outwritebuf c > -1" and m: "writeidx c ! tx_slot c + int l \<le> writen c ! tx_slot c"
  shows "tx_items c = map HByte (take l (drop (nat (writeidx c ! tx_slot c)) (writebuf c ! tx_slot c))) @
     tx_items (tx_moved h l c)"
proof -
  let ?s = "tx_slot c" and ?i = "nat (writeidx c ! tx_slot c)" and ?n = "nat (writen c ! tx_slot c)"
  note k = tx_slot_facts [OF c]
  have b: "0 \<le> writeidx c ! ?s" using bufs_ok_slot [OF c(1) k(1)] by simp
  have idx: "nat (writeidx (tx_moved h l c) ! ?s) = ?i + l" using tx_moved_idx [OF k(5), of h l] b by simp
  have "?i + l \<le> ?n" using m b by simp
  then have "take l (drop ?i (take ?n (writebuf c ! ?s))) = take l (drop ?i (writebuf c ! ?s))"
    by (simp add: drop_take min_absorb1)
  then have "drop ?i (take ?n (writebuf c ! ?s)) =
      take l (drop ?i (writebuf c ! ?s)) @ drop (?i + l) (take ?n (writebuf c ! ?s))"
    using append_take_drop_id [of l "drop ?i (take ?n (writebuf c ! ?s))"] by (simp only: drop_drop add.commute)
  moreover obtain fs where fs: "tx_frames c = take ?n (writebuf c ! ?s) # fs" using tx_first(1) [OF c] by blast
  ultimately show ?thesis
    unfolding tx_items_def tx_moved_sel fs list.case idx frame_items_def by simp
qed

text \<open>The last byte of the first frame has gone: its flag is loaded, the next frame is begun.\<close>

lemma getbuf_done_items:
  assumes c: "bufs_ok c" "outwritebuf c > -1" "\<not> flagged c FLAGBIT_MTP2"
    and i: "writeidx c ! tx_slot c = writen c ! tx_slot c" and z: "\<forall>x \<in> set (tl (tx_slots c)). writeidx c ! x = 0"
  shows "tx_items c = HFlag # tx_items (getbuf_done c)"
    "\<forall>x \<in> set (tx_slots (getbuf_done c)). writeidx (getbuf_done c) ! x = 0 \<and> writen (getbuf_done c) ! x = writen c ! x"
    "tx_slots (getbuf_done c) = tl (tx_slots c)"
proof -
  let ?s = "tx_slot c" and ?d = "getbuf_done c"
  note k = tx_slot_facts [OF c(1,2)]
  note s = getbuf_done_pop [OF c(1) k(4) c(3)] and p = tx_pop_inv [OF c(1) k(4)]
  have sl: "tx_slots ?d = tl (tx_slots c)" using same_bufsD(5) [OF s] p(4) by simp
  then show "tx_slots ?d = tl (tx_slots c)" .
  have w: "writeidx ?d = (writeidx c)[?s := 0]" "writen ?d = (writen c)[?s := 0]"
    using s by (simp_all add: same_bufs_def tx_pop_def)
  show z': "\<forall>x \<in> set (tx_slots ?d). writeidx ?d ! x = 0 \<and> writen ?d ! x = writen c ! x"
    using z tx_first(3) [OF c(1,2)] unfolding sl w by (auto simp: nth_upd)
  have fr: "tx_frames c = take (nat (writen c ! ?s)) (writebuf c ! ?s) # tx_frames ?d"
    using p(5) same_bufsD(2) [OF s] by simp
  have ok: "bufs_ok ?d" using p(1) same_bufsD(1) [OF s] by simp
  have "tx_items ?d = concat (map frame_items (tx_frames ?d))"
  proof (cases "outwritebuf ?d > -1")
    case True
    then have "writeidx ?d ! tx_slot ?d = 0" using z' tx_slot_facts(3) [OF ok] by blast
    then show ?thesis by (simp add: tx_items_def split: list.split)
  next
    case False
    then show ?thesis using tx_empty_iff [OF ok] by (simp add: tx_items_def)
  qed
  moreover have "drop (nat (writeidx c ! ?s)) (take (nat (writen c ! ?s)) (writebuf c ! ?s)) = []" by (simp add: i)
  ultimately show "tx_items c = HFlag # tx_items ?d"
    unfolding tx_items_def [of c] fr list.case by (simp add: frame_items_def)
qed

lemma getbuf_done_hdlc_tx:
  assumes c: "bufs_ok c" "outwritebuf c > -1" "flagged c FLAGBIT_HDLC" "\<not> flagged c FLAGBIT_MTP2" "\<not> flagged c FLAGBIT_LOOPED"
      "curtone c = None" "\<not> txdisable c"
    and i: "writeidx c ! tx_slot c = writen c ! tx_slot c" and z: "\<forall>x \<in> set (tl (tx_slots c)). writeidx c ! x = 0"
    and n: "\<forall>x \<in> set (tl (tx_slots c)). 0 < writen c ! x"
  shows "hdlc_tx (getbuf_done c)"
proof -
  let ?d = "getbuf_done c"
  note k = tx_slot_facts [OF c(1,2)]
  note s = getbuf_done_pop [OF c(1) k(4) c(4)] and p = tx_pop_inv [OF c(1) k(4)]
  note it = getbuf_done_items [OF c(1,2,4) i z]
  have ok: "bufs_ok ?d" using p(1) same_bufsD(1) [OF s] by simp
  have "\<not> txdisable ?d" if o: "outwritebuf ?d > -1"
  proof -
    have "outwritebuf ?d = snd (ring_pull (numbufs c) (inwritebuf c) (outwritebuf c))"
      using s by (simp add: same_bufs_def tx_pop_def)
    then have "(outwritebuf c + 1) mod numbufs c \<noteq> inwritebuf c"
      using o by (auto simp: ring_pull_def Let_def split: if_splits)
    then show ?thesis using getbuf_done_txdisable [OF c(4)] c(7) by simp
  qed
  moreover have "\<forall>x \<in> set (tx_slots ?d). writeidx ?d ! x < writen ?d ! x" using it(2) n unfolding it(3) by simp
  moreover have "\<forall>x \<in> set (tl (tx_slots ?d)). writeidx ?d ! x = 0"
    using it(2) by (cases "tx_slots ?d") auto
  ultimately show ?thesis using ok c by (simp add: hdlc_tx_def)
qed

text \<open>
  From \<open>c\<close> to \<open>c'\<close> the bytes \<open>out\<close> are sent: a part of the queue, then, when it is empty, flags.
\<close>

definition queue_sent :: "fasthdlc_mode \<Rightarrow> dahdi_chan \<Rightarrow> nat \<Rightarrow> bool list \<Rightarrow> byte list \<Rightarrow> dahdi_chan \<Rightarrow> nat \<Rightarrow> bool list \<Rightarrow> bool" where
  "queue_sent m c k w out c' k' w' \<longleftrightarrow> (\<exists>its r. tx_items c = its @ tx_items c' \<and> (0 < r \<longrightarrow> tx_items c' = []) \<and>
     sent_items m k w (its @ replicate r HFlag) out k' w')"

lemma queue_sentI: "tx_items c = its @ tx_items c' \<Longrightarrow> sent_items m k w its out k' w' \<Longrightarrow> queue_sent m c k w out c' k' w'"
  unfolding queue_sent_def by (rule exI [of _ its], rule exI [of _ 0]) simp

lemma queue_sent_Nil: "queue_sent m c k w [] c k w"
  by (rule queue_sentI [where its = "[]"]) (simp_all add: sent_items_Nil)

lemma queue_sent_trans:
  assumes "queue_sent m c k w out c' k' w'" "queue_sent m c' k' w' out' c'' k'' w''"
  shows "queue_sent m c k w (out @ out') c'' k'' w''"
proof -
  obtain its r its' r' where a: "tx_items c = its @ tx_items c'" "0 < r \<longrightarrow> tx_items c' = []"
      "sent_items m k w (its @ replicate r HFlag) out k' w'"
    and b: "tx_items c' = its' @ tx_items c''" "0 < r' \<longrightarrow> tx_items c'' = []"
      "sent_items m k' w' (its' @ replicate r' HFlag) out' k'' w''"
    using assms unfolding queue_sent_def by blast
  have t: "sent_items m k w ((its @ replicate r HFlag) @ its' @ replicate r' HFlag) (out @ out') k'' w''"
    using sent_items_trans [OF a(3) b(3)] .
  show ?thesis
  proof (cases "r = 0")
    case True
    then show ?thesis using a(1) b t unfolding queue_sent_def
      by (intro exI [of _ "its @ its'"] exI [of _ r']) simp
  next
    case False
    then have "its' = []" "tx_items c'' = []" "tx_items c' = []" using a b by auto
    then show ?thesis using a(1) t unfolding queue_sent_def
      by (intro exI [of _ its] exI [of _ "r + r'"]) (simp add: replicate_add)
  qed
qed

lemma getbuf_turn_queue:
  assumes c: "hdlc_tx c" "tx_at m k (txhdlc c) w" "length w \<le> 18" and b: "0 < bytes" "bytes \<le> 8"
  shows "\<exists>out bytes' c' k' w'. getbuf_turn span G bytes c = Some (out, bytes', c') \<and> hdlc_tx c' \<and>
    tx_at m k' (txhdlc c') w' \<and> length w' \<le> 18 \<and> queue_sent m c k w out c' k' w' \<and>
    0 \<le> bytes' \<and> bytes' < bytes \<and> int (length out) = bytes - bytes'"
proof (cases "outwritebuf c > -1")
  case True
  let ?s = "tx_slot c"
  have ok: "bufs_ok c" "flagged c FLAGBIT_HDLC" "\<not> flagged c FLAGBIT_MTP2" "\<not> flagged c FLAGBIT_LOOPED" "curtone c = None"
    "\<not> txdisable c" "\<forall>x \<in> set (tx_slots c). writeidx c ! x < writen c ! x" "\<forall>x \<in> set (tl (tx_slots c)). writeidx c ! x = 0"
    using c(1) True by (auto simp: hdlc_tx_def)
  note sf = tx_slot_facts [OF ok(1) True] and room = hdlc_tx_room [OF c(1)]
  have sl: "length (writebuf c ! ?s) = nat (blocksize c)" "writen c ! ?s \<le> blocksize c" "0 \<le> writeidx c ! ?s"
    using bufs_ok_slot [OF ok(1) sf(1)] by auto
  have lt: "writeidx c ! ?s < writen c ! ?s" using ok(7) sf(3) by blast
  define left where "left = (if writen c ! ?s - writeidx c ! ?s > bytes then bytes else writen c ! ?s - writeidx c ! ?s)"
  have left: "0 < left" "left \<le> bytes" "left \<le> writen c ! ?s - writeidx c ! ?s" using lt b by (auto simp: left_def)
  obtain out h l where o: "getbuf_write bytes c = Some (out, bytes - left,
      if writeidx c ! ?s + int l \<ge> writen c ! ?s then getbuf_done (tx_moved h l c) else tx_moved h l c)"
    "getbuf_hdlc (nat left) c = (out, tx_moved h l c)" "length out = nat left" "int l \<le> left"
    using getbuf_write_moved [OF ok(1) room True b(1) left_def] ok(2) by auto
  have bd: "nat (writeidx c ! ?s) + nat left \<le> length (writebuf c ! ?s)" using sl left by simp
  obtain h' l' k' w' where s: "tx_moved h l c = tx_moved h' l' c" "l' \<le> nat left" "tx_at m k' h' w'" "length w' \<le> 18"
      "0 < nat left \<and> l' = nat left \<longrightarrow> length w' \<le> 10"
      "sent_items m k w (map HByte (take l' (drop (nat (writeidx c ! ?s)) (writebuf c ! ?s)))) out k' w'"
    using getbuf_hdlc_sent [OF o(2) c(2,3) refl sf(5) refl sl(3) bd] by blast
  have hh: "h' = h" using arg_cong [OF s(1), of txhdlc] by simp
  have ll: "l' = l" using arg_cong [OF s(1), of "\<lambda>c. writeidx c ! ?s"] sf(5) by (simp add: tx_moved_idx)
  define d where "d = tx_moved h l c"
  have le: "writeidx c ! ?s + int l \<le> writen c ! ?s" using o(4) left by simp
  have d: "bufs_ok d" "tx_slots d = tx_slots c" "tx_slot d = ?s" "writen d = writen c" "txhdlc d = h" "outwritebuf d > -1"
    "writeidx d ! ?s = writeidx c ! ?s + int l"
    using tx_moved_ok [OF ok(1) room True le] True tx_moved_idx [OF sf(5)] by (simp_all add: d_def)
  have fl: "cflags d = cflags c" "curtone d = None" "txdisable d = txdisable c" using ok(5) by (simp_all add: d_def)
  have rest: "writeidx d ! x = writeidx c ! x" if "x \<in> set (tl (tx_slots c))" for x
    using that tx_first(3) [OF ok(1) True] by (auto simp: d_def tx_moved_def nth_upd)
  have it: "tx_items c = map HByte (take l (drop (nat (writeidx c ! ?s)) (writebuf c ! ?s))) @ tx_items d"
    using tx_items_moved [OF ok(1) True le] by (simp add: d_def)
  have q: "queue_sent m c k w out d k' w'" by (rule queue_sentI [OF it]) (use s(6) ll in simp)
  have t: "getbuf_turn span G bytes c = getbuf_write bytes c" using True ok(6) by (simp add: getbuf_turn_def)
  show ?thesis
  proof (cases "writeidx c ! ?s + int l \<ge> writen c ! ?s")
    case fin: True
    have i: "writeidx d ! tx_slot d = writen d ! tx_slot d" using fin le d by simp
    have z: "\<forall>x \<in> set (tl (tx_slots d)). writeidx d ! x = 0" using ok(8) rest d(2) by simp
    have n: "\<forall>x \<in> set (tl (tx_slots d)). 0 < writen d ! x"
      using ok(7,8) d(2,4) by (metis list.set_sel(2) tl_Nil)
    have fd: "flagged d FLAGBIT_HDLC" "\<not> flagged d FLAGBIT_MTP2" "\<not> flagged d FLAGBIT_LOOPED" "\<not> txdisable d"
      using ok fl by simp_all
    have tx: "hdlc_tx (getbuf_done d)"
      by (rule getbuf_done_hdlc_tx [OF d(1,6) fd(1-3) fl(2) fd(4) i z n])
    have "l = nat left" using fin left lt o(4) by linarith
    then have "length w' \<le> 10" using s(5) ll left by simp
    then have p: "tx_at m 0 (fasthdlc_tx_frame_nocheck h) (w' @ flag_bits)" "sent_items m k' w' [HFlag] [] 0 (w' @ flag_bits)"
      "length (w' @ flag_bits) \<le> 18"
      using tx_put_at [of m k' h w' HFlag] s(3) hh by simp_all
    have "queue_sent m d k' w' [] (getbuf_done d) 0 (w' @ flag_bits)"
      by (rule queue_sentI [where its = "[HFlag]"]) (use getbuf_done_items(1) [OF d(1,6) fd(2) i z] p(2) in simp_all)
    then have "queue_sent m c k w out (getbuf_done d) 0 (w' @ flag_bits)" using queue_sent_trans [OF q] by fastforce
    moreover have "txhdlc (getbuf_done d) = fasthdlc_tx_frame_nocheck h" using getbuf_done_txhdlc [of d] fd(1) d(5) by simp
    ultimately show ?thesis
      using t o(1,3) fin tx p(1,3) left unfolding d_def [symmetric]
      by (intro exI [of _ out] exI [of _ "bytes - left"] exI [of _ "getbuf_done d"] exI [of _ "0 :: nat"]
          exI [of _ "w' @ flag_bits"]) simp
  next
    case False
    have "hdlc_tx d"
      using ok fl d rest False tx_first(2) [OF ok(1) True] unfolding hdlc_tx_def
      by (metis (no_types, lifting) not_le set_ConsD)
    then show ?thesis
      using t o(1,3) False q s(3,4) hh left d(5) by (simp add: d_def [symmetric]) blast
  qed
next
  case False
  have ok: "bufs_ok c" "flagged c FLAGBIT_HDLC" "\<not> flagged c FLAGBIT_LOOPED" "curtone c = None"
    using c(1) by (auto simp: hdlc_tx_def)
  obtain out c' where f: "getbuf_flags (nat bytes) c = (out, c')" by (cases "getbuf_flags (nat bytes) c")
  obtain h r k' w' where s: "c' = c\<lparr>txhdlc := h\<rparr>" "length out = nat bytes" "tx_at m k' h w'" "length w' \<le> 18"
    "sent_items m k w (replicate r HFlag) out k' w'"
    using getbuf_flags_sent [OF f c(2,3)] by blast
  have "hdlc_tx c'" using c(1) unfolding s(1) by (simp add: hdlc_tx_def bufs_ok_def slots_ok_def tx_slots_def)
  moreover have "tx_items c = []" using tx_items_empty [OF ok(1) False] .
  moreover have "tx_items c' = []"
    by (rule tx_items_empty) (use \<open>hdlc_tx c'\<close> False s(1) in \<open>simp_all add: hdlc_tx_def\<close>)
  ultimately have "hdlc_tx c'" "queue_sent m c k w out c' k' w'"
    unfolding queue_sent_def using s(5) by (simp, intro exI [of _ "[]"] exI [of _ r], simp)
  moreover have "getbuf_turn span G bytes c = Some (out, 0, c')"
    using False ok f by (simp add: getbuf_turn_def)
  moreover have "tx_at m k' (txhdlc c') w'" using s by simp
  ultimately show ?thesis using s(2,4) b by fastforce
qed

lemma getbuf_loop_queue:
  assumes "hdlc_tx c" "tx_at m k (txhdlc c) w" "length w \<le> 18" "0 \<le> bytes" "bytes \<le> 8" "nat bytes \<le> fuel"
  shows "\<exists>out c' k' w'. getbuf_loop fuel span G bytes c = Some (out, c') \<and> hdlc_tx c' \<and>
    tx_at m k' (txhdlc c') w' \<and> length w' \<le> 18 \<and> queue_sent m c k w out c' k' w' \<and> int (length out) = bytes"
  using assms
proof (induction fuel arbitrary: bytes c k w)
  case 0
  then have "getbuf_loop 0 span G bytes c = Some ([], c)" "bytes = 0" by (subst getbuf_loop.simps, simp_all)
  then show ?case using 0(1-3) queue_sent_Nil [of m c k w] by fastforce
next
  case (Suc fuel)
  show ?case
  proof (cases "bytes = 0")
    case True
    then have "getbuf_loop (Suc fuel) span G bytes c = Some ([], c)" by (subst getbuf_loop.simps) simp
    then show ?thesis using True Suc.prems(1-3) queue_sent_Nil [of m c k w] by fastforce
  next
    case False
    then have b: "0 < bytes" using Suc.prems by simp
    obtain out bytes' c1 k1 w1 where t: "getbuf_turn span G bytes c = Some (out, bytes', c1)" "hdlc_tx c1"
      "tx_at m k1 (txhdlc c1) w1" "length w1 \<le> 18" "queue_sent m c k w out c1 k1 w1"
      "0 \<le> bytes'" "bytes' < bytes" "int (length out) = bytes - bytes'"
      using getbuf_turn_queue [OF Suc.prems(1-3) b Suc.prems(5)] by blast
    have "bytes' \<le> 8" "nat bytes' \<le> fuel" using t(7) Suc.prems(5,6) by linarith+
    then obtain out2 c2 k2 w2 where i: "getbuf_loop fuel span G bytes' c1 = Some (out2, c2)" "hdlc_tx c2"
      "tx_at m k2 (txhdlc c2) w2" "length w2 \<le> 18" "queue_sent m c1 k1 w1 out2 c2 k2 w2" "int (length out2) = bytes'"
      using Suc.IH [OF t(2-4,6)] by blast
    have "getbuf_loop (Suc fuel) span G bytes c = Some (out @ out2, c2)"
      using t(1) i(1) False by (subst getbuf_loop.simps) simp
    moreover have "int (length (out @ out2)) = bytes" using t(8) i(6) by simp
    ultimately show ?thesis using i queue_sent_trans [OF t(5) i(5)] by blast
  qed
qed

lemma getbuf_chunk_queue:
  assumes "hdlc_tx c" "tx_at m k (txhdlc c) w" "length w \<le> 18"
  shows "\<exists>out c' k' w'. getbuf_chunk span G c = Some (out, c') \<and> hdlc_tx c' \<and> tx_at m k' (txhdlc c') w' \<and> length w' \<le> 18 \<and>
    queue_sent m c k w out c' k' w' \<and> length out = 8"
  using getbuf_loop_queue [OF assms, of 8 300 span G] by (auto simp: getbuf_chunk_def)

section \<open>Frames from events\<close>

text \<open>
  What reception promises: the events of the HDLC engine cut into frames. A flag ends a frame that has bytes, if its
  frame check is good; an abort drops what there is.
\<close>

fun deframe :: "(byte list \<Rightarrow> bool) \<Rightarrow> byte list \<Rightarrow> rx_event list \<Rightarrow> byte list list \<times> byte list" where
  "deframe ok p [] = ([], p)"
| "deframe ok p (RByte b # es) = deframe ok (p @ [b]) es"
| "deframe ok p (RFlag # es) =
     (if p \<noteq> [] \<and> ok p then (case deframe ok [] es of (fs, q) \<Rightarrow> (p # fs, q)) else deframe ok [] es)"
| "deframe ok p (RAbort # es) = deframe ok [] es"
| "deframe ok p (RNone # es) = deframe ok p es"

lemma deframe_append:
  "deframe ok p (es @ es') = (case deframe ok p es of (fs, q) \<Rightarrow> (case deframe ok q es' of (fs', q') \<Rightarrow> (fs @ fs', q')))"
  by (induction ok p es rule: deframe.induct) (auto split: prod.splits)

lemma deframe_flags: "deframe ok [] (replicate r RFlag) = ([], [])"
  by (induction r) auto

lemma deframe_frame:
  assumes "f \<noteq> []" "ok f"
  shows "deframe ok [] (map item_event (frame_items f) @ es) = (case deframe ok [] es of (fs, q) \<Rightarrow> (f # fs, q))"
proof -
  have "deframe ok p (map item_event (map HByte f) @ RFlag # es) = deframe ok (p @ f) (RFlag # es)" for p
    by (induction f arbitrary: p) auto
  from this [of "[]"] show ?thesis using assms by (simp add: frame_items_def)
qed

lemma deframe_frames:
  assumes "\<And>f. f \<in> set fs \<Longrightarrow> f \<noteq> [] \<and> ok f"
  shows "deframe ok [] (map item_event (concat (map frame_items fs)) @ es) = (case deframe ok [] es of (gs, q) \<Rightarrow> (fs @ gs, q))"
  using assms
proof (induction fs)
  case (Cons f fs)
  have "deframe ok [] (map item_event (frame_items f) @ map item_event (concat (map frame_items fs)) @ es) =
      (case deframe ok [] (map item_event (concat (map frame_items fs)) @ es) of (gs, q) \<Rightarrow> (f # gs, q))"
    using Cons.prems by (intro deframe_frame) auto
  then show ?case using Cons.IH Cons.prems by (simp split: prod.splits)
qed (simp split: prod.splits)

text \<open>No frame fills its buffer: an overrun would make the engine search for a flag anew.\<close>

fun fits :: "int \<Rightarrow> byte list \<Rightarrow> rx_event list \<Rightarrow> bool" where
  "fits n p [] = True"
| "fits n p (RByte b # es) = (int (length p) + 1 < n \<and> fits n (p @ [b]) es)"
| "fits n p (RNone # es) = fits n p es"
| "fits n p (_ # es) = fits n [] es"

lemma fits_append: "fits n p (es @ es') \<longleftrightarrow> fits n p es \<and> fits n (snd (deframe ok p es)) es'"
  by (induction ok p es rule: deframe.induct) (auto split: prod.splits)

section \<open>Reception cuts the events into frames\<close>

definition rx_part :: "dahdi_chan \<Rightarrow> byte list" where
  "rx_part c = take (nat (readidx c ! rx_slot c)) (readbuf c ! rx_slot c)"

text \<open>An HDLC channel that receives: the slots beyond the one being filled are unused.\<close>

definition hdlc_rx :: "fcs_step \<Rightarrow> dahdi_chan \<Rightarrow> bool" where
  "hdlc_rx f c \<longleftrightarrow> filling c \<and> flagged c FLAGBIT_HDLC \<and> \<not> flagged c FLAGBIT_MTP2 \<and>
     readidx c ! rx_slot c < blocksize c \<and> infcs c = foldl f PPP_INITFCS (rx_part c) \<and>
     (\<forall>x < nat (numbufs c). x \<notin> set (rx_slots c) \<longrightarrow> x \<noteq> rx_slot c \<longrightarrow> readidx c ! x = 0)"

definition fcs_good :: "fcs_step \<Rightarrow> dahdi_chan \<Rightarrow> byte list \<Rightarrow> bool" where
  "fcs_good f c p \<longleftrightarrow> (flagged c FLAGBIT_FCS \<longrightarrow> foldl f PPP_INITFCS p = PPP_GOODFCS)"

lemma rx_stream_append:
  "fst (rx_stream h (xs @ ys)) = fst (rx_stream h xs) @ fst (rx_stream (snd (rx_stream h xs)) ys)"
  "snd (rx_stream h (xs @ ys)) = snd (rx_stream (snd (rx_stream h xs)) ys)"
proof -
  have "fst (rx_stream h (xs @ ys)) = fst (rx_stream h xs) @ fst (rx_stream (snd (rx_stream h xs)) ys) \<and>
    snd (rx_stream h (xs @ ys)) = snd (rx_stream (snd (rx_stream h xs)) ys)"
  proof (induction xs arbitrary: h)
    case (Cons b xs)
    obtain r h1 where r: "fasthdlc_rx_run (fasthdlc_rx_load_nocheck b h) = (r, h1)"
      by (cases "fasthdlc_rx_run (fasthdlc_rx_load_nocheck b h)")
    show ?case using Cons.IH by (simp add: rx_stream_step [OF r] rx_stream_step_state [OF r] del: rx_stream.simps)
  qed simp
  then show "fst (rx_stream h (xs @ ys)) = fst (rx_stream h xs) @ fst (rx_stream (snd (rx_stream h xs)) ys)"
    "snd (rx_stream h (xs @ ys)) = snd (rx_stream (snd (rx_stream h xs)) ys)" by simp_all
qed

lemma rx_part_length:
  assumes "filling c"
  shows "int (length (rx_part c)) = readidx c ! rx_slot c" "rx_part c = [] \<longleftrightarrow> readidx c ! rx_slot c = 0"
    "length (readbuf c ! rx_slot c) = nat (blocksize c)" "0 \<le> readidx c ! rx_slot c" "0 < blocksize c"
proof -
  note k = filling_slot [OF assms]
  have ok: "bufs_ok c" using assms by (simp add: filling_def)
  show b: "length (readbuf c ! rx_slot c) = nat (blocksize c)" "0 \<le> readidx c ! rx_slot c"
    using bufs_ok_slot [OF ok] k by auto
  have le: "readidx c ! rx_slot c \<le> blocksize c" using bufs_ok_slot [OF ok] k by auto
  show "int (length (rx_part c)) = readidx c ! rx_slot c" using b le by (simp add: rx_part_def)
  then show "rx_part c = [] \<longleftrightarrow> readidx c ! rx_slot c = 0" by auto
  show "0 < blocksize c" using ok by (simp add: bufs_ok_def)
qed

text \<open>What the receiver does with an event that leaves it in the frame.\<close>

lemma hdlc_rx_upd:
  assumes c: "hdlc_rx f c" and b: "length b = nat (blocksize c)" and i: "0 \<le> i" "i < blocksize c"
    and x: "x = foldl f PPP_INITFCS (take (nat i) b)"
  shows "hdlc_rx f (rcv_upd h x b i c)" "rx_part (rcv_upd h x b i c) = take (nat i) b"
    "rx_frames (rcv_upd h x b i c) = rx_frames c"
proof -
  have fl: "filling c" using c by (simp add: hdlc_rx_def)
  note u = filling_rcv_upd [OF fl b i(1), of h x]
  show p: "rx_part (rcv_upd h x b i c) = take (nat i) b" using u(6,7) i by (simp add: rx_part_def)
  show "rx_frames (rcv_upd h x b i c) = rx_frames c" using u(2) i by simp
  show "hdlc_rx f (rcv_upd h x b i c)"
    using c u(1,6) i p x by (auto simp: hdlc_rx_def nth_upd)
qed

lemma hdlc_rx_same:
  assumes c: "hdlc_rx f c"
  shows "hdlc_rx f (rcv_upd h (infcs c) (readbuf c ! rx_slot c) (readidx c ! rx_slot c) c)"
    "rx_part (rcv_upd h (infcs c) (readbuf c ! rx_slot c) (readidx c ! rx_slot c) c) = rx_part c"
    "rx_frames (rcv_upd h (infcs c) (readbuf c ! rx_slot c) (readidx c ! rx_slot c) c) = rx_frames c"
proof -
  have fl: "filling c" and lt: "readidx c ! rx_slot c < blocksize c" and x: "infcs c = foldl f PPP_INITFCS (rx_part c)"
    using c by (auto simp: hdlc_rx_def)
  note l = rx_part_length [OF fl]
  note u = hdlc_rx_upd [OF c l(3,4) lt, of "infcs c" h]
  show "hdlc_rx f (rcv_upd h (infcs c) (readbuf c ! rx_slot c) (readidx c ! rx_slot c) c)"
    "rx_part (rcv_upd h (infcs c) (readbuf c ! rx_slot c) (readidx c ! rx_slot c) c) = rx_part c"
    "rx_frames (rcv_upd h (infcs c) (readbuf c ! rx_slot c) (readidx c ! rx_slot c) c) = rx_frames c"
    using u x by (simp_all add: rx_part_def [of c])
qed

lemma hdlc_rx_byte:
  assumes c: "hdlc_rx f c" and lt: "readidx c ! rx_slot c + 1 < blocksize c"
  shows "hdlc_rx f (rcv_upd h (f (infcs c) b) ((readbuf c ! rx_slot c)[nat (readidx c ! rx_slot c) := b]) (readidx c ! rx_slot c + 1) c)"
    "rx_part (rcv_upd h (f (infcs c) b) ((readbuf c ! rx_slot c)[nat (readidx c ! rx_slot c) := b]) (readidx c ! rx_slot c + 1) c)
      = rx_part c @ [b]"
    "rx_frames (rcv_upd h (f (infcs c) b) ((readbuf c ! rx_slot c)[nat (readidx c ! rx_slot c) := b]) (readidx c ! rx_slot c + 1) c)
      = rx_frames c"
proof -
  let ?i = "readidx c ! rx_slot c" and ?b = "readbuf c ! rx_slot c"
  have fl: "filling c" and x: "infcs c = foldl f PPP_INITFCS (rx_part c)" using c by (auto simp: hdlc_rx_def)
  note l = rx_part_length [OF fl]
  have t: "take (nat (?i + 1)) (?b[nat ?i := b]) = rx_part c @ [b]"
  proof -
    have "nat (?i + 1) = Suc (nat ?i)" "nat ?i < length ?b" using l lt by auto
    then show ?thesis by (simp add: take_Suc_conv_app_nth rx_part_def)
  qed
  have "f (infcs c) b = foldl f PPP_INITFCS (take (nat (?i + 1)) (?b[nat ?i := b]))" unfolding t x by simp
  note u = hdlc_rx_upd [OF c _ _ lt this, of h]
  show "hdlc_rx f (rcv_upd h (f (infcs c) b) (?b[nat ?i := b]) (?i + 1) c)"
    "rx_part (rcv_upd h (f (infcs c) b) (?b[nat ?i := b]) (?i + 1) c) = rx_part c @ [b]"
    "rx_frames (rcv_upd h (f (infcs c) b) (?b[nat ?i := b]) (?i + 1) c) = rx_frames c"
    using u l t by simp_all
qed

text \<open>
  The loop of an HDLC channel stops at the end of a frame, at a frame that is dropped, or with the bytes: the events of
  the bytes it used are those of one frame at most.
\<close>

definition hdlc_stop :: "fcs_step \<Rightarrow> dahdi_chan \<Rightarrow> byte list \<Rightarrow> dahdi_chan \<Rightarrow> bool \<Rightarrow> int \<Rightarrow> nat \<Rightarrow> bool" where
  "hdlc_stop f c rxb c' eof ab n \<longleftrightarrow> hdlc_rx f c' \<and> n \<le> length rxb \<and> (rxb \<noteq> [] \<longrightarrow> 0 < n) \<and>
     (\<exists>h x b i. c' = rcv_upd h x b i c) \<and> rx_frames c' = rx_frames c \<and>
     rxhdlc c' = snd (rx_stream (rxhdlc c) (take n rxb)) \<and>
     deframe (fcs_good f c) (rx_part c) (fst (rx_stream (rxhdlc c) (take n rxb))) =
       (if eof then ([rx_part c'], []) else if ab \<noteq> 0 then ([], []) else ([], rx_part c')) \<and>
     (eof \<longrightarrow> ab = 0 \<and> rx_part c' \<noteq> []) \<and> (\<not> eof \<and> ab = 0 \<longrightarrow> n = length rxb)"

lemma putbuf_hdlc_deframe:
  assumes "hdlc_rx f c" "fits (blocksize c) (rx_part c) (fst (rx_stream (rxhdlc c) rxb))"
    and "putbuf_hdlc f rxb used c = (c', eof, ab, used')"
  shows "\<exists>n. used' = used + n \<and> hdlc_stop f c rxb c' eof ab n"
  using assms
proof (induction rxb arbitrary: used c)
  case Nil
  then have e: "c' = c" "\<not> eof" "ab = 0" "used' = used" by auto
  show ?case unfolding e
    using Nil(1) e rcv_upd_id [of c, symmetric]
    by (intro exI [of _ 0]) (auto simp: hdlc_stop_def)
next
  case (Cons b rxb)
  let ?k = "rx_slot c"
  have fl: "filling c" and lt: "readidx c ! ?k < blocksize c" and x: "infcs c = foldl f PPP_INITFCS (rx_part c)"
    using Cons.prems(1) by (auto simp: hdlc_rx_def)
  note k = filling_slot [OF fl] and l = rx_part_length [OF fl]
  have len: "?k < length (readidx c)" "?k < length (readbuf c)" using k fl by (auto simp: filling_def bufs_ok_def)
  obtain res h where r: "fasthdlc_rx_run (fasthdlc_rx_load_nocheck b (rxhdlc c)) = (res, h)"
    by (cases "fasthdlc_rx_run (fasthdlc_rx_load_nocheck b (rxhdlc c))")
  note st = putbuf_hdlc_step [OF r refl len, of f rxb used, unfolded Let_def]
  note ev = rx_stream_step [OF r] rx_stream_step_state [OF r]
  define e1 where "e1 = (if rx_event res = RNone then [] else [rx_event res])"
  have go: ?case if g: "putbuf_hdlc f (b # rxb) used c = putbuf_hdlc f rxb (used + 1) d" and d: "d = rcv_upd h x' b' i' c" "hdlc_rx f d"
      "rx_frames d = rx_frames c" "deframe (fcs_good f c) (rx_part c) e1 = ([], rx_part d)"
      and fit: "fits (blocksize c) (rx_part d) (fst (rx_stream h rxb))" for d x' b' i'
  proof -
    have dh: "rxhdlc d = h" "blocksize d = blocksize c" "fcs_good f d = fcs_good f c" by (simp_all add: d(1) fcs_good_def fun_eq_iff)
    have "fits (blocksize d) (rx_part d) (fst (rx_stream (rxhdlc d) rxb))" using fit dh by simp
    then obtain n where n: "used' = used + 1 + n" "hdlc_stop f d rxb c' eof ab n"
      using Cons.IH [OF d(2), of "used + 1"] g Cons.prems(3) by auto
    have "hdlc_stop f c (b # rxb) c' eof ab (Suc n)"
      unfolding hdlc_stop_def
    proof (intro conjI)
      show "deframe (fcs_good f c) (rx_part c) (fst (rx_stream (rxhdlc c) (take (Suc n) (b # rxb)))) =
         (if eof then ([rx_part c'], []) else if ab \<noteq> 0 then ([], []) else ([], rx_part c'))"
        using n(2) d(4) unfolding take_Suc_Cons ev(1) e1_def [symmetric] deframe_append
        by (simp add: hdlc_stop_def dh)
      show "rxhdlc c' = snd (rx_stream (rxhdlc c) (take (Suc n) (b # rxb)))"
        using n(2) unfolding take_Suc_Cons ev(2) by (simp add: hdlc_stop_def dh)
      show "\<exists>h x b i. c' = rcv_upd h x b i c"
        using n(2) d(1) by (auto simp: hdlc_stop_def)
    qed (use n(2) d(3) in \<open>auto simp: hdlc_stop_def\<close>)
    then show ?thesis using n(1) by (intro exI [of _ "Suc n"]) simp
  qed
  have fin: ?case if g: "putbuf_hdlc f (b # rxb) used c = (d, eof', ab', used + 1)" and d: "d = rcv_upd h x' b' i' c" "hdlc_rx f d"
      "rx_frames d = rx_frames c" "deframe (fcs_good f c) (rx_part c) e1 = (if eof' then ([rx_part d], []) else ([], []))"
      "if eof' then ab' = 0 \<and> rx_part d \<noteq> [] else ab' \<noteq> 0" for d eof' ab' x' b' i'
  proof -
    have e: "c' = d" "eof = eof'" "ab = ab'" "used' = used + 1" using g Cons.prems(3) by auto
    have "hdlc_stop f c (b # rxb) d eof' ab' 1"
      unfolding hdlc_stop_def
    proof (intro conjI)
      show "deframe (fcs_good f c) (rx_part c) (fst (rx_stream (rxhdlc c) (take 1 (b # rxb)))) =
         (if eof' then ([rx_part d], []) else if ab' \<noteq> 0 then ([], []) else ([], rx_part d))"
        using d(4,5) ev(1) [of "[]"] by (simp add: e1_def [symmetric] del: rx_stream.simps(2) split: if_splits)
      show "rxhdlc d = snd (rx_stream (rxhdlc c) (take 1 (b # rxb)))"
        using d(1) ev(2) [of "[]"] by (simp del: rx_stream.simps(2))
      show "\<exists>h x b i. d = rcv_upd h x b i c" using d(1) by blast
    qed (use d in auto)
    then show ?thesis using e by (intro exI [of _ 1]) simp
  qed
  have fit: "fits (blocksize c) (rx_part c) (e1 @ fst (rx_stream h rxb))"
    using Cons.prems(2) unfolding ev(1) e1_def by simp
  note same = hdlc_rx_same [OF Cons.prems(1), of h]
  show ?case
  proof (cases "rx_event res")
    case RNone
    show ?thesis
      by (rule go [OF _ refl same(1,3)]) (use st RNone fit same(2) in \<open>simp_all add: e1_def\<close>)
  next
    case RFlag
    show ?thesis
    proof (cases "rx_part c = []")
      case True
      show ?thesis
        by (rule go [OF _ refl same(1,3)]) (use st RFlag fit same(2) True l in \<open>simp_all add: e1_def\<close>)
    next
      case False
      then have nz: "readidx c ! ?k \<noteq> 0" using l(2) by simp
      have g: "fcs_good f c (rx_part c) = (\<not> (flagged c FLAGBIT_FCS \<and> infcs c \<noteq> PPP_GOODFCS))"
        by (auto simp: fcs_good_def x)
      show ?thesis
      proof (cases "fcs_good f c (rx_part c)")
        case True
        show ?thesis
          by (rule fin [OF _ refl same(1,3), where eof' = True and ab' = 0])
            (use st RFlag True False nz g same(2) in \<open>simp_all add: e1_def\<close>)
      next
        case bad: False
        show ?thesis
          by (rule fin [OF _ refl same(1,3), where eof' = False and ab' = EVENT_BADFCS])
            (use st RFlag bad False nz g same(2) in \<open>simp_all add: e1_def\<close>)
      qed
    qed
  next
    case RAbort
    show ?thesis
    proof (cases "rx_part c = []")
      case True
      show ?thesis
        by (rule go [OF _ refl same(1,3)]) (use st RAbort fit same(2) True l in \<open>simp_all add: e1_def\<close>)
    next
      case False
      show ?thesis
        by (rule fin [OF _ refl same(1,3), where eof' = False and ab' = EVENT_ABORT])
          (use st RAbort False l same(2) in \<open>simp_all add: e1_def\<close>)
    qed
  next
    case (RByte y)
    have y: "y = ucast res" using RByte by (simp add: rx_event_def split: if_splits)
    have room: "readidx c ! ?k + 1 < blocksize c" using fit RByte l(1) by (simp add: e1_def)
    note by' = hdlc_rx_byte [OF Cons.prems(1) room, of h y]
    show ?thesis
      by (rule go [OF _ refl by'(1,3)]) (use st RByte fit room by'(2) y in \<open>simp_all add: e1_def\<close>)
  qed
qed

lemma putbuf_next_sel [simp]:
  "readidx (putbuf_next c) = readidx c" "rxhdlc (putbuf_next c) = rxhdlc c" "infcs (putbuf_next c) = infcs c"
  "cflags (putbuf_next c) = cflags c" "blocksize (putbuf_next c) = blocksize c" "numbufs (putbuf_next c) = numbufs c"
  by (simp_all add: putbuf_next_def Let_def wake_def)

lemma putbuf_notify_sel [simp]:
  "readidx (putbuf_notify c) = readidx c" "rxhdlc (putbuf_notify c) = rxhdlc c" "infcs (putbuf_notify c) = infcs c"
  "cflags (putbuf_notify c) = cflags c" "blocksize (putbuf_notify c) = blocksize c" "numbufs (putbuf_notify c) = numbufs c"
  "inreadbuf (putbuf_notify c) = inreadbuf c" "outreadbuf (putbuf_notify c) = outreadbuf c"
  by (simp_all add: putbuf_notify_def Let_def wake_def)

lemma putbuf_eof_fields:
  assumes "\<not> flagged c FLAGBIT_MTP2"
  shows "putbuf_eof c = putbuf_notify (putbuf_next (frame_done c))" "readidx (putbuf_eof c) = readidx c"
    "rxhdlc (putbuf_eof c) = rxhdlc c" "infcs (putbuf_eof c) = PPP_INITFCS" "cflags (putbuf_eof c) = cflags c"
    "blocksize (putbuf_eof c) = blocksize c" "numbufs (putbuf_eof c) = numbufs c"
proof -
  show "putbuf_eof c = putbuf_notify (putbuf_next (frame_done c))"
    using assms by (simp add: putbuf_eof_def Let_def frame_done_def rx_slot_def)
  then show "readidx (putbuf_eof c) = readidx c"
    "rxhdlc (putbuf_eof c) = rxhdlc c" "infcs (putbuf_eof c) = PPP_INITFCS" "cflags (putbuf_eof c) = cflags c"
    "blocksize (putbuf_eof c) = blocksize c" "numbufs (putbuf_eof c) = numbufs c"
    by (simp_all add: frame_done_def)
qed

lemma putbuf_eof_ring:
  assumes c: "filling c" and r: "ring_push (numbufs c) (inreadbuf c) (outreadbuf c) = (i', o')" and m: "\<not> flagged c FLAGBIT_MTP2"
  shows "inreadbuf (putbuf_eof c) = i'" "outreadbuf (putbuf_eof c) = o'"
proof -
  have "ring_ok (numbufs c) (inreadbuf c) (outreadbuf c)" using c by (simp add: filling_def bufs_ok_def)
  then have "0 < numbufs c" by (simp add: ring_ok_def)
  then have "0 \<le> (inreadbuf c + 1) mod numbufs c" by (rule pos_mod_sign)
  then have "inreadbuf (putbuf_next (frame_done c)) = i' \<and> outreadbuf (putbuf_next (frame_done c)) = o'"
    using r unfolding ring_push_def putbuf_next_def Let_def
    by (auto simp: frame_done_def wake_def)
  then show "inreadbuf (putbuf_eof c) = i'" "outreadbuf (putbuf_eof c) = o'"
    using putbuf_eof_fields(1) [OF m] by simp_all
qed

text \<open>The end of a frame: it joins those received, and the next slot is empty.\<close>

lemma putbuf_eof_rx:
  assumes c: "hdlc_rx f c" and n: "length (rx_frames c) + 1 < nat (numbufs c)"
  shows "hdlc_rx f (putbuf_eof c)" "rx_frames (putbuf_eof c) = rx_frames c @ [rx_part c]" "rx_part (putbuf_eof c) = []"
    "rxhdlc (putbuf_eof c) = rxhdlc c"
proof -
  let ?d = "putbuf_eof c"
  have fl: "filling c" and mtp: "\<not> flagged c FLAGBIT_MTP2" and idle: "\<And>x. x < nat (numbufs c) \<Longrightarrow> x \<notin> set (rx_slots c) \<Longrightarrow>
      x \<noteq> rx_slot c \<Longrightarrow> readidx c ! x = 0" and bl: "0 < blocksize c"
    using c by (auto simp: hdlc_rx_def filling_def bufs_ok_def)
  have r1: "rx_room1 c" using idle bl by (simp add: rx_room1_def)
  obtain i' o' where p: "ring_push (numbufs c) (inreadbuf c) (outreadbuf c) = (i', o')"
    by (cases "ring_push (numbufs c) (inreadbuf c) (outreadbuf c)")
  note rg = putbuf_eof_ring [OF fl p mtp] and fd = putbuf_eof_fields [OF mtp]
  have ro: "ring_ok (numbufs c) (inreadbuf c) (outreadbuf c)" "inreadbuf c \<noteq> -1" using fl by (auto simp: filling_def bufs_ok_def)
  have v: "bufs_ok ?d" "rx_frames ?d = rx_frames c @ [rx_part c]"
    using putbuf_eof_inv [OF fl r1] mtp by (auto simp: rx_part_def)
  show "rx_frames ?d = rx_frames c @ [rx_part c]" by (rule v(2))
  have i: "0 \<le> inreadbuf ?d" using rx_full [OF v(1)] v(2) n fd(7) by simp
  have sl: "rx_slots ?d = rx_slots c @ [rx_slot c]"
    using ring_push_slots [OF ro p] rg fd(7) by (simp add: rx_slots_def rx_slot_def)
  have fl': "filling ?d" using v(1) i by (simp add: filling_def)
  have free: "readidx ?d ! x = 0" if "x < nat (numbufs ?d)" "x \<notin> set (rx_slots ?d)" for x
    using idle [of x] that unfolding sl fd(2) fd(7) by simp
  have z: "readidx ?d ! rx_slot ?d = 0" using free filling_slot [OF fl'] by blast
  then show "rx_part ?d = []" by (simp add: rx_part_def)
  with z show "hdlc_rx f ?d" using c fl' fd(2-7) free bl by (simp add: hdlc_rx_def)
  show "rxhdlc ?d = rxhdlc c" by (rule fd(3))
qed

lemma putbuf_abort_rx:
  assumes c: "hdlc_rx f c"
  shows "hdlc_rx f (putbuf_abort sp e c)" "rx_frames (putbuf_abort sp e c) = rx_frames c" "rx_part (putbuf_abort sp e c) = []"
    "rxhdlc (putbuf_abort sp e c) = rxhdlc c" "cflags (putbuf_abort sp e c) = cflags c"
    "blocksize (putbuf_abort sp e c) = blocksize c" "numbufs (putbuf_abort sp e c) = numbufs c"
proof -
  have fl: "filling c" using c by (simp add: hdlc_rx_def)
  note l = rx_part_length [OF fl]
  define d where "d = rcv_upd (rxhdlc c) PPP_INITFCS (readbuf c ! rx_slot c) 0 c"
  have d: "hdlc_rx f d" "rx_frames d = rx_frames c" "rx_part d = []"
    using hdlc_rx_upd [OF c l(3), of 0 PPP_INITFCS "rxhdlc c"] l(5) by (simp_all add: d_def)
  have dc: "c\<lparr>readidx := (readidx c)[nat (inreadbuf c) := 0], infcs := PPP_INITFCS\<rparr> = d"
    unfolding d_def by (simp add: rcv_upd_def rx_slot_def)
  have e: "putbuf_abort sp e c = (if flagged d FLAGBIT_OPEN \<and> sp_alarms sp = 0 then qevent e d else d)"
    unfolding putbuf_abort_def Let_def dc by (rule refl)
  obtain ws where q: "qevent e d = d\<lparr>evring := qevent_q e (evring d), eff := eff d @ ws\<rparr>" using qevent_cases by blast
  have q2: "hdlc_rx f (qevent e d)" "rx_frames (qevent e d) = rx_frames d" "rx_part (qevent e d) = rx_part d"
    "rxhdlc (qevent e d) = rxhdlc d" "cflags (qevent e d) = cflags d" "blocksize (qevent e d) = blocksize d"
    "numbufs (qevent e d) = numbufs d"
    using d(1) unfolding q
    by (simp_all add: hdlc_rx_def filling_def bufs_ok_def slots_ok_def rx_part_def rx_slot_def rx_slots_def rx_frames_def)
  show "hdlc_rx f (putbuf_abort sp e c)" "rx_frames (putbuf_abort sp e c) = rx_frames c" "rx_part (putbuf_abort sp e c) = []"
    "rxhdlc (putbuf_abort sp e c) = rxhdlc c" "cflags (putbuf_abort sp e c) = cflags c"
    "blocksize (putbuf_abort sp e c) = blocksize c" "numbufs (putbuf_abort sp e c) = numbufs c"
    unfolding e using d q2 by (simp_all add: d_def)
qed

text \<open>A turn, and a chunk.\<close>

lemma putbuf_turn_deframe:
  assumes c: "hdlc_rx f c" and ne: "rxb \<noteq> []" and fit: "fits (blocksize c) (rx_part c) (fst (rx_stream (rxhdlc c) rxb))"
    and room: "length (rx_frames c) + 1 < nat (numbufs c)"
  shows "\<exists>n c'. putbuf_turn f sp nostd rxb c = (n, c') \<and> 0 < n \<and> n \<le> length rxb \<and> hdlc_rx f c' \<and>
    rxhdlc c' = snd (rx_stream (rxhdlc c) (take n rxb)) \<and> cflags c' = cflags c \<and> blocksize c' = blocksize c \<and>
    numbufs c' = numbufs c \<and>
    (\<exists>fs. deframe (fcs_good f c) (rx_part c) (fst (rx_stream (rxhdlc c) (take n rxb))) = (fs, rx_part c') \<and>
      rx_frames c' = rx_frames c @ fs)"
proof -
  let ?k = "rx_slot c"
  have fl: "filling c" and lt: "readidx c ! ?k < blocksize c" and hd: "flagged c FLAGBIT_HDLC" using c by (auto simp: hdlc_rx_def)
  define left where "left = (if blocksize c - readidx c ! ?k > int (length rxb) then int (length rxb) else blocksize c - readidx c ! ?k)"
  have left: "0 < left" "left \<le> int (length rxb)" using lt ne by (auto simp: left_def)
  let ?xs = "take (nat left) rxb"
  have "fits (blocksize c) (rx_part c) (fst (rx_stream (rxhdlc c) ?xs))"
    using fit fits_append rx_stream_append(1) append_take_drop_id [of "nat left" rxb] by metis
  then obtain d eof ab n where p: "putbuf_hdlc f ?xs 0 c = (d, eof, ab, n)" "hdlc_stop f c ?xs d eof ab n"
    using putbuf_hdlc_deframe [OF c] by (metis add_0 prod_cases4)
  have n: "0 < n" "n \<le> nat left" "take n ?xs = take n rxb"
    using p(2) left ne by (auto simp: hdlc_stop_def)
  obtain h x b i where dd: "d = rcv_upd h x b i c" using p(2) by (auto simp: hdlc_stop_def)
  have d: "hdlc_rx f d" "rx_frames d = rx_frames c" "rxhdlc d = snd (rx_stream (rxhdlc c) (take n rxb))"
    "deframe (fcs_good f c) (rx_part c) (fst (rx_stream (rxhdlc c) (take n rxb))) =
       (if eof then ([rx_part d], []) else if ab \<noteq> 0 then ([], []) else ([], rx_part d))" "eof \<longrightarrow> ab = 0"
    "cflags d = cflags c" "blocksize d = blocksize c" "numbufs d = numbufs c"
    using p(2) [unfolded hdlc_stop_def n(3)] rcv_upd_fields [of h x b i c, folded dd] by blast+
  have t: "putbuf_turn f sp nostd rxb c = (n, let m = if eof then putbuf_eof d else d in if ab \<noteq> 0 then putbuf_abort sp ab m else m)"
    using hd p(1) unfolding putbuf_turn_def Let_def rx_slot_def [symmetric] left_def [symmetric] by simp
  have nl: "n \<le> length rxb" using n(2) left(2) by linarith
  show ?thesis
  proof (cases eof)
    case True
    have "\<not> flagged d FLAGBIT_MTP2" using d(1) by (simp add: hdlc_rx_def)
    note fd = putbuf_eof_fields [OF this]
    have "length (rx_frames d) + 1 < nat (numbufs d)" using room d by simp
    from putbuf_eof_rx [OF d(1) this] show ?thesis
      using t True d n(1) nl fd by simp
  next
    case False
    then show ?thesis using t d n(1) nl putbuf_abort_rx [OF d(1), of sp ab] by simp
  qed
qed

lemma putbuf_loop_deframe:
  assumes "hdlc_rx f c" "fits (blocksize c) (rx_part c) (fst (rx_stream (rxhdlc c) rxb))" "length rxb \<le> fuel"
    and "length (rx_frames c) + length (fst (deframe (fcs_good f c) (rx_part c) (fst (rx_stream (rxhdlc c) rxb)))) + 1 < nat (numbufs c)"
  shows "\<exists>c'. putbuf_loop fuel f sp nostd rxb c = Some c' \<and> hdlc_rx f c' \<and> rxhdlc c' = snd (rx_stream (rxhdlc c) rxb) \<and>
    cflags c' = cflags c \<and> blocksize c' = blocksize c \<and> numbufs c' = numbufs c \<and>
    rx_frames c' = rx_frames c @ fst (deframe (fcs_good f c) (rx_part c) (fst (rx_stream (rxhdlc c) rxb))) \<and>
    rx_part c' = snd (deframe (fcs_good f c) (rx_part c) (fst (rx_stream (rxhdlc c) rxb)))"
  using assms
proof (induction fuel f sp nostd rxb c rule: putbuf_loop.induct)
  case (3 fuel f sp nostd b rxb c)
  let ?xs = "b # rxb"
  have i: "inreadbuf c > -1" using 3(2) by (simp add: hdlc_rx_def filling_def)
  have room: "length (rx_frames c) + 1 < nat (numbufs c)" using 3(5) by simp
  obtain n c1 fs where t: "putbuf_turn f sp nostd ?xs c = (n, c1)" "0 < n" "n \<le> length ?xs" "hdlc_rx f c1"
    "rxhdlc c1 = snd (rx_stream (rxhdlc c) (take n ?xs))" "cflags c1 = cflags c" "blocksize c1 = blocksize c"
    "numbufs c1 = numbufs c"
    "deframe (fcs_good f c) (rx_part c) (fst (rx_stream (rxhdlc c) (take n ?xs))) = (fs, rx_part c1)"
    "rx_frames c1 = rx_frames c @ fs"
    using putbuf_turn_deframe [OF 3(2) _ 3(3) room, of sp nostd] by blast
  have g: "fcs_good f c1 = fcs_good f c" using t(6) by (simp add: fcs_good_def fun_eq_iff)
  let ?e1 = "fst (rx_stream (rxhdlc c) (take n ?xs))" and ?e2 = "fst (rx_stream (rxhdlc c1) (drop n ?xs))"
  have ev: "fst (rx_stream (rxhdlc c) ?xs) = ?e1 @ ?e2" "snd (rx_stream (rxhdlc c) ?xs) = snd (rx_stream (rxhdlc c1) (drop n ?xs))"
    using rx_stream_append [of "rxhdlc c" "take n ?xs" "drop n ?xs"] unfolding append_take_drop_id t(5) by auto
  have df: "deframe (fcs_good f c) (rx_part c) (?e1 @ ?e2) =
      (fs @ fst (deframe (fcs_good f c1) (rx_part c1) ?e2), snd (deframe (fcs_good f c1) (rx_part c1) ?e2))"
    unfolding deframe_append t(9) g by (simp split: prod.splits)
  have fit: "fits (blocksize c1) (rx_part c1) ?e2"
    using 3(3) unfolding ev(1) fits_append [where ok = "fcs_good f c"] t(9) t(7) by simp
  have fu: "length (drop n ?xs) \<le> fuel" using 3(4) t(2) by (simp; linarith)
  have rm: "length (rx_frames c1) + length (fst (deframe (fcs_good f c1) (rx_part c1) ?e2)) + 1 < nat (numbufs c1)"
    using 3(5) unfolding ev(1) df t(8,10) by simp
  obtain c' where c': "putbuf_loop fuel f sp nostd (drop n ?xs) c1 = Some c'" "hdlc_rx f c'"
    "rxhdlc c' = snd (rx_stream (rxhdlc c1) (drop n ?xs))" "cflags c' = cflags c1" "blocksize c' = blocksize c1"
    "numbufs c' = numbufs c1" "rx_frames c' = rx_frames c1 @ fst (deframe (fcs_good f c1) (rx_part c1) ?e2)"
    "rx_part c' = snd (deframe (fcs_good f c1) (rx_part c1) ?e2)"
    using 3(1) [OF i t(1) [symmetric] refl t(4) fit fu rm] by blast
  have "putbuf_loop (Suc fuel) f sp nostd ?xs c = Some c'" using i t(1) c'(1) by simp
  then show ?case using c'(2-) t(6-8,10) unfolding ev df by simp
qed auto

section \<open>The link\<close>

text \<open>\<open>n\<close> milliseconds of a link: each chunk of \<open>a\<close> is received by \<open>b\<close>.\<close>

fun hdlc_link :: "nat \<Rightarrow> dahdi_span \<Rightarrow> tone_globals \<Rightarrow> fcs_step \<Rightarrow> dahdi_span \<Rightarrow> bool \<Rightarrow> dahdi_chan \<Rightarrow> dahdi_chan \<Rightarrow>
    (dahdi_chan \<times> dahdi_chan) option" where
  "hdlc_link 0 span G f sp nostd a b = Some (a, b)"
| "hdlc_link (Suc n) span G f sp nostd a b =
     (case getbuf_chunk span G a of
        None \<Rightarrow> None
      | Some (out, a') \<Rightarrow>
          (case putbuf_chunk f sp nostd out b of
             None \<Rightarrow> None
           | Some b' \<Rightarrow> hdlc_link n span G f sp nostd a' b'))"

text \<open>What the receiver makes of bytes it has room for.\<close>

definition rx_takes :: "fcs_step \<Rightarrow> dahdi_chan \<Rightarrow> byte list \<Rightarrow> bool" where
  "rx_takes f b out \<longleftrightarrow> fits (blocksize b) (rx_part b) (fst (rx_stream (rxhdlc b) out)) \<and>
     length (rx_frames b) + length (fst (deframe (fcs_good f b) (rx_part b) (fst (rx_stream (rxhdlc b) out)))) + 1 < nat (numbufs b)"

definition rx_took :: "fcs_step \<Rightarrow> dahdi_chan \<Rightarrow> byte list \<Rightarrow> dahdi_chan \<Rightarrow> bool" where
  "rx_took f b out b' \<longleftrightarrow> hdlc_rx f b' \<and> rxhdlc b' = snd (rx_stream (rxhdlc b) out) \<and>
    cflags b' = cflags b \<and> blocksize b' = blocksize b \<and> numbufs b' = numbufs b \<and>
    rx_frames b' = rx_frames b @ fst (deframe (fcs_good f b) (rx_part b) (fst (rx_stream (rxhdlc b) out))) \<and>
    rx_part b' = snd (deframe (fcs_good f b) (rx_part b) (fst (rx_stream (rxhdlc b) out)))"

lemma putbuf_chunk_took:
  "hdlc_rx f b \<Longrightarrow> rx_takes f b out \<Longrightarrow> \<exists>b'. putbuf_chunk f sp nostd out b = Some b' \<and> rx_took f b out b'"
  using putbuf_loop_deframe [of f b out "length out" sp nostd] unfolding putbuf_chunk_def rx_takes_def rx_took_def by simp

lemma rx_takes_append:
  assumes "rx_takes f b (xs @ ys)"
  shows "rx_takes f b xs" "rx_took f b xs b' \<Longrightarrow> rx_takes f b' ys"
    "rx_took f b xs b' \<Longrightarrow> rx_took f b' ys b'' \<Longrightarrow> rx_took f b (xs @ ys) b''"
proof -
  let ?e = "fst (rx_stream (rxhdlc b) xs)"
  have d: "deframe ok p (?e @ es) = (fst (deframe ok p ?e) @ fst (deframe ok (snd (deframe ok p ?e)) es),
      snd (deframe ok (snd (deframe ok p ?e)) es))" for ok p es
    by (simp add: deframe_append split: prod.splits)
  show "rx_takes f b xs"
    using assms unfolding rx_takes_def rx_stream_append fits_append [where ok = "fcs_good f b"] d by simp
  have g: "rx_took f b xs b' \<Longrightarrow> fcs_good f b' = fcs_good f b" for b' xs
    by (simp add: rx_took_def fcs_good_def fun_eq_iff)
  show "rx_took f b xs b' \<Longrightarrow> rx_takes f b' ys"
    using assms g [of xs b'] unfolding rx_takes_def rx_took_def rx_stream_append fits_append [where ok = "fcs_good f b"] d by simp
  show "rx_took f b xs b' \<Longrightarrow> rx_took f b' ys b'' \<Longrightarrow> rx_took f b (xs @ ys) b''"
    using g [of xs b'] unfolding rx_took_def rx_stream_append d by simp
qed

lemma hdlc_link_run:
  assumes "hdlc_tx a" "tx_at m k (txhdlc a) w" "length w \<le> 18" "hdlc_rx f b"
  shows "\<exists>out a' k' w'. hdlc_tx a' \<and> tx_at m k' (txhdlc a') w' \<and> length w' \<le> 18 \<and> queue_sent m a k w out a' k' w' \<and>
    length out = 8 * n \<and>
    (rx_takes f b out \<longrightarrow> (\<exists>b'. hdlc_link n span G f sp nostd a b = Some (a', b') \<and> rx_took f b out b'))"
  using assms
proof (induction n arbitrary: a b k w)
  case 0
  have "rx_took f b [] b" using 0(4) by (simp add: rx_took_def)
  then show ?case using 0 queue_sent_Nil [of m a k w]
    by (intro exI [of _ "[]"] exI [of _ a] exI [of _ k] exI [of _ w]) simp
next
  case (Suc n)
  obtain o1 a1 k1 w1 where t: "getbuf_chunk span G a = Some (o1, a1)" "hdlc_tx a1" "tx_at m k1 (txhdlc a1) w1" "length w1 \<le> 18"
    "queue_sent m a k w o1 a1 k1 w1" "length o1 = 8"
    using getbuf_chunk_queue [OF Suc.prems(1-3)] by blast
  define b1 where "b1 = (if rx_takes f b o1 then the (putbuf_chunk f sp nostd o1 b) else b)"
  have p: "rx_takes f b o1 \<longrightarrow> putbuf_chunk f sp nostd o1 b = Some b1 \<and> rx_took f b o1 b1"
    using putbuf_chunk_took [OF Suc.prems(4), of o1 sp nostd] by (auto simp: b1_def)
  have b1: "hdlc_rx f b1" using p Suc.prems(4) by (cases "rx_takes f b o1") (auto simp: rx_took_def b1_def)
  obtain o2 a2 k2 w2 where i: "hdlc_tx a2" "tx_at m k2 (txhdlc a2) w2" "length w2 \<le> 18" "queue_sent m a1 k1 w1 o2 a2 k2 w2"
    "length o2 = 8 * n"
    "rx_takes f b1 o2 \<longrightarrow> (\<exists>b'. hdlc_link n span G f sp nostd a1 b1 = Some (a2, b') \<and> rx_took f b1 o2 b')"
    using Suc.IH [OF t(2-4) b1] by blast
  have "\<exists>b'. hdlc_link (Suc n) span G f sp nostd a b = Some (a2, b') \<and> rx_took f b (o1 @ o2) b'" if r: "rx_takes f b (o1 @ o2)"
  proof -
    have r1: "rx_takes f b o1" using rx_takes_append(1) [OF r] .
    then have r2: "rx_takes f b1 o2" using rx_takes_append(2) [OF r] p by blast
    then obtain b' where b': "hdlc_link n span G f sp nostd a1 b1 = Some (a2, b')" "rx_took f b1 o2 b'" using i(6) by blast
    have "rx_took f b (o1 @ o2) b'" using rx_takes_append(3) [OF r] p r1 b'(2) by blast
    then show ?thesis using t(1) p r1 b'(1) by simp
  qed
  moreover have "queue_sent m a k w (o1 @ o2) a2 k2 w2" by (rule queue_sent_trans [OF t(5) i(4)])
  ultimately show ?case using i(1-3,5) t(6)
    by (intro exI [of _ "o1 @ o2"] exI [of _ a2] exI [of _ k2] exI [of _ w2]) simp
qed

text \<open>
  The line between frames: what is in flight are flags, the receiver has no bytes of a frame.
\<close>

definition idle_line :: "fasthdlc_mode \<Rightarrow> fcs_step \<Rightarrow> dahdi_chan \<Rightarrow> dahdi_chan \<Rightarrow> bool" where
  "idle_line m f a b \<longleftrightarrow> hdlc_tx a \<and> hdlc_rx f b \<and> rx_part b = [] \<and>
     (\<exists>k w k0 u i. tx_at m k (txhdlc a) w \<and> length w \<le> 18 \<and> rx_at m k0 (rxhdlc b) u \<and> k0 < 5 \<and>
        u @ w = items_enc k0 (replicate i HFlag) \<and> k = foldl item_ones k0 (replicate i HFlag))"

lemma stream_bits_length: "length (stream_bits m out) = chunk_len m * length out"
  by (induction out) simp_all

lemma items_enc_length_le: "k < 5 \<Longrightarrow> length (items_enc k its) \<le> 10 * length its"
proof (induction its arbitrary: k)
  case (Cons i its)
  have i: "length (item_enc k i) \<le> 10" "item_ones k i < 5" using item_enc_length [of k i] Cons.prems by auto
  show ?case using i Cons.IH [OF i(2)] by simp
qed simp

text \<open>Enough bytes have been sent: the queue is out, and at least four flags after it.\<close>

lemma sent_enough:
  assumes s: "sent_items m k w (its @ replicate r HFlag) out k' w'" and k: "k < 5" "length w \<le> 18"
    and n: "18 + 10 * (length its + 4) \<le> 7 * length out"
  shows "4 \<le> r"
proof -
  have "7 * length out \<le> length (stream_bits m out)"
    using chunk_len_bounds(1) [of m] by (simp add: stream_bits_length)
  also have "\<dots> \<le> length (stream_bits m out @ w')" by simp
  also have "\<dots> = length w + length (items_enc k (its @ replicate r HFlag))"
    using s by (metis length_append sent_items_def)
  also have "\<dots> \<le> 18 + 10 * (length its + r)"
    using items_enc_length_le [OF k(1), of "its @ replicate r HFlag"] k(2) by simp
  finally have "18 + 10 * (length its + 4) \<le> 18 + 10 * (length its + r)" using n by (rule le_trans [rotated])
  then show ?thesis by simp
qed

lemma fits_flags: "fits n [] (replicate r RFlag @ es) \<longleftrightarrow> fits n [] es"
  by (induction r) auto

lemma fits_frame:
  assumes "int (length f) < n"
  shows "fits n [] (map item_event (frame_items f) @ es) \<longleftrightarrow> fits n [] es"
proof -
  have "fits n p (map item_event (map HByte f) @ RFlag # es) \<longleftrightarrow> fits n [] es" if "int (length p + length f) < n" for p
    using that by (induction f arbitrary: p) auto
  from this [of "[]"] assms show ?thesis by (simp add: frame_items_def)
qed

lemma fits_frames:
  "(\<And>f. f \<in> set fs \<Longrightarrow> int (length f) < n) \<Longrightarrow> fits n [] (map item_event (concat (map frame_items fs)) @ es) \<longleftrightarrow> fits n [] es"
proof (induction fs)
  case (Cons f fs)
  then show ?case using fits_frame [of f n "map item_event (concat (map frame_items fs)) @ es"] by simp
qed simp

lemma map_item_flags [simp]: "map item_event (replicate r HFlag) = replicate r RFlag"
  by simp

text \<open>What the receiver has decoded, when enough has been sent.\<close>

lemma received_items:
  assumes s: "sent_items m k w (its @ replicate r HFlag) out k' w'" "length w' \<le> 18" and r: "4 \<le> r"
    and l: "rx_at m k0 h u" "k0 < 5" "u @ w = items_enc k0 (replicate i HFlag)" "k = foldl item_ones k0 (replicate i HFlag)"
  shows "\<exists>j u' i'. fst (rx_stream h out) = replicate i RFlag @ map item_event its @ replicate j RFlag \<and>
    rx_at m (foldl item_ones k0 (replicate i HFlag @ its @ replicate j HFlag)) (snd (rx_stream h out)) u' \<and>
    u' @ w' = items_enc (foldl item_ones k0 (replicate i HFlag @ its @ replicate j HFlag)) (replicate i' HFlag) \<and>
    k' = foldl item_ones (foldl item_ones k0 (replicate i HFlag @ its @ replicate j HFlag)) (replicate i' HFlag)"
proof -
  let ?L = "replicate i HFlag @ its @ replicate r HFlag"
  have h: "rx_ok h u" "length u < 10" "hones h = k0" "hstate h = 1" "hmode h = m" using l(1) by (auto simp: rx_at_def)
  have tot: "u @ stream_bits m out @ w' = items_enc k0 ?L"
    using s(1) l(3,4) by (simp add: sent_items_def items_enc_append) (metis append.assoc)
  obtain n u' where n: "fst (rx_stream h out) = map item_event (take n ?L)"
    "rx_at m (foldl item_ones k0 (take n ?L)) (snd (rx_stream h out)) u'"
    "u @ stream_bits m out = items_enc k0 (take n ?L) @ u'" "n \<le> length ?L"
    using rx_stream_items [of h u out w' ?L] h l(2) tot by auto
  let ?kn = "foldl item_ones k0 (take n ?L)"
  have kn: "?kn < 5" by (rule foldl_item_ones [OF l(2)])
  have rest: "u' @ w' = items_enc ?kn (drop n ?L)"
  proof -
    have "items_enc k0 (take n ?L) @ u' @ w' = (u @ stream_bits m out) @ w'" using n(3) by simp
    also have "\<dots> = items_enc k0 (take n ?L @ drop n ?L)" using tot by (simp only: append_take_drop_id append.assoc)
    also have "\<dots> = items_enc k0 (take n ?L) @ items_enc ?kn (drop n ?L)" by (rule items_enc_append)
    finally show ?thesis by simp
  qed
  have "8 * length (drop n ?L) \<le> length (u' @ w')" unfolding rest by (rule items_enc_length [OF kn])
  moreover have "length u' < 10" using n(2) by (simp add: rx_at_def)
  ultimately have d: "length (drop n ?L) \<le> 3" using s(2) by simp
  define j where "j = n - i - length its"
  have nj: "n = i + length its + j" "j \<le> r" using d r n(4) by (simp_all add: j_def)
  have t: "take n ?L = replicate i HFlag @ its @ replicate j HFlag" "drop n ?L = replicate (r - j) HFlag"
    using nj by simp_all
  have "k' = foldl item_ones k0 (take n ?L @ drop n ?L)" using s(1) l(4) by (simp only: sent_items_def foldl_append append_take_drop_id)
  then have "k' = foldl item_ones ?kn (drop n ?L)" by (simp only: foldl_append)
  then show ?thesis using n rest unfolding t
    by (intro exI [of _ j] exI [of _ u'] exI [of _ "r - j"]) simp
qed

lemma tx_items_whole:
  assumes "\<And>f fs. tx_frames a = f # fs \<Longrightarrow> writeidx a ! tx_slot a = 0"
  shows "tx_items a = concat (map frame_items (tx_frames a))"
  using assms by (cases "tx_frames a") (simp_all add: tx_items_def)

lemma length_frames_items: "length (concat (map frame_items fs)) = (\<Sum>f \<leftarrow> fs. length f + 1)"
  by (induction fs) (simp_all add: frame_items_def)

text \<open>C20. Reception cuts the line into frames, as long as the reader keeps up: on an HDLC channel that waits in a slot, when no frame of
  the line is longer than the buffer and fewer frames are completed than there are free slots, \<open>__dahdi_putbuf_chunk\<close> appends to
  the frames received exactly those that the events of the HDLC engine delimit and whose frame check is good; the bytes of
  an unfinished frame are kept and those of an aborted one dropped, and the engine has seen every byte. An overrun or a full queue
  is not covered here (C25 covers every line, without saying which frames are kept).\<close>

theorem reception_cuts_frames:
  assumes "hdlc_rx f b"
    and "fits (blocksize b) (rx_part b) (fst (rx_stream (rxhdlc b) out))"
    and "length (rx_frames b) + length (fst (deframe (fcs_good f b) (rx_part b) (fst (rx_stream (rxhdlc b) out)))) + 1 < nat (numbufs b)"
  shows "\<exists>b'. putbuf_chunk f sp nostd out b = Some b' \<and> hdlc_rx f b' \<and> rxhdlc b' = snd (rx_stream (rxhdlc b) out) \<and>
    (rx_frames b', rx_part b') =
      (case deframe (fcs_good f b) (rx_part b) (fst (rx_stream (rxhdlc b) out)) of (fs, p) \<Rightarrow> (rx_frames b @ fs, p))"
proof -
  obtain b' where "putbuf_chunk f sp nostd out b = Some b'" "rx_took f b out b'"
    using putbuf_chunk_took [OF assms(1)] assms(2,3) unfolding rx_takes_def by blast
  then show ?thesis by (auto simp: rx_took_def split: prod.splits)
qed

text \<open>C6. An HDLC link delivers: on an idle line, the frames queued at one end that are not empty, fit the buffers of
  the other and pass its frame check, arrive there after \<open>n\<close> ms, whole, in order, once each, after the frames already
  received, as soon as the bits of \<open>n\<close> chunks are as many as those of the queue (with at most ten for a byte) and
  a margin of 58; the sender's queue is then empty and the line is idle again. In 64k and in 56k mode.\<close>

theorem hdlc_link_delivers:
  assumes line: "idle_line m f a b" and start: "tx_frames a \<noteq> [] \<Longrightarrow> writeidx a ! tx_slot a = 0"
    and fs: "\<And>d. d \<in> set (tx_frames a) \<Longrightarrow> d \<noteq> [] \<and> int (length d) < blocksize b \<and> fcs_good f b d"
    and room: "length (rx_frames b) + length (tx_frames a) + 1 < nat (numbufs b)"
    and n: "58 + 10 * (\<Sum>d \<leftarrow> tx_frames a. length d + 1) \<le> 56 * n"
  shows "\<exists>a' b'. hdlc_link n span G f sp nostd a b = Some (a', b') \<and> tx_frames a' = [] \<and>
    rx_frames b' = rx_frames b @ tx_frames a \<and> idle_line m f a' b'"
proof -
  obtain k w k0 u i where l: "hdlc_tx a" "hdlc_rx f b" "rx_part b = []" "tx_at m k (txhdlc a) w" "length w \<le> 18"
    "rx_at m k0 (rxhdlc b) u" "k0 < 5" "u @ w = items_enc k0 (replicate i HFlag)" "k = foldl item_ones k0 (replicate i HFlag)"
    using line unfolding idle_line_def by blast
  obtain out a' k' w' where r: "hdlc_tx a'" "tx_at m k' (txhdlc a') w'" "length w' \<le> 18" "queue_sent m a k w out a' k' w'"
    "length out = 8 * n"
    "rx_takes f b out \<longrightarrow> (\<exists>b'. hdlc_link n span G f sp nostd a b = Some (a', b') \<and> rx_took f b out b')"
    using hdlc_link_run [OF l(1,4,5,2), of n span G sp nostd] by blast
  obtain its q where q: "tx_items a = its @ tx_items a'" "0 < q \<longrightarrow> tx_items a' = []"
    "sent_items m k w (its @ replicate q HFlag) out k' w'"
    using r(4) unfolding queue_sent_def by blast
  have ia: "tx_items a = concat (map frame_items (tx_frames a))" by (rule tx_items_whole) (use start in simp)
  define S where "S = (\<Sum>d \<leftarrow> tx_frames a. length d + 1)"
  have "length its \<le> S" "58 + 10 * S \<le> 56 * n"
    using arg_cong [OF q(1), of length] n unfolding ia length_frames_items S_def by simp_all
  then have "18 + 10 * (length its + 4) \<le> 7 * (8 * n)" by presburger
  then have "18 + 10 * (length its + 4) \<le> 7 * length out" by (simp only: r(5))
  then have q4: "4 \<le> q" using sent_enough [OF q(3) tx_at_ones [OF l(4)] l(5)] by blast
  then have e: "tx_items a' = []" "its = concat (map frame_items (tx_frames a))" using q ia by auto
  obtain j u' i' where v: "fst (rx_stream (rxhdlc b) out) = replicate i RFlag @ map item_event its @ replicate j RFlag"
    "rx_at m (foldl item_ones k0 (replicate i HFlag @ its @ replicate j HFlag)) (snd (rx_stream (rxhdlc b) out)) u'"
    "u' @ w' = items_enc (foldl item_ones k0 (replicate i HFlag @ its @ replicate j HFlag)) (replicate i' HFlag)"
    "k' = foldl item_ones (foldl item_ones k0 (replicate i HFlag @ its @ replicate j HFlag)) (replicate i' HFlag)"
    using received_items [OF q(3) r(3) q4 l(6-9)] by blast
  have df: "deframe (fcs_good f b) (rx_part b) (fst (rx_stream (rxhdlc b) out)) = (tx_frames a, [])"
    unfolding v(1) l(3) deframe_append [of _ _ "replicate i RFlag"] deframe_flags prod.case e(2)
    using deframe_frames [of "tx_frames a" "fcs_good f b" "replicate j RFlag"] fs by (simp add: deframe_flags)
  have "fits (blocksize b) (rx_part b) (fst (rx_stream (rxhdlc b) out))"
    unfolding v(1) l(3) fits_flags e(2)
    using fits_frames [of "tx_frames a" "blocksize b" "replicate j RFlag"] fits_flags [of "blocksize b" j "[]"] fs by simp
  then have "rx_takes f b out" using room unfolding rx_takes_def df by simp
  then obtain b' where b': "hdlc_link n span G f sp nostd a b = Some (a', b')" "rx_took f b out b'" using r(6) by blast
  have t: "rx_frames b' = rx_frames b @ tx_frames a" "rx_part b' = []" "hdlc_rx f b'" "rxhdlc b' = snd (rx_stream (rxhdlc b) out)"
    using b'(2) unfolding rx_took_def df by simp_all
  have "tx_frames a' = []" using e(1) by (simp add: tx_items_def frame_items_def split: list.splits)
  moreover have "foldl item_ones k0 (replicate i HFlag @ its @ replicate j HFlag) < 5" by (rule foldl_item_ones [OF l(7)])
  then have "idle_line m f a' b'" unfolding idle_line_def using r(1-3) t(2-4) v(2-4) by metis
  ultimately show ?thesis using b'(1) t(1) by blast
qed

text \<open>Two channels of an HDLC span, with four buffers of 16 bytes; one has a frame to send.\<close>

definition link_a :: dahdi_chan where
  "link_a = write_advance 0 (put_frame 0 [1, 255, 3] ((snd (dahdi_reallocbufs True True 16 4 chan0))
     \<lparr>cflags := push_bit FLAGBIT_HDLC 1, curtone := None, txdisable := False, txbufpolicy := 0, txhdlc := fasthdlc_init FASTHDLC_MODE_64\<rparr>))"

definition link_b :: dahdi_chan where
  "link_b = (snd (dahdi_reallocbufs True True 16 4 chan0))\<lparr>cflags := push_bit FLAGBIT_HDLC 1, infcs := PPP_INITFCS,
     rxhdlc := (fasthdlc_init FASTHDLC_MODE_64)\<lparr>hstate := 1\<rparr>\<rparr>"

lemma link_chan:
  "bufs_ok (snd (dahdi_reallocbufs True True 16 4 chan0))" "inwritebuf (snd (dahdi_reallocbufs True True 16 4 chan0)) = 0"
  "outwritebuf (snd (dahdi_reallocbufs True True 16 4 chan0)) = -1" "numbufs (snd (dahdi_reallocbufs True True 16 4 chan0)) = 4"
  "inreadbuf (snd (dahdi_reallocbufs True True 16 4 chan0)) = 0" "outreadbuf (snd (dahdi_reallocbufs True True 16 4 chan0)) = -1"
  "blocksize (snd (dahdi_reallocbufs True True 16 4 chan0)) = 16"
  "writen (snd (dahdi_reallocbufs True True 16 4 chan0)) = replicate 32 0"
  "writeidx (snd (dahdi_reallocbufs True True 16 4 chan0)) = replicate 32 0"
  "readidx (snd (dahdi_reallocbufs True True 16 4 chan0)) = replicate 32 0"
  "tx_frames (snd (dahdi_reallocbufs True True 16 4 chan0)) = []" "rx_frames (snd (dahdi_reallocbufs True True 16 4 chan0)) = []"
  using reallocbufs_ok [of 16 chan0 4]
  by (simp_all add: chan0_def dahdi_reallocbufs_def Let_def flip: replicate_add)

lemma link_a_ok: "hdlc_tx link_a" "tx_frames link_a = [[1, 255, 3]]" "writeidx link_a ! tx_slot link_a = 0"
  "txhdlc link_a = fasthdlc_init FASTHDLC_MODE_64"
proof -
  define c where "c = (snd (dahdi_reallocbufs True True 16 4 chan0))
     \<lparr>cflags := push_bit FLAGBIT_HDLC 1, curtone := None, txdisable := False, txbufpolicy := 0, txhdlc := fasthdlc_init FASTHDLC_MODE_64\<rparr>"
  have c: "bufs_ok c" "inwritebuf c = 0" "tx_frames c = []" "outwritebuf c = -1" "numbufs c = 4" "blocksize c = 16"
    "writeidx c = replicate 32 0" "writen c = replicate 32 0" "txdisable c = False" "curtone c = None" "txbufpolicy c = 0"
    "cflags c = push_bit FLAGBIT_HDLC 1" "txhdlc c = fasthdlc_init FASTHDLC_MODE_64"
    using link_chan
    by (simp_all add: c_def bufs_ok_def slots_ok_def tx_frames_def tx_slots_def)
  have i: "inwritebuf c \<noteq> -1" by (simp add: c)
  note p = put_frame_ok [OF c(1) i, of "[1, 255, 3]", unfolded c(2), simplified]
  have q: "inwritebuf (put_frame 0 d c) = 0" for d by (simp add: put_frame_def c)
  note w = write_advance_bufs_ok [of "put_frame 0 [1, 255, 3] c", unfolded q, simplified]
  have a: "link_a = write_advance 0 (put_frame 0 [1, 255, 3] c)" by (simp add: link_a_def c_def)
  show "tx_frames link_a = [[1, 255, 3]]" unfolding a using w p by (simp add: c)
  have o: "outwritebuf link_a = 0" "inwritebuf link_a = 1" "numbufs link_a = 4" "writeidx link_a = (replicate 32 0)[0 := 0]"
    "writen link_a = (replicate 32 0)[0 := 3]" "txdisable link_a = False" "curtone link_a = None"
    "cflags link_a = push_bit FLAGBIT_HDLC 1" "txhdlc link_a = fasthdlc_init FASTHDLC_MODE_64"
    unfolding a by (simp_all add: write_advance_def put_frame_def Let_def c)
  show "writeidx link_a ! tx_slot link_a = 0" "txhdlc link_a = fasthdlc_init FASTHDLC_MODE_64"
    by (simp_all add: o tx_slot_def)
  have b: "bufs_ok link_a" unfolding a using w p by (simp add: c)
  have sl: "tx_slots link_a = [0]"
    by (simp add: tx_slots_def o ring_slots_def ring_count_def)
  show "hdlc_tx link_a" using b sl by (simp add: hdlc_tx_def o bit_simps)
qed

lemma link_b_ok: "hdlc_rx f link_b" "rx_part link_b = []" "rx_frames link_b = []" "numbufs link_b = 4" "blocksize link_b = 16"
  "rxhdlc link_b = (fasthdlc_init FASTHDLC_MODE_64)\<lparr>hstate := 1\<rparr>" "\<not> flagged link_b FLAGBIT_FCS"
proof -
  note l = link_chan
  have b: "bufs_ok link_b" "inreadbuf link_b = 0" "readidx link_b = replicate 32 0" "numbufs link_b = 4" "blocksize link_b = 16"
    "rx_frames link_b = []" "cflags link_b = push_bit FLAGBIT_HDLC 1" "infcs link_b = PPP_INITFCS"
    using l by (simp_all add: link_b_def bufs_ok_def slots_ok_def rx_frames_def rx_slots_def)
  show "rx_part link_b = []" by (simp add: rx_part_def b rx_slot_def)
  then show "hdlc_rx f link_b" by (simp add: hdlc_rx_def filling_def b rx_slot_def bit_simps)
  show "rx_frames link_b = []" "numbufs link_b = 4" "blocksize link_b = 16" "\<not> flagged link_b FLAGBIT_FCS"
    by (simp_all add: b bit_simps)
  show "rxhdlc link_b = (fasthdlc_init FASTHDLC_MODE_64)\<lparr>hstate := 1\<rparr>" by (simp add: link_b_def)
qed

theorem hdlc_link_delivers_witness:
  "\<exists>a' b'. hdlc_link 2 span0 tone_globals0 (\<lambda>s b. s) span0 False link_a link_b = Some (a', b') \<and>
     rx_frames b' = [[1, 255, 3]]"
proof -
  have line: "idle_line FASTHDLC_MODE_64 (\<lambda>s b. s) link_a link_b"
    unfolding idle_line_def
    by (intro conjI exI [of _ 0] exI [of _ "[]"] link_a_ok link_b_ok)
      (simp_all add: link_a_ok link_b_ok tx_at_def tx_ok_def rx_at_def rx_ok_def fasthdlc_init_def)
  have "\<exists>a' b'. hdlc_link 2 span0 tone_globals0 (\<lambda>s b. s) span0 False link_a link_b = Some (a', b') \<and> tx_frames a' = [] \<and>
    rx_frames b' = rx_frames link_b @ tx_frames link_a \<and> idle_line FASTHDLC_MODE_64 (\<lambda>s b. s) a' b'"
    by (rule hdlc_link_delivers [OF line]) (simp_all add: link_a_ok link_b_ok fcs_good_def)
  then show ?thesis by (auto simp: link_a_ok link_b_ok)
qed

lemma link_b_events: "fst (rx_stream ((fasthdlc_init FASTHDLC_MODE_64)\<lparr>hstate := 1\<rparr>) [0xa0, 0x7e, 0x7e]) = [RByte 5, RFlag]"
  by code_simp

theorem reception_cuts_frames_witness:
  "\<exists>b'. putbuf_chunk (\<lambda>s b. s) span0 False [0xa0, 0x7e, 0x7e] link_b = Some b' \<and> rx_frames b' = [[5]] \<and> rx_part b' = []"
proof -
  have g: "fcs_good (\<lambda>s b. s) link_b p" for p by (simp add: fcs_good_def link_b_ok)
  have d: "deframe (fcs_good (\<lambda>s b. s) link_b) (rx_part link_b) (fst (rx_stream (rxhdlc link_b) [0xa0, 0x7e, 0x7e])) = ([[5]], [])"
    unfolding link_b_ok(2,6) link_b_events using g by simp
  have "fits (blocksize link_b) (rx_part link_b) (fst (rx_stream (rxhdlc link_b) [0xa0, 0x7e, 0x7e]))"
    unfolding link_b_ok(2,5,6) link_b_events by simp
  then obtain b' where "putbuf_chunk (\<lambda>s b. s) span0 False [0xa0, 0x7e, 0x7e] link_b = Some b'"
    "(rx_frames b', rx_part b') = (rx_frames link_b @ [[5]], [])"
    using reception_cuts_frames [of "\<lambda>s b. s" link_b "[0xa0, 0x7e, 0x7e]" span0 False, unfolded d] link_b_ok by auto
  then show ?thesis by (simp add: link_b_ok(3))
qed

end
