(* ===== verification/Law.thy ===== *)
theory Law
  imports Dahdi_Prelude
begin

unbundle bit_operations_syntax

text \<open>
  Mu-law and A-law of \<open>dahdi-base.c\<close>: the two compressions, the expansion tables of \<open>dahdi_conv_init\<close>, and the
  tables \<open>__dahdi_lin2mu\<close>, \<open>__dahdi_lin2a\<close> that \<open>DAHDI_LIN2X\<close> indexes with a sample without its two low bits. A
  \<open>short\<close> is an \<open>int\<close>, wrapped where it is stored.
\<close>

section \<open>Definitions\<close>

definition uchar :: "int \<Rightarrow> byte" where
  "uchar x = word_of_int x"

definition exp_lut :: "nat list" where
  "exp_lut = [0, 0, 1, 1] @ replicate 4 2 @ replicate 8 3 @ replicate 16 4 @ replicate 32 5 @ replicate 64 6 @ replicate 128 7"

abbreviation (input) BIAS :: int where "BIAS \<equiv> 0x84"
abbreviation (input) CLIP :: int where "CLIP \<equiv> 32635"
abbreviation (input) AMI_MASK :: int where "AMI_MASK \<equiv> 0x55"

definition lineartoulaw :: "int \<Rightarrow> byte" where
  "lineartoulaw sample =
     (let sign = drop_bit 8 sample AND 0x80;
          sample = (if sign \<noteq> 0 then wrap_short (- sample) else sample);
          sample = (if sample > CLIP then CLIP else sample);
          sample = wrap_short (sample + BIAS);
          exponent = exp_lut ! nat (drop_bit 7 sample AND 0xff);
          mantissa = drop_bit (exponent + 3) sample AND 0x0f;
          ulawbyte = uchar (NOT (sign OR push_bit 4 (int exponent) OR mantissa));
          ulawbyte = (if ulawbyte = 0 then 2 else ulawbyte)
      in if ulawbyte = 0xff then 0x7f else ulawbyte)"

definition seg_end :: "int list" where
  "seg_end = [0xff, 0x1ff, 0x3ff, 0x7ff, 0xfff, 0x1fff, 0x3fff, 0x7fff]"

definition lineartoalaw :: "int \<Rightarrow> byte" where
  "lineartoalaw linear =
     (let (mask, pcm_val) = (if linear \<ge> 0 then (AMI_MASK OR 0x80, linear) else (AMI_MASK, - linear));
          seg = length (takeWhile (\<lambda>e. pcm_val > e) seg_end)
      in uchar ((push_bit 4 (int seg) OR (drop_bit (if seg \<noteq> 0 then seg + 3 else 4) pcm_val AND 0x0f)) XOR mask))"

definition alaw2linear :: "byte \<Rightarrow> int" where
  "alaw2linear alaw =
     (let alaw = uint alaw XOR AMI_MASK;
          i = push_bit 4 (alaw AND 0x0f);
          seg = nat (drop_bit 4 (alaw AND 0x70));
          i = (if seg \<noteq> 0 then push_bit (seg - 1) (i + 0x100) else i)
      in wrap_short (if alaw AND 0x80 \<noteq> 0 then i else - i))"

definition etab :: "int list" where
  "etab = [0, 132, 396, 924, 1980, 4092, 8316, 16764]"

definition mulaw_entry :: "byte \<Rightarrow> int" where
  "mulaw_entry c =
     (let mu = 255 - uint c;
          e = (mu AND 0x70) div 16;
          f = mu AND 0x0f;
          y = wrap_short (f * push_bit (nat (e + 3)) 1);
          y = wrap_short (y + etab ! nat e)
      in if mu AND 0x80 \<noteq> 0 then wrap_short (- y) else y)"

text \<open>\<open>DAHDI_LIN2MU\<close> and \<open>DAHDI_LIN2A\<close>: the entry of a sample is that of the multiple of 4 below it.\<close>

definition lin2_sample :: "int \<Rightarrow> int" where
  "lin2_sample a = wrap_short (4 * (a mod 65536 div 4))"

definition dahdi_lin2mu :: "int \<Rightarrow> byte" where
  "dahdi_lin2mu a = lineartoulaw (lin2_sample a)"

definition dahdi_lin2a :: "int \<Rightarrow> byte" where
  "dahdi_lin2a a = lineartoalaw (lin2_sample a)"

section \<open>The masks as arithmetic\<close>

lemma and_15: "(x :: int) AND 15 = x mod 16"
  using take_bit_eq_mask [of 4 x] by (simp add: take_bit_eq_mod mask_eq_exp_minus_1)

lemma and_255: "(x :: int) AND 255 = x mod 256"
  using take_bit_eq_mask [of 8 x] by (simp add: take_bit_eq_mod mask_eq_exp_minus_1)

lemma and_7: "(x :: int) AND 7 = x mod 8"
  using take_bit_eq_mask [of 3 x] by (simp add: take_bit_eq_mod mask_eq_exp_minus_1)

lemma and_exp: "(x :: int) AND 2 ^ k = (if bit x k then 2 ^ k else 0)"
  by (rule bit_eqI) (auto simp only: bit_and_iff bit_exp_iff bit_0_eq bot_apply bot_bool_def split: if_splits)

lemma and_128: "(x :: int) AND 128 = (if x div 128 mod 2 = 1 then 128 else 0)"
  using and_exp [of x 7] by (simp add: bit_iff_odd odd_iff_mod_2_eq_one)

lemma and_112: "((x :: int) AND 112) div 16 = x div 16 mod 8"
proof -
  have "drop_bit 4 (x AND 112) = drop_bit 4 x AND drop_bit 4 112"
    by (rule drop_bit_and)
  moreover have "drop_bit 4 (112 :: int) = 7" by (simp add: drop_bit_eq_div)
  ultimately show ?thesis by (simp add: drop_bit_eq_div and_7)
qed

lemma or_disjoint: "0 \<le> (m :: int) \<Longrightarrow> m < 16 \<Longrightarrow> push_bit 4 e OR m = 16 * e + m"
  using concat_bit_eq [of 4 m e] concat_bit_def [of 4 m e]
  by (simp add: push_bit_eq_mult or.commute take_bit_int_eq_self)

lemma sign_or: "0 \<le> (x :: int) \<Longrightarrow> x < 128 \<Longrightarrow> 128 OR x = 128 + x"
  using concat_bit_eq [of 7 x 1] concat_bit_def [of 7 x 1]
  by (simp add: push_bit_eq_mult or.commute take_bit_int_eq_self)

lemma segment_cases:
  assumes "e < (8 :: nat)"
  obtains "e = 0" | "e = 1" | "e = 2" | "e = 3" | "e = 4" | "e = 5" | "e = 6" | "e = 7"
  using assms by force

lemma exp_lut_nth:
  assumes "e < 8" and "2 ^ e \<le> n" and "n < 2 ^ Suc e"
  shows "exp_lut ! n = e"
proof (cases "n < 4")
  case True
  then have "n = 0 \<or> n = 1 \<or> n = 2 \<or> n = 3" by linarith
  then show ?thesis
    using assms by (auto simp: exp_lut_def elim!: segment_cases)
next
  case False
  define T where "T = replicate 4 2 @ replicate 8 3 @ replicate 16 4 @ replicate 32 5 @ replicate 64 6 @ replicate 128 (7 :: nat)"
  have "exp_lut = [0, 0, 1, 1] @ T" by (simp add: exp_lut_def T_def)
  then have "exp_lut ! n = T ! (n - 4)"
    using False nth_append [of "[0, 0, 1, 1]" T n] by (simp add: numeral_eq_Suc)
  also have "\<dots> = e"
    using assms False by (cases rule: segment_cases) (simp_all add: T_def nth_append less_diff_conv2)
  finally show ?thesis .
qed

lemma segment:
  assumes "128 \<le> v" and "v < (32768 :: int)"
  obtains e where "e < 8" and "2 ^ e * 128 \<le> v" and "v < 2 ^ e * 256"
proof -
  have "(v < 256) \<or> (256 \<le> v \<and> v < 512) \<or> (512 \<le> v \<and> v < 1024) \<or> (1024 \<le> v \<and> v < 2048) \<or>
      (2048 \<le> v \<and> v < 4096) \<or> (4096 \<le> v \<and> v < 8192) \<or> (8192 \<le> v \<and> v < 16384) \<or> 16384 \<le> v"
    by linarith
  then show ?thesis
    using assms that [of 0] that [of 1] that [of 2] that [of 3] that [of 4] that [of 5] that [of 6] that [of 7]
    by force
qed

section \<open>The two compressions, segment by segment\<close>

lemma uint_uchar: "0 \<le> x \<Longrightarrow> x < 256 \<Longrightarrow> uint (uchar x) = x"
  by (simp add: uchar_def uint_word_of_int_eq take_bit_int_eq_self)

lemma uchar_eq_iff: "uchar x = uchar y \<longleftrightarrow> x mod 256 = y mod 256"
  by (simp add: uchar_def word_of_int_eq_iff take_bit_eq_mod)

lemma uchar_consts: "0 \<le> x \<Longrightarrow> x < 256 \<Longrightarrow> uchar x = 0 \<longleftrightarrow> x = 0"
  "0 \<le> x \<Longrightarrow> x < 256 \<Longrightarrow> uchar x = 255 \<longleftrightarrow> x = 255"
  by (simp_all add: word_uint_eq_iff uint_uchar)

lemma code_fields:
  assumes "0 \<le> k" and "k < 8" and "0 \<le> m" and "m < (16 :: int)"
  shows "(16 * k + m) div 16 mod 8 = k" and "(128 + 16 * k + m) div 16 mod 8 = k"
    and "(16 * k + m) mod 16 = m" and "(128 + 16 * k + m) mod 16 = m"
    and "(16 * k + m) div 128 mod 2 = 0" and "(128 + 16 * k + m) div 128 mod 2 = 1"
proof -
  have d: "(16 * k + m) div 16 = k" "(128 + 16 * k + m) div 16 = k + 8"
    "(16 * k + m) div 128 = 0" "(128 + 16 * k + m) div 128 = 1"
    using assms by linarith+
  show "(16 * k + m) div 16 mod 8 = k" and "(128 + 16 * k + m) div 16 mod 8 = k"
    and "(16 * k + m) div 128 mod 2 = 0" and "(128 + 16 * k + m) div 128 mod 2 = 1"
    unfolding d using assms by simp_all
  have m16: "(m + x * 16) mod 16 = m" for x using assms by simp
  show "(16 * k + m) mod 16 = m" and "(128 + 16 * k + m) mod 16 = m"
    using m16 [of k] m16 [of "k + 8"] by (simp_all add: algebra_simps)
qed

lemma mulaw_entry_code:
  assumes e: "e < 8" and m: "0 \<le> m" "m < 16"
  shows "mulaw_entry (uchar (255 - 16 * int e - m)) = m * (8 * 2 ^ e) + 132 * 2 ^ e - 132"
    and "mulaw_entry (uchar (127 - 16 * int e - m)) = - (m * (8 * 2 ^ e) + 132 * 2 ^ e - 132)"
proof -
  have E: "etab ! e = 132 * 2 ^ e - 132"
    using e by (cases rule: segment_cases) (simp_all add: etab_def)
  define y where "y = m * (8 * 2 ^ e)"
  have b: "0 \<le> y" "y < 32768" "0 \<le> y + (132 * 2 ^ e - 132)" "y + (132 * 2 ^ e - 132) < 32768"
    using e m by (cases rule: segment_cases; simp add: y_def)+
  have w: "wrap_short y = y" "wrap_short (y + (132 * 2 ^ e - 132)) = y + (132 * 2 ^ e - 132)"
    "wrap_short (- (y + (132 * 2 ^ e - 132))) = - (y + (132 * 2 ^ e - 132))"
    by (rule wrap_short_id; use b in linarith)+
  have p: "255 - uint (uchar (255 - 16 * int e - m)) = 16 * int e + m"
    "255 - uint (uchar (127 - 16 * int e - m)) = 128 + 16 * int e + m"
    using e m by (simp_all add: uint_uchar)
  have q: "(16 * int e + m) div 16 mod 8 = int e" "(128 + 16 * int e + m) div 16 mod 8 = int e"
    "(16 * int e + m) mod 16 = m" "(128 + 16 * int e + m) mod 16 = m"
    "(16 * int e + m) div 128 mod 2 = 0" "(128 + 16 * int e + m) div 128 mod 2 = 1"
    by (rule code_fields; use e m in simp)+
  have s: "nat (int e + 3) = e + 3" "m * push_bit (e + 3) 1 = y"
    by (simp_all add: y_def push_bit_eq_mult power_add)
  show "mulaw_entry (uchar (255 - 16 * int e - m)) = m * (8 * 2 ^ e) + 132 * 2 ^ e - 132"
    unfolding mulaw_entry_def Let_def p and_15 and_128 and_112 q s nat_int E w
    by (simp add: y_def)
  show "mulaw_entry (uchar (127 - 16 * int e - m)) = - (m * (8 * 2 ^ e) + 132 * 2 ^ e - 132)"
    unfolding mulaw_entry_def Let_def p and_15 and_128 and_112 q s nat_int E w
    by (simp add: y_def)
qed

lemma lineartoulaw_segment:
  assumes e: "e < 8" and v: "2 ^ e * 128 \<le> v" "v < 2 ^ e * 256"
  defines "m \<equiv> v div (8 * 2 ^ e) - 16"
  shows "\<lbrakk> 0 \<le> s; s \<le> 32767; v = min s 32635 + 132 \<rbrakk> \<Longrightarrow>
      lineartoulaw s = (if 16 * int e + m = 0 then 127 else uchar (255 - 16 * int e - m))"
    and "\<lbrakk> - 32767 \<le> s; s < 0; v = min (- s) 32635 + 132 \<rbrakk> \<Longrightarrow>
      lineartoulaw s = (if 16 * int e + m = 127 then 2 else uchar (127 - 16 * int e - m))"
proof -
  have m: "0 \<le> m" "m < 16"
    using e v by (cases rule: segment_cases; simp add: m_def)+
  have "v div 128 mod 256 = v div 128" "2 ^ e \<le> nat (v div 128)" "nat (v div 128) < 2 ^ Suc e"
    using e v by (cases rule: segment_cases; simp)+
  then have x: "exp_lut ! nat (v div 128 mod 256) = e"
    using exp_lut_nth [OF e] by simp
  have "(m + 16) mod 16 = m" using m by simp
  then have "v div (8 * 2 ^ e) mod 16 = m" by (simp add: m_def)
  moreover have "(2 :: int) ^ (e + 3) = 8 * 2 ^ e" by (simp add: power_add)
  ultimately have y: "v div 2 ^ (e + 3) mod 16 = m" by simp
  have o: "push_bit 4 (int e) OR m = 16 * int e + m"
    using m by (rule or_disjoint)
  have "128 OR (16 * int e + m) = 128 + (16 * int e + m)"
    using e m by (intro sign_or) simp_all
  then have o2: "128 OR push_bit 4 (int e) OR m = 128 + (16 * int e + m)"
    by (simp add: or.assoc o)
  have d: "drop_bit 7 v = v div 128" "drop_bit (e + 3) v = v div 2 ^ (e + 3)"
    by (simp_all add: drop_bit_eq_div)
  have h: "(128 :: int) \<noteq> 0" by simp
  have n: "uchar (NOT (16 * int e + m)) = uchar (255 - 16 * int e - m)"
    "uchar (NOT (128 + (16 * int e + m))) = uchar (127 - 16 * int e - m)"
    by (simp_all add: uchar_eq_iff not_int_def mod_eq_dvd_iff)
  have z: "(uchar (255 - 16 * int e - m) = 0) = False"
    "(uchar (255 - 16 * int e - m) = 255) = (16 * int e + m = 0)"
    "(uchar (127 - 16 * int e - m) = 0) = (16 * int e + m = 127)"
    "(uchar (127 - 16 * int e - m) = 255) = False"
    using e m by (auto simp: uchar_consts)
  show "lineartoulaw s = (if 16 * int e + m = 0 then 127 else uchar (255 - 16 * int e - m))"
    if s: "0 \<le> s" "s \<le> 32767" and vs: "v = min s 32635 + 132"
  proof -
    have c: "(if s > 32635 then 32635 else s) + 132 = v" using vs by simp
    have g: "drop_bit 8 s AND 128 = 0" using s by (simp add: and_128 drop_bit_eq_div)
    have w: "wrap_short v = v" using s vs by (intro wrap_short_id) simp_all
    show ?thesis
      by (simp only: lineartoulaw_def Let_def g c w d and_255 and_15 x y o n z simp_thms if_False if_True or.left_neutral)
  qed
  show "lineartoulaw s = (if 16 * int e + m = 127 then 2 else uchar (127 - 16 * int e - m))"
    if s: "- 32767 \<le> s" "s < 0" and vs: "v = min (- s) 32635 + 132"
  proof -
    have c: "(if - s > 32635 then 32635 else - s) + 132 = v" using vs by simp
    have "s div 256 div 128 = - 1" using s by simp
    then have g: "drop_bit 8 s AND 128 = 128" by (simp add: and_128 drop_bit_eq_div)
    have w: "wrap_short v = v" "wrap_short (- s) = - s" using s vs by (simp_all add: wrap_short_id)
    show ?thesis
      by (simp only: lineartoulaw_def Let_def g c w d and_255 and_15 x y o2 n z h simp_thms if_False if_True)
        (use z in auto)
  qed
qed

section \<open>Mu-law: decoding what was compressed\<close>

lemma seg_div:
  assumes "0 < k" and "(q :: int) = v div k"
  shows "q * k \<le> v" and "v < q * k + k"
  using assms div_mult_mod_eq [of v k] pos_mod_bound [of k v] pos_mod_sign [of k v] by (simp, linarith)+

lemma mulaw_127: "mulaw_entry 127 = 0"
  using mulaw_entry_code(2) [of 0 0] by (simp add: uchar_def)

lemma mulaw_decode:
  assumes s: "- 31612 < s" "s \<le> 32767"
  shows "\<bar>mulaw_entry (lineartoulaw s) - s\<bar> \<le> (\<bar>s\<bar> + 132) div 32"
proof -
  define v where "v = min \<bar>s\<bar> 32635 + 132"
  have "128 \<le> v" "v < 32768" using s by (simp_all add: v_def)
  then obtain e where e: "e < 8" and v: "2 ^ e * 128 \<le> v" "v < 2 ^ e * 256"
    by (rule segment)
  define m where "m = v div (8 * 2 ^ e) - 16"
  have m: "0 \<le> m" "m < 16"
    using e v by (cases rule: segment_cases; simp add: m_def)+
  have "\<bar>(m * (8 * 2 ^ e) + 132 * 2 ^ e) - v\<bar> \<le> 4 * 2 ^ e"
    using seg_div [of "8 * 2 ^ e" "m + 16" v] by (simp add: m_def abs_le_iff algebra_simps)
  moreover have "4 * 2 ^ e \<le> v div 32"
    using e v by (cases rule: segment_cases; simp)
  ultimately have d: "\<bar>(m * (8 * 2 ^ e) + 132 * 2 ^ e) - v\<bar> \<le> v div 32" by linarith
  show ?thesis
  proof (cases "0 \<le> s")
    case True
    then have "lineartoulaw s = (if 16 * int e + m = 0 then 127 else uchar (255 - 16 * int e - m))"
      using lineartoulaw_segment(1) [OF e v] s v_def m_def by simp
    moreover have "16 * int e + m = 0 \<Longrightarrow> m * (8 * 2 ^ e) + 132 * 2 ^ e - 132 = 0"
      using e m by (cases rule: segment_cases; simp)
    ultimately have "mulaw_entry (lineartoulaw s) = m * (8 * 2 ^ e) + 132 * 2 ^ e - 132"
      using mulaw_entry_code(1) [OF e m] mulaw_127 by simp
    moreover have "\<bar>m * (8 * 2 ^ e) + 132 * 2 ^ e - 132 - s\<bar> \<le> (s + 132) div 32"
    proof (cases "s \<le> 32635")
      case True
      then have "v = s + 132" using \<open>0 \<le> s\<close> by (simp add: v_def)
      then show ?thesis using d by simp
    next
      case False
      then have v: "v = 32767" using s by (simp add: v_def)
      then have "e = 7" using e \<open>2 ^ e * 128 \<le> v\<close> \<open>v < 2 ^ e * 256\<close>
        by (auto elim!: segment_cases)
      then show ?thesis using False s by (simp add: m_def v)
    qed
    ultimately show ?thesis using True by simp
  next
    case False
    then have vs: "v = 132 - s" using s by (simp add: v_def)
    have "16 * int e + m \<noteq> 127"
    proof
      assume "16 * int e + m = 127"
      with m have "m = 15" "int e = 7" by presburger+
      then have "31744 \<le> v" using seg_div(1) [of 1024 "m + 16" v] m_def by simp
      then show False using vs s by simp
    qed
    then have "lineartoulaw s = uchar (127 - 16 * int e - m)"
      using lineartoulaw_segment(2) [OF e v, of s] False s vs m_def by simp
    then have "mulaw_entry (lineartoulaw s) = - (m * (8 * 2 ^ e) + 132 * 2 ^ e - 132)"
      using mulaw_entry_code(2) [OF e m] by simp
    then show ?thesis using d False by (simp add: vs) 
  qed
qed

lemma byte_code:
  obtains e m where "e < 8" "0 \<le> m" "m < 16" "c = uchar (255 - 16 * int e - m)"
  | e m where "e < 8" "0 \<le> m" "m < 16" "c = uchar (127 - 16 * int e - m)"
proof -
  define x where "x = 255 - uint c"
  have "0 \<le> uint c" "uint c < 256" using uint_range_size [of c] by (simp_all add: size_word.rep_eq)
  then have x: "0 \<le> x" "x < 256" unfolding x_def by linarith+
  have c: "c = uchar (255 - x)" by (simp add: x_def uchar_def)
  define k where "k = x mod 128 div 16"
  have k: "0 \<le> k" "k < 8" "x mod 128 = 16 * k + x mod 16"
  proof -
    have "0 \<le> x mod 128" "x mod 128 < 128" by simp_all
    moreover have "x mod 128 mod 16 = x mod 16" by (simp add: mod_mod_cancel)
    ultimately show "0 \<le> k" "k < 8" "x mod 128 = 16 * k + x mod 16"
      using div_mult_mod_eq [of "x mod 128" 16] unfolding k_def by linarith+
  qed
  have "x = x mod 128 \<or> x = 128 + x mod 128" using x by presburger
  then have "255 - x = 255 - 16 * int (nat k) - x mod 16 \<or> 255 - x = 127 - 16 * int (nat k) - x mod 16"
    using k by linarith
  moreover have "nat k < 8" "0 \<le> x mod 16" "x mod 16 < 16" using k by simp_all
  ultimately show ?thesis
    using that unfolding c by metis
qed

lemma lin2_sample_id: "- 32768 \<le> a \<Longrightarrow> a < 32768 \<Longrightarrow> 4 dvd a \<Longrightarrow> lin2_sample a = a"
proof -
  assume a: "- 32768 \<le> a" "a < 32768" "4 dvd a"
  then obtain b where b: "a = 4 * b" by (auto elim: dvdE)
  have "4 * (a mod 65536 div 4) = a mod 65536"
    using mod_mult_mult1 [of 4 b 16384] by (simp add: b)
  moreover have "wrap_short (a mod 65536) = a"
  proof -
    have "signed_take_bit 15 (a mod 65536) = signed_take_bit 15 a"
      by (simp add: signed_take_bit_eq_iff_take_bit_eq take_bit_eq_mod)
    then show ?thesis using a wrap_short_id [of a] by (simp add: wrap_short_def)
  qed
  ultimately show "lin2_sample a = a" by (simp add: lin2_sample_def)
qed

lemma mulaw_roundtrip:
  "dahdi_lin2mu (mulaw_entry c) = (if c = 0xff then 0x7f else if c = 0 then 2 else c)"
proof (cases rule: byte_code [of c])
  case (1 e m)
  define y where "y = m * (8 * 2 ^ e) + 132 * 2 ^ e - 132"
  have y: "0 \<le> y" "y \<le> 32635" "4 dvd y" "(y + 132) div (8 * 2 ^ e) - 16 = m"
    "2 ^ e * 128 \<le> y + 132" "y + 132 < 2 ^ e * 256"
    using 1(1-3) by (cases rule: segment_cases; simp add: y_def; presburger)+
  have v: "mulaw_entry c = y"
    using mulaw_entry_code(1) [OF 1(1-3)] by (simp add: 1(4) y_def)
  have "lineartoulaw y = (if 16 * int e + m = 0 then 127 else c)"
    using lineartoulaw_segment(1) [OF 1(1) y(5,6), of y] y by (simp add: 1(4))
  moreover have "(c = 255) = (16 * int e + m = 0)" "c \<noteq> 0"
    using 1(1-3) by (auto simp: 1(4) uchar_consts)
  ultimately show ?thesis
    using y by (simp add: dahdi_lin2mu_def v lin2_sample_id)
next
  case (2 e m)
  define y where "y = m * (8 * 2 ^ e) + 132 * 2 ^ e - 132"
  have y: "0 \<le> y" "y \<le> 32635" "4 dvd y" "(y + 132) div (8 * 2 ^ e) - 16 = m"
    "2 ^ e * 128 \<le> y + 132" "y + 132 < 2 ^ e * 256"
    using 2(1-3) by (cases rule: segment_cases; simp add: y_def; presburger)+
  have v: "mulaw_entry c = - y"
    using mulaw_entry_code(2) [OF 2(1-3)] by (simp add: 2(4) y_def)
  have c: "(c = 0) = (16 * int e + m = 127)" "c \<noteq> 255"
    using 2(1-3) by (auto simp: 2(4) uchar_consts)
  have "lineartoulaw (- y) = (if c = 0 then 2 else c)"
  proof (cases "y = 0")
    case True
    then have "m = 0 \<and> e = 0" using 2(1-3) by (auto elim!: segment_cases simp: y_def)
    then have "m = 0" "e = 0" by simp_all
    then show ?thesis
      using lineartoulaw_segment(1) [OF 2(1) y(5,6), of 0] y c True by (simp add: 2(4) uchar_def)
  next
    case False
    then show ?thesis
      using lineartoulaw_segment(2) [OF 2(1) y(5,6), of "- y"] y c by (simp add: 2(4))
  qed
  then show ?thesis
    using y c by (simp add: dahdi_lin2mu_def v lin2_sample_id)
qed

section \<open>A-law\<close>

lemma alaw_segment:
  assumes e: "e < 8" and p: "2 ^ e * 128 \<le> p \<or> e = 0 \<and> 0 \<le> p" "p < 2 ^ e * 256"
  shows "length (takeWhile (\<lambda>x. p > x) seg_end) = e"
  using e p by (cases rule: segment_cases) (auto simp: seg_end_def)

lemma alaw_segment_ex:
  assumes "0 \<le> p" and "p < (32768 :: int)"
  obtains e where "e < 8" and "2 ^ e * 128 \<le> p \<or> e = 0 \<and> 0 \<le> p" and "p < 2 ^ e * 256"
  using assms segment [of p] by (cases "p < 128") force+

definition alaw_mant :: "nat \<Rightarrow> int \<Rightarrow> int" where
  "alaw_mant e p = (if e = 0 then p div 16 else p div (8 * 2 ^ e) - 16)"

definition alaw_value :: "nat \<Rightarrow> int \<Rightarrow> int" where
  "alaw_value e m = (if e = 0 then 16 * m else (16 * m + 256) * 2 ^ (e - 1))"

lemma xor_128: "0 \<le> t \<Longrightarrow> t < 128 \<Longrightarrow> (t :: int) XOR 128 = t + 128"
proof -
  assume t: "0 \<le> t" "t < 128"
  then have "t AND 128 = 0" by (simp add: and_128)
  then show ?thesis by (simp add: disjunctive_add_eq_xor)
qed

lemma alaw_byte:
  assumes t: "0 \<le> t" "t < 128"
  shows "uint (uchar (t XOR 213)) XOR 85 = t + 128" and "uint (uchar (t XOR 85)) XOR 85 = t"
    and "uint (uchar ((t + 128) XOR 85)) XOR 85 = t + 128"
proof -
  have u: "uint (uchar (x XOR y)) XOR 85 = x XOR (y XOR 85)" if "0 \<le> x" "x < 256" "0 \<le> y" "y < 256" for x y
    using that by (simp add: uchar_def uint_word_of_int_eq take_bit_xor take_bit_int_eq_self xor.assoc)
  show "uint (uchar (t XOR 213)) XOR 85 = t + 128" "uint (uchar (t XOR 85)) XOR 85 = t"
    "uint (uchar ((t + 128) XOR 85)) XOR 85 = t + 128"
    using t by (simp_all add: u xor_128)
qed

lemma alaw2linear_code:
  assumes e: "e < 8" and m: "0 \<le> m" "m < 16"
  shows "alaw2linear (uchar ((16 * int e + m) XOR 213)) = alaw_value e m"
    and "alaw2linear (uchar ((16 * int e + m) XOR 85)) = - alaw_value e m"
proof -
  have t: "0 \<le> 16 * int e + m" "16 * int e + m < 128" using e m by simp_all
  have b: "0 \<le> alaw_value e m" "alaw_value e m < 32768"
    using e m by (cases rule: segment_cases; simp add: alaw_value_def)+
  have w: "wrap_short (alaw_value e m) = alaw_value e m" "wrap_short (- alaw_value e m) = - alaw_value e m"
    by (rule wrap_short_id; use b in linarith)+
  have c: "16 * int e + m + 128 = 128 + 16 * int e + m" by simp
  have f: "drop_bit 4 (x AND 112) = x div 16 mod 8" for x :: int
    using and_112 [of x] by (simp add: drop_bit_eq_div)
  have cf: "(16 * int e + m) div 16 mod 8 = int e" "(128 + 16 * int e + m) div 16 mod 8 = int e"
    "(16 * int e + m) mod 16 = m" "(128 + 16 * int e + m) mod 16 = m"
    "(16 * int e + m) div 128 mod 2 = 0" "(128 + 16 * int e + m) div 128 mod 2 = 1"
    by (rule code_fields; use e m in simp)+
  have q: "(16 * int e + m) AND 15 = m" "(16 * int e + m + 128) AND 15 = m"
    "drop_bit 4 ((16 * int e + m) AND 112) = int e" "drop_bit 4 ((16 * int e + m + 128) AND 112) = int e"
    "(16 * int e + m) AND 128 = 0" "(16 * int e + m + 128) AND 128 = 128"
    by (simp_all only: and_15 f and_128 c cf) simp_all
  have i: "(if nat (int e) \<noteq> 0 then push_bit (nat (int e) - 1) (push_bit 4 m + 256) else push_bit 4 m) = alaw_value e m"
    by (simp add: alaw_value_def push_bit_eq_mult mult.commute)
  show "alaw2linear (uchar ((16 * int e + m) XOR 213)) = alaw_value e m"
    "alaw2linear (uchar ((16 * int e + m) XOR 85)) = - alaw_value e m"
    by (simp_all only: alaw2linear_def Let_def alaw_byte [OF t] q i) (simp_all add: w)
qed

lemma lineartoalaw_segment:
  assumes e: "e < 8" and p: "2 ^ e * 128 \<le> p \<or> e = 0 \<and> 0 \<le> p" "p < 2 ^ e * 256"
  shows "lineartoalaw p = uchar ((16 * int e + alaw_mant e p) XOR 213)"
    and "0 < p \<Longrightarrow> lineartoalaw (- p) = uchar ((16 * int e + alaw_mant e p) XOR 85)"
    and "0 \<le> alaw_mant e p" and "alaw_mant e p < 16"
proof -
  show m: "0 \<le> alaw_mant e p" "alaw_mant e p < 16"
    using e p by (cases rule: segment_cases; auto simp: alaw_mant_def)+
  have "(x + 16) mod 16 = x" if "0 \<le> x" "x < 16" for x :: int using that by simp
  note r = this [OF m, unfolded alaw_mant_def]
  have "(8 :: int) * 2 ^ e = 2 ^ (e + 3)" by (simp add: power_add)
  with r have "drop_bit (if int e \<noteq> 0 then e + 3 else 4) p AND 15 = alaw_mant e p"
    using m by (cases "e = 0") (simp_all add: and_15 drop_bit_eq_div alaw_mant_def)
  then have "push_bit 4 (int e) OR drop_bit (if e \<noteq> 0 then e + 3 else 4) p AND 15 = 16 * int e + alaw_mant e p"
    using or_disjoint [OF m] by simp
  note o = this
  have np: "0 \<le> p" using p by (auto intro: order_trans [rotated])
  show "lineartoalaw p = uchar ((16 * int e + alaw_mant e p) XOR 213)"
    using np o by (cases "e = 0") (simp_all add: lineartoalaw_def alaw_segment [OF assms] del: length_0_conv length_greater_0_conv)
  show "lineartoalaw (- p) = uchar ((16 * int e + alaw_mant e p) XOR 85)" if "0 < p"
    using that o by (cases "e = 0") (simp_all add: lineartoalaw_def alaw_segment [OF assms] del: length_0_conv length_greater_0_conv)
qed

lemma alaw_decode:
  assumes "- 32768 < s" "s < 32768"
  shows "\<bar>alaw2linear (lineartoalaw s) - s\<bar> \<le> \<bar>s\<bar> div 16 + 15"
proof -
  have "0 \<le> \<bar>s\<bar>" "\<bar>s\<bar> < 32768" using assms by simp_all
  then obtain e where e: "e < 8" and p: "2 ^ e * 128 \<le> \<bar>s\<bar> \<or> e = 0 \<and> 0 \<le> \<bar>s\<bar>" "\<bar>s\<bar> < 2 ^ e * 256"
    by (rule alaw_segment_ex)
  note seg = lineartoalaw_segment [OF e p]
  have "\<bar>alaw_value e (alaw_mant e \<bar>s\<bar>) - \<bar>s\<bar>\<bar> \<le> \<bar>s\<bar> div 16 + 15"
  proof (cases "e = 0")
    case True
    moreover have "\<bar>16 * (\<bar>s\<bar> div 16) - \<bar>s\<bar>\<bar> \<le> \<bar>s\<bar> div 16 + 15"
      using seg_div [of 16 _ "\<bar>s\<bar>", OF _ refl] by (intro abs_leI) linarith+
    ultimately show ?thesis by (simp only: alaw_value_def alaw_mant_def simp_thms if_True)
  next
    case False
    then obtain f where f: "e = Suc f" by (cases e) simp_all
    have "\<bar>\<bar>s\<bar> div (8 * 2 ^ e) * (8 * 2 ^ e) - \<bar>s\<bar>\<bar> \<le> 8 * 2 ^ e"
      using seg_div [of "8 * 2 ^ e" _ "\<bar>s\<bar>", OF _ refl] by (simp add: abs_le_iff)
    moreover have "8 * 2 ^ e \<le> \<bar>s\<bar> div 16"
      using e p False by (cases rule: segment_cases; simp)
    ultimately show ?thesis
      by (simp add: alaw_value_def alaw_mant_def f algebra_simps)
  qed
  then show ?thesis
    using seg alaw2linear_code [OF e seg(3,4)] by (cases "0 \<le> s") simp_all
qed

lemma alaw_byte_code:
  obtains e m where "e < 8" "0 \<le> m" "m < 16" "c = uchar ((16 * int e + m) XOR 213)"
  | e m where "e < 8" "0 \<le> m" "m < 16" "c = uchar ((16 * int e + m) XOR 85)"
proof -
  define x where "x = uint c XOR 85"
  have "0 \<le> uint c" "uint c < 256" using uint_range_size [of c] by (simp_all add: size_word.rep_eq)
  moreover have "take_bit 8 (uint c XOR 85) = uint c XOR 85"
    using calculation by (simp add: take_bit_xor take_bit_int_eq_self)
  then have x: "0 \<le> x" "x < 256"
    using take_bit_int_less_exp [of 8 x] take_bit_nonnegative [of 8 x] by (simp_all add: x_def)
  have c: "c = uchar (x XOR 85)" by (simp add: x_def uchar_def xor.assoc)
  define t where "t = x mod 128"
  have t: "t div 16 < 8" "0 \<le> t div 16" "t = 16 * (t div 16) + t mod 16" "0 \<le> t" "t < 128"
    by (simp_all add: t_def)
  show ?thesis
  proof (cases "x < 128")
    case True
    then have "t = x" using x by (simp add: t_def)
    then show ?thesis using that(2) [of "nat (t div 16)" "t mod 16"] t c by simp
  next
    case False
    then have "x = t + 128" using x unfolding t_def by presburger
    then have "x = t XOR 128" using xor_128 t by simp
    then have "c = uchar (t XOR 213)" by (simp add: c xor.assoc)
    then show ?thesis using that(1) [of "nat (t div 16)" "t mod 16"] t by simp
  qed
qed

lemma alaw_value_inverse:
  assumes e: "e < 8" and m: "0 \<le> m" "m < 16"
  shows "4 dvd alaw_value e m" "0 \<le> alaw_value e m" "alaw_value e m < 32768"
    and "2 ^ e * 128 \<le> alaw_value e m \<or> e = 0 \<and> 0 \<le> alaw_value e m" "alaw_value e m < 2 ^ e * 256"
    and "alaw_mant e (alaw_value e m) = m"
    and "alaw_value e m = 0 \<longleftrightarrow> 16 * int e + m = 0"
  using e m by (cases rule: segment_cases; simp add: alaw_value_def alaw_mant_def; presburger)+

lemma alaw_roundtrip: "dahdi_lin2a (alaw2linear c) = (if c = 0x55 then 0xd5 else c)"
proof (cases rule: alaw_byte_code [of c])
  case (1 e m)
  note v = alaw_value_inverse [OF 1(1-3)]
  have "c \<noteq> 85"
  proof
    assume "c = 85"
    then have "85 XOR 85 = 16 * int e + m + 128"
      using alaw_byte(1) [of "16 * int e + m"] 1 by simp
    then show False using 1 by simp
  qed
  then show ?thesis
    using lineartoalaw_segment(1) [OF 1(1) v(4,5)] v alaw2linear_code(1) [OF 1(1-3)]
    by (simp add: dahdi_lin2a_def lin2_sample_id 1(4))
next
  case (2 e m)
  note v = alaw_value_inverse [OF 2(1-3)]
  have a: "alaw2linear c = - alaw_value e m"
    using alaw2linear_code(2) [OF 2(1-3)] 2(4) by simp
  have c: "(c = 85) = (16 * int e + m = 0)"
  proof
    assume "c = 85"
    then show "16 * int e + m = 0"
      using alaw_byte(2) [of "16 * int e + m"] 2 by simp
  qed (simp add: 2(4) uchar_def)
  have "lineartoalaw (- alaw_value e m) = (if c = 85 then 0xd5 else c)"
  proof (cases "alaw_value e m = 0")
    case True
    then show ?thesis
      using lineartoalaw_segment(1) [OF 2(1) v(4,5)] v c by (simp add: uchar_def)
  next
    case False
    then show ?thesis
      using lineartoalaw_segment(2) [OF 2(1) v(4,5)] v c 2(4) by simp
  qed
  then show ?thesis using v by (simp add: dahdi_lin2a_def a lin2_sample_id)
qed

lemma lin2_sample_near:
  assumes "- 32768 \<le> a" "a < 32768"
  shows "lin2_sample a = a - a mod 4"
proof -
  have "a mod 65536 mod 4 = a mod 4" by (simp add: mod_mod_cancel)
  then have "4 * (a mod 65536 div 4) = a mod 65536 - a mod 4"
    using minus_mod_eq_mult_div [of "a mod 65536" 4] by simp
  moreover have "wrap_short (a mod 65536 - a mod 4) = wrap_short (a - a mod 4)"
    by (simp add: wrap_short_def signed_take_bit_eq_iff_take_bit_eq take_bit_eq_mod mod_diff_left_eq)
  moreover have "- 32768 \<le> a - a mod 4" "a - a mod 4 < 32768" using assms by presburger+
  ultimately show ?thesis by (simp add: lin2_sample_def wrap_short_id)
qed

section \<open>Properties\<close>

text \<open>C36. A code received from the line, expanded and compressed again, is the code that was received: mu-law except
  for its negative zero (\<open>0xff\<close>, which the compression never emits) and \<open>0\<close> (the zero trap of MIL-STD-188-113), A-law
  except for its negative zero. So a stream that passes through linear samples unchanged leaves the driver as it came.\<close>

theorem companding_codes_survive:
  "dahdi_lin2mu (mulaw_entry c) = (if c = 0xff then 0x7f else if c = 0 then 2 else c)
   \<and> dahdi_lin2a (alaw2linear c) = (if c = 0x55 then 0xd5 else c)"
  by (rule conjI [OF mulaw_roundtrip alaw_roundtrip])

lemma near_trans: "\<bar>x - s\<bar> \<le> d + k \<Longrightarrow> \<bar>s - a\<bar> \<le> 3 \<Longrightarrow> d \<le> D \<Longrightarrow> \<bar>x - (a :: int)\<bar> \<le> D + (k + 3)"
  by linarith

text \<open>C37. The quantisation error of both laws is bounded by the step of the segment: what a listener hears of a sample
  \<open>a\<close> differs from it by at most \<open>(|a| + 135) / 32 + 3\<close> in mu-law (outside the loudest negative step, which the zero
  trap gives to its neighbour) and \<open>(|a| + 3) / 16 + 18\<close> in A-law.\<close>

theorem companding_error:
  assumes "- 32764 \<le> a" and "a < 32768"
  shows "\<bar>alaw2linear (dahdi_lin2a a) - a\<bar> \<le> (\<bar>a\<bar> + 3) div 16 + 18
    \<and> (- 31608 \<le> a \<longrightarrow> \<bar>mulaw_entry (dahdi_lin2mu a) - a\<bar> \<le> (\<bar>a\<bar> + 135) div 32 + 3)"
proof -
  define s where "s = a - a mod 4"
  have l: "lin2_sample a = s" using assms by (simp add: s_def lin2_sample_near)
  have s: "a - 3 \<le> s" "s \<le> a" "- 32764 \<le> s" "- 31608 \<le> a \<Longrightarrow> - 31608 \<le> s"
    unfolding s_def using assms by presburger+
  have b: "\<bar>s - a\<bar> \<le> 3" "\<bar>s\<bar> \<le> \<bar>a\<bar> + 3" using s by linarith+
  have "\<bar>alaw2linear (lineartoalaw s) - s\<bar> \<le> \<bar>s\<bar> div 16 + 15"
    using s assms by (intro alaw_decode) linarith+
  then have "\<bar>alaw2linear (lineartoalaw s) - a\<bar> \<le> (\<bar>a\<bar> + 3) div 16 + (15 + 3)"
    by (rule near_trans [OF _ b(1)]) (use b in \<open>intro zdiv_mono1; simp\<close>)
  then have A: "\<bar>alaw2linear (dahdi_lin2a a) - a\<bar> \<le> (\<bar>a\<bar> + 3) div 16 + 18"
    by (simp add: dahdi_lin2a_def l)
  have M: "\<bar>mulaw_entry (dahdi_lin2mu a) - a\<bar> \<le> (\<bar>a\<bar> + 135) div 32 + 3" if "- 31608 \<le> a"
  proof -
    have "\<bar>mulaw_entry (lineartoulaw s) - s\<bar> \<le> (\<bar>s\<bar> + 132) div 32 + 0"
      using s assms that mulaw_decode [of s] by simp
    then have "\<bar>mulaw_entry (lineartoulaw s) - a\<bar> \<le> (\<bar>a\<bar> + 135) div 32 + (0 + 3)"
      by (rule near_trans [OF _ b(1)]) (use b in \<open>intro zdiv_mono1; simp\<close>)
    then show ?thesis by (simp add: dahdi_lin2mu_def l)
  qed
  from A M show ?thesis by blast
qed

theorem companding_error_witness:
  "\<bar>alaw2linear (dahdi_lin2a 1000) - 1000\<bar> \<le> 80 \<and> \<bar>mulaw_entry (dahdi_lin2mu 1000) - 1000\<bar> \<le> 38"
  using companding_error [of 1000] by simp

text \<open>The loudest negative sample there is turns into silence in both laws: the negation of \<open>-32768\<close> does not fit
  the \<open>short\<close> of the mu-law compression, and has no segment in A-law's table. The entry also serves the three samples
  above it.\<close>

theorem loudest_sample_silenced:
  assumes "- 32768 \<le> a" and "a \<le> - 32765"
  shows "mulaw_entry (dahdi_lin2mu a) = 0 \<and> alaw2linear (dahdi_lin2a a) = 0"
proof -
  have "a - a mod 4 = - 32768" using assms by presburger
  then have l: "lin2_sample a = - 32768" using assms by (simp add: lin2_sample_near)
  have "exp_lut ! Suc 0 = 0" using exp_lut_nth [of 0 1] by simp
  moreover have "wrap_short 32768 = - 32768" "drop_bit 8 (- 32768 :: int) AND 128 = 128"
      "wrap_short (- 32768 + 132) = - 32636" "drop_bit 7 (- 32636 :: int) AND 255 = 1" "drop_bit 3 (- 32636 :: int) AND 15 = 0"
    by (simp_all add: wrap_short_def drop_bit_eq_div)
  ultimately have "lineartoulaw (- 32768) = 0x7f"
    by (simp add: lineartoulaw_def uchar_def)
  moreover have "length (takeWhile (\<lambda>e. e < 32768) seg_end) = 8"
    by (simp add: seg_end_def)
  then have "lineartoalaw (- 32768) = uchar (128 XOR 85)"
    by (simp add: lineartoalaw_def Let_def drop_bit_eq_div push_bit_eq_mult and_15 del: length_0_conv length_greater_0_conv)
  then have "lineartoalaw (- 32768) = 0xd5"
    by (simp add: uchar_def)
  moreover have "alaw2linear 0xd5 = 0"
    by (simp add: alaw2linear_def wrap_short_def drop_bit_eq_div push_bit_eq_mult)
  ultimately show ?thesis by (simp add: dahdi_lin2mu_def dahdi_lin2a_def l mulaw_127)
qed

theorem loudest_sample_silenced_witness: "mulaw_entry (dahdi_lin2mu (- 32766)) = 0"
  using loudest_sample_silenced [of "- 32766"] by simp

end
