(* ===== verification/Echocan.thy ===== *)
theory Echocan
  imports Chan
begin

text \<open>
  Echo cancellation as the core of \<open>dahdi-base.c\<close> drives it: the detector of the tone that switches a fax or a modem on
  (\<open>ecdis.h\<close>, \<open>biquad.h\<close>), the mode of an instance with its training, the registry of echo canceller modules and
  the references the core holds on them, balanced along every run of safe steps. The cancellers themselves are modules the core calls through function pointers:
  their operations are the fields of \<open>ec_ops\<close>, what the modules' creation returns is a field of \<open>ec_env\<close>. A NULL
  operation is \<open>None\<close>.
\<close>

section \<open>The detector\<close>

definition biquad2_init :: "int \<Rightarrow> int \<Rightarrow> int \<Rightarrow> int \<Rightarrow> int \<Rightarrow> biquad2_state" where
  "biquad2_init gain a1 a2 b1 b2 =
     \<lparr>bq_gain = gain, bq_a1 = a1, bq_a2 = a2, bq_b1 = b1, bq_b2 = b2, bq_z1 = 0, bq_z2 = 0\<rparr>"

definition biquad2 :: "biquad2_state \<Rightarrow> int \<Rightarrow> int \<times> biquad2_state" where
  "biquad2 bq sample =
     (let z0 = wrap_int (sample * bq_gain bq + bq_z1 bq * bq_a1 bq + bq_z2 bq * bq_a2 bq);
          y = wrap_int (z0 + bq_z1 bq * bq_b1 bq + bq_z2 bq * bq_b2 bq)
      in (wrap_short (drop_bit 15 y), bq\<lparr>bq_z2 := bq_z1 bq, bq_z1 := drop_bit 15 z0\<rparr>))"

definition echo_can_disable_detector_init :: "echo_can_disable_detector_state \<Rightarrow> echo_can_disable_detector_state" where
  "echo_can_disable_detector_init det =
     det\<lparr>notch := biquad2_init (- 24903) (- 3879) (- 16724) 5136 32768, channel_level := 0, notch_level := 0,
         tone_present := False, tone_cycle_duration := 0, good_cycles := 0, hit := False\<rparr>"

definition echo_can_disable_detector_update ::
    "echo_can_disable_detector_state \<Rightarrow> int \<Rightarrow> bool \<times> echo_can_disable_detector_state" where
  "echo_can_disable_detector_update det amp =
     (let (notched, bq) = biquad2 (notch det) amp;
          det = det\<lparr>notch := bq,
            channel_level := channel_level det + drop_bit 5 (\<bar>amp\<bar> - channel_level det),
            notch_level := notch_level det + drop_bit 4 (\<bar>notched\<bar> - notch_level det)\<rparr>;
          det =
            (if channel_level det \<ge> 70 then
               if notch_level det * 6 < channel_level det then
                 let det = det\<lparr>tone_cycle_duration := wrap_int (tone_cycle_duration det + 1)\<rparr>
                 in if \<not> tone_present det then
                      let det = (if tone_cycle_duration det \<ge> 425 * 8 \<and> tone_cycle_duration det \<le> 475 * 8 then
                                   let det = det\<lparr>good_cycles := wrap_int (good_cycles det + 1)\<rparr>
                                   in if good_cycles det > 2 then det\<lparr>hit := True\<rparr> else det
                                 else det)
                      in det\<lparr>tone_cycle_duration := 0, tone_present := True\<rparr>
                    else if tone_cycle_duration det \<ge> 600 * 8 then det\<lparr>hit := True\<rparr>
                    else det
               else det\<lparr>tone_present := False\<rparr>
             else det\<lparr>tone_present := False, tone_cycle_duration := 0, good_cycles := 0\<rparr>)
      in (hit det, det))"

section \<open>Modes\<close>

record ec_ops =
  op_process :: "(int list \<Rightarrow> int list \<Rightarrow> int list \<Rightarrow> int list \<times> int list \<times> echocan_events) option"
  op_events :: "(int list \<Rightarrow> int list \<times> echocan_events) option"
  op_traintap :: "(int list \<Rightarrow> u32 \<Rightarrow> int \<Rightarrow> int list \<times> bool) option"
  op_NLP_toggle :: "int list \<Rightarrow> bool \<Rightarrow> int list"

fun echo_mode_mute :: "echocan_mode \<Rightarrow> bool" where
  "echo_mode_mute ECHO_MODE_PRETRAINING = True"
| "echo_mode_mute ECHO_MODE_STARTTRAINING = True"
| "echo_mode_mute ECHO_MODE_AWAITINGECHO = True"
| "echo_mode_mute ECHO_MODE_TRAINING = True"
| "echo_mode_mute ECHO_MODE_IDLE = False"
| "echo_mode_mute ECHO_MODE_ACTIVE = False"
| "echo_mode_mute ECHO_MODE_FAX = False"

definition set_echocan_fax_mode :: "ec_ops \<Rightarrow> bool \<Rightarrow> dahdi_chan \<Rightarrow> dahdi_chan" where
  "set_echocan_fax_mode ops enable chan =
     (case ec_state chan of
        None \<Rightarrow> chan
      | Some ec \<Rightarrow>
          if enable then
            if ec_mode ec = ECHO_MODE_FAX then chan
            else if ec_mode ec \<noteq> ECHO_MODE_ACTIVE then chan
            else if NLP_automatic (ec_features ec) then chan\<lparr>ec_state := Some (ec\<lparr>ec_mode := ECHO_MODE_FAX\<rparr>)\<rparr>
            else if NLP_toggle (ec_features ec) then
              (qevent EVENT_EC_NLP_DISABLED chan)
                \<lparr>ec_state := Some (ec\<lparr>ec_pvt := op_NLP_toggle ops (ec_pvt ec) False, ec_mode := ECHO_MODE_FAX\<rparr>)\<rparr>
            else chan\<lparr>ec_state := Some (ec\<lparr>ec_mode := ECHO_MODE_IDLE\<rparr>)\<rparr>
          else
            if ec_mode ec = ECHO_MODE_ACTIVE then chan
            else if ec_mode ec \<noteq> ECHO_MODE_FAX \<and> ec_mode ec \<noteq> ECHO_MODE_IDLE then chan
            else if NLP_automatic (ec_features ec) then chan\<lparr>ec_state := Some (ec\<lparr>ec_mode := ECHO_MODE_ACTIVE\<rparr>)\<rparr>
            else if NLP_toggle (ec_features ec) then
              (qevent EVENT_EC_NLP_ENABLED chan)
                \<lparr>ec_state := Some (ec\<lparr>ec_pvt := op_NLP_toggle ops (ec_pvt ec) True, ec_mode := ECHO_MODE_ACTIVE\<rparr>)\<rparr>
            else chan\<lparr>ec_state := Some (ec\<lparr>ec_mode := ECHO_MODE_ACTIVE\<rparr>)\<rparr>)"

definition ced_detected :: "ec_ops \<Rightarrow> int \<Rightarrow> dahdi_chan \<Rightarrow> dahdi_chan" where
  "ced_detected ops event chan =
     (let chan = qevent event chan
      in case ec_state chan of
           None \<Rightarrow> chan
         | Some ec \<Rightarrow> if ec_mode ec = ECHO_MODE_ACTIVE then set_echocan_fax_mode ops True chan else chan)"

definition set_ec_mode :: "echocan_mode \<Rightarrow> dahdi_chan \<Rightarrow> dahdi_chan" where
  "set_ec_mode m chan = chan\<lparr>ec_state := map_option (ec_mode_update (\<lambda>_. m)) (ec_state chan)\<rparr>"

definition process_echocan_events :: "ec_ops \<Rightarrow> echocan_events \<Rightarrow> dahdi_chan \<Rightarrow> dahdi_chan" where
  "process_echocan_events ops events chan =
     (let chan = (if CED_tx_detected events then ced_detected ops EVENT_TX_CED_DETECTED chan else chan);
          chan = (if CED_rx_detected events then ced_detected ops EVENT_RX_CED_DETECTED chan else chan);
          chan = (if CNG_tx_detected events then qevent EVENT_TX_CNG_DETECTED chan else chan);
          chan = (if CNG_rx_detected events then qevent EVENT_RX_CNG_DETECTED chan else chan);
          chan = (if NLP_auto_disabled events then
                    set_ec_mode ECHO_MODE_FAX (qevent EVENT_EC_NLP_DISABLED chan) else chan)
      in if NLP_auto_enabled events then
           set_ec_mode ECHO_MODE_ACTIVE (qevent EVENT_EC_NLP_ENABLED chan) else chan)"

section \<open>Training\<close>

text \<open>One received sample while the channel is muted for training; \<open>pretrain_timer\<close> is unsigned.\<close>

definition ec_pretrain :: "echocan_state \<Rightarrow> echocan_state" where
  "ec_pretrain ec =
     (if ec_mode ec = ECHO_MODE_PRETRAINING then
        let ec = ec\<lparr>ec_pretrain_timer := ec_pretrain_timer ec - 1\<rparr>
        in if ec_pretrain_timer ec \<le> 0 then ec\<lparr>ec_pretrain_timer := 0, ec_mode := ECHO_MODE_STARTTRAINING\<rparr> else ec
      else ec)"

definition ec_train_sample :: "ec_ops \<Rightarrow> int \<Rightarrow> echocan_state \<Rightarrow> echocan_state" where
  "ec_train_sample ops rxlin ec =
     (let ec = ec_pretrain ec;
          ec = (if ec_mode ec = ECHO_MODE_AWAITINGECHO then ec\<lparr>ec_last_train_tap := 0, ec_mode := ECHO_MODE_TRAINING\<rparr> else ec)
      in case op_traintap ops of
           None \<Rightarrow> ec
         | Some traintap \<Rightarrow>
             if ec_mode ec = ECHO_MODE_TRAINING then
               let (pvt, finished) = traintap (ec_pvt ec) (ec_last_train_tap ec) rxlin;
                   ec = ec\<lparr>ec_pvt := pvt, ec_last_train_tap := ec_last_train_tap ec + 1\<rparr>
               in if finished then ec\<lparr>ec_mode := ECHO_MODE_ACTIVE\<rparr> else ec
             else ec)"

abbreviation (input) no_events :: echocan_events where
  "no_events \<equiv> \<lparr>CED_tx_detected = False, CED_rx_detected = False, CNG_tx_detected = False, CNG_rx_detected = False,
     NLP_auto_disabled = False, NLP_auto_enabled = False\<rparr>"

definition ec_train_chunk :: "ec_ops \<Rightarrow> byte list \<Rightarrow> dahdi_chan \<Rightarrow> echocan_state \<Rightarrow> byte list \<times> echocan_state" where
  "ec_train_chunk ops rxchunk ss ec =
     (map (\<lambda>_. lin2x ss 0) [0..<DAHDI_CHUNKSIZE],
      fold (\<lambda>x. ec_train_sample ops (xlaw ss (rxchunk ! x))) [0..<DAHDI_CHUNKSIZE] ec)"

definition ec_process_chunk :: "ec_ops \<Rightarrow> byte list \<Rightarrow> byte list \<Rightarrow> dahdi_chan \<Rightarrow> echocan_state \<Rightarrow> byte list \<times> echocan_state" where
  "ec_process_chunk ops rxchunk txchunk ss ec =
     (let ec = ec\<lparr>ec_events := no_events\<rparr>
      in case op_process ops of
           Some process \<Rightarrow>
             let rxlins = map (\<lambda>x. xlaw ss (rxchunk ! x)) [0..<DAHDI_CHUNKSIZE];
                 txlins = map (\<lambda>x. xlaw ss (txchunk ! x)) [0..<DAHDI_CHUNKSIZE];
                 (pvt, rxlins, ev) = process (ec_pvt ec) rxlins txlins
             in (map (\<lambda>x. lin2x ss (rxlins ! x)) [0..<DAHDI_CHUNKSIZE], ec\<lparr>ec_pvt := pvt, ec_events := ev\<rparr>)
         | None \<Rightarrow>
             (case op_events ops of
                Some events \<Rightarrow> let (pvt, ev) = events (ec_pvt ec) in (rxchunk, ec\<lparr>ec_pvt := pvt, ec_events := ev\<rparr>)
              | None \<Rightarrow> (rxchunk, ec)))"

definition ec_chunk :: "ec_ops \<Rightarrow> byte list \<Rightarrow> byte list \<Rightarrow> dahdi_chan \<Rightarrow> byte list \<times> dahdi_chan" where
  "ec_chunk ops rxchunk txchunk ss =
     (let ss = (case readchunkpreec ss of
                  None \<Rightarrow> ss
                | Some _ \<Rightarrow> ss\<lparr>readchunkpreec := Some (map (\<lambda>x. xlaw ss (rxchunk ! x)) [0..<DAHDI_CHUNKSIZE])\<rparr>)
      in case ec_state ss of
           None \<Rightarrow> (rxchunk, ss)
         | Some ec \<Rightarrow>
             if echo_mode_mute (ec_mode ec) then
               let (rx, ec) = ec_train_chunk ops rxchunk ss ec in (rx, ss\<lparr>ec_state := Some ec\<rparr>)
             else if ec_mode ec \<noteq> ECHO_MODE_IDLE then
               let (rx, ec) = ec_process_chunk ops rxchunk txchunk ss ec;
                   ss = ss\<lparr>ec_state := Some ec\<rparr>
               in (rx, if ec_events ec \<noteq> no_events then process_echocan_events ops (ec_events ec) ss else ss)
             else (rxchunk, ss))"

section \<open>Echo canceller modules\<close>

text \<open>
  A factory is named by a number, its name in the list is \<open>fac_name\<close>. A channel holds the canceller's factory it was
  given (\<open>ec_factory\<close>) and the factory of the instance that runs (\<open>ec_current\<close>; NULL for an instance of the span).
  \<open>mod_refs\<close> counts the references of the core on a factory's module.
\<close>

record ec_chan =
  echan :: dahdi_chan
  ec_factory :: "nat option"
  ec_current :: "nat option"

record ec_sys =
  ecfactory_list :: "nat list"
  fac_name :: "nat \<Rightarrow> string"
  mod_refs :: "nat \<Rightarrow> int"
  ec_chans :: "ec_chan list"

record echocanparams =
  tap_length :: u32
  param_count :: u32

record ec_env =
  toupper :: "char \<Rightarrow> char"
  tolower :: "char \<Rightarrow> char"
  module_live :: "nat \<Rightarrow> bool"
  request_module :: "string \<Rightarrow> nat list"
  params_alloc :: bool
  params_copied :: bool
  span_create :: "(echocanparams \<Rightarrow> int \<times> echocan_state option) option"
  fac_create :: "nat \<Rightarrow> echocanparams \<Rightarrow> int \<times> echocan_state option"
  deftaps :: u32

abbreviation (input) E2BIG :: int where "E2BIG \<equiv> 7"
abbreviation (input) ENODEV :: int where "ENODEV \<equiv> 19"

definition dahdi_register_echocan_factory :: "bool \<Rightarrow> nat \<Rightarrow> ec_sys \<Rightarrow> int \<times> ec_sys" where
  "dahdi_register_echocan_factory alloc ec s =
     (if ec \<in> set (ecfactory_list s) then (- EPERM, s)
      else if \<not> alloc then (- ENOMEM, s)
      else (0, s\<lparr>ecfactory_list := ecfactory_list s @ [ec]\<rparr>))"

definition dahdi_unregister_echocan_factory :: "nat \<Rightarrow> ec_sys \<Rightarrow> ec_sys" where
  "dahdi_unregister_echocan_factory ec s = s\<lparr>ecfactory_list := remove1 ec (ecfactory_list s)\<rparr>"

definition add_ref :: "nat \<Rightarrow> int \<Rightarrow> (nat \<Rightarrow> int) \<Rightarrow> nat \<Rightarrow> int" where
  "add_ref f n refs = refs(f := refs f + n)"

definition release_echocan :: "nat option \<Rightarrow> (nat \<Rightarrow> int) \<Rightarrow> nat \<Rightarrow> int" where
  "release_echocan ec refs = (case ec of None \<Rightarrow> refs | Some f \<Rightarrow> add_ref f (- 1) refs)"

definition try_module_get :: "ec_env \<Rightarrow> nat \<Rightarrow> (nat \<Rightarrow> int) \<Rightarrow> (nat \<Rightarrow> int) option" where
  "try_module_get env f refs = (if module_live env f then Some (add_ref f 1 refs) else None)"

definition lookup_echocan :: "string \<Rightarrow> ec_sys \<Rightarrow> nat option" where
  "lookup_echocan name_upper s = List.find (\<lambda>f. fac_name s f = name_upper) (ecfactory_list s)"

text \<open>\<open>find_echocan\<close>: the list is searched, a module requested once (which may register factories), the list searched again.\<close>

definition find_echocan :: "ec_env \<Rightarrow> string \<Rightarrow> ec_sys \<Rightarrow> nat option \<times> ec_sys" where
  "find_echocan env name s =
     (let name_upper = map (toupper env) name;
          found = (\<lambda>f s. case try_module_get env f (mod_refs s) of
                           Some refs \<Rightarrow> (Some f, s\<lparr>mod_refs := refs\<rparr>) | None \<Rightarrow> (None, s))
      in case lookup_echocan name_upper s of
           Some f \<Rightarrow> found f s
         | None \<Rightarrow>
             let s = fold (\<lambda>f s. snd (dahdi_register_echocan_factory True f s))
                       (request_module env (''dahdi_echocan_'' @ map (tolower env) name)) s
             in case lookup_echocan name_upper s of Some f \<Rightarrow> found f s | None \<Rightarrow> (None, s))"

text \<open>The canceller a channel has is taken from it, under the channel's lock, and freed.\<close>

definition free_echocan :: "ec_chan \<times> (nat \<Rightarrow> int) \<Rightarrow> ec_chan \<times> (nat \<Rightarrow> int)" where
  "free_echocan cr =
     (let (c, refs) = cr;
          ec = ec_state (echan c);
          cur = ec_current c;
          c = c\<lparr>echan := (echan c)\<lparr>ec_state := None\<rparr>, ec_current := None\<rparr>
      in (c, if ec \<noteq> None then release_echocan cur refs else refs))"

definition new_echocan :: "nat option \<Rightarrow> echocan_state \<Rightarrow> ec_chan \<Rightarrow> ec_chan" where
  "new_echocan cur ec c =
     (let ec = ec\<lparr>ec_mode := ECHO_MODE_ACTIVE\<rparr>;
          ec = (if \<not> CED_tx_detect (ec_features ec)
                then ec\<lparr>ec_txecdis := echo_can_disable_detector_init (ec_txecdis ec)\<rparr> else ec);
          ec = (if \<not> CED_rx_detect (ec_features ec)
                then ec\<lparr>ec_rxecdis := echo_can_disable_detector_init (ec_rxecdis ec)\<rparr> else ec)
      in c\<lparr>ec_current := cur, echan := (echan c)\<lparr>ec_state := Some ec\<rparr>\<rparr>)"

definition create_echocan :: "ec_env \<Rightarrow> echocanparams \<Rightarrow> ec_chan \<times> (nat \<Rightarrow> int) \<Rightarrow> int \<times> ec_chan \<times> (nat \<Rightarrow> int)" where
  "create_echocan env ecp cr =
     (let (c, refs) = cr;
          (ret, ec) = (case span_create env of None \<Rightarrow> (- ENODEV, None) | Some create \<Rightarrow> create ecp);
          install = (\<lambda>cur ec. case ec of None \<Rightarrow> c | Some e \<Rightarrow> new_echocan cur e c)
      in case ec_factory c of
           Some f \<Rightarrow>
             if ret = - ENODEV then
               (case try_module_get env f refs of
                  None \<Rightarrow> (ret, c, refs)
                | Some refs \<Rightarrow>
                    let (ret, ec) = fac_create env f ecp
                    in if ret \<noteq> 0 then (ret, c, release_echocan (Some f) refs)
                       else if ec = None then (- EFAULT, c, refs)
                       else (ret, install (Some f) ec, refs))
             else (ret, install None ec, refs)
         | None \<Rightarrow> (ret, install None ec, refs))"

definition ioctl_echocancel :: "ec_env \<Rightarrow> echocanparams \<Rightarrow> ec_chan \<times> (nat \<Rightarrow> int) \<Rightarrow> int \<times> ec_chan \<times> (nat \<Rightarrow> int)" where
  "ioctl_echocancel env ecp cr =
     (if param_count ecp > 8 then (- E2BIG, cr)
      else if tap_length ecp = 0 then (0, free_echocan cr)
      else if \<not> params_alloc env then (- ENOMEM, cr)
      else if \<not> params_copied env then (- EFAULT, cr)
      else
        let ecp = (if tap_length ecp \<in> {32, 64, 128, 256, 512, 1024} then ecp else ecp\<lparr>tap_length := deftaps env\<rparr>)
        in create_echocan env ecp (free_echocan cr))"

datatype ec_ioctl =
    DAHDI_ECHOCANCEL_PARAMS "echocanparams option"
  | DAHDI_ECHOCANCEL int
  | DAHDI_ECHOTRAIN int
  | DAHDI_ECHOCANCEL_FAX_MODE int

definition set_echan :: "dahdi_chan \<Rightarrow> ec_chan \<Rightarrow> ec_chan" where
  "set_echan ch c = c\<lparr>echan := ch\<rparr>"

fun echo_ioctl :: "ec_env \<Rightarrow> ec_ops \<Rightarrow> ec_ioctl \<Rightarrow> ec_chan \<times> (nat \<Rightarrow> int) \<Rightarrow> int \<times> ec_chan \<times> (nat \<Rightarrow> int)" where
  "echo_ioctl env ops (DAHDI_ECHOCANCEL_PARAMS ecp) cr =
     (if \<not> flagged (echan (fst cr)) FLAGBIT_AUDIO then (- EINVAL, cr)
      else case ecp of None \<Rightarrow> (- EFAULT, cr) | Some ecp \<Rightarrow> ioctl_echocancel env ecp cr)"
| "echo_ioctl env ops (DAHDI_ECHOCANCEL j) cr =
     (if \<not> flagged (echan (fst cr)) FLAGBIT_AUDIO then (- EINVAL, cr)
      else ioctl_echocancel env \<lparr>tap_length = word_of_int j, param_count = 0\<rparr> cr)"
| "echo_ioctl env ops (DAHDI_ECHOTRAIN j) (c, refs) =
     (if j < 0 \<or> j \<ge> 1000 then (- EINVAL, c, refs)
      else case ec_state (echan c) of
             None \<Rightarrow> (- EINVAL, c, refs)
           | Some ec \<Rightarrow>
               (0, if op_traintap ops \<noteq> None
                   then set_echan ((echan c)\<lparr>ec_state := Some (ec\<lparr>ec_mode := ECHO_MODE_PRETRAINING,
                          ec_pretrain_timer := word_of_int (push_bit 3 j)\<rparr>)\<rparr>) c
                   else c, refs))"
| "echo_ioctl env ops (DAHDI_ECHOCANCEL_FAX_MODE j) (c, refs) =
     (case ec_state (echan c) of
        None \<Rightarrow> (- EINVAL, c, refs)
      | Some _ \<Rightarrow> (0, set_echan (set_echocan_fax_mode ops (j \<noteq> 0) (echan c)) c, refs))"

definition attach_echocan :: "ec_env \<Rightarrow> nat \<Rightarrow> string \<Rightarrow> ec_sys \<Rightarrow> int \<times> ec_sys" where
  "attach_echocan env i name s =
     (if i \<ge> length (ec_chans s) then (- EINVAL, s)
      else
        let (new, s1) = (if name \<noteq> [] then find_echocan env name s else (None, s))
        in if name \<noteq> [] \<and> new = None then (- EINVAL, s1)
           else
             let c = ec_chans s1 ! i
             in (0, s1\<lparr>ec_chans := (ec_chans s1)[i := c\<lparr>ec_factory := new\<rparr>],
                      mod_refs := release_echocan (ec_factory c) (mod_refs s1)\<rparr>))"

text \<open>\<open>dahdi_ec_span\<close>: the chunks of the channels that run a module's canceller, each with the operations of its instance.\<close>

definition dahdi_ec_span :: "(nat \<Rightarrow> ec_ops) \<Rightarrow> ec_chan list \<Rightarrow> ec_chan list" where
  "dahdi_ec_span ops cs =
     map (\<lambda>(i, c). if ec_current c \<noteq> None
        then let (rx, ch) = ec_chunk (ops i) (readchunk (echan c)) (writechunk (echan c)) (echan c)
             in set_echan (ch\<lparr>readchunk := rx\<rparr>) c
        else c) (enumerate 0 cs)"

section \<open>What the detector measures\<close>

definition det_level_ok :: "int \<Rightarrow> bool" where
  "det_level_ok x \<longleftrightarrow> 0 \<le> x \<and> x \<le> 32768"

definition det_wf :: "echo_can_disable_detector_state \<Rightarrow> bool" where
  "det_wf d \<longleftrightarrow> det_level_ok (channel_level d) \<and> det_level_ok (notch_level d) \<and>
     - (2 ^ 31) \<le> tone_cycle_duration d \<and> tone_cycle_duration d < 2 ^ 31"

definition det_run :: "int list \<Rightarrow> echo_can_disable_detector_state \<Rightarrow> echo_can_disable_detector_state" where
  "det_run amps d = fold (\<lambda>a d. snd (echo_can_disable_detector_update d a)) amps d"

definition is_short :: "int \<Rightarrow> bool" where
  "is_short x \<longleftrightarrow> - 32768 \<le> x \<and> x < 32768"

text \<open>What \<open>n\<close> samples can have earned.\<close>

definition det_earned :: "nat \<Rightarrow> echo_can_disable_detector_state \<Rightarrow> bool" where
  "det_earned n d \<longleftrightarrow> (if hit d then 4800 \<le> n
     else 0 \<le> good_cycles d \<and> good_cycles d \<le> 2 \<and>
       0 \<le> tone_cycle_duration d \<and> tone_cycle_duration d < 4800 \<and>
       3400 * good_cycles d + tone_cycle_duration d \<le> int n)"

definition det_tone :: "echo_can_disable_detector_state \<Rightarrow> bool" where
  "det_tone d \<longleftrightarrow> 70 \<le> channel_level d \<and> notch_level d * 6 < channel_level d"

lemma damped: "det_level_ok c \<Longrightarrow> det_level_ok a \<Longrightarrow> det_level_ok (c + drop_bit 5 (a - c))"
  "det_level_ok c \<Longrightarrow> det_level_ok a \<Longrightarrow> det_level_ok (c + drop_bit 4 (a - c))"
proof -
  assume c: "det_level_ok c" and a: "det_level_ok a"
  have "32 * ((a - c) div 32) \<le> a - c" "a - c < 32 * ((a - c) div 32) + 32" by linarith+
  then show "det_level_ok (c + drop_bit 5 (a - c))"
    using c a by (simp add: det_level_ok_def drop_bit_eq_div)
  have "16 * ((a - c) div 16) \<le> a - c" "a - c < 16 * ((a - c) div 16) + 16" by linarith+
  then show "det_level_ok (c + drop_bit 4 (a - c))"
    using c a by (simp add: det_level_ok_def drop_bit_eq_div)
qed

lemma biquad2_short: "is_short (fst (biquad2 bq x))"
  using wrap_short_range by (simp add: biquad2_def is_short_def Let_def)

lemma wrap_int_range: "- (2 ^ 31) \<le> wrap_int x" "wrap_int x < 2 ^ 31"
  using signed_take_bit_int_greater_eq_minus_exp [of 31 x] signed_take_bit_int_less_exp [of 31 x]
  by (simp_all add: wrap_int_def)

lemma short_level: "is_short x \<Longrightarrow> det_level_ok \<bar>x\<bar>"
  by (auto simp: is_short_def det_level_ok_def)

lemma det_update_levels:
  "channel_level (snd (echo_can_disable_detector_update d a)) = channel_level d + drop_bit 5 (\<bar>a\<bar> - channel_level d)"
  "notch_level (snd (echo_can_disable_detector_update d a))
     = notch_level d + drop_bit 4 (\<bar>fst (biquad2 (notch d) a)\<bar> - notch_level d)"
  by (simp_all add: echo_can_disable_detector_update_def Let_def split: prod.splits)

lemma det_update_count:
  fixes d a
  defines "d' \<equiv> snd (echo_can_disable_detector_update d a)"
    and "n \<equiv> wrap_int (tone_cycle_duration d + 1)" and "g \<equiv> wrap_int (good_cycles d + 1)"
  shows "tone_cycle_duration d' = (if det_tone d' then if tone_present d then n else 0
           else if 70 \<le> channel_level d' then tone_cycle_duration d else 0)"
    and "good_cycles d' = (if det_tone d' then if \<not> tone_present d \<and> 3400 \<le> n \<and> n \<le> 3800 then g else good_cycles d
           else if 70 \<le> channel_level d' then good_cycles d else 0)"
    and "hit d' = (hit d \<or> det_tone d' \<and> (if tone_present d then 4800 \<le> n else 3400 \<le> n \<and> n \<le> 3800 \<and> 2 < g))"
    and "tone_present d' = det_tone d'"
  unfolding d'_def n_def g_def det_tone_def
  by (auto simp: echo_can_disable_detector_update_def Let_def split: prod.splits)

lemma det_update_wf: "det_wf d \<Longrightarrow> is_short a \<Longrightarrow> det_wf (snd (echo_can_disable_detector_update d a))"
  by (simp add: det_wf_def det_update_levels det_update_count(1) damped short_level biquad2_short wrap_int_range [simplified])

lemma det_update_earned:
  assumes "det_earned n d"
  shows "det_earned (Suc n) (snd (echo_can_disable_detector_update d a))"
proof (cases "hit d")
  case True
  then show ?thesis using assms by (simp add: det_earned_def det_update_count(3))
next
  case False
  then have g: "0 \<le> good_cycles d" "good_cycles d \<le> 2" "0 \<le> tone_cycle_duration d" "tone_cycle_duration d < 4800"
    "3400 * good_cycles d + tone_cycle_duration d \<le> int n"
    using assms by (simp_all add: det_earned_def)
  then have "wrap_int (good_cycles d + 1) = good_cycles d + 1"
    "wrap_int (tone_cycle_duration d + 1) = tone_cycle_duration d + 1"
    by (auto intro!: wrap_int_id)
  then show ?thesis
    using g False by (auto simp: det_earned_def det_update_count)
qed

lemma det_run_wf: "list_all is_short amps \<Longrightarrow> det_wf d \<Longrightarrow> det_wf (det_run amps d)"
  by (induction amps arbitrary: d) (simp_all add: det_run_def det_update_wf)

lemma det_run_earned: "det_earned n d \<Longrightarrow> det_earned (n + length amps) (det_run amps d)"
proof (induction amps arbitrary: d n)
  case (Cons a amps)
  then show ?case
    using det_update_earned [OF Cons.prems] Cons.IH [of "Suc n"] by (simp add: det_run_def)
qed (simp add: det_run_def)

lemma det_init_wf: "det_wf (echo_can_disable_detector_init d)" "det_earned 0 (echo_can_disable_detector_init d)"
  by (simp_all add: echo_can_disable_detector_init_def det_wf_def det_level_ok_def det_earned_def)

text \<open>The tone goes on: every state along the run meets the notch's condition.\<close>

definition det_hears :: "int list \<Rightarrow> echo_can_disable_detector_state \<Rightarrow> bool" where
  "det_hears amps d \<longleftrightarrow> (\<forall>k < length amps. det_tone (det_run (take (Suc k) amps) d))"

lemma det_hears_Cons: "det_hears (a # amps) d \<longleftrightarrow>
    det_tone (snd (echo_can_disable_detector_update d a)) \<and> det_hears amps (snd (echo_can_disable_detector_update d a))"
  by (auto simp: det_hears_def det_run_def All_less_Suc2)

lemma det_run_hit: "hit d \<Longrightarrow> hit (det_run amps d)"
  by (induction amps arbitrary: d) (simp_all add: det_run_def det_update_count(3))

lemma det_run_tone:
  assumes "det_hears amps d" and "tone_present d" and "0 \<le> tone_cycle_duration d" and "tone_cycle_duration d < 4800"
    and "4800 \<le> tone_cycle_duration d + int (length amps)"
  shows "hit (det_run amps d)"
  using assms
proof (induction amps arbitrary: d)
  case Nil
  then show ?case by simp
next
  case (Cons a amps)
  let ?d = "snd (echo_can_disable_detector_update d a)"
  have t: "det_tone ?d" "det_hears amps ?d" using Cons.prems(1) by (simp_all add: det_hears_Cons)
  have w: "wrap_int (tone_cycle_duration d + 1) = tone_cycle_duration d + 1"
    using Cons.prems by (intro wrap_int_id) simp_all
  have "hit (det_run amps ?d)"
  proof (cases "hit ?d")
    case False
    then have "tone_cycle_duration d + 1 < 4800" using t w Cons.prems(2) by (simp add: det_update_count(3))
    then show ?thesis
      using Cons.prems t w by (intro Cons.IH) (simp_all add: det_update_count)
  qed (rule det_run_hit)
  then show ?case by (simp add: det_run_def)
qed

lemma det_run_append: "det_run (xs @ ys) d = det_run ys (det_run xs d)"
  by (simp add: det_run_def)

text \<open>C38. The detector of the fax and modem tone. Whatever 16-bit samples it is given, its levels stay within those of a
  16-bit signal and its counter within an \<open>int\<close>, and it does not fire before 600 milliseconds of samples; and wherever
  it stands, once its notch says "tone" at 4801 samples in a row it has fired.\<close>

theorem ced_detector:
  fixes d0 :: echo_can_disable_detector_state
  assumes "list_all is_short pre" and "list_all is_short amps"
  defines "d \<equiv> det_run pre (echo_can_disable_detector_init d0)"
  shows "det_wf d \<and> (hit d \<longrightarrow> 4800 \<le> length pre) \<and>
    (4801 \<le> length amps \<and> det_hears amps d \<longrightarrow> hit (det_run (pre @ amps) (echo_can_disable_detector_init d0)))"
proof -
  have wf: "det_wf d" and e: "det_earned (length pre) d"
    using det_run_wf [OF assms(1) det_init_wf(1)] det_run_earned [OF det_init_wf(2), of pre d0] by (simp_all add: d_def)
  have "hit (det_run amps d)" if len: "4801 \<le> length amps" and hears: "det_hears amps d"
  proof (cases "hit d")
    case False
    then have r: "0 \<le> tone_cycle_duration d" "tone_cycle_duration d < 4800" using e by (simp_all add: det_earned_def)
    obtain a as where as: "amps = a # as" using len by (cases amps) auto
    let ?d = "snd (echo_can_disable_detector_update d a)"
    have t: "det_tone ?d" "det_hears as ?d" using hears by (simp_all add: as det_hears_Cons)
    have w: "wrap_int (tone_cycle_duration d + 1) = tone_cycle_duration d + 1" using r by (intro wrap_int_id) simp_all
    have "hit (det_run as ?d)"
    proof (cases "hit ?d")
      case False
      then have "tone_cycle_duration ?d < 4800" using t w r by (auto simp: det_update_count)
      then show ?thesis
        using t w r len as by (intro det_run_tone) (auto simp: det_update_count)
    qed (rule det_run_hit)
    then show ?thesis by (simp add: as det_run_def)
  qed (rule det_run_hit)
  then show ?thesis
    using wf e by (auto simp: det_earned_def det_run_append d_def)
qed

definition ec0 :: echocan_state where
  "ec0 =
     (let det = \<lparr>notch = biquad2_init 0 0 0 0 0, notch_level = 0, channel_level = 0, tone_present = False,
            tone_cycle_duration = 0, good_cycles = 0, hit = False\<rparr>
      in \<lparr>ec_features = \<lparr>CED_tx_detect = False, CED_rx_detect = False, CNG_tx_detect = False, CNG_rx_detect = False,
              NLP_toggle = False, NLP_automatic = False\<rparr>,
          ec_events = no_events, ec_txecdis = det, ec_rxecdis = det, ec_mode = ECHO_MODE_ACTIVE, ec_last_train_tap = 0,
          ec_pretrain_timer = 0, ec_pvt = []\<rparr>)"

definition ec_ops0 :: ec_ops where
  "ec_ops0 = \<lparr>op_process = None, op_events = None, op_traintap = Some (\<lambda>pvt tap x. (pvt, 256 \<le> tap)),
     op_NLP_toggle = (\<lambda>pvt _. pvt)\<rparr>"

theorem ced_detector_witness:
  "det_wf (det_run [100, - 32768] (echo_can_disable_detector_init (ec_txecdis ec0)))"
  using ced_detector [of "[100, - 32768]" "[]"] by (simp add: is_short_def)

section \<open>Training\<close>

definition ec_chunks :: "ec_ops \<Rightarrow> (byte list \<times> byte list) list \<Rightarrow> dahdi_chan \<Rightarrow> dahdi_chan" where
  "ec_chunks ops chunks ch = fold (\<lambda>(rx, tx) ch. snd (ec_chunk ops rx tx ch)) chunks ch"

definition pretrain_samples :: "u32 \<Rightarrow> nat" where
  "pretrain_samples t = (if t = 0 then 2 ^ 32 else unat t)"

definition pretrained :: "nat \<Rightarrow> echocan_state \<Rightarrow> echocan_state" where
  "pretrained k ec =
     (if k < pretrain_samples (ec_pretrain_timer ec) then ec\<lparr>ec_pretrain_timer := ec_pretrain_timer ec - of_nat k\<rparr>
      else ec\<lparr>ec_pretrain_timer := 0, ec_mode := ECHO_MODE_STARTTRAINING\<rparr>)"

lemma train_started: "ec_mode ec = ECHO_MODE_STARTTRAINING \<Longrightarrow> ec_train_sample ops x ec = ec"
  by (simp add: ec_train_sample_def ec_pretrain_def Let_def split: option.splits)

lemma train_pretraining:
  "ec_mode ec = ECHO_MODE_PRETRAINING \<Longrightarrow>
   ec_train_sample ops x ec = (if ec_pretrain_timer ec = 1 then ec\<lparr>ec_pretrain_timer := 0, ec_mode := ECHO_MODE_STARTTRAINING\<rparr>
     else ec\<lparr>ec_pretrain_timer := ec_pretrain_timer ec - 1\<rparr>)"
  by (simp add: ec_train_sample_def ec_pretrain_def Let_def split: option.splits)

lemma pretrain_samples_le: "pretrain_samples t \<le> 2 ^ 32"
proof -
  have "unat t < 2 ^ LENGTH(32)" by (rule unsigned_less)
  then show ?thesis by (simp add: pretrain_samples_def)
qed

lemma pretrain_left: "k \<le> pretrain_samples t \<Longrightarrow> t - of_nat k = (of_nat (pretrain_samples t - k) :: u32)"
proof -
  assume "k \<le> pretrain_samples t"
  moreover have "of_nat (pretrain_samples t) = t"
    by (auto simp: pretrain_samples_def word_eq_iff_unsigned)
  ultimately show ?thesis by (simp add: of_nat_diff)
qed

lemma pretrained_Suc:
  assumes "ec_mode ec = ECHO_MODE_PRETRAINING"
  shows "ec_train_sample ops x (pretrained k ec) = pretrained (Suc k) ec"
proof -
  let ?t = "ec_pretrain_timer ec"
  consider (out) "pretrain_samples ?t \<le> k" | (due) "Suc k = pretrain_samples ?t" | (run) "Suc k < pretrain_samples ?t"
    by linarith
  then show ?thesis
  proof cases
    case out
    then show ?thesis by (simp add: pretrained_def train_started)
  next
    case due
    then have "k \<le> pretrain_samples ?t" "pretrain_samples ?t - k = 1" by simp_all
    then have "?t - of_nat k = 1" by (simp only: pretrain_left) simp
    then show ?thesis using due assms by (simp add: pretrained_def train_pretraining)
  next
    case run
    define m where "m = pretrain_samples ?t - k"
    have "1 < m" "m \<le> 2 ^ 32" using run pretrain_samples_le [of ?t] by (simp_all add: m_def)
    then have "of_nat m \<noteq> (1 :: u32)"
      by (cases "m = 2 ^ 32") (simp_all add: word_unat_eq_iff unat_of_nat take_bit_eq_mod)
    then have "of_nat (pretrain_samples ?t - k) \<noteq> (1 :: u32)" unfolding m_def .
    moreover have "k \<le> pretrain_samples ?t" using run by simp
    ultimately have "?t - of_nat k \<noteq> 1" by (metis pretrain_left)
    then show ?thesis using run assms by (simp add: pretrained_def train_pretraining algebra_simps)
  qed
qed

lemma fold_pretrained:
  assumes "ec_mode ec = ECHO_MODE_PRETRAINING"
  shows "fold (\<lambda>x. ec_train_sample ops (f x)) xs (pretrained k ec) = pretrained (k + length xs) ec"
  by (induction xs arbitrary: k) (simp_all add: pretrained_Suc [OF assms])

lemma pretrained_mute: "ec_mode ec = ECHO_MODE_PRETRAINING \<Longrightarrow> echo_mode_mute (ec_mode (pretrained k ec))"
  by (simp add: pretrained_def)

lemma chunk_pretrained:
  assumes "ec_mode ec = ECHO_MODE_PRETRAINING" and "ec_state ch = Some (pretrained k ec)"
  shows "ec_state (snd (ec_chunk ops rx tx ch)) = Some (pretrained (k + 8) ec)"
  using pretrained_mute [OF assms(1), of k] fold_pretrained [OF assms(1), where xs = "[0..<8]"] assms(2)
  by (simp add: ec_chunk_def ec_train_chunk_def split: option.splits)

lemma chunks_pretrained:
  assumes "ec_mode ec = ECHO_MODE_PRETRAINING" and "ec_state ch = Some (pretrained k ec)"
  shows "ec_state (ec_chunks ops chunks ch) = Some (pretrained (k + 8 * length chunks) ec)"
  using assms(2)
proof (induction chunks arbitrary: ch k)
  case (Cons c cs)
  obtain rx tx where c: "c = (rx, tx)" by (cases c)
  show ?case
    using Cons.IH [OF chunk_pretrained [OF assms(1) Cons.prems, of ops rx tx]] by (simp add: ec_chunks_def c ac_simps)
qed (simp add: ec_chunks_def)

text \<open>Pre-training asked for by \<open>DAHDI_ECHOTRAIN\<close> with \<open>j\<close> milliseconds lasts exactly \<open>j\<close> chunks of one
  millisecond, whatever is received and sent, and then the impulse is due; but \<open>j = 0\<close> makes the unsigned timer wrap, and
  the channel stays muted for 2 ^ 29 milliseconds, six days.\<close>

theorem pretraining_time:
  assumes "echo_ioctl env ops (DAHDI_ECHOTRAIN j) (c, refs) = (0, c', refs')" and "op_traintap ops \<noteq> None"
  shows "map_option ec_mode (ec_state (ec_chunks ops chunks (echan c'))) =
    Some (if length chunks < (if j = 0 then 2 ^ 29 else nat j) then ECHO_MODE_PRETRAINING else ECHO_MODE_STARTTRAINING)"
proof -
  obtain ec where ec: "ec_state (echan c) = Some ec" and j: "0 \<le> j" "j < 1000"
    and c': "c' = set_echan ((echan c)\<lparr>ec_state := Some (ec\<lparr>ec_mode := ECHO_MODE_PRETRAINING,
                          ec_pretrain_timer := word_of_int (push_bit 3 j)\<rparr>)\<rparr>) c"
    using assms by (auto split: if_splits option.splits)
  define e where "e = ec\<lparr>ec_mode := ECHO_MODE_PRETRAINING, ec_pretrain_timer := word_of_int (push_bit 3 j)\<rparr>"
  have p: "push_bit 3 j = 8 * j" by (simp add: push_bit_eq_mult)
  define w where "w = (word_of_int (8 * j) :: u32)"
  have "uint w = 8 * j"
    unfolding w_def uint_word_of_int_eq using j by (intro take_bit_int_eq_self) simp_all
  then have w: "unat w = 8 * nat j" "(w = 0) = (j = 0)"
    using j by (simp_all add: unat_eq_nat_uint nat_mult_distrib word_uint_eq_iff)
  have t: "pretrain_samples (ec_pretrain_timer e) = (if j = 0 then 2 ^ 32 else 8 * nat j)"
    using w by (simp only: e_def p pretrain_samples_def w_def [symmetric]) simp
  have m: "ec_mode e = ECHO_MODE_PRETRAINING" by (simp add: e_def)
  have "pretrained 0 e = e" using t j by (simp add: pretrained_def)
  then have "ec_state (echan c') = Some (pretrained 0 e)" by (simp add: c' set_echan_def e_def)
  then have "ec_state (ec_chunks ops chunks (echan c')) = Some (pretrained (8 * length chunks) e)"
    using chunks_pretrained [OF m, of "echan c'" 0] by simp
  then show ?thesis using t m by (simp add: pretrained_def)
qed

definition ec_env0 :: ec_env where
  "ec_env0 = \<lparr>toupper = id, tolower = id, module_live = (\<lambda>_. True), request_module = (\<lambda>_. []), params_alloc = True,
     params_copied = True, span_create = None, fac_create = (\<lambda>_ _. (0, Some ec0)), deftaps = 64\<rparr>"

definition ec_chan_ex :: ec_chan where
  "ec_chan_ex = \<lparr>echan = chan0\<lparr>ec_state := Some ec0\<rparr>, ec_factory = Some 0, ec_current = Some 0\<rparr>"

definition trained_ex :: ec_chan where
  "trained_ex = fst (snd (echo_ioctl ec_env0 ec_ops0 (DAHDI_ECHOTRAIN 0) (ec_chan_ex, \<lambda>_. 2)))"

theorem pretraining_time_witness:
  "map_option ec_mode (ec_state (ec_chunks ec_ops0 [([], []), ([], [])] (echan trained_ex))) = Some ECHO_MODE_PRETRAINING"
proof -
  have t: "op_traintap ec_ops0 \<noteq> None" by (simp add: ec_ops0_def)
  have "echo_ioctl ec_env0 ec_ops0 (DAHDI_ECHOTRAIN 0) (ec_chan_ex, \<lambda>_. 2) = (0, trained_ex, \<lambda>_. 2)"
    by (simp add: trained_ex_def ec_chan_ex_def)
  from pretraining_time [OF this t, of "[([], []), ([], [])]"] show ?thesis by simp
qed

section \<open>References to modules\<close>

definition current_refs :: "nat \<Rightarrow> ec_chan \<Rightarrow> int" where
  "current_refs f c = (if ec_factory c = Some f then 1 else 0) + (if ec_current c = Some f then 1 else 0)"

definition has_ec :: "dahdi_chan \<Rightarrow> bool" where
  "has_ec c \<longleftrightarrow> ec_state c \<noteq> None"

text \<open>Every pointer of a channel to a factory is one reference on its module, and an instance of a module runs.\<close>

definition refs_ok :: "ec_sys \<Rightarrow> bool" where
  "refs_ok s \<longleftrightarrow> (\<forall>f. mod_refs s f = sum_list (map (current_refs f) (ec_chans s))) \<and>
     (\<forall>c \<in> set (ec_chans s). ec_current c \<noteq> None \<longrightarrow> has_ec (echan c))"

text \<open>What \<open>echocan_create\<close> promises in \<open>kernel.h\<close>: zero, and an instance created, or an error and none.\<close>

definition creates :: "ec_env \<Rightarrow> bool" where
  "creates env \<longleftrightarrow> (\<forall>f ecp. fst (fac_create env f ecp) = 0 \<longrightarrow> snd (fac_create env f ecp) \<noteq> None)"

definition chan_ioctl :: "ec_env \<Rightarrow> ec_ops \<Rightarrow> ec_ioctl \<Rightarrow> nat \<Rightarrow> ec_sys \<Rightarrow> ec_sys" where
  "chan_ioctl env ops cmd i s =
     (let (r, c, refs) = echo_ioctl env ops cmd (ec_chans s ! i, mod_refs s)
      in s\<lparr>ec_chans := (ec_chans s)[i := c], mod_refs := refs\<rparr>)"

text \<open>
  What else changes these pointers: a channel gives up its canceller when it is closed, opened, or switched to data
  (\<open>close_channel\<close>, \<open>initialize_channel\<close>, \<open>DAHDI_AUDIOMODE\<close>, \<open>DAHDI_HDLCPPP\<close>); a channel is
  registered, which closes it first, and unregistered, which releases \<open>ec_factory\<close> and leaves the pointer as it is.
  \<open>ec_chans\<close> are the channels that are registered.
\<close>

definition free_chan_ec :: "nat \<Rightarrow> ec_sys \<Rightarrow> ec_sys" where
  "free_chan_ec i s =
     (let (c, refs) = free_echocan (ec_chans s ! i, mod_refs s) in s\<lparr>ec_chans := (ec_chans s)[i := c], mod_refs := refs\<rparr>)"

definition reg_chan_ec :: "ec_chan \<Rightarrow> ec_sys \<Rightarrow> ec_sys" where
  "reg_chan_ec c s =
     (let (c, refs) = free_echocan (c, mod_refs s) in s\<lparr>ec_chans := ec_chans s @ [c], mod_refs := refs\<rparr>)"

definition unreg_chan_ec :: "nat \<Rightarrow> ec_sys \<Rightarrow> ec_sys" where
  "unreg_chan_ec i s = s\<lparr>ec_chans := take i (ec_chans s) @ drop (Suc i) (ec_chans s),
     mod_refs := release_echocan (ec_factory (ec_chans s ! i)) (mod_refs s)\<rparr>"

text \<open>
  The steps, with any arguments, the audio of the span and any other change of a channel that leaves its canceller alone.
  The flag of a step says whether it was a safe one: registering a channel is unless it still has a canceller or a
  factory from an earlier registration, and unregistering one is unless a module's instance runs on it.
\<close>

inductive ec_step :: "ec_env \<Rightarrow> bool \<Rightarrow> ec_sys \<Rightarrow> ec_sys \<Rightarrow> bool" for env where
  register: "ec_step env True s (snd (dahdi_register_echocan_factory alloc ec s))"
| unregister: "ec_step env True s (dahdi_unregister_echocan_factory ec s)"
| attach: "ec_step env True s (snd (attach_echocan env i name s))"
| ioctl: "i < length (ec_chans s) \<Longrightarrow> ec_step env True s (chan_ioctl env ops cmd i s)"
| chunks: "ec_step env True s (s\<lparr>ec_chans := dahdi_ec_span ops (ec_chans s)\<rparr>)"
| freed: "i < length (ec_chans s) \<Longrightarrow> ec_step env True s (free_chan_ec i s)"
| changed: "i < length (ec_chans s) \<Longrightarrow> (ec_state ch = None) = (ec_state (echan (ec_chans s ! i)) = None) \<Longrightarrow>
    ec_step env True s (s\<lparr>ec_chans := (ec_chans s)[i := set_echan ch (ec_chans s ! i)]\<rparr>)"
| chan_reg: "ec_step env (ec_factory c = None \<and> ec_current c = None) s (reg_chan_ec c s)"
| chan_unreg: "i < length (ec_chans s) \<Longrightarrow> ec_step env (ec_current (ec_chans s ! i) = None) s (unreg_chan_ec i s)"

text \<open>A run, and whether all its steps were safe.\<close>

inductive ec_run :: "ec_env \<Rightarrow> bool \<Rightarrow> ec_sys \<Rightarrow> ec_sys \<Rightarrow> bool" for env where
  ec_refl: "ec_run env True s s"
| ec_more: "ec_run env ok s s' \<Longrightarrow> ec_step env safe s' s'' \<Longrightarrow> ec_run env (ok \<and> safe) s s''"

lemma refs_add [simp]: "add_ref f n refs g = refs g + (if f = g then n else 0)"
  by (simp add: add_ref_def)

lemma release_sel [simp]: "release_echocan p refs g = refs g - (if p = Some g then 1 else 0)"
  by (auto simp: release_echocan_def split: option.splits)

text \<open>One operation on a channel and the counts keeps the difference between the counts and its pointers.\<close>

definition refs_kept :: "ec_chan \<times> (nat \<Rightarrow> int) \<Rightarrow> ec_chan \<times> (nat \<Rightarrow> int) \<Rightarrow> bool" where
  "refs_kept cr cr' \<longleftrightarrow> (\<forall>f. snd cr' f - current_refs f (fst cr') = snd cr f - current_refs f (fst cr)) \<and>
     (ec_current (fst cr') \<noteq> None \<longrightarrow> has_ec (echan (fst cr')))"

lemma refs_kept_trans: "refs_kept a b \<Longrightarrow> refs_kept b c \<Longrightarrow> refs_kept a c"
  by (simp add: refs_kept_def)

lemma free_kept: "(ec_current c \<noteq> None \<longrightarrow> has_ec (echan c)) \<Longrightarrow> refs_kept (c, refs) (free_echocan (c, refs))"
  by (auto simp: refs_kept_def free_echocan_def current_refs_def has_ec_def)

lemma new_echocan_sel [simp]:
  "ec_current (new_echocan p ec c) = p" "ec_factory (new_echocan p ec c) = ec_factory c"
  "has_ec (echan (new_echocan p ec c))"
  by (simp_all add: new_echocan_def Let_def has_ec_def)

lemma install_kept:
  assumes "ec_current c = None" and "\<And>g. refs' g = refs g + (if p = Some g then 1 else 0)"
  shows "refs_kept (c, refs) (new_echocan p e c, refs')"
  using assms by (simp add: refs_kept_def current_refs_def)

lemma kept_same: "ec_current c = None \<Longrightarrow> (\<And>g. refs' g = refs g) \<Longrightarrow> refs_kept (c, refs) (c, refs')"
  by (simp add: refs_kept_def)

lemma create_kept:
  assumes env: "creates env" and c: "ec_current c = None"
  shows "refs_kept (c, refs) (snd (create_echocan env ecp (c, refs)))"
proof -
  obtain ret ec where p: "(case span_create env of None \<Rightarrow> (- ENODEV, None) | Some create \<Rightarrow> create ecp) = (ret, ec)"
    by (cases "case span_create env of None \<Rightarrow> (- ENODEV, None) | Some create \<Rightarrow> create ecp")
  have i: "refs_kept (c, refs) (case ec of None \<Rightarrow> c | Some e \<Rightarrow> new_echocan None e c, refs)"
    using c by (cases ec) (auto intro: install_kept kept_same)
  show ?thesis
  proof (cases "ret = - ENODEV \<and> ec_factory c \<noteq> None")
    case True
    then obtain f where f: "ret = - ENODEV" "ec_factory c = Some f" by auto
    obtain ret2 ec2 where q: "fac_create env f ecp = (ret2, ec2)" by (cases "fac_create env f ecp")
    have e: "ret2 = 0 \<Longrightarrow> ec2 \<noteq> None" using env q unfolding creates_def by (metis fst_conv snd_conv)
    have k: "refs_kept (c, refs) (c, refs)" "refs_kept (c, refs) (c, release_echocan (Some f) (add_ref f 1 refs))"
      "refs_kept (c, refs) (new_echocan (Some f) x c, add_ref f 1 refs)" for x
      using c by (auto intro!: install_kept kept_same)
    show ?thesis
    proof (cases "module_live env f")
      case False
      then show ?thesis using k f by (simp add: create_echocan_def p try_module_get_def)
    next
      case True
      then show ?thesis
        using k f e by (cases "ret2 = 0"; cases ec2) (simp_all add: create_echocan_def p q try_module_get_def)
    qed
  next
    case False
    then show ?thesis
      using i by (cases "ec_factory c") (simp_all add: create_echocan_def p)
  qed
qed

lemma ioctl_echocancel_kept:
  assumes "creates env" and ok: "ec_current (fst cr) \<noteq> None \<longrightarrow> has_ec (echan (fst cr))"
  shows "refs_kept cr (snd (ioctl_echocancel env ecp cr))"
proof -
  obtain c refs where cr: "cr = (c, refs)" by (cases cr)
  have f: "refs_kept cr (free_echocan cr)" using ok free_kept by (simp add: cr)
  have n: "ec_current (fst (free_echocan cr)) = None" by (simp add: free_echocan_def cr Let_def)
  have "refs_kept (free_echocan cr) (snd (create_echocan env e (free_echocan cr)))" for e
    using create_kept [OF assms(1) n, of "snd (free_echocan cr)" e] by simp
  then have "refs_kept cr (snd (create_echocan env e (free_echocan cr)))" for e
    using f refs_kept_trans by blast
  moreover have "refs_kept cr cr" using ok by (simp add: refs_kept_def)
  ultimately show ?thesis
    using f by (simp add: ioctl_echocancel_def Let_def)
qed

lemma qevent_ec [simp]: "ec_state (qevent e c) = ec_state c"
  by (simp add: qevent_def wake_def Let_def)

lemma has_ec_cong: "ec_state c' = ec_state c \<Longrightarrow> has_ec c' = has_ec c"
  by (simp add: has_ec_def)

lemma has_ec_upd [simp]: "has_ec (c\<lparr>ec_state := Some e\<rparr>)" "has_ec (qevent n c) = has_ec c"
  "has_ec (c\<lparr>readchunk := r\<rparr>) = has_ec c" "has_ec (c\<lparr>readchunkpreec := p\<rparr>) = has_ec c"
  by (simp_all add: has_ec_def qevent_def wake_def Let_def)

lemma has_ec_some: "ec_state c = Some e \<Longrightarrow> has_ec c"
  by (simp add: has_ec_def)

lemma has_ec_fax_mode [simp]: "has_ec (set_echocan_fax_mode ops b c) = has_ec c"
  by (simp add: set_echocan_fax_mode_def has_ec_some split: option.splits)

lemma has_ec_mode [simp]: "has_ec (set_ec_mode m c) = has_ec c"
  by (simp add: set_ec_mode_def has_ec_def)

lemma has_ec_ced [simp]: "has_ec (ced_detected ops e c) = has_ec c"
  by (simp add: ced_detected_def Let_def split: option.splits)

lemma has_ec_events [simp]: "has_ec (process_echocan_events ops ev c) = has_ec c"
  by (simp add: process_echocan_events_def Let_def)

lemma has_ec_chunk [simp]: "has_ec (snd (ec_chunk ops rx tx c)) = has_ec c"
  by (simp add: ec_chunk_def Let_def has_ec_some split: option.splits prod.splits)

lemma set_echan_sel [simp]: "echan (set_echan ch c) = ch" "ec_factory (set_echan ch c) = ec_factory c"
  "ec_current (set_echan ch c) = ec_current c"
  by (simp_all add: set_echan_def)

lemma set_echan_kept:
  "(ec_current c \<noteq> None \<longrightarrow> has_ec (echan c)) \<Longrightarrow> has_ec ch = has_ec (echan c) \<Longrightarrow> refs_kept (c, refs) (set_echan ch c, refs)"
  by (simp add: refs_kept_def current_refs_def)

lemma echo_ioctl_kept:
  assumes "creates env" and ok: "ec_current (fst cr) \<noteq> None \<longrightarrow> has_ec (echan (fst cr))"
  shows "refs_kept cr (snd (echo_ioctl env ops cmd cr))"
proof -
  have r: "refs_kept cr cr" using ok by (simp add: refs_kept_def)
  obtain c refs where cr: "cr = (c, refs)" by (cases cr)
  have s: "has_ec ch = has_ec (echan c) \<Longrightarrow> refs_kept cr (set_echan ch c, refs)" for ch
    using set_echan_kept ok by (simp add: cr)
  show ?thesis
  proof (cases cmd)
    case (DAHDI_ECHOCANCEL_PARAMS x)
    then show ?thesis using r ioctl_echocancel_kept [OF assms] by (auto split: option.splits)
  next
    case (DAHDI_ECHOCANCEL j)
    then show ?thesis using r ioctl_echocancel_kept [OF assms] by auto
  next
    case (DAHDI_ECHOTRAIN j)
    then show ?thesis using r s by (simp add: cr has_ec_some split: option.splits)
  next
    case (DAHDI_ECHOCANCEL_FAX_MODE j)
    then show ?thesis using r s by (simp add: cr split: option.splits)
  qed
qed

lemma sum_list_upd: "i < length xs \<Longrightarrow> sum_list (xs[i := x]) = sum_list xs - xs ! i + (x :: int)"
  by (induction xs arbitrary: i) (simp_all split: nat.split)

lemma refs_update:
  assumes ok: "refs_ok s" and i: "i < length (ec_chans s)"
    and k: "refs_kept (ec_chans s ! i, mod_refs s) (c, refs)"
  shows "refs_ok (s\<lparr>ec_chans := (ec_chans s)[i := c], mod_refs := refs\<rparr>)"
proof -
  have "refs f = sum_list (map (current_refs f) ((ec_chans s)[i := c]))" for f
  proof -
    have "refs f - current_refs f c = mod_refs s f - current_refs f (ec_chans s ! i)"
      using k by (simp add: refs_kept_def)
    then show ?thesis
      using ok i by (simp add: refs_ok_def map_update sum_list_upd)
  qed
  moreover have "ec_current x \<noteq> None \<longrightarrow> has_ec (echan x)" if "x \<in> set ((ec_chans s)[i := c])" for x
    using that ok k set_update_subset_insert [of "ec_chans s" i c] by (auto simp: refs_ok_def refs_kept_def)
  ultimately show ?thesis by (simp add: refs_ok_def)
qed

lemma refs_cong:
  "mod_refs s' = mod_refs s \<Longrightarrow> ec_chans s' = ec_chans s \<Longrightarrow> refs_ok s' = refs_ok s"
  by (simp add: refs_ok_def)

lemma refs_ioctl:
  assumes "creates env" and "refs_ok s" and "i < length (ec_chans s)"
  shows "refs_ok (chan_ioctl env ops cmd i s)"
proof -
  obtain r c refs where e: "echo_ioctl env ops cmd (ec_chans s ! i, mod_refs s) = (r, c, refs)"
    by (cases "echo_ioctl env ops cmd (ec_chans s ! i, mod_refs s)")
  have "refs_kept (ec_chans s ! i, mod_refs s) (c, refs)"
    using echo_ioctl_kept [OF assms(1), of "(ec_chans s ! i, mod_refs s)" ops cmd] e assms(2,3) by (simp add: refs_ok_def)
  then show ?thesis
    using refs_update [OF assms(2,3)] by (simp add: chan_ioctl_def e)
qed

lemma register_sel [simp]: "mod_refs (snd (dahdi_register_echocan_factory a f s)) = mod_refs s"
  "ec_chans (snd (dahdi_register_echocan_factory a f s)) = ec_chans s"
  by (simp_all add: dahdi_register_echocan_factory_def)

lemma find_echocan_sel:
  assumes "find_echocan env name s = (new, s')"
  shows "ec_chans s' = ec_chans s" and "mod_refs s' g = mod_refs s g + (if new = Some g then 1 else 0)"
proof -
  define s1 where "s1 = fold (\<lambda>f s. snd (dahdi_register_echocan_factory True f s))
                       (request_module env (''dahdi_echocan_'' @ map (tolower env) name)) s"
  have s1: "ec_chans s1 = ec_chans s" "mod_refs s1 = mod_refs s"
  proof -
    have "ec_chans (fold (\<lambda>f s. snd (dahdi_register_echocan_factory True f s)) fs s) = ec_chans s \<and>
      mod_refs (fold (\<lambda>f s. snd (dahdi_register_echocan_factory True f s)) fs s) = mod_refs s" for fs
      by (induction fs arbitrary: s) simp_all
    then show "ec_chans s1 = ec_chans s" "mod_refs s1 = mod_refs s" by (simp_all add: s1_def)
  qed
  show "ec_chans s' = ec_chans s" "mod_refs s' g = mod_refs s g + (if new = Some g then 1 else 0)"
    using assms s1 unfolding find_echocan_def Let_def s1_def [symmetric]
    by (auto simp: try_module_get_def split: option.splits if_splits)
qed

lemma refs_attach:
  assumes ok: "refs_ok s"
  shows "refs_ok (snd (attach_echocan env i name s))"
proof (cases "i < length (ec_chans s)")
  case i: True
  obtain new s1 where n: "(if name \<noteq> [] then find_echocan env name s else (None, s)) = (new, s1)"
    by (cases "if name \<noteq> [] then find_echocan env name s else (None, s)")
  have s1: "ec_chans s1 = ec_chans s" "\<And>g. mod_refs s1 g = mod_refs s g + (if new = Some g then 1 else 0)"
    using n find_echocan_sel [of env name s new s1] by (auto split: if_splits)
  show ?thesis
  proof (cases "name \<noteq> [] \<and> new = None")
    case True
    then have "mod_refs s1 = mod_refs s" using s1 by (auto intro: ext)
    then show ?thesis using True i n ok s1 refs_cong [of s1 s] by (simp add: attach_echocan_def)
  next
    case False
    let ?c = "ec_chans s ! i"
    have "refs_kept (?c, mod_refs s) (?c\<lparr>ec_factory := new\<rparr>, release_echocan (ec_factory ?c) (mod_refs s1))"
      using ok i s1 by (auto simp: refs_kept_def current_refs_def refs_ok_def)
    then have "refs_ok (s\<lparr>ec_chans := (ec_chans s)[i := ?c\<lparr>ec_factory := new\<rparr>],
        mod_refs := release_echocan (ec_factory ?c) (mod_refs s1)\<rparr>)"
      by (rule refs_update [OF ok i])
    moreover have "snd (attach_echocan env i name s) = s1\<lparr>ec_chans := (ec_chans s1)[i := ?c\<lparr>ec_factory := new\<rparr>],
        mod_refs := release_echocan (ec_factory ?c) (mod_refs s1)\<rparr>"
    proof -
      have "(length (ec_chans s) \<le> i) = False" "(name \<noteq> [] \<and> new = None) = False" using False i by simp_all
      then show ?thesis by (simp only: attach_echocan_def Let_def n s1(1) if_False prod.case snd_conv)
    qed
    ultimately show ?thesis using s1(1) by (simp add: refs_ok_def)
  qed
qed (simp add: attach_echocan_def ok)

lemma refs_chunks: "refs_ok s \<Longrightarrow> refs_ok (s\<lparr>ec_chans := dahdi_ec_span ops (ec_chans s)\<rparr>)"
proof -
  assume ok: "refs_ok s"
  define g where "g = (\<lambda>(i, c). if ec_current c \<noteq> None
        then let (rx, ch) = ec_chunk (ops i) (readchunk (echan c)) (writechunk (echan c)) (echan c)
             in set_echan (ch\<lparr>readchunk := rx\<rparr>) c
        else c)"
  have g: "ec_current (g (i, c)) = ec_current c" "ec_factory (g (i, c)) = ec_factory c"
    "has_ec (echan (g (i, c))) = has_ec (echan c)" for i c
    using has_ec_chunk [of "ops i" "readchunk (echan c)" "writechunk (echan c)" "echan c"]
    by (auto simp: g_def simp del: has_ec_chunk split: prod.splits)
  have d: "dahdi_ec_span ops cs = map g (enumerate 0 cs)" for cs
    by (simp add: dahdi_ec_span_def g_def)
  have "map (current_refs f) (map g (enumerate n cs)) = map (current_refs f) cs" for f n cs
    by (induction cs arbitrary: n) (simp_all add: current_refs_def g)
  moreover have "ec_current x \<noteq> None \<longrightarrow> has_ec (echan x)" if "x \<in> set (map g (enumerate 0 (ec_chans s)))" for x
    using that ok by (auto simp: refs_ok_def g in_set_enumerate_eq)
  ultimately show "refs_ok (s\<lparr>ec_chans := dahdi_ec_span ops (ec_chans s)\<rparr>)"
    using ok by (simp add: refs_ok_def d)
qed

lemma refs_freed:
  assumes "refs_ok s" "i < length (ec_chans s)"
  shows "refs_ok (free_chan_ec i s)"
proof -
  obtain c refs where f: "free_echocan (ec_chans s ! i, mod_refs s) = (c, refs)" by fastforce
  have "refs_kept (ec_chans s ! i, mod_refs s) (c, refs)"
    using free_kept [of "ec_chans s ! i" "mod_refs s"] assms f by (simp add: refs_ok_def)
  then show ?thesis using refs_update [OF assms] by (simp add: free_chan_ec_def f)
qed

lemma refs_changed:
  assumes "refs_ok s" "i < length (ec_chans s)" "(ec_state ch = None) = (ec_state (echan (ec_chans s ! i)) = None)"
  shows "refs_ok (s\<lparr>ec_chans := (ec_chans s)[i := set_echan ch (ec_chans s ! i)]\<rparr>)"
proof -
  have "refs_kept (ec_chans s ! i, mod_refs s) (set_echan ch (ec_chans s ! i), mod_refs s)"
    by (rule set_echan_kept) (use assms in \<open>auto simp: refs_ok_def has_ec_def\<close>)
  from refs_update [OF assms(1,2) this] show ?thesis by simp
qed

lemma refs_chan_reg:
  assumes "refs_ok s" "ec_factory c = None" "ec_current c = None"
  shows "refs_ok (reg_chan_ec c s)"
  using assms by (auto simp: reg_chan_ec_def free_echocan_def refs_ok_def current_refs_def release_echocan_def)

lemma sum_list_remove:
  "i < length xs \<Longrightarrow> sum_list (map g xs) = sum_list (map g (take i xs @ drop (Suc i) xs)) + (g (xs ! i) :: int)"
  by (subst id_take_nth_drop [of i xs]) simp_all

lemma refs_chan_unreg:
  assumes ok: "refs_ok s" and i: "i < length (ec_chans s)" "ec_current (ec_chans s ! i) = None"
  shows "refs_ok (unreg_chan_ec i s)"
proof -
  let ?L = "take i (ec_chans s) @ drop (Suc i) (ec_chans s)"
  have sel: "ec_chans (unreg_chan_ec i s) = ?L" "mod_refs (unreg_chan_ec i s) = release_echocan (ec_factory (ec_chans s ! i)) (mod_refs s)"
    by (simp_all add: unreg_chan_ec_def)
  have "mod_refs (unreg_chan_ec i s) f = sum_list (map (current_refs f) ?L)" for f
    using ok sum_list_remove [OF i(1), of "current_refs f"] i(2) unfolding sel refs_ok_def
    by (simp add: current_refs_def [of f "ec_chans s ! i"])
  moreover have "set ?L \<subseteq> set (ec_chans s)"
    using set_take_subset [of i "ec_chans s"] set_drop_subset [of "Suc i" "ec_chans s"] by auto
  then have "\<forall>c \<in> set ?L. ec_current c \<noteq> None \<longrightarrow> has_ec (echan c)" using ok unfolding refs_ok_def by blast
  ultimately show ?thesis unfolding refs_ok_def sel(1) by blast
qed

lemma ec_step_refs:
  assumes "ec_step env safe s s'" and "creates env" and "refs_ok s" and "safe"
  shows "refs_ok s'"
  using assms(1)
proof cases
  case register
  then show ?thesis using assms(3) refs_cong [of s' s] by simp
next
  case unregister
  then show ?thesis using assms(3) refs_cong [of s' s] by (simp add: dahdi_unregister_echocan_factory_def)
next
  case attach
  then show ?thesis using refs_attach [OF assms(3)] by simp
next
  case ioctl
  then show ?thesis using refs_ioctl [OF assms(2,3)] by simp
next
  case chunks
  then show ?thesis using refs_chunks [OF assms(3)] by simp
next
  case freed
  then show ?thesis using refs_freed [OF assms(3)] by simp
next
  case changed
  then show ?thesis using refs_changed [OF assms(3)] by simp
next
  case chan_reg
  then show ?thesis using refs_chan_reg [OF assms(3)] assms(4) by simp
next
  case chan_unreg
  then show ?thesis using refs_chan_unreg [OF assms(3)] assms(4) by simp
qed

lemma ec_run_refs: "ec_run env ok s s' \<Longrightarrow> ok \<Longrightarrow> creates env \<Longrightarrow> refs_ok s \<Longrightarrow> refs_ok s'"
proof (induction rule: ec_run.induct)
  case (ec_more ok s s' safe s'')
  then show ?case using ec_step_refs [of env safe s' s''] by simp
qed simp

text \<open>C7. The core's references on echo canceller modules stay balanced: from a state where each pointer of a registered
  channel to a module's factory holds one reference (as when there is no channel yet), any sequence of registrations of
  factories, attachments, echo canceller ioctls, audio, opening, closing, switching to data, and safe registrations and
  unregistrations of channels leaves it so, and a channel that runs a module's instance still has that instance; so a
  module whose count is zero is used by no registered channel. A channel is registered safely when it has neither a
  canceller nor a factory from an earlier registration, and unregistered safely when no module's instance runs on it:
  \<open>dahdi_chan_unreg\<close> does not ensure either (\<open>factory_released_twice\<close>). The modules must keep the contract of
  \<open>echocan_create\<close>, to create an instance whenever they return success.\<close>

theorem module_references_balanced:
  assumes "ec_run env True s s'" and "creates env" and "refs_ok s"
  shows "refs_ok s' \<and> (mod_refs s' f = 0 \<longrightarrow>
    (\<forall>c \<in> set (ec_chans s'). ec_factory c \<noteq> Some f \<and> ec_current c \<noteq> Some f))"
proof -
  have ok: "refs_ok s'" using ec_run_refs [OF assms(1) _ assms(2,3)] by simp
  have "ec_factory c \<noteq> Some f \<and> ec_current c \<noteq> Some f" if z: "mod_refs s' f = 0" and c: "c \<in> set (ec_chans s')" for c
  proof -
    have "0 \<le> x" if "x \<in> set (map (current_refs f) (ec_chans s'))" for x
      using that by (auto simp: current_refs_def)
    moreover have "sum_list (map (current_refs f) (ec_chans s')) = 0" using ok z by (simp add: refs_ok_def)
    ultimately have "\<forall>x \<in> set (map (current_refs f) (ec_chans s')). x = 0"
      using sum_list_nonneg_eq_0_iff by blast
    then have "current_refs f c = 0" using c by simp
    then show ?thesis by (auto simp: current_refs_def split: if_splits)
  qed
  then show ?thesis using ok by blast
qed

text \<open>A channel with a factory that is unregistered, registered and unregistered again gives up two references of one.\<close>

lemma factory_released_twice:
  assumes "ec_chans s = [c]" "ec_factory c = Some f" "ec_current c = None" "ec_state (echan c) = None"
  shows "mod_refs (unreg_chan_ec 0 (reg_chan_ec c (unreg_chan_ec 0 s))) f = mod_refs s f - 2"
  using assms by (simp add: unreg_chan_ec_def reg_chan_ec_def free_echocan_def)

definition ec_sys_ex :: ec_sys where
  "ec_sys_ex = \<lparr>ecfactory_list = [0], fac_name = (\<lambda>_. ''MG2''), mod_refs = (\<lambda>f. if f = 0 then 2 else 0), ec_chans = [ec_chan_ex]\<rparr>"

theorem module_references_balanced_witness:
  "refs_ok (chan_ioctl ec_env0 ec_ops0 (DAHDI_ECHOCANCEL 0) 0 ec_sys_ex)"
proof -
  have ok: "refs_ok ec_sys_ex"
    by (simp add: refs_ok_def ec_sys_ex_def ec_chan_ex_def current_refs_def has_ec_def)
  have c: "creates ec_env0" by (simp add: creates_def ec_env0_def)
  have "ec_step ec_env0 True ec_sys_ex (chan_ioctl ec_env0 ec_ops0 (DAHDI_ECHOCANCEL 0) 0 ec_sys_ex)"
    by (rule ec_step.ioctl) (simp add: ec_sys_ex_def)
  then have "ec_run ec_env0 True ec_sys_ex (chan_ioctl ec_env0 ec_ops0 (DAHDI_ECHOCANCEL 0) 0 ec_sys_ex)"
    using ec_more [OF ec_refl] by fastforce
  from module_references_balanced [OF this c ok] show ?thesis by blast
qed

section \<open>Modes\<close>

text \<open>Where a mode may go in one millisecond of received audio, with the events the canceller reports.\<close>

fun rx_next :: "echocan_mode \<Rightarrow> echocan_mode set" where
  "rx_next ECHO_MODE_IDLE = {ECHO_MODE_IDLE}"
| "rx_next ECHO_MODE_PRETRAINING = {ECHO_MODE_PRETRAINING, ECHO_MODE_STARTTRAINING}"
| "rx_next ECHO_MODE_STARTTRAINING = {ECHO_MODE_STARTTRAINING}"
| "rx_next ECHO_MODE_AWAITINGECHO = {ECHO_MODE_TRAINING, ECHO_MODE_ACTIVE}"
| "rx_next ECHO_MODE_TRAINING = {ECHO_MODE_TRAINING, ECHO_MODE_ACTIVE}"
| "rx_next ECHO_MODE_ACTIVE = {ECHO_MODE_ACTIVE, ECHO_MODE_FAX, ECHO_MODE_IDLE}"
| "rx_next ECHO_MODE_FAX = {ECHO_MODE_FAX, ECHO_MODE_ACTIVE}"

lemma train_mode:
  "ec_mode (ec_train_sample ops x ec) \<in> (if echo_mode_mute (ec_mode ec) then rx_next (ec_mode ec) else {ec_mode ec})"
  by (cases "ec_mode ec") (auto simp: ec_train_sample_def ec_pretrain_def Let_def split: option.splits prod.splits)

lemma train_modes:
  "echo_mode_mute m \<Longrightarrow> ec_mode ec \<in> rx_next m \<Longrightarrow>
   ec_mode (fold (\<lambda>x. ec_train_sample ops (f x)) xs ec) \<in> rx_next m"
proof (induction xs arbitrary: ec)
  case (Cons x xs)
  have "ec_mode (ec_train_sample ops (f x) ec) \<in> rx_next m"
    using train_mode [of ops "f x" ec] Cons.prems by (cases m; cases "ec_mode ec") auto
  then show ?case using Cons by simp
qed simp

lemma fax_mode_modes:
  "ec_state c = Some ec \<Longrightarrow> ec_mode ec = ECHO_MODE_ACTIVE \<Longrightarrow>
   \<exists>ec'. ec_state (set_echocan_fax_mode ops True c) = Some ec' \<and> ec_mode ec' \<in> {ECHO_MODE_FAX, ECHO_MODE_IDLE}"
  by (simp add: set_echocan_fax_mode_def)

definition mode_in :: "echocan_mode set \<Rightarrow> dahdi_chan \<Rightarrow> bool" where
  "mode_in M c \<longleftrightarrow> (case ec_state c of None \<Rightarrow> False | Some ec \<Rightarrow> ec_mode ec \<in> M)"

lemma mode_in_qevent [simp]: "mode_in M (qevent e c) = mode_in M c"
  by (simp add: mode_in_def qevent_def wake_def Let_def)

lemma mode_in_set [simp]: "mode_in M (set_ec_mode m c) \<longleftrightarrow> has_ec c \<and> m \<in> M"
  by (auto simp: mode_in_def set_ec_mode_def has_ec_def split: option.splits)

lemma mode_in_has_ec: "mode_in M c \<Longrightarrow> has_ec c"
  by (auto simp: mode_in_def has_ec_def split: option.splits)

lemma mode_in_ced:
  "mode_in M c \<Longrightarrow> (ECHO_MODE_ACTIVE \<in> M \<longrightarrow> ECHO_MODE_FAX \<in> M \<and> ECHO_MODE_IDLE \<in> M) \<Longrightarrow> mode_in M (ced_detected ops e c)"
  using fax_mode_modes [of "qevent e c" _ ops]
  by (fastforce simp: ced_detected_def Let_def mode_in_def qevent_ec split: option.splits)

text \<open>Events of a canceller that runs: from voice mode anything but training, from fax mode to fax or voice mode.\<close>

lemma mode_in_events:
  assumes "mode_in {m} c" and "m = ECHO_MODE_ACTIVE \<or> m = ECHO_MODE_FAX"
  shows "mode_in (rx_next m) (process_echocan_events ops ev c)"
proof -
  have c1: "mode_in (if m = ECHO_MODE_ACTIVE then rx_next m else {m}) c"
    using assms by (auto simp: mode_in_def split: option.splits)
  let ?M = "if m = ECHO_MODE_ACTIVE then rx_next m else {m}"
  have g: "ECHO_MODE_ACTIVE \<in> ?M \<longrightarrow> ECHO_MODE_FAX \<in> ?M \<and> ECHO_MODE_IDLE \<in> ?M" by simp
  define c4 where "c4 = (let chan = (if CED_tx_detected ev then ced_detected ops EVENT_TX_CED_DETECTED c else c);
          chan = (if CED_rx_detected ev then ced_detected ops EVENT_RX_CED_DETECTED chan else chan);
          chan = (if CNG_tx_detected ev then qevent EVENT_TX_CNG_DETECTED chan else chan)
      in if CNG_rx_detected ev then qevent EVENT_RX_CNG_DETECTED chan else chan)"
  have c4: "mode_in ?M c4" using c1 g by (simp add: c4_def Let_def mode_in_ced)
  have sub: "mode_in (rx_next m) c4" using c4 assms(2) by (auto simp: mode_in_def split: option.splits)
  have e: "process_echocan_events ops ev c =
      (let chan = (if NLP_auto_disabled ev then set_ec_mode ECHO_MODE_FAX (qevent EVENT_EC_NLP_DISABLED c4) else c4)
       in if NLP_auto_enabled ev then set_ec_mode ECHO_MODE_ACTIVE (qevent EVENT_EC_NLP_ENABLED chan) else chan)"
    by (simp add: process_echocan_events_def c4_def Let_def)
  have m: "ECHO_MODE_FAX \<in> rx_next m" "ECHO_MODE_ACTIVE \<in> rx_next m" using assms(2) by auto
  show ?thesis
    unfolding e Let_def using sub m mode_in_has_ec [OF sub] by simp
qed

text \<open>A received chunk; in every stage of training it is replaced by silence and no event is reported.\<close>

lemma ec_chunk_modes:
  assumes "ec_state ch = Some ec" and "ec_chunk ops rx tx ch = (rx', ch')"
  shows "mode_in (rx_next (ec_mode ec)) ch' \<and>
    (echo_mode_mute (ec_mode ec) \<longrightarrow> rx' = replicate 8 (lin2x ch 0) \<and> evring ch' = evring ch \<and> eff ch' = eff ch)"
proof -
  define c1 where "c1 = (case readchunkpreec ch of None \<Rightarrow> ch
     | Some _ \<Rightarrow> ch\<lparr>readchunkpreec := Some (map (\<lambda>x. xlaw ch (rx ! x)) [0..<DAHDI_CHUNKSIZE])\<rparr>)"
  have c1: "ec_state c1 = Some ec" "evring c1 = evring ch" "eff c1 = eff ch" "lin2x c1 = lin2x ch"
    using assms(1) by (simp_all add: c1_def split: option.splits)
  have e: "(rx', ch') = (if echo_mode_mute (ec_mode ec) then
               let (rx, ec) = ec_train_chunk ops rx c1 ec in (rx, c1\<lparr>ec_state := Some ec\<rparr>)
             else if ec_mode ec \<noteq> ECHO_MODE_IDLE then
               let (rx, ec) = ec_process_chunk ops rx tx c1 ec;
                   ss = c1\<lparr>ec_state := Some ec\<rparr>
               in (rx, if ec_events ec \<noteq> no_events then process_echocan_events ops (ec_events ec) ss else ss)
             else (rx, c1))"
    using assms(2) c1(1) by (simp only: ec_chunk_def Let_def c1_def [symmetric] option.case)
  show ?thesis
  proof (cases "echo_mode_mute (ec_mode ec)")
    case True
    have "ec_mode (fold (\<lambda>x. ec_train_sample ops (xlaw c1 (rx ! x))) [0..<8] ec) \<in> rx_next (ec_mode ec)"
      using train_modes [OF True, of "ec_train_sample ops (xlaw c1 (rx ! 0)) ec" ops "\<lambda>x. xlaw c1 (rx ! x)" "[1..<8]"]
        train_mode [of ops "xlaw c1 (rx ! 0)" ec] True by (simp add: upt_conv_Cons)
    moreover have "map (\<lambda>_. b) [0..<8] = replicate 8 b" for b :: byte
      by (simp add: map_replicate_const)
    ultimately show ?thesis
      using e True c1 by (simp add: ec_train_chunk_def mode_in_def)
  next
    case False
    show ?thesis
    proof (cases "ec_mode ec = ECHO_MODE_IDLE")
      case True
      then show ?thesis using e c1 by (simp add: mode_in_def)
    next
      case run: False
      obtain rx2 ec2 where p: "ec_process_chunk ops rx tx c1 ec = (rx2, ec2)"
        by (cases "ec_process_chunk ops rx tx c1 ec")
      have m: "ec_mode ec2 = ec_mode ec"
        using p by (auto simp: ec_process_chunk_def Let_def split: option.splits prod.splits)
      have AF: "ec_mode ec = ECHO_MODE_ACTIVE \<or> ec_mode ec = ECHO_MODE_FAX" using False run by (cases "ec_mode ec") auto
      have i: "mode_in {ec_mode ec} (c1\<lparr>ec_state := Some ec2\<rparr>)" by (simp add: mode_in_def m)
      have "mode_in (rx_next (ec_mode ec)) (c1\<lparr>ec_state := Some ec2\<rparr>)" using AF by (auto simp: mode_in_def m)
      then have "mode_in (rx_next (ec_mode ec)) ch'"
        using e False run p mode_in_events [OF i AF, of ops "ec_events ec2"]
        by (auto simp: Let_def split: if_splits)
      then show ?thesis using False by simp
    qed
  qed
qed

end
