(* ===== verification/Conf.thy ===== *)
theory Conf
  imports Chan Law
begin

text \<open>
  Conferences of \<open>dahdi-base.c\<close>: the numbers users give them and the slots of the sums they are mixed in
  (\<open>confalias\<close>, \<open>confrev\<close>), who is in a conference, the links between conferences, and the ioctls. \<open>chans\<close> is
  the table of registered channels. The slots are proved consistent along every run whose steps are safe; a theorem shows what an
  unsafe unregistration does. An access outside a table or through a NULL pointer is the result \<open>None\<close>.
\<close>

section \<open>Modes\<close>

abbreviation (input) DAHDI_MAX_CHANNELS :: nat where "DAHDI_MAX_CHANNELS \<equiv> 1024"
abbreviation (input) DAHDI_MAX_CONF :: nat where "DAHDI_MAX_CONF \<equiv> 1024"
abbreviation (input) CONF_NORMAL :: int where "CONF_NORMAL \<equiv> 0"
abbreviation (input) CONF_MONITOR :: int where "CONF_MONITOR \<equiv> 1"
abbreviation (input) CONF_MONITORTX :: int where "CONF_MONITORTX \<equiv> 2"
abbreviation (input) CONF_MONITORBOTH :: int where "CONF_MONITORBOTH \<equiv> 3"
abbreviation (input) CONF_CONF :: int where "CONF_CONF \<equiv> 4"
abbreviation (input) CONF_CONFANN :: int where "CONF_CONFANN \<equiv> 5"
abbreviation (input) CONF_CONFMON :: int where "CONF_CONFMON \<equiv> 6"
abbreviation (input) CONF_CONFANNMON :: int where "CONF_CONFANNMON \<equiv> 7"
abbreviation (input) CONF_REALANDPSEUDO :: int where "CONF_REALANDPSEUDO \<equiv> 8"
abbreviation (input) CONF_DIGITALMON :: int where "CONF_DIGITALMON \<equiv> 9"
abbreviation (input) CONF_MONITOR_RX_PREECHO :: int where "CONF_MONITOR_RX_PREECHO \<equiv> 10"
abbreviation (input) CONF_MONITOR_TX_PREECHO :: int where "CONF_MONITOR_TX_PREECHO \<equiv> 11"
abbreviation (input) CONF_MONITORBOTH_PREECHO :: int where "CONF_MONITORBOTH_PREECHO \<equiv> 12"

definition conf_mode :: "int \<Rightarrow> int" where
  "conf_mode m = m AND 0xff"

definition conf_flag :: "int \<Rightarrow> nat \<Rightarrow> bool" where
  "conf_flag m n \<longleftrightarrow> bit m n"

abbreviation (input) CONF_LISTENER :: nat where "CONF_LISTENER \<equiv> 8"
abbreviation (input) CONF_TALKER :: nat where "CONF_TALKER \<equiv> 9"
abbreviation (input) CONF_PSEUDO_LISTENER :: nat where "CONF_PSEUDO_LISTENER \<equiv> 10"
abbreviation (input) CONF_PSEUDO_TALKER :: nat where "CONF_PSEUDO_TALKER \<equiv> 11"

definition is_conf_mode :: "int \<Rightarrow> bool" where
  "is_conf_mode m \<longleftrightarrow> conf_mode m \<in> {CONF_CONF, CONF_CONFANN, CONF_CONFMON, CONF_CONFANNMON, CONF_REALANDPSEUDO}"

definition is_preecho_mode :: "int \<Rightarrow> bool" where
  "is_preecho_mode m \<longleftrightarrow> conf_mode m \<in> {CONF_MONITOR_RX_PREECHO, CONF_MONITOR_TX_PREECHO, CONF_MONITORBOTH_PREECHO}"

definition is_monitor_mode :: "int \<Rightarrow> bool" where
  "is_monitor_mode m \<longleftrightarrow> conf_mode m \<in> {CONF_MONITOR, CONF_MONITORTX, CONF_MONITORBOTH} \<or> is_preecho_mode m"

section \<open>The state\<close>

record conf_sys =
  chans :: "dahdi_chan option list"
  maxchans :: nat
  confalias :: "int list"
  confrev :: "int list"
  conf_links :: "(int \<times> int) list"
  maxconfs :: nat
  maxlinks :: nat

definition upd_chan :: "nat \<Rightarrow> (dahdi_chan \<Rightarrow> dahdi_chan) \<Rightarrow> conf_sys \<Rightarrow> conf_sys" where
  "upd_chan i f s = s\<lparr>chans := (chans s)[i := map_option f (chans s ! i)]\<rparr>"

definition conf_sys0 :: conf_sys where
  "conf_sys0 = \<lparr>chans = replicate 1024 None, maxchans = 0, confalias = replicate 1025 0, confrev = replicate 1025 0,
     conf_links = replicate 1025 (0, 0), maxconfs = 0, maxlinks = 0\<rparr>"

section \<open>Aliases\<close>

definition first_empty_alias :: "conf_sys \<Rightarrow> int" where
  "first_empty_alias s = (case List.find (\<lambda>x. confrev s ! x = 0) [1..<DAHDI_MAX_CONF] of Some x \<Rightarrow> int x | None \<Rightarrow> - 1)"

definition recalc_maxconfs :: "conf_sys \<Rightarrow> conf_sys" where
  "recalc_maxconfs s =
     s\<lparr>maxconfs := (case List.find (\<lambda>x. confrev s ! x \<noteq> 0) (rev [1..<DAHDI_MAX_CONF]) of Some x \<Rightarrow> x + 1 | None \<Rightarrow> 0)\<rparr>"

definition recalc_maxlinks :: "conf_sys \<Rightarrow> conf_sys" where
  "recalc_maxlinks s =
     s\<lparr>maxlinks := (case List.find (\<lambda>x. fst (conf_links s ! x) \<noteq> 0 \<or> snd (conf_links s ! x) \<noteq> 0) (rev [1..<DAHDI_MAX_CONF]) of
         Some x \<Rightarrow> x + 1 | None \<Rightarrow> 0)\<rparr>"

definition first_empty_conference :: "conf_sys \<Rightarrow> int" where
  "first_empty_conference s =
     (case List.find (\<lambda>x. confalias s ! x = 0) (rev [1..<DAHDI_MAX_CONF]) of Some x \<Rightarrow> int x | None \<Rightarrow> - 1)"

definition get_conf_alias :: "nat \<Rightarrow> conf_sys \<Rightarrow> (int \<times> conf_sys) option" where
  "get_conf_alias x s =
     (if confalias s ! x \<noteq> 0 then Some (confalias s ! x, s)
      else
        let a = first_empty_alias s
        in if a < 0 then None
           else Some (a, recalc_maxconfs (s\<lparr>confalias := (confalias s)[x := a], confrev := (confrev s)[nat a := int x]\<rparr>)))"

definition conf_member :: "conf_sys \<Rightarrow> nat \<Rightarrow> int \<Rightarrow> bool" where
  "conf_member s y x \<longleftrightarrow> (case chans s ! y of None \<Rightarrow> False | Some c \<Rightarrow> confna c = x \<and> is_conf_mode (confmode c))"

definition check_conf :: "int \<Rightarrow> conf_sys \<Rightarrow> conf_sys" where
  "check_conf x s =
     (if x \<le> 0 then s
      else if confalias s ! nat x = 0 then s
      else if \<exists>y \<in> set [0..<maxchans s]. conf_member s y x then s
      else recalc_maxconfs (s\<lparr>confrev := (confrev s)[nat (confalias s ! nat x) := 0], confalias := (confalias s)[nat x := 0]\<rparr>))"

section \<open>Joining and leaving\<close>

record confinfo =
  ci_chan :: int
  ci_confno :: int
  ci_confmode :: int

text \<open>The outer \<open>None\<close>: not an index of the table.\<close>

definition chan_at :: "conf_sys \<Rightarrow> int \<Rightarrow> dahdi_chan option option" where
  "chan_at s i = (if 0 \<le> i \<and> i < int DAHDI_MAX_CHANNELS then Some (chans s ! nat i) else None)"

definition ioctl_getconf :: "int \<Rightarrow> confinfo \<Rightarrow> conf_sys \<Rightarrow> (int + confinfo) option" where
  "ioctl_getconf me ci s =
     (let i = (if ci_chan ci = 0 then me else ci_chan ci)
      in if i < 0 \<or> i > int DAHDI_MAX_CONF then Some (Inl (- EINVAL))
         else case chan_at s i of
                None \<Rightarrow> None
              | Some None \<Rightarrow> Some (Inl (- EINVAL))
              | Some (Some c) \<Rightarrow>
                  if \<not> flagged c FLAGBIT_AUDIO then Some (Inl (- EINVAL))
                  else Some (Inr \<lparr>ci_chan = i, ci_confno = confna c, ci_confmode = confmode c\<rparr>))"

text \<open>The checks of \<open>DAHDI_SETCONF\<close>: the error, or the channel to act on.\<close>

definition setconf_check :: "int \<Rightarrow> confinfo \<Rightarrow> conf_sys \<Rightarrow> (int + nat) option" where
  "setconf_check me ci s =
     (let i = (if ci_chan ci = 0 then me else ci_chan ci); no = ci_confno ci; mode = ci_confmode ci
      in if i < 1 \<or> i > int DAHDI_MAX_CHANNELS then Some (Inl (- EINVAL))
         else case chan_at s i of
                None \<Rightarrow> None
              | Some None \<Rightarrow> Some (Inl (- EINVAL))
              | Some (Some c) \<Rightarrow>
                  if \<not> flagged c FLAGBIT_AUDIO then Some (Inl (- EINVAL))
                  else if (if is_monitor_mode mode
                           then no < 0 \<or> no \<ge> int DAHDI_MAX_CHANNELS \<or> chan_at s no = Some None
                           else no < - 1 \<or> no > int DAHDI_MAX_CONF) then Some (Inl (- EINVAL))
                  else if no = 0 \<and> mode \<noteq> 0 then Some (Inl (- EINVAL))
                  else if mode = 0 \<and> no \<noteq> 0 then Some (Inl (- EINVAL))
                  else Some (Inr (nat i)))"

text \<open>\<open>memset (..., DAHDI_MAX_CHUNKSIZE)\<close>: eight bytes of the eight samples.\<close>

definition clear_last :: "int list \<Rightarrow> int list" where
  "clear_last xs = replicate 4 0 @ drop 4 xs"

definition set_membership :: "int \<Rightarrow> int \<Rightarrow> dahdi_chan \<Rightarrow> dahdi_chan" where
  "set_membership no mode c =
     (let c = (if no \<noteq> confna c
               then c\<lparr>conflast := clear_last (conflast c), conflast1 := clear_last (conflast1 c), conflast2 := clear_last (conflast2 c)\<rparr>
               else c)
      in c\<lparr>confna := no, confmode := mode, confn := 0\<rparr>)"

text \<open>
  Telling the span to connect the two channels itself. \<open>dacs_of\<close> is the \<open>dacs\<close> function of a span; a channel's
  gain tables are \<open>defgain\<close> when it has none of its own.
\<close>

definition setconf_dacs :: "(int \<Rightarrow> nat option) \<Rightarrow> nat \<Rightarrow> int \<Rightarrow> int \<Rightarrow> conf_sys \<Rightarrow> conf_sys option" where
  "setconf_dacs dacs_of i no mode s =
     (let dacs = (\<lambda>c. case chan_span c of None \<Rightarrow> None | Some sp \<Rightarrow> dacs_of sp)
      in case chans s ! i of
           None \<Rightarrow> None
         | Some c \<Rightarrow>
             if dacs c = None then Some s
             else if conf_mode mode = CONF_DIGITALMON then
               (case chan_at s no of
                  Some (Some d) \<Rightarrow>
                    Some (upd_chan i (emit (SpanDacs
                      (if dacs d = dacs c \<and> \<not> gainalloc c \<and> \<not> gainalloc d then Some no else None))) s)
                | _ \<Rightarrow> None)
             else Some (upd_chan i (emit (SpanDacs None)) s))"

text \<open>The copy of the audio before echo cancellation that a monitor asks for, on the channel \<open>no\<close>.\<close>

definition setconf_preecho :: "bool \<Rightarrow> int \<Rightarrow> int \<Rightarrow> conf_sys \<Rightarrow> conf_sys option" where
  "setconf_preecho alloc no mode s =
     (case chan_at s no of
        None \<Rightarrow> None
      | Some None \<Rightarrow> Some s
      | Some (Some d) \<Rightarrow>
          Some (upd_chan (nat no)
            (readchunkpreec_update (\<lambda>_. if is_preecho_mode mode \<and> alloc then Some (replicate 8 0) else None)) s))"

definition setconf_join :: "bool \<Rightarrow> (int \<Rightarrow> nat option) \<Rightarrow> nat \<Rightarrow> int \<Rightarrow> int \<Rightarrow> conf_sys \<Rightarrow> conf_sys option" where
  "setconf_join alloc dacs_of i no mode s =
     (case chans s ! i of
        None \<Rightarrow> None
      | Some c \<Rightarrow>
          (case setconf_dacs dacs_of i no mode
                  (check_conf no (check_conf (confna c) (upd_chan i (set_membership no mode) s))) of
             None \<Rightarrow> None
           | Some s \<Rightarrow>
               (if no \<noteq> 0 \<and> is_conf_mode mode
                then case get_conf_alias (nat no) s of
                       None \<Rightarrow> None
                     | Some (a, s) \<Rightarrow> setconf_preecho alloc no mode (upd_chan i (confn_update (\<lambda>_. a)) s)
                else setconf_preecho alloc no mode s)))"

definition ioctl_setconf :: "bool \<Rightarrow> (int \<Rightarrow> nat option) \<Rightarrow> int \<Rightarrow> confinfo \<Rightarrow> conf_sys \<Rightarrow> ((int + confinfo) \<times> conf_sys) option" where
  "ioctl_setconf alloc dacs_of me ci s =
     (case setconf_check me ci s of
        None \<Rightarrow> None
      | Some (Inl e) \<Rightarrow> Some (Inl e, s)
      | Some (Inr i) \<Rightarrow>
          let no = (if ci_confno ci = - 1 then first_empty_conference s else ci_confno ci)
          in if no < 1 \<and> ci_confmode ci \<noteq> 0 then Some (Inl (- EBUSY), s)
             else case setconf_join alloc dacs_of i no (ci_confmode ci) s of
                    None \<Rightarrow> None
                  | Some s \<Rightarrow> Some (Inr \<lparr>ci_chan = int i, ci_confno = no, ci_confmode = ci_confmode ci\<rparr>, s))"

section \<open>Links\<close>

definition find_link :: "int \<times> int \<Rightarrow> conf_sys \<Rightarrow> nat option" where
  "find_link l s = List.find (\<lambda>i. conf_links s ! i = l) [1..<Suc DAHDI_MAX_CONF]"

definition set_link :: "nat \<Rightarrow> int \<times> int \<Rightarrow> conf_sys \<Rightarrow> conf_sys" where
  "set_link i l s = s\<lparr>conf_links := (conf_links s)[i := l]\<rparr>"

definition ioctl_conflink :: "bool \<Rightarrow> confinfo \<Rightarrow> conf_sys \<Rightarrow> int \<times> conf_sys" where
  "ioctl_conflink audio ci s =
     (let src = ci_chan ci; dst = ci_confno ci
      in if \<not> audio then (- EINVAL, s)
         else if src < 0 \<or> src > int DAHDI_MAX_CONF then (- EINVAL, s)
         else if dst < 0 \<or> dst > int DAHDI_MAX_CONF then (- EINVAL, s)
         else if src \<noteq> 0 \<and> src = dst then (- EINVAL, s)
         else if src = 0 \<and> dst = 0 then (0, recalc_maxlinks (s\<lparr>conf_links := replicate 1025 (0, 0)\<rparr>))
         else case find_link (src, dst) s of
                Some i \<Rightarrow>
                  if ci_confmode ci = 0 then (0, recalc_maxlinks (set_link i (0, 0) s)) else (- EEXIST, recalc_maxlinks s)
              | None \<Rightarrow>
                  if ci_confmode ci \<noteq> 0 then
                    (case find_link (0, 0) s of
                       Some i \<Rightarrow> (0, recalc_maxlinks (set_link i (src, dst) s))
                     | None \<Rightarrow> (- ENOSPC, recalc_maxlinks s))
                  else (- ENOENT, recalc_maxlinks s))"

section \<open>The table of channels\<close>

text \<open>\<open>dahdi_chan_reg\<close>: the first free place (the channel was closed before).\<close>

definition register_chan :: "dahdi_chan \<Rightarrow> conf_sys \<Rightarrow> int \<times> conf_sys" where
  "register_chan c s =
     (case List.find (\<lambda>x. chans s ! x = None) [1..<DAHDI_MAX_CHANNELS] of
        None \<Rightarrow> (- ENOMEM, s)
      | Some x \<Rightarrow>
          (0, s\<lparr>chans := (chans s)[x := Some (set_flag FLAGBIT_REGISTERED (c\<lparr>channo := int x\<rparr>))],
                maxchans := (if maxchans s < x + 1 then x + 1 else maxchans s)\<rparr>))"

text \<open>The conferences of a channel that is closed.\<close>

definition close_conf_fields :: "dahdi_chan \<Rightarrow> dahdi_chan" where
  "close_conf_fields c =
     (let c = c\<lparr>confn := 0\<rparr>;
          c = (if sig c AND SIG_MASK_DACS \<noteq> SIG_MASK_DACS then c\<lparr>confna := 0, confmode := 0\<rparr> else c)
      in c\<lparr>confmute := 0\<rparr>)"

definition close_conf :: "nat \<Rightarrow> conf_sys \<Rightarrow> conf_sys" where
  "close_conf i s =
     (case chans s ! i of
        None \<Rightarrow> s
      | Some c \<Rightarrow>
          let oldconf = confna c; s = upd_chan i close_conf_fields s
          in if oldconf \<noteq> 0 then check_conf oldconf s else s)"

text \<open>\<open>dahdi_chan_unreg\<close>: one turn of its loop, and the whole.\<close>

definition listens_to :: "int \<Rightarrow> dahdi_chan \<Rightarrow> bool" where
  "listens_to m c \<longleftrightarrow> confna c = m \<and> (is_monitor_mode (confmode c) \<or> conf_mode (confmode c) = CONF_DIGITALMON)"

definition unreg_visit :: "(int \<Rightarrow> nat option) \<Rightarrow> int \<Rightarrow> nat \<Rightarrow> conf_sys \<Rightarrow> conf_sys" where
  "unreg_visit dacs_of m x s =
     (case chans s ! x of
        None \<Rightarrow> s
      | Some c \<Rightarrow>
          let s = s\<lparr>maxchans := x + 1\<rparr>;
              s = (if master c = m then upd_chan x (master_update (\<lambda>_. int x)) s else s)
          in if listens_to m c then
               let s = (if confna c \<noteq> 0 then
                          let s = check_conf (confna c) s
                          in if (case chan_span c of None \<Rightarrow> None | Some sp \<Rightarrow> dacs_of sp) \<noteq> None
                             then upd_chan x (emit (SpanDacs None)) s else s
                        else s)
               in upd_chan x (\<lambda>c. c\<lparr>confna := 0, confn := 0, confmode := 0\<rparr>) s
             else s)"

definition dahdi_chan_unreg :: "(int \<Rightarrow> nat option) \<Rightarrow> dahdi_chan \<Rightarrow> conf_sys \<Rightarrow> dahdi_chan \<times> conf_sys" where
  "dahdi_chan_unreg dacs_of chan s =
     (let s1 = (if flagged chan FLAGBIT_REGISTERED then s\<lparr>chans := (chans s)[nat (channo chan) := None]\<rparr> else s);
          c1 = (if flagged chan FLAGBIT_REGISTERED then clear_flag FLAGBIT_REGISTERED chan else chan)
      in (c1\<lparr>channo := - 1\<rparr>,
          fold (unreg_visit dacs_of (channo chan)) [1..<DAHDI_MAX_CHANNELS] (s1\<lparr>maxchans := 0\<rparr>)))"

definition ioctl_confmute :: "int \<Rightarrow> dahdi_chan \<Rightarrow> int \<times> dahdi_chan" where
  "ioctl_confmute j c = (if \<not> flagged c FLAGBIT_AUDIO then (- EINVAL, c) else (0, c\<lparr>confmute := j\<rparr>))"

text \<open>\<open>dahdi_set_law\<close>: the law asked for, else the channel's, else its span's.\<close>

definition dahdi_set_law :: "(int \<Rightarrow> dahdi_span) \<Rightarrow> int \<Rightarrow> dahdi_chan \<Rightarrow> dahdi_chan" where
  "dahdi_set_law spans law c =
     (let law = (if law = 0 then
                   if deflaw c \<noteq> 0 then deflaw c
                   else case chan_span c of Some sp \<Rightarrow> sp_deflaw (spans sp) | None \<Rightarrow> 1
                 else law)
      in if law = 2 then c\<lparr>xlaw := alaw2linear, lin2x := dahdi_lin2a\<rparr> else c\<lparr>xlaw := mulaw_entry, lin2x := dahdi_lin2mu\<rparr>)"

section \<open>The invariant\<close>

definition tables_ok :: "conf_sys \<Rightarrow> bool" where
  "tables_ok s \<longleftrightarrow> length (chans s) = 1024 \<and> chans s ! 0 = None \<and> length (confalias s) = 1025 \<and>
     length (confrev s) = 1025 \<and> length (conf_links s) = 1025"

definition used_slot :: "conf_sys \<Rightarrow> nat \<Rightarrow> bool" where
  "used_slot s a \<longleftrightarrow> 1 \<le> a \<and> a < 1024 \<and> confrev s ! a \<noteq> 0"

definition alias_ok :: "conf_sys \<Rightarrow> bool" where
  "alias_ok s \<longleftrightarrow> confalias s ! 0 = 0 \<and>
     (\<forall>x. 1 \<le> x \<and> x \<le> 1024 \<and> confalias s ! x \<noteq> 0 \<longrightarrow>
        (\<exists>a. confalias s ! x = int a \<and> 1 \<le> a \<and> a < 1024 \<and> confrev s ! a = int x)) \<and>
     (\<forall>a. used_slot s a \<longrightarrow>
        (\<exists>x. confrev s ! a = int x \<and> 1 \<le> x \<and> x \<le> 1024 \<and> confalias s ! x = int a) \<and> a < maxconfs s) \<and>
     maxconfs s \<le> 1024"

definition members_ok :: "nat set \<Rightarrow> conf_sys \<Rightarrow> bool" where
  "members_ok E s \<longleftrightarrow> (\<forall>y c. y < 1024 \<and> chans s ! y = Some c \<longrightarrow>
     y < maxchans s \<and>
     confna c \<le> 1024 \<and> (is_conf_mode (confmode c) \<longrightarrow> 1 \<le> confna c) \<and>
     (is_conf_mode (confmode c) \<and> y \<notin> E \<longrightarrow> confalias s ! nat (confna c) = confn c \<and> confn c \<noteq> 0))"

definition no_leak :: "int set \<Rightarrow> conf_sys \<Rightarrow> bool" where
  "no_leak X s \<longleftrightarrow> (\<forall>x. 1 \<le> x \<and> x \<le> 1024 \<and> confalias s ! x \<noteq> 0 \<and> int x \<notin> X \<longrightarrow> (\<exists>y < 1024. conf_member s y (int x)))"

definition conf_inv :: "nat set \<Rightarrow> int set \<Rightarrow> conf_sys \<Rightarrow> bool" where
  "conf_inv E X s \<longleftrightarrow> tables_ok s \<and> alias_ok s \<and> members_ok E s \<and> maxchans s \<le> 1024 \<and> no_leak X s"

lemma find_upt_Some: "List.find P [m..<n] = Some x \<Longrightarrow> m \<le> x \<and> x < n \<and> P x"
  by (auto simp: find_Some_iff)

lemma find_rev_Some: "List.find P (rev [m..<n]) = Some x \<Longrightarrow> P x \<and> m \<le> x \<and> x < n \<and> (\<forall>y. x < y \<and> y < n \<longrightarrow> \<not> P y)"
proof (induction n)
  case (Suc n)
  then show ?case by (auto split: if_splits simp: less_Suc_eq)
qed simp

lemma find_rev_None: "List.find P (rev [m..<n]) = None \<longleftrightarrow> (\<forall>y. m \<le> y \<and> y < n \<longrightarrow> \<not> P y)"
  by (auto simp: find_None_iff)

lemma recalc_sel [simp]: "chans (recalc_maxconfs s) = chans s" "maxchans (recalc_maxconfs s) = maxchans s"
  "confalias (recalc_maxconfs s) = confalias s" "confrev (recalc_maxconfs s) = confrev s"
  "conf_links (recalc_maxconfs s) = conf_links s" "maxlinks (recalc_maxconfs s) = maxlinks s"
  by (simp_all add: recalc_maxconfs_def)

lemma recalc_bound: "maxconfs (recalc_maxconfs s) \<le> 1024" "used_slot s a \<Longrightarrow> a < maxconfs (recalc_maxconfs s)"
proof -
  show "maxconfs (recalc_maxconfs s) \<le> 1024"
    by (auto simp: recalc_maxconfs_def split: option.split dest: find_rev_Some)
  assume a: "used_slot s a"
  show "a < maxconfs (recalc_maxconfs s)"
  proof (cases "List.find (\<lambda>x. confrev s ! x \<noteq> 0) (rev [1..<DAHDI_MAX_CONF])")
    case None
    then show ?thesis using a by (simp only: find_rev_None) (auto simp: used_slot_def)
  next
    case (Some x)
    from find_rev_Some [OF this] a have "a \<le> x" by (auto simp: used_slot_def not_less [symmetric])
    then show ?thesis using Some by (simp add: recalc_maxconfs_def)
  qed
qed

lemma upd_chan_sel [simp]: "maxchans (upd_chan i f s) = maxchans s" "confalias (upd_chan i f s) = confalias s"
  "confrev (upd_chan i f s) = confrev s" "conf_links (upd_chan i f s) = conf_links s"
  "maxconfs (upd_chan i f s) = maxconfs s" "maxlinks (upd_chan i f s) = maxlinks s"
  "length (chans (upd_chan i f s)) = length (chans s)"
  "chans (upd_chan i f s) ! j = (if i = j \<and> j < length (chans s) then map_option f (chans s ! j) else chans s ! j)"
  by (simp_all add: upd_chan_def nth_upd)

lemma alias_okD:
  assumes "alias_ok s" and "1 \<le> x" and "x \<le> 1024" and "confalias s ! x \<noteq> 0"
  obtains a where "confalias s ! x = int a" "1 \<le> a" "a < 1024" "confrev s ! a = int x" "used_slot s a" "a < maxconfs s"
proof -
  obtain a where a: "confalias s ! x = int a" "1 \<le> a" "a < 1024" "confrev s ! a = int x"
    using assms unfolding alias_ok_def by blast
  have u: "used_slot s a" using a assms(2) by (simp add: used_slot_def)
  then have "a < maxconfs s" using assms(1) unfolding alias_ok_def by blast
  then show ?thesis using that a u by blast
qed

lemma alias_ok_slot:
  assumes "alias_ok s" and "used_slot s a"
  obtains x where "confrev s ! a = int x" "1 \<le> x" "x \<le> 1024" "confalias s ! x = int a"
  using assms by (auto simp: alias_ok_def)

lemma conf_member_upd:
  "conf_member (s\<lparr>confrev := r, confalias := a\<rparr>) y x = conf_member s y x"
  "conf_member (s\<lparr>confalias := a, confrev := r\<rparr>) y x = conf_member s y x"
  "conf_member (recalc_maxconfs s) y x = conf_member s y x"
  by (simp_all add: conf_member_def)

lemma member_below: "members_ok E s \<Longrightarrow> y < 1024 \<Longrightarrow> conf_member s y x \<Longrightarrow> y < maxchans s"
  by (auto simp: members_ok_def conf_member_def split: option.splits)

lemma members_okI:
  "(\<And>y c. y < 1024 \<Longrightarrow> chans s ! y = Some c \<Longrightarrow> y < maxchans s \<and>
     confna c \<le> 1024 \<and> (is_conf_mode (confmode c) \<longrightarrow> 1 \<le> confna c) \<and>
     (is_conf_mode (confmode c) \<and> y \<notin> E \<longrightarrow> confalias s ! nat (confna c) = confn c \<and> confn c \<noteq> 0)) \<Longrightarrow> members_ok E s"
  unfolding members_ok_def by blast

lemma members_okD:
  "members_ok E s \<Longrightarrow> y < 1024 \<Longrightarrow> chans s ! y = Some c \<Longrightarrow> y < maxchans s \<and>
     confna c \<le> 1024 \<and> (is_conf_mode (confmode c) \<longrightarrow> 1 \<le> confna c) \<and>
     (is_conf_mode (confmode c) \<and> y \<notin> E \<longrightarrow> confalias s ! nat (confna c) = confn c \<and> confn c \<noteq> 0)"
  unfolding members_ok_def by blast

text \<open>Dropping the alias of a conference nobody is in.\<close>

lemma drop_alias:
  assumes inv: "conf_inv E X s" and x: "1 \<le> x" "x \<le> 1024" "confalias s ! x \<noteq> 0"
    and none: "\<And>y. y < 1024 \<Longrightarrow> y \<notin> E \<Longrightarrow> \<not> conf_member s y (int x)"
  shows "conf_inv E (X - {int x})
    (recalc_maxconfs (s\<lparr>confrev := (confrev s)[nat (confalias s ! x) := 0], confalias := (confalias s)[x := 0]\<rparr>))"
proof -
  have t: "tables_ok s" and al: "alias_ok s" and m: "members_ok E s" and n: "no_leak X s" and mc: "maxchans s \<le> 1024"
    using inv by (simp_all add: conf_inv_def)
  have len: "length (confalias s) = 1025" "length (confrev s) = 1025" using t by (simp_all add: tables_ok_def)
  obtain a where a: "confalias s ! x = int a" "1 \<le> a" "a < 1024" "confrev s ! a = int x"
    by (rule alias_okD [OF al x])
  let ?t = "s\<lparr>confrev := (confrev s)[nat (confalias s ! x) := 0], confalias := (confalias s)[x := 0]\<rparr>"
  have ca: "confalias ?t ! z = (if z = x then 0 else confalias s ! z)" for z using x len by (simp add: nth_upd)
  have cr: "confrev ?t ! b = (if b = a then 0 else confrev s ! b)" for b using a len by (simp add: nth_upd)
  have us: "used_slot ?t b \<longleftrightarrow> used_slot s b \<and> b \<noteq> a" for b unfolding used_slot_def cr by simp
  have "alias_ok (recalc_maxconfs ?t)"
    unfolding alias_ok_def
  proof (intro conjI allI impI)
    show "confalias (recalc_maxconfs ?t) ! 0 = 0" using al by (simp add: alias_ok_def nth_upd)
    show "maxconfs (recalc_maxconfs ?t) \<le> 1024" by (rule recalc_bound)
  next
    fix z assume z: "1 \<le> z \<and> z \<le> 1024 \<and> confalias (recalc_maxconfs ?t) ! z \<noteq> 0"
    then have zx: "z \<noteq> x" and z': "1 \<le> z" "z \<le> 1024" "confalias s ! z \<noteq> 0" using ca [of z] by (auto split: if_splits)
    obtain b where b: "confalias s ! z = int b" "1 \<le> b" "b < 1024" "confrev s ! b = int z"
      by (rule alias_okD [OF al z'])
    then have "b \<noteq> a" using a(4) zx by auto
    then show "\<exists>a. confalias (recalc_maxconfs ?t) ! z = int a \<and> 1 \<le> a \<and> a < 1024 \<and> confrev (recalc_maxconfs ?t) ! a = int z"
      using b zx ca [of z] cr [of b] by (intro exI [of _ b]) simp
  next
    fix b assume b: "used_slot (recalc_maxconfs ?t) b"
    then have bt: "used_slot ?t b" by (simp add: used_slot_def)
    then show "b < maxconfs (recalc_maxconfs ?t)" by (rule recalc_bound)
    have "used_slot s b" "b \<noteq> a" using bt us by auto
    then obtain z where z: "confrev s ! b = int z" "1 \<le> z" "z \<le> 1024" "confalias s ! z = int b"
      using alias_ok_slot [OF al] by blast
    have "z \<noteq> x" using z(4) a(1) \<open>b \<noteq> a\<close> by auto
    then show "\<exists>x. confrev (recalc_maxconfs ?t) ! b = int x \<and> 1 \<le> x \<and> x \<le> 1024 \<and> confalias (recalc_maxconfs ?t) ! x = int b"
      using z \<open>b \<noteq> a\<close> ca [of z] cr [of b] by (intro exI [of _ z]) simp
  qed
  moreover have "members_ok E (recalc_maxconfs ?t)"
  proof (rule members_okI)
    fix y c assume y: "y < 1024" "chans (recalc_maxconfs ?t) ! y = Some c"
    then have c: "chans s ! y = Some c" by simp
    have "nat (confna c) \<noteq> x" if "is_conf_mode (confmode c)" "y \<notin> E"
    proof
      assume e: "nat (confna c) = x"
      have "1 \<le> confna c" using members_okD [OF m y(1) c] that(1) by blast
      then have "conf_member s y (int x)" using e c that(1) by (auto simp: conf_member_def)
      then show False using none [OF y(1) that(2)] by blast
    qed
    then show "y < maxchans (recalc_maxconfs ?t) \<and> confna c \<le> 1024 \<and> (is_conf_mode (confmode c) \<longrightarrow> 1 \<le> confna c) \<and>
      (is_conf_mode (confmode c) \<and> y \<notin> E \<longrightarrow> confalias (recalc_maxconfs ?t) ! nat (confna c) = confn c \<and> confn c \<noteq> 0)"
      using members_okD [OF m y(1) c] ca [of "nat (confna c)"] by auto
  qed
  moreover have "no_leak (X - {int x}) (recalc_maxconfs ?t)"
    unfolding no_leak_def
  proof (intro allI impI)
    fix z assume z: "1 \<le> z \<and> z \<le> 1024 \<and> confalias (recalc_maxconfs ?t) ! z \<noteq> 0 \<and> int z \<notin> X - {int x}"
    then have "z \<noteq> x" "confalias s ! z \<noteq> 0" using ca [of z] by (auto split: if_splits)
    then show "\<exists>y < 1024. conf_member (recalc_maxconfs ?t) y (int z)"
      using n z by (auto simp: no_leak_def conf_member_upd)
  qed
  ultimately show ?thesis
    using t mc by (simp add: conf_inv_def tables_ok_def)
qed

lemma check_conf_inv:
  assumes inv: "conf_inv E X s" and x: "x \<le> 1024"
  shows "conf_inv E (X - {x}) (check_conf x s)"
proof -
  consider (none) "x \<le> 0 \<or> confalias s ! nat x = 0" | (some) y where "0 < x" "y < maxchans s" "conf_member s y x"
    | (drop) "0 < x" "confalias s ! nat x \<noteq> 0" "\<forall>y < maxchans s. \<not> conf_member s y x"
    by (meson not_le)
  then show ?thesis
  proof cases
    case none
    then have "no_leak (X - {x}) s" using inv by (auto simp: conf_inv_def no_leak_def)
    then show ?thesis using none inv by (auto simp: check_conf_def conf_inv_def)
  next
    case (some y)
    have "y < 1024" using some(2) inv by (simp add: conf_inv_def)
    then have "no_leak (X - {x}) s" using inv some by (auto simp: conf_inv_def no_leak_def)
    then show ?thesis using some inv by (auto simp: check_conf_def conf_inv_def)
  next
    case drop
    have "\<not> conf_member s y (int (nat x))" if "y < 1024" for y
      using drop(1,3) that member_below [of E s y x] inv by (auto simp: conf_inv_def)
    then have "conf_inv E (X - {int (nat x)}) (recalc_maxconfs (s\<lparr>confrev := (confrev s)[nat (confalias s ! nat x) := 0],
        confalias := (confalias s)[nat x := 0]\<rparr>))"
      using drop x by (intro drop_alias [OF inv]) simp_all
    moreover have "check_conf x s = recalc_maxconfs (s\<lparr>confrev := (confrev s)[nat (confalias s ! nat x) := 0],
        confalias := (confalias s)[nat x := 0]\<rparr>)"
      using drop by (auto simp: check_conf_def)
    ultimately show ?thesis using drop(1) by simp
  qed
qed

text \<open>
  There is a free slot for whoever joins: each slot that is used belongs to a conference with a member, one channel is
  in one conference, and one of the 1023 channels is the one that joins.
\<close>

lemma free_slot:
  assumes inv: "conf_inv {i} {} s" and i: "1 \<le> i" "i < 1024" "conf_member s i (int x)" and x: "1 \<le> x" "x \<le> 1024" "confalias s ! x = 0"
  obtains a where "first_empty_alias s = int a" "1 \<le> a" "a < 1024" "confrev s ! a = 0"
proof (cases "List.find (\<lambda>x. confrev s ! x = 0) [1..<DAHDI_MAX_CONF]")
  case (Some a)
  then show ?thesis using that [of a] find_upt_Some [OF Some] by (simp add: first_empty_alias_def)
next
  case None
  then have full: "used_slot s a" if "a \<in> {1..<1024}" for a
    using that by (auto simp: find_None_iff used_slot_def)
  have al: "alias_ok s" and n: "no_leak {} s" and t: "tables_ok s" using inv by (simp_all add: conf_inv_def)
  have ex: "\<exists>y. y \<in> {1..<1024} \<and> conf_member s y (confrev s ! a)" if A: "a \<in> {1..<1024}" for a
  proof -
    obtain z where z: "confrev s ! a = int z" "1 \<le> z" "z \<le> 1024" "confalias s ! z = int a"
      using alias_ok_slot [OF al full [OF A]] by blast
    then obtain y where y: "y < 1024" "conf_member s y (int z)" using n A by (fastforce simp: no_leak_def)
    have "y \<noteq> 0" using y(2) t by (intro notI) (simp add: conf_member_def tables_ok_def)
    then have "y \<in> {1..<1024}" using y by simp
    then show ?thesis using y z(1) by metis
  qed
  then obtain f where f: "\<And>a. a \<in> {1..<1024} \<Longrightarrow> f a \<in> {1..<1024} \<and> conf_member s (f a) (confrev s ! a)"
    by metis
  have one: "conf_member s y v \<Longrightarrow> conf_member s y w \<Longrightarrow> v = w" for y v w
    by (auto simp: conf_member_def split: option.splits)
  have "inj_on f {1..<1024}"
  proof (rule inj_onI)
    fix a b assume a: "a \<in> {1..<1024}" and b: "b \<in> {1..<1024}" and e: "f a = f b"
    then have r: "confrev s ! a = confrev s ! b" using f [OF a] f [OF b] one by metis
    obtain z where "confrev s ! a = int z" "confalias s ! z = int a"
      using alias_ok_slot [OF al full [OF a]] by blast
    moreover obtain w where "confrev s ! b = int w" "confalias s ! w = int b"
      using alias_ok_slot [OF al full [OF b]] by blast
    ultimately show "a = b" using r by simp
  qed
  moreover have "f ` {1..<1024} \<subseteq> {1..<1024}" using f by blast
  ultimately have "f ` {1..<1024} = {1..<1024}" by (intro endo_inj_surj) simp_all
  then obtain a where a: "a \<in> {1..<1024}" "f a = i" using i by (metis atLeastLessThan_iff imageE)
  then have "confrev s ! a = int x" using f [OF a(1)] i(3) one by blast
  moreover obtain z where "confrev s ! a = int z" "confalias s ! z = int a"
    using alias_ok_slot [OF al full [OF a(1)]] by blast
  ultimately show ?thesis using x a(1) by simp
qed

text \<open>The alias of the conference a channel joins.\<close>

lemma get_alias_inv:
  assumes inv: "conf_inv {i} {} s" and i: "1 \<le> i" "i < 1024" "conf_member s i (int x)" and x: "1 \<le> x" "x \<le> 1024"
  obtains a s' where "get_conf_alias x s = Some (a, s')" "a \<noteq> 0" "confalias s' ! x = a" "conf_inv {i} {} s'" "chans s' = chans s"
proof (cases "confalias s ! x = 0")
  case False
  then show ?thesis using that [of "confalias s ! x" s] inv by (simp add: get_conf_alias_def)
next
  case True
  have t: "tables_ok s" and al: "alias_ok s" and m: "members_ok {i} s" and n: "no_leak {} s" and mc: "maxchans s \<le> 1024"
    using inv by (simp_all add: conf_inv_def)
  have len: "length (confalias s) = 1025" "length (confrev s) = 1025" using t by (simp_all add: tables_ok_def)
  obtain a where a: "first_empty_alias s = int a" "1 \<le> a" "a < 1024" "confrev s ! a = 0"
    using free_slot [OF inv i x True] .
  let ?t = "s\<lparr>confalias := (confalias s)[x := int a], confrev := (confrev s)[a := int x]\<rparr>"
  have ca: "confalias ?t ! z = (if z = x then int a else confalias s ! z)" for z using x len by (simp add: nth_upd)
  have cr: "confrev ?t ! b = (if b = a then int x else confrev s ! b)" for b using a len by (simp add: nth_upd)
  have g: "get_conf_alias x s = Some (int a, recalc_maxconfs ?t)"
    using True a by (simp add: get_conf_alias_def Let_def)
  have fresh: "confalias s ! z \<noteq> int a" if "1 \<le> z" "z \<le> 1024" for z
    using al a(2-4) that x by (auto simp: alias_ok_def)
  have "alias_ok (recalc_maxconfs ?t)"
    unfolding alias_ok_def
  proof (intro conjI allI impI)
    show "confalias (recalc_maxconfs ?t) ! 0 = 0" using al x by (simp add: alias_ok_def nth_upd)
    show "maxconfs (recalc_maxconfs ?t) \<le> 1024" by (rule recalc_bound)
  next
    fix z assume z: "1 \<le> z \<and> z \<le> 1024 \<and> confalias (recalc_maxconfs ?t) ! z \<noteq> 0"
    show "\<exists>a. confalias (recalc_maxconfs ?t) ! z = int a \<and> 1 \<le> a \<and> a < 1024 \<and> confrev (recalc_maxconfs ?t) ! a = int z"
    proof (cases "z = x")
      case True
      then show ?thesis using a ca [of x] cr [of a] by (intro exI [of _ a]) simp
    next
      case False
      then have "confalias s ! z \<noteq> 0" using z ca [of z] by simp
      with z obtain b where b: "confalias s ! z = int b" "1 \<le> b" "b < 1024" "confrev s ! b = int z"
        using alias_okD [OF al] by blast
      then have "b \<noteq> a" using fresh z by auto
      then show ?thesis using b False ca [of z] cr [of b] by (intro exI [of _ b]) simp
    qed
  next
    fix b assume b: "used_slot (recalc_maxconfs ?t) b"
    then have bt: "used_slot ?t b" by (simp add: used_slot_def)
    then show "b < maxconfs (recalc_maxconfs ?t)" by (rule recalc_bound)
    show "\<exists>x. confrev (recalc_maxconfs ?t) ! b = int x \<and> 1 \<le> x \<and> x \<le> 1024 \<and> confalias (recalc_maxconfs ?t) ! x = int b"
    proof (cases "b = a")
      case True
      then show ?thesis using x ca [of x] cr [of a] by (intro exI [of _ x]) simp
    next
      case False
      then have "used_slot s b" using bt unfolding used_slot_def cr by simp
      then obtain z where z: "confrev s ! b = int z" "1 \<le> z" "z \<le> 1024" "confalias s ! z = int b"
        using alias_ok_slot [OF al] by blast
      have "z \<noteq> x" using z(4) \<open>confalias s ! x = 0\<close> \<open>used_slot s b\<close> by (auto simp: used_slot_def)
      then show ?thesis using z False ca [of z] cr [of b] by (intro exI [of _ z]) simp
    qed
  qed
  moreover have "members_ok {i} (recalc_maxconfs ?t)"
  proof (rule members_okI)
    fix y c assume y: "y < 1024" "chans (recalc_maxconfs ?t) ! y = Some c"
    then have c: "chans s ! y = Some c" by simp
    have "nat (confna c) \<noteq> x" if "is_conf_mode (confmode c)" "y \<notin> {i}"
      using members_okD [OF m y(1) c] that \<open>confalias s ! x = 0\<close> by auto
    then show "y < maxchans (recalc_maxconfs ?t) \<and> confna c \<le> 1024 \<and> (is_conf_mode (confmode c) \<longrightarrow> 1 \<le> confna c) \<and>
      (is_conf_mode (confmode c) \<and> y \<notin> {i} \<longrightarrow> confalias (recalc_maxconfs ?t) ! nat (confna c) = confn c \<and> confn c \<noteq> 0)"
      using members_okD [OF m y(1) c] ca [of "nat (confna c)"] by auto
  qed
  moreover have "no_leak {} (recalc_maxconfs ?t)"
    unfolding no_leak_def
  proof (intro allI impI)
    fix z assume z: "1 \<le> z \<and> z \<le> 1024 \<and> confalias (recalc_maxconfs ?t) ! z \<noteq> 0 \<and> int z \<notin> {}"
    show "\<exists>y < 1024. conf_member (recalc_maxconfs ?t) y (int z)"
    proof (cases "z = x")
      case True
      then show ?thesis using i by (auto simp: conf_member_upd)
    next
      case False
      then have "confalias s ! z \<noteq> 0" using z ca [of z] by simp
      then show ?thesis using n z by (auto simp: no_leak_def conf_member_upd)
    qed
  qed
  ultimately have "conf_inv {i} {} (recalc_maxconfs ?t)"
    using t mc by (simp add: conf_inv_def tables_ok_def)
  then show ?thesis using that [OF g] a(2) ca [of x] by simp
qed

definition conf_quiet :: "(dahdi_chan \<Rightarrow> dahdi_chan) \<Rightarrow> bool" where
  "conf_quiet f \<longleftrightarrow> (\<forall>c. confna (f c) = confna c \<and> confmode (f c) = confmode c \<and> confn (f c) = confn c)"

lemma conf_member_quiet: "conf_quiet f \<Longrightarrow> conf_member (upd_chan i f s) y x = conf_member s y x"
  by (simp add: conf_member_def conf_quiet_def split: option.splits)

lemma used_slot_cong: "confrev s' = confrev s \<Longrightarrow> used_slot s' a = used_slot s a"
  by (simp add: used_slot_def)

lemma alias_ok_cong:
  "confalias s' = confalias s \<Longrightarrow> confrev s' = confrev s \<Longrightarrow> maxconfs s' = maxconfs s \<Longrightarrow> alias_ok s' = alias_ok s"
  by (simp add: alias_ok_def used_slot_def)

lemma tables_ok_upd [simp]: "tables_ok (upd_chan i f s) = tables_ok s"
  by (auto simp: tables_ok_def)

lemma conf_inv_quiet:
  assumes "conf_quiet f" and "conf_inv E X s"
  shows "conf_inv E X (upd_chan i f s)"
proof -
  have "members_ok E (upd_chan i f s)"
  proof (rule members_okI)
    fix y c assume y: "y < 1024" "chans (upd_chan i f s) ! y = Some c"
    then obtain d where d: "chans s ! y = Some d" "confna c = confna d" "confmode c = confmode d" "confn c = confn d"
      using assms(1) by (auto simp: conf_quiet_def split: if_splits)
    then show "y < maxchans (upd_chan i f s) \<and> confna c \<le> 1024 \<and> (is_conf_mode (confmode c) \<longrightarrow> 1 \<le> confna c) \<and>
      (is_conf_mode (confmode c) \<and> y \<notin> E \<longrightarrow> confalias (upd_chan i f s) ! nat (confna c) = confn c \<and> confn c \<noteq> 0)"
      using members_okD [OF _ y(1) d(1), of E] assms(2) by (simp add: conf_inv_def)
  qed
  moreover have "no_leak X (upd_chan i f s)"
    using assms by (simp add: no_leak_def conf_inv_def conf_member_quiet)
  ultimately show ?thesis
    using assms(2) alias_ok_cong [of "upd_chan i f s" s] by (simp add: conf_inv_def)
qed

lemma quiet_fields [simp]: "conf_quiet (emit e)" "conf_quiet (readchunkpreec_update p)" "conf_quiet (master_update m)"
  by (simp_all add: conf_quiet_def emit_def)

lemma dacs_inv: "conf_inv E X s \<Longrightarrow> setconf_dacs dacs_of i no mode s = Some s' \<Longrightarrow> conf_inv E X s'"
  by (auto simp: setconf_dacs_def Let_def conf_inv_quiet split: option.splits if_splits)

lemma dacs_chan:
  "setconf_dacs dacs_of i no mode s = Some s' \<Longrightarrow> conf_member s' y x = conf_member s y x"
  by (auto simp: setconf_dacs_def Let_def conf_member_quiet split: option.splits if_splits)

lemma preecho_inv: "conf_inv E X s \<Longrightarrow> setconf_preecho alloc no mode s = Some s' \<Longrightarrow> conf_inv E X s'"
  by (auto simp: setconf_preecho_def conf_inv_quiet split: option.splits)

lemma check_conf_chans [simp]: "chans (check_conf x s) = chans s" "maxchans (check_conf x s) = maxchans s"
  by (simp_all add: check_conf_def)

lemma conf_member_chans: "chans s' = chans s \<Longrightarrow> conf_member s' y x = conf_member s y x"
  by (simp add: conf_member_def)

text \<open>A channel that changes its conference is for a moment without a slot, and may have been the last of its old one.\<close>

lemma membership_inv:
  assumes inv: "conf_inv {} {} s" and c: "chans s ! i = Some c" and i: "i < 1024"
    and no: "no \<le> 1024" "is_conf_mode mode \<longrightarrow> 1 \<le> no"
    and f: "confna (f c) = no" "confmode (f c) = mode"
  shows "conf_inv {i} {confna c} (upd_chan i f s)"
proof -
  have t: "tables_ok s" and m: "members_ok {} s" and n: "no_leak {} s" using inv by (simp_all add: conf_inv_def)
  have len: "length (chans s) = 1024" using t by (simp add: tables_ok_def)
  have "members_ok {i} (upd_chan i f s)"
  proof (rule members_okI)
    fix y d assume y: "y < 1024" "chans (upd_chan i f s) ! y = Some d"
    show "y < maxchans (upd_chan i f s) \<and> confna d \<le> 1024 \<and> (is_conf_mode (confmode d) \<longrightarrow> 1 \<le> confna d) \<and>
      (is_conf_mode (confmode d) \<and> y \<notin> {i} \<longrightarrow> confalias (upd_chan i f s) ! nat (confna d) = confn d \<and> confn d \<noteq> 0)"
    proof (cases "y = i")
      case True
      then show ?thesis using y c f no members_okD [OF m i c] len i by auto
    next
      case False
      then show ?thesis using y members_okD [OF m y(1)] by simp
    qed
  qed
  moreover have "no_leak {confna c} (upd_chan i f s)"
    unfolding no_leak_def
  proof (intro allI impI)
    fix x assume x: "1 \<le> x \<and> x \<le> 1024 \<and> confalias (upd_chan i f s) ! x \<noteq> 0 \<and> int x \<notin> {confna c}"
    then obtain y where y: "y < 1024" "conf_member s y (int x)" using n by (auto simp: no_leak_def)
    then have "y \<noteq> i" using c x by (auto simp: conf_member_def)
    then show "\<exists>y < 1024. conf_member (upd_chan i f s) y (int x)" using y by (auto simp: conf_member_def)
  qed
  ultimately show ?thesis
    using inv alias_ok_cong [of "upd_chan i f s" s] by (simp add: conf_inv_def)
qed

lemma set_membership_sel [simp]: "confna (set_membership no mode c) = no" "confmode (set_membership no mode c) = mode"
  "confn (set_membership no mode c) = 0"
  by (simp_all add: set_membership_def Let_def)

text \<open>A channel outside every conference needs no slot.\<close>

lemma conf_inv_drop:
  assumes "conf_inv {i} X s" and "\<And>c. chans s ! i = Some c \<Longrightarrow> is_conf_mode (confmode c) \<Longrightarrow>
     confalias s ! nat (confna c) = confn c \<and> confn c \<noteq> 0"
  shows "conf_inv {} X s"
proof -
  have m: "members_ok {i} s" using assms(1) by (simp add: conf_inv_def)
  have "members_ok {} s"
    by (rule members_okI) (use members_okD [OF m] assms(2) in fastforce)
  then show ?thesis using assms(1) by (simp add: conf_inv_def)
qed

lemma no_conf_mode_0 [simp]: "\<not> is_conf_mode 0"
  by (simp add: is_conf_mode_def conf_mode_def)

lemma conf_member_at: "chans s ! y = Some c \<Longrightarrow> conf_member s y x \<longleftrightarrow> confna c = x \<and> is_conf_mode (confmode c)"
  by (simp add: conf_member_def)

lemma not_member_drop:
  "conf_inv {i} X s \<Longrightarrow> (\<And>x. \<not> conf_member s i x) \<Longrightarrow> conf_inv {} X s"
  by (metis conf_inv_drop conf_member_at)

lemma set_slot_inv:
  assumes inv: "conf_inv {i} {} s" and c: "chans s ! i = Some c" "confna c = no" and a: "confalias s ! nat no = a" "a \<noteq> 0"
  shows "conf_inv {} {} (upd_chan i (confn_update (\<lambda>_. a)) s)"
proof -
  have m: "members_ok {i} s" and n: "no_leak {} s" using inv by (simp_all add: conf_inv_def)
  have "conf_member (upd_chan i (confn_update (\<lambda>_. a)) s) y x = conf_member s y x" for y x
    by (simp add: conf_member_def split: option.splits)
  then have "no_leak {} (upd_chan i (confn_update (\<lambda>_. a)) s)" using n by (simp add: no_leak_def)
  moreover have "members_ok {} (upd_chan i (confn_update (\<lambda>_. a)) s)"
  proof (rule members_okI)
    fix y d assume y: "y < 1024" "chans (upd_chan i (confn_update (\<lambda>_. a)) s) ! y = Some d"
    have len: "length (chans s) = 1024" using inv by (simp add: conf_inv_def tables_ok_def)
    show "y < maxchans (upd_chan i (confn_update (\<lambda>_. a)) s) \<and> confna d \<le> 1024 \<and> (is_conf_mode (confmode d) \<longrightarrow> 1 \<le> confna d) \<and>
      (is_conf_mode (confmode d) \<and> y \<notin> {} \<longrightarrow>
        confalias (upd_chan i (confn_update (\<lambda>_. a)) s) ! nat (confna d) = confn d \<and> confn d \<noteq> 0)"
    proof (cases "y = i")
      case True
      then show ?thesis using y c a len members_okD [OF m y(1), of c] by auto
    next
      case False
      then show ?thesis using y members_okD [OF m y(1), of d] by simp
    qed
  qed
  ultimately show ?thesis
    using inv alias_ok_cong [of "upd_chan i (confn_update (\<lambda>_. a)) s" s] by (simp add: conf_inv_def)
qed

lemma dacs_at: "setconf_dacs dacs_of i no mode s = Some s' \<Longrightarrow> chans s ! i = Some c \<Longrightarrow> length (chans s) = 1024 \<Longrightarrow>
    \<exists>d. chans s' ! i = Some d \<and> confna d = confna c \<and> confmode d = confmode c"
  by (auto simp: setconf_dacs_def emit_def split: option.splits if_splits)

lemma dacs_defined: "chans s ! i = Some c \<Longrightarrow> (conf_mode mode = CONF_DIGITALMON \<longrightarrow> (\<exists>d. chan_at s no = Some (Some d))) \<Longrightarrow>
    setconf_dacs dacs_of i no mode s \<noteq> None"
  by (auto simp: setconf_dacs_def split: option.splits)

lemma preecho_defined: "0 \<le> no \<Longrightarrow> no < 1024 \<Longrightarrow> setconf_preecho alloc no mode s \<noteq> None"
  by (simp add: setconf_preecho_def chan_at_def split: option.splits)

lemma setconf_join_ok:
  assumes inv: "conf_inv {} {} s" and c: "chans s ! i = Some c" and i: "1 \<le> i" "i < 1024"
    and no: "0 \<le> no" "no \<le> 1024" "is_conf_mode mode \<longrightarrow> 1 \<le> no"
  shows "setconf_join alloc dacs_of i no mode s = Some s' \<Longrightarrow> conf_inv {} {} s'"
    and "no < 1024 \<Longrightarrow> (conf_mode mode = CONF_DIGITALMON \<longrightarrow> chan_at s no \<noteq> Some None) \<Longrightarrow>
      setconf_join alloc dacs_of i no mode s \<noteq> None"
proof -
  let ?u = "upd_chan i (set_membership no mode) s"
  let ?s1 = "check_conf no (check_conf (confna c) ?u)"
  have m: "members_ok {} s" and len: "length (chans s) = 1024" using inv by (simp_all add: conf_inv_def tables_ok_def)
  have ci: "confna c \<le> 1024" using members_okD [OF m i(2) c] by simp
  have "conf_inv {i} {confna c} ?u" using inv c i no by (intro membership_inv) simp_all
  then have "conf_inv {i} ({confna c} - {confna c}) (check_conf (confna c) ?u)" by (rule check_conf_inv [OF _ ci])
  then have s1: "conf_inv {i} {} ?s1" using check_conf_inv [OF _ no(2)] by fastforce
  have ci1: "chans ?s1 ! i = Some (set_membership no mode c)" using c i len by simp
  have mem: "conf_member ?s1 i x \<longleftrightarrow> no = x \<and> is_conf_mode mode" for x
    using ci1 by (simp add: conf_member_at)
  have join: "\<exists>a s3. get_conf_alias (nat no) s2 = Some (a, s3) \<and> conf_inv {} {} (upd_chan i (confn_update (\<lambda>_. a)) s3)"
    if d: "setconf_dacs dacs_of i no mode ?s1 = Some s2" and j: "no \<noteq> 0" "is_conf_mode mode" for s2
  proof -
    have s2: "conf_inv {i} {} s2" by (rule dacs_inv [OF s1 d])
    have "conf_member s2 i (int (nat no))" using dacs_chan [OF d] mem j no by simp
    moreover have x: "1 \<le> nat no" "nat no \<le> 1024" using j no by simp_all
    ultimately obtain a s3 where g: "get_conf_alias (nat no) s2 = Some (a, s3)" "a \<noteq> 0" "confalias s3 ! nat no = a"
      "conf_inv {i} {} s3" "chans s3 = chans s2"
      using get_alias_inv [OF s2 i] by blast
    obtain d2 where "chans s2 ! i = Some d2" "confna d2 = no"
      using dacs_at [OF d ci1] len by auto
    then show ?thesis using set_slot_inv [OF g(4), of d2 no a] g by auto
  qed
  have leave: "conf_inv {} {} s2"
    if d: "setconf_dacs dacs_of i no mode ?s1 = Some s2" and j: "\<not> (no \<noteq> 0 \<and> is_conf_mode mode)" for s2
  proof -
    have "\<not> conf_member s2 i x" for x using dacs_chan [OF d] mem j no(3) by auto
    then show ?thesis using not_member_drop dacs_inv [OF s1 d] by blast
  qed
  show "conf_inv {} {} s'" if S: "setconf_join alloc dacs_of i no mode s = Some s'"
  proof -
    obtain s2 where d: "setconf_dacs dacs_of i no mode ?s1 = Some s2"
      using S c by (auto simp: setconf_join_def split: option.splits)
    show ?thesis
      using S c d join [OF d] leave [OF d] preecho_inv
      by (cases "no \<noteq> 0 \<and> is_conf_mode mode") (auto simp: setconf_join_def split: option.splits)
  qed
  show "setconf_join alloc dacs_of i no mode s \<noteq> None"
    if b: "no < 1024" "conf_mode mode = CONF_DIGITALMON \<longrightarrow> chan_at s no \<noteq> Some None"
  proof -
    have "\<exists>d. chan_at ?s1 no = Some (Some d)" if "conf_mode mode = CONF_DIGITALMON"
      using b that no(1) len by (auto simp: chan_at_def)
    then obtain s2 where d: "setconf_dacs dacs_of i no mode ?s1 = Some s2"
      using dacs_defined [OF ci1] by blast
    show ?thesis
      using c d join [OF d] preecho_defined [OF no(1) b(1)]
      by (cases "no \<noteq> 0 \<and> is_conf_mode mode") (auto simp: setconf_join_def split: option.splits)
  qed
qed

lemma setconf_checkD:
  assumes "setconf_check me ci s = Some (Inr i)"
  obtains c where "chans s ! i = Some c" "1 \<le> i" "i < 1024" "- 1 \<le> ci_confno ci" "ci_confno ci \<le> 1024"
    "ci_confno ci = 0 \<longrightarrow> ci_confmode ci = 0" "ci_confmode ci = 0 \<longrightarrow> ci_confno ci = 0" "is_monitor_mode (ci_confmode ci) \<longrightarrow> ci_confno ci < 1024"
proof -
  define j where "j = (if ci_chan ci = 0 then me else ci_chan ci)"
  have j: "\<not> (j < 1 \<or> j > int DAHDI_MAX_CHANNELS)" using assms by (auto simp: setconf_check_def j_def Let_def)
  have "chan_at s j \<noteq> None" "chan_at s j \<noteq> Some None"
    using assms j unfolding setconf_check_def j_def [symmetric] Let_def by (auto split: option.splits)
  then obtain c where c: "chan_at s j = Some (Some c)" by auto
  note k = assms [unfolded setconf_check_def j_def [symmetric] Let_def if_not_P [OF j] c option.case]
  have 1: "i = nat j" "\<not> (ci_confno ci = 0 \<and> ci_confmode ci \<noteq> 0)" "\<not> (ci_confmode ci = 0 \<and> ci_confno ci \<noteq> 0)"
    "\<not> (if is_monitor_mode (ci_confmode ci)
         then ci_confno ci < 0 \<or> ci_confno ci \<ge> int DAHDI_MAX_CHANNELS \<or> chan_at s (ci_confno ci) = Some None
         else ci_confno ci < - 1 \<or> ci_confno ci > int DAHDI_MAX_CONF)"
    using k by (simp_all split: if_split_asm)
  have 2: "chans s ! nat j = Some c" "j < 1024" using c by (simp_all add: chan_at_def split: if_split_asm)
  show ?thesis
    by (rule that [of c]) (use 1 2 j in \<open>auto split: if_split_asm\<close>)
qed

lemma setconf_check_defined:
  assumes "(if ci_chan ci = 0 then me else ci_chan ci) \<noteq> 1024"
  shows "setconf_check me ci s \<noteq> None"
proof -
  define j where "j = (if ci_chan ci = 0 then me else ci_chan ci)"
  show ?thesis
  proof (cases "j < 1 \<or> j > int DAHDI_MAX_CHANNELS")
    case True
    then show ?thesis unfolding setconf_check_def j_def [symmetric] Let_def by (simp only: if_True simp_thms option.simps)
  next
    case False
    then obtain c where "chan_at s j = Some c" using assms by (auto simp: chan_at_def j_def)
    then show ?thesis unfolding setconf_check_def j_def [symmetric] Let_def by (simp split: option.split)
  qed
qed

lemma first_empty_conference_range:
  "first_empty_conference s = - 1 \<or> 1 \<le> first_empty_conference s \<and> first_empty_conference s < 1024"
proof (cases "List.find (\<lambda>x. confalias s ! x = 0) (rev [1..<DAHDI_MAX_CONF])")
  case (Some x)
  then show ?thesis using find_rev_Some [OF Some] by (simp add: first_empty_conference_def)
qed (simp add: first_empty_conference_def)

lemma setconf_inv:
  assumes inv: "conf_inv {} {} s" and r: "ioctl_setconf alloc dacs_of me ci s = Some (x, s')"
  shows "conf_inv {} {} s'"
proof -
  consider (err) e where "setconf_check me ci s = Some (Inl e)" | (go) i where "setconf_check me ci s = Some (Inr i)"
    using r by (auto simp: ioctl_setconf_def split: option.splits sum.splits)
  then show ?thesis
  proof cases
    case err
    then show ?thesis using r inv by (simp add: ioctl_setconf_def)
  next
    case go
    define no where "no = (if ci_confno ci = - 1 then first_empty_conference s else ci_confno ci)"
    obtain c where c: "chans s ! i = Some c" "1 \<le> i" "i < 1024" "- 1 \<le> ci_confno ci" "ci_confno ci \<le> 1024"
      "ci_confno ci = 0 \<longrightarrow> ci_confmode ci = 0" "ci_confmode ci = 0 \<longrightarrow> ci_confno ci = 0"
      using go by (rule setconf_checkD)
    show ?thesis
    proof (cases "no < 1 \<and> ci_confmode ci \<noteq> 0")
      case True
      then show ?thesis using r inv go by (simp add: ioctl_setconf_def no_def)
    next
      case False
      have "no \<le> 1024" using c(5) first_empty_conference_range [of s] by (auto simp: no_def)
      moreover have "0 \<le> no"
      proof (cases "ci_confno ci = - 1")
        case True
        then have "ci_confmode ci \<noteq> 0" using c(7) by linarith
        then show ?thesis using False by simp
      next
        case False
        then show ?thesis using c(4) by (simp add: no_def)
      qed
      moreover have "is_conf_mode (ci_confmode ci) \<longrightarrow> 1 \<le> no" using False by auto
      moreover have "setconf_join alloc dacs_of i no (ci_confmode ci) s = Some s'"
        using r go False by (simp add: ioctl_setconf_def no_def Let_def split: option.splits if_splits)
      ultimately show ?thesis using setconf_join_ok(1) [OF inv c(1-3)] by blast
    qed
  qed
qed

lemma no_leak_0: "no_leak {0} s \<longleftrightarrow> no_leak {} s"
  by (auto simp: no_leak_def)

lemma close_conf_inv:
  assumes inv: "conf_inv {} {} s" and i: "i < 1024" and c: "chans s ! i = Some c"
    and d: "sig c AND SIG_MASK_DACS = SIG_MASK_DACS \<longrightarrow> \<not> is_conf_mode (confmode c)"
  shows "conf_inv {} {} (close_conf i s)"
proof -
  let ?u = "upd_chan i close_conf_fields s"
  let ?c = "close_conf_fields c"
  have m: "members_ok {} s" and len: "length (chans s) = 1024" using inv by (simp_all add: conf_inv_def tables_ok_def)
  have f: "\<not> is_conf_mode (confmode ?c)" "confna ?c \<le> 1024" "confna ?c = confna c \<or> confna ?c = 0"
    using d members_okD [OF m i c] by (auto simp: close_conf_fields_def Let_def)
  have u: "conf_inv {i} {confna c} ?u"
    using f by (intro membership_inv [OF inv c i, where no = "confna ?c" and mode = "confmode ?c"]) simp_all
  have n: "\<not> conf_member s' i x" if "chans s' = chans ?u" for s' x
    using that c i len f(1) by (simp add: conf_member_def)
  show ?thesis
  proof (cases "confna c = 0")
    case True
    then have "conf_inv {i} {} ?u" using u by (simp add: conf_inv_def no_leak_0)
    then show ?thesis using True c not_member_drop n by (simp add: close_conf_def)
  next
    case False
    have "conf_inv {i} ({confna c} - {confna c}) (check_conf (confna c) ?u)"
      using members_okD [OF m i c] by (intro check_conf_inv [OF u]) simp
    then show ?thesis using False c not_member_drop n [of "check_conf (confna c) ?u"] by (simp add: close_conf_def)
  qed
qed

lemma register_inv:
  assumes inv: "conf_inv {} {} s" and c: "\<not> is_conf_mode (confmode c)" "confna c \<le> 1024"
  shows "conf_inv {} {} (snd (register_chan c s))"
proof (cases "List.find (\<lambda>x. chans s ! x = None) [1..<DAHDI_MAX_CHANNELS]")
  case None
  then show ?thesis using inv by (simp add: register_chan_def)
next
  case (Some x)
  have x: "1 \<le> x" "x < 1024" "chans s ! x = None" using find_upt_Some [OF Some] by simp_all
  define d where "d = set_flag FLAGBIT_REGISTERED (c\<lparr>channo := int x\<rparr>)"
  have d: "confmode d = confmode c" "confna d = confna c" by (simp_all add: d_def set_flag_def)
  define t where "t = s\<lparr>chans := (chans s)[x := Some d], maxchans := (if maxchans s < x + 1 then x + 1 else maxchans s)\<rparr>"
  have r: "snd (register_chan c s) = t" unfolding register_chan_def Some option.case snd_conv t_def d_def ..
  have m: "members_ok {} s" and n: "no_leak {} s" and len: "length (chans s) = 1024"
    using inv by (simp_all add: conf_inv_def tables_ok_def)
  have ct: "chans t ! y = (if y = x then Some d else chans s ! y)" for y using x len by (simp add: t_def nth_upd)
  have s: "confalias t = confalias s" "confrev t = confrev s" "maxconfs t = maxconfs s" "conf_links t = conf_links s"
    "length (chans t) = length (chans s)" "maxchans s \<le> maxchans t" "x < maxchans t" "maxchans t \<le> 1024"
    using inv x by (simp_all add: t_def conf_inv_def)
  have "members_ok {} t"
  proof (rule members_okI)
    fix y e assume y: "y < 1024" "chans t ! y = Some e"
    show "y < maxchans t \<and> confna e \<le> 1024 \<and> (is_conf_mode (confmode e) \<longrightarrow> 1 \<le> confna e) \<and>
      (is_conf_mode (confmode e) \<and> y \<notin> {} \<longrightarrow> confalias t ! nat (confna e) = confn e \<and> confn e \<noteq> 0)"
    proof (cases "y = x")
      case True
      then show ?thesis using y ct [of x] c d s(7) by auto
    next
      case False
      then show ?thesis using members_okD [OF m y(1), of e] y(2) ct [of y] s by auto
    qed
  qed
  moreover have "no_leak {} t"
    unfolding no_leak_def s(1)
  proof (intro allI impI)
    fix z assume "1 \<le> z \<and> z \<le> 1024 \<and> confalias s ! z \<noteq> 0 \<and> int z \<notin> {}"
    then obtain y where "y < 1024" "conf_member s y (int z)" using n by (auto simp: no_leak_def)
    then show "\<exists>y < 1024. conf_member t y (int z)"
      using x(3) ct [of y] by (intro exI [of _ y]) (auto simp: conf_member_def)
  qed
  ultimately show ?thesis
    using inv s ct [of 0] x(1) alias_ok_cong [OF s(1-3)] by (simp add: r conf_inv_def tables_ok_def)
qed

section \<open>Unregistering a channel\<close>

fun slot_kept :: "dahdi_chan option \<Rightarrow> dahdi_chan option \<Rightarrow> bool" where
  "slot_kept None d = (d = None)"
| "slot_kept (Some c) None = False"
| "slot_kept (Some c) (Some d) =
     (confna d = confna c \<and> confmode d = confmode c \<and> confn d = confn c \<or>
      \<not> is_conf_mode (confmode c) \<and> confna d = 0 \<and> confmode d = 0)"

definition slots_kept :: "conf_sys \<Rightarrow> conf_sys \<Rightarrow> bool" where
  "slots_kept s s' \<longleftrightarrow> confalias s' = confalias s \<and> confrev s' = confrev s \<and> maxconfs s' = maxconfs s \<and>
     conf_links s' = conf_links s \<and> length (chans s') = length (chans s) \<and> (\<forall>y. slot_kept (chans s ! y) (chans s' ! y))"

lemma slot_kept_refl [simp]: "slot_kept c c"
  by (cases c) simp_all

lemma slot_kept_trans: "slot_kept a b \<Longrightarrow> slot_kept b c \<Longrightarrow> slot_kept a c"
  by (cases a; cases b; cases c) auto

lemma slots_kept_refl [simp]: "slots_kept s s"
  by (simp add: slots_kept_def)

lemma slots_kept_trans: "slots_kept a b \<Longrightarrow> slots_kept b c \<Longrightarrow> slots_kept a c"
proof -
  assume a: "slots_kept a b" and b: "slots_kept b c"
  have "slot_kept (chans a ! y) (chans c ! y)" for y
    by (rule slot_kept_trans [of _ "chans b ! y"]) (use a b in \<open>simp_all add: slots_kept_def\<close>)
  then show ?thesis using a b by (simp add: slots_kept_def)
qed

lemma slots_kept_max: "slots_kept s (s\<lparr>maxchans := n\<rparr>)"
  by (simp add: slots_kept_def)

lemma slots_kept_upd:
  "(\<And>c. chans s ! i = Some c \<Longrightarrow> slot_kept (Some c) (Some (f c))) \<Longrightarrow> slots_kept s (upd_chan i f s)"
proof -
  assume f: "\<And>c. chans s ! i = Some c \<Longrightarrow> slot_kept (Some c) (Some (f c))"
  have "slot_kept (chans s ! y) (chans (upd_chan i f s) ! y)" for y
    using f by (cases "chans s ! i") auto
  then show ?thesis by (simp add: slots_kept_def)
qed

lemma slots_kept_member:
  "slots_kept s s' \<Longrightarrow> conf_member s' y x = conf_member s y x"
proof -
  assume "slots_kept s s'"
  then have "slot_kept (chans s ! y) (chans s' ! y)" by (simp add: slots_kept_def)
  then show "conf_member s' y x = conf_member s y x"
    by (cases "chans s ! y"; cases "chans s' ! y") (auto simp: conf_member_def)
qed

lemma not_conf_listens: "listens_to m c \<Longrightarrow> \<not> is_conf_mode (confmode c)"
  by (auto simp: listens_to_def is_conf_mode_def is_monitor_mode_def is_preecho_mode_def)

text \<open>A turn of the loop that frees no slot; \<open>before_check\<close> is the state in which it looks for members.\<close>

definition before_check :: "int \<Rightarrow> nat \<Rightarrow> dahdi_chan \<Rightarrow> conf_sys \<Rightarrow> conf_sys" where
  "before_check m x c s =
     (let s = s\<lparr>maxchans := x + 1\<rparr> in if master c = m then upd_chan x (master_update (\<lambda>_. int x)) s else s)"

definition after_check :: "(int \<Rightarrow> nat option) \<Rightarrow> nat \<Rightarrow> dahdi_chan \<Rightarrow> conf_sys \<Rightarrow> conf_sys" where
  "after_check dacs_of x c s =
     upd_chan x (\<lambda>c. c\<lparr>confna := 0, confn := 0, confmode := 0\<rparr>)
       (if confna c \<noteq> 0 \<and> (case chan_span c of None \<Rightarrow> None | Some sp \<Rightarrow> dacs_of sp) \<noteq> None
        then upd_chan x (emit (SpanDacs None)) s else s)"

lemma unreg_visit_eq:
  "unreg_visit dacs_of m x s =
     (case chans s ! x of None \<Rightarrow> s
      | Some c \<Rightarrow> if listens_to m c
          then after_check dacs_of x c (if m \<noteq> 0 then check_conf m (before_check m x c s) else before_check m x c s)
          else before_check m x c s)"
  by (auto simp: unreg_visit_def before_check_def after_check_def Let_def listens_to_def split: option.splits)

lemma before_check_kept: "chans s ! x = Some c \<Longrightarrow> slots_kept s (before_check m x c s)"
proof -
  let ?t = "s\<lparr>maxchans := x + 1\<rparr>"
  have "slots_kept ?t (upd_chan x (master_update (\<lambda>_. int x)) ?t)" by (rule slots_kept_upd) simp
  then show ?thesis
    using slots_kept_trans [OF slots_kept_max] slots_kept_max by (simp add: before_check_def Let_def)
qed

lemma after_check_kept:
  assumes "chans s ! x = Some d" and "\<not> is_conf_mode (confmode d)"
  shows "slots_kept s (after_check dacs_of x c s)"
proof -
  have "slots_kept t (upd_chan x (\<lambda>c. c\<lparr>confna := 0, confn := 0, confmode := 0\<rparr>) t)"
    if "\<And>e. chans t ! x = Some e \<Longrightarrow> \<not> is_conf_mode (confmode e)" for t
    by (rule slots_kept_upd) (use that in simp)
  note reset = this
  have e: "slots_kept s (upd_chan x (emit (SpanDacs None)) s)"
    by (rule slots_kept_upd) (simp add: emit_def)
  have "slots_kept (upd_chan x (emit (SpanDacs None)) s)
      (upd_chan x (\<lambda>c. c\<lparr>confna := 0, confn := 0, confmode := 0\<rparr>) (upd_chan x (emit (SpanDacs None)) s))"
    by (rule reset) (use assms in \<open>auto simp: emit_def split: if_splits\<close>)
  then have "slots_kept s
      (upd_chan x (\<lambda>c. c\<lparr>confna := 0, confn := 0, confmode := 0\<rparr>) (upd_chan x (emit (SpanDacs None)) s))"
    by (rule slots_kept_trans [OF e])
  moreover have "slots_kept s (upd_chan x (\<lambda>c. c\<lparr>confna := 0, confn := 0, confmode := 0\<rparr>) s)"
    by (rule reset) (use assms in simp)
  ultimately show ?thesis by (simp add: after_check_def)
qed

lemma check_conf_free: "confalias s ! nat m = 0 \<Longrightarrow> check_conf m s = s"
  by (simp add: check_conf_def)

lemma unreg_visit_kept:
  assumes "\<And>c. chans s ! x = Some c \<Longrightarrow> listens_to m c \<Longrightarrow> confalias s ! nat m = 0"
  shows "slots_kept s (unreg_visit dacs_of m x s)"
proof (cases "chans s ! x")
  case None
  then show ?thesis by (simp add: unreg_visit_eq)
next
  case (Some c)
  let ?b = "before_check m x c s"
  have b: "slots_kept s ?b" using Some by (rule before_check_kept)
  show ?thesis
  proof (cases "listens_to m c")
    case True
    have "confalias ?b ! nat m = 0" using assms [OF Some True] b by (simp add: slots_kept_def)
    then have v: "unreg_visit dacs_of m x s = after_check dacs_of x c ?b"
      using Some True by (simp add: unreg_visit_eq check_conf_free)
    have "slot_kept (Some c) (chans ?b ! x)" using b Some by (metis slots_kept_def)
    then obtain d where "chans ?b ! x = Some d" "\<not> is_conf_mode (confmode d)"
      using not_conf_listens [OF True] by (cases "chans ?b ! x") auto
    then show ?thesis using slots_kept_trans [OF b after_check_kept] v by simp
  next
    case False
    then show ?thesis using Some b by (simp add: unreg_visit_eq)
  qed
qed

lemma unreg_visit_other:
  assumes "y \<noteq> x"
  shows "chans (unreg_visit dacs_of m x s) ! y = chans s ! y"
  using assms by (simp add: unreg_visit_eq before_check_def after_check_def Let_def split: option.splits)

lemma fold_visit_free:
  "confalias s ! nat m = 0 \<Longrightarrow> slots_kept s (fold (unreg_visit dacs_of m) xs s)"
proof (induction xs arbitrary: s)
  case (Cons x xs)
  have v: "slots_kept s (unreg_visit dacs_of m x s)"
    by (rule unreg_visit_kept) (rule Cons.prems)
  then have "confalias (unreg_visit dacs_of m x s) ! nat m = 0" using Cons.prems by (simp add: slots_kept_def)
  then show ?case using slots_kept_trans [OF v Cons.IH] by simp
qed simp

lemma fold_visit_quiet:
  assumes "distinct xs" and "\<And>x c. x \<in> set xs \<Longrightarrow> chans s ! x = Some c \<Longrightarrow> \<not> listens_to m c"
  shows "slots_kept s (fold (unreg_visit dacs_of m) xs s) \<and>
    (\<forall>y. y \<notin> set xs \<longrightarrow> chans (fold (unreg_visit dacs_of m) xs s) ! y = chans s ! y)"
  using assms
proof (induction xs arbitrary: s)
  case (Cons x xs)
  let ?v = "unreg_visit dacs_of m x s"
  have o: "chans ?v ! z = chans s ! z" if "z \<noteq> x" for z using that by (rule unreg_visit_other)
  have v: "slots_kept s ?v" by (rule unreg_visit_kept) (use Cons.prems in auto)
  have "slots_kept ?v (fold (unreg_visit dacs_of m) xs ?v) \<and>
      (\<forall>y. y \<notin> set xs \<longrightarrow> chans (fold (unreg_visit dacs_of m) xs ?v) ! y = chans ?v ! y)"
  proof (rule Cons.IH)
    show "distinct xs" using Cons.prems by simp
    show "\<not> listens_to m c" if "z \<in> set xs" "chans ?v ! z = Some c" for z c
    proof -
      have "z \<noteq> x" using that(1) Cons.prems(1) by auto
      then show ?thesis using Cons.prems(2) [of z c] that o [of z] by simp
    qed
  qed
  then show ?case using slots_kept_trans [OF v] o by auto
qed simp

lemma visit_max: "maxchans (unreg_visit dacs_of m x s) = (if chans s ! x = None then maxchans s else x + 1)"
  by (auto simp: unreg_visit_eq before_check_def after_check_def Let_def split: option.splits)

lemma visit_None: "chans (unreg_visit dacs_of m x s) ! y = None \<longleftrightarrow> chans s ! y = None"
  by (auto simp: unreg_visit_eq before_check_def after_check_def Let_def split: option.splits)

lemma fold_visit_None: "chans (fold (unreg_visit dacs_of m) xs s) ! y = None \<longleftrightarrow> chans s ! y = None"
  by (induction xs arbitrary: s) (simp_all add: visit_None)

lemma fold_visit_max:
  assumes "maxchans s = 0"
  shows "maxchans (fold (unreg_visit dacs_of m) [1..<n] s) \<le> n \<and>
    (\<forall>y. 1 \<le> y \<and> y < n \<and> chans s ! y \<noteq> None \<longrightarrow> y < maxchans (fold (unreg_visit dacs_of m) [1..<n] s))"
proof (induction n)
  case (Suc n)
  let ?F = "fold (unreg_visit dacs_of m) [1..<n] s"
  show ?case
  proof (cases "n = 0")
    case True
    then show ?thesis using assms by simp
  next
    case False
    then have u: "[1..<Suc n] = [1..<n] @ [n]" by simp
    have "maxchans (fold (unreg_visit dacs_of m) [1..<Suc n] s) = (if chans s ! n = None then maxchans ?F else n + 1)"
      unfolding u fold_append using visit_max [of dacs_of m n ?F] fold_visit_None [of dacs_of m "[1..<n]" s n] by simp
    then show ?thesis using Suc.IH by (auto simp only: less_Suc_eq le_Suc_eq split: if_splits)
  qed
qed (simp add: assms)

text \<open>Removing a channel that is in no conference.\<close>

lemma remove_inv:
  assumes inv: "conf_inv {} {} s" and c: "chans s ! i = Some c" "\<not> is_conf_mode (confmode c)"
  shows "conf_inv {} {} (s\<lparr>chans := (chans s)[i := None], maxchans := 1024\<rparr>)"
proof -
  let ?t = "s\<lparr>chans := (chans s)[i := None], maxchans := 1024\<rparr>"
  have m: "members_ok {} s" and n: "no_leak {} s" and t: "tables_ok s" using inv by (simp_all add: conf_inv_def)
  have "members_ok {} ?t"
  proof (rule members_okI)
    fix y e assume y: "y < 1024" "chans ?t ! y = Some e"
    then have "chans s ! y = Some e" by (auto simp: nth_upd split: if_splits)
    from members_okD [OF m y(1) this] show "y < maxchans ?t \<and> confna e \<le> 1024 \<and> (is_conf_mode (confmode e) \<longrightarrow> 1 \<le> confna e) \<and>
      (is_conf_mode (confmode e) \<and> y \<notin> {} \<longrightarrow> confalias ?t ! nat (confna e) = confn e \<and> confn e \<noteq> 0)"
      using y(1) by simp
  qed
  moreover have "no_leak {} ?t"
    unfolding no_leak_def
  proof (intro allI impI)
    fix x assume "1 \<le> x \<and> x \<le> 1024 \<and> confalias ?t ! x \<noteq> 0 \<and> int x \<notin> {}"
    then obtain y where y: "y < 1024" "conf_member s y (int x)" using n by (auto simp: no_leak_def)
    then have "y \<noteq> i" using c by (auto simp: conf_member_def)
    then have "chans ?t ! y = chans s ! y" by (simp add: nth_upd)
    then have "conf_member ?t y (int x)" using y(2) by (simp only: conf_member_def)
    then show "\<exists>y < 1024. conf_member ?t y (int x)" using y(1) by blast
  qed
  moreover have "alias_ok ?t" using inv alias_ok_cong [of ?t s] by (simp add: conf_inv_def)
  moreover have "tables_ok ?t" using t by (simp add: tables_ok_def nth_upd)
  ultimately show ?thesis by (simp add: conf_inv_def)
qed

text \<open>What the loop leaves alone.\<close>

lemma kept_inv:
  assumes inv: "conf_inv {} {} (s\<lparr>maxchans := 1024\<rparr>)" and k: "slots_kept s s'" and mx: "maxchans s' \<le> 1024"
    and b: "\<And>y. y < 1024 \<Longrightarrow> chans s' ! y \<noteq> None \<Longrightarrow> y < maxchans s'"
  shows "conf_inv {} {} s'"
proof -
  have m: "members_ok {} (s\<lparr>maxchans := 1024\<rparr>)" and n: "no_leak {} (s\<lparr>maxchans := 1024\<rparr>)"
    and t: "tables_ok (s\<lparr>maxchans := 1024\<rparr>)" and al: "alias_ok (s\<lparr>maxchans := 1024\<rparr>)"
    using inv by (simp_all add: conf_inv_def)
  have sk: "slot_kept (chans s ! y) (chans s' ! y)" for y using k by (simp add: slots_kept_def)
  have "members_ok {} s'"
  proof (rule members_okI)
    fix y d assume y: "y < 1024" "chans s' ! y = Some d"
    then obtain c where c: "chans s ! y = Some c" using sk [of y] by (cases "chans s ! y") auto
    have "chans (s\<lparr>maxchans := 1024\<rparr>) ! y = Some c" using c by simp
    from members_okD [OF m y(1) this] show "y < maxchans s' \<and> confna d \<le> 1024 \<and> (is_conf_mode (confmode d) \<longrightarrow> 1 \<le> confna d) \<and>
      (is_conf_mode (confmode d) \<and> y \<notin> {} \<longrightarrow> confalias s' ! nat (confna d) = confn d \<and> confn d \<noteq> 0)"
      using b [OF y(1)] y(2) sk [of y] c k by (auto simp: slots_kept_def)
  qed
  moreover have "no_leak {} s'"
    using n k slots_kept_member [OF k] by (simp add: no_leak_def slots_kept_def conf_member_def)
  moreover have "chans s' ! 0 = None" using t sk [of 0] by (simp add: tables_ok_def)
  ultimately show ?thesis
    using t al k mx alias_ok_cong [of s' "s\<lparr>maxchans := 1024\<rparr>"] by (simp add: conf_inv_def tables_ok_def slots_kept_def)
qed


lemma listens_None: "chans s ! x = None \<Longrightarrow> unreg_visit dacs_of m x s = s"
  by (simp add: unreg_visit_eq)

text \<open>The channel leaves no conference, and the conference with its number has no slot or nobody listens to it.\<close>

definition unreg_safe :: "nat \<Rightarrow> conf_sys \<Rightarrow> bool" where
  "unreg_safe i s \<longleftrightarrow> (case chans s ! i of None \<Rightarrow> False | Some c \<Rightarrow> \<not> is_conf_mode (confmode c)) \<and>
     (confalias s ! i = 0 \<or>
      (\<forall>x c. x \<in> set [1..<1024] \<and> x \<noteq> i \<and> chans s ! x = Some c \<longrightarrow> \<not> listens_to (int i) c))"

lemma unreg_inv:
  assumes inv: "conf_inv {} {} s" and i: "1 \<le> i" "i < 1024" "chans s ! i = Some c" "unreg_safe i s"
    and c: "flagged c FLAGBIT_REGISTERED" "channo c = int i"
  shows "conf_inv {} {} (snd (dahdi_chan_unreg dacs_of c s))"
proof -
  define t where "t = s\<lparr>chans := (chans s)[i := None], maxchans := 0\<rparr>"
  let ?F = "fold (unreg_visit dacs_of (int i)) [1..<1024] t"
  have r: "snd (dahdi_chan_unreg dacs_of c s) = ?F" using c by (simp add: dahdi_chan_unreg_def Let_def t_def)
  have tm: "t\<lparr>maxchans := 1024\<rparr> = s\<lparr>chans := (chans s)[i := None], maxchans := 1024\<rparr>" by (simp add: t_def)
  have ti: "conf_inv {} {} (t\<lparr>maxchans := 1024\<rparr>)"
    unfolding tm by (rule remove_inv [OF inv i(3)]) (use i in \<open>simp add: unreg_safe_def\<close>)
  have len: "length (chans s) = 1024" using inv by (simp add: conf_inv_def tables_ok_def)
  have k: "slots_kept t ?F"
  proof (cases "confalias s ! i = 0")
    case True
    then show ?thesis by (intro fold_visit_free) (simp add: t_def)
  next
    case False
    have "\<not> listens_to (int i) d" if "x \<in> set [1..<1024]" "chans t ! x = Some d" for x d
    proof -
      have "x \<noteq> i" "chans s ! x = Some d" using that len i(2) by (auto simp: t_def nth_upd split: if_splits)
      then show ?thesis using i(4) False that(1) unfolding unreg_safe_def by blast
    qed
    then show ?thesis by (intro fold_visit_quiet [THEN conjunct1]) simp_all
  qed
  have t0: "maxchans t = 0" by (simp add: t_def)
  note M = fold_visit_max [OF t0, of dacs_of "int i" 1024]
  have "chans t ! 0 = None" using inv i(1) by (simp add: conf_inv_def tables_ok_def t_def nth_upd)
  then have pos: "1 \<le> y" if "chans t ! y \<noteq> None" for y using that by (cases y) auto
  have "conf_inv {} {} ?F"
  proof (rule kept_inv [OF ti k M [THEN conjunct1]])
    fix y assume "y < 1024" "chans ?F ! y \<noteq> None"
    then show "y < maxchans ?F" using M [THEN conjunct2] pos [of y] fold_visit_None [of dacs_of "int i" "[1..<1024]" t y] by metis
  qed
  then show ?thesis using r by simp
qed


text \<open>
  The steps of a system: \<open>DAHDI_SETCONF\<close>, \<open>DAHDI_CONFLINK\<close>, closing a channel, registering and unregistering one, with
  any arguments. The first argument of a step says whether it was a safe one: a channel cross-connected by its signalling
  keeps its mode when it is closed, so it must not be in a conference then; a card registers a channel that is in none;
  and an unregistration, of a channel of the table, is safe under \<open>unreg_safe\<close>. The other steps are always safe. A system is reached with
  \<open>True\<close> when all its steps were safe, and with \<open>False\<close> otherwise.
\<close>

inductive conf_step :: "bool \<Rightarrow> conf_sys \<Rightarrow> conf_sys \<Rightarrow> bool" where
  setconf: "ioctl_setconf alloc dacs_of me ci s = Some (r, s') \<Longrightarrow> conf_step True s s'"
| conflink: "conf_step True s (snd (ioctl_conflink audio ci s))"
| closed: "i < 1024 \<Longrightarrow> chans s ! i = Some c \<Longrightarrow>
    conf_step (sig c AND SIG_MASK_DACS = SIG_MASK_DACS \<longrightarrow> \<not> is_conf_mode (confmode c)) s (close_conf i s)"
| register: "conf_step (\<not> is_conf_mode (confmode c) \<and> confna c = 0) s (snd (register_chan c s))"
| unregister: "1 \<le> i \<Longrightarrow> i < 1024 \<Longrightarrow> chans s ! i = Some c \<Longrightarrow> flagged c FLAGBIT_REGISTERED \<Longrightarrow> channo c = int i \<Longrightarrow>
    conf_step (unreg_safe i s) s (snd (dahdi_chan_unreg dacs_of c s))"

inductive conf_reachable :: "bool \<Rightarrow> conf_sys \<Rightarrow> bool" where
  start: "conf_reachable True conf_sys0"
| step: "conf_reachable ok s \<Longrightarrow> conf_step safe s s' \<Longrightarrow> conf_reachable (ok \<and> safe) s'"

lemma conf_inv_links:
  "conf_inv E X s \<Longrightarrow> length ls = 1025 \<Longrightarrow> conf_inv E X (s\<lparr>conf_links := ls\<rparr>)"
  by (simp add: conf_inv_def tables_ok_def alias_ok_def used_slot_def members_ok_def no_leak_def conf_member_def)

lemma conf_inv_maxlinks: "conf_inv E X s \<Longrightarrow> conf_inv E X (recalc_maxlinks s)"
  by (simp add: recalc_maxlinks_def conf_inv_def tables_ok_def alias_ok_def used_slot_def members_ok_def no_leak_def
    conf_member_def)

lemma conflink_inv: "conf_inv {} {} s \<Longrightarrow> conf_inv {} {} (snd (ioctl_conflink audio ci s))"
proof -
  assume i: "conf_inv {} {} s"
  have l: "length (conf_links s) = 1025" using i by (simp add: conf_inv_def tables_ok_def)
  show ?thesis
    using i conf_inv_links [OF i] l
    by (auto simp: ioctl_conflink_def Let_def set_link_def conf_inv_maxlinks split: option.splits)
qed

lemma conf_inv0: "conf_inv {} {} conf_sys0"
proof -
  have "alias_ok conf_sys0" by (simp add: alias_ok_def used_slot_def conf_sys0_def)
  moreover have "members_ok {} conf_sys0" by (simp add: members_ok_def conf_sys0_def)
  moreover have "no_leak {} conf_sys0" by (auto simp: no_leak_def conf_sys0_def)
  moreover have "tables_ok conf_sys0" by (simp add: tables_ok_def conf_sys0_def)
  ultimately show ?thesis by (simp add: conf_inv_def) (simp add: conf_sys0_def)
qed

lemma conf_step_inv: "conf_step safe s s' \<Longrightarrow> safe \<Longrightarrow> conf_inv {} {} s \<Longrightarrow> conf_inv {} {} s'"
proof (induction rule: conf_step.induct)
  case (setconf alloc dacs_of me ci s r s')
  show ?case by (rule setconf_inv [OF setconf.prems(2) setconf.hyps])
next
  case (conflink s audio ci)
  show ?case by (rule conflink_inv [OF conflink.prems(2)])
next
  case (closed i s c)
  show ?case by (rule close_conf_inv [OF closed.prems(2) closed.hyps closed.prems(1)])
next
  case (register c s)
  show ?case by (rule register_inv [OF register.prems(2)]) (use register.prems(1) in simp_all)
next
  case (unregister i s c dacs_of)
  show ?case
    by (rule unreg_inv [OF unregister.prems(2) unregister.hyps(1-3) unregister.prems(1) unregister.hyps(4,5)])
qed

lemma conf_reachable_inv': "conf_reachable ok s \<Longrightarrow> ok \<Longrightarrow> conf_inv {} {} s"
proof (induction rule: conf_reachable.induct)
  case start
  show ?case by (rule conf_inv0)
next
  case (step ok s safe s')
  then show ?case by (intro conf_step_inv [of safe s s']) simp_all
qed

lemma conf_reachable_inv: "conf_reachable True s \<Longrightarrow> conf_inv {} {} s"
  by (rule conf_reachable_inv') simp_all


section \<open>Three channels\<close>

text \<open>Channel 1 monitors channel 2, channel 3 is in the conference with the number 2.\<close>

definition demo_chan :: dahdi_chan where
  "demo_chan = chan0\<lparr>cflags := push_bit FLAGBIT_AUDIO 1\<rparr>"

definition demo3 :: conf_sys where
  "demo3 = snd (register_chan demo_chan (snd (register_chan demo_chan (snd (register_chan demo_chan conf_sys0)))))"

definition demo4 :: conf_sys where
  "demo4 = snd (the (ioctl_setconf True (\<lambda>_. None) 1 \<lparr>ci_chan = 0, ci_confno = 2, ci_confmode = 1\<rparr> demo3))"

definition demo5 :: conf_sys where
  "demo5 = snd (the (ioctl_setconf True (\<lambda>_. None) 3 \<lparr>ci_chan = 0, ci_confno = 2, ci_confmode = 0x304\<rparr> demo4))"

lemma find_first:
  assumes "m \<le> x" "x < n" "P x" "\<And>y. m \<le> y \<Longrightarrow> y < x \<Longrightarrow> \<not> P y"
  shows "List.find P [m..<n] = Some x"
  unfolding find_Some_iff by (rule exI [of _ "x - m"]) (use assms in auto)

definition reg_chan :: "nat \<Rightarrow> dahdi_chan \<Rightarrow> dahdi_chan" where
  "reg_chan x c = set_flag FLAGBIT_REGISTERED (c\<lparr>channo := int x\<rparr>)"

lemma register_at:
  assumes "1 \<le> x" "x < 1024" "chans s ! x = None" "\<And>y. 1 \<le> y \<Longrightarrow> y < x \<Longrightarrow> chans s ! y \<noteq> None"
  shows "snd (register_chan c s) =
    s\<lparr>chans := (chans s)[x := Some (reg_chan x c)], maxchans := (if maxchans s < x + 1 then x + 1 else maxchans s)\<rparr>"
proof -
  have "List.find (\<lambda>x. chans s ! x = None) [1..<1024] = Some x" by (rule find_first) (use assms in auto)
  then show ?thesis by (simp only: register_chan_def option.case snd_conv reg_chan_def)
qed

lemma nat_less_3_cases: "1 \<le> (y::nat) \<Longrightarrow> y < 3 \<Longrightarrow> y = 1 \<or> y = 2"
  by auto

lemma demo3_eq: "demo3 = conf_sys0\<lparr>chans := (replicate 1024 None)[1 := Some (reg_chan 1 demo_chan),
     2 := Some (reg_chan 2 demo_chan), 3 := Some (reg_chan 3 demo_chan)], maxchans := 4\<rparr>"
proof -
  have 1: "snd (register_chan demo_chan conf_sys0) =
      conf_sys0\<lparr>chans := (replicate 1024 None)[1 := Some (reg_chan 1 demo_chan)], maxchans := 2\<rparr>"
    by (subst register_at [of 1]) (simp_all add: conf_sys0_def)
  have 2: "snd (register_chan demo_chan (snd (register_chan demo_chan conf_sys0))) =
      conf_sys0\<lparr>chans := (replicate 1024 None)[1 := Some (reg_chan 1 demo_chan), 2 := Some (reg_chan 2 demo_chan)],
        maxchans := 3\<rparr>"
    unfolding 1 by (subst register_at [of 2]) (auto simp: nth_upd)
  show ?thesis
    unfolding demo3_def 2 by (subst register_at [of 3]) (auto simp: nth_upd dest: nat_less_3_cases)
qed

lemma reg_chan_sel [simp]: "flagged (reg_chan x c) FLAGBIT_REGISTERED" "channo (reg_chan x c) = int x"
  "confna (reg_chan x c) = confna c" "chan_span (reg_chan x c) = chan_span c" "confmode (reg_chan x c) = confmode c"
  "confn (reg_chan x c) = confn c"
proof -
  show "flagged (reg_chan x c) FLAGBIT_REGISTERED" unfolding reg_chan_def flagged_set_flag by simp
qed (simp_all add: reg_chan_def set_flag_def)

lemma demo_chan_sel [simp]: "confna demo_chan = 0" "chan_span demo_chan = None" "confmode demo_chan = 0" "confn demo_chan = 0"
  by (simp_all add: demo_chan_def chan0_def)

lemma demo_chan_audio [simp]: "flagged (reg_chan x demo_chan) FLAGBIT_AUDIO"
  unfolding reg_chan_def flagged_set_flag by (simp add: demo_chan_def bit_push_bit_iff)

lemma demo_modes [simp]: "is_monitor_mode 1" "\<not> is_conf_mode 1" "conf_mode 1 = 1" "\<not> is_preecho_mode 1"
  "\<not> is_monitor_mode 772" "is_conf_mode 772" "conf_mode 772 = 4" "\<not> is_preecho_mode 772"
  by (simp_all add: is_monitor_mode_def is_conf_mode_def conf_mode_def is_preecho_mode_def)

lemma demo4_eq: "ioctl_setconf True (\<lambda>_. None) 1 \<lparr>ci_chan = 0, ci_confno = 2, ci_confmode = 1\<rparr> demo3 =
  Some (Inr \<lparr>ci_chan = 1, ci_confno = 2, ci_confmode = 1\<rparr>,
    upd_chan 2 (readchunkpreec_update (\<lambda>_. None)) (upd_chan 1 (set_membership 2 1) demo3))"
proof -
  have c: "chans demo3 ! 1 = Some (reg_chan 1 demo_chan)" "chans demo3 ! 2 = Some (reg_chan 2 demo_chan)"
    "length (chans demo3) = 1024" "confalias demo3 = replicate 1025 0"
    by (simp_all add: demo3_eq conf_sys0_def)
  have k: "setconf_check 1 \<lparr>ci_chan = 0, ci_confno = 2, ci_confmode = 1\<rparr> demo3 = Some (Inr 1)"
    using c by (simp add: setconf_check_def chan_at_def)
  have ch: "check_conf x (upd_chan i f demo3) = upd_chan i f demo3" if "x = 0 \<or> x = 2" for x i f
    using c that by (auto simp: check_conf_def)
  have "setconf_join True (\<lambda>_. None) 1 2 1 demo3 =
      Some (upd_chan 2 (readchunkpreec_update (\<lambda>_. None)) (upd_chan 1 (set_membership 2 1) demo3))"
    using c by (simp add: setconf_join_def ch setconf_dacs_def setconf_preecho_def chan_at_def set_membership_def split: option.splits)
  then show ?thesis using k by (simp add: ioctl_setconf_def)
qed


lemma demo4_chans: "chans demo4 ! 1 = Some (set_membership 2 1 (reg_chan 1 demo_chan))"
  "chans demo4 ! 2 = Some (reg_chan 2 demo_chan\<lparr>readchunkpreec := None\<rparr>)"
  "chans demo4 ! 3 = Some (reg_chan 3 demo_chan)"
  "length (chans demo4) = 1024" "confalias demo4 = replicate 1025 0" "confrev demo4 = replicate 1025 0" "maxchans demo4 = 4"
proof -
  have d: "demo4 = upd_chan 2 (readchunkpreec_update (\<lambda>_. None)) (upd_chan 1 (set_membership 2 1) demo3)"
    by (simp add: demo4_def demo4_eq [simplified])
  have 3: "length (chans demo3) = 1024" "chans demo3 ! 1 = Some (reg_chan 1 demo_chan)"
    "chans demo3 ! 2 = Some (reg_chan 2 demo_chan)" "chans demo3 ! 3 = Some (reg_chan 3 demo_chan)"
    by (simp_all add: demo3_eq)
  show "chans demo4 ! 1 = Some (set_membership 2 1 (reg_chan 1 demo_chan))"
    "chans demo4 ! 2 = Some (reg_chan 2 demo_chan\<lparr>readchunkpreec := None\<rparr>)"
    "chans demo4 ! 3 = Some (reg_chan 3 demo_chan)" "length (chans demo4) = 1024"
    using 3 by (simp_all add: d)
  show "confalias demo4 = replicate 1025 0" "confrev demo4 = replicate 1025 0" "maxchans demo4 = 4"
    by (simp_all add: d demo3_eq conf_sys0_def)
qed

lemma demo5_eq: "ioctl_setconf True (\<lambda>_. None) 3 \<lparr>ci_chan = 0, ci_confno = 2, ci_confmode = 772\<rparr> demo4 =
  Some (Inr \<lparr>ci_chan = 3, ci_confno = 2, ci_confmode = 772\<rparr>,
    upd_chan 2 (readchunkpreec_update (\<lambda>_. None)) (upd_chan 3 (confn_update (\<lambda>_. 1)) (recalc_maxconfs
      (upd_chan 3 (set_membership 2 772) demo4\<lparr>confalias := (replicate 1025 0)[2 := 1], confrev := (replicate 1025 0)[1 := 2]\<rparr>))))"
proof -
  note c = demo4_chans
  have k: "setconf_check 3 \<lparr>ci_chan = 0, ci_confno = 2, ci_confmode = 772\<rparr> demo4 = Some (Inr 3)"
    using c by (simp add: setconf_check_def chan_at_def)
  have ch: "check_conf x (upd_chan i f demo4) = upd_chan i f demo4" if "x = 0 \<or> x = 2" for x i f
    using c that by (auto simp: check_conf_def)
  have f: "first_empty_alias (upd_chan 3 f demo4) = 1" for f
  proof -
    have "List.find (\<lambda>x. confrev (upd_chan 3 f demo4) ! x = 0) [1..<1024] = Some 1"
      by (rule find_first) (simp_all add: c)
    then show ?thesis by (simp only: first_empty_alias_def option.case of_nat_1)
  qed
  have "setconf_join True (\<lambda>_. None) 3 2 772 demo4 =
      Some (upd_chan 2 (readchunkpreec_update (\<lambda>_. None)) (upd_chan 3 (confn_update (\<lambda>_. 1)) (recalc_maxconfs
      (upd_chan 3 (set_membership 2 772) demo4\<lparr>confalias := (replicate 1025 0)[2 := 1], confrev := (replicate 1025 0)[1 := 2]\<rparr>))))"
    using c by (simp add: setconf_join_def ch f get_conf_alias_def setconf_dacs_def setconf_preecho_def chan_at_def
      set_membership_def split: option.splits)
  then show ?thesis using k by (simp add: ioctl_setconf_def)
qed

lemma demo5_chans: "chans demo5 ! 1 = Some (set_membership 2 1 (reg_chan 1 demo_chan))"
  "chans demo5 ! 2 = Some (reg_chan 2 demo_chan\<lparr>readchunkpreec := None\<rparr>)"
  "chans demo5 ! 3 = Some ((set_membership 2 772 (reg_chan 3 demo_chan))\<lparr>confn := 1\<rparr>)"
  "confalias demo5 ! 2 = 1" "confrev demo5 ! 1 = 2"
proof -
  have d: "demo5 = upd_chan 2 (readchunkpreec_update (\<lambda>_. None)) (upd_chan 3 (confn_update (\<lambda>_. 1)) (recalc_maxconfs
      (upd_chan 3 (set_membership 2 772) demo4\<lparr>confalias := (replicate 1025 0)[2 := 1], confrev := (replicate 1025 0)[1 := 2]\<rparr>)))"
    by (simp add: demo5_def demo5_eq [simplified])
  show "chans demo5 ! 1 = Some (set_membership 2 1 (reg_chan 1 demo_chan))"
  "chans demo5 ! 2 = Some (reg_chan 2 demo_chan\<lparr>readchunkpreec := None\<rparr>)"
  "chans demo5 ! 3 = Some ((set_membership 2 772 (reg_chan 3 demo_chan))\<lparr>confn := 1\<rparr>)"
  "confalias demo5 ! 2 = 1" "confrev demo5 ! 1 = 2"
    using demo4_chans by (simp_all add: d)
qed

lemma demo_reachable: "conf_reachable True demo3" "conf_reachable True demo4" "conf_reachable True demo5"
proof -
  have r: "conf_reachable True s \<Longrightarrow> conf_reachable True (snd (register_chan demo_chan s))" for s
    using conf_reachable.step [OF _ conf_step.register, of True s demo_chan] by simp
  show 3: "conf_reachable True demo3" unfolding demo3_def by (intro r conf_reachable.start)
  have "ioctl_setconf True (\<lambda>_. None) 1 \<lparr>ci_chan = 0, ci_confno = 2, ci_confmode = 1\<rparr> demo3 =
      Some (Inr \<lparr>ci_chan = 1, ci_confno = 2, ci_confmode = 1\<rparr>, demo4)"
    by (simp only: demo4_def demo4_eq option.sel snd_conv)
  then show 4: "conf_reachable True demo4" using conf_reachable.step [OF 3 conf_step.setconf] by simp
  have "ioctl_setconf True (\<lambda>_. None) 3 \<lparr>ci_chan = 0, ci_confno = 2, ci_confmode = 772\<rparr> demo4 =
      Some (Inr \<lparr>ci_chan = 3, ci_confno = 2, ci_confmode = 772\<rparr>, demo5)"
    by (simp only: demo5_def demo5_eq option.sel snd_conv)
  then show "conf_reachable True demo5" using conf_reachable.step [OF 4 conf_step.setconf] by simp
qed

section \<open>The properties\<close>



text \<open>C24. As long as the channels are unregistered and closed safely (see C1), \<open>DAHDI_SETCONF\<close> finds a free slot whenever it
  needs one and stays inside its tables, however many conferences there are, unless the conference number is 1024 or a digital monitor names a channel there is not; for the channel number
  1024, which it lets pass, it reads behind \<open>chans\<close>.\<close>

theorem setconf_defined:
  assumes "conf_reachable True s"
  shows "if (if ci_chan ci = 0 then me else ci_chan ci) = 1024 then ioctl_setconf alloc dacs_of me ci s = None
    else ci_confno ci \<noteq> 1024 \<and>
      (conf_mode (ci_confmode ci) = CONF_DIGITALMON \<longrightarrow> ci_confno ci \<noteq> - 1 \<and> chan_at s (ci_confno ci) \<noteq> Some None) \<longrightarrow>
      ioctl_setconf alloc dacs_of me ci s \<noteq> None"
proof (cases "(if ci_chan ci = 0 then me else ci_chan ci) = 1024")
  case True
  then have "setconf_check me ci s = None" by (simp add: setconf_check_def chan_at_def)
  then show ?thesis using True by (simp add: ioctl_setconf_def)
next
  case False
  have inv: "conf_inv {} {} s" by (rule conf_reachable_inv) fact
  have "ioctl_setconf alloc dacs_of me ci s \<noteq> None"
    if h: "ci_confno ci \<noteq> 1024"
      "conf_mode (ci_confmode ci) = CONF_DIGITALMON \<longrightarrow> ci_confno ci \<noteq> - 1 \<and> chan_at s (ci_confno ci) \<noteq> Some None"
  proof (cases "setconf_check me ci s")
    case None
    then show ?thesis using setconf_check_defined [OF False] by simp
  next
    case (Some r)
    show ?thesis
    proof (cases r)
      case (Inl e)
      then show ?thesis using Some by (simp add: ioctl_setconf_def)
    next
      case (Inr i)
      define no where "no = (if ci_confno ci = - 1 then first_empty_conference s else ci_confno ci)"
      obtain c where c: "chans s ! i = Some c" "1 \<le> i" "i < 1024" "- 1 \<le> ci_confno ci" "ci_confno ci \<le> 1024"
        "ci_confno ci = 0 \<longrightarrow> ci_confmode ci = 0" "ci_confmode ci = 0 \<longrightarrow> ci_confno ci = 0"
        using Some unfolding Inr by (rule setconf_checkD)
      show ?thesis
      proof (cases "no < 1 \<and> ci_confmode ci \<noteq> 0")
        case True
        then show ?thesis using Some Inr by (simp add: ioctl_setconf_def no_def)
      next
        case False
        have no: "0 \<le> no \<and> no < 1024"
        proof (cases "ci_confno ci = - 1")
          case True
          then have "ci_confmode ci \<noteq> 0" using c(7) by linarith
          then show ?thesis using True False first_empty_conference_range [of s] by (auto simp: no_def)
        next
          case False
          then show ?thesis using c(4,5) h(1) by (simp add: no_def)
        qed
        have cm: "is_conf_mode (ci_confmode ci) \<longrightarrow> 1 \<le> no" using False by auto
        have "setconf_join alloc dacs_of i no (ci_confmode ci) s \<noteq> None"
          using h(2) no cm by (intro setconf_join_ok(2) [OF inv c(1-3)]) (auto simp: no_def)
        then obtain s' where j: "setconf_join alloc dacs_of i no (ci_confmode ci) s = Some s'" by blast
        show ?thesis
          unfolding ioctl_setconf_def Some Inr option.case sum.case Let_def no_def [symmetric] if_not_P [OF False] j by simp
      qed
    qed
  qed
  then show ?thesis using False by simp
qed

theorem setconf_defined_witness:
  "ioctl_setconf True (\<lambda>_. None) 1 \<lparr>ci_chan = 3, ci_confno = 1023, ci_confmode = 4\<rparr> demo5 \<noteq> None \<and>
   ioctl_setconf True (\<lambda>_. None) 1 \<lparr>ci_chan = 1024, ci_confno = 2, ci_confmode = 4\<rparr> demo5 = None"
proof -
  have "conf_mode 4 = 4" by (simp add: conf_mode_def)
  then show ?thesis
    using setconf_defined [OF demo_reachable(3), of "\<lparr>ci_chan = 3, ci_confno = 1023, ci_confmode = 4\<rparr>" 1 True "\<lambda>_. None"]
      setconf_defined [OF demo_reachable(3), of "\<lparr>ci_chan = 1024, ci_confno = 2, ci_confmode = 4\<rparr>" 1 True "\<lambda>_. None"]
    by simp
qed

lemma listener_frees_slot:
  fixes dacs_of :: "int \<Rightarrow> nat option"
  assumes x: "chans F ! x = Some d" "listens_to (int m) d" and m: "0 < m" "m < length (confalias F)" "a < length (confrev F)"
    and a: "confalias F ! m = int a" "0 < a" and none: "\<forall>z \<le> x. \<not> conf_member F z (int m)"
  defines "V \<equiv> unreg_visit dacs_of (int m) x F"
  shows "confalias V ! m = 0" and "confrev V ! a = 0" and "slot_kept (chans F ! y) (chans V ! y)"
proof -
  let ?b = "before_check (int m) x d F"
  have b: "slots_kept F ?b" using x(1) by (rule before_check_kept)
  have mb: "maxchans ?b = x + 1" by (simp add: before_check_def Let_def)
  let ?c = "recalc_maxconfs (?b\<lparr>confrev := (confrev ?b)[a := 0], confalias := (confalias ?b)[m := 0]\<rparr>)"
  have ab: "confalias ?b = confalias F" "confrev ?b = confrev F" using b by (simp_all add: slots_kept_def)
  have "check_conf (int m) ?b = ?c"
    using none m(1) a ab mb slots_kept_member [OF b] by (auto simp: check_conf_def)
  then have V: "V = after_check dacs_of x d ?c"
    using x m(1) by (simp add: V_def unreg_visit_eq)
  have sb: "slot_kept (chans F ! z) (chans ?b ! z)" for z using b by (simp add: slots_kept_def)
  obtain d' where "chans ?c ! x = Some d'" "\<not> is_conf_mode (confmode d')"
    using sb [of x] x(1) not_conf_listens [OF x(2)] by (cases "chans ?b ! x") auto
  then have k: "slots_kept ?c V" unfolding V by (rule after_check_kept)
  show "confalias V ! m = 0" "confrev V ! a = 0" using k ab m by (simp_all add: slots_kept_def)
  show "slot_kept (chans F ! y) (chans V ! y)"
    by (rule slot_kept_trans [OF sb]) (use k in \<open>simp add: slots_kept_def\<close>)
qed

text \<open>C40. Unregistering a channel can free the slot of a conference that still has a member: when channel \<open>x\<close> monitors
  the channel \<open>m\<close> that goes away and the first member of the conference with the number \<open>m\<close> has a higher index than \<open>x\<close>,
  the slot is given back though the member \<open>y\<close> goes on being mixed in it, and the next new conference may get it.\<close>

theorem unregister_frees_slot_in_use:
  assumes "conf_reachable True s" and m: "1 \<le> m" "m < 1024" "chans s ! m = Some c" "flagged c FLAGBIT_REGISTERED" "channo c = int m"
      "\<not> is_conf_mode (confmode c)"
    and x: "1 \<le> x" "x < 1024" "x \<noteq> m" "chans s ! x = Some d" "listens_to (int m) d"
      "\<forall>z c. z < x \<and> z \<noteq> m \<and> chans s ! z = Some c \<longrightarrow> \<not> listens_to (int m) c"
    and y: "y < 1024" "conf_member s y (int m)" "\<forall>z < x. \<not> conf_member s z (int m)"
  shows "let s' = snd (dahdi_chan_unreg dacs_of c s) in
    confalias s' ! m = 0 \<and> conf_member s' y (int m) \<and>
    (\<exists>e. chans s' ! y = Some e \<and> 1 \<le> confn e \<and> confrev s' ! nat (confn e) = 0)"
proof -
  have inv: "conf_inv {} {} s" by (rule conf_reachable_inv) fact
  have mo: "members_ok {} s" and al: "alias_ok s" and len: "length (chans s) = 1024" "length (confalias s) = 1025"
    "length (confrev s) = 1025"
    using inv by (simp_all add: conf_inv_def tables_ok_def)
  define t where "t = s\<lparr>chans := (chans s)[m := None], maxchans := 0\<rparr>"
  define F where "F = fold (unreg_visit dacs_of (int m)) [1..<x] t"
  define V where "V = unreg_visit dacs_of (int m) x F"
  define G where "G = fold (unreg_visit dacs_of (int m)) [Suc x..<1024] V"
  have "[1..<1024] = [1..<x] @ x # [Suc x..<1024]" using x(1,2) by (metis le_add_diff_inverse less_imp_le upt_add_eq_append upt_conv_Cons)
  then have r: "snd (dahdi_chan_unreg dacs_of c s) = G"
    using m(4,5) by (simp add: dahdi_chan_unreg_def Let_def t_def F_def V_def G_def del: upt_Suc)
  have ct: "chans t ! z = (if z = m then None else chans s ! z)" for z using len m(2) by (simp add: t_def nth_upd)
  have quiet: "\<not> listens_to (int m) c" if "z \<in> set [1..<x]" "chans t ! z = Some c" for z c
    using that x(6) ct [of z] by (auto split: if_splits)
  have F: "slots_kept t F" "\<forall>z. z \<notin> set [1..<x] \<longrightarrow> chans F ! z = chans t ! z"
    using fold_visit_quiet [of "[1..<x]" t "int m" dacs_of] quiet unfolding F_def by simp_all
  have Fx: "chans F ! x = Some d" using F(2) ct [of x] x(3,4) by simp
  have Fa: "confalias F = confalias s" "confrev F = confrev s" using F(1) by (simp_all add: slots_kept_def t_def)
  obtain e0 where e0: "chans s ! y = Some e0" "confna e0 = int m" "is_conf_mode (confmode e0)"
    using y(2) by (auto simp: conf_member_def split: option.splits)
  have a0: "confalias s ! m = confn e0" "confn e0 \<noteq> 0" using members_okD [OF mo y(1) e0(1)] e0 by auto
  obtain a where a: "confn e0 = int a" "1 \<le> a" "a < 1024"
    by (rule alias_okD [OF al, of m]) (use a0 m in auto)
  have none: "\<forall>z \<le> x. \<not> conf_member F z (int m)"
    using slots_kept_member [OF F(1)] ct y(3) x(4) not_conf_listens [OF x(5)]
    by (auto simp: conf_member_def le_less split: option.splits)
  note V = listener_frees_slot [OF Fx x(5) _ _ _ _ _ none, where a = a and dacs_of = dacs_of, folded V_def, unfolded Fa]
  have V: "confalias V ! m = 0" "confrev V ! a = 0" "slot_kept (chans F ! y) (chans V ! y)"
    using V m(1,2) a a0 len by simp_all
  have G: "slots_kept V G" unfolding G_def by (rule fold_visit_free) (simp add: V)
  have "slot_kept (Some e0) (chans F ! y)" using F(1) ct [of y] e0 m(3,6) by (cases "y = m") (auto simp: slots_kept_def dest: spec [of _ y])
  moreover have "slot_kept (chans V ! y) (chans G ! y)" using G by (simp add: slots_kept_def)
  ultimately have "slot_kept (Some e0) (chans G ! y)" using slot_kept_trans V(3) by blast
  then obtain e where "chans G ! y = Some e" "confna e = int m" "is_conf_mode (confmode e)" "confn e = int a"
    using e0 a(1) by (cases "chans G ! y") auto
  moreover have "confalias G ! m = 0" "confrev G ! a = 0" using V G by (simp_all add: slots_kept_def)
  ultimately show ?thesis using a by (simp add: r Let_def conf_member_def)
qed

theorem unregister_frees_slot_in_use_witness:
  "\<exists>c. chans demo5 ! 2 = Some c \<and> conf_member (snd (dahdi_chan_unreg (\<lambda>_. None) c demo5)) 3 2 \<and>
     confalias (snd (dahdi_chan_unreg (\<lambda>_. None) c demo5)) ! 2 = 0"
proof -
  let ?c = "reg_chan 2 demo_chan\<lparr>readchunkpreec := None\<rparr>"
  have f: "flagged ?c FLAGBIT_REGISTERED" "channo ?c = int 2"
    using reg_chan_sel(1) [of 2 demo_chan] reg_chan_sel(2) [of 2 demo_chan] by simp_all
  have l: "listens_to (int 2) (set_membership 2 1 (reg_chan 1 demo_chan))" by (simp add: listens_to_def)
  have z: "chans demo5 ! 0 = None"
    using conf_reachable_inv [OF demo_reachable(3)] by (simp add: conf_inv_def tables_ok_def)
  have "let s' = snd (dahdi_chan_unreg (\<lambda>_. None) ?c demo5) in
    confalias s' ! 2 = 0 \<and> conf_member s' 3 (int 2) \<and>
    (\<exists>e. chans s' ! 3 = Some e \<and> 1 \<le> confn e \<and> confrev s' ! nat (confn e) = 0)"
    by (rule unregister_frees_slot_in_use [OF demo_reachable(3) _ _ demo5_chans(2) f _ _ _ _ demo5_chans(1) l])
      (use z demo5_chans in \<open>auto simp: conf_member_def less_Suc_eq\<close>)
  then show ?thesis using demo5_chans(2) by (auto simp: Let_def)
qed

end
