(* ===== verification/Mix.thy ===== *)
theory Mix
  imports Conf Echocan Tones "HOL-Library.Signed_Division"
begin

text \<open>
  The audio of a channel, a chunk of eight samples at a time, in \<open>dahdi-base.c\<close>: what goes out
  (\<open>__dahdi_process_getaudio_chunk\<close>) and what comes in (\<open>__dahdi_process_putaudio_chunk\<close>), the sums conferences are
  mixed in, the additions with saturation of \<open>arith.h\<close> and the detector of signalling tones; at the end, every operation that changes the
  mode of an echo canceller, of which these chunks are two. Samples are \<open>int\<close>s in the
  range of a \<open>short\<close>.
\<close>

section \<open>Adding with saturation\<close>

definition sat16 :: "int \<Rightarrow> int" where
  "sat16 s = (if s > 32767 then 32767 else if s < - 32768 then - 32768 else s)"

definition acss :: "int list \<Rightarrow> int list \<Rightarrow> int list" where
  "acss dst src = map2 (\<lambda>a b. sat16 (a + b)) dst src"

definition scss :: "int list \<Rightarrow> int list \<Rightarrow> int list" where
  "scss dst src = map2 (\<lambda>a b. sat16 (a - b)) dst src"

abbreviation (input) zeros :: "int list" where "zeros \<equiv> replicate 8 0"

section \<open>The sums of the conferences\<close>

text \<open>Three tables, and which of them is the previous, the current and the next one.\<close>

record conf_sums =
  tables :: "int list list list"
  sums_prev :: nat
  sums_cur :: nat
  sums_next :: nat
  sums_pos :: nat

definition rotate_sums :: "nat \<Rightarrow> conf_sums \<Rightarrow> conf_sums" where
  "rotate_sums n u =
     (let pos = sums_pos u; nxt = (pos + 2) mod 3
      in u\<lparr>sums_prev := pos, sums_cur := (pos + 1) mod 3, sums_next := nxt, sums_pos := (pos + 1) mod 3,
           tables := (tables u)[nxt := replicate n zeros @ drop n (tables u ! nxt)]\<rparr>)"

definition sum_at :: "nat \<Rightarrow> nat \<Rightarrow> conf_sums \<Rightarrow> int list" where
  "sum_at t n u = tables u ! t ! n"

definition put_sum :: "nat \<Rightarrow> nat \<Rightarrow> int list \<Rightarrow> conf_sums \<Rightarrow> conf_sums" where
  "put_sum t n v u = u\<lparr>tables := (tables u)[t := (tables u ! t)[n := v]]\<rparr>"

text \<open>Talking on a conference: what is really added, after saturation, and the new sum.\<close>

definition talk :: "nat \<Rightarrow> nat \<Rightarrow> int list \<Rightarrow> conf_sums \<Rightarrow> int list \<times> conf_sums" where
  "talk t n lin u =
     (let old = sum_at t n u; lst = scss (acss lin old) old
      in (lst, put_sum t n (acss old lst) u))"

text \<open>Listening to it: all but what the channel put there itself.\<close>

definition hear :: "int list \<Rightarrow> int list \<Rightarrow> int list \<Rightarrow> int list" where
  "hear lin lst mix = acss (scss lin lst) mix"

section \<open>Companding a chunk\<close>

definition from_law :: "dahdi_chan \<Rightarrow> byte list \<Rightarrow> int list" where
  "from_law c bs = map (xlaw c) bs"

definition to_law :: "dahdi_chan \<Rightarrow> int list \<Rightarrow> byte list" where
  "to_law c lin = map (lin2x c) lin"

definition silence :: "dahdi_chan \<Rightarrow> byte list" where
  "silence c = replicate 8 (lin2x c 0)"

section \<open>The tone of an answering fax machine\<close>

fun ced_scan :: "echo_can_disable_detector_state \<Rightarrow> int list \<Rightarrow> bool \<times> echo_can_disable_detector_state" where
  "ced_scan det [] = (False, det)"
| "ced_scan det (a # as) =
     (let (found, det) = echo_can_disable_detector_update det a in if found then (True, det) else ced_scan det as)"

definition ced_tx :: "ec_ops \<Rightarrow> int list \<Rightarrow> dahdi_chan \<Rightarrow> dahdi_chan" where
  "ced_tx ops lin ms =
     (case ec_state ms of
        None \<Rightarrow> ms
      | Some ec \<Rightarrow>
          if ec_mode ec = ECHO_MODE_ACTIVE \<and> \<not> CED_tx_detect (ec_features ec) then
            let (found, det) = ced_scan (ec_txecdis ec) lin;
                ms = ms\<lparr>ec_state := Some (ec\<lparr>ec_txecdis := det\<rparr>)\<rparr>
            in if found then qevent EVENT_TX_CED_DETECTED (set_echocan_fax_mode ops True ms) else ms
          else ms)"

definition ced_rx :: "ec_ops \<Rightarrow> int list \<Rightarrow> dahdi_chan \<Rightarrow> dahdi_chan" where
  "ced_rx ops lin ms =
     (case ec_state ms of
        None \<Rightarrow> ms
      | Some ec \<Rightarrow>
          if ec_mode ec = ECHO_MODE_ACTIVE \<and> \<not> CED_rx_detect (ec_features ec) then
            let (found, det) = ced_scan (ec_rxecdis ec) lin;
                ms = ms\<lparr>ec_state := Some (ec\<lparr>ec_rxecdis := det\<rparr>)\<rparr>
            in if found then qevent EVENT_RX_CED_DETECTED (set_echocan_fax_mode ops True ms) else ms
          else ms)"

section \<open>What a channel sends\<close>

text \<open>The channel \<open>confna\<close> is a pointer into \<open>chans\<close>: \<open>None\<close> when there is no channel or no such entry.\<close>

definition peer :: "conf_sys \<Rightarrow> dahdi_chan \<Rightarrow> dahdi_chan option" where
  "peer s ms = (case chan_at s (confna ms) of Some (Some p) \<Rightarrow> Some p | _ \<Rightarrow> None)"

text \<open>What is added for a channel that monitors \<open>p\<close>; the copy before echo cancellation may be missing.\<close>

definition get_monitored :: "int \<Rightarrow> dahdi_chan \<Rightarrow> int list list option" where
  "get_monitored mode p =
     (let pseudo = flagged p FLAGBIT_PSEUDO
      in if mode = CONF_MONITOR then Some [if pseudo then getlin p else putlin p]
         else if mode = CONF_MONITORTX then Some [if pseudo then putlin p else getlin p]
         else if mode = CONF_MONITORBOTH then Some [putlin p, getlin p]
         else case readchunkpreec p of
                None \<Rightarrow> None
              | Some pre \<Rightarrow>
                  if mode = CONF_MONITOR_RX_PREECHO then Some [if pseudo then pre else putlin p]
                  else if mode = CONF_MONITOR_TX_PREECHO then Some [if pseudo then putlin p else pre]
                  else Some [putlin p, pre])"

definition get_listen :: "dahdi_chan \<Rightarrow> int list \<Rightarrow> conf_sums \<Rightarrow> int list" where
  "get_listen ms lin u =
     (if conf_flag (confmode ms) CONF_LISTENER then hear lin (conflast ms) (sum_at (sums_cur u) (nat (confn ms)) u) else lin)"

text \<open>The results: the samples, the bytes, the channel and the sums.\<close>

definition get_conf :: "dahdi_chan \<Rightarrow> int list \<Rightarrow> conf_sums \<Rightarrow> int list \<times> byte list \<times> dahdi_chan \<times> conf_sums" where
  "get_conf ms lin u =
     (if flagged ms FLAGBIT_PSEUDO then
        if conf_flag (confmode ms) CONF_TALKER then
          let (lst, u) = talk (sums_cur u) (nat (confn ms)) lin u
          in (lin, silence ms, ms\<lparr>conflast := lst, getlin := lin\<rparr>, u)
        else (getlin ms, silence ms, ms\<lparr>conflast := zeros\<rparr>, u)
      else let lin = get_listen ms lin u in (lin, to_law ms lin, ms, u))"

definition get_real_and_pseudo :: "dahdi_chan \<Rightarrow> int list \<Rightarrow> conf_sums \<Rightarrow> int list \<times> byte list \<times> dahdi_chan \<times> conf_sums" where
  "get_real_and_pseudo ms lin u =
     (let (ms, u) =
        (if conf_flag (confmode ms) CONF_PSEUDO_TALKER then
           let (lst, u) = talk (sums_next u) (nat (confn ms)) lin u
           in (ms\<lparr>conflast2 := conflast1 ms, conflast1 := lst\<rparr>, u)
         else (ms\<lparr>conflast1 := zeros, conflast2 := zeros\<rparr>, u))
      in get_conf ms zeros u)"

definition get_announce :: "dahdi_chan \<Rightarrow> int list \<Rightarrow> conf_sums \<Rightarrow> int list \<times> byte list \<times> dahdi_chan \<times> conf_sums" where
  "get_announce ms lin u =
     (let n = nat (confn ms);
          u = put_sum (sums_next u) n (acss (sum_at (sums_next u) n u) lin) u;
          lin = get_listen ms zeros u
      in (lin, to_law ms lin, ms, u))"

definition get_digital :: "dahdi_chan \<Rightarrow> dahdi_chan \<Rightarrow> byte list" where
  "get_digital ms p =
     (if flagged p FLAGBIT_PSEUDO
      then if ec_state ms \<noteq> None then to_law ms (getlin p) else getraw p
      else if ec_state ms \<noteq> None then to_law ms (putlin p) else putraw p)"

definition get_switch ::
    "conf_sys \<Rightarrow> dahdi_chan \<Rightarrow> int list \<Rightarrow> byte list \<Rightarrow> conf_sums \<Rightarrow> (int list \<times> byte list \<times> dahdi_chan \<times> conf_sums) option" where
  "get_switch s ms lin txb u =
     (let mode = conf_mode (confmode ms)
      in if is_monitor_mode (confmode ms) then
           if flagged ms FLAGBIT_PSEUDO then Some (lin, txb, ms, u)
           else (case peer s ms of
                   None \<Rightarrow> None
                 | Some p \<Rightarrow>
                     (case get_monitored mode p of
                        None \<Rightarrow> Some (lin, txb, ms, u)
                      | Some srcs \<Rightarrow> let lin = fold (\<lambda>src lin. acss lin src) srcs lin in Some (lin, to_law ms lin, ms, u)))
         else if mode = CONF_REALANDPSEUDO then Some (get_real_and_pseudo ms lin u)
         else if mode = CONF_CONF then Some (get_conf ms lin u)
         else if mode = CONF_CONFMON then let lin = get_listen ms lin u in Some (lin, to_law ms lin, ms, u)
         else if mode = CONF_CONFANN \<or> mode = CONF_CONFANNMON then Some (get_announce ms lin u)
         else if mode = CONF_DIGITALMON then
           (case chan_at s (confna ms) of
              None \<Rightarrow> None
            | Some None \<Rightarrow> Some (lin, txb, ms, u)
            | Some (Some p) \<Rightarrow> let txb = get_digital ms p in Some (from_law ms txb, txb, ms, u))
         else Some (lin, txb, ms, u))"

definition get_mute :: "byte list \<Rightarrow> dahdi_chan \<Rightarrow> byte list \<times> dahdi_chan" where
  "get_mute txb ms =
     (if confmute ms \<noteq> 0 \<or> (case ec_state ms of None \<Rightarrow> False | Some ec \<Rightarrow> echo_mode_mute (ec_mode ec)) then
        case ec_state ms of
          None \<Rightarrow> (silence ms, ms)
        | Some ec \<Rightarrow>
            if ec_mode ec = ECHO_MODE_STARTTRAINING
            then ((silence ms)[0 := lin2x ms 16384], ms\<lparr>ec_state := Some (ec\<lparr>ec_mode := ECHO_MODE_AWAITINGECHO\<rparr>)\<rparr>)
            else (silence ms, ms)
      else (txb, ms))"

fun add_txtone :: "int list \<Rightarrow> dahdi_chan \<Rightarrow> byte list \<times> dahdi_chan" where
  "add_txtone [] ms = ([], ms)"
| "add_txtone (a # lin) ms =
     (let (t, ms) = dahdi_txtone_nextsample ms; (txb, ms') = add_txtone lin ms
      in (lin2x ms (wrap_short (a + t)) # txb, ms'))"

definition get_finish :: "int list \<Rightarrow> byte list \<Rightarrow> dahdi_chan \<Rightarrow> byte list \<times> dahdi_chan" where
  "get_finish lin txb ms =
     (let (txb, ms) = get_mute txb ms;
          ms = ms\<lparr>getlin_lastchunk := getlin ms, getlin := lin, getraw := txb\<rparr>;
          (txb, ms) = (if v1_1 ms \<noteq> 0 \<or> v2_1 ms \<noteq> 0 \<or> v3_1 ms \<noteq> 0 then add_txtone lin ms else (txb, ms))
      in (map (txgain ms) txb, ms))"

definition process_getaudio_chunk ::
    "ec_ops \<Rightarrow> nat \<Rightarrow> byte list \<Rightarrow> conf_sys \<times> conf_sums \<Rightarrow> (byte list \<times> conf_sys \<times> conf_sums) option" where
  "process_getaudio_chunk ops m txb = (\<lambda>(s, u).
     case chans s ! m of
       None \<Rightarrow> None
     | Some ms \<Rightarrow>
         let lin = from_law ms txb; ms = ced_tx ops lin ms
         in case (if confmute ms = 0 \<and> dialing ms = 0 \<or> flagged ms FLAGBIT_PSEUDO
                  then get_switch s ms lin txb u else Some (lin, txb, ms, u)) of
              None \<Rightarrow> None
            | Some (lin, txb, ms, u) \<Rightarrow>
                let (txb, ms) = get_finish lin txb ms in Some (txb, upd_chan m (\<lambda>_. ms) s, u))"

section \<open>Signalling tones\<close>

abbreviation (input) SF_DETECT_SAMPLES :: int where "SF_DETECT_SAMPLES \<equiv> 40"
abbreviation (input) SF_DETECT_MIN_ENERGY :: int where "SF_DETECT_MIN_ENERGY \<equiv> 500"
abbreviation (input) NB :: nat where "NB \<equiv> 14"

text \<open>The filter's arithmetic is that of a 64-bit \<open>long\<close>.\<close>

definition wrap_long :: "int \<Rightarrow> int" where
  "wrap_long x = signed_take_bit 63 x"

definition sf_sample :: "int \<Rightarrow> int \<Rightarrow> int \<Rightarrow> int \<Rightarrow> sf_detect_state \<Rightarrow> int \<times> sf_detect_state" where
  "sf_sample p1 p2 p3 a st =
     (let x = push_bit NB a;
          y = wrap_long (sf_x2 st + p1 * drop_bit NB (sf_x1 st) + x);
          y = wrap_long (y + (p2 * drop_bit NB (sf_y2 st) + p3 * drop_bit NB (sf_y1 st)));
          a = wrap_short (drop_bit NB y)
      in (a, st\<lparr>sf_x2 := sf_x1 st, sf_x1 := x, sf_y2 := sf_y1 st, sf_y1 := y,
               sf_e2 := (if a < 0 then sf_e2 st - a else sf_e2 st + a)\<rparr>))"

fun sf_filter :: "int \<Rightarrow> int \<Rightarrow> int \<Rightarrow> int list \<Rightarrow> sf_detect_state \<Rightarrow> int list \<times> sf_detect_state" where
  "sf_filter p1 p2 p3 [] st = ([], st)"
| "sf_filter p1 p2 p3 (a # amp) st =
     (let (a, st) = sf_sample p1 p2 p3 a st; (amp, st) = sf_filter p1 p2 p3 amp st in (a # amp, st))"

definition sf_detect :: "sf_detect_state \<Rightarrow> int list \<Rightarrow> int \<Rightarrow> int \<Rightarrow> int \<Rightarrow> int \<times> int list \<times> sf_detect_state" where
  "sf_detect st amp p1 p2 p3 =
     (let st = st\<lparr>sf_e1 := fold (\<lambda>a e. if a < 0 then e - a else e + a) amp (sf_e1 st)\<rparr>;
          (out, st) = sf_filter p1 p2 p3 amp st;
          st = st\<lparr>sf_samps := wrap_int (sf_samps st + int (length amp))\<rparr>
      in if sf_samps st \<ge> SF_DETECT_SAMPLES
         then ((if (sf_e1 st - sf_e2 st) sdiv sf_samps st > SF_DETECT_MIN_ENERGY then 2 else 1), out,
               st\<lparr>sf_samps := 0, sf_e1 := 0, sf_e2 := 0\<rparr>)
         else (0, out, st))"

definition rx_tone :: "byte list \<Rightarrow> int list \<Rightarrow> dahdi_chan \<Rightarrow> byte list \<times> int list \<times> dahdi_chan" where
  "rx_tone rxb lin ms =
     (if rxp1 ms \<noteq> 0 \<and> rxp2 ms \<noteq> 0 \<and> rxp3 ms \<noteq> 0 then
        let (r, lin, st) = sf_detect (rd ms) lin (rxp1 ms) (rxp2 ms) (rxp3 ms);
            rev = bit (toneflags ms) 0;
            ms = (if r \<noteq> 0 \<and> r \<noteq> sf_lastdetect st
                  then (qevent (if r = 2 \<and> \<not> rev \<or> r = 1 \<and> rev then EVENT_RINGOFFHOOK else EVENT_ONHOOK) ms)
                         \<lparr>rd := st\<lparr>sf_lastdetect := r\<rparr>\<rparr>
                  else ms\<lparr>rd := st\<rparr>)
        in (to_law ms lin, lin, ms)
      else (rxb, lin, ms))"

section \<open>What a channel receives\<close>

definition put_monitored :: "int \<Rightarrow> dahdi_chan \<Rightarrow> int list list option" where
  "put_monitored mode p =
     (let pseudo = flagged p FLAGBIT_PSEUDO
      in if mode = CONF_MONITOR then Some [if pseudo then getlin p else putlin p]
         else if mode = CONF_MONITORTX then Some [if pseudo then putlin p else getlin p]
         else if mode = CONF_MONITORBOTH then Some [getlin p, putlin p]
         else case readchunkpreec p of
                None \<Rightarrow> None
              | Some pre \<Rightarrow>
                  if mode = CONF_MONITOR_RX_PREECHO then Some [if pseudo then getlin p else pre]
                  else if mode = CONF_MONITOR_TX_PREECHO then Some [if pseudo then pre else getlin p]
                  else Some [getlin p, pre])"

text \<open>The results: the bytes, the channel, the sums, and the samples that replace those of the slave.\<close>

definition put_talk :: "int list \<Rightarrow> dahdi_chan \<Rightarrow> conf_sums \<Rightarrow> dahdi_chan \<times> conf_sums" where
  "put_talk lin ms u =
     (if conf_flag (confmode ms) CONF_TALKER then
        let (lst, u) = talk (sums_next u) (nat (confn ms)) lin u in (ms\<lparr>conflast := lst\<rparr>, u)
      else (ms\<lparr>conflast := zeros\<rparr>, u))"

definition put_conf :: "int list \<Rightarrow> byte list \<Rightarrow> dahdi_chan \<Rightarrow> conf_sums \<Rightarrow> byte list \<times> dahdi_chan \<times> conf_sums \<times> int list option" where
  "put_conf lin rxb ms u =
     (if flagged ms FLAGBIT_PSEUDO then
        let lin = get_listen ms lin u in (to_law ms lin, ms, u, Some lin)
      else let (ms, u) = put_talk lin ms u in (rxb, ms, u, None))"

definition put_real_and_pseudo :: "int list \<Rightarrow> dahdi_chan \<Rightarrow> conf_sums \<Rightarrow> byte list \<times> dahdi_chan \<times> conf_sums \<times> int list option" where
  "put_real_and_pseudo lin ms u =
     (let (ms, u) = put_talk lin ms u;
          lin = (if conf_flag (confmode ms) CONF_PSEUDO_LISTENER
                 then hear zeros (conflast2 ms) (sum_at (sums_cur u) (nat (confn ms)) u) else zeros)
      in (to_law ms lin, ms, u, None))"

definition put_confmon :: "int list \<Rightarrow> dahdi_chan \<Rightarrow> conf_sums \<Rightarrow> byte list \<times> dahdi_chan \<times> conf_sums \<times> int list option" where
  "put_confmon lin ms u =
     (let t = sums_cur u; n = nat (confn ms);
          (ms, u) =
            (if conf_flag (confmode ms) CONF_TALKER then
               let u = put_sum t n (scss (sum_at t n u) (conflast ms)) u; (lst, u) = talk t n lin u
               in (ms\<lparr>conflast := lst\<rparr>, u)
             else (ms\<lparr>conflast := zeros\<rparr>, u))
      in (to_law ms (sum_at (sums_prev u) n u), ms, u, None))"

definition put_switch ::
    "conf_sys \<Rightarrow> dahdi_chan \<Rightarrow> int list \<Rightarrow> byte list \<Rightarrow> conf_sums \<Rightarrow> (byte list \<times> dahdi_chan \<times> conf_sums \<times> int list option) option" where
  "put_switch s ms lin rxb u =
     (let mode = conf_mode (confmode ms)
      in if is_monitor_mode (confmode ms) then
           if \<not> flagged ms FLAGBIT_PSEUDO then Some (rxb, ms, u, None)
           else (case peer s ms of
                   None \<Rightarrow> None
                 | Some p \<Rightarrow>
                     (case put_monitored mode p of
                        None \<Rightarrow> Some (rxb, ms, u, None)
                      | Some srcs \<Rightarrow> Some (to_law ms (fold (\<lambda>src lin. acss lin src) srcs lin), ms, u, None)))
         else if mode = CONF_REALANDPSEUDO then Some (put_real_and_pseudo lin ms u)
         else if mode = CONF_CONF then Some (put_conf lin rxb ms u)
         else if mode = CONF_CONFANN then let (ms, u) = put_talk lin ms u in Some (rxb, ms, u, None)
         else if mode = CONF_CONFMON \<or> mode = CONF_CONFANNMON then Some (put_confmon lin ms u)
         else if mode = CONF_DIGITALMON then
           if \<not> flagged ms FLAGBIT_PSEUDO then Some (rxb, ms, u, None)
           else (case peer s ms of
                   None \<Rightarrow> None
                 | Some p \<Rightarrow> Some (if flagged p FLAGBIT_PSEUDO then getraw p else putraw p, ms, u, None))
         else Some (rxb, ms, u, None))"

definition put_start :: "ec_ops \<Rightarrow> byte list \<Rightarrow> dahdi_chan \<Rightarrow> byte list \<times> int list \<times> dahdi_chan" where
  "put_start ops rxb ms =
     (let ms = (if dialing ms \<noteq> 0 then ms\<lparr>afterdialingtimer := 50\<rparr>
                else if afterdialingtimer ms \<noteq> 0 then ms\<lparr>afterdialingtimer := afterdialingtimer ms - 1\<rparr> else ms);
          rxb = (if afterdialingtimer ms \<noteq> 0 \<and> \<not> flagged ms FLAGBIT_PSEUDO then silence ms else rxb);
          rxb = map (rxgain ms) rxb;
          lin = from_law ms rxb;
          (rxb, lin, ms) = rx_tone rxb lin (ced_rx ops lin ms)
      in (rxb, lin, if flagged ms FLAGBIT_PSEUDO then ms else ms\<lparr>putlin := lin, putraw := rxb\<rparr>))"

definition process_putaudio_chunk ::
    "ec_ops \<Rightarrow> nat \<Rightarrow> nat \<Rightarrow> byte list \<Rightarrow> conf_sys \<times> conf_sums \<Rightarrow> (byte list \<times> conf_sys \<times> conf_sums) option" where
  "process_putaudio_chunk ops ss m rxb = (\<lambda>(s, u).
     case chans s ! m of
       None \<Rightarrow> None
     | Some ms \<Rightarrow>
         let (rxb, lin, ms) = put_start ops rxb ms; s = upd_chan m (\<lambda>_. ms) s
         in if confmute ms = 0 \<and> afterdialingtimer ms = 0 \<or> flagged ms FLAGBIT_PSEUDO then
              (case put_switch s ms lin rxb u of
                 None \<Rightarrow> None
               | Some (rxb, ms, u, slave) \<Rightarrow>
                   let s = upd_chan m (\<lambda>_. ms) s;
                       s = (case slave of None \<Rightarrow> s | Some lin \<Rightarrow> upd_chan ss (putlin_update (\<lambda>_. lin)) s)
                   in Some (rxb, s, u))
            else Some (rxb, s, u))"


section \<open>One sample\<close>

lemma sat16_short [simp]: "is_short (sat16 x)"
  by (simp add: sat16_def is_short_def)

lemma sat16_id: "is_short x \<Longrightarrow> sat16 x = x"
  by (simp add: sat16_def is_short_def)

text \<open>What a talker adds is between nothing and its sample, the sum never clips, and nothing is lost that fits.\<close>

lemma talk_sample:
  assumes "is_short l" "is_short S"
  defines "a \<equiv> sat16 (sat16 (l + S) - S)"
  shows "sat16 (S + a) = S + a" and "is_short (S + a)" and "\<bar>a\<bar> \<le> \<bar>l\<bar>" and "0 \<le> a * l" and "is_short (l + S) \<Longrightarrow> a = l"
proof -
  have a: "a = (if l + S > 32767 then 32767 - S else if l + S < - 32768 then - 32768 - S else l)"
    using assms by (auto simp: sat16_def is_short_def)
  show s: "is_short (S + a)" using assms(1,2) by (auto simp: a is_short_def)
  show "sat16 (S + a) = S + a" by (rule sat16_id [OF s])
  show "\<bar>a\<bar> \<le> \<bar>l\<bar>" using assms(1,2) by (auto simp: a is_short_def)
  show "0 \<le> a * l" using assms(1,2) by (auto simp: a is_short_def intro: mult_nonneg_nonneg mult_nonpos_nonpos)
  show "is_short (l + S) \<Longrightarrow> a = l" by (simp add: a is_short_def)
qed

section \<open>Chunks and sums\<close>

definition chunk_ok :: "int list \<Rightarrow> bool" where
  "chunk_ok v \<longleftrightarrow> length v = 8 \<and> (\<forall>k < 8. is_short (v ! k))"

lemma chunk_ok_zeros [simp]: "chunk_ok zeros"
  by (auto simp: chunk_ok_def is_short_def nth_Cons')

lemma chunk_okD: "chunk_ok v \<Longrightarrow> length v = 8" "chunk_ok v \<Longrightarrow> k < 8 \<Longrightarrow> is_short (v ! k)"
  by (simp_all add: chunk_ok_def)

lemma acss_len [simp]: "length (acss a b) = min (length a) (length b)"
  by (simp add: acss_def)

lemma scss_len [simp]: "length (scss a b) = min (length a) (length b)"
  by (simp add: scss_def)

lemma acss_nth: "k < length a \<Longrightarrow> k < length b \<Longrightarrow> acss a b ! k = sat16 (a ! k + b ! k)"
  by (simp add: acss_def)

lemma scss_nth: "k < length a \<Longrightarrow> k < length b \<Longrightarrow> scss a b ! k = sat16 (a ! k - b ! k)"
  by (simp add: scss_def)

lemma acss_ok: "chunk_ok a \<Longrightarrow> chunk_ok b \<Longrightarrow> chunk_ok (acss a b)"
  by (simp add: chunk_ok_def acss_nth)

lemma scss_ok: "chunk_ok a \<Longrightarrow> chunk_ok b \<Longrightarrow> chunk_ok (scss a b)"
  by (simp add: chunk_ok_def scss_nth)

lemma hear_ok: "chunk_ok a \<Longrightarrow> chunk_ok b \<Longrightarrow> chunk_ok c \<Longrightarrow> chunk_ok (hear a b c)"
  by (simp add: hear_def acss_ok scss_ok)

definition sums_ok :: "conf_sums \<Rightarrow> bool" where
  "sums_ok u \<longleftrightarrow> length (tables u) = 3 \<and> (\<forall>t < 3. length (tables u ! t) = 1025 \<and> (\<forall>n < 1025. chunk_ok (tables u ! t ! n))) \<and>
     sums_pos u < 3 \<and> sums_cur u = sums_pos u \<and> sums_next u = (sums_pos u + 1) mod 3 \<and> sums_prev u = (sums_pos u + 2) mod 3"

lemma sums_okD:
  assumes "sums_ok u"
  shows "sums_cur u < 3" "sums_next u < 3" "sums_prev u < 3" "sums_cur u \<noteq> sums_next u" "sums_cur u \<noteq> sums_prev u"
    "sums_next u \<noteq> sums_prev u" "t < 3 \<Longrightarrow> n < 1025 \<Longrightarrow> chunk_ok (sum_at t n u)" "length (tables u) = 3"
    "t < 3 \<Longrightarrow> length (tables u ! t) = 1025"
proof -
  have "sums_pos u = 0 \<or> sums_pos u = 1 \<or> sums_pos u = 2" using assms by (auto simp: sums_ok_def)
  then show "sums_cur u < 3" "sums_next u < 3" "sums_prev u < 3" "sums_cur u \<noteq> sums_next u" "sums_cur u \<noteq> sums_prev u"
    "sums_next u \<noteq> sums_prev u" using assms by (auto simp: sums_ok_def)
  show "t < 3 \<Longrightarrow> n < 1025 \<Longrightarrow> chunk_ok (sum_at t n u)" "length (tables u) = 3" "t < 3 \<Longrightarrow> length (tables u ! t) = 1025"
    using assms by (simp_all add: sums_ok_def sum_at_def)
qed

lemma sum_at_put: "sums_ok u \<Longrightarrow> t < 3 \<Longrightarrow> n < 1025 \<Longrightarrow>
    sum_at t' n' (put_sum t n v u) = (if t' = t \<and> n' = n then v else sum_at t' n' u)"
  by (simp add: sum_at_def put_sum_def nth_upd sums_okD)

lemma put_sum_sel [simp]: "sums_prev (put_sum t n v u) = sums_prev u" "sums_cur (put_sum t n v u) = sums_cur u"
  "sums_next (put_sum t n v u) = sums_next u" "sums_pos (put_sum t n v u) = sums_pos u"
  by (simp_all add: put_sum_def)

lemma put_sum_ok: "sums_ok u \<Longrightarrow> t < 3 \<Longrightarrow> n < 1025 \<Longrightarrow> chunk_ok v \<Longrightarrow> sums_ok (put_sum t n v u)"
  unfolding sums_ok_def by (auto simp: put_sum_def nth_upd)

lemma talk_ok:
  assumes u: "sums_ok u" and t: "t < 3" "n < 1025" and l: "chunk_ok lin" and r: "talk t n lin u = (a, u')"
  shows "sums_ok u'" "chunk_ok a" "sums_next u' = sums_next u" "sums_cur u' = sums_cur u" "sums_prev u' = sums_prev u"
    and "t' \<noteq> t \<or> n' \<noteq> n \<Longrightarrow> sum_at t' n' u' = sum_at t' n' u"
    and "k < 8 \<Longrightarrow> sum_at t n u' ! k = sum_at t n u ! k + a ! k" 
    and "k < 8 \<Longrightarrow> \<bar>a ! k\<bar> \<le> \<bar>lin ! k\<bar> \<and> 0 \<le> a ! k * lin ! k \<and> (is_short (lin ! k + sum_at t n u ! k) \<longrightarrow> a ! k = lin ! k)"
proof -
  let ?S = "sum_at t n u"
  have S: "chunk_ok ?S" using sums_okD(7) [OF u t] .
  have a: "a = scss (acss lin ?S) ?S" and u': "u' = put_sum t n (acss ?S a) u"
    using r by (auto simp: talk_def Let_def)
  show ca: "chunk_ok a" by (simp add: a acss_ok scss_ok S l)
  show "sums_ok u'" by (simp add: u' put_sum_ok u t acss_ok S ca)
  show "sums_next u' = sums_next u" "sums_cur u' = sums_cur u" "sums_prev u' = sums_prev u" by (simp_all add: u')
  show "t' \<noteq> t \<or> n' \<noteq> n \<Longrightarrow> sum_at t' n' u' = sum_at t' n' u" by (auto simp: u' sum_at_put u t)
  have k: "a ! k = sat16 (sat16 (lin ! k + ?S ! k) - ?S ! k)" if "k < 8" for k
    using that chunk_okD(1) [OF S] chunk_okD(1) [OF l] by (simp add: a scss_nth acss_nth)
  show "sum_at t n u' ! k = ?S ! k + a ! k" if "k < 8"
    using that chunk_okD [OF S] chunk_okD [OF l] chunk_okD(1) [OF ca] talk_sample(1) [of "lin ! k" "?S ! k"] k [OF that]
    by (simp add: u' sum_at_put u t acss_nth)
  show "\<bar>a ! k\<bar> \<le> \<bar>lin ! k\<bar> \<and> 0 \<le> a ! k * lin ! k \<and> (is_short (lin ! k + ?S ! k) \<longrightarrow> a ! k = lin ! k)" if "k < 8"
    using talk_sample(3-5) [of "lin ! k" "?S ! k"] chunk_okD(2) [OF S that] chunk_okD(2) [OF l that] k [OF that] by simp
qed

lemma mod3: "(p :: nat) < 3 \<Longrightarrow> p = 0 \<or> p = 1 \<or> p = 2"
  by auto

lemma rotate_ok: "sums_ok u \<Longrightarrow> n \<le> 1025 \<Longrightarrow> sums_ok (rotate_sums n u)"
  and rotate_cur: "sums_ok u \<Longrightarrow> n \<le> 1025 \<Longrightarrow> sum_at (sums_cur (rotate_sums n u)) z (rotate_sums n u) = sum_at (sums_next u) z u"
proof -
  assume u: "sums_ok u" and n: "n \<le> 1025"
  have p: "sums_pos u = 0 \<or> sums_pos u = 1 \<or> sums_pos u = 2" and l: "length (tables u) = 3"
    using u by (auto simp: sums_ok_def)
  have c: "\<forall>m < 1025. chunk_ok ((replicate n zeros @ drop n (tables u ! t)) ! m)" if "t < 3" for t
    using u that n by (auto simp: sums_ok_def nth_append)
  have d: "length (replicate n zeros @ drop n (tables u ! t)) = 1025" if "t < 3" for t
    using u that n by (simp add: sums_ok_def)
  show "sums_ok (rotate_sums n u)"
    using u p c d by (auto simp: sums_ok_def rotate_sums_def Let_def nth_upd l)
  show "sum_at (sums_cur (rotate_sums n u)) z (rotate_sums n u) = sum_at (sums_next u) z u"
    using u p by (auto simp: sums_ok_def rotate_sums_def Let_def nth_upd l sum_at_def)
qed


section \<open>What stays\<close>

text \<open>The fields of a channel that mixing reads and neither chunk function writes.\<close>

definition same_voice :: "dahdi_chan \<Rightarrow> dahdi_chan \<Rightarrow> bool" where
  "same_voice a b \<longleftrightarrow> confna b = confna a \<and> confn b = confn a \<and> confmode b = confmode a \<and> confmute b = confmute a \<and>
     dialing b = dialing a \<and> cflags b = cflags a \<and> xlaw b = xlaw a \<and> lin2x b = lin2x a \<and>
     conflast b = conflast a \<and> conflast1 b = conflast1 a \<and> conflast2 b = conflast2 a \<and> rxgain b = rxgain a"

lemma same_voice_refl [simp]: "same_voice a a"
  by (simp add: same_voice_def)

lemma same_voice_qevent [simp]: "same_voice a (qevent e c) = same_voice a c"
proof -
  obtain ws where "qevent e c = c\<lparr>evring := qevent_q e (evring c), eff := eff c @ ws\<rparr>" using qevent_cases by blast
  then show ?thesis by (simp add: same_voice_def)
qed

lemma same_voice_ec [simp]: "same_voice a (c\<lparr>ec_state := e\<rparr>) = same_voice a c"
  by (simp add: same_voice_def)

lemma same_voice_upd [simp]:
  "same_voice a (c\<lparr>rd := r\<rparr>) = same_voice a c" "same_voice a (c\<lparr>afterdialingtimer := i\<rparr>) = same_voice a c"
  "same_voice a (c\<lparr>putlin := v, putraw := w\<rparr>) = same_voice a c"
  by (simp_all add: same_voice_def)

lemma same_voice_fax [simp]: "same_voice a (set_echocan_fax_mode ops f c) = same_voice a c"
  by (simp add: set_echocan_fax_mode_def split: option.splits)

lemma same_voice_ced [simp]: "same_voice a (ced_tx ops lin c) = same_voice a c" "same_voice a (ced_rx ops lin c) = same_voice a c"
  by (simp_all add: ced_tx_def ced_rx_def Let_def split: option.splits prod.splits)

lemma same_voice_rx_tone: "rx_tone rxb lin c = (rxb', lin', c') \<Longrightarrow> same_voice a c' = same_voice a c"
  by (auto simp: rx_tone_def Let_def split: if_splits prod.splits)

lemma qevent_timer [simp]: "afterdialingtimer (qevent e c) = afterdialingtimer c"
  using qevent_cases [of e c] by auto

lemma fax_timer [simp]: "afterdialingtimer (set_echocan_fax_mode ops f c) = afterdialingtimer c"
  by (simp add: set_echocan_fax_mode_def split: option.splits)

lemma ced_timer [simp]: "afterdialingtimer (ced_rx ops lin c) = afterdialingtimer c"
  by (simp add: ced_rx_def Let_def split: option.splits prod.splits)

lemma rx_tone_timer: "rx_tone rxb lin c = (rxb', lin', c') \<Longrightarrow> afterdialingtimer c' = afterdialingtimer c"
  by (auto simp: rx_tone_def Let_def split: if_splits prod.splits)

definition law_ok :: "dahdi_chan \<Rightarrow> bool" where
  "law_ok c \<longleftrightarrow> (\<forall>b. is_short (xlaw c b))"

lemma from_law_ok: "law_ok c \<Longrightarrow> length bs = 8 \<Longrightarrow> chunk_ok (from_law c bs)"
  by (simp add: law_ok_def chunk_ok_def from_law_def)

lemma sf_filter_ok: "sf_filter p1 p2 p3 amp st = (out, st') \<Longrightarrow> length out = length amp \<and> (\<forall>a \<in> set out. is_short a)"
proof (induction amp arbitrary: st out st')
  case (Cons a amp)
  obtain b st1 where 1: "sf_sample p1 p2 p3 a st = (b, st1)" by fastforce
  obtain o2 st2 where 2: "sf_filter p1 p2 p3 amp st1 = (o2, st2)" by fastforce
  have "is_short b" using 1 wrap_short_range by (auto simp: sf_sample_def Let_def is_short_def)
  then show ?case using Cons.IH [OF 2] Cons.prems 1 2 by auto
qed simp

lemma rx_tone_ok: "rx_tone rxb lin c = (rxb', lin', c') \<Longrightarrow> chunk_ok lin \<Longrightarrow> chunk_ok lin'"
proof -
  assume r: "rx_tone rxb lin c = (rxb', lin', c')" and l: "chunk_ok lin"
  have "chunk_ok out" if "sf_detect st lin p1 p2 p3 = (r, out, st')" for st p1 p2 p3 r out st'
  proof -
    obtain st0 st1 where "sf_filter p1 p2 p3 lin st0 = (out, st1)"
      using \<open>sf_detect st lin p1 p2 p3 = (r, out, st')\<close> by (auto simp: sf_detect_def Let_def split: prod.splits if_splits)
    from sf_filter_ok [OF this] show ?thesis using l by (auto simp: chunk_ok_def)
  qed
  then show ?thesis using r l by (auto simp: rx_tone_def Let_def split: if_splits prod.splits)
qed

text \<open>A channel that talks on a conference: not a pseudo channel, not muted, not dialling.\<close>

definition talks :: "dahdi_chan \<Rightarrow> bool" where
  "talks c \<longleftrightarrow> \<not> flagged c FLAGBIT_PSEUDO \<and> conf_mode (confmode c) \<in> {CONF_CONF, CONF_CONFANN} \<and> confmute c = 0 \<and>
     dialing c = 0 \<and> 0 \<le> confn c \<and> confn c < 1024 \<and> law_ok c"

lemma talks_same: "same_voice c d \<Longrightarrow> talks d = talks c"
  by (simp add: same_voice_def talks_def law_ok_def)

lemma put_start_same:
  assumes r: "put_start ops rxb c = (rxb', lin, c')" and c: "talks c" "afterdialingtimer c = 0" and l: "length rxb = 8"
  shows "same_voice c c'" and "chunk_ok lin" and "putlin c' = lin" and "afterdialingtimer c' = 0" and "length rxb' = 8"
proof -
  have d: "dialing c = 0" "\<not> flagged c FLAGBIT_PSEUDO" using c by (simp_all add: talks_def)
  define rb where "rb = map (rxgain c) rxb"
  obtain b l2 c2 where t: "rx_tone rb (from_law c rb) (ced_rx ops (from_law c rb) c) = (b, l2, c2)" by (metis prod_cases3)
  have s: "same_voice c c2" using same_voice_rx_tone [OF t] by simp
  then have f: "\<not> flagged c2 FLAGBIT_PSEUDO" using d by (simp add: same_voice_def)
  have e: "rxb' = b" "lin = l2" "c' = c2\<lparr>putlin := l2, putraw := b\<rparr>"
    using r d c(2) f by (auto simp: put_start_def Let_def t rb_def [symmetric])
  show "same_voice c c'" using s by (simp add: e)
  have k: "chunk_ok l2" by (rule rx_tone_ok [OF t from_law_ok]) (use c l in \<open>simp_all add: talks_def rb_def\<close>)
  then show "chunk_ok lin" by (simp add: e)
  show "putlin c' = lin" "afterdialingtimer c' = 0" using rx_tone_timer [OF t] c(2) by (simp_all add: e)
  show "length rxb' = 8" using t l k unfolding e(1)
    by (auto simp: rx_tone_def Let_def rb_def to_law_def chunk_ok_def split: if_splits prod.splits)
qed


section \<open>The receive side of a conference\<close>

lemma upd_chan_twice: "upd_chan m (\<lambda>_. c) (upd_chan m (\<lambda>_. d) s) = upd_chan m (\<lambda>_. c) s"
  by (simp add: upd_chan_def nth_upd option.map_comp comp_def)

definition put_step :: "dahdi_chan \<Rightarrow> dahdi_chan \<Rightarrow> conf_sums \<Rightarrow> conf_sums \<Rightarrow> bool" where
  "put_step c c' u u' \<longleftrightarrow> same_voice (c\<lparr>conflast := conflast c'\<rparr>) c' \<and> afterdialingtimer c' = 0 \<and>
     chunk_ok (conflast c') \<and> chunk_ok (putlin c') \<and> sums_ok u' \<and> sums_next u' = sums_next u \<and>
     (\<forall>n k. k < 8 \<longrightarrow> sum_at (sums_next u) n u' ! k =
        sum_at (sums_next u) n u ! k + (if nat (confn c) = n then conflast c' ! k else 0)) \<and>
     (\<forall>k < 8. \<bar>conflast c' ! k\<bar> \<le> \<bar>putlin c' ! k\<bar> \<and> 0 \<le> conflast c' ! k * putlin c' ! k \<and>
        (conf_flag (confmode c) CONF_TALKER \<and> is_short (putlin c' ! k + sum_at (sums_next u) (nat (confn c)) u ! k) \<longrightarrow>
           conflast c' ! k = putlin c' ! k) \<and>
        (\<not> conf_flag (confmode c) CONF_TALKER \<longrightarrow> conflast c' ! k = 0))"

lemma put_talk_step:
  assumes u: "sums_ok u" and c: "0 \<le> confn c" "confn c < 1024" and s: "same_voice c d" "afterdialingtimer d = 0"
    and l: "chunk_ok lin" "putlin d = lin" and r: "put_talk lin d u = (c', u')"
  shows "put_step c c' u u'"
proof (cases "conf_flag (confmode c) CONF_TALKER")
  case True
  have n: "nat (confn d) = nat (confn c)" "confmode d = confmode c" "nat (confn c) < 1025" using s(1) c by (simp_all add: same_voice_def)
  obtain a u1 where t: "talk (sums_next u) (nat (confn c)) lin u = (a, u1)" by fastforce
  have e: "c' = d\<lparr>conflast := a\<rparr>" "u' = u1" using r True by (auto simp: put_talk_def n t)
  note T = talk_ok [OF u sums_okD(2) [OF u] n(3) l(1) t]
  have "same_voice (c\<lparr>conflast := a\<rparr>) (d\<lparr>conflast := a\<rparr>)" using s(1) by (simp add: same_voice_def)
  then show ?thesis using T s l True by (simp add: put_step_def e)
next
  case False
  have n: "confmode d = confmode c" using s(1) by (simp add: same_voice_def)
  have e: "c' = d\<lparr>conflast := zeros\<rparr>" "u' = u" using r False by (auto simp: put_talk_def n)
  have "same_voice (c\<lparr>conflast := zeros\<rparr>) (d\<lparr>conflast := zeros\<rparr>)" using s(1) by (simp add: same_voice_def)
  moreover have "zeros ! k = 0" if "k < 8" for k using that by simp
  moreover have "chunk_ok zeros" by simp
  ultimately show ?thesis using u s l False by (simp only: put_step_def e) simp
qed

lemma put_step_ex:
  assumes u: "sums_ok u" and x: "chans s ! x = Some c" "x < length (chans s)" and c: "talks c" "afterdialingtimer c = 0"
    and l: "length rxb = 8"
  obtains c' u' out where "process_putaudio_chunk ops x x rxb (s, u) = Some (out, upd_chan x (\<lambda>_. c') s, u')"
    "put_step c c' u u'"
proof -
  obtain rb lin d where t: "put_start ops rxb c = (rb, lin, d)" by (metis prod_cases3)
  note S = put_start_same [OF t c l]
  have dm: "conf_mode (confmode d) = CONF_CONF \<or> conf_mode (confmode d) = CONF_CONFANN" "\<not> flagged d FLAGBIT_PSEUDO" "confmute d = 0"
    "0 \<le> confn c" "confn c < 1024"
    using c(1) S(1) by (auto simp: talks_def same_voice_def)
  obtain c' u' where p: "put_talk lin d u = (c', u')" by fastforce
  have "put_step c c' u u'" by (rule put_talk_step [OF u dm(4,5) S(1,4,2,3) p])
  moreover have "put_switch s' d lin rb u = Some (rb, c', u', None)" for s'
    using dm(1,2) p by (auto simp: put_switch_def put_conf_def is_monitor_mode_def is_preecho_mode_def Let_def)
  then have "process_putaudio_chunk ops x x rxb (s, u) = Some (rb, upd_chan x (\<lambda>_. c') s, u')"
    using x S(4) dm(3) by (simp add: process_putaudio_chunk_def t Let_def upd_chan_twice)
  ultimately show ?thesis by (rule that [rotated])
qed


text \<open>Chunks received by several channels in turn.\<close>

fun put_run :: "ec_ops \<Rightarrow> (nat \<times> byte list) list \<Rightarrow> conf_sys \<times> conf_sums \<Rightarrow> (conf_sys \<times> conf_sums) option" where
  "put_run ops [] st = Some st"
| "put_run ops ((x, rxb) # L) st =
     (case process_putaudio_chunk ops x x rxb st of None \<Rightarrow> None | Some (_, st) \<Rightarrow> put_run ops L st)"

definition talker :: "conf_sys \<Rightarrow> nat \<times> byte list \<Rightarrow> bool" where
  "talker s xb \<longleftrightarrow> fst xb < length (chans s) \<and> length (snd xb) = 8 \<and>
     (case chans s ! fst xb of None \<Rightarrow> False | Some c \<Rightarrow> talks c \<and> afterdialingtimer c = 0)"

text \<open>What a channel adds to slot \<open>n\<close>, and the samples it added them for.\<close>

definition share :: "conf_sys \<Rightarrow> nat \<Rightarrow> nat \<Rightarrow> nat \<Rightarrow> int" where
  "share s n k x = (case chans s ! x of None \<Rightarrow> 0 | Some c \<Rightarrow> if nat (confn c) = n then conflast c ! k else 0)"

definition loud :: "conf_sys \<Rightarrow> nat \<Rightarrow> nat \<Rightarrow> nat \<Rightarrow> int" where
  "loud s n k x = (case chans s ! x of None \<Rightarrow> 0 | Some c \<Rightarrow> if nat (confn c) = n then \<bar>putlin c ! k\<bar> else 0)"

definition spoken :: "dahdi_chan \<Rightarrow> dahdi_chan \<Rightarrow> bool" where
  "spoken c c' \<longleftrightarrow> same_voice (c\<lparr>conflast := conflast c'\<rparr>) c' \<and> chunk_ok (conflast c') \<and> chunk_ok (putlin c') \<and>
     (\<forall>k < 8. \<bar>conflast c' ! k\<bar> \<le> \<bar>putlin c' ! k\<bar> \<and> 0 \<le> conflast c' ! k * putlin c' ! k \<and>
        (\<not> conf_flag (confmode c') CONF_TALKER \<longrightarrow> conflast c' ! k = 0))"

definition unclipped :: "conf_sys \<Rightarrow> nat \<Rightarrow> nat \<Rightarrow> nat \<Rightarrow> bool" where
  "unclipped s n k x \<longleftrightarrow> (case chans s ! x of None \<Rightarrow> True | Some c \<Rightarrow>
     nat (confn c) = n \<and> conf_flag (confmode c) CONF_TALKER \<longrightarrow> conflast c ! k = putlin c ! k)"

lemma share_loud: "chans s' ! x = Some c' \<Longrightarrow> spoken c c' \<Longrightarrow> k < 8 \<Longrightarrow> \<bar>share s' n k x\<bar> \<le> loud s' n k x"
  by (simp add: share_def loud_def spoken_def)

lemma loud_nonneg: "0 \<le> loud s n k x"
  by (simp add: loud_def split: option.split)

text \<open>
  What \<open>put_run\<close> does to the sums: only those channels change, each sum grows by exactly what its talkers put there, and
  they put all their samples there as long as the loudness stays in range.
\<close>

definition mixed :: "(nat \<times> byte list) list \<Rightarrow> conf_sys \<Rightarrow> conf_sums \<Rightarrow> conf_sys \<Rightarrow> conf_sums \<Rightarrow> bool" where
  "mixed L s u s' u' \<longleftrightarrow> sums_ok u' \<and> sums_next u' = sums_next u \<and>
    length (chans s') = length (chans s) \<and> maxconfs s' = maxconfs s \<and>
    (\<forall>y. y \<notin> fst ` set L \<longrightarrow> chans s' ! y = chans s ! y) \<and>
    (\<forall>x \<in> fst ` set L. \<exists>c c'. chans s ! x = Some c \<and> chans s' ! x = Some c' \<and> spoken c c') \<and>
    (\<forall>n k. k < 8 \<longrightarrow> sum_at (sums_next u) n u' ! k =
       sum_at (sums_next u) n u ! k + (\<Sum>x\<leftarrow>map fst L. share s' n k x)) \<and>
    (\<forall>n k. k < 8 \<and> \<bar>sum_at (sums_next u) n u ! k\<bar> + (\<Sum>x\<leftarrow>map fst L. loud s' n k x) \<le> 32767 \<longrightarrow>
       (\<forall>x \<in> fst ` set L. unclipped s' n k x))"

lemma mixedD:
  assumes "mixed L s u s' u'"
  shows "sums_ok u'" "sums_next u' = sums_next u" "length (chans s') = length (chans s)" "maxconfs s' = maxconfs s"
    and "y \<notin> fst ` set L \<Longrightarrow> chans s' ! y = chans s ! y"
    and "x \<in> fst ` set L \<Longrightarrow> \<exists>c c'. chans s ! x = Some c \<and> chans s' ! x = Some c' \<and> spoken c c'"
    and "k < 8 \<Longrightarrow> sum_at (sums_next u) n u' ! k = sum_at (sums_next u) n u ! k + (\<Sum>x\<leftarrow>map fst L. share s' n k x)"
    and "k < 8 \<Longrightarrow> \<bar>sum_at (sums_next u) n u ! k\<bar> + (\<Sum>x\<leftarrow>map fst L. loud s' n k x) \<le> 32767 \<Longrightarrow>
       \<forall>x \<in> fst ` set L. unclipped s' n k x"
  using assms unfolding mixed_def by blast+

lemma put_run_ok:
  assumes "sums_ok u" "distinct (map fst L)" "\<forall>xb \<in> set L. talker s xb"
  shows "\<exists>s' u'. put_run ops L (s, u) = Some (s', u') \<and> mixed L s u s' u'"
  using assms
proof (induction L arbitrary: s u)
  case (Cons xb L)
  obtain x rxb where xb: "xb = (x, rxb)" by fastforce
  let ?t = "sums_next u"
  have "talker s (x, rxb)" using Cons.prems(3) xb by simp
  then obtain c where x: "x < length (chans s)" "length rxb = 8" "chans s ! x = Some c" "talks c" "afterdialingtimer c = 0"
    by (auto simp: talker_def split: option.splits)
  obtain c1 u1 out where p: "process_putaudio_chunk ops x x rxb (s, u) = Some (out, upd_chan x (\<lambda>_. c1) s, u1)"
    and st: "put_step c c1 u u1"
    by (rule put_step_ex [OF Cons.prems(1) x(3,1,4,5,2)])
  let ?s1 = "upd_chan x (\<lambda>_. c1) s"
  have sp: "spoken c c1" and u1: "sums_ok u1" "sums_next u1 = ?t" and nc: "nat (confn c1) = nat (confn c)"
    using st by (auto simp: put_step_def spoken_def same_voice_def)
  have S1: "sum_at ?t n u1 ! k = sum_at ?t n u ! k + (if nat (confn c) = n then conflast c1 ! k else 0)" if "k < 8" for n k
    using st that by (simp add: put_step_def)
  have C1: "chans ?s1 ! y = (if y = x then Some c1 else chans s ! y)" for y using x by simp
  have d: "x \<notin> fst ` set L" "distinct (map fst L)" using Cons.prems(2) xb by auto
  have T: "\<forall>xb \<in> set L. talker ?s1 xb"
  proof
    fix z assume z: "z \<in> set L"
    then have "fst z \<noteq> x" using d(1) by force
    then show "talker ?s1 z" using Cons.prems(3) z C1 [of "fst z"] by (simp add: talker_def)
  qed
  obtain s' u' where r: "put_run ops L (?s1, u1) = Some (s', u')" and m: "mixed L ?s1 u1 s' u'"
    using Cons.IH [OF u1(1) d(2) T] by blast
  note fr = mixedD(5) [OF m] and ch = mixedD(6) [OF m] and su = mixedD(7) [OF m, unfolded u1(2)]
    and cl = mixedD(8) [OF m, unfolded u1(2)]
  have sx: "chans s' ! x = Some c1" using fr [OF d(1)] x by simp
  have sh: "share s' n k x = (if nat (confn c) = n then conflast c1 ! k else 0)" for n k by (simp add: share_def sx nc)
  have "mixed (xb # L) s u s' u'"
    unfolding mixed_def
  proof (intro conjI)
    show "\<forall>y. y \<notin> fst ` set (xb # L) \<longrightarrow> chans s' ! y = chans s ! y" using fr C1 by (auto simp: xb)
    show "\<forall>y \<in> fst ` set (xb # L). \<exists>c c'. chans s ! y = Some c \<and> chans s' ! y = Some c' \<and> spoken c c'"
    proof
      fix y assume "y \<in> fst ` set (xb # L)"
      then consider "y = x" | "y \<noteq> x" "y \<in> fst ` set L" by (auto simp: xb)
      then show "\<exists>c c'. chans s ! y = Some c \<and> chans s' ! y = Some c' \<and> spoken c c'"
        using x(3) sx sp ch [of y] C1 [of y] by cases auto
    qed
    show "\<forall>n k. k < 8 \<longrightarrow> sum_at ?t n u' ! k = sum_at ?t n u ! k + (\<Sum>x\<leftarrow>map fst (xb # L). share s' n k x)"
      using su S1 sh by (simp add: xb)
    show "\<forall>n k. k < 8 \<and> \<bar>sum_at ?t n u ! k\<bar> + (\<Sum>x\<leftarrow>map fst (xb # L). loud s' n k x) \<le> 32767 \<longrightarrow>
       (\<forall>x \<in> fst ` set (xb # L). unclipped s' n k x)"
    proof (intro allI impI, elim conjE)
      fix n k assume k: "k < (8::nat)" and b: "\<bar>sum_at ?t n u ! k\<bar> + (\<Sum>x\<leftarrow>map fst (xb # L). loud s' n k x) \<le> 32767"
      let ?R = "\<Sum>x\<leftarrow>map fst L. loud s' n k x"
      have R: "0 \<le> ?R" by (rule sum_list_nonneg) (auto simp: loud_nonneg)
      have b': "\<bar>sum_at ?t n u ! k\<bar> + loud s' n k x + ?R \<le> 32767" using b by (simp add: xb)
      have "\<bar>sum_at ?t n u1 ! k\<bar> + ?R \<le> 32767"
        using S1 [OF k, of n] sh [of n k] share_loud [OF sx sp k, of n] b' by linarith
      then have "\<forall>x \<in> fst ` set L. unclipped s' n k x" by (rule cl [OF k])
      moreover have "unclipped s' n k x"
      proof -
        have "is_short (putlin c1 ! k + sum_at ?t n u ! k)" if "nat (confn c) = n"
        proof -
          have "loud s' n k x = \<bar>putlin c1 ! k\<bar>" using that by (simp add: loud_def sx nc)
          then show ?thesis using b' R unfolding is_short_def by linarith
        qed
        then show ?thesis using st k by (auto simp: unclipped_def sx nc put_step_def same_voice_def)
      qed
      ultimately show "\<forall>x \<in> fst ` set (xb # L). unclipped s' n k x" by (simp add: xb)
    qed
  qed (use mixedD(1-4) [OF m] u1(2) in simp_all)
  then show ?case by (intro exI [of _ s'] exI [of _ u']) (simp add: xb p r)
qed (simp add: mixed_def)


section \<open>The transmit side of a conference\<close>

text \<open>A channel that listens to a conference: not a pseudo channel, not muted, not dialling.\<close>

definition listens :: "dahdi_chan \<Rightarrow> bool" where
  "listens c \<longleftrightarrow> \<not> flagged c FLAGBIT_PSEUDO \<and> conf_mode (confmode c) = CONF_CONF \<and> conf_flag (confmode c) CONF_LISTENER \<and>
     confmute c = 0 \<and> dialing c = 0"

lemma ced_tx_sel [simp]: "cflags (ced_tx ops lin c) = cflags c" "confmode (ced_tx ops lin c) = confmode c"
  "confmute (ced_tx ops lin c) = confmute c" "dialing (ced_tx ops lin c) = dialing c" "conflast (ced_tx ops lin c) = conflast c"
  "confn (ced_tx ops lin c) = confn c"
  using same_voice_ced(1) [of c ops lin c] by (simp_all add: same_voice_def)

lemma add_txtone_getlin: "add_txtone lin c = (txb, c') \<Longrightarrow> getlin c' = getlin c"
proof (induction lin arbitrary: c txb c')
  case (Cons a lin)
  obtain t c1 where 1: "dahdi_txtone_nextsample c = (t, c1)" by fastforce
  obtain b c2 where 2: "add_txtone lin c1 = (b, c2)" by fastforce
  have "getlin c1 = getlin c" using 1 by (auto simp: dahdi_txtone_nextsample_def Let_def)
  then show ?case using Cons.IH [OF 2] Cons.prems 1 2 by auto
qed simp

lemma get_finish_getlin: "get_finish lin txb c = (txb', c') \<Longrightarrow> getlin c' = lin"
  by (auto simp: get_finish_def Let_def split: prod.splits if_splits dest: add_txtone_getlin)

text \<open>
  A channel whose bytes reach the line as they are, but for the gain: its echo canceller is not muting it for training,
  and no signalling tone is mixed in.
\<close>

definition unmuted :: "dahdi_chan \<Rightarrow> bool" where
  "unmuted c \<longleftrightarrow> (case ec_state c of None \<Rightarrow> True | Some ec \<Rightarrow> \<not> echo_mode_mute (ec_mode ec)) \<and> v1_1 c = 0 \<and> v2_1 c = 0 \<and> v3_1 c = 0"

lemma unmuted_qevent [simp]: "unmuted (qevent e c) = unmuted c" "txgain (qevent e c) = txgain c" "lin2x (qevent e c) = lin2x c"
proof -
  obtain ws where "qevent e c = c\<lparr>evring := qevent_q e (evring c), eff := eff c @ ws\<rparr>" using qevent_cases by blast
  then show "unmuted (qevent e c) = unmuted c" "txgain (qevent e c) = txgain c" "lin2x (qevent e c) = lin2x c"
    by (simp_all add: unmuted_def)
qed

lemma qevent_states [simp]: "ec_state (qevent e c) = ec_state c" "v1_1 (qevent e c) = v1_1 c" "v2_1 (qevent e c) = v2_1 c"
  "v3_1 (qevent e c) = v3_1 c"
  using qevent_cases [of e c] by auto

lemma fax_unmuted [simp]: "unmuted (set_echocan_fax_mode ops True c) = unmuted c" "txgain (set_echocan_fax_mode ops True c) = txgain c"
  "lin2x (set_echocan_fax_mode ops True c) = lin2x c"
  by (auto simp: set_echocan_fax_mode_def unmuted_def split: option.splits)

lemma ced_tx_unmuted [simp]: "unmuted (ced_tx ops lin c) = unmuted c" "txgain (ced_tx ops lin c) = txgain c"
  "lin2x (ced_tx ops lin c) = lin2x c"
proof -
  have u: "unmuted (c\<lparr>ec_state := Some (ec\<lparr>ec_txecdis := det\<rparr>)\<rparr>) = unmuted c" if "ec_state c = Some ec" for ec det
    using that by (simp add: unmuted_def)
  show "unmuted (ced_tx ops lin c) = unmuted c" "txgain (ced_tx ops lin c) = txgain c" "lin2x (ced_tx ops lin c) = lin2x c"
    using u by (simp_all add: ced_tx_def Let_def split: option.splits prod.splits)
qed

lemma get_finish_out:
  "get_finish lin txb c = (out, c') \<Longrightarrow> confmute c = 0 \<Longrightarrow> unmuted c \<Longrightarrow> out = map (txgain c) txb"
  by (auto simp: get_finish_def get_mute_def unmuted_def split: option.splits)

lemma listen_step:
  assumes c: "chans s ! y = Some c" "listens c" and y: "y < length (chans s)"
  obtains out s2 c2 where "process_getaudio_chunk ops y txb (s, u) = Some (out, s2, u)" "chans s2 ! y = Some c2"
    "getlin c2 = hear (from_law c txb) (conflast c) (sum_at (sums_cur u) (nat (confn c)) u)"
    "unmuted c \<Longrightarrow> out = map (\<lambda>v. txgain c (lin2x c v)) (getlin c2)"
proof -
  let ?d = "ced_tx ops (from_law c txb) c"
  let ?h = "hear (from_law c txb) (conflast c) (sum_at (sums_cur u) (nat (confn c)) u)"
  have f: "\<not> flagged ?d FLAGBIT_PSEUDO" "conf_mode (confmode ?d) = CONF_CONF" "conf_flag (confmode ?d) CONF_LISTENER"
    "confmute ?d = 0" "dialing ?d = 0"
    using c(2) by (simp_all add: listens_def)
  have "get_switch s ?d (from_law c txb) txb u = Some (?h, to_law ?d ?h, ?d, u)"
    using f by (simp add: get_switch_def get_conf_def get_listen_def is_monitor_mode_def is_preecho_mode_def Let_def)
  moreover obtain b c2 where g: "get_finish ?h (to_law ?d ?h) ?d = (b, c2)" by fastforce
  ultimately have "process_getaudio_chunk ops y txb (s, u) = Some (b, upd_chan y (\<lambda>_. c2) s, u)"
    using c(1) f by (simp add: process_getaudio_chunk_def)
  moreover have "chans (upd_chan y (\<lambda>_. c2) s) ! y = Some c2" using c(1) y by simp
  moreover have "b = map (\<lambda>v. txgain c (lin2x c v)) (getlin c2)" if "unmuted c"
    using get_finish_out [OF g f(4)] that get_finish_getlin [OF g] by (simp add: to_law_def)
  ultimately show ?thesis using get_finish_getlin [OF g] by (intro that)
qed

section \<open>Buffers of eight samples\<close>

definition audio_ok :: "dahdi_chan \<Rightarrow> bool" where
  "audio_ok c \<longleftrightarrow> law_ok c \<and> chunk_ok (conflast c) \<and> chunk_ok (conflast1 c) \<and> chunk_ok (conflast2 c) \<and> chunk_ok (getlin c) \<and>
     chunk_ok (putlin c) \<and> chunk_ok (getlin_lastchunk c) \<and> length (getraw c) = 8 \<and> length (putraw c) = 8 \<and>
     (case readchunkpreec c of None \<Rightarrow> True | Some pre \<Rightarrow> chunk_ok pre) \<and> 0 \<le> confn c \<and> confn c < 1024"

lemma audio_ok_upd [simp]:
  "audio_ok (c\<lparr>ec_state := e\<rparr>) = audio_ok c" "audio_ok (c\<lparr>rd := r\<rparr>) = audio_ok c"
  "audio_ok (c\<lparr>afterdialingtimer := i\<rparr>) = audio_ok c" "audio_ok (qevent n c) = audio_ok c"
  "audio_ok (c\<lparr>v1_1 := a, v2_1 := b, v3_1 := d\<rparr>) = audio_ok c"
proof -
  obtain ws where "qevent n c = c\<lparr>evring := qevent_q n (evring c), eff := eff c @ ws\<rparr>" using qevent_cases by blast
  then show "audio_ok (qevent n c) = audio_ok c" by (simp add: audio_ok_def law_ok_def)
qed (simp_all add: audio_ok_def law_ok_def)

lemma audio_ok_fax [simp]: "audio_ok (set_echocan_fax_mode ops f c) = audio_ok c"
  by (simp add: set_echocan_fax_mode_def split: option.splits)

lemma audio_ok_ced [simp]: "audio_ok (ced_tx ops lin c) = audio_ok c" "audio_ok (ced_rx ops lin c) = audio_ok c"
  by (simp_all add: ced_tx_def ced_rx_def Let_def split: option.splits prod.splits)

lemma audio_ok_set:
  "audio_ok c \<Longrightarrow> chunk_ok v \<Longrightarrow> audio_ok (c\<lparr>conflast := v\<rparr>)"
  "audio_ok c \<Longrightarrow> chunk_ok v \<Longrightarrow> audio_ok (c\<lparr>putlin := v\<rparr>)"
  "audio_ok c \<Longrightarrow> chunk_ok v \<Longrightarrow> chunk_ok w \<Longrightarrow> audio_ok (c\<lparr>conflast := v, getlin := w\<rparr>)"
  "audio_ok c \<Longrightarrow> chunk_ok v \<Longrightarrow> chunk_ok w \<Longrightarrow> audio_ok (c\<lparr>conflast2 := v, conflast1 := w\<rparr>)"
  "audio_ok c \<Longrightarrow> chunk_ok v \<Longrightarrow> chunk_ok w \<Longrightarrow> audio_ok (c\<lparr>conflast1 := v, conflast2 := w\<rparr>)"
  "audio_ok c \<Longrightarrow> chunk_ok v \<Longrightarrow> length bs = 8 \<Longrightarrow> audio_ok (c\<lparr>putlin := v, putraw := bs\<rparr>)"
  "audio_ok c \<Longrightarrow> chunk_ok v \<Longrightarrow> length bs = 8 \<Longrightarrow> audio_ok (c\<lparr>getlin_lastchunk := getlin c, getlin := v, getraw := bs\<rparr>)"
  by (simp_all add: audio_ok_def law_ok_def)

lemma audio_okD: "audio_ok c \<Longrightarrow> law_ok c" "audio_ok c \<Longrightarrow> chunk_ok (conflast c)" "audio_ok c \<Longrightarrow> chunk_ok (conflast1 c)"
  "audio_ok c \<Longrightarrow> chunk_ok (conflast2 c)" "audio_ok c \<Longrightarrow> chunk_ok (getlin c)" "audio_ok c \<Longrightarrow> chunk_ok (putlin c)"
  "audio_ok c \<Longrightarrow> length (getraw c) = 8" "audio_ok c \<Longrightarrow> length (putraw c) = 8" "audio_ok c \<Longrightarrow> nat (confn c) < 1025"
  "audio_ok c \<Longrightarrow> readchunkpreec c = Some pre \<Longrightarrow> chunk_ok pre"
  by (auto simp: audio_ok_def)

lemma law_len [simp]: "length (to_law c lin) = length lin" "length (silence c) = 8" "length (from_law c bs) = length bs"
  by (simp_all add: to_law_def silence_def from_law_def)

lemma monitored_ok:
  "audio_ok p \<Longrightarrow> get_monitored m p = Some srcs \<Longrightarrow> \<forall>v \<in> set srcs. chunk_ok v"
  "audio_ok p \<Longrightarrow> put_monitored m p = Some srcs \<Longrightarrow> \<forall>v \<in> set srcs. chunk_ok v"
  by (auto simp: get_monitored_def put_monitored_def Let_def audio_okD split: if_splits option.splits)

lemma fold_acss_ok: "\<forall>v \<in> set srcs. chunk_ok v \<Longrightarrow> chunk_ok lin \<Longrightarrow> chunk_ok (fold (\<lambda>src lin. acss lin src) srcs lin)"
  by (induction srcs arbitrary: lin) (simp_all add: acss_ok)

lemma get_listen_ok: "audio_ok c \<Longrightarrow> sums_ok u \<Longrightarrow> chunk_ok lin \<Longrightarrow> chunk_ok (get_listen c lin u)"
  by (simp add: get_listen_def hear_ok audio_okD sums_okD)

lemma talk_chunks: "sums_ok u \<Longrightarrow> t < 3 \<Longrightarrow> n < 1025 \<Longrightarrow> chunk_ok lin \<Longrightarrow> talk t n lin u = (a, u') \<Longrightarrow> sums_ok u' \<and> chunk_ok a"
  using talk_ok(1,2) by blast

text \<open>The results of the two switches.\<close>

definition get_typed :: "int list \<times> byte list \<times> dahdi_chan \<times> conf_sums \<Rightarrow> bool" where
  "get_typed = (\<lambda>(lin, txb, c, u). chunk_ok lin \<and> length txb = 8 \<and> audio_ok c \<and> sums_ok u)"

definition put_typed :: "byte list \<times> dahdi_chan \<times> conf_sums \<times> int list option \<Rightarrow> bool" where
  "put_typed = (\<lambda>(rxb, c, u, slave). length rxb = 8 \<and> audio_ok c \<and> sums_ok u \<and>
     (case slave of None \<Rightarrow> True | Some lin \<Rightarrow> chunk_ok lin))"

lemma get_conf_typed: "audio_ok c \<Longrightarrow> sums_ok u \<Longrightarrow> chunk_ok lin \<Longrightarrow> get_typed (get_conf c lin u)"
  using talk_chunks [of u "sums_cur u" "nat (confn c)" lin] get_listen_ok [of c u lin] chunk_okD(1) [of "get_listen c lin u"]
  by (auto simp: get_typed_def get_conf_def Let_def audio_okD sums_okD audio_ok_set split: prod.splits)

lemma get_real_typed: "audio_ok c \<Longrightarrow> sums_ok u \<Longrightarrow> chunk_ok lin \<Longrightarrow> get_typed (get_real_and_pseudo c lin u)"
  using talk_chunks [of u "sums_next u" "nat (confn c)" lin]
  by (auto simp: get_real_and_pseudo_def Let_def audio_okD sums_okD intro!: get_conf_typed audio_ok_set split: prod.splits)

lemma get_announce_typed:
  assumes "audio_ok c" "sums_ok u" "chunk_ok lin"
  shows "get_typed (get_announce c lin u)"
proof -
  let ?u = "put_sum (sums_next u) (nat (confn c)) (acss (sum_at (sums_next u) (nat (confn c)) u) lin) u"
  have u: "sums_ok ?u" using assms by (simp add: put_sum_ok acss_ok sums_okD audio_okD)
  have "chunk_ok (get_listen c zeros ?u)" by (rule get_listen_ok [OF assms(1) u]) simp
  then show ?thesis using assms u chunk_okD(1) by (simp add: get_announce_def get_typed_def Let_def)
qed

lemma put_talk_typed: "audio_ok c \<Longrightarrow> sums_ok u \<Longrightarrow> chunk_ok lin \<Longrightarrow> put_talk lin c u = (c', u') \<Longrightarrow> audio_ok c' \<and> sums_ok u'"
  using talk_chunks [of u "sums_next u" "nat (confn c)" lin]
  by (auto simp: put_talk_def audio_okD sums_okD audio_ok_set split: prod.splits if_splits)


lemma put_conf_typed: "audio_ok c \<Longrightarrow> sums_ok u \<Longrightarrow> chunk_ok lin \<Longrightarrow> length rxb = 8 \<Longrightarrow> put_typed (put_conf lin rxb c u)"
  using get_listen_ok [of c u lin] chunk_okD(1) [of "get_listen c lin u"] put_talk_typed [of c u lin]
  by (auto simp: put_conf_def put_typed_def Let_def split: prod.splits)

lemma put_real_typed:
  assumes "audio_ok c" "sums_ok u" "chunk_ok lin"
  shows "put_typed (put_real_and_pseudo lin c u)"
proof -
  obtain d v where t: "put_talk lin c u = (d, v)" by fastforce
  have d: "audio_ok d" "sums_ok v" using put_talk_typed [OF assms t] by simp_all
  have "chunk_ok (hear zeros (conflast2 d) (sum_at (sums_cur v) (nat (confn d)) v))"
    using d by (simp add: hear_ok audio_okD sums_okD)
  then show ?thesis using d chunk_okD(1) by (auto simp: put_real_and_pseudo_def t put_typed_def Let_def)
qed

lemma put_confmon_typed:
  assumes "audio_ok c" "sums_ok u" "chunk_ok lin"
  shows "put_typed (put_confmon lin c u)"
proof -
  let ?n = "nat (confn c)" and ?t = "sums_cur u"
  let ?u = "put_sum ?t ?n (scss (sum_at ?t ?n u) (conflast c)) u"
  have u: "sums_ok ?u" using assms by (simp add: put_sum_ok scss_ok sums_okD audio_okD)
  obtain a v where t: "talk ?t ?n lin ?u = (a, v)" by fastforce
  have v: "sums_ok v" "chunk_ok a" "sums_prev v = sums_prev u"
    using talk_ok(1,2,5) [OF u _ _ assms(3) t] assms by (simp_all add: sums_okD audio_okD)
  have "length (sum_at (sums_prev w) ?n w) = 8" if "sums_ok w" for w
    using that assms(1) chunk_okD(1) sums_okD(3,7) audio_okD(9) by blast
  note w = this
  have "length (sum_at (sums_prev u) ?n v) = 8" "length (sum_at (sums_prev u) ?n u) = 8"
    using w [OF v(1)] w [OF assms(2)] v(3) by simp_all
  then show ?thesis
    using assms t v by (auto simp: put_confmon_def put_typed_def Let_def audio_ok_set audio_okD)
qed

text \<open>A channel that monitors another one names one that exists.\<close>

definition names_peer :: "conf_sys \<Rightarrow> dahdi_chan \<Rightarrow> bool" where
  "names_peer s c \<longleftrightarrow> is_monitor_mode (confmode c) \<or> conf_mode (confmode c) = CONF_DIGITALMON \<longrightarrow> peer s c \<noteq> None"

definition all_audio :: "conf_sys \<Rightarrow> bool" where
  "all_audio s \<longleftrightarrow> (\<forall>x c. x < 1024 \<and> chans s ! x = Some c \<longrightarrow> audio_ok c)"

lemma peer_audio: "all_audio s \<Longrightarrow> peer s c = Some p \<Longrightarrow> audio_ok p"
proof -
  assume a: "all_audio s" and p: "peer s c = Some p"
  then have "nat (confna c) < 1024 \<and> chans s ! nat (confna c) = Some p"
    by (auto simp: peer_def chan_at_def split: option.splits if_splits)
  then show ?thesis using a unfolding all_audio_def by blast
qed

lemma peer_at: "peer s c = Some p \<Longrightarrow> chan_at s (confna c) = Some (Some p)"
  by (auto simp: peer_def split: option.splits)

lemma get_monitor_typed:
  assumes "all_audio s" "audio_ok c" "sums_ok u" "chunk_ok lin" "length txb = 8" "peer s c = Some p"
  shows "case get_monitored m p of None \<Rightarrow> True | Some srcs \<Rightarrow>
    let lin = fold (\<lambda>src lin. acss lin src) srcs lin in get_typed (lin, to_law c lin, c, u)"
  using monitored_ok(1) [OF peer_audio [OF assms(1,6)]] fold_acss_ok [OF _ assms(4)] assms(2,3) chunk_okD(1)
  by (auto simp: get_typed_def Let_def split: option.splits)

lemma get_switch_typed:
  assumes "all_audio s" "audio_ok c" "sums_ok u" "chunk_ok lin" "length txb = 8" "names_peer s c"
  obtains r where "get_switch s c lin txb u = Some r" "get_typed r"
proof -
  have same: "get_typed (lin, txb, c, u)" using assms by (simp add: get_typed_def)
  have l: "chunk_ok (get_listen c lin u)" using assms by (intro get_listen_ok)
  consider (mon) "is_monitor_mode (confmode c)" | (dig) "\<not> is_monitor_mode (confmode c)" "conf_mode (confmode c) = CONF_DIGITALMON"
    | (other) "\<not> is_monitor_mode (confmode c)" "conf_mode (confmode c) \<noteq> CONF_DIGITALMON" by blast
  then show ?thesis
  proof cases
    case mon
    then obtain p where p: "peer s c = Some p" using assms(6) by (auto simp: names_peer_def)
    show ?thesis
    proof (cases "get_monitored (conf_mode (confmode c)) p")
      case None
      then show ?thesis using that [OF _ same] mon p by (simp add: get_switch_def)
    next
      case (Some srcs)
      let ?l = "fold (\<lambda>src lin. acss lin src) srcs lin"
      have "get_typed (?l, to_law c ?l, c, u)"
        using get_monitor_typed [OF assms(1-5) p, of "conf_mode (confmode c)"] Some by (simp add: Let_def)
      then show ?thesis using that [OF _ same] that mon p Some
        by (cases "flagged c FLAGBIT_PSEUDO") (simp_all add: get_switch_def Let_def)
    qed
  next
    case dig
    then obtain p where p: "peer s c = Some p" using assms(6) by (auto simp: names_peer_def)
    have a: "audio_ok p" by (rule peer_audio [OF assms(1) p])
    have "length (get_digital c p) = 8" using a by (simp add: get_digital_def audio_okD chunk_okD)
    then have "get_typed (from_law c (get_digital c p), get_digital c p, c, u)"
      using assms(2,3) by (simp add: get_typed_def from_law_ok audio_okD)
    then show ?thesis using that dig peer_at [OF p] by (simp add: get_switch_def Let_def)
  next
    case other
    have mon: "get_typed (get_listen c lin u, to_law c (get_listen c lin u), c, u)"
      using l assms(2,3) chunk_okD(1) by (simp add: get_typed_def)
    have "case get_switch s c lin txb u of None \<Rightarrow> False | Some r \<Rightarrow> get_typed r"
      using same mon get_real_typed [OF assms(2-4)] get_conf_typed [OF assms(2-4)] get_announce_typed [OF assms(2-4)]
      unfolding get_switch_def Let_def if_not_P [OF other(1)] if_not_P [OF other(2)] by simp
    then show ?thesis using that by (simp split: option.splits)
  qed
qed

lemma put_switch_typed:
  assumes "all_audio s" "audio_ok c" "sums_ok u" "chunk_ok lin" "length rxb = 8" "names_peer s c"
  obtains r where "put_switch s c lin rxb u = Some r" "put_typed r"
proof -
  have same: "put_typed (rxb, c, u, None)" using assms by (simp add: put_typed_def)
  consider (mon) "is_monitor_mode (confmode c)" | (dig) "\<not> is_monitor_mode (confmode c)" "conf_mode (confmode c) = CONF_DIGITALMON"
    | (other) "\<not> is_monitor_mode (confmode c)" "conf_mode (confmode c) \<noteq> CONF_DIGITALMON" by blast
  then show ?thesis
  proof cases
    case mon
    then obtain p where p: "peer s c = Some p" using assms(6) by (auto simp: names_peer_def)
    show ?thesis
    proof (cases "put_monitored (conf_mode (confmode c)) p")
      case None
      then show ?thesis using that [OF _ same] mon p by (simp add: put_switch_def)
    next
      case (Some srcs)
      have "chunk_ok (fold (\<lambda>src lin. acss lin src) srcs lin)"
        by (rule fold_acss_ok [OF monitored_ok(2) [OF peer_audio [OF assms(1) p] Some] assms(4)])
      then have "put_typed (to_law c (fold (\<lambda>src lin. acss lin src) srcs lin), c, u, None)"
        using assms(2,3) chunk_okD(1) by (simp add: put_typed_def)
      then show ?thesis using that [OF _ same] that mon p Some
        by (cases "flagged c FLAGBIT_PSEUDO") (simp_all add: put_switch_def Let_def)
    qed
  next
    case dig
    then obtain p where p: "peer s c = Some p" using assms(6) by (auto simp: names_peer_def)
    have "put_typed (if flagged p FLAGBIT_PSEUDO then getraw p else putraw p, c, u, None)"
      using peer_audio [OF assms(1) p] assms(2,3) by (simp add: put_typed_def audio_okD)
    then show ?thesis using that [OF _ same] that dig p
      by (cases "flagged c FLAGBIT_PSEUDO") (simp_all add: put_switch_def Let_def)
  next
    case other
    have t: "put_typed (case put_talk lin c u of (c, u) \<Rightarrow> (rxb, c, u, None))"
      using put_talk_typed [OF assms(2-4)] assms(5) by (auto simp: put_typed_def split: prod.splits)
    have t': "case (case put_talk lin c u of (ms, u) \<Rightarrow> Some (rxb, ms, u, None)) of None \<Rightarrow> False | Some r \<Rightarrow> put_typed r"
      using t by (simp split: prod.splits)
    have "case put_switch s c lin rxb u of None \<Rightarrow> False | Some r \<Rightarrow> put_typed r"
      using same t' put_real_typed [OF assms(2-4)] put_conf_typed [OF assms(2-5)] put_confmon_typed [OF assms(2-4)]
      unfolding put_switch_def Let_def if_not_P [OF other(1)] if_not_P [OF other(2)] by simp
    then show ?thesis using that by (simp split: option.splits)
  qed
qed


lemma txtone_audio: "dahdi_txtone_nextsample c = (t, c') \<Longrightarrow> audio_ok c' = audio_ok c"
  by (auto simp: dahdi_txtone_nextsample_def Let_def)

lemma add_txtone_typed: "add_txtone lin c = (txb, c') \<Longrightarrow> length txb = length lin \<and> audio_ok c' = audio_ok c"
proof (induction lin arbitrary: c txb c')
  case (Cons a lin)
  obtain t c1 where 1: "dahdi_txtone_nextsample c = (t, c1)" by fastforce
  obtain b c2 where 2: "add_txtone lin c1 = (b, c2)" by fastforce
  show ?case using Cons.IH [OF 2] Cons.prems 1 2 txtone_audio [OF 1] by auto
qed simp

lemma get_mute_typed: "get_mute txb c = (txb', c') \<Longrightarrow> length txb = 8 \<Longrightarrow> length txb' = 8 \<and> audio_ok c' = audio_ok c"
  by (auto simp: get_mute_def split: option.splits if_splits)

lemma get_finish_typed:
  assumes "get_finish lin txb c = (txb', c')" "audio_ok c" "chunk_ok lin" "length txb = 8"
  shows "length txb' = 8 \<and> audio_ok c'"
proof -
  obtain b d where m: "get_mute txb c = (b, d)" by fastforce
  have d: "length b = 8" "audio_ok d" using get_mute_typed [OF m assms(4)] assms(2) by simp_all
  let ?e = "d\<lparr>getlin_lastchunk := getlin d, getlin := lin, getraw := b\<rparr>"
  have e: "audio_ok ?e" using d assms(3) by (intro audio_ok_set)
  obtain b2 f where t: "add_txtone lin ?e = (b2, f)" by fastforce
  have "length b2 = 8" "audio_ok f" using add_txtone_typed [OF t] e chunk_okD(1) [OF assms(3)] by simp_all
  then show ?thesis using assms(1) d e t by (auto simp: get_finish_def m Let_def split: if_splits)
qed

lemma rx_tone_typed: "rx_tone rxb lin c = (rxb', lin', c') \<Longrightarrow> length rxb = 8 \<Longrightarrow> chunk_ok lin' \<Longrightarrow>
    length rxb' = 8 \<and> audio_ok c' = audio_ok c"
  by (auto simp: rx_tone_def Let_def chunk_okD split: if_splits prod.splits)

lemma put_start_typed:
  assumes r: "put_start ops rxb c = (rxb', lin, c')" and c: "audio_ok c" and l: "length rxb = 8"
  shows "length rxb' = 8" and "chunk_ok lin" and "audio_ok c'" and "confmode c' = confmode c" and "confna c' = confna c"
    and "cflags c' = cflags c"
proof -
  define d where "d = (if dialing c \<noteq> 0 then c\<lparr>afterdialingtimer := 50\<rparr>
    else if afterdialingtimer c \<noteq> 0 then c\<lparr>afterdialingtimer := afterdialingtimer c - 1\<rparr> else c)"
  define rb where "rb = map (rxgain d) (if afterdialingtimer d \<noteq> 0 \<and> \<not> flagged d FLAGBIT_PSEUDO then silence d else rxb)"
  obtain b l2 c2 where t: "rx_tone rb (from_law d rb) (ced_rx ops (from_law d rb) d) = (b, l2, c2)" by (metis prod_cases3)
  have d: "audio_ok d" "same_voice c d" using c by (auto simp: d_def)
  have rb: "length rb = 8" using l by (simp add: rb_def)
  have k: "chunk_ok l2" by (rule rx_tone_ok [OF t from_law_ok]) (use d rb in \<open>simp_all add: audio_okD\<close>)
  have e: "rxb' = b" "lin = l2" "c' = (if flagged c2 FLAGBIT_PSEUDO then c2 else c2\<lparr>putlin := l2, putraw := b\<rparr>)"
    using r unfolding put_start_def Let_def d_def [symmetric] rb_def [symmetric] t by auto
  have y: "length b = 8" "audio_ok c2" using rx_tone_typed [OF t rb k] d(1) by simp_all
  show "length rxb' = 8" "chunk_ok lin" using y k e by simp_all
  show "audio_ok c'" using y k by (simp add: e audio_ok_set)
  have "same_voice c c2" using same_voice_rx_tone [OF t] d(2) by simp
  then show "confmode c' = confmode c" "confna c' = confna c" "cflags c' = cflags c" by (simp_all add: e same_voice_def)
qed

lemma all_audio_upd: "all_audio s \<Longrightarrow> (\<And>c. x < 1024 \<Longrightarrow> chans s ! x = Some c \<Longrightarrow> audio_ok c \<Longrightarrow> audio_ok (f c)) \<Longrightarrow> all_audio (upd_chan x f s)"
  unfolding all_audio_def by (auto split: if_split_asm)

lemma peer_upd: "(peer (upd_chan i f s) c = None) = (peer s c = None)"
  by (auto simp: peer_def chan_at_def split: option.splits)

lemma names_peer_upd: "names_peer (upd_chan i f s) d = names_peer s c"
  if "confna d = confna c" "confmode d = confmode c"
proof -
  have "peer s d = peer s c" using that(1) by (simp add: peer_def)
  then show ?thesis using that peer_upd [of i f s d] by (simp add: names_peer_def)
qed

lemma getaudio_typed:
  assumes s: "all_audio s" and u: "sums_ok u" and x: "m < 1024" "chans s ! m = Some c" and b: "length bs = 8"
    and n: "names_peer s c"
  shows "\<exists>out s' u'. process_getaudio_chunk ops m bs (s, u) = Some (out, s', u') \<and> length out = 8 \<and> all_audio s' \<and> sums_ok u'"
proof -
  let ?d = "ced_tx ops (from_law c bs) c"
  have c: "audio_ok c" using s x by (simp add: all_audio_def)
  have d: "audio_ok ?d" "chunk_ok (from_law c bs)" using c b by (simp_all add: from_law_ok audio_okD)
  have "confna ?d = confna c" using same_voice_ced(1) [of c ops "from_law c bs" c] by (simp add: same_voice_def)
  then have "peer s ?d = peer s c" by (simp add: peer_def)
  then have n': "names_peer s ?d" using n by (simp add: names_peer_def)
  obtain r where r: "get_switch s ?d (from_law c bs) bs u = Some r" "get_typed r"
    by (rule get_switch_typed [OF s d(1) u d(2) b n'])
  define w where "w = (if confmute ?d = 0 \<and> dialing ?d = 0 \<or> flagged ?d FLAGBIT_PSEUDO
    then get_switch s ?d (from_law c bs) bs u else Some (from_law c bs, bs, ?d, u))"
  obtain lin txb e v where w: "w = Some (lin, txb, e, v)" and t: "get_typed (lin, txb, e, v)"
  proof (cases "confmute ?d = 0 \<and> dialing ?d = 0 \<or> flagged ?d FLAGBIT_PSEUDO")
    case True
    then show ?thesis using r that by (cases r) (simp add: w_def)
  next
    case False
    have "get_typed (from_law c bs, bs, ?d, u)" using d u b by (simp add: get_typed_def)
    moreover have "w = Some (from_law c bs, bs, ?d, u)" unfolding w_def if_not_P [OF False] ..
    ultimately show ?thesis using that by blast
  qed
  obtain out f where f: "get_finish lin txb e = (out, f)" by fastforce
  have F: "length out = 8" "audio_ok f" using get_finish_typed [OF f] t by (simp_all add: get_typed_def)
  have "process_getaudio_chunk ops m bs (s, u) = Some (out, upd_chan m (\<lambda>_. f) s, v)"
    unfolding process_getaudio_chunk_def case_prod_conv x(2) option.case Let_def w_def [symmetric] w f ..
  moreover have "all_audio (upd_chan m (\<lambda>_. f) s)" by (rule all_audio_upd [OF s F(2)])
  ultimately show ?thesis using F t by (auto simp: get_typed_def)
qed

lemma putaudio_typed:
  assumes s: "all_audio s" and u: "sums_ok u" and x: "m < 1024" "chans s ! m = Some c" and b: "length bs = 8"
    and n: "names_peer s c"
  shows "\<exists>out s' u'. process_putaudio_chunk ops ss m bs (s, u) = Some (out, s', u') \<and> length out = 8 \<and> all_audio s' \<and> sums_ok u'"
proof -
  have c: "audio_ok c" using s x by (simp add: all_audio_def)
  obtain rb lin d where t: "put_start ops bs c = (rb, lin, d)" by (metis prod_cases3)
  note S = put_start_typed [OF t c b]
  let ?s = "upd_chan m (\<lambda>_. d) s"
  have as: "all_audio ?s" by (rule all_audio_upd [OF s S(3)])
  have n': "names_peer ?s d" using n names_peer_upd [OF S(5,4)] by simp
  obtain r where r: "put_switch ?s d lin rb u = Some r" "put_typed r"
    by (rule put_switch_typed [OF as S(3) u S(2,1) n'])
  obtain rb2 e v sl where re: "r = (rb2, e, v, sl)" by (cases r)
  let ?s2 = "upd_chan m (\<lambda>_. e) ?s"
  have e: "length rb2 = 8" "audio_ok e" "sums_ok v" "case sl of None \<Rightarrow> True | Some lin \<Rightarrow> chunk_ok lin"
    using r(2) by (simp_all add: re put_typed_def)
  have "all_audio ?s2" by (rule all_audio_upd [OF as e(2)])
  then have "all_audio (case sl of None \<Rightarrow> ?s2 | Some lin \<Rightarrow> upd_chan ss (putlin_update (\<lambda>_. lin)) ?s2)"
    using e(4) all_audio_upd [of ?s2 ss "putlin_update (\<lambda>_. _)"] by (auto intro: audio_ok_set split: option.splits)
  then show ?thesis
    using x(2) r(1) e S(1) as u by (simp add: process_putaudio_chunk_def t Let_def re)
qed

section \<open>Two voices\<close>

text \<open>The sums as \<open>dahdi_init\<close> leaves them, and two mu-law channels in the conference of slot 1.\<close>

definition sums0 :: conf_sums where
  "sums0 = \<lparr>tables = replicate 3 (replicate 1025 zeros), sums_prev = 0, sums_cur = 1, sums_next = 2, sums_pos = 1\<rparr>"

definition mix_chan :: dahdi_chan where
  "mix_chan = chan0\<lparr>cflags := push_bit FLAGBIT_AUDIO 1, xlaw := mulaw_entry, lin2x := dahdi_lin2mu, confna := 2, confn := 1,
     confmode := 0x304\<rparr>"

definition mix_sys :: conf_sys where
  "mix_sys = conf_sys0\<lparr>chans := (replicate 1024 None)[1 := Some mix_chan, 2 := Some mix_chan], maxchans := 3, maxconfs := 2\<rparr>"

lemma sums0_ok: "sums_ok sums0"
proof -
  have "tables sums0 ! t = replicate 1025 zeros" if "t < 3" for t
    using that by (simp add: sums0_def)
  then show ?thesis by (simp add: sums_ok_def) (simp add: sums0_def)
qed

lemma mulaw_law_ok: "xlaw c = mulaw_entry \<Longrightarrow> law_ok c"
  using wrap_short_range by (simp add: law_ok_def is_short_def mulaw_entry_def Let_def)

lemma mix_modes [simp]: "conf_mode 772 = 4" "conf_flag 772 8" "\<not> is_monitor_mode 772"
  by (simp_all add: conf_mode_def conf_flag_def is_monitor_mode_def is_preecho_mode_def bit_iff_odd)

lemma mix_chan_facts: "talks mix_chan" "listens mix_chan" "law_ok mix_chan" "chunk_ok (conflast mix_chan)" "afterdialingtimer mix_chan = 0"
  "nat (confn mix_chan) = 1" "audio_ok mix_chan" "names_peer s mix_chan"
proof -
  show l: "law_ok mix_chan" by (rule mulaw_law_ok) (simp add: mix_chan_def)
  have z: "chunk_ok (replicate 8 0)" by simp
  then show "chunk_ok (conflast mix_chan)" by (simp add: mix_chan_def chan0_def)
  show "talks mix_chan" using l by (simp add: talks_def) (simp add: mix_chan_def chan0_def bit_push_bit_iff)
  show "listens mix_chan" by (simp add: listens_def mix_chan_def chan0_def bit_push_bit_iff)
  show "audio_ok mix_chan" using l z by (simp add: audio_ok_def) (simp add: mix_chan_def chan0_def)
  show "afterdialingtimer mix_chan = 0" "nat (confn mix_chan) = 1" "names_peer s mix_chan"
    by (simp_all add: mix_chan_def chan0_def names_peer_def)
qed

lemma mix_sys_facts: "chans mix_sys ! 1 = Some mix_chan" "chans mix_sys ! 2 = Some mix_chan" "length (chans mix_sys) = 1024"
  "maxconfs mix_sys = 2" "all_audio mix_sys"
proof -
  show "chans mix_sys ! 1 = Some mix_chan" "chans mix_sys ! 2 = Some mix_chan" "length (chans mix_sys) = 1024"
    "maxconfs mix_sys = 2" by (simp_all add: mix_sys_def)
  show "all_audio mix_sys"
    using mix_chan_facts(7) by (auto simp: all_audio_def mix_sys_def nth_upd split: if_splits)
qed

text \<open>C2. What a listener of a conference is sent. In one tick the channels of \<open>L\<close> are received, each in a conference or
  announcing in one, the sums change places, and a channel that listens is served. Its samples become its own signal plus
  the sum of what all the talkers of its conference said, minus its own part, saturated to 16 bits; the bytes sent are
  these samples, compressed by its law and put through its transmit gain, unless the training of an echo canceller mutes
  the channel or a signalling tone is added. The sum is exact whatever the loudness: each talker's part is between
  nothing and its sample, and is its whole sample when the loudness of the conference stays in range. Pseudo channels and
  conference links, which add their parts elsewhere in the tick, are not among the talkers here.\<close>

theorem conference_mix_minus:
  assumes u: "sums_ok u" and L: "distinct (map fst L)" "\<forall>xb \<in> set L. talker s xb" and m: "maxconfs s \<le> 1025"
    and n: "n < 1025" "sum_at (sums_next u) n u = zeros"
    and y: "y < length (chans s)" "chans s ! y = Some c" "listens c" "nat (confn c) = n" "law_ok c" "chunk_ok (conflast c)"
    and t: "length txb = 8"
  shows "\<exists>s1 u1 c1 out s2 u2 c2.
    put_run ops L (s, u) = Some (s1, u1) \<and> chans s1 ! y = Some c1 \<and>
    process_getaudio_chunk ops y txb (s1, rotate_sums (maxconfs s1) u1) = Some (out, s2, u2) \<and> chans s2 ! y = Some c2 \<and>
    getlin c2 = map (\<lambda>k. sat16 (sat16 (xlaw c (txb ! k) - conflast c1 ! k) + (\<Sum>x\<leftarrow>map fst L. share s1 n k x))) [0..<8] \<and>
    (unmuted c1 \<longrightarrow> out = map (\<lambda>v. txgain c1 (lin2x c v)) (getlin c2)) \<and>
    (\<forall>x k. x \<in> fst ` set L \<and> k < 8 \<longrightarrow> \<bar>share s1 n k x\<bar> \<le> loud s1 n k x) \<and>
    (\<forall>k < 8. (\<Sum>x\<leftarrow>map fst L. loud s1 n k x) \<le> 32767 \<longrightarrow> (\<forall>x \<in> fst ` set L. unclipped s1 n k x))"
proof -
  obtain s1 u1 where r: "put_run ops L (s, u) = Some (s1, u1)" and mx: "mixed L s u s1 u1"
    using put_run_ok [OF u L] by blast
  note M = mixedD [OF mx]
  obtain c1 where c1: "chans s1 ! y = Some c1" "same_voice (c\<lparr>conflast := conflast c1\<rparr>) c1" "chunk_ok (conflast c1)"
  proof (cases "y \<in> fst ` set L")
    case True
    then show ?thesis using M(6) [OF True] y(2) that by (auto simp: spoken_def)
  next
    case False
    have "chans s1 ! y = Some c" using M(5) [OF False] y(2) by simp
    then show ?thesis using that [of c] y(6) by simp
  qed
  have l: "listens c1" "nat (confn c1) = n" "xlaw c1 = xlaw c" "lin2x c1 = lin2x c" using c1(2) y(3,4) by (auto simp: listens_def same_voice_def)
  let ?u = "rotate_sums (maxconfs s1) u1"
  let ?S = "sum_at (sums_next u) n u1"
  have S: "sum_at (sums_cur ?u) n ?u = ?S" using rotate_cur [OF M(1), of "maxconfs s1"] M(2,4) m by simp
  have Sk: "?S ! k = (\<Sum>x\<leftarrow>map fst L. share s1 n k x)" if "k < 8" for k
    using M(7) [OF that, of n] n(2) that by simp
  have cS: "chunk_ok ?S" using sums_okD(7) [OF M(1)] sums_okD(2) [OF u] n(1) by blast
  obtain out s2 c2 where g: "process_getaudio_chunk ops y txb (s1, ?u) = Some (out, s2, ?u)" "chans s2 ! y = Some c2"
    "getlin c2 = hear (from_law c1 txb) (conflast c1) ?S" "unmuted c1 \<Longrightarrow> out = map (\<lambda>v. txgain c1 (lin2x c v)) (getlin c2)"
    using listen_step [OF c1(1) l(1), of ops txb ?u] y(1) M(3) S l(2,4) by metis
  have "getlin c2 = map (\<lambda>k. sat16 (sat16 (xlaw c (txb ! k) - conflast c1 ! k) + (\<Sum>x\<leftarrow>map fst L. share s1 n k x))) [0..<8]"
    unfolding g(3) by (rule nth_equalityI)
      (use t c1(3) cS Sk in \<open>simp_all add: hear_def acss_nth scss_nth from_law_def chunk_okD l(3) del: map_map\<close>)
  moreover have "\<forall>x k. x \<in> fst ` set L \<and> k < 8 \<longrightarrow> \<bar>share s1 n k x\<bar> \<le> loud s1 n k x"
    using M(6) share_loud by blast
  moreover have "\<forall>k < 8. (\<Sum>x\<leftarrow>map fst L. loud s1 n k x) \<le> 32767 \<longrightarrow> (\<forall>x \<in> fst ` set L. unclipped s1 n k x)"
    using M(8) n(2) by simp
  ultimately show ?thesis using r c1(1) g(1,2,4) by blast
qed

theorem conference_mix_minus_witness:
  "\<exists>s1 u1 c1 out s2 u2 c2.
    put_run ec_ops0 [(1, replicate 8 0x9a), (2, replicate 8 0x80)] (mix_sys, sums0) = Some (s1, u1) \<and> chans s1 ! 1 = Some c1 \<and>
    process_getaudio_chunk ec_ops0 1 (replicate 8 0xff) (s1, rotate_sums (maxconfs s1) u1) = Some (out, s2, u2) \<and>
    chans s2 ! 1 = Some c2 \<and>
    getlin c2 ! 3 = sat16 (sat16 (mulaw_entry 0xff - conflast c1 ! 3) + (share s1 1 3 1 + share s1 1 3 2))"
proof -
  have t: "\<forall>xb \<in> set [(1, replicate 8 0x9a), (2, replicate 8 0x80)]. talker mix_sys xb"
    using mix_sys_facts mix_chan_facts by (simp add: talker_def)
  have z: "sum_at (sums_next sums0) 1 sums0 = zeros" by (simp add: sums0_def sum_at_def)
  obtain s1 u1 c1 out s2 u2 c2 where
    "put_run ec_ops0 [(1, replicate 8 0x9a), (2, replicate 8 0x80)] (mix_sys, sums0) = Some (s1, u1)" "chans s1 ! 1 = Some c1"
    "process_getaudio_chunk ec_ops0 1 (replicate 8 0xff) (s1, rotate_sums (maxconfs s1) u1) = Some (out, s2, u2)"
    "chans s2 ! 1 = Some c2"
    "getlin c2 = map (\<lambda>k. sat16 (sat16 (xlaw mix_chan (replicate 8 0xff ! k) - conflast c1 ! k) +
       (\<Sum>x\<leftarrow>map fst [(1, replicate 8 (0x9a :: byte)), (2, replicate 8 0x80)]. share s1 1 k x))) [0..<8]"
    using conference_mix_minus [OF sums0_ok _ t _ _ z _ mix_sys_facts(1) mix_chan_facts(2,6,3,4), of "replicate 8 0xff" ec_ops0]
      mix_sys_facts by auto
  then show ?thesis by (auto simp: mix_chan_def)
qed

text \<open>C23. Types of the audio path: with tables of the right shape, whatever chunk a channel gets or sends in whatever
  conference mode, the result is a chunk of eight bytes, every stored chunk stays eight samples in the range of a \<open>short\<close> and
  every sum stays one too, as long as a channel that monitors names one that exists; a pseudo channel that
  monitors digitally a channel that does not exist makes the receive side follow a NULL pointer.\<close>

theorem audio_path_typed:
  assumes s: "all_audio s" "length (chans s) = 1024" and u: "sums_ok u"
    and x: "ss < 1024" "m < 1024" "chans s ! m = Some c" and b: "length bs = 8"
  shows "if names_peer s c
    then (\<exists>out s' u'. process_getaudio_chunk ops m bs (s, u) = Some (out, s', u') \<and> length out = 8 \<and> all_audio s' \<and> sums_ok u') \<and>
         (\<exists>out s' u'. process_putaudio_chunk ops ss m bs (s, u) = Some (out, s', u') \<and> length out = 8 \<and> all_audio s' \<and> sums_ok u')
    else flagged c FLAGBIT_PSEUDO \<longrightarrow> process_putaudio_chunk ops ss m bs (s, u) = None"
proof (cases "names_peer s c")
  case True
  then show ?thesis using getaudio_typed [OF s(1) u x(2,3) b] putaudio_typed [OF s(1) u x(2,3) b] by simp
next
  case False
  have c: "audio_ok c" using s x by (simp add: all_audio_def)
  obtain rb lin d where t: "put_start ops bs c = (rb, lin, d)" by (metis prod_cases3)
  note S = put_start_typed [OF t c b]
  have p: "peer (upd_chan m (\<lambda>_. d) s) d = None"
  proof -
    have "peer s c = None" using False by (auto simp: names_peer_def)
    then have "peer s d = None" using S(5) by (simp add: peer_def)
    then show ?thesis using peer_upd by simp
  qed
  have "put_switch (upd_chan m (\<lambda>_. d) s) d lin rb u = None" if "flagged c FLAGBIT_PSEUDO"
    using False that S(4,6) p by (auto simp: put_switch_def names_peer_def Let_def)
  then have "flagged c FLAGBIT_PSEUDO \<longrightarrow> process_putaudio_chunk ops ss m bs (s, u) = None"
    using x(3) S(6) by (simp add: process_putaudio_chunk_def t Let_def)
  then show ?thesis using False by simp
qed

theorem audio_path_typed_witness:
  "\<exists>out s' u'. process_getaudio_chunk ec_ops0 1 (replicate 8 0x80) (mix_sys, sums0) = Some (out, s', u') \<and> length out = 8"
  using audio_path_typed [OF mix_sys_facts(5,3) sums0_ok _ _ mix_sys_facts(1), of 1 "replicate 8 0x80" ec_ops0] mix_chan_facts(8)
  by auto



end
