(* ===== verification/Timers.thy ===== *)
theory Timers
  imports Dahdi_Prelude
begin

text \<open>
  The timers of \<open>/dev/dahdi/timer\<close> in \<open>dahdi-base.c\<close>: a countdown in samples, eight of which pass in a tick, and the
  count of its expirations that the user acknowledges. \<open>zaptimers\<close> is the list of the timers that are open, each with
  its address.
\<close>

abbreviation (input) DAHDI_EVENT_NONE :: int where "DAHDI_EVENT_NONE \<equiv> 0"
abbreviation (input) DAHDI_EVENT_TIMER_EXPIRED :: int where "DAHDI_EVENT_TIMER_EXPIRED \<equiv> 15"
abbreviation (input) DAHDI_EVENT_TIMER_PING :: int where "DAHDI_EVENT_TIMER_PING \<equiv> 16"

record dahdi_timer =
  t_ms :: int
  t_pos :: int
  t_ping :: bool
  t_tripped :: int
  t_wakes :: nat

type_synonym zaptimers = "(nat \<times> dahdi_timer) list"

definition dahdi_timing_open :: "nat option \<Rightarrow> zaptimers \<Rightarrow> (int + nat) \<times> zaptimers" where
  "dahdi_timing_open alloc ts =
     (case alloc of
        None \<Rightarrow> (Inl (- ENOMEM), ts)
      | Some a \<Rightarrow> (Inr a, (a, \<lparr>t_ms = 0, t_pos = 0, t_ping = False, t_tripped = 0, t_wakes = 0\<rparr>) # ts))"

fun dahdi_timer_release :: "nat \<Rightarrow> zaptimers \<Rightarrow> zaptimers" where
  "dahdi_timer_release t [] = []"
| "dahdi_timer_release t ((a, cur) # ts) = (if t = a then ts else (a, cur) # dahdi_timer_release t ts)"

datatype timer_ioctl = TIMERCONFIG int | TIMERACK int | TIMER_GETEVENT | TIMERPING | TIMERPONG

text \<open>The event for the user, if any, and the timer.\<close>

fun timer_ioctl_run :: "timer_ioctl \<Rightarrow> dahdi_timer \<Rightarrow> int option \<times> dahdi_timer" where
  "timer_ioctl_run (TIMERCONFIG j) t = (let j = (if j < 0 then 0 else j) in (None, t\<lparr>t_ms := j, t_pos := j\<rparr>))"
| "timer_ioctl_run (TIMERACK j) t =
     (let j = (if j < 1 \<or> j > t_tripped t then t_tripped t else j) in (None, t\<lparr>t_tripped := t_tripped t - j\<rparr>))"
| "timer_ioctl_run TIMER_GETEVENT t =
     (let j = DAHDI_EVENT_NONE;
          j = (if t_tripped t \<noteq> 0 then DAHDI_EVENT_TIMER_EXPIRED else j);
          j = (if t_ping t then DAHDI_EVENT_TIMER_PING else j)
      in (Some j, t))"
| "timer_ioctl_run TIMERPING t = (None, t\<lparr>t_ping := True, t_wakes := t_wakes t + 1\<rparr>)"
| "timer_ioctl_run TIMERPONG t = (None, t\<lparr>t_ping := False\<rparr>)"

definition timer_tick :: "dahdi_timer \<Rightarrow> dahdi_timer" where
  "timer_tick cur =
     (if t_ms cur \<noteq> 0 then
        let cur = cur\<lparr>t_pos := t_pos cur - int DAHDI_CHUNKSIZE\<rparr>
        in if t_pos cur \<le> 0
           then cur\<lparr>t_tripped := wrap_int (t_tripped cur + 1), t_pos := t_ms cur, t_wakes := t_wakes cur + 1\<rparr>
           else cur
      else cur)"

definition process_timers :: "zaptimers \<Rightarrow> zaptimers" where
  "process_timers ts = map (\<lambda>(a, cur). (a, timer_tick cur)) ts"

definition dahdi_timer_poll :: "dahdi_timer option \<Rightarrow> int + bool" where
  "dahdi_timer_poll timer =
     (case timer of None \<Rightarrow> Inl (- EINVAL) | Some t \<Rightarrow> Inr (t_tripped t \<noteq> 0 \<or> t_ping t))"

definition timer_at :: "nat \<Rightarrow> zaptimers \<Rightarrow> dahdi_timer option" where
  "timer_at a ts = map_of ts a"

definition timer_upd :: "nat \<Rightarrow> (dahdi_timer \<Rightarrow> dahdi_timer) \<Rightarrow> zaptimers \<Rightarrow> zaptimers" where
  "timer_upd a f ts = map (\<lambda>(b, cur). (b, if b = a then f cur else cur)) ts"

section \<open>Nothing is lost, nothing comes early\<close>

text \<open>What happens while a timer is open: ticks, its ioctls that do not set it, opening and closing other ones.\<close>

datatype timer_op = Tick | Ack int | Ping | Pong | Open_Timer nat | Close_Timer nat

text \<open>The state with the ticks so far and the expirations acknowledged.\<close>

fun timer_op_run :: "nat \<Rightarrow> timer_op \<Rightarrow> zaptimers \<times> nat \<times> int \<Rightarrow> zaptimers \<times> nat \<times> int" where
  "timer_op_run a Tick (ts, n, acked) = (process_timers ts, n + 1, acked)"
| "timer_op_run a (Ack j) (ts, n, acked) =
     (timer_upd a (snd \<circ> timer_ioctl_run (TIMERACK j)) ts, n,
      acked + (case timer_at a ts of None \<Rightarrow> 0 | Some t \<Rightarrow> t_tripped t - t_tripped (snd (timer_ioctl_run (TIMERACK j) t))))"
| "timer_op_run a Ping (ts, n, acked) = (timer_upd a (snd \<circ> timer_ioctl_run TIMERPING) ts, n, acked)"
| "timer_op_run a Pong (ts, n, acked) = (timer_upd a (snd \<circ> timer_ioctl_run TIMERPONG) ts, n, acked)"
| "timer_op_run a (Open_Timer b) (ts, n, acked) = (if b = a then ts else snd (dahdi_timing_open (Some b) ts), n, acked)"
| "timer_op_run a (Close_Timer b) (ts, n, acked) = (if b = a then ts else dahdi_timer_release b ts, n, acked)"

text \<open>A timer of \<open>j\<close> samples has expired once every \<open>period\<close> ticks.\<close>

definition period :: "int \<Rightarrow> nat" where
  "period j = nat ((j + 7) div 8)"

definition timer_inv :: "int \<Rightarrow> dahdi_timer \<Rightarrow> nat \<Rightarrow> int \<Rightarrow> bool" where
  "timer_inv j t n acked \<longleftrightarrow> t_ms t = j \<and> t_tripped t + acked = int (n div period j) \<and> 0 \<le> t_tripped t \<and> 0 \<le> acked \<and>
     t_pos t = j - 8 * int (n mod period j)"

lemma timer_at_upd: "timer_at b (timer_upd a f ts) = (if b = a then map_option f (timer_at b ts) else timer_at b ts)"
  by (induction ts) (auto simp: timer_at_def timer_upd_def)

lemma timer_at_process: "timer_at b (process_timers ts) = map_option timer_tick (timer_at b ts)"
  by (induction ts) (auto simp: timer_at_def process_timers_def)

lemma timer_at_release: "b \<noteq> a \<Longrightarrow> timer_at a (dahdi_timer_release b ts) = timer_at a ts"
  by (induction b ts rule: dahdi_timer_release.induct) (auto simp: timer_at_def)

lemma period_pos: "0 < j \<Longrightarrow> 0 < period j"
  by (simp add: period_def)

lemma last_tick: "q + 1 \<le> m \<Longrightarrow> j \<le> 8 * m \<Longrightarrow> 8 * (m - 1) < j \<Longrightarrow> j - 8 * q - 8 \<le> 0 \<longleftrightarrow> q + 1 = (m :: int)"
  by presburger

lemma timer_tick_inv:
  assumes i: "timer_inv j t n acked" and j: "0 < j" and n: "n + 1 < 2 ^ 31"
  shows "timer_inv j (timer_tick t) (n + 1) acked"
proof -
  let ?p = "period j"
  have p: "0 < ?p" "8 * int ?p \<ge> j" "8 * (int ?p - 1) < j" using j by (auto simp: period_def)
  have pos: "t_pos t - 8 \<le> 0 \<longleftrightarrow> n mod ?p + 1 = ?p"
  proof -
    have "n mod ?p < ?p" using p(1) by simp
    then have "int (n mod ?p) + 1 \<le> int ?p" by linarith
    then have "j - 8 * int (n mod ?p) - 8 \<le> 0 \<longleftrightarrow> int (n mod ?p) + 1 = int ?p" using p(2,3) by (intro last_tick)
    then show ?thesis using i by (simp add: timer_inv_def) linarith
  qed
  have "int (n div ?p) \<le> int n" by simp
  then have "t_tripped t \<le> int n" using i unfolding timer_inv_def by linarith
  then have w: "wrap_int (t_tripped t + 1) = t_tripped t + 1"
    using i n by (intro wrap_int_id) (auto simp: timer_inv_def)
  show ?thesis
  proof (cases "n mod ?p + 1 = ?p")
    case True
    then have "Suc n mod ?p = 0" "Suc n div ?p = Suc (n div ?p)" by (simp_all add: mod_Suc div_Suc)
    then show ?thesis using i j pos True w by (simp add: timer_inv_def timer_tick_def Let_def)
  next
    case False
    then have "Suc n mod ?p = Suc (n mod ?p)" "Suc n div ?p = n div ?p" by (simp_all add: mod_Suc div_Suc)
    then show ?thesis using i j pos False by (simp add: timer_inv_def timer_tick_def Let_def)
  qed
qed


lemma timer_ioctl_inv:
  assumes "timer_inv j t n acked"
  shows "timer_inv j (snd (timer_ioctl_run (TIMERACK k) t)) n (acked + (t_tripped t - t_tripped (snd (timer_ioctl_run (TIMERACK k) t))))"
    and "timer_inv j (snd (timer_ioctl_run TIMERPING t)) n acked" and "timer_inv j (snd (timer_ioctl_run TIMERPONG t)) n acked"
  using assms by (auto simp: timer_inv_def Let_def)

lemma timer_op_inv:
  assumes "timer_at a ts = Some t" "timer_inv j t n acked" "0 < j" "n + 1 < 2 ^ 31" and r: "timer_op_run a op (ts, n, acked) = (ts', n', acked')"
  shows "\<exists>t'. timer_at a ts' = Some t' \<and> timer_inv j t' n' acked' \<and> n' \<le> n + 1"
proof (cases op)
  case Tick
  then show ?thesis using r assms timer_tick_inv [OF assms(2-4)] by (auto simp: timer_at_process)
next
  case (Ack k)
  then show ?thesis using r assms(1) timer_ioctl_inv(1) [OF assms(2), of k] by (auto simp: timer_at_upd simp del: timer_ioctl_run.simps)
next
  case Ping
  then show ?thesis using r assms(1) timer_ioctl_inv(2) [OF assms(2)] by (auto simp: timer_at_upd simp del: timer_ioctl_run.simps)
next
  case Pong
  then show ?thesis using r assms(1) timer_ioctl_inv(3) [OF assms(2)] by (auto simp: timer_at_upd simp del: timer_ioctl_run.simps)
next
  case (Open_Timer b)
  then show ?thesis using r assms(1,2) by (cases "b = a") (auto simp: dahdi_timing_open_def timer_at_def)
next
  case (Close_Timer b)
  then show ?thesis using r assms(1,2) by (cases "b = a") (auto simp: timer_at_release)
qed

lemma timer_run_inv:
  assumes "timer_at a ts = Some t" "timer_inv j t n acked" "0 < j" "n + length ops < 2 ^ 31"
  shows "\<exists>t'. timer_at a (fst (fold (timer_op_run a) ops (ts, n, acked))) = Some t' \<and>
    timer_inv j t' (fst (snd (fold (timer_op_run a) ops (ts, n, acked)))) (snd (snd (fold (timer_op_run a) ops (ts, n, acked))))"
  using assms
proof (induction ops arbitrary: ts t n acked)
  case (Cons op ops)
  obtain ts' n' acked' where r: "timer_op_run a op (ts, n, acked) = (ts', n', acked')" by (metis prod_cases3)
  obtain t' where t': "timer_at a ts' = Some t'" "timer_inv j t' n' acked'" "n' \<le> n + 1"
    using timer_op_inv [OF Cons.prems(1-3) _ r] Cons.prems(4) by auto
  show ?case using Cons.IH [OF t'(1,2) Cons.prems(3)] t'(3) Cons.prems(4) by (simp add: r)
qed simp

text \<open>A timer set to \<open>j\<close> samples expires once every \<open>(j + 7) div 8\<close> ticks (up to 7 samples late each time: the
  remainder is dropped), whatever else happens to it and to other timers: after any sequence of ticks, acknowledgements and
  pings the expirations acknowledged and those waiting are exactly the periods that have passed, and a poll reports an
  exception exactly when some wait or a ping does.\<close>

theorem timer_period:
  assumes "timer_at a ts = Some t" "0 < j" "t_tripped t = 0" "length ops < 2 ^ 31"
  shows "\<exists>ts' n acked t'. fold (timer_op_run a) ops (timer_upd a (snd \<circ> timer_ioctl_run (TIMERCONFIG j)) ts, 0, 0) = (ts', n, acked) \<and>
    timer_at a ts' = Some t' \<and> t_tripped t' + acked = int (n div period j) \<and> 0 \<le> t_tripped t' \<and>
    dahdi_timer_poll (Some t') = Inr (acked < int (n div period j) \<or> t_ping t') \<and>
    fst (timer_ioctl_run TIMER_GETEVENT t') =
      Some (if t_ping t' then DAHDI_EVENT_TIMER_PING
            else if acked < int (n div period j) then DAHDI_EVENT_TIMER_EXPIRED else DAHDI_EVENT_NONE)"
proof -
  let ?ts = "timer_upd a (snd \<circ> timer_ioctl_run (TIMERCONFIG j)) ts" and ?t = "snd (timer_ioctl_run (TIMERCONFIG j) t)"
  have t: "timer_at a ?ts = Some ?t" using assms(1) by (simp add: timer_at_upd)
  have i: "timer_inv j ?t 0 0" using assms(2,3) by (simp add: timer_inv_def)
  obtain ts' n acked where f: "fold (timer_op_run a) ops (?ts, 0, 0) = (ts', n, acked)" by (metis prod_cases3)
  obtain t' where "timer_at a ts' = Some t'" "timer_inv j t' n acked"
    using timer_run_inv [OF t i assms(2), of ops] assms(4) by (auto simp: f)
  then show ?thesis using f by (fastforce simp: timer_inv_def dahdi_timer_poll_def Let_def)
qed

theorem timer_period_witness:
  "\<exists>ts' n acked t'. fold (timer_op_run 7) [Tick, Tick, Tick, Ack 1, Tick, Tick, Tick]
     (timer_upd 7 (snd \<circ> timer_ioctl_run (TIMERCONFIG 20)) (snd (dahdi_timing_open (Some 7) [])), 0, 0) = (ts', n, acked) \<and>
   timer_at 7 ts' = Some t' \<and> t_tripped t' + acked = int (n div 3)"
proof -
  let ?t = "\<lparr>t_ms = 0, t_pos = 0, t_ping = False, t_tripped = 0, t_wakes = 0\<rparr>"
  have a: "timer_at 7 (snd (dahdi_timing_open (Some 7) [])) = Some ?t" by (simp add: dahdi_timing_open_def timer_at_def)
  have p: "period 20 = 3" by (simp add: period_def)
  show ?thesis
    using timer_period [OF a, of 20 "[Tick, Tick, Tick, Ack 1, Tick, Tick, Tick]", unfolded p] by (force simp del: fold.simps)
qed

end
