(* ===== verification/Span_Tick.thy ===== *)
theory Span_Tick
  imports Mix Chan_Transmit Timers
begin

text \<open>
  A tick, one millisecond of every channel, in \<open>dahdi-base.c\<close>: \<open>dahdi_transmit\<close> and \<open>dahdi_receive\<close> of a span, with
  bundles of slave channels, and the work of the master span (\<open>process_masterspan\<close>): conferences, pseudo channels, links.
  The state is the table of channels, the sums of the conferences and the tone zones. \<open>None\<close> is a NULL pointer or
  a chunk that is not completed.
\<close>

record world =
  w_sys :: conf_sys
  w_sums :: conf_sums
  w_zones :: tone_globals
  w_timers :: zaptimers

text \<open>
  What a tick gets from outside: the spans by address (a pseudo channel has none), the operations of the echo canceller
  of each channel, the kernel's FCS step.
\<close>

record tick_env =
  e_span :: "int option \<Rightarrow> dahdi_span"
  e_ops :: "nat \<Rightarrow> ec_ops"
  e_fcs :: fcs_step

definition w_chan :: "world \<Rightarrow> nat \<Rightarrow> dahdi_chan option" where
  "w_chan w x = chans (w_sys w) ! x"

definition w_upd :: "nat \<Rightarrow> (dahdi_chan \<Rightarrow> dahdi_chan) \<Rightarrow> world \<Rightarrow> world" where
  "w_upd x f w = w\<lparr>w_sys := upd_chan x f (w_sys w)\<rparr>"

section \<open>Chunks\<close>

definition transmit_audio :: "tick_env \<Rightarrow> nat \<Rightarrow> nat \<Rightarrow> byte list \<Rightarrow> world \<Rightarrow> (byte list \<times> world) option" where
  "transmit_audio E x m txb w =
     (case w_chan w x of
        None \<Rightarrow> None
      | Some ss \<Rightarrow>
          if flagged ss FLAGBIT_AUDIO \<or> confmode ss \<noteq> 0 then
            (case process_getaudio_chunk (e_ops E m) m txb (w_sys w, w_sums w) of
               None \<Rightarrow> None
             | Some (txb, s, u) \<Rightarrow> Some (txb, w\<lparr>w_sys := s, w_sums := u\<rparr>))
          else Some (txb, w))"

definition transmit_chunk :: "tick_env \<Rightarrow> nat \<Rightarrow> world \<Rightarrow> (byte list \<times> world) option" where
  "transmit_chunk E x w =
     (case w_chan w x of
        None \<Rightarrow> None
      | Some ss \<Rightarrow>
          let m = nat (master ss) in
          case w_chan w m of
            None \<Rightarrow> None
          | Some ms \<Rightarrow>
              (case getbuf_chunk (e_span E (chan_span ms)) (w_zones w) ms of
                 None \<Rightarrow> None
               | Some (txb, ms) \<Rightarrow> transmit_audio E x m txb (w_upd m (\<lambda>_. ms) w)))"

definition real_transmit :: "tick_env \<Rightarrow> nat \<Rightarrow> world \<Rightarrow> world option" where
  "real_transmit E x w =
     (case w_chan w x of
        None \<Rightarrow> None
      | Some c \<Rightarrow>
          if confmode c \<noteq> 0 then
            let (r, data, q) = buf_pull True (lin2x c 0) (confout c)
            in Some (w_upd x (\<lambda>c. c\<lparr>confout := q, writechunk := (case data of None \<Rightarrow> writechunk c | Some d \<Rightarrow> d)\<rparr>) w)
          else
            (case transmit_chunk E x w of
               None \<Rightarrow> None
             | Some (txb, w) \<Rightarrow> Some (w_upd x (writechunk_update (\<lambda>_. txb)) w)))"

text \<open>\<open>__dahdi_getempty\<close>: silence or the current tone; its turn of a tone is that of \<open>__dahdi_getbuf_chunk\<close>.\<close>

fun getempty_loop :: "nat \<Rightarrow> dahdi_span \<Rightarrow> tone_globals \<Rightarrow> int \<Rightarrow> dahdi_chan \<Rightarrow> (byte list \<times> dahdi_chan) option" where
  "getempty_loop fuel span G bytes ms =
     (if bytes = 0 then Some ([], ms)
      else case curtone ms of
        None \<Rightarrow> Some (replicate (nat bytes) (lin2x ms 0), ms)
      | Some p \<Rightarrow>
          (case fuel of
             0 \<Rightarrow> None
           | Suc fuel' \<Rightarrow>
               (case getbuf_tone span G bytes p ms of
                  None \<Rightarrow> None
                | Some (out, bytes, ms) \<Rightarrow>
                    map_option (\<lambda>(out', ms). (out @ out', ms)) (getempty_loop fuel' span G bytes ms))))"

declare getempty_loop.simps [simp del]

definition getempty :: "dahdi_span \<Rightarrow> tone_globals \<Rightarrow> dahdi_chan \<Rightarrow> (byte list \<times> dahdi_chan) option" where
  "getempty span G ms = getempty_loop 300 span G 8 ms"

text \<open>The bytes end up in the buffer that was passed; \<open>None\<close> is the NULL buffer.\<close>

definition receive_audio :: "tick_env \<Rightarrow> nat \<Rightarrow> nat \<Rightarrow> byte list \<Rightarrow> world \<Rightarrow> (byte list \<times> world) option" where
  "receive_audio E x m rxb w =
     (case w_chan w x of
        None \<Rightarrow> None
      | Some ss \<Rightarrow>
          if flagged ss FLAGBIT_AUDIO \<or> confmode ss \<noteq> 0 then
            (case process_putaudio_chunk (e_ops E m) x m rxb (w_sys w, w_sums w) of
               None \<Rightarrow> None
             | Some (rxb, s, u) \<Rightarrow> Some (rxb, w\<lparr>w_sys := s, w_sums := u\<rparr>))
          else Some (rxb, w))"

definition receive_chunk :: "tick_env \<Rightarrow> nat \<Rightarrow> byte list option \<Rightarrow> world \<Rightarrow> (byte list \<times> world) option" where
  "receive_chunk E x buf w =
     (case w_chan w x of
        None \<Rightarrow> None
      | Some ss \<Rightarrow>
          let rxb = (case buf of None \<Rightarrow> replicate 8 (lin2x ss 0) | Some b \<Rightarrow> b); m = nat (master ss) in
          case receive_audio E x m rxb w of
            None \<Rightarrow> None
          | Some (rxb, w) \<Rightarrow>
              (case w_chan w m of
                 None \<Rightarrow> None
               | Some ms \<Rightarrow>
                   (case putbuf_chunk (e_fcs E) (e_span E (chan_span ms)) (flagged ss FLAGBIT_NOSTDTXRX) rxb ms of
                      None \<Rightarrow> None
                    | Some ms \<Rightarrow> Some (rxb, w_upd m (\<lambda>_. ms) w))))"

definition real_receive :: "tick_env \<Rightarrow> nat \<Rightarrow> world \<Rightarrow> world option" where
  "real_receive E x w =
     (case w_chan w x of
        None \<Rightarrow> None
      | Some c \<Rightarrow>
          if confmode c \<noteq> 0
          then Some (w_upd x (confin_update (\<lambda>q. snd (buf_push (Some (readchunk c)) q))) w)
          else
            (case receive_chunk E x (Some (readchunk c)) w of
               None \<Rightarrow> None
             | Some (rxb, w) \<Rightarrow> Some (w_upd x (readchunk_update (\<lambda>_. rxb)) w)))"

section \<open>Bundles\<close>

text \<open>
  The places of a master and its slaves in the span, along \<open>nextslave\<close>; the fuel is the number of channels of the span,
  and a chain that is longer does not end.
\<close>

fun slave_chain :: "nat \<Rightarrow> (nat \<Rightarrow> dahdi_chan option) \<Rightarrow> nat \<Rightarrow> nat list option" where
  "slave_chain fuel look z =
     (case fuel of
        0 \<Rightarrow> None
      | Suc fuel' \<Rightarrow>
          (case look z of
             None \<Rightarrow> None
           | Some c \<Rightarrow>
               if nextslave c = 0 then Some [z] else map_option ((#) z) (slave_chain fuel' look (nat (nextslave c)))))"

declare slave_chain.simps [simp del]

definition span_chan :: "dahdi_span \<Rightarrow> nat \<Rightarrow> nat" where
  "span_chan sp z = nat (sp_chans sp ! z)"

definition chain_at :: "dahdi_span \<Rightarrow> nat \<Rightarrow> world \<Rightarrow> nat list option" where
  "chain_at sp x w = slave_chain (length (sp_chans sp)) (\<lambda>z. w_chan w (span_chan sp z)) x"

text \<open>The order of the bytes of a bundle: byte by byte, and for each byte slave by slave.\<close>

definition bundle_order :: "nat list \<Rightarrow> (nat \<times> nat) list" where
  "bundle_order chain = concat (map (\<lambda>y. map (\<lambda>z. (y, z)) chain) [0..<8])"

fun spread :: "('w \<Rightarrow> (byte list \<times> 'w) option) \<Rightarrow> (nat \<Rightarrow> nat \<Rightarrow> byte \<Rightarrow> 'w \<Rightarrow> 'w) \<Rightarrow> (nat \<times> nat) list \<Rightarrow> byte list \<Rightarrow> nat \<Rightarrow> 'w \<Rightarrow> 'w option" where
  "spread get put [] data pos w = Some w"
| "spread get put ((y, z) # ps) data pos w =
     (case (if pos = 8 then map_option (\<lambda>(d, w). (d, 0, w)) (get w) else Some (data, pos, w)) of
        None \<Rightarrow> None
      | Some (data, pos, w) \<Rightarrow> spread get put ps data (pos + 1) (put z y (data ! pos) w))"

fun collect :: "(byte list \<Rightarrow> 'w \<Rightarrow> 'w option) \<Rightarrow> (nat \<Rightarrow> nat \<Rightarrow> 'w \<Rightarrow> byte) \<Rightarrow> (nat \<times> nat) list \<Rightarrow> byte list \<Rightarrow> nat \<Rightarrow> 'w \<Rightarrow> 'w option" where
  "collect send look [] data pos w = Some w"
| "collect send look ((y, z) # ps) data pos w =
     (let data = data[pos := look z y w]; pos = pos + 1 in
      if pos = 8 then (case send data w of None \<Rightarrow> None | Some w \<Rightarrow> collect send look ps data 0 w)
      else collect send look ps data pos w)"

definition put_slave :: "dahdi_span \<Rightarrow> nat \<Rightarrow> nat \<Rightarrow> byte \<Rightarrow> world \<Rightarrow> world" where
  "put_slave sp z y b w = w_upd (span_chan sp z) (writechunk_update (\<lambda>bs. bs[y := b])) w"

definition look_slave :: "dahdi_span \<Rightarrow> nat \<Rightarrow> nat \<Rightarrow> world \<Rightarrow> byte" where
  "look_slave sp z y w = (case w_chan w (span_chan sp z) of None \<Rightarrow> 0 | Some c \<Rightarrow> readchunk c ! y)"

definition transmit_bundle :: "tick_env \<Rightarrow> dahdi_span \<Rightarrow> nat \<Rightarrow> world \<Rightarrow> world option" where
  "transmit_bundle E sp x w =
     (case chain_at sp x w of
        None \<Rightarrow> None
      | Some chain \<Rightarrow> spread (transmit_chunk E (span_chan sp x)) (put_slave sp) (bundle_order chain) (replicate 8 0) 8 w)"

definition bundle_send :: "tick_env \<Rightarrow> dahdi_span \<Rightarrow> nat \<Rightarrow> byte list \<Rightarrow> world \<Rightarrow> world option" where
  "bundle_send E sp x data w =
     (case w_chan w (span_chan sp x) of
        None \<Rightarrow> None
      | Some c \<Rightarrow> if flagged c FLAGBIT_NOSTDTXRX then Some w else map_option snd (receive_chunk E (span_chan sp x) (Some data) w))"

definition receive_bundle :: "tick_env \<Rightarrow> dahdi_span \<Rightarrow> nat \<Rightarrow> world \<Rightarrow> world option" where
  "receive_bundle E sp x w =
     (case chain_at sp x w of
        None \<Rightarrow> None
      | Some chain \<Rightarrow> collect (bundle_send E sp x) (look_slave sp) (bundle_order chain) (replicate 8 0) 0 w)"

text \<open>\<open>recalc_slaves\<close>: the chain of a master, whose place in the span is \<open>p\<close>; its slaves come after it.\<close>

definition link_slave :: "dahdi_span \<Rightarrow> int \<Rightarrow> nat \<Rightarrow> nat \<times> world \<Rightarrow> nat \<times> world" where
  "link_slave sp n x = (\<lambda>(prev, w).
     case w_chan w (span_chan sp x) of
       None \<Rightarrow> (prev, w)
     | Some c \<Rightarrow> if master c = n then (x, w_upd (span_chan sp prev) (nextslave_update (\<lambda>_. int x)) w) else (prev, w))"

definition recalc_slaves :: "dahdi_span \<Rightarrow> nat \<Rightarrow> world \<Rightarrow> world" where
  "recalc_slaves sp p w =
     (case w_chan w (span_chan sp p) of
        None \<Rightarrow> w
      | Some c \<Rightarrow>
          if chan_span c = None then w
          else
            let (prev, w) = fold (link_slave sp (int (span_chan sp p))) [nat (chanpos c)..<length (sp_chans sp)] (p, w)
            in w_upd (span_chan sp prev) (nextslave_update (\<lambda>_. 0)) w)"

section \<open>\<open>dahdi_transmit\<close> and \<open>dahdi_receive\<close>\<close>

definition dacs_rbs :: "nat \<Rightarrow> world \<Rightarrow> world" where
  "dacs_rbs x w =
     (case w_chan w x of
        None \<Rightarrow> w
      | Some c \<Rightarrow>
          if sig c = SIG_DACS_RBS then
            (case peer (w_sys w) c of
               None \<Rightarrow> w
             | Some p \<Rightarrow>
                 if txsig c \<noteq> rxsig p then w_upd x (\<lambda>c. emit (SpanRbsbits (rxsig p)) (c\<lparr>txsig := rxsig p\<rparr>)) w else w)
          else w)"

definition transmit_one :: "tick_env \<Rightarrow> dahdi_span \<Rightarrow> nat \<Rightarrow> world \<Rightarrow> world option" where
  "transmit_one E sp x w =
     (let n = span_chan sp x in
      case w_chan w n of
        None \<Rightarrow> None
      | Some c \<Rightarrow>
          if flagged c FLAGBIT_NOSTDTXRX \<or> master c \<noteq> int n then Some w
          else
            (case transmit_otimer sp (w_zones w) c of
               None \<Rightarrow> None
             | Some c \<Rightarrow>
                 let w = w_upd n (\<lambda>_. c) w
                 in map_option (dacs_rbs n)
                      (if flagged c FLAGBIT_AUDIO then real_transmit E n w
                       else if nextslave c \<noteq> 0 then transmit_bundle E sp x w
                       else real_transmit E n w)))"

fun each_chan :: "(nat \<Rightarrow> world \<Rightarrow> world option) \<Rightarrow> nat list \<Rightarrow> world \<Rightarrow> world option" where
  "each_chan f [] w = Some w"
| "each_chan f (x # xs) w = (case f x w of None \<Rightarrow> None | Some w \<Rightarrow> each_chan f xs w)"

text \<open>The maintenance timer of a span; \<open>maint_stops\<close> counts the calls that stop a loop.\<close>

record span_maint =
  mainttimer :: int
  maintstat :: int
  maint_stops :: nat

definition maint_tick :: "bool \<Rightarrow> span_maint \<Rightarrow> span_maint" where
  "maint_tick has_maint s =
     (if mainttimer s \<noteq> 0 then
        let s = s\<lparr>mainttimer := mainttimer s - 8\<rparr>
        in if mainttimer s \<le> 0
           then s\<lparr>mainttimer := 0, maint_stops := maint_stops s + (if has_maint then 1 else 0), maintstat := 0\<rparr>
           else s
      else s)"

definition dahdi_transmit :: "tick_env \<Rightarrow> bool \<Rightarrow> dahdi_span \<Rightarrow> span_maint \<times> world \<Rightarrow> (span_maint \<times> world) option" where
  "dahdi_transmit E has_maint sp = (\<lambda>(s, w).
     map_option (\<lambda>w. (maint_tick has_maint s, w)) (each_chan (transmit_one E sp) [0..<length (sp_chans sp)] w))"

definition receive_one :: "tick_env \<Rightarrow> dahdi_span \<Rightarrow> nat \<Rightarrow> world \<Rightarrow> world option" where
  "receive_one E sp x w =
     (let n = span_chan sp x in
      case w_chan w n of
        None \<Rightarrow> None
      | Some c \<Rightarrow>
          if master c \<noteq> int n then Some w
          else map_option (w_upd n receive_timers)
                 (if nextslave c \<noteq> 0 then receive_bundle E sp x w
                  else if \<not> flagged c FLAGBIT_NOSTDTXRX then real_receive E n w else Some w))"

section \<open>The master span\<close>

text \<open>Conferenced channels are received from the queue of chunks their cards brought; the queue's slot is the buffer.\<close>

definition conf_receive :: "tick_env \<Rightarrow> nat \<Rightarrow> world \<Rightarrow> world option" where
  "conf_receive E x w =
     (case w_chan w x of
        None \<Rightarrow> Some w
      | Some c \<Rightarrow>
          if confmode c \<noteq> 0 \<and> \<not> flagged c FLAGBIT_PSEUDO then
            (case buf_peek (confin c) of
               None \<Rightarrow> map_option snd (receive_chunk E x None w)
             | Some k \<Rightarrow>
                 map_option (\<lambda>(rxb, w).
                   w_upd x (confin_update (\<lambda>q. snd (snd (buf_pull False 0 (q\<lparr>cq_buf := (cq_buf q)[k := rxb]\<rparr>))))) w)
                   (receive_chunk E x (Some (cq_buf (confin c) ! k)) w))
          else Some w)"

definition pseudo_transmit :: "tick_env \<Rightarrow> nat \<Rightarrow> world \<Rightarrow> world option" where
  "pseudo_transmit E x w =
     (case w_chan w x of
        None \<Rightarrow> Some w
      | Some c \<Rightarrow> if flagged c FLAGBIT_PSEUDO then map_option snd (transmit_chunk E x w) else Some w)"

definition link_sums :: "conf_sys \<Rightarrow> nat \<Rightarrow> conf_sums \<Rightarrow> conf_sums" where
  "link_sums s x u =
     (let (src, dst) = conf_links s ! x; z = confalias s ! nat dst; y = confalias s ! nat src; t = sums_cur u
      in if z \<noteq> 0 \<and> y \<noteq> 0 then put_sum t (nat z) (acss (sum_at t (nat z) u) (sum_at t (nat y) u)) u else u)"

definition process_links :: "world \<Rightarrow> world" where
  "process_links w = w\<lparr>w_sums := fold (link_sums (w_sys w)) [1..<Suc (maxlinks (w_sys w))] (w_sums w)\<rparr>"

definition pseudo_receive :: "tick_env \<Rightarrow> nat \<Rightarrow> world \<Rightarrow> world option" where
  "pseudo_receive E x w =
     (case w_chan w x of
        None \<Rightarrow> Some w
      | Some c \<Rightarrow>
          if flagged c FLAGBIT_PSEUDO then
            (case getempty (e_span E (chan_span c)) (w_zones w) c of
               None \<Rightarrow> None
             | Some (tmp, c) \<Rightarrow> map_option snd (receive_chunk E x (Some tmp) (w_upd x (\<lambda>_. c) w)))
          else Some w)"

definition conf_transmit :: "tick_env \<Rightarrow> nat \<Rightarrow> world \<Rightarrow> world option" where
  "conf_transmit E x w =
     (case w_chan w x of
        None \<Rightarrow> Some w
      | Some c \<Rightarrow>
          if confmode c \<noteq> 0 \<and> \<not> flagged c FLAGBIT_PSEUDO then
            map_option (\<lambda>(txb, w).
              case buf_pushpeek (confout c) of
                None \<Rightarrow> w
              | Some k \<Rightarrow> w_upd x (confout_update (\<lambda>q. snd (buf_push None (q\<lparr>cq_buf := (cq_buf q)[k := txb]\<rparr>)))) w)
              (transmit_chunk E x w)
          else Some w)"

definition process_masterspan :: "tick_env \<Rightarrow> world \<Rightarrow> world option" where
  "process_masterspan E w =
     (let w = w\<lparr>w_timers := process_timers (w_timers w)\<rparr>; xs = [1..<maxchans (w_sys w)] in
      case each_chan (conf_receive E) xs w of
        None \<Rightarrow> None
      | Some w \<Rightarrow>
          let w = w\<lparr>w_sums := rotate_sums (maxconfs (w_sys w)) (w_sums w)\<rparr> in
          case each_chan (pseudo_transmit E) xs w of
            None \<Rightarrow> None
          | Some w \<Rightarrow>
              (case each_chan (pseudo_receive E) xs (process_links w) of
                 None \<Rightarrow> None
               | Some w \<Rightarrow> each_chan (conf_transmit E) xs w))"

definition dahdi_receive :: "tick_env \<Rightarrow> bool \<Rightarrow> dahdi_span \<Rightarrow> world \<Rightarrow> world option" where
  "dahdi_receive E is_master sp w =
     (case each_chan (receive_one E sp) [0..<length (sp_chans sp)] w of
        None \<Rightarrow> None
      | Some w \<Rightarrow> if is_master then process_masterspan E w else Some w)"


section \<open>The wires of a channel\<close>

text \<open>What the queues of a channel that is not in audio mode leave alone.\<close>

definition wires :: "dahdi_chan \<Rightarrow> byte list \<times> byte list \<times> u32 \<times> int \<times> int \<times> int" where
  "wires c = (writechunk c, readchunk c, cflags c, confmode c, master c, nextslave c)"

named_theorems wires_simps

lemma wires_wake [simp]: "wires (wake q c) = wires c" "wires (emit e c) = wires c" "wires (qevent ev c) = wires c"
proof -
  obtain ws where "qevent ev c = c\<lparr>evring := qevent_q ev (evring c), eff := eff c @ ws\<rparr>" using qevent_cases by blast
  then show "wires (qevent ev c) = wires c" by (simp add: wires_def)
qed (simp_all add: wires_def wake_def emit_def)

lemma wires_upd [simp]:
  "wires (c\<lparr>outwritebuf := a\<rparr>) = wires c" "wires (c\<lparr>inwritebuf := a\<rparr>) = wires c" "wires (c\<lparr>writeidx := l\<rparr>) = wires c"
  "wires (c\<lparr>writen := l\<rparr>) = wires c" "wires (c\<lparr>txhdlc := h\<rparr>) = wires c" "wires (c\<lparr>rxhdlc := h\<rparr>) = wires c"
  "wires (c\<lparr>ts := st\<rparr>) = wires c" "wires (c\<lparr>tonep := a\<rparr>) = wires c" "wires (c\<lparr>curtone := q\<rparr>) = wires c"
  "wires (c\<lparr>txdialbuf := str\<rparr>) = wires c" "wires (c\<lparr>dialing := a\<rparr>) = wires c" "wires (c\<lparr>digitmode := a\<rparr>) = wires c"
  "wires (c\<lparr>pdialcount := a\<rparr>) = wires c" "wires (c\<lparr>readidx := l\<rparr>) = wires c" "wires (c\<lparr>readn := l\<rparr>) = wires c"
  "wires (c\<lparr>readbuf := bs\<rparr>) = wires c" "wires (c\<lparr>infcs := u\<rparr>) = wires c" "wires (c\<lparr>inreadbuf := a\<rparr>) = wires c"
  "wires (c\<lparr>outreadbuf := a\<rparr>) = wires c" "wires (c\<lparr>rxdisable := b\<rparr>) = wires c" "wires (c\<lparr>txdisable := b\<rparr>) = wires c"
  "wires (c\<lparr>txstate := t\<rparr>) = wires c" "wires (c\<lparr>otimer := a\<rparr>) = wires c" "wires (c\<lparr>txhooksig := a\<rparr>) = wires c"
  "wires (c\<lparr>txsig := a\<rparr>) = wires c" "wires (c\<lparr>v1_1 := a\<rparr>) = wires c" "wires (c\<lparr>v2_1 := a\<rparr>) = wires c"
  "wires (c\<lparr>v3_1 := a\<rparr>) = wires c" "wires (c\<lparr>txtone := a\<rparr>) = wires c"
  by (simp_all add: wires_def)

lemma wires_getbuf_parts [simp]:
  "wires (getbuf_policy c) = wires c" "wires (wake_iomux_write c) = wires c" "wires (getbuf_empty a c) = wires c"
  "wires (getbuf_advance c) = wires c" "wires (getbuf_notify c) = wires c" "wires (getbuf_done c) = wires c"
proof -
  show p: "wires (getbuf_policy c) = wires c" for c by (simp add: getbuf_policy_def)
  show w: "wires (wake_iomux_write c) = wires c" for c by (simp add: wake_iomux_write_def)
  show e: "wires (getbuf_empty a c) = wires c" for a c by (simp add: getbuf_empty_def p w)
  show a: "wires (getbuf_advance c) = wires c" for c by (simp add: getbuf_advance_def Let_def e)
  show n: "wires (getbuf_notify c) = wires c" for c by (simp add: getbuf_notify_def Let_def)
  show "wires (getbuf_done c) = wires c" by (simp add: getbuf_done_def Let_def n a)
qed

lemma wires_getbuf_hdlc: "getbuf_hdlc n c = (bs, c') \<Longrightarrow> wires c' = wires c \<and> length bs = n"
proof (induction n arbitrary: c bs)
  case (Suc n)
  then show ?case by (fastforce simp: Let_def split: prod.splits if_splits)
qed simp

lemma wires_getbuf_flags: "getbuf_flags n c = (bs, c') \<Longrightarrow> wires c' = wires c \<and> length bs = n"
proof (induction n arbitrary: c bs)
  case (Suc n)
  then show ?case by (fastforce simp: Let_def split: prod.splits)
qed simp

lemma wires_getbuf_samples: "getbuf_samples n t c = (bs, c') \<Longrightarrow> wires c' = wires c \<and> length bs = n"
proof (induction n arbitrary: c bs)
  case (Suc n)
  then show ?case by (fastforce simp: Let_def split: prod.splits)
qed simp

lemma wires_set_txtone [simp]: "wires (set_txtone a b d c) = wires c"
  by (simp add: set_txtone_def)

lemma wires_sethook [simp]: "wires (dahdi_rbs_sethook span s st t c) = wires c"
  by (simp add: dahdi_rbs_sethook_def Let_def split: option.split)

lemma wires_do_dtmf [simp]: "wires (do_dtmf span G c) = wires c"
proof -
  have "wires (do_dtmf_loop span G str c) = wires c" for str c
    by (induction str arbitrary: c) (simp_all add: Let_def split: option.split)
  then show ?thesis by (simp add: do_dtmf_def)
qed

lemma wires_next_tone: "getbuf_next_tone span G p t c = Some c' \<Longrightarrow> wires c' = wires c"
  by (auto simp: getbuf_next_tone_def Let_def split: option.splits if_splits)

lemma wires_getbuf_tone: "getbuf_tone span G n p c = Some (bs, n', c') \<Longrightarrow> wires c' = wires c"
  by (auto simp: getbuf_tone_def Let_def split: option.splits prod.splits if_splits
    dest!: wires_getbuf_samples wires_next_tone)

lemma wires_getbuf_turn:
  assumes "getbuf_turn span G n c = Some (bs, n', c')"
  shows "wires c' = wires c"
proof -
  have w: "wires c' = wires c" if "getbuf_write n c = Some (bs, n', c')"
    using that wires_getbuf_hdlc by (fastforce simp: getbuf_write_def Let_def split: prod.splits if_splits)
  show ?thesis
    using assms w wires_getbuf_tone
    by (auto simp: getbuf_turn_def split: if_splits option.splits prod.splits dest: wires_getbuf_flags)
qed

lemma wires_getbuf: "getbuf_loop fuel span G n c = Some (bs, c') \<Longrightarrow> wires c' = wires c"
proof (induction fuel span G n c arbitrary: bs rule: getbuf_loop.induct)
  case (1 fuel span G n c)
  show ?case
    using 1 wires_getbuf_turn
    by (fastforce simp: getbuf_loop.simps [of fuel] split: if_splits nat.splits option.splits prod.splits)
qed


lemma wires_putbuf_hdlc: "putbuf_hdlc fcs bs used c = (c', eof, ab, used') \<Longrightarrow> wires c' = wires c"
proof (induction bs arbitrary: c used)
  case (Cons b bs)
  obtain res h where r: "fasthdlc_rx_run (fasthdlc_rx_load_nocheck b (rxhdlc c)) = (res, h)" by fastforce
  show ?case
    using Cons.prems unfolding putbuf_hdlc.simps Let_def r prod.case
    by (simp split: if_split_asm) (auto dest!: Cons.IH)
qed simp

lemma wires_putbuf_parts [simp]:
  "wires (putbuf_next c) = wires c" "wires (putbuf_notify c) = wires c" "wires (putbuf_eof c) = wires c"
  "wires (putbuf_abort span ev c) = wires c"
proof -
  show n: "wires (putbuf_next c) = wires c" for c by (simp add: putbuf_next_def Let_def)
  show t: "wires (putbuf_notify c) = wires c" for c by (simp add: putbuf_notify_def Let_def)
  show "wires (putbuf_eof c) = wires c" by (simp add: putbuf_eof_def Let_def n t)
  show "wires (putbuf_abort span ev c) = wires c" by (simp add: putbuf_abort_def Let_def)
qed

lemma wires_putbuf_turn: "putbuf_turn fcs span nostd bs c = (used, c') \<Longrightarrow> wires c' = wires c"
  by (auto simp: putbuf_turn_def Let_def split: prod.splits if_splits dest!: wires_putbuf_hdlc)

lemma wires_putbuf: "putbuf_loop fuel fcs span nostd bs c = Some c' \<Longrightarrow> wires c' = wires c"
proof (induction fuel fcs span nostd bs c rule: putbuf_loop.induct)
  case (3 fuel fcs span nostd b bs c)
  then show ?case using wires_putbuf_turn by (fastforce simp: Let_def split: if_splits prod.splits)
qed simp_all

section \<open>A bundle carries its chunks\<close>

text \<open>Recording the chunks that are got.\<close>

definition logged :: "('w \<Rightarrow> (byte list \<times> 'w) option) \<Rightarrow> 'w \<times> byte list list \<Rightarrow> (byte list \<times> 'w \<times> byte list list) option" where
  "logged get = (\<lambda>(w, l). map_option (\<lambda>(d, w). (d, (w, l @ [d]))) (get w))"

definition on_fst :: "(nat \<Rightarrow> nat \<Rightarrow> byte \<Rightarrow> 'w \<Rightarrow> 'w) \<Rightarrow> nat \<Rightarrow> nat \<Rightarrow> byte \<Rightarrow> 'w \<times> byte list list \<Rightarrow> 'w \<times> byte list list" where
  "on_fst put z y b = (\<lambda>(w, l). (put z y b w, l))"

fun sends :: "(byte list \<Rightarrow> 'w \<Rightarrow> 'w option) \<Rightarrow> byte list list \<Rightarrow> 'w \<Rightarrow> 'w option" where
  "sends send [] w = Some w"
| "sends send (d # ds) w = (case send d w of None \<Rightarrow> None | Some w \<Rightarrow> sends send ds w)"

text \<open>
  The two sides of a bundle. A source gets chunks and stores bytes in places; a sink reads bytes from places and
  passes chunks on without changing what the places hold.
\<close>

locale bundle_source =
  fixes get :: "'w \<Rightarrow> (byte list \<times> 'w) option" and put :: "nat \<Rightarrow> nat \<Rightarrow> byte \<Rightarrow> 'w \<Rightarrow> 'w"
    and look :: "nat \<Rightarrow> nat \<Rightarrow> 'w \<Rightarrow> byte" and wf :: "'w \<Rightarrow> bool" and Z :: "nat set"
  assumes get_ok: "wf w \<Longrightarrow> \<exists>d w'. get w = Some (d, w') \<and> length d = 8 \<and> wf w' \<and> (\<forall>z \<in> Z. \<forall>y < 8. look z y w' = look z y w)"
    and put_ok: "wf w \<Longrightarrow> z \<in> Z \<Longrightarrow> y < 8 \<Longrightarrow> wf (put z y b w)"
    and look_put: "wf w \<Longrightarrow> z \<in> Z \<Longrightarrow> y < 8 \<Longrightarrow> z' \<in> Z \<Longrightarrow> y' < 8 \<Longrightarrow>
      look z' y' (put z y b w) = (if z' = z \<and> y' = y then b else look z' y' w)"
begin

definition places :: "(nat \<times> nat) set" where
  "places = {(y, z). y < 8 \<and> z \<in> Z}"

lemma spread_carries:
  assumes "wf w" "distinct ps" "set ps \<subseteq> places" "pos \<le> 8" "length data = 8"
  shows "\<exists>w' Ds. spread (logged get) (on_fst put) ps data pos (w, l) = Some (w', l @ Ds) \<and> spread get put ps data pos w = Some w' \<and>
    wf w' \<and> (\<forall>d \<in> set Ds. length d = 8) \<and> length Ds = (length ps + pos - 1) div 8 \<and>
    map (\<lambda>(y, z). look z y w') ps = take (length ps) (drop pos data @ concat Ds) \<and>
    (\<forall>y z. (y, z) \<in> places \<and> (y, z) \<notin> set ps \<longrightarrow> look z y w' = look z y w)"
  using assms
proof (induction ps arbitrary: data pos w l)
  case (Cons p ps)
  obtain y z where p: "p = (y, z)" by fastforce
  have yz: "y < 8" "z \<in> Z" "(y, z) \<notin> set ps" "distinct ps" "set ps \<subseteq> places"
    using Cons.prems(2,3) p by (auto simp: places_def)
  have go: "\<exists>w' Ds. spread (logged get) (on_fst put) ps dat (Suc q) (put z y (dat ! q) w1, l1) = Some (w', l1 @ Ds) \<and>
      spread get put ps dat (Suc q) (put z y (dat ! q) w1) = Some w' \<and> wf w' \<and> (\<forall>d \<in> set Ds. length d = 8) \<and>
      length Ds = (length ps + q) div 8 \<and>
      map (\<lambda>(y, z). look z y w') (p # ps) = take (Suc (length ps)) (drop q dat @ concat Ds) \<and>
      (\<forall>y z. (y, z) \<in> places \<and> (y, z) \<notin> set (p # ps) \<longrightarrow> look z y w' = look z y w1)"
    if w1: "wf w1" "q < 8" "length dat = 8" for w1 dat q l1
  proof -
    have wp: "wf (put z y (dat ! q) w1)" by (rule put_ok [OF w1(1) yz(2,1)])
    have l2: "look z y (put z y (dat ! q) w1) = dat ! q" using look_put [OF w1(1) yz(2,1) yz(2,1)] by simp
    have e: "take (Suc n) (drop q dat @ xs) = dat ! q # take n (drop (Suc q) dat @ xs)" for n xs
      using Cons_nth_drop_Suc [of q dat, symmetric] w1(2,3) by simp
    have q: "Suc q \<le> 8" using w1(2) by simp
    obtain w' Ds where i: "spread (logged get) (on_fst put) ps dat (Suc q) (put z y (dat ! q) w1, l1) = Some (w', l1 @ Ds)"
      "spread get put ps dat (Suc q) (put z y (dat ! q) w1) = Some w'" "wf w'" "\<forall>d \<in> set Ds. length d = 8"
      "length Ds = (length ps + Suc q - 1) div 8"
      "map (\<lambda>(y, z). look z y w') ps = take (length ps) (drop (Suc q) dat @ concat Ds)"
      "\<forall>y' z'. (y', z') \<in> places \<and> (y', z') \<notin> set ps \<longrightarrow> look z' y' w' = look z' y' (put z y (dat ! q) w1)"
      using Cons.IH [OF wp yz(4,5) q w1(3), of l1] by blast
    have "look z y w' = dat ! q" using i(7) yz(1,2,3) l2 by (simp add: places_def)
    then have m: "map (\<lambda>(y, z). look z y w') (p # ps) = take (Suc (length ps)) (drop q dat @ concat Ds)"
      using i(6) by (simp del: take_append add: p e)
    have "look z' y' w' = look z' y' w1" if "(y', z') \<in> places" "(y', z') \<notin> set (p # ps)" for y' z'
      using i(7) that look_put [OF w1(1) yz(2,1), of z' y'] p by (auto simp: places_def)
    then show ?thesis using i(1-5) m by (intro exI [of _ w'] exI [of _ Ds]) simp
  qed
  show ?case
  proof (cases "pos = 8")
    case True
    obtain d w1 where g: "get w = Some (d, w1)" "length d = 8" "wf w1" "\<forall>z \<in> Z. \<forall>y < 8. look z y w1 = look z y w"
      using get_ok [OF Cons.prems(1)] by blast
    obtain w' Ds where i: "spread (logged get) (on_fst put) ps d (Suc 0) (put z y (d ! 0) w1, l @ [d]) = Some (w', (l @ [d]) @ Ds)"
      "spread get put ps d (Suc 0) (put z y (d ! 0) w1) = Some w'" "wf w'" "\<forall>d \<in> set Ds. length d = 8"
      "length Ds = (length ps + 0) div 8"
      "map (\<lambda>(y, z). look z y w') (p # ps) = take (Suc (length ps)) (drop 0 d @ concat Ds)"
      "\<forall>y z. (y, z) \<in> places \<and> (y, z) \<notin> set (p # ps) \<longrightarrow> look z y w' = look z y w1"
      using go [OF g(3) _ g(2), of 0 "l @ [d]"] by auto
    have "look z' y' w' = look z' y' w" if "(y', z') \<in> places" "(y', z') \<notin> set (p # ps)" for y' z'
      using i(7) that g(4) by (auto simp: places_def)
    moreover have "spread (logged get) (on_fst put) (p # ps) data pos (w, l) = Some (w', l @ (d # Ds))"
      using i(1) True g(1) by (simp add: p logged_def on_fst_def)
    moreover have "spread get put (p # ps) data pos w = Some w'" using i(2) True g(1) by (simp add: p)
    moreover have "length (d # Ds) = (length (p # ps) + pos - 1) div 8" using i(5) True by simp
    moreover have "map (\<lambda>(y, z). look z y w') (p # ps) = take (length (p # ps)) (drop pos data @ concat (d # Ds))"
      using i(6) True Cons.prems(5) by simp
    moreover have "\<forall>e \<in> set (d # Ds). length e = 8" using i(4) g(2) by simp
    ultimately show ?thesis using i(3) by (intro exI [of _ w'] exI [of _ "d # Ds"] conjI) blast+
  next
    case False
    then have q: "pos < 8" using Cons.prems(4) by simp
    have s: "spread (logged get) (on_fst put) (p # ps) data pos (w, l) = spread (logged get) (on_fst put) ps data (Suc pos) (put z y (data ! pos) w, l)"
      "spread get put (p # ps) data pos w = spread get put ps data (Suc pos) (put z y (data ! pos) w)"
      using False by (simp_all add: p on_fst_def)
    have n: "length (p # ps) = Suc (length ps)" "Suc (length ps) + pos - 1 = length ps + pos" by simp_all
    show ?thesis unfolding s n by (rule go [OF Cons.prems(1) q Cons.prems(5)])
  qed
qed simp

end

locale bundle_sink =
  fixes send :: "byte list \<Rightarrow> 'w \<Rightarrow> 'w option" and look :: "nat \<Rightarrow> nat \<Rightarrow> 'w \<Rightarrow> byte" and wf :: "'w \<Rightarrow> bool"
  assumes send_ok: "wf w \<Longrightarrow> send d w = Some w' \<Longrightarrow> wf w' \<and> look z y w' = look z y w"
begin

lemma collect_sends:
  assumes "wf w" "length data = 8" "pos < 8" "take pos data @ map (\<lambda>(y, z). look z y w) ps = concat Ds" "\<forall>d \<in> set Ds. length d = 8"
  shows "collect send look ps data pos w = sends send Ds w"
  using assms
proof (induction ps arbitrary: data pos w Ds)
  case Nil
  have "Ds = []"
  proof (rule ccontr)
    assume "Ds \<noteq> []"
    then obtain d Ds' where D: "Ds = d # Ds'" by (cases Ds) auto
    then have "8 \<le> length (concat Ds)" using Nil.prems(5) by simp
    moreover have "length (concat Ds) = pos" using Nil.prems(2,3) by (simp add: Nil.prems(4) [symmetric])
    ultimately show False using Nil.prems(3) by simp
  qed
  then show ?case by simp
next
  case (Cons p ps)
  obtain y z where p: "p = (y, z)" by fastforce
  define data' where "data' = data[pos := look z y w]"
  have d: "length data' = 8" "take (Suc pos) data' = take pos data @ [look z y w]"
    using Cons.prems(2,3) by (simp_all add: data'_def take_Suc_conv_app_nth)
  have e: "take (Suc pos) data' @ map (\<lambda>(y, z). look z y w) ps = concat Ds" using Cons.prems(4) by (simp add: d(2) p)
  show ?case
  proof (cases "Suc pos = 8")
    case True
    then have f: "data' @ map (\<lambda>(y, z). look z y w) ps = concat Ds" using e d(1) by simp
    then have "Ds \<noteq> []" using d(1) by auto
    then obtain D Ds' where D: "Ds = D # Ds'" by (cases Ds) auto
    then have D': "D = data'" "map (\<lambda>(y, z). look z y w) ps = concat Ds'" using f d(1) Cons.prems(5) by simp_all
    have c: "collect send look (p # ps) data pos w = (case send data' w of None \<Rightarrow> None | Some w \<Rightarrow> collect send look ps data' 0 w)"
      unfolding p collect.simps Let_def data'_def [symmetric] using True by simp
    show ?thesis
    proof (cases "send data' w")
      case None
      then show ?thesis by (simp add: c D D'(1))
    next
      case (Some w1)
      note S = send_ok [OF Cons.prems(1) Some]
      have "collect send look ps data' 0 w1 = sends send Ds' w1"
        by (rule Cons.IH) (use S d(1) D'(2) Cons.prems(5) D in simp_all)
      then show ?thesis using Some by (simp add: c D D'(1))
    qed
  next
    case False
    have "collect send look (p # ps) data pos w = collect send look ps data' (Suc pos) w"
      unfolding p collect.simps Let_def data'_def [symmetric] using False by simp
    then show ?thesis using Cons.IH [OF Cons.prems(1) d(1) _ e Cons.prems(5)] Cons.prems(3) False by simp
  qed
qed

end


section \<open>The bundles of a span\<close>

definition look_tx :: "dahdi_span \<Rightarrow> nat \<Rightarrow> nat \<Rightarrow> world \<Rightarrow> byte" where
  "look_tx sp z y w = (case w_chan w (span_chan sp z) of None \<Rightarrow> 0 | Some c \<Rightarrow> writechunk c ! y)"

text \<open>A master of data channels: itself its master, neither audio nor conference.\<close>

definition data_master :: "nat \<Rightarrow> dahdi_chan \<Rightarrow> bool" where
  "data_master n c \<longleftrightarrow> \<not> flagged c FLAGBIT_AUDIO \<and> confmode c = 0 \<and> master c = int n"

definition tx_wf :: "dahdi_span \<Rightarrow> nat \<Rightarrow> nat set \<Rightarrow> world \<Rightarrow> bool" where
  "tx_wf sp x Z w \<longleftrightarrow> inj_on (span_chan sp) Z \<and>
     (\<forall>z \<in> Z. span_chan sp z < length (chans (w_sys w)) \<and>
        (\<exists>c. w_chan w (span_chan sp z) = Some c \<and> length (writechunk c) = 8)) \<and>
     span_chan sp x < length (chans (w_sys w)) \<and>
     (\<exists>c. w_chan w (span_chan sp x) = Some c \<and> data_master (span_chan sp x) c \<and> tx_ready (w_zones w) c)"

definition rx_wf :: "dahdi_span \<Rightarrow> nat \<Rightarrow> world \<Rightarrow> bool" where
  "rx_wf sp x w \<longleftrightarrow> span_chan sp x < length (chans (w_sys w)) \<and>
     (\<exists>c. w_chan w (span_chan sp x) = Some c \<and> data_master (span_chan sp x) c)"

lemma w_chan_upd: "x < length (chans (w_sys w)) \<Longrightarrow> w_chan (w_upd x f w) y = (if y = x then map_option f (w_chan w y) else w_chan w y)"
  by (simp add: w_chan_def w_upd_def)

lemma w_upd_sel [simp]: "w_zones (w_upd x f w) = w_zones w" "length (chans (w_sys (w_upd x f w))) = length (chans (w_sys w))"
  by (simp_all add: w_upd_def)

lemma data_master_wires: "wires d = wires c \<Longrightarrow> data_master n d = data_master n c"
  by (simp add: wires_def data_master_def)

lemma tx_ready_writechunk [simp]: "tx_ready G (writechunk_update f c) = tx_ready G c"
  by (simp add: tx_ready_def bufs_ok_def slots_ok_def tx_room_def tx_slots_def tones_ok_def playing_def rx_slots_def)

lemma transmit_data:
  assumes c: "w_chan w n = Some c" "n < length (chans (w_sys w))" "data_master n c" "tx_ready (w_zones w) c"
  shows "\<exists>d c'. transmit_chunk E n w = Some (d, w_upd n (\<lambda>_. c') w) \<and> length d = 8 \<and> tx_ready (w_zones w) c' \<and> wires c' = wires c"
proof -
  obtain d c' where g: "getbuf_chunk (e_span E (chan_span c)) (w_zones w) c = Some (d, c')" "length d = 8" "tx_ready (w_zones w) c'"
    using tx_chunk_ok [OF c(4)] by blast
  have w: "wires c' = wires c" using wires_getbuf g(1) by (simp add: getbuf_chunk_def)
  have m: "nat (master c) = n" using c(3) by (simp add: data_master_def)
  have "data_master n c'" using data_master_wires [OF w] c(3) by simp
  then have "transmit_audio E n n d (w_upd n (\<lambda>_. c') w) = Some (d, w_upd n (\<lambda>_. c') w)"
    using c(1,2) by (simp add: transmit_audio_def w_chan_upd data_master_def)
  then show ?thesis using g w m c(1) by (auto simp: transmit_chunk_def Let_def)
qed

interpretation tx: bundle_source "transmit_chunk E (span_chan sp x)" "put_slave sp" "look_tx sp" "tx_wf sp x Z" Z for E sp x Z
proof
  fix w assume w: "tx_wf sp x Z w"
  let ?n = "span_chan sp x"
  obtain c where c: "w_chan w ?n = Some c" "?n < length (chans (w_sys w))" "data_master ?n c" "tx_ready (w_zones w) c"
    using w by (auto simp: tx_wf_def)
  obtain d c' where t: "transmit_chunk E ?n w = Some (d, w_upd ?n (\<lambda>_. c') w)" "length d = 8" "tx_ready (w_zones w) c'" "wires c' = wires c"
    using transmit_data [OF c] by blast
  have same: "\<exists>b'. w_chan (w_upd ?n (\<lambda>_. c') w) m = Some b' \<and> writechunk b' = writechunk b" if "w_chan w m = Some b" for m b
    using that c(1,2) t(4) by (auto simp: w_chan_upd wires_def)
  have m: "data_master ?n c'" using data_master_wires [OF t(4)] c(3) by simp
  have "tx_wf sp x Z (w_upd ?n (\<lambda>_. c') w)"
    unfolding tx_wf_def
  proof (intro conjI ballI)
    show "inj_on (span_chan sp) Z" using w by (simp add: tx_wf_def)
    show "?n < length (chans (w_sys (w_upd ?n (\<lambda>_. c') w)))" using c(2) by simp
    show "\<exists>d. w_chan (w_upd ?n (\<lambda>_. c') w) ?n = Some d \<and> data_master ?n d \<and> tx_ready (w_zones (w_upd ?n (\<lambda>_. c') w)) d"
      using c(1,2) t(3) m by (simp add: w_chan_upd)
  next
    fix z assume z: "z \<in> Z"
    then show "span_chan sp z < length (chans (w_sys (w_upd ?n (\<lambda>_. c') w)))" using w by (simp add: tx_wf_def)
    obtain b where b: "w_chan w (span_chan sp z) = Some b" "length (writechunk b) = 8" using w z by (auto simp: tx_wf_def)
    show "\<exists>c. w_chan (w_upd ?n (\<lambda>_. c') w) (span_chan sp z) = Some c \<and> length (writechunk c) = 8"
      using same [OF b(1)] b(2) by auto
  qed
  moreover have "look_tx sp z y (w_upd ?n (\<lambda>_. c') w) = look_tx sp z y w" if "z \<in> Z" for z y
  proof -
    obtain b where b: "w_chan w (span_chan sp z) = Some b" using w \<open>z \<in> Z\<close> by (auto simp: tx_wf_def)
    then show ?thesis using same [OF b] by (auto simp: look_tx_def)
  qed
  ultimately show "\<exists>d w'. transmit_chunk E ?n w = Some (d, w') \<and> length d = 8 \<and> tx_wf sp x Z w' \<and>
      (\<forall>z \<in> Z. \<forall>y < 8. look_tx sp z y w' = look_tx sp z y w)"
    using t(1,2) by blast
next
  fix w z y b assume w: "tx_wf sp x Z w" and z: "z \<in> Z" "y < (8::nat)"
  have l: "span_chan sp z < length (chans (w_sys w))" using w z by (simp add: tx_wf_def)
  have u: "w_chan (put_slave sp z y b w) m = (if m = span_chan sp z then map_option (writechunk_update (\<lambda>bs. bs[y := b])) (w_chan w m)
      else w_chan w m)" for m
    using l by (simp add: put_slave_def w_chan_upd)
  have s: "w_zones (put_slave sp z y b w) = w_zones w" "length (chans (w_sys (put_slave sp z y b w))) = length (chans (w_sys w))"
    by (simp_all add: put_slave_def)
  have t: "tx_ready G (writechunk_update f c) = tx_ready G c" "data_master n (writechunk_update f c) = data_master n c" for f c G n
    by (simp_all add: data_master_def)
  show "tx_wf sp x Z (put_slave sp z y b w)"
    using w unfolding tx_wf_def u s by (auto simp: t split: if_split_asm)
  show "look_tx sp z' y' (put_slave sp z y b w) = (if z' = z \<and> y' = y then b else look_tx sp z' y' w)"
    if z': "z' \<in> Z" "y' < 8" for z' y'
  proof -
    obtain c where c: "w_chan w (span_chan sp z') = Some c" "length (writechunk c) = 8" using w z' by (auto simp: tx_wf_def)
    have "span_chan sp z' = span_chan sp z \<longleftrightarrow> z' = z" using w z z' by (auto simp: tx_wf_def inj_on_def)
    then show ?thesis using c z by (auto simp: look_tx_def u nth_upd)
  qed
qed

interpretation rx: bundle_sink "bundle_send E sp x" "look_slave sp" "rx_wf sp x" for E sp x
proof
  fix w d w' z y assume w: "rx_wf sp x w" and s: "bundle_send E sp x d w = Some w'"
  let ?n = "span_chan sp x"
  obtain c where c: "w_chan w ?n = Some c" "?n < length (chans (w_sys w))" "data_master ?n c" using w by (auto simp: rx_wf_def)
  show "rx_wf sp x w' \<and> look_slave sp z y w' = look_slave sp z y w"
  proof (cases "flagged c FLAGBIT_NOSTDTXRX")
    case True
    then show ?thesis using s w c(1) by (simp add: bundle_send_def)
  next
    case False
    have a: "receive_audio E ?n (nat (master c)) d w = Some (d, w)" "nat (master c) = ?n"
      using c by (simp_all add: receive_audio_def data_master_def)
    obtain c' where p: "putbuf_chunk (e_fcs E) (e_span E (chan_span c)) False d c = Some c'" "w' = w_upd ?n (\<lambda>_. c') w"
      using s False c(1) a by (auto simp: bundle_send_def receive_chunk_def Let_def split: option.splits)
    have wi: "wires c' = wires c" using p(1) wires_putbuf by (simp add: putbuf_chunk_def)
    have "rx_wf sp x w'" using c p(2) data_master_wires [OF wi] by (simp add: rx_wf_def w_chan_upd)
    moreover have "look_slave sp z y w' = look_slave sp z y w"
      using c(1,2) wi by (simp add: look_slave_def p(2) w_chan_upd wires_def split: option.split)
    ultimately show ?thesis by simp
  qed
qed


section \<open>Chains\<close>

lemma slave_chain_nonempty: "slave_chain f look z = Some a \<Longrightarrow> 0 < length a"
  by (subst (asm) slave_chain.simps) (auto split: option.splits if_splits nat.splits)

lemma slave_chain_unique: "slave_chain f look z = Some a \<Longrightarrow> slave_chain g look z = Some b \<Longrightarrow> a = b"
proof (induction f arbitrary: z a b g)
  case 0
  then show ?case by (simp add: slave_chain.simps)
next
  case (Suc f)
  show ?case
  proof (cases g)
    case 0
    then show ?thesis using Suc.prems(2) by (simp add: slave_chain.simps)
  next
    case (Suc h)
    then show ?thesis using Suc.prems Suc.IH
      by (subst (asm) (1 2) slave_chain.simps) (fastforce split: option.splits if_splits)
  qed
qed

lemma slave_chain_suffix:
  "slave_chain f look z = Some a \<Longrightarrow> y \<in> set a \<Longrightarrow> \<exists>g pre suf. a = pre @ suf \<and> slave_chain g look y = Some suf"
proof (induction f arbitrary: z a)
  case 0
  then show ?case by (simp add: slave_chain.simps)
next
  case (Suc f)
  show ?case
  proof (cases "y = z")
    case True
    then show ?thesis using Suc.prems(1) by (intro exI [of _ "Suc f"] exI [of _ "[]"] exI [of _ a]) simp
  next
    case False
    then obtain c a' where c: "look z = Some c" "a = z # a'" "y \<in> set a'" "slave_chain f look (nat (nextslave c)) = Some a'"
      using Suc.prems by (subst (asm) slave_chain.simps) (auto split: option.splits if_splits)
    from Suc.IH [OF c(4,3)] obtain g pre suf where "a' = pre @ suf" "slave_chain g look y = Some suf" by blast
    then show ?thesis using c(2) by (intro exI [of _ g] exI [of _ "z # pre"] exI [of _ suf]) simp
  qed
qed

text \<open>A chain that ends has no place twice: it would repeat for ever.\<close>

lemma slave_chain_distinct: "slave_chain f look z = Some a \<Longrightarrow> distinct a"
proof (induction f arbitrary: z a)
  case 0
  then show ?case by (simp add: slave_chain.simps)
next
  case (Suc f)
  show ?case
  proof (cases "tl a = []")
    case True
    then show ?thesis using Suc.prems by (cases a) auto
  next
    case False
    then obtain y a' where c: "a = z # a'" "slave_chain f look y = Some a'"
      using Suc.prems by (auto simp: slave_chain.simps [of "Suc f"] split: option.splits if_splits)
    have "z \<notin> set a'"
    proof
      assume "z \<in> set a'"
      then obtain g pre suf where "a' = pre @ suf" "slave_chain g look z = Some suf" using slave_chain_suffix [OF c(2)] by blast
      then have "a = suf" using slave_chain_unique [OF Suc.prems] by blast
      then show False using c(1) \<open>a' = pre @ suf\<close> by simp
    qed
    then show ?thesis using Suc.IH [OF c(2)] c(1) by simp
  qed
qed

lemma bundle_order_props:
  "distinct chain \<Longrightarrow> distinct (bundle_order chain)" "set (bundle_order chain) = {(y, z). y < 8 \<and> z \<in> set chain}"
  "length (bundle_order chain) = 8 * length chain"
proof -
  show "set (bundle_order chain) = {(y, z). y < 8 \<and> z \<in> set chain}" by (auto simp: bundle_order_def)
  show "length (bundle_order chain) = 8 * length chain"
    by (simp add: bundle_order_def length_concat comp_def sum_list_triv)
  assume d: "distinct chain"
  have "distinct (concat (map (\<lambda>y. map (\<lambda>z. (y, z)) chain) ys))" if "distinct ys" for ys :: "nat list"
    using that d by (induction ys) (auto simp: distinct_map inj_on_def)
  then show "distinct (bundle_order chain)" by (simp only: bundle_order_def distinct_upt)
qed

lemma bundle_order_map:
  assumes "length chain2 = length chain" "\<And>i y. i < length chain \<Longrightarrow> y < 8 \<Longrightarrow> f y (chain2 ! i) = g y (chain ! i)"
  shows "map (\<lambda>(y, z). f y z) (bundle_order chain2) = map (\<lambda>(y, z). g y z) (bundle_order chain)"
proof -
  have "map (f y) chain2 = map (g y) chain" if "y < 8" for y
    using assms that by (intro nth_equalityI) simp_all
  then have "map (\<lambda>y. map (f y) chain2) [0..<8] = map (\<lambda>y. map (g y) chain) [0..<8]" by (intro map_cong [OF refl]) simp
  then show ?thesis by (simp only: bundle_order_def map_concat map_map comp_def prod.case)
qed

text \<open>C8. A bundle carries its data. Take a bundle of channels that are in the table, each at a place of its own with a chunk of eight bytes,
  whose master is an open data channel: without audio or monitoring and not MTP2, with whole buffers, its tones in order
  and at most 255 digits to dial, as C18 gives for every state of the zones. The master hands out as many chunks as the
  bundle has channels, their bytes are spread over the channels of the bundle byte by byte, and where a bundle of as many
  channels with a data channel as its master receives what those channels sent, the master there gets exactly these chunks in this order
  (\<open>logged\<close> records the chunks that \<open>__dahdi_getbuf_chunk\<close> delivers).\<close>

theorem bundle_roundtrip:
  assumes c: "chain_at sp x w = Some chain" and w: "tx_wf sp x (set chain) w"
    and c2: "chain_at sp2 x2 v = Some chain2" "length chain2 = length chain" and v: "rx_wf sp2 x2 v"
  shows "\<exists>w' Ds. transmit_bundle E sp x w = Some w' \<and>
    spread (logged (transmit_chunk E (span_chan sp x))) (on_fst (put_slave sp)) (bundle_order chain) (replicate 8 0) 8 (w, []) = Some (w', Ds) \<and>
    length Ds = length chain \<and>
    ((\<forall>i < length chain. \<forall>y < 8. look_slave sp2 (chain2 ! i) y v = look_tx sp (chain ! i) y w') \<longrightarrow>
       receive_bundle E2 sp2 x2 v = sends (bundle_send E2 sp2 x2) Ds v)"
proof -
  have d: "distinct chain" using c slave_chain_distinct by (simp add: chain_at_def)
  have n: "0 < length chain" using c slave_chain_nonempty by (simp add: chain_at_def)
  have p: "set (bundle_order chain) \<subseteq> tx.places (set chain)" by (simp add: tx.places_def bundle_order_props)
  let ?tx = "transmit_chunk E (span_chan sp x)" and ?o = "bundle_order chain"
  have "\<exists>w' Ds. spread (logged ?tx) (on_fst (put_slave sp)) ?o (replicate 8 0) 8 (w, []) = Some (w', [] @ Ds) \<and>
      spread ?tx (put_slave sp) ?o (replicate 8 0) 8 w = Some w' \<and>
      tx_wf sp x (set chain) w' \<and> (\<forall>d \<in> set Ds. length d = 8) \<and> length Ds = (length ?o + 8 - 1) div 8 \<and>
      map (\<lambda>(y, z). look_tx sp z y w') ?o = take (length ?o) (drop 8 (replicate 8 0) @ concat Ds) \<and>
      (\<forall>y z. (y, z) \<in> tx.places (set chain) \<and> (y, z) \<notin> set ?o \<longrightarrow> look_tx sp z y w' = look_tx sp z y w)"
    by (rule tx.spread_carries [OF w bundle_order_props(1) [OF d] p]) simp_all
  then obtain w' Ds where s: "spread (logged ?tx) (on_fst (put_slave sp)) ?o (replicate 8 0) 8 (w, []) = Some (w', [] @ Ds)"
    "spread ?tx (put_slave sp) ?o (replicate 8 0) 8 w = Some w'"
    "\<forall>d \<in> set Ds. length d = 8" "length Ds = (length ?o + 8 - 1) div 8"
    "map (\<lambda>(y, z). look_tx sp z y w') ?o = take (length ?o) (drop 8 (replicate 8 0) @ concat Ds)"
    by (elim exE conjE) (rule that, assumption+)
  have l: "length Ds = length chain" using s(4) n by (simp add: bundle_order_props)
  have "length (concat Ds) = 8 * length Ds" using s(3) by (induction Ds) auto
  then have b: "map (\<lambda>(y, z). look_tx sp z y w') (bundle_order chain) = concat Ds"
    using s(5) l by (simp add: bundle_order_props)
  have "receive_bundle E2 sp2 x2 v = sends (bundle_send E2 sp2 x2) Ds v"
    if "\<forall>i < length chain. \<forall>y < 8. look_slave sp2 (chain2 ! i) y v = look_tx sp (chain ! i) y w'"
  proof -
    have "map (\<lambda>(y, z). look_slave sp2 z y v) (bundle_order chain2) = concat Ds"
      using bundle_order_map [OF c2(2), of "\<lambda>y z. look_slave sp2 z y v" "\<lambda>y z. look_tx sp z y w'"] that b by simp
    then show ?thesis
      using rx.collect_sends [OF v, of "replicate 8 0" 0 "bundle_order chain2" Ds E2] s(3) c2(1)
      by (simp add: receive_bundle_def)
  qed
  moreover have "transmit_bundle E sp x w = Some w'" using s(2) c by (simp add: transmit_bundle_def)
  ultimately show ?thesis using s(1) l by auto
qed

text \<open>A bundle of the two channels of a span whose master plays a tone of a loaded zone, and the same bundle at the other end.\<close>

definition bundle_chan :: "int \<Rightarrow> dahdi_chan" where
  "bundle_chan nxt = voice_ex\<lparr>confmode := 0, master := 1, nextslave := nxt, writechunk := replicate 8 0\<rparr>"

definition bundle_world :: world where
  "bundle_world = \<lparr>w_sys = conf_sys0\<lparr>chans := (replicate 1024 None)[1 := Some (bundle_chan 1), 2 := Some (bundle_chan 0)]\<rparr>,
     w_sums = sums0, w_zones = globals_ex, w_timers = []\<rparr>"

definition bundle_span :: dahdi_span where
  "bundle_span = span0\<lparr>sp_chans := [1, 2]\<rparr>"

lemma bundle_world_facts:
  "chain_at bundle_span 0 bundle_world = Some [0, 1]" "tx_wf bundle_span 0 (set [0, 1]) bundle_world"
  "rx_wf bundle_span 0 bundle_world"
proof -
  have w: "w_chan bundle_world (Suc 0) = Some (bundle_chan 1)" "w_chan bundle_world 2 = Some (bundle_chan 0)"
    "length (chans (w_sys bundle_world)) = 1024" "w_zones bundle_world = globals_ex"
    by (simp_all add: w_chan_def bundle_world_def)
  have s: "span_chan bundle_span 0 = 1" "span_chan bundle_span (Suc 0) = 2" "length (sp_chans bundle_span) = 2"
    by (simp_all add: span_chan_def bundle_span_def)
  have n: "nextslave (bundle_chan i) = i" "length (writechunk (bundle_chan i)) = 8" "data_master 1 (bundle_chan i)" for i
    by (simp_all add: bundle_chan_def data_master_def voice_ex_def)
  have t: "tx_ready globals_ex (bundle_chan 1)" using voice_ex_ready
    by (simp add: bundle_chan_def tx_ready_def bufs_ok_def slots_ok_def tx_room_def tx_slots_def tones_ok_def playing_def)
  show "chain_at bundle_span 0 bundle_world = Some [0, 1]"
    using w s n by (simp add: chain_at_def slave_chain.simps numeral_2_eq_2)
  show "tx_wf bundle_span 0 (set [0, 1]) bundle_world" using w s n t by (simp add: tx_wf_def inj_on_def)
  show "rx_wf bundle_span 0 bundle_world" using w s n by (simp add: rx_wf_def)
qed

theorem bundle_roundtrip_witness:
  "\<exists>w'. transmit_bundle \<lparr>e_span = \<lambda>_. bundle_span, e_ops = \<lambda>_. ec_ops0, e_fcs = \<lambda>f b. 0\<rparr> bundle_span 0 bundle_world = Some w'"
  using bundle_roundtrip [OF bundle_world_facts(1) _ bundle_world_facts(1) refl bundle_world_facts(3)] bundle_world_facts(2) by blast

end
