(* ===== verification/Lifecycle.thy ===== *)
theory Lifecycle
  imports Span_Tick
begin

text \<open>
  The life of spans and channels in \<open>dahdi-base.c\<close>: registering and unregistering spans and their channels, the choice of the
  master span, alarms, and opening and closing of the device files (\<open>initialize_channel\<close>, \<open>close_channel\<close> and the dispatch of
  \<open>dahdi_open\<close> and \<open>dahdi_release\<close>). \<open>None\<close> is an access outside the table of channels.
\<close>

section \<open>The state\<close>

abbreviation (input) DAHDI_MAX_SPANS :: nat where "DAHDI_MAX_SPANS \<equiv> 128"
abbreviation (input) ALARM_LOOPBACK :: int where "ALARM_LOOPBACK \<equiv> 2"

text \<open>
  Spans are objects at addresses; \<open>spans\<close> is the table of those that are registered. The echo canceller factory in use on
  a channel, the one attached to it and the reference counts of the modules are as in \<open>Echocan\<close>.
\<close>

record dahdi_sys =
  sw :: world
  spans :: "int option list"
  maxspans :: nat
  master_span :: "int option"
  span_at :: "int \<Rightarrow> dahdi_span"
  ec_cur :: "nat \<Rightarrow> nat option"
  ec_fac :: "nat \<Rightarrow> nat option"
  sys_refs :: "nat \<Rightarrow> int"

definition the_chan :: "nat \<Rightarrow> dahdi_sys \<Rightarrow> dahdi_chan option" where
  "the_chan n S = w_chan (sw S) n"

definition set_chan :: "nat \<Rightarrow> dahdi_chan \<Rightarrow> dahdi_sys \<Rightarrow> dahdi_sys" where
  "set_chan n c S = S\<lparr>sw := w_upd n (\<lambda>_. c) (sw S)\<rparr>"

definition on_conf :: "(conf_sys \<Rightarrow> conf_sys) \<Rightarrow> dahdi_sys \<Rightarrow> dahdi_sys" where
  "on_conf f S = S\<lparr>sw := (sw S)\<lparr>w_sys := f (w_sys (sw S))\<rparr>\<rparr>"

definition on_zones :: "(tone_globals \<Rightarrow> tone_globals) \<Rightarrow> dahdi_sys \<Rightarrow> dahdi_sys" where
  "on_zones f S = S\<lparr>sw := (sw S)\<lparr>w_zones := f (w_zones (sw S))\<rparr>\<rparr>"

text \<open>The span of a channel; what is done with the one of a channel that has none does not depend on it.\<close>

definition span_of :: "dahdi_sys \<Rightarrow> dahdi_chan \<Rightarrow> dahdi_span" where
  "span_of S c = (case chan_span c of None \<Rightarrow> span0 | Some a \<Rightarrow> span_at S a)"

text \<open>A channel is in the table at a place, or not yet.\<close>

definition put_back :: "nat option \<Rightarrow> dahdi_chan \<Rightarrow> dahdi_sys \<Rightarrow> dahdi_sys" where
  "put_back p c S = (case p of None \<Rightarrow> S | Some n \<Rightarrow> set_chan n c S)"

section \<open>Closing a channel\<close>

text \<open>\<open>close_channel\<close> before, and after, the conference of the channel is released; \<open>drv\<close> is the result of the driver's \<open>sethook\<close>.\<close>

definition close_first :: "dahdi_span \<Rightarrow> int \<Rightarrow> dahdi_chan \<Rightarrow> dahdi_chan" where
  "close_first span drv c =
     (let c = (if flagged c FLAGBIT_NOSTDTXRX then c else snd (dahdi_reallocbufs True True 0 0 c));
          c = c\<lparr>ec_state := None, readchunkpreec := None, curtone := None, curzone := None, cadencepos := 0, pdialcount := 0\<rparr>;
          c = snd (dahdi_hangup span drv c)
      in c\<lparr>itimerset := 0, itimer := 0, pulsecount := 0, pulsetimer := 0, ringdebtimer := 0, txdialbuf := [],
           digitmode := DIGIT_MODE_DTMF, dialing := 0, afterdialingtimer := 0, iomask := 0\<rparr>)"

definition zero_chunks :: "dahdi_chan \<Rightarrow> dahdi_chan" where
  "zero_chunks c = c\<lparr>conflast := replicate 8 0, conflast1 := replicate 8 0, conflast2 := replicate 8 0\<rparr>"

definition default_gains :: "dahdi_chan \<Rightarrow> dahdi_chan" where
  "default_gains c = c\<lparr>rxgain := id, txgain := id, gainalloc := False\<rparr>"

definition reset_conf :: "dahdi_chan \<Rightarrow> dahdi_chan" where
  "reset_conf c = c\<lparr>confin := reset_confq (confin c), confout := reset_confq (confout c)\<rparr>"

definition close_last :: "(int \<Rightarrow> dahdi_span) \<Rightarrow> dahdi_span \<Rightarrow> int \<Rightarrow> dahdi_chan \<Rightarrow> dahdi_chan" where
  "close_last at span oldconf c =
     (let c = default_gains (reset_conf (c\<lparr>gotgs := False\<rparr>));
          c = c\<lparr>evring := flush_q (evring c)\<rparr>;
          c = clear_flag FLAGBIT_LOOPED (clear_flag FLAGBIT_LINEAR (clear_flag FLAGBIT_PPP (clear_flag FLAGBIT_SIGFREEZE c)));
          c = zero_chunks (dahdi_set_law at 0 c)
      in if chan_span c \<noteq> None \<and> has_dacs span \<and> oldconf \<noteq> 0 then emit (SpanDacs None) c else c)"

definition close_channel :: "int \<Rightarrow> nat option \<Rightarrow> nat option \<Rightarrow> dahdi_chan \<Rightarrow> dahdi_sys \<Rightarrow> dahdi_chan \<times> dahdi_sys" where
  "close_channel drv p cur c S =
     (let span = span_of S c; had_ec = ec_state c \<noteq> None; oldconf = confna c;
          S = on_zones (\<lambda>G. fst (release_tone_zone G c)) S;
          c = close_conf_fields (close_first span drv c);
          S = put_back p c S;
          S = (if oldconf \<noteq> 0 then on_conf (check_conf oldconf) S else S);
          c = close_last (span_at S) span oldconf c;
          S = put_back p c S;
          S = (if had_ec then S\<lparr>sys_refs := release_echocan cur (sys_refs S)\<rparr> else S);
          S = (case p of None \<Rightarrow> S | Some n \<Rightarrow> S\<lparr>ec_cur := (ec_cur S)(n := None)\<rparr>)
      in (c, S))"

section \<open>Initialising a channel that is opened\<close>

definition init_rbs :: "dahdi_chan \<Rightarrow> dahdi_chan" where
  "init_rbs c =
     c\<lparr>prewinktime := 50, preflashtime := 50, winktime := 150, flashtime := 750,
       starttime := (if sig c AND SIG_MASK_FXO \<noteq> 0 then 2000 else 1500), rxwinktime := 300, rxflashtime := 1250,
       debouncetime := 600, pulsemaketime := 50, pulsebreaktime := 50, pulseaftertime := 750,
       itimerset := 0, itimer := 0, otimer := 0, ringdebtimer := 0\<rparr>"

definition init_first :: "dahdi_chan \<Rightarrow> dahdi_chan" where
  "init_first c =
     (let mode = (if flagged c FLAGBIT_HDLC56 then FASTHDLC_MODE_56 else FASTHDLC_MODE_64);
          c = c\<lparr>rxbufpolicy := POLICY_IMMEDIATE, txbufpolicy := POLICY_IMMEDIATE, ec_state := None, txdisable := False,
                rxdisable := False, digitmode := DIGIT_MODE_DTMF, dialing := 0, afterdialingtimer := 0, cadencepos := 0,
                firstcadencepos := 0, rxhdlc := fasthdlc_init mode, txhdlc := fasthdlc_init mode, infcs := PPP_INITFCS\<rparr>
      in reset_conf (init_rbs c)\<lparr>iomask := 0\<rparr>)"

definition init_conf :: "dahdi_span \<Rightarrow> dahdi_chan \<Rightarrow> dahdi_chan" where
  "init_conf span c =
     (if sig c AND SIG_MASK_DACS \<noteq> SIG_MASK_DACS then
        let c = c\<lparr>confna := 0, confmode := 0\<rparr> in if chan_span c \<noteq> None \<and> has_dacs span then emit (SpanDacs None) c else c
      else c)\<lparr>confn := 0\<rparr>"

definition init_flags :: "dahdi_chan \<Rightarrow> dahdi_chan" where
  "init_flags c =
     (let c = (if sig c AND SIG_CLEAR \<noteq> 0 \<or> sig c AND SIG_HARDHDLC \<noteq> 0 then clear_flag FLAGBIT_AUDIO c else c);
          c = (if sig c = SIG_CLEAR \<or> sig c = SIG_HARDHDLC
               then clear_flag FLAGBIT_PPP (clear_flag FLAGBIT_FCS (clear_flag FLAGBIT_HDLC c)) else c)
      in clear_flag FLAGBIT_LINEAR c)"

definition init_cadence :: "tone_globals \<Rightarrow> dahdi_chan \<Rightarrow> dahdi_chan" where
  "init_cadence G c =
     c\<lparr>ringcadence := (case curzone c of
          Some a \<Rightarrow> (case zone_at G a of Some z \<Rightarrow> zone_cadence z | None \<Rightarrow> ringcadence c)
        | None \<Rightarrow> (replicate 16 0)[0 := starttime c, 1 := 4000])\<rparr>"

definition init_last :: "(int \<Rightarrow> dahdi_span) \<Rightarrow> dahdi_span \<Rightarrow> int \<Rightarrow> tone_globals \<Rightarrow> dahdi_chan \<Rightarrow> dahdi_chan" where
  "init_last at span drv G c =
     (let c = default_gains ((zero_chunks c)\<lparr>confmute := 0, gotgs := False, curtone := None, tonep := 0, pdialcount := 0\<rparr>);
          c = dahdi_set_law at 0 (c\<lparr>evring := flush_q (evring c)\<rparr>);
          c = snd (dahdi_hangup span drv c)
      in init_cadence G (init_flags c))"

text \<open>\<open>kz1\<close>, \<open>kz2\<close>: whether the buffers can be allocated.\<close>

definition initialize_channel :: "bool \<Rightarrow> bool \<Rightarrow> int \<Rightarrow> nat \<Rightarrow> dahdi_chan \<Rightarrow> dahdi_sys \<Rightarrow> int \<times> dahdi_sys" where
  "initialize_channel kz1 kz2 drv n c S =
     (let (res, c) = dahdi_reallocbufs kz1 kz2 1024 2 c
      in if res \<noteq> 0 then (res, S)
         else
           let span = span_of S c; had_ec = ec_state c \<noteq> None; cur = ec_cur S n;
               c = init_first c;
               S = set_chan n c S;
               S = (if confna c \<noteq> 0 then on_conf (check_conf (confna c)) S else S);
               c = init_last (span_at S) span drv (w_zones (sw S)) (init_conf span c);
               S = S\<lparr>ec_cur := (ec_cur S)(n := None)\<rparr>;
               S = (if had_ec then S\<lparr>sys_refs := release_echocan cur (sys_refs S)\<rparr> else S);
               (_, G, c) = set_tone_zone (-1) (w_zones (sw S)) c
           in (0, set_chan n c (on_zones (\<lambda>_. G) S)))"

section \<open>Opening and releasing a channel\<close>

text \<open>
  What the outside does: allocations, the result of the driver's \<open>sethook\<close>, and its \<open>open\<close> and \<open>close\<close> with their
  results, when it has them.
\<close>

record open_env =
  oe_kz1 :: bool
  oe_kz2 :: bool
  oe_drv :: int
  oe_open :: "int option"
  oe_close :: "int option"

definition dahdi_specchan_open :: "open_env \<Rightarrow> bool \<Rightarrow> int \<Rightarrow> dahdi_sys \<Rightarrow> (int \<times> dahdi_sys) option" where
  "dahdi_specchan_open E nonblock unit S =
     (case chan_at (w_sys (sw S)) unit of
        None \<Rightarrow> None
      | Some None \<Rightarrow> Some (- ENXIO, S)
      | Some (Some c) \<Rightarrow>
          let n = nat unit in
          if sig c = 0 then Some (- ENXIO, S)
          else if flagged c FLAGBIT_NETDEV then Some (- EBUSY, S)
          else if master c \<noteq> unit then Some (- EBUSY, S)
          else if sig c AND SIG_MASK_DACS = SIG_MASK_DACS then Some (- EBUSY, S)
          else if flagged c FLAGBIT_OPEN then Some (- EBUSY, S)
          else
            let c = set_flag FLAGBIT_OPEN c; (res, S) = initialize_channel (oe_kz1 E) (oe_kz2 E) (oe_drv E) n c (set_chan n c S)
            in if res \<noteq> 0 then Some (res, set_chan n (clear_flag FLAGBIT_OPEN c) S)
               else
                 case the_chan n S of
                   None \<Rightarrow> None
                 | Some c \<Rightarrow>
                     let c = (if flagged c FLAGBIT_PSEUDO then set_flag FLAGBIT_AUDIO c else c);
                         res = (if chan_span c \<noteq> None then case oe_open E of None \<Rightarrow> 0 | Some r \<Rightarrow> r else 0)
                     in if res = 0 then Some (0, set_chan n (c\<lparr>chan_file := Some nonblock\<rparr>) S)
                        else
                          let (c, S) = close_channel (oe_drv E) (Some n) (ec_cur S n) c S
                          in Some (res, set_chan n (clear_flag FLAGBIT_OPEN c) S))"

definition dahdi_specchan_release :: "open_env \<Rightarrow> int \<Rightarrow> dahdi_sys \<Rightarrow> (int \<times> dahdi_sys) option" where
  "dahdi_specchan_release E unit S =
     (case chan_at (w_sys (sw S)) unit of
        None \<Rightarrow> None
      | Some None \<Rightarrow> Some (- ENXIO, S)
      | Some (Some c) \<Rightarrow>
          let n = nat unit;
              (c, S) = close_channel (oe_drv E) (Some n) (ec_cur S n) (c\<lparr>chan_file := None\<rparr>) S;
              res = (if chan_span c \<noteq> None then case oe_close E of None \<Rightarrow> 0 | Some r \<Rightarrow> r else 0)
          in Some (res, set_chan n (clear_flag FLAGBIT_OPEN c) S))"

section \<open>Registering channels\<close>

text \<open>
  The number the channel got, 0 for one the table has no place for. The channel of a driver is a new object: no echo canceller
  is attached to it.
\<close>

definition dahdi_chan_reg :: "int \<Rightarrow> dahdi_chan \<Rightarrow> dahdi_sys \<Rightarrow> int \<times> nat \<times> dahdi_sys" where
  "dahdi_chan_reg drv c S =
     (let (c, S) = close_channel drv None None (dahdi_set_law (span_at S) 0 c) S
      in case List.find (\<lambda>x. the_chan x S = None) [1..<DAHDI_MAX_CHANNELS] of
           None \<Rightarrow> (- ENOMEM, 0, S)
         | Some x \<Rightarrow>
             let S = on_conf (\<lambda>s. snd (register_chan (if master c = 0 then c\<lparr>master := int x\<rparr> else c) s)) S
             in (0, x, S\<lparr>ec_cur := (ec_cur S)(x := None), ec_fac := (ec_fac S)(x := None)\<rparr>))"

definition chan_unreg :: "nat \<Rightarrow> dahdi_sys \<Rightarrow> dahdi_sys" where
  "chan_unreg n S =
     (let c = (case the_chan n S of None \<Rightarrow> chan0 | Some c \<Rightarrow> c);
          S = S\<lparr>sys_refs := release_echocan (ec_fac S n) (sys_refs S)\<rparr>;
          dacs_of = (\<lambda>a. if has_dacs (span_at S a) then Some 0 else None)
      in on_conf (\<lambda>s. snd (dahdi_chan_unreg dacs_of c s)) S)"

section \<open>Registering spans\<close>

text \<open>The registration of the channels of a span gives their numbers.\<close>

fun reg_chans :: "int \<Rightarrow> int \<Rightarrow> dahdi_chan list \<Rightarrow> dahdi_sys \<Rightarrow> nat list \<times> dahdi_sys" where
  "reg_chans drv a [] S = ([], S)"
| "reg_chans drv a (c # cs) S =
     (let (_, n, S) = dahdi_chan_reg drv (c\<lparr>chan_span := Some a\<rparr>) S; (ns, S) = reg_chans drv a cs S in (n # ns, S))"

definition upd_span :: "int \<Rightarrow> (dahdi_span \<Rightarrow> dahdi_span) \<Rightarrow> dahdi_sys \<Rightarrow> dahdi_sys" where
  "upd_span a f S = S\<lparr>span_at := (span_at S)(a := f (span_at S a))\<rparr>"

abbreviation span_registered :: "dahdi_span \<Rightarrow> bool" where
  "span_registered sp \<equiv> bit (sp_flags sp) FLAGBIT_REGISTERED"

definition dahdi_register :: "int \<Rightarrow> int \<Rightarrow> dahdi_chan list \<Rightarrow> bool \<Rightarrow> dahdi_sys \<Rightarrow> int \<times> dahdi_sys" where
  "dahdi_register drv a cs prefmaster S =
     (if span_registered (span_at S a) then (- EBUSY, S)
      else if \<exists>x \<in> set [1..<maxspans S]. spans S ! x = Some a then (- EBUSY, S)
      else case List.find (\<lambda>x. spans S ! x = None) [1..<DAHDI_MAX_SPANS] of
        None \<Rightarrow> (- EBUSY, S)
      | Some x \<Rightarrow>
          let S = S\<lparr>spans := (spans S)[x := Some a], maxspans := (if maxspans S < x + 1 then x + 1 else maxspans S)\<rparr>;
              S = upd_span a (\<lambda>sp. sp\<lparr>sp_flags := sp_flags sp OR push_bit FLAGBIT_REGISTERED 1, spanno := int x,
                                       sp_deflaw := (if sp_deflaw sp = 0 then 1 else sp_deflaw sp)\<rparr>) S;
              (ns, S) = reg_chans drv a cs S;
              S = upd_span a (\<lambda>sp. sp\<lparr>sp_chans := map int ns\<rparr>) S
          in (0, if master_span S = None \<or> prefmaster then S\<lparr>master_span := Some a\<rparr> else S))"

text \<open>\<open>shut\<close> is what the driver's \<open>shutdown\<close> does to the span, if there is one.\<close>

definition dahdi_unregister :: "(dahdi_span \<Rightarrow> dahdi_span) \<Rightarrow> int \<Rightarrow> dahdi_sys \<Rightarrow> int \<times> dahdi_sys" where
  "dahdi_unregister shut a S =
     (if \<not> span_registered (span_at S a) then (- 1, S)
      else
        let S = (if bit (sp_flags (span_at S a)) FLAGBIT_RUNNING then upd_span a shut S else S); sp = span_at S a
        in if spans S ! nat (spanno sp) \<noteq> Some a then (- 1, S)
           else
             let S = S\<lparr>spans := (spans S)[nat (spanno sp) := None]\<rparr>;
                 S = upd_span a (\<lambda>sp. sp\<lparr>spanno := 0, sp_flags := sp_flags sp AND NOT (push_bit FLAGBIT_REGISTERED 1)\<rparr>) S;
                 S = fold (\<lambda>n. chan_unreg (nat n)) (sp_chans sp) S;
                 new_master = (if master_span S = Some a then None else master_span S);
                 used = filter (\<lambda>x. spans S ! x \<noteq> None) [1..<DAHDI_MAX_SPANS];
                 new_master = (if new_master = None then (case used of [] \<Rightarrow> None | x # _ \<Rightarrow> spans S ! x) else new_master);
                 new_maxspans = (case rev used of [] \<Rightarrow> 0 | x # _ \<Rightarrow> x + 1)
             in (0, S\<lparr>maxspans := new_maxspans, master_span := new_master\<rparr>))"

section \<open>Alarms\<close>

definition dahdi_alarm_channel :: "int \<Rightarrow> dahdi_chan \<Rightarrow> dahdi_chan" where
  "dahdi_alarm_channel alarms c =
     (if chan_alarms c \<noteq> alarms then qevent (if alarms \<noteq> 0 then EVENT_ALARM else EVENT_NOALARM) (c\<lparr>chan_alarms := alarms\<rparr>) else c)"

definition switch_master :: "dahdi_sys \<Rightarrow> dahdi_sys" where
  "switch_master S =
     (case List.find (\<lambda>x. case spans S ! x of None \<Rightarrow> False
         | Some a \<Rightarrow> sp_alarms (span_at S a) = 0 \<and> bit (sp_flags (span_at S a)) FLAGBIT_RUNNING) [1..<maxspans S] of
        None \<Rightarrow> S
      | Some x \<Rightarrow> S\<lparr>master_span := spans S ! x\<rparr>)"

text \<open>\<open>maint\<close>: whether a maintenance state or timer is set.\<close>

definition with_loopback :: "bool \<Rightarrow> int \<Rightarrow> int" where
  "with_loopback maint alarms = (let al = alarms AND NOT ALARM_LOOPBACK in if maint then al OR ALARM_LOOPBACK else al)"

definition dahdi_alarm_notify :: "bool \<Rightarrow> int \<Rightarrow> dahdi_sys \<Rightarrow> dahdi_sys" where
  "dahdi_alarm_notify maint a S =
     (let S = upd_span a (\<lambda>sp. sp\<lparr>sp_alarms := with_loopback maint (sp_alarms sp)\<rparr>) S;
          sp = span_at S a; al = sp_alarms sp
      in if (al = 0) \<noteq> (sp_lastalarms sp = 0) then
           let S = upd_span a (\<lambda>sp. sp\<lparr>sp_lastalarms := al\<rparr>) S;
               S = fold (\<lambda>n S. S\<lparr>sw := w_upd (nat n) (dahdi_alarm_channel al) (sw S)\<rparr>) (sp_chans sp) S
           in switch_master S
         else S)"

section \<open>The device files\<close>

definition can_open_timer :: "dahdi_sys \<Rightarrow> bool" where
  "can_open_timer S \<longleftrightarrow> maxspans S > 0"

definition dahdi_alloc_pseudo :: "bool \<Rightarrow> dahdi_sys \<Rightarrow> nat option \<times> dahdi_sys" where
  "dahdi_alloc_pseudo kz S =
     (if \<not> can_open_timer S \<or> \<not> kz then (None, S)
      else
        let c = chan0\<lparr>sig := SIG_CLEAR, sigcap := SIG_CLEAR, cflags := push_bit FLAGBIT_PSEUDO 1 OR push_bit FLAGBIT_AUDIO 1\<rparr>;
            (res, n, S) = dahdi_chan_reg 0 c S
        in (if res \<noteq> 0 then None else Some n, S))"

definition dahdi_free_pseudo :: "nat \<Rightarrow> dahdi_sys \<Rightarrow> dahdi_sys" where
  "dahdi_free_pseudo n S = chan_unreg n S"

datatype file_data = No_Data | Chan_Data int | Timer_Data nat

text \<open>
  \<open>dahdi_open\<close> of a minor number, with what \<open>private_data\<close> becomes; \<open>transcode\<close> is the result of the transcoder's open,
  \<open>kz\<close> whether a pseudo channel can be allocated and \<open>alloc\<close> the address of a new timer.
\<close>

definition dahdi_open :: "open_env \<Rightarrow> bool \<Rightarrow> int \<Rightarrow> bool \<Rightarrow> nat option \<Rightarrow> int \<Rightarrow> dahdi_sys \<Rightarrow> (int \<times> file_data \<times> dahdi_sys) option" where
  "dahdi_open E nonblock transcode kz alloc unit S =
     (if unit = 0 then Some (0, No_Data, S)
      else if unit = 250 then Some (transcode, No_Data, S)
      else if unit = 253 then
        (if can_open_timer S then
           (case dahdi_timing_open alloc (w_timers (sw S)) of
              (Inl e, _) \<Rightarrow> Some (e, No_Data, S)
            | (Inr t, tms) \<Rightarrow> Some (0, Timer_Data t, S\<lparr>sw := (sw S)\<lparr>w_timers := tms\<rparr>\<rparr>))
         else Some (- ENXIO, No_Data, S))
      else if unit = 254 then Some (0, No_Data, S)
      else if unit = 255 then
        (case dahdi_alloc_pseudo kz S of
           (None, S) \<Rightarrow> Some (- ENXIO, No_Data, S)
         | (Some n, S) \<Rightarrow> map_option (\<lambda>(r, S). (r, Chan_Data (int n), S)) (dahdi_specchan_open E nonblock (int n) S))
      else map_option (\<lambda>(r, S). (r, No_Data, S)) (dahdi_specchan_open E nonblock unit S))"

text \<open>\<open>DAHDI_SPECIFY\<close> on the file of minor 254.\<close>

definition dahdi_prechan_specify :: "open_env \<Rightarrow> bool \<Rightarrow> int \<Rightarrow> dahdi_sys \<Rightarrow> (int \<times> file_data \<times> dahdi_sys) option" where
  "dahdi_prechan_specify E nonblock k S =
     (if k < 1 \<or> k > int DAHDI_MAX_CHANNELS then Some (- EINVAL, No_Data, S)
      else map_option (\<lambda>(r, S). (r, if r = 0 then Chan_Data k else No_Data, S)) (dahdi_specchan_open E nonblock k S))"

text \<open>The number in \<open>Chan_Data\<close> is the one the channel has when the file is released: \<open>-1\<close> once it was unregistered.\<close>

definition dahdi_release :: "open_env \<Rightarrow> int \<Rightarrow> file_data \<Rightarrow> dahdi_sys \<Rightarrow> (int \<times> dahdi_sys) option" where
  "dahdi_release E unit d S =
     (if unit = 0 then Some (0, S)
      else if unit = 253 then
        (case d of Timer_Data t \<Rightarrow> Some (0, S\<lparr>sw := (sw S)\<lparr>w_timers := dahdi_timer_release t (w_timers (sw S))\<rparr>\<rparr>) | _ \<Rightarrow> Some (0, S))
      else if unit = 250 then Some (- EFAULT, S)
      else if unit = 254 then
        (case d of Chan_Data n \<Rightarrow> dahdi_specchan_release E n S | _ \<Rightarrow> Some (0, S))
      else if unit = 255 then
        (case d of Chan_Data n \<Rightarrow> map_option (\<lambda>(r, S). (r, dahdi_free_pseudo (nat n) S)) (dahdi_specchan_release E n S)
         | _ \<Rightarrow> Some (0, S))
      else dahdi_specchan_release E unit S)"


section \<open>What a channel is registered as\<close>

definition ident :: "dahdi_chan \<Rightarrow> int \<times> bool \<times> int option" where
  "ident c = (channo c, flagged c FLAGBIT_REGISTERED, chan_span c)"

lemma ident_upd [simp]:
  "ident (c\<lparr>chan_file := b1\<rparr>) = ident c" "ident (emit e c) = ident c" "ident (wake q c) = ident c"
  "F \<noteq> FLAGBIT_REGISTERED \<Longrightarrow> ident (set_flag F c) = ident c" "F \<noteq> FLAGBIT_REGISTERED \<Longrightarrow> ident (clear_flag F c) = ident c"
  by (simp_all add: ident_def emit_def wake_def flagged_set_flag flagged_clear_flag) (simp_all add: set_flag_def clear_flag_def)

lemma ident_qevent [simp]: "ident (qevent e c) = ident c"
proof -
  obtain ws where "qevent e c = c\<lparr>evring := qevent_q e (evring c), eff := eff c @ ws\<rparr>" using qevent_cases by blast
  then show ?thesis by (simp add: ident_def)
qed

lemma ident_reallocbufs [simp]: "ident (snd (dahdi_reallocbufs k1 k2 b n c)) = ident c"
  by (simp add: dahdi_reallocbufs_def Let_def ident_def)

lemma ident_sethook [simp]: "ident (dahdi_rbs_sethook span tsig st t c) = ident c"
  by (simp add: dahdi_rbs_sethook_def Let_def ident_def emit_def set_txtone_def split: option.split)

lemma ident_hangup [simp]: "ident (snd (dahdi_hangup span drv c)) = ident c"
proof -
  have r: "ident (c\<lparr>ringdebtimer := t\<rparr>) = ident c" "ident (c\<lparr>kewlonhook := b\<rparr>) = ident c" "ident (c\<lparr>txsig := t\<rparr>) = ident c"
    "ident (c\<lparr>txhooksig := t\<rparr>) = ident c" "ident (hangup_buffers c) = ident c" for c t b
    by (simp_all add: ident_def hangup_buffers_def Let_def)
  have h: "ident (snd (hangup_signal span drv c)) = ident c" for c
    by (simp add: hangup_signal_def dahdi_cas_setbits_def r)
  show ?thesis by (simp add: dahdi_hangup_def Let_def split_beta r h)
qed

lemma ident_set_law [simp]: "ident (dahdi_set_law at law c) = ident c"
  by (simp add: dahdi_set_law_def Let_def ident_def)

lemma ident_close [simp]: "ident (close_first span drv c) = ident c" "ident (close_conf_fields c) = ident c"
  "ident (close_last at span old c) = ident c"
proof -
  have u: "ident (c\<lparr>ec_state := None, readchunkpreec := None, curtone := None, curzone := None, cadencepos := 0, pdialcount := 0\<rparr>) = ident c"
    "ident (c\<lparr>itimerset := 0, itimer := 0, pulsecount := 0, pulsetimer := 0, ringdebtimer := 0, txdialbuf := [],
      digitmode := DIGIT_MODE_DTMF, dialing := 0, afterdialingtimer := 0, iomask := 0\<rparr>) = ident c"
    "ident (default_gains c) = ident c" "ident (reset_conf c) = ident c" "ident (zero_chunks c) = ident c"
    "ident (c\<lparr>gotgs := b\<rparr>) = ident c" "ident (c\<lparr>evring := q\<rparr>) = ident c" for c b q
    by (simp_all add: ident_def default_gains_def reset_conf_def zero_chunks_def)
  show "ident (close_first span drv c) = ident c" by (simp add: close_first_def Let_def u)
  show "ident (close_conf_fields c) = ident c" by (simp add: close_conf_fields_def Let_def ident_def)
  show "ident (close_last at span old c) = ident c" by (simp add: close_last_def Let_def u)
qed

lemma ident_init [simp]: "ident (init_first c) = ident c" "ident (init_conf span c) = ident c" "ident (init_last at span drv G c) = ident c"
proof -
  have u: "ident (default_gains c) = ident c" "ident (reset_conf c) = ident c" "ident (init_rbs c) = ident c"
    "ident (c\<lparr>evring := q\<rparr>) = ident c" "ident (init_cadence G c) = ident c" "ident (c\<lparr>iomask := i\<rparr>) = ident c"
    "ident ((zero_chunks c)\<lparr>confmute := 0, gotgs := False, curtone := None, tonep := 0, pdialcount := 0\<rparr>) = ident c" for c q i
    by (simp_all add: ident_def default_gains_def reset_conf_def zero_chunks_def init_rbs_def init_cadence_def)
  have f: "ident (init_flags c) = ident c" for c by (simp add: init_flags_def Let_def)
  show "ident (init_first c) = ident c" by (simp add: init_first_def Let_def u) (simp add: ident_def)
  show "ident (init_conf span c) = ident c" by (simp add: init_conf_def Let_def ident_def emit_def)
  show "ident (init_last at span drv G c) = ident c" by (simp add: init_last_def Let_def u f)
qed

lemma ident_set_tone_zone [simp]: "ident (snd (snd (set_tone_zone z G c))) = ident c"
  by (simp add: set_tone_zone_def Let_def ident_def split: option.split)

text \<open>The table of channels as the registry sees it.\<close>

definition idents :: "conf_sys \<Rightarrow> (int \<times> bool \<times> int option) option list" where
  "idents s = map (map_option ident) (chans s)"

lemma idents_upd: "(\<And>c. chans s ! n = Some c \<Longrightarrow> ident (f c) = ident c) \<Longrightarrow> idents (upd_chan n f s) = idents s"
  by (rule nth_equalityI, simp add: idents_def, cases "chans s ! n") (auto simp: idents_def)

lemma idents_check_conf [simp]: "idents (check_conf x s) = idents s"
  by (simp add: idents_def)

abbreviation sys_idents :: "dahdi_sys \<Rightarrow> (int \<times> bool \<times> int option) option list" where
  "sys_idents S \<equiv> idents (w_sys (sw S))"

text \<open>The spans as the registry sees them.\<close>

definition same_spans :: "dahdi_sys \<Rightarrow> dahdi_sys \<Rightarrow> bool" where
  "same_spans S T \<longleftrightarrow> spans T = spans S \<and> maxspans T = maxspans S \<and> master_span T = master_span S \<and> span_at T = span_at S"

lemma same_spans_trans: "same_spans A B \<Longrightarrow> same_spans B C \<Longrightarrow> same_spans A C"
  by (simp add: same_spans_def)

lemma same_spans_upd [simp]: "same_spans S (on_zones f S)" "same_spans S (on_conf g S)" "same_spans S (set_chan n c S)"
  "same_spans S (put_back p c S)" "same_spans S (S\<lparr>sys_refs := r\<rparr>)" "same_spans S (S\<lparr>ec_cur := m\<rparr>)" "same_spans S (S\<lparr>ec_fac := m\<rparr>)"
  "same_spans S (S\<lparr>sw := w\<rparr>)" "same_spans S S"
  by (simp_all add: same_spans_def on_zones_def on_conf_def set_chan_def put_back_def split: option.split)

lemma sw_upd [simp]: "sw (on_conf g S) = (sw S)\<lparr>w_sys := g (w_sys (sw S))\<rparr>" "sw (on_zones f S) = (sw S)\<lparr>w_zones := f (w_zones (sw S))\<rparr>"
  by (simp_all add: on_conf_def on_zones_def)

text \<open>A channel that is written back keeps its registration.\<close>

definition holds :: "nat option \<Rightarrow> dahdi_chan \<Rightarrow> dahdi_sys \<Rightarrow> bool" where
  "holds p c S \<longleftrightarrow> (\<forall>n. p = Some n \<longrightarrow> n < length (sys_idents S) \<and> sys_idents S ! n = Some (ident c))"

lemma idents_set_chan: "holds (Some n) c S \<Longrightarrow> sys_idents (set_chan n c S) = sys_idents S"
  by (auto simp: set_chan_def w_upd_def holds_def idents_def nth_list_update intro!: idents_upd [unfolded idents_def])

lemma idents_put_back: "holds p c S \<Longrightarrow> sys_idents (put_back p c S) = sys_idents S"
  by (cases p) (simp_all add: put_back_def idents_set_chan)


lemma holdsI: "holds p c S \<Longrightarrow> sys_idents T = sys_idents S \<Longrightarrow> ident d = ident c \<Longrightarrow> holds p d T"
  by (simp add: holds_def)

text \<open>An operation that changes neither the registration of spans nor that of channels.\<close>

definition unregistered :: "dahdi_sys \<Rightarrow> dahdi_sys \<Rightarrow> bool" where
  "unregistered S T \<longleftrightarrow> same_spans S T \<and> sys_idents T = sys_idents S"

lemma unregistered_trans: "unregistered A B \<Longrightarrow> unregistered B C \<Longrightarrow> unregistered A C"
  using same_spans_trans by (auto simp: unregistered_def)

lemma unregistered_refl [simp]: "unregistered S S"
  by (simp add: unregistered_def)

lemma unregistered_parts: "unregistered S (on_zones f S)" "unregistered S (on_conf (check_conf x) S)" "unregistered S (S\<lparr>sys_refs := r\<rparr>)"
  "unregistered S (S\<lparr>ec_cur := m\<rparr>)" "holds p c S \<Longrightarrow> unregistered S (put_back p c S)" "holds (Some n) c S \<Longrightarrow> unregistered S (set_chan n c S)"
  "(sys_idents (S\<lparr>sw := w\<rparr>) = sys_idents S) \<Longrightarrow> unregistered S (S\<lparr>sw := w\<rparr>)"
  by (simp_all add: unregistered_def idents_put_back idents_set_chan)

lemma holds_unregistered: "holds p c S \<Longrightarrow> unregistered S T \<Longrightarrow> ident d = ident c \<Longrightarrow> holds p d T"
  using holdsI by (simp add: unregistered_def)

lemma close_channel_registration:
  assumes "holds p c S" "close_channel drv p cur c S = (c', S')"
  shows "ident c' = ident c \<and> unregistered S S'"
proof -
  define A where "A = on_zones (\<lambda>G. fst (release_tone_zone G c)) S"
  define d where "d = close_conf_fields (close_first (span_of S c) drv c)"
  define B where "B = put_back p d A"
  define C where "C = (if confna c \<noteq> 0 then on_conf (check_conf (confna c)) B else B)"
  define e where "e = close_last (span_at C) (span_of S c) (confna c) d"
  define D where "D = put_back p e C"
  define F where "F = (if ec_state c \<noteq> None then D\<lparr>sys_refs := release_echocan cur (sys_refs D)\<rparr> else D)"
  have r: "c' = e" "S' = (case p of None \<Rightarrow> F | Some n \<Rightarrow> F\<lparr>ec_cur := (ec_cur F)(n := None)\<rparr>)"
    using assms(2) unfolding close_channel_def Let_def A_def [symmetric] d_def [symmetric] B_def [symmetric] C_def [symmetric]
      e_def [symmetric] D_def [symmetric] F_def [symmetric] by simp_all
  have i: "ident d = ident c" "ident e = ident c" by (simp_all add: d_def e_def)
  have a: "unregistered S A" by (simp add: A_def unregistered_parts)
  have b: "unregistered A B" using holds_unregistered [OF assms(1) a i(1)] by (simp add: B_def unregistered_parts)
  have c: "unregistered B C" by (simp add: C_def unregistered_parts)
  note abc = unregistered_trans [OF a unregistered_trans [OF b c]]
  have "unregistered C D" using holds_unregistered [OF assms(1) abc i(2)] by (simp add: D_def unregistered_parts)
  moreover have "unregistered D F" by (simp add: F_def unregistered_parts)
  moreover have "unregistered F S'" using r(2) by (simp add: unregistered_parts split: option.split)
  ultimately show ?thesis using unregistered_trans abc i(2) r(1) by blast
qed

lemma initialize_registration:
  assumes "holds (Some n) c S" "initialize_channel kz1 kz2 drv n c S = (res, S')"
  shows "unregistered S S'"
proof (cases "dahdi_reallocbufs kz1 kz2 1024 2 c")
  case (Pair r b)
  have b: "ident b = ident c" using ident_reallocbufs [of kz1 kz2 1024 2 c] Pair by simp
  show ?thesis
  proof (cases "r = 0")
    case False
    then show ?thesis using assms(2) Pair by (simp add: initialize_channel_def)
  next
    case True
    define d where "d = init_first b"
    define A where "A = set_chan n d S"
    define B where "B = (if confna d \<noteq> 0 then on_conf (check_conf (confna d)) A else A)"
    define e where "e = init_last (span_at B) (span_of S b) drv (w_zones (sw B)) (init_conf (span_of S b) d)"
    define C where "C = B\<lparr>ec_cur := (ec_cur B)(n := None)\<rparr>"
    define D where "D = (if ec_state b \<noteq> None then C\<lparr>sys_refs := release_echocan (ec_cur S n) (sys_refs C)\<rparr> else C)"
    obtain z G f where z: "set_tone_zone (-1) (w_zones (sw D)) e = (z, G, f)" by (metis prod_cases3)
    have r: "S' = set_chan n f (on_zones (\<lambda>_. G) D)"
      using assms(2) True unfolding initialize_channel_def Pair Let_def prod.case d_def [symmetric] A_def [symmetric] B_def [symmetric]
        e_def [symmetric] C_def [symmetric] D_def [symmetric] z by simp
    have i: "ident d = ident c" "ident e = ident c" using b by (simp_all add: d_def e_def)
    have f: "ident f = ident c" using ident_set_tone_zone [of "-1" "w_zones (sw D)" e] z i(2) by simp
    have "unregistered S A" using holdsI [OF assms(1) refl i(1)] by (simp add: A_def unregistered_parts)
    moreover have "unregistered A B" by (simp add: B_def unregistered_parts)
    moreover have "unregistered B C" by (simp add: C_def unregistered_parts)
    moreover have "unregistered C D" by (simp add: D_def unregistered_parts)
    ultimately have u: "unregistered S D" using unregistered_trans by blast
    have v: "unregistered S (on_zones (\<lambda>_. G) D)" using unregistered_trans [OF u unregistered_parts(1)] .
    then show ?thesis using unregistered_trans [OF v unregistered_parts(6)] holds_unregistered [OF assms(1) v f] by (simp add: r)
  qed
qed

lemma holds_at: "chan_at (w_sys (sw S)) u = Some (Some c) \<Longrightarrow> length (sys_idents S) = 1024 \<Longrightarrow> ident d = ident c \<Longrightarrow> holds (Some (nat u)) d S"
  by (auto simp: holds_def chan_at_def idents_def split: if_splits)

lemma holds_the_chan: "the_chan n S = Some c \<Longrightarrow> n < length (sys_idents S) \<Longrightarrow> ident d = ident c \<Longrightarrow> holds (Some n) d S"
  by (simp add: holds_def the_chan_def w_chan_def idents_def)

lemma specchan_release_registration:
  assumes len: "length (sys_idents S) = 1024" and r: "dahdi_specchan_release E u S = Some (r, S')"
  shows "unregistered S S'"
proof (cases "chan_at (w_sys (sw S)) u")
  case (Some co)
  show ?thesis
  proof (cases co)
    case None
    then show ?thesis using r Some by (simp add: dahdi_specchan_release_def)
  next
    case c: (Some c)
    obtain d T where d: "close_channel (oe_drv E) (Some (nat u)) (ec_cur S (nat u)) (c\<lparr>chan_file := None\<rparr>) S = (d, T)" by fastforce
    have h: "holds (Some (nat u)) (c\<lparr>chan_file := None\<rparr>) S" using holds_at len Some c by simp
    note k = close_channel_registration [OF h d]
    have "S' = set_chan (nat u) (clear_flag FLAGBIT_OPEN d) T" using r Some c d by (simp add: dahdi_specchan_release_def Let_def)
    moreover have "holds (Some (nat u)) (clear_flag FLAGBIT_OPEN d) T" using holds_unregistered [OF h] k by simp
    ultimately show ?thesis using k unregistered_trans unregistered_parts(6) by metis
  qed
qed (use r in \<open>simp add: dahdi_specchan_release_def\<close>)


lemma specchan_open_registration:
  assumes len: "length (sys_idents S) = 1024" and r: "dahdi_specchan_open E nb u S = Some (r, S')"
  shows "unregistered S S'"
proof (cases "chan_at (w_sys (sw S)) u")
  case None
  then show ?thesis using r by (simp add: dahdi_specchan_open_def)
next
  case (Some co)
  show ?thesis
  proof (cases "S' = S")
    case False
    then obtain c where c: "co = Some c" "sig c \<noteq> 0" "\<not> flagged c FLAGBIT_NETDEV" "master c = u" "sig c AND SIG_MASK_DACS \<noteq> SIG_MASK_DACS"
      "\<not> flagged c FLAGBIT_OPEN"
      using r Some by (cases co) (auto simp: dahdi_specchan_open_def Let_def split: if_splits)
    define n where "n = nat u"
    define d where "d = set_flag FLAGBIT_OPEN c"
    obtain res T where i: "initialize_channel (oe_kz1 E) (oe_kz2 E) (oe_drv E) n d (set_chan n d S) = (res, T)" by fastforce
    have d: "ident d = ident c" by (simp add: d_def)
    have h: "holds (Some n) e S" if "ident e = ident c" for e using holds_at len Some c(1) that by (simp add: n_def)
    have u0: "unregistered S (set_chan n d S)" using h [OF d] by (simp add: unregistered_parts)
    have h0: "holds (Some n) d (set_chan n d S)" using holds_unregistered [OF h [OF d] u0 refl] .
    have u1: "unregistered S T" using unregistered_trans [OF u0 initialize_registration [OF h0 i]] .
    have set_ok: "unregistered S (set_chan n e T)" if "ident e = ident c" for e
      using unregistered_trans [OF u1 unregistered_parts(6)] holds_unregistered [OF h [OF that] u1 refl] by blast
    show ?thesis
    proof (cases "res = 0")
      case False
      then have "S' = set_chan n (clear_flag FLAGBIT_OPEN d) T"
        using r Some c i by (simp add: dahdi_specchan_open_def Let_def d_def [symmetric] n_def [symmetric])
      then show ?thesis using set_ok d by simp
    next
      case True
      show ?thesis
      proof (cases "the_chan n T")
        case None
        then show ?thesis
          using r Some c i True by (simp add: dahdi_specchan_open_def Let_def d_def [symmetric] n_def [symmetric])
      next
        case (Some b)
        define e where "e = (if flagged b FLAGBIT_PSEUDO then set_flag FLAGBIT_AUDIO b else b)"
        define o_res where "o_res = (if chan_span e \<noteq> None then case oe_open E of None \<Rightarrow> 0 | Some r \<Rightarrow> r else 0)"
        have b: "ident b = ident c"
          using holds_unregistered [OF h [OF refl] u1 refl] Some by (auto simp: holds_def idents_def the_chan_def w_chan_def)
        have e: "ident e = ident c" using b by (simp add: e_def)
        obtain x X where k: "close_channel (oe_drv E) (Some n) (ec_cur T n) e T = (x, X)" by fastforce
        have R: "(r, S') = (if o_res = 0 then (0, set_chan n (e\<lparr>chan_file := Some nb\<rparr>) T) else (o_res, set_chan n (clear_flag FLAGBIT_OPEN x) X))"
          using r \<open>chan_at (w_sys (sw S)) u = Some co\<close> c i True Some k
          by (simp add: dahdi_specchan_open_def Let_def d_def [symmetric] n_def [symmetric] e_def [symmetric] o_res_def split: if_splits)
        note X = close_channel_registration [OF holds_unregistered [OF h [OF e] u1 refl] k]
        have uX: "unregistered S X" using unregistered_trans [OF u1] X by blast
        have "holds (Some n) (clear_flag FLAGBIT_OPEN x) X" using holds_unregistered [OF h [OF refl] uX] X e by simp
        then have "unregistered S (set_chan n (clear_flag FLAGBIT_OPEN x) X)" using unregistered_trans [OF uX] unregistered_parts(6) by blast
        then show ?thesis using R set_ok e by (simp split: if_splits)
      qed
    qed
  qed simp
qed

text \<open>What registering, and what unregistering a channel do to the table.\<close>

lemma unreg_visit_idents [simp]: "idents (unreg_visit dacs_of m x s) = idents s"
proof -
  have u: "idents (s\<lparr>maxchans := k\<rparr>) = idents s" "idents (upd_chan x (master_update g) s) = idents s"
    "idents (upd_chan x (emit e) s) = idents s" "idents (upd_chan x (\<lambda>c. c\<lparr>confna := 0, confn := 0, confmode := 0\<rparr>) s) = idents s" for s k g e
    by (simp add: idents_def, (rule idents_upd, simp add: ident_def emit_def)+)
  show ?thesis by (simp add: unreg_visit_def Let_def u split: option.split)
qed

lemma unreg_visits_idents: "idents (fold (unreg_visit dacs_of m) xs s) = idents s"
  by (induction xs arbitrary: s) simp_all

lemma chan_unreg_registration:
  "same_spans S (chan_unreg n S) \<and> sys_idents (chan_unreg n S) =
     (case the_chan n S of None \<Rightarrow> sys_idents S
      | Some c \<Rightarrow> if flagged c FLAGBIT_REGISTERED then (sys_idents S)[nat (channo c) := None] else sys_idents S)"
proof -
  have s: "idents (snd (dahdi_chan_unreg dacs_of c s)) = (if flagged c FLAGBIT_REGISTERED then (idents s)[nat (channo c) := None] else idents s)" for dacs_of c s
    by (simp add: dahdi_chan_unreg_def Let_def unreg_visits_idents) (simp add: idents_def map_update)
  have z: "\<not> flagged chan0 FLAGBIT_REGISTERED" by (simp add: chan0_def)
  have "same_spans S (on_conf f (S\<lparr>sys_refs := r\<rparr>))" for f r
    using same_spans_trans [OF same_spans_upd(5) same_spans_upd(2)] .
  then show ?thesis using z by (simp add: chan_unreg_def Let_def s split: option.split)
qed

lemma chan_reg_registration:
  assumes "dahdi_chan_reg drv c S = (r, x, S')" and len: "length (sys_idents S) = 1024"
  shows "same_spans S S' \<and> (x = 0 \<and> sys_idents S' = sys_idents S \<or>
    1 \<le> x \<and> x < 1024 \<and> sys_idents S ! x = None \<and> sys_idents S' = (sys_idents S)[x := Some (int x, True, chan_span c)])"
proof -
  obtain d T where k: "close_channel drv None None (dahdi_set_law (span_at S) 0 c) S = (d, T)" by fastforce
  have "holds None (dahdi_set_law (span_at S) 0 c) S" by (simp add: holds_def)
  from close_channel_registration [OF this k] have d: "ident d = ident c" and u: "unregistered S T" by simp_all
  show ?thesis
  proof (cases "List.find (\<lambda>x. the_chan x T = None) [1..<1024]")
    case None
    then show ?thesis using assms(1) k u by (simp add: dahdi_chan_reg_def unregistered_def)
  next
    case (Some y)
    have y: "1 \<le> y" "y < 1024" "the_chan y T = None" using find_upt_Some [OF Some] by simp_all
    define e where "e = (if master d = 0 then d\<lparr>master := int y\<rparr> else d)"
    define X where "X = on_conf (\<lambda>s. snd (register_chan e s)) T"
    have S': "x = y" "S' = X\<lparr>ec_cur := (ec_cur X)(y := None), ec_fac := (ec_fac X)(y := None)\<rparr>"
      using assms(1) k Some unfolding dahdi_chan_reg_def Let_def prod.case
      by (auto simp: e_def [symmetric] X_def [symmetric])
    have "List.find (\<lambda>x. chans (w_sys (sw T)) ! x = None) [1..<1024] = Some y" using Some by (simp add: the_chan_def w_chan_def)
    then have "idents (w_sys (sw X)) = (sys_idents T)[y := Some (ident (set_flag FLAGBIT_REGISTERED (e\<lparr>channo := int y\<rparr>)))]"
      by (simp add: X_def register_chan_def idents_def map_update)
    moreover have "ident (set_flag FLAGBIT_REGISTERED (e\<lparr>channo := int y\<rparr>)) = (int y, True, chan_span c)"
      using d by (simp add: ident_def e_def flagged_set_flag) (simp add: set_flag_def)
    moreover have "sys_idents S ! y = None"
    proof -
      have l: "sys_idents T = sys_idents S" using u by (simp add: unregistered_def)
      then have "length (sys_idents T) = 1024" using len by simp
      then have "sys_idents T ! y = None" using y by (simp add: the_chan_def w_chan_def idents_def)
      then show ?thesis by (simp add: l)
    qed
    moreover have "same_spans T S'" by (simp add: S'(2) X_def same_spans_def on_conf_def)
    ultimately show ?thesis using u y same_spans_trans S' by (auto simp: unregistered_def)
  qed
qed


section \<open>The registry\<close>

text \<open>
  The channels in the table \<open>T\<close> have the number of their place and are marked; \<open>f a\<close> are the numbers of the channels of the
  span \<open>a\<close>, 0 for one that found no place.
\<close>

definition chans_ok :: "(int \<times> bool \<times> int option) option list \<Rightarrow> (int \<Rightarrow> int set) \<Rightarrow> bool" where
  "chans_ok T f \<longleftrightarrow> length T = 1024 \<and> T ! 0 = None \<and>
     (\<forall>n k r sp. n < 1024 \<and> T ! n = Some (k, r, sp) \<longrightarrow> k = int n \<and> r \<and> (\<forall>a. sp = Some a \<longrightarrow> int n \<in> f a)) \<and>
     (\<forall>a m. m \<in> f a \<longrightarrow> m = 0 \<or> 1 \<le> m \<and> m < 1024 \<and> (\<exists>k r. T ! nat m = Some (k, r, Some a)))"

lemma chans_okD:
  "chans_ok T f \<Longrightarrow> n < 1024 \<Longrightarrow> T ! n = Some (k, r, sp) \<Longrightarrow> k = int n \<and> r \<and> (sp = Some a \<longrightarrow> int n \<in> f a)"
  "chans_ok T f \<Longrightarrow> m \<in> f a \<Longrightarrow> m \<noteq> 0 \<Longrightarrow> 1 \<le> m \<and> m < 1024 \<and> (\<exists>k r. T ! nat m = Some (k, r, Some a))"
  "chans_ok T f \<Longrightarrow> length T = 1024 \<and> T ! 0 = None"
  unfolding chans_ok_def by blast+

lemma chans_okI:
  assumes "length T = 1024" "T ! 0 = None"
    and "\<And>n k r sp a. n < 1024 \<Longrightarrow> T ! n = Some (k, r, sp) \<Longrightarrow> k = int n \<and> r \<and> (sp = Some a \<longrightarrow> int n \<in> f a)"
    and "\<And>a m. m \<in> f a \<Longrightarrow> m \<noteq> 0 \<Longrightarrow> 1 \<le> m \<and> m < 1024 \<and> (\<exists>k r. T ! nat m = Some (k, r, Some a))"
  shows "chans_ok T f"
  using assms unfolding chans_ok_def by blast

lemma chans_ok_zero: "chans_ok T f \<Longrightarrow> chans_ok T (f(a := insert 0 (f a)))"
proof (rule chans_okI)
  assume ok: "chans_ok T f"
  show "length T = 1024" "T ! 0 = None" using chans_okD(3) [OF ok] by simp_all
  show "k = int n \<and> r \<and> (sp = Some b \<longrightarrow> int n \<in> (f(a := insert 0 (f a))) b)" if "n < 1024" "T ! n = Some (k, r, sp)" for n k r sp b
    using chans_okD(1) [OF ok that, of b] by auto
  show "1 \<le> m \<and> m < 1024 \<and> (\<exists>k r. T ! nat m = Some (k, r, Some b))" if "m \<in> (f(a := insert 0 (f a))) b" "m \<noteq> 0" for m b
    using chans_okD(2) [OF ok _ that(2), of b] that by (auto split: if_splits)
qed

lemma chans_ok_put:
  assumes ok: "chans_ok T f" and x: "1 \<le> x" "x < 1024" "T ! x = None"
    and g: "\<And>b. f b \<subseteq> g b" "\<And>b m. m \<in> g b \<Longrightarrow> m \<in> f b \<or> m = int x \<and> sp = Some b" "\<And>b. sp = Some b \<Longrightarrow> int x \<in> g b"
  shows "chans_ok (T[x := Some (int x, True, sp)]) g"
proof (rule chans_okI)
  have l: "length T = 1024" "T ! 0 = None" using chans_okD(3) [OF ok] by simp_all
  then show "length (T[x := Some (int x, True, sp)]) = 1024" "T[x := Some (int x, True, sp)] ! 0 = None" using x by simp_all
  show "k = int n \<and> r \<and> (s = Some b \<longrightarrow> int n \<in> g b)" if "n < 1024" "T[x := Some (int x, True, sp)] ! n = Some (k, r, s)" for n k r s b
  proof (cases "n = x")
    case True
    then show ?thesis using that l x g(3) by auto
  next
    case False
    then show ?thesis using chans_okD(1) [OF ok that(1), of k r s b] that(2) g(1) by auto
  qed
  show "1 \<le> m \<and> m < 1024 \<and> (\<exists>k r. T[x := Some (int x, True, sp)] ! nat m = Some (k, r, Some b))" if m: "m \<in> g b" "m \<noteq> 0" for m b
  proof (cases "m \<in> f b")
    case True
    note o = chans_okD(2) [OF ok True m(2)]
    then have "nat m \<noteq> x" using x(3) by auto
    then show ?thesis using o by simp
  next
    case False
    then show ?thesis using g(2) [OF m(1)] x l by auto
  qed
qed

lemma chans_ok_add:
  assumes "chans_ok T f" "1 \<le> x" "x < 1024" "T ! x = None"
  shows "chans_ok (T[x := Some (int x, True, Some a)]) (f(a := insert (int x) (f a)))"
    and "chans_ok (T[x := Some (int x, True, None)]) f"
  by (rule chans_ok_put [OF assms], auto split: if_splits)+

lemma chans_ok_remove:
  assumes ok: "chans_ok T f" and n: "n \<in> f a \<or> T ! nat n = None" "0 \<le> n" "n < 1024"
  shows "chans_ok (T[nat n := None]) (f(a := f a - {n}))"
proof (rule chans_okI)
  have l: "length T = 1024" "T ! 0 = None" using chans_okD(3) [OF ok] by simp_all
  then show "length (T[nat n := None]) = 1024" "T[nat n := None] ! 0 = None"
    by (simp_all, cases "nat n = 0", simp_all)
  show "k = int m \<and> r \<and> (s = Some b \<longrightarrow> int m \<in> (f(a := f a - {n})) b)" if m: "m < 1024" "T[nat n := None] ! m = Some (k, r, s)" for m k r s b
  proof -
    have "m \<noteq> nat n" using m l by auto
    then show ?thesis using chans_okD(1) [OF ok m(1), of k r s b] m(2) by auto
  qed
  show "1 \<le> m \<and> m < 1024 \<and> (\<exists>k r. T[nat n := None] ! nat m = Some (k, r, Some b))" if m: "m \<in> (f(a := f a - {n})) b" "m \<noteq> 0" for m b
  proof -
    have f: "m \<in> f b" "b \<noteq> a \<or> m \<noteq> n" using m by (auto split: if_splits)
    note o = chans_okD(2) [OF ok f(1) m(2)]
    have "nat m \<noteq> nat n"
    proof
      assume e: "nat m = nat n"
      then have "m = n" using o n(2) by auto
      then show False using f(2) n(1) o chans_okD(2) [OF ok _ m(2), of a] by auto
    qed
    then show ?thesis using o by simp
  qed
qed

lemma reg_chans_ok:
  assumes "reg_chans drv a cs S = (ns, S')" "chans_ok (sys_idents S) f"
  shows "same_spans S S' \<and> chans_ok (sys_idents S') (f(a := f a \<union> int ` set ns))"
  using assms
proof (induction cs arbitrary: S f ns S')
  case Nil
  then show ?case by simp
next
  case (Cons c cs)
  obtain r n A where r: "dahdi_chan_reg drv (c\<lparr>chan_span := Some a\<rparr>) S = (r, n, A)" by (metis prod_cases3)
  obtain ms B where B: "reg_chans drv a cs A = (ms, B)" by fastforce
  have e: "ns = n # ms" "S' = B" using Cons.prems(1) r B by auto
  have len: "length (sys_idents S) = 1024" using Cons.prems(2) by (simp add: chans_ok_def)
  note R = chan_reg_registration [OF r len]
  have "chans_ok (sys_idents A) (f(a := insert (int n) (f a)))"
    using R chans_ok_zero [OF Cons.prems(2), of a] chans_ok_add(1) [OF Cons.prems(2), of n a] by auto
  note B' = Cons.IH [OF B this]
  have "(f(a := insert (int n) (f a)))(a := (f(a := insert (int n) (f a))) a \<union> int ` set ms) = f(a := f a \<union> int ` set ns)"
    by (auto simp: e)
  with B' have "same_spans A S' \<and> chans_ok (sys_idents S') (f(a := f a \<union> int ` set ns))" by (simp only: e)
  then show ?case using R same_spans_trans by blast
qed

lemma chan_unreg_ok:
  assumes ok: "chans_ok (sys_idents S) f" and n: "n \<in> f a \<or> sys_idents S ! nat n = None" "0 \<le> n" "n < 1024"
  shows "same_spans S (chan_unreg (nat n) S) \<and> sys_idents (chan_unreg (nat n) S) = (sys_idents S)[nat n := None]"
proof -
  note u = chan_unreg_registration [of S "nat n"]
  have len: "nat n < length (chans (w_sys (sw S)))" using ok n by (simp add: chans_ok_def idents_def)
  show ?thesis
  proof (cases "the_chan (nat n) S")
    case None
    then have "sys_idents S ! nat n = None" using len by (simp add: the_chan_def w_chan_def idents_def)
    then have "(sys_idents S)[nat n := None] = sys_idents S" by (metis list_update_id)
    then show ?thesis using u None by simp
  next
    case (Some c)
    then have "sys_idents S ! nat n = Some (ident c)" using len by (simp add: the_chan_def w_chan_def idents_def)
    then have "channo c = int (nat n) \<and> flagged c FLAGBIT_REGISTERED"
      using chans_okD(1) [OF ok, of "nat n" "channo c" "flagged c FLAGBIT_REGISTERED" "chan_span c"] n(2,3) by (simp add: ident_def)
    then show ?thesis using u Some by simp
  qed
qed

lemma chan_unregs_ok:
  assumes "chans_ok (sys_idents S) f" "\<forall>n \<in> set ns. 0 \<le> n \<and> n < 1024 \<and> (n \<in> f a \<or> sys_idents S ! nat n = None)"
  shows "same_spans S (fold (\<lambda>n. chan_unreg (nat n)) ns S) \<and>
    chans_ok (sys_idents (fold (\<lambda>n. chan_unreg (nat n)) ns S)) (f(a := f a - set ns))"
  using assms
proof (induction ns arbitrary: S f)
  case (Cons n ns)
  let ?A = "chan_unreg (nat n) S" and ?f = "f(a := f a - {n})"
  have n: "0 \<le> n" "n < 1024" "n \<in> f a \<or> sys_idents S ! nat n = None" using Cons.prems(2) by simp_all
  note A = chan_unreg_ok [OF Cons.prems(1) n(3,1,2)]
  have "chans_ok (sys_idents ?A) ?f" using chans_ok_remove [OF Cons.prems(1) n(3,1,2)] A by simp
  moreover have "\<forall>k \<in> set ns. 0 \<le> k \<and> k < 1024 \<and> (k \<in> ?f a \<or> sys_idents ?A ! nat k = None)"
  proof
    fix k assume k: "k \<in> set ns"
    have "length (sys_idents S) = 1024" using Cons.prems(1) by (simp add: chans_ok_def)
    then show "0 \<le> k \<and> k < 1024 \<and> (k \<in> ?f a \<or> sys_idents ?A ! nat k = None)"
      using Cons.prems(2) k n A by (auto simp: nth_list_update)
  qed
  ultimately have "same_spans ?A (fold (\<lambda>n. chan_unreg (nat n)) ns ?A) \<and>
      chans_ok (sys_idents (fold (\<lambda>n. chan_unreg (nat n)) ns ?A)) (?f(a := ?f a - set ns))" by (rule Cons.IH)
  moreover have "?f(a := ?f a - set ns) = f(a := f a - set (n # ns))" by (rule ext) auto
  ultimately show ?case using A same_spans_trans by (metis fold_simps(2))
qed simp


definition own :: "dahdi_sys \<Rightarrow> int \<Rightarrow> int set" where
  "own S a = (if span_registered (span_at S a) then set (sp_chans (span_at S a)) else {})"

text \<open>The table of spans without the numbers of channels, and the bound and the master that go with it.\<close>

definition table_ok :: "dahdi_sys \<Rightarrow> bool" where
  "table_ok S \<longleftrightarrow> length (spans S) = 128 \<and> spans S ! 0 = None \<and>
     (\<forall>x a. x < 128 \<and> spans S ! x = Some a \<longrightarrow> spanno (span_at S a) = int x \<and> span_registered (span_at S a)) \<and>
     (\<forall>a. span_registered (span_at S a) \<longrightarrow> (\<exists>x < 128. spans S ! x = Some a))"

definition bound_ok :: "dahdi_sys \<Rightarrow> bool" where
  "bound_ok S \<longleftrightarrow> (\<forall>x. x < 128 \<and> maxspans S \<le> x \<longrightarrow> spans S ! x = None) \<and>
     (0 < maxspans S \<longrightarrow> maxspans S \<le> 128 \<and> spans S ! (maxspans S - 1) \<noteq> None) \<and>
     (\<forall>a. master_span S = Some a \<longrightarrow> (\<exists>x < 128. spans S ! x = Some a)) \<and>
     (master_span S = None \<longrightarrow> (\<forall>x < 128. spans S ! x = None))"

definition reg_ok :: "dahdi_sys \<Rightarrow> bool" where
  "reg_ok S \<longleftrightarrow> table_ok S \<and> bound_ok S \<and> chans_ok (sys_idents S) (own S)"

lemma table_okD:
  "table_ok S \<Longrightarrow> x < 128 \<Longrightarrow> spans S ! x = Some a \<Longrightarrow> spanno (span_at S a) = int x \<and> span_registered (span_at S a)"
  "table_ok S \<Longrightarrow> span_registered (span_at S a) \<Longrightarrow> \<exists>x. 1 \<le> x \<and> x < 128 \<and> spans S ! x = Some a \<and> spanno (span_at S a) = int x"
  "table_ok S \<Longrightarrow> length (spans S) = 128 \<and> spans S ! 0 = None"
proof -
  assume t: "table_ok S"
  show "spanno (span_at S a) = int x \<and> span_registered (span_at S a)" if "x < 128" "spans S ! x = Some a"
    using t that unfolding table_ok_def by blast
  show "\<exists>x. 1 \<le> x \<and> x < 128 \<and> spans S ! x = Some a \<and> spanno (span_at S a) = int x" if r: "span_registered (span_at S a)"
  proof -
    obtain x where x: "x < 128" "spans S ! x = Some a" using t r unfolding table_ok_def by blast
    moreover have "x \<noteq> 0" using t x(2) unfolding table_ok_def by (metis option.distinct(1))
    ultimately show ?thesis using t unfolding table_ok_def by (metis less_one linorder_not_le)
  qed
  show "length (spans S) = 128 \<and> spans S ! 0 = None" using t unfolding table_ok_def by blast
qed

lemma unregistered_ok: "reg_ok S \<Longrightarrow> unregistered S T \<Longrightarrow> reg_ok T"
proof -
  assume S: "reg_ok S" and u: "unregistered S T"
  have e: "spans T = spans S" "maxspans T = maxspans S" "master_span T = master_span S" "span_at T = span_at S" "sys_idents T = sys_idents S"
    using u by (simp_all add: unregistered_def same_spans_def)
  have "own T = own S" by (rule ext) (simp add: own_def e)
  then show ?thesis using S unfolding reg_ok_def table_ok_def bound_ok_def e by simp
qed

text \<open>What a driver or an alarm changes of a span that is not its registration.\<close>

definition keeps_registration :: "(dahdi_span \<Rightarrow> dahdi_span) \<Rightarrow> bool" where
  "keeps_registration g \<longleftrightarrow> (\<forall>sp. span_registered (g sp) = span_registered sp \<and> spanno (g sp) = spanno sp \<and> sp_chans (g sp) = sp_chans sp)"

lemma upd_span_sel [simp]: "spans (upd_span a g S) = spans S" "maxspans (upd_span a g S) = maxspans S"
  "master_span (upd_span a g S) = master_span S" "sw (upd_span a g S) = sw S"
  "span_at (upd_span a g S) b = (if b = a then g (span_at S a) else span_at S b)"
  by (simp_all add: upd_span_def)

lemma upd_span_ok:
  assumes "reg_ok S" "keeps_registration g"
  shows "reg_ok (upd_span a g S)"
proof -
  have k: "span_registered (span_at (upd_span a g S) b) = span_registered (span_at S b)" "spanno (span_at (upd_span a g S) b) = spanno (span_at S b)"
    "sp_chans (span_at (upd_span a g S) b) = sp_chans (span_at S b)" for b
    using assms(2) by (simp_all add: keeps_registration_def)
  have "own (upd_span a g S) = own S" by (rule ext) (simp only: own_def k)
  then show ?thesis using assms(1) unfolding reg_ok_def table_ok_def bound_ok_def k upd_span_sel(1-4) by simp
qed

lemma switch_master_ok: "reg_ok S \<Longrightarrow> reg_ok (switch_master S)"
proof (cases "switch_master S = S")
  case False
  assume ok: "reg_ok S"
  obtain x where x: "List.find (\<lambda>x. case spans S ! x of None \<Rightarrow> False
      | Some a \<Rightarrow> sp_alarms (span_at S a) = 0 \<and> bit (sp_flags (span_at S a)) FLAGBIT_RUNNING) [1..<maxspans S] = Some x"
    using False by (auto simp: switch_master_def split: option.splits)
  obtain a where a: "spans S ! x = Some a" using find_upt_Some [OF x] by (auto split: option.splits)
  have m: "switch_master S = S\<lparr>master_span := Some a\<rparr>" using x a by (simp add: switch_master_def)
  have "x < 128" using find_upt_Some [OF x] ok by (auto simp: reg_ok_def bound_ok_def)
  moreover have "own (S\<lparr>master_span := Some a\<rparr>) = own S" by (rule ext) (simp add: own_def)
  ultimately show ?thesis using ok a unfolding m reg_ok_def table_ok_def bound_ok_def by auto
qed simp

lemma alarm_channels_ok: "unregistered S (fold (\<lambda>n S. S\<lparr>sw := w_upd (nat n) (dahdi_alarm_channel al) (sw S)\<rparr>) ns S)"
proof (induction ns arbitrary: S)
  case (Cons n ns)
  have i: "ident (dahdi_alarm_channel al c) = ident c" for c
    by (simp add: dahdi_alarm_channel_def) (simp add: ident_def)
  have "sys_idents (S\<lparr>sw := w_upd (nat n) (dahdi_alarm_channel al) (sw S)\<rparr>) = sys_idents S"
    by (simp add: w_upd_def idents_upd i)
  then have "unregistered S (S\<lparr>sw := w_upd (nat n) (dahdi_alarm_channel al) (sw S)\<rparr>)" by (rule unregistered_parts(7))
  then show ?case using unregistered_trans [OF _ Cons.IH] by simp
qed simp

lemma alarm_notify_ok: "reg_ok S \<Longrightarrow> reg_ok (dahdi_alarm_notify maint a S)"
proof -
  assume S: "reg_ok S"
  define A where "A = upd_span a (\<lambda>sp. sp\<lparr>sp_alarms := with_loopback maint (sp_alarms sp)\<rparr>) S"
  have A: "reg_ok A" unfolding A_def by (rule upd_span_ok [OF S]) (simp add: keeps_registration_def)
  have B: "reg_ok (upd_span a (\<lambda>sp. sp\<lparr>sp_lastalarms := al\<rparr>) A)" for al
    by (rule upd_span_ok [OF A]) (simp add: keeps_registration_def)
  show ?thesis
    unfolding dahdi_alarm_notify_def A_def [symmetric] Let_def
    using A switch_master_ok [OF unregistered_ok [OF B alarm_channels_ok]] by simp
qed


lemma register_ok:
  assumes ok: "reg_ok S"
  shows "reg_ok (snd (dahdi_register drv a cs pm S))"
proof (cases "span_registered (span_at S a) \<or> (\<exists>x \<in> set [1..<maxspans S]. spans S ! x = Some a)")
  case True
  then show ?thesis using ok by (auto simp: dahdi_register_def)
next
  case new: False
  show ?thesis
  proof (cases "List.find (\<lambda>x. spans S ! x = None) [1..<DAHDI_MAX_SPANS]")
    case None
    then show ?thesis using ok new by (simp add: dahdi_register_def)
  next
    case (Some x)
    have x: "1 \<le> x" "x < 128" "spans S ! x = None" using find_upt_Some [OF Some] by simp_all
    have T: "table_ok S" and B: "bound_ok S" and C: "chans_ok (sys_idents S) (own S)" using ok by (simp_all add: reg_ok_def)
    define P where "P = S\<lparr>spans := (spans S)[x := Some a], maxspans := (if maxspans S < x + 1 then x + 1 else maxspans S)\<rparr>"
    define Q where "Q = upd_span a (\<lambda>sp. sp\<lparr>sp_flags := sp_flags sp OR push_bit FLAGBIT_REGISTERED 1, spanno := int x,
      sp_deflaw := (if sp_deflaw sp = 0 then 1 else sp_deflaw sp)\<rparr>) P"
    obtain ns R where R: "reg_chans drv a cs Q = (ns, R)" by fastforce
    define W where "W = upd_span a (\<lambda>sp. sp\<lparr>sp_chans := map int ns\<rparr>) R"
    define Z where "Z = (if master_span W = None \<or> pm then W\<lparr>master_span := Some a\<rparr> else W)"
    have r: "snd (dahdi_register drv a cs pm S) = Z"
      unfolding dahdi_register_def Some option.case Let_def P_def [symmetric] Q_def [symmetric] R prod.case W_def [symmetric] Z_def [symmetric]
      using new by simp
    have Q: "sys_idents Q = sys_idents S" by (simp add: Q_def P_def)
    then have "chans_ok (sys_idents Q) (own S)" using C by simp
    from reg_chans_ok [OF R this] have same: "same_spans Q R" and ch: "chans_ok (sys_idents R) ((own S)(a := own S a \<union> int ` set ns))" by simp_all
    have na: "\<not> span_registered (span_at S a)" using new by simp
    have z: "spans Z = (spans S)[x := Some a]" "maxspans Z = (if maxspans S < x + 1 then x + 1 else maxspans S)"
      "master_span Z = (if master_span S = None \<or> pm then Some a else master_span S)" "sys_idents Z = sys_idents R"
      "spanno (span_at Z b) = (if b = a then int x else spanno (span_at S b))"
      "span_registered (span_at Z b) \<longleftrightarrow> b = a \<or> span_registered (span_at S b)"
      "sp_chans (span_at Z b) = (if b = a then map int ns else sp_chans (span_at S b))" for b
      using same by (simp_all add: Z_def W_def Q_def P_def same_spans_def bit_or_iff)
    have "own Z = (own S)(a := own S a \<union> int ` set ns)"
      by (rule ext) (simp add: own_def z na)
    then have "chans_ok (sys_idents Z) (own Z)" using ch by (simp add: z)
    moreover have "table_ok Z"
    proof -
      have "b \<noteq> a" if "y < 128" "spans S ! y = Some b" for y b using table_okD(1) [OF T that] na by auto
      then show ?thesis
        using x table_okD(3) [OF T] table_okD(1,2) [OF T] unfolding table_ok_def z
        by (auto simp: nth_list_update) (metis option.distinct(1))
    qed
    moreover have "bound_ok Z"
    proof -
      have l: "length (spans S) = 128" using table_okD(3) [OF T] by simp
      have b: "y < 128 \<Longrightarrow> maxspans S \<le> y \<Longrightarrow> spans S ! y = None" "0 < maxspans S \<Longrightarrow> maxspans S \<le> 128 \<and> spans S ! (maxspans S - 1) \<noteq> None"
        "master_span S = Some c \<Longrightarrow> \<exists>y < 128. spans S ! y = Some c" for y c
        using B unfolding bound_ok_def by blast+
      have "spans Z ! y = None" if "y < 128" "maxspans Z \<le> y" for y
        using that b(1) [of y] x l by (auto simp: z nth_list_update split: if_splits)
      moreover have "maxspans Z \<le> 128 \<and> spans Z ! (maxspans Z - 1) \<noteq> None"
        using b(2) x l by (auto simp: z nth_list_update)
      moreover have "\<exists>y < 128. spans Z ! y = Some c" if "master_span Z = Some c" for c
      proof (cases "c = a")
        case True
        then show ?thesis using x l by (intro exI [of _ x]) (simp add: z)
      next
        case False
        then have "master_span S = Some c" using that by (auto simp: z split: if_splits)
        then obtain y where "y < 128" "spans S ! y = Some c" using b(3) by blast
        then show ?thesis using x l by (intro exI [of _ y]) (auto simp: z nth_list_update)
      qed
      moreover have "master_span Z \<noteq> None" by (simp add: z)
      ultimately show ?thesis unfolding bound_ok_def by auto
    qed
    ultimately show ?thesis using r by (simp add: reg_ok_def)
  qed
qed

lemma sorted_last_ge: "sorted (xs :: nat list) \<Longrightarrow> y \<in> set xs \<Longrightarrow> y \<le> last xs"
  by (induction xs) auto

lemma unregister_ok:
  assumes ok: "reg_ok S" and k: "keeps_registration shut"
  shows "reg_ok (snd (dahdi_unregister shut a S)) \<and> (fst (dahdi_unregister shut a S) = 0 \<longleftrightarrow> span_registered (span_at S a))"
proof (cases "span_registered (span_at S a)")
  case False
  then show ?thesis using ok by (simp add: dahdi_unregister_def)
next
  case reg: True
  define P where "P = (if bit (sp_flags (span_at S a)) FLAGBIT_RUNNING then upd_span a shut S else S)"
  have P: "reg_ok P" using ok upd_span_ok [OF ok k] by (simp add: P_def)
  have regP: "span_registered (span_at P a)" using reg k by (simp add: P_def keeps_registration_def)
  have T: "table_ok P" and B: "bound_ok P" and C: "chans_ok (sys_idents P) (own P)" using P by (simp_all add: reg_ok_def)
  obtain x where x: "1 \<le> x" "x < 128" "spans P ! x = Some a" "spanno (span_at P a) = int x" using table_okD(2) [OF T regP] by blast
  define sp where "sp = span_at P a"
  define Q where "Q = upd_span a (\<lambda>sp. sp\<lparr>spanno := 0, sp_flags := sp_flags sp AND NOT (push_bit FLAGBIT_REGISTERED 1)\<rparr>)
    (P\<lparr>spans := (spans P)[nat (spanno sp) := None]\<rparr>)"
  define R where "R = fold (\<lambda>n. chan_unreg (nat n)) (sp_chans sp) Q"
  define used where "used = filter (\<lambda>x. spans R ! x \<noteq> None) [1..<DAHDI_MAX_SPANS]"
  define nm where "nm = (if master_span R = Some a then None else master_span R)"
  define Z where "Z = R\<lparr>maxspans := (case rev used of [] \<Rightarrow> 0 | x # _ \<Rightarrow> x + 1),
    master_span := (if nm = None then (case used of [] \<Rightarrow> None | x # _ \<Rightarrow> spans R ! x) else nm)\<rparr>"
  have spa: "spans P ! nat (spanno sp) = Some a" "nat (spanno sp) = x" using x by (simp_all add: sp_def)
  have r: "dahdi_unregister shut a S = (0, Z)"
    using reg spa(1) unfolding dahdi_unregister_def P_def [symmetric] Let_def sp_def [symmetric] Q_def [symmetric] R_def [symmetric]
      used_def [symmetric] nm_def [symmetric] Z_def [symmetric] by simp
  have "chans_ok (sys_idents Q) (own P)" using C by (simp add: Q_def)
  moreover have "\<forall>n \<in> set (sp_chans sp). 0 \<le> n \<and> n < 1024 \<and> (n \<in> own P a \<or> sys_idents Q ! nat n = None)"
  proof
    fix n assume "n \<in> set (sp_chans sp)"
    then have "n \<in> own P a" using regP by (simp add: own_def sp_def)
    then show "0 \<le> n \<and> n < 1024 \<and> (n \<in> own P a \<or> sys_idents Q ! nat n = None)" using chans_okD(2) [OF C, of n a] by (cases "n = 0") auto
  qed
  ultimately have same: "same_spans Q R" and ch: "chans_ok (sys_idents R) ((own P)(a := own P a - set (sp_chans sp)))"
    using chan_unregs_ok [of Q "own P" "sp_chans sp" a] by (simp_all add: R_def)
  have l: "length (spans P) = 128" "spans P ! 0 = None" using table_okD(3) [OF T] by simp_all
  have other: "b \<noteq> a" if "y < 128" "y \<noteq> x" "spans P ! y = Some b" for y b
    using table_okD(1) [OF T that(1,3)] that(2) x by auto
  have z: "spans Z = (spans P)[x := None]" "spans R = (spans P)[x := None]" "master_span R = master_span P" "sys_idents Z = sys_idents R"
    "spanno (span_at Z b) = (if b = a then 0 else spanno (span_at P b))"
    "span_registered (span_at Z b) \<longleftrightarrow> b \<noteq> a \<and> span_registered (span_at P b)"
    "sp_chans (span_at Z b) = sp_chans (span_at P b)" for b
    using same spa(2) by (simp_all add: Z_def Q_def same_spans_def bit_and_iff bit_not_iff)
  have "own Z = (own P)(a := own P a - set (sp_chans sp))"
    by (rule ext) (simp add: own_def z sp_def)
  then have "chans_ok (sys_idents Z) (own Z)" using ch by (simp add: z)
  moreover have "table_ok Z"
  proof -
    have "\<exists>y < 128. (spans P)[x := None] ! y = Some b" if b: "b \<noteq> a" "span_registered (span_at P b)" for b
    proof -
      obtain y where y: "y < 128" "spans P ! y = Some b" using table_okD(2) [OF T b(2)] by blast
      then have "y \<noteq> x" using x b(1) by auto
      then show ?thesis using y by auto
    qed
    moreover have "spanno (span_at P b) = int y \<and> span_registered (span_at P b) \<and> b \<noteq> a" if "y < 128" "(spans P)[x := None] ! y = Some b" for y b
    proof -
      have "y \<noteq> x" using that l by auto
      then show ?thesis using that table_okD(1) [OF T, of y b] other [of y b] by auto
    qed
    ultimately show ?thesis using l x(1) unfolding table_ok_def z by auto
  qed
  moreover have "bound_ok Z"
  proof -
    have u: "set used = {y. 1 \<le> y \<and> y < 128 \<and> spans Z ! y \<noteq> None}" "sorted used"
      by (auto simp: used_def z) (rule sorted_wrt_filter, simp)
    have z0: "spans Z ! 0 = None" using l x(1) by (simp add: z)
    have mem: "y \<in> set used" if "y < 128" "spans Z ! y \<noteq> None" for y
      using that z0 by (cases "y = 0") (auto simp: u(1))
    have m: "maxspans Z = (if used = [] then 0 else last used + 1)" by (cases used rule: rev_cases) (simp_all add: Z_def)
    have "spans Z ! y = None" if "y < 128" "maxspans Z \<le> y" for y
      using sorted_last_ge [OF u(2), of y] mem [OF that(1)] that(2) m by (cases "spans Z ! y"; cases "used = []") auto
    moreover have "maxspans Z \<le> 128 \<and> spans Z ! (maxspans Z - 1) \<noteq> None" if "0 < maxspans Z"
    proof -
      have "last used \<in> set used" using that m by (auto split: if_splits)
      then show ?thesis using that m by (auto simp: u(1) split: if_splits)
    qed
    moreover have "\<exists>y < 128. spans Z ! y = Some c" if c: "master_span Z = Some c" for c
    proof (cases "nm = None")
      case True
      then obtain y ys where "used = y # ys" "spans Z ! y = Some c" using c by (auto simp: Z_def z(2) split: list.splits)
      then show ?thesis using u(1) by (intro exI [of _ y]) auto
    next
      case False
      then have c: "master_span P = Some c" "c \<noteq> a" using c by (auto simp: Z_def nm_def z(3) split: if_splits)
      then obtain y where y: "y < 128" "spans P ! y = Some c" using B unfolding bound_ok_def by blast
      then have "y \<noteq> x" using x c by auto
      then show ?thesis using y by (intro exI [of _ y]) (simp add: z)
    qed
    moreover have "spans Z ! y = None" if n: "master_span Z = None" "y < 128" for y
    proof -
      have "used = []"
      proof (rule ccontr)
        assume "used \<noteq> []"
        then obtain h t where h: "used = h # t" by (cases used) auto
        then have "spans R ! h \<noteq> None" using u(1) by (auto simp: z(1,2))
        then show False using n(1) h by (simp add: Z_def split: if_splits)
      qed
      then show ?thesis using mem [OF n(2)] by (cases "spans Z ! y") auto
    qed
    ultimately show ?thesis unfolding bound_ok_def by blast
  qed
  ultimately show ?thesis using r reg by (simp add: reg_ok_def)
qed


text \<open>
  What happens to the registry: drivers register and unregister spans, change other fields of them and report alarms; users
  open and close the device files. The file of minor 255 that is released holds its pseudo channel.
\<close>

inductive registry_step :: "dahdi_sys \<Rightarrow> dahdi_sys \<Rightarrow> bool" where
  register: "registry_step S (snd (dahdi_register drv a cs prefmaster S))"
| unregister: "keeps_registration shut \<Longrightarrow> registry_step S (snd (dahdi_unregister shut a S))"
| driver: "keeps_registration g \<Longrightarrow> registry_step S (upd_span a g S)"
| alarm: "registry_step S (dahdi_alarm_notify maint a S)"
| opened: "dahdi_open E nonblock transcode kz alloc unit S = Some (r, d, T) \<Longrightarrow> registry_step S T"
| specify: "dahdi_prechan_specify E nonblock k S = Some (r, d, T) \<Longrightarrow> registry_step S T"
| released: "dahdi_release E unit d S = Some (r, T) \<Longrightarrow>
    (unit = 255 \<and> d \<noteq> No_Data \<longrightarrow> (\<exists>n c. d = Chan_Data (int n) \<and> the_chan n S = Some c \<and> chan_span c = None)) \<Longrightarrow> registry_step S T"

definition sys0 :: "(int \<Rightarrow> dahdi_span) \<Rightarrow> dahdi_sys" where
  "sys0 at = \<lparr>sw = \<lparr>w_sys = conf_sys0, w_sums = sums0, w_zones = tone_globals0, w_timers = []\<rparr>, spans = replicate 128 None,
     maxspans = 0, master_span = None, span_at = at, ec_cur = (\<lambda>_. None), ec_fac = (\<lambda>_. None), sys_refs = (\<lambda>_. 0)\<rparr>"

inductive registry_reachable :: "dahdi_sys \<Rightarrow> bool" where
  start: "\<forall>a. \<not> span_registered (at a) \<Longrightarrow> registry_reachable (sys0 at)"
| step: "registry_reachable S \<Longrightarrow> registry_step S T \<Longrightarrow> registry_reachable T"

lemma sys0_ok: "\<forall>a. \<not> span_registered (at a) \<Longrightarrow> reg_ok (sys0 at)"
proof -
  assume a: "\<forall>a. \<not> span_registered (at a)"
  have "sys_idents (sys0 at) = replicate 1024 None" by (simp add: sys0_def idents_def conf_sys0_def)
  then have "chans_ok (sys_idents (sys0 at)) (own (sys0 at))" using a by (intro chans_okI) (simp_all add: own_def sys0_def)
  then show ?thesis using a by (simp add: reg_ok_def table_ok_def bound_ok_def) (simp add: sys0_def)
qed

lemma reg_okD: "reg_ok S \<Longrightarrow> length (sys_idents S) = 1024"
  unfolding reg_ok_def using chans_okD(3) by blast

lemma idents_nth: "n < length (sys_idents S) \<Longrightarrow> sys_idents S ! n = map_option ident (the_chan n S)"
  by (simp add: idents_def the_chan_def w_chan_def)

lemma alloc_pseudo_ok: "reg_ok S \<Longrightarrow> dahdi_alloc_pseudo kz S = (n, T) \<Longrightarrow> reg_ok T"
proof (cases "can_open_timer S \<and> kz")
  case True
  assume ok: "reg_ok S" and a: "dahdi_alloc_pseudo kz S = (n, T)"
  define c where "c = chan0\<lparr>sig := SIG_CLEAR, sigcap := SIG_CLEAR, cflags := push_bit FLAGBIT_PSEUDO 1 OR push_bit FLAGBIT_AUDIO 1\<rparr>"
  obtain r x X where r: "dahdi_chan_reg 0 c S = (r, x, X)" by (metis prod_cases3)
  have T: "T = X" using a True r unfolding dahdi_alloc_pseudo_def c_def by (simp add: Let_def)
  have s: "chan_span c = None" by (simp add: c_def chan0_def)
  note R = chan_reg_registration [OF r reg_okD [OF ok], unfolded s]
  have own: "own X = own S" using R by (intro ext) (simp add: own_def same_spans_def)
  have C: "chans_ok (sys_idents S) (own S)" using ok by (simp add: reg_ok_def)
  have "chans_ok (sys_idents X) (own X)" using R chans_ok_add(2) [OF C, of x] C unfolding own by auto
  moreover have "table_ok X" "bound_ok X" using R ok by (simp_all add: reg_ok_def table_ok_def bound_ok_def same_spans_def)
  ultimately show ?thesis by (simp add: T reg_ok_def)
qed (simp add: dahdi_alloc_pseudo_def)

lemma free_pseudo_ok:
  assumes ok: "reg_ok S" and n: "the_chan n S = None \<or> (\<exists>c. the_chan n S = Some c \<and> chan_span c = None)" "n < 1024"
  shows "reg_ok (dahdi_free_pseudo n S)"
proof -
  have C: "chans_ok (sys_idents S) (own S)" using ok by (simp add: reg_ok_def)
  have l: "n < length (chans (w_sys (sw S)))" using reg_okD [OF ok] n(2) by (simp add: idents_def)
  have e: "sys_idents S ! n = map_option ident (the_chan n S)" using l by (simp add: idents_def the_chan_def w_chan_def)
  define f where "f = own S"
  have free: "int n \<notin> own S b \<or> int n = 0" for b
    using chans_okD(2) [OF C, of "int n" b] n(1) e by (cases "n = 0") (auto simp: ident_def)
  have T: "same_spans S (chan_unreg n S)" "sys_idents (chan_unreg n S) = (sys_idents S)[n := None]"
  proof -
    note u = chan_unreg_registration [of S n]
    show "same_spans S (chan_unreg n S)" using u by simp
    show "sys_idents (chan_unreg n S) = (sys_idents S)[n := None]"
    proof (cases "the_chan n S")
      case None
      then have "(sys_idents S)[n := None] = sys_idents S" using e by (metis list_update_id option.map_disc_iff)
      then show ?thesis using u None by simp
    next
      case (Some c)
      then have "channo c = int n \<and> flagged c FLAGBIT_REGISTERED"
        using chans_okD(1) [OF C n(2), of "channo c" "flagged c FLAGBIT_REGISTERED" "chan_span c"] e by (simp add: ident_def)
      then show ?thesis using u Some by simp
    qed
  qed
  have "chans_ok ((sys_idents S)[n := None]) (own S)"
  proof (rule chans_okI)
    show "length ((sys_idents S)[n := None]) = 1024" "(sys_idents S)[n := None] ! 0 = None"
      using chans_okD(3) [OF C] by (simp, cases "n = 0", auto)
    show "k = int m \<and> r \<and> (s = Some b \<longrightarrow> int m \<in> own S b)" if "m < 1024" "(sys_idents S)[n := None] ! m = Some (k, r, s)" for m k r s b
      using chans_okD(1) [OF C that(1), of k r s b] that(2) n(2) chans_okD(3) [OF C] by (cases "m = n") auto
    show "1 \<le> m \<and> m < 1024 \<and> (\<exists>k r. (sys_idents S)[n := None] ! nat m = Some (k, r, Some b))" if "m \<in> own S b" "m \<noteq> 0" for m b
    proof -
      have "nat m \<noteq> n" using free [of b] that chans_okD(2) [OF C that] by auto
      then show ?thesis using chans_okD(2) [OF C that] by simp
    qed
  qed
  moreover have "own (chan_unreg n S) = own S" using T(1) by (intro ext) (simp add: own_def same_spans_def)
  moreover have "table_ok (chan_unreg n S)" "bound_ok (chan_unreg n S)"
    using T(1) ok by (simp_all add: reg_ok_def table_ok_def bound_ok_def same_spans_def)
  ultimately show ?thesis using T(2) by (simp add: dahdi_free_pseudo_def reg_ok_def)
qed


lemma open_ok: "reg_ok S \<Longrightarrow> dahdi_open E nb tc kz alloc unit S = Some (r, d, T) \<Longrightarrow> reg_ok T"
proof -
  assume ok: "reg_ok S" and o: "dahdi_open E nb tc kz alloc unit S = Some (r, d, T)"
  consider "T = S" | tms where "T = S\<lparr>sw := (sw S)\<lparr>w_timers := tms\<rparr>\<rparr>" | n X where "dahdi_alloc_pseudo kz S = (n, X)" "T = X"
    | n X where "dahdi_alloc_pseudo kz S = (Some n, X)" "dahdi_specchan_open E nb (int n) X = Some (r, T)"
    | "dahdi_specchan_open E nb unit S = Some (r, T)"
    using o unfolding dahdi_open_def by (auto split: if_splits prod.splits sum.splits option.splits)
  then show ?thesis
  proof cases
    case (2 tms)
    then show ?thesis using unregistered_ok [OF ok unregistered_parts(7)] by simp
  next
    case (4 n X)
    have X: "reg_ok X" using alloc_pseudo_ok [OF ok 4(1)] .
    then show ?thesis using unregistered_ok specchan_open_registration [OF reg_okD [OF X] 4(2)] by blast
  next
    case 5
    then show ?thesis using ok unregistered_ok specchan_open_registration [OF reg_okD [OF ok]] by blast
  qed (use ok alloc_pseudo_ok in auto)
qed

lemma release_ok:
  assumes ok: "reg_ok S" and o: "dahdi_release E unit d S = Some (r, T)"
    and p: "unit = 255 \<and> d \<noteq> No_Data \<longrightarrow> (\<exists>n c. d = Chan_Data (int n) \<and> the_chan n S = Some c \<and> chan_span c = None)"
  shows "reg_ok T"
proof -
  consider "T = S" | tms where "T = S\<lparr>sw := (sw S)\<lparr>w_timers := tms\<rparr>\<rparr>" | n where "dahdi_specchan_release E n S = Some (r, T)"
    | n X where "unit = 255" "d = Chan_Data n" "dahdi_specchan_release E n S = Some (r, X)" "T = dahdi_free_pseudo (nat n) X"
    using o unfolding dahdi_release_def by (auto split: if_splits file_data.splits)
  then show ?thesis
  proof cases
    case (2 tms)
    then show ?thesis using unregistered_ok [OF ok unregistered_parts(7)] by simp
  next
    case (3 n)
    then show ?thesis using unregistered_ok [OF ok] specchan_release_registration [OF reg_okD [OF ok]] by blast
  next
    case (4 n X)
    obtain m c where m: "n = int m" "the_chan m S = Some c" "chan_span c = None" using p 4(1,2) by auto
    have u: "unregistered S X" using specchan_release_registration [OF reg_okD [OF ok] 4(3)] .
    have X: "reg_ok X" using unregistered_ok [OF ok u] .
    have l: "m < 1024" using 4(3) m(1) by (simp add: dahdi_specchan_release_def chan_at_def split: if_splits)
    have "map_option ident (the_chan m X) = map_option ident (the_chan m S)"
      using u idents_nth [of m S] idents_nth [of m X] reg_okD [OF ok] reg_okD [OF X] l by (simp add: unregistered_def)
    then have "the_chan m X = None \<or> (\<exists>c. the_chan m X = Some c \<and> chan_span c = None)"
      using m(2,3) by (auto simp: ident_def)
    then show ?thesis using free_pseudo_ok [OF X _ l] 4(4) m(1) by simp
  qed (use ok in simp)
qed

lemma registry_step_ok: "registry_step S T \<Longrightarrow> reg_ok S \<Longrightarrow> reg_ok T"
proof (induction rule: registry_step.induct)
  case (register S drv a cs prefmaster)
  then show ?case by (rule register_ok)
next
  case (unregister shut S a)
  then show ?case using unregister_ok by blast
next
  case (driver g S a)
  then show ?case using upd_span_ok by blast
next
  case (alarm S maint a)
  then show ?case by (rule alarm_notify_ok)
next
  case (opened E nonblock transcode kz alloc unit S r d T)
  then show ?case using open_ok by blast
next
  case (specify E nonblock k S r d T)
  show ?case
  proof (cases "T = S")
    case False
    then have "dahdi_specchan_open E nonblock k S = Some (r, T)"
      using specify.hyps by (auto simp: dahdi_prechan_specify_def split: if_splits)
    then show ?thesis using unregistered_ok [OF specify.prems] specchan_open_registration [OF reg_okD [OF specify.prems]] by blast
  qed (use specify.prems in simp)
next
  case (released E unit d S r T)
  then show ?case using release_ok by blast
qed

lemma registry_reachable_ok: "registry_reachable S \<Longrightarrow> reg_ok S"
proof (induction rule: registry_reachable.induct)
  case (start at)
  then show ?case by (rule sys0_ok)
next
  case (step S T)
  then show ?case using registry_step_ok by blast
qed

lemma master_iff_open: "bound_ok S \<Longrightarrow> master_span S \<noteq> None \<longleftrightarrow> can_open_timer S"
proof (cases "master_span S")
  case None
  assume b: "bound_ok S"
  have "\<not> 0 < maxspans S"
  proof
    assume m: "0 < maxspans S"
    then have "maxspans S - 1 < 128" "spans S ! (maxspans S - 1) \<noteq> None" using b by (auto simp: bound_ok_def)
    moreover have "\<forall>x < 128. spans S ! x = None" using b None unfolding bound_ok_def by blast
    ultimately show False by simp
  qed
  then show ?thesis using None by (simp add: can_open_timer_def)
next
  case (Some a)
  assume b: "bound_ok S"
  then obtain x where x: "x < 128" "spans S ! x = Some a" using Some unfolding bound_ok_def by blast
  have "\<not> maxspans S \<le> x"
  proof
    assume "maxspans S \<le> x"
    then have "spans S ! x = None" using b x(1) unfolding bound_ok_def by blast
    then show False using x(2) by simp
  qed
  then show ?thesis using Some by (simp add: can_open_timer_def)
qed

text \<open>C3. The registry is consistent whatever drivers and users do: there is a master span exactly when timers and pseudo
  channels can be opened, and the master is registered; the table holds a span at a place exactly when it is registered with
  that number; its channels are in the table of channels under their numbers (0: there was no place) and point back to it;
  every channel of the table belongs to no span or to a registered one; and unregistering fails only for a span that is not
  registered.\<close>

theorem registry_consistent:
  assumes "registry_reachable S"
  shows "(master_span S \<noteq> None \<longleftrightarrow> can_open_timer S) \<and>
    (\<forall>a. master_span S = Some a \<longrightarrow> span_registered (span_at S a)) \<and>
    (\<forall>x a. x < 128 \<longrightarrow> (spans S ! x = Some a \<longleftrightarrow> span_registered (span_at S a) \<and> spanno (span_at S a) = int x)) \<and>
    (\<forall>a m. span_registered (span_at S a) \<and> m \<in> set (sp_chans (span_at S a)) \<and> m \<noteq> 0 \<longrightarrow>
       (\<exists>c. the_chan (nat m) S = Some c \<and> channo c = m \<and> chan_span c = Some a)) \<and>
    (\<forall>n c. n < 1024 \<and> the_chan n S = Some c \<longrightarrow> channo c = int n \<and>
       (\<forall>a. chan_span c = Some a \<longrightarrow> span_registered (span_at S a) \<and> int n \<in> set (sp_chans (span_at S a)))) \<and>
    (\<forall>shut a. keeps_registration shut \<longrightarrow> (fst (dahdi_unregister shut a S) = 0 \<longleftrightarrow> span_registered (span_at S a)))"
proof (intro conjI allI impI)
  have ok: "reg_ok S" using assms by (rule registry_reachable_ok)
  then have T: "table_ok S" and B: "bound_ok S" and C: "chans_ok (sys_idents S) (own S)" by (simp_all add: reg_ok_def)
  have len: "length (sys_idents S) = 1024" using reg_okD [OF ok] .
  show "(master_span S \<noteq> None) = can_open_timer S" using master_iff_open [OF B] .
  show "span_registered (span_at S a)" if "master_span S = Some a" for a
    using B T that unfolding bound_ok_def table_ok_def by blast
  show "(spans S ! x = Some a) = (span_registered (span_at S a) \<and> spanno (span_at S a) = int x)" if "x < 128" for x a
    using table_okD(1) [OF T that, of a] table_okD(2) [OF T, of a] by auto
  show "\<exists>c. the_chan (nat m) S = Some c \<and> channo c = m \<and> chan_span c = Some a"
    if "span_registered (span_at S a) \<and> m \<in> set (sp_chans (span_at S a)) \<and> m \<noteq> 0" for a m
  proof -
    have "m \<in> own S a" "m \<noteq> 0" using that by (simp_all add: own_def)
    then obtain k r where m: "1 \<le> m" "m < 1024" "sys_idents S ! nat m = Some (k, r, Some a)" using chans_okD(2) [OF C] by blast
    then have "k = m" using chans_okD(1) [OF C _ m(3)] by simp
    then show ?thesis using m idents_nth [of "nat m" S] len by (auto simp: ident_def)
  qed
  show "channo c = int n" if "n < 1024 \<and> the_chan n S = Some c" for n c
    using that idents_nth [of n S] len chans_okD(1) [OF C, of n "channo c" "flagged c FLAGBIT_REGISTERED" "chan_span c"]
    by (auto simp: ident_def)
  show "span_registered (span_at S a)" "int n \<in> set (sp_chans (span_at S a))"
    if "n < 1024 \<and> the_chan n S = Some c" "chan_span c = Some a" for n c a
    using that idents_nth [of n S] len chans_okD(1) [OF C, of n "channo c" "flagged c FLAGBIT_REGISTERED" "chan_span c" a]
    by (auto simp: ident_def own_def split: if_splits)
  show "(fst (dahdi_unregister shut a S) = 0) = span_registered (span_at S a)" if "keeps_registration shut" for shut a
    using unregister_ok [OF ok that] by simp
qed

text \<open>A span with one channel, which is the master.\<close>

lemma register_ex: "master_span (snd (dahdi_register 0 7 [chan0] True (sys0 (\<lambda>_. span0)))) = Some 7"
proof -
  have "List.find (\<lambda>x. spans (sys0 (\<lambda>_. span0)) ! x = None) [1..<DAHDI_MAX_SPANS] = Some 1"
    by (simp add: sys0_def upt_conv_Cons)
  then show ?thesis unfolding dahdi_register_def by (simp add: sys0_def span0_def Let_def split: prod.split)
qed

theorem registry_consistent_witness:
  "can_open_timer (snd (dahdi_register 0 7 [chan0] True (sys0 (\<lambda>_. span0))))"
proof -
  have "registry_reachable (sys0 (\<lambda>_. span0))" by (rule registry_reachable.start) (simp add: span0_def)
  then have "registry_reachable (snd (dahdi_register 0 7 [chan0] True (sys0 (\<lambda>_. span0))))"
    using registry_reachable.step registry_step.register by blast
  from registry_consistent [OF this] show ?thesis using register_ex by auto
qed


section \<open>A channel that was opened\<close>

text \<open>What hanging up leaves alone beside the buffers.\<close>

definition plain :: "dahdi_chan \<Rightarrow> dahdi_chan \<Rightarrow> bool" where
  "plain c d \<longleftrightarrow> sig d = sig c \<and> cflags d = cflags c \<and> evring d = evring c \<and> confin d = confin c \<and> confout d = confout c \<and>
     confmode d = confmode c \<and> confna d = confna c \<and> ec_state d = ec_state c \<and> curzone d = curzone c \<and> readchunk d = readchunk c \<and>
     (curtone c = None \<longrightarrow> curtone d = None) \<and> firstcadencepos d = firstcadencepos c \<and> (cadencepos c = 0 \<longrightarrow> cadencepos d = 0) \<and>
     (dialing c = 0 \<longrightarrow> dialing d = 0) \<and> (pdialcount c = 0 \<longrightarrow> pdialcount d = 0) \<and> tonep d = tonep c \<and> digitmode d = digitmode c \<and>
     (afterdialingtimer c = 0 \<longrightarrow> afterdialingtimer d = 0) \<and> length (txdialbuf d) \<le> length (txdialbuf c)"

lemma plain_trans: "plain a b \<Longrightarrow> plain b c \<Longrightarrow> plain a c"
  unfolding plain_def using le_trans by auto

lemma plain_upd [simp]: "plain c (c\<lparr>ringdebtimer := t\<rparr>)" "plain c (c\<lparr>kewlonhook := b\<rparr>)" "plain c (c\<lparr>txsig := t\<rparr>)"
  "plain c (c\<lparr>txhooksig := t\<rparr>)" "plain c (emit e c)" "plain c c" "plain c (dahdi_rbs_sethook span tsig st t c)" "plain c (hangup_buffers c)"
  by (simp_all add: plain_def emit_def hangup_buffers_def Let_def dahdi_rbs_sethook_def set_txtone_def split: option.split)

lemma same_bufs_hangup: "same_bufs c (c\<lparr>ringdebtimer := t\<rparr>)" "same_bufs c (c\<lparr>kewlonhook := b\<rparr>)" "same_bufs c (c\<lparr>txsig := t\<rparr>)"
  "same_bufs c (c\<lparr>txhooksig := t\<rparr>)" "same_bufs c (emit e c)" "same_bufs c c" "same_bufs c (dahdi_rbs_sethook span tsig st t c)"
  by (simp_all add: same_bufs_def emit_def Let_def dahdi_rbs_sethook_def set_txtone_def split: option.split)

lemma hangup_signal_keeps: "plain c (snd (hangup_signal span drv c)) \<and> same_bufs c (snd (hangup_signal span drv c))"
proof -
  have "plain c (emit (SpanRbsbits b) (c\<lparr>txsig := b\<rparr>)) \<and> same_bufs c (emit (SpanRbsbits b) (c\<lparr>txsig := b\<rparr>))" for b
    using plain_trans [OF plain_upd(3) plain_upd(5)] same_bufs_trans [OF same_bufs_hangup(3,5)] by blast
  moreover have "plain c (emit (SpanSethook 0) (c\<lparr>txhooksig := 0\<rparr>)) \<and> same_bufs c (emit (SpanSethook 0) (c\<lparr>txhooksig := 0\<rparr>))"
    using plain_trans [OF plain_upd(4) plain_upd(5)] same_bufs_trans [OF same_bufs_hangup(4,5)] by blast
  ultimately show ?thesis by (simp add: hangup_signal_def dahdi_cas_setbits_def same_bufs_hangup)
qed

text \<open>Buffers that are allocated and hold nothing.\<close>

definition fresh :: "dahdi_chan \<Rightarrow> bool" where
  "fresh c \<longleftrightarrow> bufs_ok c \<and> tx_frames c = [] \<and> rx_frames c = []"

lemma fresh_cong: "same_bufs c d \<Longrightarrow> fresh d = fresh c"
  using same_bufsD by (simp add: fresh_def)

lemma fresh_hangup_buffers: "fresh c \<Longrightarrow> fresh (hangup_buffers c)"
proof -
  assume f: "fresh c"
  then have b: "bufs_ok c" by (simp add: fresh_def)
  have n: "2 \<le> numbufs c" "numbufs c \<le> 32" "0 < blocksize c" using b by (auto simp: bufs_ok_def ring_ok_def)
  have "length (readbuf c ! 0) = nat (blocksize c)" using b n by (simp add: bufs_ok_def slots_ok_def)
  then have r: "readbuf c ! 0 \<noteq> []" using n by auto
  have z: "(replicate k 0 @ xs) ! x = (0::int)" if "x < k" for k x and xs :: "int list" using that by (simp add: nth_append)
  have h: "numbufs (hangup_buffers c) = numbufs c" "blocksize (hangup_buffers c) = blocksize c" "inreadbuf (hangup_buffers c) = 0"
    "inwritebuf (hangup_buffers c) = 0" "outreadbuf (hangup_buffers c) = -1" "outwritebuf (hangup_buffers c) = -1"
    "readbuf (hangup_buffers c) = readbuf c" "writebuf (hangup_buffers c) = writebuf c"
    using r by (simp_all add: hangup_buffers_def Let_def)
  have i: "length (readn (hangup_buffers c)) = 32 \<and> length (readidx (hangup_buffers c)) = 32 \<and> length (writen (hangup_buffers c)) = 32 \<and>
      length (writeidx (hangup_buffers c)) = 32"
    using b n by (simp add: hangup_buffers_def Let_def bufs_ok_def)
  have v: "readn (hangup_buffers c) ! x = 0 \<and> readidx (hangup_buffers c) ! x = 0 \<and> writen (hangup_buffers c) ! x = 0 \<and> writeidx (hangup_buffers c) ! x = 0"
    if "x < nat (numbufs c)" for x
    using that z by (simp add: hangup_buffers_def Let_def)
  have "slots_ok (hangup_buffers c)" using b n v by (simp add: slots_ok_def h bufs_ok_def)
  then have "bufs_ok (hangup_buffers c)" using b n i by (simp add: bufs_ok_def h)
  then show ?thesis by (simp add: fresh_def tx_frames_def rx_frames_def tx_slots_def rx_slots_def h)
qed

lemma hangup_keeps: "plain c (snd (dahdi_hangup span drv c)) \<and> (fresh c \<longrightarrow> fresh (snd (dahdi_hangup span drv c)))"
proof -
  define d where "d = (let c = c\<lparr>kewlonhook := False\<rparr>
     in if sig c = SIG_FXSLS \<or> sig c = SIG_FXSKS \<or> sig c = SIG_FXSGS then c\<lparr>ringdebtimer := RING_DEBOUNCE_TIME\<rparr> else c)"
  obtain r e where e: "hangup_signal span drv d = (r, e)" by fastforce
  have d: "plain c d" "same_bufs c d" by (simp_all add: d_def Let_def plain_def same_bufs_def)
  have s: "plain d e" "same_bufs d e" using hangup_signal_keeps [of d span drv] e by simp_all
  have pe: "plain c e" "fresh e = fresh c" using plain_trans [OF d(1) s(1)] fresh_cong [OF same_bufs_trans [OF d(2) s(2)]] by simp_all
  have eq: "dahdi_hangup span drv c = (if chan_span c = None then (0, c)
      else if flagged c FLAGBIT_CLEAR \<or> flagged c FLAGBIT_NOSTDTXRX then (- EINVAL, c)
      else case hangup_signal span drv d of (res, c) \<Rightarrow> if \<not> flagged c FLAGBIT_REGISTERED then (res, c) else (res, hangup_buffers c))"
    unfolding dahdi_hangup_def d_def Let_def ..
  have "snd (dahdi_hangup span drv c) = c \<or> snd (dahdi_hangup span drv c) = e \<or> snd (dahdi_hangup span drv c) = hangup_buffers e"
    unfolding eq e prod.case by auto
  then show ?thesis
  proof (elim disjE)
    assume "snd (dahdi_hangup span drv c) = hangup_buffers e"
    then show ?thesis using plain_trans [OF pe(1) plain_upd(8)] fresh_hangup_buffers [of e] pe(2) by simp
  qed (use pe in simp_all)
qed


text \<open>The zones that are registered are there, and their tones can be played.\<close>

definition zone_live :: "tone_globals \<Rightarrow> nat \<Rightarrow> bool" where
  "zone_live G a \<longleftrightarrow> (\<exists>z. zone_at G a = Some z \<and> zone_wf a z)"

definition good_tones :: "tone_globals \<Rightarrow> bool" where
  "good_tones G \<longleftrightarrow> tones_good G \<and> (\<forall>n a. n < TONE_ZONE_MAX \<and> tone_zones G ! n = Some a \<longrightarrow> zone_live G a)"

lemma zone_live_atomic [simp]: "zone_live (atomic_inc a G) b = zone_live G b" "zone_live (atomic_dec a G) b = zone_live G b"
  by (auto simp: zone_live_def zone_at_atomic zone_wf_cong)

lemma good_tones_atomic: "good_tones G \<Longrightarrow> good_tones (atomic_inc a G)" "good_tones G \<Longrightarrow> good_tones (atomic_dec a G)"
  by (simp_all add: good_tones_def tones_good_atomic)

text \<open>So it is in every state of the zones.\<close>

lemma tone_run_good_tones:
  assumes "tone_run (G, cs)"
  shows "good_tones G" "c \<in> set cs \<Longrightarrow> curzone c = Some a \<Longrightarrow> zone_live G a"
proof -
  have t: "tones_good G" and z: "zones_ok (G, cs)" using tone_run_good [OF assms] by simp_all
  have l: "zone_live G a" if "zone_at G a = Some z" for a z
    using that tones_good_zone [OF t that] by (simp add: zone_live_def zone_good_def)
  have "zone_live G a" if "n < TONE_ZONE_MAX" "tone_zones G ! n = Some a" for n a
    using zones_okD(2) [OF z, of n a] that l by (auto simp: registered_def)
  then show "good_tones G" using t unfolding good_tones_def by blast
  show "zone_live G a" if "c \<in> set cs" "curzone c = Some a" for c a
    using tone_run_zone [OF assms that] l by blast
qed

text \<open>A channel whose tables have their sizes, as allocated.\<close>

definition shaped :: "dahdi_chan \<Rightarrow> bool" where
  "shaped c \<longleftrightarrow> length (readbuf c) = 32 \<and> length (writebuf c) = 32 \<and> length (readn c) = 32 \<and> length (readidx c) = 32 \<and>
     length (writen c) = 32 \<and> length (writeidx c) = 32 \<and> evq_ok (evring c) \<and> confq_ok (confin c) \<and> confq_ok (confout c) \<and>
     length (readchunk c) = 8 \<and> length (txdialbuf c) \<le> 255"

text \<open>What a channel is when it has just been opened.\<close>

definition opened_chan :: "tone_globals \<Rightarrow> dahdi_chan \<Rightarrow> bool" where
  "opened_chan G c \<longleftrightarrow> fresh c \<and> evq_ok (evring c) \<and> evq_list (evring c) = [] \<and>
     confq_ok (confin c) \<and> confq_list (confin c) = [] \<and> confq_ok (confout c) \<and> confq_list (confout c) = [] \<and>
     confmode c = 0 \<and> confna c = 0 \<and> ec_state c = None \<and> curtone c = None \<and> length (readchunk c) = 8 \<and>
     tonep c = 0 \<and> dialing c = 0 \<and> pdialcount c = 0 \<and> digitmode c = DIGIT_MODE_DTMF \<and> afterdialingtimer c = 0 \<and>
     length (txdialbuf c) \<le> 255 \<and>
     cadencepos c = 0 \<and> firstcadencepos c = 0 \<and> (\<forall>a. curzone c = Some a \<longrightarrow> zone_live G a)"

text \<open>An opened channel is ready to transmit.\<close>

lemma opened_ready: "opened_chan G c \<Longrightarrow> good_tones G \<Longrightarrow> \<not> flagged c FLAGBIT_MTP2 \<Longrightarrow> tx_ready G c"
proof -
  assume o: "opened_chan G c" and g: "good_tones G" and m: "\<not> flagged c FLAGBIT_MTP2"
  have "tx_slots c = []" using o by (simp add: opened_chan_def fresh_def tx_frames_def)
  then show ?thesis
    using o g m by (auto simp: tx_ready_def opened_chan_def fresh_def tx_room_def tones_ok_def playing_def good_tones_def zone_live_def)
qed

lemma set_tone_zone_keeps:
  assumes "set_tone_zone n G c = (r, H, d)" "good_tones G" "\<forall>a. curzone c = Some a \<longrightarrow> zone_live G a"
  shows "good_tones H \<and> (\<forall>a. curzone d = Some a \<longrightarrow> zone_live H a) \<and> (\<exists>z t rc. d = c\<lparr>curzone := z, tonezone := t, ringcadence := rc\<rparr>) \<and>
    (\<forall>b. n = -1 \<and> 0 \<le> default_zone G \<and> registered G (nat (default_zone G)) b \<longrightarrow> curzone d = Some b)"
proof -
  define m where "m = (if n = -1 then default_zone G else n)"
  show ?thesis
  proof (cases "(m \<ge> int TONE_ZONE_MAX \<or> m < 0) \<or> tone_zones G ! nat m = None")
    case True
    then have "H = G" "d = c"
      using assms(1) unfolding set_tone_zone_def m_def [symmetric] Let_def by (auto split: if_splits option.splits)
    moreover have "\<not> (n = -1 \<and> 0 \<le> default_zone G \<and> registered G (nat (default_zone G)) b)" for b
      using True by (auto simp: m_def registered_def nat_less_iff)
    ultimately show ?thesis
      using assms(2,3) by (intro conjI exI [of _ "curzone c"] exI [of _ "tonezone c"] exI [of _ "ringcadence c"]) auto
  next
    case False
    then obtain z where z: "tone_zones G ! nat m = Some z" "\<not> (m \<ge> int TONE_ZONE_MAX \<or> m < 0)" by auto
    define G1 where "G1 = (case curzone c of Some a \<Rightarrow> atomic_dec a G | None \<Rightarrow> G)"
    have H: "H = atomic_inc z G1" "\<exists>rc. d = c\<lparr>curzone := Some z, tonezone := m, ringcadence := rc\<rparr>"
      using assms(1) unfolding set_tone_zone_def m_def [symmetric] Let_def if_not_P [OF z(2)] z(1) option.case G1_def [symmetric] by auto
    have "nat m < TONE_ZONE_MAX" using z(2) by auto
    then have "zone_live G z" using assms(2) z(1) unfolding good_tones_def by blast
    then have "zone_live H z" "good_tones H" using assms(2) by (simp_all add: H(1) G1_def good_tones_atomic split: option.split)
    moreover have "n = -1 \<and> registered G (nat (default_zone G)) b \<longrightarrow> z = b" for b using z(1) by (auto simp: m_def registered_def)
    ultimately show ?thesis using H(2) by auto
  qed
qed


lemma init_first_parts:
  "same_bufs c (init_first c)" "evring (init_first c) = evring c" "confin (init_first c) = reset_confq (confin c)"
  "confout (init_first c) = reset_confq (confout c)" "ec_state (init_first c) = None" "cadencepos (init_first c) = 0"
  "firstcadencepos (init_first c) = 0" "readchunk (init_first c) = readchunk c" "curzone (init_first c) = curzone c"
  "sig (init_first c) = sig c" "cflags (init_first c) = cflags c" "dialing (init_first c) = 0" "digitmode (init_first c) = 0"
  "afterdialingtimer (init_first c) = 0" "txdialbuf (init_first c) = txdialbuf c"
  by (simp_all add: init_first_def reset_conf_def init_rbs_def Let_def same_bufs_def)

lemma init_conf_parts:
  assumes "sig c AND SIG_MASK_DACS \<noteq> SIG_MASK_DACS"
  shows "same_bufs c (init_conf span c)" "evring (init_conf span c) = evring c" "confin (init_conf span c) = confin c"
    "confout (init_conf span c) = confout c" "ec_state (init_conf span c) = ec_state c" "cadencepos (init_conf span c) = cadencepos c"
    "firstcadencepos (init_conf span c) = firstcadencepos c" "readchunk (init_conf span c) = readchunk c"
    "curzone (init_conf span c) = curzone c" "confmode (init_conf span c) = 0" "confna (init_conf span c) = 0"
    "sig (init_conf span c) = sig c" "cflags (init_conf span c) = cflags c" "dialing (init_conf span c) = dialing c"
    "digitmode (init_conf span c) = digitmode c" "afterdialingtimer (init_conf span c) = afterdialingtimer c"
    "txdialbuf (init_conf span c) = txdialbuf c"
  using assms by (simp_all add: init_conf_def emit_def Let_def same_bufs_def)

lemma init_flags_parts:
  "init_flags c = c\<lparr>cflags := cflags (init_flags c)\<rparr>" "flagged (init_flags c) FLAGBIT_OPEN = flagged c FLAGBIT_OPEN"
  "flagged (init_flags c) FLAGBIT_MTP2 = flagged c FLAGBIT_MTP2"
  by (simp_all add: init_flags_def Let_def clear_flag_def bit_and_iff bit_not_iff bit_push_bit_iff)

definition init_ready :: "tone_globals \<Rightarrow> dahdi_chan \<Rightarrow> bool" where
  "init_ready G c \<longleftrightarrow> fresh c \<and> evq_ok (evring c) \<and> confq_ok (confin c) \<and> confq_list (confin c) = [] \<and>
     confq_ok (confout c) \<and> confq_list (confout c) = [] \<and> confmode c = 0 \<and> confna c = 0 \<and> ec_state c = None \<and>
     length (readchunk c) = 8 \<and> dialing c = 0 \<and> digitmode c = DIGIT_MODE_DTMF \<and> afterdialingtimer c = 0 \<and>
     length (txdialbuf c) \<le> 255 \<and> cadencepos c = 0 \<and> firstcadencepos c = 0 \<and> (\<forall>a. curzone c = Some a \<longrightarrow> zone_live G a)"

lemma init_last_opened:
  assumes "init_ready G c"
  shows "opened_chan G (init_last at span drv H c) \<and> sig (init_last at span drv H c) = sig c \<and>
    flagged (init_last at span drv H c) FLAGBIT_OPEN = flagged c FLAGBIT_OPEN \<and>
    flagged (init_last at span drv H c) FLAGBIT_MTP2 = flagged c FLAGBIT_MTP2"
proof -
  define d where "d = default_gains ((zero_chunks c)\<lparr>confmute := 0, gotgs := False, curtone := None, tonep := 0, pdialcount := 0\<rparr>)"
  define e where "e = dahdi_set_law at 0 (d\<lparr>evring := flush_q (evring d)\<rparr>)"
  define f where "f = snd (dahdi_hangup span drv e)"
  define g where "g = init_flags f"
  have i: "init_last at span drv H c = init_cadence H g"
    unfolding init_last_def Let_def d_def [symmetric] e_def [symmetric] f_def [symmetric] g_def [symmetric] ..
  have e: "same_bufs c e" "evring e = flush_q (evring c)" "confin e = confin c" "confout e = confout c" "confmode e = confmode c"
    "confna e = confna c" "ec_state e = ec_state c" "readchunk e = readchunk c" "cadencepos e = cadencepos c"
    "firstcadencepos e = firstcadencepos c" "curzone e = curzone c" "curtone e = None" "sig e = sig c" "cflags e = cflags c"
    "tonep e = 0" "pdialcount e = 0" "dialing e = dialing c" "digitmode e = digitmode c" "afterdialingtimer e = afterdialingtimer c"
    "txdialbuf e = txdialbuf c"
    by (simp_all add: e_def d_def default_gains_def zero_chunks_def dahdi_set_law_def Let_def same_bufs_def)
  have f: "plain e f" "fresh f" using hangup_keeps [of e span drv] fresh_cong [OF e(1)] assms by (simp_all add: f_def init_ready_def)
  have g: "g = f\<lparr>cflags := cflags g\<rparr>" "flagged g FLAGBIT_OPEN = flagged f FLAGBIT_OPEN" "flagged g FLAGBIT_MTP2 = flagged f FLAGBIT_MTP2"
    using init_flags_parts [of f] by (simp_all add: g_def)
  have h: "same_bufs f (init_cadence H g)" "evring (init_cadence H g) = evring f" "confin (init_cadence H g) = confin f"
    "confout (init_cadence H g) = confout f" "confmode (init_cadence H g) = confmode f" "confna (init_cadence H g) = confna f"
    "ec_state (init_cadence H g) = ec_state f" "readchunk (init_cadence H g) = readchunk f" "cadencepos (init_cadence H g) = cadencepos f"
    "firstcadencepos (init_cadence H g) = firstcadencepos f" "curzone (init_cadence H g) = curzone f"
    "curtone (init_cadence H g) = curtone f" "sig (init_cadence H g) = sig f" "cflags (init_cadence H g) = cflags g"
    "tonep (init_cadence H g) = tonep f" "pdialcount (init_cadence H g) = pdialcount f" "dialing (init_cadence H g) = dialing f"
    "digitmode (init_cadence H g) = digitmode f" "afterdialingtimer (init_cadence H g) = afterdialingtimer f"
    "txdialbuf (init_cadence H g) = txdialbuf f"
    by (subst g(1), simp add: init_cadence_def same_bufs_def)+
  have "opened_chan G (init_cadence H g)"
    using assms f e flush_q_ok [of "evring c"] fresh_cong [OF h(1)] unfolding opened_chan_def init_ready_def plain_def h by simp
  then show ?thesis using f(1) e(13,14) g(2,3) h(13,14) by (simp add: i plain_def)
qed

lemma zones_kept [simp]: "w_zones (sw (set_chan n c S)) = w_zones (sw S)" "w_zones (sw (on_conf f S)) = w_zones (sw S)"
  by (simp_all add: set_chan_def)

lemma the_chan_set: "n < length (sys_idents S) \<Longrightarrow> the_chan n (set_chan n c S) = (if the_chan n S = None then None else Some c)"
  by (simp add: the_chan_def set_chan_def w_chan_upd idents_def)

lemma the_chan_none: "unregistered S T \<Longrightarrow> n < length (sys_idents S) \<Longrightarrow> the_chan n T = None \<longleftrightarrow> the_chan n S = None"
  using idents_nth [of n S] idents_nth [of n T] by (auto simp: unregistered_def)

lemma holds_chan: "holds (Some n) c S \<Longrightarrow> n < length (sys_idents S) \<and> the_chan n S \<noteq> None"
proof -
  assume h: "holds (Some n) c S"
  then have n: "n < length (sys_idents S)" "sys_idents S ! n = Some (ident c)" by (simp_all add: holds_def)
  then have "map_option ident (the_chan n S) = Some (ident c)" using idents_nth [OF n(1)] by simp
  then show ?thesis using n(1) by (cases "the_chan n S") simp_all
qed

lemma initialize_opened:
  assumes i: "initialize_channel kz1 kz2 drv n c S = (0, T)" and h: "holds (Some n) c S"
    and c: "shaped c" "sig c AND SIG_MASK_DACS \<noteq> SIG_MASK_DACS" "\<forall>a. curzone c = Some a \<longrightarrow> zone_live (w_zones (sw S)) a"
    and g: "good_tones (w_zones (sw S))"
  shows "\<exists>d. the_chan n T = Some d \<and> opened_chan (w_zones (sw T)) d \<and> good_tones (w_zones (sw T)) \<and> sig d = sig c \<and>
    flagged d FLAGBIT_OPEN = flagged c FLAGBIT_OPEN \<and> flagged d FLAGBIT_MTP2 = flagged c FLAGBIT_MTP2 \<and>
    (\<forall>a. 0 \<le> default_zone (w_zones (sw S)) \<and> registered (w_zones (sw S)) (nat (default_zone (w_zones (sw S)))) a \<longrightarrow> curzone d = Some a)"
proof -
  obtain r b where R: "dahdi_reallocbufs kz1 kz2 1024 2 c = (r, b)" by fastforce
  have r0: "r = 0" using i R by (auto simp: initialize_channel_def split: if_splits)
  then have k: "kz1" "kz2" using R by (auto simp: dahdi_reallocbufs_def Let_def split: if_splits)
  have b: "fresh b" using reallocbufs_ok [of 1024 c 2] c(1) R k by (simp add: shaped_def fresh_def)
  have bs: "evring b = evring c" "confin b = confin c" "confout b = confout c" "readchunk b = readchunk c" "curzone b = curzone c"
    "sig b = sig c" "cflags b = cflags c" "txdialbuf b = txdialbuf c"
    using R k by (auto simp: dahdi_reallocbufs_def Let_def)
  define d where "d = init_first b"
  define A where "A = set_chan n d S"
  define B where "B = (if confna d \<noteq> 0 then on_conf (check_conf (confna d)) A else A)"
  define e where "e = init_last (span_at B) (span_of S b) drv (w_zones (sw B)) (init_conf (span_of S b) d)"
  define C where "C = B\<lparr>ec_cur := (ec_cur B)(n := None)\<rparr>"
  define D where "D = (if ec_state b \<noteq> None then C\<lparr>sys_refs := release_echocan (ec_cur S n) (sys_refs C)\<rparr> else C)"
  obtain z G f where z: "set_tone_zone (-1) (w_zones (sw D)) e = (z, G, f)" by (metis prod_cases3)
  have T: "T = set_chan n f (on_zones (\<lambda>_. G) D)"
    using i r0 unfolding initialize_channel_def R Let_def prod.case d_def [symmetric] A_def [symmetric] B_def [symmetric]
      e_def [symmetric] C_def [symmetric] D_def [symmetric] z by simp
  have w: "w_zones (sw D) = w_zones (sw S)" "w_zones (sw T) = G" by (simp_all add: D_def C_def B_def A_def T)
  have ds: "sig d = sig c" "cflags d = cflags c" "curzone d = curzone c" by (simp_all add: d_def init_first_parts bs)
  have "sig d AND SIG_MASK_DACS \<noteq> SIG_MASK_DACS" using c(2) ds by simp
  note P = init_conf_parts [OF this, of "span_of S b"]
  have "fresh d" using b fresh_cong [OF init_first_parts(1), of b] by (simp add: d_def)
  then have "fresh (init_conf (span_of S b) d)" using fresh_cong [OF P(1)] by simp
  then have "init_ready (w_zones (sw S)) (init_conf (span_of S b) d)"
    using c(1,3) ds reset_confq_ok by (simp add: init_ready_def P) (simp add: d_def init_first_parts bs shaped_def)
  note L = init_last_opened [OF this, of "span_at B" "span_of S b" drv "w_zones (sw B)", folded e_def]
  have cz: "\<forall>a. curzone e = Some a \<longrightarrow> zone_live (w_zones (sw D)) a" using L by (simp add: opened_chan_def w)
  obtain zz t rc where F: "f = e\<lparr>curzone := zz, tonezone := t, ringcadence := rc\<rparr>" "good_tones G" "\<forall>a. curzone f = Some a \<longrightarrow> zone_live G a"
    "\<forall>a. 0 \<le> default_zone (w_zones (sw S)) \<and> registered (w_zones (sw S)) (nat (default_zone (w_zones (sw S)))) a \<longrightarrow> curzone f = Some a"
    using set_tone_zone_keeps [OF z _ cz] g w by auto
  have "fresh f" using L fresh_cong [of e f] by (simp add: opened_chan_def F(1) same_bufs_def)
  then have "opened_chan G f" using L F(3) by (simp add: opened_chan_def F(1))
  moreover have "the_chan n T = Some f"
  proof -
    have "unregistered S T" using initialize_registration [OF h i] .
    moreover have "n < length (sys_idents S)" "the_chan n S \<noteq> None" using holds_chan [OF h] by simp_all
    ultimately have "the_chan n T \<noteq> None" using the_chan_none [of S T n] by simp
    moreover have "n < length (chans (w_sys (sw T)))"
      using \<open>unregistered S T\<close> \<open>n < length (sys_idents S)\<close> by (simp add: unregistered_def idents_def) (metis length_map)
    then have "n < length (chans (w_sys (sw D)))" by (simp add: T set_chan_def w_upd_def upd_chan_def)
    ultimately show ?thesis unfolding T by (auto simp: the_chan_def set_chan_def w_chan_upd w_chan_def w_upd_def upd_chan_def)
  qed
  ultimately show ?thesis using L F(1,2,4) w(2) P(12,13) ds(1,2) by simp
qed


lemma opened_chan_flags: "opened_chan G (set_flag F c) = opened_chan G c" "opened_chan G (c\<lparr>chan_file := b\<rparr>) = opened_chan G c"
proof -
  have "same_bufs c (set_flag F c)" "same_bufs c (c\<lparr>chan_file := b\<rparr>)" by (simp_all add: same_bufs_def set_flag_def)
  then show "opened_chan G (set_flag F c) = opened_chan G c" "opened_chan G (c\<lparr>chan_file := b\<rparr>) = opened_chan G c"
    using fresh_cong by (simp_all add: opened_chan_def) (simp_all add: set_flag_def)
qed

text \<open>C10. Opening a channel makes it ready for everything else: when it succeeds the channel is marked open with its file, its
  buffers are allocated and empty, its event ring and its conference queues are empty, it is in no conference, dials
  nothing and plays no tone, it has no echo canceller, and its tone zone is one that is there: the default one when there
  is one. It satisfies the condition under which a chunk is always completed (C18), and a second open is refused without
  an effect. This holds from whatever the channel was before, its tables having their sizes, in every state of the
  zones that C18 covers.\<close>

theorem opened_channel_ready:
  assumes o: "dahdi_specchan_open E nb u S = Some (0, T)" and c: "chan_at (w_sys (sw S)) u = Some (Some c)"
    and len: "length (sys_idents S) = 1024" and sh: "shaped c"
    and run: "tone_run (w_zones (sw S), cs)" "c \<in> set cs"
  shows "\<exists>d. the_chan (nat u) T = Some d \<and> flagged d FLAGBIT_OPEN \<and> chan_file d = Some nb \<and> opened_chan (w_zones (sw T)) d \<and>
    (\<forall>a. 0 \<le> default_zone (w_zones (sw S)) \<and> registered (w_zones (sw S)) (nat (default_zone (w_zones (sw S)))) a \<longrightarrow> curzone d = Some a) \<and>
    (\<not> flagged c FLAGBIT_MTP2 \<longrightarrow> tx_ready (w_zones (sw T)) d) \<and> dahdi_specchan_open E2 nb2 u T = Some (- EBUSY, T)"
proof -
  have g: "good_tones (w_zones (sw S))" "\<forall>a. curzone c = Some a \<longrightarrow> zone_live (w_zones (sw S)) a"
    using tone_run_good_tones [OF run(1)] run(2) by blast+
  define n where "n = nat u"
  define d where "d = set_flag FLAGBIT_OPEN c"
  have g0: "sig c \<noteq> 0" "\<not> flagged c FLAGBIT_NETDEV" "master c = u" "sig c AND SIG_MASK_DACS \<noteq> SIG_MASK_DACS" "\<not> flagged c FLAGBIT_OPEN"
    using o c by (auto simp: dahdi_specchan_open_def Let_def split: if_splits)
  obtain res X where i: "initialize_channel (oe_kz1 E) (oe_kz2 E) (oe_drv E) n d (set_chan n d S) = (res, X)" by fastforce
  have h: "holds (Some n) d S" using holds_at [OF c len, of d] by (simp add: n_def d_def)
  have u0: "unregistered S (set_chan n d S)" using h by (rule unregistered_parts(6))
  have h0: "holds (Some n) d (set_chan n d S)" using holds_unregistered [OF h u0 refl] .
  have res: "res = 0"
    using o c g0 i by (auto simp: dahdi_specchan_open_def Let_def d_def [symmetric] n_def [symmetric] split: if_splits)
  have dd: "shaped d" "sig d = sig c" "curzone d = curzone c" "flagged d FLAGBIT_OPEN" "flagged d FLAGBIT_MTP2 = flagged c FLAGBIT_MTP2"
    using sh by (simp_all add: d_def flagged_set_flag) (simp_all add: shaped_def set_flag_def)
  obtain b where b: "the_chan n X = Some b" "opened_chan (w_zones (sw X)) b" "good_tones (w_zones (sw X))" "sig b = sig c"
    "flagged b FLAGBIT_OPEN" "flagged b FLAGBIT_MTP2 = flagged c FLAGBIT_MTP2"
    "\<forall>a. 0 \<le> default_zone (w_zones (sw S)) \<and> registered (w_zones (sw S)) (nat (default_zone (w_zones (sw S)))) a \<longrightarrow> curzone b = Some a"
    using initialize_opened [OF i [unfolded res] h0 dd(1)] dd g g0(4) by auto
  define e where "e = (if flagged b FLAGBIT_PSEUDO then set_flag FLAGBIT_AUDIO b else b)"
  have T: "T = set_chan n (e\<lparr>chan_file := Some nb\<rparr>) X"
    using o c g0 i res b(1)
    by (simp add: dahdi_specchan_open_def Let_def d_def [symmetric] n_def [symmetric] e_def [symmetric] split: if_splits prod.splits)
  have e: "opened_chan (w_zones (sw X)) e" "sig e = sig c" "flagged e FLAGBIT_OPEN" "flagged e FLAGBIT_MTP2 = flagged c FLAGBIT_MTP2"
    using b opened_chan_flags(1) by (simp_all add: e_def flagged_set_flag) (simp add: set_flag_def)
  have cz: "curzone e = curzone b" by (simp add: e_def set_flag_def)
  have nX: "n < length (sys_idents X)"
    using initialize_registration [OF h0 i] u0 h by (simp add: unregistered_def holds_def)
  define f where "f = e\<lparr>chan_file := Some nb\<rparr>"
  have f: "the_chan n T = Some f" "opened_chan (w_zones (sw T)) f" "good_tones (w_zones (sw T))"
    using the_chan_set [OF nX] b(1,3) e(1) opened_chan_flags(2) by (simp_all add: T f_def)
  have ff: "flagged f FLAGBIT_OPEN" "chan_file f = Some nb" "flagged f FLAGBIT_MTP2 = flagged c FLAGBIT_MTP2" "sig f = sig c" "curzone f = curzone b"
    using e cz by (simp_all add: f_def)
  have "chan_at (w_sys (sw T)) u = Some (Some f)"
    using f(1) c by (auto simp: chan_at_def the_chan_def w_chan_def n_def split: if_splits)
  then have "dahdi_specchan_open E2 nb2 u T = Some (- EBUSY, T)"
    using ff(1,4) g0(1) by (simp add: dahdi_specchan_open_def Let_def)
  then show ?thesis using f ff b(7) opened_ready [OF f(2,3)] by (auto simp: n_def [symmetric])
qed

lemma specchan_open_succeeds:
  assumes c: "chan_at (w_sys (sw S)) u = Some (Some c)" and len: "length (sys_idents S) = 1024"
    and g: "sig c \<noteq> 0" "\<not> flagged c FLAGBIT_NETDEV" "master c = u" "sig c AND SIG_MASK_DACS \<noteq> SIG_MASK_DACS" "\<not> flagged c FLAGBIT_OPEN"
    and e: "oe_kz1 E" "oe_kz2 E" "oe_open E = None"
  shows "\<exists>T. dahdi_specchan_open E nb u S = Some (0, T)"
proof -
  define d where "d = set_flag FLAGBIT_OPEN c"
  obtain res X where i: "initialize_channel (oe_kz1 E) (oe_kz2 E) (oe_drv E) (nat u) d (set_chan (nat u) d S) = (res, X)" by fastforce
  have h: "holds (Some (nat u)) d S" using holds_at [OF c len, of d] by (simp add: d_def)
  have u0: "unregistered S (set_chan (nat u) d S)" using h by (rule unregistered_parts(6))
  have h0: "holds (Some (nat u)) d (set_chan (nat u) d S)" using holds_unregistered [OF h u0 refl] .
  have "fst (dahdi_reallocbufs True True 1024 2 d) = 0" by (simp add: dahdi_reallocbufs_def Let_def)
  then have "res = 0" using i e(1,2) by (auto simp: initialize_channel_def Let_def split: prod.splits if_splits)
  moreover have "the_chan (nat u) X \<noteq> None"
    using the_chan_none [OF initialize_registration [OF h0 i], of "nat u"] holds_chan [OF h0] by simp
  then obtain b where "the_chan (nat u) X = Some b" by auto
  ultimately show ?thesis using c g e(3) i by (simp add: dahdi_specchan_open_def Let_def d_def [symmetric])
qed

text \<open>A channel without a span, which is registered and closed, in a module with one zone.\<close>

definition open_chan :: dahdi_chan where
  "open_chan = chan0\<lparr>sig := SIG_FXSKS, master := 1, channo := 1, cflags := 1\<rparr>"

definition open_ex :: dahdi_sys where
  "open_ex = (sys0 (\<lambda>_. span0))\<lparr>sw := \<lparr>w_sys = conf_sys0\<lparr>chans := (replicate 1024 None)[1 := Some open_chan]\<rparr>,
     w_sums = sums0, w_zones = snd (load_ex 0 tone_globals0), w_timers = []\<rparr>\<rparr>"

lemma open_ex_facts: "chan_at (w_sys (sw open_ex)) 1 = Some (Some open_chan)" "length (sys_idents open_ex) = 1024" "shaped open_chan"
  "tone_run (w_zones (sw open_ex), [open_chan])"
proof -
  show "chan_at (w_sys (sw open_ex)) 1 = Some (Some open_chan)" by (simp add: chan_at_def open_ex_def)
  show "length (sys_idents open_ex) = 1024" by (simp add: idents_def open_ex_def)
  show "shaped open_chan" using evq_ok_init confq_ok_init by (simp add: shaped_def open_chan_def chan0_def)
  have "tone_run (tone_globals0, [open_chan])" by (rule tone_run.start) (simp add: open_chan_def chan0_def)
  then show "tone_run (w_zones (sw open_ex), [open_chan])"
    unfolding open_ex_def load_ex_def using tone_run.load [of tone_globals0 "[open_chan]" "\<lambda>_. Some td_ex"] by (simp add: td_ex_def)
qed

theorem opened_channel_ready_witness:
  "\<exists>T d. dahdi_specchan_open \<lparr>oe_kz1 = True, oe_kz2 = True, oe_drv = 0, oe_open = None, oe_close = None\<rparr> False 1 open_ex = Some (0, T) \<and>
     the_chan 1 T = Some d \<and> tx_ready (w_zones (sw T)) d \<and> curzone d = Some 0"
proof -
  let ?E = "\<lparr>oe_kz1 = True, oe_kz2 = True, oe_drv = 0, oe_open = None, oe_close = None\<rparr>"
  have g: "sig open_chan \<noteq> 0" "\<not> flagged open_chan FLAGBIT_NETDEV" "master open_chan = 1"
    "sig open_chan AND SIG_MASK_DACS \<noteq> SIG_MASK_DACS" "\<not> flagged open_chan FLAGBIT_OPEN" "\<not> flagged open_chan FLAGBIT_MTP2"
    by (simp_all add: open_chan_def)
  obtain T where T: "dahdi_specchan_open ?E False 1 open_ex = Some (0, T)"
    using specchan_open_succeeds [OF open_ex_facts(1,2) g(1-5), of ?E False] by auto
  have z: "0 \<le> default_zone (w_zones (sw open_ex))" "registered (w_zones (sw open_ex)) (nat (default_zone (w_zones (sw open_ex)))) 0"
    by (simp_all add: open_ex_def load_ex0 registered_def)
  show ?thesis using opened_channel_ready [OF T open_ex_facts, of ?E False] z T g(6) by auto
qed

end
