(* ===== verification/Dynamic.thy ===== *)
theory Dynamic
  imports Lifecycle
begin

text \<open>
  Dynamic spans (\<open>dahdi_dynamic.c\<close>, TDM over X): a span whose chunks travel as messages of a driver (\<open>loc\<close>, \<open>eth\<close>). The
  messages, their reception with its errors, the choice of the timing master, the tasklet that runs every span, the red alarm
  check, creation and destruction of spans. The drivers are a parameter, an environment of their operations on a state that
  extends the one here. \<open>None\<close> is an access to memory that is not there.
\<close>

section \<open>The state\<close>

abbreviation (input) ERR_NSAMP :: int where "ERR_NSAMP \<equiv> 65536"
abbreviation (input) ERR_NCHAN :: int where "ERR_NCHAN \<equiv> 131072"
abbreviation (input) ERR_LEN :: int where "ERR_LEN \<equiv> 262144"
abbreviation (input) DAHDI_ALARM_RED :: nat where "DAHDI_ALARM_RED \<equiv> 3"
abbreviation (input) DAHDI_DYNAMIC_MAX_CHANS :: int where "DAHDI_DYNAMIC_MAX_CHANS \<equiv> 256"
abbreviation (input) ENODEV :: int where "ENODEV \<equiv> 19"

text \<open>\<open>z_msgbuf\<close> is the size of the message buffer; \<open>z_driver\<close> and \<open>z_pvt\<close> name the driver and its object.\<close>

record dahdi_dynamic =
  z_addr :: string
  z_dname :: string
  z_err :: int
  z_usecount :: int
  z_dead :: bool
  z_rxjif :: "64 word"
  z_txcnt :: u16
  z_rxcnt :: u16
  z_driver :: "nat option"
  z_pvt :: "nat option"
  z_timing :: int
  z_master :: bool
  z_msgbuf :: "nat option"
  z_maint :: span_maint

definition dynamic0 :: dahdi_dynamic where
  "dynamic0 = \<lparr>z_addr = [], z_dname = [], z_err = 0, z_usecount = 0, z_dead = False, z_rxjif = 0, z_txcnt = 0, z_rxcnt = 0,
     z_driver = None, z_pvt = None, z_timing = 0, z_master = False, z_msgbuf = None,
     z_maint = \<lparr>mainttimer = 0, maintstat = 0, maint_stops = 0\<rparr>\<rparr>"

text \<open>A dynamic span is named by the address of the \<open>dahdi_span\<close> in it; \<open>dspans\<close> and \<open>drivers\<close> are the linked lists.\<close>

record dyn_sys =
  dsys :: dahdi_sys
  dyns :: "int \<Rightarrow> dahdi_dynamic option"
  dspans :: "int list"
  drivers :: "nat list"
  hasmaster :: bool
  taskletrun :: int
  taskletsched :: int
  taskletpending :: bool
  taskletexec :: int
  txerrors :: int

text \<open>The operations of the drivers by the number of the driver, and what the rest of the kernel gives.\<close>

record 's dyn_env =
  de_tick :: tick_env
  de_name :: "nat \<Rightarrow> string"
  de_create :: "nat \<Rightarrow> int \<Rightarrow> string \<Rightarrow> 's \<Rightarrow> nat option \<times> 's"
  de_destroy :: "nat \<Rightarrow> nat \<Rightarrow> 's \<Rightarrow> 's"
  de_transmit :: "nat \<Rightarrow> nat \<Rightarrow> byte list \<Rightarrow> 's \<Rightarrow> 's option"
  de_flush :: "nat \<Rightarrow> 's \<Rightarrow> 's"
  de_request :: "string \<Rightarrow> 's \<Rightarrow> 's"

definition upd_dyn :: "int \<Rightarrow> (dahdi_dynamic \<Rightarrow> dahdi_dynamic) \<Rightarrow> 'a dyn_sys_scheme \<Rightarrow> 'a dyn_sys_scheme" where
  "upd_dyn a f D = D\<lparr>dyns := (dyns D)(a := map_option f (dyns D a))\<rparr>"

definition dspan :: "'a dyn_sys_scheme \<Rightarrow> int \<Rightarrow> dahdi_span" where
  "dspan D a = span_at (dsys D) a"

definition on_world :: "world \<Rightarrow> 'a dyn_sys_scheme \<Rightarrow> 'a dyn_sys_scheme" where
  "on_world w D = D\<lparr>dsys := (dsys D)\<lparr>sw := w\<rparr>\<rparr>"

section \<open>The timing master\<close>

definition master_step :: "int \<Rightarrow> int option \<times> int \<times> 'a dyn_sys_scheme \<Rightarrow> int option \<times> int \<times> 'a dyn_sys_scheme" where
  "master_step a = (\<lambda>(m, best, D).
     case dyns D a of
       None \<Rightarrow> (m, best, D)
     | Some z \<Rightarrow>
         if z_timing z \<noteq> 0 then
           let D = upd_dyn a (\<lambda>z. z\<lparr>z_master := False\<rparr>) D
           in if \<not> bit (sp_alarms (dspan D a)) DAHDI_ALARM_RED \<and> z_timing z < best \<and> \<not> z_dead z
              then (Some a, z_timing z, D) else (m, best, D)
         else (m, best, D))"

definition checkmaster :: "'a dyn_sys_scheme \<Rightarrow> 'a dyn_sys_scheme" where
  "checkmaster D =
     (let (m, _, D) = fold master_step (dspans D) (None, 9999999, D); D = D\<lparr>hasmaster := (m \<noteq> None)\<rparr>
      in case m of None \<Rightarrow> D | Some a \<Rightarrow> upd_dyn a (\<lambda>z. z\<lparr>z_master := True\<rparr>) D)"

section \<open>Messages\<close>

definition be16 :: "u16 \<Rightarrow> byte list" where
  "be16 v = [ucast (drop_bit 8 v), ucast v]"

definition get16 :: "byte list \<Rightarrow> u16" where
  "get16 msg = push_bit 8 (ucast (msg ! 0)) OR ucast (msg ! 1)"

definition nibble :: "dahdi_chan \<Rightarrow> u16" where
  "nibble c = word_of_int (txsig c AND 15)"

text \<open>The loop over the channels of \<open>ztd_sendmessage\<close> that packs four signalling nibbles into a word.\<close>

fun sig_loop :: "nat \<Rightarrow> nat \<Rightarrow> u16 \<Rightarrow> dahdi_chan list \<Rightarrow> byte list" where
  "sig_loop x off bits [] = (if off \<noteq> 3 then be16 bits else [])"
| "sig_loop x off bits (c # cs) =
     (let off = x mod 4; bits = bits OR push_bit (4 * off) (nibble c)
      in if off = 3 then be16 bits @ sig_loop (Suc x) off 0 cs else sig_loop (Suc x) off bits cs)"

definition dyn_message :: "bool \<Rightarrow> u16 \<Rightarrow> dahdi_chan list \<Rightarrow> byte list" where
  "dyn_message red cnt cs =
     [8, (if red then 1 else 0) OR 2] @ be16 cnt @ be16 (word_of_nat (length cs)) @ sig_loop 0 0 0 cs @
     concat (map (\<lambda>c. take DAHDI_CHUNKSIZE (writechunk c)) cs)"

definition span_chans :: "dahdi_sys \<Rightarrow> int \<Rightarrow> dahdi_chan list option" where
  "span_chans S a = those (map (\<lambda>n. the_chan (nat n) S) (sp_chans (span_at S a)))"

definition ztd_sendmessage :: "'a dyn_sys_scheme dyn_env \<Rightarrow> int \<Rightarrow> 'a dyn_sys_scheme \<Rightarrow> 'a dyn_sys_scheme option" where
  "ztd_sendmessage E a D =
     (case (dyns D a, span_chans (dsys D) a) of
        (Some z, Some cs) \<Rightarrow>
          let msg = dyn_message (bit (sp_alarms (dspan D a)) DAHDI_ALARM_RED) (z_txcnt z) cs;
              D = upd_dyn a (\<lambda>z. z\<lparr>z_txcnt := z_txcnt z + 1\<rparr>) D
          in (case (z_msgbuf z, z_driver z, z_pvt z) of
                (Some room, Some d, Some p) \<Rightarrow> if length msg \<le> room then de_transmit E d p msg D else None
              | _ \<Rightarrow> None)
      | _ \<Rightarrow> None)"

section \<open>Running the spans\<close>

definition ec_one :: "tick_env \<Rightarrow> dahdi_span \<Rightarrow> nat \<Rightarrow> world \<Rightarrow> world option" where
  "ec_one E sp x w =
     (let n = span_chan sp x in
      case w_chan w n of
        None \<Rightarrow> None
      | Some c \<Rightarrow>
          let (rx, c) = ec_chunk (e_ops E n) (readchunk c) (writechunk c) c in Some (w_upd n (\<lambda>_. c\<lparr>readchunk := rx\<rparr>) w))"

definition tick_of :: "tick_env \<Rightarrow> dahdi_sys \<Rightarrow> tick_env" where
  "tick_of E S = E\<lparr>e_span := (\<lambda>p. case p of None \<Rightarrow> span0 | Some a \<Rightarrow> span_at S a)\<rparr>"

definition run_span :: "'a dyn_sys_scheme dyn_env \<Rightarrow> int \<Rightarrow> 'a dyn_sys_scheme \<Rightarrow> 'a dyn_sys_scheme option" where
  "run_span E a D =
     (case dyns D a of
        None \<Rightarrow> None
      | Some z \<Rightarrow>
          if z_dead z then Some D
          else
            let sp = dspan D a; T = tick_of (de_tick E) (dsys D) in
            case each_chan (ec_one T sp) [0..<length (sp_chans sp)] (sw (dsys D)) of
              None \<Rightarrow> None
            | Some w \<Rightarrow>
                (case dahdi_receive T (master_span (dsys D) = Some a) sp w of
                   None \<Rightarrow> None
                 | Some w \<Rightarrow>
                     (case dahdi_transmit T False sp (z_maint z, w) of
                        None \<Rightarrow> None
                      | Some (m, w) \<Rightarrow> ztd_sendmessage E a (upd_dyn a (\<lambda>z. z\<lparr>z_maint := m\<rparr>) (on_world w D)))))"

fun run_spans :: "'a dyn_sys_scheme dyn_env \<Rightarrow> int list \<Rightarrow> 'a dyn_sys_scheme \<Rightarrow> 'a dyn_sys_scheme option" where
  "run_spans E [] D = Some D"
| "run_spans E (a # as) D = (case run_span E a D of None \<Rightarrow> None | Some D \<Rightarrow> run_spans E as D)"

definition run_all :: "'a dyn_sys_scheme dyn_env \<Rightarrow> 'a dyn_sys_scheme \<Rightarrow> 'a dyn_sys_scheme option" where
  "run_all E D = map_option (\<lambda>D. fold (de_flush E) (drivers D) D) (run_spans E (dspans D) D)"

definition ztdynamic_run :: "'a dyn_sys_scheme \<Rightarrow> 'a dyn_sys_scheme" where
  "ztdynamic_run D =
     (if \<not> taskletpending D then D\<lparr>taskletpending := True, taskletsched := taskletsched D + 1\<rparr>
      else D\<lparr>txerrors := txerrors D + 1\<rparr>)"

definition ztd_tasklet :: "'a dyn_sys_scheme dyn_env \<Rightarrow> 'a dyn_sys_scheme \<Rightarrow> 'a dyn_sys_scheme option" where
  "ztd_tasklet E D =
     (let D = D\<lparr>taskletrun := taskletrun D + 1\<rparr>
      in map_option (\<lambda>D. D\<lparr>taskletpending := False\<rparr>)
           (if taskletpending D then run_all E (D\<lparr>taskletexec := taskletexec D + 1\<rparr>) else Some D))"

section \<open>Reception\<close>

text \<open>
  The checks of a message: its error, 0 for none. \<open>recv_sigs\<close> and \<open>recv_data\<close> advance over the message; \<open>None\<close> is a read
  behind its end or a channel that is not there.
\<close>

definition message_error :: "nat \<Rightarrow> byte list \<Rightarrow> int" where
  "message_error channels msg =
     (if length msg < 6 then ERR_LEN
      else if msg ! 0 \<noteq> 8 then ERR_NSAMP OR uint (msg ! 0)
      else
        let nchans = unat (get16 (drop 4 msg)) in
        if nchans \<noteq> channels then ERR_NCHAN OR int nchans
        else
          let xlen = 6 + nchans * DAHDI_CHUNKSIZE + (if bit (msg ! 1) 1 then ((nchans + 3) div 4) * 2 else 0)
          in if xlen \<noteq> length msg then ERR_LEN OR int xlen else 0)"

fun recv_sigs :: "dahdi_span \<Rightarrow> nat \<Rightarrow> int \<Rightarrow> byte list \<Rightarrow> nat list \<Rightarrow> world \<Rightarrow> (byte list \<times> world) option" where
  "recv_sigs sp x bits msg [] w = Some (msg, w)"
| "recv_sigs sp x bits msg (n # ns) w =
     (if x mod 4 = 0 \<and> length msg < 2 then None
      else
        let bits = (if x mod 4 = 0 then uint (get16 msg) else bits); msg = (if x mod 4 = 0 then drop 2 msg else msg);
            s = drop_bit (4 * (x mod 4)) bits AND 255
        in case w_chan w n of
             None \<Rightarrow> None
           | Some c \<Rightarrow> recv_sigs sp (Suc x) bits msg ns (if s \<noteq> rxsig c then w_upd n (dahdi_rbsbits sp s) w else w))"

fun recv_data :: "byte list \<Rightarrow> nat list \<Rightarrow> world \<Rightarrow> world option" where
  "recv_data msg [] w = Some w"
| "recv_data msg (n # ns) w =
     (if length msg < DAHDI_CHUNKSIZE then None
      else
        case w_chan w n of
          None \<Rightarrow> None
        | Some _ \<Rightarrow> recv_data (drop DAHDI_CHUNKSIZE msg) ns (w_upd n (\<lambda>c. c\<lparr>readchunk := take DAHDI_CHUNKSIZE msg\<rparr>) w))"

definition set_alarms :: "int \<Rightarrow> int \<Rightarrow> 'a dyn_sys_scheme \<Rightarrow> 'a dyn_sys_scheme" where
  "set_alarms a al D =
     (let maint = (case dyns D a of None \<Rightarrow> False | Some z \<Rightarrow> maintstat (z_maint z) \<noteq> 0 \<or> mainttimer (z_maint z) \<noteq> 0)
      in D\<lparr>dsys := dahdi_alarm_notify maint a (upd_span a (\<lambda>sp. sp\<lparr>sp_alarms := al\<rparr>) (dsys D))\<rparr>)"

definition recv_alarm :: "int \<Rightarrow> bool \<Rightarrow> 'a dyn_sys_scheme \<Rightarrow> 'a dyn_sys_scheme" where
  "recv_alarm a yellow D =
     (let al = sp_alarms (dspan D a); newalarm = (al AND NOT 12) OR (if yellow then 4 else 0)
      in if newalarm \<noteq> al then checkmaster (set_alarms a newalarm D) else D)"

definition dahdi_dynamic_receive :: "64 word \<Rightarrow> int \<Rightarrow> byte list \<Rightarrow> 'a dyn_sys_scheme \<Rightarrow> 'a dyn_sys_scheme option" where
  "dahdi_dynamic_receive jiffies a msg D =
     (case dyns D a of
        None \<Rightarrow> None
      | Some z \<Rightarrow>
          let sp = dspan D a; newerr = message_error (length (sp_chans sp)) msg; ns = map nat (sp_chans sp); w = sw (dsys D) in
          if newerr \<noteq> 0 then Some (upd_dyn a (\<lambda>z. z\<lparr>z_err := newerr\<rparr>) D)
          else
            (case (if bit (msg ! 1) 1 then recv_sigs sp 0 0 (drop 6 msg) ns w else Some (drop 6 msg, w)) of
               None \<Rightarrow> None
             | Some (data, w) \<Rightarrow>
                 (case recv_data data ns w of
                    None \<Rightarrow> None
                  | Some w \<Rightarrow>
                      let D = upd_dyn a (\<lambda>z. z\<lparr>z_rxcnt := get16 (drop 2 msg) + 1\<rparr>) (on_world w D);
                          D = upd_dyn a (\<lambda>z. z\<lparr>z_rxjif := jiffies\<rparr>) (recv_alarm a (bit (msg ! 1) 0) D)
                      in Some (if z_master z then ztdynamic_run D else D))))"

text \<open>\<open>check_for_red_alarm\<close>: \<open>jiffies - z->rxjif\<close> is unsigned.\<close>

definition red_step :: "64 word \<Rightarrow> 64 word \<Rightarrow> int \<Rightarrow> nat \<times> 'a dyn_sys_scheme \<Rightarrow> nat \<times> 'a dyn_sys_scheme" where
  "red_step HZ jiffies a = (\<lambda>(changed, D).
     case dyns D a of
       None \<Rightarrow> (changed, D)
     | Some z \<Rightarrow>
         let al = sp_alarms (dspan D a); newalarm = (al AND NOT 8) OR 8
         in if jiffies - z_rxjif z > HZ \<and> al \<noteq> newalarm then (changed + 1, set_alarms a newalarm D) else (changed, D))"

definition check_for_red_alarm :: "64 word \<Rightarrow> 64 word \<Rightarrow> 'a dyn_sys_scheme \<Rightarrow> 'a dyn_sys_scheme" where
  "check_for_red_alarm HZ jiffies D =
     (let (changed, D) = fold (red_step HZ jiffies) (dspans D) (0, D) in if changed \<noteq> 0 then checkmaster D else D)"

section \<open>Creating and destroying\<close>

record dahdi_dynamic_span =
  zds_driver :: string
  zds_addr :: string
  zds_numchans :: int
  zds_timing :: int
  zds_spanno :: int

definition find_dynamic :: "dahdi_dynamic_span \<Rightarrow> 'a dyn_sys_scheme \<Rightarrow> int option" where
  "find_dynamic zds D =
     List.find (\<lambda>a. case dyns D a of None \<Rightarrow> False | Some z \<Rightarrow> z_dname z = zds_driver zds \<and> z_addr z = zds_addr zds) (dspans D)"

definition find_driver :: "'a dyn_sys_scheme dyn_env \<Rightarrow> string \<Rightarrow> 'a dyn_sys_scheme \<Rightarrow> nat option" where
  "find_driver E name D = List.find (\<lambda>d. de_name E d = name) (drivers D)"

text \<open>
  The span's \<open>shutdown\<close> is NULL. \<open>dahdi_dynamic_unregister\<close> holds \<open>dlock\<close> here, and \<open>checkmaster\<close> takes it again: the model is
  the code without preemption on one processor, where a spin lock is nothing.
\<close>

definition dynamic_destroy :: "'a dyn_sys_scheme dyn_env \<Rightarrow> int \<Rightarrow> 'a dyn_sys_scheme \<Rightarrow> 'a dyn_sys_scheme" where
  "dynamic_destroy E a D =
     (case dyns D a of
        None \<Rightarrow> D
      | Some z \<Rightarrow>
          let D = (if span_registered (dspan D a) then D\<lparr>dsys := snd (dahdi_unregister id a (dsys D))\<rparr> else D);
              D = (case (z_driver z, z_pvt z) of (Some d, Some p) \<Rightarrow> de_destroy E d p D | _ \<Rightarrow> D)
          in checkmaster (D\<lparr>dyns := (dyns D)(a := None)\<rparr>))"

definition destroy_dynamic :: "'a dyn_sys_scheme dyn_env \<Rightarrow> dahdi_dynamic_span \<Rightarrow> 'a dyn_sys_scheme \<Rightarrow> int \<times> 'a dyn_sys_scheme" where
  "destroy_dynamic E zds D =
     (case find_dynamic zds D of
        None \<Rightarrow> (- EINVAL, D)
      | Some a \<Rightarrow>
          if (case dyns D a of None \<Rightarrow> False | Some z \<Rightarrow> z_usecount z \<noteq> 0) then (- EBUSY, D)
          else (0, dynamic_destroy E a (D\<lparr>dspans := remove1 a (dspans D)\<rparr>)))"

definition ztd_open :: "int \<Rightarrow> 'a dyn_sys_scheme \<Rightarrow> int \<times> 'a dyn_sys_scheme" where
  "ztd_open a D =
     (case dyns D a of
        None \<Rightarrow> (0, D)
      | Some z \<Rightarrow> if z_dead z then (- ENODEV, D) else (0, upd_dyn a (\<lambda>z. z\<lparr>z_usecount := z_usecount z + 1\<rparr>) D))"

definition ztd_close :: "'a dyn_sys_scheme dyn_env \<Rightarrow> int \<Rightarrow> 'a dyn_sys_scheme \<Rightarrow> 'a dyn_sys_scheme" where
  "ztd_close E a D =
     (let D = upd_dyn a (\<lambda>z. z\<lparr>z_usecount := z_usecount z - 1\<rparr>) D
      in case dyns D a of
           None \<Rightarrow> D
         | Some z \<Rightarrow> if z_dead z \<and> z_usecount z = 0 then dynamic_destroy E a D else D)"

text \<open>What can be allocated: the object of the span, at an address, so many channels of it, and the buffer.\<close>

record dyn_alloc =
  al_z :: "int option"
  al_chans :: nat
  al_buf :: bool

definition dyn_sigcap :: u32 where
  "dyn_sigcap = SIG_EM OR SIG_CLEAR OR SIG_FXSLS OR SIG_FXSKS OR SIG_FXSGS OR SIG_FXOLS OR SIG_FXOKS OR SIG_FXOGS OR SIG_SF OR
     SIG_DACS_RBS OR SIG_CAS"

definition dyn_bufsize :: "nat \<Rightarrow> nat" where
  "dyn_bufsize n = n * DAHDI_CHUNKSIZE + n div 4 + 48"

definition dyn_span :: dahdi_span where
  "dyn_span = span0\<lparr>spanno := 0, sp_flags := push_bit FLAGBIT_RBS 1, sp_deflaw := 1, has_rbsbits := True, has_chanconfig := True\<rparr>"

definition dyn_chans :: "nat \<Rightarrow> dahdi_chan list" where
  "dyn_chans n = map (\<lambda>x. chan0\<lparr>sigcap := dyn_sigcap, chanpos := int x + 1\<rparr>) [0..<n]"

text \<open>After the objects are allocated: the driver, its object, the registration of the span.\<close>

definition attach_dynamic ::
  "'a dyn_sys_scheme dyn_env \<Rightarrow> dahdi_dynamic_span \<Rightarrow> int \<Rightarrow> 'a dyn_sys_scheme \<Rightarrow> int \<times> 'a dyn_sys_scheme" where
  "attach_dynamic E zds a D =
     (let D = (if find_driver E (zds_driver zds) D = None then de_request E (zds_driver zds) D else D)
      in case find_driver E (zds_driver zds) D of
           None \<Rightarrow> (- EINVAL, dynamic_destroy E a D)
         | Some d \<Rightarrow>
             (case de_create E d a (take 39 (zds_addr zds)) D of
                (None, D) \<Rightarrow> (- EINVAL, D)
              | (Some p, D) \<Rightarrow>
                  let D = upd_dyn a (\<lambda>z. z\<lparr>z_pvt := Some p, z_driver := Some d\<rparr>) D;
                      (r, S) = dahdi_register 0 a (dyn_chans (nat (zds_numchans zds))) False (dsys D);
                      D = D\<lparr>dsys := S\<rparr>
                  in if r \<noteq> 0 then (- EINVAL, dynamic_destroy E a D)
                     else
                       let D = checkmaster (D\<lparr>dspans := a # dspans D\<rparr>) in (spanno (dspan D a), D)))"

definition create_dynamic ::
  "'a dyn_sys_scheme dyn_env \<Rightarrow> dyn_alloc \<Rightarrow> dahdi_dynamic_span \<Rightarrow> 'a dyn_sys_scheme \<Rightarrow> int \<times> 'a dyn_sys_scheme" where
  "create_dynamic E al zds D =
     (let n = nat (zds_numchans zds) in
      if zds_numchans zds < 1 then (- EINVAL, D)
      else if zds_numchans zds \<ge> DAHDI_DYNAMIC_MAX_CHANS then (- EINVAL, D)
      else if find_dynamic zds D \<noteq> None then (- EEXIST, D)
      else
        case al_z al of
          None \<Rightarrow> (- ENOMEM, D)
        | Some a \<Rightarrow>
            let D = D\<lparr>dyns := (dyns D)(a := Some dynamic0), dsys := upd_span a (\<lambda>_. span0\<lparr>spanno := 0\<rparr>) (dsys D)\<rparr> in
            if al_chans al < n \<or> \<not> al_buf al then (- ENOMEM, dynamic_destroy E a D)
            else
              attach_dynamic E zds a
                (upd_dyn a (\<lambda>z. z\<lparr>z_msgbuf := Some (dyn_bufsize n), z_dname := take 19 (zds_driver zds),
                                 z_addr := take 39 (zds_addr zds), z_timing := zds_timing zds\<rparr>)
                  (D\<lparr>dsys := upd_span a (\<lambda>_. dyn_span) (dsys D)\<rparr>)))"

section \<open>Drivers and requests\<close>

definition dahdi_dynamic_register :: "'a dyn_sys_scheme dyn_env \<Rightarrow> nat \<Rightarrow> 'a dyn_sys_scheme \<Rightarrow> int \<times> 'a dyn_sys_scheme" where
  "dahdi_dynamic_register E d D =
     (if find_driver E (de_name E d) D \<noteq> None then (- 1, D) else (0, D\<lparr>drivers := d # drivers D\<rparr>))"

definition drop_span :: "'a dyn_sys_scheme dyn_env \<Rightarrow> nat \<Rightarrow> int \<Rightarrow> 'a dyn_sys_scheme \<Rightarrow> 'a dyn_sys_scheme" where
  "drop_span E d a D =
     (case dyns D a of
        None \<Rightarrow> D
      | Some z \<Rightarrow>
          if z_driver z = Some d then
            let D = D\<lparr>dspans := remove1 a (dspans D)\<rparr>
            in if z_usecount z = 0 then dynamic_destroy E a D else upd_dyn a (\<lambda>z. z\<lparr>z_dead := True\<rparr>) D
          else D)"

definition dahdi_dynamic_unregister :: "'a dyn_sys_scheme dyn_env \<Rightarrow> nat \<Rightarrow> 'a dyn_sys_scheme \<Rightarrow> 'a dyn_sys_scheme" where
  "dahdi_dynamic_unregister E d D =
     (let D = D\<lparr>drivers := remove1 d (drivers D)\<rparr> in fold (drop_span E d) (dspans D) D)"

datatype dyn_ioctl = Rotate | Create dahdi_dynamic_span | Destroy dahdi_dynamic_span | Other_Ioctl

text \<open>\<open>fin\<close>, \<open>fout\<close>: whether the copies from and to the user fault. The span comes back with its number.\<close>

definition ztdynamic_ioctl :: "'a dyn_sys_scheme dyn_env \<Rightarrow> dyn_alloc \<Rightarrow> bool \<Rightarrow> bool \<Rightarrow> dyn_ioctl \<Rightarrow> 'a dyn_sys_scheme \<Rightarrow>
    int \<times> dahdi_dynamic_span option \<times> 'a dyn_sys_scheme" where
  "ztdynamic_ioctl E al fin fout cmd D =
     (case cmd of
        Rotate \<Rightarrow> (0, None, if \<not> hasmaster D then ztdynamic_run D else D)
      | Create zds \<Rightarrow>
          if fin then (- EFAULT, None, D)
          else let (res, D) = create_dynamic E al zds D
               in if res < 0 then (res, None, D) else if fout then (- EFAULT, None, D) else (0, Some (zds\<lparr>zds_spanno := res\<rparr>), D)
      | Destroy zds \<Rightarrow> if fin then (- EFAULT, None, D) else let (res, D) = destroy_dynamic E zds D in (res, None, D)
      | Other_Ioctl \<Rightarrow> (- ENOTTY, None, D))"


section \<open>What a message carries\<close>

text \<open>
  The bits a receiver takes for the channel at each place: its nibble, and above it the nibble of the next channel of its
  group of four, as the code takes eight bits.
\<close>

definition nib :: "dahdi_chan \<Rightarrow> int" where
  "nib c = txsig c AND 15"

fun sig_got :: "dahdi_chan list \<Rightarrow> int list" where
  "sig_got (a # b # c # d # cs) = [nib a + 16 * nib b, nib b + 16 * nib c, nib c + 16 * nib d, nib d] @ sig_got cs"
| "sig_got [a, b, c] = [nib a + 16 * nib b, nib b + 16 * nib c, nib c]"
| "sig_got [a, b] = [nib a + 16 * nib b, nib b]"
| "sig_got [a] = [nib a]"
| "sig_got [] = []"

definition put_sig :: "dahdi_span \<Rightarrow> nat \<Rightarrow> int \<Rightarrow> world \<Rightarrow> world option" where
  "put_sig sp n s w = map_option (\<lambda>c. if s \<noteq> rxsig c then w_upd n (dahdi_rbsbits sp s) w else w) (w_chan w n)"

fun put_sigs :: "dahdi_span \<Rightarrow> (nat \<times> int) list \<Rightarrow> world \<Rightarrow> world option" where
  "put_sigs sp [] w = Some w"
| "put_sigs sp ((n, s) # ps) w = Option.bind (put_sig sp n s w) (put_sigs sp ps)"

lemma get16_be16 [simp]: "get16 (be16 v @ msg) = v" "drop 2 (be16 v @ msg) = msg" "length (be16 v) = 2"
proof -
  show "get16 (be16 v @ msg) = v"
    by (rule bit_word_eqI) (auto simp: get16_def be16_def bit_or_iff bit_push_bit_iff bit_ucast_iff bit_drop_bit_eq)
qed (simp_all add: be16_def)

lemma recv_sigs_put:
  assumes "x mod 4 = 0 \<Longrightarrow> 2 \<le> length msg"
  shows "recv_sigs sp x bits msg (n # ns) w = (let bits = (if x mod 4 = 0 then uint (get16 msg) else bits)
    in Option.bind (put_sig sp n (drop_bit (4 * (x mod 4)) bits AND 255) w)
         (recv_sigs sp (Suc x) bits (if x mod 4 = 0 then drop 2 msg else msg) ns))"
proof (cases "w_chan w n")
  case None
  then show ?thesis by (simp add: put_sig_def Let_def)
next
  case (Some c)
  have "\<not> (x mod 4 = 0 \<and> length msg < 2)" using assms by auto
  then show ?thesis unfolding recv_sigs.simps put_sig_def Some Let_def option.case option.map Option.bind.bind_lunit
    by (simp only: if_False)
qed

lemma recv_sigs_step:
  "x mod 4 = 0 \<Longrightarrow> recv_sigs sp x bits (be16 v @ msg) (n # ns) =
     (\<lambda>w. Option.bind (put_sig sp n (uint v AND 255) w) (recv_sigs sp (Suc x) (uint v) msg ns))"
  "x mod 4 = k \<Longrightarrow> k \<noteq> 0 \<Longrightarrow> recv_sigs sp x bits msg (n # ns) =
     (\<lambda>w. Option.bind (put_sig sp n (drop_bit (4 * k) bits AND 255) w) (recv_sigs sp (Suc x) bits msg ns))"
  by (rule ext, simp add: recv_sigs_put Let_def del: recv_sigs.simps)+

lemma recv_sigs_end: "recv_sigs sp x bits msg [] = (\<lambda>w. Some (msg, w))"
  by (rule ext) simp

lemma map_bind: "map_option f (Option.bind m g) = Option.bind m (\<lambda>x. map_option f (g x))"
  by (cases m) simp_all

lemma nib_range: "0 \<le> nib c" "nib c < 16"
  using AND_upper2 [of 15 "txsig c"] by (simp_all add: nib_def)

lemma or_push: "0 \<le> a \<Longrightarrow> a < 2 ^ k \<Longrightarrow> a OR push_bit k b = a + 2 ^ k * (b :: int)"
proof -
  assume a: "0 \<le> a" "a < 2 ^ k"
  then have "a = take_bit k a" by (simp add: take_bit_int_eq_self)
  then have n: "bit a n \<Longrightarrow> n < k" for n by (metis bit_take_bit_iff)
  have "a AND push_bit k b = 0" by (intro bit_eqI) (auto simp: bit_and_iff bit_push_bit_iff dest: n)
  then have "a + push_bit k b = a OR push_bit k b" by (rule disjunctive_add_eq_or)
  then show ?thesis by (simp add: push_bit_eq_mult mult.commute)
qed

lemma uint_group: "0 \<le> k \<Longrightarrow> k < 65536 \<Longrightarrow> uint (word_of_int k :: u16) = k"
  by (simp add: uint_word_of_int)

lemma sig_word:
  "(nibble a OR push_bit 4 (nibble b)) = word_of_int (nib a + 16 * nib b)"
  "(nibble a OR push_bit 4 (nibble b)) OR push_bit 8 (nibble c) = word_of_int (nib a + 16 * nib b + 256 * nib c)"
  "((nibble a OR push_bit 4 (nibble b)) OR push_bit 8 (nibble c)) OR push_bit 12 (nibble d) =
     word_of_int (nib a + 16 * nib b + 256 * nib c + 4096 * nib d)"
proof -
  have n: "nibble x = word_of_int (nib x)" for x by (simp add: nibble_def nib_def)
  have 1: "nib a OR push_bit 4 (nib b) = nib a + 16 * nib b" using or_push [of "nib a" 4] nib_range by simp
  have 2: "nib a + 16 * nib b OR push_bit 8 (nib c) = nib a + 16 * nib b + 256 * nib c"
    using or_push [of "nib a + 16 * nib b" 8] nib_range [of a] nib_range [of b] by simp
  have 3: "nib a + 16 * nib b + 256 * nib c OR push_bit 12 (nib d) = nib a + 16 * nib b + 256 * nib c + 4096 * nib d"
    using or_push [of "nib a + 16 * nib b + 256 * nib c" 12] nib_range [of a] nib_range [of b] nib_range [of c] by simp
  show a: "(nibble a OR push_bit 4 (nibble b)) = word_of_int (nib a + 16 * nib b)"
    unfolding n push_bit_of_int of_int_or_eq [symmetric] 1 ..
  show b: "(nibble a OR push_bit 4 (nibble b)) OR push_bit 8 (nibble c) = word_of_int (nib a + 16 * nib b + 256 * nib c)"
    unfolding a unfolding n push_bit_of_int of_int_or_eq [symmetric] 2 ..
  show "((nibble a OR push_bit 4 (nibble b)) OR push_bit 8 (nibble c)) OR push_bit 12 (nibble d) =
     word_of_int (nib a + 16 * nib b + 256 * nib c + 4096 * nib d)"
    unfolding b unfolding n push_bit_of_int of_int_or_eq [symmetric] 3 ..
qed

lemma drop_and: "(x :: int) AND 255 = x mod 256" "drop_bit 4 x AND 255 = x div 16 mod 256"
  "drop_bit 8 x AND 255 = x div 256 mod 256" "drop_bit 12 x AND 255 = x div 4096 mod 256"
proof -
  have a: "y AND 255 = y mod 256" for y :: int
  proof -
    have "y AND 255 = take_bit 8 y" by (simp add: take_bit_eq_mask mask_eq_exp_minus_1)
    then show ?thesis by (simp add: take_bit_eq_mod)
  qed
  show "x AND 255 = x mod 256" by (rule a)
  show "drop_bit 4 x AND 255 = x div 16 mod 256" "drop_bit 8 x AND 255 = x div 256 mod 256"
    "drop_bit 12 x AND 255 = x div 4096 mod 256" unfolding a by (simp_all add: drop_bit_eq_div)
qed


text \<open>The steps of the two loops, in places of a group.\<close>

lemma place: "x mod 4 = 0 \<Longrightarrow> Suc x mod 4 = 1" "x mod 4 = 0 \<Longrightarrow> Suc (Suc x) mod 4 = 2"
  "x mod 4 = 0 \<Longrightarrow> Suc (Suc (Suc x)) mod 4 = 3" "x mod 4 = 0 \<Longrightarrow> Suc (Suc (Suc (Suc x))) mod 4 = 0"
  "x mod 4 = 0 \<Longrightarrow> (2 + x) mod 4 = 2" "x mod 4 = 0 \<Longrightarrow> (3 + x) mod 4 = 3" "x mod 4 = 0 \<Longrightarrow> (4 + x) mod 4 = 0"
  by (simp_all add: mod_Suc mod_add_right_eq [of _ x 4, symmetric])

lemma digits:
  fixes a b c d :: int
  assumes "0 \<le> a" "a < 16" "0 \<le> b" "b < 16" "0 \<le> c" "c < 16" "0 \<le> d" "d < 16"
  shows "(a + 16 * b + 256 * c + 4096 * d) mod 256 = a + 16 * b" "(a + 16 * b + 256 * c + 4096 * d) div 16 mod 256 = b + 16 * c"
    "(a + 16 * b + 256 * c + 4096 * d) div 256 mod 256 = c + 16 * d" "(a + 16 * b + 256 * c + 4096 * d) div 4096 mod 256 = d"
proof -
  have e: "a + 16 * b + 256 * c + 4096 * d = (a + 16 * b) + 256 * (c + 16 * d)"
    "a + 16 * b + 256 * c + 4096 * d = a + 16 * (b + 16 * c + 256 * d)" by simp_all
  have q: "(m + 16 * r) div 16 = r" if "0 \<le> m" "m < 16" for m r :: int using that by simp
  have q2: "(m + 256 * r) div 256 = r" if "0 \<le> m" "m < 256" for m r :: int using that by simp
  have q3: "(m + 4096 * r) div 4096 = r" if "0 \<le> m" "m < 4096" for m r :: int using that by simp
  have p: "(m + 256 * r) mod 256 = m" if "0 \<le> m" "m < 256" for m r :: int using that by simp
  show "(a + 16 * b + 256 * c + 4096 * d) mod 256 = a + 16 * b" unfolding e(1) using assms by (intro p) simp_all
  show "(a + 16 * b + 256 * c + 4096 * d) div 16 mod 256 = b + 16 * c"
    unfolding e(2) q [OF assms(1,2)] using assms p [of "b + 16 * c" d] by simp
  show "(a + 16 * b + 256 * c + 4096 * d) div 256 mod 256 = c + 16 * d"
    unfolding e(1) using assms q2 [of "a + 16 * b" "c + 16 * d"] p [of "c + 16 * d" 0] by simp
  show "(a + 16 * b + 256 * c + 4096 * d) div 4096 mod 256 = d"
    using assms q3 [of "a + 16 * b + 256 * c" d] by simp
qed

definition group :: "dahdi_chan \<Rightarrow> dahdi_chan \<Rightarrow> dahdi_chan \<Rightarrow> dahdi_chan \<Rightarrow> u16" where
  "group a b c d = ((nibble a OR push_bit 4 (nibble b)) OR push_bit 8 (nibble c)) OR push_bit 12 (nibble d)"

lemma got_group:
  "uint (group a b c d) AND 255 = nib a + 16 * nib b" "drop_bit 4 (uint (group a b c d)) AND 255 = nib b + 16 * nib c"
  "drop_bit 8 (uint (group a b c d)) AND 255 = nib c + 16 * nib d" "drop_bit 12 (uint (group a b c d)) AND 255 = nib d"
proof -
  note r = nib_range [of a] nib_range [of b] nib_range [of c] nib_range [of d]
  have u: "uint (group a b c d) = nib a + 16 * nib b + 256 * nib c + 4096 * nib d"
    unfolding group_def sig_word(3) by (rule uint_group) (use r in simp_all)
  show "uint (group a b c d) AND 255 = nib a + 16 * nib b" "drop_bit 4 (uint (group a b c d)) AND 255 = nib b + 16 * nib c"
    "drop_bit 8 (uint (group a b c d)) AND 255 = nib c + 16 * nib d" "drop_bit 12 (uint (group a b c d)) AND 255 = nib d"
    unfolding drop_and(2-4) unfolding drop_and(1) u by (fact digits [OF r])+
qed

text \<open>A channel with no signalling stands for the ones a last group lacks.\<close>

lemma chan0_nib: "nib chan0 = 0" "nibble chan0 = 0"
  by (simp_all add: nib_def nibble_def chan0_def)

lemma sigs_roundtrip:
  assumes "length ns = length cs" "x mod 4 = 0" "cs \<noteq> [] \<or> off = 3"
  shows "recv_sigs sp x bits (sig_loop x off 0 cs @ rest) ns w = map_option (Pair rest) (put_sigs sp (zip ns (sig_got cs)) w)"
  using assms
proof (induction cs arbitrary: x off bits ns w rule: sig_got.induct)
  case (1 a b c d cs)
  obtain n1 n2 n3 n4 ms where ns: "ns = n1 # n2 # n3 # n4 # ms" "length ms = length cs"
    using 1(2) by (auto simp: length_Suc_conv)
  have l: "sig_loop x off 0 (a # b # c # d # cs) = be16 (group a b c d) @ sig_loop (Suc (Suc (Suc (Suc x)))) 3 0 cs"
    by (simp add: 1(3) place Let_def group_def)
  have IH: "recv_sigs sp (Suc (Suc (Suc (Suc x)))) bits (sig_loop (Suc (Suc (Suc (Suc x)))) 3 0 cs @ rest) ms =
      (\<lambda>w. map_option (Pair rest) (put_sigs sp (zip ms (sig_got cs)) w))" for bits
    using 1(1) [OF ns(2) place(4) [OF 1(3)], of 3] by (intro ext) simp
  note step = recv_sigs_step(1) [OF 1(3)] recv_sigs_step(2) [OF place(1) [OF 1(3)]] recv_sigs_step(2) [OF place(2) [OF 1(3)]]
    recv_sigs_step(2) [OF place(3) [OF 1(3)]]
  show ?case unfolding l ns by (simp add: step got_group IH map_bind del: recv_sigs.simps)
next
  case (2 a b c)
  obtain n1 n2 n3 where ns: "ns = [n1, n2, n3]" using 2 by (auto simp: length_Suc_conv)
  have l: "sig_loop x off 0 [a, b, c] = be16 (group a b c chan0)"
    by (simp add: 2(2) place Let_def group_def chan0_nib)
  note step = recv_sigs_step(1) [OF 2(2)] recv_sigs_step(2) [OF place(1) [OF 2(2)]] recv_sigs_step(2) [OF place(2) [OF 2(2)]]
  show ?case unfolding l ns by (simp add: step got_group chan0_nib map_bind recv_sigs_end)
next
  case (3 a b)
  obtain n1 n2 where ns: "ns = [n1, n2]" using 3 by (auto simp: length_Suc_conv)
  have l: "sig_loop x off 0 [a, b] = be16 (group a b chan0 chan0)"
    by (simp add: 3(2) place Let_def group_def chan0_nib)
  note step = recv_sigs_step(1) [OF 3(2)] recv_sigs_step(2) [OF place(1) [OF 3(2)]]
  show ?case unfolding l ns by (simp add: step got_group chan0_nib map_bind recv_sigs_end)
next
  case (4 a)
  obtain n1 where ns: "ns = [n1]" using 4 by (auto simp: length_Suc_conv)
  have l: "sig_loop x off 0 [a] = be16 (group a chan0 chan0 chan0)"
    by (simp add: 4(2) place Let_def group_def chan0_nib)
  show ?case unfolding l ns by (simp add: recv_sigs_step(1) [OF 4(2)] got_group chan0_nib map_bind recv_sigs_end)
qed simp

lemma length_sig_got [simp]: "length (sig_got cs) = length cs"
  by (induction cs rule: sig_got.induct) simp_all

lemma nth_sig_got:
  "i < length cs \<Longrightarrow> sig_got cs ! i = nib (cs ! i) + (if i mod 4 < 3 \<and> Suc i < length cs then 16 * nib (cs ! Suc i) else 0)"
proof (induction cs arbitrary: i rule: sig_got.induct)
  case (1 a b c d cs)
  consider "i = 0" | "i = Suc 0" | "i = Suc (Suc 0)" | "i = Suc (Suc (Suc 0))" | j where "i = Suc (Suc (Suc (Suc j)))"
    by (metis not0_implies_Suc)
  then show ?case
  proof cases
    fix j assume i: "i = Suc (Suc (Suc (Suc j)))"
    have "Suc (Suc (Suc (Suc j))) mod 4 = j mod 4" by (simp add: mod_add_left_eq [of 4 4 j, symmetric])
    then show ?thesis using 1 i by simp
  qed simp_all
next
  case (2 a b c)
  then have "i = 0 \<or> i = 1 \<or> i = 2" by auto
  then show ?case by (elim disjE) (simp_all add: numeral_2_eq_2)
next
  case (3 a b)
  then have "i = 0 \<or> i = 1" by auto
  then show ?case by (elim disjE) simp_all
next
  case (4 a)
  then have "i = 0" by simp
  then show ?case by simp
next
  case 5
  then show ?case by (simp only: list.size(3) not_less0)
qed

section \<open>What reception does to the channels\<close>

definition upd_all :: "(nat \<times> (dahdi_chan \<Rightarrow> dahdi_chan)) list \<Rightarrow> world \<Rightarrow> world" where
  "upd_all fs w = fold (\<lambda>(n, f). w_upd n f) fs w"

definition present :: "nat list \<Rightarrow> world \<Rightarrow> bool" where
  "present ns w \<longleftrightarrow> (\<forall>n \<in> set ns. n < length (chans (w_sys w)) \<and> w_chan w n \<noteq> None)"

lemma present_upd: "present ns w \<Longrightarrow> present ns (w_upd n f w)"
  by (auto simp: present_def w_chan_def w_upd_def upd_chan_def nth_upd)

lemma w_upd_cong: "w_chan w n = Some c \<Longrightarrow> f c = g c \<Longrightarrow> w_upd n f w = w_upd n g w"
  by (simp add: w_upd_def upd_chan_def w_chan_def)

lemma w_upd_same: "w_chan w n = Some c \<Longrightarrow> f c = c \<Longrightarrow> w_upd n f w = w"
  using list_update_id [of "chans (w_sys w)" n] by (simp add: w_upd_def upd_chan_def w_chan_def)

lemma put_sigs_all: "present ns w \<Longrightarrow> length ss = length ns \<Longrightarrow>
    put_sigs sp (zip ns ss) w = Some (upd_all (zip ns (map (dahdi_rbsbits sp) ss)) w)"
proof (induction ns arbitrary: ss w)
  case (Cons n ns)
  obtain s ss' where ss: "ss = s # ss'" "length ss' = length ns" using Cons.prems(2) by (cases ss) simp_all
  obtain c where c: "w_chan w n = Some c" using Cons.prems(1) by (auto simp: present_def)
  have "dahdi_rbsbits sp (rxsig c) c = c" by (simp add: dahdi_rbsbits_def)
  then have "put_sig sp n s w = Some (w_upd n (dahdi_rbsbits sp s) w)"
    using w_upd_same [OF c, of "dahdi_rbsbits sp (rxsig c)"] by (simp add: put_sig_def c)
  moreover have "present ns (w_upd n (dahdi_rbsbits sp s) w)"
    using Cons.prems(1) by (intro present_upd) (simp add: present_def)
  ultimately show ?case using Cons.IH [OF _ ss(2)] by (simp add: ss upd_all_def)
qed (simp add: upd_all_def)

lemma recv_data_all: "present ns w \<Longrightarrow> length ds = length ns \<Longrightarrow> \<forall>d \<in> set ds. length d = 8 \<Longrightarrow>
    recv_data (concat ds) ns w = Some (upd_all (zip ns (map (\<lambda>d c. c\<lparr>readchunk := d\<rparr>) ds)) w)"
proof (induction ns arbitrary: ds w)
  case (Cons n ns)
  obtain d ds' where ds: "ds = d # ds'" "length ds' = length ns" using Cons.prems(2) by (cases ds) simp_all
  obtain c where c: "w_chan w n = Some c" using Cons.prems(1) by (auto simp: present_def)
  have "present ns (w_upd n (\<lambda>c. c\<lparr>readchunk := d\<rparr>) w)"
    using Cons.prems(1) by (intro present_upd) (simp add: present_def)
  then show ?case using Cons.IH [OF _ ds(2)] Cons.prems(3) c by (simp add: ds upd_all_def)
qed (simp add: upd_all_def)

lemma upd_all_chan: "present ns w \<Longrightarrow> distinct ns \<Longrightarrow> length fs = length ns \<Longrightarrow>
    (\<forall>i < length ns. w_chan (upd_all (zip ns fs) w) (ns ! i) = map_option (fs ! i) (w_chan w (ns ! i))) \<and>
    (\<forall>m. m \<notin> set ns \<longrightarrow> w_chan (upd_all (zip ns fs) w) m = w_chan w m) \<and> present ns (upd_all (zip ns fs) w)"
proof (induction ns arbitrary: fs w)
  case (Cons n ns)
  obtain f fs' where fs: "fs = f # fs'" "length fs' = length ns" using Cons.prems(3) by (cases fs) simp_all
  have n: "n < length (chans (w_sys w))" using Cons.prems(1) by (simp add: present_def)
  define v where "v = w_upd n f w"
  have v: "w_chan v m = (if m = n then map_option f (w_chan w n) else w_chan w m)" for m using w_chan_upd [OF n] by (simp add: v_def)
  have pv: "present ns v" "w_chan v n \<noteq> None" "n < length (chans (w_sys v))"
    using Cons.prems(1) present_upd [of ns w n f] v [of n] by (simp_all add: present_def v_def)
  have u: "upd_all (zip (n # ns) fs) w = upd_all (zip ns fs') v" by (simp add: upd_all_def fs v_def)
  note IH = Cons.IH [OF pv(1) _ fs(2)]
  have d: "n \<notin> set ns" "distinct ns" using Cons.prems(2) by simp_all
  have "w_chan (upd_all (zip ns fs') v) ((n # ns) ! i) = map_option (fs ! i) (w_chan w ((n # ns) ! i))" if "i < length (n # ns)" for i
    using that IH [OF d(2)] d v by (cases i) (auto simp: fs)
  moreover have "length (chans (w_sys (upd_all xs x))) = length (chans (w_sys x))" for xs x
    by (induction xs arbitrary: x) (auto simp: upd_all_def)
  ultimately show ?case using IH [OF d(2)] d v pv unfolding u by (auto simp: present_def)
qed (simp add: upd_all_def present_def)

section \<open>The choice of the timing master\<close>

definition candidate :: "'a dyn_sys_scheme \<Rightarrow> int \<Rightarrow> bool" where
  "candidate D a \<longleftrightarrow> (case dyns D a of None \<Rightarrow> False
     | Some z \<Rightarrow> z_timing z \<noteq> 0 \<and> \<not> bit (sp_alarms (dspan D a)) DAHDI_ALARM_RED \<and> \<not> z_dead z)"

definition pref :: "'a dyn_sys_scheme \<Rightarrow> int \<Rightarrow> int" where
  "pref D a = (case dyns D a of None \<Rightarrow> 0 | Some z \<Rightarrow> z_timing z)"

definition pick :: "'a dyn_sys_scheme \<Rightarrow> int \<Rightarrow> int option \<times> int \<Rightarrow> int option \<times> int" where
  "pick D a = (\<lambda>(m, best). if candidate D a \<and> pref D a < best then (Some a, pref D a) else (m, best))"

definition unmaster :: "int list \<Rightarrow> 'a dyn_sys_scheme \<Rightarrow> 'a dyn_sys_scheme" where
  "unmaster as D = D\<lparr>dyns := (\<lambda>a. if a \<in> set as
     then map_option (\<lambda>z. if z_timing z \<noteq> 0 then z\<lparr>z_master := False\<rparr> else z) (dyns D a) else dyns D a)\<rparr>"

lemma unmaster_cons: "unmaster as (unmaster [a] D) = unmaster (a # as) D"
  by (auto simp: unmaster_def option.map_comp intro!: ext arg_cong [where f = "\<lambda>f. D\<lparr>dyns := f\<rparr>"] option.map_cong)

lemma unmaster_sel [simp]: "dsys (unmaster as D) = dsys D" "dspans (unmaster as D) = dspans D" "dspan (unmaster as D) = dspan D"
  "candidate (unmaster as D) = candidate D" "pref (unmaster as D) = pref D"
  by (auto simp: unmaster_def dspan_def fun_eq_iff candidate_def pref_def split: option.split)

lemma master_step: "master_step a (m, best, D) = (fst (pick D a (m, best)), snd (pick D a (m, best)), unmaster [a] D)"
proof (cases "dyns D a")
  case None
  then have "dyns D = (\<lambda>b. if b = a then map_option (\<lambda>z. if z_timing z \<noteq> 0 then z\<lparr>z_master := False\<rparr> else z) (dyns D b) else dyns D b)"
    by auto
  then have "unmaster [a] D = D" by (simp add: unmaster_def)
  with None show ?thesis by (simp add: master_step_def pick_def candidate_def)
next
  case (Some z)
  show ?thesis
  proof (cases "z_timing z = 0")
    case True
    have "dyns D = (\<lambda>b. if b = a then map_option (\<lambda>z. if z_timing z \<noteq> 0 then z\<lparr>z_master := False\<rparr> else z) (dyns D b) else dyns D b)"
      using Some True by auto
    then have "unmaster [a] D = D" by (simp add: unmaster_def)
    with Some True show ?thesis by (simp add: master_step_def pick_def candidate_def)
  next
    case False
    have "upd_dyn a (\<lambda>z. z\<lparr>z_master := False\<rparr>) D = unmaster [a] D"
      using Some False by (auto simp: upd_dyn_def unmaster_def intro!: arg_cong [where f = "\<lambda>f. D\<lparr>dyns := f\<rparr>"])
    moreover have "dspan (unmaster [a] D) a = dspan D a" by simp
    ultimately show ?thesis using Some False by (simp add: master_step_def pick_def candidate_def pref_def)
  qed
qed

lemma master_fold: "fold master_step as (m, best, D) = (let (m, best) = fold (pick D) as (m, best) in (m, best, unmaster as D))"
proof (induction as arbitrary: m best D)
  case Nil
  show ?case by (simp add: unmaster_def)
next
  case (Cons a as)
  have "pick (unmaster [a] D) = pick D" by (simp add: pick_def fun_eq_iff)
  then show ?case by (simp add: master_step Cons.IH unmaster_cons del: unmaster_def split: prod.split)
qed

text \<open>The span that is chosen: the first of the best.\<close>

definition best_master :: "'a dyn_sys_scheme \<Rightarrow> int option" where
  "best_master D = fst (fold (pick D) (dspans D) (None, 9999999))"

lemma checkmaster_eq:
  "checkmaster D = (let U = (unmaster (dspans D) D)\<lparr>hasmaster := (best_master D \<noteq> None)\<rparr>
     in case best_master D of None \<Rightarrow> U | Some a \<Rightarrow> upd_dyn a (\<lambda>z. z\<lparr>z_master := True\<rparr>) U)"
  by (cases "fold (pick D) (dspans D) (None, 9999999)") (simp add: checkmaster_def master_fold best_master_def Let_def)

lemma fold_pick:
  "(case fst (fold (pick D) as (None, 9999999)) of
      None \<Rightarrow> snd (fold (pick D) as (None, 9999999)) = 9999999 \<and> (\<forall>b \<in> set as. candidate D b \<longrightarrow> 9999999 \<le> pref D b)
    | Some a \<Rightarrow> a \<in> set as \<and> candidate D a \<and> pref D a < 9999999 \<and> snd (fold (pick D) as (None, 9999999)) = pref D a \<and>
        (\<forall>b \<in> set as. candidate D b \<longrightarrow> pref D a \<le> pref D b))"
proof (induction as rule: rev_induct)
  case (snoc b as)
  obtain m r where f: "fold (pick D) as (None, 9999999) = (m, r)" by fastforce
  show ?case using snoc.IH unfolding f fold_append o_def fold.simps id_apply
    by (cases m) (auto simp: pick_def)
qed simp

lemma best_master_Some: "best_master D = Some a \<Longrightarrow> a \<in> set (dspans D) \<and> candidate D a \<and> pref D a < 9999999 \<and>
    (\<forall>b \<in> set (dspans D). candidate D b \<longrightarrow> pref D a \<le> pref D b)"
  using fold_pick [of D "dspans D"] by (simp add: best_master_def)

lemma best_master_None: "best_master D = None \<Longrightarrow> b \<in> set (dspans D) \<Longrightarrow> candidate D b \<Longrightarrow> 9999999 \<le> pref D b"
  using fold_pick [of D "dspans D"] by (simp add: best_master_def)

text \<open>What \<open>checkmaster\<close> leaves alone: everything but the masters.\<close>

lemma checkmaster_sel [simp]: "dsys (checkmaster D) = dsys D" "dspans (checkmaster D) = dspans D" "dspan (checkmaster D) = dspan D"
  "drivers (checkmaster D) = drivers D" "taskletpending (checkmaster D) = taskletpending D" "hasmaster (checkmaster D) = (best_master D \<noteq> None)"
  "taskletsched (checkmaster D) = taskletsched D" "txerrors (checkmaster D) = txerrors D"
  by (simp_all add: checkmaster_eq Let_def upd_dyn_def unmaster_def dspan_def fun_eq_iff split: option.split)

lemma checkmaster_dyns: "dyns (checkmaster D) a = map_option (\<lambda>z. z\<lparr>z_master :=
    (best_master D = Some a \<or> z_master z \<and> (a \<notin> set (dspans D) \<or> z_timing z = 0))\<rparr>) (dyns D a)"
  by (cases "dyns D a") (auto simp: checkmaster_eq Let_def upd_dyn_def unmaster_def split: option.split)

section \<open>Alarms of a span\<close>

text \<open>What an alarm leaves alone in the channels.\<close>

definition heard :: "dahdi_chan \<Rightarrow> byte list \<times> int" where
  "heard c = (readchunk c, rxsig c)"

lemma heard_alarm_channel [simp]: "heard (dahdi_alarm_channel al c) = heard c"
proof -
  have "heard (qevent ev d) = heard d" for ev d
  proof -
    obtain ws where "qevent ev d = d\<lparr>evring := qevent_q ev (evring d), eff := eff d @ ws\<rparr>" using qevent_cases by blast
    then show ?thesis by (simp add: heard_def)
  qed
  then show ?thesis by (simp add: dahdi_alarm_channel_def) (simp add: heard_def)
qed

lemma heard_upd: "(\<And>c. heard (f c) = heard c) \<Longrightarrow> map_option heard (w_chan (w_upd n f w) m) = map_option heard (w_chan w m)"
  by (auto simp: w_chan_def w_upd_def upd_chan_def nth_upd option.map_comp o_def intro!: option.map_cong)

lemma heard_alarms: "map_option heard (w_chan (sw (fold (\<lambda>n S. S\<lparr>sw := w_upd (nat n) (dahdi_alarm_channel al) (sw S)\<rparr>) ns S)) m) =
    map_option heard (w_chan (sw S) m)"
  by (induction ns arbitrary: S) (simp_all add: heard_upd)

lemma fold_alarms_sel [simp]:
  "span_at (fold (\<lambda>n S. S\<lparr>sw := w_upd (nat n) (dahdi_alarm_channel al) (sw S)\<rparr>) ns S) = span_at S"
  by (induction ns arbitrary: S) simp_all

lemma switch_master_sel [simp]: "span_at (switch_master S) = span_at S" "sw (switch_master S) = sw S"
  by (simp_all add: switch_master_def split: option.split)

lemma notify_chans: "map_option heard (w_chan (sw (dahdi_alarm_notify mt a S)) m) = map_option heard (w_chan (sw S) m)"
  by (simp add: dahdi_alarm_notify_def Let_def heard_alarms upd_span_def)

lemma notify_span: "span_at (dahdi_alarm_notify mt a S) b =
    (if b = a then (span_at S a)\<lparr>sp_alarms := with_loopback mt (sp_alarms (span_at S a)),
       sp_lastalarms := (if (with_loopback mt (sp_alarms (span_at S a)) = 0) \<noteq> (sp_lastalarms (span_at S a) = 0)
         then with_loopback mt (sp_alarms (span_at S a)) else sp_lastalarms (span_at S a))\<rparr> else span_at S b)"
  by (simp add: dahdi_alarm_notify_def Let_def upd_span_def)

lemma loopback_bits: "i \<noteq> 1 \<Longrightarrow> bit (with_loopback mt al) i = bit al i"
proof -
  assume i: "i \<noteq> 1"
  have "bit (2 :: int) i \<longleftrightarrow> i = 1" using bit_exp_iff [of 1 i, where 'a = int] by simp
  moreover have "bit (- 3 :: int) i \<longleftrightarrow> \<not> bit (2 :: int) i" using bit_not_int_iff [of 2 i] by simp
  ultimately show ?thesis using i by (auto simp: with_loopback_def Let_def bit_or_iff bit_and_iff)
qed

lemma set_alarms_chans: "map_option heard (w_chan (sw (dsys (set_alarms a al D))) m) = map_option heard (w_chan (sw (dsys D)) m)"
  by (simp add: set_alarms_def Let_def notify_chans upd_span_def)

lemma set_alarms_sel [simp]: "dyns (set_alarms a al D) = dyns D" "dspans (set_alarms a al D) = dspans D"
  "sp_chans (dspan (set_alarms a al D) b) = sp_chans (dspan D b)"
  "taskletpending (set_alarms a al D) = taskletpending D" "taskletsched (set_alarms a al D) = taskletsched D"
  by (simp_all add: set_alarms_def Let_def dspan_def notify_span upd_span_def)

lemma set_alarms_bits: "i \<noteq> 1 \<Longrightarrow> bit (sp_alarms (dspan (set_alarms a al D) a)) i = bit al i"
  by (simp add: set_alarms_def Let_def dspan_def notify_span loopback_bits upd_span_def)

lemma set_alarms_other: "b \<noteq> a \<Longrightarrow> dspan (set_alarms a al D) b = dspan D b"
  by (simp add: set_alarms_def Let_def dspan_def notify_span upd_span_def)

text \<open>After a message the span is in yellow alarm as the message says, and not in red alarm.\<close>

lemma newalarm_bits: "bit ((al AND NOT 12) OR (if y then 4 else 0) :: int) 2 = y" "\<not> bit ((al AND NOT 12) OR (if y then 4 else 0) :: int) 3"
proof -
  have "\<not> bit (NOT 12 :: int) 2" "\<not> bit (NOT 12 :: int) 3" "bit (4 :: int) 2" "\<not> bit (4 :: int) 3"
    by (simp_all add: bit_iff_odd)
  then show "bit ((al AND NOT 12) OR (if y then 4 else 0) :: int) 2 = y" "\<not> bit ((al AND NOT 12) OR (if y then 4 else 0) :: int) 3"
    by (simp_all only: bit_or_iff bit_and_iff split: if_split) simp_all
qed

lemma recv_alarm_sel [simp]: "dspans (recv_alarm a y D) = dspans D" "sp_chans (dspan (recv_alarm a y D) b) = sp_chans (dspan D b)"
  "map_option heard (w_chan (sw (dsys (recv_alarm a y D))) m) = map_option heard (w_chan (sw (dsys D)) m)"
  "taskletpending (recv_alarm a y D) = taskletpending D" "taskletsched (recv_alarm a y D) = taskletsched D"
  by (simp_all add: recv_alarm_def Let_def set_alarms_chans)

lemma notify_length: "length (chans (w_sys (sw (dahdi_alarm_notify mt a S)))) = length (chans (w_sys (sw S)))"
proof -
  have "length (chans (w_sys (sw (fold (\<lambda>n S. S\<lparr>sw := w_upd (nat n) (dahdi_alarm_channel al) (sw S)\<rparr>) ns S)))) = length (chans (w_sys (sw S)))"
    for al ns and S :: dahdi_sys by (induction ns arbitrary: S) simp_all
  then show ?thesis by (simp add: dahdi_alarm_notify_def Let_def upd_span_def)
qed

lemma recv_alarm_length: "length (chans (w_sys (sw (dsys (recv_alarm a y D))))) = length (chans (w_sys (sw (dsys D))))"
  by (simp add: recv_alarm_def Let_def set_alarms_def notify_length upd_span_def)

lemma recv_alarm_bits: "bit (sp_alarms (dspan (recv_alarm a y D) a)) 2 = y" "\<not> bit (sp_alarms (dspan (recv_alarm a y D) a)) 3"
proof -
  define n where "n = (sp_alarms (dspan D a) AND NOT 12) OR (if y then 4 else 0)"
  have n: "bit n 2 = y" "\<not> bit n 3" unfolding n_def by (rule newalarm_bits)+
  have r: "recv_alarm a y D = (if n \<noteq> sp_alarms (dspan D a) then checkmaster (set_alarms a n D) else D)"
    by (simp add: recv_alarm_def Let_def n_def)
  show "bit (sp_alarms (dspan (recv_alarm a y D) a)) 2 = y" "\<not> bit (sp_alarms (dspan (recv_alarm a y D) a)) 3"
    unfolding r using n by (auto simp: set_alarms_bits)
qed

lemma recv_alarm_dyns: "dyns D a = Some z \<Longrightarrow> \<exists>m. dyns (recv_alarm b y D) a = Some (z\<lparr>z_master := m\<rparr>)"
  by (auto simp: recv_alarm_def Let_def checkmaster_dyns intro: exI [of _ "z_master z"])

section \<open>A message and its reception\<close>

lemma length_sig_loop: "x mod 4 = 0 \<Longrightarrow> cs \<noteq> [] \<or> off = 3 \<Longrightarrow> length (sig_loop x off bits cs) = 2 * ((length cs + 3) div 4)"
proof (induction cs arbitrary: x off bits rule: sig_got.induct)
  case (1 a b c d cs)
  have "(length cs + 3 + 4) div 4 = Suc ((length cs + 3) div 4)" by simp
  then show ?case using 1(1) [OF place(4) [OF 1(2)], of 3 0] by (simp add: 1(2) place Let_def)
qed (simp_all add: place Let_def)

definition chunks_ok :: "dahdi_chan list \<Rightarrow> bool" where
  "chunks_ok cs \<longleftrightarrow> (\<forall>c \<in> set cs. length (writechunk c) = 8)"

lemma take_chunks: "chunks_ok cs \<Longrightarrow> map (\<lambda>c. take 8 (writechunk c)) cs = map writechunk cs"
  by (simp add: chunks_ok_def)

lemma length_chunks: "chunks_ok cs \<Longrightarrow> length (concat (map writechunk cs)) = 8 * length cs"
  by (induction cs) (simp_all add: chunks_ok_def)

lemma message_length: "cs \<noteq> [] \<Longrightarrow> chunks_ok cs \<Longrightarrow> length (dyn_message red cnt cs) = 6 + 2 * ((length cs + 3) div 4) + 8 * length cs"
  by (simp add: dyn_message_def take_chunks length_chunks length_sig_loop)

lemma message_parts:
  assumes "chunks_ok cs"
  shows "dyn_message red cnt cs ! 0 = 8" "bit (dyn_message red cnt cs ! 1) 0 = red" "bit (dyn_message red cnt cs ! 1) (Suc 0)"
    "get16 (drop 2 (dyn_message red cnt cs)) = cnt" "get16 (drop 4 (dyn_message red cnt cs)) = word_of_nat (length cs)"
    "drop 6 (dyn_message red cnt cs) = sig_loop 0 0 0 cs @ concat (map writechunk cs)"
proof -
  have l: "dyn_message red cnt cs = [8, (if red then 1 else 0) OR 2] @ (be16 cnt @ (be16 (word_of_nat (length cs)) @ (sig_loop 0 0 0 cs @ concat (map writechunk cs))))"
    by (simp add: dyn_message_def take_chunks [OF assms])
  show "dyn_message red cnt cs ! 0 = 8" by (simp add: l)
  show "bit (dyn_message red cnt cs ! 1) 0 = red" "bit (dyn_message red cnt cs ! 1) (Suc 0)"
    by (simp_all add: l bit_or_iff bit_iff_odd)
  have d2: "drop 2 (dyn_message red cnt cs) = be16 cnt @ (be16 (word_of_nat (length cs)) @ (sig_loop 0 0 0 cs @ concat (map writechunk cs)))"
    by (simp add: l numeral_2_eq_2)
  have d4: "drop 4 (dyn_message red cnt cs) = be16 (word_of_nat (length cs)) @ (sig_loop 0 0 0 cs @ concat (map writechunk cs))"
    using arg_cong [OF d2, of "drop 2"] by (simp only: drop_drop get16_be16) (simp add: numeral_eq_Suc)
  show "get16 (drop 2 (dyn_message red cnt cs)) = cnt" unfolding d2 by (rule get16_be16)
  show "get16 (drop 4 (dyn_message red cnt cs)) = word_of_nat (length cs)" unfolding d4 by (rule get16_be16)
  show "drop 6 (dyn_message red cnt cs) = sig_loop 0 0 0 cs @ concat (map writechunk cs)"
    using arg_cong [OF d4, of "drop 2"] by (simp only: drop_drop get16_be16) (simp add: numeral_eq_Suc)
qed

lemma message_accepted: "cs \<noteq> [] \<Longrightarrow> length cs < 65536 \<Longrightarrow> chunks_ok cs \<Longrightarrow> message_error (length cs) (dyn_message red cnt cs) = 0"
proof -
  assume cs: "cs \<noteq> []" "length cs < 65536" "chunks_ok cs"
  have "unat (word_of_nat (length cs) :: u16) = length cs" using cs(2) by (simp add: unat_of_nat take_bit_nat_eq_self)
  then show ?thesis
    using message_parts [OF cs(3), of red cnt] message_length [OF cs(1,3), of red cnt]
    by (simp add: message_error_def Let_def)
qed

text \<open>A span that can receive: its channels are in the table, each at a place of its own.\<close>

definition ready_span :: "int \<Rightarrow> 'a dyn_sys_scheme \<Rightarrow> bool" where
  "ready_span b D \<longleftrightarrow> dyns D b \<noteq> None \<and> present (map nat (sp_chans (dspan D b))) (sw (dsys D)) \<and> distinct (map nat (sp_chans (dspan D b)))"

definition dyn_chan :: "int \<Rightarrow> nat \<Rightarrow> 'a dyn_sys_scheme \<Rightarrow> dahdi_chan option" where
  "dyn_chan b i D = w_chan (sw (dsys D)) (nat (sp_chans (dspan D b) ! i))"

lemma rbsbits_rxsig: "rxsig (dahdi_rbsbits sp s c) = (if flagged c FLAGBIT_SIGFREEZE then rxsig c else s)"
  by (simp add: dahdi_rbsbits_def Let_def)

lemma heard_eq: "map_option heard x = map_option heard y \<Longrightarrow> y = Some c \<Longrightarrow> \<exists>d. x = Some d \<and> readchunk d = readchunk c \<and> rxsig d = rxsig c"
  by (cases x) (auto simp: heard_def)

text \<open>An accepted message whose signalling updates the channels by \<open>fs\<close> and whose data are the chunks \<open>ds\<close>.\<close>

lemma receive_accepted:
  assumes r: "ready_span b D" and z: "dyns D b = Some z" and e: "message_error (length (sp_chans (dspan D b))) msg = 0"
    and ns: "ns = map nat (sp_chans (dspan D b))" and len: "length fs = length ns" "length ds = length ns" "\<forall>d \<in> set ds. length d = 8"
    and s: "(if bit (msg ! 1) 1 then recv_sigs (dspan D b) 0 0 (drop 6 msg) ns (sw (dsys D)) else Some (drop 6 msg, sw (dsys D))) =
      Some (concat ds, upd_all (zip ns fs) (sw (dsys D)))"
  shows "\<exists>D' z'. dahdi_dynamic_receive jif b msg D = Some D' \<and> dyns D' b = Some z' \<and>
    z_rxcnt z' = get16 (drop 2 msg) + 1 \<and> z_rxjif z' = jif \<and> z_err z' = z_err z \<and> z_txcnt z' = z_txcnt z \<and>
    (bit (sp_alarms (dspan D' b)) 2 = bit (msg ! 1) 0 \<and> \<not> bit (sp_alarms (dspan D' b)) 3) \<and> ready_span b D' \<and>
    sp_chans (dspan D' b) = sp_chans (dspan D b) \<and>
    (\<forall>i < length ns. \<exists>c d. dyn_chan b i D = Some c \<and> dyn_chan b i D' = Some d \<and> readchunk d = ds ! i \<and> rxsig d = rxsig ((fs ! i) c)) \<and>
    (\<forall>m. m \<notin> set ns \<longrightarrow> map_option heard (w_chan (sw (dsys D')) m) = map_option heard (w_chan (sw (dsys D)) m)) \<and>
    taskletpending D' = (taskletpending D \<or> z_master z)"
proof -
  define w where "w = sw (dsys D)"
  define sp where "sp = dspan D b"
  have p: "present ns w" "distinct ns" using r by (simp_all add: ready_span_def ns w_def)
  have nn: "map nat (sp_chans sp) = ns" by (simp add: ns sp_def)
  define v where "v = upd_all (zip ns fs) w"
  note V = upd_all_chan [OF p len(1), folded v_def]
  have pv: "present ns v" using V by simp
  define u where "u = upd_all (zip ns (map (\<lambda>d c. c\<lparr>readchunk := d\<rparr>) ds)) v"
  have d: "recv_data (concat ds) ns v = Some u" using recv_data_all [OF pv len(2,3)] by (simp add: u_def)
  note U = upd_all_chan [OF pv p(2), of "map (\<lambda>d c. c\<lparr>readchunk := d\<rparr>) ds", folded u_def]
  define A where "A = upd_dyn b (\<lambda>z. z\<lparr>z_rxcnt := get16 (drop 2 msg) + 1\<rparr>) (on_world u D)"
  define B where "B = recv_alarm b (bit (msg ! 1) 0) A"
  define C where "C = upd_dyn b (\<lambda>z. z\<lparr>z_rxjif := jif\<rparr>) B"
  define T where "T = (if z_master z then ztdynamic_run C else C)"
  have R: "dahdi_dynamic_receive jif b msg D = Some T"
    unfolding dahdi_dynamic_receive_def z Let_def option.case sp_def [symmetric] w_def [symmetric] nn
      s [folded w_def sp_def, folded v_def] prod.case d e [folded sp_def]
    by (simp add: A_def B_def C_def T_def)
  have a: "dyns A b = Some (z\<lparr>z_rxcnt := get16 (drop 2 msg) + 1\<rparr>)" using z by (simp add: A_def upd_dyn_def on_world_def)
  obtain m where B: "dyns B b = Some (z\<lparr>z_rxcnt := get16 (drop 2 msg) + 1, z_master := m\<rparr>)"
    using recv_alarm_dyns [OF a, of b "bit (msg ! 1) 0"] by (auto simp: B_def)
  have T: "dyns T = dyns C" "dsys T = dsys C" "dspan T = dspan C" "taskletpending T = (taskletpending D \<or> z_master z)"
    by (simp_all add: T_def ztdynamic_run_def dspan_def fun_eq_iff C_def B_def A_def upd_dyn_def on_world_def)
  have C: "dsys C = dsys B" "dspan C = dspan B"
    "dyns C b = Some (z\<lparr>z_rxcnt := get16 (drop 2 msg) + 1, z_master := m, z_rxjif := jif\<rparr>)"
    using B by (simp_all add: C_def upd_dyn_def dspan_def fun_eq_iff)
  have As: "dspan A = dspan D" "sw (dsys A) = u" by (simp_all add: A_def upd_dyn_def on_world_def dspan_def fun_eq_iff)
  have h: "map_option heard (w_chan (sw (dsys T)) n) = map_option heard (w_chan u n)" for n
    unfolding T(2) C(1) B_def recv_alarm_sel(3) As(2) ..
  have c: "sp_chans (dspan T b) = sp_chans (dspan D b)" unfolding T(3) C(2) B_def recv_alarm_sel(2) As(1) ..
  have pu: "present ns u" using U len(2) by simp
  have h0: "w_chan (sw (dsys T)) n = None \<longleftrightarrow> w_chan u n = None" for n using h [of n] by (cases "w_chan u n") auto
  have lT: "length (chans (w_sys (sw (dsys T)))) = length (chans (w_sys u))"
    unfolding T(2) C(1) B_def recv_alarm_length As(2) ..
  have pT: "present ns (sw (dsys T))" using pu by (simp add: present_def h0 lT)
  have chan: "\<exists>c d. dyn_chan b i D = Some c \<and> dyn_chan b i T = Some d \<and> readchunk d = ds ! i \<and> rxsig d = rxsig ((fs ! i) c)"
    if i: "i < length ns" for i
  proof -
    have ni: "nat (sp_chans (dspan D b) ! i) = ns ! i" using i by (simp add: ns)
    obtain c where c0: "w_chan w (ns ! i) = Some c" using p(1) i by (fastforce simp: present_def)
    have 1: "w_chan v (ns ! i) = Some ((fs ! i) c)" using V i c0 by simp
    have 2: "w_chan u (ns ! i) = Some (((fs ! i) c)\<lparr>readchunk := ds ! i\<rparr>)" using U i len(2) 1 by simp
    obtain d where "w_chan (sw (dsys T)) (ns ! i) = Some d" "readchunk d = ds ! i" "rxsig d = rxsig ((fs ! i) c)"
      using heard_eq [OF h 2] by auto
    then show ?thesis using c0 by (simp add: dyn_chan_def c ni w_def [symmetric])
  qed
  have other: "map_option heard (w_chan (sw (dsys T)) m) = map_option heard (w_chan (sw (dsys D)) m)" if "m \<notin> set ns" for m
    using that V U len(2) by (simp add: h w_def)
  have dT: "dyns T b = Some (z\<lparr>z_rxcnt := get16 (drop 2 msg) + 1, z_master := m, z_rxjif := jif\<rparr>)" using T(1) C(3) by simp
  have "bit (sp_alarms (dspan T b)) 2 = bit (msg ! 1) 0" "\<not> bit (sp_alarms (dspan T b)) 3"
    unfolding T(3) C(2) B_def by (rule recv_alarm_bits)+
  moreover have "ready_span b T" using pT p(2) dT by (simp add: ready_span_def c ns [symmetric])
  ultimately show ?thesis using R dT c T(4) chan other
    by (intro exI [of _ T] exI [of _ "z\<lparr>z_rxcnt := get16 (drop 2 msg) + 1, z_master := m, z_rxjif := jif\<rparr>"]) simp
qed

lemma receive_message:
  assumes r: "ready_span b D" and z: "dyns D b = Some z" and cs: "cs \<noteq> []" "length cs < 65536" "chunks_ok cs"
    and n: "length (sp_chans (dspan D b)) = length cs"
  shows "\<exists>D' z'. dahdi_dynamic_receive jif b (dyn_message red cnt cs) D = Some D' \<and> dyns D' b = Some z' \<and>
    z_rxcnt z' = cnt + 1 \<and> z_rxjif z' = jif \<and> z_err z' = z_err z \<and> z_txcnt z' = z_txcnt z \<and>
    (bit (sp_alarms (dspan D' b)) 2 = red \<and> \<not> bit (sp_alarms (dspan D' b)) 3) \<and> ready_span b D' \<and> sp_chans (dspan D' b) = sp_chans (dspan D b) \<and>
    (\<forall>i < length cs. \<exists>c d. dyn_chan b i D = Some c \<and> dyn_chan b i D' = Some d \<and> readchunk d = writechunk (cs ! i) \<and>
        rxsig d = (if flagged c FLAGBIT_SIGFREEZE then rxsig c
          else nib (cs ! i) + (if i mod 4 < 3 \<and> Suc i < length cs then 16 * nib (cs ! Suc i) else 0))) \<and>
    (\<forall>m. m \<notin> set (map nat (sp_chans (dspan D b))) \<longrightarrow>
        map_option heard (w_chan (sw (dsys D')) m) = map_option heard (w_chan (sw (dsys D)) m)) \<and>
    taskletpending D' = (taskletpending D \<or> z_master z)"
proof -
  define msg where "msg = dyn_message red cnt cs"
  define ns where "ns = map nat (sp_chans (dspan D b))"
  define sp where "sp = dspan D b"
  note P = message_parts [OF cs(3), of red cnt, folded msg_def]
  have l: "length ns = length cs" using n by (simp add: ns_def)
  have p: "present ns (sw (dsys D))" using r by (simp add: ready_span_def ns_def)
  have e: "message_error (length (sp_chans (dspan D b))) msg = 0" using message_accepted [OF cs] n by (simp add: msg_def)
  define fs where "fs = map (dahdi_rbsbits sp) (sig_got cs)"
  have s: "recv_sigs sp 0 0 (drop 6 msg) ns (sw (dsys D)) = Some (concat (map writechunk cs), upd_all (zip ns fs) (sw (dsys D)))"
    using sigs_roundtrip [of ns cs 0 0 sp 0 "concat (map writechunk cs)" "sw (dsys D)"] put_sigs_all [OF p, of "sig_got cs" sp] l cs(1)
    by (simp add: P fs_def)
  have fi: "rxsig ((fs ! i) c) = (if flagged c FLAGBIT_SIGFREEZE then rxsig c
      else nib (cs ! i) + (if i mod 4 < 3 \<and> Suc i < length cs then 16 * nib (cs ! Suc i) else 0))" if "i < length cs" for i c
    using that by (simp add: fs_def rbsbits_rxsig nth_sig_got)
  have "\<exists>D' z'. dahdi_dynamic_receive jif b msg D = Some D' \<and> dyns D' b = Some z' \<and>
    z_rxcnt z' = get16 (drop 2 msg) + 1 \<and> z_rxjif z' = jif \<and> z_err z' = z_err z \<and> z_txcnt z' = z_txcnt z \<and>
    (bit (sp_alarms (dspan D' b)) 2 = bit (msg ! 1) 0 \<and> \<not> bit (sp_alarms (dspan D' b)) 3) \<and> ready_span b D' \<and>
    sp_chans (dspan D' b) = sp_chans (dspan D b) \<and>
    (\<forall>i < length ns. \<exists>c d. dyn_chan b i D = Some c \<and> dyn_chan b i D' = Some d \<and> readchunk d = map writechunk cs ! i \<and>
       rxsig d = rxsig ((fs ! i) c)) \<and>
    (\<forall>m. m \<notin> set ns \<longrightarrow> map_option heard (w_chan (sw (dsys D')) m) = map_option heard (w_chan (sw (dsys D)) m)) \<and>
    taskletpending D' = (taskletpending D \<or> z_master z)"
    by (rule receive_accepted [OF r z e ns_def]) (use l cs(3) s P(3) in \<open>simp_all add: fs_def sp_def chunks_ok_def\<close>)
  then show ?thesis unfolding P(2,4) msg_def [symmetric] ns_def [symmetric] by (simp add: l fi cong: conj_cong)
qed

section \<open>Sending: the size of the buffer\<close>

lemma buffer_fits: "n \<noteq> 0 \<Longrightarrow> 6 + 2 * ((n + 3) div 4) + 8 * n \<le> dyn_bufsize n \<longleftrightarrow> n \<le> 164 \<or> n = 168"
proof -
  assume "n \<noteq> 0"
  define k where "k = n div 4"
  obtain r where r: "n = 4 * k + r" "r < 4" by (metis k_def div_mult_mod_eq mod_less_divisor mult.commute zero_less_numeral)
  have e: "(n + 3) div 4 = (if r = 0 then k else k + 1)" using r by auto
  show ?thesis unfolding dyn_bufsize_def k_def [symmetric] e by (cases "r = 0") (use r in \<open>simp_all, presburger+\<close>)
qed

text \<open>C27. The buffer \<open>create_dynamic\<close> allocates for the messages of a span is large enough for up to 164 channels and for 168, and
  too small for every other number up to the limit of 255: the message, two bytes for each group of four channels and eight for each
  channel after the header, is written past its end. So sending completes exactly for these numbers of channels, whatever the
  channels hold.\<close>

theorem message_fits:
  assumes z: "dyns D a = Some z" "z_msgbuf z = Some (dyn_bufsize (length cs))" "z_driver z = Some d" "z_pvt z = Some p"
    and cs: "span_chans (dsys D) a = Some cs" "cs \<noteq> []" "chunks_ok cs" and t: "\<And>msg D. de_transmit E d p msg D \<noteq> None"
  shows "ztd_sendmessage E a D \<noteq> None \<longleftrightarrow> length cs \<le> 164 \<or> length cs = 168"
  using z cs t by (simp add: ztd_sendmessage_def Let_def message_length buffer_fits)

text \<open>A system with a span at address 1 of \<open>n\<close> times channel 1, and one at address 2 of channel 2.\<close>

definition dyn_chan_ex :: dahdi_chan where
  "dyn_chan_ex = chan0\<lparr>sig := SIG_CAS, channo := 1, master := 1, cflags := 1, txsig := 5, writechunk := [1, 2, 3, 4, 5, 6, 7, 8]\<rparr>"

definition dyn_dahdi_ex :: "nat \<Rightarrow> dahdi_sys" where
  "dyn_dahdi_ex n = (sys0 (\<lambda>a. dyn_span\<lparr>sp_chans := (if a = 1 then replicate n 1 else [2])\<rparr>))\<lparr>sw := \<lparr>w_sys = conf_sys0\<lparr>chans :=
     (replicate 1024 None)[1 := Some dyn_chan_ex, 2 := Some dyn_chan_ex]\<rparr>, w_sums = sums0, w_zones = tone_globals0, w_timers = []\<rparr>\<rparr>"

definition dyn_ex :: "nat \<Rightarrow> dyn_sys" where
  "dyn_ex n = \<lparr>dsys = dyn_dahdi_ex n, dyns = (\<lambda>_. None)(1 := Some (dynamic0\<lparr>z_msgbuf := Some (dyn_bufsize n), z_driver := Some 0,
     z_pvt := Some 0\<rparr>), 2 := Some (dynamic0\<lparr>z_msgbuf := Some (dyn_bufsize 1), z_driver := Some 0, z_pvt := Some 1\<rparr>)),
     dspans = [2, 1], drivers = [0], hasmaster = False, taskletrun = 0, taskletsched = 0, taskletpending = False, taskletexec = 0,
     txerrors = 0\<rparr>"

definition tick_ex :: tick_env where
  "tick_ex = \<lparr>e_span = (\<lambda>_. span0), e_ops = (\<lambda>_. ec_ops0), e_fcs = (\<lambda>f b. 0)\<rparr>"

definition env_ex :: "dyn_sys dyn_env" where
  "env_ex = \<lparr>de_tick = tick_ex, de_name = (\<lambda>d. ''loc''), de_create = (\<lambda>d a address D. (None, D)), de_destroy = (\<lambda>d p D. D),
     de_transmit = (\<lambda>d p msg D. Some D), de_flush = (\<lambda>d D. D), de_request = (\<lambda>name D. D)\<rparr>"

lemma dyn_ex_chans: "the_chan 1 (dyn_dahdi_ex n) = Some dyn_chan_ex" "the_chan 2 (dyn_dahdi_ex n) = Some dyn_chan_ex"
  "length (chans (w_sys (sw (dyn_dahdi_ex n)))) = 1024"
  by (simp_all add: the_chan_def w_chan_def dyn_dahdi_ex_def)

lemmas dyn_ex_chans' = dyn_ex_chans [unfolded One_nat_def]

lemma dyn_ex_span_chans: "span_chans (dyn_dahdi_ex n) 1 = Some (replicate n dyn_chan_ex)"
proof -
  have "those (replicate n (Some dyn_chan_ex)) = Some (replicate n dyn_chan_ex)" by (induction n) simp_all
  moreover have "sp_chans (span_at (dyn_dahdi_ex n) 1) = replicate n 1" by (simp add: dyn_dahdi_ex_def sys0_def)
  ultimately show ?thesis by (simp add: span_chans_def dyn_ex_chans')
qed

theorem message_fits_witness:
  "ztd_sendmessage env_ex 1 (dyn_ex 165) = None \<and> ztd_sendmessage env_ex 1 (dyn_ex 24) \<noteq> None"
proof -
  have "ztd_sendmessage env_ex 1 (dyn_ex n) \<noteq> None \<longleftrightarrow> n \<le> 164 \<or> n = 168" if "n \<noteq> 0" for n
    using message_fits [of "dyn_ex n" 1 "dynamic0\<lparr>z_msgbuf := Some (dyn_bufsize n), z_driver := Some 0, z_pvt := Some 0\<rparr>"
        "replicate n dyn_chan_ex" 0 0 "env_ex"] that
    by (simp add: dyn_ex_def env_ex_def dyn_ex_span_chans chunks_ok_def dyn_chan_ex_def)
  from this [of 165] this [of 24] show ?thesis by simp
qed

section \<open>Reception of whatever comes\<close>

text \<open>The signalling bits the channel at a place takes from the words of a message, and the chunks behind them.\<close>

definition sig_of :: "byte list \<Rightarrow> nat \<Rightarrow> int" where
  "sig_of msg i = drop_bit (4 * (i mod 4)) (256 * uint (msg ! (2 * (i div 4))) + uint (msg ! Suc (2 * (i div 4)))) AND 255"

lemma uint_short: "uint (x :: byte) < 256" "uint (y :: u16) < 65536"
  by (rule order_less_le_trans [OF unsigned_less], simp)+

lemma get16_value: "uint (get16 msg) = 256 * uint (msg ! 0) + uint (msg ! 1)"
proof -
  have b: "uint (msg ! k) < 256" for k by (rule uint_short)
  have t: "take_bit 16 (uint (msg ! k)) = uint (msg ! k)" "take_bit 8 (uint (msg ! k)) = uint (msg ! k)" for k
    using b [of k] by (simp_all add: take_bit_int_eq_self)
  have "uint (get16 msg) = push_bit 8 (uint (msg ! 0)) OR uint (msg ! 1)"
    unfolding get16_def uint_or by (simp add: unsigned_push_bit_eq unsigned_ucast_eq take_bit_push_bit t)
  also have "\<dots> = 256 * uint (msg ! 0) + uint (msg ! 1)"
    using or_push [of "uint (msg ! 1)" 8 "uint (msg ! 0)"] b by (simp add: or.commute)
  finally show ?thesis .
qed

lemma sig_of_word: "2 * (i div 4) + 2 \<le> length msg \<Longrightarrow>
    drop_bit (4 * (i mod 4)) (uint (get16 (drop (2 * (i div 4)) msg))) AND 255 = sig_of msg i"
  by (simp add: sig_of_def get16_value)

lemma quarter: "x mod 4 = 0 \<Longrightarrow> (x + 3) div 4 = x div (4 :: nat)" "(x + 4) div 4 = Suc (x div (4 :: nat))"
  "x mod 4 \<noteq> 0 \<Longrightarrow> (x + 3) div 4 = Suc (x div (4 :: nat))"
  "Suc x mod 4 \<noteq> 0 \<Longrightarrow> Suc x div 4 = x div (4 :: nat)"
  by presburger+

lemma recv_sigs_words:
  assumes "2 * ((x + length ns + 3) div 4) \<le> length M"
    and "x mod 4 \<noteq> 0 \<Longrightarrow> bits = uint (get16 (drop (2 * (x div 4)) M))"
  shows "recv_sigs sp x bits (drop (2 * ((x + 3) div 4)) M) ns w =
    map_option (Pair (drop (2 * ((x + length ns + 3) div 4)) M)) (put_sigs sp (zip ns (map (sig_of M) [x..<x + length ns])) w)"
  using assms
proof (induction ns arbitrary: x bits w)
  case (Cons n ns)
  define g where "g = uint (get16 (drop (2 * (x div 4)) M))"
  have "Suc (x div 4) \<le> (x + length (n # ns) + 3) div 4" using div_le_mono [of "x + 4" "x + length (n # ns) + 3" 4] by simp
  then have l: "2 * (x div 4) + 2 \<le> length M" using Cons.prems(1) by simp
  have s: "drop_bit (4 * (x mod 4)) g AND 255 = sig_of M x" unfolding g_def by (rule sig_of_word [OF l])
  have b: "(if x mod 4 = 0 then uint (get16 (drop (2 * ((x + 3) div 4)) M)) else bits) = g"
    using Cons.prems(2) by (simp add: g_def quarter(1))
  have m: "(if x mod 4 = 0 then drop 2 (drop (2 * ((x + 3) div 4)) M) else drop (2 * ((x + 3) div 4)) M) =
      drop (2 * ((Suc x + 3) div 4)) M"
    using quarter(1-3) [of x] by (simp add: add.commute)
  have IH: "recv_sigs sp (Suc x) g (drop (2 * ((Suc x + 3) div 4)) M) ns v =
      map_option (Pair (drop (2 * ((x + length (n # ns) + 3) div 4)) M))
        (put_sigs sp (zip ns (map (sig_of M) [Suc x..<x + length (n # ns)])) v)" for v
    using Cons.IH [of "Suc x" g v] Cons.prems(1) quarter(4) [of x] by (simp add: g_def)
  have IHf: "recv_sigs sp (Suc x) g (drop (2 * ((Suc x + 3) div 4)) M) ns = (\<lambda>v.
      map_option (Pair (drop (2 * ((x + length (n # ns) + 3) div 4)) M))
        (put_sigs sp (zip ns (map (sig_of M) [Suc x..<x + length (n # ns)])) v))"
    by (rule ext) (rule IH)
  have S: "recv_sigs sp x bits (drop (2 * ((x + 3) div 4)) M) (n # ns) w =
      Option.bind (put_sig sp n (sig_of M x) w) (recv_sigs sp (Suc x) g (drop (2 * ((Suc x + 3) div 4)) M) ns)"
    by (subst recv_sigs_put) (use l in \<open>simp add: quarter(1)\<close>, simp only: Let_def b m s)
  show ?case unfolding S IHf by (simp add: map_bind upt_conv_Cons del: upt_Suc recv_sigs.simps)
qed simp

definition chunk_of :: "byte list \<Rightarrow> nat \<Rightarrow> byte list" where
  "chunk_of msg i = take 8 (drop (8 * i) msg)"

lemma chunks_concat: "length msg = 8 * n \<Longrightarrow> concat (map (chunk_of msg) [0..<n]) = msg"
proof (induction n arbitrary: msg)
  case (Suc n)
  have "concat (map (chunk_of msg) [0..<n]) = concat (map (chunk_of (take (8 * n) msg)) [0..<n])"
    by (intro arg_cong [where f = concat] map_cong refl) (auto simp: chunk_of_def drop_take min_def)
  also have "\<dots> = take (8 * n) msg" using Suc by simp
  finally have "concat (map (chunk_of msg) [0..<n]) = take (8 * n) msg" .
  moreover have "chunk_of msg n = drop (8 * n) msg" using Suc.prems by (simp add: chunk_of_def)
  ultimately show ?case by simp
qed simp

lemma w_upd_id: "w_upd n id w = w"
  by (simp add: w_upd_def upd_chan_def option.map_id)

lemma byte_or: "ERR_NSAMP OR uint (x :: byte) = ERR_NSAMP + uint x"
  using or_push [of "uint x" 16 1] uint_short(1) [of x] by (simp add: or.commute add.commute)

lemma short_or: "ERR_NCHAN OR uint (x :: u16) = ERR_NCHAN + uint x"
  using or_push [of "uint x" 17 1] uint_short(2) [of x] by (simp add: or.commute add.commute)

lemma len_or: "ERR_LEN OR int k \<noteq> 0"
proof -
  have "bit ERR_LEN 18" by (simp add: bit_iff_odd)
  then have "bit (ERR_LEN OR int k) 18" by (simp only: bit_or_iff simp_thms)
  then show ?thesis by (metis bit_0_eq bot_apply bot_bool_def)
qed

lemma get16_at: "Suc k < length msg \<Longrightarrow> uint (get16 (drop k msg)) = 256 * uint (msg ! k) + uint (msg ! Suc k)"
  by (simp add: get16_value)

text \<open>The last check, of a message whose header is that of \<open>n\<close> channels.\<close>

lemma checked_count:
  assumes "6 \<le> length msg" "uint (msg ! 0) = 8" "256 * uint (msg ! 4) + uint (msg ! 5) = int n"
    and "sgl = (1 < length msg \<and> bit (msg ! 1) 1)" "off = 6 + (if sgl then 2 * ((n + 3) div 4) else 0)"
  shows "message_error n msg = (if length msg = off + 8 * n then 0 else ERR_LEN OR int (off + 8 * n))"
proof -
  have "msg ! 0 = 8" using assms(2) by (simp add: word_uint_eq_iff)
  moreover have "unat (get16 (drop 4 msg)) = n" using get16_at [of 4 msg] assms(1,3) by (simp add: unat_eq_nat_uint)
  ultimately show ?thesis using assms(1,4,5) by (auto simp: message_error_def Let_def algebra_simps)
qed

lemma receive_checked:
  assumes r: "ready_span b D" and z: "dyns D b = Some z" and n: "length (sp_chans (dspan D b)) = n"
    and e: "message_error n msg = 0" and l: "6 \<le> length msg" "length msg = off + 8 * n"
    and sgl: "sgl = (1 < length msg \<and> bit (msg ! 1) 1)" and off: "off = 6 + (if sgl then 2 * ((n + 3) div 4) else 0)"
  shows "\<exists>D'. dahdi_dynamic_receive jif b msg D = Some D' \<and> ready_span b D' \<and>
    (\<exists>z'. dyns D' b = Some z' \<and> z_err z' = z_err z \<and> z_rxjif z' = jif \<and>
       uint (z_rxcnt z') = (256 * uint (msg ! 2) + uint (msg ! 3) + 1) mod 65536) \<and>
    bit (sp_alarms (dspan D' b)) 2 = bit (msg ! 1) 0 \<and> \<not> bit (sp_alarms (dspan D' b)) DAHDI_ALARM_RED \<and>
    (\<forall>i < n. \<exists>c d. dyn_chan b i D = Some c \<and> dyn_chan b i D' = Some d \<and> readchunk d = take 8 (drop (off + 8 * i) msg) \<and>
       rxsig d = (if sgl \<and> \<not> flagged c FLAGBIT_SIGFREEZE then sig_of (drop 6 msg) i else rxsig c))"
proof -
  define ns where "ns = map nat (sp_chans (dspan D b))"
  define M where "M = drop 6 msg"
  define sp where "sp = dspan D b"
  have ln: "length ns = n" using n by (simp add: ns_def)
  have p: "present ns (sw (dsys D))" using r by (simp add: ready_span_def ns_def)
  have b: "bit (msg ! 1) 1 = sgl" using l(1) sgl by simp
  define ss where "ss = map (sig_of M) [0..<n]"
  define fs where "fs = (if sgl then map (dahdi_rbsbits sp) ss else replicate n id)"
  define ds where "ds = map (chunk_of (drop off msg)) [0..<n]"
  have cd: "concat ds = drop off msg" unfolding ds_def using l(2) by (intro chunks_concat) simp
  have dl: "length d = 8" if "d \<in> set ds" for d using that l(2) by (auto simp: ds_def chunk_of_def)
  have idw: "upd_all (zip ns (replicate (length ns) id)) w = w" for w
    by (induction ns arbitrary: w) (simp_all add: upd_all_def w_upd_id)
  have s: "(if bit (msg ! 1) 1 then recv_sigs sp 0 0 M ns (sw (dsys D)) else Some (M, sw (dsys D))) =
      Some (concat ds, upd_all (zip ns fs) (sw (dsys D)))"
  proof (cases sgl)
    case True
    have "recv_sigs sp 0 0 M ns (sw (dsys D)) = map_option (Pair (drop off msg)) (put_sigs sp (zip ns ss) (sw (dsys D)))"
      using recv_sigs_words [of 0 ns M 0 sp "sw (dsys D)"] l(2) off True by (simp add: ln M_def ss_def add.commute)
    then show ?thesis using put_sigs_all [OF p, of ss sp] b True by (simp add: cd fs_def ss_def ln)
  next
    case False
    then show ?thesis using b off by (simp add: cd fs_def M_def idw [unfolded ln])
  qed
  have fi: "rxsig ((fs ! i) c) = (if sgl \<and> \<not> flagged c FLAGBIT_SIGFREEZE then sig_of M i else rxsig c)" if "i < n" for i c
    using that by (simp add: fs_def ss_def rbsbits_rxsig)
  have di: "ds ! i = take 8 (drop (off + 8 * i) msg)" if "i < n" for i
    using that by (simp add: ds_def chunk_of_def add.commute)
  have lfs: "length fs = length ns" "length ds = length ns" by (simp_all add: fs_def ss_def ds_def ln)
  obtain D' z' where D: "dahdi_dynamic_receive jif b msg D = Some D'" "dyns D' b = Some z'" "z_rxcnt z' = get16 (drop 2 msg) + 1"
    "z_rxjif z' = jif" "z_err z' = z_err z" "bit (sp_alarms (dspan D' b)) 2 = bit (msg ! 1) 0" "\<not> bit (sp_alarms (dspan D' b)) 3"
    "ready_span b D'" "\<forall>i < length ns. \<exists>c d. dyn_chan b i D = Some c \<and> dyn_chan b i D' = Some d \<and> readchunk d = ds ! i \<and>
       rxsig d = rxsig ((fs ! i) c)"
    using receive_accepted [OF r z e [folded n] ns_def lfs _ s [unfolded sp_def M_def]] dl by blast
  have "uint (z_rxcnt z') = (256 * uint (msg ! 2) + uint (msg ! 3) + 1) mod 65536"
    unfolding D(3) using get16_at [of 2 msg] l(1) by (simp add: uint_word_ariths)
  moreover have "\<forall>i < n. \<exists>c d. dyn_chan b i D = Some c \<and> dyn_chan b i D' = Some d \<and> readchunk d = take 8 (drop (off + 8 * i) msg) \<and>
      rxsig d = (if sgl \<and> \<not> flagged c FLAGBIT_SIGFREEZE then sig_of M i else rxsig c)"
    using D(9) by (simp add: ln di fi cong: conj_cong)
  ultimately show ?thesis using D(1,2,4-8) unfolding M_def by blast
qed


lemma receive_cases:
  assumes "dahdi_dynamic_receive jif b msg D = Some D'"
  obtains e where "D' = upd_dyn b (\<lambda>z. z\<lparr>z_err := e\<rparr>) D"
  | k y c v where "D' = (let B = upd_dyn b (\<lambda>z. z\<lparr>z_rxjif := jif\<rparr>) (recv_alarm b y (upd_dyn b (\<lambda>z. z\<lparr>z_rxcnt := c\<rparr>) (on_world v D)))
      in if k then ztdynamic_run B else B)"
proof -
  obtain z where z: "dyns D b = Some z" using assms by (auto simp: dahdi_dynamic_receive_def split: option.splits)
  show thesis
  proof (cases "message_error (length (sp_chans (dspan D b))) msg = 0")
    case False
    then have "D' = upd_dyn b (\<lambda>z'. z'\<lparr>z_err := message_error (length (sp_chans (dspan D b))) msg\<rparr>) D"
      using assms z by (auto simp: dahdi_dynamic_receive_def Let_def)
    then show thesis by (rule that(1))
  next
    case True
    then obtain v where "D' = (let B = upd_dyn b (\<lambda>z. z\<lparr>z_rxjif := jif\<rparr>) (recv_alarm b (bit (msg ! 1) 0)
          (upd_dyn b (\<lambda>z. z\<lparr>z_rxcnt := get16 (drop 2 msg) + 1\<rparr>) (on_world v D))) in if z_master z then ztdynamic_run B else B)"
      using assms unfolding dahdi_dynamic_receive_def z option.case Let_def
      by (cases "bit (msg ! 1) 1") (auto split: option.splits)
    then show thesis by (rule that(2))
  qed
qed

lemma receive_others: "dahdi_dynamic_receive jif b msg D = Some D' \<Longrightarrow> b \<noteq> a \<Longrightarrow> dyns D a = Some z \<Longrightarrow>
    \<exists>m. dyns D' a = Some (z\<lparr>z_master := m\<rparr>)"
proof -
  assume r: "dahdi_dynamic_receive jif b msg D = Some D'" and b: "b \<noteq> a" and z: "dyns D a = Some z"
  have u: "dyns (upd_dyn b f A) a = dyns A a" for f A using b by (simp add: upd_dyn_def)
  have t: "dyns (ztdynamic_run A) = dyns A" for A by (simp add: ztdynamic_run_def)
  have w: "dyns (upd_dyn b f (on_world v D)) a = Some z" for f v using z b by (simp add: upd_dyn_def on_world_def)
  from r show ?thesis
  proof (cases rule: receive_cases)
    case (1 e)
    then have "dyns D' a = Some (z\<lparr>z_master := z_master z\<rparr>)" using z by (simp add: u)
    then show ?thesis ..
  next
    case (2 k y c v)
    obtain m where "dyns (recv_alarm b y (upd_dyn b (\<lambda>z. z\<lparr>z_rxcnt := c\<rparr>) (on_world v D))) a = Some (z\<lparr>z_master := m\<rparr>)"
      using recv_alarm_dyns [OF w] by blast
    then have "dyns D' a = Some (z\<lparr>z_master := m\<rparr>)" by (simp add: 2 Let_def t u)
    then show ?thesis ..
  qed
qed

lemma dyn_ex_ready: "ready_span 2 (dyn_ex n)" "dspan (dyn_ex n) 2 = dyn_span\<lparr>sp_chans := [2]\<rparr>"
proof -
  show d: "dspan (dyn_ex n) 2 = dyn_span\<lparr>sp_chans := [2]\<rparr>" by (simp add: dspan_def dyn_ex_def dyn_dahdi_ex_def sys0_def)
  show "ready_span 2 (dyn_ex n)" using dyn_ex_chans [of n]
    by (simp add: ready_span_def d present_def the_chan_def) (simp add: dyn_ex_def)
qed


end
