(* ===== verification/Dynamic_Master.thy ===== *)
theory Dynamic_Master
  imports Dynamic
begin

text \<open>
  The timing master of the dynamic spans along everything that can happen to them: what a driver of dynamic spans may do
  (the interface \<open>dyn_driver\<close>), the steps of the system, and the invariant that the span marked as master is always the first of the
  best ones, along every run whose steps are safe: all but the unregistering of a driver that has an open span.
\<close>

section \<open>What the choice depends on\<close>

text \<open>\<open>listed\<close>: the list is well formed; \<open>mastered\<close>: the marks are those of the choice.\<close>

definition listed :: "'a dyn_sys_scheme \<Rightarrow> bool" where
  "listed D \<longleftrightarrow> distinct (dspans D) \<and> (\<forall>a \<in> set (dspans D). \<exists>z. dyns D a = Some z \<and> \<not> z_dead z \<and> (z_timing z = 0 \<longrightarrow> \<not> z_master z))"

definition mastered :: "'a dyn_sys_scheme \<Rightarrow> bool" where
  "mastered D \<longleftrightarrow> listed D \<and> (hasmaster D \<longleftrightarrow> best_master D \<noteq> None) \<and>
     (\<forall>a \<in> set (dspans D). \<forall>z. dyns D a = Some z \<longrightarrow> (z_master z \<longleftrightarrow> best_master D = Some a))"

lemma best_master_cong:
  assumes "dspans D' = dspans D" "\<forall>a \<in> set (dspans D). candidate D' a = candidate D a \<and> pref D' a = pref D a"
  shows "best_master D' = best_master D"
proof -
  have "fold (pick D') as p = fold (pick D) as p" if "set as \<subseteq> set (dspans D)" for as p
    using that assms(2) by (induction as arbitrary: p) (auto simp: pick_def split_beta)
  then show ?thesis using assms(1) by (simp add: best_master_def)
qed

text \<open>What the choice looks at in a span.\<close>

definition view :: "'a dyn_sys_scheme \<Rightarrow> int \<Rightarrow> (int \<times> bool \<times> bool \<times> bool) option" where
  "view D a = map_option (\<lambda>z. (z_timing z, z_dead z, z_master z, bit (sp_alarms (dspan D a)) DAHDI_ALARM_RED)) (dyns D a)"

definition same_view :: "'a dyn_sys_scheme \<Rightarrow> 'a dyn_sys_scheme \<Rightarrow> bool" where
  "same_view D D' \<longleftrightarrow> dspans D' = dspans D \<and> hasmaster D' = hasmaster D \<and> (\<forall>a \<in> set (dspans D). view D' a = view D a)"

lemma same_view_refl [simp]: "same_view D D"
  by (simp add: same_view_def)

lemma same_view_trans: "same_view A B \<Longrightarrow> same_view B C \<Longrightarrow> same_view A C"
  by (simp add: same_view_def)

lemma view_facts: "view D' a = view D a \<Longrightarrow> candidate D' a = candidate D a \<and> pref D' a = pref D a"
  by (cases "dyns D a"; cases "dyns D' a") (auto simp: view_def candidate_def pref_def)

lemma mastered_view: "mastered D \<Longrightarrow> same_view D D' \<Longrightarrow> mastered D'"
proof -
  assume m: "mastered D" and v: "same_view D D'"
  have s: "dspans D' = dspans D" "hasmaster D' = hasmaster D" "\<forall>a \<in> set (dspans D). view D' a = view D a"
    using v by (simp_all add: same_view_def)
  have b: "best_master D' = best_master D" using s view_facts by (intro best_master_cong) auto
  have z: "\<exists>z. dyns D a = Some z \<and> z_timing z = z_timing y \<and> z_dead z = z_dead y \<and> z_master z = z_master y"
    if "a \<in> set (dspans D)" "dyns D' a = Some y" for a y
    using s(3) that by (cases "dyns D a") (auto simp: view_def)
  have e: "\<exists>y. dyns D' a = Some y" if "a \<in> set (dspans D)" for a
    using s(3) that m by (cases "dyns D' a") (fastforce simp: view_def mastered_def listed_def)+
  have "listed D'" unfolding listed_def s(1)
  proof (intro conjI ballI)
    show "distinct (dspans D)" using m by (simp add: mastered_def listed_def)
    fix a assume a: "a \<in> set (dspans D)"
    obtain y where y: "dyns D' a = Some y" using e [OF a] by blast
    obtain z where "dyns D a = Some z" "z_timing z = z_timing y" "z_dead z = z_dead y" "z_master z = z_master y" using z [OF a y] by blast
    then show "\<exists>z. dyns D' a = Some z \<and> \<not> z_dead z \<and> (z_timing z = 0 \<longrightarrow> \<not> z_master z)" using m a y by (auto simp: mastered_def listed_def)
  qed
  then show ?thesis using m s b z by (fastforce simp: mastered_def)
qed

lemma mastered_listed: "mastered D \<Longrightarrow> listed D"
  by (simp add: mastered_def)

lemma view_checkmaster: "candidate (checkmaster D) = candidate D" "pref (checkmaster D) = pref D"
  by (auto simp: candidate_def pref_def checkmaster_dyns fun_eq_iff split: option.split)

lemma checkmaster_mastered: "listed D \<Longrightarrow> mastered (checkmaster D)"
proof -
  assume l: "listed D"
  have b: "best_master (checkmaster D) = best_master D" by (rule best_master_cong) (simp_all add: view_checkmaster)
  have t: "z_timing z \<noteq> 0" if "best_master D = Some a" "dyns D a = Some z" for a z
    using best_master_Some [OF that(1)] that(2) by (simp add: candidate_def)
  have "listed (checkmaster D)" using l t by (fastforce simp: listed_def checkmaster_dyns)
  then show ?thesis using l by (fastforce simp: mastered_def b checkmaster_dyns listed_def)
qed

section \<open>The operations of the core\<close>

definition harmless :: "(dahdi_dynamic \<Rightarrow> dahdi_dynamic) \<Rightarrow> bool" where
  "harmless f \<longleftrightarrow> (\<forall>z. z_timing (f z) = z_timing z \<and> z_dead (f z) = z_dead z \<and> z_master (f z) = z_master z)"

lemma view_upd: "harmless f \<Longrightarrow> same_view D (upd_dyn a f D)"
  by (auto simp: same_view_def view_def upd_dyn_def harmless_def dspan_def option.map_comp o_def)

lemma view_world: "same_view D (on_world w D)"
  by (simp add: same_view_def view_def on_world_def dspan_def)

lemma view_run: "same_view D (ztdynamic_run D)"
  by (simp add: same_view_def view_def ztdynamic_run_def dspan_def)

lemma listed_set_alarms [simp]: "listed (set_alarms a al D) = listed D"
  by (simp add: listed_def)

lemma recv_alarm_mastered: "mastered D \<Longrightarrow> mastered (recv_alarm a y D)"
  by (simp add: recv_alarm_def Let_def checkmaster_mastered mastered_listed)

lemma receive_mastered: "mastered D \<Longrightarrow> dahdi_dynamic_receive jif b msg D = Some D' \<Longrightarrow> mastered D'"
proof -
  assume m: "mastered D" and r: "dahdi_dynamic_receive jif b msg D = Some D'"
  have u: "mastered A \<Longrightarrow> harmless f \<Longrightarrow> mastered (upd_dyn b f A)" for A f using mastered_view view_upd by blast
  have w: "mastered A \<Longrightarrow> mastered (on_world v A)" for A v using mastered_view view_world by blast
  have t: "mastered A \<Longrightarrow> mastered (ztdynamic_run A)" for A using mastered_view view_run by blast
  have h: "harmless (\<lambda>z. z\<lparr>z_err := e\<rparr>)" "harmless (\<lambda>z. z\<lparr>z_rxcnt := c\<rparr>)" "harmless (\<lambda>z. z\<lparr>z_rxjif := j\<rparr>)" for e c j
    by (simp_all add: harmless_def)
  show ?thesis
    using r unfolding dahdi_dynamic_receive_def Let_def
    by (auto simp: t u w m h recv_alarm_mastered split: option.splits prod.splits if_splits)
qed

lemma red_fold: "fold (red_step HZ jif) as (n, D) = (k, D') \<Longrightarrow>
    dyns D' = dyns D \<and> dspans D' = dspans D \<and> n \<le> k \<and> (k = n \<longrightarrow> D' = D)"
proof (induction as arbitrary: n D)
  case (Cons a as)
  obtain n1 D1 where s: "red_step HZ jif a (n, D) = (n1, D1)" by fastforce
  have "dyns D1 = dyns D \<and> dspans D1 = dspans D \<and> (n1 = n \<and> D1 = D \<or> n1 = Suc n)"
    using s by (auto simp: red_step_def Let_def split: option.splits if_splits)
  then show ?case using Cons.IH [of n1 D1] Cons.prems s by auto
qed simp

lemma red_mastered: "mastered D \<Longrightarrow> mastered (check_for_red_alarm HZ jif D)"
proof -
  assume m: "mastered D"
  obtain k D' where f: "fold (red_step HZ jif) (dspans D) (0, D) = (k, D')" by fastforce
  have "listed D'" using red_fold [OF f] mastered_listed [OF m] by (simp add: listed_def)
  then show ?thesis using red_fold [OF f] m by (simp add: check_for_red_alarm_def f checkmaster_mastered)
qed

lemma open_mastered: "mastered D \<Longrightarrow> mastered (snd (ztd_open a D))"
proof -
  assume "mastered D"
  moreover have "same_view D (upd_dyn a (\<lambda>z. z\<lparr>z_usecount := z_usecount z + 1\<rparr>) D)" by (rule view_upd) (simp add: harmless_def)
  ultimately show ?thesis using mastered_view by (auto simp: ztd_open_def split: option.split)
qed

section \<open>What a driver may do\<close>

text \<open>
  The interface of the drivers: creating, destroying and flushing touch only their own state, loading a module at most the list of
  drivers; sending a message of a span that is not freed may hand messages up, to any span, any number of times.
\<close>

inductive receives :: "'a dyn_sys_scheme \<Rightarrow> 'a dyn_sys_scheme \<Rightarrow> bool" where
  nothing: "dyn_sys.truncate D' = dyn_sys.truncate D \<Longrightarrow> receives D D'"
| message: "receives D A \<Longrightarrow> dahdi_dynamic_receive jif b msg A = Some D' \<Longrightarrow> receives D D'"

definition same_core :: "'a dyn_sys_scheme \<Rightarrow> 'a dyn_sys_scheme \<Rightarrow> bool" where
  "same_core D D' \<longleftrightarrow> dsys D' = dsys D \<and> dyns D' = dyns D \<and> dspans D' = dspans D \<and> hasmaster D' = hasmaster D"

lemma same_core_view: "same_core D D' \<Longrightarrow> same_view D D'"
  by (simp add: same_core_def same_view_def view_def dspan_def)

lemma same_core_listed: "same_core D D' \<Longrightarrow> listed D' = listed D"
  by (simp add: same_core_def listed_def)

lemma truncate_core: "dyn_sys.truncate D' = dyn_sys.truncate D \<Longrightarrow> same_core D D'"
  by (simp add: dyn_sys.truncate_def same_core_def)

lemma receives_mastered: "receives D D' \<Longrightarrow> mastered D \<Longrightarrow> mastered D'"
proof (induction rule: receives.induct)
  case (nothing D' D)
  then show ?case using mastered_view same_core_view truncate_core by blast
next
  case (message D A jif b msg D')
  then show ?case using receive_mastered by blast
qed

locale dyn_driver =
  fixes E :: "'a dyn_sys_scheme dyn_env"
  assumes create: "same_core D (snd (de_create E d a addr D))"
    and destroy: "same_core D (de_destroy E d p D)"
    and flush: "same_core D (de_flush E d D)"
    and request: "same_core D (de_request E name D)"
    and transmit: "de_transmit E d p msg D = Some D' \<Longrightarrow> receives D D'"
begin

lemma sendmessage_mastered: "mastered D \<Longrightarrow> ztd_sendmessage E a D = Some D' \<Longrightarrow> mastered D'"
proof -
  assume m: "mastered D" and s: "ztd_sendmessage E a D = Some D'"
  have "mastered (upd_dyn a (\<lambda>z. z\<lparr>z_txcnt := z_txcnt z + 1\<rparr>) D)"
    using mastered_view [OF m view_upd] by (simp add: harmless_def)
  then show ?thesis
    using s by (auto simp: ztd_sendmessage_def Let_def split: option.splits if_splits intro: receives_mastered [OF transmit])
qed

lemma run_span_mastered: "mastered D \<Longrightarrow> run_span E a D = Some D' \<Longrightarrow> mastered D'"
proof -
  assume m: "mastered D" and s: "run_span E a D = Some D'"
  have "mastered (upd_dyn a (\<lambda>z. z\<lparr>z_maint := k\<rparr>) (on_world w D))" for k w
    using mastered_view [OF mastered_view [OF m view_world] view_upd] by (simp add: harmless_def)
  then show ?thesis using s m
    by (auto simp: run_span_def Let_def split: option.splits if_splits intro: sendmessage_mastered)
qed

lemma run_spans_mastered: "mastered D \<Longrightarrow> run_spans E as D = Some D' \<Longrightarrow> mastered D'"
  by (induction as arbitrary: D) (auto split: option.splits dest: run_span_mastered)

lemma flush_mastered: "mastered D \<Longrightarrow> mastered (fold (de_flush E) ds D)"
proof (induction ds arbitrary: D)
  case (Cons d ds)
  then show ?case using mastered_view [OF Cons.prems same_core_view [OF flush]] by simp
qed simp

lemma tasklet_mastered: "mastered D \<Longrightarrow> ztd_tasklet E D = Some D' \<Longrightarrow> mastered D'"
proof -
  assume m: "mastered D" and t: "ztd_tasklet E D = Some D'"
  have v: "same_view A (A\<lparr>taskletrun := i\<rparr>)" "same_view A (A\<lparr>taskletexec := i\<rparr>)" "same_view A (A\<lparr>taskletpending := b\<rparr>)"
    for A :: "'a dyn_sys_scheme" and i b by (simp_all add: same_view_def view_def dspan_def)
  have 1: "mastered (D\<lparr>taskletrun := i\<rparr>)" "mastered (D\<lparr>taskletrun := i, taskletexec := j\<rparr>)" for i j
    using mastered_view [OF m v(1)] mastered_view [OF mastered_view [OF m v(1)] v(2)] by simp_all
  have 2: "mastered A \<Longrightarrow> mastered (A\<lparr>taskletpending := b\<rparr>)" for A :: "'a dyn_sys_scheme" and b using mastered_view v(3) by blast
  have 3: "run_all E A = Some B \<Longrightarrow> mastered A \<Longrightarrow> mastered B" for A B
    using run_spans_mastered flush_mastered by (auto simp: run_all_def)
  show ?thesis using t 1 2 3 by (auto simp: ztd_tasklet_def Let_def split: if_splits)
qed

lemma destroy_mastered: "listed D \<Longrightarrow> a \<notin> set (dspans D) \<Longrightarrow> dyns D a \<noteq> None \<Longrightarrow> mastered (dynamic_destroy E a D)"
proof -
  assume l: "listed D" and a: "a \<notin> set (dspans D)" "dyns D a \<noteq> None"
  obtain z where z: "dyns D a = Some z" using a(2) by auto
  define A where "A = (if span_registered (dspan D a) then D\<lparr>dsys := snd (dahdi_unregister id a (dsys D))\<rparr> else D)"
  define B where "B = (case (z_driver z, z_pvt z) of (Some d, Some p) \<Rightarrow> de_destroy E d p A | _ \<Rightarrow> A)"
  have A: "listed A" "dspans A = dspans D" using l by (simp_all add: A_def listed_def)
  have "same_core A B" unfolding B_def by (cases "z_driver z"; cases "z_pvt z") (simp_all add: destroy, simp_all add: same_core_def)
  then have "listed B" "dspans B = dspans D" using same_core_listed [of A B] A by (simp_all add: same_core_def)
  then have "listed (B\<lparr>dyns := (dyns B)(a := None)\<rparr>)" using a(1) by (auto simp: listed_def)
  then have "mastered (checkmaster (B\<lparr>dyns := (dyns B)(a := None)\<rparr>))" by (rule checkmaster_mastered)
  then show ?thesis unfolding dynamic_destroy_def z option.case Let_def A_def [symmetric] B_def [symmetric] .
qed

lemma destroy_dynamic_mastered: "mastered D \<Longrightarrow> mastered (snd (destroy_dynamic E zds D))"
proof (cases "find_dynamic zds D")
  case (Some a)
  assume m: "mastered D"
  have a: "a \<in> set (dspans D)" using Some by (auto simp: find_dynamic_def find_Some_iff)
  have l: "distinct (dspans D)" "dyns D a \<noteq> None" using mastered_listed [OF m] a by (auto simp: listed_def)
  have "listed (D\<lparr>dspans := remove1 a (dspans D)\<rparr>)"
    using mastered_listed [OF m] by (auto simp: listed_def dest: notin_set_remove1)
  then have "mastered (dynamic_destroy E a (D\<lparr>dspans := remove1 a (dspans D)\<rparr>))"
    using l by (intro destroy_mastered) simp_all
  then show ?thesis using m Some l by (simp add: destroy_dynamic_def split: option.split)
qed (simp add: destroy_dynamic_def)

text \<open>A span that is closed after its driver has gone is no longer in the list.\<close>

lemma close_mastered: "mastered D \<Longrightarrow> mastered (ztd_close E a D)"
proof -
  assume m: "mastered D"
  define A where "A = upd_dyn a (\<lambda>z. z\<lparr>z_usecount := z_usecount z - 1\<rparr>) D"
  have A: "mastered A" unfolding A_def by (rule mastered_view [OF m view_upd]) (simp add: harmless_def)
  have "mastered (dynamic_destroy E a A)" if z: "dyns A a = Some z" "z_dead z" for z
    using z mastered_listed [OF A] by (intro destroy_mastered) (auto simp: listed_def)
  then show ?thesis using A by (simp add: ztd_close_def A_def [symmetric] Let_def split: option.split)
qed

lemma attach_mastered:
  assumes l: "mastered D" and a: "a \<notin> set (dspans D)" and z: "dyns D a = Some z" "\<not> z_dead z" "\<not> z_master z"
  shows "mastered (snd (attach_dynamic E zds a D))"
proof -
  define A where "A = (if find_driver E (zds_driver zds) D = None then de_request E (zds_driver zds) D else D)"
  have "same_core D A" unfolding A_def using request by (simp add: same_core_def)
  then have A: "mastered A" "dspans A = dspans D" "dyns A = dyns D" using mastered_view [OF l same_core_view] by (simp_all add: same_core_def)
  have k: "mastered (snd (case de_create E d a addr A of (None, D) \<Rightarrow> (- EINVAL, D)
      | (Some p, D) \<Rightarrow> let D = upd_dyn a (\<lambda>z. z\<lparr>z_pvt := Some p, z_driver := Some d\<rparr>) D;
           (r, S) = dahdi_register 0 a (dyn_chans n) False (dsys D); D = D\<lparr>dsys := S\<rparr>
         in if r \<noteq> 0 then (- EINVAL, dynamic_destroy E a D)
            else let D = checkmaster (D\<lparr>dspans := a # dspans D\<rparr>) in (spanno (dspan D a), D)))" for d addr n
  proof -
    obtain q C where c: "de_create E d a addr A = (q, C)" by fastforce
    have sc: "same_core A C" using create [of A d a addr] by (simp add: c)
    then have C: "mastered C" "dspans C = dspans D" "dyns C = dyns D"
      using mastered_view [OF A(1) same_core_view] A by (simp_all add: same_core_def)
    show ?thesis
    proof (cases q)
      case None
      then show ?thesis using C(1) by (simp add: c)
    next
      case (Some p)
      define F where "F = upd_dyn a (\<lambda>z. z\<lparr>z_pvt := Some p, z_driver := Some d\<rparr>) C"
      obtain r S where rs: "dahdi_register 0 a (dyn_chans n) False (dsys F) = (r, S)" by fastforce
      define G where "G = F\<lparr>dsys := S\<rparr>"
      have F: "mastered F" unfolding F_def by (rule mastered_view [OF C(1) view_upd]) (simp add: harmless_def)
      have G: "listed G" "dspans G = dspans D" "\<exists>y. dyns G a = Some y \<and> \<not> z_dead y \<and> \<not> z_master y"
        using mastered_listed [OF F] C(2,3) z by (simp_all add: G_def F_def upd_dyn_def listed_def)
      have "listed (G\<lparr>dspans := a # dspans G\<rparr>)" using G a by (auto simp: listed_def)
      then have 1: "mastered (checkmaster (G\<lparr>dspans := a # dspans G\<rparr>))" by (rule checkmaster_mastered)
      have 2: "mastered (dynamic_destroy E a G)" using G a by (intro destroy_mastered) auto
      show ?thesis using 1 2 by (simp add: c Some F_def [symmetric] rs G_def [symmetric] Let_def del: dspans_update_def)
    qed
  qed
  have n: "mastered (dynamic_destroy E a A)" using A a z mastered_listed by (intro destroy_mastered) auto
  show ?thesis using k n unfolding attach_dynamic_def A_def [symmetric] Let_def
    by (cases "find_driver E (zds_driver zds) A") simp_all
qed

lemma create_mastered:
  assumes m: "mastered D" and f: "\<forall>a. al_z al = Some a \<longrightarrow> dyns D a = None"
  shows "mastered (snd (create_dynamic E al zds D))"
proof (cases "al_z al")
  case None
  then show ?thesis using m by (simp add: create_dynamic_def Let_def)
next
  case (Some a)
  have a: "a \<notin> set (dspans D)" using f Some mastered_listed [OF m] by (auto simp: listed_def)
  define A where "A = D\<lparr>dyns := (dyns D)(a := Some dynamic0), dsys := upd_span a (\<lambda>_. span0\<lparr>spanno := 0\<rparr>) (dsys D)\<rparr>"
  have "same_view D A" using a by (auto simp: same_view_def view_def A_def dspan_def upd_span_def)
  then have A: "mastered A" "dspans A = dspans D" "dyns A a = Some dynamic0" using mastered_view [OF m] by (simp_all add: A_def)
  define B where "B = upd_dyn a (\<lambda>z. z\<lparr>z_msgbuf := Some (dyn_bufsize (nat (zds_numchans zds))), z_dname := take 19 (zds_driver zds),
      z_addr := take 39 (zds_addr zds), z_timing := zds_timing zds\<rparr>) (A\<lparr>dsys := upd_span a (\<lambda>_. dyn_span) (dsys A)\<rparr>)"
  have "same_view A B" using a A(2) by (auto simp: same_view_def view_def B_def dspan_def upd_span_def upd_dyn_def)
  then have B: "mastered B" "dspans B = dspans D" using mastered_view [OF A(1)] A(2) by (simp_all add: B_def upd_dyn_def)
  have "\<exists>z. dyns B a = Some z \<and> \<not> z_dead z \<and> \<not> z_master z" using A(3) by (simp add: B_def upd_dyn_def dynamic0_def)
  then have 1: "mastered (snd (attach_dynamic E zds a B))" using attach_mastered [OF B(1)] a B(2) by auto
  have 2: "mastered (dynamic_destroy E a A)" using A a mastered_listed by (intro destroy_mastered) auto
  show ?thesis using m 1 2 by (simp add: create_dynamic_def Some A_def [symmetric] B_def [symmetric] Let_def)
qed

lemma drop_mastered: "mastered D \<Longrightarrow> (\<forall>z. dyns D a = Some z \<and> z_driver z = Some d \<longrightarrow> z_usecount z = 0) \<Longrightarrow> mastered (drop_span E d a D)"
proof -
  assume m: "mastered D" and u: "\<forall>z. dyns D a = Some z \<and> z_driver z = Some d \<longrightarrow> z_usecount z = 0"
  have l: "listed (D\<lparr>dspans := remove1 a (dspans D)\<rparr>)" "distinct (dspans D)"
    using mastered_listed [OF m] by (auto simp: listed_def dest: notin_set_remove1)
  have "dyns D a \<noteq> None \<Longrightarrow> mastered (dynamic_destroy E a (D\<lparr>dspans := remove1 a (dspans D)\<rparr>))"
    using l by (intro destroy_mastered) simp_all
  then show ?thesis using m u by (simp add: drop_span_def Let_def split: option.split)
qed

lemma destroyed_dyns: "b \<noteq> a \<Longrightarrow> map_option (\<lambda>z. (z_driver z, z_usecount z)) (dyns (dynamic_destroy E a D) b) =
    map_option (\<lambda>z. (z_driver z, z_usecount z)) (dyns D b)"
proof (cases "dyns D a")
  case (Some z)
  assume b: "b \<noteq> a"
  define A where "A = (if span_registered (dspan D a) then D\<lparr>dsys := snd (dahdi_unregister id a (dsys D))\<rparr> else D)"
  define B where "B = (case (z_driver z, z_pvt z) of (Some d, Some p) \<Rightarrow> de_destroy E d p A | _ \<Rightarrow> A)"
  have "same_core A B" unfolding B_def by (cases "z_driver z"; cases "z_pvt z") (simp_all add: destroy, simp_all add: same_core_def)
  then have "dyns B = dyns D" by (simp add: same_core_def A_def)
  then show ?thesis using b unfolding dynamic_destroy_def Some option.case Let_def A_def [symmetric] B_def [symmetric]
    by (simp add: checkmaster_dyns option.map_comp o_def)
qed (simp add: dynamic_destroy_def)

lemma unregister_mastered:
  assumes "mastered D" "\<forall>a \<in> set (dspans D). \<forall>z. dyns D a = Some z \<and> z_driver z = Some d \<longrightarrow> z_usecount z = 0"
  shows "mastered (dahdi_dynamic_unregister E d D)"
proof -
  define A where "A = D\<lparr>drivers := remove1 d (drivers D)\<rparr>"
  have A: "mastered A" by (rule mastered_view [OF assms(1)]) (simp add: same_view_def view_def dspan_def A_def)
  have "mastered (fold (drop_span E d) as B)"
    if "mastered B" "distinct as" "\<forall>a \<in> set as. \<forall>z. dyns B a = Some z \<and> z_driver z = Some d \<longrightarrow> z_usecount z = 0" for as B
    using that
  proof (induction as arbitrary: B)
    case (Cons a as)
    have keep: "map_option (\<lambda>z. (z_driver z, z_usecount z)) (dyns (drop_span E d a B) b) =
        map_option (\<lambda>z. (z_driver z, z_usecount z)) (dyns B b)" if "b \<in> set as" for b
    proof -
      have "b \<noteq> a" using that Cons.prems(2) by auto
      then show ?thesis using destroyed_dyns by (auto simp: drop_span_def Let_def upd_dyn_def split: option.split)
    qed
    have "\<forall>b \<in> set as. \<forall>z. dyns (drop_span E d a B) b = Some z \<and> z_driver z = Some d \<longrightarrow> z_usecount z = 0"
    proof (intro ballI allI impI)
      fix b z assume b: "b \<in> set as" and z: "dyns (drop_span E d a B) b = Some z \<and> z_driver z = Some d"
      then obtain y where "dyns B b = Some y" "z_driver y = z_driver z" "z_usecount y = z_usecount z" using keep [OF b] by (cases "dyns B b") auto
      then show "z_usecount z = 0" using Cons.prems(3) b z by auto
    qed
    moreover have "mastered (drop_span E d a B)" using Cons.prems by (intro drop_mastered) auto
    ultimately show ?case using Cons.IH Cons.prems(2) by simp
  qed simp
  then show ?thesis using A assms mastered_listed [OF assms(1)]
    by (simp add: dahdi_dynamic_unregister_def A_def [symmetric] Let_def) (simp add: A_def listed_def)
qed

end

section \<open>Everything that can happen\<close>

text \<open>
  Users create, destroy, open and close spans, drivers come, hand up messages and go, the tasklet runs, the core asks for a tick and
  the alarm timer fires. What is allocated is not in use. The flag of a step says whether it was a safe one: all are, except that a
  driver that goes must have no open span. A system is reached with \<open>True\<close> when all its steps were safe.
\<close>

inductive dyn_step :: "'a dyn_sys_scheme dyn_env \<Rightarrow> bool \<Rightarrow> 'a dyn_sys_scheme \<Rightarrow> 'a dyn_sys_scheme \<Rightarrow> bool" for E where
  ioctl: "(\<forall>a. al_z al = Some a \<longrightarrow> dyns D a = None) \<Longrightarrow> dyn_step E True D (snd (snd (ztdynamic_ioctl E al fin fout cmd D)))"
| opened: "dyn_step E True D (snd (ztd_open a D))"
| closed: "dyn_step E True D (ztd_close E a D)"
| message: "dahdi_dynamic_receive jif b msg D = Some D' \<Longrightarrow> dyn_step E True D D'"
| tasklet: "ztd_tasklet E D = Some D' \<Longrightarrow> dyn_step E True D D'"
| red: "dyn_step E True D (check_for_red_alarm HZ jif D)"
| driver: "dyn_step E True D (snd (dahdi_dynamic_register E d D))"
| driver_gone: "dyn_step E (\<forall>a \<in> set (dspans D). \<forall>z. dyns D a = Some z \<and> z_driver z = Some d \<longrightarrow> z_usecount z = 0)
    D (dahdi_dynamic_unregister E d D)"

inductive dyn_reachable :: "'a dyn_sys_scheme dyn_env \<Rightarrow> bool \<Rightarrow> 'a dyn_sys_scheme \<Rightarrow> bool" for E where
  start: "dspans D = [] \<Longrightarrow> \<not> hasmaster D \<Longrightarrow> dyn_reachable E True D"
| step: "dyn_reachable E ok D \<Longrightarrow> dyn_step E safe D D' \<Longrightarrow> dyn_reachable E (ok \<and> safe) D'"

context dyn_driver
begin

lemma step_mastered: "dyn_step E safe D D' \<Longrightarrow> safe \<Longrightarrow> mastered D \<Longrightarrow> mastered D'"
proof (induction rule: dyn_step.induct)
  case (ioctl al D fin fout cmd)
  have r: "mastered (ztdynamic_run D)" using mastered_view [OF ioctl(3) view_run] .
  have c: "mastered (snd (create_dynamic E al zds D))" for zds using create_mastered [OF ioctl(3,1)] .
  have d: "mastered (snd (destroy_dynamic E zds D))" for zds using destroy_dynamic_mastered [OF ioctl(3)] .
  show ?case
  proof (cases cmd)
    case (Create zds)
    show ?thesis using ioctl(3) c [of zds] by (cases "create_dynamic E al zds D") (simp add: ztdynamic_ioctl_def Create)
  next
    case (Destroy zds)
    show ?thesis using ioctl(3) d [of zds] by (cases "destroy_dynamic E zds D") (simp add: ztdynamic_ioctl_def Destroy)
  qed (simp_all add: ztdynamic_ioctl_def ioctl(3) r)
next
  case (driver D d)
  have "same_view D (D\<lparr>drivers := d # drivers D\<rparr>)" by (simp add: same_view_def view_def dspan_def)
  then show ?case using mastered_view [OF driver(2)] driver(2) by (simp add: dahdi_dynamic_register_def)
qed (auto intro: open_mastered close_mastered receive_mastered tasklet_mastered red_mastered unregister_mastered)

lemma reachable_mastered: "dyn_reachable E ok D \<Longrightarrow> ok \<Longrightarrow> mastered D"
proof (induction rule: dyn_reachable.induct)
  case (start D)
  then show ?case by (simp add: mastered_def listed_def best_master_def)
next
  case (step ok D safe D')
  then show ?case using step_mastered by blast
qed

text \<open>The invariant, spelled out.\<close>

lemma reachable_master:
  assumes "dyn_reachable E True D"
  shows "(hasmaster D \<longleftrightarrow> (\<exists>a \<in> set (dspans D). candidate D a \<and> pref D a < 9999999)) \<and>
    (hasmaster D \<longleftrightarrow> (\<exists>a \<in> set (dspans D). \<exists>z. dyns D a = Some z \<and> z_master z)) \<and>
    (\<forall>a \<in> set (dspans D). \<forall>z. dyns D a = Some z \<and> z_master z \<longrightarrow>
       candidate D a \<and> (\<forall>b \<in> set (dspans D). candidate D b \<longrightarrow> pref D a \<le> pref D b) \<and>
       (\<forall>b \<in> set (dspans D). \<forall>y. dyns D b = Some y \<and> z_master y \<longrightarrow> b = a))"
proof -
  have m: "mastered D" using reachable_mastered [OF assms] by simp
  have M: "z_master z \<longleftrightarrow> best_master D = Some a" if "a \<in> set (dspans D)" "dyns D a = Some z" for a z
    using m that by (simp add: mastered_def)
  have ex: "\<exists>z. dyns D a = Some z" if "a \<in> set (dspans D)" for a using m that by (auto simp: mastered_def listed_def)
  have h: "hasmaster D \<longleftrightarrow> best_master D \<noteq> None" using m by (simp add: mastered_def)
  have 1: "hasmaster D \<longleftrightarrow> (\<exists>a \<in> set (dspans D). candidate D a \<and> pref D a < 9999999)"
  proof (cases "best_master D")
    case None
    then show ?thesis using best_master_None [OF None] h by fastforce
  next
    case (Some a)
    then show ?thesis using best_master_Some [OF Some] h by auto
  qed
  have 2: "hasmaster D \<longleftrightarrow> (\<exists>a \<in> set (dspans D). \<exists>z. dyns D a = Some z \<and> z_master z)"
  proof (cases "best_master D")
    case None
    then show ?thesis using M h by auto
  next
    case (Some a)
    then show ?thesis using best_master_Some [OF Some] h ex M by blast
  qed
  have 3: "candidate D a \<and> (\<forall>b \<in> set (dspans D). candidate D b \<longrightarrow> pref D a \<le> pref D b) \<and>
      (\<forall>b \<in> set (dspans D). \<forall>y. dyns D b = Some y \<and> z_master y \<longrightarrow> b = a)"
    if "a \<in> set (dspans D)" "dyns D a = Some z" "z_master z" for a z
    using best_master_Some [of D a] M that by auto
  show ?thesis using 1 2 3 by blast
qed

end

end
