(* ===== verification/Dynamic_Loc.thy ===== *)
theory Dynamic_Loc
  imports Dynamic_Master
begin

text \<open>
  The local driver of dynamic spans (\<open>dahdi_dynamic_loc.c\<close>): spans of one machine that are connected in pairs by their key, and spans that
  monitor another. Its objects, the links between them, and the driver as an instance of the interface of \<open>Dynamic_Master\<close>.
\<close>

section \<open>The state\<close>

text \<open>\<open>l_mon\<close> is the object that monitors this one, \<open>l_peer\<close> the one it is connected to.\<close>

record ztdlocal =
  l_key :: int
  l_id :: int
  l_mon :: "nat option"
  l_peer :: "nat option"
  l_span :: int

record loc_sys = dyn_sys +
  zdevs :: "nat list"
  zdev_at :: "nat \<Rightarrow> ztdlocal option"

definition upd_loc :: "nat \<Rightarrow> (ztdlocal \<Rightarrow> ztdlocal) \<Rightarrow> 'a loc_sys_scheme \<Rightarrow> 'a loc_sys_scheme" where
  "upd_loc p f L = L\<lparr>zdev_at := (zdev_at L)(p := map_option f (zdev_at L p))\<rparr>"

section \<open>Addresses\<close>

definition digit2int :: "char \<Rightarrow> int" where
  "digit2int d =
     (let n = of_char d :: int in
      if 65 \<le> n \<and> n \<le> 70 then n - 65 + 10
      else if 97 \<le> n \<and> n \<le> 102 then n - 97 + 10
      else if 48 \<le> n \<and> n \<le> 57 then n - 48 else -1)"

text \<open>An address \<open>key:id\<close> or \<open>key:id:monitor\<close>; the key, the number and the one that is monitored, \<open>-1\<close> for none.\<close>

definition loc_address :: "string \<Rightarrow> (int \<times> int \<times> int) option" where
  "loc_address s =
     (if length s \<ge> 3 \<and> s ! 1 \<noteq> CHR '':'' then None
      else
        let key = (if length s \<ge> 3 then digit2int (s ! 0) else -1); k = (if length s \<ge> 3 then digit2int (s ! 2) else -1) in
        if length s = 5 \<and> s ! 3 \<noteq> CHR '':'' then None
        else
          let monitor = (if length s = 5 then digit2int (s ! 4) else -1)
          in if key = -1 \<or> k = -1 then None else Some (key, k, monitor))"

section \<open>Operations\<close>

text \<open>
  The loop of \<open>ztdlocal_create\<close> over the objects there are, and its body; \<open>False\<close> is the jump to the removal of the new one.
\<close>

definition link_one :: "nat \<Rightarrow> int \<Rightarrow> nat \<Rightarrow> 'a loc_sys_scheme \<Rightarrow> bool \<times> 'a loc_sys_scheme" where
  "link_one p monitor l L =
     (case (zdev_at L l, zdev_at L p) of
        (Some x, Some z) \<Rightarrow>
          if l_key x = l_key z then
            if l_id x = l_id z then (False, L)
            else if monitor = -1 \<and> l_peer x \<noteq> None then (False, L)
            else
              let L = (if monitor = -1 then upd_loc p (\<lambda>z. z\<lparr>l_peer := Some l\<rparr>) (upd_loc l (\<lambda>x. x\<lparr>l_peer := Some p\<rparr>) L) else L)
              in if monitor = l_id x then
                   if l_mon x \<noteq> None then (False, L) else (True, upd_loc l (\<lambda>x. x\<lparr>l_mon := Some p\<rparr>) L)
                 else (True, L)
          else (True, L)
      | _ \<Rightarrow> (False, L))"

fun link_peers :: "nat \<Rightarrow> int \<Rightarrow> nat list \<Rightarrow> 'a loc_sys_scheme \<Rightarrow> bool \<times> 'a loc_sys_scheme" where
  "link_peers p monitor [] L = (True, L)"
| "link_peers p monitor (l # ls) L =
     (let (ok, L) = link_one p monitor l L in if ok then link_peers p monitor ls L else (False, L))"

definition forget :: "nat \<Rightarrow> ztdlocal \<Rightarrow> ztdlocal" where
  "forget p x = x\<lparr>l_peer := (if l_peer x = Some p then None else l_peer x), l_mon := (if l_mon x = Some p then None else l_mon x)\<rparr>"

definition clear_peers :: "nat \<Rightarrow> 'a loc_sys_scheme \<Rightarrow> 'a loc_sys_scheme" where
  "clear_peers p L = fold (\<lambda>l. upd_loc l (forget p)) (zdevs L) L"

definition ztdlocal_create :: "nat option \<Rightarrow> int \<Rightarrow> string \<Rightarrow> 'a loc_sys_scheme \<Rightarrow> nat option \<times> 'a loc_sys_scheme" where
  "ztdlocal_create alloc a address L =
     (case loc_address address of
        None \<Rightarrow> (None, L)
      | Some (key, k, monitor) \<Rightarrow>
          (case alloc of
             None \<Rightarrow> (None, L)
           | Some p \<Rightarrow>
               let L = L\<lparr>zdev_at := (zdev_at L)(p := Some \<lparr>l_key = key, l_id = k, l_mon = None, l_peer = None, l_span = a\<rparr>)\<rparr>;
                   (ok, L) = link_peers p monitor (zdevs L) L
               in if ok then (Some p, L\<lparr>zdevs := p # zdevs L\<rparr>)
                  else let L = clear_peers p L in (None, L\<lparr>zdev_at := (zdev_at L)(p := None)\<rparr>)))"

definition ztdlocal_destroy :: "nat \<Rightarrow> 'a loc_sys_scheme \<Rightarrow> 'a loc_sys_scheme" where
  "ztdlocal_destroy p L =
     (let L = clear_peers p L in
      if p \<in> set (zdevs L) then L\<lparr>zdevs := remove1 p (zdevs L), zdev_at := (zdev_at L)(p := None)\<rparr> else L)"

text \<open>To the peer, if there is one, and to the one that monitors.\<close>

definition hand_up :: "64 word \<Rightarrow> nat option \<Rightarrow> byte list \<Rightarrow> 'a loc_sys_scheme \<Rightarrow> 'a loc_sys_scheme option" where
  "hand_up jif q msg L =
     (case q of
        None \<Rightarrow> Some L
      | Some q \<Rightarrow> (case zdev_at L q of None \<Rightarrow> None | Some y \<Rightarrow> dahdi_dynamic_receive jif (l_span y) msg L))"

definition ztdlocal_transmit :: "64 word \<Rightarrow> nat \<Rightarrow> byte list \<Rightarrow> 'a loc_sys_scheme \<Rightarrow> 'a loc_sys_scheme option" where
  "ztdlocal_transmit jif p msg L =
     (case zdev_at L p of
        None \<Rightarrow> None
      | Some z \<Rightarrow> Option.bind (hand_up jif (l_peer z) msg L) (hand_up jif (l_mon z) msg))"

text \<open>The driver: \<open>alloc\<close> gives the object that can be allocated in a state, \<open>jif\<close> the time.\<close>

definition loc_env :: "tick_env \<Rightarrow> ('a loc_sys_scheme \<Rightarrow> nat option) \<Rightarrow> 64 word \<Rightarrow> 'a loc_sys_scheme dyn_env" where
  "loc_env T alloc jif =
     \<lparr>de_tick = T, de_name = (\<lambda>d. ''loc''), de_create = (\<lambda>d a address L. ztdlocal_create (alloc L) a address L),
      de_destroy = (\<lambda>d p L. ztdlocal_destroy p L), de_transmit = (\<lambda>d p msg L. ztdlocal_transmit jif p msg L),
      de_flush = (\<lambda>d L. L), de_request = (\<lambda>name L. L)\<rparr>"

section \<open>The driver keeps to the interface\<close>

lemma upd_loc_core [simp]: "dsys (upd_loc p f L) = dsys L" "dyns (upd_loc p f L) = dyns L" "dspans (upd_loc p f L) = dspans L"
  "hasmaster (upd_loc p f L) = hasmaster L" "zdevs (upd_loc p f L) = zdevs L"
  by (simp_all add: upd_loc_def)

text \<open>What linking leaves alone.\<close>

definition relinked :: "'a loc_sys_scheme \<Rightarrow> 'a loc_sys_scheme \<Rightarrow> bool" where
  "relinked L L' \<longleftrightarrow> same_core L L' \<and> zdevs L' = zdevs L \<and>
     (\<forall>q. map_option (\<lambda>x. (l_key x, l_id x, l_span x)) (zdev_at L' q) = map_option (\<lambda>x. (l_key x, l_id x, l_span x)) (zdev_at L q))"

lemma relinked_refl [simp]: "relinked L L"
  by (simp add: relinked_def same_core_def)

lemma relinked_trans: "relinked A B \<Longrightarrow> relinked B C \<Longrightarrow> relinked A C"
  by (simp add: relinked_def same_core_def)

lemma relinked_upd: "(\<And>x. l_key (f x) = l_key x \<and> l_id (f x) = l_id x \<and> l_span (f x) = l_span x) \<Longrightarrow> relinked L (upd_loc p f L)"
  by (simp add: relinked_def same_core_def) (simp add: upd_loc_def option.map_comp o_def)

lemma relinked_one: "relinked L (snd (link_one p m l L))"
proof -
  have 1: "relinked L (upd_loc l (\<lambda>x. x\<lparr>l_mon := r\<rparr>) L)" "relinked L (upd_loc l (\<lambda>x. x\<lparr>l_peer := r\<rparr>) L)" for l r and L :: "'a loc_sys_scheme"
    by (rule relinked_upd, simp)+
  have 2: "relinked L (if b then upd_loc p (\<lambda>z. z\<lparr>l_peer := Some l\<rparr>) (upd_loc l (\<lambda>x. x\<lparr>l_peer := Some p\<rparr>) L) else L)" for b
    using relinked_trans [OF 1(2) 1(2)] by simp
  have 3: "relinked L (upd_loc l (\<lambda>x. x\<lparr>l_mon := r\<rparr>)
      (if b then upd_loc p (\<lambda>z. z\<lparr>l_peer := Some l\<rparr>) (upd_loc l (\<lambda>x. x\<lparr>l_peer := Some p\<rparr>) L) else L))" for b r
    using relinked_trans [OF 2 1(1)] .
  show ?thesis unfolding link_one_def Let_def
    by (cases "zdev_at L l"; cases "zdev_at L p") (simp_all add: 2 3 del: upd_loc_core split del: if_split, simp add: 2 3)
qed

lemma relinked_peers: "relinked L (snd (link_peers p m ls L))"
proof (induction ls arbitrary: L)
  case (Cons l ls)
  obtain ok A where o: "link_one p m l L = (ok, A)" by fastforce
  show ?case using relinked_one [of L p m l] relinked_trans Cons.IH [of A] by (auto simp: o)
qed simp

lemma relinked_clear: "relinked L (clear_peers p L)"
proof -
  have 1: "relinked L (upd_loc l (forget p) L)" for l and L :: "'a loc_sys_scheme" by (rule relinked_upd) (simp add: forget_def)
  have "relinked L (fold (\<lambda>l. upd_loc l (forget p)) ls L)" for ls
    by (induction ls arbitrary: L) (auto intro: relinked_trans [OF 1])
  then show ?thesis by (simp add: clear_peers_def)
qed

lemma relinked_core: "relinked L L' \<Longrightarrow> same_core L L'"
  by (simp add: relinked_def)

lemma create_core: "same_core L (snd (ztdlocal_create alloc a address L))"
proof -
  have "same_core L (snd (let L = L\<lparr>zdev_at := Z\<rparr>; (ok, L) = link_peers p m (zdevs L) L
      in if ok then (Some p, L\<lparr>zdevs := p # zdevs L\<rparr>) else let L = clear_peers p L in (None, L\<lparr>zdev_at := (zdev_at L)(p := None)\<rparr>)))"
    for Z p m
  proof -
    define A where "A = L\<lparr>zdev_at := Z\<rparr>"
    obtain ok B where b: "link_peers p m (zdevs A) A = (ok, B)" by fastforce
    have "same_core A B" using relinked_core [OF relinked_peers [of A p m "zdevs A"]] by (simp add: b)
    moreover have "same_core B (clear_peers p B)" using relinked_core [OF relinked_clear] .
    ultimately show ?thesis by (simp add: A_def [symmetric] b Let_def) (simp add: same_core_def A_def)
  qed
  then show ?thesis by (auto simp: ztdlocal_create_def Let_def same_core_def split: option.split)
qed

lemma destroy_core: "same_core L (ztdlocal_destroy p L)"
  using relinked_core [OF relinked_clear [of L p]] by (simp add: ztdlocal_destroy_def Let_def same_core_def)

lemma hand_up_receives: "hand_up jif q msg A = Some L' \<Longrightarrow> receives L A \<Longrightarrow> receives L L'"
  by (auto simp: hand_up_def split: option.splits intro: receives.message)

lemma transmit_receives: "ztdlocal_transmit jif p msg L = Some L' \<Longrightarrow> receives L L'"
proof -
  assume t: "ztdlocal_transmit jif p msg L = Some L'"
  obtain z :: ztdlocal and A where A: "hand_up jif (l_peer z) msg L = Some A" "hand_up jif (l_mon z) msg A = Some L'"
    using t by (auto simp: ztdlocal_transmit_def bind_eq_Some_conv split: option.splits)
  have "receives L L" by (rule receives.nothing) simp
  from hand_up_receives [OF A(1) this] show ?thesis by (rule hand_up_receives [OF A(2)])
qed

interpretation loc: dyn_driver "loc_env T alloc jif"
  by unfold_locales (simp_all add: loc_env_def create_core destroy_core transmit_receives, simp_all add: same_core_def)

text \<open>C15. With the local driver, after any sequence of the users' creating, destroying, opening and closing spans, of messages, alarms,
  ticks, drivers that come and drivers that go while no span of theirs is open: there is a master exactly when some live span has a
  timing preference (below 9999999, the limit the code starts from) and no red alarm; the span marked is such a span and none that could
  be chosen has a better preference; and no other span is marked. A driver that leaves an open master behind, which
  \<open>dahdi_dynamic_unregister\<close> lets it do, leaves \<open>hasmaster\<close> set with no master, and nothing runs the spans until the choice is made
  again; such steps are not safe and are left out.\<close>

theorem timing_master:
  assumes "dyn_reachable (loc_env T alloc jif) True L"
  shows "(hasmaster L \<longleftrightarrow> (\<exists>a \<in> set (dspans L). candidate L a \<and> pref L a < 9999999)) \<and>
    (hasmaster L \<longleftrightarrow> (\<exists>a \<in> set (dspans L). \<exists>z. dyns L a = Some z \<and> z_master z)) \<and>
    (\<forall>a \<in> set (dspans L). \<forall>z. dyns L a = Some z \<and> z_master z \<longrightarrow>
       candidate L a \<and> (\<forall>b \<in> set (dspans L). candidate L b \<longrightarrow> pref L a \<le> pref L b) \<and>
       (\<forall>b \<in> set (dspans L). \<forall>y. dyns L b = Some y \<and> z_master y \<longrightarrow> b = a))"
  using assms by (rule loc.reachable_master)

definition loc_ex :: loc_sys where
  "loc_ex = dyn_sys.extend (dyn_ex 1) \<lparr>zdevs = [1, 0], zdev_at = (\<lambda>_. None)(
     0 := Some \<lparr>l_key = 1, l_id = 1, l_mon = None, l_peer = Some 1, l_span = 1\<rparr>,
     1 := Some \<lparr>l_key = 1, l_id = 2, l_mon = None, l_peer = Some 0, l_span = 2\<rparr>)\<rparr>"

definition loc_start :: loc_sys where
  "loc_start = loc_ex\<lparr>dyns := (\<lambda>_. None), dspans := [], zdevs := [], zdev_at := (\<lambda>_. None)\<rparr>"

definition created_ex :: loc_sys where
  "created_ex = snd (snd (ztdynamic_ioctl (loc_env tick_ex (\<lambda>_. Some 0) 0) \<lparr>al_z = Some 5, al_chans = 1, al_buf = True\<rparr> False False
     (Create \<lparr>zds_driver = ''loc'', zds_addr = ''1:1'', zds_numchans = 1, zds_timing = 1, zds_spanno = 0\<rparr>) loc_start))"

theorem timing_master_witness:
  "hasmaster created_ex \<longleftrightarrow> (\<exists>a \<in> set (dspans created_ex). candidate created_ex a \<and> pref created_ex a < 9999999)"
proof -
  have "\<not> hasmaster loc_start" by (simp add: loc_start_def loc_ex_def dyn_sys.extend_def dyn_ex_def)
  then have "dyn_reachable (loc_env tick_ex (\<lambda>_. Some 0) 0) True loc_start" by (intro dyn_reachable.start) (simp_all add: loc_start_def)
  moreover have "dyn_step (loc_env tick_ex (\<lambda>_. Some 0) 0) True loc_start created_ex"
    unfolding created_ex_def by (rule dyn_step.ioctl) (simp add: loc_start_def)
  ultimately have "dyn_reachable (loc_env tick_ex (\<lambda>_. Some 0) 0) True created_ex"
    using dyn_reachable.step by fastforce
  from timing_master [OF this] show ?thesis by blast
qed

section \<open>The links between the objects\<close>

text \<open>Every link of a live object leads to a live object of the same key; no two live objects have the same key and number.\<close>

definition links_ok :: "nat set \<Rightarrow> 'a loc_sys_scheme \<Rightarrow> bool" where
  "links_ok A L \<longleftrightarrow> (\<forall>q \<in> A. \<exists>x. zdev_at L q = Some x \<and>
     (\<forall>r. l_peer x = Some r \<or> l_mon x = Some r \<longrightarrow> r \<in> A \<and> (\<exists>y. zdev_at L r = Some y \<and> l_key y = l_key x)))"

definition ids_ok :: "nat set \<Rightarrow> 'a loc_sys_scheme \<Rightarrow> bool" where
  "ids_ok A L \<longleftrightarrow> (\<forall>q \<in> A. \<forall>r \<in> A. \<forall>x y. zdev_at L q = Some x \<and> zdev_at L r = Some y \<and> l_key x = l_key y \<and> l_id x = l_id y \<longrightarrow> q = r)"

definition loc_ok :: "'a loc_sys_scheme \<Rightarrow> bool" where
  "loc_ok L \<longleftrightarrow> distinct (zdevs L) \<and> links_ok (set (zdevs L)) L \<and> ids_ok (set (zdevs L)) L \<and>
     (\<forall>q. zdev_at L q \<noteq> None \<longleftrightarrow> q \<in> set (zdevs L))"

lemma relinked_ids: "relinked L L' \<Longrightarrow> zdev_at L q = Some x \<Longrightarrow>
    \<exists>x'. zdev_at L' q = Some x' \<and> l_key x' = l_key x \<and> l_id x' = l_id x \<and> l_span x' = l_span x"
proof -
  assume "relinked L L'" "zdev_at L q = Some x"
  then have "map_option (\<lambda>x. (l_key x, l_id x, l_span x)) (zdev_at L' q) = Some (l_key x, l_id x, l_span x)" by (simp add: relinked_def)
  then show ?thesis by (cases "zdev_at L' q") auto
qed

lemma relinked_sym: "relinked L L' \<Longrightarrow> relinked L' L"
  by (simp add: relinked_def same_core_def)

lemma ids_relinked: "relinked L L' \<Longrightarrow> ids_ok A L \<Longrightarrow> ids_ok A L'"
proof (unfold ids_ok_def, intro ballI allI impI, elim conjE)
  fix q r x y
  assume r: "relinked L L'" and h: "\<forall>q \<in> A. \<forall>r \<in> A. \<forall>x y. zdev_at L q = Some x \<and> zdev_at L r = Some y \<and> l_key x = l_key y \<and> l_id x = l_id y \<longrightarrow> q = r"
    and m: "q \<in> A" "r \<in> A" "zdev_at L' q = Some x" "zdev_at L' r = Some y" "l_key x = l_key y" "l_id x = l_id y"
  obtain x' where x: "zdev_at L q = Some x'" "l_key x' = l_key x" "l_id x' = l_id x" using relinked_ids [OF relinked_sym [OF r] m(3)] by blast
  obtain y' where y: "zdev_at L r = Some y'" "l_key y' = l_key y" "l_id y' = l_id y" using relinked_ids [OF relinked_sym [OF r] m(4)] by blast
  show "q = r" using h m x y by metis
qed

lemma links_upd:
  assumes l: "links_ok A L" and q: "q \<in> A" "zdev_at L q = Some x" and f: "\<And>x. l_key (f x) = l_key x \<and> l_id (f x) = l_id x \<and> l_span (f x) = l_span x"
    and n: "\<forall>r. l_peer (f x) = Some r \<or> l_mon (f x) = Some r \<longrightarrow>
      l_peer x = Some r \<or> l_mon x = Some r \<or> r \<in> A \<and> (\<exists>y. zdev_at L r = Some y \<and> l_key y = l_key x)"
  shows "links_ok A (upd_loc q f L)"
  unfolding links_ok_def
proof
  fix s assume s: "s \<in> A"
  obtain y where y: "zdev_at L s = Some y"
    "\<forall>r. l_peer y = Some r \<or> l_mon y = Some r \<longrightarrow> r \<in> A \<and> (\<exists>z. zdev_at L r = Some z \<and> l_key z = l_key y)"
    using l s unfolding links_ok_def by blast
  have k: "\<exists>z. zdev_at (upd_loc q f L) r = Some z \<and> l_key z = k" if "\<exists>z. zdev_at L r = Some z \<and> l_key z = k" for r k
    using that f by (auto simp: upd_loc_def)
  show "\<exists>x. zdev_at (upd_loc q f L) s = Some x \<and> (\<forall>r. l_peer x = Some r \<or> l_mon x = Some r \<longrightarrow>
      r \<in> A \<and> (\<exists>z. zdev_at (upd_loc q f L) r = Some z \<and> l_key z = l_key x))"
  proof (cases "s = q")
    case True
    then have "y = x" using y q by simp
    then have "\<forall>r. l_peer (f x) = Some r \<or> l_mon (f x) = Some r \<longrightarrow> r \<in> A \<and> (\<exists>z. zdev_at (upd_loc q f L) r = Some z \<and> l_key z = l_key (f x))"
      using n y(2) k f by metis
    then show ?thesis using True q by (simp add: upd_loc_def)
  next
    case False
    then have "zdev_at (upd_loc q f L) s = Some y" using y by (simp add: upd_loc_def)
    then show ?thesis using y(2) k by blast
  qed
qed

lemma set_peer:
  assumes "links_ok A L" "q \<in> A" "r \<in> A" "zdev_at L q = Some x" "zdev_at L r = Some y" "l_key x = l_key y"
  shows "links_ok A (upd_loc q (\<lambda>x. x\<lparr>l_peer := Some r\<rparr>) L)" "links_ok A (upd_loc q (\<lambda>x. x\<lparr>l_mon := Some r\<rparr>) L)"
  by (rule links_upd [OF assms(1,2,4)], simp, use assms in auto)+

lemma link_one_ok:
  assumes o: "links_ok A L" and A: "l \<in> A" "p \<in> A"
  shows "links_ok A (snd (link_one p m l L))"
proof (cases "\<exists>x z. zdev_at L l = Some x \<and> zdev_at L p = Some z \<and> l_key x = l_key z")
  case False
  then show ?thesis using o by (auto simp: link_one_def split: option.split)
next
  case True
  then obtain x z where e: "zdev_at L l = Some x" "zdev_at L p = Some z" "l_key x = l_key z" by blast
  define B where "B = upd_loc l (\<lambda>x. x\<lparr>l_peer := Some p\<rparr>) L"
  have B: "links_ok A B" unfolding B_def using set_peer(1) [OF o A e] .
  obtain x1 z1 where B1: "zdev_at B l = Some x1" "zdev_at B p = Some z1" "l_key x1 = l_key z1"
    using e by (cases "p = l") (auto simp: B_def upd_loc_def)
  define C where "C = upd_loc p (\<lambda>z. z\<lparr>l_peer := Some l\<rparr>) B"
  have C: "links_ok A C" unfolding C_def by (rule set_peer(1) [OF B A(2,1) B1(2,1)]) (simp add: B1)
  obtain x2 z2 where C1: "zdev_at C l = Some x2" "zdev_at C p = Some z2" "l_key x2 = l_key z2"
    using B1 by (cases "p = l") (auto simp: C_def upd_loc_def)
  have D: "links_ok A (upd_loc l (\<lambda>x. x\<lparr>l_mon := Some p\<rparr>) (if m = -1 then C else L))"
    using set_peer(2) [OF C A C1] set_peer(2) [OF o A e] by simp
  have E: "links_ok A (if m = -1 then C else L)" using C o by simp
  show ?thesis
    unfolding link_one_def e option.case prod.case B_def [symmetric] C_def [symmetric] Let_def using o D E e(3)
    by (auto split del: if_split split: if_splits)
qed

lemma link_one_new: "fst (link_one p m l L) \<Longrightarrow> zdev_at L l = Some x \<Longrightarrow> zdev_at L p = Some z \<Longrightarrow> \<not> (l_key x = l_key z \<and> l_id x = l_id z)"
  by (auto simp: link_one_def)

lemma link_peers_ok:
  "links_ok A L \<Longrightarrow> set ls \<subseteq> A \<Longrightarrow> p \<in> A \<Longrightarrow> links_ok A (snd (link_peers p m ls L))"
proof (induction ls arbitrary: L)
  case (Cons l ls)
  obtain ok B where o: "link_one p m l L = (ok, B)" by fastforce
  have "links_ok A B" using link_one_ok [of A L l p m] Cons.prems by (simp add: o)
  then show ?case using Cons.IH [of B] Cons.prems by (simp add: o)
qed simp

lemma link_peers_new:
  "fst (link_peers p m ls L) \<Longrightarrow> l \<in> set ls \<Longrightarrow> zdev_at L l = Some x \<Longrightarrow> zdev_at L p = Some z \<Longrightarrow> \<not> (l_key x = l_key z \<and> l_id x = l_id z)"
proof (induction ls arbitrary: L x z)
  case (Cons k ls)
  obtain ok B where o: "link_one p m k L = (ok, B)" by fastforce
  have ok: "ok" "fst (link_peers p m ls B)" using Cons.prems(1) by (auto simp: o split: if_splits)
  have r: "relinked L B" using relinked_one [of L p m k] by (simp add: o)
  obtain x' z' where B: "zdev_at B l = Some x'" "l_key x' = l_key x" "l_id x' = l_id x"
      "zdev_at B p = Some z'" "l_key z' = l_key z" "l_id z' = l_id z"
    using relinked_ids [OF r Cons.prems(3)] relinked_ids [OF r Cons.prems(4)] by blast
  show ?case
  proof (cases "l = k")
    case True
    then show ?thesis using link_one_new [of p m k L x z] ok Cons.prems by (simp add: o)
  next
    case False
    then show ?thesis using Cons.IH [OF ok(2) _ B(1,4)] Cons.prems(2) B by simp
  qed
qed simp

lemma clear_at: "zdev_at (clear_peers p L) q = (if q \<in> set (zdevs L) then map_option (forget p) (zdev_at L q) else zdev_at L q)"
proof -
  have f: "forget p (forget p x) = forget p x" for x by (simp add: forget_def)
  have "zdev_at (fold (\<lambda>l. upd_loc l (forget p)) ls L) q = (if q \<in> set ls then map_option (forget p) (zdev_at L q) else zdev_at L q)" for ls
    by (induction ls arbitrary: L) (auto simp: upd_loc_def option.map_comp o_def f)
  then show ?thesis by (simp add: clear_peers_def)
qed

lemma removed_ok:
  assumes "links_ok (insert p (set (zdevs L))) L" "B = set (zdevs L) - {p}"
  shows "links_ok B (L\<lparr>zdevs := zs, zdev_at := (zdev_at (clear_peers p L))(p := None)\<rparr>)"
proof -
  have "\<exists>x. zdev_at (clear_peers p L) q = Some x \<and>
      (\<forall>r. l_peer x = Some r \<or> l_mon x = Some r \<longrightarrow> r \<in> B \<and> (\<exists>y. zdev_at (clear_peers p L) r = Some y \<and> l_key y = l_key x))"
    if q: "q \<in> B" for q
  proof -
    obtain x where x: "zdev_at L q = Some x"
      "\<forall>r. l_peer x = Some r \<or> l_mon x = Some r \<longrightarrow> r \<in> insert p (set (zdevs L)) \<and> (\<exists>y. zdev_at L r = Some y \<and> l_key y = l_key x)"
      using assms q unfolding links_ok_def by blast
    have "r \<in> B \<and> (\<exists>y. zdev_at (clear_peers p L) r = Some y \<and> l_key y = l_key x)"
      if "l_peer (forget p x) = Some r \<or> l_mon (forget p x) = Some r" for r
    proof -
      have "r \<noteq> p" "l_peer x = Some r \<or> l_mon x = Some r" using that by (auto simp: forget_def split: if_splits)
      then have r: "r \<in> B" "\<exists>y. zdev_at L r = Some y \<and> l_key y = l_key x" using x(2) assms(2) by auto
      have "l_key (forget p y) = l_key y" for y by (simp add: forget_def)
      then show ?thesis using assms(2) r by (auto simp: clear_at)
    qed
    moreover have "zdev_at (clear_peers p L) q = Some (forget p x)" "l_key (forget p x) = l_key x"
      using q assms(2) x(1) by (simp_all add: clear_at) (simp add: forget_def)
    ultimately show ?thesis by auto
  qed
  note old = this
  have n: "r \<in> B \<Longrightarrow> zdev_at (L\<lparr>zdevs := zs, zdev_at := (zdev_at (clear_peers p L))(p := None)\<rparr>) r = zdev_at (clear_peers p L) r" for r
    using assms(2) by simp
  show ?thesis unfolding links_ok_def
  proof
    fix q assume q: "q \<in> B"
    obtain x where x: "zdev_at (clear_peers p L) q = Some x" "\<And>r. l_peer x = Some r \<or> l_mon x = Some r \<Longrightarrow>
        r \<in> B \<and> (\<exists>y. zdev_at (clear_peers p L) r = Some y \<and> l_key y = l_key x)" using old [OF q] by blast
    show "\<exists>x. zdev_at (L\<lparr>zdevs := zs, zdev_at := (zdev_at (clear_peers p L))(p := None)\<rparr>) q = Some x \<and>
        (\<forall>r. l_peer x = Some r \<or> l_mon x = Some r \<longrightarrow> r \<in> B \<and>
          (\<exists>y. zdev_at (L\<lparr>zdevs := zs, zdev_at := (zdev_at (clear_peers p L))(p := None)\<rparr>) r = Some y \<and> l_key y = l_key x))"
      using n x q by metis
  qed
qed

text \<open>An object that can be allocated is not one there is.\<close>

lemma create_ok:
  assumes ok: "loc_ok L" and f: "\<forall>p. alloc = Some p \<longrightarrow> zdev_at L p = None"
  shows "loc_ok (snd (ztdlocal_create alloc a address L))"
proof (cases "loc_address address = None \<or> alloc = None")
  case True
  then show ?thesis using ok by (auto simp: ztdlocal_create_def split: option.split)
next
  case False
  then obtain key k m p where a: "loc_address address = Some (key, k, m)" "alloc = Some p" by auto
  have p0: "zdev_at L p = None" using f a(2) by simp
  have p: "p \<notin> set (zdevs L)" using ok p0 unfolding loc_ok_def by metis
  define z where "z = \<lparr>l_key = key, l_id = k, l_mon = None, l_peer = None, l_span = a\<rparr>"
  define A where "A = L\<lparr>zdev_at := (zdev_at L)(p := Some z)\<rparr>"
  obtain ok' B where b: "link_peers p m (zdevs A) A = (ok', B)" by fastforce
  have zA: "zdevs A = zdevs L" "zdev_at A p = Some z" by (simp_all add: A_def)
  have lA: "links_ok (insert p (set (zdevs L))) A" using ok p by (fastforce simp: loc_ok_def links_ok_def A_def z_def)
  have rel: "relinked A B" using relinked_peers [of A p m "zdevs A"] by (simp add: b)
  then have zB: "zdevs B = zdevs L" by (simp add: relinked_def zA)
  have "links_ok (insert p (set (zdevs L))) (snd (link_peers p m (zdevs A) A))" by (rule link_peers_ok [OF lA]) (auto simp: zA)
  then have lB: "links_ok (insert p (set (zdevs L))) B" unfolding b snd_conv .
  have at: "zdev_at B q \<noteq> None \<longleftrightarrow> q \<in> insert p (set (zdevs L))" for q
  proof -
    have "map_option (\<lambda>x. (l_key x, l_id x, l_span x)) (zdev_at B q) = map_option (\<lambda>x. (l_key x, l_id x, l_span x)) (zdev_at A q)"
      using rel by (simp add: relinked_def)
    then have "zdev_at B q \<noteq> None \<longleftrightarrow> zdev_at A q \<noteq> None" by (cases "zdev_at B q"; cases "zdev_at A q") auto
    then show ?thesis using ok by (auto simp: A_def loc_ok_def)
  qed
  have iL: "ids_ok (set (zdevs L)) A" using ok p by (fastforce simp: loc_ok_def ids_ok_def A_def)
  have R: "snd (ztdlocal_create alloc a address L) = (if ok' then B\<lparr>zdevs := p # zdevs B\<rparr> else (clear_peers p B)\<lparr>zdev_at := (zdev_at (clear_peers p B))(p := None)\<rparr>)"
    by (simp add: ztdlocal_create_def a z_def [symmetric] A_def [symmetric] b [unfolded zA(1)] Let_def)
  show ?thesis
  proof (cases ok')
    case True
    have "ids_ok (insert p (set (zdevs L))) A"
    proof -
      have n: "\<not> (l_key x = l_key z \<and> l_id x = l_id z)" if "q \<in> set (zdevs L)" "zdev_at A q = Some x" for q x
        using link_peers_new [of p m "zdevs A" A q x z] that True zA b [unfolded zA(1)] by simp
      show ?thesis unfolding ids_ok_def
      proof (intro ballI allI impI)
        fix q r x y
        assume m: "q \<in> insert p (set (zdevs L))" "r \<in> insert p (set (zdevs L))"
          "zdev_at A q = Some x \<and> zdev_at A r = Some y \<and> l_key x = l_key y \<and> l_id x = l_id y"
        show "q = r" using m n [of q x] n [of r y] iL zA(2) unfolding ids_ok_def by (metis insert_iff option.inject)
      qed
    qed
    then have "ids_ok (insert p (set (zdevs L))) B" by (rule ids_relinked [OF rel])
    then have "ids_ok (set (p # zdevs B)) (B\<lparr>zdevs := p # zdevs B\<rparr>)" by (simp add: ids_ok_def zB)
    moreover have "links_ok (set (p # zdevs B)) (B\<lparr>zdevs := p # zdevs B\<rparr>)" using lB by (simp add: links_ok_def zB)
    ultimately show ?thesis using ok p at True by (simp add: R loc_ok_def zB)
  next
    case False
    define C where "C = (clear_peers p B)\<lparr>zdev_at := (zdev_at (clear_peers p B))(p := None)\<rparr>"
    have rC: "relinked B (clear_peers p B)" by (rule relinked_clear)
    have zC: "zdevs C = zdevs L" using rC by (simp add: C_def relinked_def zB)
    have "links_ok (set (zdevs B) - {p}) (B\<lparr>zdevs := zdevs B, zdev_at := (zdev_at (clear_peers p B))(p := None)\<rparr>)"
      using lB zB by (intro removed_ok) simp_all
    then have l: "links_ok (set (zdevs L)) C" using p by (simp add: links_ok_def C_def zB)
    have "ids_ok (set (zdevs L)) (clear_peers p B)" using ids_relinked [OF relinked_trans [OF rel rC] iL] .
    then have i: "ids_ok (set (zdevs L)) C" using p by (auto simp: ids_ok_def C_def)
    have "zdev_at C q \<noteq> None \<longleftrightarrow> q \<in> set (zdevs L)" for q using at [of q] p by (auto simp: C_def clear_at)
    then show ?thesis using ok l i zC False by (simp add: R C_def [symmetric] loc_ok_def)
  qed
qed

lemma destroy_ok: "loc_ok L \<Longrightarrow> loc_ok (ztdlocal_destroy p L)"
proof -
  assume ok: "loc_ok L"
  have rC: "relinked L (clear_peers p L)" by (rule relinked_clear)
  have zC: "zdevs (clear_peers p L) = zdevs L" using rC by (simp add: relinked_def)
  show ?thesis
  proof (cases "p \<in> set (zdevs L)")
    case True
    define C where "C = (clear_peers p L)\<lparr>zdevs := remove1 p (zdevs L), zdev_at := (zdev_at (clear_peers p L))(p := None)\<rparr>"
    have s: "set (remove1 p (zdevs L)) = set (zdevs L) - {p}" using ok by (simp add: loc_ok_def)
    have "insert p (set (zdevs L)) = set (zdevs L)" using True by auto
    then have "links_ok (set (zdevs L) - {p}) (L\<lparr>zdevs := zdevs L, zdev_at := (zdev_at (clear_peers p L))(p := None)\<rparr>)"
      using ok by (intro removed_ok) (simp_all add: loc_ok_def)
    then have l: "links_ok (set (remove1 p (zdevs L))) C" by (simp add: links_ok_def C_def s)
    have "ids_ok (set (zdevs L)) (clear_peers p L)" using ids_relinked [OF rC] ok by (simp add: loc_ok_def)
    then have i: "ids_ok (set (remove1 p (zdevs L))) C" by (auto simp: ids_ok_def C_def s)
    have "zdev_at C q \<noteq> None \<longleftrightarrow> q \<in> set (remove1 p (zdevs L))" for q using ok by (auto simp: C_def clear_at s loc_ok_def)
    then show ?thesis using ok l i True by (simp add: ztdlocal_destroy_def zC C_def [symmetric] loc_ok_def Let_def) (simp add: C_def)
  next
    case False
    have "zdev_at L p = None" using ok False by (auto simp: loc_ok_def)
    have l: "links_ok (set (zdevs L)) (clear_peers p L)"
    proof -
      have "zdev_at (clear_peers p L) q = zdev_at L q" for q
      proof (cases "zdev_at L q")
        case (Some x)
        have q: "q \<in> set (zdevs L)" using ok Some unfolding loc_ok_def by (metis option.distinct(1))
        have "\<forall>q \<in> set (zdevs L). \<exists>x. zdev_at L q = Some x \<and> (\<forall>r. l_peer x = Some r \<or> l_mon x = Some r \<longrightarrow> r \<in> set (zdevs L))"
          using ok unfolding loc_ok_def links_ok_def by blast
        then have "l_peer x \<noteq> Some p \<and> l_mon x \<noteq> Some p" using q Some False by fastforce
        then have "forget p x = x" by (simp add: forget_def)
        then show ?thesis using Some by (simp add: clear_at)
      qed (simp add: clear_at)
      then show ?thesis using ok by (simp add: loc_ok_def links_ok_def)
    qed
    have "ids_ok (set (zdevs L)) (clear_peers p L)" using ids_relinked [OF rC] ok by (simp add: loc_ok_def)
    moreover have "zdev_at (clear_peers p L) q \<noteq> None \<longleftrightarrow> q \<in> set (zdevs L)" for q using ok by (auto simp: clear_at loc_ok_def)
    ultimately show ?thesis using ok l False by (simp add: ztdlocal_destroy_def zC loc_ok_def Let_def)
  qed
qed

section \<open>Spans that are connected\<close>

inductive loc_reachable :: "'a loc_sys_scheme \<Rightarrow> bool" where
  start: "zdevs L = [] \<Longrightarrow> zdev_at L = (\<lambda>_. None) \<Longrightarrow> loc_reachable L"
| create: "loc_reachable L \<Longrightarrow> (\<forall>p. alloc = Some p \<longrightarrow> zdev_at L p = None) \<Longrightarrow> loc_reachable (snd (ztdlocal_create alloc a address L))"
| destroy: "loc_reachable L \<Longrightarrow> loc_reachable (ztdlocal_destroy p L)"
| core: "loc_reachable L \<Longrightarrow> zdevs L' = zdevs L \<Longrightarrow> zdev_at L' = zdev_at L \<Longrightarrow> loc_reachable L'"

lemma loc_reachable_ok: "loc_reachable L \<Longrightarrow> loc_ok L"
proof (induction rule: loc_reachable.induct)
  case (start L)
  then show ?case by (simp add: loc_ok_def links_ok_def ids_ok_def)
next
  case (core L L')
  then show ?case by (simp add: loc_ok_def links_ok_def ids_ok_def)
qed (blast intro: create_ok destroy_ok)+

text \<open>C26. The links between local spans never dangle: whatever objects were created, in whatever order and with whatever addresses,
  refused creations included, and destroyed, every link of an object leads to an object that is still there and has the same
  key, objects have distinct numbers within a key, and once an object is destroyed nothing leads to it.\<close>

theorem local_links_alive:
  assumes "loc_reachable L"
  shows "(\<forall>p x q. zdev_at L p = Some x \<and> (l_peer x = Some q \<or> l_mon x = Some q) \<longrightarrow>
      q \<in> set (zdevs L) \<and> (\<exists>y. zdev_at L q = Some y \<and> l_key y = l_key x)) \<and>
    (\<forall>p q x y. zdev_at L p = Some x \<and> zdev_at L q = Some y \<and> l_key x = l_key y \<and> l_id x = l_id y \<longrightarrow> p = q) \<and>
    (\<forall>p q x. zdev_at (ztdlocal_destroy p L) q = Some x \<longrightarrow> q \<noteq> p \<and> l_peer x \<noteq> Some p \<and> l_mon x \<noteq> Some p)"
proof -
  have k: "q \<in> set (zdevs M) \<and> (\<exists>y. zdev_at M q = Some y \<and> l_key y = l_key x)"
    if m: "loc_ok M" "zdev_at M p = Some x" "l_peer x = Some q \<or> l_mon x = Some q" for M :: "'a loc_sys_scheme" and p x q
  proof -
    have "p \<in> set (zdevs M)" using m(1,2) unfolding loc_ok_def by (metis option.distinct(1))
    then obtain x' where "zdev_at M p = Some x'" "\<forall>r. l_peer x' = Some r \<or> l_mon x' = Some r \<longrightarrow>
        r \<in> set (zdevs M) \<and> (\<exists>y. zdev_at M r = Some y \<and> l_key y = l_key x')"
      using m(1) unfolding loc_ok_def links_ok_def by blast
    then show ?thesis using m(2,3) by auto
  qed
  have ok: "loc_ok L" using loc_reachable_ok [OF assms] .
  have n: "zdev_at (ztdlocal_destroy p L) p = None" for p
    using ok relinked_clear [of L p] by (auto simp: ztdlocal_destroy_def Let_def loc_ok_def clear_at relinked_def)
  have d: "loc_ok (ztdlocal_destroy p L)" for p using destroy_ok [OF ok] .
  have i: "p = q" if "zdev_at L p = Some x" "zdev_at L q = Some y" "l_key x = l_key y" "l_id x = l_id y" for p q x y
  proof -
    have "p \<in> set (zdevs L)" "q \<in> set (zdevs L)" using ok that(1,2) unfolding loc_ok_def by (metis option.distinct(1))+
    then show ?thesis using ok that unfolding loc_ok_def ids_ok_def by blast
  qed
  have l: "q \<noteq> p \<and> l_peer x \<noteq> Some p \<and> l_mon x \<noteq> Some p" if "zdev_at (ztdlocal_destroy p L) q = Some x" for p q x
  proof -
    have "l_peer x = Some p \<or> l_mon x = Some p \<Longrightarrow> False" using k [OF d that, of p] n [of p] by auto
    then show ?thesis using n [of p] that by auto
  qed
  show ?thesis using k [OF ok] i l by blast
qed

definition linked_ex :: loc_sys where
  "linked_ex = snd (ztdlocal_create (Some 1) 2 ''1:2'' (snd (ztdlocal_create (Some 0) 1 ''1:1'' loc_start)))"

theorem local_links_alive_witness:
  "\<exists>x y. zdev_at linked_ex 0 = Some x \<and> l_peer x = Some 1 \<and> zdev_at linked_ex 1 = Some y \<and> l_key y = l_key x"
proof -
  have d: "digit2int (CHR ''1'') = 1" "digit2int (CHR ''2'') = 2" by (simp_all add: digit2int_def)
  define A where "A = snd (ztdlocal_create (Some 0) 1 ''1:1'' loc_start)"
  have A: "zdevs A = [0]" "zdev_at A = (\<lambda>_. None)(0 := Some \<lparr>l_key = 1, l_id = 1, l_mon = None, l_peer = None, l_span = 1\<rparr>)"
    by (simp_all add: A_def ztdlocal_create_def loc_address_def d loc_start_def)
  have "loc_reachable loc_start" by (rule loc_reachable.start) (simp_all add: loc_start_def)
  then have "loc_reachable A" unfolding A_def by (rule loc_reachable.create) (simp add: loc_start_def)
  then have r: "loc_reachable linked_ex"
    unfolding linked_ex_def A_def [symmetric] by (rule loc_reachable.create) (simp add: A)
  have "\<exists>x. zdev_at linked_ex 0 = Some x \<and> l_peer x = Some 1"
    unfolding linked_ex_def A_def [symmetric] by (simp add: ztdlocal_create_def loc_address_def d A link_one_def upd_loc_def)
  then obtain x where x: "zdev_at linked_ex 0 = Some x" "l_peer x = Some 1" by blast
  with local_links_alive [OF r] show ?thesis by blast
qed

section \<open>A message between two connected spans\<close>

lemma heard_present: "map_option heard x = map_option heard y \<Longrightarrow> (x = None) = (y = None)"
  by (cases x; cases y) auto

text \<open>C5. What the channels of a dynamic span send arrives at the span it is connected to by the local driver. For spans of the same number
  of channels, at most 164, a tick's message completes and is accepted: every channel of the receiving span has the chunk of
  the channel with its number, the receiver expects the next message of the sender, and is in yellow alarm exactly when the sender is
  in red alarm, not in red alarm itself. The signalling bits do not arrive alone: the receiver takes eight bits for four, so a channel that
  is not the last of its group of four (or of the span) gets its own bits plus sixteen times those of the next one.\<close>

theorem local_message_arrives:
  assumes a: "dyns L a = Some z" "z_driver z = Some d" "z_pvt z = Some p" "z_msgbuf z = Some (dyn_bufsize (length cs))"
    and x: "zdev_at L p = Some x" "l_peer x = Some q" "l_mon x = None" and y: "zdev_at L q = Some y" "l_span y = b" "b \<noteq> a"
    and r: "ready_span b L" "dyns L b = Some zb" and cs: "span_chans (dsys L) a = Some cs" "cs \<noteq> []" "length cs \<le> 164" "chunks_ok cs"
    and n: "length (sp_chans (dspan L b)) = length cs"
  shows "\<exists>L' z' zb'. ztd_sendmessage (loc_env T alloc jif) a L = Some L' \<and>
    (\<forall>i < length cs. \<exists>c e. dyn_chan b i L = Some c \<and> dyn_chan b i L' = Some e \<and> readchunk e = writechunk (cs ! i) \<and>
       rxsig e = (if flagged c FLAGBIT_SIGFREEZE then rxsig c
         else nib (cs ! i) + (if i mod 4 < 3 \<and> Suc i < length cs then 16 * nib (cs ! Suc i) else 0))) \<and>
    dyns L' a = Some z' \<and> dyns L' b = Some zb' \<and> z_rxcnt zb' = z_txcnt z' \<and> z_err zb' = z_err zb \<and>
    (bit (sp_alarms (dspan L' b)) 2 \<longleftrightarrow> bit (sp_alarms (dspan L a)) DAHDI_ALARM_RED) \<and> \<not> bit (sp_alarms (dspan L' b)) DAHDI_ALARM_RED"
proof -
  define M where "M = upd_dyn a (\<lambda>z. z\<lparr>z_txcnt := z_txcnt z + 1\<rparr>) L"
  define red where "red = bit (sp_alarms (dspan L a)) DAHDI_ALARM_RED"
  define msg where "msg = dyn_message red (z_txcnt z) cs"
  have M: "dsys M = dsys L" "dspan M = dspan L" "dyns M b = Some zb" "dyns M a = Some (z\<lparr>z_txcnt := z_txcnt z + 1\<rparr>)"
    "dyn_chan b i M = dyn_chan b i L" "zdev_at M = zdev_at L" for i
    using a r y(3) by (simp_all add: M_def upd_dyn_def dspan_def fun_eq_iff dyn_chan_def)
  have rM: "ready_span b M" using r M by (simp add: ready_span_def)
  have l: "length msg \<le> dyn_bufsize (length cs)"
    using cs message_length [OF cs(2,4), of red "z_txcnt z"] buffer_fits [of "length cs"] by (simp add: msg_def)
  have lt: "length cs < 65536" and nm: "length (sp_chans (dspan M b)) = length cs" using cs(3) n M(2) by simp_all
  obtain N zb' where N: "dahdi_dynamic_receive jif b (dyn_message red (z_txcnt z) cs) M = Some N" "dyns N b = Some zb'"
    "z_rxcnt zb' = z_txcnt z + 1" "z_err zb' = z_err zb" "bit (sp_alarms (dspan N b)) 2 = red" "\<not> bit (sp_alarms (dspan N b)) 3"
    "\<forall>i < length cs. \<exists>c d. dyn_chan b i M = Some c \<and> dyn_chan b i N = Some d \<and> readchunk d = writechunk (cs ! i) \<and>
        rxsig d = (if flagged c FLAGBIT_SIGFREEZE then rxsig c
          else nib (cs ! i) + (if i mod 4 < 3 \<and> Suc i < length cs then 16 * nib (cs ! Suc i) else 0))"
    using receive_message [OF rM M(3) cs(2) lt cs(4) nm, of jif red "z_txcnt z"] by (elim exE conjE) blast
  obtain za where za: "dyns N a = Some za" "z_txcnt za = z_txcnt z + 1"
    using receive_others [OF N(1) y(3) M(4)] by auto
  have "ztd_sendmessage (loc_env T alloc jif) a L = Some N"
    using a cs(1) l N(1) x y M(6)
    by (simp add: ztd_sendmessage_def M_def [symmetric] red_def [symmetric] msg_def [symmetric] loc_env_def ztdlocal_transmit_def
        hand_up_def Let_def)
  moreover note N(7) [unfolded M(5)]
  moreover have "z_rxcnt zb' = z_txcnt za" using N(3) za(2) by simp
  ultimately show ?thesis using N(2,4,5,6) za(1) unfolding red_def by blast
qed

theorem local_message_arrives_witness:
  "\<exists>L' e. ztd_sendmessage (loc_env tick_ex (\<lambda>_. None) 0) 1 loc_ex = Some L' \<and> dyn_chan 2 0 L' = Some e \<and>
     readchunk e = [1, 2, 3, 4, 5, 6, 7, 8] \<and> rxsig e = 5"
proof -
  have s: "dyns loc_ex = dyns (dyn_ex 1)" "dsys loc_ex = dsys (dyn_ex 1)" "dspan loc_ex = dspan (dyn_ex 1)"
    by (simp_all add: loc_ex_def dyn_sys.extend_def dyn_ex_def dspan_def fun_eq_iff)
  have r: "ready_span 2 loc_ex" using dyn_ex_ready(1) [of 1] by (simp add: ready_span_def s)
  have f: "\<not> flagged dyn_chan_ex FLAGBIT_SIGFREEZE" "nib dyn_chan_ex = 5" "writechunk dyn_chan_ex = [1, 2, 3, 4, 5, 6, 7, 8]"
    by (simp_all add: dyn_chan_ex_def nib_def bit_iff_odd)
  have c: "dyn_chan 2 0 loc_ex = Some dyn_chan_ex"
    using dyn_ex_chans(2) [of 1] by (simp add: dyn_chan_def s dyn_ex_ready(2) the_chan_def) (simp add: dyn_ex_def)
  have z: "dyns loc_ex 1 = Some (dynamic0\<lparr>z_msgbuf := Some (dyn_bufsize 1), z_driver := Some 0, z_pvt := Some 0\<rparr>)"
    "dyns loc_ex 2 = Some (dynamic0\<lparr>z_msgbuf := Some (dyn_bufsize 1), z_driver := Some 0, z_pvt := Some 1\<rparr>)"
    by (simp_all add: s) (simp_all add: dyn_ex_def)
  have d: "zdev_at loc_ex 0 = Some \<lparr>l_key = 1, l_id = 1, l_mon = None, l_peer = Some 1, l_span = 1\<rparr>"
    "zdev_at loc_ex 1 = Some \<lparr>l_key = 1, l_id = 2, l_mon = None, l_peer = Some 0, l_span = 2\<rparr>"
    by (simp_all add: loc_ex_def dyn_sys.extend_def)
  have h: "span_chans (dsys loc_ex) 1 = Some [dyn_chan_ex]" using dyn_ex_span_chans [of 1] by (simp add: s) (simp add: dyn_ex_def)
  have n: "length (sp_chans (dspan loc_ex 2)) = length [dyn_chan_ex]" by (simp add: s dyn_ex_ready(2))
  have k: "chunks_ok [dyn_chan_ex]" by (simp add: chunks_ok_def f(3))
  note A = local_message_arrives [OF z(1) _ _ _ d(1) _ _ d(2) _ _ r z(2) h _ _ k n, of 0 tick_ex "\<lambda>_. None" 0]
  from A show ?thesis using c f by auto
qed

end
