(* ===== verification/Config.thy ===== *)
theory Config
  imports Lifecycle
begin

text \<open>
  Configuration through the control device (\<open>dahdi_ctl_ioctl\<close> and \<open>dahdi_common_ioctl\<close> of \<open>dahdi-base.c\<close>): the signalling of a
  channel, its mode and its master (\<open>DAHDI_CHANCONFIG\<close>), the line of a span (\<open>DAHDI_SPANCONFIG\<close>), starting, stopping and
  maintaining it, tones of single frequency signalling, timing parameters and gains. \<open>None\<close> is an access outside a table or
  through NULL. The theorems say which bundles of channels result from configuring masters and slaves, and that the modes of
  a channel are consistent.
\<close>

section \<open>Numbers users give\<close>

definition valid_channel :: "int \<Rightarrow> dahdi_sys \<Rightarrow> int + dahdi_chan" where
  "valid_channel j S =
     (if j \<ge> int DAHDI_MAX_CHANNELS \<or> j < 1 then Inl (- EINVAL)
      else case the_chan (nat j) S of None \<Rightarrow> Inl (- ENXIO) | Some c \<Rightarrow> Inr c)"

definition valid_span :: "int \<Rightarrow> dahdi_sys \<Rightarrow> int + int" where
  "valid_span j S =
     (if j \<ge> int DAHDI_MAX_SPANS \<or> j < 1 then Inl (- EINVAL)
      else case spans S ! nat j of None \<Rightarrow> Inl (- ENXIO) | Some a \<Rightarrow> Inr a)"

section \<open>The signalling and mode of a channel\<close>

record chanconfig =
  cc_chan :: int
  cc_sigtype :: u32
  cc_deflaw :: int
  cc_master :: int
  cc_idlebits :: int

text \<open>
  What the outside does: the results of the driver's \<open>sethook\<close> and \<open>chanconfig\<close>, the \<open>dacs\<close> function of each span,
  whether the answer can be copied to the user.
\<close>

record config_env =
  ce_drv :: int
  ce_chanconfig :: int
  ce_dacs :: "int \<Rightarrow> nat option"
  ce_copy :: bool

definition has_bits :: "u32 \<Rightarrow> u32 \<Rightarrow> bool" where
  "has_bits s m \<longleftrightarrow> s AND m = m"

definition put_flag :: "nat \<Rightarrow> bool \<Rightarrow> dahdi_chan \<Rightarrow> dahdi_chan" where
  "put_flag F b c = (if b then set_flag F c else clear_flag F c)"

text \<open>The signalling that is set and the number of the master.\<close>

definition config_target :: "chanconfig \<Rightarrow> dahdi_sys \<Rightarrow> int + (u32 \<times> nat)" where
  "config_target ch S =
     (if cc_sigtype ch = SIG_SLAVE then
        if cc_master ch < 1 \<or> cc_master ch \<ge> int DAHDI_MAX_CHANNELS then Inl (- EINVAL)
        else (case the_chan (nat (cc_master ch)) S of
                None \<Rightarrow> Inl (- EINVAL)
              | Some m \<Rightarrow> Inr (sig m, nat (cc_master ch)))
      else if has_bits (cc_sigtype ch) SIG_MASK_DACS \<and>
          (cc_idlebits ch < 1 \<or> cc_idlebits ch \<ge> int DAHDI_MAX_CHANNELS \<or> the_chan (nat (cc_idlebits ch)) S = None)
        then Inl (- EINVAL)
      else Inr (cc_sigtype ch, nat (cc_chan ch)))"

text \<open>A channel that supports clear channels supports HDLC and cross connection.\<close>

definition full_sigcap :: "u32 \<Rightarrow> u32" where
  "full_sigcap cap = (if cap AND SIG_CLEAR \<noteq> 0 then cap OR SIG_HDLCRAW OR SIG_HDLCFCS OR SIG_HDLCNET OR SIG_DACS else cap)"

definition place_of :: "dahdi_span \<Rightarrow> nat \<Rightarrow> nat option" where
  "place_of sp n = List.find (\<lambda>p. span_chan sp p = n) [0..<length (sp_chans sp)]"

text \<open>\<open>recalc_slaves\<close> of the channel with a number.\<close>

definition recalc_chan :: "nat \<Rightarrow> dahdi_sys \<Rightarrow> dahdi_sys" where
  "recalc_chan n S =
     (case the_chan n S of
        None \<Rightarrow> S
      | Some c \<Rightarrow>
          (case chan_span c of
             None \<Rightarrow> S
           | Some a \<Rightarrow>
               (case place_of (span_at S a) n of
                  None \<Rightarrow> S
                | Some p \<Rightarrow> S\<lparr>sw := recalc_slaves (span_at S a) p (sw S)\<rparr>)))"

definition upd_ch :: "nat \<Rightarrow> (dahdi_chan \<Rightarrow> dahdi_chan) \<Rightarrow> dahdi_sys \<Rightarrow> dahdi_sys" where
  "upd_ch n f S = S\<lparr>sw := w_upd n f (sw S)\<rparr>"

definition unlink_slave :: "nat \<Rightarrow> dahdi_chan \<Rightarrow> dahdi_sys \<Rightarrow> dahdi_sys" where
  "unlink_slave n c S =
     (if master c \<noteq> int n
      then recalc_chan (nat (master c)) (upd_ch n (\<lambda>c. c\<lparr>master := int n, nextslave := 0\<rparr>) S)
      else S)"

definition config_sig :: "u32 \<Rightarrow> int \<Rightarrow> dahdi_chan \<Rightarrow> dahdi_chan" where
  "config_sig s idle c =
     (let c = c\<lparr>sig := s, idlebits := (if s = SIG_CAS then idle else 0)\<rparr>;
          c = (if has_bits s SIG_CLEAR then set_flag FLAGBIT_CLEAR (clear_flag FLAGBIT_AUDIO c)
               else clear_flag FLAGBIT_CLEAR (set_flag FLAGBIT_AUDIO c));
          c = put_flag FLAGBIT_HDLC (has_bits s SIG_HDLCRAW) c
      in put_flag FLAGBIT_FCS (has_bits s SIG_HDLCFCS) c)"

definition config_dacs :: "(int \<Rightarrow> nat option) \<Rightarrow> u32 \<Rightarrow> int \<Rightarrow> dahdi_sys \<Rightarrow> dahdi_chan \<Rightarrow> dahdi_chan option" where
  "config_dacs dacs_of s idle S c =
     (let dacs = (\<lambda>c. case chan_span c of None \<Rightarrow> None | Some a \<Rightarrow> dacs_of a) in
      if has_bits s SIG_MASK_DACS then
        let c = c\<lparr>confmode := CONF_DIGITALMON, confna := idle\<rparr> in
        if dacs c = None then Some c
        else case chan_at (w_sys (sw S)) idle of
               None \<Rightarrow> None
             | Some None \<Rightarrow> Some c
             | Some (Some d) \<Rightarrow>
                 if chan_span d = None then None
                 else Some (if dacs c = dacs d then emit (SpanDacs (Some idle)) c else c)
      else Some (if dacs c \<noteq> None then emit (SpanDacs None) c else c))"

definition config_hard :: "u32 \<Rightarrow> dahdi_chan \<Rightarrow> dahdi_chan" where
  "config_hard s c =
     (let c = (if has_bits s SIG_HARDHDLC
               then set_flag FLAGBIT_NOSTDTXRX (clear_flag FLAGBIT_HDLC (clear_flag FLAGBIT_FCS c))
               else clear_flag FLAGBIT_NOSTDTXRX c)
      in put_flag FLAGBIT_MTP2 (has_bits s SIG_MTP2) c)"

text \<open>The channel once its configuration is accepted: hung up, with the state of the line unknown.\<close>

definition config_hangup :: "dahdi_span \<Rightarrow> int \<Rightarrow> dahdi_chan \<Rightarrow> dahdi_chan" where
  "config_hangup span drv c =
     (let c = snd (dahdi_hangup span drv c)
      in c\<lparr>rxsig := dahdi_q_sig span c AND 0xff, rxhooksig := RXSIG_INITIAL\<rparr>)"

definition config_apply :: "config_env \<Rightarrow> u32 \<Rightarrow> nat \<Rightarrow> chanconfig \<Rightarrow> dahdi_sys \<Rightarrow> dahdi_sys option" where
  "config_apply E s newmaster ch S =
     (let n = nat (cc_chan ch) in
      case the_chan n S of
        None \<Rightarrow> None
      | Some c \<Rightarrow>
          (case config_dacs (ce_dacs E) s (cc_idlebits ch) S (config_sig s (cc_idlebits ch) c) of
             None \<Rightarrow> None
           | Some c \<Rightarrow>
               let S = set_chan n (c\<lparr>master := int newmaster\<rparr>) S;
                   S = (if newmaster \<noteq> n then recalc_chan newmaster S else S)
               in Some (upd_ch n (config_hard s) S)))"

definition ioctl_chanconfig :: "config_env \<Rightarrow> chanconfig \<Rightarrow> dahdi_sys \<Rightarrow> (int \<times> dahdi_sys) option" where
  "ioctl_chanconfig E ch S =
     (let n = nat (cc_chan ch) in
      case valid_channel (cc_chan ch) S of
        Inl e \<Rightarrow> Some (e, S)
      | Inr c \<Rightarrow>
          (case config_target ch S of
             Inl e \<Rightarrow> Some (e, S)
           | Inr (s, newmaster) \<Rightarrow>
               if s = SIG_HDLCNET then Some (- ENOSYS, S)
               else if full_sigcap (sigcap c) AND s \<noteq> s then Some (- EINVAL, unlink_slave n c S)
               else
                 (case config_apply E s newmaster ch (unlink_slave n c S) of
                    None \<Rightarrow> None
                  | Some S \<Rightarrow>
                      (case chan_span c of
                         None \<Rightarrow> None
                       | Some a \<Rightarrow>
                           if has_chanconfig (span_at S a) \<and> ce_chanconfig E \<noteq> 0 then Some (ce_chanconfig E, S)
                           else
                             let S = upd_ch n (\<lambda>c. c\<lparr>deflaw := cc_deflaw ch\<rparr>) S
                             in if \<not> ce_copy E then Some (- EFAULT, S)
                                else Some (0, upd_ch n (config_hangup (span_at S a) (ce_drv E)) S)))))"

section \<open>Spans\<close>

text \<open>The fields of a span for its line.\<close>

record span_line =
  lineconfig :: int
  linecompat :: int
  lbo :: int
  txlevel :: int
  rxlevel :: int

text \<open>\<open>cb\<close>: the result of the driver's \<open>spanconfig\<close>, if it has one. \<open>lbo'\<close> and \<open>lineconfig'\<close> are the user's.\<close>

definition ioctl_spanconfig :: "int option \<Rightarrow> int \<Rightarrow> int \<Rightarrow> int \<Rightarrow> dahdi_sys \<Rightarrow> (int \<Rightarrow> span_line) \<Rightarrow> int \<times> (int \<Rightarrow> span_line)" where
  "ioctl_spanconfig cb j lbo' lineconfig' S L =
     (case valid_span j S of
        Inl e \<Rightarrow> (e, L)
      | Inr a \<Rightarrow>
          if lineconfig' AND 0x07f0 AND linecompat (L a) \<noteq> lineconfig' AND 0x07f0 then (- EINVAL, L)
          else case cb of
                 None \<Rightarrow> (0, L)
               | Some r \<Rightarrow> (r, L(a := (L a)\<lparr>lineconfig := lineconfig', lbo := lbo', txlevel := lbo', rxlevel := 0\<rparr>)))"

text \<open>\<open>start\<close>, \<open>shut\<close>: what the driver's \<open>startup\<close> and \<open>shutdown\<close> do to the span; \<open>ok\<close> is whether \<open>startup\<close> succeeds.\<close>

definition set_running :: "bool \<Rightarrow> dahdi_span \<Rightarrow> dahdi_span" where
  "set_running b sp =
     (if b then sp\<lparr>sp_flags := sp_flags sp OR push_bit FLAGBIT_RUNNING 1\<rparr>
      else sp\<lparr>sp_flags := sp_flags sp AND NOT (push_bit FLAGBIT_RUNNING 1)\<rparr>)"

definition start_chan :: "dahdi_span \<Rightarrow> int \<Rightarrow> dahdi_chan \<Rightarrow> dahdi_chan" where
  "start_chan span drv c =
     (let c = snd (dahdi_hangup span drv (c\<lparr>rxsig := dahdi_q_sig span c AND 0xff\<rparr>)) in c\<lparr>rxhooksig := RXSIG_INITIAL\<rparr>)"

definition ioctl_startup :: "(dahdi_span \<Rightarrow> dahdi_span) \<Rightarrow> bool \<Rightarrow> int \<Rightarrow> int \<Rightarrow> dahdi_sys \<Rightarrow> int \<times> dahdi_sys" where
  "ioctl_startup start ok drv j S =
     (case valid_span j S of
        Inl e \<Rightarrow> (e, S)
      | Inr a \<Rightarrow>
          if bit (sp_flags (span_at S a)) FLAGBIT_RUNNING then (0, S)
          else
            let S = upd_span a start S
            in if \<not> ok then (0, S)
               else
                 let S = upd_span a (set_running True) S; sp = span_at S a
                 in (0, fold (\<lambda>n. upd_ch (nat n) (start_chan sp drv)) (sp_chans sp) S))"

definition ioctl_shutdown :: "(dahdi_span \<Rightarrow> dahdi_span) \<Rightarrow> int \<Rightarrow> dahdi_sys \<Rightarrow> int \<times> dahdi_sys" where
  "ioctl_shutdown shut j S =
     (case valid_span j S of
        Inl e \<Rightarrow> (e, S)
      | Inr a \<Rightarrow>
          (0, upd_span a (set_running False) (upd_span a shut S)))"

abbreviation (input) MAINT_NONE :: int where "MAINT_NONE \<equiv> 0"
abbreviation (input) MAINT_LOCALLOOP :: int where "MAINT_LOCALLOOP \<equiv> 1"
abbreviation (input) MAINT_REMOTELOOP :: int where "MAINT_REMOTELOOP \<equiv> 2"
abbreviation (input) MAINT_LOOPUP :: int where "MAINT_LOOPUP \<equiv> 3"
abbreviation (input) MAINT_LOOPDOWN :: int where "MAINT_LOOPDOWN \<equiv> 4"

text \<open>
  \<open>DAHDI_MAINT\<close>: \<open>cb\<close> is what the driver's \<open>maint\<close> returns, if it has one. \<open>Inr\<close>: the command sends a loop code and waits until
  the span's timer runs out; \<open>maint_wake\<close> is the rest, with the result of that wait.
\<close>

definition maint_alarm :: "int \<Rightarrow> (int \<Rightarrow> span_maint) \<Rightarrow> dahdi_sys \<Rightarrow> dahdi_sys" where
  "maint_alarm a M S = dahdi_alarm_notify (maintstat (M a) \<noteq> 0 \<or> mainttimer (M a) \<noteq> 0) a S"

definition ioctl_maint :: "int option \<Rightarrow> int \<Rightarrow> int \<Rightarrow> (int \<Rightarrow> span_maint) \<Rightarrow> dahdi_sys \<Rightarrow>
    ((int + int) \<times> (int \<Rightarrow> span_maint) \<times> dahdi_sys) option" where
  "ioctl_maint cb j cmd M S =
     (if j < 1 \<or> j > int DAHDI_MAX_SPANS then Some (Inl (- EINVAL), M, S)
      else if j = int DAHDI_MAX_SPANS then None
      else case spans S ! nat j of
        None \<Rightarrow> Some (Inl (- EINVAL), M, S)
      | Some a \<Rightarrow>
          (case cb of
             None \<Rightarrow> Some (Inl (- ENOSYS), M, S)
           | Some rv \<Rightarrow>
               let i = maintstat (M a); M = M(a := (M a)\<lparr>maintstat := cmd\<rparr>) in
               if cmd = MAINT_NONE \<or> cmd = MAINT_LOCALLOOP \<or> cmd = MAINT_REMOTELOOP then
                 if i \<noteq> cmd \<and> rv \<noteq> 0 then Some (Inl rv, M, S) else Some (Inl 0, M, maint_alarm a M S)
               else if cmd = MAINT_LOOPUP \<or> cmd = MAINT_LOOPDOWN then
                 let M = M(a := (M a)\<lparr>mainttimer := 80000\<rparr>) in Some (if rv \<noteq> 0 then Inl rv else Inr a, M, S)
               else Some (Inl 0, M, maint_alarm a M S)))"

definition maint_wake :: "int \<Rightarrow> int \<Rightarrow> (int \<Rightarrow> span_maint) \<Rightarrow> dahdi_sys \<Rightarrow> int \<times> dahdi_sys" where
  "maint_wake rv a M S = (if rv \<noteq> 0 then (rv, S) else (0, maint_alarm a M S))"

text \<open>
  \<open>DAHDI_SPANSTAT\<close>. Zero is the span of the file's channel. The counters and names, which the core only copies, are left out.
\<close>

record spaninfo =
  si_spanno :: int
  si_totalspans :: nat
  si_alarms :: int
  si_line :: span_line
  si_totalchans :: nat
  si_numchans :: nat

definition ioctl_spanstat :: "int \<Rightarrow> int \<Rightarrow> (int \<Rightarrow> span_line) \<Rightarrow> dahdi_sys \<Rightarrow> (int + spaninfo) option" where
  "ioctl_spanstat i unit L S =
     (if i < 0 \<or> i \<ge> int (maxspans S) then Some (Inl (- EINVAL))
      else
        let answer = (\<lambda>i. case spans S ! nat i of
            None \<Rightarrow> Inl (- EINVAL)
          | Some a \<Rightarrow>
              let sp = span_at S a in
              Inr \<lparr>si_spanno = i, si_totalspans = maxspans S - 1, si_alarms = sp_alarms sp, si_line = L a,
                si_totalchans = length (sp_chans sp),
                si_numchans = length (filter (\<lambda>m. case the_chan (nat m) S of None \<Rightarrow> False | Some c \<Rightarrow> sig c \<noteq> 0) (sp_chans sp))\<rparr>)
        in if i \<noteq> 0 then Some (answer i)
           else case chan_at (w_sys (sw S)) unit of
                  None \<Rightarrow> None
                | Some None \<Rightarrow> Some (Inl (- EINVAL))
                | Some (Some c) \<Rightarrow>
                    (case chan_span c of None \<Rightarrow> None | Some a \<Rightarrow> Some (answer (spanno (span_at S a)))))"

section \<open>Parameters of a channel\<close>

record sfconfig =
  sf_rxp1 :: int
  sf_rxp2 :: int
  sf_rxp3 :: int
  sf_txtone :: int
  sf_tx_v2 :: int
  sf_tx_v3 :: int
  sf_toneflag :: int

definition sf_apply :: "sfconfig \<Rightarrow> dahdi_chan \<Rightarrow> dahdi_chan" where
  "sf_apply sf c =
     (let c = c\<lparr>rxp1 := sf_rxp1 sf, rxp2 := sf_rxp2 sf, rxp3 := sf_rxp3 sf, txtone := sf_txtone sf, tx_v2 := sf_tx_v2 sf,
                tx_v3 := sf_tx_v3 sf, toneflags := sf_toneflag sf\<rparr>
      in if sf_txtone sf = 0 then c
         else if (txhooksig c \<noteq> 0) = (sf_toneflag sf AND 2 = 0) then set_txtone (sf_txtone sf) (sf_tx_v2 sf) (sf_tx_v3 sf) c
         else set_txtone 0 0 0 c)"

definition ioctl_sfconfig :: "int \<Rightarrow> sfconfig \<Rightarrow> dahdi_sys \<Rightarrow> int \<times> dahdi_sys" where
  "ioctl_sfconfig j sf S =
     (case valid_channel j S of
        Inl e \<Rightarrow> (e, S)
      | Inr c \<Rightarrow> if sig c \<noteq> SIG_SF then (- EINVAL, S) else (0, upd_ch (nat j) (sf_apply sf) S))"

text \<open>\<open>struct dahdi_params\<close>: the timing that is set, and what is only read.\<close>

record timing =
  p_prewinktime :: int
  p_preflashtime :: int
  p_winktime :: int
  p_flashtime :: int
  p_starttime :: int
  p_rxwinktime :: int
  p_rxflashtime :: int
  p_debouncetime :: int
  p_pulsebreaktime :: int
  p_pulsemaketime :: int
  p_pulseaftertime :: int

record params = timing +
  p_channo :: int
  p_spanno :: int
  p_chanpos :: int
  p_sigtype :: u32
  p_sigcap :: u32
  p_rxisoffhook :: bool
  p_rxbits :: int
  p_txbits :: int
  p_txhooksig :: int
  p_rxhooksig :: int
  p_alaw :: bool
  p_idlebits :: int
  p_chan_alarms :: int

text \<open>\<open>enum dahdi_rxsig\<close> as a number; \<open>alaw\<close> is whether the channel's table is \<open>__dahdi_alaw\<close>.\<close>

fun rxsig_num :: "rxsig \<Rightarrow> int" where
  "rxsig_num RXSIG_ONHOOK = 0"
| "rxsig_num RXSIG_OFFHOOK = 1"
| "rxsig_num RXSIG_START = 2"
| "rxsig_num RXSIG_RING = 3"
| "rxsig_num RXSIG_INITIAL = 4"

definition is_offhook :: "dahdi_span \<Rightarrow> dahdi_chan \<Rightarrow> bool" where
  "is_offhook span c =
     (if chan_span c \<noteq> None then
        let j = dahdi_q_sig span c
        in if j \<ge> 0 then rxsig c AND drop_bit 8 j \<noteq> j AND 0xff
           else rxhooksig c \<noteq> RXSIG_ONHOOK \<and> rxhooksig c \<noteq> RXSIG_INITIAL
      else txstate c = TXSTATE_KEWL \<or> txstate c = TXSTATE_AFTERKEWL)"

definition chan_params :: "dahdi_span \<Rightarrow> bool \<Rightarrow> dahdi_chan \<Rightarrow> params" where
  "chan_params span alaw c =
     (let bits = chan_span c \<noteq> None \<and> has_rbsbits span \<and> sig c AND SIG_CLEAR = 0;
          hooks = chan_span c \<noteq> None \<and> (has_rbsbits span \<or> has_hooksig span) \<and> sig c AND SIG_CLEAR = 0
      in \<lparr>p_prewinktime = prewinktime c, p_preflashtime = preflashtime c, p_winktime = winktime c, p_flashtime = flashtime c,
          p_starttime = starttime c, p_rxwinktime = rxwinktime c, p_rxflashtime = rxflashtime c,
          p_debouncetime = debouncetime c, p_pulsebreaktime = pulsebreaktime c, p_pulsemaketime = pulsemaketime c,
          p_pulseaftertime = pulseaftertime c,
          p_channo = channo c, p_spanno = (if chan_span c \<noteq> None then spanno span else 0), p_chanpos = chanpos c,
          p_sigtype = sig c, p_sigcap = sigcap c, p_rxisoffhook = is_offhook span c,
          p_rxbits = (if bits then rxsig c else -1), p_txbits = (if bits then txsig c else -1),
          p_txhooksig = (if hooks then txhooksig c else -1),
          p_rxhooksig = (if hooks then rxsig_num (rxhooksig c) else -1),
          p_alaw = alaw, p_idlebits = (if bits then idlebits c else 0), p_chan_alarms = chan_alarms c\<rparr>)"

text \<open>The channel the user means: the one of the file, or from the control device the one given.\<close>

definition param_chan :: "int \<Rightarrow> int \<Rightarrow> int" where
  "param_chan k unit = (if k = 0 \<or> unit \<noteq> 0 then unit else k)"

definition ioctl_get_params :: "(dahdi_chan \<Rightarrow> bool) \<Rightarrow> int \<Rightarrow> int \<Rightarrow> dahdi_sys \<Rightarrow> int + params" where
  "ioctl_get_params alaw k unit S =
     (let ret = k AND 0x40000000 \<noteq> 0; k = (if ret then k AND NOT 0x40000000 else k) in
      case valid_channel (param_chan k unit) S of
        Inl e \<Rightarrow> Inl e
      | Inr c \<Rightarrow>
          let p = chan_params (span_of S c) (alaw c) c
          in Inr (if ret then p\<lparr>p_channo := p_channo p OR push_bit 16 (master c)\<rparr> else p))"

definition set_timing :: "timing \<Rightarrow> dahdi_chan \<Rightarrow> dahdi_chan" where
  "set_timing p c =
     (let c = c\<lparr>prewinktime := p_prewinktime p, preflashtime := p_preflashtime p, winktime := p_winktime p,
                flashtime := p_flashtime p, starttime := p_starttime p\<rparr>;
          c = (if curzone c = None then c\<lparr>ringcadence := (ringcadence c)[0 := starttime c]\<rparr> else c)
      in c\<lparr>rxwinktime := p_rxwinktime p, rxflashtime := p_rxflashtime p, debouncetime := p_debouncetime p,
           pulsemaketime := p_pulsemaketime p, pulsebreaktime := p_pulsebreaktime p, pulseaftertime := p_pulseaftertime p\<rparr>)"

definition ioctl_set_params :: "timing \<Rightarrow> int \<Rightarrow> int \<Rightarrow> dahdi_sys \<Rightarrow> int \<times> dahdi_sys" where
  "ioctl_set_params p k unit S =
     (case valid_channel (param_chan k unit) S of
        Inl e \<Rightarrow> (e, S)
      | Inr _ \<Rightarrow> (0, upd_ch (nat (param_chan k unit)) (set_timing p) S))"

section \<open>Gains\<close>

text \<open>The channel for the gains: zero is the channel of the file.\<close>

definition gain_chan :: "int \<Rightarrow> int \<Rightarrow> dahdi_sys \<Rightarrow> (int + nat \<times> dahdi_chan) option" where
  "gain_chan k unit S =
     (let i = (if k = 0 then unit else k) in
      if i < 0 \<or> i > int DAHDI_MAX_CHANNELS then Some (Inl (- EINVAL))
      else case chan_at (w_sys (sw S)) i of
             None \<Rightarrow> None
           | Some None \<Rightarrow> Some (Inl (- EINVAL))
           | Some (Some c) \<Rightarrow> if \<not> flagged c FLAGBIT_AUDIO then Some (Inl (- EINVAL)) else Some (Inr (nat i, c)))"

abbreviation (input) GAIN_TABLE_SIZE :: nat where "GAIN_TABLE_SIZE \<equiv> 256"

definition gain_list :: "(byte \<Rightarrow> byte) \<Rightarrow> byte list" where
  "gain_list g = map (\<lambda>j. g (word_of_nat j)) [0..<GAIN_TABLE_SIZE]"

definition gain_fun :: "byte list \<Rightarrow> byte \<Rightarrow> byte" where
  "gain_fun t b = t ! unat b"

text \<open>The receive and the transmit table.\<close>

text \<open>\<open>kz\<close>, \<open>kz2\<close>: whether the allocations succeed; \<open>cp\<close>: whether the answer can be copied to the user.\<close>

definition ioctl_getgains :: "bool \<Rightarrow> bool \<Rightarrow> int \<Rightarrow> int \<Rightarrow> dahdi_sys \<Rightarrow> (int + byte list \<times> byte list) option" where
  "ioctl_getgains kz cp k unit S =
     (if \<not> kz then Some (Inl (- ENOMEM))
      else case gain_chan k unit S of
        None \<Rightarrow> None
      | Some (Inl e) \<Rightarrow> Some (Inl e)
      | Some (Inr (_, c)) \<Rightarrow> Some (if cp then Inr (gain_list (rxgain c), gain_list (txgain c)) else Inl (- EFAULT)))"

definition apply_gains :: "byte list \<Rightarrow> byte list \<Rightarrow> dahdi_chan \<Rightarrow> dahdi_chan" where
  "apply_gains rx tx c =
     (let defgain = map word_of_nat [0..<GAIN_TABLE_SIZE] in
      if rx = defgain \<and> tx = defgain then c\<lparr>gainalloc := False, rxgain := id, txgain := id\<rparr>
      else c\<lparr>gainalloc := True, rxgain := gain_fun rx, txgain := gain_fun tx\<rparr>)"

definition ioctl_setgains :: "bool \<Rightarrow> bool \<Rightarrow> bool \<Rightarrow> int \<Rightarrow> byte list \<Rightarrow> byte list \<Rightarrow> int \<Rightarrow> dahdi_sys \<Rightarrow> (int \<times> dahdi_sys) option" where
  "ioctl_setgains kz kz2 cp k rx tx unit S =
     (if \<not> kz then Some (- ENOMEM, S)
      else case gain_chan k unit S of
        None \<Rightarrow> None
      | Some (Inl e) \<Rightarrow> Some (e, S)
      | Some (Inr (n, _)) \<Rightarrow>
          if \<not> kz2 then Some (- ENOMEM, S) else Some (if cp then 0 else - EFAULT, upd_ch n (apply_gains rx tx) S))"

section \<open>What the bundles depend on\<close>

text \<open>The links of a channel, and those of all channels.\<close>

record link =
  lk_master :: int
  lk_next :: int
  lk_pos :: int
  lk_span :: "int option"

definition links :: "dahdi_chan \<Rightarrow> link" where
  "links c = \<lparr>lk_master = master c, lk_next = nextslave c, lk_pos = chanpos c, lk_span = chan_span c\<rparr>"

definition view :: "world \<Rightarrow> nat \<Rightarrow> link option" where
  "view w n = map_option links (w_chan w n)"

text \<open>A list of places that \<open>nextslave\<close> leads through, and the bundle a head should have: itself and its slaves after it.\<close>

fun linked :: "(nat \<Rightarrow> link option) \<Rightarrow> nat list \<Rightarrow> bool" where
  "linked v [] = False"
| "linked v [z] = (case v z of None \<Rightarrow> False | Some l \<Rightarrow> lk_next l = 0)"
| "linked v (z # y # ys) = ((case v z of None \<Rightarrow> False | Some l \<Rightarrow> lk_next l = int y) \<and> y \<noteq> 0 \<and> linked v (y # ys))"

definition mastered_by :: "int \<Rightarrow> link option \<Rightarrow> bool" where
  "mastered_by m l \<longleftrightarrow> (case l of None \<Rightarrow> False | Some l \<Rightarrow> lk_master l = m)"

definition bundle_of :: "dahdi_span \<Rightarrow> nat \<Rightarrow> (nat \<Rightarrow> link option) \<Rightarrow> nat list" where
  "bundle_of sp p v =
     p # filter (\<lambda>x. mastered_by (int (span_chan sp p)) (v (span_chan sp x))) [Suc p..<length (sp_chans sp)]"

lemma link_view_upd: "n < length (chans (w_sys w)) \<Longrightarrow> view (w_upd n f w) = (view w)(n := map_option (links \<circ> f) (w_chan w n))"
  by (intro ext) (simp add: view_def w_chan_upd option.map_comp)

lemma view_next: "n < length (chans (w_sys w)) \<Longrightarrow>
    view (w_upd n (nextslave_update (\<lambda>_. x)) w) = (view w)(n := map_option (lk_next_update (\<lambda>_. x)) (view w n))"
  by (simp add: link_view_upd) (simp add: view_def option.map_comp comp_def links_def)

lemma linked_cong: "(\<And>z. z \<in> set zs \<Longrightarrow> v z = v' z) \<Longrightarrow> linked v zs = linked v' zs"
  by (induction v zs rule: linked.induct) auto

lemma linked_chain:
  "linked (\<lambda>z. view w (span_chan sp z)) zs \<Longrightarrow> length zs \<le> f \<Longrightarrow>
   slave_chain f (\<lambda>z. w_chan w (span_chan sp z)) (hd zs) = Some zs"
proof (induction "\<lambda>z. view w (span_chan sp z)" zs arbitrary: f rule: linked.induct)
  case (2 z)
  then show ?case by (cases f) (auto simp: view_def links_def slave_chain.simps split: option.splits)
next
  case (3 z y ys)
  then obtain g where f: "f = Suc g" by (cases f) auto
  have "slave_chain g (\<lambda>z. w_chan w (span_chan sp z)) y = Some (y # ys)" using 3 f by simp
  then show ?case using 3(2) f by (auto simp: view_def links_def slave_chain.simps [of "Suc g"] split: option.splits)
qed simp

lemma linked_slaves:
  assumes "distinct (q # xs)" "0 \<notin> set xs" "inj_on (span_chan sp) (set (q # xs))"
    and "\<And>z. z \<in> set (q # xs) \<Longrightarrow> span_chan sp z < length (chans (w_sys w)) \<and> view w (span_chan sp z) \<noteq> None"
    and "fold (link_slave sp m) xs (q, w) = (r, w')"
  shows "let W = w_upd (span_chan sp r) (nextslave_update (\<lambda>_. 0)) w';
             ms = filter (\<lambda>x. mastered_by m (view w (span_chan sp x))) xs in
    linked (\<lambda>z. view W (span_chan sp z)) (q # ms) \<and> (\<forall>k. k \<notin> span_chan sp ` set (q # ms) \<longrightarrow> view W k = view w k) \<and>
    (\<forall>k. map_option (lk_next_update (\<lambda>_. 0)) (view W k) = map_option (lk_next_update (\<lambda>_. 0)) (view w k)) \<and>
    length (chans (w_sys W)) = length (chans (w_sys w))"
  using assms
proof (induction xs arbitrary: q w)
  case Nil
  then show ?case
    by (auto simp: view_next option.map_comp comp_def split: option.split)
next
  case (Cons x xs)
  have q: "span_chan sp q < length (chans (w_sys w))" "view w (span_chan sp q) \<noteq> None"
    and x: "span_chan sp x < length (chans (w_sys w))" "view w (span_chan sp x) \<noteq> None" using Cons.prems(4) by simp_all
  obtain c where c: "w_chan w (span_chan sp x) = Some c" using x(2) by (auto simp: view_def)
  have P: "mastered_by m (view w (span_chan sp x)) \<longleftrightarrow> master c = m" by (simp add: mastered_by_def view_def c links_def)
  show ?case
  proof (cases "master c = m")
    case False
    then have "link_slave sp m x (q, w) = (q, w)" using c by (simp add: link_slave_def)
    then have f: "fold (link_slave sp m) xs (q, w) = (r, w')" using Cons.prems(5) by simp
    have "let W = w_upd (span_chan sp r) (nextslave_update (\<lambda>_. 0)) w';
             ms = filter (\<lambda>x. mastered_by m (view w (span_chan sp x))) xs in
      linked (\<lambda>z. view W (span_chan sp z)) (q # ms) \<and> (\<forall>k. k \<notin> span_chan sp ` set (q # ms) \<longrightarrow> view W k = view w k) \<and>
      (\<forall>k. map_option (lk_next_update (\<lambda>_. 0)) (view W k) = map_option (lk_next_update (\<lambda>_. 0)) (view w k)) \<and>
      length (chans (w_sys W)) = length (chans (w_sys w))"
      by (rule Cons.IH) (use Cons.prems f in \<open>auto simp: inj_on_def\<close>)
    then show ?thesis using P False by simp
  next
    case True
    define w1 where "w1 = w_upd (span_chan sp q) (nextslave_update (\<lambda>_. int x)) w"
    have "link_slave sp m x (q, w) = (x, w1)" using c True by (simp add: link_slave_def w1_def)
    then have f: "fold (link_slave sp m) xs (x, w1) = (r, w')" using Cons.prems(5) by simp
    have v1: "view w1 = (view w)(span_chan sp q := map_option (lk_next_update (\<lambda>_. int x)) (view w (span_chan sp q)))"
      using q by (simp add: w1_def view_next)
    have l1: "length (chans (w_sys w1)) = length (chans (w_sys w))" by (simp add: w1_def)
    have mm: "mastered_by m (view w1 k) = mastered_by m (view w k)" for k by (simp add: v1 mastered_by_def split: option.split)
    define W ms where "W = w_upd (span_chan sp r) (nextslave_update (\<lambda>_. 0)) w'"
      and "ms = filter (\<lambda>x. mastered_by m (view w (span_chan sp x))) xs"
    have "let W = w_upd (span_chan sp r) (nextslave_update (\<lambda>_. 0)) w';
             ms = filter (\<lambda>x. mastered_by m (view w1 (span_chan sp x))) xs in
      linked (\<lambda>z. view W (span_chan sp z)) (x # ms) \<and> (\<forall>k. k \<notin> span_chan sp ` set (x # ms) \<longrightarrow> view W k = view w1 k) \<and>
      (\<forall>k. map_option (lk_next_update (\<lambda>_. 0)) (view W k) = map_option (lk_next_update (\<lambda>_. 0)) (view w1 k)) \<and>
      length (chans (w_sys W)) = length (chans (w_sys w1))"
      by (rule Cons.IH) (use Cons.prems f in \<open>auto simp: inj_on_def l1 v1\<close>)
    then have i: "linked (\<lambda>z. view W (span_chan sp z)) (x # ms)" "\<forall>k. k \<notin> span_chan sp ` set (x # ms) \<longrightarrow> view W k = view w1 k"
      "\<forall>k. map_option (lk_next_update (\<lambda>_. 0)) (view W k) = map_option (lk_next_update (\<lambda>_. 0)) (view w1 k)"
      "length (chans (w_sys W)) = length (chans (w_sys w))"
      unfolding Let_def mm W_def [symmetric] ms_def [symmetric] l1 by blast+
    have "set (x # ms) \<subseteq> set (x # xs)" by (auto simp: ms_def)
    then have "span_chan sp q \<notin> span_chan sp ` set (x # ms)" using Cons.prems(1,3) by (auto simp: inj_on_def)
    then have "view W (span_chan sp q) = map_option (lk_next_update (\<lambda>_. int x)) (view w (span_chan sp q))" using i(2) v1 by simp
    then have "linked (\<lambda>z. view W (span_chan sp z)) (q # x # ms)" using i(1) q(2) Cons.prems(2) by auto
    moreover have "view W k = view w k" if "k \<notin> span_chan sp ` set (q # x # ms)" for k
      using i(2) that v1 by simp
    moreover have "map_option (lk_next_update (\<lambda>_. 0)) (view W k) = map_option (lk_next_update (\<lambda>_. 0)) (view w k)" for k
      using i(3) by (simp add: v1 option.map_comp comp_def)
    ultimately show ?thesis using i(4) P True unfolding W_def [symmetric] Let_def by (simp add: ms_def [symmetric])
  qed
qed

section \<open>Bundles of a configuration\<close>

text \<open>A head is its own master. \<open>placed\<close>: the channels of a span are registered, one to a place, and know their places.\<close>

definition head :: "(nat \<Rightarrow> link option) \<Rightarrow> nat \<Rightarrow> bool" where
  "head v n \<longleftrightarrow> mastered_by (int n) (v n)"

definition span_size :: "dahdi_span \<Rightarrow> nat" where
  "span_size sp = length (sp_chans sp)"

definition placed :: "dahdi_sys \<Rightarrow> int \<Rightarrow> bool" where
  "placed S a \<longleftrightarrow>
     (let sp = span_at S a in inj_on (span_chan sp) {..<span_size sp} \<and>
        (\<forall>p < span_size sp. span_chan sp p < length (chans (w_sys (sw S))) \<and>
           (\<exists>l. view (sw S) (span_chan sp p) = Some l \<and> lk_pos l = int p + 1 \<and> lk_span l = Some a)))"

definition bundle_linked :: "dahdi_span \<Rightarrow> nat \<Rightarrow> (nat \<Rightarrow> link option) \<Rightarrow> bool" where
  "bundle_linked sp p v \<longleftrightarrow> linked (\<lambda>z. v (span_chan sp z)) (bundle_of sp p v)"

text \<open>Masters are heads, channels of registered spans have a place there, and the bundles of heads not in \<open>M\<close> are linked.\<close>

definition masters_ok :: "dahdi_sys \<Rightarrow> bool" where
  "masters_ok S \<longleftrightarrow> length (chans (w_sys (sw S))) = DAHDI_MAX_CHANNELS \<and>
     (\<forall>a. span_registered (span_at S a) \<longrightarrow> placed S a) \<and>
     (\<forall>n l. n < DAHDI_MAX_CHANNELS \<and> view (sw S) n = Some l \<longrightarrow>
        (\<exists>m < DAHDI_MAX_CHANNELS. lk_master l = int m \<and> head (view (sw S)) m) \<and>
        (\<forall>a. lk_span l = Some a \<longrightarrow>
           span_registered (span_at S a) \<and> (\<exists>p < span_size (span_at S a). span_chan (span_at S a) p = n)))"

definition bundles_but :: "nat set \<Rightarrow> dahdi_sys \<Rightarrow> bool" where
  "bundles_but M S \<longleftrightarrow> masters_ok S \<and>
     (\<forall>a p. span_registered (span_at S a) \<and> p < span_size (span_at S a) \<and> head (view (sw S)) (span_chan (span_at S a) p) \<and>
        span_chan (span_at S a) p \<notin> M \<longrightarrow> bundle_linked (span_at S a) p (view (sw S)))"

lemma place_of_inj: "inj_on (span_chan sp) {..<span_size sp} \<Longrightarrow> p < span_size sp \<Longrightarrow> place_of sp (span_chan sp p) = Some p"
  unfolding place_of_def find_Some_iff span_size_def
  by (rule exI [of _ p]) (auto simp: inj_on_def)

text \<open>A change of one channel's links does not concern the bundles of the heads that are neither its old nor its new master.\<close>

lemma bundle_linked_upd:
  assumes "\<not> mastered_by (int (span_chan sp p)) (v n)" "\<not> mastered_by (int (span_chan sp p)) l" "n \<noteq> span_chan sp p"
  shows "bundle_linked sp p (v(n := l)) = bundle_linked sp p v"
proof -
  have m: "mastered_by (int (span_chan sp p)) ((v(n := l)) k) = mastered_by (int (span_chan sp p)) (v k)" for k
    using assms(1,2) by simp
  have b: "bundle_of sp p (v(n := l)) = bundle_of sp p v" unfolding bundle_of_def m ..
  show ?thesis unfolding bundle_linked_def b
    by (rule linked_cong) (use assms in \<open>auto simp: bundle_of_def\<close>)
qed

lemma bundle_linked_cong:
  assumes "\<And>k. mastered_by (int (span_chan sp p)) (w k) = mastered_by (int (span_chan sp p)) (v k)"
    and "\<And>k. mastered_by (int (span_chan sp p)) (v k) \<or> k = span_chan sp p \<Longrightarrow> w k = v k"
  shows "bundle_linked sp p w = bundle_linked sp p v"
proof -
  have b: "bundle_of sp p w = bundle_of sp p v" unfolding bundle_of_def assms(1) ..
  show ?thesis unfolding bundle_linked_def b by (rule linked_cong) (use assms(2) in \<open>auto simp: bundle_of_def\<close>)
qed

lemma erased_mastered:
  "map_option (lk_next_update (\<lambda>_. 0)) x = map_option (lk_next_update (\<lambda>_. 0)) y \<Longrightarrow> mastered_by m x = mastered_by m y"
  by (cases x; cases y) (auto simp: mastered_by_def link.defs(2) intro: link.equality elim: link.cases
      dest: arg_cong [of _ _ lk_master])

text \<open>The channel's own place, and what \<open>recalc_chan\<close> leaves alone.\<close>

lemma recalc_chan_effect:
  assumes "masters_ok S" "m < DAHDI_MAX_CHANNELS" "head (view (sw S)) m" "recalc_chan m S = T"
  shows "\<exists>W. T = S\<lparr>sw := W\<rparr> \<and> length (chans (w_sys W)) = DAHDI_MAX_CHANNELS \<and>
    (\<forall>k. map_option (lk_next_update (\<lambda>_. 0)) (view W k) = map_option (lk_next_update (\<lambda>_. 0)) (view (sw S) k)) \<and>
    (\<forall>k. \<not> mastered_by (int m) (view (sw S) k) \<longrightarrow> view W k = view (sw S) k) \<and>
    (\<forall>a p. span_registered (span_at S a) \<and> p < span_size (span_at S a) \<and> span_chan (span_at S a) p = m \<longrightarrow>
       bundle_linked (span_at S a) p (view W))"
proof -
  obtain c where c: "the_chan m S = Some c" "master c = int m"
    using assms(3) by (auto simp: head_def mastered_by_def view_def the_chan_def links_def split: option.splits)
  have len: "length (chans (w_sys (sw S))) = DAHDI_MAX_CHANNELS" using assms(1) by (simp add: masters_ok_def)
  have lk: "view (sw S) m = Some (links c)" using c(1) by (simp add: view_def the_chan_def)
  show ?thesis
  proof (cases "chan_span c")
    case None
    have "T = S\<lparr>sw := sw S\<rparr>" using assms(4) c(1) None by (simp add: recalc_chan_def)
    moreover have "bundle_linked (span_at S a) p (view (sw S))"
      if "span_registered (span_at S a)" "p < span_size (span_at S a)" "span_chan (span_at S a) p = m" for a p
    proof -
      have "placed S a" using assms(1) that(1) by (simp add: masters_ok_def)
      then have "lk_span (links c) = Some a" using that(2,3) lk by (auto simp: placed_def Let_def)
      then show ?thesis using None by (simp add: links_def)
    qed
    ultimately show ?thesis using len by blast
  next
    case (Some a)
    define sp where "sp = span_at S a"
    have a: "span_registered sp" "\<exists>p < span_size sp. span_chan sp p = m"
      using assms(1,2) lk Some unfolding masters_ok_def sp_def by (auto simp: links_def)
    obtain p where p: "p < span_size sp" "span_chan sp p = m" using a(2) by blast
    have "placed S a" using assms(1) a(1) by (simp add: masters_ok_def sp_def)
    then have inj: "inj_on (span_chan sp) {..<span_size sp}"
      and pl: "\<And>q. q < span_size sp \<Longrightarrow> span_chan sp q < length (chans (w_sys (sw S))) \<and>
           (\<exists>l. view (sw S) (span_chan sp q) = Some l \<and> lk_pos l = int q + 1 \<and> lk_span l = Some a)"
      by (simp_all add: placed_def sp_def Let_def)
    have pos: "chanpos c = int p + 1" using pl [OF p(1)] p(2) lk by (auto simp: links_def)
    have pl': "place_of sp m = Some p" using place_of_inj [OF inj p(1)] p(2) by simp
    obtain r w' where f: "fold (link_slave sp (int m)) [Suc p..<length (sp_chans sp)] (p, sw S) = (r, w')" by fastforce
    define W where "W = w_upd (span_chan sp r) (nextslave_update (\<lambda>_. 0)) w'"
    have n: "nat (int p + 1) = Suc p" by simp
    have "recalc_slaves sp p (sw S) = W"
      using c(1) p(2) Some pos f unfolding recalc_slaves_def the_chan_def by (simp add: W_def n)
    then have T: "T = S\<lparr>sw := W\<rparr>" using assms(4) c(1) Some pl' by (simp add: recalc_chan_def sp_def)
    have dist: "distinct (p # [Suc p..<length (sp_chans sp)])" "0 \<notin> set [Suc p..<length (sp_chans sp)]"
      "set (p # [Suc p..<length (sp_chans sp)]) \<subseteq> {..<span_size sp}" using p(1) by (auto simp: span_size_def)
    have "let W = w_upd (span_chan sp r) (nextslave_update (\<lambda>_. 0)) w';
             ms = filter (\<lambda>x. mastered_by (int m) (view (sw S) (span_chan sp x))) [Suc p..<length (sp_chans sp)] in
      linked (\<lambda>z. view W (span_chan sp z)) (p # ms) \<and> (\<forall>k. k \<notin> span_chan sp ` set (p # ms) \<longrightarrow> view W k = view (sw S) k) \<and>
      (\<forall>k. map_option (lk_next_update (\<lambda>_. 0)) (view W k) = map_option (lk_next_update (\<lambda>_. 0)) (view (sw S) k)) \<and>
      length (chans (w_sys W)) = length (chans (w_sys (sw S)))"
    proof (rule linked_slaves [OF dist(1,2) inj_on_subset [OF inj dist(3)] _ f])
      fix z assume "z \<in> set (p # [Suc p..<length (sp_chans sp)])"
      then have "z < span_size sp" using dist(3) by blast
      from pl [OF this] show "span_chan sp z < length (chans (w_sys (sw S))) \<and> view (sw S) (span_chan sp z) \<noteq> None" by auto
    qed
    then have i: "linked (\<lambda>z. view W (span_chan sp z)) (bundle_of sp p (view (sw S)))"
      "\<forall>k. k \<notin> span_chan sp ` set (bundle_of sp p (view (sw S))) \<longrightarrow> view W k = view (sw S) k"
      "\<forall>k. map_option (lk_next_update (\<lambda>_. 0)) (view W k) = map_option (lk_next_update (\<lambda>_. 0)) (view (sw S) k)"
      "length (chans (w_sys W)) = length (chans (w_sys (sw S)))"
      unfolding Let_def W_def [symmetric] bundle_of_def p(2) by blast+
    have e: "mastered_by x (view W k) = mastered_by x (view (sw S) k)" for x k using i(3) erased_mastered by blast
    have b: "bundle_of sp p (view W) = bundle_of sp p (view (sw S))" unfolding bundle_of_def e ..
    have "view W k = view (sw S) k" if "\<not> mastered_by (int m) (view (sw S) k)" for k
    proof -
      have "mastered_by (int m) (view (sw S) (span_chan sp x))" if "x \<in> set (bundle_of sp p (view (sw S)))" for x
        using that assms(3) p(2) by (auto simp: bundle_of_def head_def)
      then have "k \<notin> span_chan sp ` set (bundle_of sp p (view (sw S)))" using that by blast
      then show ?thesis using i(2) by blast
    qed
    moreover have "bundle_linked (span_at S a') p' (view W)"
      if "span_registered (span_at S a')" "p' < span_size (span_at S a')" "span_chan (span_at S a') p' = m" for a' p'
    proof -
      have "placed S a'" using assms(1) that(1) by (simp add: masters_ok_def)
      then have "lk_span (links c) = Some a'" "lk_pos (links c) = int p' + 1" using that(2,3) lk by (auto simp: placed_def Let_def)
      then have "a' = a" "p' = p" using Some pos by (simp_all add: links_def)
      then show ?thesis using i(1) b by (simp add: bundle_linked_def sp_def)
    qed
    ultimately show ?thesis using T i(3,4) len by (intro exI [of _ W]) simp
  qed
qed

lemma erasedD:
  assumes "map_option (lk_next_update (\<lambda>_. 0)) x = map_option (lk_next_update (\<lambda>_. 0)) y" "y = Some l"
  shows "\<exists>l'. x = Some l' \<and> lk_master l' = lk_master l \<and> lk_pos l' = lk_pos l \<and> lk_span l' = lk_span l"
proof -
  have "map_option (lk_next_update (\<lambda>_. 0)) x = Some (l\<lparr>lk_next := 0\<rparr>)" using assms by simp
  then obtain l' where "x = Some l'" "l'\<lparr>lk_next := 0\<rparr> = l\<lparr>lk_next := 0\<rparr>" by (cases x) auto
  moreover have "lk_pos (l'\<lparr>lk_next := 0\<rparr>) = lk_pos l'" "lk_span (l'\<lparr>lk_next := 0\<rparr>) = lk_span l'"
    "lk_master (l'\<lparr>lk_next := 0\<rparr>) = lk_master l'" by simp_all
  ultimately show ?thesis by simp
qed

lemma placed_erased:
  assumes "\<forall>k. map_option (lk_next_update (\<lambda>_. 0)) (view W k) = map_option (lk_next_update (\<lambda>_. 0)) (view (sw S) k)"
    and "length (chans (w_sys W)) = length (chans (w_sys (sw S)))" "placed S a"
  shows "placed (S\<lparr>sw := W\<rparr>) a"
  unfolding placed_def Let_def
proof (intro conjI allI impI)
  let ?sp = "span_at (S\<lparr>sw := W\<rparr>) a"
  show "inj_on (span_chan ?sp) {..<span_size ?sp}" using assms(3) by (simp add: placed_def Let_def)
  fix p assume p: "p < span_size ?sp"
  then obtain l where l: "span_chan ?sp p < length (chans (w_sys (sw S)))" "view (sw S) (span_chan ?sp p) = Some l"
    "lk_pos l = int p + 1" "lk_span l = Some a" using assms(3) by (auto simp: placed_def Let_def)
  show "span_chan ?sp p < length (chans (w_sys (sw (S\<lparr>sw := W\<rparr>))))" using l(1) assms(2) by simp
  show "\<exists>l. view (sw (S\<lparr>sw := W\<rparr>)) (span_chan ?sp p) = Some l \<and> lk_pos l = int p + 1 \<and> lk_span l = Some a"
  proof -
    obtain l' where l': "view W (span_chan ?sp p) = Some l'" "lk_pos l' = lk_pos l" "lk_span l' = lk_span l"
      using erasedD [OF assms(1) [rule_format] l(2)] by blast
    show ?thesis by (rule exI [of _ l']) (use l' l(3,4) in simp)
  qed
qed

lemma masters_ok_erased:
  assumes "\<forall>k. map_option (lk_next_update (\<lambda>_. 0)) (view W k) = map_option (lk_next_update (\<lambda>_. 0)) (view (sw S) k)"
    and "length (chans (w_sys W)) = length (chans (w_sys (sw S)))" "masters_ok S"
  shows "masters_ok (S\<lparr>sw := W\<rparr>)"
proof -
  have h: "head (view W) k = head (view (sw S)) k" for k
    unfolding head_def by (rule erased_mastered [OF assms(1) [rule_format]])
  show ?thesis unfolding masters_ok_def
  proof (intro conjI allI impI)
    show "length (chans (w_sys (sw (S\<lparr>sw := W\<rparr>)))) = DAHDI_MAX_CHANNELS" using assms(2,3) by (simp add: masters_ok_def)
    show "placed (S\<lparr>sw := W\<rparr>) a" if "span_registered (span_at (S\<lparr>sw := W\<rparr>) a)" for a
      using placed_erased [OF assms(1,2)] assms(3) that by (simp add: masters_ok_def)
  next
    fix n l assume n: "n < DAHDI_MAX_CHANNELS \<and> view (sw (S\<lparr>sw := W\<rparr>)) n = Some l"
    then have "view W n = Some l" by simp
    from erasedD [OF assms(1) [rule_format, symmetric] this]
    obtain l' where l: "view (sw S) n = Some l'" "lk_master l' = lk_master l" "lk_span l' = lk_span l" by blast
    note O = assms(3) [unfolded masters_ok_def, THEN conjunct2, THEN conjunct2, rule_format, OF conjI [OF conjunct1 [OF n] l(1)]]
    show "\<exists>m < DAHDI_MAX_CHANNELS. lk_master l = int m \<and> head (view (sw (S\<lparr>sw := W\<rparr>))) m" using O l(2) h by auto
    fix a assume a: "lk_span l = Some a"
    show "span_registered (span_at (S\<lparr>sw := W\<rparr>) a)" using O l(3) a by simp
    show "\<exists>p < span_size (span_at (S\<lparr>sw := W\<rparr>) a). span_chan (span_at (S\<lparr>sw := W\<rparr>) a) p = n" using O l(3) a by simp
  qed
qed

lemma recalc_restores:
  assumes "bundles_but {m} S" "m < DAHDI_MAX_CHANNELS" "head (view (sw S)) m"
  shows "bundles_but {} (recalc_chan m S)" "span_at (recalc_chan m S) = span_at S"
    "map_option (lk_next_update (\<lambda>_. 0)) (view (sw (recalc_chan m S)) k) = map_option (lk_next_update (\<lambda>_. 0)) (view (sw S) k)"
proof -
  have ok: "masters_ok S" using assms(1) by (simp add: bundles_but_def)
  obtain W where T: "recalc_chan m S = S\<lparr>sw := W\<rparr>" and W: "length (chans (w_sys W)) = DAHDI_MAX_CHANNELS"
    "\<forall>k. map_option (lk_next_update (\<lambda>_. 0)) (view W k) = map_option (lk_next_update (\<lambda>_. 0)) (view (sw S) k)"
    "\<forall>k. \<not> mastered_by (int m) (view (sw S) k) \<longrightarrow> view W k = view (sw S) k"
    "\<forall>a p. span_registered (span_at S a) \<and> p < span_size (span_at S a) \<and> span_chan (span_at S a) p = m \<longrightarrow>
       bundle_linked (span_at S a) p (view W)"
    using recalc_chan_effect [OF ok assms(2,3) refl] by blast
  have e: "mastered_by x (view W k) = mastered_by x (view (sw S) k)" for x k using W(2) erased_mastered by blast
  have "masters_ok (S\<lparr>sw := W\<rparr>)"
    by (rule masters_ok_erased [OF W(2) _ ok]) (use W(1) ok in \<open>simp add: masters_ok_def\<close>)
  moreover have "bundle_linked (span_at S a) p (view W)"
    if a: "span_registered (span_at S a)" "p < span_size (span_at S a)" "head (view W) (span_chan (span_at S a) p)" for a p
  proof (cases "span_chan (span_at S a) p = m")
    case True
    then show ?thesis using W(4) a by blast
  next
    case False
    have h: "head (view (sw S)) (span_chan (span_at S a) p)" using a(3) by (simp add: head_def e)
    have "bundle_linked (span_at S a) p (view W) = bundle_linked (span_at S a) p (view (sw S))"
    proof (rule bundle_linked_cong)
      show "mastered_by (int (span_chan (span_at S a) p)) (view W k) = mastered_by (int (span_chan (span_at S a) p)) (view (sw S) k)" for k
        by (rule e)
      show "view W k = view (sw S) k" if "mastered_by (int (span_chan (span_at S a) p)) (view (sw S) k) \<or> k = span_chan (span_at S a) p" for k
      proof -
        have "mastered_by (int (span_chan (span_at S a) p)) (view (sw S) k)" using that h by (auto simp: head_def)
        then have "\<not> mastered_by (int m) (view (sw S) k)" using False by (auto simp: mastered_by_def split: option.splits)
        then show ?thesis using W(3) by blast
      qed
    qed
    then show ?thesis using assms(1) a h False by (simp add: bundles_but_def)
  qed
  ultimately show "bundles_but {} (recalc_chan m S)" by (simp add: T bundles_but_def)
  show "span_at (recalc_chan m S) = span_at S" by (simp add: T)
  show "map_option (lk_next_update (\<lambda>_. 0)) (view (sw (recalc_chan m S)) k) = map_option (lk_next_update (\<lambda>_. 0)) (view (sw S) k)"
    using W(2) by (simp add: T)
qed

text \<open>A channel no other has as its master gets a new one: itself, or a head.\<close>

definition relinked :: "nat \<Rightarrow> link \<Rightarrow> link \<Rightarrow> nat \<Rightarrow> nat \<Rightarrow> dahdi_sys \<Rightarrow> dahdi_sys \<Rightarrow> bool" where
  "relinked n l l' m0 m S T \<longleftrightarrow> bundles_but {} S \<and> n < DAHDI_MAX_CHANNELS \<and> view (sw S) n = Some l \<and> lk_master l = int m0 \<and>
     (\<forall>k < DAHDI_MAX_CHANNELS. k \<noteq> n \<longrightarrow> \<not> mastered_by (int n) (view (sw S) k)) \<and>
     view (sw T) = (view (sw S))(n := Some l') \<and> span_at T = span_at S \<and>
     length (chans (w_sys (sw T))) = length (chans (w_sys (sw S))) \<and>
     lk_pos l' = lk_pos l \<and> lk_span l' = lk_span l \<and> lk_master l' = int m \<and>
     (m = n \<or> m < DAHDI_MAX_CHANNELS \<and> head (view (sw S)) m)"

lemma relinkedD:
  assumes "relinked n l l' m0 m S T"
  shows "bundles_but {} S" "masters_ok S" "n < DAHDI_MAX_CHANNELS" "view (sw S) n = Some l" "lk_master l = int m0"
    "\<And>k. k < DAHDI_MAX_CHANNELS \<Longrightarrow> k \<noteq> n \<Longrightarrow> \<not> mastered_by (int n) (view (sw S) k)"
    "view (sw T) = (view (sw S))(n := Some l')" "span_at T = span_at S"
    "length (chans (w_sys (sw T))) = length (chans (w_sys (sw S)))"
    "lk_pos l' = lk_pos l" "lk_span l' = lk_span l" "lk_master l' = int m"
    "m = n \<or> m < DAHDI_MAX_CHANNELS \<and> head (view (sw S)) m"
    "k \<noteq> n \<Longrightarrow> head (view (sw T)) k = head (view (sw S)) k" "head (view (sw T)) m"
  using assms by (auto simp: relinked_def bundles_but_def head_def mastered_by_def)

lemma relinked_placed:
  assumes "relinked n l l' m0 m S T" "span_registered (span_at S a)"
  shows "placed T a"
proof -
  note R = relinkedD [OF assms(1)]
  note masters = R(2) and alone = R(6) and T = R(7-9) and l' = R(10-12) and m = R(13)
  have p: "placed S a" using masters assms(2) by (simp add: masters_ok_def)
  show ?thesis unfolding placed_def Let_def T(2,3)
  proof (intro conjI allI impI)
    let ?sp = "span_at S a"
    show "inj_on (span_chan ?sp) {..<span_size ?sp}" using p by (simp add: placed_def Let_def)
    fix q assume q: "q < span_size ?sp"
    then obtain k where k: "span_chan ?sp q < length (chans (w_sys (sw S)))" "view (sw S) (span_chan ?sp q) = Some k"
      "lk_pos k = int q + 1" "lk_span k = Some a" using p by (auto simp: placed_def Let_def)
    show "span_chan ?sp q < length (chans (w_sys (sw S)))" by (rule k(1))
    show "\<exists>k. view (sw T) (span_chan ?sp q) = Some k \<and> lk_pos k = int q + 1 \<and> lk_span k = Some a"
    proof (cases "span_chan ?sp q = n")
      case True
      then have "k = l" using k(2) R(4) by simp
      then show ?thesis using True k(3,4) l'(1,2) by (simp add: T(1))
    qed (use k(2-4) in \<open>simp add: T(1)\<close>)
  qed
qed

lemma relinked_masters:
  assumes "relinked n l l' m0 m S T"
  shows "masters_ok T"
  unfolding masters_ok_def
proof (intro conjI allI impI)
  note R = relinkedD [OF assms(1)]
  note masters = R(2) and alone = R(6) and T = R(7-9) and l' = R(10-12) and m = R(13)
  show "length (chans (w_sys (sw T))) = DAHDI_MAX_CHANNELS" using masters T(3) by (simp add: masters_ok_def)
  show "placed T a" if "span_registered (span_at T a)" for a
    using relinked_placed [OF assms] that by (simp add: T(2))
next
  note R = relinkedD [OF assms(1)]
  note masters = R(2) and alone = R(6) and T = R(7-9) and l' = R(10-12) and m = R(13)
  fix k x assume k: "k < DAHDI_MAX_CHANNELS \<and> view (sw T) k = Some x"
  obtain y where y: "view (sw S) k = Some y" "lk_span x = lk_span y" "k \<noteq> n \<longrightarrow> x = y" "k = n \<longrightarrow> x = l'"
    using k R(4) l'(2) by (cases "k = n") (simp_all add: T(1))
  note O = masters [unfolded masters_ok_def, THEN conjunct2, THEN conjunct2, rule_format, OF conjI [OF conjunct1 [OF k] y(1)]]
  show "\<exists>m < DAHDI_MAX_CHANNELS. lk_master x = int m \<and> head (view (sw T)) m"
  proof (cases "k = n")
    case True
    then show ?thesis using y(4) l'(3) R(3,13,15) by auto
  next
    case False
    obtain h where h: "h < DAHDI_MAX_CHANNELS" "lk_master x = int h" "head (view (sw S)) h" using O y(3) False by auto
    have "mastered_by (int h) (view (sw S) k)" using h(2) y(1,3) False by (simp add: mastered_by_def)
    then have "h \<noteq> n" using alone [OF conjunct1 [OF k] False] by blast
    then have "head (view (sw T)) h" using R(14) h(3) by simp
    then show ?thesis using h(1,2) by blast
  qed
  fix a assume a: "lk_span x = Some a"
  show "span_registered (span_at T a)" using O y(2) a by (simp add: T(2))
  show "\<exists>p < span_size (span_at T a). span_chan (span_at T a) p = k" using O y(2) a by (simp add: T(2))
qed

lemma relinked_others:
  assumes "relinked n l l' m0 m S T" "span_registered (span_at S a)" "p < span_size (span_at S a)" "head (view (sw T)) (span_chan (span_at S a) p)"
    and "span_chan (span_at S a) p \<notin> {m0, m, n}"
  shows "bundle_linked (span_at S a) p (view (sw T))"
proof -
  note R = relinkedD [OF assms(1)]
  note masters = R(2) and alone = R(6) and T = R(7-9) and l' = R(10-12) and m = R(13)
  let ?h = "span_chan (span_at S a) p"
  have "bundle_linked (span_at S a) p (view (sw S))"
    using R(1) assms(2-5) R(14) [of "?h"] by (auto simp: bundles_but_def)
  moreover have "\<not> mastered_by (int ?h) (view (sw S) n)" "\<not> mastered_by (int ?h) (Some l')" "n \<noteq> ?h"
    using assms(5) R(4,5) l'(3) by (auto simp: mastered_by_def)
  ultimately show ?thesis using bundle_linked_upd [of "span_at S a" p "view (sw S)" n "Some l'"] by (simp add: T(1))
qed

text \<open>A slave that leaves its bundle is one of its own.\<close>

lemma relinked_left:
  assumes "relinked n l l' m0 n S T" "lk_next l' = 0"
  shows "bundles_but {m0} T"
  unfolding bundles_but_def
proof (intro conjI relinked_masters [OF assms(1)] allI impI, elim conjE, unfold relinkedD(8) [OF assms(1)])
  note R = relinkedD [OF assms(1)]
  note masters = R(2) and alone = R(6) and T = R(7-9) and l' = R(10-12) and m = R(13)
  fix a p assume a: "span_registered (span_at S a)" "p < span_size (span_at S a)" "head (view (sw T)) (span_chan (span_at S a) p)"
    "span_chan (span_at S a) p \<notin> {m0}"
  show "bundle_linked (span_at S a) p (view (sw T))"
  proof (cases "span_chan (span_at S a) p = n")
    case False
    then show ?thesis using relinked_others [OF assms(1) a(1-3)] a(4) by simp
  next
    case True
    have pl: "placed S a" using masters a(1) by (simp add: masters_ok_def)
    have "\<not> mastered_by (int n) (view (sw T) (span_chan (span_at S a) x))" if "x < span_size (span_at S a)" "p < x" for x
    proof -
      have "span_chan (span_at S a) x \<noteq> n"
        using pl that a(2) True inj_onD [of "span_chan (span_at S a)" "{..<span_size (span_at S a)}" x p]
        by (auto simp: placed_def Let_def)
      moreover have "span_chan (span_at S a) x < DAHDI_MAX_CHANNELS"
        using pl that masters by (auto simp: placed_def Let_def masters_ok_def)
      ultimately show ?thesis using alone by (simp add: T(1))
    qed
    then have "bundle_of (span_at S a) p (view (sw T)) = [p]"
      using True by (auto simp: bundle_of_def span_size_def filter_empty_conv)
    then show ?thesis using True assms(2) by (simp add: bundle_linked_def T(1))
  qed
qed

text \<open>A head without slaves that becomes a slave.\<close>

lemma relinked_joined:
  assumes "relinked n l l' n m S T" "m \<noteq> n"
  shows "bundles_but {m} T"
  unfolding bundles_but_def
proof (intro conjI relinked_masters [OF assms(1)] allI impI, elim conjE, unfold relinkedD(8) [OF assms(1)])
  note R = relinkedD [OF assms(1)]
  note masters = R(2) and alone = R(6) and T = R(7-9) and l' = R(10-12) and m = R(13)
  fix a p assume a: "span_registered (span_at S a)" "p < span_size (span_at S a)" "head (view (sw T)) (span_chan (span_at S a) p)"
    "span_chan (span_at S a) p \<notin> {m}"
  have "\<not> head (view (sw T)) n" using assms(2) l'(3) by (simp add: head_def T(1) mastered_by_def)
  then show "bundle_linked (span_at S a) p (view (sw T))" using relinked_others [OF assms(1) a(1-3)] a(3,4) by auto
qed

section \<open>Operations that leave the links alone\<close>

lemma bundles_but_cong:
  assumes "view (sw T) = view (sw S)" "length (chans (w_sys (sw T))) = length (chans (w_sys (sw S)))"
    and "\<And>a. span_registered (span_at T a) = span_registered (span_at S a) \<and> sp_chans (span_at T a) = sp_chans (span_at S a)"
  shows "bundles_but M T = bundles_but M S"
proof -
  have s: "span_chan (span_at T a) = span_chan (span_at S a)" "span_size (span_at T a) = span_size (span_at S a)" for a
    using assms(3) by (auto simp: span_chan_def span_size_def)
  have b: "bundle_linked (span_at T a) p v = bundle_linked (span_at S a) p v" for a p v
    using assms(3) by (simp add: bundle_linked_def bundle_of_def s)
  have p: "placed T a = placed S a" for a by (simp add: placed_def Let_def s assms(1,2))
  have m: "masters_ok T = masters_ok S" using assms by (simp add: masters_ok_def p s)
  show ?thesis using assms by (simp add: bundles_but_def m b s)
qed

lemma upd_ch_sel [simp]: "span_at (upd_ch n f S) = span_at S" "length (chans (w_sys (sw (upd_ch n f S)))) = length (chans (w_sys (sw S)))"
  "spans (upd_ch n f S) = spans S"
  by (simp_all add: upd_ch_def)

lemma view_upd_ch:
  "n < length (chans (w_sys (sw S))) \<Longrightarrow> view (sw (upd_ch n f S)) = (view (sw S))(n := map_option (links \<circ> f) (w_chan (sw S) n))"
  by (simp add: upd_ch_def link_view_upd)

lemma view_keeps: "(\<And>c. links (f c) = links c) \<Longrightarrow> view (sw (upd_ch n f S)) = view (sw S)"
proof -
  assume f: "\<And>c. links (f c) = links c"
  show ?thesis
  proof (cases "n < length (chans (w_sys (sw S)))")
    case True
    then show ?thesis by (simp add: view_upd_ch comp_def f) (simp add: fun_eq_iff view_def)
  next
    case False
    then have "w_upd n f (sw S) = sw S" by (simp add: w_upd_def upd_chan_def list_update_beyond not_less)
    then show ?thesis by (simp add: upd_ch_def)
  qed
qed

lemma bundles_upd_ch: "(\<And>c. links (f c) = links c) \<Longrightarrow> bundles_but M (upd_ch n f S) = bundles_but M S"
  by (rule bundles_but_cong) (simp_all add: view_keeps)

lemma set_chan_upd_ch: "set_chan n c S = upd_ch n (\<lambda>_. c) S"
  by (simp add: set_chan_def upd_ch_def)

lemma links_flag [simp]: "links (set_flag F c) = links c" "links (clear_flag F c) = links c" "links (put_flag F b c) = links c"
  "links (emit e c) = links c"
  by (simp_all add: links_def set_flag_def clear_flag_def put_flag_def emit_def)

lemma links_hangup [simp]: "links (snd (dahdi_hangup span drv c)) = links c"
proof -
  have s: "links (dahdi_rbs_sethook span tsig st t c) = links c" for tsig st t c
    by (simp add: dahdi_rbs_sethook_def Let_def links_def emit_def set_txtone_def split: option.split)
  have r: "links (c\<lparr>ringdebtimer := t\<rparr>) = links c" "links (c\<lparr>kewlonhook := b\<rparr>) = links c" "links (c\<lparr>txsig := t\<rparr>) = links c"
    "links (c\<lparr>txhooksig := t\<rparr>) = links c" "links (hangup_buffers c) = links c" for c t b
    by (simp_all add: links_def hangup_buffers_def Let_def)
  have h: "links (snd (hangup_signal span drv c)) = links c" for c
    by (simp add: hangup_signal_def dahdi_cas_setbits_def r s)
  show ?thesis by (simp add: dahdi_hangup_def Let_def split_beta r h)
qed

lemma links_config [simp]: "links (config_sig s idle c) = links c" "links (config_hard s c) = links c"
  "links (config_hangup span drv c) = links c" "links (start_chan span drv c) = links c"
  "config_dacs dacs_of s idle S c = Some d \<Longrightarrow> links d = links c"
proof -
  have r: "links (c\<lparr>sig := s, idlebits := i\<rparr>) = links c" "links (c\<lparr>rxsig := i\<rparr>) = links c" "links (c\<lparr>rxhooksig := h\<rparr>) = links c"
    "links (c\<lparr>rxsig := i, rxhooksig := h\<rparr>) = links c" "links (c\<lparr>confmode := i, confna := k\<rparr>) = links c" for c s i h k
    by (simp_all add: links_def)
  show "links (config_sig s idle c) = links c" by (simp add: config_sig_def Let_def r)
  show "links (config_hard s c) = links c" by (simp add: config_hard_def Let_def)
  show "links (config_hangup span drv c) = links c" by (simp add: config_hangup_def Let_def r)
  show "links (start_chan span drv c) = links c" by (simp add: start_chan_def Let_def r)
  assume "config_dacs dacs_of s idle S c = Some d"
  then show "links d = links c" unfolding config_dacs_def Let_def by (auto simp: r split: if_splits option.splits)
qed

section \<open>Configuring a channel\<close>

definition slaveless :: "dahdi_sys \<Rightarrow> nat \<Rightarrow> bool" where
  "slaveless S n \<longleftrightarrow> (\<forall>k < DAHDI_MAX_CHANNELS. k \<noteq> n \<longrightarrow> \<not> mastered_by (int n) (view (sw S) k))"

lemma masters_okD:
  "masters_ok S \<Longrightarrow> n < DAHDI_MAX_CHANNELS \<Longrightarrow> view (sw S) n = Some l \<Longrightarrow>
    \<exists>m < DAHDI_MAX_CHANNELS. lk_master l = int m \<and> head (view (sw S)) m"
  unfolding masters_ok_def by blast

lemma unlink_ok:
  assumes ok: "bundles_but {} S" and n: "n < DAHDI_MAX_CHANNELS" "the_chan n S = Some c"
  shows "bundles_but {} (unlink_slave n c S)" "span_at (unlink_slave n c S) = span_at S"
    "\<And>m k. mastered_by m (view (sw (unlink_slave n c S)) k) = (if k = n then m = int n else mastered_by m (view (sw S) k))"
    "\<exists>d. the_chan n (unlink_slave n c S) = Some d \<and> chan_span d = chan_span c"
proof -
  have vn: "view (sw S) n = Some (links c)" "w_chan (sw S) n = Some c" using n(2) by (simp_all add: view_def the_chan_def)
  have len: "n < length (chans (w_sys (sw S)))" using ok n(1) by (simp add: bundles_but_def masters_ok_def)
  have "bundles_but {} (unlink_slave n c S) \<and> span_at (unlink_slave n c S) = span_at S \<and>
    (\<forall>m k. mastered_by m (view (sw (unlink_slave n c S)) k) = (if k = n then m = int n else mastered_by m (view (sw S) k))) \<and>
    (\<exists>d. the_chan n (unlink_slave n c S) = Some d \<and> chan_span d = chan_span c)"
  proof (cases "master c = int n")
    case True
    then have "unlink_slave n c S = S" by (simp add: unlink_slave_def)
    then show ?thesis using ok vn n(2) True by (auto simp: mastered_by_def links_def)
  next
    case False
    obtain m0 where m0: "m0 < DAHDI_MAX_CHANNELS" "master c = int m0" "head (view (sw S)) m0"
      using masters_okD [OF _ n(1) vn(1)] ok by (auto simp: bundles_but_def links_def)
    define U where "U = upd_ch n (\<lambda>c. c\<lparr>master := int n, nextslave := 0\<rparr>) S"
    have U: "unlink_slave n c S = recalc_chan m0 U" using False m0(2) by (simp add: unlink_slave_def U_def)
    have vU: "view (sw U) = (view (sw S))(n := Some ((links c)\<lparr>lk_master := int n, lk_next := 0\<rparr>))"
      using len vn(2) by (simp add: U_def view_upd_ch) (simp add: links_def)
    have nh: "\<not> mastered_by (int n) (view (sw S) k)" if "k < DAHDI_MAX_CHANNELS" for k
    proof
      assume "mastered_by (int n) (view (sw S) k)"
      then obtain l where "view (sw S) k = Some l" "lk_master l = int n" by (auto simp: mastered_by_def split: option.splits)
      then have "head (view (sw S)) n" using masters_okD [OF _ that] ok by (fastforce simp: bundles_but_def)
      then show False using vn(1) False by (simp add: head_def mastered_by_def links_def)
    qed
    have R: "relinked n (links c) ((links c)\<lparr>lk_master := int n, lk_next := 0\<rparr>) m0 n S U"
      using ok n(1) vn(1) m0(2) vU nh by (simp add: relinked_def U_def links_def)
    have b: "bundles_but {m0} U" by (rule relinked_left [OF R]) simp
    have ne: "m0 \<noteq> n" using False m0(2) by simp
    have h: "head (view (sw U)) m0" using m0(3) ne by (simp add: head_def vU)
    note C = recalc_restores [OF b m0(1) h]
    have e: "mastered_by x (view (sw (recalc_chan m0 U)) k) = mastered_by x (view (sw U) k)" for x k
      by (rule erased_mastered [OF C(3)])
    have s: "mastered_by x (view (sw U) k) = (if k = n then x = int n else mastered_by x (view (sw S) k))" for x k
      by (simp add: vU mastered_by_def eq_commute)
    have Un: "view (sw U) n = Some ((links c)\<lparr>lk_master := int n, lk_next := 0\<rparr>)" by (simp add: vU)
    obtain l where l: "view (sw (recalc_chan m0 U)) n = Some l" "lk_span l = chan_span c"
      using erasedD [OF C(3) Un] by (auto simp: links_def)
    then obtain d where "the_chan n (recalc_chan m0 U) = Some d" "chan_span d = chan_span c"
      by (auto simp: view_def the_chan_def links_def)
    then show ?thesis unfolding U using C(1,2) e s by (auto simp: U_def)
  qed
  then show "bundles_but {} (unlink_slave n c S)" "span_at (unlink_slave n c S) = span_at S"
    "\<And>m k. mastered_by m (view (sw (unlink_slave n c S)) k) = (if k = n then m = int n else mastered_by m (view (sw S) k))"
    "\<exists>d. the_chan n (unlink_slave n c S) = Some d \<and> chan_span d = chan_span c" by blast+
qed

lemma config_apply_ok:
  assumes ok: "bundles_but {} S" and n: "nat (cc_chan ch) < DAHDI_MAX_CHANNELS" "head (view (sw S)) (nat (cc_chan ch))"
    and m: "m = nat (cc_chan ch) \<or> m < DAHDI_MAX_CHANNELS \<and> head (view (sw S)) m \<and> slaveless S (nat (cc_chan ch))"
    and T: "config_apply E s m ch S = Some T"
  shows "bundles_but {} T" "span_at T = span_at S"
proof -
  define k where "k = nat (cc_chan ch)"
  obtain c where c: "the_chan k S = Some c" "master c = int k"
    using n(2) by (auto simp: head_def mastered_by_def view_def the_chan_def links_def k_def split: option.splits)
  obtain d where d: "config_dacs (ce_dacs E) s (cc_idlebits ch) S (config_sig s (cc_idlebits ch) c) = Some d"
    using T c(1) by (auto simp: config_apply_def k_def Let_def split: option.splits)
  have ld: "links d = links c" using d by simp
  define D where "D = set_chan k (d\<lparr>master := int m\<rparr>) S"
  define R where "R = (if m \<noteq> k then recalc_chan m D else D)"
  have T': "T = upd_ch k (config_hard s) R"
    using T c(1) d unfolding config_apply_def k_def [symmetric] R_def D_def by (simp add: Let_def)
  have len: "k < length (chans (w_sys (sw S)))" using ok n(1) by (simp add: bundles_but_def masters_ok_def k_def)
  have vS: "view (sw S) k = Some (links c)" "w_chan (sw S) k = Some c" using c(1) by (simp_all add: view_def the_chan_def)
  have vD: "view (sw D) = (view (sw S))(k := Some ((links c)\<lparr>lk_master := int m\<rparr>))"
    using len vS(2) ld by (simp add: D_def set_chan_upd_ch view_upd_ch) (simp add: links_def)
  have sD: "span_at D = span_at S" "length (chans (w_sys (sw D))) = length (chans (w_sys (sw S)))"
    by (simp_all add: D_def set_chan_upd_ch)
  have "bundles_but {} R \<and> span_at R = span_at S"
  proof (cases "m = k")
    case True
    have "(links c)\<lparr>lk_master := int m\<rparr> = links c" using True c(2) by (simp add: links_def)
    then have "view (sw D) = view (sw S)" using vD vS(1) by (simp add: fun_upd_idem)
    then have "bundles_but {} D" using ok bundles_but_cong [of D S "{}"] sD by simp
    then show ?thesis using True sD by (simp add: R_def)
  next
    case False
    then have m': "m < DAHDI_MAX_CHANNELS" "head (view (sw S)) m" "slaveless S k" using m by (simp_all add: k_def)
    have "relinked k (links c) ((links c)\<lparr>lk_master := int m\<rparr>) k m S D"
      using ok n(1) vS(1) c(2) vD sD m' by (simp add: relinked_def links_def slaveless_def k_def)
    then have b: "bundles_but {m} D" by (rule relinked_joined) (rule False)
    have h: "head (view (sw D)) m" using m'(2) False by (simp add: head_def vD)
    show ?thesis using recalc_restores(1,2) [OF b m'(1) h] False sD by (simp add: R_def)
  qed
  then show "bundles_but {} T" "span_at T = span_at S" by (simp_all add: T' bundles_upd_ch)
qed

text \<open>A request that keeps the bundles flat: a new slave has no slaves, and its master is no slave.\<close>

definition flat_request :: "chanconfig \<Rightarrow> dahdi_sys \<Rightarrow> bool" where
  "flat_request ch S \<longleftrightarrow> cc_sigtype ch = SIG_SLAVE \<longrightarrow>
     nat (cc_master ch) = nat (cc_chan ch) \<or> head (view (sw S)) (nat (cc_master ch)) \<and> slaveless S (nat (cc_chan ch))"

text \<open>The ways a request can end.\<close>

lemma chanconfig_cases:
  assumes "ioctl_chanconfig E ch S = Some (r, T)"
  obtains (refused) "T = S"
  | (unsupported) c where "nat (cc_chan ch) < DAHDI_MAX_CHANNELS" "the_chan (nat (cc_chan ch)) S = Some c"
      "T = unlink_slave (nat (cc_chan ch)) c S"
  | (applied) c a s m V f where "nat (cc_chan ch) < DAHDI_MAX_CHANNELS" "the_chan (nat (cc_chan ch)) S = Some c" "chan_span c = Some a"
      "config_target ch S = Inr (s, m)" "config_apply E s m ch (unlink_slave (nat (cc_chan ch)) c S) = Some V"
      "T = upd_ch (nat (cc_chan ch)) f V" "\<And>c. links (f c) = links c" "\<And>c. sig (f c) = sig c" "\<And>c. cflags (f c) = cflags c"
proof (cases "valid_channel (cc_chan ch) S")
  case (Inl e)
  then show ?thesis using assms by (auto simp: ioctl_chanconfig_def intro: refused)
next
  case (Inr c)
  define n where "n = nat (cc_chan ch)"
  have n: "n < DAHDI_MAX_CHANNELS" "the_chan n S = Some c"
    using Inr by (auto simp: valid_channel_def n_def split: if_splits option.splits)
  show ?thesis
  proof (cases "config_target ch S")
    case (Inl e)
    then show ?thesis using assms \<open>valid_channel (cc_chan ch) S = Inr c\<close> by (auto simp: ioctl_chanconfig_def intro: refused)
  next
    case (Inr sm)
    obtain s m where sm: "sm = (s, m)" by fastforce
    have i: "upd_ch n (\<lambda>c. c) V = V" for V
      by (simp add: upd_ch_def w_upd_def upd_chan_def option.map_ident list_update_id)
    have l: "links (c\<lparr>deflaw := k\<rparr>) = links c" for c k by (simp add: links_def)
    have u: "upd_ch n g (upd_ch n f V) = upd_ch n (g \<circ> f) V" for f g V
      by (cases "n < length (chans (w_sys (sw V)))") (simp_all add: upd_ch_def w_upd_def upd_chan_def option.map_comp list_update_beyond not_less)
    have h: "sig (config_hangup span drv c) = sig c" "cflags (config_hangup span drv c) = cflags c" for span drv c
      using hangup_keeps [of c span drv] by (simp_all add: config_hangup_def Let_def plain_def)
    consider "T = S" | "T = unlink_slave n c S" | V a where "chan_span c = Some a" "config_apply E s m ch (unlink_slave n c S) = Some V"
        "T = V \<or> T = upd_ch n (\<lambda>c. c\<lparr>deflaw := cc_deflaw ch\<rparr>) V \<or>
         (\<exists>span. T = upd_ch n (config_hangup span (ce_drv E)) (upd_ch n (\<lambda>c. c\<lparr>deflaw := cc_deflaw ch\<rparr>) V))"
      using assms Inr sm \<open>valid_channel (cc_chan ch) S = Inr c\<close> unfolding ioctl_chanconfig_def n_def [symmetric] Let_def
      by (auto split: if_splits option.splits)
    then show ?thesis
    proof cases
      case 3
      note A = applied [folded n_def, OF n 3(1) Inr [unfolded sm] 3(2)]
      from 3(3) show ?thesis
      proof (elim disjE exE)
        assume "T = V"
        then show ?thesis by (intro A [of "\<lambda>c. c"]) (simp_all add: i)
      next
        assume "T = upd_ch n (\<lambda>c. c\<lparr>deflaw := cc_deflaw ch\<rparr>) V"
        then show ?thesis by (rule A) (simp_all add: l)
      next
        fix span assume "T = upd_ch n (config_hangup span (ce_drv E)) (upd_ch n (\<lambda>c. c\<lparr>deflaw := cc_deflaw ch\<rparr>) V)"
        then have "T = upd_ch n (config_hangup span (ce_drv E) \<circ> (\<lambda>c. c\<lparr>deflaw := cc_deflaw ch\<rparr>)) V" by (simp only: u)
        then show ?thesis by (rule A) (simp_all add: l h)
      qed
    qed (use n in \<open>auto simp: n_def intro: refused unsupported\<close>)
  qed
qed

lemma chanconfig_bundles:
  assumes ok: "bundles_but {} S" and f: "flat_request ch S" and T: "ioctl_chanconfig E ch S = Some (r, T)"
  shows "bundles_but {} T \<and> span_at T = span_at S"
  using T
proof (cases rule: chanconfig_cases)
  case (unsupported c)
  then show ?thesis using unlink_ok(1,2) [OF ok unsupported(1,2)] by simp
next
  case (applied c a s m V g)
  define n where "n = nat (cc_chan ch)"
  define U where "U = unlink_slave n c S"
  note O = unlink_ok [OF ok applied(1,2), folded n_def, folded U_def]
  have m: "m = n \<or> m < DAHDI_MAX_CHANNELS \<and> head (view (sw U)) m \<and> slaveless U n"
  proof (cases "cc_sigtype ch = SIG_SLAVE")
    case True
    then have m: "m = nat (cc_master ch)" "m < DAHDI_MAX_CHANNELS"
      using applied(4) by (auto simp: config_target_def split: if_splits option.splits)
    show ?thesis
    proof (cases "m = n")
      case False
      then have "head (view (sw S)) m" "slaveless S n" using f True m(1) by (simp_all add: flat_request_def n_def)
      then show ?thesis using m(2) False O(3) by (simp add: head_def slaveless_def)
    qed simp
  qed (use applied(4) in \<open>auto simp: config_target_def n_def split: if_splits\<close>)
  have h: "head (view (sw U)) n" using O(3) by (simp add: head_def)
  note A = config_apply_ok [OF O(1), of ch, folded n_def, OF applied(1) [folded n_def] h m applied(5) [folded n_def, folded U_def]]
  show ?thesis using A O(2) bundles_upd_ch [OF applied(7)] by (simp add: applied(6))
qed (use ok in simp)

text \<open>The other operations of the configuration: on spans, on parameters of channels.\<close>

lemma links_params [simp]: "links (set_timing p c) = links c" "links (sf_apply sf c) = links c" "links (apply_gains rx tx c) = links c"
  by (simp_all add: links_def set_timing_def sf_apply_def apply_gains_def Let_def set_txtone_def)

lemma bundles_upd_span:
  assumes "\<And>sp. span_registered (g sp) = span_registered sp \<and> sp_chans (g sp) = sp_chans sp"
  shows "bundles_but M (upd_span a g S) = bundles_but M S"
  by (rule bundles_but_cong) (simp_all add: upd_span_def assms)

lemma set_running_keeps: "span_registered (set_running b sp) = span_registered sp \<and> sp_chans (set_running b sp) = sp_chans sp"
  by (simp add: set_running_def bit_or_iff bit_and_iff bit_not_iff bit_exp_iff)

lemma startup_bundles:
  assumes "keeps_registration start" "bundles_but {} S"
  shows "bundles_but {} (snd (ioctl_startup start ok drv j S))"
proof (cases "valid_span j S")
  case (Inr a)
  have f: "bundles_but {} (fold (\<lambda>n. upd_ch (nat n) (start_chan sp drv)) ns X) = bundles_but {} X" for ns X sp
    by (induction ns arbitrary: X) (simp_all add: bundles_upd_ch)
  have k: "bundles_but {} (upd_span a start S)"
    using assms bundles_upd_span [of start "{}" a S] by (simp add: keeps_registration_def)
  have g: "bundles_but {} (upd_span a (set_running b) X) = bundles_but {} X" for b X
    by (rule bundles_upd_span) (rule set_running_keeps)
  show ?thesis using k assms(2) by (simp add: ioctl_startup_def Inr Let_def f g)
qed (use assms(2) in \<open>simp add: ioctl_startup_def\<close>)

lemma shutdown_bundles:
  assumes "keeps_registration shut" "bundles_but {} S"
  shows "bundles_but {} (snd (ioctl_shutdown shut j S))"
proof (cases "valid_span j S")
  case (Inr a)
  have k: "bundles_but {} (upd_span a shut S)"
    using assms bundles_upd_span [of shut "{}" a S] by (simp add: keeps_registration_def)
  have g: "bundles_but {} (upd_span a (set_running b) X) = bundles_but {} X" for b X
    by (rule bundles_upd_span) (rule set_running_keeps)
  show ?thesis using k by (simp add: ioctl_shutdown_def Inr g)
qed (use assms(2) in \<open>simp add: ioctl_shutdown_def\<close>)

text \<open>
  What the control device does to registered channels, all their own masters at first, as long as only heads are made masters
  and only channels without slaves are made slaves.
\<close>

inductive config_step :: "dahdi_sys \<Rightarrow> dahdi_sys \<Rightarrow> bool" where
  chanconfig: "flat_request ch S \<Longrightarrow> ioctl_chanconfig E ch S = Some (r, T) \<Longrightarrow> config_step S T"
| startup: "keeps_registration start \<Longrightarrow> config_step S (snd (ioctl_startup start ok drv j S))"
| shutdown: "keeps_registration shut \<Longrightarrow> config_step S (snd (ioctl_shutdown shut j S))"
| sfconfig: "config_step S (snd (ioctl_sfconfig j sf S))"
| set_params: "config_step S (snd (ioctl_set_params p k unit S))"
| setgains: "ioctl_setgains kz kz2 cp k rx tx unit S = Some (r, T) \<Longrightarrow> config_step S T"

definition unbundled :: "dahdi_sys \<Rightarrow> bool" where
  "unbundled S \<longleftrightarrow> masters_ok S \<and>
     (\<forall>n < DAHDI_MAX_CHANNELS. \<forall>c. the_chan n S = Some c \<longrightarrow> master c = int n \<and> nextslave c = 0)"

inductive configured :: "dahdi_sys \<Rightarrow> bool" where
  start: "unbundled S \<Longrightarrow> configured S"
| step: "configured S \<Longrightarrow> config_step S T \<Longrightarrow> configured T"

lemma unbundled_bundles:
  assumes u: "unbundled S"
  shows "bundles_but {} S"
proof -
  have m: "masters_ok S" using u by (simp add: unbundled_def)
  show ?thesis
    unfolding bundles_but_def
  proof (intro conjI m allI impI, elim conjE)
  fix a p assume a: "span_registered (span_at S a)" "p < span_size (span_at S a)" "head (view (sw S)) (span_chan (span_at S a) p)"
  let ?sp = "span_at S a"
  have pl: "placed S a" using m a(1) by (simp add: masters_ok_def)
  have lt: "span_chan ?sp x < DAHDI_MAX_CHANNELS" if "x < span_size ?sp" for x
    using pl that m by (auto simp: placed_def Let_def masters_ok_def)
  have ms: "mastered_by (int (span_chan ?sp p)) (view (sw S) (span_chan ?sp x)) \<longleftrightarrow> x = p" if "x < span_size ?sp" for x
  proof -
    obtain l where "view (sw S) (span_chan ?sp x) = Some l" using pl \<open>x < span_size ?sp\<close> by (auto simp: placed_def Let_def)
    then have "mastered_by (int (span_chan ?sp x)) (view (sw S) (span_chan ?sp x))" "lk_master l = int (span_chan ?sp x)"
      using u lt [OF that] by (auto simp: unbundled_def mastered_by_def view_def the_chan_def links_def)
    moreover have "span_chan ?sp x = span_chan ?sp p \<longleftrightarrow> x = p"
      using pl a(2) that inj_onD [of "span_chan ?sp" "{..<span_size ?sp}" x p] by (auto simp: placed_def Let_def)
    ultimately show ?thesis using \<open>view (sw S) (span_chan ?sp x) = Some l\<close> by (auto simp: mastered_by_def)
  qed
  have "bundle_of ?sp p (view (sw S)) = [p]"
    using ms by (auto simp: bundle_of_def filter_empty_conv span_size_def)
  moreover obtain c where "the_chan (span_chan ?sp p) S = Some c" "nextslave c = 0"
    using a(3) u lt [OF a(2)] by (auto simp: unbundled_def head_def mastered_by_def view_def the_chan_def split: option.splits)
  ultimately show "bundle_linked ?sp p (view (sw S))" by (simp add: bundle_linked_def view_def the_chan_def links_def)
qed
qed

lemma config_step_bundles: "config_step S T \<Longrightarrow> bundles_but {} S \<Longrightarrow> bundles_but {} T"
proof (induction rule: config_step.induct)
  case (chanconfig ch S E r T)
  then show ?case using chanconfig_bundles by blast
next
  case (sfconfig S j sf)
  then show ?case by (simp add: ioctl_sfconfig_def bundles_upd_ch split: sum.split)
next
  case (set_params S p k unit)
  then show ?case by (simp add: ioctl_set_params_def bundles_upd_ch split: sum.split)
next
  case (setgains kz kz2 cp k rx tx unit S r T)
  then show ?case by (auto simp: ioctl_setgains_def bundles_upd_ch split: if_splits option.splits sum.splits)
qed (simp_all add: startup_bundles shutdown_bundles)

lemma configured_bundles: "configured S \<Longrightarrow> bundles_but {} S"
  by (induction rule: configured.induct) (use unbundled_bundles config_step_bundles in blast)+

text \<open>C12. However channels are configured, as long as only heads get slaves, a bundle is what the masters say: the chain that a tick
  follows from a channel that is its own master ends, and goes through that channel and exactly those after it in the span whose
  master it is, in the order of the span; and the master of every channel is its own master.\<close>

theorem bundles_linked:
  assumes S: "configured S" and a: "span_registered (span_at S a)" "p < length (sp_chans (span_at S a))"
    and c: "the_chan (span_chan (span_at S a) p) S = Some c" "master c = int (span_chan (span_at S a) p)"
  shows "chain_at (span_at S a) p (sw S) = Some (p # filter (\<lambda>x. \<exists>d. the_chan (span_chan (span_at S a) x) S = Some d \<and>
      master d = int (span_chan (span_at S a) p)) [Suc p..<length (sp_chans (span_at S a))]) \<and>
    (\<forall>n d. n < 1024 \<and> the_chan n S = Some d \<longrightarrow> (\<exists>m e. master d = int m \<and> the_chan m S = Some e \<and> master e = int m))"
proof (intro conjI allI impI)
  let ?sp = "span_at S a"
  have b: "bundles_but {} S" using S by (rule configured_bundles)
  have m: "mastered_by k (view (sw S) n) \<longleftrightarrow> (\<exists>d. the_chan n S = Some d \<and> master d = k)" for k n
    by (auto simp: mastered_by_def view_def the_chan_def links_def split: option.splits)
  have h: "head (view (sw S)) (span_chan ?sp p)" using c by (simp add: head_def m)
  have l: "linked (\<lambda>z. view (sw S) (span_chan ?sp z)) (bundle_of ?sp p (view (sw S)))"
    using b a h by (simp add: bundles_but_def bundle_linked_def span_size_def)
  have n: "length (bundle_of ?sp p (view (sw S))) \<le> length (sp_chans ?sp)"
  proof -
    have "Suc (length (filter P [Suc p..<length (sp_chans ?sp)])) \<le> length (sp_chans ?sp)" for P
    proof -
      have "length (filter P [Suc p..<length (sp_chans ?sp)]) \<le> length (sp_chans ?sp) - Suc p"
        using length_filter_le [of P "[Suc p..<length (sp_chans ?sp)]"] by simp
      then show ?thesis using a(2) by linarith
    qed
    then show ?thesis by (simp add: bundle_of_def)
  qed
  have "hd (bundle_of ?sp p (view (sw S))) = p" by (simp add: bundle_of_def)
  then show "chain_at ?sp p (sw S) = Some (p # filter (\<lambda>x. \<exists>d. the_chan (span_chan ?sp x) S = Some d \<and>
      master d = int (span_chan ?sp p)) [Suc p..<length (sp_chans ?sp)])"
    using linked_chain [OF l n] by (simp add: chain_at_def bundle_of_def m)
  fix n d assume d: "n < 1024 \<and> the_chan n S = Some d"
  then have v: "view (sw S) n = Some (links d)" by (simp add: view_def the_chan_def)
  obtain k where "master d = int k" "head (view (sw S)) k"
    using masters_okD [OF _ _ v] b d by (auto simp: bundles_but_def links_def)
  then show "\<exists>m e. master d = int m \<and> the_chan m S = Some e \<and> master e = int m" by (auto simp: head_def m)
qed

section \<open>The mode of a configured channel\<close>

text \<open>Linking slaves changes nothing but the links.\<close>

definition unlinked :: "dahdi_chan \<Rightarrow> dahdi_chan" where
  "unlinked c = c\<lparr>nextslave := 0\<rparr>"

lemma unlinked_upd: "map_option unlinked (w_chan (w_upd x (nextslave_update f) w) k) = map_option unlinked (w_chan w k)"
  by (cases "x < length (chans (w_sys w))")
    (auto simp: w_chan_def w_upd_def upd_chan_def nth_list_update option.map_comp comp_def unlinked_def list_update_beyond not_less
      intro: option.map_cong)

lemma unlinked_links:
  "fold (link_slave sp m) xs (q, w) = (r, w') \<Longrightarrow> map_option unlinked (w_chan w' k) = map_option unlinked (w_chan w k)"
proof (induction xs arbitrary: q w)
  case (Cons x xs)
  obtain q1 w1 where s: "link_slave sp m x (q, w) = (q1, w1)" by fastforce
  have "map_option unlinked (w_chan w1 k) = map_option unlinked (w_chan w k)"
    using s by (auto simp: link_slave_def unlinked_upd split: option.splits if_splits)
  then show ?case using Cons s by simp
qed simp

lemma unlinked_recalc: "map_option unlinked (the_chan k (recalc_chan n S)) = map_option unlinked (the_chan k S)"
proof -
  have "map_option unlinked (w_chan (recalc_slaves sp p w) k) = map_option unlinked (w_chan w k)" for sp p w
    by (auto simp: recalc_slaves_def unlinked_upd unlinked_links split: option.split prod.split)
  then show ?thesis by (simp add: recalc_chan_def the_chan_def split: option.split)
qed

lemma recalc_chan_length [simp]: "length (chans (w_sys (sw (recalc_chan n S)))) = length (chans (w_sys (sw S)))"
proof -
  have f: "length (chans (w_sys w')) = length (chans (w_sys w))" if "fold (link_slave sp m) xs (q, w) = (r, w')" for sp m xs q w r w'
    using that
  proof (induction xs arbitrary: q w)
    case (Cons x xs)
    obtain q1 w1 where s: "link_slave sp m x (q, w) = (q1, w1)" by fastforce
    have "length (chans (w_sys w1)) = length (chans (w_sys w))"
      using s by (auto simp: link_slave_def split: option.splits if_splits)
    then show ?case using Cons s by simp
  qed simp
  show ?thesis by (auto simp: recalc_chan_def recalc_slaves_def f split: option.split prod.split)
qed

lemma unlinkedE:
  assumes "map_option unlinked x = map_option unlinked y" "y = Some c"
  obtains d where "x = Some d" "unlinked d = unlinked c"
  using assms by (cases x) auto

lemma unlinked_settings:
  assumes "unlinked d = unlinked c"
  shows "idlebits d = idlebits c" "deflaw d = deflaw c" "rxhooksig d = rxhooksig c" "confmode d = confmode c" "confna d = confna c"
proof -
  have "idlebits (unlinked d) = idlebits (unlinked c)" "deflaw (unlinked d) = deflaw (unlinked c)"
    "rxhooksig (unlinked d) = rxhooksig (unlinked c)" "confmode (unlinked d) = confmode (unlinked c)"
    "confna (unlinked d) = confna (unlinked c)" using assms by simp_all
  then show "idlebits d = idlebits c" "deflaw d = deflaw c" "rxhooksig d = rxhooksig c" "confmode d = confmode c" "confna d = confna c"
    by (simp_all add: unlinked_def)
qed

lemma unlinked_fields:
  assumes "unlinked d = unlinked c"
  shows "sig d = sig c" "cflags d = cflags c" "master d = master c" "chan_span d = chan_span c" "sigcap d = sigcap c"
proof -
  have "sig (unlinked d) = sig (unlinked c)" "cflags (unlinked d) = cflags (unlinked c)" "master (unlinked d) = master (unlinked c)"
    "chan_span (unlinked d) = chan_span (unlinked c)" "sigcap (unlinked d) = sigcap (unlinked c)" using assms by simp_all
  then show "sig d = sig c" "cflags d = cflags c" "master d = master c" "chan_span d = chan_span c" "sigcap d = sigcap c"
    by (simp_all add: unlinked_def)
qed

lemma the_chan_upd_ch:
  "n < length (chans (w_sys (sw S))) \<Longrightarrow> the_chan k (upd_ch n f S) = (if k = n then map_option f (the_chan n S) else the_chan k S)"
  by (simp add: the_chan_def upd_ch_def w_chan_upd)

lemma config_sig_flags:
  "flagged (config_sig s i c) F \<longleftrightarrow>
     (if F = FLAGBIT_CLEAR then has_bits s SIG_CLEAR else if F = FLAGBIT_AUDIO then \<not> has_bits s SIG_CLEAR
      else if F = FLAGBIT_HDLC then has_bits s SIG_HDLCRAW else if F = FLAGBIT_FCS then has_bits s SIG_HDLCFCS
      else flagged c F)" "sig (config_sig s i c) = s"
  by (auto simp: config_sig_def Let_def put_flag_def flagged_set_flag flagged_clear_flag)
    (simp_all add: set_flag_def clear_flag_def)

lemma config_hard_flags:
  "flagged (config_hard s c) F \<longleftrightarrow>
     (if F = FLAGBIT_MTP2 then has_bits s SIG_MTP2 else if F = FLAGBIT_NOSTDTXRX then has_bits s SIG_HARDHDLC
      else flagged c F \<and> \<not> (has_bits s SIG_HARDHDLC \<and> (F = FLAGBIT_HDLC \<or> F = FLAGBIT_FCS)))"
  "sig (config_hard s c) = sig c" "master (config_hard s c) = master c"
  by (auto simp: config_hard_def Let_def put_flag_def flagged_set_flag flagged_clear_flag)
    (simp_all add: set_flag_def clear_flag_def)

lemma config_dacs_keeps:
  "config_dacs dacs_of s i S c = Some d \<Longrightarrow> sig d = sig c \<and> cflags d = cflags c \<and> idlebits d = idlebits c \<and> deflaw d = deflaw c \<and>
     rxhooksig d = rxhooksig c \<and>
     (if has_bits s SIG_MASK_DACS then confmode d = CONF_DIGITALMON \<and> confna d = i else confmode d = confmode c \<and> confna d = confna c)"
  unfolding config_dacs_def Let_def by (auto simp: emit_def split: if_splits option.splits)

definition settings :: "dahdi_chan \<Rightarrow> int \<times> int" where
  "settings c = (idlebits c, deflaw c)"

lemma settings_hangup: "settings (snd (dahdi_hangup span drv c)) = settings c"
proof -
  have s: "settings (dahdi_rbs_sethook span tsig st t c) = settings c" for tsig st t c
    by (simp add: dahdi_rbs_sethook_def Let_def settings_def emit_def set_txtone_def split: option.split)
  have r: "settings (c\<lparr>ringdebtimer := t\<rparr>) = settings c" "settings (c\<lparr>kewlonhook := b\<rparr>) = settings c"
    "settings (c\<lparr>txsig := t\<rparr>) = settings c" "settings (c\<lparr>txhooksig := t\<rparr>) = settings c" "settings (hangup_buffers c) = settings c"
    "settings (emit e c) = settings c" for c t b e by (simp_all add: settings_def hangup_buffers_def Let_def emit_def)
  have h: "settings (snd (hangup_signal span drv c)) = settings c" for c
    by (simp add: hangup_signal_def dahdi_cas_setbits_def r s)
  show ?thesis by (simp add: dahdi_hangup_def Let_def split_beta r h)
qed

lemma config_hangup_keeps: "sig (config_hangup span drv c) = sig c" "cflags (config_hangup span drv c) = cflags c"
  "master (config_hangup span drv c) = master c" "rxhooksig (config_hangup span drv c) = RXSIG_INITIAL"
  "confmode (config_hangup span drv c) = confmode c" "confna (config_hangup span drv c) = confna c"
  "idlebits (config_hangup span drv c) = idlebits c" "deflaw (config_hangup span drv c) = deflaw c"
  using hangup_keeps [of c span drv] links_hangup [of span drv c] settings_hangup [of span drv c]
  by (auto simp: config_hangup_def Let_def plain_def links_def settings_def)

text \<open>What the channel is after a request that was applied.\<close>

definition in_mode :: "u32 \<Rightarrow> nat \<Rightarrow> dahdi_chan \<Rightarrow> bool" where
  "in_mode s m d \<longleftrightarrow> sig d = s \<and> master d = int m \<and>
     (flagged d FLAGBIT_CLEAR \<longleftrightarrow> has_bits s SIG_CLEAR) \<and> (flagged d FLAGBIT_AUDIO \<longleftrightarrow> \<not> has_bits s SIG_CLEAR) \<and>
     (flagged d FLAGBIT_NOSTDTXRX \<longleftrightarrow> has_bits s SIG_HARDHDLC) \<and> (flagged d FLAGBIT_MTP2 \<longleftrightarrow> has_bits s SIG_MTP2) \<and>
     (flagged d FLAGBIT_HDLC \<longleftrightarrow> has_bits s SIG_HDLCRAW \<and> \<not> has_bits s SIG_HARDHDLC) \<and>
     (flagged d FLAGBIT_FCS \<longleftrightarrow> has_bits s SIG_HDLCFCS \<and> \<not> has_bits s SIG_HARDHDLC)"

text \<open>The channel when it has all that the configuration sets: its mode, its idle bits, its cross connection.\<close>

definition set_up :: "u32 \<Rightarrow> nat \<Rightarrow> int \<Rightarrow> dahdi_chan \<Rightarrow> dahdi_chan \<Rightarrow> bool" where
  "set_up s m idle c d \<longleftrightarrow> in_mode s m d \<and> flagged d FLAGBIT_PSEUDO = flagged c FLAGBIT_PSEUDO \<and>
     idlebits d = (if s = SIG_CAS then idle else 0) \<and>
     (if has_bits s SIG_MASK_DACS then confmode d = CONF_DIGITALMON \<and> confna d = idle
      else confmode d = confmode c \<and> confna d = confna c)"

lemma config_apply_mode:
  assumes "length (chans (w_sys (sw S))) = DAHDI_MAX_CHANNELS" "nat (cc_chan ch) < DAHDI_MAX_CHANNELS"
    and T: "config_apply E s m ch S = Some T"
  shows "\<exists>c d. the_chan (nat (cc_chan ch)) S = Some c \<and> the_chan (nat (cc_chan ch)) T = Some d \<and> in_mode s m d \<and>
    flagged d FLAGBIT_PSEUDO = flagged c FLAGBIT_PSEUDO \<and> set_up s m (cc_idlebits ch) c d \<and> deflaw d = deflaw c \<and>
    rxhooksig d = rxhooksig c"
proof -
  define n where "n = nat (cc_chan ch)"
  obtain c d where c: "the_chan n S = Some c" "config_dacs (ce_dacs E) s (cc_idlebits ch) S (config_sig s (cc_idlebits ch) c) = Some d"
    using T by (auto simp: config_apply_def Let_def n_def split: option.splits)
  define D where "D = set_chan n (d\<lparr>master := int m\<rparr>) S"
  define R where "R = (if m \<noteq> n then recalc_chan m D else D)"
  have T': "T = upd_ch n (config_hard s) R"
    using T c unfolding config_apply_def n_def [symmetric] R_def D_def by (simp add: Let_def)
  have n: "n < length (chans (w_sys (sw S)))" using assms(1,2) by (simp add: n_def)
  have Dn: "the_chan n D = Some (d\<lparr>master := int m\<rparr>)" using n c(1) by (simp add: D_def set_chan_upd_ch the_chan_upd_ch)
  have "map_option unlinked (the_chan n R) = map_option unlinked (the_chan n D)" by (simp add: R_def unlinked_recalc)
  then obtain e where e: "the_chan n R = Some e" "unlinked e = unlinked (d\<lparr>master := int m\<rparr>)" using Dn by (rule unlinkedE)
  have f: "flagged e F = flagged (config_sig s (cc_idlebits ch) c) F" "sig e = s" "master e = int m" for F
    using unlinked_fields [OF e(2)] config_dacs_keeps [OF c(2)] by (simp_all add: config_sig_flags)
  have "n < length (chans (w_sys (sw R)))" using n by (simp add: R_def D_def set_chan_upd_ch)
  then have "the_chan n T = Some (config_hard s e)" using e(1) by (simp add: T' the_chan_upd_ch)
  have g: "idlebits (config_sig s i c) = (if s = SIG_CAS then i else 0)" "deflaw (config_sig s i c) = deflaw c"
    "rxhooksig (config_sig s i c) = rxhooksig c" "confmode (config_sig s i c) = confmode c" "confna (config_sig s i c) = confna c" for i
    by (simp_all add: config_sig_def Let_def put_flag_def set_flag_def clear_flag_def)
  have h: "idlebits (config_hard s e) = idlebits e" "deflaw (config_hard s e) = deflaw e" "rxhooksig (config_hard s e) = rxhooksig e"
    "confmode (config_hard s e) = confmode e" "confna (config_hard s e) = confna e"
    by (simp_all add: config_hard_def Let_def put_flag_def set_flag_def clear_flag_def)
  note k = unlinked_settings [OF e(2)] config_dacs_keeps [OF c(2)]
  have "in_mode s m (config_hard s e)" "flagged (config_hard s e) FLAGBIT_PSEUDO = flagged c FLAGBIT_PSEUDO"
    by (simp_all add: in_mode_def config_hard_flags f config_sig_flags)
  moreover have "idlebits (config_hard s e) = (if s = SIG_CAS then cc_idlebits ch else 0)" "deflaw (config_hard s e) = deflaw c"
    "rxhooksig (config_hard s e) = rxhooksig c"
    "if has_bits s SIG_MASK_DACS then confmode (config_hard s e) = CONF_DIGITALMON \<and> confna (config_hard s e) = cc_idlebits ch
      else confmode (config_hard s e) = confmode c \<and> confna (config_hard s e) = confna c"
    using k by (simp_all add: g h split: if_splits)
  ultimately show ?thesis using c(1) \<open>the_chan n T = Some (config_hard s e)\<close> unfolding n_def [symmetric] set_up_def by blast
qed

text \<open>What a request does to the other channels.\<close>

lemma unlinked_upd_ch: "k \<noteq> n \<Longrightarrow> map_option unlinked (the_chan k (upd_ch n f S)) = map_option unlinked (the_chan k S)"
  by (simp add: the_chan_def upd_ch_def w_chan_def w_upd_def upd_chan_def)

lemma unlinked_unlink: "k \<noteq> n \<Longrightarrow> map_option unlinked (the_chan k (unlink_slave n c S)) = map_option unlinked (the_chan k S)"
  by (simp add: unlink_slave_def unlinked_recalc unlinked_upd_ch)

lemma unlinked_apply:
  assumes "config_apply E s m ch S = Some T" "k \<noteq> nat (cc_chan ch)"
  shows "map_option unlinked (the_chan k T) = map_option unlinked (the_chan k S)"
  using assms by (auto simp: config_apply_def Let_def unlinked_upd_ch unlinked_recalc set_chan_upd_ch split: option.splits if_splits)

lemma chanconfig_frame:
  assumes T: "ioctl_chanconfig E ch S = Some (r, T)" and k: "k \<noteq> nat (cc_chan ch)"
  shows "map_option unlinked (the_chan k T) = map_option unlinked (the_chan k S)"
proof (cases "valid_channel (cc_chan ch) S")
  case (Inr c)
  then show ?thesis using T k unlinked_unlink [OF k, of c S]
    by (auto simp: ioctl_chanconfig_def Let_def unlinked_upd_ch dest!: unlinked_apply [OF _ k] split: sum.splits if_splits option.splits)
qed (use T in \<open>simp add: ioctl_chanconfig_def\<close>)

lemma chanconfig_success:
  assumes len: "length (chans (w_sys (sw S))) = DAHDI_MAX_CHANNELS" and T: "ioctl_chanconfig E ch S = Some (0, T)"
  shows "\<exists>s m c d. config_target ch S = Inr (s, m) \<and> the_chan (nat (cc_chan ch)) S = Some c \<and>
        full_sigcap (sigcap c) AND s = s \<and> the_chan (nat (cc_chan ch)) T = Some d \<and> in_mode s m d \<and> rxhooksig d = RXSIG_INITIAL"
proof -
  define n where "n = nat (cc_chan ch)"
  have v: "n < DAHDI_MAX_CHANNELS \<and> the_chan n S = Some c \<and> int n = cc_chan ch" if "valid_channel (cc_chan ch) S = Inr c" for c
    using that by (auto simp: valid_channel_def n_def split: if_splits option.splits)
  have ul: "length (chans (w_sys (sw (unlink_slave n c S)))) = DAHDI_MAX_CHANNELS" for c
    using len by (simp add: unlink_slave_def)
  obtain c where c: "valid_channel (cc_chan ch) S = Inr c"
    using T by (cases "valid_channel (cc_chan ch) S") (auto simp: ioctl_chanconfig_def valid_channel_def split: if_splits option.splits)
  obtain s m where sm: "config_target ch S = Inr (s, m)"
    using T c by (cases "config_target ch S") (auto simp: ioctl_chanconfig_def config_target_def split: if_splits option.splits)
  obtain V a where V: "config_apply E s m ch (unlink_slave n c S) = Some V" "full_sigcap (sigcap c) AND s = s"
    "T = upd_ch n (config_hangup (span_at V a) (ce_drv E)) (upd_ch n (\<lambda>c. c\<lparr>deflaw := cc_deflaw ch\<rparr>) V)"
    using T c sm unfolding ioctl_chanconfig_def n_def [symmetric] Let_def
    by (auto split: if_splits option.splits)
  obtain d where d: "the_chan n V = Some d" "in_mode s m d"
    using config_apply_mode [OF ul _ V(1)] v [OF c] by (auto simp: n_def)
  have lV: "n < length (chans (w_sys (sw V)))"
    using V(1) v [OF c] ul unfolding config_apply_def n_def [symmetric] Let_def
    by (auto simp: set_chan_upd_ch split: option.splits)
  have "the_chan n T = Some (config_hangup (span_at V a) (ce_drv E) (d\<lparr>deflaw := cc_deflaw ch\<rparr>))"
    using d(1) lV by (simp add: V(3) the_chan_upd_ch)
  moreover have "in_mode s m (config_hangup (span_at V a) (ce_drv E) (d\<lparr>deflaw := cc_deflaw ch\<rparr>))"
    using d(2) by (simp add: in_mode_def config_hangup_keeps)
  ultimately show ?thesis unfolding n_def [symmetric] using sm v [OF c] V(2) config_hangup_keeps(4) by blast
qed

text \<open>
  What is asked for: the channel of a number; the signalling and the master (a slave takes those of the channel it names; a cross
  connection must name a channel); the signalling a channel can have, which for one that supports clear channels includes HDLC and cross
  connection.
\<close>

definition named :: "int \<Rightarrow> dahdi_sys \<Rightarrow> dahdi_chan option" where
  "named k S = (if 1 \<le> k \<and> k < 1024 then the_chan (nat k) S else None)"

definition wanted :: "chanconfig \<Rightarrow> dahdi_sys \<Rightarrow> (u32 \<times> int) option" where
  "wanted ch S =
     (if cc_sigtype ch = SIG_SLAVE then map_option (\<lambda>m. (sig m, cc_master ch)) (named (cc_master ch) S)
      else if has_bits (cc_sigtype ch) SIG_MASK_DACS \<and> named (cc_idlebits ch) S = None then None
      else Some (cc_sigtype ch, cc_chan ch))"

definition supports :: "u32 \<Rightarrow> u32 \<Rightarrow> bool" where
  "supports cap s \<longleftrightarrow> s AND NOT cap = 0 \<or>
     cap AND SIG_CLEAR \<noteq> 0 \<and> s AND NOT (cap OR SIG_HDLCRAW OR SIG_HDLCFCS OR SIG_HDLCNET OR SIG_DACS) = 0"

lemma subset_word: "(cap AND s = s) = (s AND NOT cap = (0 :: u32))"
  by (auto simp: bit_eq_iff bit_simps)

lemma supports_sigcap: "full_sigcap cap AND s = s \<longleftrightarrow> supports cap s"
proof (cases "cap AND SIG_CLEAR = 0")
  case True
  then show ?thesis by (simp add: full_sigcap_def supports_def subset_word)
next
  case False
  have m: "s AND NOT cap = 0 \<Longrightarrow> s AND NOT (cap OR x) = 0" for x by (auto simp: bit_eq_iff bit_simps)
  have "full_sigcap cap = cap OR SIG_HDLCRAW OR SIG_HDLCFCS OR SIG_HDLCNET OR SIG_DACS"
    using False unfolding full_sigcap_def by (simp only: simp_thms if_True)
  then show ?thesis using False m unfolding supports_def subset_word by (simp only: simp_thms) blast
qed

lemma valid_named: "valid_channel k S = (case named k S of
    None \<Rightarrow> Inl (if 1 \<le> k \<and> k < 1024 then - ENXIO else - EINVAL) | Some c \<Rightarrow> Inr c)"
  by (auto simp: valid_channel_def named_def split: option.split)

lemma target_wanted: "named (cc_chan ch) S \<noteq> None \<Longrightarrow> config_target ch S = (case wanted ch S of
    None \<Rightarrow> Inl (- EINVAL) | Some (s, m) \<Rightarrow> Inr (s, nat m))"
  by (auto simp: config_target_def wanted_def named_def split: option.split)

text \<open>Everything but the channels.\<close>

definition bare :: "dahdi_sys \<Rightarrow> dahdi_sys" where
  "bare S = S\<lparr>sw := (sw S)\<lparr>w_sys := (w_sys (sw S))\<lparr>chans := []\<rparr>\<rparr>\<rparr>"

lemma bare_upd [simp]: "bare (upd_ch n f S) = bare S" "bare (S\<lparr>sw := w_upd n f w\<rparr>) = bare (S\<lparr>sw := w\<rparr>)"
  by (simp_all add: bare_def upd_ch_def w_upd_def upd_chan_def)

lemma bare_recalc [simp]: "bare (recalc_chan n S) = bare S"
proof -
  have "bare (S\<lparr>sw := snd (fold (link_slave sp k) xs (p, w))\<rparr>) = bare (S\<lparr>sw := w\<rparr>)" for sp k xs p w
  proof (induction xs arbitrary: p w)
    case (Cons x xs)
    obtain q v where q: "link_slave sp k x (p, w) = (q, v)" by fastforce
    then have "bare (S\<lparr>sw := v\<rparr>) = bare (S\<lparr>sw := w\<rparr>)" by (auto simp: link_slave_def split: option.splits if_splits)
    then show ?case using Cons.IH by (simp add: q)
  qed simp
  then have "bare (S\<lparr>sw := recalc_slaves sp p w\<rparr>) = bare (S\<lparr>sw := w\<rparr>)" for sp p w
    by (simp add: recalc_slaves_def split_beta Let_def split: option.split)
  then have "bare (S\<lparr>sw := recalc_slaves sp p (sw S)\<rparr>) = bare S" for sp p by simp
  then show ?thesis by (simp add: recalc_chan_def split: option.split)
qed

lemma span_at_recalc [simp]: "span_at (recalc_chan n S) = span_at S"
  using arg_cong [OF bare_recalc, of span_at] by (simp add: bare_def)

lemma chanconfig_bare: "ioctl_chanconfig E ch S = Some (r, T) \<Longrightarrow> bare T = bare S"
proof (erule chanconfig_cases)
  fix c assume "T = unlink_slave (nat (cc_chan ch)) c S"
  then show ?thesis by (simp add: unlink_slave_def)
next
  fix c s m V f
  assume V: "config_apply E s m ch (unlink_slave (nat (cc_chan ch)) c S) = Some V" and T: "T = upd_ch (nat (cc_chan ch)) f V"
  have "bare (unlink_slave n c S) = bare S" for n by (simp add: unlink_slave_def)
  then show ?thesis using V by (auto simp: T config_apply_def Let_def set_chan_upd_ch split: option.splits)
qed simp

text \<open>A request that a channel does not support only takes it out of its bundle.\<close>

lemma unlink_only:
  assumes n: "n < length (chans (w_sys (sw S)))" and c: "the_chan n S = Some c"
  shows "\<exists>d. the_chan n (unlink_slave n c S) = Some d \<and> unlinked d = unlinked (c\<lparr>master := int n\<rparr>)"
proof (cases "master c = int n")
  case True
  have e: "c\<lparr>master := int n\<rparr> = c" by (simp add: True [symmetric])
  show ?thesis using c True by (simp add: unlink_slave_def e)
next
  case False
  define U where "U = upd_ch n (\<lambda>c. c\<lparr>master := int n, nextslave := 0\<rparr>) S"
  have "the_chan n U = Some (c\<lparr>master := int n, nextslave := 0\<rparr>)" using n c by (simp add: U_def the_chan_upd_ch)
  then obtain d where d: "the_chan n (recalc_chan (nat (master c)) U) = Some d"
    "unlinked d = unlinked (c\<lparr>master := int n, nextslave := 0\<rparr>)" by (rule unlinkedE [OF unlinked_recalc])
  then show ?thesis using False by (simp add: unlink_slave_def U_def) (simp add: unlinked_def)
qed

text \<open>A request that is carried out, as far as the driver and the user's memory let it.\<close>

lemma chanconfig_applied:
  assumes len: "length (chans (w_sys (sw S))) = DAHDI_MAX_CHANNELS" and T: "ioctl_chanconfig E ch S = Some (r, T)"
    and c: "valid_channel (cc_chan ch) S = Inr c" and sm: "config_target ch S = Inr (s, m)"
    and s: "s \<noteq> SIG_HDLCNET" "full_sigcap (sigcap c) AND s = s"
  shows "\<exists>a d. chan_span c = Some a \<and> the_chan (nat (cc_chan ch)) T = Some d \<and> set_up s m (cc_idlebits ch) c d \<and>
    (if has_chanconfig (span_at S a) \<and> ce_chanconfig E \<noteq> 0 then r = ce_chanconfig E \<and> deflaw d = deflaw c \<and> rxhooksig d = rxhooksig c
     else deflaw d = cc_deflaw ch \<and>
       (if ce_copy E then r = 0 \<and> rxhooksig d = RXSIG_INITIAL else r = - EFAULT \<and> rxhooksig d = rxhooksig c))"
proof -
  define n where "n = nat (cc_chan ch)"
  have n: "n < DAHDI_MAX_CHANNELS" "the_chan n S = Some c"
    using c by (auto simp: valid_channel_def n_def split: if_splits option.splits)
  obtain V a where V: "config_apply E s m ch (unlink_slave n c S) = Some V" and a: "chan_span c = Some a"
    using T c sm s unfolding ioctl_chanconfig_def n_def [symmetric] Let_def by (auto split: if_splits option.splits)
  have ul: "length (chans (w_sys (sw (unlink_slave n c S)))) = DAHDI_MAX_CHANNELS" using len by (simp add: unlink_slave_def)
  obtain e d where e: "the_chan n (unlink_slave n c S) = Some e" and d: "the_chan n V = Some d" "set_up s m (cc_idlebits ch) e d"
    "deflaw d = deflaw e" "rxhooksig d = rxhooksig e"
    using config_apply_mode [OF ul _ V] n(1) by (auto simp: n_def)
  obtain e' where e': "the_chan n (unlink_slave n c S) = Some e'" "unlinked e' = unlinked (c\<lparr>master := int n\<rparr>)"
    using unlink_only [of n S c] n len by auto
  have k: "deflaw e = deflaw c" "rxhooksig e = rxhooksig c" "confmode e = confmode c" "confna e = confna c" "cflags e = cflags c"
    using unlinked_settings [OF e'(2)] unlinked_fields [OF e'(2)] e e'(1) by simp_all
  have u: "set_up s m (cc_idlebits ch) c d" "deflaw d = deflaw c" "rxhooksig d = rxhooksig c"
    using d k by (simp_all add: set_up_def)
  have lV: "n < length (chans (w_sys (sw V)))"
    using V n(1) ul unfolding config_apply_def n_def [symmetric] Let_def by (auto simp: set_chan_upd_ch split: option.splits)
  have b: "span_at V = span_at S"
    using V unfolding config_apply_def Let_def by (auto simp: set_chan_upd_ch unlink_slave_def split: option.splits)
  define D where "D = d\<lparr>deflaw := cc_deflaw ch\<rparr>"
  have D: "set_up s m (cc_idlebits ch) c D" "deflaw D = cc_deflaw ch" "rxhooksig D = rxhooksig c"
    using u by (simp_all add: D_def set_up_def in_mode_def)
  have H: "set_up s m (cc_idlebits ch) c (config_hangup sp h D)" "deflaw (config_hangup sp h D) = cc_deflaw ch"
    "rxhooksig (config_hangup sp h D) = RXSIG_INITIAL" for sp h
    using D by (simp_all add: set_up_def in_mode_def config_hangup_keeps)
  have 1: "the_chan n (upd_ch n (\<lambda>c. c\<lparr>deflaw := cc_deflaw ch\<rparr>) V) = Some D"
    using d(1) lV by (simp add: the_chan_upd_ch D_def)
  have 2: "the_chan n (upd_ch n (config_hangup sp h) (upd_ch n (\<lambda>c. c\<lparr>deflaw := cc_deflaw ch\<rparr>) V)) = Some (config_hangup sp h D)" for sp h
    using d(1) lV by (simp add: the_chan_upd_ch D_def)
  define refuses where "refuses \<longleftrightarrow> has_chanconfig (span_at S a) \<and> ce_chanconfig E \<noteq> 0"
  have R: "(r, T) = (if refuses then (ce_chanconfig E, V)
      else if \<not> ce_copy E then (- EFAULT, upd_ch n (\<lambda>c. c\<lparr>deflaw := cc_deflaw ch\<rparr>) V)
      else (0, upd_ch n (config_hangup (span_at S a) (ce_drv E)) (upd_ch n (\<lambda>c. c\<lparr>deflaw := cc_deflaw ch\<rparr>) V)))"
    using T c sm s V a unfolding ioctl_chanconfig_def n_def [symmetric] Let_def by (auto simp: b refuses_def)
  consider "refuses" "r = ce_chanconfig E" "T = V" | "\<not> refuses" "\<not> ce_copy E" "r = - EFAULT" "T = upd_ch n (\<lambda>c. c\<lparr>deflaw := cc_deflaw ch\<rparr>) V"
    | "\<not> refuses" "ce_copy E" "r = 0" "T = upd_ch n (config_hangup (span_at S a) (ce_drv E)) (upd_ch n (\<lambda>c. c\<lparr>deflaw := cc_deflaw ch\<rparr>) V)"
    using R by (auto split: if_splits)
  then show ?thesis unfolding n_def [symmetric] refuses_def [symmetric]
  proof cases
    case 1
    then show "\<exists>b d. chan_span c = Some b \<and> the_chan n T = Some d \<and> set_up s m (cc_idlebits ch) c d \<and>
      (if has_chanconfig (span_at S b) \<and> ce_chanconfig E \<noteq> 0 then r = ce_chanconfig E \<and> deflaw d = deflaw c \<and> rxhooksig d = rxhooksig c
       else deflaw d = cc_deflaw ch \<and>
         (if ce_copy E then r = 0 \<and> rxhooksig d = RXSIG_INITIAL else r = - EFAULT \<and> rxhooksig d = rxhooksig c))"
      using a d(1) u by (intro exI [of _ a] exI [of _ d]) (auto simp: refuses_def)
  next
    case 2
    then show "\<exists>b d. chan_span c = Some b \<and> the_chan n T = Some d \<and> set_up s m (cc_idlebits ch) c d \<and>
      (if has_chanconfig (span_at S b) \<and> ce_chanconfig E \<noteq> 0 then r = ce_chanconfig E \<and> deflaw d = deflaw c \<and> rxhooksig d = rxhooksig c
       else deflaw d = cc_deflaw ch \<and>
         (if ce_copy E then r = 0 \<and> rxhooksig d = RXSIG_INITIAL else r = - EFAULT \<and> rxhooksig d = rxhooksig c))"
      using a \<open>the_chan n (upd_ch n (\<lambda>c. c\<lparr>deflaw := cc_deflaw ch\<rparr>) V) = Some D\<close> D
      by (intro exI [of _ a] exI [of _ D]) (auto simp: refuses_def)
  next
    case 3
    then show "\<exists>b d. chan_span c = Some b \<and> the_chan n T = Some d \<and> set_up s m (cc_idlebits ch) c d \<and>
      (if has_chanconfig (span_at S b) \<and> ce_chanconfig E \<noteq> 0 then r = ce_chanconfig E \<and> deflaw d = deflaw c \<and> rxhooksig d = rxhooksig c
       else deflaw d = cc_deflaw ch \<and>
         (if ce_copy E then r = 0 \<and> rxhooksig d = RXSIG_INITIAL else r = - EFAULT \<and> rxhooksig d = rxhooksig c))"
      using a H by (intro exI [of _ a] exI [of _ "config_hangup (span_at S a) (ce_drv E) D"])
        (auto simp: refuses_def \<open>\<And>sp h. the_chan n (upd_ch n (config_hangup sp h) (upd_ch n (\<lambda>c. c\<lparr>deflaw := cc_deflaw ch\<rparr>) V)) = Some (config_hangup sp h D)\<close>)
  qed
qed

text \<open>C28. Configuring a channel, in every way the request can end once it is read. A channel, master or cross connection that does not exist is refused
  and nothing changes, and HDLC networking, which is not built in, likewise with -ENOSYS. When the channel does not support the signalling that is
  asked for (that of the master for a slave) the answer is -EINVAL and nothing of the channel has changed but that it is its own
  master, out of its bundle. Otherwise it has the signalling, the master, exactly the mode flags of the signalling, the idle bits
  and the cross connection, whatever the driver then says: a driver that refuses gives the answer, a user's memory that cannot be
  written -EFAULT after the law is set, and else the answer is 0, and the state of the hook is unknown after the hang-up. Of the other channels only
  \<open>nextslave\<close> can change, and outside the channels nothing.\<close>

theorem chanconfig_result:
  assumes len: "length (chans (w_sys (sw S))) = DAHDI_MAX_CHANNELS" and T: "ioctl_chanconfig E ch S = Some (r, T)"
  shows "(case named (cc_chan ch) S of
      None \<Rightarrow> r = (if 1 \<le> cc_chan ch \<and> cc_chan ch < 1024 then - ENXIO else - EINVAL) \<and> T = S
    | Some c \<Rightarrow>
        (case wanted ch S of
           None \<Rightarrow> r = - EINVAL \<and> T = S
         | Some (s, m) \<Rightarrow>
             if s = SIG_HDLCNET then r = - ENOSYS \<and> T = S
             else \<exists>d. named (cc_chan ch) T = Some d \<and>
               (if \<not> supports (sigcap c) s then r = - EINVAL \<and> unlinked d = unlinked (c\<lparr>master := cc_chan ch\<rparr>)
                else \<exists>a. chan_span c = Some a \<and> set_up s (nat m) (cc_idlebits ch) c d \<and>
                  (if has_chanconfig (span_at S a) \<and> ce_chanconfig E \<noteq> 0
                   then r = ce_chanconfig E \<and> deflaw d = deflaw c \<and> rxhooksig d = rxhooksig c
                   else deflaw d = cc_deflaw ch \<and>
                     (if ce_copy E then r = 0 \<and> rxhooksig d = RXSIG_INITIAL else r = - EFAULT \<and> rxhooksig d = rxhooksig c))))) \<and>
    (\<forall>k. k \<noteq> nat (cc_chan ch) \<longrightarrow> map_option unlinked (the_chan k T) = map_option unlinked (the_chan k S)) \<and> bare T = bare S"
proof (intro conjI allI impI)
  show "map_option unlinked (the_chan k T) = map_option unlinked (the_chan k S)" if "k \<noteq> nat (cc_chan ch)" for k
    using T that by (rule chanconfig_frame)
  show "bare T = bare S" using T by (rule chanconfig_bare)
next
  consider "named (cc_chan ch) S = None" | c where "named (cc_chan ch) S = Some c" "wanted ch S = None"
    | c s m where "named (cc_chan ch) S = Some c" "wanted ch S = Some (s, m)" by fastforce
  then show "case named (cc_chan ch) S of
      None \<Rightarrow> r = (if 1 \<le> cc_chan ch \<and> cc_chan ch < 1024 then - ENXIO else - EINVAL) \<and> T = S
    | Some c \<Rightarrow>
        (case wanted ch S of
           None \<Rightarrow> r = - EINVAL \<and> T = S
         | Some (s, m) \<Rightarrow>
             if s = SIG_HDLCNET then r = - ENOSYS \<and> T = S
             else \<exists>d. named (cc_chan ch) T = Some d \<and>
               (if \<not> supports (sigcap c) s then r = - EINVAL \<and> unlinked d = unlinked (c\<lparr>master := cc_chan ch\<rparr>)
                else \<exists>a. chan_span c = Some a \<and> set_up s (nat m) (cc_idlebits ch) c d \<and>
                  (if has_chanconfig (span_at S a) \<and> ce_chanconfig E \<noteq> 0
                   then r = ce_chanconfig E \<and> deflaw d = deflaw c \<and> rxhooksig d = rxhooksig c
                   else deflaw d = cc_deflaw ch \<and>
                     (if ce_copy E then r = 0 \<and> rxhooksig d = RXSIG_INITIAL else r = - EFAULT \<and> rxhooksig d = rxhooksig c))))"
  proof cases
    case 1
    then show ?thesis using T by (simp add: ioctl_chanconfig_def valid_named split: if_splits)
  next
    case 2
    then show ?thesis using T by (simp add: ioctl_chanconfig_def valid_named target_wanted)
  next
    case 3
    have v: "valid_channel (cc_chan ch) S = Inr c" "config_target ch S = Inr (s, nat m)"
      using 3 by (simp_all add: valid_named target_wanted)
    have n: "nat (cc_chan ch) < length (chans (w_sys (sw S)))" "the_chan (nat (cc_chan ch)) S = Some c" "int (nat (cc_chan ch)) = cc_chan ch"
      "named (cc_chan ch) T = the_chan (nat (cc_chan ch)) T"
      using 3(1) len by (auto simp: named_def split: if_splits)
    consider "s = SIG_HDLCNET" | "s \<noteq> SIG_HDLCNET" "\<not> supports (sigcap c) s" | "s \<noteq> SIG_HDLCNET" "supports (sigcap c) s" by blast
    then show ?thesis
    proof cases
      case 1
      then show ?thesis using T v 3 by (simp add: ioctl_chanconfig_def)
    next
      case 2
      then have "r = - EINVAL" "T = unlink_slave (nat (cc_chan ch)) c S"
        using T v by (simp_all add: ioctl_chanconfig_def supports_sigcap)
      then show ?thesis using 2 3 unlink_only [OF n(1,2)] n(3,4) by simp
    next
      case 3
      note A = chanconfig_applied [OF len T v 3(1) supports_sigcap [THEN iffD2, OF 3(2)]]
      show ?thesis unfolding \<open>named (cc_chan ch) S = Some c\<close> \<open>wanted ch S = Some (s, m)\<close> option.case prod.case n(4)
        using A by (simp only: 3 simp_thms if_True if_False) blast
    qed
  qed
qed

section \<open>Reading back\<close>

lemma gain_list_fun: "length t = GAIN_TABLE_SIZE \<Longrightarrow> gain_list (gain_fun t) = t"
  by (rule nth_equalityI) (simp_all add: gain_list_def gain_fun_def unat_of_nat)

lemma gains_applied:
  assumes "length rx = GAIN_TABLE_SIZE" "length tx = GAIN_TABLE_SIZE"
  shows "gain_list (rxgain (apply_gains rx tx c)) = rx" "gain_list (txgain (apply_gains rx tx c)) = tx"
  using assms by (auto simp: apply_gains_def Let_def gain_list_fun) (simp_all add: gain_list_def)

lemma gains_flags [simp]: "cflags (apply_gains rx tx c) = cflags c"
  by (simp add: apply_gains_def Let_def)

lemma timing_applied: "timing.truncate (chan_params span al (set_timing p c)) = p"
  by (cases p) (simp add: chan_params_def set_timing_def timing.truncate_def Let_def)

lemma small_flag:
  assumes "0 \<le> k" "k < 1024"
  shows "k AND 0x40000000 = (0::int)"
proof -
  have "\<not> bit k 30" using assms by (simp add: bit_iff_odd)
  then have "k AND 2 ^ 30 = 0" by (rule and_exp_eq_0_iff_not_bit [THEN iffD2])
  then show ?thesis by simp
qed

section \<open>An example\<close>

text \<open>The two channels of a span; the second becomes a slave of the first.\<close>

definition cfg_chan :: "int \<Rightarrow> dahdi_chan" where
  "cfg_chan k = chan0\<lparr>channo := k, chanpos := k, master := k, chan_span := Some 7, sig := SIG_CLEAR, sigcap := SIG_CLEAR, cflags := 1\<rparr>"

definition cfg_ex :: dahdi_sys where
  "cfg_ex = (sys0 ((\<lambda>_. span0)(7 := span0\<lparr>sp_chans := [1, 2], sp_flags := 1\<rparr>)))\<lparr>
     sw := \<lparr>w_sys = conf_sys0\<lparr>chans := (replicate 1024 None)[1 := Some (cfg_chan 1), 2 := Some (cfg_chan 2)]\<rparr>,
       w_sums = sums0, w_zones = tone_globals0, w_timers = []\<rparr>\<rparr>"

definition cfg_slave :: chanconfig where
  "cfg_slave = \<lparr>cc_chan = 2, cc_sigtype = SIG_SLAVE, cc_deflaw = 0, cc_master = 1, cc_idlebits = 0\<rparr>"

definition cfg_env :: config_env where
  "cfg_env = \<lparr>ce_drv = 0, ce_chanconfig = 0, ce_dacs = (\<lambda>_. None), ce_copy = True\<rparr>"

lemma cfg_ex_unbundled: "unbundled cfg_ex"
proof -
  have w: "w_chan (sw cfg_ex) n = (if n = 1 then Some (cfg_chan 1) else if n = 2 then Some (cfg_chan 2) else None)" if "n < 1024" for n
    using that by (simp add: w_chan_def cfg_ex_def nth_list_update)
  have s: "span_at cfg_ex = (\<lambda>_. span0)(7 := span0\<lparr>sp_chans := [1, 2], sp_flags := 1\<rparr>)" "length (chans (w_sys (sw cfg_ex))) = 1024"
    by (simp_all add: cfg_ex_def sys0_def)
  have v: "view (sw cfg_ex) n = (if n = 1 \<or> n = 2 then Some \<lparr>lk_master = int n, lk_next = 0, lk_pos = int n, lk_span = Some 7\<rparr> else None)" if "n < 1024" for n
    using w [OF that] by (auto simp: view_def links_def cfg_chan_def chan0_def)
  have p: "placed cfg_ex 7"
    by (auto simp: placed_def Let_def s span_size_def span_chan_def v inj_on_def less_Suc_eq numeral_2_eq_2 nth_Cons' split: if_splits)
  have r: "span_registered (span_at cfg_ex a) \<longleftrightarrow> a = 7" for a by (simp add: s span0_def)
  have "masters_ok cfg_ex"
    unfolding masters_ok_def
  proof (intro conjI allI impI)
    show "placed cfg_ex a" if "span_registered (span_at cfg_ex a)" for a using p that r by simp
    fix n l assume n: "n < DAHDI_MAX_CHANNELS \<and> view (sw cfg_ex) n = Some l"
    then have l: "n = 1 \<or> n = 2" "l = \<lparr>lk_master = int n, lk_next = 0, lk_pos = int n, lk_span = Some 7\<rparr>"
      using v [of n] by (auto split: if_splits)
    show "\<exists>m < DAHDI_MAX_CHANNELS. lk_master l = int m \<and> head (view (sw cfg_ex)) m"
      using l v [of n] n by (intro exI [of _ n]) (auto simp: head_def mastered_by_def)
    fix a assume a: "lk_span l = Some a"
    then show "span_registered (span_at cfg_ex a)" using l r by simp
    show "\<exists>p < span_size (span_at cfg_ex a). span_chan (span_at cfg_ex a) p = n"
      using a l by (intro exI [of _ "n - 1"]) (auto simp: s span_size_def span_chan_def)
  qed (simp add: s)
  then show ?thesis using w by (auto simp: unbundled_def the_chan_def cfg_chan_def chan0_def)
qed

lemma cfg_slave_ok: "\<exists>T. ioctl_chanconfig cfg_env cfg_slave cfg_ex = Some (0, T)" "flat_request cfg_slave cfg_ex"
proof -
  have w: "the_chan (Suc 0) cfg_ex = Some (cfg_chan 1)" "the_chan 2 cfg_ex = Some (cfg_chan 2)"
    by (simp_all add: the_chan_def w_chan_def cfg_ex_def)
  have v: "valid_channel (cc_chan cfg_slave) cfg_ex = Inr (cfg_chan 2)" using w by (simp add: valid_channel_def cfg_slave_def)
  have t: "config_target cfg_slave cfg_ex = Inr (SIG_CLEAR, 1)"
    using w by (simp add: config_target_def cfg_slave_def cfg_chan_def)
  have c: "full_sigcap (sigcap (cfg_chan 2)) AND SIG_CLEAR = SIG_CLEAR" by (simp add: full_sigcap_def cfg_chan_def)
  have u: "unlink_slave (nat (cc_chan cfg_slave)) (cfg_chan 2) cfg_ex = cfg_ex" by (simp add: unlink_slave_def cfg_chan_def cfg_slave_def)
  have d: "config_dacs (ce_dacs cfg_env) s i X c \<noteq> None" for s i X c
    by (simp add: config_dacs_def cfg_env_def Let_def split: option.split)
  obtain V where a: "config_apply cfg_env SIG_CLEAR 1 cfg_slave cfg_ex = Some V"
    using w d by (fastforce simp: config_apply_def cfg_slave_def Let_def split: option.splits)
  show "\<exists>T. ioctl_chanconfig cfg_env cfg_slave cfg_ex = Some (0, T)"
    unfolding ioctl_chanconfig_def Let_def v t sum.case prod.case u a option.case using c by (simp add: cfg_env_def cfg_chan_def)
  have "slaveless cfg_ex 2"
    using cfg_ex_unbundled by (auto simp: slaveless_def unbundled_def mastered_by_def view_def the_chan_def links_def split: option.splits)
  moreover have "head (view (sw cfg_ex)) 1"
    using w by (simp add: head_def mastered_by_def view_def the_chan_def links_def cfg_chan_def)
  ultimately show "flat_request cfg_slave cfg_ex" by (simp add: flat_request_def cfg_slave_def)
qed

theorem bundles_linked_witness:
  "\<exists>T. ioctl_chanconfig cfg_env cfg_slave cfg_ex = Some (0, T) \<and> chain_at (span_at T 7) 0 (sw T) = Some [0, 1]"
proof -
  obtain T where T: "ioctl_chanconfig cfg_env cfg_slave cfg_ex = Some (0, T)" using cfg_slave_ok(1) by blast
  have "configured T"
    by (rule configured.step [OF configured.start [OF cfg_ex_unbundled] config_step.chanconfig [OF cfg_slave_ok(2) T]])
  note C = this
  have b: "bundles_but {} cfg_ex" using unbundled_bundles [OF cfg_ex_unbundled] .
  have at: "span_at T = span_at cfg_ex" using chanconfig_bundles [OF b cfg_slave_ok(2) T] by simp
  have s: "span_at T 7 = span0\<lparr>sp_chans := [1, 2], sp_flags := 1\<rparr>" by (simp add: at cfg_ex_def sys0_def)
  have w: "the_chan (Suc 0) cfg_ex = Some (cfg_chan 1)" by (simp add: the_chan_def w_chan_def cfg_ex_def)
  have "Suc 0 \<noteq> nat (cc_chan cfg_slave)" by (simp add: cfg_slave_def)
  from unlinkedE [OF chanconfig_frame [OF T this] w] obtain d where d: "the_chan (Suc 0) T = Some d" "unlinked d = unlinked (cfg_chan 1)" .
  have m1: "master d = 1" using unlinked_fields(3) [OF d(2)] by (simp add: cfg_chan_def)
  have "config_target cfg_slave cfg_ex = Inr (SIG_CLEAR, 1)"
    using w by (simp add: config_target_def cfg_slave_def cfg_chan_def)
  then obtain e where e: "the_chan 2 T = Some e" "master e = 1"
    using chanconfig_success [OF _ T] by (auto simp: cfg_ex_def cfg_slave_def in_mode_def)
  have u: "[Suc 0..<2] = [Suc 0]" by (simp add: numeral_2_eq_2)
  have "chain_at (span_at T 7) 0 (sw T) = Some [0, 1]"
    using bundles_linked [OF C, of 7 0 d] d(1) m1 e by (simp add: s span_chan_def u)
  then show ?thesis using T by blast
qed

theorem chanconfig_result_witness:
  "\<exists>T d. ioctl_chanconfig cfg_env cfg_slave cfg_ex = Some (0, T) \<and> the_chan 2 T = Some d \<and> in_mode SIG_CLEAR 1 d"
proof -
  obtain T where T: "ioctl_chanconfig cfg_env cfg_slave cfg_ex = Some (0, T)" using cfg_slave_ok(1) by blast
  have l: "length (chans (w_sys (sw cfg_ex))) = 1024" by (simp add: cfg_ex_def)
  have n: "named 1 cfg_ex = Some (cfg_chan 1)" "named 2 cfg_ex = Some (cfg_chan 2)"
    by (simp_all add: named_def the_chan_def w_chan_def cfg_ex_def)
  have w: "wanted cfg_slave cfg_ex = Some (SIG_CLEAR, 1)" by (simp add: wanted_def cfg_slave_def n) (simp add: cfg_chan_def)
  have p: "cc_chan cfg_slave = 2" "cc_idlebits cfg_slave = 0" "supports (sigcap (cfg_chan 2)) SIG_CLEAR" by (simp_all add: cfg_slave_def cfg_chan_def supports_def)
  from chanconfig_result [OF l T] obtain d where "named 2 T = Some d" "set_up SIG_CLEAR 1 0 (cfg_chan 2) d"
    by (auto simp: n w p split: if_splits)
  then show ?thesis using T by (auto simp: named_def set_up_def)
qed

text \<open>C29. What was set is read back: after the gains of a channel were accepted its two tables are those given, and after its timing was
  accepted its parameters contain that timing, whether the channel is named or is the one of the file.\<close>

theorem settings_read_back:
  assumes len: "length (chans (w_sys (sw S))) = DAHDI_MAX_CHANNELS"
  shows "(length rx = GAIN_TABLE_SIZE \<and> length tx = GAIN_TABLE_SIZE \<and> ioctl_setgains kz kz2 cp k rx tx unit S = Some (0, T) \<longrightarrow>
      ioctl_getgains True True k unit T = Some (Inr (rx, tx))) \<and>
    (ioctl_set_params p k unit S = (0, U) \<longrightarrow>
      (\<exists>q. ioctl_get_params alaw k unit U = Inr q \<and> timing.truncate q = p))"
proof (intro conjI impI, goal_cases)
  case 1
  then have a: "length rx = GAIN_TABLE_SIZE" "length tx = GAIN_TABLE_SIZE" "ioctl_setgains kz kz2 cp k rx tx unit S = Some (0, T)" by simp_all
  obtain n c where n: "gain_chan k unit S = Some (Inr (n, c))" "T = upd_ch n (apply_gains rx tx) S"
    using a(3) by (auto simp: ioctl_setgains_def gain_chan_def Let_def split: if_splits option.splits)
  define i where "i = (if k = 0 then unit else k)"
  have c: "the_chan n S = Some c" "n = nat i" "0 \<le> i" "i < 1024" "flagged c FLAGBIT_AUDIO"
    using n(1) unfolding gain_chan_def i_def [symmetric] Let_def
    by (auto simp: chan_at_def the_chan_def w_chan_def split: if_split_asm option.split_asm)
  have "the_chan n T = Some (apply_gains rx tx c)" using c(1-4) len by (simp add: n(2) the_chan_upd_ch)
  then have "gain_chan k unit T = Some (Inr (n, apply_gains rx tx c))"
    using c unfolding gain_chan_def i_def [symmetric] Let_def by (simp add: chan_at_def the_chan_def w_chan_def)
  then show ?case using gains_applied [OF a(1,2)] by (simp add: ioctl_getgains_def)
next
  case 2
  define j where "j = param_chan k unit"
  obtain c where c: "valid_channel j S = Inr c" "U = upd_ch (nat j) (set_timing p) S"
    using 2 by (auto simp: ioctl_set_params_def j_def valid_channel_def split: sum.splits if_splits option.splits)
  then have n: "1 \<le> j" "j < 1024" "the_chan (nat j) S = Some c" by (auto simp: valid_channel_def split: if_splits option.splits)
  have "the_chan (nat j) U = Some (set_timing p c)" using n len by (simp add: c(2) the_chan_upd_ch)
  then have v: "valid_channel j U = Inr (set_timing p c)" using n by (simp add: valid_channel_def)
  have "param_chan (if k AND 0x40000000 \<noteq> 0 then k AND NOT 0x40000000 else k) unit = j"
    using n small_flag [of k] by (auto simp: j_def param_chan_def split: if_splits)
  then show ?case using v by (auto simp: ioctl_get_params_def Let_def timing_applied simp flip: j_def) (simp add: timing.truncate_def chan_params_def Let_def set_timing_def timing.defs)
qed

definition gain_ex :: dahdi_sys where
  "gain_ex = upd_ch 1 (set_flag FLAGBIT_AUDIO) cfg_ex"

definition timing_ex :: timing where
  "timing_ex = \<lparr>p_prewinktime = 50, p_preflashtime = 50, p_winktime = 150, p_flashtime = 750, p_starttime = 1500,
     p_rxwinktime = 300, p_rxflashtime = 1250, p_debouncetime = 600, p_pulsebreaktime = 50, p_pulsemaketime = 50, p_pulseaftertime = 750\<rparr>"

theorem settings_read_back_witness:
  "(\<exists>T. ioctl_setgains True True True 1 (replicate 256 1) (replicate 256 2) 0 gain_ex = Some (0, T) \<and>
      ioctl_getgains True True 1 0 T = Some (Inr (replicate 256 1, replicate 256 2))) \<and>
   (\<exists>U q. ioctl_set_params timing_ex 1 0 gain_ex = (0, U) \<and> ioctl_get_params (\<lambda>_. False) 1 0 U = Inr q \<and> timing.truncate q = timing_ex)"
proof -
  have l: "length (chans (w_sys (sw gain_ex))) = 1024" by (simp add: gain_ex_def cfg_ex_def)
  have c: "the_chan 1 gain_ex = Some (set_flag FLAGBIT_AUDIO (cfg_chan 1))"
    by (simp add: gain_ex_def the_chan_upd_ch cfg_ex_def) (simp add: the_chan_def w_chan_def)
  have g: "gain_chan 1 0 gain_ex = Some (Inr (1, set_flag FLAGBIT_AUDIO (cfg_chan 1)))"
    using c by (simp add: gain_chan_def chan_at_def the_chan_def w_chan_def flagged_set_flag)
  have v: "valid_channel (param_chan 1 0) gain_ex = Inr (set_flag FLAGBIT_AUDIO (cfg_chan 1))"
    using c by (simp add: valid_channel_def param_chan_def)
  have T: "ioctl_setgains True True True 1 (replicate 256 1) (replicate 256 2) 0 gain_ex =
      Some (0, upd_ch 1 (apply_gains (replicate 256 1) (replicate 256 2)) gain_ex)" by (simp add: ioctl_setgains_def g)
  have U: "ioctl_set_params timing_ex 1 0 gain_ex = (0, upd_ch 1 (set_timing timing_ex) gain_ex)"
    by (simp add: ioctl_set_params_def v) (simp add: param_chan_def)
  have r: "length (replicate 256 (b :: byte)) = 256" for b by simp
  note P = settings_read_back [OF l]
  show ?thesis
    using T U P [THEN conjunct1, rule_format, OF conjI [OF r conjI [OF r T]]] P [THEN conjunct2, rule_format, OF U, of "\<lambda>_. False"] by blast
qed

end
