(* ===== verification/Files.thy ===== *)
theory Files
  imports Config
begin

text \<open>
  The device file of a channel in \<open>dahdi-base.c\<close>: which channel a file's operations are for (\<open>dahdi_read\<close>, \<open>dahdi_write\<close>,
  \<open>dahdi_poll\<close>, \<open>dahdi_ioctl\<close>), \<open>dahdi_chan_poll\<close>, the ioctls of \<open>dahdi_chan_ioctl\<close> and \<open>dahdi_chanandpseudo_ioctl\<close> that change
  the mode of a channel or read its state. The theorems say that the modes stay consistent and that poll tells what
  reading and writing do. \<open>None\<close> is an access outside the table of channels.
\<close>

section \<open>The mode of a channel\<close>

datatype mode_cmd = SETSIGFREEZE int | HDLCRAWMODE int | HDLCFCSMODE int | HDLC_RATE int | SETTXBITS int | LOOPBACK int
  | SETLAW int | SETLINEAR int | HDLCPPP

text \<open>\<open>fasthdlc_init\<close> of both directions, in the rate of the channel.\<close>

definition restart_hdlc :: "dahdi_chan \<Rightarrow> dahdi_chan" where
  "restart_hdlc c =
     (let m = (if flagged c FLAGBIT_HDLC56 then FASTHDLC_MODE_56 else FASTHDLC_MODE_64)
      in c\<lparr>rxhdlc := fasthdlc_init m, txhdlc := fasthdlc_init m\<rparr>)"

definition clear_mode :: "dahdi_chan \<Rightarrow> dahdi_chan" where
  "clear_mode c = clear_flag FLAGBIT_FCS (clear_flag FLAGBIT_HDLC (clear_flag FLAGBIT_AUDIO c))"

fun mode_ioctl :: "(int \<Rightarrow> dahdi_span) \<Rightarrow> mode_cmd \<Rightarrow> dahdi_chan \<Rightarrow> int \<times> dahdi_chan" where
  "mode_ioctl at (SETSIGFREEZE j) c = (0, put_flag FLAGBIT_SIGFREEZE (j \<noteq> 0) c)"
| "mode_ioctl at (HDLCRAWMODE j) c =
     (if sig c \<noteq> SIG_CLEAR then (- EINVAL, c)
      else
        let c = clear_mode c
        in (0, if j \<noteq> 0 then restart_hdlc (set_flag FLAGBIT_HDLC c) else c))"
| "mode_ioctl at (HDLCFCSMODE j) c =
     (if sig c \<noteq> SIG_CLEAR then (- EINVAL, c)
      else
        let c = clear_mode c
        in (0, if j \<noteq> 0 then restart_hdlc (set_flag FLAGBIT_FCS (set_flag FLAGBIT_HDLC c)) else c))"
| "mode_ioctl at (HDLC_RATE j) c = (0, restart_hdlc (put_flag FLAGBIT_HDLC56 (j = 56) c))"
| "mode_ioctl at (SETTXBITS j) c =
     (if sig c \<noteq> SIG_CAS then (- EINVAL, c)
      else (0, snd (dahdi_cas_setbits (case chan_span c of None \<Rightarrow> span0 | Some a \<Rightarrow> at a) j c)))"
| "mode_ioctl at (LOOPBACK j) c = (0, put_flag FLAGBIT_LOOPED (j \<noteq> 0) c)"
| "mode_ioctl at (SETLAW j) c = (if j < 0 \<or> j > 2 then (- EINVAL, c) else (0, dahdi_set_law at j c))"
| "mode_ioctl at (SETLINEAR j) c =
     (if \<not> flagged c FLAGBIT_AUDIO then (- EINVAL, c) else (0, put_flag FLAGBIT_LINEAR (j \<noteq> 0) c))"
| "mode_ioctl at HDLCPPP c = (- ENOSYS, c)"

text \<open>
  \<open>DAHDI_AUDIOMODE\<close> of the channel with number \<open>n\<close>. Coming out of audio mode the channel leaves its conference and gives up its
  gains and its echo canceller.
\<close>

definition leave_audio :: "dahdi_span \<Rightarrow> dahdi_chan \<Rightarrow> dahdi_chan" where
  "leave_audio span c =
     (let c = (clear_flag FLAGBIT_AUDIO c)\<lparr>confn := 0, confna := 0\<rparr>;
          c = (if chan_span c \<noteq> None \<and> has_dacs span then emit (SpanDacs None) c else c);
          c = zero_chunks (c\<lparr>confmode := 0, confmute := 0\<rparr>)
      in default_gains (reset_conf (c\<lparr>ec_state := None\<rparr>)))"

definition ioctl_audiomode :: "int \<Rightarrow> nat \<Rightarrow> dahdi_chan \<Rightarrow> dahdi_sys \<Rightarrow> int \<times> dahdi_sys" where
  "ioctl_audiomode j n c S =
     (if sig c \<noteq> SIG_CLEAR then (- EINVAL, S)
      else if j \<noteq> 0 then (0, set_chan n (clear_flag FLAGBIT_FCS (clear_flag FLAGBIT_HDLC (set_flag FLAGBIT_AUDIO c))) S)
      else
        let oldconf = confna c; had_ec = ec_state c \<noteq> None; cur = ec_cur S n;
            S = set_chan n (leave_audio (span_of S c) c) S;
            S = S\<lparr>ec_cur := (ec_cur S)(n := None)\<rparr>;
            S = (if had_ec then S\<lparr>sys_refs := release_echocan cur (sys_refs S)\<rparr> else S)
        in (0, if oldconf \<noteq> 0 then on_conf (check_conf oldconf) S else S))"

section \<open>What a channel tells\<close>

datatype query_cmd = GETSIGFREEZE | GETRXBITS | DIALING | GETCONFMUTE | GETTONEZONE | GET_BLOCKSIZE | CHANNO

text \<open>\<open>DAHDI_GETTONEZONE\<close> of a channel without a zone gives what \<open>j\<close> held before; \<open>junk\<close> is that value.\<close>

fun query_ioctl :: "int \<Rightarrow> int \<Rightarrow> query_cmd \<Rightarrow> dahdi_chan \<Rightarrow> int + int" where
  "query_ioctl junk unit GETSIGFREEZE c = Inr (of_bool (flagged c FLAGBIT_SIGFREEZE))"
| "query_ioctl junk unit GETRXBITS c = Inr (rxsig c)"
| "query_ioctl junk unit DIALING c = Inr (dialing c)"
| "query_ioctl junk unit GETCONFMUTE c = (if \<not> flagged c FLAGBIT_AUDIO then Inl (- EINVAL) else Inr (confmute c))"
| "query_ioctl junk unit GETTONEZONE c = Inr (if curzone c \<noteq> None then tonezone c else junk)"
| "query_ioctl junk unit GET_BLOCKSIZE c = Inr (blocksize c)"
| "query_ioctl junk unit CHANNO c = Inr unit"

record bufferinfo =
  bi_rxbufpolicy :: int
  bi_txbufpolicy :: int
  bi_numbufs :: int
  bi_bufsize :: int
  bi_readbufs :: int
  bi_writebufs :: int

definition ioctl_get_bufinfo :: "dahdi_chan \<Rightarrow> bufferinfo" where
  "ioctl_get_bufinfo c =
     \<lparr>bi_rxbufpolicy = rxbufpolicy c, bi_txbufpolicy = txbufpolicy c, bi_numbufs = numbufs c, bi_bufsize = blocksize c,
      bi_readbufs = -1, bi_writebufs = -1\<rparr>"

text \<open>\<open>DAHDI_SYNC\<close>: whether it returns, or waits.\<close>

definition sync_done :: "dahdi_chan \<Rightarrow> bool" where
  "sync_done c \<longleftrightarrow> \<not> outwritebuf c > -1"

section \<open>Poll\<close>

abbreviation (input) POLLIN :: int where "POLLIN \<equiv> 1"
abbreviation (input) POLLPRI :: int where "POLLPRI \<equiv> 2"
abbreviation (input) POLLOUT :: int where "POLLOUT \<equiv> 4"
abbreviation (input) POLLRDNORM :: int where "POLLRDNORM \<equiv> 64"
abbreviation (input) POLLWRNORM :: int where "POLLWRNORM \<equiv> 256"

definition dahdi_chan_poll :: "dahdi_chan option \<Rightarrow> int" where
  "dahdi_chan_poll chan =
     (case chan of
        None \<Rightarrow> - EINVAL
      | Some c \<Rightarrow>
          let ret = 0;
              ret = (if inwritebuf c > -1 then ret OR (POLLOUT OR POLLWRNORM) else ret);
              ret = (if outreadbuf c > -1 \<and> \<not> rxdisable c then ret OR (POLLIN OR POLLRDNORM) else ret)
          in if has_event c then ret OR POLLPRI else ret)"

section \<open>The channel of a file\<close>

text \<open>
  \<open>dahdi_read\<close> and \<open>dahdi_write\<close>: the unit whose channel is read or written. A file of minor 254 or 255 is for the channel it
  was given, under the number that channel has now.
\<close>

definition data_unit :: "int \<Rightarrow> file_data \<Rightarrow> int + int" where
  "data_unit unit d =
     (if unit = 0 \<or> unit = 253 then Inl (- EINVAL)
      else if unit = 254 \<or> unit = 255 then (case d of Chan_Data n \<Rightarrow> Inr n | _ \<Rightarrow> Inl (- EINVAL))
      else Inr unit)"

definition dahdi_read :: "bool \<Rightarrow> (nat \<Rightarrow> bool) \<Rightarrow> int \<Rightarrow> int \<Rightarrow> file_data \<Rightarrow> dahdi_sys \<Rightarrow> (rw_result \<times> dahdi_sys) option" where
  "dahdi_read nonblock fault count unit d S =
     (case data_unit unit d of
        Inl e \<Rightarrow> Some (Failed e, S)
      | Inr u \<Rightarrow>
          (case chan_at (w_sys (sw S)) u of
             None \<Rightarrow> None
           | Some None \<Rightarrow> Some (Failed (- EINVAL), S)
           | Some (Some c) \<Rightarrow> let (r, c) = dahdi_chan_read nonblock fault count c in Some (r, set_chan (nat u) c S)))"

definition dahdi_write ::
  "fcs_step \<Rightarrow> bool \<Rightarrow> (nat \<Rightarrow> bool) \<Rightarrow> int \<Rightarrow> userdata \<Rightarrow> int \<Rightarrow> file_data \<Rightarrow> dahdi_sys \<Rightarrow> (rw_result \<times> dahdi_sys) option"
where
  "dahdi_write ppp_fcs nonblock fault count usr unit d S =
     (case data_unit unit d of
        Inl e \<Rightarrow> Some (Failed e, S)
      | Inr u \<Rightarrow>
          (case chan_at (w_sys (sw S)) u of
             None \<Rightarrow> None
           | Some None \<Rightarrow> Some (Failed (- EINVAL), S)
           | Some (Some c) \<Rightarrow>
               let (r, c) = dahdi_chan_write ppp_fcs (span_of S c) nonblock fault count usr c in Some (r, set_chan (nat u) c S)))"

text \<open>\<open>Inl\<close>: the mask that poll returns. \<open>Inr\<close>: the poll of a timer; the transcoder's poll is \<open>tc\<close>.\<close>

definition dahdi_poll :: "int \<Rightarrow> int \<Rightarrow> file_data \<Rightarrow> dahdi_sys \<Rightarrow> (int + (int + bool)) option" where
  "dahdi_poll tc unit d S =
     (if unit = 0 then Some (Inl (- EINVAL))
      else if unit = 250 then Some (Inl tc)
      else if unit = 253 then
        Some (Inr (dahdi_timer_poll (case d of Timer_Data t \<Rightarrow> timer_at t (w_timers (sw S)) | _ \<Rightarrow> None)))
      else if unit = 254 \<or> unit = 255 then
        (case d of
           Chan_Data n \<Rightarrow> map_option (\<lambda>c. Inl (dahdi_chan_poll c)) (chan_at (w_sys (sw S)) n)
         | _ \<Rightarrow> Some (Inl (- EINVAL)))
      else map_option (\<lambda>c. Inl (dahdi_chan_poll c)) (chan_at (w_sys (sw S)) unit))"

text \<open>Which set of ioctls a file has, with the unit it is for.\<close>

datatype ioctl_of = Ctl | Timer nat | Channel int | Pseudo int | Prechan | Bad int

definition dahdi_ioctl_of :: "int \<Rightarrow> file_data \<Rightarrow> ioctl_of" where
  "dahdi_ioctl_of unit d =
     (if unit = 0 then Ctl
      else if unit = 250 then Bad (- EFAULT)
      else if unit = 253 then (case d of Timer_Data t \<Rightarrow> Timer t | _ \<Rightarrow> Bad (- EINVAL))
      else if unit = 254 then (case d of Chan_Data n \<Rightarrow> Channel n | _ \<Rightarrow> Prechan)
      else if unit = 255 then (case d of Chan_Data n \<Rightarrow> Pseudo n | _ \<Rightarrow> Bad (- EINVAL))
      else Channel unit)"

section \<open>The modes stay consistent\<close>

text \<open>A frame check sequence only with HDLC framing, audio never with HDLC framing, a pseudo channel is clear.\<close>

definition mode_ok :: "dahdi_chan \<Rightarrow> bool" where
  "mode_ok c \<longleftrightarrow> (flagged c FLAGBIT_FCS \<longrightarrow> flagged c FLAGBIT_HDLC) \<and> (flagged c FLAGBIT_HDLC \<longrightarrow> \<not> flagged c FLAGBIT_AUDIO) \<and>
     (flagged c FLAGBIT_PSEUDO \<longrightarrow> sig c = SIG_CLEAR)"

definition calm :: "dahdi_chan \<Rightarrow> dahdi_chan \<Rightarrow> bool" where
  "calm c d \<longleftrightarrow> sig d = sig c \<and> (\<forall>F \<in> {FLAGBIT_HDLC, FLAGBIT_FCS, FLAGBIT_AUDIO, FLAGBIT_PSEUDO}. flagged d F = flagged c F)"

lemma calm_mode: "calm c d \<Longrightarrow> mode_ok d = mode_ok c"
  by (auto simp: calm_def mode_ok_def)

lemma calm_trans: "calm a b \<Longrightarrow> calm b c \<Longrightarrow> calm a c"
  by (simp add: calm_def)

lemma calmI: "sig d = sig c \<Longrightarrow> cflags d = cflags c \<Longrightarrow> calm c d"
  by (simp add: calm_def)

lemma calm_flag [simp]:
  "F \<notin> {FLAGBIT_HDLC, FLAGBIT_FCS, FLAGBIT_AUDIO, FLAGBIT_PSEUDO} \<Longrightarrow> calm c (put_flag F b c)"
  "F \<notin> {FLAGBIT_HDLC, FLAGBIT_FCS, FLAGBIT_AUDIO, FLAGBIT_PSEUDO} \<Longrightarrow> calm c (set_flag F c)"
  "F \<notin> {FLAGBIT_HDLC, FLAGBIT_FCS, FLAGBIT_AUDIO, FLAGBIT_PSEUDO} \<Longrightarrow> calm c (clear_flag F c)"
  by (auto simp: calm_def put_flag_def flagged_set_flag flagged_clear_flag) (simp_all add: set_flag_def clear_flag_def)

lemma sig_flag [simp]: "sig (set_flag F c) = sig c" "sig (clear_flag F c) = sig c" "sig (put_flag F b c) = sig c"
  by (simp_all add: set_flag_def clear_flag_def put_flag_def)

lemma sig_restart [simp]: "sig (restart_hdlc c) = sig c" "cflags (restart_hdlc c) = cflags c"
  by (simp_all add: restart_hdlc_def Let_def)

lemma flagged_put_flag: "flagged (put_flag F b c) G \<longleftrightarrow> (if G = F then b \<and> F < 32 else flagged c G)"
  using bit_imp_le_length [of "cflags c" F] by (auto simp: put_flag_def flagged_set_flag flagged_clear_flag)

lemma mode_ioctl_ok: "mode_ok c \<Longrightarrow> mode_ok (snd (mode_ioctl at cmd c))"
proof (cases cmd)
  case (HDLC_RATE j)
  assume "mode_ok c"
  moreover have "calm c (restart_hdlc (put_flag FLAGBIT_HDLC56 (j = 56) c))"
    by (rule calm_trans [OF calm_flag(1) calmI]) simp_all
  ultimately show ?thesis using HDLC_RATE calm_mode by simp
next
  case (SETTXBITS j)
  assume m: "mode_ok c"
  have "calm c (snd (dahdi_cas_setbits sp j c))" for sp
    by (rule calmI) (simp_all add: dahdi_cas_setbits_def emit_def)
  then have "mode_ok (snd (dahdi_cas_setbits sp j c))" for sp using calm_mode m by blast
  then show ?thesis using SETTXBITS m by simp
next
  case (SETLAW j)
  assume "mode_ok c"
  moreover have "calm c (dahdi_set_law at j c)" by (rule calmI) (simp_all add: dahdi_set_law_def Let_def)
  ultimately show ?thesis using SETLAW calm_mode by simp
qed (auto simp: mode_ok_def Let_def clear_mode_def flagged_set_flag flagged_clear_flag flagged_put_flag)

lemma leave_audio_ok: "mode_ok c \<Longrightarrow> mode_ok (leave_audio span c)"
  by (auto simp: mode_ok_def leave_audio_def Let_def default_gains_def reset_conf_def zero_chunks_def emit_def clear_flag_def
      bit_and_iff bit_not_iff bit_exp_iff)

lemma init_flags_ok: "mode_ok c \<Longrightarrow> mode_ok (init_flags c) \<and> sig (init_flags c) = sig c \<and>
    flagged (init_flags c) FLAGBIT_PSEUDO = flagged c FLAGBIT_PSEUDO \<and>
    (sig c = SIG_CLEAR \<longrightarrow> \<not> flagged (init_flags c) FLAGBIT_HDLC)"
  by (auto simp: mode_ok_def init_flags_def Let_def flagged_clear_flag)

text \<open>Opening a channel: what happens to its mode, and that no other channel is touched.\<close>

lemma the_chan_frame [simp]: "the_chan k (on_conf (check_conf x) S) = the_chan k S" "the_chan k (on_zones f S) = the_chan k S"
  "the_chan k (S\<lparr>sys_refs := r\<rparr>) = the_chan k S" "the_chan k (S\<lparr>ec_cur := e\<rparr>) = the_chan k S"
  "k \<noteq> n \<Longrightarrow> the_chan k (set_chan n c S) = the_chan k S"
  by (simp_all add: the_chan_def w_chan_def set_chan_def w_upd_def upd_chan_def)

lemma set_chan_same: "the_chan n S \<noteq> None \<Longrightarrow> n < length (chans (w_sys (sw S))) \<Longrightarrow> the_chan n (set_chan n c S) = Some c"
  by (auto simp: set_chan_upd_ch the_chan_upd_ch)

lemma chans_length [simp]: "length (chans (w_sys (sw (set_chan n c S)))) = length (chans (w_sys (sw S)))"
  "length (chans (w_sys (sw (on_conf (check_conf x) S)))) = length (chans (w_sys (sw S)))"
  "length (chans (w_sys (sw (on_zones f S)))) = length (chans (w_sys (sw S)))"
  by (simp_all add: set_chan_upd_ch)

definition only :: "nat \<Rightarrow> dahdi_sys \<Rightarrow> dahdi_sys \<Rightarrow> bool" where
  "only n S T \<longleftrightarrow> (\<forall>k. k \<noteq> n \<longrightarrow> the_chan k T = the_chan k S) \<and> length (chans (w_sys (sw T))) = length (chans (w_sys (sw S))) \<and>
     (the_chan n S \<noteq> None \<longrightarrow> the_chan n T \<noteq> None)"

lemma only_trans: "only n A B \<Longrightarrow> only n B C \<Longrightarrow> only n A C"
  by (simp add: only_def)

lemma only_set_chan [simp]: "only n S (set_chan n c S)"
proof (cases "n < length (chans (w_sys (sw S)))")
  case True
  then show ?thesis by (simp add: only_def) (simp add: set_chan_upd_ch the_chan_upd_ch)
next
  case False
  then have "w_upd n (\<lambda>_. c) (sw S) = sw S" by (simp add: w_upd_def upd_chan_def list_update_beyond not_less)
  then show ?thesis by (simp add: only_def set_chan_def)
qed

lemma only_parts [simp]: "only n S S" "only n S (on_conf (check_conf x) S)" "only n S (on_zones f S)" "only n S (S\<lparr>sys_refs := r\<rparr>)"
  "only n S (S\<lparr>ec_cur := e\<rparr>)"
  by (simp_all add: only_def)

lemma init_last_mode: "mode_ok c \<Longrightarrow> mode_ok (init_last at span drv G c) \<and> sig (init_last at span drv G c) = sig c \<and>
    flagged (init_last at span drv G c) FLAGBIT_PSEUDO = flagged c FLAGBIT_PSEUDO \<and>
    (sig c = SIG_CLEAR \<longrightarrow> \<not> flagged (init_last at span drv G c) FLAGBIT_HDLC)"
proof -
  assume m: "mode_ok c"
  define e where "e = dahdi_set_law at 0 ((default_gains ((zero_chunks c)\<lparr>confmute := 0, gotgs := False, curtone := None,
     tonep := 0, pdialcount := 0\<rparr>))\<lparr>evring := flush_q (evring c)\<rparr>)"
  define f where "f = snd (dahdi_hangup span drv e)"
  have z: "evring (default_gains ((zero_chunks c)\<lparr>confmute := 0, gotgs := False, curtone := None, tonep := 0, pdialcount := 0\<rparr>)) = evring c"
    by (simp add: default_gains_def zero_chunks_def)
  have i: "init_last at span drv G c = init_cadence G (init_flags f)" by (simp add: init_last_def Let_def f_def e_def z)
  have "sig e = sig c" "cflags e = cflags c"
    by (simp_all add: e_def default_gains_def zero_chunks_def dahdi_set_law_def Let_def)
  then have f: "sig f = sig c" "cflags f = cflags c" using hangup_keeps [of e span drv] by (simp_all add: f_def plain_def)
  then have "mode_ok f" using m calm_mode [OF calmI] by blast
  note F = init_flags_ok [OF this]
  have k: "calm (init_flags f) (init_cadence G (init_flags f))" by (rule calmI) (simp_all add: init_cadence_def)
  show ?thesis unfolding i using F f calm_mode [OF k] k by (auto simp: calm_def)
qed

lemma reallocbufs_mode: "dahdi_reallocbufs k1 k2 b n c = (r, d) \<Longrightarrow> sig d = sig c \<and> cflags d = cflags c"
  by (auto simp: dahdi_reallocbufs_def Let_def split: if_splits)

lemma initialize_mode:
  assumes i: "initialize_channel kz1 kz2 drv n c S = (res, T)" and n: "the_chan n S \<noteq> None" "n < length (chans (w_sys (sw S)))"
    and c: "mode_ok c"
  shows "only n S T \<and> (res = 0 \<longrightarrow> (\<exists>d. the_chan n T = Some d \<and> mode_ok d \<and> sig d = sig c \<and>
     flagged d FLAGBIT_PSEUDO = flagged c FLAGBIT_PSEUDO \<and> (sig c = SIG_CLEAR \<longrightarrow> \<not> flagged d FLAGBIT_HDLC))) \<and>
     (res \<noteq> 0 \<longrightarrow> T = S)"
proof -
  obtain r b where R: "dahdi_reallocbufs kz1 kz2 1024 2 c = (r, b)" by fastforce
  show ?thesis
  proof (cases "r = 0")
    case False
    then show ?thesis using i R by (simp add: initialize_channel_def)
  next
    case True
    define d where "d = init_first b"
    define A where "A = set_chan n d S"
    define B where "B = (if confna d \<noteq> 0 then on_conf (check_conf (confna d)) A else A)"
    define e where "e = init_last (span_at B) (span_of S b) drv (w_zones (sw B)) (init_conf (span_of S b) d)"
    define C where "C = B\<lparr>ec_cur := (ec_cur B)(n := None)\<rparr>"
    define D where "D = (if ec_state b \<noteq> None then C\<lparr>sys_refs := release_echocan (ec_cur S n) (sys_refs C)\<rparr> else C)"
    obtain z G f where z: "set_tone_zone (-1) (w_zones (sw D)) e = (z, G, f)" by (metis prod_cases3)
    have T: "T = set_chan n f (on_zones (\<lambda>_. G) D)" and r: "res = 0"
      using i True unfolding initialize_channel_def R Let_def prod.case d_def [symmetric] A_def [symmetric] B_def [symmetric]
        e_def [symmetric] C_def [symmetric] D_def [symmetric] z by simp_all
    have "only n S A" by (simp add: A_def)
    moreover have "only n A B" by (simp add: B_def)
    moreover have "only n B C" by (simp add: C_def)
    moreover have "only n C D" by (simp add: D_def)
    moreover have "only n D (on_zones (\<lambda>_. G) D)" by simp
    ultimately have o: "only n S (on_zones (\<lambda>_. G) D)" using only_trans by blast
    then have oT: "only n S T" using only_trans [OF o only_set_chan] by (simp add: T)
    have "mode_ok (init_conf (span_of S b) d)" "sig (init_conf (span_of S b) d) = sig c" "flagged (init_conf (span_of S b) d) F = flagged c F" for F
    proof -
      have k: "sig (init_conf (span_of S b) d) = sig c" "cflags (init_conf (span_of S b) d) = cflags c"
        using reallocbufs_mode [OF R] by (simp_all add: init_conf_def emit_def Let_def d_def init_first_parts)
      then show "mode_ok (init_conf (span_of S b) d)" using c calm_mode [OF calmI] by blast
      show "sig (init_conf (span_of S b) d) = sig c" "flagged (init_conf (span_of S b) d) F = flagged c F" using k by simp_all
    qed
    note E = init_last_mode [OF this(1), of "span_at B" "span_of S b" drv "w_zones (sw B)", folded e_def, unfolded this(2,3)]
    have "sig f = sig e" "cflags f = cflags e" using z by (auto simp: set_tone_zone_def Let_def split: if_splits option.splits)
    then have "mode_ok f" "sig f = sig c" "flagged f FLAGBIT_PSEUDO = flagged c FLAGBIT_PSEUDO" "sig c = SIG_CLEAR \<longrightarrow> \<not> flagged f FLAGBIT_HDLC"
      using E calm_mode [OF calmI, of f e] by auto
    moreover have "the_chan n T = Some f" unfolding T using o n by (intro set_chan_same) (simp_all add: only_def)
    ultimately show ?thesis using oT r by blast
  qed
qed

lemma close_calm: "calm c (close_first span drv c)" "calm c (close_conf_fields c)" "calm c (close_last at span old c)"
proof -
  have h: "calm c (snd (dahdi_hangup span drv c))" for c by (rule calmI) (use hangup_keeps [of c span drv] in \<open>simp_all add: plain_def\<close>)
  define a where "a = (if flagged c FLAGBIT_NOSTDTXRX then c else snd (dahdi_reallocbufs True True 0 0 c))"
  define b where "b = a\<lparr>ec_state := None, readchunkpreec := None, curtone := None, curzone := None, cadencepos := 0, pdialcount := 0\<rparr>"
  have "calm c (snd (dahdi_reallocbufs True True 0 0 c))"
    using reallocbufs_mode [of True True 0 0 c "fst (dahdi_reallocbufs True True 0 0 c)" "snd (dahdi_reallocbufs True True 0 0 c)"]
    by (intro calmI) simp_all
  then have "calm c a" by (simp add: a_def calmI)
  moreover have "calm a b" by (rule calmI) (simp_all add: b_def)
  moreover have "calm b (snd (dahdi_hangup span drv b))" by (rule h)
  moreover have "close_first span drv c = (snd (dahdi_hangup span drv b))\<lparr>itimerset := 0, itimer := 0, pulsecount := 0, pulsetimer := 0,
     ringdebtimer := 0, txdialbuf := [], digitmode := DIGIT_MODE_DTMF, dialing := 0, afterdialingtimer := 0, iomask := 0\<rparr>"
    unfolding close_first_def Let_def a_def [symmetric] b_def [symmetric] ..
  then have "calm (snd (dahdi_hangup span drv b)) (close_first span drv c)" by (intro calmI) simp_all
  ultimately show "calm c (close_first span drv c)" using calm_trans by blast
  show "calm c (close_conf_fields c)" by (rule calmI) (simp_all add: close_conf_fields_def Let_def)
  show "calm c (close_last at span old c)"
    by (auto simp: calm_def close_last_def Let_def emit_def zero_chunks_def dahdi_set_law_def default_gains_def reset_conf_def
        flagged_clear_flag)
qed

lemma close_channel_mode:
  assumes "close_channel drv (Some n) cur c S = (c', S')"
  shows "calm c c' \<and> only n S S'"
proof -
  define A where "A = on_zones (\<lambda>G. fst (release_tone_zone G c)) S"
  define d where "d = close_conf_fields (close_first (span_of S c) drv c)"
  define B where "B = set_chan n d A"
  define C where "C = (if confna c \<noteq> 0 then on_conf (check_conf (confna c)) B else B)"
  define e where "e = close_last (span_at C) (span_of S c) (confna c) d"
  define D where "D = set_chan n e C"
  define F where "F = (if ec_state c \<noteq> None then D\<lparr>sys_refs := release_echocan cur (sys_refs D)\<rparr> else D)"
  have r: "c' = e" "S' = F\<lparr>ec_cur := (ec_cur F)(n := None)\<rparr>"
    using assms unfolding close_channel_def Let_def put_back_def option.case A_def [symmetric] d_def [symmetric] B_def [symmetric]
      C_def [symmetric] e_def [symmetric] D_def [symmetric] F_def [symmetric] by simp_all
  have "calm c e" using calm_trans [OF close_calm(1) calm_trans [OF close_calm(2,3)]] by (simp add: e_def d_def)
  moreover have "only n S A" by (simp add: A_def)
  moreover have "only n A B" by (simp add: B_def)
  moreover have "only n B C" by (simp add: C_def)
  moreover have "only n C D" by (simp add: D_def)
  moreover have "only n D F" by (simp add: F_def)
  moreover have "only n F S'" by (simp add: r)
  ultimately show ?thesis using only_trans r(1) by blast
qed

definition modes_ok :: "dahdi_sys \<Rightarrow> bool" where
  "modes_ok S \<longleftrightarrow> length (chans (w_sys (sw S))) = DAHDI_MAX_CHANNELS \<and>
     (\<forall>k < DAHDI_MAX_CHANNELS. \<forall>c. the_chan k S = Some c \<longrightarrow> mode_ok c)"

lemma modes_only:
  assumes "modes_ok S" "only n S T" "n < DAHDI_MAX_CHANNELS \<Longrightarrow> \<forall>d. the_chan n T = Some d \<longrightarrow> mode_ok d"
  shows "modes_ok T"
  using assms unfolding modes_ok_def only_def by metis

lemma modes_set_chan: "modes_ok S \<Longrightarrow> mode_ok c \<Longrightarrow> modes_ok (set_chan n c S)"
proof -
  assume S: "modes_ok S" and c: "mode_ok c"
  show ?thesis
  proof (rule modes_only [OF S only_set_chan])
    assume "n < DAHDI_MAX_CHANNELS"
    then show "\<forall>d. the_chan n (set_chan n c S) = Some d \<longrightarrow> mode_ok d"
      using S c by (auto simp: modes_ok_def set_chan_upd_ch the_chan_upd_ch)
  qed
qed

lemma specchan_open_modes:
  assumes S: "modes_ok S" and T: "dahdi_specchan_open E nb u S = Some (r, T)"
  shows "modes_ok T"
proof (cases "chan_at (w_sys (sw S)) u")
  case (Some x)
  show ?thesis
  proof (cases x)
    case None
    then show ?thesis using T Some S by (simp add: dahdi_specchan_open_def)
  next
    case (Some c)
    define n where "n = nat u"
    have c: "the_chan n S = Some c" "n < DAHDI_MAX_CHANNELS" "chan_at (w_sys (sw S)) u = Some (Some c)"
      using Some \<open>chan_at (w_sys (sw S)) u = Some x\<close> by (auto simp: chan_at_def the_chan_def w_chan_def n_def split: if_splits)
    have len: "n < length (chans (w_sys (sw S)))" using S c(2) by (simp add: modes_ok_def)
    define c1 where "c1 = set_flag FLAGBIT_OPEN c"
    define S1 where "S1 = set_chan n c1 S"
    have m: "mode_ok c1" using S c calm_mode [OF calm_flag(2)] by (simp add: modes_ok_def c1_def)
    have S1: "modes_ok S1" "the_chan n S1 \<noteq> None" "n < length (chans (w_sys (sw S1)))"
      using modes_set_chan [OF S m] len c(1) by (simp_all add: S1_def set_chan_same)
    obtain res S2 where i: "initialize_channel (oe_kz1 E) (oe_kz2 E) (oe_drv E) n c1 S1 = (res, S2)" by fastforce
    note I = initialize_mode [OF i S1(2,3) m]
    have open_def: "T = S \<or> (if res \<noteq> 0 then T = set_chan n (clear_flag FLAGBIT_OPEN c1) S2
      else \<exists>d. the_chan n S2 = Some d \<and>
        (let d = (if flagged d FLAGBIT_PSEUDO then set_flag FLAGBIT_AUDIO d else d)
         in T = set_chan n (d\<lparr>chan_file := Some nb\<rparr>) S2 \<or>
            (\<exists>e S3. close_channel (oe_drv E) (Some n) (ec_cur S2 n) d S2 = (e, S3) \<and> T = set_chan n (clear_flag FLAGBIT_OPEN e) S3)))"
      using T i unfolding dahdi_specchan_open_def c(3) option.case n_def [symmetric] c1_def [symmetric] S1_def [symmetric] Let_def
      by (auto split: if_splits option.splits prod.splits)
    have m1: "mode_ok (clear_flag FLAGBIT_OPEN c)" if "mode_ok c" for c using that calm_mode [OF calm_flag(3)] by simp
    show ?thesis
    proof (cases "T = S")
      case False
      note O = open_def [simplified False, simplified]
      show ?thesis
      proof (cases "res = 0")
        case False
        then show ?thesis using O I S1(1) modes_set_chan [OF _ m1 [OF m]] by simp
      next
        case True
        obtain d where d: "the_chan n S2 = Some d" "mode_ok d" "sig d = sig c1" "flagged d FLAGBIT_PSEUDO = flagged c1 FLAGBIT_PSEUDO"
          "sig c1 = SIG_CLEAR \<longrightarrow> \<not> flagged d FLAGBIT_HDLC" using I True by blast
        have S2: "modes_ok S2" using modes_only [OF S1(1), of n S2] I d by auto
        define e where "e = (if flagged d FLAGBIT_PSEUDO then set_flag FLAGBIT_AUDIO d else d)"
        have e: "mode_ok e" using d by (auto simp: e_def mode_ok_def flagged_set_flag)
        have f: "mode_ok (e\<lparr>chan_file := Some nb\<rparr>)" using e calm_mode [OF calmI, of "e\<lparr>chan_file := Some nb\<rparr>" e] by simp
        from O True d(1) consider "T = set_chan n (e\<lparr>chan_file := Some nb\<rparr>) S2"
          | g S3 where "close_channel (oe_drv E) (Some n) (ec_cur S2 n) e S2 = (g, S3)" "T = set_chan n (clear_flag FLAGBIT_OPEN g) S3"
          unfolding Let_def e_def by auto
        then show ?thesis
        proof cases
          case 1
          then show ?thesis using modes_set_chan [OF S2 f] by simp
        next
          case 2
          note C = close_channel_mode [OF 2(1)]
          have g: "mode_ok (clear_flag FLAGBIT_OPEN g)" using m1 C calm_mode e by blast
          have "only n S2 T" using only_trans [OF _ only_set_chan] C 2(2) by blast
          moreover have "the_chan n T = Some (clear_flag FLAGBIT_OPEN g)"
            unfolding 2(2) by (rule set_chan_same) (use C d(1) I S1(3) in \<open>auto simp: only_def\<close>)
          ultimately show ?thesis using modes_only [OF S2] g by auto
        qed
      qed
    qed (use S in simp)
  qed
qed (use T in \<open>simp add: dahdi_specchan_open_def\<close>)

lemma has_bits_sub: "has_bits s a \<Longrightarrow> a AND b = b \<Longrightarrow> has_bits s b"
  unfolding has_bits_def by (metis and.assoc)

text \<open>A pseudo channel has no span, so it is never configured.\<close>

lemma in_mode_ok: "in_mode s m d \<Longrightarrow> \<not> flagged d FLAGBIT_PSEUDO \<Longrightarrow> mode_ok d"
  using has_bits_sub [of s SIG_HDLCFCS SIG_HDLCRAW] has_bits_sub [of s SIG_HDLCRAW SIG_CLEAR] by (auto simp: in_mode_def mode_ok_def)

lemma unlinked_mode: "unlinked d = unlinked c \<Longrightarrow> mode_ok d = mode_ok c"
  using unlinked_fields [of d c] by (intro calm_mode calmI) auto

lemma chanconfig_modes:
  assumes S: "modes_ok S" and T: "ioctl_chanconfig E ch S = Some (r, T)"
    and pseudo: "\<And>n c. n < DAHDI_MAX_CHANNELS \<Longrightarrow> the_chan n S = Some c \<Longrightarrow> flagged c FLAGBIT_PSEUDO \<Longrightarrow> chan_span c = None"
  shows "modes_ok T"
  unfolding modes_ok_def
proof (intro conjI allI impI)
  have len: "length (chans (w_sys (sw S))) = DAHDI_MAX_CHANNELS" using S by (simp add: modes_ok_def)
  have ul: "length (chans (w_sys (sw (unlink_slave n c X)))) = length (chans (w_sys (sw X)))" for n c X by (simp add: unlink_slave_def)
  have al: "length (chans (w_sys (sw V))) = length (chans (w_sys (sw X)))" if "config_apply E s m ch X = Some V" for s m X V
    using that by (auto simp: config_apply_def Let_def set_chan_upd_ch split: option.splits if_splits)
  show "length (chans (w_sys (sw T))) = DAHDI_MAX_CHANNELS"
    using T by (cases rule: chanconfig_cases) (use len ul al in auto)
  fix k d assume k: "k < DAHDI_MAX_CHANNELS" and d: "the_chan k T = Some d"
  show "mode_ok d"
  proof (cases "k = nat (cc_chan ch)")
    case False
    obtain c where "the_chan k S = Some c" "unlinked c = unlinked d"
      using unlinkedE [OF chanconfig_frame [OF T False, symmetric] d] .
    then show ?thesis using S k unlinked_mode [of d c] by (auto simp: modes_ok_def)
  next
    case True
    have un: "map_option unlinked (the_chan k (unlink_slave k c S)) = map_option unlinked (the_chan k (upd_ch k (\<lambda>c. c\<lparr>master := int k\<rparr>) S))
        \<or> the_chan k (unlink_slave k c S) = the_chan k S" for c
      using len k by (simp add: unlink_slave_def unlinked_recalc the_chan_upd_ch option.map_comp comp_def) (simp add: unlinked_def)
    have um: "\<exists>c'. the_chan k S = Some c' \<and> sig e = sig c' \<and> cflags e = cflags c'" if ue: "the_chan k (unlink_slave k c S) = Some e" for c e
    proof -
      from un [of c] show ?thesis
      proof
        assume eq: "map_option unlinked (the_chan k (unlink_slave k c S)) = map_option unlinked (the_chan k (upd_ch k (\<lambda>c. c\<lparr>master := int k\<rparr>) S))"
        obtain g where "the_chan k (upd_ch k (\<lambda>c. c\<lparr>master := int k\<rparr>) S) = Some g" "unlinked g = unlinked e"
          using unlinkedE [OF eq [symmetric] ue] .
        then show ?thesis using unlinked_fields [of g e] len k by (auto simp: the_chan_upd_ch)
      next
        assume q: "the_chan k (unlink_slave k c S) = the_chan k S"
        have "the_chan k S = Some e" by (rule trans [OF q [symmetric] ue])
        then show ?thesis by simp
      qed
    qed
    from T show ?thesis
    proof (cases rule: chanconfig_cases)
      case refused
      then show ?thesis using S k d by (simp add: modes_ok_def)
    next
      case (unsupported c)
      then obtain c' where "the_chan k S = Some c'" "sig d = sig c'" "cflags d = cflags c'" using um d True by auto
      then show ?thesis using S k calm_mode [OF calmI, of d c'] by (simp add: modes_ok_def)
    next
      case (applied c a s m V f)
      have u: "length (chans (w_sys (sw (unlink_slave k c S)))) = DAHDI_MAX_CHANNELS" using len ul by simp
      obtain e g where e: "the_chan k (unlink_slave k c S) = Some e" "the_chan k V = Some g" "in_mode s m g"
        "flagged g FLAGBIT_PSEUDO = flagged e FLAGBIT_PSEUDO"
        using config_apply_mode [OF u _ applied(5) [folded True]] applied(1) True by auto
      have "\<not> flagged c FLAGBIT_PSEUDO" using pseudo [OF applied(1,2)] applied(3) by auto
      then have "\<not> flagged e FLAGBIT_PSEUDO" using um [OF e(1)] applied(2) True by auto
      then have "mode_ok g" using in_mode_ok e(3,4) by simp
      moreover have "d = f g" using d e(2) al [OF applied(5)] len ul k True by (simp add: applied(6) the_chan_upd_ch)
      ultimately show ?thesis using calm_mode [OF calmI, of "f g" g] applied(8,9) by simp
    qed
  qed
qed

lemma audiomode_ok:
  assumes S: "modes_ok S" and c: "the_chan n S = Some c" "n < DAHDI_MAX_CHANNELS"
  shows "modes_ok (snd (ioctl_audiomode j n c S))"
proof -
  have m: "mode_ok c" using S c by (simp add: modes_ok_def)
  have on: "mode_ok (clear_flag FLAGBIT_FCS (clear_flag FLAGBIT_HDLC (set_flag FLAGBIT_AUDIO c)))"
    using m by (simp add: mode_ok_def flagged_set_flag flagged_clear_flag)
  have keep: "modes_ok (on_conf (check_conf x) X) = modes_ok X" "modes_ok (X\<lparr>ec_cur := e\<rparr>) = modes_ok X"
    "modes_ok (X\<lparr>sys_refs := f\<rparr>) = modes_ok X" for X x e f
    by (simp_all add: modes_ok_def)
  show ?thesis using S modes_set_chan [OF S on] modes_set_chan [OF S leave_audio_ok [OF m]]
    by (simp add: ioctl_audiomode_def Let_def keep)
qed

text \<open>
  What users and the administrator do to the modes of registered channels. A pseudo channel has no span
  (\<open>dahdi_alloc_pseudo\<close> gives it none), so \<open>DAHDI_CHANCONFIG\<close> does not return for it.
\<close>

definition spanless_pseudo :: "dahdi_sys \<Rightarrow> bool" where
  "spanless_pseudo S \<longleftrightarrow> (\<forall>n < DAHDI_MAX_CHANNELS. \<forall>c. the_chan n S = Some c \<longrightarrow> flagged c FLAGBIT_PSEUDO \<longrightarrow> chan_span c = None)"

inductive mode_step :: "dahdi_sys \<Rightarrow> dahdi_sys \<Rightarrow> bool" where
  chanconfig: "spanless_pseudo S \<Longrightarrow> ioctl_chanconfig E ch S = Some (r, T) \<Longrightarrow> mode_step S T"
| mode: "n < DAHDI_MAX_CHANNELS \<Longrightarrow> the_chan n S = Some c \<Longrightarrow> mode_step S (set_chan n (snd (mode_ioctl at cmd c)) S)"
| audiomode: "n < DAHDI_MAX_CHANNELS \<Longrightarrow> the_chan n S = Some c \<Longrightarrow> mode_step S (snd (ioctl_audiomode j n c S))"
| opened: "dahdi_specchan_open E nb u S = Some (r, T) \<Longrightarrow> mode_step S T"

lemma mode_step_ok: "mode_step S T \<Longrightarrow> modes_ok S \<Longrightarrow> modes_ok T"
proof (induction rule: mode_step.induct)
  case (chanconfig S E ch r T)
  show ?case by (rule chanconfig_modes [OF chanconfig(3,2)]) (use chanconfig(1) in \<open>simp add: spanless_pseudo_def\<close>)
next
  case (mode n S c at cmd)
  then have "mode_ok c" by (simp add: modes_ok_def)
  then show ?case by (rule modes_set_chan [OF mode(3) mode_ioctl_ok])
next
  case (audiomode n S c j)
  then show ?case by (intro audiomode_ok)
next
  case (opened E nb u S r T)
  show ?case by (rule specchan_open_modes [OF opened(2,1)])
qed

inductive moded :: "dahdi_sys \<Rightarrow> dahdi_sys \<Rightarrow> bool" for S where
  start: "moded S S"
| step: "moded S T \<Longrightarrow> mode_step T U \<Longrightarrow> moded S U"

lemma moded_ok: "moded S T \<Longrightarrow> modes_ok S \<Longrightarrow> modes_ok T"
  by (induction rule: moded.induct) (auto intro: mode_step_ok)

section \<open>Poll tells what a read and a write do\<close>

lemma poll_bits:
  "dahdi_chan_poll (Some c) AND POLLPRI = 0 \<longleftrightarrow> \<not> has_event c"
  "dahdi_chan_poll (Some c) AND POLLIN = 0 \<longleftrightarrow> \<not> (outreadbuf c > -1 \<and> \<not> rxdisable c)"
  "dahdi_chan_poll (Some c) AND POLLOUT = 0 \<longleftrightarrow> \<not> inwritebuf c > -1"
  by (simp_all add: dahdi_chan_poll_def Let_def)

lemma read_outcome:
  assumes "count mod 65536 \<noteq> 0" and r: "dahdi_chan_read nonblock fault count c = (r, d)"
  shows "r = Failed (- ELAST) \<longleftrightarrow> has_event c"
    and "r \<in> {Blocked, Failed (- EAGAIN)} \<longleftrightarrow> \<not> has_event c \<and> \<not> (outreadbuf c > -1 \<and> \<not> rxdisable c)"
proof -
  have "\<not> count mod 65536 < 1" using assms(1) by (simp add: not_less)
  then show "r = Failed (- ELAST) \<longleftrightarrow> has_event c"
    "r \<in> {Blocked, Failed (- EAGAIN)} \<longleftrightarrow> \<not> has_event c \<and> \<not> (outreadbuf c > -1 \<and> \<not> rxdisable c)"
    using r by (auto simp: dahdi_chan_read_def Let_def split: if_splits option.splits)
qed

lemma write_outcome:
  assumes "count mod 65536 \<noteq> 0" and r: "dahdi_chan_write ppp_fcs span nonblock fault count usr c = (r, d)"
  shows "r = Failed (- ELAST) \<longleftrightarrow> has_event c"
    and "r \<in> {Blocked, Failed (- EAGAIN)} \<longleftrightarrow> \<not> has_event c \<and> \<not> inwritebuf c > -1"
proof -
  have "\<not> count mod 65536 < 1" using assms(1) by (simp add: not_less)
  moreover have "has_event (write_stop_tone c) = has_event c" "inwritebuf (write_stop_tone c) = inwritebuf c"
    by (simp_all add: write_stop_tone_def has_event_def)
  ultimately show "r = Failed (- ELAST) \<longleftrightarrow> has_event c"
    "r \<in> {Blocked, Failed (- EAGAIN)} \<longleftrightarrow> \<not> has_event c \<and> \<not> inwritebuf c > -1"
    using r by (auto simp: dahdi_chan_write_def Let_def split: if_splits prod.splits bool.splits)
qed

text \<open>The channel that poll, read and write of a file are for.\<close>

lemma file_channel:
  assumes "unit \<noteq> 250" "dahdi_poll tc unit d S = Some (Inl m)" "0 \<le> m"
  shows "\<exists>u c. data_unit unit d = Inr u \<and> chan_at (w_sys (sw S)) u = Some (Some c) \<and> m = dahdi_chan_poll (Some c)"
proof -
  have neg: "dahdi_chan_poll None < 0" by (simp add: dahdi_chan_poll_def)
  from assms show ?thesis
    by (auto simp: dahdi_poll_def data_unit_def neg split: if_splits file_data.splits option.splits)
      (use neg in \<open>(case_tac z; simp)+\<close>)
qed

text \<open>C16. Whatever is configured, set by ioctl or opened, in any order and with any arguments: no channel of the table ever has a frame
  check sequence without HDLC framing, none carries audio and HDLC frames at once, and every pseudo channel stays clear.\<close>

theorem modes_consistent:
  assumes "moded S T" "modes_ok S" "k < DAHDI_MAX_CHANNELS" "the_chan k T = Some c"
  shows "(flagged c FLAGBIT_FCS \<longrightarrow> flagged c FLAGBIT_HDLC) \<and> \<not> (flagged c FLAGBIT_HDLC \<and> flagged c FLAGBIT_AUDIO) \<and>
    (flagged c FLAGBIT_PSEUDO \<longrightarrow> sig c = SIG_CLEAR)"
  using moded_ok [OF assms(1,2)] assms(3,4) by (auto simp: modes_ok_def mode_ok_def)

text \<open>C17. Poll tells what a read and a write of the same file will do: they wait, or return \<open>-EAGAIN\<close>, exactly when poll shows
  neither the direction nor a pending event, and they return \<open>-ELAST\<close> exactly when poll shows an event.\<close>

theorem poll_honest:
  assumes "unit \<noteq> 250" "dahdi_poll tc unit d S = Some (Inl m)" "0 \<le> m" "count mod 65536 \<noteq> 0"
  shows "\<exists>r w T U. dahdi_read nonblock fault count unit d S = Some (r, T) \<and>
    dahdi_write ppp_fcs nonblock fault count usr unit d S = Some (w, U) \<and>
    (r \<in> {Blocked, Failed (- EAGAIN)} \<longleftrightarrow> m AND POLLIN = 0 \<and> m AND POLLPRI = 0) \<and>
    (w \<in> {Blocked, Failed (- EAGAIN)} \<longleftrightarrow> m AND POLLOUT = 0 \<and> m AND POLLPRI = 0) \<and>
    (r = Failed (- ELAST) \<longleftrightarrow> m AND POLLPRI \<noteq> 0) \<and> (w = Failed (- ELAST) \<longleftrightarrow> m AND POLLPRI \<noteq> 0)"
proof -
  obtain u c where c: "data_unit unit d = Inr u" "chan_at (w_sys (sw S)) u = Some (Some c)" "m = dahdi_chan_poll (Some c)"
    using file_channel [OF assms(1-3)] by blast
  obtain r e where r: "dahdi_chan_read nonblock fault count c = (r, e)" by fastforce
  obtain w f where w: "dahdi_chan_write ppp_fcs (span_of S c) nonblock fault count usr c = (w, f)" by fastforce
  have "dahdi_read nonblock fault count unit d S = Some (r, set_chan (nat u) e S)"
    "dahdi_write ppp_fcs nonblock fault count usr unit d S = Some (w, set_chan (nat u) f S)"
    using c(1,2) r w by (simp_all add: dahdi_read_def dahdi_write_def)
  then show ?thesis
    using read_outcome [OF assms(4) r] write_outcome [OF assms(4) w] poll_bits [of c] c(3) by blast
qed

theorem modes_consistent_witness:
  "flagged (snd (mode_ioctl (\<lambda>_. span0) (HDLCFCSMODE 1) (cfg_chan 1))) FLAGBIT_FCS \<and>
   flagged (snd (mode_ioctl (\<lambda>_. span0) (HDLCFCSMODE 1) (cfg_chan 1))) FLAGBIT_HDLC"
proof -
  define d where "d = snd (mode_ioctl (\<lambda>_. span0) (HDLCFCSMODE 1) (cfg_chan 1))"
  have w: "the_chan n cfg_ex = (if n = 1 then Some (cfg_chan 1) else if n = 2 then Some (cfg_chan 2) else None)" if "n < 1024" for n
    using that by (simp add: the_chan_def w_chan_def cfg_ex_def nth_list_update)
  have ok: "modes_ok cfg_ex"
    by (auto simp: modes_ok_def w mode_ok_def cfg_chan_def split: if_splits) (simp_all add: cfg_ex_def)
  have "moded cfg_ex (set_chan 1 d cfg_ex)"
    unfolding d_def by (rule moded.step [OF moded.start mode_step.mode]) (simp_all add: w)
  moreover have "the_chan 1 (set_chan 1 d cfg_ex) = Some d" by (rule set_chan_same) (simp_all add: w, simp add: cfg_ex_def)
  moreover have "flagged d FLAGBIT_FCS"
    by (simp add: d_def Let_def cfg_chan_def flagged_set_flag)
  ultimately show ?thesis using modes_consistent [OF _ ok, of "set_chan 1 d cfg_ex" 1 d] by (simp add: d_def)
qed

theorem poll_honest_witness:
  "dahdi_poll 0 1 No_Data (set_chan 1 chan_ex cfg_ex) = Some (Inl 260) \<and>
   (\<exists>T. dahdi_read True (\<lambda>_. False) 3 1 No_Data (set_chan 1 chan_ex cfg_ex) = Some (Failed (- EAGAIN), T))"
proof -
  have "the_chan 1 (set_chan 1 chan_ex cfg_ex) = Some chan_ex"
    by (rule set_chan_same) (simp_all add: the_chan_def w_chan_def cfg_ex_def)
  then have c: "chan_at (w_sys (sw (set_chan 1 chan_ex cfg_ex))) 1 = Some (Some chan_ex)"
    by (simp add: chan_at_def the_chan_def w_chan_def)
  have p: "dahdi_poll 0 1 No_Data (set_chan 1 chan_ex cfg_ex) = Some (Inl 260)"
    using c chan_ex_quiet(1) by (simp add: dahdi_poll_def dahdi_chan_poll_def chan_ex_fields)
  obtain r T where r: "dahdi_read True (\<lambda>_. False) 3 1 No_Data (set_chan 1 chan_ex cfg_ex) = Some (r, T)"
      "r \<in> {Blocked, Failed (- EAGAIN)}"
    using poll_honest [OF _ p, of 3 True "\<lambda>_. False" "\<lambda>s b. s" "UBytes []"] by auto
  moreover have "r \<noteq> Blocked"
    using r(1) c by (auto simp: dahdi_read_def data_unit_def dahdi_chan_read_def Let_def split: if_splits option.splits prod.splits)
  ultimately show ?thesis using p by auto
qed

end
